(* ===== verification/Prelude.thy ===== *)
theory Prelude
  imports Main "HOL-Library.Word"
begin

text \<open>
  Shared vocabulary of the development: the error values the modelled operations return, the
  widths of the machine integers the code uses, and the generic facts on words, natural numbers,
  lists and powers that the component theories share.  The collection \<open>word_nat\<close> holds the
  rewrite rules that read a word operation as arithmetic on \<open>nat\<close>.
\<close>

unbundle bit_operations_syntax

named_theorems word_nat \<open>word operations read as arithmetic on nat\<close>

type_synonym u8 = "8 word"
type_synonym u32 = "32 word"
type_synonym u64 = "64 word"

section \<open>Errors\<close>

text \<open>
  The runtime reports an error by throwing and returning \<open>NULL\<close> or \<open>-1\<close>.  The model returns
  the error as the left value of a sum.
\<close>

datatype dee_error =
    DivideByZero
  | NegativeShift
  | IntegerOverflow
  | NotImplemented
  | ValueError
  | UnicodeDecodeError
  | UnicodeEncodeError

type_synonym 'a result = "dee_error + 'a"

section \<open>Words as natural numbers\<close>

lemma unat_and_mask_word [word_nat]:
  fixes x :: "'a::len word"
  shows "unat (x AND mask n) = unat x mod 2 ^ n"
  by (simp only: take_bit_eq_mask [symmetric] unsigned_take_bit_eq)
     (simp add: take_bit_eq_mod)

lemma unat_drop_bit_word [word_nat]:
  fixes x :: "'a::len word"
  shows "unat (drop_bit n x) = unat x div 2 ^ n"
  by (simp only: unat_drop_bit_eq) (simp add: drop_bit_eq_div)

lemma unat_push_bit_word [word_nat]:
  fixes x :: "'a::len word"
  shows "unat (push_bit n x) = (unat x * 2 ^ n) mod 2 ^ LENGTH('a)"
  by (simp only: unsigned_push_bit_eq) (simp add: take_bit_eq_mod push_bit_eq_mult)

lemma unat_ucast_word [word_nat]:
  fixes x :: "'a::len word"
  shows "unat (ucast x :: 'b::len word) = unat x mod 2 ^ LENGTH('b)"
  by (simp add: unsigned_ucast_eq take_bit_eq_mod)

lemma unat_ucast_up:
  fixes x :: "'a::len word"
  assumes "LENGTH('a) \<le> LENGTH('b)"
  shows "unat (ucast x :: 'b::len word) = unat x"
proof -
  have "unat x < 2 ^ LENGTH('a)" by (rule unsigned_less)
  also have "(2::nat) ^ LENGTH('a) \<le> 2 ^ LENGTH('b)" using assms by simp
  finally show ?thesis by (simp add: unat_ucast_word)
qed

lemma unat_add_no_wrap:
  fixes x y :: "'a::len word"
  assumes "unat x + unat y < 2 ^ LENGTH('a)"
  shows "unat (x + y) = unat x + unat y"
  using assms by (simp add: unat_word_ariths(1))

lemma unat_mult_no_wrap:
  fixes x y :: "'a::len word"
  assumes "unat x * unat y < 2 ^ LENGTH('a)"
  shows "unat (x * y) = unat x * unat y"
  using assms by (simp add: unat_word_ariths(2))

lemma unat_push_bit_no_wrap:
  fixes x :: "'a::len word"
  assumes "unat x * 2 ^ n < 2 ^ LENGTH('a)"
  shows "unat (push_bit n x) = unat x * 2 ^ n"
  using assms by (simp add: unat_push_bit_word)

lemma bit_unat_div: "bit (d :: 'a::len word) n \<longleftrightarrow> odd (unat d div 2 ^ n)"
  using bit_unsigned_iff [of d n, where 'a = nat] by (simp add: bit_iff_odd [of "unat d"])

lemma unat_or_disjoint:
  fixes x y :: "'a::len word"
  assumes "x AND y = 0"
  shows "unat (x OR y) = unat x + unat y"
proof -
  have "unat x AND unat y = 0"
    using assms by (metis unsigned_and_eq unsigned_0)
  then have "unat x OR unat y = unat x + unat y"
    by (simp add: disjunctive_add_eq_or)
  then show ?thesis by (simp add: unsigned_or_eq)
qed

text \<open>A shifted value ORed onto a value below the shift is their sum.\<close>

lemma unat_or_shifted:
  fixes x y :: "'a::len word"
  assumes "unat y < 2 ^ n" and "unat x * 2 ^ n < 2 ^ LENGTH('a)"
  shows "unat (push_bit n x OR y) = unat x * 2 ^ n + unat y"
proof -
  have y: "y = take_bit n y"
    using assms(1)
    by (simp only: word_unat_eq_iff unsigned_take_bit_eq) (simp add: take_bit_eq_mod)
  have "push_bit n x AND y = 0"
    by (subst y) (auto simp: bit_eq_iff bit_simps)
  then have "unat (push_bit n x OR y) = unat (push_bit n x) + unat y"
    by (rule unat_or_disjoint)
  then show ?thesis using assms(2) by (simp add: unat_push_bit_no_wrap)
qed

section \<open>Signed machine integers\<close>

text \<open>
  A signed C integer is a word read with \<open>sint\<close>; comparisons are \<open><s\<close> and \<open>\<le>s\<close>.  As long
  as the mathematical result is in range, word arithmetic computes it.
\<close>

lemma sint_add_range:
  fixes x y :: "'a::len word"
  assumes "- (2 ^ (LENGTH('a) - 1)) \<le> sint x + sint y" "sint x + sint y < 2 ^ (LENGTH('a) - 1)"
  shows "sint (x + y) = sint x + sint y"
  using assms by (simp only: sint_word_add signed_take_bit_int_eq_self)

lemma sint_minus_range:
  fixes x :: "'a::len word"
  assumes "- (2 ^ (LENGTH('a) - 1)) \<le> - sint x" "- sint x < 2 ^ (LENGTH('a) - 1)"
  shows "sint (- x) = - sint x"
  using assms by (simp only: sint_word_minus signed_take_bit_int_eq_self)

lemma sint_diff_range:
  fixes x y :: "'a::len word"
  assumes "- (2 ^ (LENGTH('a) - 1)) \<le> sint x - sint y" "sint x - sint y < 2 ^ (LENGTH('a) - 1)"
  shows "sint (x - y) = sint x - sint y"
  using assms by (simp only: sint_word_ariths signed_take_bit_int_eq_self)

lemma sint_mult_range:
  fixes x y :: "'a::len word"
  assumes "- (2 ^ (LENGTH('a) - 1)) \<le> sint x * sint y" "sint x * sint y < 2 ^ (LENGTH('a) - 1)"
  shows "sint (x * y) = sint x * sint y"
  using assms by (simp only: sint_word_mult signed_take_bit_int_eq_self)

lemma sint_uint_cases:
  fixes x :: "'a::len word"
  shows "sint x = (if uint x < 2 ^ (LENGTH('a) - 1) then uint x else uint x - 2 ^ LENGTH('a))"
proof -
  have u: "0 \<le> uint x" "uint x < 2 ^ LENGTH('a)" by (simp_all add: uint_lt2p)
  have p: "(2::int) ^ LENGTH('a) = 2 * 2 ^ (LENGTH('a) - 1)"
    by (metis One_nat_def Suc_pred len_gt_0 power_Suc)
  have s: "sint x = (uint x + 2 ^ (LENGTH('a) - 1)) mod 2 ^ LENGTH('a) - 2 ^ (LENGTH('a) - 1)"
    using int_word_sint [of "uint x", where 'a = 'a] by simp
  show ?thesis
  proof (cases "uint x < 2 ^ (LENGTH('a) - 1)")
    case True
    then have "(uint x + 2 ^ (LENGTH('a) - 1)) mod 2 ^ LENGTH('a) = uint x + 2 ^ (LENGTH('a) - 1)"
      using u p by (intro mod_pos_pos_trivial) linarith+
    with s True show ?thesis by simp
  next
    case False
    then have "(uint x + 2 ^ (LENGTH('a) - 1)) mod 2 ^ LENGTH('a)
        = (uint x + 2 ^ (LENGTH('a) - 1) - 2 ^ LENGTH('a)) mod 2 ^ LENGTH('a)"
      by simp
    also have "\<dots> = uint x + 2 ^ (LENGTH('a) - 1) - 2 ^ LENGTH('a)"
      using u p False by (intro mod_pos_pos_trivial) linarith+
    finally show ?thesis using s False by simp
  qed
qed

lemma sint_small:
  fixes x :: "'a::len word"
  assumes "unat x < 2 ^ (LENGTH('a) - 1)"
  shows "sint x = int (unat x)"
proof -
  have "int (unat x) < int (2 ^ (LENGTH('a) - 1))" using assms by (simp only: of_nat_less_iff)
  then have "uint x < 2 ^ (LENGTH('a) - 1)" by simp
  then show ?thesis by (simp add: sint_uint_cases)
qed

text \<open>The idiom \<open>abs_val = 0 - (unsigned)val\<close> is right for the most negative value, too.\<close>

lemma unat_negated:
  fixes x :: "'a::len word"
  assumes "sint x < 0"
  shows "int (unat (0 - x)) = - sint x"
proof -
  have u: "uint x < 2 ^ LENGTH('a)" by (rule uint_lt2p)
  have s: "sint x = uint x - 2 ^ LENGTH('a)" and n: "0 < uint x"
    using assms sint_uint_cases [of x] by (auto split: if_splits) (smt (verit) zero_less_power)
  have "uint (0 - x) = (- uint x) mod 2 ^ LENGTH('a)"
    by (simp add: uint_word_ariths)
  also have "\<dots> = (2 ^ LENGTH('a) - uint x) mod 2 ^ LENGTH('a)"
    by (metis diff_0 mod_diff_left_eq mod_self)
  also have "\<dots> = 2 ^ LENGTH('a) - uint x"
    using n u by (intro mod_pos_pos_trivial) linarith+
  finally show ?thesis using s by simp
qed

lemma sint_nonneg_unat:
  fixes x :: "'a::len word"
  assumes "0 \<le> sint x"
  shows "int (unat x) = sint x"
proof (cases "uint x < 2 ^ (LENGTH('a) - 1)")
  case True
  then show ?thesis by (simp add: sint_uint_cases)
next
  case False
  then have "sint x = uint x - 2 ^ LENGTH('a)" by (simp add: sint_uint_cases)
  with assms uint_lt2p [of x] show ?thesis by linarith
qed

section \<open>Lists\<close>

lemma list_induct_pair [consumes 1, case_names Nil Cons ConsNil]:
  assumes "length ys \<le> length xs"
    and "P [] []"
    and "\<And>x xs y ys. length ys \<le> length xs \<Longrightarrow> P xs ys \<Longrightarrow> P (x # xs) (y # ys)"
    and "\<And>x xs. P xs [] \<Longrightarrow> P (x # xs) []"
  shows "P xs ys"
  using assms(1)
proof (induction xs arbitrary: ys)
  case Nil
  then show ?case using assms(2) by simp
next
  case (Cons x xs)
  show ?case
  proof (cases ys)
    case Nil
    with Cons.IH [of "[]"] show ?thesis using assms(4) by simp
  next
    case (Cons y ys')
    with Cons.prems Cons.IH [of ys'] show ?thesis using assms(3) by simp
  qed
qed

section \<open>Division with remainder on nat\<close>

lemma div_mod_unique_nat:
  fixes q r b n :: nat
  assumes "n = q * b + r" and "r < b"
  shows "n div b = q" and "n mod b = r"
proof -
  show "n div b = q"
    using assms by (metis div_mult_self3 add.commute add_0_right div_less gr_implies_not0)
  show "n mod b = r"
    using assms by (metis mod_less mod_mult_self3)
qed

end
