(* ===== verification/IntDigits.thy ===== *)
theory IntDigits
  imports Prelude
begin

text \<open>
  Digit vectors: the little-endian arrays of 30-bit digits behind every integer object
  (include/deemon/int.h) and the in-place vector routines of src/deemon/objects/int_logic.c
  (\<open>v_iadd\<close>, \<open>v_isub\<close>, \<open>v_lshift\<close>, \<open>v_rshift\<close>, \<open>inplace_divrem1\<close>, \<open>v_complement\<close>).
  The configuration is the 64-bit one: \<open>Dee_DIGIT_BITS = 30\<close>, a digit is a \<open>uint32_t\<close> and
  \<open>twodigits\<close> a \<open>uint64_t\<close>.  A C loop over an array is a recursion over the list of its digits;
  the carry or borrow it threads is an argument and its final value is returned.
  \<open>dval\<close> is the number a vector denotes; every routine is specified by an equation over it.
\<close>

section \<open>Digits\<close>

type_synonym digit = u32
type_synonym twodigits = u64

definition DIGIT_BITS :: nat where
  "DIGIT_BITS = 30"

definition DIGIT_BASE :: digit where
  "DIGIT_BASE = push_bit DIGIT_BITS 1"

definition DIGIT_MASK :: digit where
  "DIGIT_MASK = DIGIT_BASE - 1"

text \<open>The base as a number, for statements about values.\<close>

definition BASE :: nat where
  "BASE = 2 ^ DIGIT_BITS"

fun dval :: "digit list \<Rightarrow> nat" where
  "dval [] = 0"
| "dval (d # ds) = unat d + BASE * dval ds"

definition digits_ok :: "digit list \<Rightarrow> bool" where
  "digits_ok ds \<longleftrightarrow> list_all (\<lambda>d. d \<le> DIGIT_MASK) ds"

lemma BASE_num: "BASE = 1073741824"
  by (simp add: BASE_def DIGIT_BITS_def)

lemma BASE_pos [simp]: "0 < BASE" "BASE \<noteq> 0" "1 < BASE" "Suc 0 < BASE"
  by (simp_all add: BASE_num)

lemma DIGIT_MASK_mask: "DIGIT_MASK = mask DIGIT_BITS"
  by (simp add: DIGIT_MASK_def DIGIT_BASE_def DIGIT_BITS_def mask_numeral)

lemma unat_DIGIT_MASK: "unat DIGIT_MASK = BASE - 1"
  by (simp add: DIGIT_MASK_def DIGIT_BASE_def DIGIT_BITS_def BASE_def)

lemma DIGIT_MASK_num: "DIGIT_MASK = 1073741823"
  by (simp add: DIGIT_MASK_def DIGIT_BASE_def DIGIT_BITS_def)

lemma le_DIGIT_MASK_iff: "d \<le> DIGIT_MASK \<longleftrightarrow> unat d < BASE"
  by (simp add: word_le_nat_alt unat_DIGIT_MASK BASE_num) linarith

lemma unat_and_DIGIT_MASK [word_nat]: "unat (x AND DIGIT_MASK) = unat x mod BASE"
  by (simp add: DIGIT_MASK_mask unat_and_mask_word BASE_def)

lemma exp_DIGIT_BITS [word_nat]: "2 ^ DIGIT_BITS = BASE"
  by (simp add: BASE_def)

lemma unat_mask_lt_BASE [simp]: "unat (x AND DIGIT_MASK) < BASE"
  by (simp add: unat_and_DIGIT_MASK)

lemma mask_div_split:
  fixes x :: digit
  shows "unat (x AND DIGIT_MASK) + BASE * unat (drop_bit DIGIT_BITS x) = unat x"
  by (simp add: word_nat)

section \<open>The value of a digit vector\<close>

lemma digits_ok_simps [simp]:
  "digits_ok []"
  "digits_ok (d # ds) \<longleftrightarrow> unat d < BASE \<and> digits_ok ds"
  "digits_ok (xs @ ys) \<longleftrightarrow> digits_ok xs \<and> digits_ok ys"
  by (simp_all add: digits_ok_def le_DIGIT_MASK_iff)

lemma digits_ok_alt: "digits_ok ds \<longleftrightarrow> (\<forall>d \<in> set ds. unat d < BASE)"
  by (simp add: digits_ok_def le_DIGIT_MASK_iff list_all_iff)

lemma digits_ok_take [simp]: "digits_ok ds \<Longrightarrow> digits_ok (take n ds)"
  by (auto simp: digits_ok_alt dest: in_set_takeD)

lemma digits_ok_drop [simp]: "digits_ok ds \<Longrightarrow> digits_ok (drop n ds)"
  by (auto simp: digits_ok_alt dest: in_set_dropD)

lemma digits_ok_replicate [simp]: "digits_ok (replicate n 0)"
  by (auto simp: digits_ok_alt)

lemma digits_ok_nth: "digits_ok ds \<Longrightarrow> i < length ds \<Longrightarrow> unat (ds ! i) < BASE"
  by (simp add: digits_ok_alt)

lemma dval_append [simp]: "dval (xs @ ys) = dval xs + BASE ^ length xs * dval ys"
  by (induction xs) (simp_all add: algebra_simps)

lemma dval_replicate_0 [simp]: "dval (replicate n 0) = 0"
  by (induction n) simp_all

lemma dval_bound: "digits_ok ds \<Longrightarrow> dval ds < BASE ^ length ds"
proof (induction ds)
  case Nil
  then show ?case by simp
next
  case (Cons d ds)
  then have "dval ds + 1 \<le> BASE ^ length ds" by simp
  then have "BASE * (dval ds + 1) \<le> BASE * BASE ^ length ds" by (rule mult_le_mono2)
  with Cons.prems show ?case by simp
qed

lemma dval_bound_le: "digits_ok ds \<Longrightarrow> length ds \<le> n \<Longrightarrow> dval ds < BASE ^ n"
  using dval_bound [of ds] power_increasing [of "length ds" n BASE]
  by (simp add: order.strict_trans2 Suc_leI)

lemma dval_take_drop: "dval ds = dval (take n ds) + BASE ^ min (length ds) n * dval (drop n ds)"
  by (metis append_take_drop_id dval_append length_take)

lemma dval_eq_0_iff: "dval ds = 0 \<longleftrightarrow> (\<forall>d \<in> set ds. d = 0)"
  by (induction ds) (auto simp: unat_eq_zero)

lemma dval_inject:
  assumes "length xs = length ys" "digits_ok xs" "digits_ok ys" "dval xs = dval ys"
  shows "xs = ys"
  using assms
proof (induction xs ys rule: list_induct2)
  case Nil
  then show ?case by simp
next
  case (Cons x xs y ys)
  have "unat x = unat y"
    using Cons.prems by (metis digits_ok_simps(2) dval.simps(2) mod_less mod_mult_self2)
  with Cons show ?case by (simp add: word_unat_eq_iff)
qed

text \<open>A vector whose top digit is set denotes at least the weight of that digit.\<close>

lemma dval_lower: "ds \<noteq> [] \<Longrightarrow> last ds \<noteq> 0 \<Longrightarrow> BASE ^ (length ds - 1) \<le> dval ds"
proof (induction ds)
  case Nil
  then show ?case by simp
next
  case (Cons d ds)
  show ?case
  proof (cases "ds = []")
    case True
    with Cons.prems show ?thesis by (simp add: Suc_le_eq unat_gt_0)
  next
    case False
    with Cons have "BASE ^ (length ds - 1) \<le> dval ds" by simp
    then have "BASE * BASE ^ (length ds - 1) \<le> BASE * dval ds" by (rule mult_le_mono2)
    then have "BASE ^ length ds \<le> BASE * dval ds"
      using False by (cases ds) simp_all
    then show ?thesis by simp
  qed
qed

lemma dval_last:
  assumes "digits_ok ds" "ds \<noteq> []" "BASE ^ (length ds - 1) \<le> dval ds"
  shows "last ds \<noteq> 0"
proof
  assume z: "last ds = 0"
  have ds: "ds = butlast ds @ [last ds]" using assms(2) by simp
  have "dval ds = dval (butlast ds)" by (subst ds, simp only: dval_append) (simp add: z)
  moreover have "digits_ok (butlast ds)" using assms(1) by (metis ds digits_ok_simps(3))
  ultimately show False using dval_bound [of "butlast ds"] assms(3) by simp
qed

section \<open>One step of a carry or borrow loop\<close>

text \<open>Every loop that adds stores the low 30 bits of the accumulator and carries the rest.\<close>

lemma carry_step:
  fixes c x y :: digit
  assumes "unat c \<le> 1" "unat x < BASE" "unat y < BASE"
  defines "s \<equiv> c + (x + y)"
  shows "unat (s AND DIGIT_MASK) + BASE * unat (drop_bit DIGIT_BITS s)
          = unat c + unat x + unat y"
    and "unat (drop_bit DIGIT_BITS s) \<le> 1"
proof -
  have "unat (x + y) = unat x + unat y"
    using assms(2,3) by (intro unat_add_no_wrap) (simp add: BASE_num)
  then have s: "unat s = unat c + unat x + unat y"
    unfolding s_def using assms(1-3) by (subst unat_add_no_wrap) (simp_all add: BASE_num)
  show "unat (s AND DIGIT_MASK) + BASE * unat (drop_bit DIGIT_BITS s) = unat c + unat x + unat y"
    using mask_div_split [of s] s by simp
  show "unat (drop_bit DIGIT_BITS s) \<le> 1"
    using s assms(1-3) by (simp add: word_nat BASE_num)
qed

text \<open>
  Every loop that subtracts lets the 32-bit difference wrap; bit 30 of the wrapped value is the
  borrow.
\<close>

lemma borrow_step:
  fixes b x y :: digit
  assumes "unat b \<le> 1" "unat x < BASE" "unat y < BASE"
  defines "t \<equiv> x - y - b"
  shows "unat (t AND DIGIT_MASK) + unat y + unat b
          = unat x + BASE * unat (drop_bit DIGIT_BITS t AND 1)"
    and "unat (drop_bit DIGIT_BITS t AND 1) \<le> 1"
proof -
  have one: "unat (drop_bit DIGIT_BITS t AND 1) = unat t div BASE mod 2"
    using unat_and_mask_word [of "drop_bit DIGIT_BITS t" 1]
    by (simp add: word_nat mask_Suc_0)
  show "unat (drop_bit DIGIT_BITS t AND 1) \<le> 1"
    by (simp add: one)
  show "unat (t AND DIGIT_MASK) + unat y + unat b
          = unat x + BASE * unat (drop_bit DIGIT_BITS t AND 1)"
  proof (cases "unat y + unat b \<le> unat x")
    case True
    then have "unat t = unat x - unat y - unat b"
      by (simp add: t_def unat_sub_if')
    with True assms(2) show ?thesis by (simp add: one word_nat)
  next
    case False
    have t: "unat t = 4294967296 + unat x - unat y - unat b"
      using False assms(1,2,3) by (auto simp: t_def unat_sub_if' BASE_num)
    have d: "unat t = 3 * BASE + (BASE + unat x - unat y - unat b)"
      using t assms(1,2,3) by (simp add: BASE_num)
    have r: "BASE + unat x - unat y - unat b < BASE"
      using False BASE_pos(1) by arith
    from div_mod_unique_nat [OF d r] have "unat t div BASE = 3"
      and "unat t mod BASE = BASE + unat x - unat y - unat b" by simp_all
    then show ?thesis using assms(1,2,3) by (simp add: one word_nat)
  qed
qed

section \<open>Adding and subtracting vectors in place\<close>

text \<open>
  \<open>v_iadd x m y n\<close>: add the \<open>n\<close> digits of \<open>y\<close> to the \<open>m \<ge> n\<close> digits of \<open>x\<close> in place and return
  the final carry.  Past the end of \<open>y\<close> the loop stops as soon as the carry is zero.
\<close>

fun v_iadd_loop :: "digit \<Rightarrow> digit list \<Rightarrow> digit list \<Rightarrow> digit list \<times> digit" where
  "v_iadd_loop carry (x # xs) (y # ys) =
     (let carry = carry + (x + y);
          (zs, c) = v_iadd_loop (drop_bit DIGIT_BITS carry) xs ys
      in ((carry AND DIGIT_MASK) # zs, c))"
| "v_iadd_loop carry (x # xs) [] =
     (if carry = 0 then (x # xs, carry)
      else let carry = carry + x;
               (zs, c) = v_iadd_loop (drop_bit DIGIT_BITS carry) xs []
           in ((carry AND DIGIT_MASK) # zs, c))"
| "v_iadd_loop carry [] ys = ([], carry)"

definition v_iadd :: "digit list \<Rightarrow> digit list \<Rightarrow> digit list \<times> digit" where
  "v_iadd x y = v_iadd_loop 0 x y"

fun v_isub_loop :: "digit \<Rightarrow> digit list \<Rightarrow> digit list \<Rightarrow> digit list \<times> digit" where
  "v_isub_loop borrow (x # xs) (y # ys) =
     (let borrow = x - y - borrow;
          (zs, b) = v_isub_loop (drop_bit DIGIT_BITS borrow AND 1) xs ys
      in ((borrow AND DIGIT_MASK) # zs, b))"
| "v_isub_loop borrow (x # xs) [] =
     (if borrow = 0 then (x # xs, borrow)
      else let borrow = x - borrow;
               (zs, b) = v_isub_loop (drop_bit DIGIT_BITS borrow AND 1) xs []
           in ((borrow AND DIGIT_MASK) # zs, b))"
| "v_isub_loop borrow [] ys = ([], borrow)"

definition v_isub :: "digit list \<Rightarrow> digit list \<Rightarrow> digit list \<times> digit" where
  "v_isub x y = v_isub_loop 0 x y"

lemma v_iadd_loop_spec:
  assumes "length ys \<le> length xs" "digits_ok xs" "digits_ok ys" "unat c \<le> 1"
    and "v_iadd_loop c xs ys = (zs, c')"
  shows "dval zs + BASE ^ length xs * unat c' = unat c + dval xs + dval ys
    \<and> length zs = length xs \<and> digits_ok zs \<and> unat c' \<le> 1"
  using assms
proof (induction xs ys arbitrary: c zs c' rule: list_induct_pair)
  case Nil
  then show ?case by simp
next
  case (Cons x xs y ys)
  let ?s = "c + (x + y)"
  obtain zs' where rec: "v_iadd_loop (drop_bit DIGIT_BITS ?s) xs ys = (zs', c')"
    and zs: "zs = (?s AND DIGIT_MASK) # zs'"
    using Cons.prems(4) by (auto simp: Let_def split: prod.splits)
  note step = carry_step [of c x y]
  have IH: "dval zs' + BASE ^ length xs * unat c' = unat (drop_bit DIGIT_BITS ?s) + dval xs + dval ys
      \<and> length zs' = length xs \<and> digits_ok zs' \<and> unat c' \<le> 1"
    using Cons.IH [OF _ _ _ rec] Cons.prems step by simp
  have "dval zs + BASE ^ length (x # xs) * unat c' =
      unat (?s AND DIGIT_MASK) + BASE * (dval zs' + BASE ^ length xs * unat c')"
    by (simp add: zs algebra_simps)
  also have "\<dots> = unat (?s AND DIGIT_MASK) + BASE * unat (drop_bit DIGIT_BITS ?s)
      + BASE * (dval xs + dval ys)"
    using IH by (simp add: algebra_simps)
  also have "\<dots> = unat c + dval (x # xs) + dval (y # ys)"
    using step Cons.prems by (simp add: algebra_simps)
  finally show ?case using IH zs by simp
next
  case (ConsNil x xs)
  show ?case
  proof (cases "c = 0")
    case True
    with ConsNil.prems show ?thesis by auto
  next
    case False
    let ?s = "c + x"
    obtain zs' where rec: "v_iadd_loop (drop_bit DIGIT_BITS ?s) xs [] = (zs', c')"
      and zs: "zs = (?s AND DIGIT_MASK) # zs'"
      using ConsNil.prems(4) False by (auto simp: Let_def split: prod.splits)
    note step = carry_step [of c x 0]
    have IH: "dval zs' + BASE ^ length xs * unat c' = unat (drop_bit DIGIT_BITS ?s) + dval xs
        \<and> length zs' = length xs \<and> digits_ok zs' \<and> unat c' \<le> 1"
      using ConsNil.IH [OF _ _ _ rec] ConsNil.prems step by simp
    have "dval zs + BASE ^ length (x # xs) * unat c' =
        unat (?s AND DIGIT_MASK) + BASE * (dval zs' + BASE ^ length xs * unat c')"
      by (simp add: zs algebra_simps)
    also have "\<dots> = unat (?s AND DIGIT_MASK) + BASE * unat (drop_bit DIGIT_BITS ?s) + BASE * dval xs"
      using IH by (simp add: algebra_simps)
    also have "\<dots> = unat c + dval (x # xs) + dval []"
      using step ConsNil.prems by (simp add: algebra_simps)
    finally show ?thesis using IH zs by simp
  qed
qed

lemma v_isub_loop_spec:
  assumes "length ys \<le> length xs" "digits_ok xs" "digits_ok ys" "unat b \<le> 1"
    and "v_isub_loop b xs ys = (zs, b')"
  shows "dval zs + dval ys + unat b = dval xs + BASE ^ length xs * unat b'
    \<and> length zs = length xs \<and> digits_ok zs \<and> unat b' \<le> 1"
  using assms
proof (induction xs ys arbitrary: b zs b' rule: list_induct_pair)
  case Nil
  then show ?case by simp
next
  case (Cons x xs y ys)
  let ?t = "x - y - b"
  obtain zs' where rec: "v_isub_loop (drop_bit DIGIT_BITS ?t AND 1) xs ys = (zs', b')"
    and zs: "zs = (?t AND DIGIT_MASK) # zs'"
    using Cons.prems(4) by (auto simp: Let_def split: prod.splits)
  note step = borrow_step [of b x y]
  have IH: "dval zs' + dval ys + unat (drop_bit DIGIT_BITS ?t AND 1) = dval xs + BASE ^ length xs * unat b'
      \<and> length zs' = length xs \<and> digits_ok zs' \<and> unat b' \<le> 1"
    using Cons.IH [OF _ _ _ rec] Cons.prems step by simp
  have "dval zs + dval (y # ys) + unat b + BASE * unat (drop_bit DIGIT_BITS ?t AND 1) =
      (unat (?t AND DIGIT_MASK) + unat y + unat b)
      + BASE * (dval zs' + dval ys + unat (drop_bit DIGIT_BITS ?t AND 1))"
    by (simp add: zs algebra_simps)
  also have "\<dots> = unat x + BASE * unat (drop_bit DIGIT_BITS ?t AND 1)
      + BASE * (dval xs + BASE ^ length xs * unat b')"
    using step Cons.prems IH by simp
  finally have "dval zs + dval (y # ys) + unat b = dval (x # xs) + BASE ^ length (x # xs) * unat b'"
    by (simp add: algebra_simps)
  with IH zs show ?case by simp
next
  case (ConsNil x xs)
  show ?case
  proof (cases "b = 0")
    case True
    with ConsNil.prems show ?thesis by auto
  next
    case False
    let ?t = "x - b"
    obtain zs' where rec: "v_isub_loop (drop_bit DIGIT_BITS ?t AND 1) xs [] = (zs', b')"
      and zs: "zs = (?t AND DIGIT_MASK) # zs'"
      using ConsNil.prems(4) False by (auto simp: Let_def split: prod.splits)
    note step = borrow_step [of b x 0]
    have IH: "dval zs' + unat (drop_bit DIGIT_BITS ?t AND 1) = dval xs + BASE ^ length xs * unat b'
        \<and> length zs' = length xs \<and> digits_ok zs' \<and> unat b' \<le> 1"
      using ConsNil.IH [OF _ _ _ rec] ConsNil.prems step by simp
    have "dval zs + unat b + BASE * unat (drop_bit DIGIT_BITS ?t AND 1) =
        (unat (?t AND DIGIT_MASK) + unat b)
        + BASE * (dval zs' + unat (drop_bit DIGIT_BITS ?t AND 1))"
      by (simp add: zs algebra_simps)
    also have "\<dots> = unat x + BASE * unat (drop_bit DIGIT_BITS ?t AND 1)
        + BASE * (dval xs + BASE ^ length xs * unat b')"
      using step ConsNil.prems IH by simp
    finally have "dval zs + unat b = dval (x # xs) + BASE ^ length (x # xs) * unat b'"
      by (simp add: algebra_simps)
    with IH zs show ?thesis by simp
  qed
qed

lemma v_iadd_spec:
  assumes "length y \<le> length x" "digits_ok x" "digits_ok y" "v_iadd x y = (z, c)"
  shows "dval z + BASE ^ length x * unat c = dval x + dval y"
    and "length z = length x" "digits_ok z" "unat c \<le> 1"
  using v_iadd_loop_spec [of y x 0 z c] assms by (simp_all add: v_iadd_def)

lemma v_isub_spec:
  assumes "length y \<le> length x" "digits_ok x" "digits_ok y" "v_isub x y = (z, b)"
  shows "dval z + dval y = dval x + BASE ^ length x * unat b"
    and "length z = length x" "digits_ok z" "unat b \<le> 1"
  using v_isub_loop_spec [of y x 0 z b] assms by (simp_all add: v_isub_def)

section \<open>Shifting vectors by less than a digit\<close>

text \<open>\<open>v_lshift\<close> runs upwards and returns the bits shifted out at the top.\<close>

fun v_lshift_loop :: "nat \<Rightarrow> digit \<Rightarrow> digit list \<Rightarrow> digit list \<times> digit" where
  "v_lshift_loop d carry [] = ([], carry)"
| "v_lshift_loop d carry (a # as) =
     (let acc = push_bit d (ucast a :: twodigits) OR ucast carry;
          (zs, c) = v_lshift_loop d (ucast (drop_bit DIGIT_BITS acc)) as
      in ((ucast acc AND DIGIT_MASK) # zs, c))"

definition v_lshift :: "digit list \<Rightarrow> nat \<Rightarrow> digit list \<times> digit" where
  "v_lshift a d = v_lshift_loop d 0 a"

text \<open>\<open>v_rshift\<close> runs downwards and returns the bits shifted out at the bottom.\<close>

fun v_rshift :: "digit list \<Rightarrow> nat \<Rightarrow> digit list \<times> digit" where
  "v_rshift [] d = ([], 0)"
| "v_rshift (a # as) d =
     (let (zs, carry) = v_rshift as d;
          mask = push_bit d 1 - 1;
          acc = push_bit DIGIT_BITS (ucast carry :: twodigits) OR ucast a
      in (ucast (drop_bit d acc) # zs, ucast acc AND mask))"

text \<open>The accumulator of \<open>v_lshift\<close>: the shifted digit above the carry.\<close>

lemma lshift_acc:
  fixes a carry :: digit
  assumes "d < DIGIT_BITS" "unat a < BASE" "unat carry < 2 ^ d"
  defines "acc \<equiv> push_bit d (ucast a :: twodigits) OR ucast carry"
  shows "unat acc = unat a * 2 ^ d + unat carry"
    and "unat (drop_bit DIGIT_BITS acc) < 2 ^ d"
proof -
  have a: "unat (ucast a :: twodigits) = unat a"
    and c: "unat (ucast carry :: twodigits) = unat carry"
    by (simp_all add: unat_ucast_up)
  have d: "(2::nat) ^ d \<le> 2 ^ 29"
    using assms(1) by (intro power_increasing) (simp_all add: DIGIT_BITS_def)
  have "unat a * 2 ^ d < BASE * 2 ^ 29"
    using assms(2) d by (intro mult_less_le_imp_less) simp_all
  then have b: "unat a * 2 ^ d < 2 ^ LENGTH(64)" by (simp add: BASE_num)
  show acc: "unat acc = unat a * 2 ^ d + unat carry"
    unfolding acc_def using unat_or_shifted [of "ucast carry :: twodigits" d "ucast a"]
    by (simp add: a c assms(3)) (use b in simp)
  have "unat a * 2 ^ d + unat carry < (unat a + 1) * 2 ^ d" using assms(3) by simp
  also have "\<dots> \<le> BASE * 2 ^ d" using assms(2) by (intro mult_le_mono1) simp
  finally show "unat (drop_bit DIGIT_BITS acc) < 2 ^ d"
    using acc by (simp add: word_nat less_mult_imp_div_less mult.commute)
qed

lemma v_lshift_loop_spec:
  assumes "d < DIGIT_BITS" "digits_ok as" "unat carry < 2 ^ d" "v_lshift_loop d carry as = (zs, c)"
  shows "dval zs + BASE ^ length as * unat c = dval as * 2 ^ d + unat carry
    \<and> length zs = length as \<and> digits_ok zs \<and> unat c < 2 ^ d"
  using assms
proof (induction as arbitrary: carry zs c)
  case Nil
  then show ?case by simp
next
  case (Cons a as)
  define acc where "acc = push_bit d (ucast a :: twodigits) OR ucast carry"
  let ?k = "ucast (drop_bit DIGIT_BITS acc) :: digit"
  obtain zs' where rec: "v_lshift_loop d ?k as = (zs', c)"
    and zs: "zs = (ucast acc AND DIGIT_MASK) # zs'"
    using Cons.prems(4) by (auto simp: Let_def acc_def split: prod.splits)
  have acc: "unat acc = unat a * 2 ^ d + unat carry" "unat (drop_bit DIGIT_BITS acc) < 2 ^ d"
    using lshift_acc [of d a carry] Cons.prems by (simp_all add: acc_def)
  have "(2::nat) ^ d \<le> 2 ^ 32"
    using Cons.prems(1) by (intro power_increasing) (simp_all add: DIGIT_BITS_def)
  then have k: "unat ?k = unat acc div BASE"
    using acc(2) by (simp add: word_nat)
  have lo: "unat (ucast acc AND DIGIT_MASK) = unat acc mod BASE"
    by (simp add: word_nat BASE_num mod_mod_cancel)
  have IH: "dval zs' + BASE ^ length as * unat c = dval as * 2 ^ d + unat ?k
      \<and> length zs' = length as \<and> digits_ok zs' \<and> unat c < 2 ^ d"
    using Cons.IH [OF _ _ _ rec] Cons.prems acc(2) k by (simp add: word_nat)
  have "dval zs + BASE ^ length (a # as) * unat c =
      unat acc mod BASE + BASE * (dval zs' + BASE ^ length as * unat c)"
    by (simp add: zs lo algebra_simps)
  also have "\<dots> = unat acc mod BASE + BASE * (unat acc div BASE) + BASE * (dval as * 2 ^ d)"
    using IH k by (simp add: algebra_simps)
  also have "\<dots> = dval (a # as) * 2 ^ d + unat carry"
    using acc(1) by (simp add: algebra_simps)
  finally show ?case using IH zs by simp
qed

lemma v_lshift_spec:
  assumes "d < DIGIT_BITS" "digits_ok a" "v_lshift a d = (z, c)"
  shows "dval z + BASE ^ length a * unat c = dval a * 2 ^ d"
    and "length z = length a" "digits_ok z" "unat c < 2 ^ d"
  using v_lshift_loop_spec [of d a 0 z c] assms by (simp_all add: v_lshift_def)

lemma v_rshift_spec:
  assumes "d < DIGIT_BITS" "digits_ok a" "v_rshift a d = (z, c)"
  shows "dval a = dval z * 2 ^ d + unat c \<and> length z = length a \<and> digits_ok z \<and> unat c < 2 ^ d"
  using assms
proof (induction a arbitrary: z c)
  case Nil
  then show ?case by simp
next
  case (Cons a as)
  obtain zs k where rec: "v_rshift as d = (zs, k)" by fastforce
  define acc where "acc = push_bit DIGIT_BITS (ucast k :: twodigits) OR ucast a"
  have z: "z = ucast (drop_bit d acc) # zs" and c: "c = ucast acc AND (push_bit d 1 - 1)"
    using Cons.prems(3) rec by (simp_all add: Let_def acc_def)
  have IH: "dval as = dval zs * 2 ^ d + unat k" "length zs = length as" "digits_ok zs" "unat k < 2 ^ d"
    using Cons.IH [OF _ _ rec] Cons.prems by simp_all
  have d29: "(2::nat) ^ d \<le> 2 ^ 29"
    using Cons.prems(1) by (intro power_increasing) (simp_all add: DIGIT_BITS_def)
  have "unat k * BASE < 2 ^ 29 * BASE" using IH(4) d29 by simp
  then have kb: "unat k * BASE < 2 ^ LENGTH(64)" by (simp add: BASE_num)
  have acc: "unat acc = unat k * BASE + unat a"
    using unat_or_shifted [of "ucast a :: twodigits" DIGIT_BITS "ucast k"] Cons.prems(2) kb
    by (simp add: unat_ucast_up BASE_def acc_def)
  have q: "unat acc div 2 ^ d < BASE"
  proof -
    have "unat acc < 2 ^ d * BASE"
    proof -
      have "unat acc < (unat k + 1) * BASE" using acc Cons.prems(2) by simp
      also have "\<dots> \<le> 2 ^ d * BASE" using IH(4) by (intro mult_le_mono1) simp
      finally show ?thesis .
    qed
    then show ?thesis by (simp add: less_mult_imp_div_less mult.commute)
  qed
  have hi: "unat (ucast (drop_bit d acc) :: digit) = unat acc div 2 ^ d"
    using q by (simp add: word_nat BASE_num)
  have lo: "unat c = unat acc mod 2 ^ d"
  proof -
    have "push_bit d 1 - 1 = (mask d :: digit)" by (simp add: mask_eq_exp_minus_1)
    then have "unat c = unat acc mod 2 ^ 32 mod 2 ^ d"
      by (simp add: c word_nat)
    also have "\<dots> = unat acc mod 2 ^ d"
      using Cons.prems(1) by (intro mod_mod_cancel le_imp_power_dvd) (simp add: DIGIT_BITS_def)
    finally show ?thesis .
  qed
  have "dval (a # as) = unat acc + BASE * (dval zs * 2 ^ d)"
    using acc IH(1) by (simp add: algebra_simps)
  also have "\<dots> = (unat acc div 2 ^ d) * 2 ^ d + unat acc mod 2 ^ d + BASE * (dval zs * 2 ^ d)"
    by (simp only: div_mult_mod_eq)
  also have "\<dots> = dval z * 2 ^ d + unat c"
    by (simp add: z hi lo algebra_simps)
  finally show ?case using IH q hi lo z by simp
qed

section \<open>Dividing a vector by one digit\<close>

text \<open>
  \<open>inplace_divrem1\<close> walks from the most significant digit down.  The remainder is kept as
  \<open>twodigits\<close>; the caller truncates it to a digit.
\<close>

fun inplace_divrem1_loop :: "digit list \<Rightarrow> digit \<Rightarrow> digit list \<times> twodigits" where
  "inplace_divrem1_loop [] n = ([], 0)"
| "inplace_divrem1_loop (a # as) n =
     (let (zs, rem) = inplace_divrem1_loop as n;
          rem = push_bit DIGIT_BITS rem OR ucast a;
          hi = ucast (rem div ucast n) :: digit
      in (hi # zs, rem - ucast hi * ucast n))"

definition inplace_divrem1 :: "digit list \<Rightarrow> digit \<Rightarrow> digit list \<times> digit" where
  "inplace_divrem1 pin n =
     (let (zs, rem) = inplace_divrem1_loop pin n in (zs, ucast rem))"

lemma unat_div_word [word_nat]: "unat (x div y) = unat x div unat y"
  by (rule unat_div)

lemma inplace_divrem1_loop_spec:
  assumes "0 < unat n" "unat n < BASE" "digits_ok a" "inplace_divrem1_loop a n = (z, r)"
  shows "dval a = dval z * unat n + unat r \<and> length z = length a \<and> digits_ok z \<and> unat r < unat n"
  using assms(3,4)
proof (induction a arbitrary: z r)
  case Nil
  then show ?case using assms(1) by simp
next
  case (Cons a as)
  obtain zs k where rec: "inplace_divrem1_loop as n = (zs, k)" by fastforce
  define acc where "acc = push_bit DIGIT_BITS k OR ucast a"
  define hi where "hi = (ucast (acc div ucast n) :: digit)"
  have z: "z = hi # zs" and r: "r = acc - ucast hi * ucast n"
    using Cons.prems(2) rec by (simp_all add: Let_def acc_def hi_def)
  have IH: "dval as = dval zs * unat n + unat k" "length zs = length as" "digits_ok zs" "unat k < unat n"
    using Cons.IH [OF _ rec] Cons.prems by simp_all
  have "unat k * BASE < BASE * BASE"
    using IH(4) assms(2) by simp
  then have "unat k * BASE < 2 ^ LENGTH(64)" by (simp add: BASE_num)
  then have acc: "unat acc = unat k * BASE + unat a"
    using unat_or_shifted [of "ucast a :: twodigits" DIGIT_BITS k] Cons.prems(1)
    by (simp add: unat_ucast_up BASE_def acc_def)
  have "unat acc < (unat k + 1) * BASE" using acc Cons.prems(1) by simp
  also have "\<dots> \<le> unat n * BASE" using IH(4) by (intro mult_le_mono1) simp
  finally have q: "unat acc div unat n < BASE"
    by (simp add: less_mult_imp_div_less mult.commute)
  have n: "unat (ucast n :: twodigits) = unat n" by (simp add: unat_ucast_up)
  have hi: "unat hi = unat acc div unat n"
    using q unat_ucast_word [of "acc div ucast n", where 'b = 32]
    by (simp add: hi_def unat_div n BASE_num)
  have hn: "unat (ucast hi * ucast n :: twodigits) = unat acc div unat n * unat n"
  proof -
    have "unat acc div unat n * unat n \<le> unat acc" by simp
    also have "\<dots> < 2 ^ LENGTH(64)" by (rule unsigned_less)
    finally show ?thesis
      by (subst unat_mult_no_wrap) (simp_all add: unat_ucast_up hi)
  qed
  have r': "unat r = unat acc mod unat n"
    unfolding r using hn by (simp add: unat_sub_if' minus_div_mult_eq_mod)
  have "dval (a # as) = unat acc + BASE * (dval zs * unat n)"
    using acc IH(1) by (simp add: algebra_simps)
  also have "\<dots> = unat acc div unat n * unat n + unat acc mod unat n + BASE * (dval zs * unat n)"
    by (simp only: div_mult_mod_eq)
  also have "\<dots> = dval z * unat n + unat r"
    by (simp add: z hi r' algebra_simps)
  finally show ?case using IH q hi z r' assms(1) by simp
qed

lemma inplace_divrem1_spec:
  assumes "0 < unat n" "unat n < BASE" "digits_ok a" "inplace_divrem1 a n = (z, r)"
  shows "dval a = dval z * unat n + unat r"
    and "length z = length a" "digits_ok z" "unat r < unat n"
    and "dval z = dval a div unat n" "unat r = dval a mod unat n"
proof -
  obtain k where rec: "inplace_divrem1_loop a n = (z, k)" and r: "r = ucast k"
    using assms(4) by (auto simp: inplace_divrem1_def split: prod.splits)
  note spec = inplace_divrem1_loop_spec [OF assms(1-3) rec]
  have rk: "unat r = unat k"
    using spec assms(2) by (simp add: r word_nat BASE_num)
  show eq: "dval a = dval z * unat n + unat r" and "length z = length a" "digits_ok z"
    and lt: "unat r < unat n"
    using spec rk by simp_all
  show "dval z = dval a div unat n" "unat r = dval a mod unat n"
    using div_mod_unique_nat [OF eq lt] by simp_all
qed

section \<open>Two's complement of a vector\<close>

fun v_complement_loop :: "digit \<Rightarrow> digit list \<Rightarrow> digit list \<times> digit" where
  "v_complement_loop carry [] = ([], carry)"
| "v_complement_loop carry (a # as) =
     (let carry = carry + (a XOR DIGIT_MASK);
          (zs, c) = v_complement_loop (drop_bit DIGIT_BITS carry) as
      in ((carry AND DIGIT_MASK) # zs, c))"

definition v_complement :: "digit list \<Rightarrow> digit list" where
  "v_complement a = fst (v_complement_loop 1 a)"

lemma unat_xor_DIGIT_MASK:
  assumes "unat a < BASE"
  shows "unat (a XOR DIGIT_MASK) + unat a = BASE - 1"
proof -
  have a: "a AND NOT DIGIT_MASK = 0"
  proof -
    have "take_bit DIGIT_BITS a = a"
      using assms by (simp add: word_unat_eq_iff unsigned_take_bit_eq take_bit_nat_eq_self BASE_def)
    then show ?thesis
      by (metis DIGIT_MASK_mask bit.conj_cancel_right bit.conj_zero_right and.assoc take_bit_eq_mask)
  qed
  have disj: "(a XOR DIGIT_MASK) AND a = 0"
    using a by (auto simp: bit_eq_iff bit_simps)
  have "(a XOR DIGIT_MASK) OR a = DIGIT_MASK"
    using a by (auto simp: bit_eq_iff bit_simps)
  with unat_or_disjoint [OF disj] show ?thesis by (simp add: unat_DIGIT_MASK)
qed

lemma v_complement_loop_spec:
  assumes "digits_ok a" "unat c \<le> 1" "v_complement_loop c a = (z, c')"
  shows "dval z + BASE ^ length a * unat c' + dval a = BASE ^ length a - 1 + unat c
    \<and> length z = length a \<and> digits_ok z \<and> unat c' \<le> 1"
  using assms
proof (induction a arbitrary: c z c')
  case Nil
  then show ?case by simp
next
  case (Cons a as)
  define s where "s = c + (a XOR DIGIT_MASK)"
  obtain zs where rec: "v_complement_loop (drop_bit DIGIT_BITS s) as = (zs, c')"
    and z: "z = (s AND DIGIT_MASK) # zs"
    using Cons.prems(3) by (auto simp: Let_def s_def split: prod.splits)
  have x: "unat (a XOR DIGIT_MASK) + unat a = BASE - 1"
    using Cons.prems(1) by (simp add: unat_xor_DIGIT_MASK)
  then have xb: "unat (a XOR DIGIT_MASK) < BASE" using BASE_pos(1) by linarith
  have step: "unat (s AND DIGIT_MASK) + BASE * unat (drop_bit DIGIT_BITS s) = unat c + unat (a XOR DIGIT_MASK)"
    "unat (drop_bit DIGIT_BITS s) \<le> 1"
    using carry_step [of c "a XOR DIGIT_MASK" 0] Cons.prems(2) xb by (simp_all add: s_def)
  have IH: "dval zs + BASE ^ length as * unat c' + dval as = BASE ^ length as - 1 + unat (drop_bit DIGIT_BITS s)"
    "length zs = length as" "digits_ok zs" "unat c' \<le> 1"
    using Cons.IH [OF _ step(2) rec] Cons.prems by simp_all
  have "dval z + BASE ^ length (a # as) * unat c' + dval (a # as) =
      unat (s AND DIGIT_MASK) + unat a + BASE * (dval zs + BASE ^ length as * unat c' + dval as)"
    by (simp add: z algebra_simps)
  also have "\<dots> = unat (s AND DIGIT_MASK) + unat a
      + (BASE * BASE ^ length as - BASE) + BASE * unat (drop_bit DIGIT_BITS s)"
    unfolding IH(1) by (simp add: algebra_simps)
  also have "\<dots> = unat c + (BASE - 1) + (BASE * BASE ^ length as - BASE)"
    using step(1) x by simp
  also have "\<dots> = BASE ^ length (a # as) - 1 + unat c"
  proof -
    have "unat c + (BASE - 1) + (w - BASE) = w - 1 + unat c" if "BASE \<le> w" for w
      using that BASE_pos(1) by arith
    moreover have "BASE \<le> BASE * BASE ^ length as" by (simp add: Suc_leI)
    ultimately show ?thesis by (simp only: length_Cons power_Suc)
  qed
  finally show ?case using IH z by simp
qed

text \<open>On a nonzero vector the carry dies out and the result is the complement to \<open>BASE ^ n\<close>.\<close>

lemma v_complement_spec:
  assumes "digits_ok a" "0 < dval a"
  shows "dval (v_complement a) + dval a = BASE ^ length a"
    and "length (v_complement a) = length a" "digits_ok (v_complement a)"
proof -
  obtain z c where zc: "v_complement_loop 1 a = (z, c)" by fastforce
  have spec: "dval z + BASE ^ length a * unat c + dval a = BASE ^ length a"
    "length z = length a" "digits_ok z" "unat c \<le> 1"
    using v_complement_loop_spec [OF assms(1) _ zc] by simp_all
  have "unat c = 0"
  proof (rule ccontr)
    assume "unat c \<noteq> 0"
    with spec(4) have "unat c = 1" by simp
    with spec(1) assms(2) show False by simp
  qed
  with spec show "dval (v_complement a) + dval a = BASE ^ length a"
    and "length (v_complement a) = length a" "digits_ok (v_complement a)"
    by (simp_all add: v_complement_def zc)
qed

end
