(* ===== verification/IntObject.thy ===== *)
theory IntObject
  imports IntDigits
begin

text \<open>
  The integer object (\<open>DeeIntObject\<close>, include/deemon/int.h), its well-formedness invariant, its
  value, and the routines that build one: \<open>DeeInt_Alloc\<close>, \<open>int_normalize\<close>, the cache of the
  integers in [-128, 255] and the constructors from machine integers of src/deemon/objects/int.c.
  The object keeps the whole allocated array: shrinking \<open>ob_size\<close> leaves the digits above it in
  memory, as the code does, so \<open>digits\<close> reads only the first \<open>|ob_size|\<close> of them.
\<close>

section \<open>The object and its value\<close>

record DeeInt =
  ob_size :: int
  ob_digit :: "digit list"

definition digits :: "DeeInt \<Rightarrow> digit list" where
  "digits x = take (nat \<bar>ob_size x\<bar>) (ob_digit x)"

definition int_mag :: "DeeInt \<Rightarrow> nat" where
  "int_mag x = dval (digits x)"

definition int_val :: "DeeInt \<Rightarrow> int" where
  "int_val x = sgn (ob_size x) * int (int_mag x)"

text \<open>
  \<open>int_mem\<close>: the array holds at least \<open>|ob_size|\<close> digits, each below the base.  \<open>int_ok\<close>: also
  normalized, that is, the top digit is not zero.  Every integer a program can name is \<open>int_ok\<close>.
\<close>

definition int_mem :: "DeeInt \<Rightarrow> bool" where
  "int_mem x \<longleftrightarrow> nat \<bar>ob_size x\<bar> \<le> length (ob_digit x) \<and> digits_ok (digits x)"

definition int_ok :: "DeeInt \<Rightarrow> bool" where
  "int_ok x \<longleftrightarrow> int_mem x \<and> (digits x \<noteq> [] \<longrightarrow> last (digits x) \<noteq> 0)"

text \<open>\<open>represents x k\<close>: a well-formed object whose value is \<open>k\<close>.\<close>

definition represents :: "DeeInt \<Rightarrow> int \<Rightarrow> bool" where
  "represents x k \<longleftrightarrow> int_ok x \<and> int_val x = k"

text \<open>\<open>DeeInt_Alloc(n)\<close> followed by a loop that fills all \<open>n\<close> digits.\<close>

definition DeeInt_Alloc :: "digit list \<Rightarrow> DeeInt" where
  "DeeInt_Alloc ds = \<lparr>ob_size = int (length ds), ob_digit = ds\<rparr>"

definition DeeInt_Zero :: DeeInt where
  "DeeInt_Zero = \<lparr>ob_size = 0, ob_digit = [0]\<rparr>"

definition DeeInt_One :: DeeInt where
  "DeeInt_One = \<lparr>ob_size = 1, ob_digit = [1]\<rparr>"

definition DeeInt_MinusOne :: DeeInt where
  "DeeInt_MinusOne = \<lparr>ob_size = -1, ob_digit = [1]\<rparr>"

text \<open>\<open>x->ob_size = -x->ob_size\<close>\<close>

definition negate_size :: "DeeInt \<Rightarrow> DeeInt" where
  "negate_size x = x\<lparr>ob_size := - ob_size x\<rparr>"

fun normalize_index :: "digit list \<Rightarrow> nat \<Rightarrow> nat" where
  "normalize_index ds 0 = 0"
| "normalize_index ds (Suc i) = (if ds ! i = 0 then normalize_index ds i else Suc i)"

definition int_normalize :: "DeeInt \<Rightarrow> DeeInt" where
  "int_normalize v =
     (let j = \<bar>ob_size v\<bar>;
          i = int (normalize_index (ob_digit v) (nat j))
      in if i \<noteq> j then v\<lparr>ob_size := (if ob_size v < 0 then - i else i)\<rparr> else v)"

section \<open>Basic facts\<close>

lemma length_digits: "int_mem x \<Longrightarrow> length (digits x) = nat \<bar>ob_size x\<bar>"
  by (simp add: int_mem_def digits_def)

lemma int_mem_digits_ok: "int_mem x \<Longrightarrow> digits_ok (digits x)"
  by (simp add: int_mem_def)

lemma int_ok_mem [simp]: "int_ok x \<Longrightarrow> int_mem x"
  by (simp add: int_ok_def)

lemma int_mem_size: "int_mem x \<Longrightarrow> \<bar>ob_size x\<bar> = int (length (digits x))"
  by (simp add: length_digits)

lemma digits_Alloc [simp]: "digits (DeeInt_Alloc ds) = ds"
  and ob_size_Alloc [simp]: "ob_size (DeeInt_Alloc ds) = int (length ds)"
  and int_mem_Alloc [simp]: "int_mem (DeeInt_Alloc ds) \<longleftrightarrow> digits_ok ds"
  and int_mag_Alloc [simp]: "int_mag (DeeInt_Alloc ds) = dval ds"
  by (auto simp: DeeInt_Alloc_def digits_def int_mem_def int_mag_def)

lemma int_val_Alloc [simp]: "int_val (DeeInt_Alloc ds) = int (dval ds)"
  by (cases ds) (simp_all add: int_val_def)

lemma negate_size_simps [simp]:
  "ob_size (negate_size x) = - ob_size x"
  "digits (negate_size x) = digits x"
  "int_mag (negate_size x) = int_mag x"
  "int_val (negate_size x) = - int_val x"
  "int_mem (negate_size x) = int_mem x"
  "int_ok (negate_size x) = int_ok x"
  by (simp_all add: negate_size_def digits_def int_mag_def int_val_def int_mem_def int_ok_def)

lemma int_mag_bound: "int_mem x \<Longrightarrow> int_mag x < BASE ^ nat \<bar>ob_size x\<bar>"
  using dval_bound [of "digits x"] by (simp add: int_mag_def int_mem_digits_ok length_digits)

lemma int_mag_lower: "int_ok x \<Longrightarrow> ob_size x \<noteq> 0 \<Longrightarrow> BASE ^ (nat \<bar>ob_size x\<bar> - 1) \<le> int_mag x"
  using dval_lower [of "digits x"] length_digits [of x]
  by (force simp: int_mag_def int_ok_def)

lemma int_mag_pos: "int_ok x \<Longrightarrow> ob_size x \<noteq> 0 \<Longrightarrow> 0 < int_mag x"
  using int_mag_lower [of x] by (metis BASE_pos(1) gr0I leD zero_less_power)

lemma int_mag_0: "ob_size x = 0 \<Longrightarrow> int_mag x = 0"
  by (simp add: int_mag_def digits_def)

lemma abs_int_val: "\<bar>int_val x\<bar> = int (int_mag x)"
  by (cases "ob_size x = 0") (simp_all add: int_val_def int_mag_0 abs_mult)

lemma int_val_nonneg: "0 \<le> ob_size x \<Longrightarrow> int_val x = int (int_mag x)"
  by (cases "ob_size x = 0") (simp_all add: int_val_def int_mag_0)

lemma int_val_neg: "ob_size x < 0 \<Longrightarrow> int_val x = - int (int_mag x)"
  by (simp add: int_val_def)

text \<open>The sign of the value is the sign of \<open>ob_size\<close>.\<close>

lemma sgn_int_val: "int_ok x \<Longrightarrow> sgn (int_val x) = sgn (ob_size x)"
  using int_mag_pos [of x] by (cases "ob_size x = 0") (auto simp: int_val_def sgn_mult)

lemma int_val_eq_0_iff: "int_ok x \<Longrightarrow> int_val x = 0 \<longleftrightarrow> ob_size x = 0"
  using sgn_int_val [of x] by (metis sgn_0_0)

lemma int_val_less_0_iff: "int_ok x \<Longrightarrow> int_val x < 0 \<longleftrightarrow> ob_size x < 0"
  using sgn_int_val [of x] by (metis sgn_less)

lemma int_val_greater_0_iff: "int_ok x \<Longrightarrow> 0 < int_val x \<longleftrightarrow> 0 < ob_size x"
  using sgn_int_val [of x] by (metis sgn_greater)

text \<open>A value determines the size and the digits of its normalized representation.\<close>

lemma int_ok_size_unique:
  assumes "int_ok x" "int_ok y" "int_mag x = int_mag y"
  shows "\<bar>ob_size x\<bar> = \<bar>ob_size y\<bar>"
proof -
  have le: "nat \<bar>ob_size u\<bar> \<le> nat \<bar>ob_size v\<bar>"
    if "int_ok u" "int_ok v" "int_mag u = int_mag v" for u v
  proof (rule ccontr)
    assume n: "\<not> nat \<bar>ob_size u\<bar> \<le> nat \<bar>ob_size v\<bar>"
    then have "BASE ^ nat \<bar>ob_size v\<bar> \<le> BASE ^ (nat \<bar>ob_size u\<bar> - 1)"
      by (intro power_increasing) (simp_all add: BASE_num)
    also have "\<dots> \<le> int_mag u" using n that(1) by (intro int_mag_lower) auto
    also have "\<dots> < BASE ^ nat \<bar>ob_size v\<bar>" using that by (simp add: int_mag_bound)
    finally show False by simp
  qed
  from le [OF assms] le [OF assms(2,1) assms(3) [symmetric]] show ?thesis by linarith
qed

lemma int_ok_unique:
  assumes "int_ok x" "int_ok y" "int_val x = int_val y"
  shows "ob_size x = ob_size y" and "digits x = digits y"
proof -
  have mag: "int_mag x = int_mag y"
    using assms(3) abs_int_val [of x] abs_int_val [of y] by simp
  have "\<bar>ob_size x\<bar> = \<bar>ob_size y\<bar>"
    using int_ok_size_unique [OF assms(1,2) mag] .
  moreover have "sgn (ob_size x) = sgn (ob_size y)"
    using assms sgn_int_val by metis
  ultimately show size: "ob_size x = ob_size y"
    by (metis mult_sgn_abs)
  show "digits x = digits y"
    using mag size assms by (intro dval_inject)
      (simp_all add: length_digits int_mem_digits_ok int_mag_def)
qed

section \<open>Normalization\<close>

lemma normalize_index_le: "normalize_index ds n \<le> n"
  by (induction n) (auto simp: le_SucI)

lemma normalize_index_zero: "normalize_index ds n \<le> i \<Longrightarrow> i < n \<Longrightarrow> ds ! i = 0"
  by (induction n) (auto split: if_splits simp: less_Suc_eq)

lemma normalize_index_top: "0 < normalize_index ds n \<Longrightarrow> ds ! (normalize_index ds n - 1) \<noteq> 0"
  by (induction n) (auto split: if_splits)

lemma dval_normalize_index:
  assumes "n \<le> length ds"
  shows "dval (take (normalize_index ds n) ds) = dval (take n ds)"
proof -
  let ?i = "normalize_index ds n"
  have le: "?i \<le> n" by (rule normalize_index_le)
  have split: "take n ds = take ?i ds @ take (n - ?i) (drop ?i ds)"
    using le by (metis le_add_diff_inverse take_add)
  have "dval (take (n - ?i) (drop ?i ds)) = 0"
  proof -
    have "d = 0" if "d \<in> set (take (n - ?i) (drop ?i ds))" for d
    proof -
      from that obtain k where "k < n - ?i" "d = ds ! (?i + k)"
        using assms le by (auto simp: in_set_conv_nth)
      then show ?thesis using normalize_index_zero [of ds n "?i + k"] by simp
    qed
    then show ?thesis by (simp add: dval_eq_0_iff)
  qed
  then show ?thesis unfolding split by simp
qed

lemma ob_digit_normalize [simp]: "ob_digit (int_normalize v) = ob_digit v"
  by (simp add: int_normalize_def Let_def)

lemma ob_size_normalize:
  "ob_size (int_normalize v) = sgn (ob_size v) * int (normalize_index (ob_digit v) (nat \<bar>ob_size v\<bar>))"
proof (cases "int (normalize_index (ob_digit v) (nat \<bar>ob_size v\<bar>)) = \<bar>ob_size v\<bar>")
  case True
  then show ?thesis
    by (simp add: int_normalize_def Let_def) (metis mult_sgn_abs mult.commute)
next
  case False
  then have "ob_size v \<noteq> 0" by auto
  then show ?thesis using False by (simp add: int_normalize_def Let_def sgn_if)
qed

lemma abs_ob_size_normalize:
  "nat \<bar>ob_size (int_normalize v)\<bar> = normalize_index (ob_digit v) (nat \<bar>ob_size v\<bar>)"
  by (cases "ob_size v = 0") (simp_all add: ob_size_normalize abs_mult)

lemma digits_normalize:
  "digits (int_normalize v) = take (normalize_index (ob_digit v) (nat \<bar>ob_size v\<bar>)) (ob_digit v)"
  by (simp add: digits_def abs_ob_size_normalize)

lemma int_normalize_mag [simp]: "int_mem v \<Longrightarrow> int_mag (int_normalize v) = int_mag v"
  by (simp add: int_mag_def digits_normalize dval_normalize_index int_mem_def)
     (simp add: digits_def)

lemma int_normalize_val [simp]:
  assumes "int_mem v"
  shows "int_val (int_normalize v) = int_val v"
proof (cases "int_mag v = 0")
  case True
  then show ?thesis using assms by (simp add: int_val_def)
next
  case False
  let ?i = "normalize_index (ob_digit v) (nat \<bar>ob_size v\<bar>)"
  have "?i \<noteq> 0"
  proof
    assume "?i = 0"
    then have "int_mag (int_normalize v) = 0" by (simp add: int_mag_def digits_normalize)
    with False assms show False by simp
  qed
  then have "sgn (ob_size (int_normalize v)) = sgn (ob_size v)"
    by (simp add: ob_size_normalize sgn_mult)
  then show ?thesis using assms by (simp add: int_val_def)
qed

lemma int_normalize_ok [simp]:
  assumes "int_mem v"
  shows "int_ok (int_normalize v)"
proof -
  let ?i = "normalize_index (ob_digit v) (nat \<bar>ob_size v\<bar>)"
  have le: "?i \<le> nat \<bar>ob_size v\<bar>" "nat \<bar>ob_size v\<bar> \<le> length (ob_digit v)"
    using normalize_index_le assms by (auto simp: int_mem_def)
  have "digits_ok (digits (int_normalize v))"
  proof -
    have "take ?i (ob_digit v) = take ?i (digits v)"
      using le by (simp add: digits_def min_absorb1)
    then show ?thesis using assms by (simp add: digits_normalize int_mem_digits_ok)
  qed
  moreover have "last (digits (int_normalize v)) \<noteq> 0" if "digits (int_normalize v) \<noteq> []"
  proof -
    have i: "0 < ?i" using that assms by (auto simp: digits_normalize)
    then have "last (take ?i (ob_digit v)) = ob_digit v ! (?i - 1)"
      using le by (subst last_conv_nth) auto
    then show ?thesis
      using normalize_index_top [OF i] assms by (simp add: digits_normalize)
  qed
  ultimately show ?thesis using le by (simp add: int_ok_def int_mem_def abs_ob_size_normalize)
qed

lemma int_normalize_size_le: "\<bar>ob_size (int_normalize v)\<bar> \<le> \<bar>ob_size v\<bar>"
  using normalize_index_le [of "ob_digit v" "nat \<bar>ob_size v\<bar>"] abs_ob_size_normalize [of v]
  by linarith

lemma int_normalize_size_nonneg: "0 \<le> ob_size v \<Longrightarrow> 0 \<le> ob_size (int_normalize v)"
  by (simp add: ob_size_normalize sgn_if)

section \<open>Integers from machine integers\<close>

text \<open>
  With \<open>CONFIG_STRING_8BIT_STATIC\<close> (the default) the integers -128 to 255 are static objects,
  \<open>DeeInt_8bit_blob\<close>, and \<open>DeeInt_8bit + val\<close> is the object of value \<open>val\<close>.
\<close>

definition DeeInt_8bit :: "int \<Rightarrow> DeeInt" where
  "DeeInt_8bit val =
     \<lparr>ob_size = (if val < 0 then -1 else if val > 0 then 1 else 0),
      ob_digit = [word_of_int \<bar>val\<bar>]\<rparr>"

text \<open>
  The loop shared by the constructors: store the low 30 bits and shift the value right by 30
  until it is zero.
\<close>

function word_digits :: "'a::len word \<Rightarrow> digit list" where
  "word_digits val =
     (if val = 0 then []
      else (ucast val AND DIGIT_MASK) # word_digits (drop_bit DIGIT_BITS val))"
  by pat_completeness auto
termination
  by (relation "measure unat") (simp_all add: word_nat unat_gt_0)

declare word_digits.simps [simp del]

definition DeeInt_NewUInt8 :: "u8 \<Rightarrow> DeeInt" where
  "DeeInt_NewUInt8 val = DeeInt_8bit (uint val)"

definition DeeInt_NewInt8 :: "u8 \<Rightarrow> DeeInt" where
  "DeeInt_NewInt8 val = DeeInt_8bit (sint val)"

definition DeeInt_NewUInt16 :: "16 word \<Rightarrow> DeeInt" where
  "DeeInt_NewUInt16 val =
     (if val \<le> 0xff then DeeInt_8bit (uint val)
      else \<lparr>ob_size = 1, ob_digit = [ucast val]\<rparr>)"

definition DeeInt_NewInt16 :: "16 word \<Rightarrow> DeeInt" where
  "DeeInt_NewInt16 val =
     (if - 128 \<le>s val \<and> val \<le>s 255 then DeeInt_8bit (sint val)
      else if val \<le>s 0 then
        (if val = 0 then DeeInt_Zero
         else \<lparr>ob_size = -1, ob_digit = [ucast (0 - val)]\<rparr>)
      else \<lparr>ob_size = 1, ob_digit = [ucast val]\<rparr>)"

definition DeeInt_NewUInt32 :: "u32 \<Rightarrow> DeeInt" where
  "DeeInt_NewUInt32 val =
     (if drop_bit DIGIT_BITS val = 0 then
        (if val \<le> 0xff then DeeInt_8bit (uint val)
         else \<lparr>ob_size = 1, ob_digit = [val]\<rparr>)
      else DeeInt_Alloc (word_digits val))"

definition DeeInt_NewUInt64 :: "u64 \<Rightarrow> DeeInt" where
  "DeeInt_NewUInt64 val =
     (if val \<le> 0xff then DeeInt_8bit (uint val)
      else if drop_bit DIGIT_BITS val = 0 then
        (if val = 0 then DeeInt_Zero else \<lparr>ob_size = 1, ob_digit = [ucast val]\<rparr>)
      else DeeInt_Alloc (word_digits val))"

definition DeeInt_NewInt32 :: "u32 \<Rightarrow> DeeInt" where
  "DeeInt_NewInt32 val =
     (if - 128 \<le>s val \<and> val \<le>s 255 then DeeInt_8bit (sint val)
      else let sign = (if val <s 0 then -1 else 1);
               abs_val = (if val <s 0 then 0 - val else val)
           in if drop_bit DIGIT_BITS abs_val = 0 then
                (if val = 0 then DeeInt_Zero else \<lparr>ob_size = sign, ob_digit = [abs_val]\<rparr>)
              else \<lparr>ob_size = int (length (word_digits abs_val)) * sign,
                    ob_digit = word_digits abs_val\<rparr>)"

definition DeeInt_NewInt64 :: "u64 \<Rightarrow> DeeInt" where
  "DeeInt_NewInt64 val =
     (if - 128 \<le>s val \<and> val \<le>s 255 then DeeInt_8bit (sint val)
      else let sign = (if val <s 0 then -1 else 1);
               abs_val = (if val <s 0 then 0 - val else val)
           in if drop_bit DIGIT_BITS abs_val = 0 then
                (if val = 0 then DeeInt_Zero else \<lparr>ob_size = sign, ob_digit = [ucast abs_val]\<rparr>)
              else \<lparr>ob_size = int (length (word_digits abs_val)) * sign,
                    ob_digit = word_digits abs_val\<rparr>)"

text \<open>
  The 128-bit constructors first try the 64-bit ones: \<open>__hybrid_uint128_is64bit\<close> and
  \<open>__hybrid_int128_is64bit\<close> test whether the value survives truncation to 64 bits.
\<close>

definition DeeInt_NewUInt128 :: "128 word \<Rightarrow> DeeInt" where
  "DeeInt_NewUInt128 val =
     (if val \<le> 0xffffffffffffffff then DeeInt_NewUInt64 (ucast val)
      else DeeInt_Alloc (word_digits val))"

definition DeeInt_NewInt128 :: "128 word \<Rightarrow> DeeInt" where
  "DeeInt_NewInt128 val =
     (if scast (ucast val :: u64) = val then DeeInt_NewInt64 (ucast val)
      else let sign = (if val <s 0 then -1 else 1);
               abs_val = (if val <s 0 then - val else val)
           in \<lparr>ob_size = int (length (word_digits abs_val)) * sign,
               ob_digit = word_digits abs_val\<rparr>)"

text \<open>\<open>MEDIUM_VALUE(x)\<close>: the value of an integer of at most one digit as an \<open>sdigit\<close>.\<close>

definition MEDIUM_VALUE :: "DeeInt \<Rightarrow> u32" where
  "MEDIUM_VALUE x =
     (if ob_size x < 0 then - (ob_digit x ! 0)
      else if ob_size x = 0 then 0 else ob_digit x ! 0)"

subsection \<open>Values of the constructed objects\<close>

lemma word_digits_spec:
  fixes val :: "'a::len word"
  assumes "30 \<le> LENGTH('a)"
  shows "dval (word_digits val) = unat val \<and> digits_ok (word_digits val)
    \<and> (word_digits val \<noteq> [] \<longrightarrow> last (word_digits val) \<noteq> 0) \<and> (word_digits val = [] \<longleftrightarrow> val = 0)"
proof (induction val rule: word_digits.induct)
  case (1 val)
  show ?case
  proof (cases "val = 0")
    case True
    then show ?thesis by (simp add: word_digits.simps)
  next
    case False
    let ?rest = "drop_bit DIGIT_BITS val"
    note IH = "1.IH" [OF False]
    have lo: "unat (ucast val AND DIGIT_MASK) = unat val mod BASE"
      by (simp add: word_nat BASE_num mod_mod_cancel)
    have unf: "word_digits val = (ucast val AND DIGIT_MASK) # word_digits ?rest"
      using False by (subst word_digits.simps) simp
    have val: "dval (word_digits val) = unat val"
      using IH by (simp add: unf lo unat_drop_bit_word exp_DIGIT_BITS)
    have "last (word_digits val) \<noteq> 0"
    proof (cases "?rest = 0")
      case True
      then have "unat val = unat (ucast val AND DIGIT_MASK :: digit)"
        using val by (simp add: unf word_digits.simps [of 0])
      then have "ucast val AND DIGIT_MASK \<noteq> (0 :: digit)" using False by (auto simp: unat_eq_zero)
      then show ?thesis using True by (simp add: unf word_digits.simps [of 0])
    next
      case False
      then show ?thesis using IH by (simp add: unf)
    qed
    then show ?thesis using val IH unf False by simp
  qed
qed

lemma int_8bit:
  assumes "- 128 \<le> val" "val \<le> 255"
  shows "represents (DeeInt_8bit val) val"
proof -
  define w :: digit where "w = word_of_int \<bar>val\<bar>"
  have w: "uint w = \<bar>val\<bar>"
    using assms by (simp add: w_def unsigned_of_int take_bit_int_eq_self)
  then have nw: "unat w = nat \<bar>val\<bar>" by (simp add: unat_eq_nat_uint)
  have nz: "val \<noteq> 0 \<Longrightarrow> w \<noteq> 0" using w by auto
  have "int_ok (DeeInt_8bit val)"
    using nw nz assms
    by (auto simp: DeeInt_8bit_def w_def [symmetric] int_ok_def int_mem_def digits_def BASE_num)
  moreover have "int_val (DeeInt_8bit val) = val"
    using w assms
    by (auto simp: DeeInt_8bit_def w_def [symmetric] int_val_def int_mag_def digits_def)
  ultimately show ?thesis by (simp add: represents_def)
qed

lemma int_8bit_unsigned:
  fixes val :: "'a::len word"
  assumes "uint val \<le> 255"
  shows "represents (DeeInt_8bit (uint val)) (uint val)"
  using uint_ge_0 [of val] assms by (intro int_8bit) linarith+

text \<open>One digit below the base is a well-formed object of either sign.\<close>

lemma one_digit:
  assumes "d \<noteq> 0" "unat d < BASE" "s = 1 \<or> s = -1"
  shows "represents \<lparr>ob_size = s, ob_digit = [d]\<rparr> (s * int (unat d))"
  using assms by (auto simp: represents_def int_ok_def int_mem_def digits_def int_val_def int_mag_def)

lemma sized_word_digits:
  fixes w :: "'a::len word"
  assumes "30 \<le> LENGTH('a)" "s = 1 \<or> s = -1"
  shows "represents \<lparr>ob_size = int (length (word_digits w)) * s, ob_digit = word_digits w\<rparr>
          (s * int (unat w))"
  using word_digits_spec [OF assms(1), of w] assms(2)
  by (auto simp: represents_def int_ok_def int_mem_def digits_def int_val_def int_mag_def
      sgn_mult abs_mult)

lemma alloc_word_digits:
  fixes w :: "'a::len word"
  assumes "30 \<le> LENGTH('a)"
  shows "represents (DeeInt_Alloc (word_digits w)) (int (unat w))"
  using sized_word_digits [OF assms, of 1 w] by (simp add: DeeInt_Alloc_def)

lemma represents_negate: "represents z k \<Longrightarrow> represents (negate_size z) (- k)"
  by (simp add: represents_def)

lemma represents_Zero: "represents DeeInt_Zero 0"
  by (simp add: represents_def DeeInt_Zero_def int_ok_def int_mem_def digits_def int_val_def)

lemma represents_One: "represents DeeInt_One 1"
  by (simp add: represents_def DeeInt_One_def int_ok_def int_mem_def digits_def int_val_def int_mag_def)

lemma represents_MinusOne: "represents DeeInt_MinusOne (-1)"
  by (simp add: represents_def DeeInt_MinusOne_def int_ok_def int_mem_def digits_def int_val_def
      int_mag_def)

lemma drop_bit_eq_0_iff:
  fixes w :: "'a::len word"
  shows "drop_bit DIGIT_BITS w = 0 \<longleftrightarrow> unat w < BASE"
  by (metis BASE_pos(2) div_eq_0_iff exp_DIGIT_BITS unat_drop_bit_word unat_eq_zero)

lemma unat_ucast_digit:
  fixes w :: "'a::len word"
  assumes "unat w < BASE"
  shows "unat (ucast w :: digit) = unat w"
  using assms by (simp add: unat_ucast_word BASE_num)

lemma represents_NewUInt8: "represents (DeeInt_NewUInt8 val) (uint val)"
  using uint_lt2p [of val] by (simp add: DeeInt_NewUInt8_def int_8bit_unsigned)

lemma represents_NewInt8: "represents (DeeInt_NewInt8 val) (sint val)"
  using sint_greater_eq [of val] sint_less [of val] by (simp add: DeeInt_NewInt8_def int_8bit)

lemma represents_NewUInt32: "represents (DeeInt_NewUInt32 val) (uint val)"
proof (cases "drop_bit DIGIT_BITS val = 0")
  case True
  then have lt: "unat val < BASE" by (simp add: drop_bit_eq_0_iff)
  show ?thesis
  proof (cases "val \<le> 0xff")
    case True
    then have "uint val \<le> 255" by (simp add: word_le_def)
    then show ?thesis using True \<open>drop_bit DIGIT_BITS val = 0\<close>
      by (simp add: DeeInt_NewUInt32_def int_8bit_unsigned)
  next
    case False
    then have "val \<noteq> 0" by auto
    then show ?thesis using one_digit [of val 1] lt False True
      by (simp add: DeeInt_NewUInt32_def)
  qed
next
  case False
  then show ?thesis using alloc_word_digits [of val] by (simp add: DeeInt_NewUInt32_def)
qed

lemma represents_NewUInt64: "represents (DeeInt_NewUInt64 val) (uint val)"
proof (cases "val \<le> 0xff")
  case True
  then have "uint val \<le> 255" by (simp add: word_le_def)
  then show ?thesis using True by (simp add: DeeInt_NewUInt64_def int_8bit_unsigned)
next
  case False
  then have nz: "val \<noteq> 0" by auto
  show ?thesis
  proof (cases "drop_bit DIGIT_BITS val = 0")
    case True
    then have lt: "unat (ucast val :: digit) = unat val" "unat val < BASE"
      by (simp_all add: drop_bit_eq_0_iff unat_ucast_digit)
    then have "ucast val \<noteq> (0 :: digit)" using nz by (metis unat_eq_zero)
    then show ?thesis
      using one_digit [of "ucast val" 1] lt False True nz by (simp add: DeeInt_NewUInt64_def)
  next
    case False
    with \<open>\<not> val \<le> 0xff\<close> show ?thesis
      using alloc_word_digits [of val] by (simp add: DeeInt_NewUInt64_def)
  qed
qed

text \<open>The two signed constructors take the absolute value in the unsigned type of the same width.\<close>

lemma abs_val_spec:
  fixes val :: "'a::len word"
  defines "abs_val \<equiv> (if val <s 0 then 0 - val else val)"
    and "sign \<equiv> (if val <s 0 then -1 else 1 :: int)"
  shows "sign * int (unat abs_val) = sint val" "abs_val = 0 \<longleftrightarrow> val = 0" "sign = 1 \<or> sign = -1"
  using unat_negated [of val] sint_nonneg_unat [of val]
  by (auto simp: abs_val_def sign_def word_sless_alt not_less)

lemma represents_NewInt32: "represents (DeeInt_NewInt32 val) (sint val)"
proof (cases "- 128 \<le>s val \<and> val \<le>s 255")
  case True
  then show ?thesis by (simp add: DeeInt_NewInt32_def int_8bit word_sle_eq)
next
  case False
  then have nz: "val \<noteq> 0" by (auto simp: word_sle_eq)
  define abs_val where "abs_val = (if val <s 0 then 0 - val else val)"
  define sign :: int where "sign = (if val <s 0 then -1 else 1)"
  have spec: "sign * int (unat abs_val) = sint val" "abs_val = 0 \<longleftrightarrow> val = 0" "sign = 1 \<or> sign = -1"
    using abs_val_spec [of val] by (simp_all only: abs_val_def sign_def)
  have "DeeInt_NewInt32 val =
      (if drop_bit DIGIT_BITS abs_val = 0 then
         (if val = 0 then DeeInt_Zero else \<lparr>ob_size = sign, ob_digit = [abs_val]\<rparr>)
       else \<lparr>ob_size = int (length (word_digits abs_val)) * sign, ob_digit = word_digits abs_val\<rparr>)"
    using False by (simp only: DeeInt_NewInt32_def abs_val_def sign_def if_False Let_def)
  then show ?thesis
    using one_digit [of abs_val sign] sized_word_digits [of sign abs_val] spec nz
    by (simp add: drop_bit_eq_0_iff)
qed

lemma represents_NewInt64: "represents (DeeInt_NewInt64 val) (sint val)"
proof (cases "- 128 \<le>s val \<and> val \<le>s 255")
  case True
  then show ?thesis by (simp add: DeeInt_NewInt64_def int_8bit word_sle_eq)
next
  case False
  then have nz: "val \<noteq> 0" by (auto simp: word_sle_eq)
  define abs_val where "abs_val = (if val <s 0 then 0 - val else val)"
  define sign :: int where "sign = (if val <s 0 then -1 else 1)"
  have spec: "sign * int (unat abs_val) = sint val" "abs_val = 0 \<longleftrightarrow> val = 0" "sign = 1 \<or> sign = -1"
    using abs_val_spec [of val] by (simp_all only: abs_val_def sign_def)
  have unf: "DeeInt_NewInt64 val =
      (if drop_bit DIGIT_BITS abs_val = 0 then
         (if val = 0 then DeeInt_Zero else \<lparr>ob_size = sign, ob_digit = [ucast abs_val]\<rparr>)
       else \<lparr>ob_size = int (length (word_digits abs_val)) * sign, ob_digit = word_digits abs_val\<rparr>)"
    using False by (simp only: DeeInt_NewInt64_def abs_val_def sign_def if_False Let_def)
  show ?thesis
  proof (cases "drop_bit DIGIT_BITS abs_val = 0")
    case True
    then have u: "unat (ucast abs_val :: digit) = unat abs_val" "unat abs_val < BASE"
      by (simp_all add: drop_bit_eq_0_iff unat_ucast_digit)
    then have "ucast abs_val \<noteq> (0 :: digit)" using nz spec(2) by (metis unat_eq_zero)
    then show ?thesis using one_digit [of "ucast abs_val" sign] u spec True nz unf by simp
  next
    case False
    then show ?thesis using sized_word_digits [of sign abs_val] spec unf by simp
  qed
qed

lemma represents_NewUInt16: "represents (DeeInt_NewUInt16 val) (uint val)"
proof (cases "val \<le> 0xff")
  case True
  then have "uint val \<le> 255" by (simp add: word_le_def)
  then show ?thesis using True by (simp add: DeeInt_NewUInt16_def int_8bit_unsigned)
next
  case False
  have "unat val < 2 ^ LENGTH(16)" by (rule unsigned_less)
  then have u: "unat (ucast val :: digit) = unat val" "unat val < BASE"
    by (simp_all add: unat_ucast_up BASE_num)
  have "val \<noteq> 0" using False by auto
  then have "ucast val \<noteq> (0 :: digit)" using u(1) by (metis unat_eq_zero)
  then show ?thesis using one_digit [of "ucast val" 1] u False by (simp add: DeeInt_NewUInt16_def)
qed

lemma represents_NewInt16: "represents (DeeInt_NewInt16 val) (sint val)"
proof (cases "- 128 \<le>s val \<and> val \<le>s 255")
  case True
  then show ?thesis by (simp add: DeeInt_NewInt16_def int_8bit word_sle_eq)
next
  case False
  then have nz: "val \<noteq> 0" "sint val \<noteq> 0" by (auto simp: word_sle_eq)
  note nc = False
  have lt: "unat w < BASE" "unat (ucast w :: digit) = unat w" for w :: "16 word"
    using unsigned_less [of w, where 'a = nat] by (simp_all add: unat_ucast_up BASE_num)
  show ?thesis
  proof (cases "val \<le>s 0")
    case True
    then have neg: "sint val < 0" using nz by (simp add: word_sle_eq)
    then have v: "int (unat (0 - val)) = - sint val" by (rule unat_negated)
    have "ucast (0 - val) \<noteq> (0 :: digit)"
    proof
      assume "ucast (0 - val) = (0 :: digit)"
      then have "unat (0 - val) = 0" using lt(2) [of "0 - val"] by (simp only: unsigned_0)
      then show False using v nz(2) by simp
    qed
    moreover have "DeeInt_NewInt16 val = \<lparr>ob_size = -1, ob_digit = [ucast (0 - val)]\<rparr>"
      by (simp only: DeeInt_NewInt16_def nc True nz if_True if_False)
    ultimately have "represents (DeeInt_NewInt16 val) (-1 * int (unat (ucast (0 - val) :: digit)))"
      using one_digit [of "ucast (0 - val)" "-1"] lt [of "0 - val"] by (simp only:) simp
    then show ?thesis unfolding lt(2) v by simp
  next
    case pos: False
    then have v: "int (unat val) = sint val" by (intro sint_nonneg_unat) (simp add: word_sle_eq)
    have "ucast val \<noteq> (0 :: digit)"
    proof
      assume "ucast val = (0 :: digit)"
      then have "unat val = 0" using lt(2) [of val] by (simp only: unsigned_0)
      then show False using v nz(2) by simp
    qed
    moreover have "DeeInt_NewInt16 val = \<lparr>ob_size = 1, ob_digit = [ucast val]\<rparr>"
      by (simp only: DeeInt_NewInt16_def nc pos if_False)
    ultimately have "represents (DeeInt_NewInt16 val) (1 * int (unat (ucast val :: digit)))"
      using one_digit [of "ucast val" 1] lt [of val] by (simp only:) simp
    then show ?thesis unfolding lt(2) v by simp
  qed
qed

lemma represents_NewUInt128: "represents (DeeInt_NewUInt128 val) (uint val)"
proof (cases "val \<le> 0xffffffffffffffff")
  case True
  then have "uint val < 2 ^ 64" by (simp add: word_le_def)
  then have "uint (ucast val :: u64) = uint val"
    by (simp add: unsigned_ucast_eq take_bit_int_eq_self)
  then show ?thesis using True represents_NewUInt64 [of "ucast val"] by (simp add: DeeInt_NewUInt128_def)
next
  case False
  then show ?thesis using alloc_word_digits [of val] by (simp add: DeeInt_NewUInt128_def)
qed

lemma represents_NewInt128: "represents (DeeInt_NewInt128 val) (sint val)"
proof (cases "scast (ucast val :: u64) = val")
  case True
  have "sint (scast (ucast val :: u64) :: 128 word) = sint (ucast val :: u64)"
    by (simp add: sint_up_scast is_up)
  then have "sint (ucast val :: u64) = sint val" using True by metis
  then show ?thesis using True represents_NewInt64 [of "ucast val"] by (simp add: DeeInt_NewInt128_def)
next
  case False
  define abs_val where "abs_val = (if val <s 0 then 0 - val else val)"
  define sign :: int where "sign = (if val <s 0 then -1 else 1)"
  have spec: "sign * int (unat abs_val) = sint val" "sign = 1 \<or> sign = -1"
    using abs_val_spec [of val] by (simp_all only: abs_val_def sign_def)
  have "DeeInt_NewInt128 val =
      \<lparr>ob_size = int (length (word_digits abs_val)) * sign, ob_digit = word_digits abs_val\<rparr>"
    using False by (simp only: DeeInt_NewInt128_def abs_val_def sign_def if_False Let_def diff_0)
  then show ?thesis using sized_word_digits [of sign abs_val] spec by simp
qed

lemma MEDIUM_VALUE_spec:
  assumes "int_ok x" "\<bar>ob_size x\<bar> \<le> 1"
  shows "sint (MEDIUM_VALUE x) = int_val x" "\<bar>int_val x\<bar> < int BASE"
proof -
  show b: "\<bar>int_val x\<bar> < int BASE"
  proof -
    have "int_mag x < BASE ^ nat \<bar>ob_size x\<bar>" using assms(1) by (simp add: int_mag_bound)
    also have "\<dots> \<le> BASE ^ 1" using assms(2) by (intro power_increasing) (simp_all add: BASE_num)
    finally show ?thesis by (simp add: abs_int_val)
  qed
  show "sint (MEDIUM_VALUE x) = int_val x"
  proof (cases "ob_size x = 0")
    case True
    then show ?thesis using assms by (simp add: MEDIUM_VALUE_def int_val_eq_0_iff)
  next
    case False
    with assms(2) have one: "nat \<bar>ob_size x\<bar> = 1" by linarith
    obtain d ds where d: "ob_digit x = d # ds"
      using assms(1) one by (cases "ob_digit x") (auto simp: int_ok_def int_mem_def)
    then have mag: "int_mag x = unat d" using one by (simp add: int_mag_def digits_def)
    then have "unat d < BASE" using b by (simp only: abs_int_val of_nat_less_iff)
    then have sd: "sint d = int (unat d)" by (intro sint_small) (simp add: BASE_num)
    show ?thesis
    proof (cases "ob_size x < 0")
      case True
      have "0 \<le> sint d" unfolding sd by (rule of_nat_0_le_iff)
      moreover have "sint d < int BASE"
        unfolding sd using \<open>unat d < BASE\<close> by (simp only: of_nat_less_iff)
      ultimately have "sint (- d) = - sint d"
        by (intro sint_minus_range) (simp_all add: BASE_num)
      then show ?thesis using True d mag sd by (simp add: MEDIUM_VALUE_def int_val_neg)
    next
      case False
      then show ?thesis using \<open>ob_size x \<noteq> 0\<close> d mag sd
        by (simp add: MEDIUM_VALUE_def int_val_nonneg)
    qed
  qed
qed

section \<open>Properties\<close>

lemmas int_eval = int_ok_def int_mem_def digits_def int_val_def int_mag_def BASE_num
  represents_def digits_ok_def DIGIT_MASK_num

text \<open>
  Representation is canonical: two well-formed integer objects of equal value have the same
  signed size and the same digits, which is what comparing them digit by digit relies on.
\<close>

lemma int_representation_canonical:
  assumes "int_ok x" "int_ok y"
  shows "int_val x = int_val y \<longleftrightarrow> ob_size x = ob_size y \<and> digits x = digits y"
  using int_ok_unique [OF assms] by (auto simp: int_val_def int_mag_def)

text \<open>
  The constructors from machine integers of every width build a well-formed object of exactly
  the value of their argument, including the most negative one and the cached range.
\<close>

lemma represents_New:
  "represents (DeeInt_NewInt8 i8) (sint i8) \<and> represents (DeeInt_NewUInt8 u8) (uint u8)
   \<and> represents (DeeInt_NewInt16 i16) (sint i16) \<and> represents (DeeInt_NewUInt16 u16) (uint u16)
   \<and> represents (DeeInt_NewInt32 i32) (sint i32) \<and> represents (DeeInt_NewUInt32 u32) (uint u32)
   \<and> represents (DeeInt_NewInt64 i64) (sint i64) \<and> represents (DeeInt_NewUInt64 u64) (uint u64)
   \<and> represents (DeeInt_NewInt128 i128) (sint i128) \<and> represents (DeeInt_NewUInt128 u128) (uint u128)"
  by (intro conjI represents_NewInt8 represents_NewUInt8 represents_NewInt16 represents_NewUInt16
      represents_NewInt32 represents_NewUInt32 represents_NewInt64 represents_NewUInt64
      represents_NewInt128 represents_NewUInt128)

end
