(* ===== verification/IntAddSub.thy ===== *)
theory IntAddSub
  imports IntObject
begin

text \<open>
  Addition and subtraction (src/deemon/objects/int_logic.c): the magnitude routines \<open>x_add\<close> and
  \<open>x_sub\<close>, the signed operators \<open>int_add\<close>, \<open>int_sub\<close>, \<open>int_neg\<close> and \<open>int_inv\<close>, the variants with a
  machine-integer operand that the bytecode uses (\<open>DeeInt_AddSDigit\<close>, \<open>DeeInt_AddUInt32\<close> and
  the subtracting ones) and the in-place increment and decrement.  An operand named \<open>b_ob\<close> in the
  code is converted by \<open>DeeObject_Int\<close>, which is the identity on an integer; the model takes the
  integer.  Running out of memory is not modelled: \<open>DeeInt_Alloc\<close> succeeds.
\<close>

section \<open>Magnitudes\<close>

text \<open>The two loops of \<open>x_add\<close> over the longer and the shorter operand; the last digit is the carry.\<close>

fun x_add_loop :: "digit \<Rightarrow> digit list \<Rightarrow> digit list \<Rightarrow> digit list" where
  "x_add_loop carry (a # as) (b # bs) =
     (let carry = carry + (a + b)
      in (carry AND DIGIT_MASK) # x_add_loop (drop_bit DIGIT_BITS carry) as bs)"
| "x_add_loop carry (a # as) [] =
     (let carry = carry + a
      in (carry AND DIGIT_MASK) # x_add_loop (drop_bit DIGIT_BITS carry) as [])"
| "x_add_loop carry [] bs = [carry]"

definition x_add :: "DeeInt \<Rightarrow> DeeInt \<Rightarrow> DeeInt" where
  "x_add a b =
     (let (as, bs) = (if \<bar>ob_size a\<bar> < \<bar>ob_size b\<bar> then (digits b, digits a)
                      else (digits a, digits b))
      in int_normalize (DeeInt_Alloc (x_add_loop 0 as bs)))"

fun x_sub_loop :: "digit \<Rightarrow> digit list \<Rightarrow> digit list \<Rightarrow> digit list" where
  "x_sub_loop borrow (a # as) (b # bs) =
     (let borrow = a - b - borrow
      in (borrow AND DIGIT_MASK) # x_sub_loop (drop_bit DIGIT_BITS borrow AND 1) as bs)"
| "x_sub_loop borrow (a # as) [] =
     (let borrow = a - borrow
      in (borrow AND DIGIT_MASK) # x_sub_loop (drop_bit DIGIT_BITS borrow AND 1) as [])"
| "x_sub_loop borrow [] bs = []"

text \<open>
  \<open>while (--i >= 0 && a->ob_digit[i] == b->ob_digit[i]);\<close>: one more than the index of the
  topmost digit in which the vectors differ, 0 when they are equal.
\<close>

fun top_diff :: "digit list \<Rightarrow> digit list \<Rightarrow> nat \<Rightarrow> nat" where
  "top_diff as bs 0 = 0"
| "top_diff as bs (Suc i) = (if as ! i = bs ! i then top_diff as bs i else Suc i)"

definition x_sub :: "DeeInt \<Rightarrow> DeeInt \<Rightarrow> DeeInt" where
  "x_sub a b =
     (let size_a = \<bar>ob_size a\<bar>; size_b = \<bar>ob_size b\<bar>;
          finish = (\<lambda>sign as bs.
            let z = DeeInt_Alloc (x_sub_loop 0 as bs)
            in int_normalize (if sign < 0 then negate_size z else z))
      in if size_a < size_b then finish (-1 :: int) (digits b) (digits a)
         else if size_a = size_b then
           (let i = top_diff (digits a) (digits b) (nat size_a)
            in if i = 0 then DeeInt_Zero
               else if digits a ! (i - 1) < digits b ! (i - 1)
                 then finish (-1) (take i (digits b)) (take i (digits a))
                 else finish 1 (take i (digits a)) (take i (digits b)))
         else finish 1 (digits a) (digits b))"

section \<open>Signed addition and subtraction\<close>

definition int_add :: "DeeInt \<Rightarrow> DeeInt \<Rightarrow> DeeInt" where
  "int_add a b =
     (if \<bar>ob_size a\<bar> \<le> 1 \<and> \<bar>ob_size b\<bar> \<le> 1 then
        DeeInt_NewInt32 (MEDIUM_VALUE a + MEDIUM_VALUE b)
      else if ob_size a < 0 then
        (if ob_size b < 0 then
           (let z = x_add a b in if ob_size z \<noteq> 0 then negate_size z else z)
         else x_sub b a)
      else if ob_size b < 0 then x_sub a b
      else x_add a b)"

definition int_sub :: "DeeInt \<Rightarrow> DeeInt \<Rightarrow> DeeInt" where
  "int_sub a b =
     (if \<bar>ob_size a\<bar> \<le> 1 \<and> \<bar>ob_size b\<bar> \<le> 1 then
        DeeInt_NewInt32 (MEDIUM_VALUE a - MEDIUM_VALUE b)
      else if ob_size a < 0 then
        negate_size (if ob_size b < 0 then x_sub a b else x_add a b)
      else (if ob_size b < 0 then x_add a b else x_sub a b))"

definition int_neg :: "DeeInt \<Rightarrow> DeeInt" where
  "int_neg self =
     (if \<bar>ob_size self\<bar> \<le> 1 then DeeInt_NewInt32 (- MEDIUM_VALUE self)
      else (DeeInt_Alloc (digits self))\<lparr>ob_size := - ob_size self\<rparr>)"

text \<open>\<open>shared\<close> is \<open>DeeObject_IsShared(self)\<close>: an unshared object is negated in place.\<close>

definition int_neg_inherit :: "bool \<Rightarrow> DeeInt \<Rightarrow> DeeInt" where
  "int_neg_inherit shared self = (if \<not> shared then negate_size self else int_neg self)"

definition int_inv :: "DeeInt \<Rightarrow> DeeInt" where
  "int_inv v =
     (if \<bar>ob_size v\<bar> \<le> 1 then DeeInt_NewInt32 (- (MEDIUM_VALUE v + 1))
      else negate_size (int_add v DeeInt_One))"

section \<open>A machine-integer operand\<close>

definition x_add_int :: "DeeInt \<Rightarrow> digit \<Rightarrow> DeeInt" where
  "x_add_int a b =
     (let as = digits a;
          carry = as ! 0 + b
      in int_normalize (DeeInt_Alloc
           ((carry AND DIGIT_MASK) # x_add_loop (drop_bit DIGIT_BITS carry) (drop 1 as) [])))"

text \<open>
  The two-digit operand is a \<open>twodigits\<close>; its low and high digit are added to the two lowest
  digits.  The 64-bit sums are truncated to a digit on assignment, which is the sum of the
  truncated operands.
\<close>

definition x_add_int2 :: "DeeInt \<Rightarrow> twodigits \<Rightarrow> DeeInt" where
  "x_add_int2 a b =
     (let as = digits a;
          carry0 = as ! 0 + (ucast b AND DIGIT_MASK);
          carry1 = drop_bit DIGIT_BITS carry0
                   + (as ! 1 + (ucast (drop_bit DIGIT_BITS b) AND DIGIT_MASK))
      in int_normalize (DeeInt_Alloc
           ((carry0 AND DIGIT_MASK) # (carry1 AND DIGIT_MASK)
            # x_add_loop (drop_bit DIGIT_BITS carry1) (drop 2 as) [])))"

definition x_sub_revint :: "digit \<Rightarrow> DeeInt \<Rightarrow> DeeInt" where
  "x_sub_revint a b =
     (let bs = digits b;
          borrow = bs ! 0 - a
      in int_normalize (negate_size (DeeInt_Alloc
           ((borrow AND DIGIT_MASK)
            # x_sub_loop (drop_bit DIGIT_BITS borrow AND 1) (drop 1 bs) []))))"

definition x_sub_int :: "DeeInt \<Rightarrow> digit \<Rightarrow> DeeInt" where
  "x_sub_int a b =
     (let as = digits a;
          borrow = as ! 0 - b
      in int_normalize (DeeInt_Alloc
           ((borrow AND DIGIT_MASK)
            # x_sub_loop (drop_bit DIGIT_BITS borrow AND 1) (drop 1 as) [])))"

definition x_sub_int2 :: "DeeInt \<Rightarrow> twodigits \<Rightarrow> DeeInt" where
  "x_sub_int2 a b =
     (let as = digits a in
      if \<bar>ob_size a\<bar> = 2 then
        (let a_value = push_bit DIGIT_BITS (ucast (as ! 1)) OR ucast (as ! 0) in
         if a_value = b then DeeInt_Zero
         else if a_value < b then
           (let b = b - a_value in
            if b \<le> ucast DIGIT_MASK then \<lparr>ob_size = -1, ob_digit = [ucast b]\<rparr>
            else \<lparr>ob_size = -2,
                  ob_digit = [ucast b AND DIGIT_MASK,
                              ucast (drop_bit DIGIT_BITS b) AND DIGIT_MASK]\<rparr>)
         else
           (let a_value = a_value - b in
            if a_value \<le> ucast DIGIT_MASK then DeeInt_Alloc [ucast a_value]
            else DeeInt_Alloc [ucast a_value AND DIGIT_MASK,
                               ucast (drop_bit DIGIT_BITS a_value) AND DIGIT_MASK]))
      else
        (let borrow0 = as ! 0 - (ucast b AND DIGIT_MASK);
             borrow1 = as ! 1 - (ucast (drop_bit DIGIT_BITS b) AND DIGIT_MASK)
                       - (drop_bit DIGIT_BITS borrow0 AND 1)
         in int_normalize (DeeInt_Alloc
              ((borrow0 AND DIGIT_MASK) # (borrow1 AND DIGIT_MASK)
               # x_sub_loop (drop_bit DIGIT_BITS borrow1 AND 1) (drop 2 as) []))))"

definition x_sub_revint2 :: "twodigits \<Rightarrow> DeeInt \<Rightarrow> DeeInt" where
  "x_sub_revint2 a b =
     (let bs = digits b;
          lo = ucast a AND DIGIT_MASK;
          hi = ucast (drop_bit DIGIT_BITS a) AND DIGIT_MASK;
          do_reverse = negate_size (x_sub_int2 b a);
          subtract =
            (let borrow0 = lo - bs ! 0;
                 borrow1 = hi - bs ! 1 - (drop_bit DIGIT_BITS borrow0 AND 1)
             in int_normalize (DeeInt_Alloc [borrow0 AND DIGIT_MASK, borrow1 AND DIGIT_MASK]))
      in if 2 < \<bar>ob_size b\<bar> then negate_size (x_sub_int2 b a)
         else if lo = bs ! 0 then
           (if hi = bs ! 1 then DeeInt_Zero
            else if hi < bs ! 1 then do_reverse
            else subtract)
         else if lo < bs ! 0 then do_reverse
         else subtract)"

definition DeeInt_AddSDigit :: "DeeInt \<Rightarrow> u32 \<Rightarrow> DeeInt" where
  "DeeInt_AddSDigit a b =
     (if b = 0 then a
      else if \<bar>ob_size a\<bar> \<le> 1 then DeeInt_NewInt32 (MEDIUM_VALUE a + b)
      else if ob_size a < 0 then
        (if b <s 0 then
           (let z = x_add_int a (- b) in if ob_size z \<noteq> 0 then negate_size z else z)
         else x_sub_revint b a)
      else if b <s 0 then x_sub_int a (- b)
      else x_add_int a b)"

definition DeeInt_SubSDigit :: "DeeInt \<Rightarrow> u32 \<Rightarrow> DeeInt" where
  "DeeInt_SubSDigit a b =
     (if \<bar>ob_size a\<bar> \<le> 1 then DeeInt_NewInt32 (MEDIUM_VALUE a - b)
      else if ob_size a < 0 then
        negate_size (if b <s 0 then x_sub_int a (- b) else x_add_int a b)
      else (if b <s 0 then x_add_int a (- b) else x_sub_int a b))"

definition DeeInt_AddUInt32 :: "DeeInt \<Rightarrow> u32 \<Rightarrow> DeeInt" where
  "DeeInt_AddUInt32 a b =
     (if b = 0 then a
      else if \<bar>ob_size a\<bar> \<le> 1 then DeeInt_NewInt64 (scast (MEDIUM_VALUE a) + ucast b)
      else if ob_size a < 0 then
        (if b \<le> DIGIT_MASK then x_sub_revint b a else x_sub_revint2 (ucast b) a)
      else if b \<le> DIGIT_MASK then x_add_int a b
      else x_add_int2 a (ucast b))"

definition DeeInt_SubUInt32 :: "DeeInt \<Rightarrow> u32 \<Rightarrow> DeeInt" where
  "DeeInt_SubUInt32 a b =
     (if \<bar>ob_size a\<bar> \<le> 1 then DeeInt_NewInt64 (scast (MEDIUM_VALUE a) - ucast b)
      else if ob_size a < 0 then
        negate_size (if b \<le> DIGIT_MASK then x_add_int a b else x_add_int2 a (ucast b))
      else (if b \<le> DIGIT_MASK then x_sub_int a b else x_sub_int2 a (ucast b)))"

section \<open>Increment and decrement in place\<close>

text \<open>
  \<open>if (a->ob_digit[i]++ != DIGIT_MASK) goto done2; a->ob_digit[i] = 0;\<close>: the updated digits and
  whether the loop was left early.
\<close>

fun inc_loop :: "digit list \<Rightarrow> digit list \<times> bool" where
  "inc_loop [] = ([], False)"
| "inc_loop (d # ds) =
     (if d \<noteq> DIGIT_MASK then ((d + 1) # ds, True)
      else let (zs, done) = inc_loop ds in (0 # zs, done))"

text \<open>The borrowing loop; \<open>None\<close> when the object is replaced by the integer zero.\<close>

fun dec_loop :: "nat \<Rightarrow> digit list \<Rightarrow> digit list option" where
  "dec_loop n [] = Some []"
| "dec_loop n (d # ds) =
     (if d = 0 then map_option ((#) DIGIT_MASK) (dec_loop n ds)
      else if d = 1 \<and> n = 1 then None
      else Some ((d - 1) # ds))"

text \<open>Add one to the magnitude of an unshared object, which moves when it grows by a digit.\<close>

definition inc_inplace :: "DeeInt \<Rightarrow> DeeInt" where
  "inc_inplace a =
     (let n = nat \<bar>ob_size a\<bar>;
          (zs, done) = inc_loop (digits a)
      in if done then a\<lparr>ob_digit := zs @ drop n (ob_digit a)\<rparr>
         else let z = DeeInt_Alloc (replicate n 0 @ [1])
              in if ob_size a < 0 then negate_size z else z)"

text \<open>Subtract one from the magnitude of an unshared object.\<close>

definition dec_inplace :: "DeeInt \<Rightarrow> DeeInt" where
  "dec_inplace a =
     (let n = nat \<bar>ob_size a\<bar>
      in case dec_loop n (digits a) of
           None \<Rightarrow> DeeInt_Zero
         | Some zs \<Rightarrow> a\<lparr>ob_digit := zs @ drop n (ob_digit a)\<rparr>)"

definition int_inc :: "bool \<Rightarrow> DeeInt \<Rightarrow> DeeInt" where
  "int_inc shared a =
     (if \<not> shared then
        (if ob_size a = 0 then DeeInt_One
         else if ob_size a > 0 then inc_inplace a
         else dec_inplace a)
      else if \<bar>ob_size a\<bar> \<le> 1 then DeeInt_NewInt32 (MEDIUM_VALUE a + 1)
      else if ob_size a < 0 then x_sub_revint 1 a
      else x_add_int a 1)"

definition int_dec :: "bool \<Rightarrow> DeeInt \<Rightarrow> DeeInt" where
  "int_dec shared a =
     (if \<not> shared then
        (if ob_size a = 0 then DeeInt_MinusOne
         else if ob_size a > 0 then dec_inplace a
         else inc_inplace a)
      else if \<bar>ob_size a\<bar> \<le> 1 then DeeInt_NewInt32 (MEDIUM_VALUE a - 1)
      else if ob_size a < 0 then negate_size (x_add_int a 1)
      else x_sub_int a 1)"

section \<open>Correctness of the magnitude loops\<close>

lemma and_DIGIT_MASK_eq: "unat d < BASE \<Longrightarrow> d AND DIGIT_MASK = d"
  by (simp add: word_unat_eq_iff unat_and_DIGIT_MASK)

lemma drop_DIGIT_BITS_eq_0: "unat (d :: digit) < BASE \<Longrightarrow> drop_bit DIGIT_BITS d = 0"
  by (simp add: drop_bit_eq_0_iff)

lemma x_add_loop_v_iadd:
  assumes "length bs \<le> length as" "digits_ok as"
  shows "x_add_loop c as bs = fst (v_iadd_loop c as bs) @ [snd (v_iadd_loop c as bs)]"
  using assms
proof (induction as bs arbitrary: c rule: list_induct_pair)
  case (ConsNil a as)
  have zero: "x_add_loop 0 as [] = as @ [0]" if "digits_ok as" for as
    using that by (induction as) (simp_all add: and_DIGIT_MASK_eq drop_DIGIT_BITS_eq_0 Let_def)
  show ?case
  proof (cases "c = 0")
    case True
    then show ?thesis using zero [of "a # as"] ConsNil.prems by simp
  next
    case False
    then show ?thesis using ConsNil by (simp add: Let_def split: prod.splits)
  qed
qed (simp_all add: Let_def split: prod.splits)

lemma x_sub_loop_v_isub:
  assumes "length bs \<le> length as" "digits_ok as"
  shows "x_sub_loop b as bs = fst (v_isub_loop b as bs)"
  using assms
proof (induction as bs arbitrary: b rule: list_induct_pair)
  case (ConsNil a as)
  have zero: "x_sub_loop 0 as [] = as" if "digits_ok as" for as
    using that by (induction as) (simp_all add: and_DIGIT_MASK_eq drop_DIGIT_BITS_eq_0 Let_def)
  show ?case
  proof (cases "b = 0")
    case True
    then show ?thesis using zero [of "a # as"] ConsNil.prems by simp
  next
    case False
    then show ?thesis using ConsNil by (simp add: Let_def split: prod.splits)
  qed
qed (simp_all add: Let_def split: prod.splits)

lemma x_add_loop_spec:
  assumes "length bs \<le> length as" "digits_ok as" "digits_ok bs" "unat c \<le> 1"
  shows "dval (x_add_loop c as bs) = unat c + dval as + dval bs"
    and "length (x_add_loop c as bs) = Suc (length as)"
    and "digits_ok (x_add_loop c as bs)"
proof -
  obtain zs c' where v: "v_iadd_loop c as bs = (zs, c')" by fastforce
  note spec = v_iadd_loop_spec [OF assms v]
  have u: "unat c' < BASE" using spec BASE_pos(3) by linarith
  show "dval (x_add_loop c as bs) = unat c + dval as + dval bs"
    and "length (x_add_loop c as bs) = Suc (length as)"
    and "digits_ok (x_add_loop c as bs)"
    using spec u by (simp_all add: x_add_loop_v_iadd assms v)
qed

lemma x_sub_loop_spec:
  assumes "length bs \<le> length as" "digits_ok as" "digits_ok bs" "unat b \<le> 1"
    and "dval bs + unat b \<le> dval as"
  shows "dval (x_sub_loop b as bs) + dval bs + unat b = dval as"
    and "length (x_sub_loop b as bs) = length as"
    and "digits_ok (x_sub_loop b as bs)"
proof -
  obtain zs b' where v: "v_isub_loop b as bs = (zs, b')" by fastforce
  note spec = v_isub_loop_spec [OF assms(1-4) v]
  have "b' = 0"
  proof (rule ccontr)
    assume "b' \<noteq> 0"
    then have "unat b' = 1" using spec by (simp add: le_Suc_eq unat_eq_zero)
    moreover have "dval zs < BASE ^ length as" using spec dval_bound [of zs] by simp
    ultimately show False using spec assms(5) by simp
  qed
  then show "dval (x_sub_loop b as bs) + dval bs + unat b = dval as"
    and "length (x_sub_loop b as bs) = length as"
    and "digits_ok (x_sub_loop b as bs)"
    using spec by (simp_all add: x_sub_loop_v_isub assms v)
qed

subsection \<open>The topmost differing digit\<close>

lemma top_diff_le: "top_diff as bs n \<le> n"
  by (induction n) (auto simp: le_SucI)

lemma top_diff_above: "top_diff as bs n \<le> i \<Longrightarrow> i < n \<Longrightarrow> as ! i = bs ! i"
  by (induction n) (auto split: if_splits simp: less_Suc_eq)

lemma top_diff_neq: "0 < top_diff as bs n \<Longrightarrow> as ! (top_diff as bs n - 1) \<noteq> bs ! (top_diff as bs n - 1)"
  by (induction n) (auto split: if_splits)

lemma top_diff_drop:
  assumes "length as = length bs"
  shows "drop (top_diff as bs (length as)) as = drop (top_diff as bs (length as)) bs"
  using assms top_diff_above [of as bs "length as"]
  by (intro nth_equalityI) auto

lemma dval_less_top:
  assumes "digits_ok xs" "length xs = length ys" "unat x < unat y"
  shows "dval (xs @ [x]) < dval (ys @ [y])"
proof -
  let ?w = "BASE ^ length ys"
  have "dval xs < ?w" using dval_bound [OF assms(1)] assms(2) by simp
  then have "dval (xs @ [x]) < ?w * (unat x + 1)" using assms(2) by (simp add: algebra_simps)
  also have "\<dots> \<le> ?w * unat y" using assms(3) by (intro mult_le_mono2) simp
  also have "\<dots> \<le> dval (ys @ [y])" by simp
  finally show ?thesis .
qed

text \<open>Comparing two vectors of one length is comparing the topmost differing digit.\<close>

lemma top_diff_compare:
  assumes "digits_ok as" "digits_ok bs" "length as = length bs"
  defines "i \<equiv> top_diff as bs (length as)"
  shows "i = 0 \<Longrightarrow> as = bs"
    and "0 < i \<Longrightarrow> as ! (i - 1) < bs ! (i - 1) \<Longrightarrow> dval (take i as) < dval (take i bs)"
    and "0 < i \<Longrightarrow> \<not> as ! (i - 1) < bs ! (i - 1) \<Longrightarrow> dval (take i bs) < dval (take i as)"
proof -
  show "i = 0 \<Longrightarrow> as = bs"
    using top_diff_drop [OF assms(3)] by (simp add: i_def)
  have le: "i \<le> length as" unfolding i_def by (rule top_diff_le)
  have split: "take i xs = take (i - 1) xs @ [xs ! (i - 1)]" if "0 < i" "length xs = length as" for xs :: "digit list"
    using that le by (metis Suc_pred' less_eq_Suc_le take_Suc_conv_app_nth)
  show "dval (take i as) < dval (take i bs)" if "0 < i" "as ! (i - 1) < bs ! (i - 1)"
    unfolding split [OF that(1) refl] split [OF that(1) assms(3) [symmetric]]
    using that assms(1-3) by (intro dval_less_top) (simp_all add: word_less_nat_alt)
  show "dval (take i bs) < dval (take i as)" if "0 < i" "\<not> as ! (i - 1) < bs ! (i - 1)"
  proof -
    have "as ! (i - 1) \<noteq> bs ! (i - 1)" using top_diff_neq that(1) unfolding i_def by blast
    with that(2) have "unat (bs ! (i - 1)) < unat (as ! (i - 1))"
      by (metis linorder_neqE word_less_nat_alt)
    then show ?thesis
      unfolding split [OF that(1) refl] split [OF that(1) assms(3) [symmetric]]
      using assms(1-3) by (intro dval_less_top) simp_all
  qed
qed

lemma dval_take_common:
  assumes "length as = length bs"
  defines "i \<equiv> top_diff as bs (length as)"
  shows "int (dval as) - int (dval bs) = int (dval (take i as)) - int (dval (take i bs))"
proof -
  have "drop i as = drop i bs" unfolding i_def by (rule top_diff_drop [OF assms(1)])
  moreover have "dval as = dval (take i as) + BASE ^ min (length as) i * dval (drop i as)"
    and "dval bs = dval (take i bs) + BASE ^ min (length bs) i * dval (drop i bs)"
    by (rule dval_take_drop)+
  ultimately show ?thesis using assms(1) by simp
qed

section \<open>Correctness of addition and subtraction\<close>

lemma represents_normalize:
  assumes "int_mem v"
  shows "represents (int_normalize v) (int_val v)"
  using assms by (simp add: represents_def)

lemma represents_normalize_alloc:
  assumes "digits_ok ds"
  shows "represents (int_normalize (DeeInt_Alloc ds)) (int (dval ds))"
  using represents_normalize [of "DeeInt_Alloc ds"] assms by simp

lemma represents_eqI: "represents z k \<Longrightarrow> k = k' \<Longrightarrow> represents z k'"
  by simp

lemma represents_x_add:
  assumes "int_mem a" "int_mem b"
  shows "represents (x_add a b) (int (int_mag a) + int (int_mag b))"
proof -
  define as bs where "as = (if \<bar>ob_size a\<bar> < \<bar>ob_size b\<bar> then digits b else digits a)"
    and "bs = (if \<bar>ob_size a\<bar> < \<bar>ob_size b\<bar> then digits a else digits b)"
  have unf: "x_add a b = int_normalize (DeeInt_Alloc (x_add_loop 0 as bs))"
    by (simp add: x_add_def as_def bs_def)
  have "length bs \<le> length as" "digits_ok as" "digits_ok bs"
    using assms by (auto simp: as_def bs_def length_digits int_mem_digits_ok nat_le_eq_zle)
  note spec = x_add_loop_spec [OF this, of 0]
  have "dval as + dval bs = int_mag a + int_mag b"
    by (auto simp: as_def bs_def int_mag_def)
  then show ?thesis
    using represents_normalize_alloc [of "x_add_loop 0 as bs"] spec unf by simp
qed

lemma x_sub_finish:
  assumes "length bs \<le> length as" "digits_ok as" "digits_ok bs" "dval bs \<le> dval as"
  defines "z \<equiv> DeeInt_Alloc (x_sub_loop 0 as bs)"
  shows "represents (int_normalize z) (int (dval as) - int (dval bs))"
    and "represents (int_normalize (negate_size z)) (int (dval bs) - int (dval as))"
proof -
  note spec = x_sub_loop_spec [OF assms(1-3), of 0]
  have v: "int (dval (x_sub_loop 0 as bs)) = int (dval as) - int (dval bs)"
    using spec(1) assms(4) by simp
  have m: "int_mem z" using spec(3) assms(4) by (simp add: z_def)
  show "represents (int_normalize z) (int (dval as) - int (dval bs))"
    using represents_normalize [OF m] v by (simp add: z_def)
  show "represents (int_normalize (negate_size z)) (int (dval bs) - int (dval as))"
    using represents_normalize [of "negate_size z"] m v by (simp add: z_def)
qed

text \<open>A vector with more digits and a set top digit is the larger one.\<close>

lemma int_mag_less_of_size:
  assumes "int_ok a" "int_mem b" "\<bar>ob_size b\<bar> < \<bar>ob_size a\<bar>"
  shows "int_mag b < int_mag a"
proof -
  have "int_mag b < BASE ^ nat \<bar>ob_size b\<bar>" using assms(2) by (rule int_mag_bound)
  also have "\<dots> \<le> BASE ^ (nat \<bar>ob_size a\<bar> - 1)"
    using assms(3) by (intro power_increasing) (simp_all add: BASE_num)
  also have "\<dots> \<le> int_mag a" using assms by (intro int_mag_lower) auto
  finally show ?thesis .
qed

lemma represents_x_sub:
  assumes "int_ok a" "int_ok b"
  shows "represents (x_sub a b) (int (int_mag a) - int (int_mag b))"
proof -
  have ok: "digits_ok (digits a)" "digits_ok (digits b)"
    and len: "length (digits a) = nat \<bar>ob_size a\<bar>" "length (digits b) = nat \<bar>ob_size b\<bar>"
    using assms by (simp_all add: int_mem_digits_ok length_digits)
  consider (lt) "\<bar>ob_size a\<bar> < \<bar>ob_size b\<bar>" | (eq) "\<bar>ob_size a\<bar> = \<bar>ob_size b\<bar>"
    | (gt) "\<bar>ob_size b\<bar> < \<bar>ob_size a\<bar>" by linarith
  then show ?thesis
  proof cases
    case lt
    then have "int_mag a < int_mag b" using int_mag_less_of_size [of b a] assms by simp
    moreover have "length (digits a) \<le> length (digits b)" using lt len by linarith
    ultimately show ?thesis using x_sub_finish(2) [of "digits a" "digits b"] lt ok
      by (simp add: x_sub_def int_mag_def)
  next
    case gt
    then have "int_mag b < int_mag a" using int_mag_less_of_size [of a b] assms by simp
    moreover have "length (digits b) \<le> length (digits a)" using gt len by linarith
    ultimately show ?thesis using x_sub_finish(1) [of "digits b" "digits a"] gt ok
      by (simp add: x_sub_def int_mag_def)
  next
    case eq
    let ?i = "top_diff (digits a) (digits b) (length (digits a))"
    have l: "length (digits a) = length (digits b)" using eq len by simp
    note cmp = top_diff_compare [OF ok l]
    note common = dval_take_common [OF l]
    have unf: "x_sub a b =
        (if ?i = 0 then DeeInt_Zero
         else if digits a ! (?i - 1) < digits b ! (?i - 1)
           then int_normalize (negate_size (DeeInt_Alloc (x_sub_loop 0 (take ?i (digits b)) (take ?i (digits a)))))
           else int_normalize (DeeInt_Alloc (x_sub_loop 0 (take ?i (digits a)) (take ?i (digits b)))))"
      using eq len by (simp add: x_sub_def Let_def)
    consider "?i = 0" | (less) "0 < ?i" "digits a ! (?i - 1) < digits b ! (?i - 1)"
      | (greater) "0 < ?i" "\<not> digits a ! (?i - 1) < digits b ! (?i - 1)" by blast
    then show ?thesis
    proof cases
      case 1
      then show ?thesis using cmp(1) unf by (simp add: int_mag_def represents_Zero)
    next
      case less
      then show ?thesis
        using x_sub_finish(2) [of "take ?i (digits a)" "take ?i (digits b)"] cmp(2) ok l common unf
        by (simp add: int_mag_def)
    next
      case greater
      then show ?thesis
        using x_sub_finish(1) [of "take ?i (digits b)" "take ?i (digits a)"] cmp(3) ok l common unf
        by (simp add: int_mag_def)
    qed
  qed
qed

text \<open>The fast path: both operands have at most one digit, so the 32-bit arithmetic is exact.\<close>

lemma medium_range:
  assumes "int_ok a" "\<bar>ob_size a\<bar> \<le> 1"
  shows "- 1073741824 < sint (MEDIUM_VALUE a)" "sint (MEDIUM_VALUE a) < 1073741824"
  using MEDIUM_VALUE_spec [OF assms] by (simp_all add: BASE_num abs_less_iff)

lemma medium_fast_paths:
  assumes "int_ok a" "\<bar>ob_size a\<bar> \<le> 1" "int_ok b" "\<bar>ob_size b\<bar> \<le> 1"
  shows "represents (DeeInt_NewInt32 (MEDIUM_VALUE a + MEDIUM_VALUE b)) (int_val a + int_val b)"
    and "represents (DeeInt_NewInt32 (MEDIUM_VALUE a - MEDIUM_VALUE b)) (int_val a - int_val b)"
proof -
  note ra = medium_range [OF assms(1,2)] and rb = medium_range [OF assms(3,4)]
  have "sint (MEDIUM_VALUE a + MEDIUM_VALUE b) = int_val a + int_val b"
    using ra rb assms by (subst sint_add_range) (simp_all add: MEDIUM_VALUE_spec)
  then show "represents (DeeInt_NewInt32 (MEDIUM_VALUE a + MEDIUM_VALUE b)) (int_val a + int_val b)"
    using represents_NewInt32 by metis
  have "sint (MEDIUM_VALUE a - MEDIUM_VALUE b) = int_val a - int_val b"
    using ra rb assms by (subst sint_diff_range) (simp_all add: MEDIUM_VALUE_spec)
  then show "represents (DeeInt_NewInt32 (MEDIUM_VALUE a - MEDIUM_VALUE b)) (int_val a - int_val b)"
    using represents_NewInt32 by metis
qed

text \<open>The sign fix-up after \<open>x_add\<close> on two negative operands: \<open>-0\<close> is \<open>0\<close>.\<close>

lemma represents_negate_guarded:
  "represents z k \<Longrightarrow> represents (if ob_size z \<noteq> 0 then negate_size z else z) (- k)"
  by (auto simp: represents_def int_val_eq_0_iff)

lemma represents_int_add:
  assumes "int_ok a" "int_ok b"
  shows "represents (int_add a b) (int_val a + int_val b)"
proof -
  have ab: "represents (x_add a b) (int (int_mag a) + int (int_mag b))"
    using assms by (simp add: represents_x_add)
  from represents_negate_guarded [OF this]
  have neg: "represents (let z = x_add a b in if ob_size z \<noteq> 0 then negate_size z else z)
      (- int (int_mag a) + - int (int_mag b))"
    by (simp add: Let_def)
  note sub = represents_x_sub [OF assms] represents_x_sub [OF assms(2,1)]
  show ?thesis
    using medium_fast_paths(1) [OF assms(1) _ assms(2)] ab neg sub
    by (cases "ob_size a < 0"; cases "ob_size b < 0")
       (simp_all add: int_add_def int_val_neg int_val_nonneg)
qed

lemma represents_int_sub:
  assumes "int_ok a" "int_ok b"
  shows "represents (int_sub a b) (int_val a - int_val b)"
proof -
  have ab: "represents (x_add a b) (int (int_mag a) + int (int_mag b))"
    using assms by (simp add: represents_x_add)
  note sub = represents_x_sub [OF assms]
  show ?thesis
    using medium_fast_paths(2) [OF assms(1) _ assms(2)] ab sub
      represents_negate [OF ab] represents_negate [OF sub]
    by (auto simp: int_sub_def int_val_neg int_val_nonneg)
qed

lemma represents_int_neg:
  assumes "int_ok a"
  shows "represents (int_neg a) (- int_val a)"
proof (cases "\<bar>ob_size a\<bar> \<le> 1")
  case True
  have "sint (- MEDIUM_VALUE a) = - int_val a"
    using medium_range [OF assms True] MEDIUM_VALUE_spec(1) [OF assms True]
    by (subst sint_minus_range) simp_all
  then show ?thesis using True represents_NewInt32 [of "- MEDIUM_VALUE a"] by (simp add: int_neg_def)
next
  case False
  then show ?thesis using assms length_digits [of a]
    by (auto simp: int_neg_def represents_def int_ok_def int_mem_def digits_def DeeInt_Alloc_def
        int_val_def int_mag_def)
qed

lemma represents_int_neg_inherit:
  "represents a k \<Longrightarrow> represents (int_neg_inherit shared a) (- k)"
  using represents_int_neg [of a] by (auto simp: int_neg_inherit_def represents_def)

lemma represents_int_inv:
  assumes "int_ok v"
  shows "represents (int_inv v) (NOT (int_val v))"
proof (cases "\<bar>ob_size v\<bar> \<le> 1")
  case True
  note r = medium_range [OF assms True]
  have s: "sint (MEDIUM_VALUE v + 1) = int_val v + 1"
    using r MEDIUM_VALUE_spec(1) [OF assms True] by (subst sint_add_range) simp_all
  have "sint (- (MEDIUM_VALUE v + 1)) = - (int_val v + 1)"
    using r s MEDIUM_VALUE_spec(1) [OF assms True] by (subst sint_minus_range) simp_all
  then have "sint (- (MEDIUM_VALUE v + 1)) = NOT (int_val v)"
    by (simp add: not_int_def)
  then show ?thesis using True represents_NewInt32 [of "- (MEDIUM_VALUE v + 1)"]
    by (simp only: int_inv_def if_True)
next
  case False
  have "represents (int_add v DeeInt_One) (int_val v + 1)"
    using represents_int_add [of v DeeInt_One] assms represents_One by (simp add: represents_def)
  from represents_negate [OF this] show ?thesis
    using False by (simp add: int_inv_def not_int_def)
qed

section \<open>Correctness of the machine-integer variants\<close>

lemma digits_Cons:
  assumes "int_mem a" "1 \<le> \<bar>ob_size a\<bar>"
  obtains d ds where "digits a = d # ds"
  using assms length_digits [of a] by (cases "digits a") auto

lemma digits_Cons2:
  assumes "int_mem a" "2 \<le> \<bar>ob_size a\<bar>"
  obtains d e ds where "digits a = d # e # ds"
proof -
  obtain d xs where 1: "digits a = d # xs" using assms by (auto elim: digits_Cons)
  then have "xs \<noteq> []" using assms length_digits [of a] by auto
  with 1 that show ?thesis by (cases xs) auto
qed

text \<open>
  The unrolled first steps are steps of the loops against a vector of one or two digits.
\<close>

lemma x_add_int_loop:
  assumes "int_mem a" "1 \<le> \<bar>ob_size a\<bar>"
  shows "x_add_int a b = int_normalize (DeeInt_Alloc (x_add_loop 0 (digits a) [b]))"
proof -
  obtain d ds where "digits a = d # ds" using assms by (rule digits_Cons)
  then show ?thesis by (simp add: x_add_int_def Let_def)
qed

lemma x_add_int2_loop:
  assumes "int_mem a" "2 \<le> \<bar>ob_size a\<bar>"
  shows "x_add_int2 a b = int_normalize (DeeInt_Alloc (x_add_loop 0 (digits a)
      [ucast b AND DIGIT_MASK, ucast (drop_bit DIGIT_BITS b) AND DIGIT_MASK]))"
proof -
  obtain d e ds where "digits a = d # e # ds" using assms by (rule digits_Cons2)
  then show ?thesis by (simp add: x_add_int2_def Let_def)
qed

lemma x_sub_int_loop:
  assumes "int_mem a" "1 \<le> \<bar>ob_size a\<bar>"
  shows "x_sub_int a b = int_normalize (DeeInt_Alloc (x_sub_loop 0 (digits a) [b]))"
proof -
  obtain d ds where "digits a = d # ds" using assms by (rule digits_Cons)
  then show ?thesis by (simp add: x_sub_int_def Let_def)
qed

lemma x_sub_revint_loop:
  assumes "int_mem b" "1 \<le> \<bar>ob_size b\<bar>"
  shows "x_sub_revint a b = int_normalize (negate_size (DeeInt_Alloc (x_sub_loop 0 (digits b) [a])))"
proof -
  obtain d ds where "digits b = d # ds" using assms by (rule digits_Cons)
  then show ?thesis by (simp add: x_sub_revint_def Let_def)
qed

lemma x_sub_int2_loop:
  assumes "int_mem a" "2 < \<bar>ob_size a\<bar>"
  shows "x_sub_int2 a b = int_normalize (DeeInt_Alloc (x_sub_loop 0 (digits a)
      [ucast b AND DIGIT_MASK, ucast (drop_bit DIGIT_BITS b) AND DIGIT_MASK]))"
proof -
  have "2 \<le> \<bar>ob_size a\<bar>" using assms(2) by simp
  then obtain d e ds where "digits a = d # e # ds" using assms(1) by (elim digits_Cons2)
  then show ?thesis using assms(2) by (simp add: x_sub_int2_def Let_def)
qed

text \<open>The two digits of a machine integer below the square of the base.\<close>

lemma two_digit_values:
  fixes w :: twodigits
  assumes "unat w < BASE * BASE"
  shows "unat (ucast w AND DIGIT_MASK :: digit) = unat w mod BASE"
    and "unat (ucast (drop_bit DIGIT_BITS w) AND DIGIT_MASK :: digit) = unat w div BASE"
    and "dval [ucast w AND DIGIT_MASK, ucast (drop_bit DIGIT_BITS w) AND DIGIT_MASK] = unat w"
proof -
  have d: "unat w div BASE < BASE" using assms by (simp add: less_mult_imp_div_less)
  show 1: "unat (ucast w AND DIGIT_MASK :: digit) = unat w mod BASE"
    by (simp add: word_nat BASE_num mod_mod_cancel)
  have "unat (ucast (drop_bit DIGIT_BITS w) :: digit) = unat w div BASE"
    using d by (subst unat_ucast_digit) (simp_all add: unat_drop_bit_word exp_DIGIT_BITS)
  then show 2: "unat (ucast (drop_bit DIGIT_BITS w) AND DIGIT_MASK :: digit) = unat w div BASE"
    using d by (simp add: unat_and_DIGIT_MASK)
  show "dval [ucast w AND DIGIT_MASK, ucast (drop_bit DIGIT_BITS w) AND DIGIT_MASK] = unat w"
    using 1 2 by simp
qed

lemma represents_small_word:
  fixes w :: twodigits
  assumes "0 < unat w" "unat w < BASE * BASE" "s = 1 \<or> s = -1"
  shows "represents
      (if w \<le> ucast DIGIT_MASK then \<lparr>ob_size = s, ob_digit = [ucast w]\<rparr>
       else \<lparr>ob_size = 2 * s,
             ob_digit = [ucast w AND DIGIT_MASK, ucast (drop_bit DIGIT_BITS w) AND DIGIT_MASK]\<rparr>)
      (s * int (unat w))"
proof (cases "w \<le> ucast DIGIT_MASK")
  case True
  then have "unat w < BASE"
    by (simp add: word_le_nat_alt unat_ucast_up unat_DIGIT_MASK BASE_num)
  then have u: "unat (ucast w :: digit) = unat w" "unat w < BASE" by (simp_all add: unat_ucast_digit)
  then have "ucast w \<noteq> (0 :: digit)" using assms(1) by auto
  then show ?thesis using one_digit [of "ucast w" s] u True assms(3) by simp
next
  case False
  then have ge: "BASE \<le> unat w"
    by (simp add: word_le_nat_alt unat_ucast_up unat_DIGIT_MASK BASE_num)
  note v = two_digit_values [OF assms(2)]
  let ?ds = "[ucast w AND DIGIT_MASK, ucast (drop_bit DIGIT_BITS w) AND DIGIT_MASK] :: digit list"
  have "0 < unat w div BASE" using ge by (simp add: div_greater_zero_iff)
  then have "last ?ds \<noteq> 0" using v(2) by auto
  then show ?thesis using False v(3) assms(3)
    by (auto simp: represents_def int_ok_def int_mem_def digits_def int_val_def int_mag_def)
qed

lemma represents_x_add_int:
  assumes "int_ok a" "2 \<le> \<bar>ob_size a\<bar>" "unat b < BASE"
  shows "represents (x_add_int a b) (int (int_mag a) + int (unat b))"
proof -
  have "length [b] \<le> length (digits a)" "digits_ok (digits a)" "digits_ok [b]"
    using assms by (simp_all add: length_digits int_mem_digits_ok le_nat_iff)
  note spec = x_add_loop_spec [OF this, of 0]
  then show ?thesis using represents_normalize_alloc [of "x_add_loop 0 (digits a) [b]"] assms
    by (simp add: x_add_int_loop int_mag_def)
qed

lemma represents_x_add_int2:
  assumes "int_ok a" "2 \<le> \<bar>ob_size a\<bar>" "unat b < BASE * BASE"
  shows "represents (x_add_int2 a b) (int (int_mag a) + int (unat b))"
proof -
  let ?bs = "[ucast b AND DIGIT_MASK, ucast (drop_bit DIGIT_BITS b) AND DIGIT_MASK]"
  have "length ?bs \<le> length (digits a)" "digits_ok (digits a)" "digits_ok ?bs"
    using assms by (simp_all add: length_digits int_mem_digits_ok le_nat_iff)
  note spec = x_add_loop_spec [OF this, of 0]
  then show ?thesis using represents_normalize_alloc [of "x_add_loop 0 (digits a) ?bs"] assms
      two_digit_values(3) [OF assms(3)]
    by (simp add: x_add_int2_loop int_mag_def del: dval.simps)
qed

text \<open>An integer of at least two (three) digits is no smaller than any one-digit (two-digit) number.\<close>

lemma int_mag_ge_BASE:
  assumes "int_ok a" "int n < \<bar>ob_size a\<bar>"
  shows "BASE ^ n \<le> int_mag a"
proof -
  have "BASE ^ n \<le> BASE ^ (nat \<bar>ob_size a\<bar> - 1)"
    using assms(2) by (intro power_increasing) (simp_all add: BASE_num)
  also have "\<dots> \<le> int_mag a" using assms by (intro int_mag_lower) auto
  finally show ?thesis .
qed

lemma represents_x_sub_int:
  assumes "int_ok a" "2 \<le> \<bar>ob_size a\<bar>" "unat b < BASE"
  shows "represents (x_sub_int a b) (int (int_mag a) - int (unat b))"
    and "represents (x_sub_revint b a) (int (unat b) - int (int_mag a))"
proof -
  have len: "length [b] \<le> length (digits a)" "digits_ok (digits a)" "digits_ok [b]"
    using assms by (simp_all add: length_digits int_mem_digits_ok le_nat_iff)
  have le: "dval [b] \<le> dval (digits a)"
    using int_mag_ge_BASE [of a 1] assms by (simp add: int_mag_def)
  from x_sub_finish [OF len le] show "represents (x_sub_int a b) (int (int_mag a) - int (unat b))"
    and "represents (x_sub_revint b a) (int (unat b) - int (int_mag a))"
    using assms by (simp_all add: x_sub_int_loop x_sub_revint_loop int_mag_def)
qed

lemma represents_x_sub_int2:
  assumes "int_ok a" "2 \<le> \<bar>ob_size a\<bar>" "unat b < BASE * BASE"
  shows "represents (x_sub_int2 a b) (int (int_mag a) - int (unat b))"
proof (cases "\<bar>ob_size a\<bar> = 2")
  case False
  let ?bs = "[ucast b AND DIGIT_MASK, ucast (drop_bit DIGIT_BITS b) AND DIGIT_MASK]"
  have len: "length ?bs \<le> length (digits a)" "digits_ok (digits a)" "digits_ok ?bs"
    using assms by (simp_all add: length_digits int_mem_digits_ok le_nat_iff)
  note v = two_digit_values(3) [OF assms(3)]
  have "BASE ^ 2 \<le> int_mag a" using assms False by (intro int_mag_ge_BASE) simp_all
  then have le: "dval ?bs \<le> dval (digits a)"
    using v assms(3) by (simp add: int_mag_def power2_eq_square del: dval.simps)
  from x_sub_finish(1) [OF len le] show ?thesis
    using assms False v by (simp add: x_sub_int2_loop int_mag_def del: dval.simps)
next
  case True
  obtain d e where ds: "digits a = [d, e]"
  proof -
    obtain d e ds where "digits a = d # e # ds"
      using int_ok_mem [OF assms(1)] assms(2) by (rule digits_Cons2)
    then show thesis using that True length_digits [of a] assms(1) by auto
  qed
  have de: "unat d < BASE" "unat e < BASE"
    using assms(1) int_mem_digits_ok [of a] by (simp_all add: ds)
  define av :: twodigits where "av = push_bit DIGIT_BITS (ucast e) OR ucast d"
  have "unat e * BASE < BASE * BASE" using de by simp
  then have "unat av = unat e * BASE + unat d"
    using unat_or_shifted [of "ucast d :: twodigits" DIGIT_BITS "ucast e"] de
    by (simp add: av_def unat_ucast_up exp_DIGIT_BITS BASE_num)
  then have av: "unat av = int_mag a" by (simp add: int_mag_def ds)
  have avb: "unat av < BASE * BASE"
    using av int_mag_bound [of a] assms(1) True by (simp add: power2_eq_square)
  have unf: "x_sub_int2 a b =
      (if av = b then DeeInt_Zero
       else if av < b then
         (if b - av \<le> ucast DIGIT_MASK then \<lparr>ob_size = -1, ob_digit = [ucast (b - av)]\<rparr>
          else \<lparr>ob_size = 2 * -1,
                ob_digit = [ucast (b - av) AND DIGIT_MASK, ucast (drop_bit DIGIT_BITS (b - av)) AND DIGIT_MASK]\<rparr>)
       else
         (if av - b \<le> ucast DIGIT_MASK then \<lparr>ob_size = 1, ob_digit = [ucast (av - b)]\<rparr>
          else \<lparr>ob_size = 2 * 1,
                ob_digit = [ucast (av - b) AND DIGIT_MASK, ucast (drop_bit DIGIT_BITS (av - b)) AND DIGIT_MASK]\<rparr>))"
    using True by (simp add: x_sub_int2_def ds av_def Let_def DeeInt_Alloc_def)
  consider "av = b" | (less) "av < b" | (greater) "b < av" by fastforce
  then show ?thesis
  proof cases
    case 1
    then show ?thesis using unf av by (simp add: represents_Zero)
  next
    case less
    then have u: "unat (b - av) = unat b - unat av" "unat av < unat b" "av \<noteq> b"
      by (auto simp: unat_sub word_less_nat_alt word_le_nat_alt)
    then show ?thesis
      using represents_small_word [of "b - av" "-1"] less unf av assms(3) by simp
  next
    case greater
    then have u: "unat (av - b) = unat av - unat b" "unat b < unat av" "av \<noteq> b" "\<not> av < b"
      by (auto simp: unat_sub word_less_nat_alt word_le_nat_alt)
    then show ?thesis
      using represents_small_word [of "av - b" 1] greater unf av avb by simp
  qed
qed

text \<open>
  \<open>x_sub_revint2\<close> decides the sign of a difference of two-digit numbers by their low digits.  The
  decision is wrong exactly when the low digit of \<open>a\<close> is the larger and its high digit the
  smaller one.
\<close>

definition revint2_miscompares :: "twodigits \<Rightarrow> DeeInt \<Rightarrow> bool" where
  "revint2_miscompares a b \<longleftrightarrow>
     \<bar>ob_size b\<bar> = 2
     \<and> digits b ! 0 < ucast a AND DIGIT_MASK
     \<and> ucast (drop_bit DIGIT_BITS a) AND DIGIT_MASK < digits b ! 1"

lemma represents_x_sub_revint2:
  assumes "int_ok b" "2 \<le> \<bar>ob_size b\<bar>" "unat a < BASE * BASE" "\<not> revint2_miscompares a b"
  shows "represents (x_sub_revint2 a b) (int (unat a) - int (int_mag b))"
proof -
  define lo hi :: digit where "lo = ucast a AND DIGIT_MASK"
    and "hi = ucast (drop_bit DIGIT_BITS a) AND DIGIT_MASK"
  have v: "dval [lo, hi] = unat a" and ok: "digits_ok [lo, hi]"
    using two_digit_values(3) [OF assms(3)] by (simp_all add: lo_def hi_def)
  have rev: "represents (negate_size (x_sub_int2 b a)) (int (unat a) - int (int_mag b))"
    using represents_negate [OF represents_x_sub_int2 [OF assms(1-3)]] by simp
  obtain d e ds where ds: "digits b = d # e # ds"
    using int_ok_mem [OF assms(1)] assms(2) by (rule digits_Cons2)
  show ?thesis
  proof (cases "2 < \<bar>ob_size b\<bar>")
    case True
    then show ?thesis using rev by (simp add: x_sub_revint2_def Let_def)
  next
    case False
    then have two: "\<bar>ob_size b\<bar> = 2" using assms(2) by simp
    then have ds: "digits b = [d, e]" using ds length_digits [of b] assms(1) by simp
    have de: "digits_ok [d, e]" using assms(1) int_mem_digits_ok [of b] by (simp add: ds)
    have loop: "[(lo - d) AND DIGIT_MASK, (hi - e - (drop_bit DIGIT_BITS (lo - d) AND 1)) AND DIGIT_MASK]
        = x_sub_loop 0 [lo, hi] [d, e]"
      by (simp only: x_sub_loop.simps Let_def diff_0_right)
    have sub: "represents (int_normalize (DeeInt_Alloc (x_sub_loop 0 [lo, hi] [d, e])))
        (int (unat a) - int (int_mag b))" if "dval [d, e] \<le> dval [lo, hi]"
      using x_sub_finish(1) [OF _ ok de that] v ds by (simp add: int_mag_def del: dval.simps x_sub_loop.simps)
    have unf: "x_sub_revint2 a b =
        (if lo = d then (if hi = e then DeeInt_Zero else if hi < e then negate_size (x_sub_int2 b a)
                         else int_normalize (DeeInt_Alloc (x_sub_loop 0 [lo, hi] [d, e])))
         else if lo < d then negate_size (x_sub_int2 b a)
         else int_normalize (DeeInt_Alloc (x_sub_loop 0 [lo, hi] [d, e])))"
      unfolding x_sub_revint2_def Let_def lo_def [symmetric] hi_def [symmetric] ds
      by (simp only: False if_False nth_Cons_0 nth_Cons_Suc One_nat_def loop [unfolded One_nat_def])
    have top: "dval [d, e] \<le> dval [lo, hi]" if "unat d \<le> unat lo" "unat e \<le> unat hi"
      using that by (simp add: add_mono)
    have nm: "\<not> (d < lo \<and> hi < e)"
      using assms(4) two by (simp add: revint2_miscompares_def lo_def hi_def ds)
    consider "lo = d" "hi = e" | "lo = d" "hi < e" | "lo = d" "e < hi" | "lo < d" | "d < lo" "e \<le> hi"
      using nm by (meson linorder_less_linear not_less)
    then show ?thesis
    proof cases
      case 1
      then have "int_mag b = unat a" using v ds by (simp add: int_mag_def)
      then show ?thesis using unf 1 by (simp add: represents_Zero)
    next
      case 2
      then have "x_sub_revint2 a b = negate_size (x_sub_int2 b a)" unfolding unf by auto
      then show ?thesis using rev by (simp only:)
    next
      case 3
      then have "x_sub_revint2 a b = int_normalize (DeeInt_Alloc (x_sub_loop 0 [lo, hi] [d, e]))"
        "dval [d, e] \<le> dval [lo, hi]"
        unfolding unf by (auto intro!: top simp: word_less_nat_alt)
      then show ?thesis using sub by (simp only:)
    next
      case 4
      then have "x_sub_revint2 a b = negate_size (x_sub_int2 b a)" unfolding unf by auto
      then show ?thesis using rev by (simp only:)
    next
      case 5
      then have "x_sub_revint2 a b = int_normalize (DeeInt_Alloc (x_sub_loop 0 [lo, hi] [d, e]))"
        unfolding unf by auto
      moreover have "dval [d, e] \<le> dval [lo, hi]"
        using 5 by (intro top) (simp_all add: word_less_nat_alt word_le_nat_alt)
      ultimately show ?thesis using sub by (simp only:)
    qed
  qed
qed

subsection \<open>The operators with a machine-integer operand\<close>

lemma sdigit_magnitude:
  fixes b :: u32
  assumes "\<bar>sint b\<bar> < int BASE"
  shows "b <s 0 \<Longrightarrow> unat (- b) < BASE \<and> int (unat (- b)) = - sint b"
    and "\<not> b <s 0 \<Longrightarrow> unat b < BASE \<and> int (unat b) = sint b"
proof -
  have "int (unat (- b)) < int BASE \<and> int (unat (- b)) = - sint b" if "b <s 0"
    using assms unat_negated [of b] that by (simp add: word_sless_alt)
  then show "b <s 0 \<Longrightarrow> unat (- b) < BASE \<and> int (unat (- b)) = - sint b"
    by (simp only: of_nat_less_iff)
  have "int (unat b) < int BASE \<and> int (unat b) = sint b" if "\<not> b <s 0"
    using assms sint_nonneg_unat [of b] that by (simp add: word_sless_alt)
  then show "unat b < BASE \<and> int (unat b) = sint b" if "\<not> b <s 0"
    using that by (simp only: of_nat_less_iff simp_thms)
qed

lemma medium_sdigit:
  assumes "int_ok a" "\<bar>ob_size a\<bar> \<le> 1" "\<bar>sint b\<bar> < int BASE"
  shows "represents (DeeInt_NewInt32 (MEDIUM_VALUE a + b)) (int_val a + sint b)"
    and "represents (DeeInt_NewInt32 (MEDIUM_VALUE a - b)) (int_val a - sint b)"
proof -
  note ra = medium_range [OF assms(1,2)] and m = MEDIUM_VALUE_spec(1) [OF assms(1,2)]
  have rb: "- 1073741824 < sint b" "sint b < 1073741824" using assms(3) by (simp_all add: BASE_num)
  have "sint (MEDIUM_VALUE a + b) = int_val a + sint b"
    using ra rb m by (subst sint_add_range) simp_all
  then show "represents (DeeInt_NewInt32 (MEDIUM_VALUE a + b)) (int_val a + sint b)"
    using represents_NewInt32 by metis
  have "sint (MEDIUM_VALUE a - b) = int_val a - sint b"
    using ra rb m by (subst sint_diff_range) simp_all
  then show "represents (DeeInt_NewInt32 (MEDIUM_VALUE a - b)) (int_val a - sint b)"
    using represents_NewInt32 by metis
qed

lemma represents_AddSDigit:
  assumes "int_ok a" "\<bar>sint b\<bar> < int BASE"
  shows "represents (DeeInt_AddSDigit a b) (int_val a + sint b)"
proof (cases "b = 0 \<or> \<bar>ob_size a\<bar> \<le> 1")
  case True
  then show ?thesis using medium_sdigit(1) [OF assms(1) _ assms(2)] assms(1)
    by (auto simp: DeeInt_AddSDigit_def represents_def)
next
  case False
  then have size: "2 \<le> \<bar>ob_size a\<bar>" by simp
  note mag = sdigit_magnitude [OF assms(2)]
  note add = represents_x_add_int [OF assms(1) size] and sub = represents_x_sub_int [OF assms(1) size]
  have neg: "represents (let z = x_add_int a (- b) in if ob_size z \<noteq> 0 then negate_size z else z)
      (- int (int_mag a) + sint b)" if "b <s 0"
    using represents_negate_guarded [OF add [of "- b"]] mag(1) that by (simp add: Let_def)
  show ?thesis
    using False neg add [of b] sub(1) [of "- b"] sub(2) [of b] mag
    by (cases "ob_size a < 0"; cases "b <s 0")
       (simp_all add: DeeInt_AddSDigit_def int_val_neg int_val_nonneg algebra_simps)
qed

lemma represents_SubSDigit:
  assumes "int_ok a" "\<bar>sint b\<bar> < int BASE"
  shows "represents (DeeInt_SubSDigit a b) (int_val a - sint b)"
proof (cases "\<bar>ob_size a\<bar> \<le> 1")
  case True
  then show ?thesis using medium_sdigit(2) [OF assms(1) _ assms(2)] by (simp add: DeeInt_SubSDigit_def)
next
  case False
  then have size: "2 \<le> \<bar>ob_size a\<bar>" by simp
  note mag = sdigit_magnitude [OF assms(2)]
  note add = represents_x_add_int [OF assms(1) size] and sub = represents_x_sub_int(1) [OF assms(1) size]
  have nsub: "represents (negate_size (x_sub_int a (- b))) (- int (int_mag a) - sint b)" if "b <s 0"
    by (rule represents_eqI [OF represents_negate [OF sub]]) (use mag(1) that in auto)
  have nadd: "represents (negate_size (x_add_int a b)) (- int (int_mag a) - sint b)" if "\<not> b <s 0"
    by (rule represents_eqI [OF represents_negate [OF add]]) (use mag(2) that in auto)
  show ?thesis
    using False nsub nadd add [of "- b"] sub [of b] mag
    by (cases "ob_size a < 0"; cases "b <s 0")
       (simp_all add: DeeInt_SubSDigit_def int_val_neg int_val_nonneg)
qed

lemma medium_uint32:
  assumes "int_ok a" "\<bar>ob_size a\<bar> \<le> 1"
  fixes b :: u32
  shows "represents (DeeInt_NewInt64 (scast (MEDIUM_VALUE a) + ucast b)) (int_val a + uint b)"
    and "represents (DeeInt_NewInt64 (scast (MEDIUM_VALUE a) - ucast b)) (int_val a - uint b)"
proof -
  note ra = medium_range [OF assms] and m = MEDIUM_VALUE_spec(1) [OF assms]
  have sa: "sint (scast (MEDIUM_VALUE a) :: u64) = int_val a"
    using m by (simp add: sint_up_scast is_up)
  have "uint (ucast b :: u64) = uint b" by (simp add: uint_up_ucast is_up)
  then have sb: "sint (ucast b :: u64) = uint b"
    using uint_lt2p [of b] by (simp add: sint_uint_cases)
  have rb: "0 \<le> uint b" "uint b < 4294967296" using uint_lt2p [of b] by simp_all
  have bounds: "- 9223372036854775808 \<le> int_val a + uint b" "int_val a + uint b < 9223372036854775808"
    "- 9223372036854775808 \<le> int_val a - uint b" "int_val a - uint b < 9223372036854775808"
    using ra rb m by linarith+
  have "sint (scast (MEDIUM_VALUE a) + ucast b :: u64) = int_val a + uint b"
    using bounds sa sb by (subst sint_add_range) simp_all
  then show "represents (DeeInt_NewInt64 (scast (MEDIUM_VALUE a) + ucast b)) (int_val a + uint b)"
    using represents_NewInt64 by metis
  have "sint (scast (MEDIUM_VALUE a) - ucast b :: u64) = int_val a - uint b"
    using bounds sa sb by (subst sint_diff_range) simp_all
  then show "represents (DeeInt_NewInt64 (scast (MEDIUM_VALUE a) - ucast b)) (int_val a - uint b)"
    using represents_NewInt64 by metis
qed

lemma uint32_two_digits:
  fixes b :: u32
  shows "unat (ucast b :: twodigits) = unat b" "unat (ucast b :: twodigits) < BASE * BASE"
proof -
  have "unat b < 2 ^ LENGTH(32)" by (rule unsigned_less)
  then show "unat (ucast b :: twodigits) = unat b" "unat (ucast b :: twodigits) < BASE * BASE"
    by (simp_all add: unat_ucast_up BASE_num)
qed

lemma represents_AddUInt32:
  assumes "int_ok a" "\<not> (ob_size a < 0 \<and> DIGIT_MASK < b \<and> revint2_miscompares (ucast b) a)"
  shows "represents (DeeInt_AddUInt32 a b) (int_val a + uint b)"
proof (cases "b = 0 \<or> \<bar>ob_size a\<bar> \<le> 1")
  case True
  then show ?thesis using medium_uint32(1) [OF assms(1)] assms(1)
    by (auto simp: DeeInt_AddUInt32_def represents_def)
next
  case False
  then have size: "2 \<le> \<bar>ob_size a\<bar>" by simp
  note u = uint32_two_digits [of b]
  note add2 = represents_x_add_int2 [OF assms(1) size u(2)]
    and rev2 = represents_x_sub_revint2 [OF assms(1) size u(2)]
  note add = represents_x_add_int [OF assms(1) size, of b]
    and rev = represents_x_sub_int(2) [OF assms(1) size, of b]
  have "DIGIT_MASK < b \<longleftrightarrow> \<not> unat b < BASE" by (simp add: le_DIGIT_MASK_iff flip: not_le)
  then show ?thesis
    using False add2 rev2 add rev u(1) assms(2)
    by (cases "ob_size a < 0"; cases "b \<le> DIGIT_MASK")
       (simp_all add: DeeInt_AddUInt32_def int_val_neg int_val_nonneg le_DIGIT_MASK_iff algebra_simps not_le
         uint_nat del: of_nat_unat)
qed

lemma represents_SubUInt32:
  assumes "int_ok a"
  shows "represents (DeeInt_SubUInt32 a b) (int_val a - uint b)"
proof (cases "\<bar>ob_size a\<bar> \<le> 1")
  case True
  then show ?thesis using medium_uint32(2) [OF assms(1)] by (simp add: DeeInt_SubUInt32_def)
next
  case False
  then have size: "2 \<le> \<bar>ob_size a\<bar>" by simp
  note u = uint32_two_digits [of b]
  note add2 = represents_x_add_int2 [OF assms(1) size u(2)]
    and sub2 = represents_x_sub_int2 [OF assms(1) size u(2)]
  note add = represents_x_add_int [OF assms(1) size, of b]
    and sub = represents_x_sub_int(1) [OF assms(1) size, of b]
  show ?thesis
    using False add2 sub2 represents_negate [OF add2] add represents_negate [OF add] sub u(1)
    by (cases "ob_size a < 0"; cases "b \<le> DIGIT_MASK")
       (simp_all add: DeeInt_SubUInt32_def int_val_neg int_val_nonneg le_DIGIT_MASK_iff
         uint_nat del: of_nat_unat)
qed

section \<open>Correctness of the in-place increment and decrement\<close>

text \<open>The top digit is set exactly when the value reaches the weight of that digit.\<close>

lemma last_digit_iff:
  assumes "digits_ok ds" "ds \<noteq> []"
  shows "last ds \<noteq> 0 \<longleftrightarrow> BASE ^ (length ds - 1) \<le> dval ds"
proof -
  have "dval ds < BASE ^ (length ds - 1)" if "last ds = 0"
  proof -
    have "ds = butlast ds @ [0]" using assms(2) that by (metis append_butlast_last_id)
    then have "dval ds = dval (butlast ds)" "digits_ok (butlast ds)"
      using assms(1) by (metis dval_append dval.simps add.right_neutral mult_0_right unsigned_0,
        metis digits_ok_simps(3))
    then show ?thesis using dval_bound [of "butlast ds"] by simp
  qed
  then show ?thesis using dval_lower [OF assms(2)] by fastforce
qed

lemma inc_loop_spec:
  assumes "digits_ok ds" "inc_loop ds = (zs, fin)"
  shows "length zs = length ds \<and> digits_ok zs \<and>
    (if fin then dval zs = dval ds + 1 else dval ds + 1 = BASE ^ length ds)"
  using assms
proof (induction ds arbitrary: zs fin)
  case Nil
  then show ?case by simp
next
  case (Cons d ds)
  show ?case
  proof (cases "d = DIGIT_MASK")
    case False
    then have "unat d \<noteq> BASE - 1" by (metis unat_DIGIT_MASK word_unat_eq_iff)
    then have "Suc (unat d) < BASE" using Cons.prems(1) BASE_pos(1) by (simp only: digits_ok_simps) linarith
    then have "unat (d + 1) = unat d + 1" by (subst unat_add_no_wrap) (simp_all add: BASE_num)
    then show ?thesis using Cons.prems False \<open>Suc (unat d) < BASE\<close> by auto
  next
    case True
    obtain ys f where rec: "inc_loop ds = (ys, f)" by fastforce
    then have zs: "zs = 0 # ys" "fin = f" using Cons.prems True by simp_all
    have IH: "length ys = length ds \<and> digits_ok ys \<and>
        (if f then dval ys = dval ds + 1 else dval ds + 1 = BASE ^ length ds)"
      by (rule Cons.IH [OF _ rec]) (use Cons.prems(1) in simp)
    have eq: "dval (d # ds) + 1 = BASE * (dval ds + 1)"
      using True BASE_pos(1) by (simp add: unat_DIGIT_MASK algebra_simps)
    have "dval (d # ds) + 1 = BASE ^ length (d # ds)" if "\<not> f"
      unfolding eq using IH that by (simp only: if_False power_Suc length_Cons)
    moreover have "dval zs = dval (d # ds) + 1" if f
      unfolding eq using IH that zs(1) by simp
    ultimately show ?thesis using IH zs by (cases f) simp_all
  qed
qed

lemma dec_loop_spec:
  assumes "digits_ok ds" "0 < dval ds" "n \<noteq> 1 \<or> ds \<noteq> [1]" "length ds = 1 \<or> n \<noteq> 1"
  shows "\<exists>zs. dec_loop n ds = Some zs \<and> length zs = length ds \<and> digits_ok zs \<and> dval zs + 1 = dval ds"
  using assms
proof (induction ds)
  case Nil
  then show ?case by simp
next
  case (Cons d ds)
  show ?case
  proof (cases "d = 0")
    case True
    then have "0 < dval ds" "ds \<noteq> []" using Cons.prems by auto
    then obtain zs where zs: "dec_loop n ds = Some zs" "length zs = length ds" "digits_ok zs"
        "dval zs + 1 = dval ds"
      using Cons.IH Cons.prems by auto
    have "unat DIGIT_MASK + 1 = BASE" by (simp add: unat_DIGIT_MASK)
    then have "unat DIGIT_MASK + BASE * dval zs + 1 = BASE * dval ds"
      using zs(4) [symmetric] by simp
    then show ?thesis using zs True by (simp add: unat_DIGIT_MASK)
  next
    case False
    then have "unat (d - 1) + 1 = unat d" by (simp add: unat_minus_one unat_gt_0 Suc_pred)
    moreover have "\<not> (d = 1 \<and> n = 1)" using Cons.prems by auto
    ultimately show ?thesis using False Cons.prems by auto
  qed
qed

lemma digits_ob_digit_update:
  assumes "int_mem a" "length zs = nat \<bar>ob_size a\<bar>"
  shows "digits (a\<lparr>ob_digit := zs @ drop n (ob_digit a)\<rparr>) = zs"
  using assms by (simp add: digits_def)

lemma int_mem_iff_digits:
  "int_mem x \<longleftrightarrow> length (digits x) = nat \<bar>ob_size x\<bar> \<and> digits_ok (digits x)"
  by (auto simp: int_mem_def digits_def)

lemma ob_digit_update_spec:
  fixes n :: nat
  assumes "int_mem a" "length zs = nat \<bar>ob_size a\<bar>" "digits_ok zs"
    and z: "z = a\<lparr>ob_digit := zs @ drop n (ob_digit a)\<rparr>"
  shows "int_mem z" "int_val z = sgn (ob_size a) * int (dval zs)"
    "ob_size a \<noteq> 0 \<Longrightarrow> int_ok z \<longleftrightarrow> BASE ^ (length zs - 1) \<le> dval zs"
proof -
  have d: "digits z = zs" "ob_size z = ob_size a"
    using digits_ob_digit_update [OF assms(1,2)] by (simp_all add: z)
  show m: "int_mem z" using d assms(2,3) by (simp add: int_mem_iff_digits)
  show "int_val z = sgn (ob_size a) * int (dval zs)" using d by (simp add: int_val_def int_mag_def)
  show "int_ok z \<longleftrightarrow> BASE ^ (length zs - 1) \<le> dval zs" if "ob_size a \<noteq> 0"
    using last_digit_iff [OF assms(3)] d m that assms(2) by (auto simp: int_ok_def)
qed

lemma represents_inc_inplace:
  assumes "int_ok a" "ob_size a \<noteq> 0"
  shows "represents (inc_inplace a) (sgn (ob_size a) * (int (int_mag a) + 1))"
proof -
  have m: "int_mem a" and dok: "digits_ok (digits a)" and len: "length (digits a) = nat \<bar>ob_size a\<bar>"
    using assms by (simp_all add: int_mem_digits_ok length_digits)
  obtain zs f where zf: "inc_loop (digits a) = (zs, f)" by fastforce
  note spec = inc_loop_spec [OF dok zf]
  have n: "0 < length (digits a)" using len assms(2) by simp
  show ?thesis
  proof (cases f)
    case True
    have "BASE ^ (length zs - 1) \<le> dval zs"
      using spec True int_mag_lower [OF assms] len by (simp add: int_mag_def)
    then show ?thesis
      using ob_digit_update_spec [OF m _ _ refl, of zs "nat \<bar>ob_size a\<bar>"] spec True zf len assms(2)
      by (simp add: inc_inplace_def represents_def int_mag_def Let_def)
  next
    case False
    let ?ds = "replicate (nat \<bar>ob_size a\<bar>) 0 @ [1] :: digit list"
    have "represents (DeeInt_Alloc ?ds) (int (dval ?ds))"
      by (simp add: represents_def int_ok_def)
    moreover have "dval ?ds = int_mag a + 1" using spec False len by (simp add: int_mag_def)
    ultimately have "represents (DeeInt_Alloc ?ds) (int (int_mag a) + 1)"
      by (simp only: of_nat_add of_nat_1)
    moreover from represents_negate [OF this]
    have "represents (negate_size (DeeInt_Alloc ?ds)) (- int (int_mag a) - 1)"
      by (simp only: minus_add_distrib diff_conv_add_uminus)
    ultimately show ?thesis using assms(2) False zf
      by (cases "ob_size a < 0") (simp_all add: inc_inplace_def)
  qed
qed

text \<open>
  The decrement keeps the size of the object.  The value is right, but when the magnitude is a
  power of the base the top digit becomes zero and the result is not normalized.
\<close>

lemma dec_inplace_spec:
  assumes "int_ok a" "ob_size a \<noteq> 0"
  shows "int_mem (dec_inplace a)"
    and "int_val (dec_inplace a) = sgn (ob_size a) * (int (int_mag a) - 1)"
    and "int_ok (dec_inplace a) \<longleftrightarrow> \<not> (\<exists>k > 0. int_mag a = BASE ^ k)"
proof -
  let ?n = "nat \<bar>ob_size a\<bar>"
  have m: "int_mem a" and dok: "digits_ok (digits a)" and len: "length (digits a) = ?n"
    using assms by (simp_all add: int_mem_digits_ok length_digits)
  have pos: "0 < dval (digits a)" using int_mag_pos [OF assms] by (simp add: int_mag_def)
  have power: "(\<exists>k > 0. int_mag a = BASE ^ k) \<longleftrightarrow> 1 < ?n \<and> int_mag a = BASE ^ (?n - 1)"
  proof -
    have "k = ?n - 1" if "int_mag a = BASE ^ k" for k
    proof -
      have "BASE ^ (?n - 1) \<le> BASE ^ k" "BASE ^ k < BASE ^ ?n"
        using int_mag_lower [OF assms] int_mag_bound [OF m] that by simp_all
      then have "?n - 1 \<le> k" "k < ?n" by (simp_all add: BASE_num)
      then show ?thesis by linarith
    qed
    then show ?thesis by (metis One_nat_def zero_less_diff)
  qed
  have "int_mem (dec_inplace a) \<and> int_val (dec_inplace a) = sgn (ob_size a) * (int (int_mag a) - 1)
      \<and> (int_ok (dec_inplace a) \<longleftrightarrow> \<not> (1 < ?n \<and> int_mag a = BASE ^ (?n - 1)))"
  proof (cases "?n = 1 \<and> digits a = [1]")
    case True
    then have "dec_inplace a = DeeInt_Zero" by (simp add: dec_inplace_def)
    then show ?thesis using represents_Zero True by (simp add: represents_def int_mag_def)
  next
    case False
    then obtain zs where zs: "dec_loop ?n (digits a) = Some zs" "length zs = ?n" "digits_ok zs"
        "dval zs + 1 = dval (digits a)"
      using dec_loop_spec [OF dok pos, of ?n] len by auto
    have v: "int (dval zs) = int (int_mag a) - 1" using zs(4) by (simp add: int_mag_def)
    have l: "BASE ^ (?n - 1) \<le> int_mag a" by (rule int_mag_lower [OF assms])
    have one: "\<not> 1 < ?n \<Longrightarrow> BASE ^ (?n - 1) \<le> dval zs"
    proof -
      assume "\<not> 1 < ?n"
      then have n1: "?n = 1" using assms(2) by linarith
      then obtain d where d: "digits a = [d]" using len by (metis length_0_conv length_Suc_conv One_nat_def)
      then have "d \<noteq> 1" "0 < unat d" using False n1 pos by auto
      then have "unat d \<noteq> 1" by (metis unsigned_1 word_unat_eq_iff)
      then show ?thesis using zs(4) d n1 \<open>0 < unat d\<close> by simp
    qed
    have "BASE ^ (?n - 1) \<le> dval zs \<longleftrightarrow> \<not> (1 < ?n \<and> int_mag a = BASE ^ (?n - 1))"
      using one l zs(4) by (cases "1 < ?n") (auto simp: int_mag_def)
    then show ?thesis
      using ob_digit_update_spec [OF m zs(2,3) refl, of ?n] zs(1,2) v assms(2)
      by (simp add: dec_inplace_def)
  qed
  then show "int_mem (dec_inplace a)"
    and "int_val (dec_inplace a) = sgn (ob_size a) * (int (int_mag a) - 1)"
    and "int_ok (dec_inplace a) \<longleftrightarrow> \<not> (\<exists>k > 0. int_mag a = BASE ^ k)"
    using power by simp_all
qed

lemma shared_inc_dec:
  assumes "int_ok a"
  shows "represents (int_inc True a) (int_val a + 1)"
    and "represents (int_dec True a) (int_val a - 1)"
proof -
  have r1: "\<bar>sint (1 :: u32)\<bar> < int BASE" by (simp add: BASE_num)
  have u1: "unat (1 :: digit) < BASE" by simp
  show "represents (int_inc True a) (int_val a + 1)"
  proof (cases "\<bar>ob_size a\<bar> \<le> 1")
    case True
    then show ?thesis using medium_sdigit(1) [OF assms True r1] by (simp add: int_inc_def)
  next
    case False
    then show ?thesis
      using represents_x_add_int [OF assms _ u1] represents_x_sub_int(2) [OF assms _ u1]
      by (simp add: int_inc_def int_val_neg int_val_nonneg algebra_simps)
  qed
  show "represents (int_dec True a) (int_val a - 1)"
  proof (cases "\<bar>ob_size a\<bar> \<le> 1")
    case True
    then show ?thesis using medium_sdigit(2) [OF assms True r1] by (simp add: int_dec_def)
  next
    case False
    then have size: "2 \<le> \<bar>ob_size a\<bar>" by simp
    have neg: "represents (negate_size (x_add_int a 1)) (- int (int_mag a) - 1)"
      by (rule represents_eqI [OF represents_negate [OF represents_x_add_int [OF assms size u1]]]) simp
    show ?thesis
      using False neg represents_x_sub_int(1) [OF assms size u1]
      by (simp add: int_dec_def int_val_neg int_val_nonneg)
  qed
qed

text \<open>Increment and decrement always compute the right value in readable memory.\<close>

lemma int_inc_val:
  assumes "int_ok a"
  shows "int_mem (int_inc shared a) \<and> int_val (int_inc shared a) = int_val a + 1"
proof (cases shared)
  case True
  then show ?thesis using shared_inc_dec(1) [OF assms] by (simp add: represents_def)
next
  case False
  then show ?thesis
    using represents_inc_inplace [OF assms] dec_inplace_spec(1,2) [OF assms] represents_One
    by (cases "ob_size a = 0"; cases "ob_size a > 0")
       (auto simp: int_inc_def represents_def int_val_neg int_val_nonneg int_mag_0 int_ok_mem)
qed

lemma int_dec_val:
  assumes "int_ok a"
  shows "int_mem (int_dec shared a) \<and> int_val (int_dec shared a) = int_val a - 1"
proof (cases shared)
  case True
  then show ?thesis using shared_inc_dec(2) [OF assms] by (simp add: represents_def)
next
  case False
  then show ?thesis
    using represents_inc_inplace [OF assms] dec_inplace_spec(1,2) [OF assms] represents_MinusOne
    by (cases "ob_size a = 0"; cases "ob_size a > 0")
       (auto simp: int_dec_def represents_def int_val_neg int_val_nonneg int_mag_0 int_ok_mem)
qed

text \<open>They lose the invariant exactly when they step down from a power of the base in place.\<close>

lemma int_inc_ok_iff:
  assumes "int_ok a"
  shows "int_ok (int_inc shared a) \<longleftrightarrow> shared \<or> \<not> (\<exists>k > 0. int_val a = - int (BASE ^ k))"
proof (cases shared)
  case True
  then show ?thesis using shared_inc_dec(1) [OF assms] by (simp add: represents_def)
next
  case False
  consider "ob_size a = 0" | "ob_size a > 0" | "ob_size a < 0" by linarith
  then show ?thesis
  proof cases
    case 3
    then have "int_val a = - int (BASE ^ k) \<longleftrightarrow> int_mag a = BASE ^ k" for k
      by (simp add: int_val_neg del: of_nat_power)
    then show ?thesis using 3 False dec_inplace_spec(3) [OF assms] by (simp add: int_inc_def del: of_nat_power)
  next
    case 2
    have "int_val a \<noteq> - int (BASE ^ k)" for k
      using 2 int_val_nonneg [of a] BASE_pos(1) zero_less_power [of BASE k] by linarith
    then show ?thesis using 2 False represents_inc_inplace [OF assms]
      by (simp add: int_inc_def represents_def del: of_nat_power)
  qed (use False represents_One in \<open>auto simp: int_inc_def represents_def int_val_nonneg int_mag_0\<close>)
qed

lemma int_dec_ok_iff:
  assumes "int_ok a"
  shows "int_ok (int_dec shared a) \<longleftrightarrow> shared \<or> \<not> (\<exists>k > 0. int_val a = int (BASE ^ k))"
proof (cases shared)
  case True
  then show ?thesis using shared_inc_dec(2) [OF assms] by (simp add: represents_def)
next
  case False
  consider "ob_size a = 0" | "ob_size a < 0" | "ob_size a > 0" by linarith
  then show ?thesis
  proof cases
    case 2
    have "int_val a \<noteq> int (BASE ^ k)" for k
      using 2 assms int_val_less_0_iff [OF assms] by (metis of_nat_less_0_iff)
    then show ?thesis using 2 False represents_inc_inplace [OF assms]
      by (simp add: int_dec_def represents_def del: of_nat_power)
  next
    case 3
    then have "int_val a = int (BASE ^ k) \<longleftrightarrow> int_mag a = BASE ^ k" for k
      by (simp add: int_val_nonneg del: of_nat_power)
    then show ?thesis using 3 False dec_inplace_spec(3) [OF assms] by (simp add: int_dec_def del: of_nat_power)
  qed (use False represents_MinusOne in \<open>auto simp: int_dec_def represents_def int_val_nonneg int_mag_0\<close>)
qed

text \<open>In the miscompared case the borrow out of the top digit is lost: the result is too large by \<open>BASE\<^sup>2\<close>.\<close>

lemma x_sub_revint2_miscompared:
  assumes "int_ok b" "unat a < BASE * BASE" "revint2_miscompares a b"
  shows "represents (x_sub_revint2 a b) (int (unat a) - int (int_mag b) + int BASE * int BASE)"
proof -
  define lo hi :: digit where "lo = ucast a AND DIGIT_MASK"
    and "hi = ucast (drop_bit DIGIT_BITS a) AND DIGIT_MASK"
  have v: "dval [lo, hi] = unat a" and ok: "digits_ok [lo, hi]"
    using two_digit_values(3) [OF assms(2)] by (simp_all add: lo_def hi_def)
  have two: "\<bar>ob_size b\<bar> = 2" using assms(3) by (simp add: revint2_miscompares_def)
  then have le2: "2 \<le> \<bar>ob_size b\<bar>" by simp
  obtain d e ds where "digits b = d # e # ds"
    using int_ok_mem [OF assms(1)] le2 by (rule digits_Cons2)
  then have ds: "digits b = [d, e]" using length_digits [of b] assms(1) two by simp
  have de: "digits_ok [d, e]" using assms(1) int_mem_digits_ok [of b] by (simp add: ds)
  have cmp: "d < lo" "hi < e" using assms(3) by (simp_all add: revint2_miscompares_def lo_def hi_def ds)
  obtain zs c where zs: "v_isub_loop 0 [lo, hi] [d, e] = (zs, c)" by fastforce
  have sp: "dval zs + dval [d, e] = dval [lo, hi] + BASE ^ 2 * unat c" "digits_ok zs" "unat c \<le> 1" "length zs = 2"
    using v_isub_loop_spec [OF _ ok de _ zs] by (simp_all add: power2_eq_square)
  have "dval [lo, hi] < dval [d, e]"
    using dval_less_top [of "[lo]" "[d]" hi e] ok cmp(2) by (simp add: word_less_nat_alt)
  then have "unat c = 1" using sp(1,3) by (cases "unat c") simp_all
  then have val: "int (dval zs) = int (unat a) - int (int_mag b) + int BASE * int BASE"
  proof -
    assume c: "unat c = 1"
    have "dval zs + int_mag b = unat a + BASE ^ 2" using sp(1) c v ds by (simp only: int_mag_def mult_1_right)
    then have "int (dval zs) + int (int_mag b) = int (unat a) + int BASE * int BASE"
      by (simp only: of_nat_add [symmetric] of_nat_mult [symmetric] power2_eq_square)
    then show ?thesis by simp
  qed
  have "x_sub_revint2 a b = int_normalize (DeeInt_Alloc zs)"
  proof -
    have nlt: "\<not> lo < d" "lo \<noteq> d" using cmp(1) by auto
    have "zs = [(lo - d) AND DIGIT_MASK, (hi - e - (drop_bit DIGIT_BITS (lo - d) AND 1)) AND DIGIT_MASK]"
      using zs by (simp add: Let_def)
    moreover have "\<not> 2 < \<bar>ob_size b\<bar>" using two by simp
    ultimately show ?thesis
      unfolding x_sub_revint2_def Let_def lo_def [symmetric] hi_def [symmetric] ds
      by (simp only: nlt if_False nth_Cons_0 nth_Cons_Suc One_nat_def)
  qed
  then show ?thesis using represents_normalize_alloc [OF sp(2)] val by (simp only:)
qed

section \<open>Properties\<close>

text \<open>
  C1: Addition, subtraction, negation (with its in-place variant on shared and unshared objects) and
  bitwise inversion of arbitrary integers, whatever their signs and lengths, including the 32-bit
  fast path for one-digit operands: the result is well-formed and its value is the sum, the
  difference, the negative and \<open>~a = -(a + 1)\<close>.
\<close>

theorem int_add_sub_correct:
  assumes "int_ok a" "int_ok b"
  shows "represents (int_add a b) (int_val a + int_val b)
    \<and> represents (int_sub a b) (int_val a - int_val b)
    \<and> represents (int_neg a) (- int_val a)
    \<and> represents (int_neg_inherit shared a) (- int_val a)
    \<and> represents (int_inv a) (NOT (int_val a))"
  using represents_int_add [OF assms] represents_int_sub [OF assms] represents_int_neg [OF assms(1)]
    represents_int_neg_inherit [of a "int_val a" shared] represents_int_inv [OF assms(1)] assms
  by (simp add: represents_def)

theorem int_add_sub_correct_witness:
  "represents (int_add \<lparr>ob_size = 2, ob_digit = [1, 1]\<rparr> \<lparr>ob_size = -1, ob_digit = [2]\<rparr>) 1073741823"
  using int_add_sub_correct [of "\<lparr>ob_size = 2, ob_digit = [1, 1]\<rparr>" "\<lparr>ob_size = -1, ob_digit = [2]\<rparr>"]
  by (simp add: int_eval)

lemma represents_AddUInt32_any:
  assumes "int_ok a"
  shows "represents (DeeInt_AddUInt32 a b)
    (int_val a + uint b
      + (if ob_size a < 0 \<and> DIGIT_MASK < b \<and> revint2_miscompares (ucast b) a
         then int BASE * int BASE else 0))"
proof (cases "ob_size a < 0 \<and> DIGIT_MASK < b \<and> revint2_miscompares (ucast b) a")
  case False
  show ?thesis
    unfolding if_not_P [OF False] add_0_right by (rule represents_AddUInt32 [OF assms False])
next
  case True
  then have "\<bar>ob_size a\<bar> = 2" by (simp add: revint2_miscompares_def)
  then have "b \<noteq> 0" "\<not> \<bar>ob_size a\<bar> \<le> 1" "\<not> b \<le> DIGIT_MASK" using True by auto
  then have "DeeInt_AddUInt32 a b = x_sub_revint2 (ucast b) a"
    using True by (simp add: DeeInt_AddUInt32_def)
  then show ?thesis
    using x_sub_revint2_miscompared [OF assms uint32_two_digits(2), of b] True uint32_two_digits(1) [of b]
    by (simp add: int_val_neg)
qed

text \<open>
  C19: Small operands.  Increment and decrement keep the invariant exactly if they do not step an
  unshared object down in magnitude from a power of the base: that path leaves a zero digit on top, so the
  result of \<open>2\<^sup>3\<^sup>0 - 1\<close> computed in place is not the normalized integer of that value.  In every case
  the result is in readable memory and has the value of the successor or predecessor.  Adding and
  subtracting a signed digit (an operand of magnitude below the base) and subtracting an unsigned 32-bit
  operand agree with the mathematical result.  Adding an unsigned 32-bit operand (\<open>DeeInt_AddUInt32\<close>) is
  right except for a negative two-digit integer whose low digit is below and whose high digit is above
  the corresponding digit of a two-digit operand.  There \<open>x_sub_revint2\<close>, which compares the low digits
  first, subtracts the wrong way round and returns a positive integer that is too large by \<open>BASE\<^sup>2\<close>.
\<close>

theorem int_small_operands_characterized:
  assumes "int_ok a" "\<bar>sint d\<bar> < int BASE"
  shows "(int_ok (int_inc shared a) \<longleftrightarrow> shared \<or> \<not> (\<exists>k > 0. int_val a = - int (BASE ^ k)))
    \<and> (int_ok (int_dec shared a) \<longleftrightarrow> shared \<or> \<not> (\<exists>k > 0. int_val a = int (BASE ^ k)))
    \<and> int_mem (int_inc shared a) \<and> int_val (int_inc shared a) = int_val a + 1
    \<and> int_mem (int_dec shared a) \<and> int_val (int_dec shared a) = int_val a - 1
    \<and> represents (DeeInt_AddSDigit a d) (int_val a + sint d)
    \<and> represents (DeeInt_SubSDigit a d) (int_val a - sint d)
    \<and> represents (DeeInt_SubUInt32 a b) (int_val a - uint b)
    \<and> represents (DeeInt_AddUInt32 a b)
        (int_val a + uint b
          + (if ob_size a < 0 \<and> DIGIT_MASK < b \<and> revint2_miscompares (ucast b) a
             then int BASE * int BASE else 0))"
  using int_inc_ok_iff [OF assms(1)] int_dec_ok_iff [OF assms(1)] int_inc_val [OF assms(1)] int_dec_val [OF assms(1)]
    represents_AddSDigit [OF assms] represents_SubSDigit [OF assms] represents_SubUInt32 [OF assms(1)]
    represents_AddUInt32_any [OF assms(1)] by simp

theorem int_small_operands_characterized_witness:
  "\<not> int_ok (int_dec False \<lparr>ob_size = 2, ob_digit = [0, 1]\<rparr>)
   \<and> represents (DeeInt_AddUInt32 \<lparr>ob_size = -2, ob_digit = [0, 5]\<rparr> 0x40000001) 1152921500311879681"
proof -
  have "int_ok \<lparr>ob_size = 2, ob_digit = [0, 1]\<rparr>" "int_ok \<lparr>ob_size = -2, ob_digit = [0, 5]\<rparr>"
    by (simp_all add: int_eval)
  note p = this [THEN int_small_operands_characterized]
  have "int_val \<lparr>ob_size = 2, ob_digit = [0, 1]\<rparr> = int (BASE ^ 1)" by (simp add: int_eval)
  then have "\<exists>k > 0. int_val \<lparr>ob_size = 2, ob_digit = [0, 1]\<rparr> = int (BASE ^ k)" by (intro exI [of _ 1]) simp
  with p(1) [of 1 False] have "\<not> int_ok (int_dec False \<lparr>ob_size = 2, ob_digit = [0, 1]\<rparr>)" by (simp add: BASE_num)
  moreover have "represents (DeeInt_AddUInt32 \<lparr>ob_size = -2, ob_digit = [0, 5]\<rparr> 0x40000001) 1152921500311879681"
    using p(2) [of 1 False "0x40000001"]
    by (simp add: int_val_def int_mag_def digits_def BASE_num DIGIT_MASK_num revint2_miscompares_def DIGIT_BITS_def)
  ultimately show ?thesis by blast
qed

end
