(* ===== verification/IntDiv.thy ===== *)
theory IntDiv
  imports IntAddSub
begin

text \<open>
  Division (src/deemon/objects/int_logic.c): \<open>divrem1\<close> by a single digit, \<open>x_divrem\<close> (Knuth's
  algorithm D) by a longer divisor, the truncating \<open>int_divrem\<close> and the flooring \<open>int_divmod\<close>,
  \<open>int_div\<close> and \<open>int_mod\<close>.
\<close>

section \<open>Normalizing shift\<close>

definition bit_length_table :: "nat list" where
  "bit_length_table =
     [0, 1, 2, 2, 3, 3, 3, 3, 4, 4, 4, 4, 4, 4, 4, 4,
      5, 5, 5, 5, 5, 5, 5, 5, 5, 5, 5, 5, 5, 5, 5, 5]"

function bits_in_digit_loop :: "nat \<Rightarrow> digit \<Rightarrow> nat" where
  "bits_in_digit_loop d_bits d =
     (if d \<ge> 32 then bits_in_digit_loop (d_bits + 6) (drop_bit 6 d)
      else d_bits + bit_length_table ! unat d)"
  by pat_completeness auto
termination
  by (relation "measure (\<lambda>(n, d). unat d)") (auto simp: unat_drop_bit_word word_le_nat_alt)

declare bits_in_digit_loop.simps [simp del]

definition bits_in_digit :: "digit \<Rightarrow> nat" where
  "bits_in_digit d = bits_in_digit_loop 0 d"

section \<open>One step of long division\<close>

text \<open>
  The loop that corrects the estimated quotient digit: it stops at the test or, after a
  decrement, when the remainder reaches the base.
\<close>

function est_adjust :: "digit \<Rightarrow> digit \<Rightarrow> digit \<Rightarrow> digit \<Rightarrow> digit \<Rightarrow> digit" where
  "est_adjust wm1 wm2 vm q r =
     (if ucast wm2 * ucast q > (push_bit DIGIT_BITS (ucast r :: twodigits) OR ucast vm) then
        let q = q - 1; r = r + wm1
        in if r \<ge> DIGIT_BASE then q else est_adjust wm1 wm2 vm q r
      else q)"
  by pat_completeness auto
termination
proof (relation "measure (\<lambda>(wm1, wm2, vm, q, r). unat q)", goal_cases)
  case (2 wm1 wm2 vm q r)
  then have "q \<noteq> 0" by auto
  then have "unat (q - 1) < unat q" by (simp add: unat_minus_one unat_gt_0)
  then show ?case using 2 by simp
qed simp

declare est_adjust.simps [simp del]

text \<open>
  Subtract \<open>q * w\<close> from the window.  \<open>zhi\<close> is a signed digit; \<open>z\<close> is a signed 64-bit value
  whose arithmetic right shift is the next \<open>zhi\<close>.
\<close>

fun mulsub_loop :: "digit \<Rightarrow> digit \<Rightarrow> digit list \<Rightarrow> digit list \<Rightarrow> digit list \<times> digit" where
  "mulsub_loop zhi q (v # vk) (w # ws) =
     (let z = scast (v + zhi) - ucast q * ucast w :: u64;
          (zs, zhi) = mulsub_loop (ucast (signed_drop_bit DIGIT_BITS z)) q vk ws
      in ((ucast z AND DIGIT_MASK) # zs, zhi))"
| "mulsub_loop zhi q vk ws = ([], zhi)"

text \<open>
  One iteration of the main loop on the window \<open>vk\<close>, whose digit \<open>size_w\<close> is \<open>vtop\<close>: the quotient
  digit and the updated window.  The loop that adds the divisor back is the one of \<open>v_iadd\<close>.
\<close>

definition x_divrem_step :: "digit list \<Rightarrow> digit list \<Rightarrow> digit \<times> digit list" where
  "x_divrem_step w vk =
     (let size_w = length w;
          wm1 = w ! (size_w - 1);
          wm2 = w ! (size_w - 2);
          vtop = vk ! size_w;
          vv = push_bit DIGIT_BITS (ucast vtop :: twodigits) OR ucast (vk ! (size_w - 1));
          q = ucast (vv div ucast wm1);
          r = ucast (vv - ucast wm1 * ucast q);
          q = est_adjust wm1 wm2 (vk ! (size_w - 2)) q r;
          (zs, zhi) = mulsub_loop 0 q (take size_w vk) w
      in if vtop + zhi <s 0
         then (q - 1, fst (v_iadd zs w) @ drop size_w vk)
         else (q, zs @ drop size_w vk))"

text \<open>The main loop, from the top window down; quotient digits are stored in front of \<open>a\<close>.\<close>

fun x_divrem_loop :: "digit list \<Rightarrow> nat \<Rightarrow> digit list \<Rightarrow> digit list \<Rightarrow> digit list \<times> digit list" where
  "x_divrem_loop w 0 v a = (a, v)"
| "x_divrem_loop w (Suc k) v a =
     (let (q, vk) = x_divrem_step w (drop k v)
      in x_divrem_loop w k (take k v @ vk) (q # a))"

text \<open>Quotient and remainder of the magnitudes.\<close>

definition x_divrem :: "DeeInt \<Rightarrow> DeeInt \<Rightarrow> DeeInt \<times> DeeInt" where
  "x_divrem v1 w1 =
     (let size_v = nat \<bar>ob_size v1\<bar>;
          size_w = nat \<bar>ob_size w1\<bar>;
          d = DIGIT_BITS - bits_in_digit (digits w1 ! (size_w - 1));
          w = fst (v_lshift (digits w1) d);
          (v, carry) = v_lshift (digits v1) d;
          v = (if carry \<noteq> 0 \<or> v ! (size_v - 1) \<ge> w ! (size_w - 1) then v @ [carry] else v);
          k = length v - size_w;
          (a, v) = x_divrem_loop w k v [];
          w = fst (v_rshift (take size_w v) d)
      in (int_normalize (DeeInt_Alloc a), int_normalize (DeeInt_Alloc w)))"

definition divrem1 :: "DeeInt \<Rightarrow> digit \<Rightarrow> DeeInt \<times> digit" where
  "divrem1 a n =
     (let (z, rem) = inplace_divrem1 (digits a) n
      in (int_normalize (DeeInt_Alloc z), rem))"

section \<open>The division operators\<close>

text \<open>
  The remainder of a division by one digit comes from \<open>DeeInt_NewDigit\<close>, which returns a shared
  static object for values up to 255; the other results are new objects.
\<close>

definition int_divrem :: "DeeInt \<Rightarrow> DeeInt \<Rightarrow> (DeeInt \<times> DeeInt) result" where
  "int_divrem a b =
     (let size_a = nat \<bar>ob_size a\<bar>; size_b = nat \<bar>ob_size b\<bar> in
      if size_b = 0 then Inl DivideByZero
      else if size_a < size_b
        \<or> (size_a = size_b \<and> digits a ! (size_a - 1) < digits b ! (size_b - 1))
        then Inr (DeeInt_Zero, a)
      else
        (let (z, p_rem, shared) =
               (if size_b = 1 then
                  let (z, rem) = divrem1 a (digits b ! 0)
                  in (z, DeeInt_NewUInt32 rem, rem \<le> 0xff)
                else let (z, rem) = x_divrem a b in (z, rem, False));
             z = (if (ob_size a < 0) \<noteq> (ob_size b < 0) then int_neg_inherit False z else z);
             p_rem = (if ob_size a < 0 \<and> ob_size p_rem \<noteq> 0 then int_neg_inherit shared p_rem
                      else p_rem)
         in Inr (z, p_rem)))"

definition int_divmod :: "DeeInt \<Rightarrow> DeeInt \<Rightarrow> (DeeInt \<times> DeeInt) result" where
  "int_divmod v w =
     (case int_divrem v w of
        Inl e \<Rightarrow> Inl e
      | Inr (div', mod') \<Rightarrow>
          if (ob_size mod' < 0 \<and> ob_size w > 0) \<or> (ob_size mod' > 0 \<and> ob_size w < 0)
          then Inr (int_sub div' DeeInt_One, int_add mod' w)
          else Inr (div', mod'))"

definition int_div :: "DeeInt \<Rightarrow> DeeInt \<Rightarrow> DeeInt result" where
  "int_div a b = map_sum id fst (int_divmod a b)"

definition int_mod :: "DeeInt \<Rightarrow> DeeInt \<Rightarrow> DeeInt result" where
  "int_mod a b = map_sum id snd (int_divmod a b)"

section \<open>The normalizing shift is right\<close>

lemma bit_length_table_spec:
  assumes "n < 32"
  shows "n < 2 ^ (bit_length_table ! n)" "n \<noteq> 0 \<Longrightarrow> 2 ^ (bit_length_table ! n) \<le> 2 * n"
    "bit_length_table ! n \<le> 5"
proof -
  have "list_all (\<lambda>n. n < 2 ^ (bit_length_table ! n) \<and> (n \<noteq> 0 \<longrightarrow> 2 ^ (bit_length_table ! n) \<le> 2 * n)
      \<and> bit_length_table ! n \<le> 5) [0..<32]"
    by (simp add: bit_length_table_def upt_rec)
  then show "n < 2 ^ (bit_length_table ! n)" "n \<noteq> 0 \<Longrightarrow> 2 ^ (bit_length_table ! n) \<le> 2 * n"
    "bit_length_table ! n \<le> 5"
    using assms by (auto simp: list_all_iff)
qed

lemma bits_in_digit_loop_spec:
  "\<exists>k. bits_in_digit_loop n d = n + k \<and> unat d < 2 ^ k \<and> (if unat d = 0 then k = 0 else 2 ^ k \<le> 2 * unat d)"
proof (induction n d rule: bits_in_digit_loop.induct)
  case (1 n d)
  show ?case
  proof (cases "d \<ge> 32")
    case True
    have u: "unat (drop_bit 6 d) = unat d div 64" by (simp add: unat_drop_bit_word)
    obtain k where k: "bits_in_digit_loop (n + 6) (drop_bit 6 d) = n + 6 + k"
      "unat d div 64 < 2 ^ k" "if unat d div 64 = 0 then k = 0 else 2 ^ k \<le> 2 * (unat d div 64)"
      using "1.IH" [OF True] unfolding u by blast
    have ge: "32 \<le> unat d" using True by (simp add: word_le_nat_alt)
    have "unat d < 64 * 2 ^ k" using k(2) by linarith
    moreover have "64 * 2 ^ k \<le> 2 * unat d"
    proof (cases "unat d div 64 = 0")
      case True
      then show ?thesis using k(3) ge by simp
    next
      case False
      then have "2 ^ k \<le> 2 * (unat d div 64)" using k(3) by simp
      then show ?thesis by linarith
    qed
    ultimately show ?thesis using True k(1) ge
      by (intro exI [of _ "6 + k"]) (simp add: bits_in_digit_loop.simps [of n d] power_add)
  next
    case False
    then have "unat d < 32" by (simp add: word_le_nat_alt)
    from bit_length_table_spec [OF this] show ?thesis
      using False by (intro exI [of _ "bit_length_table ! unat d"])
        (auto simp: bits_in_digit_loop.simps [of n d] bit_length_table_def)
  qed
qed

lemma bits_in_digit_spec:
  assumes "d \<noteq> 0"
  shows "unat d < 2 ^ bits_in_digit d" "2 ^ bits_in_digit d \<le> 2 * unat d"
  using bits_in_digit_loop_spec [of 0 d] assms by (auto simp: bits_in_digit_def unat_eq_zero split: if_splits)

section \<open>The quotient digit estimate\<close>

text \<open>
  The correction loop turns the estimate from the top two digits of the window into the quotient
  of its top three digits by the top two digits of the divisor.
\<close>

lemma est_adjust_spec:
  assumes bounds: "unat wm1 < BASE" "unat wm2 < BASE" "unat vm < BASE" "unat r < BASE" "unat q \<le> BASE + 1"
    and val: "unat q * unat wm1 + unat r = t"
    and ge: "(t * BASE + unat vm) div (unat wm1 * BASE + unat wm2) \<le> unat q"
    and pos: "0 < unat wm1"
  shows "unat (est_adjust wm1 wm2 vm q r) = (t * BASE + unat vm) div (unat wm1 * BASE + unat wm2)"
  using bounds val ge pos
proof (induction wm1 wm2 vm q r rule: est_adjust.induct)
  case (1 wm1 wm2 vm q r)
  let ?P = "unat wm1 * BASE + unat wm2" and ?T = "t * BASE + unat vm"
  let ?test = "ucast wm2 * ucast q > (push_bit DIGIT_BITS (ucast r :: twodigits) OR ucast vm)"
  have P: "0 < ?P" using 1(9) by simp
  have l: "unat (ucast wm2 * ucast q :: twodigits) = unat wm2 * unat q"
  proof -
    have "unat wm2 * unat q \<le> BASE * (BASE + 1)" using 1(3,6) by (intro mult_le_mono) simp_all
    then show ?thesis by (subst unat_mult_no_wrap) (simp_all add: unat_ucast_up BASE_num)
  qed
  have rv: "unat (push_bit DIGIT_BITS (ucast r :: twodigits) OR ucast vm) = unat r * BASE + unat vm"
    using 1(4,5) unat_or_shifted [of "ucast vm :: twodigits" DIGIT_BITS "ucast r"]
    by (simp add: unat_ucast_up exp_DIGIT_BITS BASE_num)
  have test: "?test \<longleftrightarrow> unat r * BASE + unat vm < unat wm2 * unat q"
    by (simp add: word_less_nat_alt l rv)
  have T: "?T = unat q * unat wm1 * BASE + unat r * BASE + unat vm"
    unfolding 1(7) [symmetric] by (simp add: algebra_simps)
  then have over: "?test \<longleftrightarrow> ?T < unat q * ?P"
    unfolding test by (simp add: algebra_simps)
  show ?case
  proof (cases ?test)
    case False
    then have "unat q * ?P \<le> ?T" using over by simp
    then have "unat q \<le> ?T div ?P" using P by (simp add: less_eq_div_iff_mult_less_eq)
    then show ?thesis using 1(8) False by (simp add: est_adjust.simps [of wm1 wm2 vm q r])
  next
    case True
    have lt: "?T div ?P < unat q" using True over P by (simp add: div_less_iff_less_mult)
    then have q0: "q \<noteq> 0" by auto
    then have q1: "unat (q - 1) = unat q - 1" by (simp add: unat_minus_one)
    have r1: "unat (r + wm1) = unat r + unat wm1"
      using 1(2,5) by (intro unat_add_no_wrap) (simp add: BASE_num)
    have v1: "unat (q - 1) * unat wm1 + unat (r + wm1) = t"
      using 1(7) q1 r1 lt by (simp add: diff_mult_distrib)
    have g1: "?T div ?P \<le> unat (q - 1)" using lt q1 by simp
    have base: "r + wm1 \<ge> DIGIT_BASE \<longleftrightarrow> BASE \<le> unat r + unat wm1"
      by (simp add: word_le_nat_alt r1 DIGIT_BASE_def DIGIT_BITS_def BASE_num)
    show ?thesis
    proof (cases "r + wm1 \<ge> DIGIT_BASE")
      case brk: True
      have "unat wm2 * unat (q - 1) \<le> (BASE - 1) * (BASE + 1)"
        using 1(3,6) q1 by (intro mult_le_mono) simp_all
      also have "\<dots> < BASE * BASE" by (simp add: BASE_num)
      also have "\<dots> \<le> unat (r + wm1) * BASE" using brk base r1 by (intro mult_le_mono1) simp
      finally have "unat (q - 1) * ?P \<le> unat (q - 1) * unat wm1 * BASE + unat (r + wm1) * BASE"
        by (simp add: algebra_simps)
      also have "\<dots> \<le> ?T" unfolding v1 [symmetric] by (simp add: algebra_simps)
      finally have "unat (q - 1) \<le> ?T div ?P" using P by (simp add: less_eq_div_iff_mult_less_eq)
      then show ?thesis using g1 True brk by (simp add: est_adjust.simps [of wm1 wm2 vm q r])
    next
      case cont: False
      have "unat (est_adjust wm1 wm2 vm (q - 1) (r + wm1)) = ?T div ?P"
        using 1(1) [OF True refl refl cont] 1(2-4,6,9) v1 g1 cont base r1 q1 by simp
      then show ?thesis using True cont by (simp add: est_adjust.simps [of wm1 wm2 vm q r] Let_def)
    qed
  qed
qed

text \<open>
  With a normalized divisor the three-by-two estimate is the quotient digit or one more
  (in the second case the loop that adds the divisor back corrects it).
\<close>

lemma quotient_estimate:
  fixes T P R W Tl Wl m :: nat
  assumes "R = T * m + Tl" "Tl < m" "W = P * m + Wl" "Wl < m" "T div P \<le> Suc P" "0 < P"
  shows "R div W \<le> T div P" "T div P \<le> Suc (R div W)"
proof -
  let ?q = "R div W" and ?t = "T div P"
  have m: "0 < m" using assms(2) by simp
  then have W: "0 < W" using assms(3,6) by simp
  have "?q * P * m \<le> ?q * W" using assms(3) by (simp add: distrib_left)
  also have "\<dots> \<le> R" by simp
  also have "\<dots> < Suc T * m" using assms(1,2) by simp
  finally have "?q * P < Suc T" by (simp only: mult_less_cancel2)
  then show "?q \<le> ?t" using assms(6) by (simp add: less_eq_div_iff_mult_less_eq)
  show "?t \<le> Suc ?q"
  proof (cases ?t)
    case 0
    then show ?thesis by simp
  next
    case (Suc t)
    have "t * W \<le> t * (Suc P * m)" using assms(3,4) by (intro mult_le_mono2) simp
    also have "\<dots> = (t * P + t) * m" by (simp add: algebra_simps)
    also have "\<dots> \<le> (t * P + P) * m" using assms(5) Suc by (intro mult_le_mono1 add_left_mono) simp
    also have "\<dots> = ?t * P * m" using Suc by (simp add: algebra_simps)
    also have "\<dots> \<le> T * m" by (intro mult_le_mono1) simp
    also have "\<dots> \<le> R" using assms(1) by simp
    finally have "t \<le> ?q" using W by (simp add: less_eq_div_iff_mult_less_eq)
    then show ?thesis using Suc by simp
  qed
qed

section \<open>Multiply and subtract\<close>

lemma mulsub_loop_spec:
  assumes "length vk = length w" "digits_ok vk" "digits_ok w" "unat q \<le> BASE"
    "- int BASE \<le> sint zhi" "sint zhi \<le> 0" "mulsub_loop zhi q vk w = (zs, zhi')"
  shows "int (dval vk) + sint zhi - int (unat q) * int (dval w) = int (dval zs) + int BASE ^ length w * sint zhi'
    \<and> length zs = length w \<and> digits_ok zs \<and> - int BASE \<le> sint zhi' \<and> sint zhi' \<le> 0"
  using assms
proof (induction vk w arbitrary: zhi zs zhi' rule: list_induct2)
  case Nil
  then show ?case by simp
next
  case (Cons v vk w ws)
  define z where "z = (scast (v + zhi) - ucast q * ucast w :: u64)"
  define zi where "zi = int (unat v) + sint zhi - int (unat q) * int (unat w)"
  obtain zs' where rec: "mulsub_loop (ucast (signed_drop_bit DIGIT_BITS z)) q vk ws = (zs', zhi')"
    and zs: "zs = (ucast z AND DIGIT_MASK) # zs'"
    using Cons.prems(6) by (auto simp: Let_def z_def split: prod.splits)
  have vw: "unat v < BASE" "unat w < BASE" using Cons.prems by simp_all
  have sv: "sint v = int (unat v)" using vw by (intro sint_small) (simp add: BASE_num)
  have vb: "0 \<le> int (unat v)" "int (unat v) < int BASE"
    using vw(1) by (simp_all only: of_nat_less_iff of_nat_0_le_iff)
  have "sint (v + zhi) = sint v + sint zhi"
  proof (rule sint_add_range)
    have "int BASE = 1073741824" by (simp add: BASE_num)
    then have "- 2147483648 \<le> sint v + sint zhi" "sint v + sint zhi < 2147483648"
      using vb Cons.prems(4,5) unfolding sv by linarith+
    then show "- (2 ^ (LENGTH(32) - 1)) \<le> sint v + sint zhi"
      and "sint v + sint zhi < 2 ^ (LENGTH(32) - 1)" by simp_all
  qed
  then have s1: "sint (scast (v + zhi) :: u64) = int (unat v) + sint zhi"
    using sv by (simp add: sint_up_scast is_up)
  have qw: "unat q * unat w \<le> BASE * (BASE - 1)"
    using vw Cons.prems(3) by (intro mult_le_mono) simp_all
  have uqw: "unat (ucast q * ucast w :: u64) = unat q * unat w"
    using qw by (subst unat_mult_no_wrap) (simp_all add: unat_ucast_up BASE_num)
  have s2: "sint (ucast q * ucast w :: u64) = int (unat q) * int (unat w)"
    using qw uqw by (subst sint_small) (simp_all add: BASE_num)
  have qwi: "0 \<le> int (unat q) * int (unat w)" "int (unat q) * int (unat w) \<le> int BASE * (int BASE - 1)"
  proof -
    have w: "int (unat w) < int BASE" using vw(2) by (simp only: of_nat_less_iff)
    have "int (unat q) \<le> int BASE" using Cons.prems(3) by (simp only: of_nat_le_iff)
    moreover have "int (unat w) \<le> int BASE - 1" using w by linarith
    ultimately show "int (unat q) * int (unat w) \<le> int BASE * (int BASE - 1)"
      by (intro mult_mono) (simp_all only: of_nat_0_le_iff)
  qed (intro mult_nonneg_nonneg of_nat_0_le_iff)
  have zb: "- (int BASE * int BASE) \<le> zi" "zi < int BASE"
    using vb Cons.prems(4,5) qwi unfolding zi_def right_diff_distrib mult_1_right by linarith+
  have sz: "sint z = zi"
    unfolding z_def using s1 s2 zb by (subst sint_diff_range) (simp_all add: zi_def BASE_num)
  have sd: "sint (signed_drop_bit DIGIT_BITS z) = zi div int BASE"
    by (simp add: sint_signed_drop_bit_eq sz drop_bit_eq_div BASE_def)
  have db: "- int BASE \<le> zi div int BASE" "zi div int BASE \<le> 0"
  proof -
    have "(- (int BASE) * int BASE) div int BASE \<le> zi div int BASE"
      using zb by (intro zdiv_mono1) simp_all
    moreover have "(- (int BASE) * int BASE) div int BASE = - int BASE"
      by (rule nonzero_mult_div_cancel_right) simp
    ultimately show "- int BASE \<le> zi div int BASE" by (simp only:)
    have "zi div int BASE \<le> (int BASE - 1) div int BASE"
      using zb(2) by (intro zdiv_mono1) simp_all
    also have "(int BASE - 1) div int BASE = 0" by (simp add: BASE_num)
    finally show "zi div int BASE \<le> 0" .
  qed
  have sh: "sint (ucast (signed_drop_bit DIGIT_BITS z) :: digit) = zi div int BASE"
  proof -
    have "sint (ucast (signed_drop_bit DIGIT_BITS z) :: digit) = signed_take_bit 31 (sint (signed_drop_bit DIGIT_BITS z))"
      by (simp add: sint_uint signed_take_bit_take_bit unsigned_ucast_eq)
    also have "\<dots> = zi div int BASE"
      unfolding sd using db by (intro signed_take_bit_int_eq_self) (simp_all add: BASE_num)
    finally show ?thesis .
  qed
  have lo: "int (unat (ucast z AND DIGIT_MASK :: digit)) = zi mod int BASE"
  proof -
    have "take_bit DIGIT_BITS (sint z) = take_bit DIGIT_BITS (uint z)"
      by (simp add: sint_uint take_bit_signed_take_bit DIGIT_BITS_def)
    then have "int (unat z) mod int BASE = sint z mod int BASE"
      by (simp add: take_bit_eq_mod BASE_def)
    then show ?thesis using sz
      by (simp add: word_nat BASE_num mod_mod_cancel of_nat_mod)
  qed
  have IH: "int (dval vk) + zi div int BASE - int (unat q) * int (dval ws) = int (dval zs') + int BASE ^ length ws * sint zhi'"
    "length zs' = length ws" "digits_ok zs'" "- int BASE \<le> sint zhi'" "sint zhi' \<le> 0"
    using Cons.IH [OF _ _ _ _ _ rec] Cons.prems db sh by simp_all
  have "int (dval zs) + int BASE ^ length (w # ws) * sint zhi'
      = zi mod int BASE + int BASE * (int (dval zs') + int BASE ^ length ws * sint zhi')"
    using lo by (simp add: zs algebra_simps)
  also have "\<dots> = zi mod int BASE + int BASE * (zi div int BASE)
      + int BASE * (int (dval vk) - int (unat q) * int (dval ws))"
    unfolding IH(1) [symmetric] by (simp add: algebra_simps)
  also have "\<dots> = int (dval (v # vk)) + sint zhi - int (unat q) * int (dval (w # ws))"
    by (simp add: zi_def algebra_simps)
  finally show ?case using IH zs by simp
qed

section \<open>Correctness of a step\<close>

lemma dval_top_two:
  assumes "2 \<le> length xs"
  shows "dval xs = (unat (xs ! (length xs - 1)) * BASE + unat (xs ! (length xs - 2))) * BASE ^ (length xs - 2)
      + dval (take (length xs - 2) xs)"
proof -
  let ?k = "length xs - 2"
  have k: "Suc (Suc ?k) = length xs" using assms by simp
  then have "drop ?k xs = [xs ! ?k, xs ! Suc ?k]"
    by (metis Cons_nth_drop_Suc Suc_lessD drop_all le_refl lessI)
  then have "dval (drop ?k xs) = unat (xs ! Suc ?k) * BASE + unat (xs ! ?k)" by simp
  moreover have "Suc ?k = length xs - 1" using assms by simp
  moreover have "dval xs = dval (take ?k xs) + BASE ^ ?k * dval (drop ?k xs)"
    using dval_take_drop [of xs ?k] by (simp add: min_absorb2)
  ultimately show ?thesis by (simp only: mult.commute add.commute)
qed

lemma split_top: "xs \<noteq> [] \<Longrightarrow> take (length xs - 1) xs @ [xs ! (length xs - 1)] = xs"
  by (metis append_butlast_last_id butlast_conv_take last_conv_nth)

lemma dval_take_Suc: "n < length xs \<Longrightarrow> dval (take (Suc n) xs) = dval (take n xs) + BASE ^ n * unat (xs ! n)"
  by (simp add: take_Suc_conv_app_nth min_absorb2)

text \<open>A normalized divisor: at least two digits, the top one at least half the base.\<close>

definition normalized_divisor :: "digit list \<Rightarrow> bool" where
  "normalized_divisor w \<longleftrightarrow> 2 \<le> length w \<and> digits_ok w \<and> BASE \<le> 2 * unat (w ! (length w - 1))"

lemma x_divrem_estimate:
  fixes w vk :: "digit list"
  assumes w: "normalized_divisor w" and vk: "length w < length vk" "digits_ok vk"
    and small: "dval (take (Suc (length w)) vk) < BASE * dval w"
  defines "n \<equiv> length w"
  defines "vv \<equiv> push_bit DIGIT_BITS (ucast (vk ! n) :: twodigits) OR ucast (vk ! (n - 1))"
  defines "q \<equiv> ucast (vv div ucast (w ! (n - 1))) :: digit"
  defines "r \<equiv> ucast (vv - ucast (w ! (n - 1)) * ucast q) :: digit"
  defines "e \<equiv> unat (est_adjust (w ! (n - 1)) (w ! (n - 2)) (vk ! (n - 2)) q r)"
  shows "dval (take (Suc n) vk) div dval w \<le> e" "e \<le> Suc (dval (take (Suc n) vk) div dval w)" "e \<le> BASE"
    "unat (vk ! n) \<le> unat (w ! (n - 1))"
proof -
  let ?R = "dval (take (Suc n) vk)" and ?W = "dval w" and ?m = "BASE ^ (n - 2)"
  define wm1 wm2 where "wm1 = unat (w ! (n - 1))" and "wm2 = unat (w ! (n - 2))"
  define vt v1 v2 where "vt = unat (vk ! n)" and "v1 = unat (vk ! (n - 1))" and "v2 = unat (vk ! (n - 2))"
  define P T where "P = wm1 * BASE + wm2" and "T = (vt * BASE + v1) * BASE + v2"
  have n: "2 \<le> n" "n < length vk" "length w = n" using w vk by (simp_all add: normalized_divisor_def n_def)
  have wok: "digits_ok w" "BASE \<le> 2 * wm1"
    using w by (simp_all add: normalized_divisor_def wm1_def n_def)
  have lt: "wm1 < BASE" "wm2 < BASE" "vt < BASE" "v1 < BASE" "v2 < BASE"
    using digits_ok_nth [OF wok(1)] digits_ok_nth [OF vk(2)] n
    by (simp_all add: wm1_def wm2_def vt_def v1_def v2_def)
  have W: "?W = P * ?m + dval (take (n - 2) w)"
    using dval_top_two [of w] n by (simp add: P_def wm1_def wm2_def)
  have Wl: "dval (take (n - 2) w) < ?m"
    using dval_bound_le [of "take (n - 2) w" "n - 2"] wok(1) n by simp
  have R: "?R = T * ?m + dval (take (n - 2) vk)"
  proof -
    have "?R = dval (take n vk) + BASE ^ n * vt" using dval_take_Suc n(2) by (simp add: vt_def)
    also have "dval (take n vk) = (v1 * BASE + v2) * ?m + dval (take (n - 2) vk)"
      using dval_top_two [of "take n vk"] n by (simp add: v1_def v2_def min_absorb1 min_absorb2)
    also have "BASE ^ n = BASE * BASE * ?m"
      using n(1) by (metis le_add_diff_inverse power2_eq_square power_add)
    finally show ?thesis by (simp add: T_def algebra_simps)
  qed
  have Rl: "dval (take (n - 2) vk) < ?m"
    using dval_bound_le [of "take (n - 2) vk" "n - 2"] vk(2) by simp
  have TP: "T < BASE * Suc P"
  proof -
    have "T * ?m \<le> ?R" using R by simp
    also have "\<dots> < BASE * ?W" using small by (simp add: n_def)
    also have "\<dots> \<le> BASE * (Suc P * ?m)" using W Wl by (intro mult_le_mono2) simp
    finally have "T * ?m < (BASE * Suc P) * ?m" by (simp only: mult.assoc)
    then show ?thesis by (simp only: mult_less_cancel2)
  qed
  have vt: "vt \<le> wm1"
  proof (rule ccontr)
    assume "\<not> vt \<le> wm1"
    then have "(wm1 + 1) * BASE * BASE \<le> vt * BASE * BASE" by (intro mult_le_mono1) simp
    also have "\<dots> \<le> T" by (simp add: T_def algebra_simps)
    also have "T < BASE * (wm1 * BASE + wm2 + 1)" using TP by (simp add: P_def)
    also have "\<dots> \<le> BASE * (wm1 * BASE + BASE)" using lt(2) by (intro mult_le_mono2) simp
    finally show False by (simp add: algebra_simps)
  qed
  then show "unat (vk ! n) \<le> unat (w ! (n - 1))" by (simp add: vt_def wm1_def)
  have BP: "BASE \<le> P"
  proof -
    have "2 \<le> wm1" using wok(2) BASE_num by linarith
    then have "1 * BASE \<le> wm1 * BASE" by (intro mult_le_mono1) simp
    then show ?thesis unfolding P_def mult_1 by (rule trans_le_add1)
  qed
  have TB: "T div P \<le> BASE"
  proof -
    have "T < BASE * P + BASE" using TP by simp
    also have "\<dots> \<le> Suc BASE * P" using BP by simp
    finally have "T < Suc BASE * P" .
    moreover have "0 < P" using BP BASE_pos(1) by linarith
    ultimately have "T div P < Suc BASE" by (simp only: div_less_iff_less_mult)
    then show ?thesis by simp
  qed
  define t where "t = vt * BASE + v1"
  have wpos: "0 < wm1" using wok(2) BASE_pos(1) by linarith
  have uvv: "unat vv = t"
    using unat_or_shifted [of "ucast (vk ! (n - 1)) :: twodigits" DIGIT_BITS "ucast (vk ! n)"] lt
    by (simp add: vv_def t_def vt_def v1_def unat_ucast_up exp_DIGIT_BITS BASE_num)
  have tle: "t div wm1 \<le> BASE + 1"
  proof -
    have "t < wm1 * BASE + BASE" using vt lt(4) by (simp add: t_def add_le_less_mono)
    also have "\<dots> \<le> wm1 * BASE + 2 * wm1" using wok(2) by simp
    finally have "t < Suc (BASE + 1) * wm1" by (simp add: algebra_simps)
    then have "t div wm1 < Suc (BASE + 1)" using wpos by (simp add: div_less_iff_less_mult)
    then show ?thesis by simp
  qed
  have uq: "unat q = t div wm1"
  proof -
    have "unat (vv div ucast (w ! (n - 1))) = t div wm1"
      by (simp add: unat_div uvv unat_ucast_up wm1_def)
    then show ?thesis using tle by (simp add: q_def unat_ucast_word BASE_num)
  qed
  have ur: "unat r = t mod wm1"
  proof -
    have u: "unat (ucast (w ! (n - 1)) :: twodigits) = wm1" "unat (ucast q :: twodigits) = t div wm1"
      using uq by (simp_all add: unat_ucast_up wm1_def)
    have "t < 2 ^ LENGTH(64)" unfolding uvv [symmetric] by (rule unsigned_less)
    moreover have le: "wm1 * (t div wm1) \<le> t" by simp
    ultimately have "unat (ucast (w ! (n - 1)) * ucast q :: twodigits) = wm1 * (t div wm1)"
      by (subst unat_mult_no_wrap) (simp_all only: u)
    moreover note le
    ultimately have "unat (vv - ucast (w ! (n - 1)) * ucast q) = t mod wm1"
      by (simp add: unat_sub_if' uvv minus_mult_div_eq_mod)
    moreover have "t mod wm1 < 2 ^ 32" using mod_less_divisor [OF wpos, of t] lt(1) by (simp add: BASE_num)
    ultimately show ?thesis by (simp add: r_def word_nat)
  qed
  have e: "e = T div P"
  proof -
    have "T div P \<le> t div wm1"
    proof -
      have "T div P * wm1 * BASE \<le> T div P * P" by (simp add: P_def distrib_left)
      also have "\<dots> \<le> T" by simp
      also have "\<dots> < Suc t * BASE" using lt(5) by (simp add: T_def t_def)
      finally have "T div P * wm1 < Suc t" by (simp only: mult_less_cancel2)
      then show ?thesis using wpos by (simp add: less_eq_div_iff_mult_less_eq)
    qed
    moreover have "t mod wm1 < BASE" using mod_less_divisor [OF wpos, of t] lt(1) by linarith
    moreover have "unat q * wm1 + unat r = t" unfolding uq ur by (rule div_mult_mod_eq)
    ultimately show ?thesis
      using est_adjust_spec [of "w ! (n - 1)" "w ! (n - 2)" "vk ! (n - 2)" r q t] lt(1,2,5) tle wpos
      unfolding e_def T_def P_def t_def [symmetric] wm1_def [symmetric] wm2_def [symmetric]
        v2_def [symmetric] uq ur by blast
  qed
  show "e \<le> BASE" using e TB by simp
  have "T div P \<le> Suc P" using TB BP by linarith
  from quotient_estimate [OF R Rl W Wl this] BP
  show "?R div ?W \<le> e" "e \<le> Suc (?R div ?W)" using e by (simp_all add: order.strict_trans2 [OF BASE_pos(1)])
qed

lemma x_divrem_step_spec:
  assumes w: "normalized_divisor w" and vk: "length w < length vk" "digits_ok vk"
    and small: "dval (take (Suc (length w)) vk) < BASE * dval w"
    and step: "x_divrem_step w vk = (q, vk')"
  shows "unat q = dval (take (Suc (length w)) vk) div dval w"
    and "dval (take (length w) vk') = dval (take (Suc (length w)) vk) mod dval w"
    and "length vk' = length vk" "digits_ok vk'"
proof -
  let ?n = "length w" and ?W = "dval w" and ?R = "dval (take (Suc (length w)) vk)"
  define vv where "vv = push_bit DIGIT_BITS (ucast (vk ! ?n) :: twodigits) OR ucast (vk ! (?n - 1))"
  define q0 :: digit where "q0 = ucast (vv div ucast (w ! (?n - 1)))"
  define r0 :: digit where "r0 = ucast (vv - ucast (w ! (?n - 1)) * ucast q0)"
  define e where "e = est_adjust (w ! (?n - 1)) (w ! (?n - 2)) (vk ! (?n - 2)) q0 r0"
  obtain zs zhi where ms: "mulsub_loop 0 e (take ?n vk) w = (zs, zhi)" by fastforce
  have est: "?R div ?W \<le> unat e" "unat e \<le> Suc (?R div ?W)" "unat e \<le> BASE"
    using x_divrem_estimate [OF w vk small] by (simp_all add: e_def q0_def r0_def vv_def)
  have vt: "unat (vk ! ?n) < BASE" using digits_ok_nth [OF vk(2,1)] .
  have wok: "digits_ok w" "2 \<le> ?n" using w by (simp_all add: normalized_divisor_def)
  have Wb: "?W < BASE ^ ?n" using dval_bound [OF wok(1)] .
  have Wpos: "0 < ?W" using small by (metis mult_0_right gr0I not_less_zero)
  have spec: "int (dval (take ?n vk)) + sint (0 :: digit) - int (unat e) * int ?W
      = int (dval zs) + int BASE ^ ?n * sint zhi
      \<and> length zs = ?n \<and> digits_ok zs \<and> - int BASE \<le> sint zhi \<and> sint zhi \<le> 0"
    using mulsub_loop_spec [OF _ _ wok(1) est(3) _ _ ms] vk by (simp add: min_absorb2)
  define h where "h = int (unat (vk ! ?n)) + sint zhi"
  have zs: "length zs = ?n" "digits_ok zs" "dval zs < BASE ^ ?n"
    using spec dval_bound [of zs] by simp_all
  have svt: "sint (vk ! ?n) = int (unat (vk ! ?n))" using vt by (intro sint_small) (simp add: BASE_num)
  have vti: "0 \<le> int (unat (vk ! ?n))" "int (unat (vk ! ?n)) < int BASE"
    using vt by (simp_all only: of_nat_less_iff of_nat_0_le_iff)
  have sh: "sint (vk ! ?n + zhi) = h"
  proof -
    have "int BASE = 1073741824" by (simp add: BASE_num)
    then have "- 2147483648 \<le> sint (vk ! ?n) + sint zhi" "sint (vk ! ?n) + sint zhi < 2147483648"
      using vti conjunct2 [OF spec] unfolding svt by linarith+
    then show ?thesis unfolding h_def svt [symmetric] by (intro sint_add_range) simp_all
  qed
  have Rn: "?R = dval (take ?n vk) + BASE ^ ?n * unat (vk ! ?n)" by (rule dval_take_Suc [OF vk(1)])
  have bal: "int ?R - int (unat e) * int ?W = int (dval zs) + int BASE ^ ?n * h"
    using conjunct1 [OF spec] by (simp add: Rn h_def distrib_left)
  define Q M where "Q = ?R div ?W" and "M = ?R mod ?W"
  have QM: "int ?R = int Q * int ?W + int M"
    unfolding Q_def M_def of_nat_mult [symmetric] of_nat_add [symmetric] div_mult_mod_eq ..
  have M: "M < ?W" using Wpos by (simp add: M_def)
  have unf: "x_divrem_step w vk = (if vk ! ?n + zhi <s 0 then (e - 1, fst (v_iadd zs w) @ drop ?n vk)
      else (e, zs @ drop ?n vk))"
    by (simp only: x_divrem_step_def Let_def vv_def [symmetric] q0_def [symmetric] r0_def [symmetric]
        e_def [symmetric] ms prod.case)
  have neg: "vk ! ?n + zhi <s 0 \<longleftrightarrow> h < 0" by (simp add: word_sless_alt sh)
  let ?B = "int BASE ^ ?n"
  have Bpos: "0 < ?B" by simp
  have i: "0 \<le> int (dval zs)" "int (dval zs) < ?B" "0 \<le> int M" "int M < int ?W" "int ?W < ?B"
    using zs(3) M Wb by (simp_all only: of_nat_less_iff of_nat_0_le_iff flip: of_nat_power)
  have ok: "digits_ok (drop ?n vk)" using vk by simp
  consider (exact) "unat e = Q" | (over) "unat e = Suc Q" using est unfolding Q_def by linarith
  then have "unat q = Q \<and> dval (take ?n vk') = M \<and> length vk' = length vk \<and> digits_ok vk'"
  proof cases
    case exact
    then have eq: "int M = int (dval zs) + ?B * h" using bal QM by simp
    have "h = 0"
    proof (rule ccontr)
      assume "h \<noteq> 0"
      then consider "1 \<le> h" | "h \<le> -1" by linarith
      then have "?B * 1 \<le> ?B * h \<or> ?B * h \<le> ?B * -1"
        using Bpos mult_left_mono [of 1 h ?B] mult_left_mono [of h "-1" ?B] by cases simp_all
      then show False using eq i by linarith
    qed
    then have "int M = int (dval zs)" using eq by simp
    then show ?thesis using step unf neg \<open>h = 0\<close> exact zs ok vk by (auto simp: min_absorb2)
  next
    case over
    then have eq: "int M - int ?W = int (dval zs) + ?B * h" using bal QM by (simp add: distrib_right)
    have "h = -1"
    proof -
      have "?B * h < 0" using eq i by linarith
      then have "h < 0" using Bpos by (simp add: mult_less_0_iff)
      moreover have "?B * -2 < ?B * h" using eq i by linarith
      then have "-2 < h" using Bpos by (simp only: mult_less_cancel_left_pos)
      ultimately show ?thesis by linarith
    qed
    obtain ys c where ys: "v_iadd zs w = (ys, c)" by fastforce
    note add = v_iadd_spec [OF _ zs(2) wok(1) ys]
    have add': "dval ys + BASE ^ ?n * unat c = dval zs + ?W" "length ys = ?n" "digits_ok ys" "unat c \<le> 1"
      using add zs(1) by simp_all
    have zw: "dval zs + ?W = M + BASE ^ ?n"
    proof -
      have "int (dval zs + ?W) = int (M + BASE ^ ?n)" using eq \<open>h = -1\<close> by simp
      then show ?thesis by (simp only: of_nat_eq_iff)
    qed
    have "dval ys < BASE ^ ?n" using dval_bound [OF add'(3)] add'(2) by simp
    then have "unat c = 1" using add'(1,4) zw by (cases "unat c") auto
    then have yM: "dval ys = M" using add'(1) zw by simp
    have "e \<noteq> 0" using over by auto
    then have "unat (e - 1) = Q" using over by (simp add: unat_minus_one)
    then show ?thesis using step unf neg \<open>h = -1\<close> ys yM add' ok vk by (auto simp: min_absorb2)
  qed
  then show "unat q = ?R div ?W" "dval (take ?n vk') = ?R mod ?W" "length vk' = length vk" "digits_ok vk'"
    by (simp_all add: Q_def M_def)
qed

section \<open>Correctness of the long division\<close>

lemma x_divrem_loop_spec:
  assumes "normalized_divisor w" "digits_ok v" "k + length w \<le> length v"
    "dval (take (length w) (drop k v)) < dval w" "x_divrem_loop w k v a = (a', v')"
  shows "\<exists>qs. a' = qs @ a \<and> length qs = k \<and> digits_ok qs
    \<and> dval (take (k + length w) v) = dval qs * dval w + dval (take (length w) v')
    \<and> dval (take (length w) v') < dval w \<and> digits_ok v' \<and> length v' = length v"
  using assms(2-5)
proof (induction k arbitrary: v a)
  case 0
  then show ?case by simp
next
  case (Suc k)
  let ?n = "length w"
  obtain q vk where st: "x_divrem_step w (drop k v) = (q, vk)" by fastforce
  have rec: "x_divrem_loop w k (take k v @ vk) (q # a) = (a', v')"
    using Suc.prems(4) st by simp
  have kl: "k < length v" using Suc.prems(2) by simp
  have w: "digits_ok w" "0 < ?n" using assms(1) by (auto simp: normalized_divisor_def)
  have head: "take (Suc ?n) (drop k v) = v ! k # take ?n (drop (Suc k) v)"
    using kl by (simp add: Cons_nth_drop_Suc [symmetric])
  have "dval (take (Suc ?n) (drop k v)) = unat (v ! k) + BASE * dval (take ?n (drop (Suc k) v))"
    unfolding head by simp
  also have "\<dots> < BASE + BASE * (dval w - 1)"
    using digits_ok_nth [OF Suc.prems(1) kl] Suc.prems(3) by (intro add_less_le_mono mult_le_mono2) simp_all
  also have "\<dots> = BASE * dval w"
    using Suc.prems(3) by (cases "dval w") simp_all
  finally have small: "dval (take (Suc ?n) (drop k v)) < BASE * dval w" .
  let ?R = "dval (take (Suc ?n) (drop k v))"
  have step: "unat q = ?R div dval w" "dval (take ?n vk) = ?R mod dval w" "length vk = length v - k" "digits_ok vk"
    using x_divrem_step_spec [OF assms(1) _ _ small st] Suc.prems(1,2) by simp_all
  have Wpos: "0 < dval w" using Suc.prems(3) by simp
  have lt: "dval (take ?n vk) < dval w" using step(2) Wpos by simp
  have q: "unat q < BASE"
    unfolding step(1) using small Wpos by (simp add: div_less_iff_less_mult)
  have dv: "digits_ok (take k v @ vk)" "k + ?n \<le> length (take k v @ vk)" "length (take k v @ vk) = length v"
    "take ?n (drop k (take k v @ vk)) = take ?n vk"
    using Suc.prems(1,2) step(3,4) kl by simp_all
  from Suc.IH [OF dv(1,2) _ rec] lt dv(4) obtain qs where qs: "a' = qs @ q # a" "length qs = k" "digits_ok qs"
    "dval (take (k + ?n) (take k v @ vk)) = dval qs * dval w + dval (take ?n v')"
    "dval (take ?n v') < dval w" "digits_ok v'" "length v' = length (take k v @ vk)" by auto
  have upd: "dval (take (k + ?n) (take k v @ vk)) = dval (take k v) + BASE ^ k * (?R mod dval w)"
    using kl step(2) by (simp add: min_absorb2)
  have old: "dval (take (Suc k + ?n) v) = dval (take k v) + BASE ^ k * ?R"
  proof -
    have "take (Suc k + ?n) v = take k v @ take (Suc ?n) (drop k v)"
      by (metis add_Suc_right add_Suc take_add)
    then show ?thesis using kl by (simp add: min_absorb2 del: take_Suc)
  qed
  have "dval (take (Suc k + ?n) v) = dval (take k v) + BASE ^ k * (?R div dval w * dval w + ?R mod dval w)"
    unfolding old by (simp only: div_mult_mod_eq)
  also have "\<dots> = BASE ^ k * unat q * dval w + (dval (take k v) + BASE ^ k * (?R mod dval w))"
    by (simp only: step(1) distrib_left mult.assoc add.assoc add.commute add.left_commute)
  also have "\<dots> = dval (qs @ [q]) * dval w + dval (take ?n v')"
    unfolding upd [symmetric] qs(4) using qs(2) by (simp add: algebra_simps)
  finally have "dval (take (Suc k + ?n) v) = dval (qs @ [q]) * dval w + dval (take ?n v')" .
  then show ?case using qs q dv(3) by (intro exI [of _ "qs @ [q]"]) simp
qed

text \<open>Shifting by the number of leading zero bits of its top digit normalizes a divisor.\<close>

lemma normalizing_shift:
  assumes "digits_ok w" "2 \<le> length w" "w ! (length w - 1) \<noteq> 0"
  defines "d \<equiv> DIGIT_BITS - bits_in_digit (w ! (length w - 1))"
  shows "d < DIGIT_BITS" "normalized_divisor (fst (v_lshift w d))" "dval (fst (v_lshift w d)) = dval w * 2 ^ d"
    "length (fst (v_lshift w d)) = length w" "2 * 2 ^ d \<le> BASE"
proof -
  let ?top = "w ! (length w - 1)" and ?n = "length w"
  define b where "b = bits_in_digit ?top"
  have top: "unat ?top < 2 ^ b" "2 ^ b \<le> 2 * unat ?top" "unat ?top < BASE"
    using bits_in_digit_spec [OF assms(3)] digits_ok_nth [OF assms(1)] assms(2) by (simp_all add: b_def)
  have pos: "0 < unat ?top" using assms(3) by (simp add: unat_gt_0)
  have b0: "0 < b" using top(1) pos by (cases b) simp_all
  have "(2::nat) ^ b < 2 * 2 ^ DIGIT_BITS" using top(2,3) unfolding BASE_def by linarith
  then have "(2::nat) ^ b < 2 ^ Suc DIGIT_BITS" by simp
  then have b30: "b \<le> DIGIT_BITS" by (simp only: power_strict_increasing_iff less_Suc_eq_le)
  have d: "d = DIGIT_BITS - b" by (simp add: d_def b_def)
  show dlt: "d < DIGIT_BITS" using b0 by (simp add: d DIGIT_BITS_def)
  have db: "2 ^ b * 2 ^ d = BASE" using b30 by (simp add: d BASE_def power_add [symmetric])
  show "2 * 2 ^ d \<le> BASE"
  proof -
    have "(2::nat) ^ 1 * 2 ^ d \<le> 2 ^ b * 2 ^ d" using b0 by (intro mult_le_mono1 power_increasing) simp_all
    then show ?thesis using db by simp
  qed
  obtain z c where zc: "v_lshift w d = (z, c)" by fastforce
  note sp = v_lshift_spec [OF dlt assms(1) zc]
  have split: "dval w = dval (take (?n - 1) w) + BASE ^ (?n - 1) * unat ?top"
    using dval_take_Suc [of "?n - 1" w] assms(2) by simp
  have low: "dval (take (?n - 1) w) < BASE ^ (?n - 1)"
    using dval_bound_le [of "take (?n - 1) w" "?n - 1"] assms(1) by simp
  have "dval w < BASE ^ (?n - 1) * Suc (unat ?top)" using split low by simp
  also have "\<dots> \<le> BASE ^ (?n - 1) * 2 ^ b" using top(1) by (intro mult_le_mono2) simp
  finally have "dval w * 2 ^ d < BASE ^ (?n - 1) * 2 ^ b * 2 ^ d" by simp
  also have "\<dots> = BASE ^ ?n"
    using assms(2) db by (metis mult.assoc One_nat_def Suc_1 Suc_le_lessD Suc_pred' power_Suc2 zero_less_Suc less_le_trans)
  finally have fit: "dval w * 2 ^ d < BASE ^ ?n" .
  have "unat c = 0"
    using sp(1) fit by (cases "unat c") simp_all
  then have zv: "dval z = dval w * 2 ^ d" using sp(1) by simp
  then show "dval (fst (v_lshift w d)) = dval w * 2 ^ d" "length (fst (v_lshift w d)) = ?n"
    using zc sp by simp_all
  have zsplit: "dval z = dval (take (?n - 1) z) + BASE ^ (?n - 1) * unat (z ! (?n - 1))"
    using dval_take_Suc [of "?n - 1" z] assms(2) sp(2) by simp
  have zlow: "dval (take (?n - 1) z) < BASE ^ (?n - 1)"
    using dval_bound_le [of "take (?n - 1) z" "?n - 1"] sp(3) by simp
  have "BASE ^ (?n - 1) * BASE \<le> BASE ^ (?n - 1) * (2 * unat ?top * 2 ^ d)"
    unfolding db [symmetric] using top(2) by (intro mult_le_mono2 mult_le_mono1) simp
  also have "\<dots> \<le> 2 * (dval w * 2 ^ d)" unfolding split by (simp add: algebra_simps)
  also have "\<dots> = 2 * dval z" by (simp add: zv)
  also have "\<dots> < BASE ^ (?n - 1) * (2 * Suc (unat (z ! (?n - 1))))" using zsplit zlow by simp
  finally have "BASE < 2 * Suc (unat (z ! (?n - 1)))" by (simp only: mult_less_cancel1)
  moreover have "even BASE" by (simp add: BASE_num)
  ultimately have "BASE \<le> 2 * unat (z ! (?n - 1))" by presburger
  then show "normalized_divisor (fst (v_lshift w d))"
    using zc sp(2,3) assms(2) by (simp add: normalized_divisor_def)
qed

lemma x_divrem_spec:
  assumes v1: "int_ok v1" and w1: "int_ok w1" and size: "2 \<le> \<bar>ob_size w1\<bar>" "\<bar>ob_size w1\<bar> \<le> \<bar>ob_size v1\<bar>"
    and div: "x_divrem v1 w1 = (z, rem)"
  shows "represents z (int (int_mag v1 div int_mag w1))" "represents rem (int (int_mag v1 mod int_mag w1))"
proof -
  define n sv where "n = nat \<bar>ob_size w1\<bar>" and "sv = nat \<bar>ob_size v1\<bar>"
  define d where "d = DIGIT_BITS - bits_in_digit (digits w1 ! (n - 1))"
  define w where "w = fst (v_lshift (digits w1) d)"
  obtain v0 carry where v0: "v_lshift (digits v1) d = (v0, carry)" by fastforce
  define v where "v = (if carry \<noteq> 0 \<or> v0 ! (sv - 1) \<ge> w ! (n - 1) then v0 @ [carry] else v0)"
  define k where "k = length v - n"
  obtain a v' where loop: "x_divrem_loop w k v [] = (a, v')" by fastforce
  obtain r c where r: "v_rshift (take n v') d = (r, c)" by fastforce
  have res: "z = int_normalize (DeeInt_Alloc a)" "rem = int_normalize (DeeInt_Alloc r)"
    using div unfolding x_divrem_def Let_def n_def [symmetric] sv_def [symmetric] d_def [symmetric] w_def [symmetric] v0 prod.case
      v_def [symmetric] k_def [symmetric] loop r fst_conv by simp_all
  have n: "2 \<le> n" "n \<le> sv"
    using nat_mono [OF size(1)] nat_mono [OF size(2)] by (simp_all add: n_def sv_def)
  have len: "length (digits w1) = n" "length (digits v1) = sv" and dok: "digits_ok (digits w1)" "digits_ok (digits v1)"
    using v1 w1 by (simp_all add: length_digits int_mem_digits_ok n_def sv_def)
  have "digits w1 \<noteq> []" using len(1) n(1) by auto
  then have top: "digits w1 ! (length (digits w1) - 1) \<noteq> 0"
    using w1 by (simp add: int_ok_def last_conv_nth)
  note sh = normalizing_shift [OF dok(1) _ top, unfolded len(1), folded d_def, folded w_def]
  have d: "d < DIGIT_BITS" and nd: "normalized_divisor w" and wv: "dval w = dval (digits w1) * 2 ^ d"
    and wl: "length w = n" and half: "2 * 2 ^ d \<le> BASE"
    using sh n(1) by simp_all
  note lv = v_lshift_spec [OF d dok(2) v0]
  have v0l: "length v0 = sv" "digits_ok v0" using lv len(2) by simp_all
  have cb: "unat carry < BASE" using lv(4) half by linarith
  have vok: "digits_ok v" and vlen: "k + n = length v" "n \<le> length v"
    and vval: "dval v = dval (digits v1) * 2 ^ d"
    using v0l cb lv(1) n len(2) by (cases "carry \<noteq> 0 \<or> v0 ! (sv - 1) \<ge> w ! (n - 1)"; simp add: v_def k_def; fail)+
  have wtop: "BASE \<le> 2 * unat (w ! (n - 1))" and wok: "digits_ok w"
    using nd wl by (simp_all add: normalized_divisor_def)
  have vne: "v \<noteq> []" using vlen n by auto
  have vtop: "v ! (length v - 1) < w ! (n - 1)"
  proof (cases "carry \<noteq> 0 \<or> v0 ! (sv - 1) \<ge> w ! (n - 1)")
    case True
    have "unat carry < unat (w ! (n - 1))" using lv(4) half wtop by linarith
    then show ?thesis using True by (simp add: v_def word_less_nat_alt)
  next
    case False
    then have "v = v0" unfolding v_def by (rule if_not_P)
    moreover have "v0 ! (sv - 1) < w ! (n - 1)" using False by (simp add: not_le)
    ultimately show ?thesis using v0l by simp
  qed
  have dl: "length (drop k v) = n" using vlen by simp
  have "dval (drop k v) < dval w"
  proof -
    have dk: "take (n - 1) (drop k v) @ [v ! (length v - 1)] = drop k v"
    proof -
      have at: "drop k v ! (n - 1) = v ! (length v - 1)"
        using vlen n by (subst nth_drop) (simp_all add: Nat.add_diff_assoc)
      have "drop k v \<noteq> []" using dl n by auto
      from split_top [OF this] show ?thesis by (simp only: dl at)
    qed
    have "w \<noteq> []" using wl n by auto
    from split_top [OF this] have ws: "take (n - 1) w @ [w ! (n - 1)] = w" by (simp only: wl)
    have "dval (take (n - 1) (drop k v) @ [v ! (length v - 1)]) < dval (take (n - 1) w @ [w ! (n - 1)])"
      using vtop vok dl wl by (intro dval_less_top) (simp_all add: word_less_nat_alt)
    then show ?thesis by (simp only: dk ws)
  qed
  then have "dval (take (length w) (drop k v)) < dval w" using dl wl by simp
  from x_divrem_loop_spec [OF nd vok _ this loop] vlen wl
  have ls: "digits_ok a" "dval v = dval a * dval w + dval (take n v')" "dval (take n v') < dval w"
    "digits_ok v'" "length v' = length v"
    by auto
  have q: "dval v div dval w = dval a" and m: "dval v mod dval w = dval (take n v')"
    using div_mod_unique_nat [OF ls(2,3)] by simp_all
  have "int_mag v1 div int_mag w1 = dval a"
    using q unfolding vval wv by (simp add: int_mag_def)
  then show "represents z (int (int_mag v1 div int_mag w1))"
    using represents_normalize_alloc [OF ls(1)] res by simp
  have "dval (take n v') = (int_mag v1 mod int_mag w1) * 2 ^ d"
    using m unfolding vval wv by (simp add: int_mag_def mult_mod_left)
  moreover have rs: "dval (take n v') = dval r * 2 ^ d + unat c" "unat c < 2 ^ d" "digits_ok r"
    using v_rshift_spec [OF d _ r] ls(4) by simp_all
  ultimately have "(int_mag v1 mod int_mag w1) * 2 ^ d = dval r * 2 ^ d + unat c" by simp
  from div_mod_unique_nat(1) [OF this rs(2)]
  have "int_mag v1 mod int_mag w1 = dval r" by simp
  then show "represents rem (int (int_mag v1 mod int_mag w1))"
    using represents_normalize_alloc [OF rs(3)] res by simp
qed

lemma divrem1_spec:
  assumes "int_mem a" "0 < unat n" "unat n < BASE" "divrem1 a n = (z, rem)"
  shows "represents z (int (int_mag a div unat n))" "unat rem = int_mag a mod unat n"
proof -
  obtain y r where y: "inplace_divrem1 (digits a) n = (y, r)" by fastforce
  have res: "z = int_normalize (DeeInt_Alloc y)" "rem = r"
    using assms(4) by (simp_all add: divrem1_def y)
  note sp = inplace_divrem1_spec [OF assms(2,3) int_mem_digits_ok [OF assms(1)] y]
  show "represents z (int (int_mag a div unat n))" "unat rem = int_mag a mod unat n"
    using sp res represents_normalize_alloc [OF sp(3)] by (simp_all add: int_mag_def)
qed

section \<open>Correctness of the division operators\<close>

text \<open>\<open>int_divrem\<close> truncates: the quotient is rounded towards zero, the remainder has the sign of the dividend.\<close>

lemma int_divrem_mags:
  assumes a: "int_ok a" and b: "int_ok b" "ob_size b \<noteq> 0"
  obtains z r where "int_divrem a b = Inr (z, r)"
    "represents z (sgn (int_val a) * sgn (int_val b) * int (int_mag a div int_mag b))"
    "represents r (sgn (int_val a) * int (int_mag a mod int_mag b))"
proof -
  let ?sa = "nat \<bar>ob_size a\<bar>" and ?sb = "nat \<bar>ob_size b\<bar>"
  have sb0: "?sb \<noteq> 0" using b(2) by simp
  have sg: "sgn (int_val a) = sgn (ob_size a)" "sgn (int_val b) = sgn (ob_size b)"
    using a b(1) by (simp_all add: sgn_int_val)
  have len: "length (digits a) = ?sa" "length (digits b) = ?sb" and dok: "digits_ok (digits a)" "digits_ok (digits b)"
    using a b by (simp_all add: length_digits int_mem_digits_ok)
  define small where "small \<longleftrightarrow> ?sa < ?sb \<or> (?sa = ?sb \<and> digits a ! (?sa - 1) < digits b ! (?sb - 1))"
  show thesis
  proof (cases small)
    case True
    have lt: "int_mag a < int_mag b"
    proof (cases "?sa < ?sb")
      case True
      then show ?thesis using int_mag_less_of_size [of b a] a b(1) by simp
    next
      case False
      then have eq: "?sa = ?sb" "digits a ! (?sa - 1) < digits b ! (?sb - 1)"
        using True unfolding small_def by blast+
      have ne: "digits a \<noteq> []" "digits b \<noteq> []" using len sb0 eq(1) by auto
      have "dval (take (?sa - 1) (digits a) @ [digits a ! (?sa - 1)])
          < dval (take (?sb - 1) (digits b) @ [digits b ! (?sb - 1)])"
        using eq dok len by (intro dval_less_top) (simp_all add: word_less_nat_alt)
      then show ?thesis
        by (simp only: split_top [OF ne(1), unfolded len] split_top [OF ne(2), unfolded len] int_mag_def)
    qed
    have "int_divrem a b = Inr (DeeInt_Zero, a)"
      using True sb0 by (simp add: int_divrem_def small_def Let_def)
    moreover have "represents a (sgn (int_val a) * int (int_mag a mod int_mag b))"
      using a lt sg by (simp add: represents_def int_val_def)
    ultimately show thesis using that lt represents_Zero by simp
  next
    case False
    obtain z0 r0 sh where zr: "(if ?sb = 1 then let (z, rem) = divrem1 a (digits b ! 0)
          in (z, DeeInt_NewUInt32 rem, rem \<le> 0xff)
        else let (z, rem) = x_divrem a b in (z, rem, False)) = (z0, r0, sh)"
      by (rule prod_cases3)
    have spec: "represents z0 (int (int_mag a div int_mag b)) \<and> represents r0 (int (int_mag a mod int_mag b))"
    proof (cases "?sb = 1")
      case True
      then obtain n where n: "digits b = [n]" using len(2) by (metis One_nat_def length_0_conv length_Suc_conv)
      then have nb: "0 < unat n" "unat n < BASE" and mb: "int_mag b = unat n"
        using dok(2) b(1) by (auto simp: int_mag_def int_ok_def unat_gt_0)
      obtain y r where y: "divrem1 a n = (y, r)" by fastforce
      then show ?thesis using divrem1_spec [OF int_ok_mem [OF a] nb y] zr True n mb represents_NewUInt32 [of r]
        by (auto simp: uint_nat simp del: of_nat_unat)
    next
      case notone: False
      have "2 \<le> \<bar>ob_size b\<bar>" using notone sb0 by linarith
      moreover have "\<bar>ob_size b\<bar> \<le> \<bar>ob_size a\<bar>" using False unfolding small_def by linarith
      moreover have "x_divrem a b = (z0, r0)" using zr notone by (auto split: prod.splits)
      ultimately show ?thesis using x_divrem_spec [OF a b(1)] by blast
    qed
    define z where "z = (if (ob_size a < 0) \<noteq> (ob_size b < 0) then int_neg_inherit False z0 else z0)"
    define r where "r = (if ob_size a < 0 \<and> ob_size r0 \<noteq> 0 then int_neg_inherit sh r0 else r0)"
    have unf: "int_divrem a b = Inr (z, r)"
      unfolding int_divrem_def Let_def zr [unfolded Let_def] small_def [symmetric] if_not_P [OF sb0]
        if_not_P [OF False] prod.case z_def r_def by (rule refl)
    have a0: "ob_size a \<noteq> 0"
    proof
      assume "ob_size a = 0"
      then show False using False sb0 by (simp add: small_def)
    qed
    have z: "represents z (sgn (ob_size a) * sgn (ob_size b) * int (int_mag a div int_mag b))"
      using conjunct1 [OF spec] represents_int_neg_inherit [OF conjunct1 [OF spec], of False] a0 b(2)
      by (auto simp: z_def sgn_if)
    have "int_mag a mod int_mag b = 0" if "ob_size r0 = 0"
      using conjunct2 [OF spec] that by (simp add: represents_def int_val_def)
    then have r: "represents r (sgn (ob_size a) * int (int_mag a mod int_mag b))"
      using conjunct2 [OF spec] represents_int_neg_inherit [OF conjunct2 [OF spec], of sh] a0
      by (auto simp: r_def sgn_if)
    show thesis using that [OF unf] z r sg by simp
  qed
qed

lemma int_divrem_by_zero:
  assumes "ob_size b = 0"
  shows "int_divrem a b = Inl DivideByZero"
  using assms by (simp add: int_divrem_def)

text \<open>\<open>int_divmod\<close> floors, as \<open>div\<close> and \<open>mod\<close> of HOL do.\<close>

lemma floor_of_truncated:
  fixes a b q r :: int
  assumes "b \<noteq> 0" "a = q * b + r" "\<bar>r\<bar> < \<bar>b\<bar>"
  shows "(r < 0 \<and> 0 < b) \<or> (0 < r \<and> b < 0) \<Longrightarrow> a div b = q - 1 \<and> a mod b = r + b"
    and "\<not> ((r < 0 \<and> 0 < b) \<or> (0 < r \<and> b < 0)) \<Longrightarrow> a div b = q \<and> a mod b = r"
proof -
  show "a div b = q - 1 \<and> a mod b = r + b" if "(r < 0 \<and> 0 < b) \<or> (0 < r \<and> b < 0)"
  proof -
    have "a = (q - 1) * b + (r + b)" using assms(2) by (simp add: algebra_simps)
    moreover have "(0 < b \<and> 0 \<le> r + b \<and> r + b < b) \<or> (b < 0 \<and> b < r + b \<and> r + b \<le> 0)"
      using assms(3) that by linarith
    ultimately show ?thesis
      by (metis div_pos_pos_trivial div_neg_neg_trivial div_mult_self3 mod_mult_self3 add.commute add_0
          mod_pos_pos_trivial mod_neg_neg_trivial assms(1))
  qed
  show "a div b = q \<and> a mod b = r" if "\<not> ((r < 0 \<and> 0 < b) \<or> (0 < r \<and> b < 0))"
  proof -
    have "(0 < b \<and> 0 \<le> r \<and> r < b) \<or> (b < 0 \<and> b < r \<and> r \<le> 0)"
      using assms(1,3) that by linarith
    then show ?thesis using assms(2)
      by (metis div_pos_pos_trivial div_neg_neg_trivial div_mult_self3 mod_mult_self3 add.commute add_0
          mod_pos_pos_trivial mod_neg_neg_trivial assms(1))
  qed
qed

lemma int_divrem_balance:
  assumes "int_ok a" "int_ok b" "ob_size b \<noteq> 0"
  obtains z r q k where "int_divrem a b = Inr (z, r)" "represents z q" "represents r k"
    "int_val a = q * int_val b + k" "\<bar>k\<bar> < \<bar>int_val b\<bar>" "k = 0 \<or> sgn k = sgn (int_val a)"
proof -
  let ?A = "int (int_mag a)" and ?B = "int (int_mag b)"
  obtain z r where zr: "int_divrem a b = Inr (z, r)"
    "represents z (sgn (int_val a) * sgn (int_val b) * int (int_mag a div int_mag b))"
    "represents r (sgn (int_val a) * int (int_mag a mod int_mag b))"
    by (rule int_divrem_mags [OF assms])
  have A: "int_val a = sgn (int_val a) * ?A" and B: "int_val b = sgn (int_val b) * ?B"
    using assms(1,2) by (simp_all add: sgn_int_val) (simp_all add: int_val_def)
  have sb: "sgn (int_val b) * sgn (int_val b) = 1"
    using assms(2,3) by (simp add: int_val_eq_0_iff sgn_if)
  have "?A = ?A div ?B * ?B + ?A mod ?B" by simp
  then have "int_val a = sgn (int_val a) * (?A div ?B * ?B + ?A mod ?B)" using A by simp
  also have "\<dots> = sgn (int_val a) * (sgn (int_val b) * sgn (int_val b)) * (?A div ?B) * ?B
      + sgn (int_val a) * (?A mod ?B)"
    by (simp only: sb distrib_left mult_1_right mult.assoc)
  also have "\<dots> = (sgn (int_val a) * sgn (int_val b) * (?A div ?B)) * (sgn (int_val b) * ?B)
      + sgn (int_val a) * (?A mod ?B)"
    by (simp only: mult.assoc mult.commute mult.left_commute)
  also have "sgn (int_val b) * ?B = int_val b" using B by (rule sym)
  finally have bal: "int_val a = sgn (int_val a) * sgn (int_val b) * int (int_mag a div int_mag b) * int_val b
      + sgn (int_val a) * int (int_mag a mod int_mag b)"
    by (simp only: zdiv_int zmod_int)
  have pos: "0 < int_mag b" using int_mag_pos assms(2,3) by simp
  have small: "\<bar>sgn (int_val a) * int (int_mag a mod int_mag b)\<bar> < \<bar>int_val b\<bar>"
  proof -
    have "\<bar>sgn (int_val a) * int (int_mag a mod int_mag b)\<bar> \<le> int (int_mag a mod int_mag b)"
      by (simp add: abs_mult abs_sgn_eq)
    also have "\<dots> < \<bar>int_val b\<bar>" unfolding abs_int_val using pos by simp
    finally show ?thesis .
  qed
  have sg: "sgn (int_val a) * int (int_mag a mod int_mag b) = 0
      \<or> sgn (sgn (int_val a) * int (int_mag a mod int_mag b)) = sgn (int_val a)"
    by (cases "int_mag a mod int_mag b = 0") (simp_all add: sgn_mult)
  show thesis by (rule that [OF zr bal small sg])
qed

lemma int_divmod_spec:
  assumes "int_ok a" "int_ok b" "ob_size b \<noteq> 0"
  obtains z r where "int_divmod a b = Inr (z, r)"
    "represents z (int_val a div int_val b)" "represents r (int_val a mod int_val b)"
proof -
  obtain z r q k where zr: "int_divrem a b = Inr (z, r)" "represents z q" "represents r k"
    "int_val a = q * int_val b + k" "\<bar>k\<bar> < \<bar>int_val b\<bar>"
    by (rule int_divrem_balance [OF assms])
  have b0: "int_val b \<noteq> 0" using assms(2,3) by (simp add: int_val_eq_0_iff)
  have ok: "int_ok z" "int_ok r" and v: "int_val z = q" "int_val r = k"
    using zr(2,3) by (simp_all add: represents_def)
  let ?fix = "(ob_size r < 0 \<and> ob_size b > 0) \<or> (ob_size r > 0 \<and> ob_size b < 0)"
  have fix_iff: "?fix \<longleftrightarrow> (k < 0 \<and> 0 < int_val b) \<or> (0 < k \<and> int_val b < 0)"
    using ok(2) assms(2) v(2) by (simp add: int_val_less_0_iff [symmetric] int_val_greater_0_iff [symmetric])
  have unf: "int_divmod a b = Inr (if ?fix then (int_sub z DeeInt_One, int_add r b) else (z, r))"
    by (simp add: int_divmod_def zr(1))
  show thesis
  proof (cases ?fix)
    case True
    then have "int_val a div int_val b = q - 1" "int_val a mod int_val b = k + int_val b"
      using floor_of_truncated(1) [OF b0 zr(4,5)] fix_iff by simp_all
    moreover have "represents (int_sub z DeeInt_One) (q - 1)" "represents (int_add r b) (k + int_val b)"
      using represents_int_sub [OF ok(1), of DeeInt_One] represents_int_add [OF ok(2) assms(2)] represents_One v
      by (simp_all add: represents_def)
    ultimately show thesis using that [of "int_sub z DeeInt_One" "int_add r b"] unf True by simp
  next
    case False
    then have "int_val a div int_val b = q" "int_val a mod int_val b = k"
      using floor_of_truncated(2) [OF b0 zr(4,5)] fix_iff by simp_all
    then show thesis using that [of z r] zr(2,3) unf False by simp
  qed
qed

section \<open>Properties\<close>

text \<open>
  Knuth's algorithm D on any dividend and any divisor of two or more digits: the quotient
  digit estimate, the add-back step and the normalizing shift together yield the exact quotient
  and remainder of the magnitudes.
\<close>

lemma x_divrem_correct:
  assumes "int_ok v" "int_ok w" "2 \<le> \<bar>ob_size w\<bar>" "\<bar>ob_size w\<bar> \<le> \<bar>ob_size v\<bar>"
  shows "represents (fst (x_divrem v w)) (int (int_mag v div int_mag w))
    \<and> represents (snd (x_divrem v w)) (int (int_mag v mod int_mag w))"
  using x_divrem_spec [OF assms, of "fst (x_divrem v w)" "snd (x_divrem v w)"] by simp

lemma int_divrem_spec:
  assumes "int_ok a" "int_ok b"
  shows "case int_divrem a b of
      Inl e \<Rightarrow> e = DivideByZero \<and> int_val b = 0
    | Inr (q, r) \<Rightarrow> int_val b \<noteq> 0 \<and> int_ok q \<and> int_ok r
        \<and> int_val a = int_val q * int_val b + int_val r
        \<and> \<bar>int_val r\<bar> < \<bar>int_val b\<bar>
        \<and> (int_val r = 0 \<or> sgn (int_val r) = sgn (int_val a))"
proof (cases "ob_size b = 0")
  case True
  then show ?thesis using int_divrem_by_zero assms(2) by (simp add: int_val_eq_0_iff)
next
  case False
  then show ?thesis
    by (rule int_divrem_balance [OF assms]) (use False assms(2) in \<open>auto simp: represents_def int_val_eq_0_iff\<close>)
qed

lemma int_div_mod_spec:
  assumes "int_ok a" "int_ok b"
  shows "if int_val b = 0
    then int_div a b = Inl DivideByZero \<and> int_mod a b = Inl DivideByZero
    else \<exists>q r. int_div a b = Inr q \<and> int_mod a b = Inr r
      \<and> represents q (int_val a div int_val b) \<and> represents r (int_val a mod int_val b)"
proof (cases "ob_size b = 0")
  case True
  then show ?thesis using int_divrem_by_zero assms(2)
    by (simp add: int_val_eq_0_iff int_div_def int_mod_def int_divmod_def)
next
  case False
  obtain z r where "int_divmod a b = Inr (z, r)"
    "represents z (int_val a div int_val b)" "represents r (int_val a mod int_val b)"
    by (rule int_divmod_spec [OF assms False])
  then show ?thesis using False assms(2)
    by (simp add: int_val_eq_0_iff int_div_def int_mod_def)
qed

text \<open>
  C3: The division operators fail exactly on a zero divisor.  Otherwise \<open>int_div\<close> and \<open>int_mod\<close>
  return the well-formed floored quotient and the remainder that has the sign of the divisor, and
  \<open>int_divrem\<close> truncates towards zero: quotient and remainder are well-formed and add up to the
  dividend, and the remainder is smaller than the divisor in magnitude and is zero or has the sign
  of the dividend.
\<close>

theorem int_division_correct:
  assumes "int_ok a" "int_ok b"
  shows "(if int_val b = 0
      then int_div a b = Inl DivideByZero \<and> int_mod a b = Inl DivideByZero
      else \<exists>q r. int_div a b = Inr q \<and> int_mod a b = Inr r
        \<and> represents q (int_val a div int_val b) \<and> represents r (int_val a mod int_val b))
    \<and> (case int_divrem a b of
        Inl e \<Rightarrow> e = DivideByZero \<and> int_val b = 0
      | Inr (q, r) \<Rightarrow> int_val b \<noteq> 0 \<and> int_ok q \<and> int_ok r
          \<and> int_val a = int_val q * int_val b + int_val r
          \<and> \<bar>int_val r\<bar> < \<bar>int_val b\<bar>
          \<and> (int_val r = 0 \<or> sgn (int_val r) = sgn (int_val a)))"
  by (rule conjI [OF int_div_mod_spec [OF assms] int_divrem_spec [OF assms]])

theorem int_division_correct_witness:
  "\<exists>q. int_div \<lparr>ob_size = -1, ob_digit = [7]\<rparr> \<lparr>ob_size = 1, ob_digit = [2]\<rparr> = Inr q \<and> int_val q = -4"
  using int_division_correct [of "\<lparr>ob_size = -1, ob_digit = [7]\<rparr>" "\<lparr>ob_size = 1, ob_digit = [2]\<rparr>"]
  by (auto simp: int_eval)

end
