(* ===== verification/IntMul.thy ===== *)
theory IntMul
  imports IntAddSub
begin

text \<open>
  Multiplication (src/deemon/objects/int_logic.c): the schoolbook product \<open>x_mul\<close> with its
  squaring variant, Karatsuba's algorithm \<open>k_mul\<close> with \<open>kmul_split\<close> and \<open>k_lopsided_mul\<close>, the
  operator \<open>int_mul\<close> and the power \<open>int_pow\<close>.  Where the code compares the operands as pointers
  (\<open>a == b\<close>, to square) the model takes the outcome as the argument \<open>same\<close>; the theorems assume
  that it is only set for equal operands.  The checks for thread interrupts
  (\<open>DeeThread_CheckInterrupt\<close>, \<open>SIGCHECK\<close>) are taken not to fire.
\<close>

section \<open>Schoolbook multiplication\<close>

text \<open>
  One row of the product, at \<open>pz = z->ob_digit + i\<close>: add \<open>f * b\<close> to the digits at \<open>pz\<close> and store
  the carry in the digit after them.  Past the end of \<open>z\<close> nothing is written.
\<close>

fun x_mul_row :: "twodigits \<Rightarrow> twodigits \<Rightarrow> digit list \<Rightarrow> digit list \<Rightarrow> digit list" where
  "x_mul_row carry f (z # pz) (b # pb) =
     (let carry = carry + (ucast z + ucast b * f)
      in ucast (carry AND ucast DIGIT_MASK) # x_mul_row (drop_bit DIGIT_BITS carry) f pz pb)"
| "x_mul_row carry f (z # pz) [] =
     (if carry \<noteq> 0 then (z + ucast (carry AND ucast DIGIT_MASK)) # pz else z # pz)"
| "x_mul_row carry f [] pb = []"

fun x_mul_loop :: "digit list \<Rightarrow> digit list \<Rightarrow> digit list \<Rightarrow> digit list" where
  "x_mul_loop [] b z = z"
| "x_mul_loop (a # as) b z =
     (let z = x_mul_row 0 (ucast a) z b
      in take 1 z @ x_mul_loop as b (drop 1 z))"

text \<open>
  The row of the squaring loop, at \<open>pz = z->ob_digit + (i << 1)\<close>: the square of the digit, then
  twice its product with the digits above it, then up to two steps for the carry.
\<close>

fun x_sqr_row :: "twodigits \<Rightarrow> twodigits \<Rightarrow> digit list \<Rightarrow> digit list \<Rightarrow> digit list" where
  "x_sqr_row carry f (z # pz) (a # pa) =
     (let carry = carry + (ucast z + ucast a * f)
      in ucast (carry AND ucast DIGIT_MASK) # x_sqr_row (drop_bit DIGIT_BITS carry) f pz pa)"
| "x_sqr_row carry f (z # pz) [] =
     (if carry \<noteq> 0 then
        let carry = carry + ucast z;
            rest = drop_bit DIGIT_BITS carry
        in ucast (carry AND ucast DIGIT_MASK)
           # (case pz of
                [] \<Rightarrow> []
              | z' # pz' \<Rightarrow>
                  (if rest \<noteq> 0 then z' + ucast (rest AND ucast DIGIT_MASK) else z') # pz')
      else z # pz)"
| "x_sqr_row carry f [] pa = []"

fun x_sqr_loop :: "digit list \<Rightarrow> digit list \<Rightarrow> digit list" where
  "x_sqr_loop [] z = z"
| "x_sqr_loop (a # pa) z =
     (let f = ucast a;
          carry = ucast (hd z) + f * f;
          z = ucast (carry AND ucast DIGIT_MASK)
              # x_sqr_row (drop_bit DIGIT_BITS carry) (push_bit 1 f) (tl z) pa
      in take 2 z @ x_sqr_loop pa (drop 2 z))"

definition x_mul :: "bool \<Rightarrow> DeeInt \<Rightarrow> DeeInt \<Rightarrow> DeeInt" where
  "x_mul same a b =
     (let z = replicate (nat \<bar>ob_size a\<bar> + nat \<bar>ob_size b\<bar>) 0
      in int_normalize (DeeInt_Alloc
           (if same then x_sqr_loop (digits a) z
            else x_mul_loop (digits a) (digits b) z)))"

section \<open>Karatsuba multiplication\<close>

definition KARATSUBA_CUTOFF :: int where
  "KARATSUBA_CUTOFF = 70"

definition KARATSUBA_SQUARE_CUTOFF :: int where
  "KARATSUBA_SQUARE_CUTOFF = 2 * KARATSUBA_CUTOFF"

text \<open>\<open>(high, low)\<close>\<close>

definition kmul_split :: "DeeInt \<Rightarrow> int \<Rightarrow> DeeInt \<times> DeeInt" where
  "kmul_split n lo_size =
     (let size_lo = nat (min \<bar>ob_size n\<bar> lo_size)
      in (int_normalize (DeeInt_Alloc (drop size_lo (digits n))),
          int_normalize (DeeInt_Alloc (take size_lo (digits n)))))"

text \<open>
  The combination of the three partial products.  \<open>ret\<close> starts as \<open>t1\<close> placed at digit
  \<open>2 * shift\<close> above \<open>t2\<close> at digit 0, zero-filled; then \<open>t2\<close> and \<open>t1\<close> are subtracted and
  \<open>t3\<close> is added in place at digit \<open>shift\<close>, dropping borrows and carries out of the top.
\<close>

definition k_combine :: "nat \<Rightarrow> nat \<Rightarrow> digit list \<Rightarrow> digit list \<Rightarrow> digit list \<Rightarrow> digit list" where
  "k_combine ret_size shift t1 t2 t3 =
     (let ret = t2 @ replicate (2 * shift - length t2) 0
                @ t1 @ replicate (ret_size - 2 * shift - length t1) 0;
          hi = drop shift ret;
          hi = fst (v_isub hi t2);
          hi = fst (v_isub hi t1);
          hi = fst (v_iadd hi t3)
      in take shift ret @ hi)"

lemma abs_ob_size_Alloc: "\<bar>ob_size (DeeInt_Alloc ds)\<bar> = int (length ds)"
  by simp

lemma size_normalize_Alloc: "nat \<bar>ob_size (int_normalize (DeeInt_Alloc ds))\<bar> \<le> length ds"
  using int_normalize_size_le [of "DeeInt_Alloc ds"] by (simp add: nat_le_iff)

lemma kmul_split_size:
  assumes "kmul_split n lo_size = (hi, lo)"
  shows "nat \<bar>ob_size hi\<bar> \<le> nat \<bar>ob_size n\<bar> - nat (min \<bar>ob_size n\<bar> lo_size)"
    and "nat \<bar>ob_size lo\<bar> \<le> nat (min \<bar>ob_size n\<bar> lo_size)"
proof -
  let ?lo = "nat (min \<bar>ob_size n\<bar> lo_size)"
  have "length (digits n) \<le> nat \<bar>ob_size n\<bar>" by (simp add: digits_def)
  then have "length (drop ?lo (digits n)) \<le> nat \<bar>ob_size n\<bar> - ?lo" "length (take ?lo (digits n)) \<le> ?lo"
    by (simp_all add: diff_le_mono)
  moreover have "hi = int_normalize (DeeInt_Alloc (drop ?lo (digits n)))"
    and "lo = int_normalize (DeeInt_Alloc (take ?lo (digits n)))"
    using assms by (simp_all only: kmul_split_def Let_def prod.inject)
  ultimately show "nat \<bar>ob_size hi\<bar> \<le> nat \<bar>ob_size n\<bar> - ?lo" "nat \<bar>ob_size lo\<bar> \<le> ?lo"
    using size_normalize_Alloc order_trans by blast+
qed

lemma length_x_add_loop: "length (x_add_loop c as bs) = Suc (length as)"
  by (induction c as bs rule: x_add_loop.induct) (simp_all add: Let_def)

lemma x_add_size: "nat \<bar>ob_size (x_add a b)\<bar> \<le> Suc (max (nat \<bar>ob_size a\<bar>) (nat \<bar>ob_size b\<bar>))"
proof -
  obtain as bs where unf: "x_add a b = int_normalize (DeeInt_Alloc (x_add_loop 0 as bs))"
    and as: "as = digits a \<or> as = digits b"
    by (cases "\<bar>ob_size a\<bar> < \<bar>ob_size b\<bar>") (auto simp: x_add_def)
  have l: "length (digits x) \<le> nat \<bar>ob_size x\<bar>" for x by (simp add: digits_def)
  have "length as \<le> max (nat \<bar>ob_size a\<bar>) (nat \<bar>ob_size b\<bar>)"
    using as l [of a] l [of b] by fastforce
  then show ?thesis
    using size_normalize_Alloc [of "x_add_loop 0 as bs"] unf by (simp add: length_x_add_loop)
qed

lemma karatsuba_arith:
  fixes A B s ah al bh bl sa sb :: nat
  assumes "70 < A" "A \<le> B" "B < 2 * A" "s = B div 2"
    and "ah \<le> A - s" "al \<le> s" "bh \<le> B - s" "bl \<le> s"
    and "sa \<le> Suc (max ah al)" "sb \<le> Suc (max bh bl)"
  shows "ah + bh < A + B" "al + bl < A + B" "sa + sb < A + B" "sa + sa < A + B"
proof -
  have s1: "1 < s" "s < A" "Suc s < B" "2 * s \<le> B" using assms(1-4) by linarith+
  show "ah + bh < A + B" "al + bl < A + B" using s1 assms(5-8) by linarith+
  have "ah < A" "al < A" "ah < B - 1" "al < B - 1" "bh < B - 1" "bl < B - 1"
    using s1 assms(2,5-8) by linarith+
  then have "max ah al < A" "max ah al < B - 1" "max bh bl < B - 1"
    by (simp_all only: max_less_iff_conj simp_thms)
  then have "sa \<le> A" "sa < B" "sb < B" using assms(9,10) by linarith+
  then show "sa + sb < A + B" "sa + sa < A + B" by linarith+
qed

text \<open>The operands of the three recursive products are smaller than those of the product.\<close>

lemma karatsuba_sizes:
  fixes a b :: DeeInt
  defines "A \<equiv> nat \<bar>ob_size a\<bar>" and "B \<equiv> nat \<bar>ob_size b\<bar>"
  assumes split: "(ah, al) = kmul_split a (\<bar>ob_size b\<bar> div 2)"
    "(bh, bl) = (if same then kmul_split a (\<bar>ob_size b\<bar> div 2) else kmul_split b (\<bar>ob_size b\<bar> div 2))"
    and size: "70 < \<bar>ob_size a\<bar>" "\<bar>ob_size a\<bar> \<le> \<bar>ob_size b\<bar>" "\<not> 2 * \<bar>ob_size a\<bar> \<le> \<bar>ob_size b\<bar>"
  shows "nat \<bar>ob_size ah\<bar> + nat \<bar>ob_size bh\<bar> < A + B"
    and "nat \<bar>ob_size al\<bar> + nat \<bar>ob_size bl\<bar> < A + B"
    and "nat \<bar>ob_size (x_add ah al)\<bar> + nat \<bar>ob_size (if same then x_add ah al else x_add bh bl)\<bar> < A + B"
proof -
  define s where "s = B div 2"
  have s: "nat (\<bar>ob_size b\<bar> div 2) = s" by (simp add: s_def B_def nat_div_distrib)
  have AB: "70 < A" "A \<le> B" "B < 2 * A" using size by (simp_all add: A_def B_def)
  have m: "nat (min \<bar>ob_size a\<bar> (\<bar>ob_size b\<bar> div 2)) = s" "nat (min \<bar>ob_size b\<bar> (\<bar>ob_size b\<bar> div 2)) = s"
  proof -
    have "s < A" "s < B" using AB unfolding s_def by linarith+
    then have "\<bar>ob_size b\<bar> div 2 < \<bar>ob_size a\<bar>" "\<bar>ob_size b\<bar> div 2 < \<bar>ob_size b\<bar>"
      unfolding s [symmetric] A_def B_def by linarith+
    then show "nat (min \<bar>ob_size a\<bar> (\<bar>ob_size b\<bar> div 2)) = s"
      and "nat (min \<bar>ob_size b\<bar> (\<bar>ob_size b\<bar> div 2)) = s"
      using s by (simp_all add: min_def)
  qed
  have a: "nat \<bar>ob_size ah\<bar> \<le> A - s" "nat \<bar>ob_size al\<bar> \<le> s"
    using kmul_split_size [OF split(1) [symmetric]] by (simp_all only: m A_def)
  have bb: "nat \<bar>ob_size bh\<bar> \<le> B - s \<and> nat \<bar>ob_size bl\<bar> \<le> s"
  proof (cases same)
    case True
    then have "(bh, bl) = (ah, al)" using split by (simp only: if_True)
    then have "bh = ah" "bl = al" by simp_all
    moreover have "A - s \<le> B - s" using AB(2) by (rule diff_le_mono)
    ultimately show ?thesis using order_trans [OF a(1)] a(2) by simp
  next
    case False
    then have "kmul_split b (\<bar>ob_size b\<bar> div 2) = (bh, bl)" using split(2) by simp
    from kmul_split_size [OF this] show ?thesis by (simp only: m B_def)
  qed
  note arith = karatsuba_arith [OF AB s_def a conjunct1 [OF bb] conjunct2 [OF bb]
      x_add_size [of ah al] x_add_size [of bh bl]]
  show "nat \<bar>ob_size ah\<bar> + nat \<bar>ob_size bh\<bar> < A + B"
    and "nat \<bar>ob_size al\<bar> + nat \<bar>ob_size bl\<bar> < A + B"
    by (rule arith)+
  show "nat \<bar>ob_size (x_add ah al)\<bar> + nat \<bar>ob_size (if same then x_add ah al else x_add bh bl)\<bar> < A + B"
    by (cases same) (simp_all only: if_True if_False arith)
qed

text \<open>
  \<open>k_mul\<close> and the loop of \<open>k_lopsided_mul\<close>, which cuts the longer operand into slices of the size
  of the shorter one.  The loop starts with \<open>ASSERT(asize > KARATSUBA_CUTOFF)\<close>; where that fails
  the model stops.
\<close>

function k_mul :: "bool \<Rightarrow> DeeInt \<Rightarrow> DeeInt \<Rightarrow> DeeInt"
  and k_lopsided_loop :: "DeeInt \<Rightarrow> digit list \<Rightarrow> digit list \<Rightarrow> digit list" where
  "k_mul same a0 b0 =
     (let (a, b) = (if \<bar>ob_size a0\<bar> > \<bar>ob_size b0\<bar> then (b0, a0) else (a0, b0));
          asize = \<bar>ob_size a\<bar>;
          bsize = \<bar>ob_size b\<bar>
      in if asize \<le> (if same then KARATSUBA_SQUARE_CUTOFF else KARATSUBA_CUTOFF) then
           (if asize = 0 then DeeInt_Zero else x_mul same a b)
         else if 2 * asize \<le> bsize then
           int_normalize (DeeInt_Alloc
             (k_lopsided_loop a (digits b) (replicate (nat asize + nat bsize) 0)))
         else
           (let shift = bsize div 2;
                (ah, al) = kmul_split a shift;
                (bh, bl) = (if same then (ah, al) else kmul_split b shift);
                t1 = k_mul same ah bh;
                t2 = k_mul same al bl;
                s1 = x_add ah al;
                s2 = (if same then s1 else x_add bh bl);
                t3 = k_mul same s1 s2
            in int_normalize (DeeInt_Alloc
                 (k_combine (nat asize + nat bsize) (nat shift) (digits t1) (digits t2) (digits t3)))))"
| "k_lopsided_loop a bs ret =
     (if bs = [] \<or> \<bar>ob_size a\<bar> \<le> KARATSUBA_CUTOFF then ret
      else let nbtouse = min (length bs) (nat \<bar>ob_size a\<bar>);
               product = k_mul False a (DeeInt_Alloc (take nbtouse bs));
               ret = fst (v_iadd ret (digits product))
           in take nbtouse ret @ k_lopsided_loop a (drop nbtouse bs) (drop nbtouse ret))"
  by pat_completeness (auto simp only: sum.inject prod.inject sum.distinct)


definition k_measure :: "(bool \<times> DeeInt \<times> DeeInt) + (DeeInt \<times> digit list \<times> digit list) \<Rightarrow> nat \<times> nat \<times> nat" where
  "k_measure x =
     (case x of
        Inl (same, a, b) \<Rightarrow> (nat \<bar>ob_size a\<bar> + nat \<bar>ob_size b\<bar>, 0, 0)
      | Inr (a, bs, ret) \<Rightarrow> (nat \<bar>ob_size a\<bar> + min (length bs) (nat \<bar>ob_size a\<bar>), 1, length bs))"

lemma k_swap:
  assumes "(a, b) = (if \<bar>ob_size b0\<bar> < \<bar>ob_size a0\<bar> then (b0, a0) else (a0, b0))"
  shows "\<bar>ob_size a\<bar> \<le> \<bar>ob_size b\<bar>"
    and "nat \<bar>ob_size a0\<bar> + nat \<bar>ob_size b0\<bar> = nat \<bar>ob_size a\<bar> + nat \<bar>ob_size b\<bar>"
  using assms by (auto split: if_splits)

lemma k_cutoff:
  assumes "\<not> x \<le> (if same then KARATSUBA_SQUARE_CUTOFF else KARATSUBA_CUTOFF)"
  shows "70 < x"
  using assms by (simp add: KARATSUBA_CUTOFF_def KARATSUBA_SQUARE_CUTOFF_def split: if_splits)

lemma lex_first: "x < y \<Longrightarrow> ((x, u), (y, v)) \<in> less_than <*lex*> r"
  by simp

termination k_mul
proof (relation "inv_image (less_than <*lex*> less_than <*lex*> less_than) k_measure",
    simp_all only: in_inv_image k_measure_def sum.case prod.case, goal_cases)
  case 1
  show ?case by (intro wf_inv_image wf_lex_prod wf_less_than)
next
  case (2 same a0 b0 x a b)
  have "nat \<bar>ob_size a\<bar> + min (length (digits b)) (nat \<bar>ob_size a\<bar>) \<le> 2 * nat \<bar>ob_size a\<bar>"
    unfolding mult_2 by (intro add_left_mono min.cobounded2)
  also have "\<dots> < nat \<bar>ob_size a\<bar> + nat \<bar>ob_size b\<bar>"
    using 2 k_cutoff [OF 2(5)] by linarith
  finally show ?case unfolding k_swap(2) [OF 2(2)] by (rule lex_first)
next
  case 3
  show ?case
    unfolding k_swap(2) [OF 3(2)]
    by (rule lex_first) (rule karatsuba_sizes(1) [OF 3(9) 3(11) k_cutoff [OF 3(5)] k_swap(1) [OF 3(2)] 3(6)])
next
  case 4
  show ?case
    unfolding k_swap(2) [OF 4(2)]
    by (rule lex_first) (rule karatsuba_sizes(2) [OF 4(9) 4(11) k_cutoff [OF 4(5)] k_swap(1) [OF 4(2)] 4(6)])
next
  case 5
  show ?case
    unfolding k_swap(2) [OF 5(2)]
    by (rule lex_first) (rule karatsuba_sizes(3) [OF 5(9) 5(11) k_cutoff [OF 5(5)] k_swap(1) [OF 5(2)] 5(6)])
next
  case 6
  then show ?case by (simp add: min_def)
next
  case (7 a bs)
  define A n where "A = nat \<bar>ob_size a\<bar>" and "n = min (length bs) A"
  have "0 < length bs" "0 < A"
    using 7(1) by (auto simp: A_def KARATSUBA_CUTOFF_def)
  then have n: "length bs - n < length bs" by (simp add: n_def)
  then have "min (length bs - n) A \<le> min (length bs) A" by simp
  then have le: "min (length bs - n) A \<le> n" by (simp only: n_def)
  show ?case
    unfolding A_def [symmetric] n_def [symmetric] length_drop
    using le n by (cases "min (length bs - n) A = n") simp_all
qed

declare k_mul.simps [simp del] k_lopsided_loop.simps [simp del]

section \<open>Correctness of schoolbook multiplication\<close>

text \<open>One multiply-accumulate step, as long as it fits 64 bits.\<close>

lemma mac_step:
  fixes c f :: twodigits and z b :: digit
  assumes "unat c + unat z + unat b * unat f < 2 ^ 64"
  defines "s \<equiv> c + (ucast z + ucast b * f)"
  shows "unat s = unat c + unat z + unat b * unat f"
proof -
  have 1: "unat (ucast b * f) = unat b * unat f"
    using assms(1) by (subst unat_mult_no_wrap) (simp_all add: unat_ucast_up)
  have 2: "unat (ucast z + ucast b * f) = unat z + unat b * unat f"
    using assms(1) 1 by (subst unat_add_no_wrap) (simp_all add: unat_ucast_up)
  show ?thesis unfolding s_def using assms(1) 2 by (subst unat_add_no_wrap) simp_all
qed

lemma low_digit:
  fixes s :: twodigits
  shows "unat (ucast (s AND ucast DIGIT_MASK) :: digit) = unat s mod BASE"
    and "unat (drop_bit DIGIT_BITS s) = unat s div BASE"
proof -
  have "(ucast DIGIT_MASK :: twodigits) = mask DIGIT_BITS"
    by (simp add: DIGIT_MASK_num DIGIT_BITS_def mask_numeral)
  then show "unat (ucast (s AND ucast DIGIT_MASK) :: digit) = unat s mod BASE"
    by (simp add: word_nat BASE_num)
  show "unat (drop_bit DIGIT_BITS s) = unat s div BASE" by (simp add: word_nat)
qed

lemma digit_product_bound:
  fixes c z b f k :: nat
  assumes "c < k * BASE" "z < BASE" "b < BASE" "f < k * BASE" "0 < k"
  shows "c + z + b * f < k * BASE * BASE"
proof -
  obtain B' where B: "BASE = Suc B'" using BASE_pos(1) gr0_conv_Suc by blast
  obtain K where K: "k * BASE = Suc K" using assms(4) gr0_conv_Suc by (metis not_less_zero neq0_conv)
  have "b * f \<le> (BASE - 1) * (k * BASE - 1)" using assms by (intro mult_le_mono) simp_all
  moreover have "BASE - 1 = B'" "k * BASE - 1 = K" using B K by linarith+
  ultimately have "b * f \<le> B' * K" by (simp only:)
  moreover have "c \<le> K" "z \<le> B'" using assms B K by simp_all
  moreover have "k * BASE * BASE = Suc K * Suc B'" using K B by simp
  ultimately show ?thesis by (simp add: mult.commute)
qed

lemma x_mul_row_spec:
  assumes "unat f < BASE" "unat c < BASE" "digits_ok z" "digits_ok b" "length b < length z"
    "z ! length b = 0"
  shows "dval (x_mul_row c f z b) = dval z + unat f * dval b + unat c
    \<and> digits_ok (x_mul_row c f z b) \<and> length (x_mul_row c f z b) = length z
    \<and> drop (Suc (length b)) (x_mul_row c f z b) = drop (Suc (length b)) z"
  using assms
proof (induction c f z b rule: x_mul_row.induct)
  case (1 c f z pz b pb)
  define s where "s = c + (ucast z + ucast b * f)"
  have bound: "unat c + unat z + unat b * unat f < BASE * BASE"
    using digit_product_bound [of "unat c" 1] 1(2-5) by simp
  then have s: "unat s = unat c + unat z + unat b * unat f"
    unfolding s_def by (intro mac_step) (simp add: BASE_num)
  have c': "unat (drop_bit DIGIT_BITS s) < BASE"
    using bound s by (simp add: low_digit less_mult_imp_div_less)
  have IH: "dval (x_mul_row (drop_bit DIGIT_BITS s) f pz pb) = dval pz + unat f * dval pb + unat s div BASE
    \<and> digits_ok (x_mul_row (drop_bit DIGIT_BITS s) f pz pb)
    \<and> length (x_mul_row (drop_bit DIGIT_BITS s) f pz pb) = length pz
    \<and> drop (Suc (length pb)) (x_mul_row (drop_bit DIGIT_BITS s) f pz pb) = drop (Suc (length pb)) pz"
    using "1.IH" [OF s_def] 1(2-) c' by (simp add: low_digit)
  have sd: "unat s mod BASE + BASE * (unat s div BASE) = unat c + unat z + unat b * unat f"
    using s by simp
  have row: "x_mul_row c f (z # pz) (b # pb)
      = ucast (s AND ucast DIGIT_MASK) # x_mul_row (drop_bit DIGIT_BITS s) f pz pb"
    by (simp only: x_mul_row.simps Let_def s_def)
  show ?case unfolding row using IH sd by (simp add: low_digit distrib_left mult.commute)
next
  case (2 c f z pz)
  then have z: "z = 0" by simp
  have "unat (ucast (c AND ucast DIGIT_MASK) :: digit) = unat c" using 2(2) by (simp add: low_digit)
  then show ?case using 2 z by simp
qed simp

lemma x_mul_loop_spec:
  assumes "digits_ok as" "digits_ok b" "digits_ok z" "length z = length as + length b"
    "\<forall>d \<in> set (drop (length b) z). d = 0"
  shows "dval (x_mul_loop as b z) = dval z + dval as * dval b
    \<and> digits_ok (x_mul_loop as b z) \<and> length (x_mul_loop as b z) = length z"
  using assms
proof (induction as arbitrary: z)
  case Nil
  then show ?case by simp
next
  case (Cons a as)
  define r where "r = x_mul_row 0 (ucast a) z b"
  have "z ! length b = 0"
    using Cons.prems(4,5) by (metis (no_types) Cons_nth_drop_Suc add_gr_0 length_Cons less_add_same_cancel2
        list.set_intros(1) zero_less_Suc)
  then have r: "dval r = dval z + unat a * dval b" "digits_ok r" "length r = length z"
      "drop (Suc (length b)) r = drop (Suc (length b)) z"
    using x_mul_row_spec [of "ucast a" 0 z b] Cons.prems by (simp_all add: r_def unat_ucast_up)
  have "\<forall>d \<in> set (drop (length b) (drop 1 r)). d = 0"
  proof -
    have "drop (length b) (drop 1 r) = drop 1 (drop (length b) z)"
      using r(4) by simp
    then show ?thesis using Cons.prems(5) in_set_dropD by metis
  qed
  then have IH: "dval (x_mul_loop as b (drop 1 r)) = dval (drop 1 r) + dval as * dval b"
    "digits_ok (x_mul_loop as b (drop 1 r))" "length (x_mul_loop as b (drop 1 r)) = length (drop 1 r)"
    using Cons.IH [of "drop 1 r"] Cons.prems r by simp_all
  have "dval (take 1 r @ x_mul_loop as b (drop 1 r))
      = dval (take 1 r) + BASE * dval (drop 1 r) + BASE * dval as * dval b"
    using IH(1) r(3) Cons.prems(4) by (simp add: algebra_simps)
  also have "\<dots> = dval r + BASE * dval as * dval b"
    using dval_take_drop [of r 1] r(3) Cons.prems(4) by simp
  finally show ?case using IH r Cons.prems(4)
    by (simp add: r_def [symmetric] Let_def algebra_simps)
qed

lemma x_sqr_row_spec:
  assumes "unat f < 2 * BASE" "unat c < 2 * BASE" "digits_ok z" "digits_ok pa" "length pa < length z"
    "dval (drop (length pa) z) \<le> 1" "dval z + unat f * dval pa + unat c < BASE ^ length z"
  shows "dval (x_sqr_row c f z pa) = dval z + unat f * dval pa + unat c
    \<and> digits_ok (x_sqr_row c f z pa) \<and> length (x_sqr_row c f z pa) = length z"
  using assms
proof (induction c f z pa rule: x_sqr_row.induct)
  case (1 c f z pz a pa)
  define s where "s = c + (ucast z + ucast a * f)"
  have bound: "unat c + unat z + unat a * unat f < 2 * BASE * BASE"
    using digit_product_bound [of "unat c" 2] 1(2-5) by simp
  then have s: "unat s = unat c + unat z + unat a * unat f"
    unfolding s_def by (intro mac_step) (simp add: BASE_num)
  have c': "unat (drop_bit DIGIT_BITS s) < 2 * BASE"
    using bound s by (simp add: low_digit less_mult_imp_div_less)
  have sd: "unat s mod BASE + BASE * (unat s div BASE) = unat c + unat z + unat a * unat f"
    using s by simp
  have "BASE * (dval pz + unat f * dval pa + unat s div BASE) \<le> dval (z # pz) + unat f * dval (a # pa) + unat c"
    using sd by (simp add: algebra_simps)
  also have "\<dots> < BASE * BASE ^ length pz" using 1(8) by simp
  finally have fit: "dval pz + unat f * dval pa + unat s div BASE < BASE ^ length pz" by simp
  have IH: "dval (x_sqr_row (drop_bit DIGIT_BITS s) f pz pa) = dval pz + unat f * dval pa + unat s div BASE
    \<and> digits_ok (x_sqr_row (drop_bit DIGIT_BITS s) f pz pa)
    \<and> length (x_sqr_row (drop_bit DIGIT_BITS s) f pz pa) = length pz"
    using "1.IH" [OF s_def] 1(2-) c' fit by (simp add: low_digit)
  have row: "x_sqr_row c f (z # pz) (a # pa)
      = ucast (s AND ucast DIGIT_MASK) # x_sqr_row (drop_bit DIGIT_BITS s) f pz pa"
    by (simp only: x_sqr_row.simps Let_def s_def)
  show ?case unfolding row using IH sd by (simp add: low_digit distrib_left mult.commute)
next
  case (2 c f z pz)
  show ?case
  proof (cases "c = 0")
    case True
    then show ?thesis using 2 by simp
  next
    case False
    define s where "s = c + ucast z"
    have z: "unat z \<le> 1" using 2(6) by simp
    have s: "unat s = unat c + unat z"
      unfolding s_def using 2(2) z by (subst unat_add_no_wrap) (simp_all add: unat_ucast_up BASE_num)
    obtain q r where qr: "unat s div BASE = q" "unat s mod BASE = r" "r + BASE * q = unat c + unat z"
      using s mod_mult_div_eq by metis
    show ?thesis
    proof (cases pz)
      case Nil
      then have "unat s < BASE" using 2(7) s by simp
      then show ?thesis using False Nil s by (simp add: s_def [symmetric] low_digit Let_def)
    next
      case (Cons z' pz')
      have z0: "unat z' = 0" "dval pz' = 0"
      proof -
        have "BASE * dval pz \<le> 1" using 2(6) by simp
        then have "dval pz = 0" using BASE_num by (cases "dval pz") simp_all
        then show "unat z' = 0" "dval pz' = 0" using Cons by simp_all
      qed
      then have z': "z' = 0" by (simp add: unat_eq_zero)
      have "unat s < 3 * BASE" using s 2(2) z BASE_num by simp
      then have rest: "q < BASE" unfolding qr(1) [symmetric] by (simp add: less_mult_imp_div_less BASE_num)
      have r: "unat (ucast (drop_bit DIGIT_BITS s AND ucast DIGIT_MASK) :: digit) = q"
        using rest by (simp add: low_digit qr)
      have d0: "q = 0" if "drop_bit DIGIT_BITS s = 0"
        using that low_digit(2) [of s] qr(1) by simp
      have lo: "unat (ucast (s AND ucast DIGIT_MASK) :: digit) = r" "r < BASE"
        using qr(2) by (auto simp: low_digit)
      have row: "x_sqr_row c f (z # pz) [] = ucast (s AND ucast DIGIT_MASK)
          # (if drop_bit DIGIT_BITS s \<noteq> 0 then z' + ucast (drop_bit DIGIT_BITS s AND ucast DIGIT_MASK) else z')
          # pz'"
        using False Cons by (simp add: s_def Let_def)
      show ?thesis unfolding row using Cons z' z0 r rest qr(3) lo d0 2(3)
        by (cases "drop_bit DIGIT_BITS s = 0") simp_all
    qed
  qed
qed simp

text \<open>
  The squaring loop: a digit contributes its square and twice its product with the digits above
  it.  While the loop runs, only one bit is set above the digits it has reached.
\<close>

lemma dval_drop_le_1:
  assumes "digits_ok z" "dval z < 2 * BASE ^ n" "n \<le> length z"
  shows "dval (drop n z) \<le> 1"
proof -
  have "BASE ^ n * dval (drop n z) \<le> dval z"
    using dval_take_drop [of z n] assms(3) by (simp add: min_absorb2)
  with assms(2) have "BASE ^ n * dval (drop n z) < BASE ^ n * 2" by linarith
  then have "dval (drop n z) < 2" unfolding mult_less_cancel1 by simp
  then show ?thesis by simp
qed

lemma x_sqr_loop_spec:
  assumes "digits_ok as" "digits_ok z" "length z = 2 * length as" "dval z < 2 * BASE ^ length as"
    "dval z + dval as * dval as < BASE ^ length z"
  shows "dval (x_sqr_loop as z) = dval z + dval as * dval as
    \<and> digits_ok (x_sqr_loop as z) \<and> length (x_sqr_loop as z) = length z"
  using assms
proof (induction as arbitrary: z)
  case Nil
  then show ?case by simp
next
  case (Cons a pa)
  obtain z0 zt where z: "z = z0 # zt" using Cons.prems(3) by (cases z) auto
  define f where "f = (ucast a :: twodigits)"
  define s where "s = ucast z0 + f * f"
  define r where "r = x_sqr_row (drop_bit DIGIT_BITS s) (push_bit 1 f) zt pa"
  define z1 where "z1 = ucast (s AND ucast DIGIT_MASK) # r"
  have f: "unat f = unat a" by (simp add: f_def unat_ucast_up)
  have a: "unat a < BASE" "unat z0 < BASE" "digits_ok pa" "digits_ok zt"
    using Cons.prems z by simp_all
  have "unat 0 + unat z0 + unat a * unat f < BASE * BASE"
    using digit_product_bound [of 0 1 "unat z0" "unat a" "unat f"] a f by simp
  then have s: "unat s = unat z0 + unat a * unat a" and sb: "unat s < BASE * BASE"
    using mac_step [of 0 z0 a f] by (simp_all add: s_def f_def unat_ucast_up BASE_num)
  have f2: "unat (push_bit 1 f) = 2 * unat a"
    using a(1) f by (subst unat_push_bit_no_wrap) (simp_all add: BASE_num)
  obtain q l where ql: "unat s div BASE = q" "unat s mod BASE = l" "l + BASE * q = unat z0 + unat a * unat a"
    using s mod_mult_div_eq by metis
  have q: "q < BASE" "l < BASE" using ql(1,2) sb by (auto simp: less_mult_imp_div_less)
  have total: "BASE * (dval zt + 2 * unat a * dval pa + q) + l
      = dval z + unat a * (unat a + 2 * BASE * dval pa)"
    using ql(3) by (simp add: z algebra_simps)
  have square: "unat a * (unat a + 2 * BASE * dval pa) + BASE * BASE * (dval pa * dval pa)
      = dval (a # pa) * dval (a # pa)"
    by (simp add: algebra_simps)
  have "BASE * (dval zt + 2 * unat a * dval pa + q) < BASE ^ length z"
    using total square Cons.prems(5) by linarith
  then have fit: "dval zt + 2 * unat a * dval pa + q < BASE ^ length zt" by (simp add: z)
  have low: "dval (drop (length pa) zt) \<le> 1"
    using dval_drop_le_1 [of z "length (a # pa)"] Cons.prems by (simp add: z)
  have r: "dval r = dval zt + 2 * unat a * dval pa + q" "digits_ok r" "length r = length zt"
    using x_sqr_row_spec [of "push_bit 1 f" "drop_bit DIGIT_BITS s" zt pa] a f2 low fit q Cons.prems(3)
    by (simp_all add: r_def low_digit(2) ql(1) z)
  have z1: "dval z1 = dval z + unat a * (unat a + 2 * BASE * dval pa)" "digits_ok z1" "length z1 = length z"
    using total r q by (simp_all add: z1_def low_digit(1) ql(2) z add.commute)
  have two: "2 \<le> length z1" using z1(3) Cons.prems(3) by simp
  have split: "dval z1 = dval (take 2 z1) + BASE * BASE * dval (drop 2 z1)"
    using dval_take_drop [of z1 2] two by (simp add: min_absorb2 power2_eq_square)
  have "unat a + 2 * BASE * dval pa \<le> 2 * dval (a # pa)" by simp
  also have "\<dots> \<le> 2 * BASE ^ length (a # pa)"
    using dval_bound [OF Cons.prems(1)] by linarith
  finally have "unat a * (unat a + 2 * BASE * dval pa) \<le> (BASE - 1) * (2 * BASE ^ length (a # pa))"
    using a(1) by (intro mult_le_mono) simp_all
  then have "dval z1 < 2 * BASE ^ length (a # pa) + (BASE - 1) * (2 * BASE ^ length (a # pa))"
    using z1(1) Cons.prems(4) by linarith
  also have "\<dots> = Suc (BASE - 1) * (2 * BASE ^ length (a # pa))" by (simp only: mult_Suc)
  also have "Suc (BASE - 1) = BASE" by simp
  also have "BASE * (2 * BASE ^ length (a # pa)) = BASE * BASE * (2 * BASE ^ length pa)" by simp
  finally have "BASE * BASE * dval (drop 2 z1) < BASE * BASE * (2 * BASE ^ length pa)"
    using split by linarith
  then have small: "dval (drop 2 z1) < 2 * BASE ^ length pa" by (simp only: mult_less_cancel1)
  have "BASE * BASE * (dval (drop 2 z1) + dval pa * dval pa) < BASE ^ length z"
    using split square z1(1) Cons.prems(5) unfolding distrib_left by linarith
  also have "\<dots> = BASE * BASE * BASE ^ length (drop 2 z1)"
  proof -
    have "length z = Suc (Suc (length (drop 2 z1)))" using two z1(3) by simp
    then show ?thesis by simp
  qed
  finally have fits: "dval (drop 2 z1) + dval pa * dval pa < BASE ^ length (drop 2 z1)"
    by (simp only: mult_less_cancel1)
  have IH: "dval (x_sqr_loop pa (drop 2 z1)) = dval (drop 2 z1) + dval pa * dval pa"
    "digits_ok (x_sqr_loop pa (drop 2 z1))" "length (x_sqr_loop pa (drop 2 z1)) = length (drop 2 z1)"
    using Cons.IH [of "drop 2 z1"] a(3) z1 small fits Cons.prems(3) by simp_all
  have loop: "x_sqr_loop (a # pa) z = take 2 z1 @ x_sqr_loop pa (drop 2 z1)"
    by (simp only: x_sqr_loop.simps Let_def z list.sel z1_def r_def s_def f_def)
  have "dval (take 2 z1 @ x_sqr_loop pa (drop 2 z1)) = dval z1 + BASE * BASE * (dval pa * dval pa)"
    using split IH(1) two by (simp add: min_absorb2 power2_eq_square distrib_left)
  also have "\<dots> = dval z + dval (a # pa) * dval (a # pa)" using square z1(1) by linarith
  finally show ?case unfolding loop using IH(2,3) z1 two by simp
qed

lemma represents_x_mul:
  assumes "int_mem a" "int_mem b" "same \<longrightarrow> a = b"
  shows "represents (x_mul same a b) (int (int_mag a) * int (int_mag b))"
proof -
  have a: "digits_ok (digits a)" "length (digits a) = nat \<bar>ob_size a\<bar>"
    and b: "digits_ok (digits b)" "length (digits b) = nat \<bar>ob_size b\<bar>"
    using assms by (simp_all add: int_mem_digits_ok length_digits)
  let ?z = "replicate (nat \<bar>ob_size a\<bar> + nat \<bar>ob_size b\<bar>) (0 :: digit)"
  show ?thesis
  proof (cases same)
    case False
    then show ?thesis
      using x_mul_loop_spec [of "digits a" "digits b" ?z] a b
        represents_normalize_alloc [of "x_mul_loop (digits a) (digits b) ?z"]
      by (simp add: x_mul_def int_mag_def)
  next
    case True
    then have ab: "b = a" using assms(3) by simp
    have "dval (digits a) * dval (digits a) < BASE ^ length (digits a) * BASE ^ length (digits a)"
      using dval_bound [OF a(1)] by (intro mult_strict_mono) simp_all
    then have "dval (digits a) * dval (digits a) < BASE ^ length ?z"
      using a(2) ab by (simp add: power_add)
    then show ?thesis
      using x_sqr_loop_spec [of "digits a" ?z] a ab True
        represents_normalize_alloc [of "x_sqr_loop (digits a) ?z"]
      by (simp add: x_mul_def int_mag_def)
  qed
qed

section \<open>Correctness of Karatsuba multiplication\<close>

lemma ob_size_bound:
  assumes "int_ok x" "int_mag x < BASE ^ n"
  shows "nat \<bar>ob_size x\<bar> \<le> n"
proof (rule ccontr)
  assume n: "\<not> nat \<bar>ob_size x\<bar> \<le> n"
  then have "BASE ^ n \<le> BASE ^ (nat \<bar>ob_size x\<bar> - 1)"
    by (intro power_increasing) (simp_all add: BASE_num)
  also have "\<dots> \<le> int_mag x" using assms(1) n by (intro int_mag_lower) auto
  finally show False using assms(2) by simp
qed

text \<open>
  In place, the middle of the product is corrected modulo a power of the base.  The borrows that
  are dropped cancel against the dropped carry because the true value fits.
\<close>

lemma modular_cancel:
  fixes h0 h1 h2 h3 t1 t2 t3 M b1 b2 c e :: nat
  assumes "h1 + t2 = h0 + M * b1" "h2 + t1 = h1 + M * b2" "h3 + M * c = h2 + t3"
    and "h3 < M" "e + t1 + t2 = h0 + t3" "e < M"
  shows "h3 = e"
proof -
  have "int h3 + int M * int c = int e + int M * (int b1 + int b2)"
  proof -
    have "h3 + M * c + h0 + t3 = e + M * (b1 + b2) + h0 + t3"
      using assms(1,2,3,5) by (simp add: distrib_left)
    then have "h3 + M * c = e + M * (b1 + b2)" by simp
    then have "int (h3 + M * c) = int (e + M * (b1 + b2))" by (rule arg_cong)
    then show ?thesis by simp
  qed
  then have "(int h3 + int M * int c) mod int M = (int e + int M * (int b1 + int b2)) mod int M"
    by (rule arg_cong)
  then have "int h3 mod int M = int e mod int M" by simp
  then show ?thesis using assms(4,6) by simp
qed

lemma k_combine_spec:
  assumes ok: "digits_ok t1" "digits_ok t2" "digits_ok t3"
    and len: "length t2 \<le> 2 * s" "2 * s + length t1 \<le> n" "length t3 \<le> n - s" "2 * s \<le> n - s"
    and mid: "dval t3 = dval t1 + dval t2 + m"
    and fit: "dval t2 + BASE ^ s * m + BASE ^ (2 * s) * dval t1 < BASE ^ n"
  shows "dval (k_combine n s t1 t2 t3) = dval t2 + BASE ^ s * m + BASE ^ (2 * s) * dval t1
    \<and> digits_ok (k_combine n s t1 t2 t3)"
proof -
  define ret where "ret = t2 @ replicate (2 * s - length t2) 0 @ t1 @ replicate (n - 2 * s - length t1) 0"
  have rlen: "length ret = n" and rok: "digits_ok ret" using len ok by (simp_all add: ret_def)
  have rval: "dval ret = dval t2 + BASE ^ (2 * s) * dval t1"
  proof -
    have "BASE ^ length t2 * BASE ^ (2 * s - length t2) = BASE ^ (2 * s)"
      using len(1) by (simp add: power_add [symmetric])
    then show ?thesis by (simp add: ret_def mult.assoc [symmetric])
  qed
  obtain h1 b1 where h1: "v_isub (drop s ret) t2 = (h1, b1)" by fastforce
  obtain h2 b2 where h2: "v_isub h1 t1 = (h2, b2)" by fastforce
  obtain h3 c where h3: "v_iadd h2 t3 = (h3, c)" by fastforce
  let ?M = "BASE ^ (n - s)"
  have s1: "dval h1 + dval t2 = dval (drop s ret) + ?M * unat b1" "length h1 = n - s" "digits_ok h1"
    using v_isub_spec [OF _ _ ok(2) h1] rlen rok len by simp_all
  have s2: "dval h2 + dval t1 = dval h1 + ?M * unat b2" "length h2 = n - s" "digits_ok h2"
    using v_isub_spec [OF _ s1(3) ok(1) h2] s1(2) len by simp_all
  have s3: "dval h3 + ?M * unat c = dval h2 + dval t3" "length h3 = n - s" "digits_ok h3"
    using v_iadd_spec [OF _ s2(3) ok(3) h3] s2(2) len by simp_all
  have split: "dval ret = dval (take s ret) + BASE ^ s * dval (drop s ret)"
    using dval_take_drop [of ret s] rlen len by (simp add: min_absorb2)
  let ?e = "dval (drop s ret) + m"
  have total: "dval (take s ret) + BASE ^ s * ?e = dval t2 + BASE ^ s * m + BASE ^ (2 * s) * dval t1"
    using split rval by (simp add: distrib_left)
  have "BASE ^ s * ?e < BASE ^ n" using total fit by linarith
  also have "\<dots> = BASE ^ s * ?M" using len by (simp add: power_add [symmetric])
  finally have e: "?e < ?M" by simp
  have "dval h3 = ?e"
    using s1(1) s2(1) s3(1) _ _ e by (rule modular_cancel) (use s3 dval_bound [of h3] mid in simp_all)
  moreover have "k_combine n s t1 t2 t3 = take s ret @ h3"
    by (simp only: k_combine_def ret_def [symmetric] h1 h2 h3 Let_def fst_conv)
  ultimately show ?thesis using total s3(3) rok rlen len by (simp add: min_absorb2)
qed

lemma kmul_split_spec:
  assumes "int_mem n" "0 \<le> lo_size" "lo_size \<le> \<bar>ob_size n\<bar>" "kmul_split n lo_size = (hi, lo)"
  shows "represents hi (int (dval (drop (nat lo_size) (digits n))))"
    and "represents lo (int (dval (take (nat lo_size) (digits n))))"
    and "int_mag n = int_mag lo + BASE ^ nat lo_size * int_mag hi"
    and "int_mag hi < BASE ^ nat (\<bar>ob_size n\<bar> - lo_size)" "int_mag lo < BASE ^ nat lo_size"
proof -
  let ?k = "nat lo_size"
  have dok: "digits_ok (digits n)" and len: "length (digits n) = nat \<bar>ob_size n\<bar>"
    using assms(1) by (simp_all add: int_mem_digits_ok length_digits)
  have "hi = int_normalize (DeeInt_Alloc (drop ?k (digits n)))"
    and "lo = int_normalize (DeeInt_Alloc (take ?k (digits n)))"
    using assms(2-4) by (auto simp: kmul_split_def Let_def min_absorb2)
  then show hi: "represents hi (int (dval (drop ?k (digits n))))"
    and lo: "represents lo (int (dval (take ?k (digits n))))"
    using dok by (simp_all add: represents_normalize_alloc)
  have mags: "int_mag hi = dval (drop ?k (digits n))" "int_mag lo = dval (take ?k (digits n))"
    using hi lo abs_int_val [of hi] abs_int_val [of lo] by (simp_all add: represents_def)
  have k: "?k \<le> length (digits n)" using len assms(2,3) by linarith
  show "int_mag n = int_mag lo + BASE ^ ?k * int_mag hi"
    using dval_take_drop [of "digits n" ?k] k mags by (simp add: int_mag_def min_absorb2)
  show "int_mag hi < BASE ^ nat (\<bar>ob_size n\<bar> - lo_size)" "int_mag lo < BASE ^ ?k"
    using mags dval_bound [of "drop ?k (digits n)"] dval_bound [of "take ?k (digits n)"] dok len k assms(2)
    by (simp_all add: nat_diff_distrib' min_absorb2)
qed

text \<open>The third product fits the space it is added to.\<close>

lemma karatsuba_third_fits:
  fixes ah al bh bl A B s :: nat
  assumes "ah < BASE ^ (A - s)" "al < BASE ^ s" "bh < BASE ^ (B - s)" "bl < BASE ^ s"
    and "0 < s" "s < A" "s \<le> B - s"
  shows "(ah + al) * (bh + bl) < BASE ^ (A + B - s)"
proof -
  have "BASE ^ s \<le> BASE ^ (B - s)" using assms(7) by (intro power_increasing) (simp_all add: Suc_leI)
  then have b: "bh + bl < 2 * BASE ^ (B - s)" using assms(3,4) by linarith
  have p: "BASE ^ (A - s) \<le> BASE ^ (A - 1)" "BASE ^ s \<le> BASE ^ (A - 1)"
    using assms(5,6) by (simp_all add: power_increasing Suc_leI)
  then have a: "ah + al < 2 * BASE ^ (A - 1)" using assms(1,2) by linarith
  have "(ah + al) * (bh + bl) < (2 * BASE ^ (A - 1)) * (2 * BASE ^ (B - s))"
    using a b by (intro mult_strict_mono) simp_all
  also have "\<dots> = 4 * (BASE ^ (A - 1) * BASE ^ (B - s))" by simp
  also have "\<dots> \<le> BASE * (BASE ^ (A - 1) * BASE ^ (B - s))"
    by (intro mult_le_mono1) (simp add: BASE_num)
  also have "\<dots> = BASE ^ (A + B - s)"
  proof -
    have "A + B - s = Suc (A - 1 + (B - s))" using assms(5-7) by linarith
    then show ?thesis by (simp only: power_Suc power_add)
  qed
  finally show ?thesis .
qed

text \<open>A product in the shape \<open>k_combine\<close> builds it.\<close>

lemma karatsuba_identity:
  fixes al ah bl bh P :: nat
  shows "(ah + al) * (bh + bl) = ah * bh + al * bl + (ah * bl + al * bh)"
    and "(al + P * ah) * (bl + P * bh) = al * bl + P * (ah * bl + al * bh) + P * P * (ah * bh)"
  by (simp_all add: algebra_simps)

lemma int_mag_of_represents: "represents x (int n) \<Longrightarrow> int_mag x = n"
  using abs_int_val [of x] by (simp add: represents_def)

lemma represents_karatsuba_step:
  fixes A B :: nat
  assumes a: "int_mem a" "nat \<bar>ob_size a\<bar> = A" and b: "int_mem b" "nat \<bar>ob_size b\<bar> = B"
    and size: "70 < A" "A \<le> B" "B < 2 * A"
    and split: "kmul_split a (int (B div 2)) = (ah, al)" "kmul_split b (int (B div 2)) = (bh, bl)"
    and t1: "represents t1 (int (int_mag ah) * int (int_mag bh))"
    and t2: "represents t2 (int (int_mag al) * int (int_mag bl))"
    and t3: "represents t3 (int (int_mag ah + int_mag al) * int (int_mag bh + int_mag bl))"
  shows "represents
      (int_normalize (DeeInt_Alloc (k_combine (A + B) (B div 2) (digits t1) (digits t2) (digits t3))))
      (int (int_mag a) * int (int_mag b))"
proof -
  define s where "s = B div 2"
  have s: "1 < s" "s < A" "s \<le> B - s" "s \<le> B" using size unfolding s_def by linarith+
  have sa: "int s \<le> \<bar>ob_size a\<bar>" "int s \<le> \<bar>ob_size b\<bar>" using s a(2) b(2) by linarith+
  note spa = kmul_split_spec [OF a(1) _ sa(1) split(1) [folded s_def]]
    and spb = kmul_split_spec [OF b(1) _ sa(2) split(2) [folded s_def]]
  have A: "int_mag a = int_mag al + BASE ^ s * int_mag ah" "int_mag ah < BASE ^ (A - s)" "int_mag al < BASE ^ s"
    and B: "int_mag b = int_mag bl + BASE ^ s * int_mag bh" "int_mag bh < BASE ^ (B - s)" "int_mag bl < BASE ^ s"
    using spa(3-5) spb(3-5) a(2) b(2) by (simp_all add: nat_diff_distrib')
  have m: "int_mag t1 = int_mag ah * int_mag bh" "int_mag t2 = int_mag al * int_mag bl"
    "int_mag t3 = (int_mag ah + int_mag al) * (int_mag bh + int_mag bl)"
    using t1 t2 t3 int_mag_of_represents by (metis of_nat_mult)+
  have ok: "int_ok t1" "int_ok t2" "int_ok t3" using t1 t2 t3 by (simp_all add: represents_def)
  have l: "length (digits x) = nat \<bar>ob_size x\<bar>" if "int_ok x" for x using that by (simp add: length_digits)
  have "int_mag t1 < BASE ^ (A - s) * BASE ^ (B - s)"
    unfolding m using A B by (intro mult_strict_mono) simp_all
  then have l1: "length (digits t1) \<le> (A - s) + (B - s)"
    using ob_size_bound [OF ok(1), of "(A - s) + (B - s)"] l [OF ok(1)] by (simp add: power_add)
  have "int_mag t2 < BASE ^ s * BASE ^ s"
    unfolding m using A B by (intro mult_strict_mono) simp_all
  then have l2: "length (digits t2) \<le> 2 * s"
    using ob_size_bound [OF ok(2), of "2 * s"] l [OF ok(2)] by (simp add: power_add mult_2)
  have "int_mag t3 < BASE ^ (A + B - s)"
    unfolding m using A B s by (intro karatsuba_third_fits) simp_all
  then have l3: "length (digits t3) \<le> A + B - s"
    using ob_size_bound [OF ok(3)] l [OF ok(3)] by simp
  have prod: "int_mag a * int_mag b = int_mag t2 + BASE ^ s * (int_mag ah * int_mag bl + int_mag al * int_mag bh)
      + BASE ^ (2 * s) * int_mag t1"
    unfolding A(1) B(1) m karatsuba_identity(2) mult_2 power_add ..
  have "int_mag a * int_mag b < BASE ^ A * BASE ^ B"
    using int_mag_bound [OF a(1)] int_mag_bound [OF b(1)] a(2) b(2) by (intro mult_strict_mono) simp_all
  then have fit: "int_mag a * int_mag b < BASE ^ (A + B)" by (simp add: power_add)
  have spec: "dval (k_combine (A + B) s (digits t1) (digits t2) (digits t3)) = int_mag a * int_mag b
      \<and> digits_ok (k_combine (A + B) s (digits t1) (digits t2) (digits t3))"
    unfolding prod unfolding int_mag_def
    using l1 l2 l3 s m karatsuba_identity(1) fit ok
    by (intro k_combine_spec)
       (simp_all add: int_mem_digits_ok int_mag_def [symmetric] prod)
  then show ?thesis
    using represents_normalize_alloc [of "k_combine (A + B) s (digits t1) (digits t2) (digits t3)"]
    by (simp add: s_def)
qed

text \<open>
  The lopsided loop, provided that \<open>k_mul\<close> is right for the slices it is applied to.
\<close>

lemma k_lopsided_loop_spec:
  assumes mul: "\<And>b'. int_mem b' \<Longrightarrow> \<bar>ob_size b'\<bar> \<le> \<bar>ob_size a\<bar>
      \<Longrightarrow> represents (k_mul False a b') (int (int_mag a) * int (int_mag b'))"
    and a: "int_mem a" "KARATSUBA_CUTOFF < \<bar>ob_size a\<bar>"
    and "digits_ok bs" "digits_ok ret" "nat \<bar>ob_size a\<bar> + length bs \<le> length ret"
    and "dval ret + int_mag a * dval bs < BASE ^ length ret"
  shows "dval (k_lopsided_loop a bs ret) = dval ret + int_mag a * dval bs
    \<and> digits_ok (k_lopsided_loop a bs ret)"
  using assms(4-)
proof (induction "length bs" arbitrary: bs ret rule: less_induct)
  case less
  show ?case
  proof (cases "bs = []")
    case True
    then show ?thesis using less.prems by (simp add: k_lopsided_loop.simps)
  next
    case False
    define A n where "A = nat \<bar>ob_size a\<bar>" and "n = min (length bs) (nat \<bar>ob_size a\<bar>)"
    define p where "p = k_mul False a (DeeInt_Alloc (take n bs))"
    obtain ret' c where ret': "v_iadd ret (digits p) = (ret', c)" by fastforce
    have A: "0 < A" using a(2) by (simp add: A_def KARATSUBA_CUTOFF_def)
    then have n: "0 < n" "n \<le> length bs" "n \<le> A"
      using False by (simp_all add: n_def A_def)
    have "int n \<le> \<bar>ob_size a\<bar>" using n(3) by (simp add: A_def le_nat_iff)
    then have p: "represents p (int (int_mag a) * int (dval (take n bs)))"
      using mul [of "DeeInt_Alloc (take n bs)"] less.prems(1) n by (simp add: p_def min_absorb2)
    then have pm: "int_mag p = int_mag a * dval (take n bs)" and pok: "int_ok p"
      using int_mag_of_represents [of p "int_mag a * dval (take n bs)"] by (simp_all add: represents_def)
    have bsplit: "dval bs = dval (take n bs) + BASE ^ n * dval (drop n bs)"
      using dval_take_drop [of bs n] n by (simp add: min_absorb2)
    have "int_mag a * dval (take n bs) < BASE ^ A * BASE ^ n"
      using int_mag_bound [OF a(1)] dval_bound [of "take n bs"] less.prems(1) n
      by (intro mult_strict_mono) (simp_all add: A_def min_absorb2)
    then have plen: "length (digits p) \<le> A + n"
      using ob_size_bound [OF pok, of "A + n"] pm pok by (simp add: power_add length_digits)
    have rlen: "A + n \<le> length ret" "n \<le> length ret"
      using less.prems(3) n unfolding A_def by linarith+
    have r: "dval ret' + BASE ^ length ret * unat c = dval ret + int_mag p"
      "length ret' = length ret" "digits_ok ret'"
      using v_iadd_spec [OF _ less.prems(2) _ ret'] plen rlen pok
      by (simp_all add: int_mem_digits_ok int_mag_def)
    have total: "dval ret + int_mag a * dval bs = dval ret + int_mag p + BASE ^ n * (int_mag a * dval (drop n bs))"
      by (simp add: bsplit pm algebra_simps)
    have "dval ret + int_mag p < BASE ^ length ret" using total less.prems(4) by linarith
    then have "unat c = 0" using r(1) by (cases "unat c") simp_all
    then have rv: "dval ret' = dval ret + int_mag p" using r(1) by simp
    have rsplit: "dval ret' = dval (take n ret') + BASE ^ n * dval (drop n ret')"
      using dval_take_drop [of ret' n] rlen r(2) by (simp add: min_absorb2)
    have "BASE ^ n * (dval (drop n ret') + int_mag a * dval (drop n bs)) < BASE ^ length ret"
      using rsplit rv total less.prems(4) unfolding distrib_left by linarith
    also have "BASE ^ length ret = BASE ^ n * BASE ^ length (drop n ret')"
      using rlen(2) r(2) by (simp add: power_add [symmetric])
    finally have fit: "dval (drop n ret') + int_mag a * dval (drop n bs) < BASE ^ length (drop n ret')"
      by simp
    have IH: "dval (k_lopsided_loop a (drop n bs) (drop n ret')) = dval (drop n ret') + int_mag a * dval (drop n bs)"
      "digits_ok (k_lopsided_loop a (drop n bs) (drop n ret'))"
      using less.hyps [of "drop n bs" "drop n ret'"] fit n less.prems(1,3) r(2,3) False
      by (simp_all add: diff_le_mono)
    have unf: "k_lopsided_loop a bs ret = take n ret' @ k_lopsided_loop a (drop n bs) (drop n ret')"
      using False a(2) by (subst k_lopsided_loop.simps)
        (simp add: n_def [symmetric] p_def [symmetric] ret' Let_def)
    show ?thesis unfolding unf
      using IH rsplit rv total r rlen by (simp add: min_absorb2 distrib_left)
  qed
qed

lemma karatsuba_split_sizes:
  assumes "kmul_split a (\<bar>ob_size b\<bar> div 2) = (ah, al)"
    "(if same then (ah, al) else kmul_split b (\<bar>ob_size b\<bar> div 2)) = (bh, bl)"
    "70 < \<bar>ob_size a\<bar>" "\<bar>ob_size a\<bar> \<le> \<bar>ob_size b\<bar>" "\<not> 2 * \<bar>ob_size a\<bar> \<le> \<bar>ob_size b\<bar>"
  shows "nat \<bar>ob_size ah\<bar> + nat \<bar>ob_size bh\<bar> < nat \<bar>ob_size a\<bar> + nat \<bar>ob_size b\<bar>"
    and "nat \<bar>ob_size al\<bar> + nat \<bar>ob_size bl\<bar> < nat \<bar>ob_size a\<bar> + nat \<bar>ob_size b\<bar>"
    and "nat \<bar>ob_size (x_add ah al)\<bar> + nat \<bar>ob_size (if same then x_add ah al else x_add bh bl)\<bar>
      < nat \<bar>ob_size a\<bar> + nat \<bar>ob_size b\<bar>"
proof -
  have "(bh, bl) = (if same then kmul_split a (\<bar>ob_size b\<bar> div 2) else kmul_split b (\<bar>ob_size b\<bar> div 2))"
    by (simp only: assms(1,2))
  note sizes = karatsuba_sizes [OF assms(1) [symmetric] this assms(3-5)]
  show "nat \<bar>ob_size ah\<bar> + nat \<bar>ob_size bh\<bar> < nat \<bar>ob_size a\<bar> + nat \<bar>ob_size b\<bar>"
    and "nat \<bar>ob_size al\<bar> + nat \<bar>ob_size bl\<bar> < nat \<bar>ob_size a\<bar> + nat \<bar>ob_size b\<bar>"
    and "nat \<bar>ob_size (x_add ah al)\<bar> + nat \<bar>ob_size (if same then x_add ah al else x_add bh bl)\<bar>
      < nat \<bar>ob_size a\<bar> + nat \<bar>ob_size b\<bar>"
    by (rule sizes)+
qed

lemma represents_k_mul:
  assumes "int_mem a" "int_mem b" "same \<longrightarrow> a = b"
  shows "represents (k_mul same a b) (int (int_mag a) * int (int_mag b))"
  using assms
proof (induction "nat \<bar>ob_size a\<bar> + nat \<bar>ob_size b\<bar>" arbitrary: same a b rule: less_induct)
  case (less a0 b0)
  obtain a b where swap: "(a, b) = (if \<bar>ob_size b0\<bar> < \<bar>ob_size a0\<bar> then (b0, a0) else (a0, b0))"
    by (metis surj_pair)
  have ab: "int_mem a" "int_mem b" "same \<longrightarrow> a = b"
    and prod: "int (int_mag a0) * int (int_mag b0) = int (int_mag a) * int (int_mag b)"
    using less.prems swap by (auto split: if_splits)
  note le = k_swap(1) [OF swap] and sum = k_swap(2) [OF swap]
  define A B where "A = nat \<bar>ob_size a\<bar>" and "B = nat \<bar>ob_size b\<bar>"
  define s where "s = \<bar>ob_size b\<bar> div 2"
  obtain ah al where spa: "kmul_split a s = (ah, al)" by fastforce
  obtain bh bl where spb: "(if same then (ah, al) else kmul_split b s) = (bh, bl)" by fastforce
  let ?small = "\<bar>ob_size a\<bar> \<le> (if same then KARATSUBA_SQUARE_CUTOFF else KARATSUBA_CUTOFF)"
  have unf: "k_mul same a0 b0 =
     (if ?small then (if \<bar>ob_size a\<bar> = 0 then DeeInt_Zero else x_mul same a b)
      else if 2 * \<bar>ob_size a\<bar> \<le> \<bar>ob_size b\<bar> then
        int_normalize (DeeInt_Alloc (k_lopsided_loop a (digits b) (replicate (A + B) 0)))
      else int_normalize (DeeInt_Alloc (k_combine (A + B) (nat s)
             (digits (k_mul same ah bh)) (digits (k_mul same al bl))
             (digits (k_mul same (x_add ah al) (if same then x_add ah al else x_add bh bl))))))"
    by (subst k_mul.simps)
       (simp only: swap [symmetric] Let_def prod.case s_def [symmetric] spa spb A_def B_def)
  show ?case
  proof (cases ?small)
    case True
    then show ?thesis unfolding prod unf
      using represents_x_mul [OF ab] represents_Zero
      by (cases "ob_size a = 0") (simp_all add: int_mag_0)
  next
    case False
    note big = k_cutoff [OF False]
    have A70: "70 < A" using big unfolding A_def by linarith
    have AleB: "A \<le> B" unfolding A_def B_def using le by (rule nat_mono)
    have lop: "2 * \<bar>ob_size a\<bar> \<le> \<bar>ob_size b\<bar> \<longleftrightarrow> 2 * A \<le> B"
    proof -
      have "\<bar>ob_size a\<bar> = int A" "\<bar>ob_size b\<bar> = int B" by (simp_all add: A_def B_def)
      then have "2 * \<bar>ob_size a\<bar> \<le> \<bar>ob_size b\<bar> \<longleftrightarrow> 2 * int A \<le> int B" by (simp only:)
      also have "\<dots> \<longleftrightarrow> 2 * A \<le> B" by presburger
      finally show ?thesis .
    qed
    show ?thesis
    proof (cases "2 * \<bar>ob_size a\<bar> \<le> \<bar>ob_size b\<bar>")
      case True
      have mul: "represents (k_mul False a b') (int (int_mag a) * int (int_mag b'))"
        if "int_mem b'" "\<bar>ob_size b'\<bar> \<le> \<bar>ob_size a\<bar>" for b'
      proof (rule less.hyps)
        show "nat \<bar>ob_size a\<bar> + nat \<bar>ob_size b'\<bar> < nat \<bar>ob_size a0\<bar> + nat \<bar>ob_size b0\<bar>"
          using True lop A70 nat_mono [OF that(2)]
        unfolding sum A_def [symmetric] B_def [symmetric] by linarith
      qed (use ab that in simp_all)
      have len: "length (digits b) = B" using ab(2) by (simp add: length_digits B_def)
      have "int_mag a * dval (digits b) < BASE ^ A * BASE ^ B"
        using int_mag_bound [OF ab(1)] int_mag_bound [OF ab(2)]
        by (intro mult_strict_mono) (simp_all add: A_def B_def int_mag_def)
      then have "dval (k_lopsided_loop a (digits b) (replicate (A + B) 0)) = int_mag a * int_mag b
          \<and> digits_ok (k_lopsided_loop a (digits b) (replicate (A + B) 0))"
        using k_lopsided_loop_spec [OF mul ab(1), of "digits b" "replicate (A + B) 0"] big ab(2) len
        by (simp add: KARATSUBA_CUTOFF_def int_mem_digits_ok power_add int_mag_def A_def)
      then show ?thesis
        using represents_normalize_alloc [of "k_lopsided_loop a (digits b) (replicate (A + B) 0)"]
          True False prod unf by simp
    next
      case notlop: False
      note sizes = karatsuba_split_sizes [OF spa [unfolded s_def] spb [unfolded s_def] big le notlop, folded sum]
      have bh: "same \<longrightarrow> ah = bh \<and> al = bl" using spb by auto
      have B2: "s = int (B div 2)" by (simp add: s_def B_def zdiv_int)
      have spb': "kmul_split b s = (bh, bl)"
        using spa spb ab(3) by (cases same) auto
      have sl: "0 \<le> s" "s \<le> \<bar>ob_size a\<bar>" "s \<le> \<bar>ob_size b\<bar>"
      proof -
        have "B div 2 \<le> A" "B div 2 \<le> B" using A70 AleB notlop lop by linarith+
        then show "0 \<le> s" "s \<le> \<bar>ob_size a\<bar>" "s \<le> \<bar>ob_size b\<bar>"
          unfolding B2 A_def B_def by (simp_all add: le_nat_iff)
      qed
      note oka = kmul_split_spec(1,2) [OF ab(1) sl(1,2) spa] and okb = kmul_split_spec(1,2) [OF ab(2) sl(1,3) spb']
      have mem: "int_mem ah" "int_mem al" "int_mem bh" "int_mem bl"
        using oka okb by (simp_all add: represents_def)
      define s2 where "s2 = (if same then x_add ah al else x_add bh bl)"
      have xa: "represents (x_add ah al) (int (int_mag ah + int_mag al))"
        and xb: "represents s2 (int (int_mag bh + int_mag bl))"
        using represents_x_add mem bh by (auto simp: s2_def)
      have t1: "represents (k_mul same ah bh) (int (int_mag ah) * int (int_mag bh))"
        using less.hyps [OF sizes(1)] mem bh by simp
      have t2: "represents (k_mul same al bl) (int (int_mag al) * int (int_mag bl))"
        using less.hyps [OF sizes(2)] mem bh by simp
      have t3: "represents (k_mul same (x_add ah al) s2)
          (int (int_mag ah + int_mag al) * int (int_mag bh + int_mag bl))"
      proof -
        have "int_mem (x_add ah al)" "int_mem s2" "same \<longrightarrow> x_add ah al = s2"
          using xa xb by (simp_all add: represents_def s2_def)
        from less.hyps [OF sizes(3) [folded s2_def] this] show ?thesis
          by (simp only: int_mag_of_represents [OF xa] int_mag_of_represents [OF xb])
      qed
      have AB: "70 < A" "A \<le> B" "B < 2 * A" using A70 AleB notlop lop by simp_all
      have "represents (int_normalize (DeeInt_Alloc (k_combine (A + B) (B div 2)
          (digits (k_mul same ah bh)) (digits (k_mul same al bl)) (digits (k_mul same (x_add ah al) s2)))))
          (int (int_mag a) * int (int_mag b))"
        using represents_karatsuba_step [OF ab(1) A_def [symmetric] ab(2) B_def [symmetric] AB
            spa [unfolded B2] spb' [unfolded B2] t1 t2 t3] .
      then show ?thesis
        unfolding prod unf if_not_P [OF False] if_not_P [OF notlop] B2 nat_int s2_def .
    qed
  qed
qed

section \<open>The multiplication operator\<close>

text \<open>
  The product of a zero operand is the shared static zero, so only that one is not negated in
  place.
\<close>

definition int_mul :: "bool \<Rightarrow> DeeInt \<Rightarrow> DeeInt \<Rightarrow> DeeInt" where
  "int_mul same a b =
     (if \<bar>ob_size a\<bar> \<le> 1 \<and> \<bar>ob_size b\<bar> \<le> 1 then
        DeeInt_NewInt64 (scast (MEDIUM_VALUE a) * scast (MEDIUM_VALUE b))
      else
        (let z = k_mul same a b
         in if (ob_size a < 0) \<noteq> (ob_size b < 0)
            then int_neg_inherit (ob_size a = 0 \<or> ob_size b = 0) z
            else z))"

lemma represents_int_mul:
  assumes "int_ok a" "int_ok b" "same \<longrightarrow> a = b"
  shows "represents (int_mul same a b) (int_val a * int_val b)"
proof (cases "\<bar>ob_size a\<bar> \<le> 1 \<and> \<bar>ob_size b\<bar> \<le> 1")
  case True
  then have le: "\<bar>ob_size a\<bar> \<le> 1" "\<bar>ob_size b\<bar> \<le> 1" by simp_all
  have s: "sint (scast (MEDIUM_VALUE a) :: u64) = int_val a" "sint (scast (MEDIUM_VALUE b) :: u64) = int_val b"
    using MEDIUM_VALUE_spec(1) [OF assms(1) le(1)] MEDIUM_VALUE_spec(1) [OF assms(2) le(2)]
    by (simp_all add: sint_up_scast is_up)
  have "\<bar>int_val a * int_val b\<bar> \<le> int BASE * int BASE"
    using MEDIUM_VALUE_spec(2) [OF assms(1) le(1)] MEDIUM_VALUE_spec(2) [OF assms(2) le(2)]
    unfolding abs_mult by (intro mult_mono) simp_all
  then have "- 9223372036854775808 \<le> int_val a * int_val b" "int_val a * int_val b < 9223372036854775808"
    by (simp_all add: BASE_num abs_le_iff)
  then have "sint (scast (MEDIUM_VALUE a) * scast (MEDIUM_VALUE b) :: u64) = int_val a * int_val b"
    using s by (subst sint_mult_range) simp_all
  then show ?thesis
    using True represents_NewInt64 [of "scast (MEDIUM_VALUE a) * scast (MEDIUM_VALUE b)"]
    by (simp add: int_mul_def)
next
  case False
  have k: "represents (k_mul same a b) (int (int_mag a) * int (int_mag b))"
    using assms by (intro represents_k_mul) simp_all
  note neg = represents_int_neg_inherit [OF k]
  have unf: "int_mul same a b =
      (if (ob_size a < 0) \<noteq> (ob_size b < 0)
       then int_neg_inherit (ob_size a = 0 \<or> ob_size b = 0) (k_mul same a b)
       else k_mul same a b)"
    by (simp only: int_mul_def if_not_P [OF False] Let_def)
  show ?thesis
    unfolding unf using k neg
    by (cases "ob_size a < 0"; cases "ob_size b < 0") (simp_all add: int_val_neg int_val_nonneg)
qed

section \<open>Powers\<close>

text \<open>
  The macro \<open>MULT\<close> of \<open>int_pow\<close> replaces its target by a product; the loops below take the
  multiplication as an argument.  \<open>MULT(z, z, z)\<close> squares; the other products have operands that
  are distinct objects or have at most one digit, where \<open>int_mul\<close> does not look.
\<close>

fun pow_bits :: "(bool \<Rightarrow> DeeInt \<Rightarrow> DeeInt \<Rightarrow> DeeInt) \<Rightarrow> DeeInt \<Rightarrow> digit \<Rightarrow> nat \<Rightarrow> DeeInt \<Rightarrow> DeeInt" where
  "pow_bits mult a bi 0 z = z"
| "pow_bits mult a bi (Suc j) z =
     (let z = mult True z z;
          z = (if bi AND push_bit j 1 \<noteq> 0 then mult False z a else z)
      in pow_bits mult a bi j z)"

fun pow_table :: "(bool \<Rightarrow> DeeInt \<Rightarrow> DeeInt \<Rightarrow> DeeInt) \<Rightarrow> DeeInt \<Rightarrow> DeeInt \<Rightarrow> nat \<Rightarrow> DeeInt list" where
  "pow_table mult a prev 0 = []"
| "pow_table mult a prev (Suc n) = prev # pow_table mult a (mult False prev a) n"

fun pow_windows :: "(bool \<Rightarrow> DeeInt \<Rightarrow> DeeInt \<Rightarrow> DeeInt) \<Rightarrow> DeeInt list \<Rightarrow> digit \<Rightarrow> nat \<Rightarrow> DeeInt \<Rightarrow> DeeInt" where
  "pow_windows mult table bi 0 z = z"
| "pow_windows mult table bi (Suc w) z =
     (let index = unat (drop_bit (5 * w) bi AND 0x1f);
          z = ((\<lambda>z. mult True z z) ^^ 5) z;
          z = (if index \<noteq> 0 then mult False z (table ! index) else z)
      in pow_windows mult table bi w z)"

definition FIVEARY_CUTOFF :: int where
  "FIVEARY_CUTOFF = 8"

definition int_pow :: "DeeInt \<Rightarrow> DeeInt \<Rightarrow> DeeInt result" where
  "int_pow a b =
     (if ob_size b < 0 then Inl NotImplemented
      else if ob_size b \<le> FIVEARY_CUTOFF then
        Inr (foldr (\<lambda>bi z. pow_bits int_mul a bi DIGIT_BITS z) (digits b) DeeInt_One)
      else
        (let table = pow_table int_mul a DeeInt_One 32
         in Inr (foldr (\<lambda>bi z. pow_windows int_mul table bi (DIGIT_BITS div 5) z) (digits b) DeeInt_One)))"

text \<open>What the power loops rely on: a multiplication that is right on well-formed integers.\<close>

locale int_multiplier =
  fixes mult :: "bool \<Rightarrow> DeeInt \<Rightarrow> DeeInt \<Rightarrow> DeeInt"
  assumes mult_represents: "int_ok a \<Longrightarrow> int_ok b \<Longrightarrow> (same \<longrightarrow> a = b)
      \<Longrightarrow> represents (mult same a b) (int_val a * int_val b)"
begin

lemma mult_power:
  assumes "represents x (k ^ m)" "represents y (k ^ n)"
  shows "represents (mult False x y) (k ^ (m + n))"
  using mult_represents [of x y False] assms by (simp add: represents_def power_add)

lemma square_power:
  assumes "represents x (k ^ m)"
  shows "represents (mult True x x) (k ^ (2 * m))"
  using mult_represents [of x x True] assms by (simp add: represents_def power_add mult_2)

lemma pow_bits_represents:
  assumes "represents a k" "represents z (k ^ e)"
  shows "represents (pow_bits mult a bi j z) (k ^ (e * 2 ^ j + unat bi mod 2 ^ j))"
  using assms(2)
proof (induction j arbitrary: z e)
  case 0
  then show ?case by simp
next
  case (Suc j)
  define z' where "z' = (if bi AND push_bit j 1 \<noteq> 0 then mult False (mult True z z) a else mult True z z)"
  have set: "bi AND push_bit j 1 \<noteq> 0 \<longleftrightarrow> bit bi j"
    by (metis and_exp_eq_0_iff_not_bit push_bit_eq_mult mult_1)
  have b: "unat bi mod 2 ^ Suc j = of_bool (bit bi j) * 2 ^ j + unat bi mod 2 ^ j"
    using take_bit_Suc_from_most [of j "unat bi"]
    by (simp add: take_bit_eq_mod bit_unsigned_iff unsigned_or_eq mult.commute)
  have a1: "represents a (k ^ 1)" using assms(1) by simp
  have z': "z' = (if bit bi j then mult False (mult True z z) a else mult True z z)"
    by (simp only: z'_def set)
  have "represents z' (k ^ (2 * e + of_bool (bit bi j)))"
    using square_power [OF Suc.prems] mult_power [OF square_power [OF Suc.prems] a1]
    by (simp add: z')
  from Suc.IH [OF this] have "represents (pow_bits mult a bi j z')
      (k ^ ((2 * e + of_bool (bit bi j)) * 2 ^ j + unat bi mod 2 ^ j))" .
  moreover have "(2 * e + of_bool (bit bi j)) * 2 ^ j + unat bi mod 2 ^ j = e * 2 ^ Suc j + unat bi mod 2 ^ Suc j"
    unfolding b by (simp add: algebra_simps)
  ultimately show ?case by (simp only: pow_bits.simps Let_def z'_def)
qed

lemma length_pow_table: "length (pow_table mult a prev n) = n"
  by (induction n arbitrary: prev) simp_all

lemma pow_table_represents:
  assumes "represents a k" "represents prev (k ^ e)" "i < n"
  shows "represents (pow_table mult a prev n ! i) (k ^ (e + i))"
  using assms(2,3)
proof (induction n arbitrary: prev e i)
  case 0
  then show ?case by simp
next
  case (Suc n)
  have a1: "represents a (k ^ 1)" using assms(1) by simp
  show ?case
  proof (cases i)
    case 0
    then show ?thesis using Suc.prems by simp
  next
    case (Suc i')
    then show ?thesis using Suc.IH [OF mult_power [OF Suc.prems(1) a1], of i'] Suc.prems by simp
  qed
qed

lemma squares_power: "represents z (k ^ e) \<Longrightarrow> represents (((\<lambda>z. mult True z z) ^^ n) z) (k ^ (2 ^ n * e))"
proof (induction n)
  case (Suc n)
  then show ?case using square_power [of "((\<lambda>z. mult True z z) ^^ n) z" k "2 ^ n * e"] by (simp add: mult.assoc)
qed simp

lemma pow_windows_represents:
  assumes table: "\<And>i. i < 32 \<Longrightarrow> represents (table ! i) (k ^ i)" and "represents z (k ^ e)"
  shows "represents (pow_windows mult table bi w z) (k ^ (e * 2 ^ (5 * w) + unat bi mod 2 ^ (5 * w)))"
  using assms(2)
proof (induction w arbitrary: z e)
  case 0
  then show ?case by simp
next
  case (Suc w)
  define i where "i = unat (drop_bit (5 * w) bi AND 0x1f)"
  define s where "s = ((\<lambda>z. mult True z z) ^^ 5) z"
  define z' where "z' = (if i \<noteq> 0 then mult False s (table ! i) else s)"
  have m: "(0x1f :: digit) = mask 5" by (simp add: mask_numeral)
  have i: "i = unat bi div 2 ^ (5 * w) mod 32" by (simp add: i_def m word_nat)
  have b: "unat bi mod 2 ^ (5 * Suc w) = i * 2 ^ (5 * w) + unat bi mod 2 ^ (5 * w)"
    using mod_mult2_eq [of "unat bi" "2 ^ (5 * w)" 32] by (simp add: i power_add mult.commute)
  have s: "represents s (k ^ (32 * e))" using squares_power [OF Suc.prems, of 5] by (simp add: s_def)
  have "represents z' (k ^ (32 * e + i))"
    using s mult_power [OF s table [of i]] i by (auto simp: z'_def)
  from Suc.IH [OF this] have "represents (pow_windows mult table bi w z')
      (k ^ ((32 * e + i) * 2 ^ (5 * w) + unat bi mod 2 ^ (5 * w)))" .
  moreover have "(32 * e + i) * 2 ^ (5 * w) + unat bi mod 2 ^ (5 * w)
      = e * 2 ^ (5 * Suc w) + unat bi mod 2 ^ (5 * Suc w)"
    unfolding b by (simp add: algebra_simps power_add)
  ultimately show ?case by (simp only: pow_windows.simps Let_def i_def [symmetric] s_def [symmetric] z'_def [symmetric])
qed

text \<open>Working down the digits of the exponent multiplies it by the base and adds the digit.\<close>

lemma foldr_digits_represents:
  assumes "digits_ok ds" "represents z (k ^ e)"
    and "\<And>bi z e. represents z (k ^ e) \<Longrightarrow> unat bi < BASE \<Longrightarrow> represents (f bi z) (k ^ (e * BASE + unat bi))"
  shows "represents (foldr f ds z) (k ^ (e * BASE ^ length ds + dval ds))"
  using assms(1)
proof (induction ds)
  case Nil
  then show ?case using assms(2) by simp
next
  case (Cons d ds)
  then show ?case
    using assms(3) [of "foldr f ds z" "e * BASE ^ length ds + dval ds" d]
    by (simp add: algebra_simps)
qed

end

interpretation mul: int_multiplier int_mul
  by unfold_locales (rule represents_int_mul)

lemma int_pow_spec:
  assumes "int_ok a" "int_ok b"
  shows "if int_val b < 0 then int_pow a b = Inl NotImplemented
    else \<exists>z. int_pow a b = Inr z \<and> represents z (int_val a ^ nat (int_val b))"
proof (cases "ob_size b < 0")
  case True
  then show ?thesis using assms by (simp add: int_pow_def int_val_less_0_iff)
next
  case False
  let ?k = "int_val a"
  have a: "represents a ?k" using assms(1) by (simp add: represents_def)
  have one: "represents DeeInt_One (?k ^ 0)" by (simp add: represents_One)
  have dok: "digits_ok (digits b)" using assms(2) by (simp add: int_mem_digits_ok)
  have e: "nat (int_val b) = dval (digits b)"
    using False by (simp add: int_val_nonneg int_mag_def)
  have d: "represents (pow_bits int_mul a bi DIGIT_BITS z) (?k ^ (e * BASE + unat bi))"
    if "represents z (?k ^ e)" "unat bi < BASE" for bi z e
    using mul.pow_bits_represents [OF a that(1), of bi DIGIT_BITS] that(2) by (simp add: exp_DIGIT_BITS)
  have w: "represents (pow_windows int_mul (pow_table int_mul a DeeInt_One 32) bi (DIGIT_BITS div 5) z)
      (?k ^ (e * BASE + unat bi))" if "represents z (?k ^ e)" "unat bi < BASE" for bi z e
  proof -
    have "5 * (DIGIT_BITS div 5) = DIGIT_BITS" by (simp add: DIGIT_BITS_def)
    then show ?thesis
      using mul.pow_windows_represents [OF _ that(1), of "pow_table int_mul a DeeInt_One 32" bi "DIGIT_BITS div 5"]
        mul.pow_table_represents [OF a one] that(2) by (simp add: exp_DIGIT_BITS)
  qed
  show ?thesis
    using mul.foldr_digits_represents [OF dok one d] mul.foldr_digits_represents [OF dok one w] False assms(2)
    by (simp add: int_pow_def e int_val_less_0_iff)
qed

section \<open>Properties\<close>

text \<open>
  Karatsuba multiplication is equivalent to the schoolbook product: on any two magnitudes,
  above or below the cutoffs, lopsided or not, squared or not, \<open>k_mul\<close> terminates with the same
  normalized integer as \<open>x_mul\<close>, up to the sign the caller fixes.
\<close>

lemma k_mul_equals_x_mul:
  assumes "int_mem a" "int_mem b" "same \<longrightarrow> a = b"
  shows "ob_size (k_mul same a b) = ob_size (x_mul False a b)
    \<and> digits (k_mul same a b) = digits (x_mul False a b)"
  using represents_k_mul [OF assms] represents_x_mul [OF assms(1,2), of False]
    int_ok_unique [of "k_mul same a b" "x_mul False a b"]
  by (simp add: represents_def)

text \<open>
  C2: Multiplication and exponentiation of arbitrary integers: the result of \<open>int_mul\<close> is well-formed
  and its value is the product, with the sign rule, the 64-bit fast path and Karatsuba's algorithm
  included.  A negative exponent is rejected as not implemented; otherwise both the
  binary and the 5-ary (table-driven) method return the well-formed integer \<open>a ^ b\<close>.
\<close>

theorem int_mul_pow_correct:
  assumes "int_ok a" "int_ok b" "same \<longrightarrow> a = b"
  shows "int_ok (int_mul same a b) \<and> int_val (int_mul same a b) = int_val a * int_val b
    \<and> (case int_pow a b of
         Inl e \<Rightarrow> e = NotImplemented \<and> int_val b < 0
       | Inr z \<Rightarrow> 0 \<le> int_val b \<and> int_ok z \<and> int_val z = int_val a ^ nat (int_val b))"
proof (intro conjI)
  show "int_ok (int_mul same a b)" "int_val (int_mul same a b) = int_val a * int_val b"
    using mul.mult_represents [OF assms] by (simp_all add: represents_def)
  show "case int_pow a b of
          Inl e \<Rightarrow> e = NotImplemented \<and> int_val b < 0
        | Inr z \<Rightarrow> 0 \<le> int_val b \<and> int_ok z \<and> int_val z = int_val a ^ nat (int_val b)"
    using int_pow_spec [OF assms(1,2)] by (auto simp: represents_def split: if_splits)
qed

theorem int_mul_pow_correct_witness:
  "int_val (int_mul False \<lparr>ob_size = -2, ob_digit = [1, 1]\<rparr> \<lparr>ob_size = 1, ob_digit = [3]\<rparr>) = - 3221225475
   \<and> (\<exists>z. int_pow \<lparr>ob_size = -1, ob_digit = [2]\<rparr> \<lparr>ob_size = 1, ob_digit = [5]\<rparr> = Inr z \<and> int_val z = -32)"
proof
  show "int_val (int_mul False \<lparr>ob_size = -2, ob_digit = [1, 1]\<rparr> \<lparr>ob_size = 1, ob_digit = [3]\<rparr>)
      = - 3221225475"
    using int_mul_pow_correct [of "\<lparr>ob_size = -2, ob_digit = [1, 1]\<rparr>" "\<lparr>ob_size = 1, ob_digit = [3]\<rparr>"
        False, THEN conjunct2, THEN conjunct1]
    by (simp add: int_eval)
  show "\<exists>z. int_pow \<lparr>ob_size = -1, ob_digit = [2]\<rparr> \<lparr>ob_size = 1, ob_digit = [5]\<rparr> = Inr z \<and> int_val z = -32"
    using int_mul_pow_correct [of "\<lparr>ob_size = -1, ob_digit = [2]\<rparr>" "\<lparr>ob_size = 1, ob_digit = [5]\<rparr>"
        False, THEN conjunct2, THEN conjunct2]
    by (simp add: int_eval split: sum.splits)
qed

end
