(* ===== verification/IntConv.thy ===== *)
theory IntConv
  imports IntObject
begin

text \<open>
  Reading an integer object as a machine integer of 8, 16, 32, 64 or 128 bits
  (src/deemon/objects/int.c): the \<open>DeeInt_TryGet\<close> family, which reports how the bits are to be
  read or in which direction the value is out of range, the \<open>DeeInt_TryAs\<close> family, which insists
  on a signed or an unsigned value (\<open>M1\<close>: unsigned or -1), and the throwing families
  \<open>DeeInt_Get\<close> and \<open>DeeInt_As\<close>.  The locale \<open>int_reader\<close> is what the last three rely on; it is
  interpreted on the five widths.
\<close>

section \<open>Reading the bits\<close>

text \<open>
  The codes \<open>INT_SIGNED\<close>, \<open>INT_UNSIGNED\<close>, \<open>INT_POS_OVERFLOW\<close>, \<open>INT_NEG_OVERFLOW\<close>, the first two
  with the bits stored in \<open>*result\<close>.
\<close>

datatype 'a int_read =
    INT_SIGNED 'a
  | INT_UNSIGNED 'a
  | INT_POS_OVERFLOW
  | INT_NEG_OVERFLOW

text \<open>
  The loop from the top digit down: \<open>None\<close> is \<open>goto overflow\<close>, taken when shifting the new value
  back does not yield the previous one.
\<close>

fun get_loop :: "'a::len word \<Rightarrow> digit list \<Rightarrow> 'a word option" where
  "get_loop prev [] = Some prev"
| "get_loop prev (d # ds) =
     (let result_value = push_bit DIGIT_BITS prev OR ucast d
      in if drop_bit DIGIT_BITS result_value \<noteq> prev then None
         else get_loop result_value ds)"

text \<open>The body that the 32- and the 64-bit function share.\<close>

definition try_get :: "DeeInt \<Rightarrow> 'a::len word int_read" where
  "try_get me =
     (if ob_size me = 0 then INT_UNSIGNED 0
      else if ob_size me = 1 then INT_UNSIGNED (ucast (ob_digit me ! 0))
      else if ob_size me = -1 then INT_SIGNED (- ucast (ob_digit me ! 0))
      else
        (case get_loop 0 (rev (digits me)) of
           None \<Rightarrow> (if ob_size me < 0 then INT_NEG_OVERFLOW else INT_POS_OVERFLOW)
         | Some result_value \<Rightarrow>
             if ob_size me < 0 then
               (if result_value > push_bit (LENGTH('a) - 1) 1 then INT_NEG_OVERFLOW
                else INT_SIGNED (- result_value))
             else INT_UNSIGNED result_value))"

definition DeeInt_TryGet32Bit :: "DeeInt \<Rightarrow> u32 int_read" where
  "DeeInt_TryGet32Bit self = try_get self"

definition DeeInt_TryGet64Bit :: "DeeInt \<Rightarrow> u64 int_read" where
  "DeeInt_TryGet64Bit self = try_get self"

text \<open>The 128-bit loop tests the bits that the shift would lose before it shifts.\<close>

fun get_loop128 :: "128 word \<Rightarrow> digit list \<Rightarrow> 128 word option" where
  "get_loop128 result_value [] = Some result_value"
| "get_loop128 result_value (d # ds) =
     (if drop_bit (128 - DIGIT_BITS) result_value \<noteq> 0 then None
      else get_loop128 (push_bit DIGIT_BITS result_value OR ucast d) ds)"

definition DeeInt_TryGet128Bit :: "DeeInt \<Rightarrow> 128 word int_read" where
  "DeeInt_TryGet128Bit me =
     (if ob_size me = 0 then INT_UNSIGNED 0
      else if ob_size me = 1 then INT_UNSIGNED (ucast (ob_digit me ! 0))
      else if ob_size me = -1 then INT_SIGNED (scast (- (ob_digit me ! 0)))
      else
        (case get_loop128 0 (rev (digits me)) of
           None \<Rightarrow> (if ob_size me < 0 then INT_NEG_OVERFLOW else INT_POS_OVERFLOW)
         | Some result_value \<Rightarrow>
             if ob_size me < 0 then
               (if result_value > push_bit 127 1 then INT_NEG_OVERFLOW
                else INT_SIGNED (- result_value))
             else INT_UNSIGNED result_value))"

definition DeeInt_TryGet16Bit :: "DeeInt \<Rightarrow> 16 word int_read" where
  "DeeInt_TryGet16Bit self =
     (case DeeInt_TryGet32Bit self of
        INT_UNSIGNED result_value32 \<Rightarrow>
          (if result_value32 > 0xffff then INT_POS_OVERFLOW
           else INT_UNSIGNED (ucast result_value32))
      | INT_SIGNED result_value32 \<Rightarrow>
          (if 32767 <s result_value32 then INT_POS_OVERFLOW
           else if result_value32 <s - 32768 then INT_NEG_OVERFLOW
           else INT_SIGNED (ucast result_value32))
      | INT_POS_OVERFLOW \<Rightarrow> INT_POS_OVERFLOW
      | INT_NEG_OVERFLOW \<Rightarrow> INT_NEG_OVERFLOW)"

definition DeeInt_TryGet8Bit :: "DeeInt \<Rightarrow> u8 int_read" where
  "DeeInt_TryGet8Bit self =
     (case DeeInt_TryGet32Bit self of
        INT_UNSIGNED result_value \<Rightarrow>
          (if result_value > 0xff then INT_POS_OVERFLOW
           else INT_UNSIGNED (ucast result_value))
      | INT_SIGNED result_value \<Rightarrow>
          (if 127 <s result_value then INT_POS_OVERFLOW
           else if result_value <s - 128 then INT_NEG_OVERFLOW
           else INT_SIGNED (ucast result_value))
      | INT_POS_OVERFLOW \<Rightarrow> INT_POS_OVERFLOW
      | INT_NEG_OVERFLOW \<Rightarrow> INT_NEG_OVERFLOW)"

section \<open>Signed and unsigned values\<close>

text \<open>
  The bodies of the families, applied to what the \<open>TryGet\<close> function of the width returned.
  \<open>None\<close> is \<open>false\<close>; \<open>Some\<close> is \<open>true\<close> with the value stored.
\<close>

definition try_as_int :: "'a::len word int_read \<Rightarrow> 'a word option" where
  "try_as_int r =
     (case r of
        INT_UNSIGNED v \<Rightarrow> (if v > mask (LENGTH('a) - 1) then None else Some v)
      | INT_SIGNED v \<Rightarrow> Some v
      | INT_POS_OVERFLOW \<Rightarrow> None
      | INT_NEG_OVERFLOW \<Rightarrow> None)"

definition try_as_uint :: "'a::len word int_read \<Rightarrow> 'a word option" where
  "try_as_uint r =
     (case r of
        INT_SIGNED v \<Rightarrow> (if v <s 0 then None else Some v)
      | INT_UNSIGNED v \<Rightarrow> Some v
      | INT_POS_OVERFLOW \<Rightarrow> None
      | INT_NEG_OVERFLOW \<Rightarrow> None)"

definition try_as_uint_m1 :: "'a::len word int_read \<Rightarrow> 'a word option" where
  "try_as_uint_m1 r =
     (case r of
        INT_SIGNED v \<Rightarrow> (if v <s - 1 then None else Some v)
      | INT_UNSIGNED v \<Rightarrow> Some v
      | INT_POS_OVERFLOW \<Rightarrow> None
      | INT_NEG_OVERFLOW \<Rightarrow> None)"

text \<open>
  The throwing families: the return code and what was stored in \<open>*result\<close>, \<open>None\<close> when it is
  left unwritten.  Throwing \<open>IntegerOverflow\<close> returns -1.
\<close>

definition get_bits :: "'a int_read \<Rightarrow> int \<times> 'a option" where
  "get_bits r =
     (case r of
        INT_SIGNED v \<Rightarrow> (0, Some v)
      | INT_UNSIGNED v \<Rightarrow> (1, Some v)
      | INT_POS_OVERFLOW \<Rightarrow> (-1, None)
      | INT_NEG_OVERFLOW \<Rightarrow> (-1, None))"

definition as_int :: "int \<times> 'a::len word option \<Rightarrow> int \<times> 'a word option" where
  "as_int g =
     (case g of
        (error, Some v) \<Rightarrow> (if error = 1 \<and> v <s 0 then (-1, Some v) else (0, Some v))
      | (error, None) \<Rightarrow> (0, None))"

definition as_uint :: "int \<times> 'a::len word option \<Rightarrow> int \<times> 'a word option" where
  "as_uint g =
     (case g of
        (error, Some v) \<Rightarrow> (if error = 0 \<and> v <s 0 then (-1, Some v) else (0, Some v))
      | (error, None) \<Rightarrow> (0, None))"

definition as_uint_m1 :: "int \<times> 'a::len word option \<Rightarrow> int \<times> 'a word option" where
  "as_uint_m1 g =
     (case g of
        (error, Some v) \<Rightarrow> (if error = 0 \<and> v <s - 1 then (-1, Some v) else (0, Some v))
      | (error, None) \<Rightarrow> (0, None))"

definition DeeInt_TryAsInt8 :: "DeeInt \<Rightarrow> u8 option" where
  "DeeInt_TryAsInt8 self = try_as_int (DeeInt_TryGet8Bit self)"

definition DeeInt_TryAsInt16 :: "DeeInt \<Rightarrow> 16 word option" where
  "DeeInt_TryAsInt16 self = try_as_int (DeeInt_TryGet16Bit self)"

definition DeeInt_TryAsInt32 :: "DeeInt \<Rightarrow> u32 option" where
  "DeeInt_TryAsInt32 self = try_as_int (DeeInt_TryGet32Bit self)"

definition DeeInt_TryAsInt64 :: "DeeInt \<Rightarrow> u64 option" where
  "DeeInt_TryAsInt64 self = try_as_int (DeeInt_TryGet64Bit self)"

definition DeeInt_TryAsInt128 :: "DeeInt \<Rightarrow> 128 word option" where
  "DeeInt_TryAsInt128 self = try_as_int (DeeInt_TryGet128Bit self)"

definition DeeInt_TryAsUInt8 :: "DeeInt \<Rightarrow> u8 option" where
  "DeeInt_TryAsUInt8 self = try_as_uint (DeeInt_TryGet8Bit self)"

definition DeeInt_TryAsUInt16 :: "DeeInt \<Rightarrow> 16 word option" where
  "DeeInt_TryAsUInt16 self = try_as_uint (DeeInt_TryGet16Bit self)"

definition DeeInt_TryAsUInt32 :: "DeeInt \<Rightarrow> u32 option" where
  "DeeInt_TryAsUInt32 self = try_as_uint (DeeInt_TryGet32Bit self)"

definition DeeInt_TryAsUInt64 :: "DeeInt \<Rightarrow> u64 option" where
  "DeeInt_TryAsUInt64 self = try_as_uint (DeeInt_TryGet64Bit self)"

definition DeeInt_TryAsUInt128 :: "DeeInt \<Rightarrow> 128 word option" where
  "DeeInt_TryAsUInt128 self = try_as_uint (DeeInt_TryGet128Bit self)"

definition DeeInt_TryAsUInt8M1 :: "DeeInt \<Rightarrow> u8 option" where
  "DeeInt_TryAsUInt8M1 self = try_as_uint_m1 (DeeInt_TryGet8Bit self)"

definition DeeInt_TryAsUInt16M1 :: "DeeInt \<Rightarrow> 16 word option" where
  "DeeInt_TryAsUInt16M1 self = try_as_uint_m1 (DeeInt_TryGet16Bit self)"

definition DeeInt_TryAsUInt32M1 :: "DeeInt \<Rightarrow> u32 option" where
  "DeeInt_TryAsUInt32M1 self = try_as_uint_m1 (DeeInt_TryGet32Bit self)"

definition DeeInt_TryAsUInt64M1 :: "DeeInt \<Rightarrow> u64 option" where
  "DeeInt_TryAsUInt64M1 self = try_as_uint_m1 (DeeInt_TryGet64Bit self)"

definition DeeInt_TryAsUInt128M1 :: "DeeInt \<Rightarrow> 128 word option" where
  "DeeInt_TryAsUInt128M1 self = try_as_uint_m1 (DeeInt_TryGet128Bit self)"

definition DeeInt_Get8Bit :: "DeeInt \<Rightarrow> int \<times> u8 option" where
  "DeeInt_Get8Bit self = get_bits (DeeInt_TryGet8Bit self)"

definition DeeInt_Get16Bit :: "DeeInt \<Rightarrow> int \<times> 16 word option" where
  "DeeInt_Get16Bit self = get_bits (DeeInt_TryGet16Bit self)"

definition DeeInt_Get32Bit :: "DeeInt \<Rightarrow> int \<times> u32 option" where
  "DeeInt_Get32Bit self = get_bits (DeeInt_TryGet32Bit self)"

definition DeeInt_Get64Bit :: "DeeInt \<Rightarrow> int \<times> u64 option" where
  "DeeInt_Get64Bit self = get_bits (DeeInt_TryGet64Bit self)"

definition DeeInt_Get128Bit :: "DeeInt \<Rightarrow> int \<times> 128 word option" where
  "DeeInt_Get128Bit self = get_bits (DeeInt_TryGet128Bit self)"

definition DeeInt_AsInt8 :: "DeeInt \<Rightarrow> int \<times> u8 option" where
  "DeeInt_AsInt8 self = as_int (DeeInt_Get8Bit self)"

definition DeeInt_AsInt16 :: "DeeInt \<Rightarrow> int \<times> 16 word option" where
  "DeeInt_AsInt16 self = as_int (DeeInt_Get16Bit self)"

definition DeeInt_AsInt32 :: "DeeInt \<Rightarrow> int \<times> u32 option" where
  "DeeInt_AsInt32 self = as_int (DeeInt_Get32Bit self)"

definition DeeInt_AsInt64 :: "DeeInt \<Rightarrow> int \<times> u64 option" where
  "DeeInt_AsInt64 self = as_int (DeeInt_Get64Bit self)"

definition DeeInt_AsInt128 :: "DeeInt \<Rightarrow> int \<times> 128 word option" where
  "DeeInt_AsInt128 self = as_int (DeeInt_Get128Bit self)"

definition DeeInt_AsUInt8 :: "DeeInt \<Rightarrow> int \<times> u8 option" where
  "DeeInt_AsUInt8 self = as_uint (DeeInt_Get8Bit self)"

definition DeeInt_AsUInt16 :: "DeeInt \<Rightarrow> int \<times> 16 word option" where
  "DeeInt_AsUInt16 self = as_uint (DeeInt_Get16Bit self)"

definition DeeInt_AsUInt32 :: "DeeInt \<Rightarrow> int \<times> u32 option" where
  "DeeInt_AsUInt32 self = as_uint (DeeInt_Get32Bit self)"

definition DeeInt_AsUInt64 :: "DeeInt \<Rightarrow> int \<times> u64 option" where
  "DeeInt_AsUInt64 self = as_uint (DeeInt_Get64Bit self)"

definition DeeInt_AsUInt128 :: "DeeInt \<Rightarrow> int \<times> 128 word option" where
  "DeeInt_AsUInt128 self = as_uint (DeeInt_Get128Bit self)"

definition DeeInt_AsUInt8M1 :: "DeeInt \<Rightarrow> int \<times> u8 option" where
  "DeeInt_AsUInt8M1 self = as_uint_m1 (DeeInt_Get8Bit self)"

definition DeeInt_AsUInt16M1 :: "DeeInt \<Rightarrow> int \<times> 16 word option" where
  "DeeInt_AsUInt16M1 self = as_uint_m1 (DeeInt_Get16Bit self)"

definition DeeInt_AsUInt32M1 :: "DeeInt \<Rightarrow> int \<times> u32 option" where
  "DeeInt_AsUInt32M1 self = as_uint_m1 (DeeInt_Get32Bit self)"

definition DeeInt_AsUInt64M1 :: "DeeInt \<Rightarrow> int \<times> u64 option" where
  "DeeInt_AsUInt64M1 self = as_uint_m1 (DeeInt_Get64Bit self)"

definition DeeInt_AsUInt128M1 :: "DeeInt \<Rightarrow> int \<times> 128 word option" where
  "DeeInt_AsUInt128M1 self = as_uint_m1 (DeeInt_Get128Bit self)"

section \<open>The contract of a reader\<close>

text \<open>What reading the value \<open>k\<close> into a word must report.\<close>

definition read_spec :: "int \<Rightarrow> 'a::len word int_read" where
  "read_spec k =
     (if 2 ^ LENGTH('a) \<le> k then INT_POS_OVERFLOW
      else if k < - (2 ^ (LENGTH('a) - 1)) then INT_NEG_OVERFLOW
      else if k < 0 then INT_SIGNED (word_of_int k)
      else INT_UNSIGNED (word_of_int k))"

definition in_signed :: "nat \<Rightarrow> int \<Rightarrow> bool" where
  "in_signed w k \<longleftrightarrow> - (2 ^ (w - 1)) \<le> k \<and> k < 2 ^ (w - 1)"

definition in_unsigned :: "nat \<Rightarrow> int \<Rightarrow> bool" where
  "in_unsigned w k \<longleftrightarrow> 0 \<le> k \<and> k < 2 ^ w"

lemma signed_half:
  "(2::int) ^ LENGTH('a::len) = 2 * 2 ^ (LENGTH('a) - 1)"
  by (metis One_nat_def Suc_pred len_gt_0 power_Suc)

lemma sint_of_range:
  assumes "in_signed LENGTH('a::len) k"
  shows "sint (word_of_int k :: 'a word) = k"
  using assms signed_take_bit_int_eq_self [of "LENGTH('a) - Suc 0" k]
  by (simp add: in_signed_def signed_of_int)

lemma uint_of_range:
  assumes "in_unsigned LENGTH('a::len) k"
  shows "uint (word_of_int k :: 'a word) = k"
  using assms by (simp add: in_unsigned_def unsigned_of_int take_bit_int_eq_self)

text \<open>The five ranges a value can be in, and what the comparisons of the accessors see there.\<close>

lemma read_cases:
  fixes k :: int
  defines "w \<equiv> (word_of_int k :: 'a::len word)"
  obtains
    (pos) "(read_spec k :: 'a word int_read) = INT_POS_OVERFLOW" "\<not> in_signed LENGTH('a) k"
      "\<not> in_unsigned LENGTH('a) k" "0 \<le> k"
  | (neg) "(read_spec k :: 'a word int_read) = INT_NEG_OVERFLOW" "\<not> in_signed LENGTH('a) k"
      "\<not> in_unsigned LENGTH('a) k" "k < -1"
  | (signed) "read_spec k = INT_SIGNED w" "in_signed LENGTH('a) k"
      "\<not> in_unsigned LENGTH('a) k" "k < 0" "w <s 0" "w <s -1 \<longleftrightarrow> k \<noteq> -1"
  | (both) "read_spec k = INT_UNSIGNED w" "in_signed LENGTH('a) k"
      "in_unsigned LENGTH('a) k" "0 \<le> k" "\<not> w <s 0" "\<not> mask (LENGTH('a) - 1) < w"
  | (high) "read_spec k = INT_UNSIGNED w" "\<not> in_signed LENGTH('a) k"
      "in_unsigned LENGTH('a) k" "0 \<le> k" "w <s 0" "mask (LENGTH('a) - 1) < w"
proof -
  define H :: int where "H = 2 ^ (LENGTH('a) - 1)"
  have H: "1 \<le> H" "2 ^ LENGTH('a) = 2 * H" by (simp_all only: H_def signed_half) simp
  have r: "(read_spec k :: 'a word int_read) =
      (if 2 * H \<le> k then INT_POS_OVERFLOW else if k < - H then INT_NEG_OVERFLOW
       else if k < 0 then INT_SIGNED w else INT_UNSIGNED w)"
    by (simp only: read_spec_def w_def H_def signed_half)
  have s: "in_signed LENGTH('a) k \<longleftrightarrow> - H \<le> k \<and> k < H"
    and u: "in_unsigned LENGTH('a) k \<longleftrightarrow> 0 \<le> k \<and> k < 2 * H"
    by (simp_all only: in_signed_def in_unsigned_def H_def signed_half)
  have sw: "sint w = k" if "- H \<le> k" "k < H"
    using that s sint_of_range [of k, where 'a = 'a] by (simp only: w_def)
  have uw: "uint w = k" if "0 \<le> k" "k < 2 * H"
    using that u uint_of_range [of k, where 'a = 'a] by (simp only: w_def)
  have hw: "sint w = k - 2 * H" if "H \<le> k" "k < 2 * H"
    using sint_uint_cases [of w, folded H_def] uw that H by simp
  have m: "mask (LENGTH('a) - 1) < w \<longleftrightarrow> H - 1 < uint w"
  proof -
    have "uint (mask (LENGTH('a) - 1) :: 'a word) = mask (LENGTH('a) - 1)"
      by (simp only: take_bit_minus_one_eq_mask [symmetric] unsigned_take_bit_eq)
        (simp add: unsigned_minus_1_eq_mask)
    then show ?thesis by (simp only: word_less_def H_def mask_eq_exp_minus_1)
  qed
  show thesis
  proof (cases "2 * H \<le> k"; cases "k < - H"; cases "k < 0"; cases "k < H")
  qed (use H r s u sw uw hw m in \<open>auto intro: pos neg signed both high simp: word_sless_alt\<close>)
qed

locale int_reader =
  fixes tryget :: "DeeInt \<Rightarrow> 'a::len word int_read"
  assumes tryget_spec: "int_ok self \<Longrightarrow> tryget self = read_spec (int_val self)"
begin

lemma try_as_int_spec:
  assumes "int_ok self"
  shows "try_as_int (tryget self)
    = (if in_signed LENGTH('a) (int_val self) then Some (word_of_int (int_val self)) else None)"
  by (cases "int_val self" rule: read_cases [where 'a = 'a])
    (simp_all add: tryget_spec [OF assms] try_as_int_def)

lemma try_as_uint_spec:
  assumes "int_ok self"
  shows "try_as_uint (tryget self)
    = (if in_unsigned LENGTH('a) (int_val self) then Some (word_of_int (int_val self)) else None)"
  by (cases "int_val self" rule: read_cases [where 'a = 'a])
    (simp_all add: tryget_spec [OF assms] try_as_uint_def)

lemma try_as_uint_m1_spec:
  assumes "int_ok self"
  shows "try_as_uint_m1 (tryget self)
    = (if in_unsigned LENGTH('a) (int_val self) \<or> int_val self = -1
       then Some (word_of_int (int_val self)) else None)"
  by (cases "int_val self" rule: read_cases [where 'a = 'a])
    (auto simp: tryget_spec [OF assms] try_as_uint_m1_def)

lemma try_as_int_represents:
  assumes "represents self (sint v)"
  shows "try_as_int (tryget self) = Some v"
proof -
  have "in_signed LENGTH('a) (sint v)"
    using sint_greater_eq [of v] sint_less [of v] by (simp add: in_signed_def)
  then show ?thesis using assms try_as_int_spec [of self] by (simp add: represents_def)
qed

lemma try_as_uint_represents:
  assumes "represents self (uint v)"
  shows "try_as_uint (tryget self) = Some v"
proof -
  have "in_unsigned LENGTH('a) (uint v)" using uint_lt2p [of v] by (simp add: in_unsigned_def)
  then show ?thesis using assms try_as_uint_spec [of self] by (simp add: represents_def)
qed

lemma get_spec:
  assumes "int_ok self"
  shows "get_bits (tryget self)
    = (if in_signed LENGTH('a) (int_val self) \<or> in_unsigned LENGTH('a) (int_val self)
       then (if int_val self < 0 then 0 else 1, Some (word_of_int (int_val self)))
       else (-1, None))"
  by (cases "int_val self" rule: read_cases [where 'a = 'a])
    (simp_all add: tryget_spec [OF assms] get_bits_def)

text \<open>The signed accessors: only a positive overflow that still fits the width is reported.\<close>

lemma as_int_spec:
  assumes "int_ok self"
  shows "as_int (get_bits (tryget self))
    = (if in_signed LENGTH('a) (int_val self) then (0, Some (word_of_int (int_val self)))
       else if in_unsigned LENGTH('a) (int_val self) then (-1, Some (word_of_int (int_val self)))
       else (0, None))"
  by (cases "int_val self" rule: read_cases [where 'a = 'a])
    (simp_all add: get_spec [OF assms] as_int_def)

lemma as_uint_spec:
  assumes "int_ok self"
  shows "as_uint (get_bits (tryget self))
    = (if in_unsigned LENGTH('a) (int_val self) then (0, Some (word_of_int (int_val self)))
       else if in_signed LENGTH('a) (int_val self) then (-1, Some (word_of_int (int_val self)))
       else (0, None))"
  by (cases "int_val self" rule: read_cases [where 'a = 'a])
    (simp_all add: get_spec [OF assms] as_uint_def)

lemma as_uint_m1_spec:
  assumes "int_ok self"
  shows "as_uint_m1 (get_bits (tryget self))
    = (if in_unsigned LENGTH('a) (int_val self) \<or> int_val self = -1
         then (0, Some (word_of_int (int_val self)))
       else if in_signed LENGTH('a) (int_val self) then (-1, Some (word_of_int (int_val self)))
       else (0, None))"
  by (cases "int_val self" rule: read_cases [where 'a = 'a])
    (auto simp: get_spec [OF assms] as_uint_m1_def)

end

section \<open>The readers meet the contract\<close>

text \<open>Both loops detect the same overflow: the value times the base does not fit.\<close>

lemma shift_in_digit:
  fixes p :: "'a::len word" and d :: digit
  assumes "unat d < BASE" "DIGIT_BITS \<le> LENGTH('a)"
  defines "rv \<equiv> push_bit DIGIT_BITS p OR ucast d"
  shows "unat p * BASE < 2 ^ LENGTH('a) \<Longrightarrow> unat rv = unat p * BASE + unat d"
    and "drop_bit DIGIT_BITS rv = p \<longleftrightarrow> unat p * BASE < 2 ^ LENGTH('a)"
proof -
  have "(2::nat) ^ DIGIT_BITS \<le> 2 ^ LENGTH('a)" using assms(2) by (intro power_increasing) simp_all
  with assms(1) have "unat d < 2 ^ LENGTH('a)" unfolding BASE_def by (rule order.strict_trans2)
  then have ud: "unat (ucast d :: 'a word) = unat d" by (simp add: unat_ucast_word)
  show sum: "unat rv = unat p * BASE + unat d" if "unat p * BASE < 2 ^ LENGTH('a)"
    using unat_or_shifted [of "ucast d :: 'a word" DIGIT_BITS p] that assms(1)
    by (simp add: ud exp_DIGIT_BITS rv_def)
  show "drop_bit DIGIT_BITS rv = p \<longleftrightarrow> unat p * BASE < 2 ^ LENGTH('a)"
  proof
    assume "drop_bit DIGIT_BITS rv = p"
    then have "unat p = unat rv div BASE" by (metis exp_DIGIT_BITS unat_drop_bit_word)
    then have "unat p * BASE \<le> unat rv" by simp
    also have "\<dots> < 2 ^ LENGTH('a)" by (rule unsigned_less)
    finally show "unat p * BASE < 2 ^ LENGTH('a)" .
  next
    assume "unat p * BASE < 2 ^ LENGTH('a)"
    from sum [OF this] show "drop_bit DIGIT_BITS rv = p"
      using assms(1) by (simp add: word_unat_eq_iff unat_drop_bit_word exp_DIGIT_BITS)
  qed
qed

lemma get_loop_spec:
  fixes p :: "'a::len word"
  assumes "digits_ok ds" "DIGIT_BITS \<le> LENGTH('a)"
  defines "v \<equiv> unat p * BASE ^ length ds + dval (rev ds)"
  shows "get_loop p ds = (if v < 2 ^ LENGTH('a) then Some (of_nat v) else None)"
  using assms(1) unfolding v_def
proof (induction ds arbitrary: p)
  case Nil
  then show ?case by simp
next
  case (Cons d ds)
  let ?rv = "push_bit DIGIT_BITS p OR ucast d :: 'a word"
  have d: "unat d < BASE" "digits_ok ds" using Cons.prems by simp_all
  have v: "unat p * BASE ^ length (d # ds) + dval (rev (d # ds))
      = (unat p * BASE + unat d) * BASE ^ length ds + dval (rev ds)"
    by (simp add: algebra_simps)
  show ?case
  proof (cases "unat p * BASE < 2 ^ LENGTH('a)")
    case True
    then show ?thesis
      using Cons.IH [OF d(2), of ?rv] shift_in_digit [OF d(1) assms(2), of p]
      by (simp only: get_loop.simps Let_def v simp_thms if_False)
  next
    case False
    have "unat p * BASE * 1 \<le> (unat p * BASE + unat d) * BASE ^ length ds"
      by (intro mult_le_mono) (simp_all add: Suc_le_eq)
    then have "\<not> (unat p * BASE + unat d) * BASE ^ length ds + dval (rev ds) < 2 ^ LENGTH('a)"
      using False by linarith
    then show ?thesis
      using False shift_in_digit(2) [OF d(1) assms(2), of p]
      by (simp only: get_loop.simps Let_def v simp_thms if_True if_False)
  qed
qed

lemma get_loop128_eq:
  assumes "digits_ok ds"
  shows "get_loop128 p ds = get_loop p ds"
  using assms
proof (induction ds arbitrary: p)
  case Nil
  then show ?case by simp
next
  case (Cons d ds)
  have "drop_bit (128 - DIGIT_BITS) p = 0 \<longleftrightarrow> unat p * BASE < 2 ^ LENGTH(128)"
    using unat_drop_bit_word [of "128 - DIGIT_BITS" p] unat_eq_zero [of "drop_bit (128 - DIGIT_BITS) p"]
    by (simp add: DIGIT_BITS_def BASE_num div_eq_0_iff)
  then have "drop_bit (128 - DIGIT_BITS) p = 0 \<longleftrightarrow> drop_bit DIGIT_BITS (push_bit DIGIT_BITS p OR ucast d) = p"
    using shift_in_digit(2) [of d p] Cons.prems by (simp add: DIGIT_BITS_def)
  then show ?case using Cons by (simp add: Let_def)
qed

lemma digits_one:
  assumes "int_ok me" "\<bar>ob_size me\<bar> = 1"
  shows "int_mag me = unat (ob_digit me ! 0)" "unat (ob_digit me ! 0) < BASE"
proof -
  obtain d ds where d: "ob_digit me = d # ds"
    using assms by (cases "ob_digit me") (auto simp: int_ok_def int_mem_def)
  then have digits: "digits me = [d]" using assms by (simp add: digits_def)
  then show "int_mag me = unat (ob_digit me ! 0)" by (simp add: int_mag_def d)
  show "unat (ob_digit me ! 0) < BASE"
    using assms(1) int_mem_digits_ok [of me] digits d by simp
qed

lemma digits_ok_rev [simp]: "digits_ok (rev ds) = digits_ok ds"
  by (simp add: digits_ok_alt)

lemma get_loop_value:
  assumes "int_ok me" "DIGIT_BITS \<le> LENGTH('a::len)"
  shows "get_loop (0 :: 'a word) (rev (digits me))
    = (if int_mag me < 2 ^ LENGTH('a) then Some (of_nat (int_mag me)) else None)"
  using get_loop_spec [of "rev (digits me)" "0 :: 'a word"] assms
  by (simp add: int_mag_def int_mem_digits_ok)

lemma try_get_spec:
  assumes "int_ok me" "DIGIT_BITS < LENGTH('a::len)"
  shows "(try_get me :: 'a word int_read) = read_spec (int_val me)"
proof -
  define H :: nat where "H = 2 ^ (LENGTH('a) - 1)"
  have L: "2 ^ LENGTH('a) = 2 * H" unfolding H_def
    by (metis One_nat_def Suc_pred len_gt_0 power_Suc)
  have "DIGIT_BITS \<le> LENGTH('a) - 1" using assms(2) by simp
  then have B: "BASE \<le> H" unfolding H_def BASE_def by (intro power_increasing) simp_all
  have "0 < BASE" by simp
  with B have H: "0 < H" by linarith
  have spec: "(read_spec k :: 'a word int_read) =
      (if 2 * int H \<le> k then INT_POS_OVERFLOW else if k < - int H then INT_NEG_OVERFLOW
       else if k < 0 then INT_SIGNED (word_of_int k) else INT_UNSIGNED (word_of_int k))" for k
    by (simp only: read_spec_def H_def signed_half of_nat_power of_nat_numeral)
  define n where "n = unat (ob_digit me ! 0)"
  have uc: "ucast (ob_digit me ! 0) = (word_of_int (int n) :: 'a word)"
    unfolding n_def by simp
  consider (zero) "ob_size me = 0" | (one) "ob_size me = 1" | (minus) "ob_size me = -1"
    | (pos) "1 < ob_size me" | (neg) "ob_size me < -1" by linarith
  then show ?thesis
  proof cases
    case zero
    then show ?thesis using H by (simp add: try_get_def spec int_val_def)
  next
    case one
    then have v: "int_val me = int n" "n < BASE"
      using digits_one [OF assms(1)] int_val_nonneg [of me] by (simp_all add: n_def)
    have "try_get me = (INT_UNSIGNED (word_of_int (int n)) :: 'a word int_read)"
      using one by (simp add: try_get_def uc)
    then show ?thesis using v B by (simp add: spec)
  next
    case minus
    then have v: "int_val me = - int n" "n < BASE"
      using digits_one [OF assms(1)] int_val_neg [of me] by (simp_all add: n_def)
    have "try_get me = (INT_SIGNED (word_of_int (- int n)) :: 'a word int_read)"
      using minus by (simp add: try_get_def uc)
    moreover have "int_val me < 0" using minus int_val_less_0_iff [OF assms(1)] by simp
    ultimately show ?thesis using v B by (simp add: spec)
  next
    case pos
    then have v: "int_val me = int (int_mag me)" by (simp add: int_val_nonneg)
    show ?thesis
      using pos get_loop_value [OF assms(1), where 'a = 'a] assms(2) by (simp add: try_get_def spec v L)
  next
    case neg
    then have v: "int_val me = - int (int_mag me)" "int_val me < 0"
      using int_val_less_0_iff [OF assms(1)] by (simp_all add: int_val_neg)
    have p: "unat (push_bit (LENGTH('a) - 1) 1 :: 'a word) = H"
      by (subst unat_push_bit_no_wrap) (simp_all add: H_def)
    have "push_bit (LENGTH('a) - 1) 1 < (of_nat (int_mag me) :: 'a word) \<longleftrightarrow> H < int_mag me"
      if "int_mag me < 2 * H"
      using that by (simp only: word_less_nat_alt p) (simp add: unat_of_nat L)
    then show ?thesis
      using neg get_loop_value [OF assms(1), where 'a = 'a] assms(2) v by (simp add: try_get_def spec L)
  qed
qed

lemma sint_minus_digit:
  fixes d :: digit
  assumes "unat d < BASE"
  shows "sint (- d) = - int (unat d)"
proof -
  have e: "(2::int) ^ (LENGTH(32) - 1) = 2147483648" by simp
  have b: "int (unat d) < 1073741824" "0 \<le> int (unat d)"
    using assms unfolding BASE_num of_nat_less_numeral_iff by simp_all
  have s: "sint d = int (unat d)" using assms by (intro sint_small) (simp add: BASE_num)
  have "sint (- d) = - sint d"
  proof (rule sint_minus_range)
    show "- (2 ^ (LENGTH(32) - 1)) \<le> - sint d" unfolding e s using b by linarith
    show "- sint d < 2 ^ (LENGTH(32) - 1)" unfolding e s using b by linarith
  qed
  then show ?thesis by (simp only: s)
qed

lemma try_get128_eq:
  assumes "int_ok me"
  shows "DeeInt_TryGet128Bit me = try_get me"
proof -
  have "scast (- (ob_digit me ! 0)) = (- ucast (ob_digit me ! 0) :: 128 word)" if "ob_size me = -1"
  proof -
    have "unat (ob_digit me ! 0) < BASE" using digits_one [OF assms] that by simp
    from sint_minus_digit [OF this] show ?thesis by (simp add: scast_eq)
  qed
  then show ?thesis
    using get_loop128_eq [of "rev (digits me)" 0] assms
    by (simp add: DeeInt_TryGet128Bit_def try_get_def int_mem_digits_ok split: option.split)
qed

interpretation rd32: int_reader DeeInt_TryGet32Bit
  by unfold_locales (simp add: DeeInt_TryGet32Bit_def try_get_spec DIGIT_BITS_def)

interpretation rd64: int_reader DeeInt_TryGet64Bit
  by unfold_locales (simp add: DeeInt_TryGet64Bit_def try_get_spec DIGIT_BITS_def)

interpretation rd128: int_reader DeeInt_TryGet128Bit
  by unfold_locales (simp add: try_get128_eq try_get_spec DIGIT_BITS_def)

lemma ucast_word_of_int_down:
  assumes "LENGTH('b) \<le> LENGTH('a)"
  shows "(ucast (word_of_int k :: 'a::len word) :: 'b::len word) = word_of_int k"
  using assms by (intro bit_word_eqI) (simp add: bit_simps)

text \<open>The two narrow readers classify what the 32-bit reader returned.\<close>

lemma narrow_reader:
  fixes r :: "u32 int_read" and k :: int
  assumes r: "r = read_spec k" and le: "LENGTH('b::len) < 32"
  shows "(case r of
        INT_UNSIGNED v \<Rightarrow> if mask LENGTH('b) < v then INT_POS_OVERFLOW else INT_UNSIGNED (ucast v)
      | INT_SIGNED v \<Rightarrow>
          if 2 ^ (LENGTH('b) - 1) - 1 < sint v then INT_POS_OVERFLOW
          else if sint v < - (2 ^ (LENGTH('b) - 1)) then INT_NEG_OVERFLOW
          else INT_SIGNED (ucast v)
      | INT_POS_OVERFLOW \<Rightarrow> INT_POS_OVERFLOW
      | INT_NEG_OVERFLOW \<Rightarrow> INT_NEG_OVERFLOW) = (read_spec k :: 'b word int_read)"
    (is "?narrow r = _")
proof -
  define H :: int where "H = 2 ^ (LENGTH('b) - 1)"
  have H: "1 \<le> H" "2 ^ LENGTH('b) = 2 * H" by (simp_all only: H_def signed_half) simp
  have "2 ^ (LENGTH('b) - 1) \<le> (2::int) ^ 30"
    using le by (intro power_increasing) simp_all
  have Hb: "2 ^ (LENGTH('b) - Suc 0) = H" by (simp add: H_def)
  from \<open>_ \<le> 2 ^ 30\<close> have H30: "H \<le> 1073741824" by (simp add: H_def)
  have r': "r = (if 4294967296 \<le> k then INT_POS_OVERFLOW else if k < - 2147483648 then INT_NEG_OVERFLOW
       else if k < 0 then INT_SIGNED (word_of_int k) else INT_UNSIGNED (word_of_int k))"
    by (simp add: r read_spec_def)
  have spec: "(read_spec k :: 'b word int_read) =
      (if 2 * H \<le> k then INT_POS_OVERFLOW else if k < - H then INT_NEG_OVERFLOW
       else if k < 0 then INT_SIGNED (word_of_int k) else INT_UNSIGNED (word_of_int k))"
    by (simp only: read_spec_def H_def signed_half)
  have uc: "(ucast (word_of_int k :: u32) :: 'b word) = word_of_int k"
    using le by (intro ucast_word_of_int_down) simp
  have m: "mask LENGTH('b) < (word_of_int k :: u32) \<longleftrightarrow> 2 * H \<le> k" if "0 \<le> k" "k < 4294967296"
  proof -
    have "uint (word_of_int k :: u32) = k"
      using that by (intro uint_of_range) (simp add: in_unsigned_def)
    moreover have "uint (mask LENGTH('b) :: u32) = 2 * H - 1"
      unfolding H(2) [symmetric] mask_eq_exp_minus_1 [symmetric]
      using le by (simp only: take_bit_minus_one_eq_mask [symmetric] unsigned_take_bit_eq)
        (simp add: unsigned_minus_1_eq_mask min_def)
    ultimately show ?thesis by (simp only: word_less_def) linarith
  qed
  have sv: "sint (word_of_int k :: u32) = k" if "- 2147483648 \<le> k" "k < 0"
    using that by (intro sint_of_range) (simp add: in_signed_def)
  consider "4294967296 \<le> k" | "0 \<le> k" "k < 4294967296" | "- 2147483648 \<le> k" "k < 0"
    | "k < - 2147483648" by linarith
  then show ?thesis
    by cases (use H H30 m sv in \<open>simp_all add: spec r' uc Hb\<close>)
qed

interpretation rd16: int_reader DeeInt_TryGet16Bit
proof
  fix self assume "int_ok self"
  then show "DeeInt_TryGet16Bit self = read_spec (int_val self)"
    using narrow_reader [OF rd32.tryget_spec, of self, where 'b = 16]
    by (simp add: DeeInt_TryGet16Bit_def mask_numeral word_sless_alt cong: int_read.case_cong if_cong)
qed

interpretation rd8: int_reader DeeInt_TryGet8Bit
proof
  fix self assume "int_ok self"
  then show "DeeInt_TryGet8Bit self = read_spec (int_val self)"
    using narrow_reader [OF rd32.tryget_spec, of self, where 'b = 8]
    by (simp add: DeeInt_TryGet8Bit_def mask_numeral word_sless_alt cong: int_read.case_cong if_cong)
qed

section \<open>Properties\<close>

text \<open>\<open>accept\<close>: the value is stored exactly if it is accepted.\<close>

definition accept :: "bool \<Rightarrow> int \<Rightarrow> 'a::len word option" where
  "accept ok k = (if ok then Some (word_of_int k) else None)"

text \<open>
  \<open>stored\<close>: code 0 with the value stored where it is accepted, code -1 where it only fits the
  width with the other sign; any other value stores nothing and yet returns code 0.
\<close>

definition stored :: "bool \<Rightarrow> bool \<Rightarrow> int \<Rightarrow> int \<times> 'a::len word option" where
  "stored ok fits k =
     (if ok then (0, Some (word_of_int k)) else if fits then (-1, Some (word_of_int k)) else (0, None))"

definition get_spec :: "nat \<Rightarrow> int \<Rightarrow> int \<times> 'a::len word option" where
  "get_spec w k =
     (if in_signed w k \<or> in_unsigned w k then (if k < 0 then 0 else 1, Some (word_of_int k))
      else (-1, None))"

lemmas try_as_defs =
  DeeInt_TryAsInt8_def DeeInt_TryAsUInt8_def DeeInt_TryAsUInt8M1_def
  DeeInt_TryAsInt16_def DeeInt_TryAsUInt16_def DeeInt_TryAsUInt16M1_def
  DeeInt_TryAsInt32_def DeeInt_TryAsUInt32_def DeeInt_TryAsUInt32M1_def
  DeeInt_TryAsInt64_def DeeInt_TryAsUInt64_def DeeInt_TryAsUInt64M1_def
  DeeInt_TryAsInt128_def DeeInt_TryAsUInt128_def DeeInt_TryAsUInt128M1_def

lemmas get_as_defs =
  DeeInt_Get8Bit_def DeeInt_AsInt8_def DeeInt_AsUInt8_def DeeInt_AsUInt8M1_def
  DeeInt_Get16Bit_def DeeInt_AsInt16_def DeeInt_AsUInt16_def DeeInt_AsUInt16M1_def
  DeeInt_Get32Bit_def DeeInt_AsInt32_def DeeInt_AsUInt32_def DeeInt_AsUInt32M1_def
  DeeInt_Get64Bit_def DeeInt_AsInt64_def DeeInt_AsUInt64_def DeeInt_AsUInt64M1_def
  DeeInt_Get128Bit_def DeeInt_AsInt128_def DeeInt_AsUInt128_def DeeInt_AsUInt128M1_def

lemmas try_as_specs =
  rd8.try_as_int_spec rd8.try_as_uint_spec rd8.try_as_uint_m1_spec
  rd16.try_as_int_spec rd16.try_as_uint_spec rd16.try_as_uint_m1_spec
  rd32.try_as_int_spec rd32.try_as_uint_spec rd32.try_as_uint_m1_spec
  rd64.try_as_int_spec rd64.try_as_uint_spec rd64.try_as_uint_m1_spec
  rd128.try_as_int_spec rd128.try_as_uint_spec rd128.try_as_uint_m1_spec

lemmas get_specs =
  rd8.get_spec rd16.get_spec rd32.get_spec rd64.get_spec rd128.get_spec

lemmas get_as_specs =
  rd8.as_int_spec rd8.as_uint_spec rd8.as_uint_m1_spec
  rd16.as_int_spec rd16.as_uint_spec rd16.as_uint_m1_spec
  rd32.as_int_spec rd32.as_uint_spec rd32.as_uint_m1_spec
  rd64.as_int_spec rd64.as_uint_spec rd64.as_uint_m1_spec
  rd128.as_int_spec rd128.as_uint_spec rd128.as_uint_m1_spec

lemma tryget_all_widths:
  assumes "int_ok self"
  shows "DeeInt_TryGet8Bit self = read_spec (int_val self)
   \<and> DeeInt_TryGet16Bit self = read_spec (int_val self)
   \<and> DeeInt_TryGet32Bit self = read_spec (int_val self)
   \<and> DeeInt_TryGet64Bit self = read_spec (int_val self)
   \<and> DeeInt_TryGet128Bit self = read_spec (int_val self)"
  by (intro conjI rd8.tryget_spec rd16.tryget_spec rd32.tryget_spec rd64.tryget_spec
      rd128.tryget_spec assms)

lemma tryas_all_widths:
  assumes "int_ok self"
  shows "DeeInt_TryAsInt8 self = accept (in_signed 8 (int_val self)) (int_val self)
   \<and> DeeInt_TryAsInt16 self = accept (in_signed 16 (int_val self)) (int_val self)
   \<and> DeeInt_TryAsInt32 self = accept (in_signed 32 (int_val self)) (int_val self)
   \<and> DeeInt_TryAsInt64 self = accept (in_signed 64 (int_val self)) (int_val self)
   \<and> DeeInt_TryAsInt128 self = accept (in_signed 128 (int_val self)) (int_val self)
   \<and> DeeInt_TryAsUInt8 self = accept (in_unsigned 8 (int_val self)) (int_val self)
   \<and> DeeInt_TryAsUInt16 self = accept (in_unsigned 16 (int_val self)) (int_val self)
   \<and> DeeInt_TryAsUInt32 self = accept (in_unsigned 32 (int_val self)) (int_val self)
   \<and> DeeInt_TryAsUInt64 self = accept (in_unsigned 64 (int_val self)) (int_val self)
   \<and> DeeInt_TryAsUInt128 self = accept (in_unsigned 128 (int_val self)) (int_val self)
   \<and> DeeInt_TryAsUInt8M1 self
       = accept (in_unsigned 8 (int_val self) \<or> int_val self = -1) (int_val self)
   \<and> DeeInt_TryAsUInt16M1 self
       = accept (in_unsigned 16 (int_val self) \<or> int_val self = -1) (int_val self)
   \<and> DeeInt_TryAsUInt32M1 self
       = accept (in_unsigned 32 (int_val self) \<or> int_val self = -1) (int_val self)
   \<and> DeeInt_TryAsUInt64M1 self
       = accept (in_unsigned 64 (int_val self) \<or> int_val self = -1) (int_val self)
   \<and> DeeInt_TryAsUInt128M1 self
       = accept (in_unsigned 128 (int_val self) \<or> int_val self = -1) (int_val self)"
  by (simp add: try_as_defs try_as_specs [OF assms] accept_def)

lemma new_try_as:
  "DeeInt_TryAsInt8 (DeeInt_NewInt8 s8) = Some s8 \<and> DeeInt_TryAsUInt8 (DeeInt_NewUInt8 u8) = Some u8
   \<and> DeeInt_TryAsInt16 (DeeInt_NewInt16 s16) = Some s16 \<and> DeeInt_TryAsUInt16 (DeeInt_NewUInt16 u16) = Some u16
   \<and> DeeInt_TryAsInt32 (DeeInt_NewInt32 s32) = Some s32 \<and> DeeInt_TryAsUInt32 (DeeInt_NewUInt32 u32) = Some u32
   \<and> DeeInt_TryAsInt64 (DeeInt_NewInt64 s64) = Some s64 \<and> DeeInt_TryAsUInt64 (DeeInt_NewUInt64 u64) = Some u64
   \<and> DeeInt_TryAsInt128 (DeeInt_NewInt128 s128) = Some s128 \<and> DeeInt_TryAsUInt128 (DeeInt_NewUInt128 u128) = Some u128"
proof (intro conjI)
  show "DeeInt_TryAsInt8 (DeeInt_NewInt8 s8) = Some s8"
    using rd8.try_as_int_represents [OF represents_NewInt8] by (simp add: try_as_defs)
  show "DeeInt_TryAsUInt8 (DeeInt_NewUInt8 u8) = Some u8"
    using rd8.try_as_uint_represents [OF represents_NewUInt8] by (simp add: try_as_defs)
  show "DeeInt_TryAsInt16 (DeeInt_NewInt16 s16) = Some s16"
    using rd16.try_as_int_represents [OF represents_NewInt16] by (simp add: try_as_defs)
  show "DeeInt_TryAsUInt16 (DeeInt_NewUInt16 u16) = Some u16"
    using rd16.try_as_uint_represents [OF represents_NewUInt16] by (simp add: try_as_defs)
  show "DeeInt_TryAsInt32 (DeeInt_NewInt32 s32) = Some s32"
    using rd32.try_as_int_represents [OF represents_NewInt32] by (simp add: try_as_defs)
  show "DeeInt_TryAsUInt32 (DeeInt_NewUInt32 u32) = Some u32"
    using rd32.try_as_uint_represents [OF represents_NewUInt32] by (simp add: try_as_defs)
  show "DeeInt_TryAsInt64 (DeeInt_NewInt64 s64) = Some s64"
    using rd64.try_as_int_represents [OF represents_NewInt64] by (simp add: try_as_defs)
  show "DeeInt_TryAsUInt64 (DeeInt_NewUInt64 u64) = Some u64"
    using rd64.try_as_uint_represents [OF represents_NewUInt64] by (simp add: try_as_defs)
  show "DeeInt_TryAsInt128 (DeeInt_NewInt128 s128) = Some s128"
    using rd128.try_as_int_represents [OF represents_NewInt128] by (simp add: try_as_defs)
  show "DeeInt_TryAsUInt128 (DeeInt_NewUInt128 u128) = Some u128"
    using rd128.try_as_uint_represents [OF represents_NewUInt128] by (simp add: try_as_defs)
qed

lemma new_roundtrip:
  "represents (DeeInt_NewInt8 s8) (sint s8) \<and> represents (DeeInt_NewUInt8 u8) (uint u8)
   \<and> represents (DeeInt_NewInt16 s16) (sint s16) \<and> represents (DeeInt_NewUInt16 u16) (uint u16)
   \<and> represents (DeeInt_NewInt32 s32) (sint s32) \<and> represents (DeeInt_NewUInt32 u32) (uint u32)
   \<and> represents (DeeInt_NewInt64 s64) (sint s64) \<and> represents (DeeInt_NewUInt64 u64) (uint u64)
   \<and> represents (DeeInt_NewInt128 s128) (sint s128) \<and> represents (DeeInt_NewUInt128 u128) (uint u128)
   \<and> DeeInt_TryAsInt8 (DeeInt_NewInt8 s8) = Some s8 \<and> DeeInt_TryAsUInt8 (DeeInt_NewUInt8 u8) = Some u8
   \<and> DeeInt_TryAsInt16 (DeeInt_NewInt16 s16) = Some s16 \<and> DeeInt_TryAsUInt16 (DeeInt_NewUInt16 u16) = Some u16
   \<and> DeeInt_TryAsInt32 (DeeInt_NewInt32 s32) = Some s32 \<and> DeeInt_TryAsUInt32 (DeeInt_NewUInt32 u32) = Some u32
   \<and> DeeInt_TryAsInt64 (DeeInt_NewInt64 s64) = Some s64 \<and> DeeInt_TryAsUInt64 (DeeInt_NewUInt64 u64) = Some u64
   \<and> DeeInt_TryAsInt128 (DeeInt_NewInt128 s128) = Some s128 \<and> DeeInt_TryAsUInt128 (DeeInt_NewUInt128 u128) = Some u128"
  using represents_New [of s8 u8 s16 u16 s32 u32 s64 u64 s128 u128] new_try_as [of s8 u8 s16 u16 s32 u32 s64 u64 s128 u128]
  by blast

lemma get_as_all_widths:
  assumes "int_ok self"
  shows "DeeInt_Get8Bit self = get_spec 8 (int_val self)
   \<and> DeeInt_Get16Bit self = get_spec 16 (int_val self)
   \<and> DeeInt_Get32Bit self = get_spec 32 (int_val self)
   \<and> DeeInt_Get64Bit self = get_spec 64 (int_val self)
   \<and> DeeInt_Get128Bit self = get_spec 128 (int_val self)
   \<and> DeeInt_AsInt8 self
       = stored (in_signed 8 (int_val self)) (in_unsigned 8 (int_val self)) (int_val self)
   \<and> DeeInt_AsInt16 self
       = stored (in_signed 16 (int_val self)) (in_unsigned 16 (int_val self)) (int_val self)
   \<and> DeeInt_AsInt32 self
       = stored (in_signed 32 (int_val self)) (in_unsigned 32 (int_val self)) (int_val self)
   \<and> DeeInt_AsInt64 self
       = stored (in_signed 64 (int_val self)) (in_unsigned 64 (int_val self)) (int_val self)
   \<and> DeeInt_AsInt128 self
       = stored (in_signed 128 (int_val self)) (in_unsigned 128 (int_val self)) (int_val self)
   \<and> DeeInt_AsUInt8 self
       = stored (in_unsigned 8 (int_val self)) (in_signed 8 (int_val self)) (int_val self)
   \<and> DeeInt_AsUInt16 self
       = stored (in_unsigned 16 (int_val self)) (in_signed 16 (int_val self)) (int_val self)
   \<and> DeeInt_AsUInt32 self
       = stored (in_unsigned 32 (int_val self)) (in_signed 32 (int_val self)) (int_val self)
   \<and> DeeInt_AsUInt64 self
       = stored (in_unsigned 64 (int_val self)) (in_signed 64 (int_val self)) (int_val self)
   \<and> DeeInt_AsUInt128 self
       = stored (in_unsigned 128 (int_val self)) (in_signed 128 (int_val self)) (int_val self)
   \<and> DeeInt_AsUInt8M1 self
       = stored (in_unsigned 8 (int_val self) \<or> int_val self = -1)
           (in_signed 8 (int_val self)) (int_val self)
   \<and> DeeInt_AsUInt16M1 self
       = stored (in_unsigned 16 (int_val self) \<or> int_val self = -1)
           (in_signed 16 (int_val self)) (int_val self)
   \<and> DeeInt_AsUInt32M1 self
       = stored (in_unsigned 32 (int_val self) \<or> int_val self = -1)
           (in_signed 32 (int_val self)) (int_val self)
   \<and> DeeInt_AsUInt64M1 self
       = stored (in_unsigned 64 (int_val self) \<or> int_val self = -1)
           (in_signed 64 (int_val self)) (int_val self)
   \<and> DeeInt_AsUInt128M1 self
       = stored (in_unsigned 128 (int_val self) \<or> int_val self = -1)
           (in_signed 128 (int_val self)) (int_val self)"
  unfolding get_as_defs
  by (intro conjI; (simp add: get_as_specs [OF assms] stored_def; fail
    | simp add: get_specs [OF assms] get_spec_def))

text \<open>
  C37: Reading and making machine integers: at every width, \<open>DeeInt_TryGet\<close> reports positive or
  negative overflow exactly outside \<open>[-2\<^sup>n\<^sup>-\<^sup>1, 2\<^sup>n)\<close>, and otherwise stores the value, marked signed
  if it is negative.  The accessors that report a failure as \<open>false\<close> accept exactly the values of
  their type (signed, unsigned, or unsigned and -1, at every width) and store that value.
  Building an integer from a machine integer of every width gives a well-formed object of exactly
  the value of the argument, including the most negative one and the cached range, and reading it
  back is the identity, signed and unsigned.  The throwing accessors: \<open>DeeInt_Get\<close> returns -1 and stores
  nothing exactly if the value does not fit the width.  \<open>DeeInt_As\<close> stores exactly the accepted values,
  but its return code is -1 only when the value fits the width with the other sign: on any other
  overflow it drops the error code of \<open>DeeInt_Get\<close> and returns 0 with the result left unwritten,
  although its documentation (in int.h and at its definition) says that it returns -1 on an overflow.
\<close>

theorem int_machine_conversions:
  assumes "int_ok self"
  shows "DeeInt_TryGet8Bit self = read_spec (int_val self)
   \<and> DeeInt_TryGet16Bit self = read_spec (int_val self)
   \<and> DeeInt_TryGet32Bit self = read_spec (int_val self)
   \<and> DeeInt_TryGet64Bit self = read_spec (int_val self)
   \<and> DeeInt_TryGet128Bit self = read_spec (int_val self)
   \<and> DeeInt_TryAsInt8 self = accept (in_signed 8 (int_val self)) (int_val self)
   \<and> DeeInt_TryAsInt16 self = accept (in_signed 16 (int_val self)) (int_val self)
   \<and> DeeInt_TryAsInt32 self = accept (in_signed 32 (int_val self)) (int_val self)
   \<and> DeeInt_TryAsInt64 self = accept (in_signed 64 (int_val self)) (int_val self)
   \<and> DeeInt_TryAsInt128 self = accept (in_signed 128 (int_val self)) (int_val self)
   \<and> DeeInt_TryAsUInt8 self = accept (in_unsigned 8 (int_val self)) (int_val self)
   \<and> DeeInt_TryAsUInt16 self = accept (in_unsigned 16 (int_val self)) (int_val self)
   \<and> DeeInt_TryAsUInt32 self = accept (in_unsigned 32 (int_val self)) (int_val self)
   \<and> DeeInt_TryAsUInt64 self = accept (in_unsigned 64 (int_val self)) (int_val self)
   \<and> DeeInt_TryAsUInt128 self = accept (in_unsigned 128 (int_val self)) (int_val self)
   \<and> DeeInt_TryAsUInt8M1 self
       = accept (in_unsigned 8 (int_val self) \<or> int_val self = -1) (int_val self)
   \<and> DeeInt_TryAsUInt16M1 self
       = accept (in_unsigned 16 (int_val self) \<or> int_val self = -1) (int_val self)
   \<and> DeeInt_TryAsUInt32M1 self
       = accept (in_unsigned 32 (int_val self) \<or> int_val self = -1) (int_val self)
   \<and> DeeInt_TryAsUInt64M1 self
       = accept (in_unsigned 64 (int_val self) \<or> int_val self = -1) (int_val self)
   \<and> DeeInt_TryAsUInt128M1 self
       = accept (in_unsigned 128 (int_val self) \<or> int_val self = -1) (int_val self)
   \<and> represents (DeeInt_NewInt8 s8) (sint s8) \<and> represents (DeeInt_NewUInt8 u8) (uint u8)
   \<and> represents (DeeInt_NewInt16 s16) (sint s16) \<and> represents (DeeInt_NewUInt16 u16) (uint u16)
   \<and> represents (DeeInt_NewInt32 s32) (sint s32) \<and> represents (DeeInt_NewUInt32 u32) (uint u32)
   \<and> represents (DeeInt_NewInt64 s64) (sint s64) \<and> represents (DeeInt_NewUInt64 u64) (uint u64)
   \<and> represents (DeeInt_NewInt128 s128) (sint s128) \<and> represents (DeeInt_NewUInt128 u128) (uint u128)
   \<and> DeeInt_TryAsInt8 (DeeInt_NewInt8 s8) = Some s8 \<and> DeeInt_TryAsUInt8 (DeeInt_NewUInt8 u8) = Some u8
   \<and> DeeInt_TryAsInt16 (DeeInt_NewInt16 s16) = Some s16 \<and> DeeInt_TryAsUInt16 (DeeInt_NewUInt16 u16) = Some u16
   \<and> DeeInt_TryAsInt32 (DeeInt_NewInt32 s32) = Some s32 \<and> DeeInt_TryAsUInt32 (DeeInt_NewUInt32 u32) = Some u32
   \<and> DeeInt_TryAsInt64 (DeeInt_NewInt64 s64) = Some s64 \<and> DeeInt_TryAsUInt64 (DeeInt_NewUInt64 u64) = Some u64
   \<and> DeeInt_TryAsInt128 (DeeInt_NewInt128 s128) = Some s128 \<and> DeeInt_TryAsUInt128 (DeeInt_NewUInt128 u128) = Some u128
   \<and> DeeInt_Get8Bit self = get_spec 8 (int_val self)
   \<and> DeeInt_Get16Bit self = get_spec 16 (int_val self)
   \<and> DeeInt_Get32Bit self = get_spec 32 (int_val self)
   \<and> DeeInt_Get64Bit self = get_spec 64 (int_val self)
   \<and> DeeInt_Get128Bit self = get_spec 128 (int_val self)
   \<and> DeeInt_AsInt8 self
       = stored (in_signed 8 (int_val self)) (in_unsigned 8 (int_val self)) (int_val self)
   \<and> DeeInt_AsInt16 self
       = stored (in_signed 16 (int_val self)) (in_unsigned 16 (int_val self)) (int_val self)
   \<and> DeeInt_AsInt32 self
       = stored (in_signed 32 (int_val self)) (in_unsigned 32 (int_val self)) (int_val self)
   \<and> DeeInt_AsInt64 self
       = stored (in_signed 64 (int_val self)) (in_unsigned 64 (int_val self)) (int_val self)
   \<and> DeeInt_AsInt128 self
       = stored (in_signed 128 (int_val self)) (in_unsigned 128 (int_val self)) (int_val self)
   \<and> DeeInt_AsUInt8 self
       = stored (in_unsigned 8 (int_val self)) (in_signed 8 (int_val self)) (int_val self)
   \<and> DeeInt_AsUInt16 self
       = stored (in_unsigned 16 (int_val self)) (in_signed 16 (int_val self)) (int_val self)
   \<and> DeeInt_AsUInt32 self
       = stored (in_unsigned 32 (int_val self)) (in_signed 32 (int_val self)) (int_val self)
   \<and> DeeInt_AsUInt64 self
       = stored (in_unsigned 64 (int_val self)) (in_signed 64 (int_val self)) (int_val self)
   \<and> DeeInt_AsUInt128 self
       = stored (in_unsigned 128 (int_val self)) (in_signed 128 (int_val self)) (int_val self)
   \<and> DeeInt_AsUInt8M1 self
       = stored (in_unsigned 8 (int_val self) \<or> int_val self = -1)
           (in_signed 8 (int_val self)) (int_val self)
   \<and> DeeInt_AsUInt16M1 self
       = stored (in_unsigned 16 (int_val self) \<or> int_val self = -1)
           (in_signed 16 (int_val self)) (int_val self)
   \<and> DeeInt_AsUInt32M1 self
       = stored (in_unsigned 32 (int_val self) \<or> int_val self = -1)
           (in_signed 32 (int_val self)) (int_val self)
   \<and> DeeInt_AsUInt64M1 self
       = stored (in_unsigned 64 (int_val self) \<or> int_val self = -1)
           (in_signed 64 (int_val self)) (int_val self)
   \<and> DeeInt_AsUInt128M1 self
       = stored (in_unsigned 128 (int_val self) \<or> int_val self = -1)
           (in_signed 128 (int_val self)) (int_val self)"
  using tryget_all_widths [OF assms] tryas_all_widths [OF assms] get_as_all_widths [OF assms]
    new_roundtrip [of s8 u8 s16 u16 s32 u32 s64 u64 s128 u128]
  by (intro conjI) blast+

theorem int_machine_conversions_witness:
  "DeeInt_TryGet32Bit \<lparr>ob_size = -2, ob_digit = [0, 2]\<rparr> = INT_SIGNED 0x80000000
   \<and> DeeInt_TryGet32Bit \<lparr>ob_size = -2, ob_digit = [1, 2]\<rparr> = INT_NEG_OVERFLOW
   \<and> DeeInt_TryAsUInt8 \<lparr>ob_size = -1, ob_digit = [128]\<rparr> = None
   \<and> DeeInt_Get32Bit \<lparr>ob_size = 2, ob_digit = [0, 4]\<rparr> = (-1, None)
   \<and> DeeInt_AsInt32 \<lparr>ob_size = 2, ob_digit = [0, 4]\<rparr> = (0, None)"
proof -
  note c = int_machine_conversions [THEN conjunct2, THEN conjunct2, THEN conjunct1]
  have "DeeInt_TryGet32Bit \<lparr>ob_size = -2, ob_digit = [0, 2]\<rparr> = INT_SIGNED 0x80000000"
    using c [of "\<lparr>ob_size = -2, ob_digit = [0, 2]\<rparr>"] by (simp add: int_eval read_spec_def)
  moreover have "DeeInt_TryGet32Bit \<lparr>ob_size = -2, ob_digit = [1, 2]\<rparr> = INT_NEG_OVERFLOW"
    using c [of "\<lparr>ob_size = -2, ob_digit = [1, 2]\<rparr>"] by (simp add: int_eval read_spec_def)
  moreover have "DeeInt_TryAsUInt8 \<lparr>ob_size = -1, ob_digit = [128]\<rparr> = None"
    using int_machine_conversions [of "\<lparr>ob_size = -1, ob_digit = [128]\<rparr>"]
    by (simp add: int_eval accept_def in_unsigned_def)
  moreover have "DeeInt_Get32Bit \<lparr>ob_size = 2, ob_digit = [0, 4]\<rparr> = (-1, None)"
      "DeeInt_AsInt32 \<lparr>ob_size = 2, ob_digit = [0, 4]\<rparr> = (0, None)"
    using int_machine_conversions [of "\<lparr>ob_size = 2, ob_digit = [0, 4]\<rparr>"]
    by (simp_all add: int_eval stored_def get_spec_def in_signed_def in_unsigned_def)
  ultimately show ?thesis by blast
qed

end
