(* ===== verification/IntBits.thy ===== *)
theory IntBits
  imports IntAddSub IntConv
begin

text \<open>
  Shifts and bitwise operators of integers (src/deemon/objects/int_logic.c): \<open>int_shl\<close>,
  \<open>int_shr\<close>, \<open>int_and\<close>, \<open>int_or\<close>, \<open>int_xor\<close>.  Negative operands are in two's complement of
  unbounded width; \<open>tc_val\<close> is the number a vector with a sign denotes in it, and \<open>bit_tc_val\<close>
  reads its bits off the digits.
\<close>

section \<open>Shifts\<close>

text \<open>
  The shift count.  \<open>DeeObject_AsSize\<close> is \<open>DeeObject_AsUInt64\<close>
  (src/deemon/runtime/operator-hint-invoke-utils.c), for an integer operand here.  The shift
  operators replace its error by \<open>NegativeShift\<close>.
\<close>

definition DeeObject_AsUInt64 :: "DeeInt \<Rightarrow> u64 result" where
  "DeeObject_AsUInt64 self =
     (case DeeInt_Get64Bit self of
        (error, Some v) \<Rightarrow> (if error = 0 \<and> v <s 0 then Inl IntegerOverflow else Inr v)
      | (error, None) \<Rightarrow> Inl IntegerOverflow)"

fun int_shr_loop :: "nat \<Rightarrow> nat \<Rightarrow> digit list \<Rightarrow> digit list" where
  "int_shr_loop loshift hishift [] = []"
| "int_shr_loop loshift hishift (a # as) =
     (let lomask = push_bit hishift 1 - 1;
          himask = DIGIT_MASK XOR lomask;
          z = drop_bit loshift a AND lomask
      in (case as of
            [] \<Rightarrow> z
          | a' # _ \<Rightarrow> z OR (push_bit hishift a' AND himask)) # int_shr_loop loshift hishift as)"

text \<open>The branch for a nonnegative integer.\<close>

definition int_shr_nonneg :: "DeeInt \<Rightarrow> DeeInt \<Rightarrow> DeeInt result" where
  "int_shr_nonneg a b =
     (case DeeObject_AsUInt64 b of
        Inl _ \<Rightarrow> Inl NegativeShift
      | Inr shiftby \<Rightarrow>
          let wordshift = unat shiftby div DIGIT_BITS;
              lhs_size = nat \<bar>ob_size a\<bar>
          in if lhs_size \<le> wordshift then Inr DeeInt_Zero
             else
               let loshift = unat shiftby mod DIGIT_BITS;
                   hishift = DIGIT_BITS - loshift
               in Inr (int_normalize (DeeInt_Alloc
                    (int_shr_loop loshift hishift (drop wordshift (digits a))))))"

text \<open>
  A negative integer is inverted, shifted and inverted again.  Its inverse is not negative, so the
  recursive call of the code takes the branch above.
\<close>

definition int_shr :: "DeeInt \<Rightarrow> DeeInt \<Rightarrow> DeeInt result" where
  "int_shr a b =
     (if ob_size a < 0 then map_sum id int_inv (int_shr_nonneg (int_inv a) b)
      else int_shr_nonneg a b)"

fun int_shl_loop :: "nat \<Rightarrow> twodigits \<Rightarrow> digit list \<Rightarrow> digit list \<times> twodigits" where
  "int_shl_loop remshift accum [] = ([], accum)"
| "int_shl_loop remshift accum (a # as) =
     (let accum = accum OR push_bit remshift (ucast a);
          (zs, c) = int_shl_loop remshift (drop_bit DIGIT_BITS accum) as
      in (ucast (accum AND ucast DIGIT_MASK) # zs, c))"

definition int_shl :: "DeeInt \<Rightarrow> DeeInt \<Rightarrow> DeeInt result" where
  "int_shl a b =
     (case DeeObject_AsUInt64 b of
        Inl _ \<Rightarrow> Inl NegativeShift
      | Inr shiftby \<Rightarrow>
          let wordshift = unat shiftby div DIGIT_BITS;
              remshift = unat shiftby - wordshift * DIGIT_BITS;
              (zs, accum) = int_shl_loop remshift 0 (digits a);
              z = DeeInt_Alloc (replicate wordshift 0 @ zs
                    @ (if remshift \<noteq> 0 then [ucast accum] else []))
          in Inr (int_normalize (if ob_size a < 0 then negate_size z else z)))"

section \<open>Bitwise operators\<close>

datatype bitwise_op = INT_BITWISE_AND | INT_BITWISE_OR | INT_BITWISE_XOR

fun digit_op :: "bitwise_op \<Rightarrow> digit \<Rightarrow> digit \<Rightarrow> digit" where
  "digit_op INT_BITWISE_AND a b = a AND b"
| "digit_op INT_BITWISE_OR a b = a OR b"
| "digit_op INT_BITWISE_XOR a b = a XOR b"

text \<open>The operand's digits, complemented if it is negative.\<close>

definition tc_digits :: "DeeInt \<Rightarrow> digit list" where
  "tc_digits a = (if ob_size a < 0 then v_complement (digits a) else digits a)"

text \<open>
  \<open>bitwise_digits\<close>: the digits of the result and whether it is negative, from operands the first of
  which is at least as long as the second.
\<close>

definition bitwise_digits ::
  "bitwise_op \<Rightarrow> bool \<Rightarrow> digit list \<Rightarrow> bool \<Rightarrow> digit list \<Rightarrow> bool \<times> digit list" where
  "bitwise_digits op nega as negb bs =
     (let size_a = length as; size_b = length bs;
          (negz, size_z) =
            (case op of
               INT_BITWISE_AND \<Rightarrow> (nega \<and> negb, if negb then size_a else size_b)
             | INT_BITWISE_OR \<Rightarrow> (nega \<or> negb, if negb then size_b else size_a)
             | INT_BITWISE_XOR \<Rightarrow> (nega \<noteq> negb, size_a));
          rest = take (size_z - size_b) (drop size_b as)
      in (negz,
          map2 (digit_op op) as bs
          @ (if op = INT_BITWISE_XOR \<and> negb then map (\<lambda>d. d XOR DIGIT_MASK) rest else rest)))"

definition int_bitwise :: "DeeInt \<Rightarrow> bitwise_op \<Rightarrow> DeeInt \<Rightarrow> DeeInt" where
  "int_bitwise a op b =
     (let as = tc_digits a; nega = ob_size a < 0;
          bs = tc_digits b; negb = ob_size b < 0;
          (negz, zs) =
            (if \<bar>ob_size a\<bar> < \<bar>ob_size b\<bar> then bitwise_digits op negb bs nega as
             else bitwise_digits op nega as negb bs)
      in int_normalize
           (if negz then negate_size (DeeInt_Alloc (v_complement (zs @ [DIGIT_MASK])))
            else DeeInt_Alloc zs))"

definition int_and :: "DeeInt \<Rightarrow> DeeInt \<Rightarrow> DeeInt" where
  "int_and a b = int_bitwise a INT_BITWISE_AND b"

definition int_xor :: "DeeInt \<Rightarrow> DeeInt \<Rightarrow> DeeInt" where
  "int_xor a b = int_bitwise a INT_BITWISE_XOR b"

definition int_or :: "DeeInt \<Rightarrow> DeeInt \<Rightarrow> DeeInt" where
  "int_or a b = int_bitwise a INT_BITWISE_OR b"

section \<open>Correctness of the shifts\<close>

lemma AsUInt64_spec:
  assumes "int_ok self"
  shows "DeeObject_AsUInt64 self =
    (if in_unsigned 64 (int_val self) then Inr (word_of_int (int_val self)) else Inl IntegerOverflow)"
  by (cases "int_val self" rule: read_cases [where 'a = 64])
    (simp_all add: DeeObject_AsUInt64_def DeeInt_Get64Bit_def rd64.get_spec [OF assms])

lemma shift_count:
  assumes "in_unsigned 64 k"
  shows "unat (word_of_int k :: u64) = nat k"
proof -
  have "uint (word_of_int k :: u64) = k" using assms by (intro uint_of_range) simp
  then show ?thesis by (metis nat_uint_eq)
qed

lemma lomask_eq: "n \<le> 30 \<Longrightarrow> push_bit n 1 - 1 = (mask n :: digit)"
  by (simp add: mask_eq_decr_exp push_bit_eq_mult)

text \<open>One digit of a right shift: its own high part below the low part of the digit above it.\<close>

lemma shr_digit:
  fixes a b :: digit
  assumes "lo + hi = DIGIT_BITS" "unat a < BASE" "0 < hi"
  shows "unat (drop_bit lo a AND mask hi) = unat a div 2 ^ lo"
    and "unat ((drop_bit lo a AND mask hi) OR (push_bit hi b AND (DIGIT_MASK XOR mask hi)))
      = unat a div 2 ^ lo + 2 ^ hi * (unat b mod 2 ^ lo)"
proof -
  have "2 ^ lo * 2 ^ hi = BASE" using assms(1) by (simp add: BASE_def flip: power_add)
  then have "unat a div 2 ^ lo < 2 ^ hi"
    using assms(2) by (simp add: less_mult_imp_div_less mult.commute)
  then show a: "unat (drop_bit lo a AND mask hi) = unat a div 2 ^ lo"
    by (simp add: unat_and_mask_word unat_drop_bit_word)
  have le: "hi \<le> 30" "lo + hi = 30" using assms(1) by (simp_all add: DIGIT_BITS_def)
  have m: "DIGIT_MASK XOR mask hi = push_bit hi (mask lo)"
    by (rule bit_word_eqI) (use le in \<open>auto simp: DIGIT_MASK_mask DIGIT_BITS_def bit_simps\<close>)
  have pb: "push_bit hi b AND (DIGIT_MASK XOR mask hi) = push_bit hi (b AND mask lo)"
    by (simp add: m push_bit_and)
  have "unat (b AND mask lo) * 2 ^ hi < 2 ^ LENGTH(32)"
  proof -
    have "unat (b AND mask lo) < 2 ^ lo" by (simp add: unat_and_mask_word)
    then have "unat (b AND mask lo) * 2 ^ hi < 2 ^ lo * 2 ^ hi" by simp
    also have "\<dots> = 2 ^ 30" by (simp add: le(2) flip: power_add)
    finally show ?thesis by simp
  qed
  moreover have "unat (drop_bit lo a AND mask hi) < 2 ^ hi" by (simp add: unat_and_mask_word)
  ultimately have "unat (push_bit hi (b AND mask lo) OR (drop_bit lo a AND mask hi))
      = unat (b AND mask lo) * 2 ^ hi + unat (drop_bit lo a AND mask hi)"
    by (intro unat_or_shifted)
  then show "unat ((drop_bit lo a AND mask hi) OR (push_bit hi b AND (DIGIT_MASK XOR mask hi)))
      = unat a div 2 ^ lo + 2 ^ hi * (unat b mod 2 ^ lo)"
    unfolding pb or.commute [of "drop_bit lo a AND mask hi"] a
    by (simp add: unat_and_mask_word)
qed

lemma int_shr_loop_spec:
  assumes "lo + hi = DIGIT_BITS" "0 < hi" "digits_ok ds"
  shows "dval (int_shr_loop lo hi ds) = dval ds div 2 ^ lo \<and> digits_ok (int_shr_loop lo hi ds)"
  using assms(3)
proof (induction ds)
  case Nil
  then show ?case by simp
next
  case (Cons a as)
  have B: "2 ^ lo * 2 ^ hi = BASE" using assms(1) by (simp add: BASE_def flip: power_add)
  have hi: "hi \<le> 30" using assms(1) by (simp add: DIGIT_BITS_def)
  have a: "unat a < BASE" and as: "digits_ok as" using Cons.prems by simp_all
  note IH = Cons.IH [OF as]
  have al: "unat a div 2 ^ lo < 2 ^ hi"
    using a B by (simp add: less_mult_imp_div_less mult.commute)
  have hile: "(2::nat) ^ hi \<le> BASE" using B by (metis le_square mult.commute mult_le_mono1 mult_1 one_le_numeral one_le_power)
  show ?case
  proof (cases as)
    case Nil
    have "int_shr_loop lo hi (a # as) = [drop_bit lo a AND mask hi]"
      by (simp only: Nil int_shr_loop.simps Let_def lomask_eq [OF hi] list.case)
    then show ?thesis
      using shr_digit(1) [OF assms(1) a assms(2)] al hile Nil by simp
  next
    case (Cons b bs)
    note d = shr_digit(2) [OF assms(1) a assms(2), of b]
    let ?z = "(drop_bit lo a AND mask hi) OR (push_bit hi b AND (DIGIT_MASK XOR mask hi))"
    have unf: "int_shr_loop lo hi (a # as) = ?z # int_shr_loop lo hi as"
      by (simp only: Cons int_shr_loop.simps Let_def lomask_eq [OF hi] list.case)
    have bmod: "unat b mod 2 ^ lo = dval as mod 2 ^ lo"
      unfolding Cons by (simp add: B [symmetric] mult.assoc)
    have "dval (a # as) div 2 ^ lo = unat a div 2 ^ lo + 2 ^ hi * dval as"
      by (simp add: B [symmetric] mult.assoc)
    also have "\<dots> = unat a div 2 ^ lo + 2 ^ hi * (dval as mod 2 ^ lo + 2 ^ lo * (dval as div 2 ^ lo))"
      by (simp only: mod_mult_div_eq)
    also have "\<dots> = unat ?z + BASE * dval (int_shr_loop lo hi as)"
    proof -
      have "u + h * (m + l * q) = (u + h * m) + l * h * q" for u h m l q :: nat
        by (simp add: algebra_simps)
      then show ?thesis unfolding d bmod conjunct1 [OF IH] B [symmetric] by (simp only:)
    qed
    finally have val: "dval (int_shr_loop lo hi (a # as)) = dval (a # as) div 2 ^ lo"
      by (simp only: unf dval.simps)
    have "unat b mod 2 ^ lo < 2 ^ lo" by simp
    then have "unat b mod 2 ^ lo \<le> 2 ^ lo - 1" by linarith
    then have "2 ^ hi * (unat b mod 2 ^ lo) \<le> 2 ^ hi * (2 ^ lo - 1)" by (rule mult_le_mono2)
    also have "\<dots> = BASE - 2 ^ hi" by (simp add: B [symmetric] diff_mult_distrib2 mult.commute)
    finally have "unat ?z < BASE" using d al hile by linarith
    then show ?thesis using val IH by (simp only: unf digits_ok_simps simp_thms)
  qed
qed

lemma int_shl_loop_spec:
  assumes "r < DIGIT_BITS" "digits_ok ds" "unat c < 2 ^ r" "int_shl_loop r c ds = (zs, c')"
  shows "dval zs + BASE ^ length ds * unat c' = dval ds * 2 ^ r + unat c
    \<and> length zs = length ds \<and> digits_ok zs \<and> unat c' < 2 ^ r"
  using assms(2-4)
proof (induction ds arbitrary: c zs c')
  case Nil
  then show ?case by simp
next
  case (Cons a as)
  define s where "s = c OR push_bit r (ucast a :: twodigits)"
  obtain zs' where rec: "int_shl_loop r (drop_bit DIGIT_BITS s) as = (zs', c')"
    and zs: "zs = ucast (s AND ucast DIGIT_MASK) # zs'"
    using Cons.prems(3) by (auto simp: Let_def s_def split: prod.splits)
  have a: "unat a < BASE" using Cons.prems(1) by simp
  have p: "(2::nat) ^ r \<le> BASE" using assms(1) unfolding BASE_def by (intro power_increasing) simp_all
  have ab: "unat a * 2 ^ r + 2 ^ r \<le> BASE * 2 ^ r"
    using mult_le_mono1 [of "unat a + 1" BASE "2 ^ r"] a by (simp add: algebra_simps)
  also have "\<dots> \<le> BASE * BASE" using p by (rule mult_le_mono2)
  finally have fit: "unat a * 2 ^ r + 2 ^ r \<le> BASE * BASE" .
  have s: "unat s = unat a * 2 ^ r + unat c"
    unfolding s_def or.commute [of c]
    using unat_or_shifted [of c r "ucast a"] Cons.prems(2) fit by (simp add: unat_ucast_up BASE_num)
  have "unat s < BASE * 2 ^ r" using s ab Cons.prems(2) by linarith
  then have cb: "unat (drop_bit DIGIT_BITS s) < 2 ^ r"
    by (simp add: word_nat less_mult_imp_div_less mult.commute)
  have d: "unat (ucast (s AND ucast DIGIT_MASK) :: digit) = unat s mod BASE"
  proof -
    have m: "(ucast DIGIT_MASK :: twodigits) = mask DIGIT_BITS"
      by (simp add: DIGIT_MASK_num DIGIT_BITS_def mask_numeral)
    have "unat (s AND ucast DIGIT_MASK) = unat s mod BASE"
      unfolding m by (simp only: unat_and_mask_word exp_DIGIT_BITS)
    moreover have "unat s mod BASE < BASE" by simp
    ultimately show ?thesis by (simp add: unat_ucast_word BASE_num)
  qed
  have IH: "dval zs' + BASE ^ length as * unat c' = dval as * 2 ^ r + unat (drop_bit DIGIT_BITS s)"
    "length zs' = length as" "digits_ok zs'" "unat c' < 2 ^ r"
    using Cons.IH [OF _ cb rec] Cons.prems(1) by simp_all
  have "dval zs + BASE ^ length (a # as) * unat c'
      = unat s mod BASE + BASE * (dval zs' + BASE ^ length as * unat c')"
    by (simp add: zs d algebra_simps)
  also have "\<dots> = unat s mod BASE + BASE * (unat s div BASE) + BASE * (dval as * 2 ^ r)"
    unfolding IH(1) by (simp add: word_nat algebra_simps)
  also have "\<dots> = dval (a # as) * 2 ^ r + unat c"
    by (simp add: s algebra_simps)
  finally show ?case using IH zs d by simp
qed

lemma dval_drop:
  assumes "digits_ok ds"
  shows "dval (drop w ds) = dval ds div BASE ^ w"
proof (cases "w \<le> length ds")
  case True
  have "dval ds = dval (take w ds) + BASE ^ w * dval (drop w ds)"
    using dval_take_drop [of ds w] True by (simp add: min_absorb2)
  moreover have "dval (take w ds) < BASE ^ w"
    using assms by (intro dval_bound_le) simp_all
  ultimately show ?thesis by simp
next
  case False
  then have "dval ds < BASE ^ w" using assms by (intro dval_bound_le) simp_all
  then show ?thesis using False by simp
qed

lemma BASE_power_shift: "BASE ^ (s div DIGIT_BITS) * 2 ^ (s mod DIGIT_BITS) = 2 ^ s"
proof -
  have "BASE ^ (s div DIGIT_BITS) = 2 ^ (DIGIT_BITS * (s div DIGIT_BITS))"
    by (simp add: BASE_def power_mult)
  then have "BASE ^ (s div DIGIT_BITS) * 2 ^ (s mod DIGIT_BITS)
      = 2 ^ (DIGIT_BITS * (s div DIGIT_BITS) + s mod DIGIT_BITS)"
    by (simp only: power_add)
  then show ?thesis by (simp only: mult_div_mod_eq)
qed

lemma DIGIT_BITS_pos [simp]: "0 < DIGIT_BITS"
  by (simp add: DIGIT_BITS_def)

lemma int_shr_nonneg_spec:
  assumes "int_ok a" "0 \<le> ob_size a" "int_ok b" "in_unsigned 64 (int_val b)"
  shows "\<exists>z. int_shr_nonneg a b = Inr z \<and> represents z (int_val a div 2 ^ nat (int_val b))"
proof -
  define s where "s = nat (int_val b)"
  have cnt: "DeeObject_AsUInt64 b = Inr (word_of_int (int_val b))"
    "unat (word_of_int (int_val b) :: u64) = s"
    using AsUInt64_spec [OF assms(3)] shift_count [OF assms(4)] assms(4) by (simp_all add: s_def)
  have a: "int_val a = int (int_mag a)" using assms(2) by (rule int_val_nonneg)
  have goal: "int_val a div 2 ^ s = int (int_mag a div 2 ^ s)" by (simp add: a zdiv_int)
  show ?thesis
  proof (cases "nat \<bar>ob_size a\<bar> \<le> s div DIGIT_BITS")
    case True
    have "int_mag a < BASE ^ nat \<bar>ob_size a\<bar>" using assms(1) by (simp add: int_mag_bound)
    also have "\<dots> \<le> BASE ^ (s div DIGIT_BITS)" using True by (intro power_increasing) (simp_all add: Suc_leI)
    also have "\<dots> \<le> 2 ^ s" using BASE_power_shift [of s] by (metis le_add1 mult.right_neutral mult_le_mono2 one_le_numeral one_le_power)
    finally have "int_val a div 2 ^ s = 0" by (simp add: goal)
    then have "represents DeeInt_Zero (int_val a div 2 ^ s)" using represents_Zero by simp
    moreover have "int_shr_nonneg a b = Inr DeeInt_Zero"
      using True by (simp add: int_shr_nonneg_def cnt)
    ultimately show ?thesis by (simp only: s_def) blast
  next
    case False
    define zs where "zs = int_shr_loop (s mod DIGIT_BITS) (DIGIT_BITS - s mod DIGIT_BITS)
        (drop (s div DIGIT_BITS) (digits a))"
    have lt: "s mod DIGIT_BITS < DIGIT_BITS" by simp
    have "dval zs = dval (drop (s div DIGIT_BITS) (digits a)) div 2 ^ (s mod DIGIT_BITS) \<and> digits_ok zs"
      unfolding zs_def using lt assms(1) by (intro int_shr_loop_spec) (simp_all add: int_mem_digits_ok)
    moreover have "dval (drop (s div DIGIT_BITS) (digits a)) div 2 ^ (s mod DIGIT_BITS) = int_mag a div 2 ^ s"
      using assms(1) by (simp add: dval_drop int_mem_digits_ok int_mag_def BASE_power_shift flip: div_mult2_eq)
    ultimately have "represents (int_normalize (DeeInt_Alloc zs)) (int_val a div 2 ^ s)"
      unfolding goal by (simp add: represents_def)
    moreover have "int_shr_nonneg a b = Inr (int_normalize (DeeInt_Alloc zs))"
      using False by (simp add: int_shr_nonneg_def cnt zs_def Let_def)
    ultimately show ?thesis by (simp only: s_def) blast
  qed
qed

text \<open>Shifting the complement of a negative number and complementing again rounds down.\<close>

lemma shr_by_inversion: "NOT (NOT k div 2 ^ s) = (k :: int) div 2 ^ s"
proof -
  have "NOT (drop_bit s (NOT k)) = drop_bit s k"
    by (rule bit_eqI) (auto simp: bit_simps)
  then show ?thesis by (simp only: drop_bit_eq_div)
qed

lemma int_shr_spec:
  assumes "int_ok a" "int_ok b" "in_unsigned 64 (int_val b)"
  shows "\<exists>z. int_shr a b = Inr z \<and> represents z (int_val a div 2 ^ nat (int_val b))"
proof (cases "ob_size a < 0")
  case False
  then show ?thesis using int_shr_nonneg_spec [of a b] assms by (simp add: int_shr_def)
next
  case True
  have ok: "int_ok (int_inv a)" "int_val (int_inv a) = NOT (int_val a)"
    using represents_int_inv [OF assms(1)] by (simp_all add: represents_def)
  have "int_val a < 0" using True int_val_less_0_iff [OF assms(1)] by simp
  then have "0 \<le> ob_size (int_inv a)"
    using ok int_val_less_0_iff [OF ok(1)] by (simp add: not_int_def)
  from int_shr_nonneg_spec [OF ok(1) this assms(2,3)] obtain z
    where z: "int_shr_nonneg (int_inv a) b = Inr z"
      "represents z (NOT (int_val a) div 2 ^ nat (int_val b))"
    unfolding ok(2) by blast
  then have "represents (int_inv z) (NOT (NOT (int_val a) div 2 ^ nat (int_val b)))"
    using represents_int_inv [of z] by (simp add: represents_def)
  then show ?thesis
    unfolding shr_by_inversion using z(1) True by (simp add: int_shr_def)
qed

lemma int_shl_spec:
  assumes "int_ok a" "int_ok b" "in_unsigned 64 (int_val b)"
  shows "\<exists>z. int_shl a b = Inr z \<and> represents z (int_val a * 2 ^ nat (int_val b))"
proof -
  define s w r where "s = nat (int_val b)" and "w = s div DIGIT_BITS" and "r = s - w * DIGIT_BITS"
  have r: "r = s mod DIGIT_BITS" by (simp add: r_def w_def minus_div_mult_eq_mod)
  have cnt: "DeeObject_AsUInt64 b = Inr (word_of_int (int_val b))"
    "unat (word_of_int (int_val b) :: u64) = s"
    using AsUInt64_spec [OF assms(2)] shift_count [OF assms(3)] assms(3) by (simp_all add: s_def)
  obtain zs c where loop: "int_shl_loop r 0 (digits a) = (zs, c)" by fastforce
  have rl: "r < DIGIT_BITS" by (simp add: r)
  have spec: "dval zs + BASE ^ length (digits a) * unat c = int_mag a * 2 ^ r"
    "length zs = length (digits a)" "digits_ok zs" "unat c < 2 ^ r"
    using int_shl_loop_spec [OF rl _ _ loop] assms(1) by (simp_all add: int_mem_digits_ok int_mag_def)
  define ds where "ds = replicate w 0 @ zs @ (if r \<noteq> 0 then [ucast c] else [])"
  have "(2::nat) ^ r \<le> BASE" using rl unfolding BASE_def by (intro power_increasing) simp_all
  then have cb: "unat c < BASE" using spec(4) by linarith
  then have uc: "unat (ucast c :: digit) = unat c" by (simp add: unat_ucast_digit)
  have "dval (zs @ (if r \<noteq> 0 then [ucast c] else [])) = int_mag a * 2 ^ r"
    using spec(1,2,4) uc by (cases "r = 0") (simp_all)
  then have "dval ds = BASE ^ w * (int_mag a * 2 ^ r)" by (simp add: ds_def)
  also have "\<dots> = int_mag a * 2 ^ s"
    using BASE_power_shift [of s] by (simp add: w_def r mult.left_commute)
  finally have val: "dval ds = int_mag a * 2 ^ s" .
  have ok: "digits_ok ds" using spec(3) cb uc by (simp add: ds_def)
  have unf: "int_shl a b = Inr (int_normalize (if ob_size a < 0 then negate_size (DeeInt_Alloc ds) else DeeInt_Alloc ds))"
    by (simp only: int_shl_def cnt sum.case Let_def w_def [symmetric] r_def [symmetric] loop prod.case ds_def)
  have "represents (int_normalize (if ob_size a < 0 then negate_size (DeeInt_Alloc ds) else DeeInt_Alloc ds))
      (int_val a * 2 ^ s)"
    using ok val by (cases "ob_size a < 0") (simp_all add: represents_def int_val_neg int_val_nonneg)
  then show ?thesis unfolding unf s_def by blast
qed

section \<open>Bits of a digit vector\<close>

lemma bit_digit_bound: "unat (d :: digit) < BASE \<Longrightarrow> bit d n \<Longrightarrow> n < DIGIT_BITS"
proof -
  assume "unat d < BASE" and b: "bit d n"
  then have "take_bit DIGIT_BITS d = d"
    by (simp only: word_unat_eq_iff unsigned_take_bit_eq) (simp add: take_bit_eq_mod BASE_def)
  with b show "n < DIGIT_BITS" by (metis bit_take_bit_iff)
qed

lemma bit_dval:
  assumes "digits_ok ds"
  shows "bit (dval ds) i \<longleftrightarrow> i < DIGIT_BITS * length ds \<and> bit (ds ! (i div DIGIT_BITS)) (i mod DIGIT_BITS)"
  using assms
proof (induction ds arbitrary: i)
  case Nil
  then show ?case by simp
next
  case (Cons d ds)
  have d: "unat d < BASE" using Cons.prems by simp
  have ud: "bit (unat d) n \<longleftrightarrow> bit d n" for n
    using bit_imp_le_length [of d n] by (auto simp: bit_unsigned_iff)
  have disj: "unat d AND push_bit DIGIT_BITS (dval ds) = 0"
    by (auto simp: bit_eq_iff bit_simps ud dest!: bit_digit_bound [OF d])
  have "dval (d # ds) = unat d + push_bit DIGIT_BITS (dval ds)"
    by (simp add: push_bit_eq_mult BASE_def mult.commute)
  also have "\<dots> = unat d OR push_bit DIGIT_BITS (dval ds)"
    using disj by (simp add: disjunctive_add_eq_or)
  finally have "bit (dval (d # ds)) i \<longleftrightarrow> bit d i \<or> DIGIT_BITS \<le> i \<and> bit (dval ds) (i - DIGIT_BITS)"
    by (auto simp only: bit_or_iff bit_push_bit_iff ud possible_bit_nat simp_thms)
  then show ?case
  proof (cases "i < DIGIT_BITS")
    case True
    then show ?thesis using \<open>bit (dval (d # ds)) i \<longleftrightarrow> _\<close> by simp
  next
    case False
    then have "i div DIGIT_BITS = Suc ((i - DIGIT_BITS) div DIGIT_BITS)"
      "i mod DIGIT_BITS = (i - DIGIT_BITS) mod DIGIT_BITS"
      by (simp_all add: le_div_geq le_mod_geq)
    moreover have "\<not> bit d i" using bit_digit_bound [OF d] False by blast
    moreover have "i - DIGIT_BITS < DIGIT_BITS * length ds \<longleftrightarrow> i < DIGIT_BITS * length (d # ds)"
      using False by auto
    ultimately show ?thesis
      using \<open>bit (dval (d # ds)) i \<longleftrightarrow> _\<close> Cons.IH [of "i - DIGIT_BITS"] Cons.prems False by simp
  qed
qed

text \<open>A vector below an infinite run of sign digits.\<close>

definition tc_val :: "bool \<Rightarrow> digit list \<Rightarrow> int" where
  "tc_val neg ds = int (dval ds) - (if neg then int BASE ^ length ds else 0)"

lemma bit_tc_val:
  assumes "digits_ok ds"
  shows "bit (tc_val neg ds) i \<longleftrightarrow>
    (if i < DIGIT_BITS * length ds then bit (ds ! (i div DIGIT_BITS)) (i mod DIGIT_BITS) else neg)"
proof -
  let ?n = "DIGIT_BITS * length ds"
  have bi: "bit (int (dval ds)) i \<longleftrightarrow> i < ?n \<and> bit (ds ! (i div DIGIT_BITS)) (i mod DIGIT_BITS)"
    by (simp only: bit_of_nat_iff_bit bit_dval [OF assms])
  show ?thesis
  proof (cases neg)
    case False
    then show ?thesis using bi by (simp add: tc_val_def)
  next
    case True
    have p: "int BASE ^ length ds = 2 ^ ?n" by (simp add: BASE_def power_mult)
    have m: "- (2 ^ ?n) = (NOT (mask ?n) :: int)" by (simp add: minus_exp_eq_not_mask)
    have "int (dval ds) AND NOT (mask ?n) = 0"
      using assms by (auto simp: bit_eq_iff bit_simps bit_dval)
    moreover have "tc_val neg ds = int (dval ds) + NOT (mask ?n)"
      using True by (simp only: tc_val_def p if_True diff_conv_add_uminus m)
    ultimately have "tc_val neg ds = int (dval ds) OR NOT (mask ?n)"
      by (simp only: disjunctive_add_eq_or)
    then show ?thesis using bi True by (auto simp: bit_simps)
  qed
qed

lemma tc_digits_spec:
  assumes "int_ok a"
  shows "digits_ok (tc_digits a)" "length (tc_digits a) = nat \<bar>ob_size a\<bar>"
    "tc_val (ob_size a < 0) (tc_digits a) = int_val a"
proof -
  have m: "digits_ok (digits a)" using assms by (simp add: int_mem_digits_ok)
  have p: "0 < dval (digits a)" if "ob_size a < 0"
    using int_mag_pos [OF assms] that by (simp add: int_mag_def)
  note c = v_complement_spec [OF m p]
  show "digits_ok (tc_digits a)" "length (tc_digits a) = nat \<bar>ob_size a\<bar>"
    using m c assms by (simp_all add: tc_digits_def length_digits)
  have "int (dval (v_complement (digits a))) - int BASE ^ length (digits a) = - int (int_mag a)"
    if "ob_size a < 0"
  proof -
    have "int (dval (v_complement (digits a))) + int (dval (digits a)) = int BASE ^ length (digits a)"
      using c(1) [OF that] by (metis of_nat_add of_nat_power)
    then show ?thesis by (simp add: int_mag_def)
  qed
  then show "tc_val (ob_size a < 0) (tc_digits a) = int_val a"
    using c(2) by (simp add: tc_val_def tc_digits_def int_val_neg int_val_nonneg int_mag_def)
qed

fun bool_op :: "bitwise_op \<Rightarrow> bool \<Rightarrow> bool \<Rightarrow> bool" where
  "bool_op INT_BITWISE_AND p q = (p \<and> q)"
| "bool_op INT_BITWISE_OR p q = (p \<or> q)"
| "bool_op INT_BITWISE_XOR p q = (p \<noteq> q)"

lemma digit_op_spec:
  "bit (digit_op op a b) n \<longleftrightarrow> bool_op op (bit a n) (bit b n)"
  by (cases op) (simp_all add: bit_simps)

lemma digit_op_ok: "unat a < BASE \<Longrightarrow> unat b < BASE \<Longrightarrow> unat (digit_op op a b) < BASE"
proof -
  assume ab: "unat a < BASE" "unat b < BASE"
  have t: "take_bit DIGIT_BITS w = w \<longleftrightarrow> unat w < BASE" for w :: digit
    by (simp only: word_unat_eq_iff unsigned_take_bit_eq)
      (metis BASE_pos(1) exp_DIGIT_BITS mod_if mod_less_divisor take_bit_eq_mod)
  have "take_bit DIGIT_BITS (digit_op op a b) = digit_op op (take_bit DIGIT_BITS a) (take_bit DIGIT_BITS b)"
    by (cases op) simp_all
  with ab show ?thesis unfolding t [symmetric] by simp
qed

text \<open>The digits and the sign of the result are those of the operator on the operands' bits.\<close>

lemma bitwise_digits_spec:
  assumes "digits_ok as" "digits_ok bs" "length bs \<le> length as"
    and "bitwise_digits op nega as negb bs = (negz, zs)"
  shows "digits_ok zs"
    and "bit (tc_val negz zs) i \<longleftrightarrow> bool_op op (bit (tc_val nega as) i) (bit (tc_val negb bs) i)"
proof -
  define flip where "flip \<longleftrightarrow> op = INT_BITWISE_XOR \<and> negb"
  define long where "long \<longleftrightarrow> (op = INT_BITWISE_AND \<longrightarrow> negb) \<and> (op = INT_BITWISE_OR \<longrightarrow> \<not> negb)"
  define rest where "rest = (if long then drop (length bs) as else [])"
  have negz: "negz = bool_op op nega negb"
    and zs: "zs = map2 (digit_op op) as bs @ (if flip then map (\<lambda>d. d XOR DIGIT_MASK) rest else rest)"
    using assms(3,4)
    by (cases op; simp add: bitwise_digits_def Let_def flip_def long_def rest_def split: if_splits)+
  have dm: "unat DIGIT_MASK < BASE" by (simp add: unat_DIGIT_MASK)
  have mok: "\<And>d. d \<in> set (map2 (digit_op op) as bs) \<Longrightarrow> unat d < BASE"
    using assms(1,2) by (auto simp: digits_ok_alt intro!: digit_op_ok dest: set_zip_leftD set_zip_rightD)
  have xok: "unat (d XOR DIGIT_MASK) < BASE" if "unat d < BASE" for d
    using digit_op_ok [OF that dm, of INT_BITWISE_XOR] by simp
  have rok: "digits_ok rest" using assms(1) by (simp add: rest_def)
  then show ok: "digits_ok zs"
    using mok xok by (auto simp: zs digits_ok_alt)
  have len: "length (map2 (digit_op op) as bs) = length bs" using assms(3) by simp
  let ?q = "i div DIGIT_BITS" and ?r = "i mod DIGIT_BITS"
  have q: "i < DIGIT_BITS * n \<longleftrightarrow> ?q < n" for n
    by (metis DIGIT_BITS_pos div_less_iff_less_mult mult.commute)
  have r: "bit DIGIT_MASK ?r"
    by (simp add: DIGIT_MASK_mask bit_mask_iff) (simp add: DIGIT_BITS_def)
  note bits = bit_tc_val [OF ok] bit_tc_val [OF assms(1)] bit_tc_val [OF assms(2)]
  consider "?q < length bs" | "length bs \<le> ?q" "?q < length as" "long"
    | "length bs \<le> ?q" "?q < length as" "\<not> long" | "length as \<le> ?q" by linarith
  then show "bit (tc_val negz zs) i \<longleftrightarrow> bool_op op (bit (tc_val nega as) i) (bit (tc_val negb bs) i)"
  proof cases
    case 1
    then have "zs ! ?q = digit_op op (as ! ?q) (bs ! ?q)" "?q < length zs"
      using assms(3) by (simp_all add: zs nth_append)
    then show ?thesis using 1 assms(3) by (simp add: bits q digit_op_spec)
  next
    case 2
    then have "zs ! ?q = (if flip then as ! ?q XOR DIGIT_MASK else as ! ?q)" "?q < length zs"
      using assms(3) by (auto simp: zs nth_append rest_def)
    then show ?thesis
      using 2 r by (cases op) (auto simp: bits q flip_def long_def bit_xor_iff)
  next
    case 3
    then have "\<not> ?q < length zs" using assms(3) by (simp add: zs rest_def)
    then show ?thesis using 3 by (cases op) (auto simp: bits q long_def negz)
  next
    case 4
    then have "\<not> ?q < length zs" using assms(3) by (simp add: zs rest_def)
    then show ?thesis using 4 assms(3) by (simp add: bits q negz)
  qed
qed

lemma complement_with_sign:
  assumes "digits_ok zs"
  defines "c \<equiv> v_complement (zs @ [DIGIT_MASK])"
  shows "digits_ok c" "int (dval c) = - tc_val True zs"
proof -
  let ?n = "length zs"
  have ok: "digits_ok (zs @ [DIGIT_MASK])" using assms(1) by (simp add: unat_DIGIT_MASK)
  have v: "dval (zs @ [DIGIT_MASK]) = dval zs + BASE ^ ?n * (BASE - 1)"
    by (simp add: unat_DIGIT_MASK)
  have "0 < BASE ^ ?n * (BASE - 1)" by (simp add: BASE_num)
  then have pos: "0 < dval (zs @ [DIGIT_MASK])" unfolding v by linarith
  note spec = v_complement_spec [OF ok pos]
  show "digits_ok c" unfolding c_def by (rule spec(3))
  have "BASE ^ ?n * (BASE - 1) + BASE ^ ?n = BASE ^ Suc ?n"
    by (simp add: BASE_num)
  then have "dval c + dval zs = BASE ^ ?n"
    using spec(1) unfolding c_def v by simp
  then have "int (dval c) + int (dval zs) = int BASE ^ ?n"
    by (metis of_nat_add of_nat_power)
  then show "int (dval c) = - tc_val True zs" by (simp add: tc_val_def)
qed

lemma bool_op_commute: "bool_op op p q = bool_op op q p"
  by (cases op) auto

lemma int_bitwise_spec:
  assumes "int_ok a" "int_ok b"
  shows "int_ok (int_bitwise a op b)"
    and "bit (int_val (int_bitwise a op b)) i \<longleftrightarrow> bool_op op (bit (int_val a) i) (bit (int_val b) i)"
proof -
  obtain negz zs where bd:
    "(if \<bar>ob_size a\<bar> < \<bar>ob_size b\<bar>
      then bitwise_digits op (ob_size b < 0) (tc_digits b) (ob_size a < 0) (tc_digits a)
      else bitwise_digits op (ob_size a < 0) (tc_digits a) (ob_size b < 0) (tc_digits b)) = (negz, zs)"
    by fastforce
  have unf: "int_bitwise a op b = int_normalize
      (if negz then negate_size (DeeInt_Alloc (v_complement (zs @ [DIGIT_MASK]))) else DeeInt_Alloc zs)"
    by (simp only: int_bitwise_def Let_def bd prod.case)
  note A = tc_digits_spec [OF assms(1)] and B = tc_digits_spec [OF assms(2)]
  have spec: "digits_ok zs \<and> (bit (tc_val negz zs) i
      \<longleftrightarrow> bool_op op (bit (int_val a) i) (bit (int_val b) i))" for i
  proof (cases "\<bar>ob_size a\<bar> < \<bar>ob_size b\<bar>")
    case True
    then have le: "length (tc_digits a) \<le> length (tc_digits b)" unfolding A(2) B(2) by linarith
    have eq: "bitwise_digits op (ob_size b < 0) (tc_digits b) (ob_size a < 0) (tc_digits a) = (negz, zs)"
      using bd True by simp
    show ?thesis
      using bitwise_digits_spec(1) [OF B(1) A(1) le eq] bitwise_digits_spec(2) [OF B(1) A(1) le eq, of i] by (simp only: A(3) B(3) bool_op_commute [of op "bit (int_val a) i"] simp_thms)
  next
    case False
    then have le: "length (tc_digits b) \<le> length (tc_digits a)" unfolding A(2) B(2) by linarith
    have eq: "bitwise_digits op (ob_size a < 0) (tc_digits a) (ob_size b < 0) (tc_digits b) = (negz, zs)"
      using bd False by simp
    show ?thesis
      using bitwise_digits_spec(1) [OF A(1) B(1) le eq] bitwise_digits_spec(2) [OF A(1) B(1) le eq, of i] by (simp only: A(3) B(3) simp_thms)
  qed
  then have ok: "digits_ok zs" by blast
  note c = complement_with_sign [OF ok]
  have rep: "represents (int_bitwise a op b) (tc_val negz zs)"
    unfolding unf using ok c by (cases negz) (simp_all add: represents_def tc_val_def)
  then show "int_ok (int_bitwise a op b)"
    and "bit (int_val (int_bitwise a op b)) i \<longleftrightarrow> bool_op op (bit (int_val a) i) (bit (int_val b) i)"
    using spec [of i] by (simp_all add: represents_def)
qed

section \<open>Properties\<close>

lemma bitwise_represents:
  assumes "int_ok a" "int_ok b"
  shows "represents (int_and a b) (int_val a AND int_val b)"
    "represents (int_or a b) (int_val a OR int_val b)"
    "represents (int_xor a b) (int_val a XOR int_val b)"
  unfolding represents_def int_and_def int_or_def int_xor_def
  by (intro conjI int_bitwise_spec(1) assms; rule bit_eqI; simp add: int_bitwise_spec(2) [OF assms] bit_simps)+

text \<open>
  C20: The bitwise operators agree with the operators of two's complement numbers of unbounded
  width, whatever the signs and lengths of the operands, and return well-formed integers.
  Shifts fail with \<open>NegativeShift\<close> exactly if the count is negative or does not fit 64 bits;
  otherwise the left shift multiplies by the power of two and the right shift divides by it,
  rounding down also for negative integers.
\<close>

theorem int_bits_correct:
  assumes "int_ok a" "int_ok b"
  shows "represents (int_and a b) (int_val a AND int_val b)
    \<and> represents (int_or a b) (int_val a OR int_val b)
    \<and> represents (int_xor a b) (int_val a XOR int_val b)
    \<and> (if in_unsigned 64 (int_val b)
       then (\<exists>z. int_shl a b = Inr z \<and> represents z (int_val a * 2 ^ nat (int_val b)))
          \<and> (\<exists>z. int_shr a b = Inr z \<and> represents z (int_val a div 2 ^ nat (int_val b)))
       else int_shl a b = Inl NegativeShift \<and> int_shr a b = Inl NegativeShift)"
  using bitwise_represents [OF assms] int_shl_spec [OF assms] int_shr_spec [OF assms] AsUInt64_spec [OF assms(2)]
  by (simp add: int_shl_def int_shr_def int_shr_nonneg_def)

theorem int_bits_correct_witness:
  "int_val (int_and \<lparr>ob_size = -2, ob_digit = [0, 1]\<rparr> \<lparr>ob_size = 2, ob_digit = [7, 3]\<rparr>) = 3221225472
   \<and> (\<exists>z. int_shr \<lparr>ob_size = -2, ob_digit = [1, 1]\<rparr> \<lparr>ob_size = 1, ob_digit = [30]\<rparr> = Inr z \<and> int_val z = -2)"
proof
  show "int_val (int_and \<lparr>ob_size = -2, ob_digit = [0, 1]\<rparr> \<lparr>ob_size = 2, ob_digit = [7, 3]\<rparr>) = 3221225472"
    using int_bits_correct [of "\<lparr>ob_size = -2, ob_digit = [0, 1]\<rparr>" "\<lparr>ob_size = 2, ob_digit = [7, 3]\<rparr>"]
    by (simp add: int_eval)
  show "\<exists>z. int_shr \<lparr>ob_size = -2, ob_digit = [1, 1]\<rparr> \<lparr>ob_size = 1, ob_digit = [30]\<rparr> = Inr z \<and> int_val z = -2"
    using int_bits_correct [of "\<lparr>ob_size = -2, ob_digit = [1, 1]\<rparr>" "\<lparr>ob_size = 1, ob_digit = [30]\<rparr>"]
    by (auto simp: int_eval in_unsigned_def)
qed

end
