(* ===== verification/IntCompare.thy ===== *)
theory IntCompare
  imports IntAddSub IntConv
begin

text \<open>
  Comparison and hashing of integers (src/deemon/objects/int.c): \<open>int_compareint\<close>, the operators
  built on it, \<open>int_hash\<close>, and the comparisons of a C \<open>size_t\<close> or \<open>ssize_t\<close> with an integer.  The
  right operand of an operator is an arbitrary object, which \<open>DeeObject_Int\<close> converts.
\<close>

section \<open>Operands\<close>

text \<open>
  The operand: an integer, or an object of another type.  \<open>asint\<close> stands for the conversion
  operator of the other type, user code: \<open>None\<close> if the type has none, otherwise the result of
  calling it.
\<close>

datatype 'o operand = IntObject DeeInt | OtherObject 'o

definition DeeObject_Int :: "('o \<Rightarrow> DeeInt result option) \<Rightarrow> 'o operand \<Rightarrow> DeeInt result" where
  "DeeObject_Int asint ob =
     (case ob of
        IntObject i \<Rightarrow> Inr i
      | OtherObject x \<Rightarrow>
          (case asint x of
             None \<Rightarrow> Inl NotImplemented
           | Some r \<Rightarrow> r))"

text \<open>\<open>Dee_COMPARE_ERR\<close>, \<open>Dee_COMPARE_LO\<close>, \<open>Dee_COMPARE_EQ\<close>, \<open>Dee_COMPARE_GR\<close>, \<open>Dee_COMPARE_NE\<close>\<close>

definition Dee_COMPARE_ERR :: int where "Dee_COMPARE_ERR = -2"
definition Dee_COMPARE_LO :: int where "Dee_COMPARE_LO = -1"
definition Dee_COMPARE_EQ :: int where "Dee_COMPARE_EQ = 0"
definition Dee_COMPARE_GR :: int where "Dee_COMPARE_GR = 1"
definition Dee_COMPARE_NE :: int where "Dee_COMPARE_NE = 1"

definition Dee_CompareFromDiff :: "int \<Rightarrow> int" where
  "Dee_CompareFromDiff diff = of_bool (0 < diff) - of_bool (diff < 0)"

definition Dee_CompareEqFromDiff :: "int \<Rightarrow> int" where
  "Dee_CompareEqFromDiff diff = of_bool (diff \<noteq> 0)"

section \<open>Comparing two integers\<close>

text \<open>The loop stops at the topmost digit that differs; \<open>top_diff\<close> is one more than its index.\<close>

definition int_compareint :: "DeeInt \<Rightarrow> DeeInt \<Rightarrow> int" where
  "int_compareint a b =
     (if ob_size a \<noteq> ob_size b then ob_size a - ob_size b
      else
        let i = top_diff (digits a) (digits b) (nat \<bar>ob_size a\<bar>)
        in if i = 0 then 0
           else
             let sign = sint (digits a ! (i - 1) - digits b ! (i - 1))
             in if ob_size a < 0 then - sign else sign)"

definition int_compare :: "('o \<Rightarrow> DeeInt result option) \<Rightarrow> DeeInt \<Rightarrow> 'o operand \<Rightarrow> int" where
  "int_compare asint self some_object =
     (case DeeObject_Int asint some_object of
        Inl _ \<Rightarrow> Dee_COMPARE_ERR
      | Inr rhs \<Rightarrow> Dee_CompareFromDiff (int_compareint self rhs))"

definition int_compare_eq :: "('o \<Rightarrow> DeeInt result option) \<Rightarrow> DeeInt \<Rightarrow> 'o operand \<Rightarrow> int" where
  "int_compare_eq asint self some_object =
     (case some_object of
        IntObject rhs \<Rightarrow> Dee_CompareEqFromDiff (int_compareint self rhs)
      | OtherObject _ \<Rightarrow>
          (case DeeObject_Int asint some_object of
             Inl _ \<Rightarrow> Dee_COMPARE_ERR
           | Inr rhs \<Rightarrow> Dee_CompareEqFromDiff (int_compareint self rhs)))"

definition int_trycompare_eq :: "('o \<Rightarrow> DeeInt result option) \<Rightarrow> DeeInt \<Rightarrow> 'o operand \<Rightarrow> int" where
  "int_trycompare_eq asint self some_object =
     (case some_object of
        IntObject rhs \<Rightarrow> Dee_CompareEqFromDiff (int_compareint self rhs)
      | OtherObject x \<Rightarrow>
          (case asint x of
             None \<Rightarrow> Dee_COMPARE_NE
           | Some (Inl _) \<Rightarrow> Dee_COMPARE_ERR
           | Some (Inr rhs) \<Rightarrow> Dee_CompareEqFromDiff (int_compareint self rhs)))"

definition int_cmp_eq :: "('o \<Rightarrow> DeeInt result option) \<Rightarrow> DeeInt \<Rightarrow> 'o operand \<Rightarrow> bool result" where
  "int_cmp_eq asint self ob = map_sum id (\<lambda>rhs. int_compareint self rhs = 0) (DeeObject_Int asint ob)"

definition int_cmp_ne :: "('o \<Rightarrow> DeeInt result option) \<Rightarrow> DeeInt \<Rightarrow> 'o operand \<Rightarrow> bool result" where
  "int_cmp_ne asint self ob = map_sum id (\<lambda>rhs. int_compareint self rhs \<noteq> 0) (DeeObject_Int asint ob)"

definition int_cmp_lo :: "('o \<Rightarrow> DeeInt result option) \<Rightarrow> DeeInt \<Rightarrow> 'o operand \<Rightarrow> bool result" where
  "int_cmp_lo asint self ob = map_sum id (\<lambda>rhs. int_compareint self rhs < 0) (DeeObject_Int asint ob)"

definition int_cmp_le :: "('o \<Rightarrow> DeeInt result option) \<Rightarrow> DeeInt \<Rightarrow> 'o operand \<Rightarrow> bool result" where
  "int_cmp_le asint self ob = map_sum id (\<lambda>rhs. int_compareint self rhs \<le> 0) (DeeObject_Int asint ob)"

definition int_cmp_gr :: "('o \<Rightarrow> DeeInt result option) \<Rightarrow> DeeInt \<Rightarrow> 'o operand \<Rightarrow> bool result" where
  "int_cmp_gr asint self ob = map_sum id (\<lambda>rhs. int_compareint self rhs > 0) (DeeObject_Int asint ob)"

definition int_cmp_ge :: "('o \<Rightarrow> DeeInt result option) \<Rightarrow> DeeInt \<Rightarrow> 'o operand \<Rightarrow> bool result" where
  "int_cmp_ge asint self ob = map_sum id (\<lambda>rhs. int_compareint self rhs \<ge> 0) (DeeObject_Int asint ob)"

definition int_bool :: "DeeInt \<Rightarrow> bool" where
  "int_bool self \<longleftrightarrow> ob_size self \<noteq> 0"

section \<open>Hashing\<close>

fun int_hash_loop :: "u64 \<Rightarrow> digit list \<Rightarrow> u64" where
  "int_hash_loop x [] = x"
| "int_hash_loop x (d # ds) =
     int_hash_loop ((push_bit DIGIT_BITS x OR drop_bit (64 - DIGIT_BITS) x) + ucast d) ds"

definition int_hash :: "DeeInt \<Rightarrow> u64" where
  "int_hash self =
     (if ob_size self = -1 then scast (- (ob_digit self ! 0))
      else if ob_size self = 0 then 0
      else if ob_size self = 1 then ucast (ob_digit self ! 0)
      else
        let x = int_hash_loop 0 (rev (digits self))
        in if ob_size self < 0 then - x else x)"

section \<open>Comparing a machine size with an integer\<close>

text \<open>
  \<open>rhs_value\<close> is a local variable that \<open>DeeInt_TryGet64Bit\<close> leaves unwritten on overflow; its
  indeterminate initial value is the parameter \<open>init\<close>.
\<close>

definition read_local :: "u64 \<Rightarrow> u64 int_read \<Rightarrow> u64" where
  "read_local init r =
     (case r of
        INT_SIGNED v \<Rightarrow> v
      | INT_UNSIGNED v \<Rightarrow> v
      | INT_POS_OVERFLOW \<Rightarrow> init
      | INT_NEG_OVERFLOW \<Rightarrow> init)"

fun is_unsigned :: "'a int_read \<Rightarrow> bool" where
  "is_unsigned (INT_UNSIGNED v) = True"
| "is_unsigned _ = False"

fun is_signed :: "'a int_read \<Rightarrow> bool" where
  "is_signed (INT_SIGNED v) = True"
| "is_signed _ = False"

definition Dee_ssize_compare_int :: "u64 \<Rightarrow> u64 \<Rightarrow> DeeInt \<Rightarrow> int" where
  "Dee_ssize_compare_int init lhs rhs =
     (let error = DeeInt_TryGet64Bit rhs; rhs_value = read_local init error
      in if is_unsigned error \<and> rhs_value > mask 63 then Dee_COMPARE_LO
         else if lhs <s rhs_value then Dee_COMPARE_LO
         else if rhs_value <s lhs then Dee_COMPARE_GR
         else Dee_COMPARE_EQ)"

definition Dee_ssize_compare_int_eq :: "u64 \<Rightarrow> u64 \<Rightarrow> DeeInt \<Rightarrow> int" where
  "Dee_ssize_compare_int_eq init lhs rhs =
     (let error = DeeInt_TryGet64Bit rhs; rhs_value = read_local init error
      in if lhs \<noteq> rhs_value then Dee_COMPARE_NE
         else if is_unsigned error \<and> rhs_value > mask 63 then Dee_COMPARE_NE
         else Dee_COMPARE_EQ)"

definition Dee_size_compare_int :: "u64 \<Rightarrow> u64 \<Rightarrow> DeeInt \<Rightarrow> int" where
  "Dee_size_compare_int init lhs rhs =
     (let error = DeeInt_TryGet64Bit rhs; rhs_value = read_local init error
      in if is_signed error \<and> rhs_value <s 0 then Dee_COMPARE_GR
         else if lhs < rhs_value then Dee_COMPARE_LO
         else if lhs > rhs_value then Dee_COMPARE_GR
         else Dee_COMPARE_EQ)"

definition Dee_size_compare_int_eq :: "u64 \<Rightarrow> u64 \<Rightarrow> DeeInt \<Rightarrow> int" where
  "Dee_size_compare_int_eq init lhs rhs =
     (let error = DeeInt_TryGet64Bit rhs; rhs_value = read_local init error
      in if lhs \<noteq> rhs_value then Dee_COMPARE_NE
         else if is_signed error \<and> rhs_value <s 0 then Dee_COMPARE_NE
         else Dee_COMPARE_EQ)"

definition DeeInt_SSize_Compare ::
  "('o \<Rightarrow> DeeInt result option) \<Rightarrow> u64 \<Rightarrow> u64 \<Rightarrow> 'o operand \<Rightarrow> int" where
  "DeeInt_SSize_Compare asint init lhs rhs =
     (case DeeObject_Int asint rhs of
        Inl _ \<Rightarrow> Dee_COMPARE_ERR
      | Inr rhs_int \<Rightarrow> Dee_ssize_compare_int init lhs rhs_int)"

definition DeeInt_SSize_CompareEq ::
  "('o \<Rightarrow> DeeInt result option) \<Rightarrow> u64 \<Rightarrow> u64 \<Rightarrow> 'o operand \<Rightarrow> int" where
  "DeeInt_SSize_CompareEq asint init lhs rhs =
     (case DeeObject_Int asint rhs of
        Inl _ \<Rightarrow> Dee_COMPARE_ERR
      | Inr rhs_int \<Rightarrow> Dee_ssize_compare_int_eq init lhs rhs_int)"

definition DeeInt_SSize_TryCompareEq ::
  "('o \<Rightarrow> DeeInt result option) \<Rightarrow> u64 \<Rightarrow> u64 \<Rightarrow> 'o operand \<Rightarrow> int" where
  "DeeInt_SSize_TryCompareEq asint init lhs rhs =
     (case rhs of
        IntObject rhs_int \<Rightarrow> Dee_ssize_compare_int_eq init lhs rhs_int
      | OtherObject x \<Rightarrow>
          (case asint x of
             None \<Rightarrow> Dee_COMPARE_NE
           | Some (Inl _) \<Rightarrow> Dee_COMPARE_ERR
           | Some (Inr rhs_int) \<Rightarrow> Dee_ssize_compare_int_eq init lhs rhs_int))"

definition DeeInt_Size_Compare ::
  "('o \<Rightarrow> DeeInt result option) \<Rightarrow> u64 \<Rightarrow> u64 \<Rightarrow> 'o operand \<Rightarrow> int" where
  "DeeInt_Size_Compare asint init lhs rhs =
     (case DeeObject_Int asint rhs of
        Inl _ \<Rightarrow> Dee_COMPARE_ERR
      | Inr rhs_int \<Rightarrow> Dee_size_compare_int init lhs rhs_int)"

definition DeeInt_Size_CompareEq ::
  "('o \<Rightarrow> DeeInt result option) \<Rightarrow> u64 \<Rightarrow> u64 \<Rightarrow> 'o operand \<Rightarrow> int" where
  "DeeInt_Size_CompareEq asint init lhs rhs =
     (case DeeObject_Int asint rhs of
        Inl _ \<Rightarrow> Dee_COMPARE_ERR
      | Inr rhs_int \<Rightarrow> Dee_size_compare_int_eq init lhs rhs_int)"

definition DeeInt_Size_TryCompareEq ::
  "('o \<Rightarrow> DeeInt result option) \<Rightarrow> u64 \<Rightarrow> u64 \<Rightarrow> 'o operand \<Rightarrow> int" where
  "DeeInt_Size_TryCompareEq asint init lhs rhs =
     (case rhs of
        IntObject rhs_int \<Rightarrow> Dee_size_compare_int_eq init lhs rhs_int
      | OtherObject x \<Rightarrow>
          (case asint x of
             None \<Rightarrow> Dee_COMPARE_NE
           | Some (Inl _) \<Rightarrow> Dee_COMPARE_ERR
           | Some (Inr rhs_int) \<Rightarrow> Dee_size_compare_int_eq init lhs rhs_int))"

section \<open>The order of integers\<close>

lemma size_less_value_less:
  assumes "int_ok a" "int_ok b" "ob_size a < ob_size b"
  shows "int_val a < int_val b"
proof -
  consider "0 \<le> ob_size a" | "ob_size a < 0" "0 \<le> ob_size b" | "ob_size b < 0" by linarith
  then show ?thesis
  proof cases
    case 1
    then show ?thesis
      using assms int_mag_less_of_size [of b a] by (simp add: int_val_nonneg)
  next
    case 2
    then show ?thesis
      using int_val_less_0_iff [OF assms(1)] int_val_nonneg [of b] by simp
  next
    case 3
    then show ?thesis
      using assms int_mag_less_of_size [of a b] by (simp add: int_val_neg)
  qed
qed

lemma sint_digit: "unat d < BASE \<Longrightarrow> sint (d :: digit) = int (unat d)"
  by (rule sint_small) (simp add: BASE_num)

lemma sint_digit_diff:
  fixes x y :: digit
  assumes "unat x < BASE" "unat y < BASE"
  shows "sint (x - y) = int (unat x) - int (unat y)"
proof -
  have e: "(2::int) ^ (LENGTH(32) - 1) = 2147483648" by simp
  have s: "sint x = int (unat x)" "sint y = int (unat y)"
    using sint_digit assms by blast+
  have b: "int (unat x) < 1073741824" "int (unat y) < 1073741824" "0 \<le> int (unat x)" "0 \<le> int (unat y)"
    using assms unfolding BASE_num of_nat_less_numeral_iff by simp_all
  have "sint (x - y) = sint x - sint y"
  proof (rule sint_diff_range)
    show "- (2 ^ (LENGTH(32) - 1)) \<le> sint x - sint y" unfolding e s using b by linarith
    show "sint x - sint y < 2 ^ (LENGTH(32) - 1)" unfolding e s using b by linarith
  qed
  then show ?thesis by (simp only: s)
qed

lemma sgn_compareint:
  assumes "int_ok a" "int_ok b"
  shows "sgn (int_compareint a b) = sgn (int_val a - int_val b)"
proof (cases "ob_size a = ob_size b")
  case False
  then consider "ob_size a < ob_size b" | "ob_size b < ob_size a" by linarith
  then show ?thesis
    using False size_less_value_less [OF assms] size_less_value_less [OF assms(2,1)]
    by cases (simp_all add: int_compareint_def)
next
  case True
  define as bs n where "as = digits a" and "bs = digits b" and "n = nat \<bar>ob_size a\<bar>"
  define i where "i = top_diff as bs n"
  have len: "length as = n" "length bs = n"
    using True assms by (simp_all add: as_def bs_def n_def length_digits)
  have ok: "digits_ok as" "digits_ok bs"
    using assms by (simp_all add: as_def bs_def int_mem_digits_ok)
  have unf: "int_compareint a b =
      (if i = 0 then 0 else if ob_size a < 0 then - sint (as ! (i - 1) - bs ! (i - 1))
       else sint (as ! (i - 1) - bs ! (i - 1)))"
    using True by (simp add: int_compareint_def i_def as_def bs_def n_def Let_def)
  note cmp = top_diff_compare [OF ok, folded i_def, unfolded len, OF refl, folded i_def]
  show ?thesis
  proof (cases "i = 0")
    case z: True
    have "as = bs" using cmp(1) z by simp
    then have "int_val a = int_val b" using True by (simp add: int_val_def int_mag_def as_def bs_def)
    then show ?thesis using z unf by simp
  next
    case False
    have le: "i \<le> n" unfolding i_def by (rule top_diff_le)
    then have il: "i - 1 < n" using False by simp
    have d: "sint (as ! (i - 1) - bs ! (i - 1)) = int (unat (as ! (i - 1))) - int (unat (bs ! (i - 1)))"
      using ok len il by (intro sint_digit_diff digits_ok_nth) simp_all
    have neq: "as ! (i - 1) \<noteq> bs ! (i - 1)"
      using top_diff_neq [of as bs n] False by (simp add: i_def)
    have tail: "drop i as = drop i bs"
      using top_diff_drop [of as bs] len by (simp add: i_def)
    have dv: "dval xs = dval (take i xs) + BASE ^ i * dval (drop i xs)" if "length xs = n" for xs
      using dval_take_drop [of xs i] that le by (simp add: min_absorb2)
    have mags: "int_mag a = dval (take i as) + BASE ^ i * dval (drop i bs)"
      "int_mag b = dval (take i bs) + BASE ^ i * dval (drop i bs)"
      using dv [OF len(1)] dv [OF len(2)] tail by (simp_all add: int_mag_def as_def bs_def)
    have lt: "unat (as ! (i - 1)) < unat (bs ! (i - 1)) \<Longrightarrow> int_mag a < int_mag b"
      "unat (bs ! (i - 1)) < unat (as ! (i - 1)) \<Longrightarrow> int_mag b < int_mag a"
      using cmp(2,3) False by (simp_all add: mags word_less_nat_alt)
    define X Y ma mb where "X = unat (as ! (i - 1))" and "Y = unat (bs ! (i - 1))"
      and "ma = int_mag a" and "mb = int_mag b"
    have "X \<noteq> Y" using neq by (simp add: word_unat_eq_iff X_def Y_def)
    then have lt': "X < Y \<and> ma < mb \<or> Y < X \<and> mb < ma"
      using lt unfolding X_def Y_def ma_def mb_def by linarith
    have c: "int_compareint a b = (if ob_size a < 0 then - (int X - int Y) else int X - int Y)"
      using False by (simp only: unf d X_def Y_def if_False)
    have v: "int_val a - int_val b = (if ob_size a < 0 then - (int ma - int mb) else int ma - int mb)"
      using True by (simp add: int_val_neg int_val_nonneg ma_def mb_def)
    show ?thesis
      unfolding c v using lt' by (cases "ob_size a < 0") auto
  qed
qed

lemma compareint_iff:
  assumes "int_ok a" "int_ok b"
  shows "int_compareint a b < 0 \<longleftrightarrow> int_val a < int_val b"
    and "int_compareint a b = 0 \<longleftrightarrow> int_val a = int_val b"
    and "int_compareint a b > 0 \<longleftrightarrow> int_val a > int_val b"
  using sgn_compareint [OF assms] by (auto simp: sgn_if split: if_splits)

section \<open>Integers as an ordered type\<close>

text \<open>
  The well-formed objects without spare digits, with the order and the equality that the
  comparison routine decides.
\<close>

typedef bigint = "{x :: DeeInt. int_ok x \<and> ob_digit x = digits x}"
  by (rule exI [of _ "DeeInt_Alloc []"]) (simp add: int_ok_def DeeInt_Alloc_def digits_def int_mem_def)

lemma bigint_ok: "int_ok (Rep_bigint x)"
  using Rep_bigint [of x] by simp

lemma bigint_eqI:
  assumes "int_val (Rep_bigint x) = int_val (Rep_bigint y)"
  shows "x = y"
proof -
  have "ob_size (Rep_bigint x) = ob_size (Rep_bigint y)" "digits (Rep_bigint x) = digits (Rep_bigint y)"
    using int_ok_unique [OF bigint_ok bigint_ok assms] by simp_all
  then have "Rep_bigint x = Rep_bigint y"
    using Rep_bigint [of x] Rep_bigint [of y] by (intro DeeInt.equality) simp_all
  then show ?thesis by (simp add: Rep_bigint_inject)
qed

instantiation bigint :: linorder
begin

definition less_eq_bigint :: "bigint \<Rightarrow> bigint \<Rightarrow> bool" where
  "less_eq_bigint x y \<longleftrightarrow> int_compareint (Rep_bigint x) (Rep_bigint y) \<le> 0"

definition less_bigint :: "bigint \<Rightarrow> bigint \<Rightarrow> bool" where
  "less_bigint x y \<longleftrightarrow> int_compareint (Rep_bigint x) (Rep_bigint y) < 0"

instance
proof
  fix x y z :: bigint
  note iff = compareint_iff [OF bigint_ok bigint_ok]
  have le: "u \<le> v \<longleftrightarrow> int_val (Rep_bigint u) \<le> int_val (Rep_bigint v)" for u v :: bigint
    using iff [of u v] unfolding less_eq_bigint_def by linarith
  have less: "u < v \<longleftrightarrow> int_val (Rep_bigint u) < int_val (Rep_bigint v)" for u v :: bigint
    using iff [of u v] unfolding less_bigint_def by linarith
  show "x < y \<longleftrightarrow> x \<le> y \<and> \<not> y \<le> x" unfolding le less by linarith
  show "x \<le> x" unfolding le by simp
  show "x \<le> z" if "x \<le> y" "y \<le> z" using that unfolding le by linarith
  show "x = y" if "x \<le> y" "y \<le> x" using that unfolding le by (intro bigint_eqI) linarith
  show "x \<le> y \<or> y \<le> x" unfolding le by linarith
qed

end

instantiation bigint :: equal
begin

definition equal_bigint :: "bigint \<Rightarrow> bigint \<Rightarrow> bool" where
  "equal_bigint x y \<longleftrightarrow> int_compareint (Rep_bigint x) (Rep_bigint y) = 0"

instance
  by standard (auto simp: equal_bigint_def compareint_iff(2) [OF bigint_ok bigint_ok] intro: bigint_eqI)

end

section \<open>Hashes\<close>

lemma int_hash_loop_small:
  assumes "digits_ok ds"
  defines "v \<equiv> \<lambda>x. unat x * BASE ^ length ds + dval (rev ds)"
  shows "v x < 2 ^ 64 \<Longrightarrow> unat (int_hash_loop x ds) = v x"
  using assms(1) unfolding v_def
proof (induction ds arbitrary: x)
  case Nil
  then show ?case by simp
next
  case (Cons d ds)
  let ?x = "(push_bit DIGIT_BITS x OR drop_bit (64 - DIGIT_BITS) x) + ucast d"
  have d: "unat d < BASE" "digits_ok ds" using Cons.prems by simp_all
  have v: "unat x * BASE ^ length (d # ds) + dval (rev (d # ds))
      = (unat x * BASE + unat d) * BASE ^ length ds + dval (rev ds)"
    by (simp add: algebra_simps)
  have "(unat x * BASE + unat d) * 1 \<le> (unat x * BASE + unat d) * BASE ^ length ds"
    by (intro mult_le_mono) (simp_all add: Suc_le_eq)
  then have fit: "unat x * BASE + unat d < 2 ^ 64"
    using Cons.prems(1) unfolding v mult_1_right by (meson le_add1 le_less_trans order.trans)
  then have "unat x * BASE < 2 ^ 64" by (meson le_add1 le_less_trans)
  then have p: "unat (push_bit DIGIT_BITS x) = unat x * BASE"
    by (subst unat_push_bit_no_wrap) (simp_all add: exp_DIGIT_BITS)
  have "unat x < 2 ^ 34" using \<open>unat x * BASE < 2 ^ 64\<close> by (simp add: BASE_num)
  then have z: "drop_bit (64 - DIGIT_BITS) x = 0"
    by (simp add: word_unat_eq_iff unat_drop_bit_word DIGIT_BITS_def)
  have "unat ?x = unat x * BASE + unat d"
    unfolding z using fit p by (subst unat_add_no_wrap) (simp_all add: unat_ucast_up)
  then show ?case
    using Cons.IH [OF _ d(2), of ?x] Cons.prems(1) unfolding v by simp
qed

lemma int_hash_small:
  assumes "int_ok x" "\<bar>int_val x\<bar> < 2 ^ 64"
  shows "int_hash x = word_of_int (int_val x)"
proof -
  have m: "int_mag x < 2 ^ 64"
  proof -
    have "int (int_mag x) < int (2 ^ 64)" using assms(2) by (simp add: abs_int_val)
    then show ?thesis by (simp only: of_nat_less_iff)
  qed
  have loop: "int_hash_loop 0 (rev (digits x)) = word_of_int (int (int_mag x))"
    using int_hash_loop_small [of "rev (digits x)" 0] assms(1) m
    by (simp add: int_mem_digits_ok int_mag_def word_unat_eq_iff unat_of_nat)
  have neg1: "scast (- (ob_digit x ! 0)) = (word_of_int (int_val x) :: u64)" if "ob_size x = -1"
  proof -
    have "unat (ob_digit x ! 0) < BASE" "int_mag x = unat (ob_digit x ! 0)"
      using digits_one [OF assms(1)] that by simp_all
    then show ?thesis using sint_minus_digit [of "ob_digit x ! 0"] that
      by (simp add: scast_eq int_val_neg)
  qed
  have pos1: "ucast (ob_digit x ! 0) = (word_of_int (int_val x) :: u64)" if "ob_size x = 1"
    using digits_one [OF assms(1)] that by (simp add: int_val_nonneg)
  show ?thesis
  proof (cases "ob_size x = -1 \<or> ob_size x = 0 \<or> ob_size x = 1")
    case True
    then show ?thesis
      using neg1 pos1 int_mag_0 [of x] by (auto simp: int_hash_def int_val_def)
  next
    case False
    then show ?thesis
      using loop by (cases "ob_size x < 0") (simp_all add: int_hash_def Let_def int_val_neg int_val_nonneg)
  qed
qed

lemma ob_digit_0: "ob_size x = 1 \<or> ob_size x = -1 \<Longrightarrow> int_ok x \<Longrightarrow> ob_digit x ! 0 = digits x ! 0"
  by (auto simp: digits_def int_ok_def int_mem_def)

lemma int_hash_cong:
  assumes "int_ok x" "int_ok y" "int_val x = int_val y"
  shows "int_hash x = int_hash y"
proof -
  have "ob_size x = ob_size y" "digits x = digits y" using int_ok_unique [OF assms] by simp_all
  then show ?thesis using ob_digit_0 [of x] ob_digit_0 [of y] assms(1,2) by (simp add: int_hash_def)
qed

section \<open>Machine sizes\<close>

lemma read64_cases:
  fixes rhs :: DeeInt
  assumes "int_ok rhs"
  defines "k \<equiv> int_val rhs" and "r \<equiv> DeeInt_TryGet64Bit rhs"
  obtains
    (overflow) "\<not> in_signed 64 k" "\<not> in_unsigned 64 k" "\<not> is_unsigned r" "\<not> is_signed r"
      "\<And>init. read_local init r = init"
  | (signed) "k < 0" "in_signed 64 k" "\<not> in_unsigned 64 k" "is_signed r" "\<not> is_unsigned r"
      "\<And>init. sint (read_local init r) = k"
  | (both) "0 \<le> k" "in_signed 64 k" "in_unsigned 64 k" "is_unsigned r" "\<not> is_signed r"
      "\<And>init. sint (read_local init r) = k" "\<And>init. uint (read_local init r) = k"
  | (high) "2 ^ 63 \<le> k" "\<not> in_signed 64 k" "in_unsigned 64 k" "is_unsigned r" "\<not> is_signed r"
      "\<And>init. uint (read_local init r) = k"
proof -
  note r = rd64.tryget_spec [OF assms(1), folded r_def k_def]
  note su = sint_of_range [where 'a = 64 and k = k] uint_of_range [where 'a = 64 and k = k]
  show thesis
  proof (cases k rule: read_cases [where 'a = 64])
    case pos
    show ?thesis by (rule overflow) (use pos in \<open>simp_all add: r read_local_def\<close>)
  next
    case neg
    show ?thesis by (rule overflow) (use neg in \<open>simp_all add: r read_local_def\<close>)
  next
    case s: signed
    show ?thesis by (rule signed) (use s su in \<open>simp_all add: r read_local_def\<close>)
  next
    case b: both
    show ?thesis by (rule both) (use b su in \<open>simp_all add: r read_local_def\<close>)
  next
    case h: high
    then have "2 ^ 63 \<le> k" by (simp add: in_signed_def)
    then show ?thesis by (intro high) (use h su in \<open>simp_all add: r read_local_def\<close>)
  qed
qed

text \<open>
  The number a comparison with a machine size sees: the value of the integer if it fits 64 bits,
  signed or unsigned, and otherwise whatever the local variable held, read as the machine type.
\<close>

definition seen_value :: "(u64 \<Rightarrow> int) \<Rightarrow> u64 \<Rightarrow> int \<Rightarrow> int" where
  "seen_value rd init k = (if in_signed 64 k \<or> in_unsigned 64 k then k else rd init)"

lemma word_less_mask63: "mask 63 < (w :: u64) \<longleftrightarrow> 2 ^ 63 \<le> uint w"
  by (simp add: word_less_def mask_numeral) presburger

lemma word_neq_sint: "(x :: u64) \<noteq> y \<longleftrightarrow> sint x \<noteq> sint y"
  by (auto simp: signed_word_eqI)

lemma word_neq_uint: "(x :: u64) \<noteq> y \<longleftrightarrow> uint x \<noteq> uint y"
  by (simp add: word_uint_eq_iff)

lemma machine_ranges:
  "- (2 ^ 63) \<le> sint (w :: u64)" "sint w < 2 ^ 63" "0 \<le> uint w" "uint w < 2 ^ 64"
  using sint_greater_eq [of w] sint_less [of w] uint_lt2p [of w] by simp_all

lemmas compare_codes = Dee_COMPARE_LO_def Dee_COMPARE_EQ_def Dee_COMPARE_GR_def Dee_COMPARE_NE_def
  Dee_CompareFromDiff_def Dee_CompareEqFromDiff_def

lemma ssize_compare_spec:
  assumes "int_ok rhs"
  shows "Dee_ssize_compare_int init lhs rhs
      = Dee_CompareFromDiff (sint lhs - seen_value sint init (int_val rhs))"
    and "Dee_ssize_compare_int_eq init lhs rhs
      = Dee_CompareEqFromDiff (sint lhs - seen_value sint init (int_val rhs))"
proof -
  define k r v where "k = int_val rhs" and "r = DeeInt_TryGet64Bit rhs" and "v = read_local init r"
  note range = machine_ranges [of lhs] machine_ranges [of v]
  note defs = Dee_ssize_compare_int_def Dee_ssize_compare_int_eq_def Let_def
    r_def [symmetric] k_def [symmetric] v_def [symmetric] word_sless_alt word_less_mask63 word_neq_sint seen_value_def
  have "Dee_ssize_compare_int init lhs rhs = Dee_CompareFromDiff (sint lhs - seen_value sint init k)
      \<and> Dee_ssize_compare_int_eq init lhs rhs = Dee_CompareEqFromDiff (sint lhs - seen_value sint init k)"
    using assms
  proof (cases rule: read64_cases)
    case overflow
    have "v = init" using overflow(5) by (simp only: v_def r_def k_def)
    then show ?thesis using overflow(1-4) [folded k_def r_def] unfolding defs by (simp add: compare_codes)
  next
    case signed
    have "sint v = k" using signed(6) by (simp only: v_def r_def k_def)
    then show ?thesis using signed(1-5) [folded k_def r_def] range unfolding defs by (simp add: compare_codes)
  next
    case both
    have "sint v = k" "uint v = k" using both(6,7) by (simp_all only: v_def r_def k_def)
    then show ?thesis using both(1-5) [folded k_def r_def] range unfolding defs by (simp add: compare_codes)
  next
    case high
    have "uint v = k" using high(6) by (simp only: v_def r_def k_def)
    then show ?thesis using high(1-5) [folded k_def r_def] range unfolding defs by (simp add: compare_codes)
  qed
  then show "Dee_ssize_compare_int init lhs rhs
      = Dee_CompareFromDiff (sint lhs - seen_value sint init (int_val rhs))"
    and "Dee_ssize_compare_int_eq init lhs rhs
      = Dee_CompareEqFromDiff (sint lhs - seen_value sint init (int_val rhs))"
    by (simp_all only: k_def)
qed

lemma size_compare_spec:
  assumes "int_ok rhs"
  shows "Dee_size_compare_int init lhs rhs
      = Dee_CompareFromDiff (uint lhs - seen_value uint init (int_val rhs))"
    and "Dee_size_compare_int_eq init lhs rhs
      = Dee_CompareEqFromDiff (uint lhs - seen_value uint init (int_val rhs))"
proof -
  define k r v where "k = int_val rhs" and "r = DeeInt_TryGet64Bit rhs" and "v = read_local init r"
  note range = machine_ranges [of lhs] machine_ranges [of v]
  note defs = Dee_size_compare_int_def Dee_size_compare_int_eq_def Let_def
    r_def [symmetric] k_def [symmetric] v_def [symmetric] word_sless_alt word_less_def word_neq_uint seen_value_def
  have "Dee_size_compare_int init lhs rhs = Dee_CompareFromDiff (uint lhs - seen_value uint init k)
      \<and> Dee_size_compare_int_eq init lhs rhs = Dee_CompareEqFromDiff (uint lhs - seen_value uint init k)"
    using assms
  proof (cases rule: read64_cases)
    case overflow
    have "v = init" using overflow(5) by (simp only: v_def r_def k_def)
    then show ?thesis using overflow(1-4) [folded k_def r_def] unfolding defs by (simp add: compare_codes)
  next
    case signed
    have "sint v = k" using signed(6) by (simp only: v_def r_def k_def)
    moreover have "k < uint lhs" "k < uint v"
      using signed(1) [folded k_def] range by linarith+
    ultimately show ?thesis using signed(1-5) [folded k_def r_def] range unfolding defs by (simp add: compare_codes) (smt (verit) uint_ge_0)
  next
    case both
    have "sint v = k" "uint v = k" using both(6,7) by (simp_all only: v_def r_def k_def)
    then show ?thesis using both(1-5) [folded k_def r_def] range unfolding defs by (simp add: compare_codes)
  next
    case high
    have "uint v = k" using high(6) by (simp only: v_def r_def k_def)
    then show ?thesis using high(1-5) [folded k_def r_def] range unfolding defs by (simp add: compare_codes)
  qed
  then show "Dee_size_compare_int init lhs rhs
      = Dee_CompareFromDiff (uint lhs - seen_value uint init (int_val rhs))"
    and "Dee_size_compare_int_eq init lhs rhs
      = Dee_CompareEqFromDiff (uint lhs - seen_value uint init (int_val rhs))"
    by (simp_all only: k_def)
qed

section \<open>Properties\<close>

lemma compare_converted:
  assumes "int_ok self" "DeeObject_Int asint some_object = Inr rhs" "int_ok rhs"
  shows "int_compare asint self some_object = sgn (int_val self - int_val rhs)
    \<and> int_compare_eq asint self some_object = of_bool (int_val self \<noteq> int_val rhs)
    \<and> int_trycompare_eq asint self some_object = of_bool (int_val self \<noteq> int_val rhs)
    \<and> int_cmp_eq asint self some_object = Inr (int_val self = int_val rhs)
    \<and> int_cmp_ne asint self some_object = Inr (int_val self \<noteq> int_val rhs)
    \<and> int_cmp_lo asint self some_object = Inr (int_val self < int_val rhs)
    \<and> int_cmp_le asint self some_object = Inr (int_val self \<le> int_val rhs)
    \<and> int_cmp_gr asint self some_object = Inr (int_val self > int_val rhs)
    \<and> int_cmp_ge asint self some_object = Inr (int_val self \<ge> int_val rhs)"
proof -
  note iff = compareint_iff [OF assms(1,3)]
  have le: "int_compareint self rhs \<le> 0 \<longleftrightarrow> int_val self \<le> int_val rhs"
    and ge: "0 \<le> int_compareint self rhs \<longleftrightarrow> int_val rhs \<le> int_val self"
    using iff by linarith+
  have "Dee_CompareFromDiff (int_compareint self rhs) = sgn (int_val self - int_val rhs)"
    "Dee_CompareEqFromDiff (int_compareint self rhs) = of_bool (int_val self \<noteq> int_val rhs)"
    using iff by (auto simp: compare_codes sgn_if)
  then show ?thesis
    using assms(2) iff le ge
    by (auto simp: int_compare_def int_compare_eq_def int_trycompare_eq_def int_cmp_eq_def int_cmp_ne_def
        int_cmp_lo_def int_cmp_le_def int_cmp_gr_def int_cmp_ge_def DeeObject_Int_def
        split: operand.splits option.splits)
qed

lemma compare_unconverted:
  assumes "DeeObject_Int asint some_object = Inl e"
  shows "int_compare asint self some_object = Dee_COMPARE_ERR
    \<and> int_compare_eq asint self some_object = Dee_COMPARE_ERR
    \<and> int_cmp_eq asint self some_object = Inl e \<and> int_cmp_ne asint self some_object = Inl e
    \<and> int_cmp_lo asint self some_object = Inl e \<and> int_cmp_le asint self some_object = Inl e
    \<and> int_cmp_gr asint self some_object = Inl e \<and> int_cmp_ge asint self some_object = Inl e
    \<and> int_trycompare_eq asint self some_object
      = (if \<exists>x. some_object = OtherObject x \<and> asint x = None then Dee_COMPARE_NE else Dee_COMPARE_ERR)"
  using assms
  by (auto simp: int_compare_def int_compare_eq_def int_trycompare_eq_def int_cmp_eq_def int_cmp_ne_def
      int_cmp_lo_def int_cmp_le_def int_cmp_gr_def int_cmp_ge_def DeeObject_Int_def
      split: operand.splits option.splits)

lemma bigint_order:
  "(x \<le> y \<longleftrightarrow> int_val (Rep_bigint x) \<le> int_val (Rep_bigint y))
   \<and> (x < y \<longleftrightarrow> int_val (Rep_bigint x) < int_val (Rep_bigint y))
   \<and> (HOL.equal x y \<longleftrightarrow> int_val (Rep_bigint x) = int_val (Rep_bigint y))
   \<and> (int_compareint (Rep_bigint x) (Rep_bigint y) \<le> 0 \<longleftrightarrow> x \<le> y)"
  using compareint_iff [OF bigint_ok bigint_ok, of x y]
  unfolding less_eq_bigint_def less_bigint_def equal_bigint_def by linarith

text \<open>
  C29: All comparison operators agree with the order of the values, once the right operand converts
  to an integer: the three-way comparison, the two equality tests and the six relations.  If it does
  not convert they report the error, with one exception: \<open>int_trycompare_eq\<close> answers that an object
  whose type has no integer conversion is not equal.  \<open>int_compareint\<close> is a linear order on normalized
  integers, and it is the order of their values; two of them are equal objects exactly if their values are.
\<close>

theorem int_compare_correct:
  assumes "int_ok self"
  shows "(case DeeObject_Int asint some_object of
    Inr rhs \<Rightarrow>
      (if int_ok rhs then
         int_compare asint self some_object = sgn (int_val self - int_val rhs)
         \<and> int_compare_eq asint self some_object = of_bool (int_val self \<noteq> int_val rhs)
         \<and> int_trycompare_eq asint self some_object = of_bool (int_val self \<noteq> int_val rhs)
         \<and> int_cmp_eq asint self some_object = Inr (int_val self = int_val rhs)
         \<and> int_cmp_ne asint self some_object = Inr (int_val self \<noteq> int_val rhs)
         \<and> int_cmp_lo asint self some_object = Inr (int_val self < int_val rhs)
         \<and> int_cmp_le asint self some_object = Inr (int_val self \<le> int_val rhs)
         \<and> int_cmp_gr asint self some_object = Inr (int_val self > int_val rhs)
         \<and> int_cmp_ge asint self some_object = Inr (int_val self \<ge> int_val rhs)
       else True)
  | Inl e \<Rightarrow>
      int_compare asint self some_object = Dee_COMPARE_ERR
      \<and> int_compare_eq asint self some_object = Dee_COMPARE_ERR
      \<and> int_cmp_eq asint self some_object = Inl e \<and> int_cmp_ne asint self some_object = Inl e
      \<and> int_cmp_lo asint self some_object = Inl e \<and> int_cmp_le asint self some_object = Inl e
      \<and> int_cmp_gr asint self some_object = Inl e \<and> int_cmp_ge asint self some_object = Inl e
      \<and> int_trycompare_eq asint self some_object
        = (if \<exists>x. some_object = OtherObject x \<and> asint x = None then Dee_COMPARE_NE else Dee_COMPARE_ERR))
   \<and> (x \<le> y \<longleftrightarrow> int_val (Rep_bigint x) \<le> int_val (Rep_bigint y))
   \<and> (x < y \<longleftrightarrow> int_val (Rep_bigint x) < int_val (Rep_bigint y))
   \<and> (HOL.equal x y \<longleftrightarrow> int_val (Rep_bigint x) = int_val (Rep_bigint y))
   \<and> (int_compareint (Rep_bigint x) (Rep_bigint y) \<le> 0 \<longleftrightarrow> x \<le> y)"
  (is "?conversion \<and> _")
proof -
  have ?conversion
  proof (cases "DeeObject_Int asint some_object")
    case (Inl e)
    show ?thesis unfolding Inl sum.case by (rule compare_unconverted [OF Inl])
  next
    case (Inr rhs)
    show ?thesis unfolding Inr sum.case using compare_converted [OF assms Inr] by simp
  qed
  then show ?thesis using bigint_order by blast
qed

theorem int_compare_correct_witness:
  "int_compare (\<lambda>n. Some (Inr (DeeInt_NewUInt8 n))) \<lparr>ob_size = -1, ob_digit = [3]\<rparr> (OtherObject 2) = -1"
  using int_compare_correct [of "\<lparr>ob_size = -1, ob_digit = [3]\<rparr>" "\<lambda>n. Some (Inr (DeeInt_NewUInt8 n))"
      "OtherObject 2"]
  by (simp add: int_eval DeeObject_Int_def DeeInt_NewUInt8_def DeeInt_8bit_def)

text \<open>
  C30: Equal integers have equal hashes, and the hash of an integer of magnitude below \<open>2\<^sup>6\<^sup>4\<close> is its
  value in 64-bit two's complement.
\<close>

theorem int_hash_correct:
  assumes "int_ok x" "int_ok y"
  shows "(int_compareint x y = 0 \<longrightarrow> int_hash x = int_hash y)
    \<and> (\<bar>int_val x\<bar> < 2 ^ 64 \<longrightarrow> int_hash x = word_of_int (int_val x))"
  using int_hash_cong [OF assms] int_hash_small [OF assms(1)] compareint_iff(2) [OF assms] by blast

theorem int_hash_correct_witness:
  "int_hash \<lparr>ob_size = -2, ob_digit = [1, 1]\<rparr> = word_of_int (- 1073741825)"
  using int_hash_correct [of "\<lparr>ob_size = -2, ob_digit = [1, 1]\<rparr>" "\<lparr>ob_size = -2, ob_digit = [1, 1]\<rparr>"]
  by (simp add: int_eval)

text \<open>
  Beyond 64 bits the hash is not the truncated value, although the comment in \<open>int_hash\<close> says so:
  \<open>2\<^sup>6\<^sup>4\<close> truncates to 0 and hashes to 1, because the loop rotates.
\<close>

lemma int_hash_not_truncation:
  "represents \<lparr>ob_size = 3, ob_digit = [0, 0, 16]\<rparr> (2 ^ 64)
   \<and> int_hash \<lparr>ob_size = 3, ob_digit = [0, 0, 16]\<rparr> = 1 \<and> (word_of_int (2 ^ 64) :: u64) = 0"
  by (simp add: int_eval int_hash_def Let_def DIGIT_BITS_def)

text \<open>
  C31: Comparing a machine size with an integer is right whenever the integer fits 64 bits, signed or
  unsigned.  For any other integer the overflow code of \<open>DeeInt_TryGet64Bit\<close> is not looked at: the
  answer compares with the indeterminate content \<open>init\<close> of a local variable, so that a size can even
  be reported equal to an integer of a hundred bits.
\<close>

theorem int_size_compare_characterized:
  assumes "DeeObject_Int asint rhs = Inr i" "int_ok i"
  shows "DeeInt_SSize_Compare asint init lhs rhs
      = Dee_CompareFromDiff (sint lhs - seen_value sint init (int_val i))
    \<and> DeeInt_SSize_CompareEq asint init lhs rhs
      = Dee_CompareEqFromDiff (sint lhs - seen_value sint init (int_val i))
    \<and> DeeInt_SSize_TryCompareEq asint init lhs rhs
      = Dee_CompareEqFromDiff (sint lhs - seen_value sint init (int_val i))
    \<and> DeeInt_Size_Compare asint init lhs rhs
      = Dee_CompareFromDiff (uint lhs - seen_value uint init (int_val i))
    \<and> DeeInt_Size_CompareEq asint init lhs rhs
      = Dee_CompareEqFromDiff (uint lhs - seen_value uint init (int_val i))
    \<and> DeeInt_Size_TryCompareEq asint init lhs rhs
      = Dee_CompareEqFromDiff (uint lhs - seen_value uint init (int_val i))"
  unfolding ssize_compare_spec [OF assms(2), symmetric] size_compare_spec [OF assms(2), symmetric]
  using assms(1)
  by (auto simp: DeeInt_SSize_Compare_def DeeInt_SSize_CompareEq_def DeeInt_SSize_TryCompareEq_def
      DeeInt_Size_Compare_def DeeInt_Size_CompareEq_def DeeInt_Size_TryCompareEq_def DeeObject_Int_def
      split: operand.splits option.splits)

theorem int_size_compare_characterized_witness:
  "DeeInt_Size_CompareEq (\<lambda>x :: unit. None) 5 5 (IntObject \<lparr>ob_size = 4, ob_digit = [0, 0, 0, 1]\<rparr>)
    = Dee_COMPARE_EQ"
  using int_size_compare_characterized [of "\<lambda>x :: unit. None"
      "IntObject \<lparr>ob_size = 4, ob_digit = [0, 0, 0, 1]\<rparr>" "\<lparr>ob_size = 4, ob_digit = [0, 0, 0, 1]\<rparr>" 5 5]
  by (simp add: int_eval DeeObject_Int_def seen_value_def in_signed_def in_unsigned_def compare_codes)

end
