(* ===== verification/Probing.thy ===== *)
theory Probing
  imports Prelude
begin

text \<open>
  The probe sequence of the hash tables (\<open>Dee_simple_hashset_hashst\<close>,
  \<open>Dee_simple_hashset_hashnx\<close>, include/deemon/util/simple-hashset.h): from the hash masked to the
  table, the index is multiplied by five and moved on by the perturbation and one, and the
  perturbation loses five bits.  Once it has run out, the step is a linear congruential generator
  modulo the size of the table, a power of two, and visits every slot.
\<close>

section \<open>The sequence\<close>

type_synonym probe = "u64 \<times> u64"

definition hashst :: "u64 \<Rightarrow> u64 \<Rightarrow> probe" where
  "hashst m hash = (hash AND m, hash AND m)"

fun hashnx :: "probe \<Rightarrow> probe" where
  "hashnx (hs, perturb) = (push_bit 2 hs + hs + perturb + 1, drop_bit 5 perturb)"

definition hashit :: "u64 \<Rightarrow> probe \<Rightarrow> nat" where
  "hashit m p = unat (fst p AND m)"

section \<open>Powers of five\<close>

lemma five_power_mod_8: "odd d \<Longrightarrow> (5::nat) ^ d mod 8 = 5"
proof (induction d rule: less_induct)
  case (less d)
  show ?case
  proof (cases "d = 1")
    case False
    then obtain e where e: "d = Suc (Suc e)" "odd e"
      using less.prems by (metis One_nat_def even_Suc odd_pos gr0_implies_Suc old.nat.exhaust)
    then have "(5::nat) ^ d mod 8 = 25 * (5 ^ e mod 8) mod 8" by (simp add: mod_mult_right_eq)
    also have "\<dots> = 5" using less.IH [of e] e by simp
    finally show ?thesis .
  qed simp
qed

lemma five_power_mod_4: "(5::nat) ^ d mod 4 = 1"
  by (induction d) (simp_all, presburger)

lemma two_power_dvd_five: "2 ^ (k + 2) dvd (5::nat) ^ d - 1 \<Longrightarrow> 2 ^ k dvd d"
proof (induction k arbitrary: d)
  case (Suc k)
  have "even d"
  proof (rule ccontr)
    assume "odd d"
    then have m: "(5::nat) ^ d mod 8 = 5" by (rule five_power_mod_8)
    have "(2::nat) ^ (Suc k + 2) = 8 * 2 ^ k" by simp
    then have "(8::nat) dvd 2 ^ (Suc k + 2)" by (metis dvd_triv_left)
    then have "(8::nat) dvd 5 ^ d - 1" using Suc.prems by (rule dvd_trans)
    then have "((5::nat) ^ d - 1) mod 8 = 0" by simp
    with m show False by presburger
  qed
  then obtain e where e: "d = 2 * e" by blast
  define f :: nat where "f = 5 ^ e"
  have f: "f mod 4 = 1" "1 \<le> f" by (simp_all add: f_def five_power_mod_4)
  have "(5::nat) ^ d = f * f" unfolding e f_def by (simp only: mult_2 power_add)
  then have p: "5 ^ d - 1 = (f - 1) * (f + 1)" by (simp add: algebra_simps)
  define g where "g = f div 4"
  have g: "f = 4 * g + 1" using f(1) unfolding g_def by presburger
  have "f + 1 = 2 * (2 * g + 1)" using g by simp
  then have "5 ^ d - 1 = 2 * ((f - 1) * (2 * g + 1))" unfolding p by (simp only: mult.left_commute)
  then have "2 * 2 ^ (k + 2) dvd 2 * ((f - 1) * (2 * g + 1))"
    using Suc.prems by (simp only: add_Suc power_Suc)
  moreover have "a dvd b" if "2 * a dvd 2 * b" for a b :: nat using that by simp
  ultimately have "2 ^ (k + 2) dvd (f - 1) * (2 * g + 1)" by blast
  moreover have "coprime (2 ^ (k + 2)) (2 * g + 1)"
    by (simp only: coprime_power_left_iff coprime_left_2_iff_odd) simp
  ultimately have "2 ^ (k + 2) dvd f - 1" by (simp only: coprime_dvd_mult_left_iff)
  then have "2 ^ k dvd e" using Suc.IH [of e] by (simp add: f_def)
  then show ?case by (simp add: e)
qed simp

section \<open>The generator visits every residue\<close>

fun lcg :: "nat \<Rightarrow> nat \<Rightarrow> nat" where
  "lcg 0 x = x"
| "lcg (Suc n) x = 5 * lcg n x + 1"

lemma lcg_closed: "4 * lcg n x + 1 = 5 ^ n * (4 * x + 1)"
  by (induction n) simp_all

lemma lcg_add: "lcg (m + n) x = lcg m (lcg n x)"
  by (induction m) simp_all

lemma lcg_no_early_cycle:
  assumes "0 < d" "d < 2 ^ k" "lcg d y mod 2 ^ k = y mod 2 ^ k"
  shows False
proof -
  have "y \<le> lcg d y" by (induction d) auto
  with assms(3) have "2 ^ k dvd lcg d y - y" by (simp add: mod_eq_dvd_iff_nat)
  then have "4 * 2 ^ k dvd 4 * (lcg d y - y)" by (rule mult_dvd_mono [OF dvd_refl])
  also have "4 * (lcg d y - y) = (5 ^ d - 1) * (4 * y + 1)"
    using lcg_closed [of d y] by (simp add: algebra_simps)
  finally have "2 ^ (k + 2) dvd (5 ^ d - 1) * (4 * y + 1)" by (simp add: mult.commute)
  moreover have "coprime (2 ^ (k + 2)) (4 * y + 1)"
    by (simp only: coprime_power_left_iff coprime_left_2_iff_odd) simp
  ultimately have "2 ^ (k + 2) dvd (5::nat) ^ d - 1" by (simp only: coprime_dvd_mult_left_iff)
  then have "2 ^ k dvd d" by (rule two_power_dvd_five)
  with assms(1,2) show False by (simp add: nat_dvd_not_less)
qed

lemma lcg_surj:
  assumes "t < 2 ^ k"
  obtains n where "n < 2 ^ k" "lcg n x mod 2 ^ k = t"
proof -
  let ?f = "\<lambda>n. lcg n x mod 2 ^ k" and ?N = "{..<(2::nat) ^ k}"
  have *: False if "m < n" "n < 2 ^ k" "?f m = ?f n" for m n
  proof (rule lcg_no_early_cycle)
    show "0 < n - m" "n - m < 2 ^ k" using that by simp_all
    show "lcg (n - m) (lcg m x) mod 2 ^ k = lcg m x mod 2 ^ k"
      using that by (simp flip: lcg_add)
  qed
  have "inj_on ?f ?N"
    by (rule inj_onI) (metis * lessThan_iff linorder_neqE_nat)
  then have "?f ` ?N = ?N" by (intro endo_inj_surj) auto
  then show thesis using assms that by (metis (no_types, lifting) imageE lessThan_iff)
qed

section \<open>The probe sequence visits every slot\<close>

text \<open>The mask of a table of \<open>2\<^sup>k\<close> slots.\<close>

definition hash_mask :: "nat \<Rightarrow> u64 \<Rightarrow> bool" where
  "hash_mask k m \<longleftrightarrow> 0 < k \<and> k < 64 \<and> m = mask k"

lemma hashit_eq: "hash_mask k m \<Longrightarrow> hashit m p = unat (fst p) mod 2 ^ k"
  by (simp add: hashit_def hash_mask_def unat_and_mask_word)

lemma hashit_less: "hash_mask k m \<Longrightarrow> hashit m p < 2 ^ k"
  by (simp add: hashit_eq)

lemma perturb_runs_out: "unat (snd ((hashnx ^^ n) p)) = unat (snd p) div 32 ^ n"
proof (induction n)
  case (Suc n)
  obtain hs pt where "(hashnx ^^ n) p = (hs, pt)" by fastforce
  then have "unat (snd ((hashnx ^^ Suc n) p)) = unat (snd p) div 32 ^ n div 32"
    using Suc by (simp add: unat_drop_bit_word)
  then show ?case by (simp only: div_mult2_eq [symmetric] power_Suc2)
qed simp

lemma hashnx_lcg:
  assumes "snd p = 0" "k \<le> 64"
  shows "snd ((hashnx ^^ n) p) = 0 \<and> unat (fst ((hashnx ^^ n) p)) mod 2 ^ k = lcg n (unat (fst p)) mod 2 ^ k"
proof (induction n)
  case 0
  then show ?case using assms(1) by simp
next
  case (Suc n)
  obtain hs pt where q: "(hashnx ^^ n) p = (hs, pt)" by fastforce
  have dvd: "(2::nat) ^ k dvd 2 ^ 64" using assms(2) by (rule le_imp_power_dvd)
  have "unat (push_bit 2 hs + hs + 1) mod 2 ^ k = (5 * unat hs + 1) mod 2 ^ k"
  proof -
    have "push_bit 2 hs + hs + 1 = (of_nat (5 * unat hs + 1) :: u64)"
      by (simp add: push_bit_eq_mult)
    then have "unat (push_bit 2 hs + hs + 1) = (5 * unat hs + 1) mod 2 ^ 64"
      by (simp only: unat_of_nat) simp
    then show ?thesis using dvd by (simp add: mod_mod_cancel)
  qed
  also have "\<dots> = (5 * (lcg n (unat (fst p)) mod 2 ^ k) + 1) mod 2 ^ k"
    using Suc q by (metis fst_conv mod_add_left_eq mod_mult_right_eq)
  also have "\<dots> = lcg (Suc n) (unat (fst p)) mod 2 ^ k"
    by (simp only: lcg.simps) (metis mod_add_left_eq mod_mult_right_eq)
  finally show ?case using Suc q by simp
qed

lemma probe_reaches:
  assumes "hash_mask k m" "t < 2 ^ k"
  obtains n where "hashit m ((hashnx ^^ n) p) = t"
proof -
  let ?q = "(hashnx ^^ 13) p"
  have "unat (snd p) < 2 ^ 64" using unsigned_less [of "snd p", where 'a = nat] by simp
  then have "unat (snd ?q) = 0" by (simp add: perturb_runs_out)
  then have q: "snd ?q = 0" by (simp add: unat_eq_zero)
  obtain n where n: "lcg n (unat (fst ?q)) mod 2 ^ k = t" using lcg_surj [OF assms(2)] by blast
  have "hashit m ((hashnx ^^ n) ?q) = t"
    using hashnx_lcg [OF q, of k n] assms(1) n
    by (simp only: hashit_eq [OF assms(1)]) (simp add: hash_mask_def)
  then show thesis using that [of "n + 13"] by (simp add: funpow_add)
qed

end
