(* ===== verification/SimpleHashset.thy ===== *)
theory SimpleHashset
  imports Probing
begin

text \<open>
  The open-addressing hash set of the runtime (src/deemon/runtime/simple-hashset.c,
  include/deemon/util/simple-hashset.h), which remembers the elements an iterator has already
  produced.  Elements are objects with user-defined hash and equality; these two operators are the
  arguments \<open>hsh\<close> and \<open>cmp\<close> (\<open>DeeObject_Hash\<close>, \<open>DeeObject_TryCompareEq\<close>).

  Running out of memory is modelled: \<open>mem\<close> lists the outcomes of the coming requests (attempts to
  allocate and to collect memory); requests beyond its end succeed.  A loop that may not end is a
  partial function; \<open>None\<close> is not returning, and also a failed \<open>ASSERT\<close>.
\<close>

section \<open>Data\<close>

record 'k item =
  shsi_key :: "'k option"
  shsi_hash :: u64

record 'k hashset =
  shs_elem :: "'k item list option"
  shs_mask :: u64
  shs_size :: u64

definition Dee_SIMPLE_HASHSET_INIT :: "'k hashset" where
  "Dee_SIMPLE_HASHSET_INIT = \<lparr>shs_elem = None, shs_mask = 0, shs_size = 0\<rparr>"

definition empty_item :: "'k item" where
  "empty_item = \<lparr>shsi_key = None, shsi_hash = 0\<rparr>"

text \<open>\<open>DeeObject_TryCompareEq\<close> returns 0 for equal and -2 for an error.\<close>

type_synonym 'k compare_eq = "'k \<Rightarrow> 'k \<Rightarrow> int"

definition iseq_no_err :: "int \<Rightarrow> bool" where
  "iseq_no_err c \<longleftrightarrow> c = 0"

definition iserr :: "int \<Rightarrow> bool" where
  "iserr c \<longleftrightarrow> c = -2"

section \<open>Memory requests\<close>

definition next_request :: "bool list \<Rightarrow> bool \<times> bool list" where
  "next_request mem = (case mem of [] \<Rightarrow> (True, []) | b # mem' \<Rightarrow> (b, mem'))"

text \<open>
  \<open>Dee_TryCallocc(n, sizeof(struct Dee_simple_hashset_item))\<close>: zeroed items of 16 bytes.  No
  allocator returns more than \<open>PTRDIFF_MAX\<close> bytes.
\<close>

definition try_calloc :: "bool list \<Rightarrow> u64 \<Rightarrow> 'k item list option \<times> bool list" where
  "try_calloc mem n =
     (let (ok, mem) = next_request mem
      in (if ok \<and> unat n * 16 < 2 ^ 63 then Some (replicate (unat n) empty_item) else None, mem))"

section \<open>Growing the table\<close>

partial_function (option) probe_free :: "'k item list \<Rightarrow> u64 \<Rightarrow> probe \<Rightarrow> nat option" where
  [code]: "probe_free es m p =
     (if shsi_key (es ! hashit m p) = None then Some (hashit m p)
      else probe_free es m (hashnx p))"

text \<open>Every slot of the old table is copied, the empty ones included.\<close>

fun rehash_loop :: "'k item list \<Rightarrow> u64 \<Rightarrow> 'k item list \<Rightarrow> 'k item list option" where
  "rehash_loop [] new_mask new_elem = Some new_elem"
| "rehash_loop (src_item # src) new_mask new_elem =
     (case probe_free new_elem new_mask (hashst new_mask (shsi_hash src_item)) of
        None \<Rightarrow> None
      | Some dst \<Rightarrow> rehash_loop src new_mask (new_elem[dst := src_item]))"

definition Dee_simple_hashset_tryrehash ::
  "bool list \<Rightarrow> 'k hashset \<Rightarrow> (bool \<times> 'k hashset \<times> bool list) option" where
  "Dee_simple_hashset_tryrehash mem self =
     (let new_mask = push_bit 1 (shs_mask self) OR 1 in
      case try_calloc mem (new_mask + 1) of
        (None, mem) \<Rightarrow> Some (False, self, mem)
      | (Some new_elem, mem) \<Rightarrow>
          (case shs_elem self of
             None \<Rightarrow> None
           | Some es \<Rightarrow>
               (case rehash_loop es new_mask new_elem of
                  None \<Rightarrow> None
                | Some new_elem \<Rightarrow>
                    Some (True, self\<lparr>shs_elem := Some new_elem, shs_mask := new_mask\<rparr>, mem))))"

text \<open>The loop ends because every failed attempt uses up an outcome.\<close>

partial_function (option) Dee_simple_hashset_rehash ::
  "bool list \<Rightarrow> 'k hashset \<Rightarrow> (int \<times> 'k hashset \<times> bool list) option" where
  [code]: "Dee_simple_hashset_rehash mem self =
     Option.bind (Dee_simple_hashset_tryrehash mem self) (\<lambda>(ok, self, mem).
       if ok then Some (0, self, mem)
       else
         let (collected, mem) = next_request mem
         in if \<not> collected then Some (-1, self, mem)
            else Dee_simple_hashset_rehash mem self)"

section \<open>Insertion\<close>

datatype probe_result = SLOT_FREE nat | SLOT_EQUAL | SLOT_ERROR

partial_function (option) insert_probe ::
  "'k compare_eq \<Rightarrow> 'k \<Rightarrow> u64 \<Rightarrow> 'k item list \<Rightarrow> u64 \<Rightarrow> probe \<Rightarrow> probe_result option" where
  [code]: "insert_probe cmp item hash es m p =
     (let slot = es ! hashit m p in
      case shsi_key slot of
        None \<Rightarrow> Some (SLOT_FREE (hashit m p))
      | Some key \<Rightarrow>
          if shsi_hash slot \<noteq> hash then insert_probe cmp item hash es m (hashnx p)
          else if iseq_no_err (cmp item key) then Some SLOT_EQUAL
          else if iserr (cmp item key) then Some SLOT_ERROR
          else insert_probe cmp item hash es m (hashnx p))"

text \<open>Populate the slot and grow the table if it is more than half full.\<close>

definition populate ::
  "bool list \<Rightarrow> 'k hashset \<Rightarrow> 'k item list \<Rightarrow> nat \<Rightarrow> 'k \<Rightarrow> u64 \<Rightarrow> (int \<times> 'k hashset \<times> bool list) option" where
  "populate mem self es slot item hash =
     (let self = self\<lparr>shs_elem := Some (es[slot := \<lparr>shsi_key = Some item, shsi_hash = hash\<rparr>]),
                      shs_size := shs_size self + 1\<rparr>
      in if shs_size self * 2 > shs_mask self then
           map_option (\<lambda>(_, self, mem). (1, self, mem)) (Dee_simple_hashset_tryrehash mem self)
         else Some (1, self, mem))"

definition first_insert ::
  "bool list \<Rightarrow> 'k hashset \<Rightarrow> 'k \<Rightarrow> u64 \<Rightarrow> int \<times> 'k hashset \<times> bool list" where
  "first_insert mem self item hash =
     (let put = (\<lambda>m es. self\<lparr>shs_elem := Some (es[hashit m (hashst m hash) := \<lparr>shsi_key = Some item, shsi_hash = hash\<rparr>]),
                              shs_mask := m, shs_size := 1\<rparr>)
      in case try_calloc mem 8 of
           (Some es, mem) \<Rightarrow> (1, put 7 es, mem)
         | (None, mem) \<Rightarrow>
             (case try_calloc mem 2 of
                (Some es, mem) \<Rightarrow> (1, put 1 es, mem)
              | (None, mem) \<Rightarrow> (-1, self\<lparr>shs_mask := 1\<rparr>, mem)))"

text \<open>Both insertion routines once the table exists.\<close>

definition insert_table ::
  "('k \<Rightarrow> u64) \<Rightarrow> 'k compare_eq \<Rightarrow> bool list \<Rightarrow> 'k hashset \<Rightarrow> 'k item list \<Rightarrow> 'k \<Rightarrow> (int \<times> 'k hashset \<times> bool list) option" where
  "insert_table hsh cmp mem self es item =
     (let hash = hsh item in
      case insert_probe cmp item hash es (shs_mask self) (hashst (shs_mask self) hash) of
        None \<Rightarrow> None
      | Some SLOT_EQUAL \<Rightarrow> Some (0, self, mem)
      | Some SLOT_ERROR \<Rightarrow> Some (-1, self, mem)
      | Some (SLOT_FREE slot) \<Rightarrow>
          if shs_size self \<ge> shs_mask self then
            (case Dee_simple_hashset_rehash mem self of
               None \<Rightarrow> None
             | Some (err, self, mem) \<Rightarrow>
                 if err \<noteq> 0 then Some (-1, self, mem)
                 else
                   (case shs_elem self of
                      None \<Rightarrow> None
                    | Some es \<Rightarrow>
                        (case probe_free es (shs_mask self) (hashst (shs_mask self) hash) of
                           None \<Rightarrow> None
                         | Some slot \<Rightarrow> populate mem self es slot item hash)))
          else populate mem self es slot item hash)"

definition Dee_simple_hashset_insert ::
  "('k \<Rightarrow> u64) \<Rightarrow> 'k compare_eq \<Rightarrow> bool list \<Rightarrow> 'k hashset \<Rightarrow> 'k \<Rightarrow> (int \<times> 'k hashset \<times> bool list) option" where
  "Dee_simple_hashset_insert hsh cmp mem self item =
     (case shs_elem self of
        None \<Rightarrow> Some (first_insert mem self item (hsh item))
      | Some es \<Rightarrow> insert_table hsh cmp mem self es item)"

text \<open>
  The variant with a lock, run by one thread: the checks that the table is unchanged after the lock
  was released and taken again succeed.  The first table is published only once it is allocated.
\<close>

definition Dee_simple_hashset_with_lock_insert ::
  "('k \<Rightarrow> u64) \<Rightarrow> 'k compare_eq \<Rightarrow> bool list \<Rightarrow> 'k hashset \<Rightarrow> 'k \<Rightarrow> (int \<times> 'k hashset \<times> bool list) option" where
  "Dee_simple_hashset_with_lock_insert hsh cmp mem self item =
     (case shs_elem self of
        None \<Rightarrow>
          (case first_insert mem self item (hsh item) of
             (r, self', mem) \<Rightarrow> Some (r, if r = 1 then self' else self, mem))
      | Some es \<Rightarrow> insert_table hsh cmp mem self es item)"

section \<open>Clearing, copying, serializing\<close>

definition Dee_simple_hashset_clear :: "'k hashset \<Rightarrow> 'k hashset" where
  "Dee_simple_hashset_clear self =
     (case shs_elem self of
        None \<Rightarrow> self
      | Some _ \<Rightarrow> self\<lparr>shs_elem := None, shs_mask := 0, shs_size := 0\<rparr>)"

text \<open>
  \<open>Dee_simple_hashset_copy\<close>: 0 and the copy, or -1 if the table cannot be allocated, when
  \<open>self->shs_elem\<close> is left pointing to the table of the original.
\<close>

definition Dee_simple_hashset_copy :: "bool list \<Rightarrow> 'k hashset \<Rightarrow> int \<times> 'k hashset \<times> bool list" where
  "Dee_simple_hashset_copy mem other =
     (case shs_elem other of
        None \<Rightarrow> (0, other, mem)
      | Some es \<Rightarrow>
          let (ok, mem) = next_request mem
          in if \<not> ok then (-1, other, mem)
             else (0, other\<lparr>shs_elem := Some (take (unat (shs_mask other + 1)) es)\<rparr>, mem))"

text \<open>
  The items \<open>Dee_simple_hashset_with_lock_serialize\<close> writes: \<open>shs_mask + 1\<close> of them are read
  from \<open>shs_elem\<close>, whether it is \<open>NULL\<close> or not.  \<open>None\<close> is reading through the null pointer.
\<close>

definition serialized_items :: "'k hashset \<Rightarrow> 'k item list option" where
  "serialized_items self = map_option (take (unat (shs_mask self + 1))) (shs_elem self)"

section \<open>The invariant\<close>

definition key_at :: "'k item list \<Rightarrow> nat \<Rightarrow> 'k option" where
  "key_at es i = shsi_key (es ! i)"

text \<open>The slot of the \<open>n\<close>th probe for a hash.\<close>

definition probed :: "u64 \<Rightarrow> u64 \<Rightarrow> nat \<Rightarrow> nat" where
  "probed m h n = hashit m ((hashnx ^^ n) (hashst m h))"

text \<open>Probing for the hash finds slot \<open>i\<close> before any free slot.\<close>

definition reachable :: "'k item list \<Rightarrow> u64 \<Rightarrow> u64 \<Rightarrow> nat \<Rightarrow> bool" where
  "reachable es m h i \<longleftrightarrow> (\<exists>n. probed m h n = i \<and> (\<forall>j < n. key_at es (probed m h j) \<noteq> None))"

definition stored_keys :: "'k item list \<Rightarrow> 'k set" where
  "stored_keys es = {key. \<exists>i < length es. key_at es i = Some key}"

definition table_ok :: "('k \<Rightarrow> u64) \<Rightarrow> nat \<Rightarrow> u64 \<Rightarrow> 'k item list \<Rightarrow> bool" where
  "table_ok hsh k m es \<longleftrightarrow> hash_mask k m \<and> length es = 2 ^ k
     \<and> (\<forall>i key. i < 2 ^ k \<longrightarrow> key_at es i = Some key
          \<longrightarrow> shsi_hash (es ! i) = hsh key \<and> reachable es m (hsh key) i)
     \<and> (\<forall>i j. i < 2 ^ k \<longrightarrow> j < 2 ^ k \<longrightarrow> key_at es i \<noteq> None \<longrightarrow> key_at es i = key_at es j \<longrightarrow> i = j)"

definition hs_keys :: "'k hashset \<Rightarrow> 'k set" where
  "hs_keys self = (case shs_elem self of None \<Rightarrow> {} | Some es \<Rightarrow> stored_keys es)"

text \<open>The table is not larger than four slots per key, or it has at most eight slots.\<close>

definition hs_loaded :: "'k hashset \<Rightarrow> bool" where
  "hs_loaded self \<longleftrightarrow> shs_elem self = None \<or> unat (shs_mask self) < max 8 (4 * unat (shs_size self))"

definition hs_ok :: "('k \<Rightarrow> u64) \<Rightarrow> 'k hashset \<Rightarrow> bool" where
  "hs_ok hsh self \<longleftrightarrow>
     (case shs_elem self of
        None \<Rightarrow> shs_size self = 0
      | Some es \<Rightarrow> (\<exists>k < 59. table_ok hsh k (shs_mask self) es)
          \<and> unat (shs_size self) = card (stored_keys es) \<and> shs_size self \<le> shs_mask self)"

lemma table_okD:
  assumes "table_ok hsh k m es"
  shows "hash_mask k m" "length es = 2 ^ k"
    and "\<And>i key. i < 2 ^ k \<Longrightarrow> key_at es i = Some key \<Longrightarrow> shsi_hash (es ! i) = hsh key"
    and "\<And>i key. i < 2 ^ k \<Longrightarrow> key_at es i = Some key \<Longrightarrow> reachable es m (hsh key) i"
    and "\<And>i j. i < 2 ^ k \<Longrightarrow> j < 2 ^ k \<Longrightarrow> key_at es i \<noteq> None \<Longrightarrow> key_at es i = key_at es j \<Longrightarrow> i = j"
  using assms unfolding table_ok_def by blast+

lemma finite_stored_keys [simp]: "finite (stored_keys es)"
proof -
  have "stored_keys es = (the \<circ> key_at es) ` {i. i < length es \<and> key_at es i \<noteq> None}"
    by (force simp: stored_keys_def)
  then show ?thesis by simp
qed

text \<open>With fewer keys than slots some slot is free.\<close>

lemma free_slot:
  assumes "table_ok hsh k m es" "card (stored_keys es) < 2 ^ k"
  obtains i where "i < 2 ^ k" "key_at es i = None"
proof -
  have "\<exists>i < 2 ^ k. key_at es i = None"
  proof (rule ccontr)
    assume "\<not> (\<exists>i < 2 ^ k. key_at es i = None)"
    then have full: "key_at es i \<noteq> None" if "i < 2 ^ k" for i using that by auto
    have "inj_on (\<lambda>i. the (key_at es i)) {..<2 ^ k}"
      using table_okD(5) [OF assms(1)] full by (intro inj_onI) (metis lessThan_iff option.expand)
    moreover have "(\<lambda>i. the (key_at es i)) ` {..<2 ^ k} \<subseteq> stored_keys es"
      using full table_okD(2) [OF assms(1)] by (fastforce simp: stored_keys_def)
    ultimately have "2 ^ k \<le> card (stored_keys es)"
      using card_inj_on_le [of _ "{..<2 ^ k :: nat}"] by fastforce
    with assms(2) show False by simp
  qed
  then show thesis using that by blast
qed

lemma probed_less: "hash_mask k m \<Longrightarrow> probed m h n < 2 ^ k"
  by (simp add: probed_def hashit_less)

lemma first_free_probe:
  assumes "hash_mask k m" "i < 2 ^ k" "key_at es i = None"
  obtains n where "key_at es (probed m h n) = None" "\<forall>j < n. key_at es (probed m h j) \<noteq> None"
proof -
  obtain n where "probed m h n = i"
    unfolding probed_def using probe_reaches [OF assms(1,2)] by metis
  then have "\<exists>n. key_at es (probed m h n) = None" using assms(3) by blast
  then show thesis using that exists_least_iff [of "\<lambda>n. key_at es (probed m h n) = None"] by blast
qed

section \<open>The probing loops\<close>

lemma probe_free_path:
  assumes "key_at es (hashit m ((hashnx ^^ n) p)) = None"
    and "\<forall>j < n. key_at es (hashit m ((hashnx ^^ j) p)) \<noteq> None"
  shows "probe_free es m p = Some (hashit m ((hashnx ^^ n) p))"
  using assms
proof (induction n arbitrary: p)
  case 0
  then show ?case by (subst probe_free.simps) (simp add: key_at_def)
next
  case (Suc n)
  have "key_at es (hashit m p) \<noteq> None" using Suc.prems(2) by force
  moreover have "probe_free es m (hashnx p) = Some (hashit m ((hashnx ^^ n) (hashnx p)))"
    using Suc.prems by (intro Suc.IH) (auto simp: funpow_swap1 [symmetric] dest: spec [of _ "Suc _"])
  ultimately show ?case
    by (subst probe_free.simps) (auto simp: key_at_def funpow_swap1)
qed

text \<open>
  What the insertion loop reports after passing the occupied slots \<open>sl 0\<close> to \<open>sl (n - 1)\<close>, when
  \<open>sl n\<close> is free.
\<close>

definition probe_outcome ::
  "'k compare_eq \<Rightarrow> 'k \<Rightarrow> u64 \<Rightarrow> 'k item list \<Rightarrow> (nat \<Rightarrow> nat) \<Rightarrow> nat \<Rightarrow> probe_result \<Rightarrow> bool" where
  "probe_outcome cmp item hash es sl n r \<longleftrightarrow>
     (case r of
        SLOT_FREE d \<Rightarrow> d = sl n
          \<and> (\<forall>j < n. \<forall>key. key_at es (sl j) = Some key \<longrightarrow> shsi_hash (es ! sl j) = hash \<longrightarrow> cmp item key \<noteq> 0)
      | SLOT_EQUAL \<Rightarrow> \<exists>j < n. \<exists>key. key_at es (sl j) = Some key \<and> cmp item key = 0
      | SLOT_ERROR \<Rightarrow> \<exists>j < n. \<exists>key. key_at es (sl j) = Some key \<and> cmp item key = -2)"

lemma probe_outcome_Suc:
  assumes "probe_outcome cmp item hash es (\<lambda>j. sl (Suc j)) n r" "key_at es (sl 0) = Some key"
    and "\<not> (shsi_hash (es ! sl 0) = hash \<and> (cmp item key = 0 \<or> cmp item key = -2))"
  shows "probe_outcome cmp item hash es sl (Suc n) r"
  using assms by (cases r) (auto simp: probe_outcome_def less_Suc_eq_0_disj)

lemma insert_probe_path:
  assumes "key_at es (hashit m ((hashnx ^^ n) p)) = None"
    and "\<forall>j < n. key_at es (hashit m ((hashnx ^^ j) p)) \<noteq> None"
  shows "\<exists>r. insert_probe cmp item hash es m p = Some r
    \<and> probe_outcome cmp item hash es (\<lambda>j. hashit m ((hashnx ^^ j) p)) n r"
  using assms
proof (induction n arbitrary: p)
  case 0
  then show ?case by (subst insert_probe.simps) (simp add: key_at_def probe_outcome_def)
next
  case (Suc n)
  obtain key where key: "key_at es (hashit m p) = Some key" using Suc.prems(2) by force
  let ?slot = "es ! hashit m p"
  note unf = insert_probe.simps [of cmp item hash es m p]
  have sw: "(hashnx ^^ j) (hashnx p) = (hashnx ^^ Suc j) p" for j by (simp add: funpow_swap1)
  show ?case
  proof (cases "shsi_hash ?slot = hash \<and> (cmp item key = 0 \<or> cmp item key = -2)")
    case True
    have z: "hashit m ((hashnx ^^ 0) p) = hashit m p" by simp
    show ?thesis
    proof (cases "cmp item key = 0")
      case eq: True
      then have "insert_probe cmp item hash es m p = Some SLOT_EQUAL"
        using True key unf by (simp add: key_at_def iseq_no_err_def)
      moreover have "probe_outcome cmp item hash es (\<lambda>j. hashit m ((hashnx ^^ j) p)) (Suc n) SLOT_EQUAL"
        using eq key z unfolding probe_outcome_def by fastforce
      ultimately show ?thesis by blast
    next
      case False
      then have "insert_probe cmp item hash es m p = Some SLOT_ERROR"
        using True key unf by (simp add: key_at_def iseq_no_err_def iserr_def)
      moreover have "probe_outcome cmp item hash es (\<lambda>j. hashit m ((hashnx ^^ j) p)) (Suc n) SLOT_ERROR"
        using True False key z unfolding probe_outcome_def by fastforce
      ultimately show ?thesis by blast
    qed
  next
    case False
    then have step: "insert_probe cmp item hash es m p = insert_probe cmp item hash es m (hashnx p)"
      using key unf by (auto simp: key_at_def iseq_no_err_def iserr_def)
    have "\<exists>r. insert_probe cmp item hash es m (hashnx p) = Some r
        \<and> probe_outcome cmp item hash es (\<lambda>j. hashit m ((hashnx ^^ j) (hashnx p))) n r"
      using Suc.prems by (intro Suc.IH) (simp_all only: sw, auto)
    then obtain r where r: "insert_probe cmp item hash es m (hashnx p) = Some r"
      "probe_outcome cmp item hash es (\<lambda>j. hashit m ((hashnx ^^ Suc j) p)) n r"
      unfolding sw by blast
    have "probe_outcome cmp item hash es (\<lambda>j. hashit m ((hashnx ^^ j) p)) (Suc n) r"
      by (rule probe_outcome_Suc [OF r(2)]) (use key False in simp_all)
    with step r(1) show ?thesis by auto
  qed
qed

section \<open>Updates of the table\<close>

lemma reachable_mono:
  assumes "reachable es m h i"
    and "\<And>j. key_at es j \<noteq> None \<Longrightarrow> key_at es' j \<noteq> None"
  shows "reachable es' m h i"
  using assms unfolding reachable_def by blast

lemma stored_keys_put:
  assumes "d < length es" "key_at es d = None"
  shows "stored_keys (es[d := x]) = stored_keys es \<union> set_option (shsi_key x)"
proof -
  have at: "key_at (es[d := x]) i = (if i = d then shsi_key x else key_at es i)" if "i < length es" for i
    using that by (simp add: key_at_def nth_list_update)
  have "key \<in> stored_keys (es[d := x]) \<longleftrightarrow> key \<in> stored_keys es \<or> shsi_key x = Some key" for key
  proof -
    have "key \<in> stored_keys (es[d := x])
        \<longleftrightarrow> (\<exists>i < length es. (if i = d then shsi_key x else key_at es i) = Some key)"
      unfolding stored_keys_def using at by (auto simp del: if_split cong: conj_cong)
    also have "\<dots> \<longleftrightarrow> key \<in> stored_keys es \<or> shsi_key x = Some key"
      unfolding stored_keys_def using assms by (auto split: if_splits) (metis option.distinct(1))
    finally show ?thesis .
  qed
  then show ?thesis by (auto simp: elem_set)
qed

text \<open>Storing an item, or an empty slot, in the first free slot of its probe sequence.\<close>

lemma table_ok_put:
  assumes "table_ok hsh k m es" "key_at es d = None" "d < 2 ^ k"
    and "\<And>key. shsi_key x = Some key \<Longrightarrow>
      shsi_hash x = hsh key \<and> reachable es m (hsh key) d \<and> key \<notin> stored_keys es"
  shows "table_ok hsh k m (es[d := x])"
proof -
  note T = table_okD [OF assms(1)]
  let ?es = "es[d := x]"
  have at: "key_at ?es i = (if i = d then shsi_key x else key_at es i)" if "i < 2 ^ k" for i
    using that T(2) by (simp add: key_at_def nth_list_update)
  have mono: "key_at ?es j \<noteq> None" if "key_at es j \<noteq> None" for j
    using that assms(2) by (cases "j = d") (auto simp: key_at_def)
  show ?thesis
    unfolding table_ok_def
  proof (intro conjI allI impI)
    show "hash_mask k m" "length ?es = 2 ^ k" using T by simp_all
  next
    fix i key assume i: "i < 2 ^ k" and key: "key_at ?es i = Some key"
    show "shsi_hash (?es ! i) = hsh key"
    proof (cases "i = d")
      case True
      then show ?thesis using assms(4) [of key] key i T(2) at [OF i] by simp
    next
      case False
      then show ?thesis using T(3) [OF i] key at [OF i] by simp
    qed
    have "reachable es m (hsh key) i"
      using assms(4) [of key] T(4) [OF i] key at [OF i] by (simp split: if_splits)
    then show "reachable ?es m (hsh key) i" using mono by (rule reachable_mono)
  next
    fix i j assume ij: "i < 2 ^ k" "j < 2 ^ k" and s: "key_at ?es i \<noteq> None" "key_at ?es i = key_at ?es j"
    have new: "key_at es l \<noteq> Some key" if "shsi_key x = Some key" "l < 2 ^ k" for key l
      using assms(4) [OF that(1)] that(2) T(2) unfolding stored_keys_def by auto
    show "i = j"
      using s T(5) [OF ij] new ij unfolding at [OF ij(1)] at [OF ij(2)]
      by (auto split: if_splits)
  qed
qed

lemma rehash_loop_spec:
  assumes "table_ok hsh k m es" "hash_mask k m"
    and "\<And>x key. x \<in> set src \<Longrightarrow> shsi_key x = Some key \<Longrightarrow> shsi_hash x = hsh key \<and> key \<notin> stored_keys es"
    and "distinct (List.map_filter shsi_key src)"
    and "card (stored_keys es) + length (List.map_filter shsi_key src) < 2 ^ k"
  shows "\<exists>es'. rehash_loop src m es = Some es' \<and> table_ok hsh k m es'
    \<and> stored_keys es' = stored_keys es \<union> set (List.map_filter shsi_key src)"
  using assms
proof (induction src arbitrary: es)
  case Nil
  then show ?case by (simp add: map_filter_simps)
next
  case (Cons x src)
  have c: "card (stored_keys es) < 2 ^ k" using Cons.prems(5) by simp
  obtain i where i: "i < 2 ^ k" "key_at es i = None" using free_slot [OF Cons.prems(1) c] .
  obtain n where n: "key_at es (probed m (shsi_hash x) n) = None"
    "\<forall>j < n. key_at es (probed m (shsi_hash x) j) \<noteq> None"
    using first_free_probe [OF Cons.prems(2) i] .
  let ?d = "probed m (shsi_hash x) n" and ?es = "es[probed m (shsi_hash x) n := x]"
  have p: "probe_free es m (hashst m (shsi_hash x)) = Some ?d"
    using n unfolding probed_def by (rule probe_free_path)
  have d: "?d < 2 ^ k" by (rule probed_less [OF Cons.prems(2)])
  have ok: "table_ok hsh k m ?es"
  proof (rule table_ok_put [OF Cons.prems(1) n(1) d])
    fix key assume key: "shsi_key x = Some key"
    have "reachable es m (shsi_hash x) ?d" unfolding reachable_def using n by blast
    then show "shsi_hash x = hsh key \<and> reachable es m (hsh key) ?d \<and> key \<notin> stored_keys es"
      using Cons.prems(3) [of x key] key by simp
  qed
  have keys: "stored_keys ?es = stored_keys es \<union> set_option (shsi_key x)"
    using d table_okD(2) [OF Cons.prems(1)] n(1) by (intro stored_keys_put) simp_all
  have "\<exists>es'. rehash_loop src m ?es = Some es' \<and> table_ok hsh k m es'
      \<and> stored_keys es' = stored_keys ?es \<union> set (List.map_filter shsi_key src)"
  proof (rule Cons.IH [OF ok Cons.prems(2)])
    show "distinct (List.map_filter shsi_key src)"
      using Cons.prems(4) by (simp add: map_filter_simps split: option.splits)
    show "card (stored_keys ?es) + length (List.map_filter shsi_key src) < 2 ^ k"
      using Cons.prems(5) Cons.prems(3) [of x] unfolding keys
      by (cases "shsi_key x") (simp_all add: map_filter_simps)
  next
    fix y key assume y: "y \<in> set src" "shsi_key y = Some key"
    then have "key \<in> set (List.map_filter shsi_key src)"
      by (force simp: List.map_filter_def)
    then have "shsi_key x \<noteq> Some key"
      using Cons.prems(4) by (auto simp: map_filter_simps)
    then show "shsi_hash y = hsh key \<and> key \<notin> stored_keys ?es"
      using Cons.prems(3) [of y key] y by (auto simp: keys)
  qed
  then show ?case
    using p keys by (cases "shsi_key x") (auto simp: map_filter_simps)
qed

section \<open>Growing keeps the contents\<close>

lemma distinct_map_filterI:
  assumes "\<And>i j. i < length xs \<Longrightarrow> j < length xs \<Longrightarrow> f (xs ! i) \<noteq> None \<Longrightarrow> f (xs ! i) = f (xs ! j) \<Longrightarrow> i = j"
  shows "distinct (List.map_filter f xs)"
  using assms
proof (induction xs)
  case Nil
  then show ?case by (simp add: map_filter_simps)
next
  case (Cons x xs)
  have "distinct (List.map_filter f xs)"
  proof (rule Cons.IH)
    fix i j assume "i < length xs" "j < length xs" "f (xs ! i) \<noteq> None" "f (xs ! i) = f (xs ! j)"
    then show "i = j" using Cons.prems [of "Suc i" "Suc j"] by simp
  qed
  moreover have "y \<notin> set (List.map_filter f xs)" if "f x = Some y" for y
  proof
    assume "y \<in> set (List.map_filter f xs)"
    then obtain z where "z \<in> set xs" "f z = Some y" by (force simp: List.map_filter_def)
    then obtain j where "j < length xs" "f (xs ! j) = Some y" by (metis in_set_conv_nth)
    then show False using Cons.prems [of 0 "Suc j"] that by simp
  qed
  ultimately show ?case by (cases "f x") (simp_all add: map_filter_simps)
qed

lemma set_map_filter_keys: "set (List.map_filter shsi_key es) = stored_keys es"
proof -
  have "key \<in> set (List.map_filter shsi_key es) \<longleftrightarrow> (\<exists>x \<in> set es. shsi_key x = Some key)" for key
    by (force simp: List.map_filter_def)
  moreover have "(\<exists>x \<in> set es. shsi_key x = Some key) \<longleftrightarrow> key \<in> stored_keys es" for key
    unfolding stored_keys_def key_at_def by (auto simp: Bex_def in_set_conv_nth)
  ultimately show ?thesis by blast
qed

lemma table_keys_list:
  assumes "table_ok hsh k m es"
  shows "distinct (List.map_filter shsi_key es)"
    and "length (List.map_filter shsi_key es) = card (stored_keys es)"
proof -
  show d: "distinct (List.map_filter shsi_key es)"
    using table_okD(2,5) [OF assms] by (intro distinct_map_filterI) (simp add: key_at_def)
  show "length (List.map_filter shsi_key es) = card (stored_keys es)"
    using distinct_card [OF d] by (simp only: set_map_filter_keys)
qed

lemma empty_table:
  assumes "hash_mask k m"
  shows "table_ok hsh k m (replicate (2 ^ k) empty_item)" "stored_keys (replicate (2 ^ k) empty_item) = {}"
  using assms by (auto simp: table_ok_def key_at_def empty_item_def stored_keys_def)

lemma unat_two_power: "k < 64 \<Longrightarrow> unat ((2::u64) ^ k) = 2 ^ k"
proof -
  assume "k < 64"
  then have "(2::nat) ^ k < 2 ^ 64" by (intro power_strict_increasing) simp_all
  then show ?thesis using unat_of_nat [where 'a = 64, of "2 ^ k"] by simp
qed

lemma double_mask:
  assumes "hash_mask k m" "Suc k < 64"
  shows "hash_mask (Suc k) (push_bit 1 m OR 1)" "unat ((push_bit 1 m OR 1) + 1) = 2 ^ Suc k"
proof -
  have m: "push_bit 1 m OR 1 = mask (Suc k)"
    using assms(1) unfolding hash_mask_def
    by (simp only: push_bit_eq_mult mask_Suc_double or.commute mult.commute power_one_right)
  then show "hash_mask (Suc k) (push_bit 1 m OR 1)" using assms(2) by (simp add: hash_mask_def)
  have "(mask (Suc k) :: u64) + 1 = 2 ^ Suc k" by (simp add: mask_eq_exp_minus_1)
  then show "unat ((push_bit 1 m OR 1) + 1) = 2 ^ Suc k"
    unfolding m using unat_two_power [OF assms(2)] by (simp only:)
qed

lemma hash_mask_unat:
  assumes "hash_mask k m"
  shows "unat m = 2 ^ k - 1"
proof -
  have k: "unat ((2::u64) ^ k) = 2 ^ k" using assms by (simp add: hash_mask_def unat_two_power)
  then have "(2::u64) ^ k \<noteq> 0" by (metis power_not_zero unsigned_0 zero_neq_numeral)
  then have "unat ((2::u64) ^ k - 1) = unat ((2::u64) ^ k) - 1" by (rule unat_minus_one)
  then show ?thesis using assms k by (simp add: hash_mask_def mask_eq_exp_minus_1)
qed

lemma hs_okD:
  assumes "hs_ok hsh self" "shs_elem self = Some es"
  obtains k where "k < 59" "table_ok hsh k (shs_mask self) es" "card (stored_keys es) = unat (shs_size self)"
    "unat (shs_size self) \<le> 2 ^ k - 1" "hs_keys self = stored_keys es"
proof -
  obtain k where k: "k < 59" "table_ok hsh k (shs_mask self) es" using assms by (auto simp: hs_ok_def)
  show thesis
    by (rule that [OF k]) (use assms hash_mask_unat [OF table_okD(1) [OF k(2)]] in
      \<open>auto simp: hs_ok_def hs_keys_def word_le_nat_alt\<close>)
qed

lemma hs_okI:
  assumes "shs_elem self = Some es" "k < 59" "table_ok hsh k (shs_mask self) es"
    "card (stored_keys es) = unat (shs_size self)" "unat (shs_size self) \<le> 2 ^ k - 1"
  shows "hs_ok hsh self"
  unfolding hs_ok_def assms(1)
  using assms(2-) hash_mask_unat [OF table_okD(1) [OF assms(3)]] by (auto simp: word_le_nat_alt)

lemma tryrehash_spec:
  assumes "hs_ok hsh self" "shs_elem self = Some es"
  shows "\<exists>ok self'. Dee_simple_hashset_tryrehash mem self = Some (ok, self', tl mem)
    \<and> hs_ok hsh self' \<and> hs_keys self' = hs_keys self \<and> shs_size self' = shs_size self
    \<and> unat (shs_mask self') \<le> 2 * unat (shs_mask self) + 1
    \<and> (if ok then shs_elem self' \<noteq> None \<and> shs_size self' < shs_mask self'
       else self' = self \<and> (2 ^ 57 \<le> shs_mask self \<or> (\<exists>mem'. mem = False # mem')))"
proof -
  obtain k where k: "k < 59" "table_ok hsh k (shs_mask self) es"
    and c: "card (stored_keys es) = unat (shs_size self)" "unat (shs_size self) \<le> 2 ^ k - 1"
    and keys: "hs_keys self = stored_keys es"
    using hs_okD [OF assms] .
  let ?m = "push_bit 1 (shs_mask self) OR 1"
  note hm = table_okD(1) [OF k(2)]
  have m: "hash_mask (Suc k) ?m" "unat (?m + 1) = 2 ^ Suc k"
    using double_mask [OF hm] k(1) by simp_all
  obtain ok where req: "next_request mem = (ok, tl mem)" "ok \<or> (\<exists>mem'. mem = False # mem')"
    by (cases mem) (auto simp: next_request_def)
  have um: "unat (shs_mask self) = 2 ^ k - 1" by (rule hash_mask_unat [OF hm])
  show ?thesis
  proof (cases "ok \<and> k < 58")
    case True
    then have "(2::nat) ^ Suc k \<le> 2 ^ 58" by (intro power_increasing) simp_all
    then have calloc: "try_calloc mem (?m + 1) = (Some (replicate (2 ^ Suc k) empty_item :: 'a item list), tl mem)"
      unfolding try_calloc_def m(2) req(1) using True by simp
    note E = empty_table [OF m(1)]
    have sz: "unat (shs_size self) \<le> 2 ^ Suc k - 2" using c(2) by simp
    have small: "unat (shs_size self) < 2 ^ Suc k - 1"
    proof -
      have "(2::nat) \<le> 2 ^ Suc k" by simp
      with sz show ?thesis by linarith
    qed
    have "\<exists>es'. rehash_loop es ?m (replicate (2 ^ Suc k) empty_item) = Some es' \<and> table_ok hsh (Suc k) ?m es'
      \<and> stored_keys es' = stored_keys (replicate (2 ^ Suc k) empty_item :: 'a item list) \<union> set (List.map_filter shsi_key es)"
    proof (rule rehash_loop_spec [OF E(1) m(1)])
      show "distinct (List.map_filter shsi_key es)" by (rule table_keys_list(1) [OF k(2)])
      show "card (stored_keys (replicate (2 ^ Suc k) empty_item :: 'a item list))
          + length (List.map_filter shsi_key es) < 2 ^ Suc k"
        using small unfolding E(2) table_keys_list(2) [OF k(2)] c(1) by simp
    next
      fix x key assume "x \<in> set es" and key: "shsi_key x = Some key"
      then obtain i where "i < 2 ^ k" "es ! i = x"
        using table_okD(2) [OF k(2)] by (metis in_set_conv_nth)
      then show "shsi_hash x = hsh key \<and> key \<notin> stored_keys (replicate (2 ^ Suc k) empty_item :: 'a item list)"
        using table_okD(3) [OF k(2)] key unfolding E(2) by (auto simp: key_at_def)
    qed
    then obtain es' where es': "rehash_loop es ?m (replicate (2 ^ Suc k) empty_item) = Some es'"
      "table_ok hsh (Suc k) ?m es'" "stored_keys es' = stored_keys es"
      unfolding E(2) set_map_filter_keys by auto
    let ?s = "self\<lparr>shs_elem := Some es', shs_mask := ?m\<rparr>"
    have "Dee_simple_hashset_tryrehash mem self = Some (True, ?s, tl mem)"
      using calloc es'(1) assms(2) by (simp add: Dee_simple_hashset_tryrehash_def Let_def)
    moreover have "hs_ok hsh ?s"
      by (rule hs_okI [of _ es' "Suc k"]) (use es' c small True in simp_all)
    moreover have "shs_size ?s < shs_mask ?s"
      using small hash_mask_unat [OF m(1)] by (simp add: word_less_nat_alt)
    moreover have "hs_keys ?s = hs_keys self" using es'(3) keys by (simp add: hs_keys_def)
    moreover have "unat (shs_mask ?s) \<le> 2 * unat (shs_mask self) + 1"
      by (simp add: um hash_mask_unat [OF m(1), simplified])
    ultimately show ?thesis by (intro exI [of _ True] exI [of _ ?s]) simp
  next
    case False
    have big: "2 ^ 57 \<le> shs_mask self" if "58 \<le> k"
    proof -
      have "(2::nat) ^ 58 \<le> 2 ^ k" using that by (intro power_increasing) simp_all
      then show ?thesis by (simp add: word_le_nat_alt um)
    qed
    have "(2::nat) ^ 59 \<le> 2 ^ Suc k" if "58 \<le> k" using that by (intro power_increasing) simp_all
    then have calloc: "try_calloc mem (?m + 1) = (None :: 'a item list option, tl mem)"
      unfolding try_calloc_def m(2) req(1) using False by auto
    have "Dee_simple_hashset_tryrehash mem self = Some (False, self, tl mem)"
      using calloc by (simp add: Dee_simple_hashset_tryrehash_def Let_def)
    moreover have "2 ^ 57 \<le> shs_mask self \<or> (\<exists>mem'. mem = False # mem')"
      using False req(2) big by (cases "58 \<le> k") auto
    ultimately show ?thesis using assms(1) by (intro exI [of _ False] exI [of _ self]) simp
  qed
qed

lemma rehash_spec:
  assumes "hs_ok hsh self" "shs_elem self = Some es" "shs_mask self < 2 ^ 57"
  shows "\<exists>err self' mem'. Dee_simple_hashset_rehash mem self = Some (err, self', mem')
    \<and> hs_ok hsh self' \<and> hs_keys self' = hs_keys self \<and> shs_elem self' \<noteq> None
    \<and> set mem' \<subseteq> set mem \<and> shs_size self' = shs_size self
    \<and> unat (shs_mask self') \<le> 2 * unat (shs_mask self) + 1
    \<and> (err \<noteq> 0 \<longrightarrow> self' = self)
    \<and> (if err = 0 then shs_size self' < shs_mask self' else err = -1 \<and> False \<in> set mem)"
proof (induction "length mem" arbitrary: mem rule: less_induct)
  case less
  obtain ok self' where try_rehash: "Dee_simple_hashset_tryrehash mem self = Some (ok, self', tl mem)"
    and ok: "hs_ok hsh self'" "hs_keys self' = hs_keys self" "shs_size self' = shs_size self"
      "unat (shs_mask self') \<le> 2 * unat (shs_mask self) + 1"
    and cases: "if ok then shs_elem self' \<noteq> None \<and> shs_size self' < shs_mask self'
      else self' = self \<and> (2 ^ 57 \<le> shs_mask self \<or> (\<exists>mem'. mem = False # mem'))"
    using tryrehash_spec [OF assms(1,2)] by blast
  note unf = Dee_simple_hashset_rehash.simps [of mem self]
  have sub: "set (tl mem) \<subseteq> set mem" by (cases mem) auto
  show ?case
  proof (cases ok)
    case True
    then have "Dee_simple_hashset_rehash mem self = Some (0, self', tl mem)"
      using try_rehash unf by simp
    then show ?thesis using ok cases True sub by auto
  next
    case False
    then obtain mem' where mem: "mem = False # mem'" and self': "self' = self"
      using cases assms(3) by auto
    obtain col where req: "next_request mem' = (col, tl mem')"
      by (cases mem') (auto simp: next_request_def)
    have r: "Dee_simple_hashset_rehash mem self
        = (if col then Dee_simple_hashset_rehash (tl mem') self else Some (-1, self, tl mem'))"
      using try_rehash False self' unf req by (simp add: mem)
    have sub': "set (tl mem') \<subseteq> set mem" using mem by (cases mem') auto
    show ?thesis
    proof (cases col)
      case True
      have "length (tl mem') < length mem" by (simp add: mem)
      from less.hyps [OF this] True r sub' show ?thesis by fastforce
    next
      case False
      then show ?thesis using r sub' assms(1,2) mem by simp
    qed
  qed
qed

section \<open>Insertion\<close>

lemma populate_spec:
  assumes "hs_ok hsh self" "shs_elem self = Some es" "shs_size self < shs_mask self"
    and "probe_free es (shs_mask self) (hashst (shs_mask self) (hsh item)) = Some d"
    and "item \<notin> stored_keys es"
  shows "\<exists>self' mem'. populate mem self es d item (hsh item) = Some (1, self', mem')
    \<and> hs_ok hsh self' \<and> hs_keys self' = insert item (hs_keys self) \<and> set mem' \<subseteq> set mem
    \<and> unat (shs_size self') = Suc (unat (shs_size self))
    \<and> unat (shs_mask self') \<le> max (unat (shs_mask self)) (4 * unat (shs_size self'))"
proof -
  obtain k where k: "k < 59" "table_ok hsh k (shs_mask self) es"
    and c: "card (stored_keys es) = unat (shs_size self)" "unat (shs_size self) \<le> 2 ^ k - 1"
    and keys: "hs_keys self = stored_keys es"
    using hs_okD [OF assms(1,2)] .
  let ?m = "shs_mask self" and ?x = "\<lparr>shsi_key = Some item, shsi_hash = hsh item\<rparr>"
  note hm = table_okD(1) [OF k(2)]
  have small: "unat (shs_size self) < 2 ^ k - 1"
    using assms(3) hash_mask_unat [OF hm] by (simp add: word_less_nat_alt)
  then have "card (stored_keys es) < 2 ^ k" using c(1) by linarith
  then obtain i where i: "i < 2 ^ k" "key_at es i = None" using free_slot [OF k(2)] by blast
  obtain n where n: "key_at es (probed ?m (hsh item) n) = None"
    "\<forall>j < n. key_at es (probed ?m (hsh item) j) \<noteq> None"
    using first_free_probe [OF hm i] .
  have d: "d = probed ?m (hsh item) n"
    using probe_free_path [of es ?m n "hashst ?m (hsh item)"] n assms(4) by (simp add: probed_def)
  have less: "d < 2 ^ k" unfolding d by (rule probed_less [OF hm])
  have ok: "table_ok hsh k ?m (es[d := ?x])"
    by (rule table_ok_put [OF k(2) _ less]) (use n d assms(5) in \<open>auto simp: reachable_def\<close>)
  have sk: "stored_keys (es[d := ?x]) = insert item (stored_keys es)"
    using stored_keys_put [of d es ?x] less table_okD(2) [OF k(2)] n(1) d by simp
  let ?s = "self\<lparr>shs_elem := Some (es[d := ?x]), shs_size := shs_size self + 1\<rparr>"
  have "unat (shs_mask self) < 2 ^ 64" using unsigned_less [of "shs_mask self", where 'a = nat] by simp
  then have sz: "unat (shs_size self + 1) = Suc (unat (shs_size self))"
    using assms(3) by (simp add: unat_word_ariths word_less_nat_alt)
  have s: "hs_ok hsh ?s"
    by (rule hs_okI [of _ "es[d := ?x]" k]) (use k(1) ok sk c(1) small assms(5) sz in simp_all)
  have keys': "hs_keys ?s = insert item (hs_keys self)"
    using sk keys by (simp add: hs_keys_def)
  have sub: "set (tl mem) \<subseteq> set mem" by (cases mem) auto
  obtain ok' self' where try_rehash: "Dee_simple_hashset_tryrehash mem ?s = Some (ok', self', tl mem)"
    and self': "hs_ok hsh self'" "hs_keys self' = hs_keys ?s" "shs_size self' = shs_size ?s"
      "unat (shs_mask self') \<le> 2 * unat (shs_mask ?s) + 1"
    using tryrehash_spec [OF s, of "es[d := ?x]" mem] by auto
  have fit: "unat ((shs_size self + 1) * 2) = 2 * Suc (unat (shs_size self))"
    using small power_strict_increasing [of k 59 "2::nat"] k(1) by (simp add: unat_word_ariths sz [simplified unat_word_ariths])
  show ?thesis
  proof (cases "(shs_size self + 1) * 2 > shs_mask self")
    case True
    then have "unat (shs_mask self) < 2 * Suc (unat (shs_size self))"
      by (simp only: word_less_nat_alt fit)
    then have "unat (shs_mask self') \<le> 4 * unat (shs_size self')"
      using self'(3,4) sz by simp
    then show ?thesis
      using True self' try_rehash keys' sub sz unfolding populate_def Let_def by simp
  next
    case False
    then show ?thesis using s keys' sz unfolding populate_def Let_def by simp
  qed
qed

lemma insert_probe_spec:
  assumes "hs_ok hsh self" "shs_elem self = Some es"
  shows "\<exists>r. insert_probe cmp item (hsh item) es (shs_mask self) (hashst (shs_mask self) (hsh item)) = Some r
    \<and> (case r of
         SLOT_EQUAL \<Rightarrow> \<exists>key \<in> hs_keys self. cmp item key = 0
       | SLOT_ERROR \<Rightarrow> \<exists>key \<in> hs_keys self. cmp item key = -2
       | SLOT_FREE d \<Rightarrow> (\<forall>key \<in> hs_keys self. hsh key = hsh item \<longrightarrow> cmp item key \<noteq> 0)
           \<and> probe_free es (shs_mask self) (hashst (shs_mask self) (hsh item)) = Some d)"
proof -
  obtain k where k: "k < 59" "table_ok hsh k (shs_mask self) es"
    and c: "card (stored_keys es) = unat (shs_size self)" "unat (shs_size self) \<le> 2 ^ k - 1"
    and keys: "hs_keys self = stored_keys es"
    using hs_okD [OF assms] .
  let ?m = "shs_mask self" and ?h = "hsh item"
  note T = table_okD [OF k(2)]
  have "(0::nat) < 2 ^ k" by simp
  then have "card (stored_keys es) < 2 ^ k" using c by linarith
  then obtain i where i: "i < 2 ^ k" "key_at es i = None" using free_slot [OF k(2)] by blast
  obtain n where n: "key_at es (probed ?m ?h n) = None" "\<forall>j < n. key_at es (probed ?m ?h j) \<noteq> None"
    using first_free_probe [OF T(1) i] .
  obtain r where r: "insert_probe cmp item ?h es ?m (hashst ?m ?h) = Some r"
    and o: "probe_outcome cmp item ?h es (probed ?m ?h) n r"
    using insert_probe_path [OF n [unfolded probed_def], of cmp item ?h] unfolding probed_def by blast
  have stored: "key \<in> hs_keys self" if "key_at es (probed ?m ?h j) = Some key" for j key
    using that probed_less [OF T(1), of ?h j] T(2) unfolding keys stored_keys_def by auto
  have pf: "probe_free es ?m (hashst ?m ?h) = Some (probed ?m ?h n)"
    using n unfolding probed_def by (rule probe_free_path)
  have before: "\<exists>j < n. key_at es (probed ?m ?h j) = Some key \<and> shsi_hash (es ! probed ?m ?h j) = ?h"
    if key: "key \<in> hs_keys self" "hsh key = ?h" for key
  proof -
    obtain i where i: "i < 2 ^ k" "key_at es i = Some key"
      using key(1) T(2) unfolding keys stored_keys_def by auto
    obtain j where j: "probed ?m ?h j = i" "\<forall>l < j. key_at es (probed ?m ?h l) \<noteq> None"
      using T(4) [OF i] key(2) unfolding reachable_def by auto
    have "\<not> n < j" using j(2) n(1) by blast
    moreover have "n \<noteq> j" using n(1) j(1) i(2) by auto
    ultimately have "j < n" by simp
    then show ?thesis using i T(3) [OF i] j(1) key(2) by auto
  qed
  show ?thesis
    by (intro exI [of _ r] conjI r)
      (use o stored before pf in \<open>cases r; fastforce simp: probe_outcome_def\<close>)
qed

lemma first_insert_spec:
  assumes "shs_elem self = None" "shs_size self = 0"
    and "first_insert mem self item (hsh item) = (r, self', mem')"
  shows "hs_ok hsh self' \<and> (if r = 1 then hs_keys self' = {item} else r = -1 \<and> hs_keys self' = {} \<and> False \<in> set mem)"
proof -
  let ?x = "\<lparr>shsi_key = Some item, shsi_hash = hsh item\<rparr>"
  define put where "put k = self\<lparr>shs_elem := Some ((replicate (2 ^ k) empty_item)
      [hashit (mask k) (hashst (mask k) (hsh item)) := ?x]), shs_mask := mask k, shs_size := 1\<rparr>" for k
  have P: "hs_ok hsh (put k) \<and> hs_keys (put k) = {item}" if k: "0 < k" "k < 59" for k
  proof -
    let ?es = "replicate (2 ^ k) empty_item :: 'a item list" and ?d = "hashit (mask k) (hashst (mask k) (hsh item))"
    have hm: "hash_mask k (mask k)" using k by (simp add: hash_mask_def)
    note E = empty_table(1) [OF hm, of hsh] empty_table(2) [OF hm]
    have d: "?d < 2 ^ k" by (rule hashit_less [OF hm])
    have n: "key_at ?es ?d = None" using d by (simp add: key_at_def empty_item_def)
    have "reachable ?es (mask k) (hsh item) ?d"
      unfolding reachable_def probed_def by (rule exI [of _ 0]) simp
    then have ok: "table_ok hsh k (mask k) (?es[?d := ?x])"
      by (intro table_ok_put [OF E(1) n d]) (auto simp: E(2))
    have sk: "stored_keys (?es[?d := ?x]) = {item}"
      using stored_keys_put [of ?d ?es ?x] d n by (simp add: E(2))
    have "(2::nat) ^ 1 \<le> 2 ^ k" using k(1) by (intro power_increasing) simp_all
    then have "hs_ok hsh (put k)"
      by (intro hs_okI [of _ "?es[?d := ?x]" k]) (use ok sk k(2) in \<open>simp_all add: put_def\<close>)
    then show ?thesis using sk by (simp add: hs_keys_def put_def)
  qed
  have m: "mask 3 = (7::u64)" "mask 1 = (1::u64)" by (simp_all add: mask_eq_exp_minus_1)
  have c: "try_calloc ms n = (if hd (ms @ [True]) then Some (replicate (unat n) empty_item) else None, tl ms)"
    if "n = 8 \<or> n = 2" for ms n
    using that by (cases ms) (auto simp: try_calloc_def next_request_def)
  show ?thesis
  proof (cases "hd (mem @ [True])")
    case True
    then have "(r, self', mem') = (1, put 3, tl mem)"
      using assms(3) unfolding first_insert_def put_def m by (simp add: c)
    then show ?thesis using P [of 3] by simp
  next
    case False
    then have F: "False \<in> set mem" by (cases mem) auto
    show ?thesis
    proof (cases "hd (tl mem @ [True])")
      case True
      then have "(r, self', mem') = (1, put 1, tl (tl mem))"
        using False assms(3) unfolding first_insert_def put_def m by (simp add: c)
      then show ?thesis using P [of 1] by simp
    next
      case F2: False
      then have "(r, self', mem') = (-1, self\<lparr>shs_mask := 1\<rparr>, tl (tl mem))"
        using False assms(3) unfolding first_insert_def by (simp add: c)
      then show ?thesis using assms(1,2) F by (simp add: hs_ok_def hs_keys_def)
    qed
  qed
qed

lemma probe_free_ends:
  assumes "hs_ok hsh self" "shs_elem self = Some es"
  shows "\<exists>d. probe_free es (shs_mask self) (hashst (shs_mask self) h) = Some d"
proof -
  obtain k where k: "table_ok hsh k (shs_mask self) es"
    and c: "card (stored_keys es) = unat (shs_size self)" "unat (shs_size self) \<le> 2 ^ k - 1"
    using hs_okD [OF assms] .
  have "(0::nat) < 2 ^ k" by simp
  then have "card (stored_keys es) < 2 ^ k" using c by linarith
  then obtain i where i: "i < 2 ^ k" "key_at es i = None" using free_slot [OF k] by blast
  obtain n where "key_at es (probed (shs_mask self) h n) = None"
    "\<forall>j < n. key_at es (probed (shs_mask self) h j) \<noteq> None"
    using first_free_probe [OF table_okD(1) [OF k] i] .
  then show ?thesis
    using probe_free_path [of es "shs_mask self" n "hashst (shs_mask self) h"]
    unfolding probed_def by blast
qed

text \<open>The invariant of a set, with the bound of the load from below.\<close>

definition hs_inv :: "('k \<Rightarrow> u64) \<Rightarrow> 'k hashset \<Rightarrow> bool" where
  "hs_inv hsh self \<longleftrightarrow> hs_ok hsh self \<and> hs_loaded self"

lemma hs_inv_init [simp]: "hs_inv hsh Dee_SIMPLE_HASHSET_INIT" "hs_keys Dee_SIMPLE_HASHSET_INIT = {}"
  "shs_size Dee_SIMPLE_HASHSET_INIT = 0"
  by (simp_all add: hs_inv_def hs_ok_def hs_loaded_def hs_keys_def Dee_SIMPLE_HASHSET_INIT_def)

lemma hs_inv_small_mask:
  assumes "hs_inv hsh self" "shs_elem self \<noteq> None" "shs_size self < 2 ^ 55"
  shows "shs_mask self < 2 ^ 57"
  using assms by (auto simp: hs_inv_def hs_loaded_def word_less_nat_alt)

text \<open>
  What an insertion may do: store the item as no stored key equals it (1), find an equal key (0), or
  fail in a comparison or for lack of memory (-1).
\<close>

definition insert_outcome ::
  "'k compare_eq \<Rightarrow> bool list \<Rightarrow> 'k hashset \<Rightarrow> 'k \<Rightarrow> int \<Rightarrow> 'k hashset \<Rightarrow> bool" where
  "insert_outcome cmp mem self item r self' \<longleftrightarrow>
     (if r = 1 then (\<forall>key \<in> hs_keys self. cmp item key \<noteq> 0) \<and> hs_keys self' = insert item (hs_keys self)
        \<and> unat (shs_size self') = Suc (unat (shs_size self))
      else if r = 0 then (\<exists>key \<in> hs_keys self. cmp item key = 0) \<and> self' = self
      else r = -1 \<and> ((\<exists>key \<in> hs_keys self. cmp item key = -2) \<or> False \<in> set mem)
        \<and> hs_keys self' = hs_keys self \<and> shs_size self' = shs_size self)"

lemma loaded_step:
  assumes "unat (shs_mask self) < max 8 (4 * Suc (unat (shs_size self)))"
    and "unat (shs_size self') = Suc (unat (shs_size self))"
    and "unat (shs_mask self') \<le> max (unat (shs_mask self)) (4 * unat (shs_size self'))"
    and "hs_ok hsh self'"
  shows "hs_loaded self'"
proof (cases "shs_elem self'")
  case (Some es)
  obtain k where "table_ok hsh k (shs_mask self') es" using hs_okD [OF assms(4) Some] .
  then have k: "unat (shs_mask self') = 2 ^ k - 1" "0 < k"
    using hash_mask_unat table_okD(1) by (blast, simp add: table_ok_def hash_mask_def)
  then have "odd (unat (shs_mask self'))" by simp
  then have "unat (shs_mask self') \<noteq> 4 * unat (shs_size self')" by presburger
  then show ?thesis using assms(1-3) by (auto simp: hs_loaded_def)
qed (simp add: hs_loaded_def)

lemma first_insert_mem:
  "first_insert mem self item h = (r, self', mem') \<Longrightarrow> set mem' \<subseteq> set mem"
  by (cases mem rule: list.exhaust; cases "tl mem")
    (auto simp: first_insert_def try_calloc_def next_request_def Let_def split: if_splits)

lemma first_insert_size:
  assumes "shs_elem self = None" "shs_size self = 0" "first_insert mem self item h = (r, self', mem')"
  shows "hs_loaded self'" "shs_size self' = (if r = 1 then 1 else 0)"
  using assms
  by (auto simp: first_insert_def hs_loaded_def Let_def split: prod.splits option.splits)

text \<open>
  The laws the set needs of the hash and equality of its elements: equal objects have equal hashes,
  and every object equals itself.
\<close>

locale hash_key =
  fixes hsh :: "'k \<Rightarrow> u64" and cmp :: "'k compare_eq"
  assumes equal_hash: "cmp x y = 0 \<Longrightarrow> hsh x = hsh y"
    and equal_refl: "cmp x x = 0"
begin

lemma insert_table_spec:
  assumes inv: "hs_inv hsh self" and small: "shs_size self < 2 ^ 55" and es: "shs_elem self = Some es"
  shows "\<exists>r self' mem'. insert_table hsh cmp mem self es item = Some (r, self', mem')
    \<and> hs_inv hsh self' \<and> insert_outcome cmp mem self item r self' \<and> set mem' \<subseteq> set mem"
proof -
  have ok: "hs_ok hsh self" and ld: "unat (shs_mask self) < max 8 (4 * unat (shs_size self))"
    using inv es by (simp_all add: hs_inv_def hs_loaded_def)
  have sm: "shs_mask self < 2 ^ 57" by (rule hs_inv_small_mask [OF inv _ small]) (simp add: es)
  obtain p where p: "insert_probe cmp item (hsh item) es (shs_mask self) (hashst (shs_mask self) (hsh item)) = Some p"
    and pcase: "case p of
         SLOT_EQUAL \<Rightarrow> \<exists>key \<in> hs_keys self. cmp item key = 0
       | SLOT_ERROR \<Rightarrow> \<exists>key \<in> hs_keys self. cmp item key = -2
       | SLOT_FREE d \<Rightarrow> (\<forall>key \<in> hs_keys self. hsh key = hsh item \<longrightarrow> cmp item key \<noteq> 0)
           \<and> probe_free es (shs_mask self) (hashst (shs_mask self) (hsh item)) = Some d"
    using insert_probe_spec [OF ok es] by blast
  note unf = insert_table_def [of hsh cmp mem self es item]
  show ?thesis
  proof (cases p)
    case SLOT_EQUAL
    then show ?thesis using unf p pcase inv by (simp add: insert_outcome_def)
  next
    case SLOT_ERROR
    then show ?thesis using unf p pcase inv by (simp add: insert_outcome_def)
  next
    case (SLOT_FREE d)
    have new: "\<forall>key \<in> hs_keys self. cmp item key \<noteq> 0"
      using pcase SLOT_FREE equal_hash by fastforce
    then have notin: "item \<notin> hs_keys self" using equal_refl by blast
    show ?thesis
    proof (cases "shs_size self \<ge> shs_mask self")
      case False
      then have lt: "shs_size self < shs_mask self" by simp
      obtain self' mem' where "populate mem self es d item (hsh item) = Some (1, self', mem')"
        and R: "hs_ok hsh self'" "hs_keys self' = insert item (hs_keys self)" "set mem' \<subseteq> set mem"
        "unat (shs_size self') = Suc (unat (shs_size self))"
        "unat (shs_mask self') \<le> max (unat (shs_mask self)) (4 * unat (shs_size self'))"
        using populate_spec [OF ok es lt, of item d mem] pcase SLOT_FREE notin es
        by (auto simp: hs_keys_def)
      then have "insert_table hsh cmp mem self es item = Some (1, self', mem')"
        using unf p SLOT_FREE False by simp
      moreover have "hs_inv hsh self'"
        using R(1) loaded_step [OF _ R(4,5,1)] ld by (simp add: hs_inv_def)
      ultimately show ?thesis using R new by (simp add: insert_outcome_def)
    next
      case True
      obtain err self1 mem1 where r: "Dee_simple_hashset_rehash mem self = Some (err, self1, mem1)"
        and ok1: "hs_ok hsh self1" "hs_keys self1 = hs_keys self" "shs_elem self1 \<noteq> None" "set mem1 \<subseteq> set mem"
          "shs_size self1 = shs_size self" "unat (shs_mask self1) \<le> 2 * unat (shs_mask self) + 1"
          "err \<noteq> 0 \<longrightarrow> self1 = self"
        and err: "if err = 0 then shs_size self1 < shs_mask self1 else err = -1 \<and> False \<in> set mem"
        using rehash_spec [OF ok es sm] by blast
      show ?thesis
      proof (cases "err = 0")
        case False
        then show ?thesis
          using unf p SLOT_FREE True r ok1 err inv by (simp add: insert_outcome_def)
      next
        case err0: True
        obtain es1 where es1: "shs_elem self1 = Some es1" using ok1(3) by blast
        obtain d1 where d1: "probe_free es1 (shs_mask self1) (hashst (shs_mask self1) (hsh item)) = Some d1"
          using probe_free_ends [OF ok1(1) es1, of "hsh item"] by blast
        obtain self' mem' where "populate mem1 self1 es1 d1 item (hsh item) = Some (1, self', mem')"
          and R: "hs_ok hsh self'" "hs_keys self' = insert item (hs_keys self1)" "set mem' \<subseteq> set mem1"
          "unat (shs_size self') = Suc (unat (shs_size self1))"
          "unat (shs_mask self') \<le> max (unat (shs_mask self1)) (4 * unat (shs_size self'))"
          using populate_spec [OF ok1(1) es1 _ d1, of mem1] notin ok1(2) es1 err err0
          by (auto simp: hs_keys_def)
        then have "insert_table hsh cmp mem self es item = Some (1, self', mem')"
          using unf p SLOT_FREE True r err0 es1 d1 by simp
        moreover have "hs_inv hsh self'"
        proof -
          have "unat (shs_mask self) \<le> unat (shs_size self)" using True by (simp add: word_le_nat_alt)
          then have "unat (shs_mask self1) < max 8 (4 * Suc (unat (shs_size self1)))"
            using ok1(5,6) by simp
          then show ?thesis using R(1) loaded_step [OF _ R(4,5,1)] by (simp add: hs_inv_def)
        qed
        ultimately show ?thesis using R ok1(2,4,5) new by (auto simp: insert_outcome_def)
      qed
    qed
  qed
qed

lemma insert_spec:
  assumes inv: "hs_inv hsh self" and small: "shs_size self < 2 ^ 55"
  shows "\<exists>r self' mem'. Dee_simple_hashset_insert hsh cmp mem self item = Some (r, self', mem')
    \<and> hs_inv hsh self' \<and> insert_outcome cmp mem self item r self' \<and> set mem' \<subseteq> set mem"
    "\<exists>r self' mem'. Dee_simple_hashset_with_lock_insert hsh cmp mem self item = Some (r, self', mem')
    \<and> hs_inv hsh self' \<and> insert_outcome cmp mem self item r self' \<and> set mem' \<subseteq> set mem"
proof -
  consider (none) "shs_elem self = None" | (table) es where "shs_elem self = Some es" by blast
  then have "(\<exists>r self' mem'. Dee_simple_hashset_insert hsh cmp mem self item = Some (r, self', mem')
      \<and> hs_inv hsh self' \<and> insert_outcome cmp mem self item r self' \<and> set mem' \<subseteq> set mem)
    \<and> (\<exists>r self' mem'. Dee_simple_hashset_with_lock_insert hsh cmp mem self item = Some (r, self', mem')
      \<and> hs_inv hsh self' \<and> insert_outcome cmp mem self item r self' \<and> set mem' \<subseteq> set mem)"
  proof cases
    case table
    then show ?thesis
      using insert_table_spec [OF inv small table, of mem item]
      by (simp add: Dee_simple_hashset_insert_def Dee_simple_hashset_with_lock_insert_def)
  next
    case none
    obtain r self' mem' where f: "first_insert mem self item (hsh item) = (r, self', mem')"
      using prod_cases3 by blast
    have z: "shs_size self = 0" using inv none by (simp add: hs_inv_def hs_ok_def)
    have k: "hs_keys self = {}" using none by (simp add: hs_keys_def)
    note S = first_insert_spec [where hsh = hsh, OF none z f]
    have m: "set mem' \<subseteq> set mem"
      using first_insert_mem [of mem self item "hsh item"] f by simp
    have s: "hs_loaded self'" "shs_size self' = (if r = 1 then 1 else 0)"
      using first_insert_size [OF none z f] by simp_all
    have o: "insert_outcome cmp mem self item r self'" "r = 1 \<or> insert_outcome cmp mem self item r self"
      using S s(2) k z by (auto simp: insert_outcome_def split: if_splits)
    then show ?thesis
      using S s m f none inv
      by (auto simp: Dee_simple_hashset_insert_def Dee_simple_hashset_with_lock_insert_def hs_inv_def)
  qed
  then show "\<exists>r self' mem'. Dee_simple_hashset_insert hsh cmp mem self item = Some (r, self', mem')
      \<and> hs_inv hsh self' \<and> insert_outcome cmp mem self item r self' \<and> set mem' \<subseteq> set mem"
    "\<exists>r self' mem'. Dee_simple_hashset_with_lock_insert hsh cmp mem self item = Some (r, self', mem')
      \<and> hs_inv hsh self' \<and> insert_outcome cmp mem self item r self' \<and> set mem' \<subseteq> set mem"
    by blast+
qed

end

section \<open>Properties\<close>

text \<open>
  C40: Probing ends.  In a table of a power of two slots with a free one, whatever the hashes, the
  equality and the slots are, the loop of the insertion and the loop that looks for a free slot
  return; the latter finds a free slot within the table.
\<close>

theorem hashset_probing_terminates:
  assumes "hash_mask k m" "i < 2 ^ k" "shsi_key (es ! i) = None"
  shows "(\<exists>r. insert_probe cmp item hash es m (hashst m hash) = Some r)
    \<and> (\<exists>d < 2 ^ k. probe_free es m (hashst m hash) = Some d \<and> shsi_key (es ! d) = None)"
proof -
  obtain n where n: "key_at es (probed m hash n) = None" "\<forall>j < n. key_at es (probed m hash j) \<noteq> None"
    using first_free_probe [OF assms(1,2)] assms(3) unfolding key_at_def by metis
  then show ?thesis
    using insert_probe_path [of es m n "hashst m hash" cmp item hash] probe_free_path [of es m n "hashst m hash"]
      probed_less [OF assms(1), of hash n]
    by (auto simp: probed_def key_at_def)
qed

theorem hashset_probing_terminates_witness:
  "(\<exists>r. insert_probe (\<lambda>x y. if x = y then 0 else 1) False 6
       [\<lparr>shsi_key = Some True, shsi_hash = 4\<rparr>, empty_item] 1 (hashst 1 6) = Some r)
   \<and> (\<exists>d < 2 ^ 1. probe_free [\<lparr>shsi_key = Some True, shsi_hash = 4\<rparr>, empty_item] 1 (hashst 1 6) = Some d
     \<and> shsi_key ([\<lparr>shsi_key = Some True, shsi_hash = 4\<rparr>, empty_item] ! d) = None)"
  by (rule hashset_probing_terminates [of 1 _ 1]) (simp_all add: hash_mask_def mask_eq_exp_minus_1 empty_item_def)

text \<open>
  C38: The hash set refines a set.  For every hash and equality with the two laws, insertion, with and
  without lock, returns and keeps the invariant, and either adds the item, when no stored key
  equals it (1), or leaves the set alone, when one does (0), or fails without losing a key, because
  a comparison failed or memory ran out (-1).
\<close>

theorem hashset_insert_refines_set:
  assumes "\<And>x y. cmp x y = 0 \<Longrightarrow> hsh x = hsh y" "\<And>x. cmp x x = 0"
    and "hs_inv hsh self" "shs_size self < 2 ^ 55"
    and "ins = Dee_simple_hashset_insert \<or> ins = Dee_simple_hashset_with_lock_insert"
  shows "\<exists>r self' mem'. ins hsh cmp mem self item = Some (r, self', mem') \<and> hs_inv hsh self'
    \<and> (r = 1 \<and> (\<forall>key \<in> hs_keys self. cmp item key \<noteq> 0) \<and> hs_keys self' = insert item (hs_keys self)
         \<and> unat (shs_size self') = Suc (unat (shs_size self))
       \<or> r = 0 \<and> (\<exists>key \<in> hs_keys self. cmp item key = 0) \<and> self' = self
       \<or> r = -1 \<and> ((\<exists>key \<in> hs_keys self. cmp item key = -2) \<or> False \<in> set mem)
         \<and> hs_keys self' = hs_keys self \<and> shs_size self' = shs_size self)"
proof -
  have "hash_key hsh cmp" using assms(1,2) by unfold_locales
  note S = hash_key.insert_spec [OF this assms(3,4), of mem item]
  obtain r self' mem' where "ins hsh cmp mem self item = Some (r, self', mem')" "hs_inv hsh self'"
    "insert_outcome cmp mem self item r self'"
    using S assms(5) by blast
  then show ?thesis unfolding insert_outcome_def by (auto split: if_splits)
qed

theorem hashset_insert_refines_set_witness:
  "\<exists>r self' mem'. Dee_simple_hashset_insert (\<lambda>n :: nat. of_nat (n mod 2)) (\<lambda>x y. if x = y then 0 else 1)
       [False, True] Dee_SIMPLE_HASHSET_INIT 5 = Some (r, self', mem')
     \<and> hs_inv (\<lambda>n :: nat. of_nat (n mod 2)) self' \<and> (r = 1 \<and> hs_keys self' = {5} \<or> r = -1)"
proof -
  have "\<exists>r self' mem'. Dee_simple_hashset_insert (\<lambda>n :: nat. of_nat (n mod 2)) (\<lambda>x y. if x = y then 0 else 1)
       [False, True] Dee_SIMPLE_HASHSET_INIT 5 = Some (r, self', mem')
     \<and> hs_inv (\<lambda>n :: nat. of_nat (n mod 2)) self'
     \<and> (r = 1 \<and> (\<forall>key \<in> hs_keys Dee_SIMPLE_HASHSET_INIT. (if (5::nat) = key then 0 else 1) \<noteq> (0::int))
          \<and> hs_keys self' = insert 5 (hs_keys Dee_SIMPLE_HASHSET_INIT)
          \<and> unat (shs_size self') = Suc (unat (shs_size (Dee_SIMPLE_HASHSET_INIT :: nat hashset)))
       \<or> r = 0 \<and> (\<exists>key \<in> hs_keys Dee_SIMPLE_HASHSET_INIT. (if (5::nat) = key then 0 else 1) = (0::int))
          \<and> self' = Dee_SIMPLE_HASHSET_INIT
       \<or> r = -1 \<and> ((\<exists>key \<in> hs_keys Dee_SIMPLE_HASHSET_INIT. (if (5::nat) = key then 0 else 1) = (-2::int))
            \<or> False \<in> set [False, True])
          \<and> hs_keys self' = hs_keys Dee_SIMPLE_HASHSET_INIT
          \<and> shs_size self' = shs_size (Dee_SIMPLE_HASHSET_INIT :: nat hashset))"
    by (rule hashset_insert_refines_set) (auto split: if_splits)
  then show ?thesis by fastforce
qed

end
