(* ===== verification/DistinctIter.thy ===== *)
theory DistinctIter
  imports SimpleHashset IntCompare
begin

text \<open>
  The iterators that skip elements they have already produced (src/deemon/objects/seq/unique-iterator.c):
  \<open>DistinctIterator\<close>, \<open>DistinctIteratorWithKey\<close> and \<open>DistinctMappingIterator\<close>.  An iterator is a
  state and the operator \<open>tp_next\<close> on it; \<open>None\<close> is an operator that does not return.  The lists
  \<open>mem\<close> and \<open>intr\<close> are the outcomes of the coming memory requests and interrupt checks.
\<close>

section \<open>Iterators\<close>

datatype 'v next_result = ITER_ITEM 'v | ITER_DONE | ITER_NULL

type_synonym ('s, 'v) tp_next = "'s \<Rightarrow> ('v next_result \<times> 's) option"

record ('s, 'k) DistinctIterator =
  di_iter :: 's
  di_encountered :: "'k hashset"

type_synonym ('s, 'k) di_state = "('s, 'k) DistinctIterator \<times> bool list \<times> bool list"

text \<open>\<open>DeeThread_CheckInterrupt\<close>: no interrupt is pending after the end of the list.\<close>

definition check_interrupt :: "bool list \<Rightarrow> bool \<times> bool list" where
  "check_interrupt intr = (case intr of [] \<Rightarrow> (False, []) | b # intr' \<Rightarrow> (b, intr'))"

text \<open>The iterator part of \<open>di_init\<close>.\<close>

definition di_init :: "'s \<Rightarrow> ('s, 'k) DistinctIterator" where
  "di_init it = \<lparr>di_iter = it, di_encountered = Dee_SIMPLE_HASHSET_INIT\<rparr>"

partial_function (option) di_next ::
  "('k \<Rightarrow> u64) \<Rightarrow> 'k compare_eq \<Rightarrow> ('s, 'k) tp_next \<Rightarrow> (('s, 'k) di_state, 'k) tp_next" where
  [code]: "di_next hsh cmp tp_next st = (case st of (self, mem, intr) \<Rightarrow>
     Option.bind (tp_next (di_iter self)) (\<lambda>(result, it).
       let self = self\<lparr>di_iter := it\<rparr> in
       case result of
         ITER_ITEM item \<Rightarrow>
           Option.bind (Dee_simple_hashset_with_lock_insert hsh cmp mem (di_encountered self) item)
             (\<lambda>(exists, set, mem).
               let self = self\<lparr>di_encountered := set\<rparr> in
               if exists > 0 then Some (result, self, mem, intr)
               else if exists < 0 then Some (ITER_NULL, self, mem, intr)
               else
                 let (interrupted, intr) = check_interrupt intr
                 in if interrupted then Some (ITER_NULL, self, mem, intr)
                    else di_next hsh cmp tp_next (self, mem, intr))
       | _ \<Rightarrow> Some (result, self, mem, intr)))"

text \<open>\<open>diwk_key\<close> is applied to every item; \<open>None\<close> is a failed call.\<close>

partial_function (option) uqiwk_next ::
  "('k \<Rightarrow> u64) \<Rightarrow> 'k compare_eq \<Rightarrow> ('v \<Rightarrow> 'k option) \<Rightarrow> ('s, 'v) tp_next \<Rightarrow> (('s, 'k) di_state, 'v) tp_next" where
  [code]: "uqiwk_next hsh cmp diwk_key tp_next st = (case st of (self, mem, intr) \<Rightarrow>
     Option.bind (tp_next (di_iter self)) (\<lambda>(result, it).
       let self = self\<lparr>di_iter := it\<rparr> in
       case result of
         ITER_ITEM item \<Rightarrow>
           (case diwk_key item of
              None \<Rightarrow> Some (ITER_NULL, self, mem, intr)
            | Some keyed_result \<Rightarrow>
                Option.bind (Dee_simple_hashset_with_lock_insert hsh cmp mem (di_encountered self) keyed_result)
                  (\<lambda>(exists, set, mem).
                    let self = self\<lparr>di_encountered := set\<rparr> in
                    if exists > 0 then Some (result, self, mem, intr)
                    else if exists < 0 then Some (ITER_NULL, self, mem, intr)
                    else
                      let (interrupted, intr) = check_interrupt intr
                      in if interrupted then Some (ITER_NULL, self, mem, intr)
                         else uqiwk_next hsh cmp diwk_key tp_next (self, mem, intr)))
       | _ \<Rightarrow> Some (result, self, mem, intr)))"

text \<open>The pairs of a mapping; only the key is looked up.\<close>

partial_function (option) dmi_nextpair ::
  "('k \<Rightarrow> u64) \<Rightarrow> 'k compare_eq \<Rightarrow> ('s, 'k \<times> 'v) tp_next \<Rightarrow> (('s, 'k) di_state, 'k \<times> 'v) tp_next" where
  [code]: "dmi_nextpair hsh cmp tp_nextpair st = (case st of (self, mem, intr) \<Rightarrow>
     Option.bind (tp_nextpair (di_iter self)) (\<lambda>(result, it).
       let self = self\<lparr>di_iter := it\<rparr> in
       case result of
         ITER_ITEM key_and_value \<Rightarrow>
           Option.bind (Dee_simple_hashset_with_lock_insert hsh cmp mem (di_encountered self) (fst key_and_value))
             (\<lambda>(exists, set, mem).
               let self = self\<lparr>di_encountered := set\<rparr> in
               if exists \<noteq> 0 then
                 if exists < 0 then Some (ITER_NULL, self, mem, intr)
                 else dmi_nextpair hsh cmp tp_nextpair (self, mem, intr)
               else Some (result, self, mem, intr))
       | _ \<Rightarrow> Some (result, self, mem, intr)))"

section \<open>What an iterator yields\<close>

inductive yields :: "('s, 'v) tp_next \<Rightarrow> 's \<Rightarrow> 'v list \<Rightarrow> bool" for tp_next where
  yields_done: "tp_next it = Some (ITER_DONE, it') \<Longrightarrow> yields tp_next it []"
| yields_item: "tp_next it = Some (ITER_ITEM x, it') \<Longrightarrow> yields tp_next it' xs \<Longrightarrow> yields tp_next it (x # xs)"

text \<open>An iterator over a list, for concrete inputs.\<close>

fun list_next :: "('v list, 'v) tp_next" where
  "list_next [] = Some (ITER_DONE, [])"
| "list_next (x # xs) = Some (ITER_ITEM x, xs)"

lemma list_next_yields: "yields list_next xs xs"
  by (induction xs) (auto intro: yields.intros)

text \<open>The items whose key does not equal a key met before, and those whose key does.\<close>

definition met :: "'k compare_eq \<Rightarrow> 'k set \<Rightarrow> 'k \<Rightarrow> bool" where
  "met cmp seen key \<longleftrightarrow> (\<exists>k \<in> seen. cmp key k = 0)"

fun first_occurrences :: "'k compare_eq \<Rightarrow> ('v \<Rightarrow> 'k) \<Rightarrow> 'k set \<Rightarrow> 'v list \<Rightarrow> 'v list" where
  "first_occurrences cmp key seen [] = []"
| "first_occurrences cmp key seen (x # xs) =
     (if met cmp seen (key x) then first_occurrences cmp key seen xs
      else x # first_occurrences cmp key (insert (key x) seen) xs)"

fun repeated_occurrences :: "'k compare_eq \<Rightarrow> ('v \<Rightarrow> 'k) \<Rightarrow> 'k set \<Rightarrow> 'v list \<Rightarrow> 'v list" where
  "repeated_occurrences cmp key seen [] = []"
| "repeated_occurrences cmp key seen (x # xs) =
     (if met cmp seen (key x) then x # repeated_occurrences cmp key seen xs
      else repeated_occurrences cmp key (insert (key x) seen) xs)"

section \<open>The iterators over a well-behaved hash\<close>

text \<open>A set that has room for \<open>n\<close> more items, when nothing fails.\<close>

definition calm :: "('k \<Rightarrow> u64) \<Rightarrow> nat \<Rightarrow> ('s, 'k) di_state \<Rightarrow> bool" where
  "calm hsh n st \<longleftrightarrow> (case st of (self, mem, intr) \<Rightarrow>
     hs_inv hsh (di_encountered self) \<and> unat (shs_size (di_encountered self)) + n < 2 ^ 55
     \<and> False \<notin> set mem \<and> True \<notin> set intr)"

definition met_keys :: "('s, 'k) di_state \<Rightarrow> 'k set" where
  "met_keys st = hs_keys (di_encountered (fst st))"

lemma calm_init: "n < 2 ^ 55 \<Longrightarrow> calm hsh n (di_init it, [], [])" "met_keys (di_init it, mem, intr) = {}"
  by (simp_all add: calm_def di_init_def met_keys_def)

lemma check_interrupt_calm:
  "True \<notin> set intr \<Longrightarrow> \<exists>intr'. check_interrupt intr = (False, intr') \<and> True \<notin> set intr'"
  by (cases intr) (auto simp: check_interrupt_def)

lemma yields_Cons_step:
  assumes "f st = f st'" "yields f st' xs"
  shows "yields f st xs"
  using assms(2,1) by cases (auto intro: yields.intros)

locale calm_hash_key = hash_key +
  assumes no_error: "cmp x y \<noteq> -2"
begin

lemma insert_step:
  assumes "calm hsh (Suc n) (self, mem, intr)"
  shows "\<exists>exists set mem'. Dee_simple_hashset_with_lock_insert hsh cmp mem (di_encountered self) key = Some (exists, set, mem')
    \<and> exists = (if met cmp (hs_keys (di_encountered self)) key then 0 else 1)
    \<and> calm hsh n (self\<lparr>di_iter := it, di_encountered := set\<rparr>, mem', intr)
    \<and> hs_keys set = (if met cmp (hs_keys (di_encountered self)) key
        then hs_keys (di_encountered self) else insert key (hs_keys (di_encountered self)))"
proof -
  let ?h = "di_encountered self"
  have inv: "hs_inv hsh ?h" and sz: "unat (shs_size ?h) + Suc n < 2 ^ 55" and mem: "False \<notin> set mem"
    and intr: "True \<notin> set intr"
    using assms by (simp_all add: calm_def)
  have "shs_size ?h < 2 ^ 55" using sz by (simp add: word_less_nat_alt)
  then obtain r h' mem' where ins: "Dee_simple_hashset_with_lock_insert hsh cmp mem ?h key = Some (r, h', mem')"
    and h': "hs_inv hsh h'" "insert_outcome cmp mem ?h key r h'" "set mem' \<subseteq> set mem"
    using insert_spec(2) [OF inv, of mem key] by blast
  have r: "r = (if met cmp (hs_keys ?h) key then 0 else 1)"
    using h'(2) mem no_error by (auto simp: insert_outcome_def met_def split: if_splits)
  have "calm hsh n (self\<lparr>di_iter := it, di_encountered := h'\<rparr>, mem', intr)"
    using h' r sz mem intr by (auto simp: calm_def insert_outcome_def split: if_splits)
  moreover have "hs_keys h' = (if met cmp (hs_keys ?h) key then hs_keys ?h else insert key (hs_keys ?h))"
    using h'(2) r by (auto simp: insert_outcome_def split: if_splits)
  ultimately show ?thesis using ins r by blast
qed

end

inductive_cases yields_NilE: "yields f it []"
inductive_cases yields_ConsE: "yields f it (x # xs)"

context calm_hash_key begin

lemma di_next_yields:
  assumes "yields tp_next (di_iter self) xs" "calm hsh (length xs) (self, mem, intr)"
  shows "yields (di_next hsh cmp tp_next) (self, mem, intr)
    (first_occurrences cmp (\<lambda>x. x) (hs_keys (di_encountered self)) xs)"
  using assms
proof (induction xs arbitrary: self mem intr rule: list.induct)
  case Nil
  then obtain it' where "tp_next (di_iter self) = Some (ITER_DONE, it')" by (auto elim: yields_NilE)
  then have "di_next hsh cmp tp_next (self, mem, intr) = Some (ITER_DONE, self\<lparr>di_iter := it'\<rparr>, mem, intr)"
    by (subst di_next.simps) simp
  then show ?case by (simp add: yields_done)
next
  case (Cons x xs)
  from Cons.prems(1) obtain it' where nx: "tp_next (di_iter self) = Some (ITER_ITEM x, it')"
    and ys: "yields tp_next it' xs" by (auto elim: yields_ConsE)
  let ?m = "met cmp (hs_keys (di_encountered self)) x"
  obtain set mem' where ins: "Dee_simple_hashset_with_lock_insert hsh cmp mem (di_encountered self) x
        = Some (if ?m then 0 else 1, set, mem')"
    and calm: "calm hsh (length xs) (self\<lparr>di_iter := it', di_encountered := set\<rparr>, mem', intr)"
    and keys: "hs_keys set = (if ?m then hs_keys (di_encountered self) else insert x (hs_keys (di_encountered self)))"
    using insert_step Cons.prems(2) by fastforce
  let ?self = "self\<lparr>di_iter := it', di_encountered := set\<rparr>"
  show ?case
  proof (cases ?m)
    case True
    obtain intr' where i: "check_interrupt intr = (False, intr')" "True \<notin> List.set intr'"
      using check_interrupt_calm calm by (auto simp: calm_def)
    have "di_next hsh cmp tp_next (self, mem, intr) = di_next hsh cmp tp_next (?self, mem', intr')"
      by (subst di_next.simps) (use nx ins True i in simp)
    moreover have "yields (di_next hsh cmp tp_next) (?self, mem', intr')
        (first_occurrences cmp (\<lambda>x. x) (hs_keys (di_encountered ?self)) xs)"
      by (rule Cons.IH) (use ys calm i in \<open>simp_all add: calm_def\<close>)
    ultimately show ?thesis using True keys by (simp add: yields_Cons_step)
  next
    case False
    have "di_next hsh cmp tp_next (self, mem, intr) = Some (ITER_ITEM x, ?self, mem', intr)"
      by (subst di_next.simps) (use nx ins False in simp)
    moreover have "yields (di_next hsh cmp tp_next) (?self, mem', intr)
        (first_occurrences cmp (\<lambda>x. x) (hs_keys (di_encountered ?self)) xs)"
      by (rule Cons.IH) (use ys calm in simp_all)
    ultimately show ?thesis using False keys by (simp add: yields_item)
  qed
qed

lemma uqiwk_next_yields:
  assumes "yields tp_next (di_iter self) xs" "calm hsh (length xs) (self, mem, intr)"
    and "\<And>x. x \<in> set xs \<Longrightarrow> diwk_key x = Some (key x)"
  shows "yields (uqiwk_next hsh cmp diwk_key tp_next) (self, mem, intr)
    (first_occurrences cmp key (hs_keys (di_encountered self)) xs)"
  using assms
proof (induction xs arbitrary: self mem intr rule: list.induct)
  case Nil
  then obtain it' where "tp_next (di_iter self) = Some (ITER_DONE, it')" by (auto elim: yields_NilE)
  then have "uqiwk_next hsh cmp diwk_key tp_next (self, mem, intr) = Some (ITER_DONE, self\<lparr>di_iter := it'\<rparr>, mem, intr)"
    by (subst uqiwk_next.simps) simp
  then show ?case by (simp add: yields_done)
next
  case (Cons x xs)
  from Cons.prems(1) obtain it' where nx: "tp_next (di_iter self) = Some (ITER_ITEM x, it')"
    and ys: "yields tp_next it' xs" by (auto elim: yields_ConsE)
  let ?m = "met cmp (hs_keys (di_encountered self)) (key x)"
  obtain set mem' where ins: "Dee_simple_hashset_with_lock_insert hsh cmp mem (di_encountered self) (key x)
        = Some (if ?m then 0 else 1, set, mem')"
    and calm: "calm hsh (length xs) (self\<lparr>di_iter := it', di_encountered := set\<rparr>, mem', intr)"
    and keys: "hs_keys set = (if ?m then hs_keys (di_encountered self) else insert (key x) (hs_keys (di_encountered self)))"
    using insert_step Cons.prems(2) by fastforce
  let ?self = "self\<lparr>di_iter := it', di_encountered := set\<rparr>"
  have kx: "diwk_key x = Some (key x)" using Cons.prems(3) by simp
  show ?case
  proof (cases ?m)
    case True
    obtain intr' where i: "check_interrupt intr = (False, intr')" "True \<notin> List.set intr'"
      using check_interrupt_calm calm by (auto simp: calm_def)
    have "uqiwk_next hsh cmp diwk_key tp_next (self, mem, intr) = uqiwk_next hsh cmp diwk_key tp_next (?self, mem', intr')"
      by (subst uqiwk_next.simps) (use nx ins True i kx in simp)
    moreover have "yields (uqiwk_next hsh cmp diwk_key tp_next) (?self, mem', intr')
        (first_occurrences cmp key (hs_keys (di_encountered ?self)) xs)"
      by (rule Cons.IH) (use ys calm i Cons.prems(3) in \<open>simp_all add: calm_def\<close>)
    ultimately show ?thesis using True keys by (simp add: yields_Cons_step)
  next
    case False
    have "uqiwk_next hsh cmp diwk_key tp_next (self, mem, intr) = Some (ITER_ITEM x, ?self, mem', intr)"
      by (subst uqiwk_next.simps) (use nx ins False kx in simp)
    moreover have "yields (uqiwk_next hsh cmp diwk_key tp_next) (?self, mem', intr)
        (first_occurrences cmp key (hs_keys (di_encountered ?self)) xs)"
      by (rule Cons.IH) (use ys calm Cons.prems(3) in simp_all)
    ultimately show ?thesis using False keys by (simp add: yields_item)
  qed
qed

lemma dmi_nextpair_yields:
  assumes "yields tp_nextpair (di_iter self) xs" "calm hsh (length xs) (self, mem, intr)"
  shows "yields (dmi_nextpair hsh cmp tp_nextpair) (self, mem, intr)
    (repeated_occurrences cmp fst (hs_keys (di_encountered self)) xs)"
  using assms
proof (induction xs arbitrary: self mem rule: list.induct)
  case Nil
  then obtain it' where "tp_nextpair (di_iter self) = Some (ITER_DONE, it')" by (auto elim: yields_NilE)
  then have "dmi_nextpair hsh cmp tp_nextpair (self, mem, intr) = Some (ITER_DONE, self\<lparr>di_iter := it'\<rparr>, mem, intr)"
    by (subst dmi_nextpair.simps) simp
  then show ?case by (simp add: yields_done)
next
  case (Cons x xs)
  from Cons.prems(1) obtain it' where nx: "tp_nextpair (di_iter self) = Some (ITER_ITEM x, it')"
    and ys: "yields tp_nextpair it' xs" by (auto elim: yields_ConsE)
  let ?m = "met cmp (hs_keys (di_encountered self)) (fst x)"
  obtain set mem' where ins: "Dee_simple_hashset_with_lock_insert hsh cmp mem (di_encountered self) (fst x)
        = Some (if ?m then 0 else 1, set, mem')"
    and calm: "calm hsh (length xs) (self\<lparr>di_iter := it', di_encountered := set\<rparr>, mem', intr)"
    and keys: "hs_keys set = (if ?m then hs_keys (di_encountered self) else insert (fst x) (hs_keys (di_encountered self)))"
    using insert_step Cons.prems(2) by fastforce
  let ?self = "self\<lparr>di_iter := it', di_encountered := set\<rparr>"
  have ih: "yields (dmi_nextpair hsh cmp tp_nextpair) (?self, mem', intr)
        (repeated_occurrences cmp fst (hs_keys (di_encountered ?self)) xs)"
    by (rule Cons.IH) (use ys calm in simp_all)
  show ?case
  proof (cases ?m)
    case False
    have "dmi_nextpair hsh cmp tp_nextpair (self, mem, intr) = dmi_nextpair hsh cmp tp_nextpair (?self, mem', intr)"
      by (subst dmi_nextpair.simps) (use nx ins False in simp)
    then show ?thesis using ih False keys by (simp add: yields_Cons_step)
  next
    case True
    have "dmi_nextpair hsh cmp tp_nextpair (self, mem, intr) = Some (ITER_ITEM x, ?self, mem', intr)"
      by (subst dmi_nextpair.simps) (use nx ins True in simp)
    then show ?thesis using ih True keys by (simp add: yields_item)
  qed
qed

end

section \<open>Integers as elements\<close>

text \<open>\<open>DeeObject_Hash\<close> and \<open>DeeObject_TryCompareEq\<close> on integers.\<close>

definition bigint_hash :: "bigint \<Rightarrow> u64" where
  "bigint_hash x = int_hash (Rep_bigint x)"

definition bigint_cmp :: "bigint compare_eq" where
  "bigint_cmp x y = int_trycompare_eq (\<lambda>_ :: unit. None) (Rep_bigint x) (IntObject (Rep_bigint y))"

lemma bigint_cmp_iff: "bigint_cmp x y = (if x = y then 0 else 1)"
  using compareint_iff(2) [OF bigint_ok bigint_ok, of x y] bigint_eqI [of x y]
  by (auto simp: bigint_cmp_def int_trycompare_eq_def Dee_CompareEqFromDiff_def)

interpretation int_key: hash_key bigint_hash bigint_cmp
  by unfold_locales (auto simp: bigint_cmp_iff split: if_splits)

interpretation int_calm: calm_hash_key bigint_hash bigint_cmp
  by unfold_locales (simp add: bigint_cmp_iff)

definition five :: bigint where
  "five = Abs_bigint (DeeInt_NewInt32 5)"

section \<open>Properties\<close>

lemma di_init_sel: "di_iter (di_init it) = it" "hs_keys (di_encountered (di_init it)) = {}"
  by (simp_all add: di_init_def)

lemma first_occurrences_spec:
  assumes "\<And>x y. cmp x y = 0 \<longleftrightarrow> x = y"
  shows "first_occurrences cmp (\<lambda>x. x) seen xs = rev (remdups (rev (filter (\<lambda>x. x \<notin> seen) xs)))"
proof (induction xs arbitrary: seen)
  case (Cons x xs)
  have r: "rev (remdups (ys @ [x])) = x # rev (remdups (filter (\<lambda>y. y \<noteq> x) ys))" for ys :: "'a list"
    by (induction ys) auto
  have f: "filter (\<lambda>y. y \<noteq> x) (rev (filter (\<lambda>y. y \<notin> seen) xs)) = rev (filter (\<lambda>y. y \<notin> insert x seen) xs)"
    by (simp add: rev_filter conj_commute)
  show ?case
    using assms by (simp add: met_def Cons.IH r f)
qed simp

lemma mapping_iterator_yields:
  assumes "\<And>x y. cmp x y = 0 \<Longrightarrow> hsh x = hsh y" "\<And>x. cmp x x = 0" "\<And>x y. cmp x y \<noteq> -2"
    and "yields tp_nextpair it xs" "length xs < 2 ^ 55"
  shows "yields (dmi_nextpair hsh cmp tp_nextpair) (di_init it, [], []) (repeated_occurrences cmp fst {} xs)"
proof -
  have k: "calm_hash_key hsh cmp" using assms(1-3) by unfold_locales
  show ?thesis
    using calm_hash_key.dmi_nextpair_yields [OF k, of tp_nextpair "di_init it" xs "[]" "[]", simplified di_init_sel,
        OF assms(4) calm_init(1) [OF assms(5)]] .
qed

lemma iterators_yield:
  assumes "\<And>x y. cmp x y = 0 \<Longrightarrow> hsh x = hsh y" "\<And>x. cmp x x = 0" "\<And>x y. cmp x y \<noteq> -2"
    and "yields tp_next it xs" "yields tp_next_key it_key ys" "length xs < 2 ^ 55" "length ys < 2 ^ 55"
    and "\<And>y. y \<in> set ys \<Longrightarrow> diwk_key y = Some (key y)"
  shows "yields (di_next hsh cmp tp_next) (di_init it, [], []) (first_occurrences cmp (\<lambda>x. x) {} xs)
    \<and> yields (uqiwk_next hsh cmp diwk_key tp_next_key) (di_init it_key, [], []) (first_occurrences cmp key {} ys)"
proof -
  have k: "calm_hash_key hsh cmp" using assms(1-3) by unfold_locales
  show ?thesis
    using calm_hash_key.di_next_yields [OF k, of tp_next "di_init it" xs "[]" "[]", simplified di_init_sel,
        OF assms(4) calm_init(1) [OF assms(6)]]
      calm_hash_key.uqiwk_next_yields [OF k, of tp_next_key "di_init it_key" ys "[]" "[]" diwk_key key,
        simplified di_init_sel, OF assms(5) calm_init(1) [OF assms(7)] assms(8)]
    by blast
qed

text \<open>
  C39: Iterators over \<open>n < 2\<^sup>5\<^sup>5\<close> items, when the hash and equality have the two laws and nothing fails,
  end.  The iterator over the distinct elements of a sequence yields the first of every group of equal
  items, in order; with a key function, the first item of every key.  But the iterator over the
  distinct keys of a mapping skips every pair whose key is new and yields the pairs whose key it has
  already met: the test of the insertion's result is the wrong way round.
\<close>

theorem distinct_iterators_characterized:
  assumes "\<And>x y. cmp x y = 0 \<Longrightarrow> hsh x = hsh y" "\<And>x. cmp x x = 0" "\<And>x y. cmp x y \<noteq> -2"
    and "\<And>x y. cmp' x y = 0 \<Longrightarrow> hsh' x = hsh' y" "\<And>x. cmp' x x = 0" "\<And>x y. cmp' x y \<noteq> -2"
    and "yields tp_next it xs" "yields tp_next_key it_key ys" "length xs < 2 ^ 55" "length ys < 2 ^ 55"
    and "\<And>y. y \<in> set ys \<Longrightarrow> diwk_key y = Some (key y)"
    and "yields tp_nextpair it_pair ps" "length ps < 2 ^ 55"
  shows "yields (di_next hsh cmp tp_next) (di_init it, [], []) (first_occurrences cmp (\<lambda>x. x) {} xs)
    \<and> yields (uqiwk_next hsh cmp diwk_key tp_next_key) (di_init it_key, [], []) (first_occurrences cmp key {} ys)
    \<and> yields (dmi_nextpair hsh' cmp' tp_nextpair) (di_init it_pair, [], []) (repeated_occurrences cmp' fst {} ps)"
proof -
  have "yields (di_next hsh cmp tp_next) (di_init it, [], []) (first_occurrences cmp (\<lambda>x. x) {} xs)
      \<and> yields (uqiwk_next hsh cmp diwk_key tp_next_key) (di_init it_key, [], []) (first_occurrences cmp key {} ys)"
    by (rule iterators_yield) (fact assms)+
  moreover have "yields (dmi_nextpair hsh' cmp' tp_nextpair) (di_init it_pair, [], []) (repeated_occurrences cmp' fst {} ps)"
    by (rule mapping_iterator_yields) (fact assms)+
  ultimately show ?thesis by blast
qed

theorem distinct_iterators_characterized_witness:
  "yields (di_next bigint_hash bigint_cmp list_next) (di_init [five, five], [], []) [five]
   \<and> yields (dmi_nextpair bigint_hash bigint_cmp list_next) (di_init [(five, True), (five, False)], [], [])
       [(five, False)]"
  using distinct_iterators_characterized [where hsh = bigint_hash and cmp = bigint_cmp and diwk_key = Some
      and key = "\<lambda>x. x" and hsh' = bigint_hash and cmp' = bigint_cmp, OF int_key.equal_hash int_key.equal_refl
      int_calm.no_error int_key.equal_hash int_key.equal_refl int_calm.no_error
      list_next_yields [of "[five, five]"] list_next_yields [of "[five, five]"] _ _ _
      list_next_yields [of "[(five, True), (five, False)]"]]
  by (simp add: met_def int_key.equal_refl)

end
