(* ===== verification/IntLeb.thy ===== *)
theory IntLeb
  imports IntObject
begin

text \<open>
  Integers as LEB bytes: \<open>DeeInt_NewUleb\<close>, \<open>DeeInt_NewSleb\<close>, \<open>DeeInt_GetUleb\<close> and
  \<open>DeeInt_GetSleb\<close> of src/deemon/objects/int.c.  The reader is the list of the bytes still to be
  read, a writer the list of the bytes written so far.  \<open>None\<close> is a read behind the end of the
  buffer.  The number of bits held in \<open>temp\<close> never exceeds 36, so \<open>num_bits\<close> (a \<open>uint8_t\<close>)
  is a natural number.  The reference encodings are \<open>uleb_enc\<close> (seven bits per byte, least
  significant first) and \<open>sleb_enc\<close> (the first byte holds the sign and six bits).
\<close>

section \<open>Reading\<close>

text \<open>\<open>while (*reader++ & 0x80) ++num_digits;\<close> started with one\<close>

fun leb_length :: "u8 list \<Rightarrow> nat option" where
  "leb_length [] = None"
| "leb_length (b # bs) = (if b AND 0x80 \<noteq> 0 then map_option Suc (leb_length bs) else Some 1)"

text \<open>
  The loop of the small case: as long as the byte read last (\<open>reader[-1]\<close>) has its continue bit,
  take seven more bits.
\<close>

fun leb_small :: "nat \<Rightarrow> twodigits \<Rightarrow> u8 \<Rightarrow> u8 list \<Rightarrow> twodigits \<times> u8 list" where
  "leb_small num_bits temp prev [] = (temp, [])"
| "leb_small num_bits temp prev (b # bs) =
     (if prev AND 0x80 \<noteq> 0
      then leb_small (num_bits + 7) (temp OR push_bit num_bits (ucast (b AND 0x7f))) b bs
      else (temp, b # bs))"

text \<open>\<open>while (num_bits && !((temp >> (num_bits - 1)) & 1)) --num_bits;\<close>\<close>

fun trim_bits :: "nat \<Rightarrow> 'a::len word \<Rightarrow> nat" where
  "trim_bits 0 temp = 0"
| "trim_bits (Suc n) temp = (if drop_bit n temp AND 1 = 0 then trim_bits n temp else Suc n)"

text \<open>The inner loops: fill \<open>temp\<close> up to a digit.  That of ULEB drops the zeros on top of the last byte.\<close>

fun sleb_fill :: "nat \<Rightarrow> twodigits \<Rightarrow> u8 \<Rightarrow> u8 list \<Rightarrow> nat \<times> twodigits \<times> u8 \<times> u8 list" where
  "sleb_fill num_bits temp prev [] = (num_bits, temp, prev, [])"
| "sleb_fill num_bits temp prev (b # bs) =
     (if num_bits < DIGIT_BITS \<and> prev AND 0x80 \<noteq> 0
      then sleb_fill (num_bits + 7) (temp OR push_bit num_bits (ucast (b AND 0x7f))) b bs
      else (num_bits, temp, prev, b # bs))"

fun uleb_fill :: "nat \<Rightarrow> twodigits \<Rightarrow> u8 \<Rightarrow> u8 list \<Rightarrow> nat \<times> twodigits \<times> u8 \<times> u8 list" where
  "uleb_fill num_bits temp prev [] = (num_bits, temp, prev, [])"
| "uleb_fill num_bits temp prev (b # bs) =
     (if num_bits < DIGIT_BITS \<and> prev AND 0x80 \<noteq> 0
      then let temp = temp OR push_bit num_bits (ucast (b AND 0x7f));
               num_bits = num_bits + 7
           in if b AND 0x80 = 0 then (trim_bits num_bits temp, temp, b, bs)
              else uleb_fill num_bits temp b bs
      else (num_bits, temp, prev, b # bs))"

lemma trim_bits_le: "trim_bits n temp \<le> n"
  by (induction n) (auto simp: le_SucI)

lemma sleb_fill_measure:
  "sleb_fill n t p bs = (n', t', p', bs') \<Longrightarrow> n' + 7 * length bs' = n + 7 * length bs"
  by (induction n t p bs rule: sleb_fill.induct) (auto split: if_splits)

lemma uleb_fill_measure:
  "uleb_fill n t p bs = (n', t', p', bs') \<Longrightarrow> n' + 7 * length bs' \<le> n + 7 * length bs"
proof (induction n t p bs rule: uleb_fill.induct)
  case (1 n t p)
  then show ?case by simp
next
  case (2 n t p b bs)
  then show ?case
    using trim_bits_le [of "n + 7" "t OR push_bit n (ucast (b AND 0x7f))"]
    by (fastforce simp: Let_def split: if_splits)
qed

text \<open>
  The outer loop, the same in both readers, stores one digit after the other.  \<open>first\<close> is
  \<open>dst == result->ob_digit\<close>; the digits are \<open>None\<close> when the loop returns the static zero instead
  of the new object.
\<close>

definition leb_fill ::
  "bool \<Rightarrow> nat \<Rightarrow> twodigits \<Rightarrow> u8 \<Rightarrow> u8 list \<Rightarrow> nat \<times> twodigits \<times> u8 \<times> u8 list" where
  "leb_fill is_sleb = (if is_sleb then sleb_fill else uleb_fill)"

lemma leb_fill_measure:
  "leb_fill s n t p bs = (n', t', p', bs') \<Longrightarrow> n' + 7 * length bs' \<le> n + 7 * length bs"
  using sleb_fill_measure [of n t p bs n' t' p' bs'] uleb_fill_measure [of n t p bs n' t' p' bs']
  by (auto simp: leb_fill_def split: if_splits)

function leb_loop ::
  "bool \<Rightarrow> bool \<Rightarrow> nat \<Rightarrow> twodigits \<Rightarrow> u8 \<Rightarrow> u8 list \<Rightarrow> digit list option \<times> u8 list" where
  "leb_loop is_sleb first num_bits temp prev bs =
     (let (num_bits, temp, prev, bs) = leb_fill is_sleb num_bits temp prev bs
      in if num_bits \<ge> DIGIT_BITS
         then let (ds, bs) = leb_loop is_sleb False (num_bits - DIGIT_BITS)
                               (drop_bit DIGIT_BITS temp) prev bs
              in (map_option ((#) (ucast temp AND DIGIT_MASK)) ds, bs)
         else if num_bits = 0 then (if first then None else Some [], bs)
         else (Some (if ucast temp = (0 :: digit) then [] else [ucast temp]), bs))"
  by pat_completeness auto
termination
  by (relation "measure (\<lambda>(s, first, n, t, p, bs). n + 7 * length bs)")
     (auto simp: DIGIT_BITS_def dest!: sym [THEN leb_fill_measure])

declare leb_loop.simps [simp del]

text \<open>The number of digits allocated for \<open>n\<close> bytes\<close>

definition leb_digits :: "nat \<Rightarrow> nat" where
  "leb_digits n = (n * 7 + (DIGIT_BITS - 1)) div DIGIT_BITS"

definition DeeInt_NewUleb :: "u8 list \<Rightarrow> (DeeInt \<times> u8 list) option" where
  "DeeInt_NewUleb reader =
     (case leb_length reader of
        None \<Rightarrow> None
      | Some n \<Rightarrow>
          let b = hd reader; bs = tl reader; temp = ucast (b AND 0x7f)
          in if leb_digits n = 1
             then let (temp, bs) = leb_small 7 temp b bs in Some (DeeInt_NewUInt64 temp, bs)
             else let (ds, bs) = leb_loop False True 7 temp b bs
                  in Some (case ds of None \<Rightarrow> DeeInt_Zero | Some ds \<Rightarrow> DeeInt_Alloc ds, bs))"

definition DeeInt_NewSleb :: "u8 list \<Rightarrow> (DeeInt \<times> u8 list) option" where
  "DeeInt_NewSleb reader =
     (case leb_length reader of
        None \<Rightarrow> None
      | Some n \<Rightarrow>
          let b = hd reader; bs = tl reader; temp = ucast (b AND 0x3f)
          in if leb_digits n = 1
             then let (temp, bs) = leb_small 6 temp b bs
                  in Some (if b AND 0x40 \<noteq> 0 then DeeInt_NewInt64 (- temp)
                           else DeeInt_NewUInt64 temp, bs)
             else let (ds, bs) = leb_loop True True 6 temp b bs
                  in Some (case ds of
                             None \<Rightarrow> DeeInt_Zero
                           | Some ds \<Rightarrow> if b AND 0x40 \<noteq> 0 then negate_size (DeeInt_Alloc ds)
                                        else DeeInt_Alloc ds, bs))"

section \<open>Writing\<close>

text \<open>\<open>do { *dst++ = 0x80 | (temp & 0x7f); temp >>= 7; num_bits -= 7; } while (num_bits >= 7);\<close>\<close>

fun flush7 :: "nat \<Rightarrow> twodigits \<Rightarrow> u8 list \<times> nat \<times> twodigits" where
  "flush7 num_bits temp =
     (if num_bits \<ge> 7
      then let (bs, n, t) = flush7 (num_bits - 7) (drop_bit 7 temp)
           in ((0x80 OR (ucast temp AND 0x7f)) # bs, n, t)
      else ([], num_bits, temp))"

declare flush7.simps [simp del]

text \<open>The loop shared by both writers; \<open>src\<close> are the digits not yet read.\<close>

definition leb_next :: "nat \<Rightarrow> twodigits \<Rightarrow> digit list \<Rightarrow> nat \<times> twodigits \<times> digit list" where
  "leb_next num_bits temp src =
     (case src of
        d # src' \<Rightarrow>
          if num_bits < 7
          then let temp = temp OR push_bit num_bits (ucast d);
                   num_bits = num_bits + DIGIT_BITS
               in (if src' = [] then trim_bits num_bits temp else num_bits, temp, src')
          else (num_bits, temp, src)
      | [] \<Rightarrow> (num_bits, temp, src))"

lemma flush7_less: "flush7 n t = (bs, n', t') \<Longrightarrow> 7 \<le> n \<Longrightarrow> n' < n \<and> n' < 7"
proof (induction n t arbitrary: bs n' t' rule: flush7.induct)
  case (1 n t)
  from "1.prems"(2) obtain bs1 where rec: "flush7 (n - 7) (drop_bit 7 t) = (bs1, n', t')"
    using "1.prems"(1) by (subst (asm) flush7.simps) (auto split: prod.splits)
  show ?case
  proof (cases "7 \<le> n - 7")
    case True
    with "1.IH" [OF "1.prems"(2) rec] "1.prems"(2) show ?thesis by simp
  next
    case False
    then have "n' = n - 7" using rec by (subst (asm) flush7.simps) simp
    with False "1.prems"(2) show ?thesis by simp
  qed
qed

function leb_write :: "u8 list \<Rightarrow> nat \<Rightarrow> twodigits \<Rightarrow> digit list \<Rightarrow> u8 list" where
  "leb_write dst num_bits temp src =
     (let (num_bits, temp, src') = leb_next num_bits temp src
      in if num_bits \<ge> 7
         then let (bs, num_bits, temp) = flush7 num_bits temp
              in leb_write (dst @ bs) num_bits temp src'
         else if num_bits = 0
         then let dst = (if dst = [] then [0] else dst)
              in butlast dst @ [last dst AND 0x7f]
         else dst @ [ucast temp])"
  by pat_completeness auto
termination
proof (relation "measures [\<lambda>(dst, n, t, src). length src, \<lambda>(dst, n, t, src). n]", goal_cases)
  case 1
  then show ?case by simp
next
  case (2 dst n t src x n1 y t1 src' z bs w n2 t2)
  then show ?case
    using flush7_less [of n1 t1 bs n2 t2]
    by (auto simp: leb_next_def Let_def split: list.splits if_splits)
qed

declare leb_write.simps [simp del]

definition DeeInt_GetUleb :: "DeeInt \<Rightarrow> u8 list" where
  "DeeInt_GetUleb self = leb_write [] 0 0 (digits self)"

definition DeeInt_GetSleb :: "DeeInt \<Rightarrow> u8 list" where
  "DeeInt_GetSleb self =
     (if ob_size self < 0 then
        let d = hd (digits self); src = tl (digits self); temp = ucast d :: twodigits;
            num_bits = (if src = [] then trim_bits DIGIT_BITS temp else DIGIT_BITS)
        in if src = [] \<and> num_bits \<le> 6 then [0x40 OR ucast temp]
           else leb_write [0x80 OR 0x40 OR (ucast temp AND 0x3f)] (num_bits - 6) (drop_bit 6 temp) src
      else leb_write [] 0 0 (digits self))"

definition DeeInt_GetUlebMaxSize :: "DeeInt \<Rightarrow> nat" where
  "DeeInt_GetUlebMaxSize self = ((nat (ob_size self) + 1) * DIGIT_BITS) div 7"

definition DeeInt_GetSlebMaxSize :: "DeeInt \<Rightarrow> nat" where
  "DeeInt_GetSlebMaxSize self = ((nat \<bar>ob_size self\<bar> + 1) * DIGIT_BITS) div 7"


section \<open>Reference encodings\<close>

fun leb_val :: "u8 list \<Rightarrow> nat" where
  "leb_val [] = 0"
| "leb_val (b # bs) = unat b mod 128 + 128 * leb_val bs"

text \<open>A sequence ends with the first byte without the continue bit.\<close>

fun leb_seq :: "u8 list \<Rightarrow> bool" where
  "leb_seq [] = False"
| "leb_seq (b # bs) = (if b AND 0x80 = 0 then bs = [] else leb_seq bs)"

function uleb_enc :: "nat \<Rightarrow> u8 list" where
  "uleb_enc n = (if n < 128 then [of_nat n] else (0x80 OR of_nat (n mod 128)) # uleb_enc (n div 128))"
  by pat_completeness auto
termination
  by (relation "measure id") auto

declare uleb_enc.simps [simp del]

definition sleb_enc :: "nat \<Rightarrow> u8 list" where
  "sleb_enc n = (if n < 64 then [0x40 OR of_nat n]
                 else (0x80 OR 0x40 OR of_nat (n mod 64)) # uleb_enc (n div 64))"

definition sleb_mag :: "u8 list \<Rightarrow> nat" where
  "sleb_mag bs = unat (hd bs) mod 64 + 64 * leb_val (tl bs)"

definition sleb_val :: "u8 list \<Rightarrow> int" where
  "sleb_val bs = (if hd bs AND 0x40 \<noteq> 0 then - int (sleb_mag bs) else int (sleb_mag bs))"

section \<open>Bytes\<close>

lemma leb_masks:
  fixes b :: u8
  shows "unat (b AND 0x7f) = unat b mod 128" "unat (b AND 0x3f) = unat b mod 64"
  using unat_and_mask_word [of b 7] unat_and_mask_word [of b 6] by (simp_all add: mask_numeral)

lemma unat_byte_twodigits: "unat (ucast (b :: u8) :: twodigits) = unat b"
  by (rule unat_ucast_up) simp

lemma cont_or: "(0x80 OR x) AND 0x80 \<noteq> (0 :: u8)"
proof -
  have "bit ((0x80 OR x) AND (0x80 :: u8)) 7" by (simp add: bit_simps)
  then show ?thesis by (metis bit_0_eq bot_apply bot_bool_def)
qed

lemma small_no_cont:
  fixes b :: u8
  assumes "unat b < 128"
  shows "b AND 0x80 = 0"
proof -
  have "b = take_bit 7 b"
    using assms by (simp only: word_unat_eq_iff unsigned_take_bit_eq) (simp add: take_bit_eq_mod)
  moreover have "take_bit 7 b AND 0x80 = 0"
    by (simp add: take_bit_eq_mask and.assoc mask_numeral)
  ultimately show ?thesis by metis
qed

lemma unat_cont_or:
  fixes x :: u8
  assumes "unat x < 128"
  shows "unat (0x80 OR x) = 128 + unat x"
proof -
  have "x AND 0x80 = 0" using assms by (rule small_no_cont)
  then have "unat (0x80 OR x) = unat (0x80 :: u8) + unat x"
    by (intro unat_or_disjoint) (simp add: and.commute)
  then show ?thesis by simp
qed

lemma leb_val_enc: "leb_val (uleb_enc n) = n"
proof (induction n rule: uleb_enc.induct)
  case (1 n)
  show ?case
  proof (cases "n < 128")
    case True
    then show ?thesis by (simp add: uleb_enc.simps [of n] unat_of_nat)
  next
    case False
    have "unat (of_nat (n mod 128) :: u8) = n mod 128" by (simp add: unat_of_nat)
    then show ?thesis using 1 False by (simp add: uleb_enc.simps [of n] unat_cont_or)
  qed
qed

lemma leb_seq_enc: "leb_seq (uleb_enc n)"
proof (induction n rule: uleb_enc.induct)
  case (1 n)
  show ?case
  proof (cases "n < 128")
    case True
    then have "(of_nat n :: u8) AND 0x80 = 0" by (intro small_no_cont) (simp add: unat_of_nat)
    then show ?thesis using True by (simp add: uleb_enc.simps [of n])
  next
    case False
    then show ?thesis using 1 cont_or by (simp add: uleb_enc.simps [of n])
  qed
qed

lemma uleb_enc_last: "0 < n \<Longrightarrow> last (uleb_enc n) \<noteq> 0"
proof (induction n rule: uleb_enc.induct)
  case (1 n)
  show ?case
  proof (cases "n < 128")
    case True
    then have "unat (of_nat n :: u8) \<noteq> 0" using 1 by (simp add: unat_of_nat)
    then have "(of_nat n :: u8) \<noteq> 0" by (metis unsigned_0)
    then show ?thesis using True by (simp add: uleb_enc.simps [of n])
  next
    case False
    then have "0 < n div 128" by simp
    moreover have "uleb_enc (n div 128) \<noteq> []" using leb_seq_enc [of "n div 128"] by auto
    ultimately show ?thesis using 1 False by (simp add: uleb_enc.simps [of n])
  qed
qed

lemma leb_length_seq: "leb_seq bs \<Longrightarrow> leb_length (bs @ rest) = Some (length bs)"
  by (induction bs) (auto split: if_splits)


section \<open>The readers\<close>

text \<open>The bytes of the sequence still to be read behind \<open>prev\<close>.\<close>

definition leb_pending :: "u8 \<Rightarrow> u8 list \<Rightarrow> bool" where
  "leb_pending prev ts = (if prev AND 0x80 \<noteq> 0 then leb_seq ts else ts = [])"

lemma leb_seq_Cons: "leb_seq (b # bs) = leb_pending b bs"
  by (simp add: leb_pending_def)

lemma leb_seq_split: "leb_seq bs \<Longrightarrow> \<exists>b ts. bs = b # ts \<and> leb_pending b ts"
  by (cases bs) (simp_all add: leb_pending_def split: if_splits)

lemma leb_pending_Cons: "leb_pending p (b # ts) \<longleftrightarrow> p AND 0x80 \<noteq> 0 \<and> leb_pending b ts"
  by (auto simp: leb_pending_def)

lemma leb_pending_Nil: "leb_pending p [] \<longleftrightarrow> p AND 0x80 = 0"
  by (simp add: leb_pending_def)

lemma temp_step:
  fixes temp :: twodigits and b :: u8
  assumes "unat temp < 2 ^ n" "n + 7 < 64"
  shows "unat (temp OR push_bit n (ucast (b AND 0x7f))) = unat temp + 2 ^ n * (unat b mod 128)"
    and "unat (temp OR push_bit n (ucast (b AND 0x7f))) < 2 ^ (n + 7)"
proof -
  let ?c = "ucast (b AND 0x7f) :: twodigits"
  have c: "unat ?c = unat b mod 128"
    by (simp only: unat_byte_twodigits leb_masks)
  have "unat ?c * 2 ^ n < 128 * 2 ^ n" unfolding c by simp
  also have "\<dots> = 2 ^ (n + 7)" by (simp add: power_add)
  also have "\<dots> \<le> (2 :: nat) ^ 64" using assms(2) by (intro power_increasing) simp_all
  finally have "unat ?c * 2 ^ n < 2 ^ LENGTH(64)" by simp
  from unat_or_shifted [OF assms(1) this]
  show eq: "unat (temp OR push_bit n ?c) = unat temp + 2 ^ n * (unat b mod 128)"
    by (simp only: c or.commute [of temp] add.commute mult.commute)
  have "unat temp + 2 ^ n * (unat b mod 128) < 2 ^ n + 2 ^ n * 127"
    using assms(1) by (intro add_less_le_mono mult_le_mono2) simp_all
  then show "unat (temp OR push_bit n ?c) < 2 ^ (n + 7)" by (simp add: eq power_add)
qed

lemma leb_val_step: "2 ^ n * (b + 128 * v) = 2 ^ n * b + 2 ^ (n + 7) * (v :: nat)"
  by (simp add: power_add algebra_simps)

lemma leb_small_spec:
  assumes "leb_pending p ts" "unat temp < 2 ^ n" "n + 7 * length ts < 64"
  shows "\<exists>t. leb_small n temp p (ts @ rest) = (t, rest)
          \<and> unat t = unat temp + 2 ^ n * leb_val ts \<and> unat t < 2 ^ (n + 7 * length ts)"
  using assms
proof (induction ts arbitrary: p n temp)
  case Nil
  then show ?case by (cases rest) (simp_all add: leb_pending_Nil)
next
  case (Cons b ts)
  note step = temp_step [OF Cons.prems(2), of b]
  have *: "n + 7 < 64" "n + 7 + 7 * length ts < 64" using Cons.prems by simp_all
  from Cons.IH [OF _ step(2) [OF *(1)] *(2), of b] Cons.prems(1)
  show ?case
    by (simp add: leb_pending_Cons step(1) [OF *(1)] leb_val_step add.assoc)
qed


text \<open>
  \<open>tight V N\<close>: the top seven of the \<open>N\<close> bits of \<open>V\<close> are not all zero, unless they fit a digit.
\<close>

definition tight :: "nat \<Rightarrow> nat \<Rightarrow> bool" where
  "tight V N \<longleftrightarrow> N < 30 \<or> 2 ^ (N - 7) \<le> V"

definition fill_ok ::
  "nat \<Rightarrow> twodigits \<Rightarrow> u8 list \<Rightarrow> nat \<Rightarrow> twodigits \<Rightarrow> u8 \<Rightarrow> u8 list \<Rightarrow> bool" where
  "fill_ok n t ts n' t' p' ts' \<longleftrightarrow>
     leb_pending p' ts' \<and> unat t' < 2 ^ n' \<and> n' < 37 \<and> (n' < 30 \<longrightarrow> ts' = [])
     \<and> unat t' + 2 ^ n' * leb_val ts' = unat t + 2 ^ n * leb_val ts
     \<and> n' + 7 * length ts' \<le> n + 7 * length ts
     \<and> (tight (unat t + 2 ^ n * leb_val ts) (n + 7 * length ts)
        \<longrightarrow> tight (unat t + 2 ^ n * leb_val ts) (n' + 7 * length ts'))"

lemma drop_bit_and_1:
  fixes t :: "'a::len word"
  shows "drop_bit n t AND 1 = 0 \<longleftrightarrow> \<not> bit t n"
  by (simp add: and_one_eq even_drop_bit_iff_not_bit flip: even_iff_mod_2_eq_zero)

lemma trim_bits_spec:
  fixes t :: "'a::len word"
  assumes "unat t < 2 ^ n"
  shows "unat t < 2 ^ trim_bits n t \<and> (trim_bits n t = 0 \<or> 2 ^ (trim_bits n t - 1) \<le> unat t)"
  using assms
proof (induction n)
  case 0
  then show ?case by simp
next
  case (Suc n)
  have bit: "bit t n \<longleftrightarrow> odd (unat t div 2 ^ n)"
    using bit_unsigned_iff [of t n, where 'a = nat] by (simp add: bit_iff_odd [of "unat t"])
  show ?case
  proof (cases "bit t n")
    case True
    then have "unat t div 2 ^ n \<noteq> 0" using bit by (metis even_zero)
    then have "2 ^ n \<le> unat t" by (metis div_less not_less)
    with True Suc.prems show ?thesis by (simp add: drop_bit_and_1)
  next
    case False
    have "unat t div 2 ^ n < 2" using Suc.prems by (simp add: less_mult_imp_div_less)
    moreover have "q = 0" if "even q" "q < 2" for q :: nat using that by presburger
    ultimately have "unat t div 2 ^ n = 0" using False bit by blast
    then have "unat t < 2 ^ n" by (simp add: div_eq_0_iff)
    with False Suc.IH show ?thesis by (simp add: drop_bit_and_1)
  qed
qed

lemma sleb_fill_spec:
  assumes "leb_pending p ts" "unat t < 2 ^ n" "n < 37"
  shows "\<exists>n' t' p' ts'. sleb_fill n t p (ts @ rest) = (n', t', p', ts' @ rest) \<and> fill_ok n t ts n' t' p' ts'"
  using assms
proof (induction ts arbitrary: p n t)
  case Nil
  then show ?case by (cases rest) (auto simp: leb_pending_Nil fill_ok_def)
next
  case (Cons b ts)
  show ?case
  proof (cases "n < 30")
    case True
    note step = temp_step [OF Cons.prems(2), of b]
    have n: "n + 7 < 64" "n + 7 < 37" using True by simp_all
    from Cons.IH [OF _ step(2) [OF n(1)] n(2), of b] Cons.prems(1) True
    show ?thesis
      by (simp add: leb_pending_Cons DIGIT_BITS_def fill_ok_def step(1) [OF n(1)] leb_val_step
          add.assoc)
  next
    case False
    then show ?thesis using Cons.prems by (simp add: DIGIT_BITS_def fill_ok_def)
  qed
qed


lemma uleb_fill_spec:
  assumes "leb_pending p ts" "unat t < 2 ^ n" "n < 37"
  shows "\<exists>n' t' p' ts'. uleb_fill n t p (ts @ rest) = (n', t', p', ts' @ rest) \<and> fill_ok n t ts n' t' p' ts'"
  using assms
proof (induction ts arbitrary: p n t)
  case Nil
  then show ?case by (cases rest) (auto simp: leb_pending_Nil fill_ok_def)
next
  case (Cons b ts)
  show ?case
  proof (cases "n < 30")
    case True
    define t1 where "t1 = t OR push_bit n (ucast (b AND 0x7f))"
    have n: "n + 7 < 64" "n + 7 < 37" using True by simp_all
    have t1: "unat t1 = unat t + 2 ^ n * (unat b mod 128)" "unat t1 < 2 ^ (n + 7)"
      using temp_step [OF Cons.prems(2) n(1), of b] by (simp_all add: t1_def)
    show ?thesis
    proof (cases "b AND 0x80 = 0")
      case b: True
      then have "ts = []" using Cons.prems(1) by (simp add: leb_pending_def split: if_splits)
      then have "uleb_fill n t p (b # ts @ rest) = (trim_bits (n + 7) t1, t1, b, [] @ rest)"
        using True b Cons.prems(1)
        by (simp add: leb_pending_Cons DIGIT_BITS_def Let_def t1_def [symmetric] del: trim_bits.simps)
      moreover have "fill_ok n t (b # ts) (trim_bits (n + 7) t1) t1 b []"
      proof -
        have "2 ^ (trim_bits (n + 7) t1 - 7) \<le> unat t1" if "\<not> trim_bits (n + 7) t1 < 30"
        proof -
          have "(2 :: nat) ^ (trim_bits (n + 7) t1 - 7) \<le> 2 ^ (trim_bits (n + 7) t1 - 1)"
            by (intro power_increasing) simp_all
          also have "\<dots> \<le> unat t1" using trim_bits_spec [OF t1(2)] that by auto
          finally show ?thesis .
        qed
        then show ?thesis
          using trim_bits_spec [OF t1(2)] trim_bits_le [of "n + 7" t1] t1 n b \<open>ts = []\<close>
          by (auto simp: fill_ok_def leb_pending_Nil tight_def)
      qed
      ultimately show ?thesis by fastforce
    next
      case b: False
      from Cons.IH [OF _ t1(2) n(2), of b] Cons.prems(1) True b show ?thesis
        by (simp add: leb_pending_Cons DIGIT_BITS_def Let_def t1_def [symmetric] fill_ok_def t1(1)
            leb_val_step add.assoc)
    qed
  next
    case False
    then show ?thesis using Cons.prems by (simp add: DIGIT_BITS_def fill_ok_def)
  qed
qed

lemma leb_fill_spec:
  assumes "leb_pending p ts" "unat t < 2 ^ n" "n < 37"
  shows "\<exists>n' t' p' ts'. leb_fill s n t p (ts @ rest) = (n', t', p', ts' @ rest) \<and> fill_ok n t ts n' t' p' ts'"
  using sleb_fill_spec [OF assms] uleb_fill_spec [OF assms] by (simp add: leb_fill_def)

text \<open>What the outer loop returns for bytes of value \<open>V\<close> and \<open>N\<close> bits.\<close>

definition loop_ok :: "bool \<Rightarrow> nat \<Rightarrow> nat \<Rightarrow> digit list option \<Rightarrow> bool" where
  "loop_ok first V N r \<longleftrightarrow>
     (case r of
        None \<Rightarrow> first \<and> V = 0
      | Some ds \<Rightarrow> dval ds = V \<and> digits_ok ds \<and> (tight V N \<longrightarrow> ds = [] \<or> last ds \<noteq> 0)
                  \<and> 30 * length ds < N + 30)"

lemma loop_ok_digit:
  assumes "loop_ok False (V div BASE) (N - 30) (Some ds)" "30 \<le> N"
    and d: "unat d = V mod BASE"
  shows "loop_ok first V N (Some (d # ds))"
proof -
  have ds: "dval ds = V div BASE" "digits_ok ds" "30 * length ds < N"
    using assms(1,2) by (simp_all add: loop_ok_def)
  have "last (d # ds) \<noteq> 0" if "tight V N"
  proof (cases "ds = []")
    case True
    then have "V div BASE = 0" using ds(1) by simp
    then have "unat d = V" by (simp add: d div_eq_0_iff)
    moreover have "V \<noteq> 0" using that assms(2) by (cases "V = 0") (simp_all add: tight_def)
    ultimately show ?thesis using True by auto
  next
    case False
    have "2 ^ (N - 30 - 7) \<le> V div BASE" if "\<not> N - 30 < 30"
    proof -
      have "N - 7 = (N - 30 - 7) + DIGIT_BITS" using that by (simp add: DIGIT_BITS_def)
      then have "(2 :: nat) ^ (N - 7) = 2 ^ (N - 30 - 7) * BASE"
        by (simp only: power_add BASE_def)
      then have "2 ^ (N - 30 - 7) * BASE \<le> V" using \<open>tight V N\<close> assms(2) by (simp add: tight_def)
      then show ?thesis by (simp add: less_eq_div_iff_mult_less_eq)
    qed
    then have "tight (V div BASE) (N - 30)" by (auto simp: tight_def)
    then show ?thesis using assms(1) False by (simp add: loop_ok_def)
  qed
  then show ?thesis using ds d assms(2) by (simp add: loop_ok_def)
qed


lemma leb_loop_spec:
  assumes "leb_pending p ts" "unat t < 2 ^ n" "n < 37"
  shows "\<exists>r. leb_loop s first n t p (ts @ rest) = (r, rest)
          \<and> loop_ok first (unat t + 2 ^ n * leb_val ts) (n + 7 * length ts) r"
  using assms
proof (induction "n + 7 * length ts" arbitrary: first n t p ts rule: less_induct)
  case less
  define V where "V = unat t + 2 ^ n * leb_val ts"
  define N where "N = n + 7 * length ts"
  obtain n' t' p' ts' where fill: "leb_fill s n t p (ts @ rest) = (n', t', p', ts' @ rest)"
    and ok: "fill_ok n t ts n' t' p' ts'"
    using leb_fill_spec [OF less.prems, of s rest] by blast
  have V: "unat t' + 2 ^ n' * leb_val ts' = V" and t': "unat t' < 2 ^ n'" and n': "n' < 37"
    and p': "leb_pending p' ts'" and N': "n' + 7 * length ts' \<le> N"
    and tight: "tight V N \<Longrightarrow> tight V (n' + 7 * length ts')"
    using ok by (simp_all add: fill_ok_def V_def N_def)
  have weaken: "loop_ok first V N r" if "loop_ok first V (n' + 7 * length ts') r" for r
    using that N' tight by (auto simp: loop_ok_def split: option.splits)
  show ?case
  proof (cases "30 \<le> n'")
    case True
    let ?t = "drop_bit DIGIT_BITS t'"
    have t: "unat ?t = unat t' div BASE" by (simp add: word_nat)
    have "n' = DIGIT_BITS + (n' - 30)" using True by (simp add: DIGIT_BITS_def)
    then have pw: "(2 :: nat) ^ n' = BASE * 2 ^ (n' - 30)" by (metis power_add BASE_def)
    have lt: "unat ?t < 2 ^ (n' - 30)"
      unfolding t using t' by (intro less_mult_imp_div_less) (simp add: pw mult.commute)
    have Vd: "unat ?t + 2 ^ (n' - 30) * leb_val ts' = V div BASE" "V mod BASE = unat t' mod BASE"
      unfolding V [symmetric] pw t by (simp_all add: mult.assoc)
    have small: "n' - 30 < 37" using n' by linarith
    have less: "n' - 30 + 7 * length ts' < n + 7 * length ts" using True N' by (simp add: N_def)
    obtain r where r: "leb_loop s False (n' - 30) ?t p' (ts' @ rest) = (r, rest)"
      and r_ok: "loop_ok False (V div BASE) (n' - 30 + 7 * length ts') r"
      using less.hyps [OF less p' lt small, of False] by (auto simp: Vd)
    obtain ds where ds: "r = Some ds" using r_ok by (auto simp: loop_ok_def split: option.splits)
    have "unat (ucast t' AND DIGIT_MASK :: digit) = V mod BASE"
      unfolding Vd(2) by (simp add: word_nat BASE_num mod_mod_cancel)
    from loop_ok_digit [OF _ _ this, of "n' + 7 * length ts'" ds first] r_ok True
    have "loop_ok first V (n' + 7 * length ts') (Some ((ucast t' AND DIGIT_MASK) # ds))"
      by (simp add: ds)
    from weaken [OF this] have "loop_ok first V N (Some ((ucast t' AND DIGIT_MASK) # ds))" .
    moreover have "leb_loop s first n t p (ts @ rest) = (Some ((ucast t' AND DIGIT_MASK) # ds), rest)"
      by (subst leb_loop.simps) (use True r in \<open>simp add: fill ds DIGIT_BITS_def\<close>)
    ultimately show ?thesis by (simp add: V_def N_def)
  next
    case False
    then have ts': "ts' = []" and Vt: "V = unat t'" using ok V by (auto simp: fill_ok_def)
    have "unat t' < 2 ^ 30" using t' False by (metis less_le_trans nat_le_linear one_le_numeral power_increasing)
    then have u: "unat (ucast t' :: digit) = unat t'" by (intro unat_ucast_digit) (simp add: BASE_num)
    then have z: "ucast t' = (0 :: digit) \<longleftrightarrow> t' = 0" by (metis unsigned_0 word_unat_eq_iff)
    define r :: "digit list option" where "r = (if n' = 0 then (if first then None else Some [])
        else Some (if ucast t' = (0 :: digit) then [] else [ucast t']))"
    have "loop_ok first V n' r"
      using False t' \<open>unat t' < 2 ^ 30\<close> u z by (auto simp: r_def loop_ok_def Vt BASE_num)
    then have "loop_ok first V N r" using weaken by (simp add: ts')
    moreover have "leb_loop s first n t p (ts @ rest) = (r, rest)"
      using False by (subst leb_loop.simps) (simp add: fill ts' DIGIT_BITS_def r_def)
    ultimately show ?thesis by (simp add: V_def N_def)
  qed
qed


text \<open>\<open>holds x k ok\<close>: the object \<open>x\<close> is in memory, has the value \<open>k\<close>, and is normalized if \<open>ok\<close>.\<close>

definition holds :: "DeeInt \<Rightarrow> int \<Rightarrow> bool \<Rightarrow> bool" where
  "holds x k ok \<longleftrightarrow> int_mem x \<and> int_val x = k \<and> (ok \<longrightarrow> int_ok x)"

lemma holds_True: "holds x k True \<longleftrightarrow> represents x k"
  by (auto simp: holds_def represents_def)

lemma represents_holds: "represents x k \<Longrightarrow> holds x k ok"
  by (simp add: holds_def represents_def)

lemma loop_ok_holds:
  assumes "loop_ok first V N r"
  shows "holds (case r of None \<Rightarrow> DeeInt_Zero | Some ds \<Rightarrow> DeeInt_Alloc ds) (int V) (tight V N)"
  using assms represents_Zero
  by (auto simp: loop_ok_def holds_def represents_def int_ok_def split: option.splits)

lemma holds_negate: "holds x k ok \<Longrightarrow> holds (negate_size x) (- k) ok"
  by (simp add: holds_def)

lemma leb_digits_one: "0 < n \<Longrightarrow> leb_digits n = 1 \<longleftrightarrow> n \<le> 4"
  by (auto simp: leb_digits_def DIGIT_BITS_def)

text \<open>
  A sequence without a zero byte on top gives a normalized object, in ULEB and (with six bits in
  the first byte) in SLEB.
\<close>

lemma leb_val_lower: "ts \<noteq> [] \<Longrightarrow> leb_seq ts \<Longrightarrow> last ts \<noteq> 0 \<Longrightarrow> 2 ^ (7 * length ts - 7) \<le> leb_val ts"
proof (induction ts)
  case Nil
  then show ?case by simp
next
  case (Cons b ts)
  show ?case
  proof (cases "ts = []")
    case True
    then have "b AND 0x80 = 0" "b \<noteq> 0" using Cons.prems by (auto split: if_splits)
    moreover have "b AND 0x80 \<noteq> 0" if "unat b mod 128 = 0" "b \<noteq> 0"
    proof -
      have "unat b < 2 ^ LENGTH(8)" by (rule unsigned_less)
      then have "unat b = 0 \<or> unat b = 128" using that(1) by simp presburger
      then have "b = 0x80" using that(2) by (auto simp: word_unat_eq_iff)
      then show ?thesis by simp
    qed
    ultimately show ?thesis using True by (auto simp: Suc_le_eq)
  next
    case False
    then have "leb_seq ts" "last ts \<noteq> 0" using Cons.prems by (simp_all split: if_splits)
    with Cons.IH False have "2 ^ (7 * length ts - 7) \<le> leb_val ts" by simp
    then have "128 * 2 ^ (7 * length ts - 7) \<le> 128 * leb_val ts" by (rule mult_le_mono2)
    moreover have "128 * 2 ^ (7 * length ts - 7) = (2 :: nat) ^ (7 * length (b # ts) - 7)"
    proof -
      have "7 * length (b # ts) - 7 = 7 + (7 * length ts - 7)" using False by (cases ts) simp_all
      then show ?thesis by (simp only: power_add) simp
    qed
    ultimately show ?thesis by simp
  qed
qed


lemma NewUleb_spec:
  assumes "leb_seq bs"
  shows "\<exists>y. DeeInt_NewUleb (bs @ rest) = Some (y, rest)
           \<and> holds y (int (leb_val bs)) (length bs \<le> 4 \<or> last bs \<noteq> 0)"
proof -
  obtain b ts where bs: "bs = b # ts" and p: "leb_pending b ts" using leb_seq_split [OF assms] by blast
  define t0 :: twodigits where "t0 = ucast (b AND 0x7f)"
  have t0: "unat t0 = unat b mod 128" "unat t0 < 2 ^ 7"
    by (simp_all add: t0_def unat_byte_twodigits leb_masks)
  have V: "unat t0 + 2 ^ 7 * leb_val ts = leb_val bs" by (simp add: bs t0)
  show ?thesis
  proof (cases "length bs \<le> 4")
    case True
    then have "7 + 7 * length ts < 64" by (simp add: bs)
    from leb_small_spec [OF p t0(2) this, of rest, unfolded V]
    obtain t where "leb_small 7 t0 b (ts @ rest) = (t, rest)" "unat t = leb_val bs" by auto
    moreover from this have "holds (DeeInt_NewUInt64 t) (int (leb_val bs)) ok" for ok
      using represents_holds [OF represents_NewUInt64 [of t]] by (metis unat_eq_nat_uint int_nat_eq uint_nonnegative)
    ultimately show ?thesis
      using True leb_digits_one [of "length bs"] leb_length_seq [OF assms, of rest] bs
      by (simp add: DeeInt_NewUleb_def t0_def)
  next
    case False
    obtain r where r: "leb_loop False True 7 t0 b (ts @ rest) = (r, rest)"
      and ok: "loop_ok True (leb_val bs) (7 + 7 * length ts) r"
      using leb_loop_spec [OF p t0(2), of False True rest, unfolded V] by auto
    have "tight (leb_val bs) (7 + 7 * length ts)" if "last bs \<noteq> 0"
      using leb_val_lower [OF _ assms that] by (simp add: bs tight_def)
    then have "holds (case r of None \<Rightarrow> DeeInt_Zero | Some ds \<Rightarrow> DeeInt_Alloc ds)
        (int (leb_val bs)) (length bs \<le> 4 \<or> last bs \<noteq> 0)"
      using loop_ok_holds [OF ok] False by (auto simp: holds_def)
    moreover have "leb_digits (length bs) \<noteq> 1" using leb_digits_one [of "length bs"] False bs by simp
    ultimately show ?thesis
      using r leb_length_seq [OF assms, of rest] by (simp add: DeeInt_NewUleb_def bs t0_def)
  qed
qed

lemma NewSleb_spec:
  assumes "leb_seq bs"
  shows "\<exists>y. DeeInt_NewSleb (bs @ rest) = Some (y, rest)
           \<and> holds y (sleb_val bs) (length bs \<le> 4 \<or> last bs \<noteq> 0)"
proof -
  obtain b ts where bs: "bs = b # ts" and p: "leb_pending b ts" using leb_seq_split [OF assms] by blast
  define t0 :: twodigits where "t0 = ucast (b AND 0x3f)"
  have t0: "unat t0 = unat b mod 64" "unat t0 < 2 ^ 6"
    by (simp_all add: t0_def unat_byte_twodigits leb_masks)
  have V: "unat t0 + 2 ^ 6 * leb_val ts = sleb_mag bs" by (simp add: bs t0 sleb_mag_def)
  show ?thesis
  proof (cases "length bs \<le> 4")
    case True
    then have "6 + 7 * length ts < 64" by (simp add: bs)
    from leb_small_spec [OF p t0(2) this, of rest, unfolded V]
    obtain t where t: "leb_small 6 t0 b (ts @ rest) = (t, rest)" "unat t = sleb_mag bs"
      and lt: "unat t < 2 ^ (6 + 7 * length ts)" by auto
    have "(2 :: nat) ^ (6 + 7 * length ts) \<le> 2 ^ 27" using True bs by (intro power_increasing) simp_all
    with lt have lt63: "unat t < 2 ^ (LENGTH(64) - 1)" by simp
    then have s: "sint t = int (sleb_mag bs)" using sint_small [of t] t(2) by simp
    have "int (sleb_mag bs) < 2 ^ 63" using lt63 t(2) by simp
    then have "sint (- t) = - int (sleb_mag bs)"
      using sint_minus_range [of t] unfolding s by simp
    then have h: "holds (DeeInt_NewInt64 (- t)) (- int (sleb_mag bs)) ok" for ok
      using represents_holds [OF represents_NewInt64 [of "- t"]] by metis
    have "holds (DeeInt_NewUInt64 t) (int (sleb_mag bs)) ok" for ok
      using represents_holds [OF represents_NewUInt64 [of t]] t(2)
      by (metis unat_eq_nat_uint int_nat_eq uint_nonnegative)
    then show ?thesis
      using True leb_digits_one [of "length bs"] leb_length_seq [OF assms, of rest] t(1) h bs
      by (simp add: DeeInt_NewSleb_def t0_def sleb_val_def)
  next
    case False
    obtain r where r: "leb_loop True True 6 t0 b (ts @ rest) = (r, rest)"
      and ok: "loop_ok True (sleb_mag bs) (6 + 7 * length ts) r"
      using leb_loop_spec [OF p t0(2), of True True rest, unfolded V] by auto
    have "tight (sleb_mag bs) (6 + 7 * length ts)" if "last bs \<noteq> 0"
    proof -
      have ts: "ts \<noteq> []" "leb_seq ts" using False assms bs by (auto split: if_splits)
      have "64 * 2 ^ (7 * length ts - 7) \<le> sleb_mag bs"
        using leb_val_lower [OF ts] that ts bs by (simp add: sleb_mag_def)
      moreover have "6 + 7 * length ts - 7 = 6 + (7 * length ts - 7)" using ts by (cases ts) simp_all
      ultimately show ?thesis by (simp only: tight_def power_add) simp
    qed
    then have h: "holds (case r of None \<Rightarrow> DeeInt_Zero | Some ds \<Rightarrow> DeeInt_Alloc ds)
        (int (sleb_mag bs)) (length bs \<le> 4 \<or> last bs \<noteq> 0)"
      using loop_ok_holds [OF ok] False by (auto simp: holds_def)
    have z: "sleb_mag bs = 0" if "r = None" using ok that by (simp add: loop_ok_def)
    have "leb_digits (length bs) \<noteq> 1" using leb_digits_one [of "length bs"] False bs by simp
    then show ?thesis
      using r leb_length_seq [OF assms, of rest] h z holds_negate [OF h]
      by (cases r) (simp_all add: DeeInt_NewSleb_def bs t0_def sleb_val_def)
  qed
qed


section \<open>The writers\<close>

text \<open>
  What a writer that has written \<open>dst\<close> and still has the value \<open>V\<close> to write must leave.
\<close>

definition leb_finish :: "u8 list \<Rightarrow> nat \<Rightarrow> u8 list" where
  "leb_finish dst V =
     (if V = 0 then let dst = (if dst = [] then [0] else dst) in butlast dst @ [last dst AND 0x7f]
      else dst @ uleb_enc V)"

lemma leb_finish_Nil: "leb_finish [] V = uleb_enc V"
  by (simp add: leb_finish_def uleb_enc.simps [of 0])

lemma clear_cont:
  fixes x :: u8
  assumes "unat x < 128"
  shows "(0x80 OR x) AND 0x7f = x"
  using assms by (simp add: word_unat_eq_iff leb_masks unat_cont_or)

lemma leb_finish_step:
  assumes "0 < V"
  shows "leb_finish (dst @ [0x80 OR of_nat (V mod 128)]) (V div 128) = leb_finish dst V"
proof (cases "V < 128")
  case True
  then have "unat (of_nat V :: u8) < 128" by (simp add: unat_of_nat)
  then show ?thesis using True assms
    by (simp add: leb_finish_def uleb_enc.simps [of V] clear_cont)
next
  case False
  then show ?thesis by (simp add: leb_finish_def uleb_enc.simps [of V] div_eq_0_iff)
qed

text \<open>Either digits are left to be read or the top bit held is set.\<close>

definition top_set :: "nat \<Rightarrow> nat \<Rightarrow> nat \<Rightarrow> bool" where
  "top_set n t S \<longleftrightarrow> n = 0 \<or> 0 < S \<or> 2 ^ (n - 1) \<le> t"

lemma top_set_pos: "top_set n t S \<Longrightarrow> 0 < n \<Longrightarrow> 0 < t + 2 ^ n * (S :: nat)"
  by (auto simp: top_set_def intro: less_le_trans [of 0 "2 ^ (n - 1)"])

lemma flush7_spec:
  assumes "unat t < 2 ^ n" "top_set n (unat t) S" "flush7 n t = (bs, n', t')"
  shows "leb_finish (dst @ bs) (unat t' + 2 ^ n' * S) = leb_finish dst (unat t + 2 ^ n * S)
    \<and> unat t' < 2 ^ n' \<and> top_set n' (unat t') S"
  using assms
proof (induction n t arbitrary: dst bs n' t' rule: flush7.induct)
  case (1 n t)
  show ?case
  proof (cases "7 \<le> n")
    case False
    then show ?thesis using "1.prems" by (subst (asm) flush7.simps) simp
  next
    case True
    let ?V = "unat t + 2 ^ n * S"
    have pw: "(2 :: nat) ^ n = 128 * 2 ^ (n - 7)"
      using power_add [of "2 :: nat" 7 "n - 7"] True by simp
    have d: "unat (drop_bit 7 t) = unat t div 128" by (simp add: word_nat)
    obtain bs' where rec: "flush7 (n - 7) (drop_bit 7 t) = (bs', n', t')"
      and bs: "bs = (0x80 OR (ucast t AND 0x7f)) # bs'"
      using "1.prems"(3) True by (subst (asm) flush7.simps) (auto split: prod.splits)
    have lt: "unat (drop_bit 7 t) < 2 ^ (n - 7)"
      unfolding d using "1.prems"(1) by (intro less_mult_imp_div_less) (simp add: pw mult.commute)
    have top: "top_set (n - 7) (unat (drop_bit 7 t)) S"
    proof (cases "n = 7 \<or> 0 < S")
      case False
      then have "n - 1 = 7 + (n - 7 - 1)" "2 ^ (n - 1) \<le> unat t"
        using True "1.prems"(2) by (auto simp: top_set_def)
      then have "2 ^ (n - 7 - 1) * 128 \<le> unat t" by (simp only: power_add) simp
      then show ?thesis unfolding d by (simp add: top_set_def less_eq_div_iff_mult_less_eq)
    qed (auto simp: top_set_def)
    have V: "?V div 128 = unat (drop_bit 7 t) + 2 ^ (n - 7) * S" "?V mod 128 = unat t mod 128"
      by (simp_all add: pw d mult.assoc)
    have "unat (ucast t AND 0x7f :: u8) = unat t mod 128"
      by (simp add: leb_masks word_nat mod_mod_cancel)
    then have b: "ucast t AND 0x7f = (of_nat (?V mod 128) :: u8)"
      unfolding V(2) by (simp add: word_unat_eq_iff unat_of_nat)
    have "leb_finish (dst @ bs) (unat t' + 2 ^ n' * S)
        = leb_finish (dst @ [0x80 OR of_nat (?V mod 128)]) (?V div 128)"
      using "1.IH" [OF True lt top rec, of "dst @ [0x80 OR of_nat (?V mod 128)]"]
      by (simp add: bs b V(1))
    also have "\<dots> = leb_finish dst ?V"
      using top_set_pos [OF "1.prems"(2)] True by (intro leb_finish_step) simp
    finally show ?thesis using "1.IH" [OF True lt top rec] by simp
  qed
qed


lemma leb_next_spec:
  assumes "unat t < 2 ^ n" "n \<le> 30" "digits_ok src" "src \<noteq> [] \<longrightarrow> last src \<noteq> 0"
    and "src = [] \<longrightarrow> n = 0 \<or> 2 ^ (n - 1) \<le> unat t" "leb_next n t src = (n', t', src')"
  shows "unat t' + 2 ^ n' * dval src' = unat t + 2 ^ n * dval src"
    and "unat t' < 2 ^ n'" "n' \<le> 37" "top_set n' (unat t') (dval src')" "n' < 7 \<Longrightarrow> src' = []"
    and "digits_ok src'" "src' \<noteq> [] \<longrightarrow> last src' \<noteq> 0"
    and "src' = [] \<longrightarrow> n' = 0 \<or> 2 ^ (n' - 1) \<le> unat t'"
proof -
  have pos: "0 < dval ds" if "ds \<noteq> []" "last ds \<noteq> 0" for ds
    using dval_lower [OF that] by (metis BASE_pos(1) less_le_trans zero_less_power)
  have "unat t' + 2 ^ n' * dval src' = unat t + 2 ^ n * dval src \<and> unat t' < 2 ^ n' \<and> n' \<le> 37
      \<and> (n' < 7 \<longrightarrow> src' = []) \<and> digits_ok src' \<and> (src' \<noteq> [] \<longrightarrow> last src' \<noteq> 0)
      \<and> (src' = [] \<longrightarrow> n' = 0 \<or> 2 ^ (n' - 1) \<le> unat t')"
  proof (cases "src = [] \<or> 7 \<le> n")
    case True
    then have "n' = n \<and> t' = t \<and> src' = src"
      using assms(6) by (cases src) (auto simp: leb_next_def)
    then show ?thesis using assms True by auto
  next
    case False
    then obtain d ds where src: "src = d # ds" by (cases src) auto
    define t1 where "t1 = t OR push_bit n (ucast d)"
    have d: "unat (ucast d :: twodigits) = unat d" by (rule unat_ucast_up) simp
    have db: "unat d < BASE" using assms(3) src by simp
    have "unat d * 2 ^ n < BASE * 2 ^ n" using db by simp
    also have "\<dots> = 2 ^ (n + 30)" by (simp add: BASE_num power_add)
    finally have lt: "unat d * 2 ^ n < 2 ^ (n + 30)" .
    also have "\<dots> \<le> (2 :: nat) ^ LENGTH(64)" using False by (intro power_increasing) simp_all
    finally have t1: "unat t1 = unat t + 2 ^ n * unat d"
      unfolding t1_def using unat_or_shifted [OF assms(1), of "ucast d"] d
      by (simp add: or.commute [of t] mult.commute)
    have "unat t + 2 ^ n * unat d < 2 ^ n + 2 ^ n * (BASE - 1)"
      using assms(1) db by (intro add_less_le_mono mult_le_mono2) simp_all
    also have "\<dots> = 2 ^ (n + 30)" by (simp add: BASE_num power_add)
    finally have lt1: "unat t1 < 2 ^ (n + 30)" by (simp add: t1)
    have "(n', t', src') = (if ds = [] then trim_bits (n + 30) t1 else n + 30, t1, ds)"
      using assms(6) False src by (cases "ds = []") (auto simp: leb_next_def Let_def t1_def DIGIT_BITS_def simp del: trim_bits.simps)
    then show ?thesis
      using trim_bits_spec [OF lt1] trim_bits_le [of "n + 30" t1] lt1 t1 assms False src
      by (cases "ds = []") (simp_all add: power_add BASE_num algebra_simps)
  qed
  note c = this
  show "unat t' + 2 ^ n' * dval src' = unat t + 2 ^ n * dval src" "unat t' < 2 ^ n'" "n' \<le> 37"
    "n' < 7 \<Longrightarrow> src' = []" "digits_ok src'" "src' \<noteq> [] \<longrightarrow> last src' \<noteq> 0"
    "src' = [] \<longrightarrow> n' = 0 \<or> 2 ^ (n' - 1) \<le> unat t'"
    using c by blast+
  show "top_set n' (unat t') (dval src')"
    using c pos [of src'] by (auto simp: top_set_def)
qed

lemma leb_write_spec:
  assumes "unat t < 2 ^ n" "n \<le> 30" "digits_ok src" "src \<noteq> [] \<longrightarrow> last src \<noteq> 0"
    and "src = [] \<longrightarrow> n = 0 \<or> 2 ^ (n - 1) \<le> unat t"
  shows "leb_write dst n t src = leb_finish dst (unat t + 2 ^ n * dval src)"
  using assms
proof (induction dst n t src rule: leb_write.induct)
  case (1 dst n t src)
  obtain n1 t1 src1 where nx: "leb_next n t src = (n1, t1, src1)" by (metis prod_cases3)
  note nexts = leb_next_spec [OF "1.prems" nx]
  show ?case
  proof (cases "7 \<le> n1")
    case True
    obtain bs n2 t2 where fl: "flush7 n1 t1 = (bs, n2, t2)" by (metis prod_cases3)
    note flush = flush7_spec [OF nexts(2,4) fl]
    have n2: "n2 < 7" using flush7_less [OF fl True] by simp
    have "leb_write (dst @ bs) n2 t2 src1 = leb_finish (dst @ bs) (unat t2 + 2 ^ n2 * dval src1)"
    proof (rule "1.IH" [OF nx [symmetric] refl refl True fl [symmetric] refl refl])
      show "src1 = [] \<longrightarrow> n2 = 0 \<or> 2 ^ (n2 - 1) \<le> unat t2"
        using flush [of dst] by (auto simp: top_set_def)
    qed (use flush nexts n2 in auto)
    then show ?thesis
      using True flush [of dst] nexts(1) by (subst leb_write.simps) (simp add: nx fl)
  next
    case False
    then have src1: "src1 = []" using nexts(5) by simp
    then have V: "unat t + 2 ^ n * dval src = unat t1" using nexts(1) by simp
    show ?thesis
    proof (cases "n1 = 0")
      case True
      then show ?thesis using nexts(2) V
        by (subst leb_write.simps) (simp add: nx leb_finish_def)
    next
      case n1: False
      have "(2 :: nat) ^ n1 \<le> 2 ^ 7" using False by (intro power_increasing) simp_all
      then have lt: "unat t1 < 128" using nexts(2) by simp
      have "(2 :: nat) ^ (n1 - 1) \<le> unat t1" using nexts(8) src1 n1 by simp
      then have pos: "unat t1 \<noteq> 0" by (metis le_zero_eq power_eq_0_iff zero_neq_numeral)
      have "ucast t1 = (of_nat (unat t1) :: u8)" by (simp add: word_unat_eq_iff unat_ucast_word unat_of_nat)
      then show ?thesis using lt pos V False n1
        by (subst leb_write.simps) (simp add: nx leb_finish_def uleb_enc.simps [of "unat t1"])
    qed
  qed
qed


text \<open>The writers produce the reference encodings.\<close>

lemma int_ok_digits_last: "int_ok x \<Longrightarrow> digits_ok (digits x) \<and> (digits x \<noteq> [] \<longrightarrow> last (digits x) \<noteq> 0)"
  by (simp add: int_ok_def int_mem_def)

lemma leb_write_enc: "int_ok x \<Longrightarrow> leb_write [] 0 0 (digits x) = uleb_enc (int_mag x)"
  using int_ok_digits_last [of x] by (simp add: leb_write_spec leb_finish_Nil int_mag_def)

lemma GetUleb_enc: "int_ok x \<Longrightarrow> DeeInt_GetUleb x = uleb_enc (int_mag x)"
  by (simp add: DeeInt_GetUleb_def leb_write_enc)

lemma GetSleb_enc_nonneg: "int_ok x \<Longrightarrow> 0 \<le> ob_size x \<Longrightarrow> DeeInt_GetSleb x = uleb_enc (int_mag x)"
  by (simp add: DeeInt_GetSleb_def leb_write_enc)

lemma GetSleb_enc_neg:
  assumes "int_ok x" "ob_size x < 0"
  shows "DeeInt_GetSleb x = sleb_enc (int_mag x)"
proof -
  obtain d ds where x: "digits x = d # ds"
    using assms length_digits [of x] by (cases "digits x") auto
  have ok: "digits_ok (d # ds)" "last (d # ds) \<noteq> 0" using int_ok_digits_last [OF assms(1)] x by auto
  define t :: twodigits where "t = ucast d"
  have t: "unat t = unat d" unfolding t_def by (rule unat_ucast_up) simp
  have lt: "unat t < 2 ^ 30" using ok(1) by (simp add: t BASE_num)
  have mag: "int_mag x = unat t + 2 ^ 30 * dval ds" by (simp add: int_mag_def x t BASE_num)
  define n where "n = (if ds = [] then trim_bits 30 t else 30)"
  have n: "n \<le> 30" "unat t < 2 ^ n" "ds = [] \<longrightarrow> n = 0 \<or> 2 ^ (n - 1) \<le> unat t"
    using trim_bits_spec [OF lt] trim_bits_le [of 30 t] lt by (auto simp: n_def simp del: trim_bits.simps)
  have Get: "DeeInt_GetSleb x = (if ds = [] \<and> n \<le> 6 then [0x40 OR ucast t]
      else leb_write [0x80 OR 0x40 OR (ucast t AND 0x3f)] (n - 6) (drop_bit 6 t) ds)"
    using assms(2) by (simp add: DeeInt_GetSleb_def x t_def n_def DIGIT_BITS_def Let_def del: trim_bits.simps)
  show ?thesis
  proof (cases "ds = [] \<and> n \<le> 6")
    case True
    then have "(2 :: nat) ^ n \<le> 2 ^ 6" by (intro power_increasing) simp_all
    then have "unat t < 64" using n(2) by simp
    moreover have "(ucast t :: u8) = of_nat (unat t)"
      by (simp add: word_unat_eq_iff unat_ucast_word unat_of_nat)
    ultimately show ?thesis using True by (simp add: Get sleb_enc_def mag)
  next
    case False
    have n6: "6 < n" using False by (auto simp: n_def)
    have pw: "(2 :: nat) ^ n = 64 * 2 ^ (n - 6)" using power_add [of "2 :: nat" 6 "n - 6"] n6 by simp
    have d: "unat (drop_bit 6 t) = unat t div 64" by (simp add: word_nat)
    have lt6: "unat (drop_bit 6 t) < 2 ^ (n - 6)"
      unfolding d using n(2) by (intro less_mult_imp_div_less) (simp add: pw mult.commute)
    have top: "ds = [] \<longrightarrow> n - 6 = 0 \<or> 2 ^ (n - 6 - 1) \<le> unat (drop_bit 6 t)"
    proof
      assume ds: "ds = []"
      have "n - 1 = 6 + (n - 6 - 1)" using n6 by simp
      then have "2 ^ (n - 6 - 1) * 64 \<le> unat t" using n(3) ds n6 by (simp only: power_add) simp
      then show "n - 6 = 0 \<or> 2 ^ (n - 6 - 1) \<le> unat (drop_bit 6 t)"
        unfolding d by (simp add: less_eq_div_iff_mult_less_eq)
    qed
    let ?V = "unat (drop_bit 6 t) + 2 ^ (n - 6) * dval ds"
    have V: "?V = int_mag x div 64" "int_mag x mod 64 = unat t mod 64"
      using mod_mult_self2 [of "unat t" 64 "16777216 * dval ds"]
      by (cases "ds = []", simp_all add: mag d n_def)
    have "top_set (n - 6) (unat (drop_bit 6 t)) (dval ds)"
      using top dval_lower [of ds] ok(2)
      by (cases "ds = []") (auto simp: top_set_def intro: less_le_trans [of 0 "BASE ^ (length ds - 1)"])
    then have "0 < ?V" using n6 by (intro top_set_pos) simp_all
    then have "64 \<le> int_mag x" unfolding V by (simp add: div_greater_zero_iff)
    have "unat (ucast t AND 0x3f :: u8) = unat t mod 64"
      by (simp add: leb_masks word_nat mod_mod_cancel)
    then have b: "ucast t AND 0x3f = (of_nat (int_mag x mod 64) :: u8)"
      unfolding V(2) by (simp add: word_unat_eq_iff unat_of_nat)
    have "leb_write [0x80 OR 0x40 OR (ucast t AND 0x3f)] (n - 6) (drop_bit 6 t) ds
        = leb_finish [0x80 OR 0x40 OR (ucast t AND 0x3f)] ?V"
      using ok n lt6 top by (intro leb_write_spec) auto
    then show ?thesis
      using False \<open>0 < ?V\<close> \<open>64 \<le> int_mag x\<close> by (simp only: Get sleb_enc_def leb_finish_def V b) simp
  qed
qed

lemma uleb_enc_length: "m < 2 ^ (7 * j) \<Longrightarrow> 0 < j \<Longrightarrow> length (uleb_enc m) \<le> j"
proof (induction j arbitrary: m)
  case 0
  then show ?case by simp
next
  case (Suc j)
  show ?case
  proof (cases "m < 128")
    case True
    then show ?thesis by (simp add: uleb_enc.simps [of m])
  next
    case False
    have j: "j \<noteq> 0" using False Suc.prems by (cases j) auto
    have "m < 2 ^ (7 * j) * 128" using Suc.prems(1) by (simp add: power_add)
    then have "m div 128 < 2 ^ (7 * j)" by (rule less_mult_imp_div_less)
    then show ?thesis using Suc.IH [of "m div 128"] False j by (simp add: uleb_enc.simps [of m])
  qed
qed


section \<open>Round trips\<close>

lemma uleb_enc_not_Nil [simp]: "uleb_enc m \<noteq> []"
  using leb_seq_enc [of m] by auto

lemma uleb_roundtrip:
  "\<exists>y. DeeInt_NewUleb (uleb_enc m @ rest) = Some (y, rest) \<and> represents y (int m)"
proof -
  have "length (uleb_enc m) \<le> 4 \<or> last (uleb_enc m) \<noteq> 0"
    using uleb_enc_last [of m] by (cases "m = 0") (simp_all add: uleb_enc.simps [of 0])
  then show ?thesis
    using NewUleb_spec [OF leb_seq_enc [of m], of rest] by (simp add: leb_val_enc holds_True)
qed

lemma or_bit6:
  fixes x :: u8
  assumes "unat x < 64"
  shows "unat (0x40 OR x) = 64 + unat x" "unat (0x80 OR 0x40 OR x) = 192 + unat x"
    "(0x40 OR x) AND 0x40 \<noteq> 0" "(0x80 OR 0x40 OR x) AND 0x40 \<noteq> 0"
proof -
  have x: "unat (take_bit 6 x) = unat x"
    using assms by (simp only: unsigned_take_bit_eq) (simp add: take_bit_eq_mod)
  then have t: "x = x AND 0x3f" by (simp add: word_unat_eq_iff leb_masks assms)
  have "x AND 0x40 = 0" by (subst t) (simp add: and.assoc)
  then have "unat (0x40 OR x) = unat (0x40 :: u8) + unat x"
    by (intro unat_or_disjoint) (simp add: and.commute)
  then show *: "unat (0x40 OR x) = 64 + unat x" by simp
  show "unat (0x80 OR 0x40 OR x) = 192 + unat x"
    using unat_cont_or [of "0x40 OR x"] assms by (simp add: * or.assoc)
  have "bit ((0x40 OR x) AND (0x40 :: u8)) 6" "bit ((0x80 OR 0x40 OR x) AND (0x40 :: u8)) 6"
    by (simp_all add: bit_simps)
  then show "(0x40 OR x) AND 0x40 \<noteq> 0" "(0x80 OR 0x40 OR x) AND 0x40 \<noteq> 0"
    by (metis bit_0_eq bot_apply bot_bool_def)+
qed

lemma sleb_enc_spec: "leb_seq (sleb_enc m) \<and> sleb_val (sleb_enc m) = - int m
    \<and> (length (sleb_enc m) \<le> 4 \<or> last (sleb_enc m) \<noteq> 0)"
proof (cases "m < 64")
  case True
  then have u: "unat (of_nat m :: u8) = m" by (simp add: unat_of_nat)
  have "(0x40 OR of_nat m :: u8) AND 0x80 = 0"
    using True u by (intro small_no_cont) (simp add: or_bit6)
  then show ?thesis using True u
    by (simp add: sleb_enc_def sleb_val_def sleb_mag_def or_bit6)
next
  case False
  have u: "unat (of_nat (m mod 64) :: u8) = m mod 64" by (simp add: unat_of_nat)
  have "leb_seq (sleb_enc m)" using False leb_seq_enc cont_or by (simp add: sleb_enc_def or.assoc)
  moreover have "last (sleb_enc m) \<noteq> 0" using False uleb_enc_last by (simp add: sleb_enc_def)
  moreover have "sleb_mag (sleb_enc m) = m"
    using False u or_bit6(2) [of "of_nat (m mod 64)"]
    by (simp add: sleb_enc_def sleb_mag_def leb_val_enc mod_add_eq [of 192 64, symmetric])
  ultimately show ?thesis
    using False u or_bit6(4) [of "of_nat (m mod 64)"] by (simp add: sleb_val_def) (simp add: sleb_enc_def)
qed

lemma mod128:
  fixes m :: nat
  shows "m mod 64 = (m mod 128) mod 64" "odd (m div 64) \<longleftrightarrow> odd ((m mod 128) div 64)"
proof -
  have "m mod 128 = 64 * (m div 64 mod 2) + m mod 64" using mod_mult2_eq [of m 64 2] by simp
  then have "(m mod 128) div 64 = m div 64 mod 2" by simp
  then show "odd (m div 64) \<longleftrightarrow> odd ((m mod 128) div 64)" by (simp add: odd_iff_mod_2_eq_one)
qed (simp add: mod_mod_cancel)

text \<open>What the signed reader makes of an unsigned encoding.\<close>

lemma sleb_val_uleb: "sleb_val (uleb_enc m)
    = (if odd (m div 64) then -1 else 1) * int (m mod 64 + 64 * (m div 128))"
proof -
  define b where "b = hd (uleb_enc m)"
  have b: "unat b mod 128 = m mod 128" and tl: "leb_val (tl (uleb_enc m)) = m div 128"
    by (cases "m < 128"; simp add: b_def uleb_enc.simps [of m] unat_of_nat unat_cont_or leb_val_enc)+
  have "b AND 0x40 \<noteq> 0 \<longleftrightarrow> bit b 6"
    using bit_iff_and_push_bit_not_eq_0 [of b 6] by simp
  also have "\<dots> \<longleftrightarrow> odd (unat b div 64)"
    using bit_unsigned_iff [of b 6, where 'a = nat] by (simp add: bit_iff_odd [of "unat b"])
  also have "\<dots> \<longleftrightarrow> odd (m div 64)" using b mod128 by metis
  finally have s: "b AND 0x40 \<noteq> 0 \<longleftrightarrow> odd (m div 64)" .
  have "unat b mod 64 = m mod 64" using b mod128 by metis
  then show ?thesis using s by (simp add: sleb_val_def sleb_mag_def b_def [symmetric] tl)
qed


lemma GetSleb_length:
  assumes "int_ok x"
  shows "length (DeeInt_GetSleb x) \<le> DeeInt_GetSlebMaxSize x"
proof -
  define k where "k = nat \<bar>ob_size x\<bar>"
  define j where "j = ((k + 1) * 30) div 7"
  have j: "30 * k + 17 \<le> 7 * j - 6" "0 < j" "DeeInt_GetSlebMaxSize x = j"
    by (auto simp: j_def k_def DeeInt_GetSlebMaxSize_def DIGIT_BITS_def)
  have "int_mag x < BASE ^ k" using assms by (simp add: k_def int_mag_bound)
  then have m: "int_mag x < 2 ^ (30 * k)" by (simp add: BASE_num power_mult)
  have up: "(2 :: nat) ^ (30 * k) \<le> 2 ^ n" if "30 * k \<le> n" for n
    using that by (intro power_increasing) simp_all
  show ?thesis
  proof (cases "ob_size x < 0")
    case False
    have "int_mag x < 2 ^ (7 * j)" by (rule less_le_trans [OF m up]) (use j in linarith)
    then show ?thesis
      using False uleb_enc_length [of "int_mag x" j] j GetSleb_enc_nonneg [OF assms] by simp
  next
    case True
    have "int_mag x < 2 ^ (7 * (j - 1))" by (rule less_le_trans [OF m up]) (use j in linarith)
    then have "int_mag x div 64 < 2 ^ (7 * (j - 1))" using div_le_dividend le_less_trans by blast
    moreover have "0 < j - 1" using j by linarith
    ultimately have "length (uleb_enc (int_mag x div 64)) \<le> j - 1" by (rule uleb_enc_length)
    then have "length (uleb_enc (int_mag x div 64)) + 1 \<le> j" using \<open>0 < j - 1\<close> by linarith
    then show ?thesis using j(3) GetSleb_enc_neg [OF assms True] by (simp add: sleb_enc_def)
  qed
qed

lemma sleb_roundtrip:
  assumes "int_ok x"
  shows "\<exists>y. DeeInt_NewSleb (DeeInt_GetSleb x @ rest) = Some (y, rest)
    \<and> represents y (if ob_size x < 0 then int_val x
                     else (if odd (int_mag x div 64) then -1 else 1)
                          * int (int_mag x mod 64 + 64 * (int_mag x div 128)))"
proof (cases "ob_size x < 0")
  case True
  show ?thesis
    using NewSleb_spec [of "sleb_enc (int_mag x)" rest] sleb_enc_spec [of "int_mag x"] True
    by (simp add: GetSleb_enc_neg [OF assms True] holds_True int_val_neg)
next
  case False
  have "length (uleb_enc (int_mag x)) \<le> 4 \<or> last (uleb_enc (int_mag x)) \<noteq> 0"
    using uleb_enc_last [of "int_mag x"] by (cases "int_mag x = 0") (simp_all add: uleb_enc.simps [of 0])
  then show ?thesis
    using NewSleb_spec [OF leb_seq_enc [of "int_mag x"], of rest] False GetSleb_enc_nonneg [OF assms]
    by (simp add: sleb_val_uleb holds_True)
qed

lemma sleb_uleb_small: "m < 64 \<Longrightarrow> m mod 64 + 64 * (m div 128) = (m :: nat) \<and> even (m div 64)"
  by simp

section \<open>Properties\<close>

lemma uleb_padded:
  "DeeInt_NewUleb [0x80, 0x80, 0x80, 0x80, 0x80, 0x80, 0]
     = Some (\<lparr>ob_size = 1, ob_digit = [0]\<rparr>, [])"
  by code_simp

lemma sleb_padded:
  "DeeInt_NewSleb [0x80, 0x80, 0x80, 0x80, 0x80, 0x80, 0] = Some (\<lparr>ob_size = 1, ob_digit = [0]\<rparr>, [])"
  by code_simp

text \<open>C23: reading and writing LEB data.

  Writing a non-negative integer in ULEB and reading it back gives a well-formed integer of its
  value, and the reader stops right behind it; the bytes written fit the size the macros announce.
  The signed pair does the same for negative integers and those below 64.  A positive integer from
  64 on is written as ULEB, whose first byte has no room for the sign: bit 6 of the value is read
  as the sign and the bits above it lose their place, so 1000 comes back as -488.  An encoding with
  zero bytes on top is read with the right value but not normalized.\<close>

theorem int_leb_characterized:
  assumes "int_ok x"
  shows "(0 \<le> int_val x \<longrightarrow>
            (\<exists>y. DeeInt_NewUleb (DeeInt_GetUleb x @ rest) = Some (y, rest) \<and> represents y (int_val x))
            \<and> length (DeeInt_GetUleb x) \<le> DeeInt_GetUlebMaxSize x)
         \<and> length (DeeInt_GetSleb x) \<le> DeeInt_GetSlebMaxSize x
         \<and> (\<exists>y. DeeInt_NewSleb (DeeInt_GetSleb x @ rest) = Some (y, rest)
                \<and> represents y
                     (if int_val x < 64 then int_val x
                      else (if odd (int_val x div 64) then -1 else 1)
                           * (int_val x mod 64 + 64 * (int_val x div 128))))
         \<and> DeeInt_NewUleb [0x80, 0x80, 0x80, 0x80, 0x80, 0x80, 0]
             = Some (\<lparr>ob_size = 1, ob_digit = [0]\<rparr>, [])
         \<and> DeeInt_NewSleb [0x80, 0x80, 0x80, 0x80, 0x80, 0x80, 0]
             = Some (\<lparr>ob_size = 1, ob_digit = [0]\<rparr>, [])"
proof (intro conjI impI)
  assume nn: "0 \<le> int_val x"
  then have sz: "0 \<le> ob_size x" using int_val_less_0_iff [OF assms] by linarith
  show "\<exists>y. DeeInt_NewUleb (DeeInt_GetUleb x @ rest) = Some (y, rest) \<and> represents y (int_val x)"
    using uleb_roundtrip [of "int_mag x" rest] sz by (simp add: GetUleb_enc [OF assms] int_val_nonneg)
  show "length (DeeInt_GetUleb x) \<le> DeeInt_GetUlebMaxSize x"
    using GetSleb_length [OF assms] sz GetSleb_enc_nonneg [OF assms sz]
    by (simp add: GetUleb_enc [OF assms] DeeInt_GetSlebMaxSize_def DeeInt_GetUlebMaxSize_def)
next
  have k: "(if ob_size x < 0 then int_val x
        else (if odd (int_mag x div 64) then -1 else 1) * int (int_mag x mod 64 + 64 * (int_mag x div 128)))
      = (if int_val x < 64 then int_val x
         else (if odd (int_val x div 64) then -1 else 1) * (int_val x mod 64 + 64 * (int_val x div 128)))"
  proof (cases "ob_size x < 0")
    case True
    then show ?thesis using int_val_less_0_iff [OF assms] by simp
  next
    case False
    then have v: "int_val x = int (int_mag x)" by (simp add: int_val_nonneg)
    have "odd (int (int_mag x) div 64) \<longleftrightarrow> odd (int_mag x div 64)"
      using even_of_nat [of "int_mag x div 64", where 'a = int] by (simp add: zdiv_int)
    then show ?thesis unfolding v using False sleb_uleb_small [of "int_mag x"]
      by (cases "int_mag x < 64") (simp_all add: zdiv_int zmod_int)
  qed
  show "\<exists>y. DeeInt_NewSleb (DeeInt_GetSleb x @ rest) = Some (y, rest) \<and> represents y
      (if int_val x < 64 then int_val x
       else (if odd (int_val x div 64) then -1 else 1) * (int_val x mod 64 + 64 * (int_val x div 128)))"
    using sleb_roundtrip [OF assms, of rest] unfolding k .
qed (fact GetSleb_length [OF assms] uleb_padded sleb_padded)+

theorem int_leb_characterized_witness:
  "(\<exists>y. DeeInt_NewSleb (DeeInt_GetSleb (DeeInt_NewInt64 1000) @ [7]) = Some (y, [7]) \<and> represents y (- 488))
   \<and> length (DeeInt_GetSleb (DeeInt_NewInt64 1000)) \<le> DeeInt_GetSlebMaxSize (DeeInt_NewInt64 1000)"
proof -
  have r: "int_ok (DeeInt_NewInt64 1000)" "int_val (DeeInt_NewInt64 1000) = 1000"
    using represents_NewInt64 [of 1000] by (simp_all add: represents_def)
  show ?thesis using int_leb_characterized [OF r(1), of "[7]"] unfolding r(2) by simp
qed

end
