(* ===== verification/IntBytes.thy ===== *)
theory IntBytes
  imports IntObject
begin

text \<open>
  Integers as bytes: \<open>DeeInt_AsBytes\<close>, \<open>DeeInt_FromBytes\<close>, \<open>int_reqbits\<close>, \<open>int_tobytes\<close>,
  \<open>int_bitcount\<close> and \<open>int_frombytes\<close> of src/deemon/objects/int.c.  The routines walk a buffer from
  its least significant byte, upwards for little endian and downwards for big endian; the model
  keeps the bytes in that order and reverses the buffer of a big-endian call at the border.  Sizes
  are natural numbers (a buffer never reaches 2^61 bytes).  The host is little endian.
\<close>

section \<open>Writing\<close>

text \<open>
  The inner loop: write the full bytes of \<open>temp\<close>.  The result is the bytes, the bytes left in
  the buffer, the bits left and their value; \<open>None\<close> if the buffer is full.
\<close>

fun flush8 :: "nat \<Rightarrow> nat \<Rightarrow> twodigits \<Rightarrow> (u8 list \<times> nat \<times> nat \<times> twodigits) option" where
  "flush8 remaining num_bits temp =
     (if num_bits \<ge> 8
      then if remaining = 0 then None
           else let num_bits = num_bits - 8
                in map_option (\<lambda>(bs, r). ((ucast (temp AND 0xff)) # bs, r))
                     (flush8 (remaining - 1) num_bits
                       (drop_bit 8 temp AND (push_bit num_bits 1 - 1)))
      else Some ([], remaining, num_bits, temp))"

declare flush8.simps [simp del]

fun as_bytes_loop ::
  "nat \<Rightarrow> nat \<Rightarrow> twodigits \<Rightarrow> digit list \<Rightarrow> (u8 list \<times> nat \<times> nat \<times> twodigits) option" where
  "as_bytes_loop remaining num_bits temp [] = Some ([], remaining, num_bits, temp)"
| "as_bytes_loop remaining num_bits temp (d # ds) =
     (case flush8 remaining (num_bits + DIGIT_BITS) (temp OR push_bit num_bits (ucast d)) of
        None \<Rightarrow> None
      | Some (bs, remaining, num_bits, temp) \<Rightarrow>
          map_option (\<lambda>(bs', r). (bs @ bs', r)) (as_bytes_loop remaining num_bits temp ds))"

text \<open>\<open>while (last_bits && !(last_digit & ((digit)1 << (last_bits - 1)))) --last_bits;\<close>\<close>

fun digit_bits :: "nat \<Rightarrow> digit \<Rightarrow> nat" where
  "digit_bits 0 d = 0"
| "digit_bits (Suc n) d = (if d AND push_bit n 1 = 0 then digit_bits n d else Suc n)"

text \<open>The bytes of the magnitude: the rest of the writer up to the filling of the remaining bytes.\<close>

definition as_bytes_mag ::
  "DeeInt \<Rightarrow> nat \<Rightarrow> bool \<Rightarrow> (u8 list \<times> nat \<times> nat) option" where
  "as_bytes_mag self n as_signed =
     (let ds = digits self; last_digit = last ds
      in case as_bytes_loop n 0 0 (butlast ds) of
           None \<Rightarrow> None
         | Some (bs, remaining, num_bits, temp) \<Rightarrow>
             (case flush8 remaining (num_bits + digit_bits DIGIT_BITS last_digit)
                     (temp OR push_bit num_bits (ucast last_digit)) of
                None \<Rightarrow> None
              | Some (bs', remaining, num_bits, temp) \<Rightarrow>
                  if num_bits \<noteq> 0
                  then if remaining = 0 then None
                       else Some (bs @ bs' @ [ucast temp AND (push_bit num_bits 1 - 1)],
                                  remaining - 1, num_bits)
                  else if remaining = 0 \<and> as_signed then None
                  else Some (bs @ bs', remaining, num_bits)))"

text \<open>The two passes over the bytes of a negative integer: decrement and invert.\<close>

fun dec_bytes :: "nat \<Rightarrow> u8 list \<Rightarrow> u8 list" where
  "dec_bytes num_bits [] = []"
| "dec_bytes num_bits (b # bs) =
     (if num_bits \<ge> 8
      then if b \<noteq> 0 then (b - 1) # bs else (b - 1) # dec_bytes (num_bits - 8) bs
      else if num_bits \<noteq> 0
      then let byte_mask = push_bit num_bits 1 - 1
           in ((b AND NOT byte_mask) OR (((b AND byte_mask) - 1) AND byte_mask)) # bs
      else b # bs)"

fun inv_bytes :: "nat \<Rightarrow> u8 list \<Rightarrow> u8 list" where
  "inv_bytes num_bits [] = []"
| "inv_bytes num_bits (b # bs) =
     (if num_bits \<ge> 8 then NOT b # inv_bytes (num_bits - 8) bs
      else if num_bits \<noteq> 0 then NOT b # bs
      else b # bs)"

text \<open>\<open>DeeInt_AsBytes\<close>: the contents of the buffer of \<open>n\<close> bytes.\<close>

definition DeeInt_AsBytes :: "DeeInt \<Rightarrow> nat \<Rightarrow> bool \<Rightarrow> bool \<Rightarrow> u8 list result" where
  "DeeInt_AsBytes self n little_endian as_signed =
     (if ob_size self = 0 then Inr (replicate n 0)
      else if ob_size self < 0 \<and> \<not> as_signed then Inl IntegerOverflow
      else case as_bytes_mag self n as_signed of
             None \<Rightarrow> Inl IntegerOverflow
           | Some (bs, remaining, num_bits) \<Rightarrow>
               let leading_byte = (if ob_size self < 0 then 0xff else 0 :: u8);
                   dst = bs @ replicate remaining leading_byte;
                   total_bits = num_bits + (n - remaining) * 8 - (if num_bits \<noteq> 0 then 8 else 0);
                   dst = (if ob_size self < 0 then inv_bytes total_bits (dec_bytes total_bits dst)
                          else dst)
               in Inr (if little_endian then dst else rev dst))"

section \<open>Reading\<close>

text \<open>\<open>UNALIGNED_GET16\<close> and its kin on the host\<close>

fun unaligned_get :: "u8 list \<Rightarrow> 'a::len word" where
  "unaligned_get [] = 0"
| "unaligned_get (b # bs) = ucast b OR push_bit 8 (unaligned_get bs)"

text \<open>Drop the bytes on top that are \<open>sign_byte\<close>; \<open>rs\<close> starts with the most significant byte.\<close>

fun strip_sign :: "u8 \<Rightarrow> u8 list \<Rightarrow> u8 list" where
  "strip_sign sign_byte [] = []"
| "strip_sign sign_byte (r # rs) = (if r = sign_byte then strip_sign sign_byte rs else r # rs)"

text \<open>\<open>while (msb_topbit) { if ((msb_byte & msb_mask) != (sign_byte & msb_mask)) break; --msb_topbit; }\<close>\<close>

fun msb_topbit :: "u8 \<Rightarrow> u8 \<Rightarrow> nat \<Rightarrow> nat" where
  "msb_topbit sign_byte msb_byte 0 = 0"
| "msb_topbit sign_byte msb_byte (Suc t) =
     (if msb_byte AND push_bit (Suc t) 1 \<noteq> sign_byte AND push_bit (Suc t) 1 then Suc t
      else msb_topbit sign_byte msb_byte t)"

text \<open>Fill the digits: the digits stored, the bits left over and their value.\<close>

fun from_bytes_fill ::
  "nat \<Rightarrow> nat \<Rightarrow> twodigits \<Rightarrow> u8 list \<Rightarrow> digit list \<times> nat \<times> twodigits" where
  "from_bytes_fill total_bits num_bits temp [] = ([], num_bits, temp)"
| "from_bytes_fill total_bits num_bits temp (b # bs) =
     (let (num_bits, temp) =
        (if bs = []
         then let byte_bits = (if total_bits mod 8 = 0 then 8 else total_bits mod 8)
              in (num_bits + byte_bits,
                  temp OR push_bit num_bits (ucast (b AND ucast (push_bit byte_bits (1 :: u32) - 1))))
         else (num_bits + 8, temp OR push_bit num_bits (ucast b)))
      in if num_bits \<ge> DIGIT_BITS
         then let num_bits = num_bits - DIGIT_BITS;
                  (ds, r) = from_bytes_fill total_bits num_bits
                              (drop_bit DIGIT_BITS temp AND (push_bit num_bits 1 - 1)) bs
              in (ucast (temp AND ucast DIGIT_MASK) # ds, r)
         else from_bytes_fill total_bits num_bits temp bs)"

definition from_bytes_digits :: "nat \<Rightarrow> u8 list \<Rightarrow> digit list \<times> nat" where
  "from_bytes_digits total_bits bs =
     (let (ds, num_bits, temp) = from_bytes_fill total_bits 0 0 bs
      in (if num_bits \<noteq> 0
          then ds @ [ucast (temp AND ucast (push_bit num_bits (1 :: digit) - 1))] else ds,
          num_bits))"

text \<open>
  The decrement of the digits of a negative integer.  It ends at the first digit that is not zero
  (\<open>goto done_decr\<close>), so the correction of \<open>num_bits\<close> from 0 to 30 is made only when the borrow
  reaches the last digit; the returned number of bits is the one the final mask uses.
\<close>

fun dec_digits :: "nat \<Rightarrow> digit list \<Rightarrow> digit list \<times> nat" where
  "dec_digits num_bits [] = ([], num_bits)"
| "dec_digits num_bits (d # ds) =
     (if ds = []
      then let num_bits = (if num_bits = 0 then DIGIT_BITS else num_bits)
           in (if d \<noteq> 0 then [d - 1] else [(d - 1) AND (push_bit num_bits 1 - 1)], num_bits)
      else if d \<noteq> 0 then ((d - 1) # ds, num_bits)
      else let (ds, num_bits) = dec_digits num_bits ds
           in (((d - 1) AND DIGIT_MASK) # ds, num_bits))"

definition from_bytes_negative :: "nat \<Rightarrow> digit list \<Rightarrow> digit list" where
  "from_bytes_negative num_bits ds =
     (let (ds, num_bits) = dec_digits num_bits ds;
          ds = List.map (\<lambda>d. d XOR DIGIT_MASK) ds
      in butlast ds @ [last ds AND (push_bit num_bits 1 - 1)])"

text \<open>The fallback for arbitrary byte counts; \<open>bs\<close> starts with the least significant byte.\<close>

definition from_bytes_signed_bits :: "u8 list \<Rightarrow> (bool \<times> (nat \<times> u8 list) option)" where
  "from_bytes_signed_bits bs =
     (let is_negative = (last bs AND 0x80 \<noteq> 0);
          sign_byte = (if is_negative then 0xff else 0);
          rs = strip_sign sign_byte (rev bs)
      in (is_negative,
          case rs of
            [] \<Rightarrow> None
          | msb_byte # _ \<Rightarrow>
              let total_bits = length rs * 8
              in if is_negative \<and> msb_byte AND 0x80 = 0
                 then Some (total_bits + 1, rev rs @ [sign_byte])
                 else Some (total_bits - (7 - msb_topbit sign_byte msb_byte 7)
                              + (if is_negative then 1 else 0), rev rs)))"

definition from_bytes_unsigned_bits :: "u8 list \<Rightarrow> (nat \<times> u8 list) option" where
  "from_bytes_unsigned_bits bs =
     (case strip_sign 0 (rev bs) of
        [] \<Rightarrow> None
      | msb_byte # rs \<Rightarrow>
          Some (length (msb_byte # rs) * 8 - (7 - msb_topbit 0 msb_byte 7), rev (msb_byte # rs)))"

definition from_bytes_generic :: "u8 list \<Rightarrow> bool \<Rightarrow> DeeInt" where
  "from_bytes_generic bs as_signed =
     (if as_signed
      then case from_bytes_signed_bits bs of
             (is_negative, None) \<Rightarrow> if is_negative then DeeInt_MinusOne else DeeInt_Zero
           | (is_negative, Some (total_bits, bs)) \<Rightarrow>
               let (ds, num_bits) = from_bytes_digits total_bits bs
               in if is_negative then negate_size (DeeInt_Alloc (from_bytes_negative num_bits ds))
                  else DeeInt_Alloc ds
      else case from_bytes_unsigned_bits bs of
             None \<Rightarrow> DeeInt_Zero
           | Some (total_bits, bs) \<Rightarrow> DeeInt_Alloc (fst (from_bytes_digits total_bits bs)))"

definition DeeInt_FromBytes :: "u8 list \<Rightarrow> bool \<Rightarrow> bool \<Rightarrow> DeeInt" where
  "DeeInt_FromBytes buf little_endian as_signed =
     (let bs = (if little_endian then buf else rev buf)
      in if length bs = 0 then DeeInt_Zero
         else if length bs = 1
         then if as_signed then DeeInt_NewInt8 (unaligned_get bs) else DeeInt_NewUInt8 (unaligned_get bs)
         else if length bs = 2
         then if as_signed then DeeInt_NewInt16 (unaligned_get bs) else DeeInt_NewUInt16 (unaligned_get bs)
         else if length bs = 4
         then if as_signed then DeeInt_NewInt32 (unaligned_get bs) else DeeInt_NewUInt32 (unaligned_get bs)
         else if length bs = 8
         then if as_signed then DeeInt_NewInt64 (unaligned_get bs) else DeeInt_NewUInt64 (unaligned_get bs)
         else if length bs = 16
         then if as_signed then DeeInt_NewInt128 (unaligned_get bs) else DeeInt_NewUInt128 (unaligned_get bs)
         else from_bytes_generic bs as_signed)"

section \<open>The number of bits\<close>

definition POPCOUNT :: "digit \<Rightarrow> nat" where
  "POPCOUNT d = length (filter (bit d) [0..<32])"

text \<open>
  \<open>do { ++result; last_digit >>= 1; last_digit |= (DIGIT_BASE >> 1); } while (last_digit != DIGIT_MASK);\<close>
  with fuel: \<open>None\<close> is a loop of more turns.
\<close>

fun neg_bits_loop :: "nat \<Rightarrow> digit \<Rightarrow> nat option" where
  "neg_bits_loop 0 d = None"
| "neg_bits_loop (Suc fuel) d =
     (let d = drop_bit 1 d OR drop_bit 1 DIGIT_BASE
      in if d \<noteq> DIGIT_MASK then map_option Suc (neg_bits_loop fuel d) else Some 1)"

text \<open>\<open>do { ++result; last_digit >>= 1; } while (last_digit);\<close>\<close>

function pos_bits_loop :: "digit \<Rightarrow> nat" where
  "pos_bits_loop d =
     (let d' = drop_bit 1 d in if d' \<noteq> 0 then Suc (pos_bits_loop d') else 1)"
  by pat_completeness auto
termination
  by (relation "measure unat") (auto simp: unat_drop_bit_word unat_gt_0 intro!: div_less_dividend)

declare pos_bits_loop.simps [simp del]

definition int_reqbits :: "DeeInt \<Rightarrow> bool \<Rightarrow> nat result" where
  "int_reqbits self is_signed =
     (if ob_size self < 0 \<and> \<not> is_signed then Inl IntegerOverflow
      else let digit_count = normalize_index (ob_digit self) (nat \<bar>ob_size self\<bar>)
           in if digit_count = 0 then Inr 1
              else let result = (digit_count - 1) * DIGIT_BITS;
                       last_digit = ob_digit self ! (digit_count - 1)
                   in if ob_size self < 0
                      then let limit = (POPCOUNT last_digit = 1
                                 \<and> list_all (\<lambda>d. d = 0) (take (digit_count - 1) (ob_digit self))
                                 \<and> \<not> (digit_count = 1 \<and> last_digit = 1));
                               result = (if limit then result + 1 - 1 else result + 1)
                           in Inr (result + the (neg_bits_loop DIGIT_BITS (NOT last_digit AND DIGIT_MASK)))
                      else Inr (result + pos_bits_loop last_digit + (if is_signed then 1 else 0)))"

text \<open>\<open>int.bitcount\<close>, \<open>int.tobytes\<close> (\<open>None\<close> is an argument left out) and \<open>int.frombytes\<close>\<close>

definition int_bitcount :: "DeeInt \<Rightarrow> bool \<Rightarrow> DeeInt result" where
  "int_bitcount self is_signed =
     (case int_reqbits self is_signed of
        Inl e \<Rightarrow> Inl e
      | Inr n \<Rightarrow> Inr (DeeInt_NewUInt64 (of_nat n)))"

definition byteorder_little :: "string option \<Rightarrow> bool result" where
  "byteorder_little byteorder =
     (case byteorder of
        None \<Rightarrow> Inr True
      | Some s \<Rightarrow> if s = ''little'' then Inr True
                  else if s = ''big'' then Inr False
                  else Inl ValueError)"

definition int_tobytes :: "DeeInt \<Rightarrow> nat option \<Rightarrow> string option \<Rightarrow> bool \<Rightarrow> u8 list result" where
  "int_tobytes self len byteorder is_signed =
     (case (case len of
              Some n \<Rightarrow> Inr n
            | None \<Rightarrow> (case int_reqbits self is_signed of
                         Inl e \<Rightarrow> Inl e
                       | Inr n \<Rightarrow> Inr ((n + 7) div 8))) of
        Inl e \<Rightarrow> Inl e
      | Inr n \<Rightarrow> (case byteorder_little byteorder of
                    Inl e \<Rightarrow> Inl e
                  | Inr encode_little \<Rightarrow> DeeInt_AsBytes self n encode_little is_signed))"

definition int_frombytes :: "u8 list \<Rightarrow> string option \<Rightarrow> bool \<Rightarrow> DeeInt result" where
  "int_frombytes buf byteorder is_signed =
     (case byteorder_little byteorder of
        Inl e \<Rightarrow> Inl e
      | Inr encode_little \<Rightarrow> Inr (DeeInt_FromBytes buf encode_little is_signed))"


section \<open>Reference definitions\<close>

fun bytes_val :: "u8 list \<Rightarrow> nat" where
  "bytes_val [] = 0"
| "bytes_val (b # bs) = unat b + 256 * bytes_val bs"

fun le_bytes :: "nat \<Rightarrow> nat \<Rightarrow> u8 list" where
  "le_bytes 0 n = []"
| "le_bytes (Suc k) n = of_nat (n mod 256) # le_bytes k (n div 256)"

text \<open>The number of bits of a natural number\<close>

fun bitlen :: "nat \<Rightarrow> nat" where
  "bitlen n = (if n = 0 then 0 else Suc (bitlen (n div 2)))"

declare bitlen.simps [simp del]

lemma bitlen_0 [simp]: "bitlen 0 = 0" and bitlen_1 [simp]: "bitlen (Suc 0) = 1"
  by (simp_all add: bitlen.simps [of 0] bitlen.simps [of "Suc 0"])

lemma bitlen_unique: "2 ^ b \<le> n \<Longrightarrow> n < 2 ^ Suc b \<Longrightarrow> bitlen n = Suc b"
proof (induction b arbitrary: n)
  case 0
  then have "n = 1" by simp
  then show ?case by simp
next
  case (Suc b)
  then have "2 ^ b \<le> n div 2" "n div 2 < 2 ^ Suc b" "n \<noteq> 0"
    by (auto simp: less_mult_imp_div_less less_eq_div_iff_mult_less_eq mult.commute
        intro: less_le_trans [of 0 "2 ^ b"])
  with Suc.IH show ?case by (simp add: bitlen.simps [of n])
qed

lemma bitlen_less: "n < 2 ^ bitlen n"
proof (induction n rule: bitlen.induct)
  case (1 n)
  show ?case
  proof (cases "n = 0")
    case False
    with 1 have "n div 2 < 2 ^ bitlen (n div 2)" by simp
    then show ?thesis using False by (simp add: bitlen.simps [of n])
  qed simp
qed

lemma bitlen_le: "0 < n \<Longrightarrow> 2 ^ (bitlen n - 1) \<le> n"
proof (induction n rule: bitlen.induct)
  case (1 n)
  show ?case
  proof (cases "n = 1")
    case True
    then show ?thesis by simp
  next
    case False
    then have *: "0 < n div 2" using 1 by simp
    then have "0 < bitlen (n div 2)" by (simp add: bitlen.simps [of "n div 2"])
    then have "2 * 2 ^ (bitlen (n div 2) - 1) = (2 :: nat) ^ bitlen (n div 2)"
      by (metis One_nat_def Suc_pred power_Suc)
    moreover have "2 * 2 ^ (bitlen (n div 2) - 1) \<le> 2 * (n div 2)" using 1 * by simp
    ultimately show ?thesis using 1 by (simp add: bitlen.simps [of n])
  qed
qed

section \<open>Bytes and numbers\<close>

lemma length_le_bytes [simp]: "length (le_bytes k n) = k"
  by (induction k arbitrary: n) simp_all

lemma bytes_val_append: "bytes_val (xs @ ys) = bytes_val xs + 256 ^ length xs * bytes_val ys"
  by (induction xs) (simp_all add: algebra_simps)

lemma byte_bound: "unat (b :: u8) < 256"
proof -
  have "unat b < 2 ^ LENGTH(8)" by (rule unsigned_less)
  then show ?thesis by simp
qed

lemma bytes_val_bound: "bytes_val bs < 256 ^ length bs"
proof (induction bs)
  case (Cons b bs)
  then have "256 * (bytes_val bs + 1) \<le> 256 * 256 ^ length bs" by (intro mult_le_mono2) simp
  then show ?case using byte_bound [of b] by simp
qed simp

lemma bytes_val_le_bytes: "bytes_val (le_bytes k n) = n mod 256 ^ k"
proof (induction k arbitrary: n)
  case (Suc k)
  then show ?case by (simp add: unat_of_nat mod_mult2_eq)
qed simp

lemma le_bytes_bytes_val: "le_bytes (length bs) (bytes_val bs) = bs"
proof (induction bs)
  case (Cons b bs)
  have "(unat b + 256 * bytes_val bs) mod 256 = unat b" "(unat b + 256 * bytes_val bs) div 256 = bytes_val bs"
    using byte_bound [of b] by simp_all
  then show ?case using Cons by simp
qed simp

lemma le_bytes_add: "le_bytes (j + k) n = le_bytes j n @ le_bytes k (n div 256 ^ j)"
  by (induction j arbitrary: n) (simp_all add: div_mult2_eq)

lemma le_bytes_cong: "n mod 256 ^ k = m mod 256 ^ k \<Longrightarrow> le_bytes k n = le_bytes k m"
  by (metis bytes_val_le_bytes le_bytes_bytes_val length_le_bytes)

lemma le_bytes_upper [simp]: "le_bytes k (n + 256 ^ k * m) = le_bytes k n"
  by (rule le_bytes_cong) simp

lemma le_bytes_0: "le_bytes k 0 = replicate k 0"
  by (induction k) simp_all

lemma le_bytes_ff: "le_bytes k (256 ^ k - 1) = replicate k 0xff"
proof (induction k)
  case (Suc k)
  have "256 ^ Suc k - 1 = 255 + 256 * (256 ^ k - 1 :: nat)" by (simp add: algebra_simps)
  then have "(256 ^ Suc k - 1) mod 256 = (255 :: nat)" "(256 ^ Suc k - 1) div 256 = (256 ^ k - 1 :: nat)"
    by simp_all
  then show ?case using Suc by simp
qed simp

lemma exp_minus_1_mask: "push_bit n 1 - 1 = (mask n :: 'a::len word)"
  by (simp add: mask_eq_exp_minus_1 push_bit_eq_mult)

lemma unat_and_exp_minus_1: "unat (x AND (push_bit n 1 - 1)) = unat (x :: 'a::len word) mod 2 ^ n"
  by (simp only: exp_minus_1_mask unat_and_mask_word)

lemma power_256: "256 ^ k = (2 :: nat) ^ (8 * k)"
  by (simp add: power_mult)


section \<open>The writer\<close>

lemma flush8_spec:
  assumes "unat t < 2 ^ n"
  shows "flush8 r n t = (if r < n div 8 then None
     else Some (le_bytes (n div 8) (unat t), r - n div 8, n mod 8, drop_bit (8 * (n div 8)) t))"
  using assms
proof (induction r n t rule: flush8.induct)
  case (1 r n t)
  show ?case
  proof (cases "8 \<le> n \<and> r \<noteq> 0")
    case False
    then show ?thesis by (subst flush8.simps) auto
  next
    case True
    let ?t = "drop_bit 8 t AND (push_bit (n - 8) 1 - 1)"
    have pw: "(2 :: nat) ^ n = 256 * 2 ^ (n - 8)" using power_add [of "2 :: nat" 8 "n - 8"] True by simp
    have lt: "unat t div 256 < 2 ^ (n - 8)"
      using "1.prems" by (intro less_mult_imp_div_less) (simp add: pw mult.commute)
    have u: "unat ?t = unat t div 256"
      unfolding unat_and_exp_minus_1 unat_drop_bit_word using lt by simp
    then have t: "?t = drop_bit 8 t" by (simp add: word_unat_eq_iff unat_drop_bit_word)
    have n: "n div 8 = Suc ((n - 8) div 8)" "n mod 8 = (n - 8) mod 8" using True
      by (simp_all add: le_div_geq le_mod_geq)
    have b: "ucast (t AND 0xff) = (of_nat (unat t mod 256) :: u8)"
      using unat_and_mask_word [of t 8]
      by (simp add: word_unat_eq_iff unat_of_nat unat_ucast_word mask_numeral)
    have d: "drop_bit (8 * ((n - 8) div 8)) (drop_bit 8 t) = drop_bit (8 * (n div 8)) t"
      by (simp add: n(1) drop_bit_drop_bit add.commute)
    have "flush8 r n t = map_option (\<lambda>(bs, x). (ucast (t AND 0xff) # bs, x)) (flush8 (r - 1) (n - 8) ?t)"
      using True by (subst flush8.simps) (simp add: Let_def)
    also have "flush8 (r - 1) (n - 8) ?t = (if r - 1 < (n - 8) div 8 then None
        else Some (le_bytes ((n - 8) div 8) (unat ?t), r - 1 - (n - 8) div 8, (n - 8) mod 8,
                   drop_bit (8 * ((n - 8) div 8)) ?t))"
      by (rule "1.IH") (use True u lt in auto)
    finally show ?thesis
      using True unfolding u unfolding t d b by (auto simp: n)
  qed
qed

text \<open>One step: \<open>w\<close> bits of a digit behind the bits held.\<close>

lemma flush8_digit:
  assumes "unat t < 2 ^ n" "n < 8" "unat (d :: digit) < 2 ^ w" "w \<le> 30"
  defines "V \<equiv> unat t + 2 ^ n * unat d" and "k \<equiv> (n + w) div 8"
  shows "\<exists>t'. flush8 r (n + w) (t OR push_bit n (ucast d))
           = (if r < k then None else Some (le_bytes k V, r - k, (n + w) mod 8, t'))
         \<and> unat t' = V div 256 ^ k \<and> unat t' < 2 ^ ((n + w) mod 8)"
proof -
  have d: "unat (ucast d :: twodigits) = unat d" by (rule unat_ucast_up) simp
  have pos: "(2 :: nat) ^ n * 2 ^ w \<le> 2 ^ 38" unfolding power_add [symmetric]
    using assms(2,4) by (intro power_increasing) simp_all
  have "unat d * 2 ^ n < 2 ^ w * 2 ^ n" using assms(3) by (rule mult_strict_right_mono) simp
  also have "\<dots> \<le> 2 ^ 38" using pos by (simp only: mult.commute)
  finally have "unat d * 2 ^ n < 2 ^ LENGTH(64)" by simp
  define T where "T = t OR push_bit n (ucast d)"
  have V: "unat T = V"
    unfolding V_def T_def using \<open>unat d * 2 ^ n < 2 ^ LENGTH(64)\<close> unat_or_shifted [OF assms(1), of "ucast d"] d
    by (simp add: or.commute [of t] mult.commute)
  have "V < 2 ^ n + 2 ^ n * (2 ^ w - 1)"
    unfolding V_def using assms(1,3) by (intro add_less_le_mono mult_le_mono2) simp_all
  also have "\<dots> = 2 ^ (n + w)" by (simp add: power_add algebra_simps)
  finally have lt: "V < 2 ^ (n + w)" .
  have "n + w = (n + w) mod 8 + 8 * k" by (simp add: k_def)
  then have "V < 2 ^ ((n + w) mod 8) * 256 ^ k" using lt by (metis power_add power_256)
  then have "V div 256 ^ k < 2 ^ ((n + w) mod 8)" by (rule less_mult_imp_div_less)
  then show ?thesis
    using flush8_spec [of T "n + w" r] lt unfolding T_def [symmetric]
    by (intro exI [of _ "drop_bit (8 * k) T"]) (simp add: V unat_drop_bit_word power_256 k_def)
qed


lemma as_bytes_loop_spec:
  assumes "unat t < 2 ^ n" "n < 8" "digits_ok ds"
  defines "V \<equiv> unat t + 2 ^ n * dval ds" and "k \<equiv> (n + 30 * length ds) div 8"
  shows "\<exists>t'. as_bytes_loop r n t ds
           = (if r < k then None else Some (le_bytes k V, r - k, (n + 30 * length ds) mod 8, t'))
         \<and> unat t' = V div 256 ^ k \<and> unat t' < 2 ^ ((n + 30 * length ds) mod 8)"
  using assms(1-3) unfolding V_def k_def
proof (induction ds arbitrary: r n t)
  case Nil
  then show ?case by simp
next
  case (Cons d ds)
  define V1 where "V1 = unat t + 2 ^ n * unat d"
  define k1 n1 where "k1 = (n + 30) div 8" and "n1 = (n + 30) mod 8"
  have n1: "n + 30 = 8 * k1 + n1" "n1 < 8" by (simp_all add: k1_def n1_def)
  have d: "unat d < 2 ^ 30" using Cons.prems(3) by (simp add: BASE_num)
  obtain t1 where fl: "flush8 r (n + 30) (t OR push_bit n (ucast d))
      = (if r < k1 then None else Some (le_bytes k1 V1, r - k1, n1, t1))"
    and t1: "unat t1 = V1 div 256 ^ k1" "unat t1 < 2 ^ n1"
    using flush8_digit [OF Cons.prems(1,2) d, of r, folded V1_def k1_def n1_def] by auto
  define V2 k2 where "V2 = unat t1 + 2 ^ n1 * dval ds" and "k2 = (n1 + 30 * length ds) div 8"
  obtain t2 where lp: "as_bytes_loop (r - k1) n1 t1 ds
      = (if r - k1 < k2 then None else Some (le_bytes k2 V2, r - k1 - k2, (n1 + 30 * length ds) mod 8, t2))"
    and t2: "unat t2 = V2 div 256 ^ k2" "unat t2 < 2 ^ ((n1 + 30 * length ds) mod 8)"
    using Cons.IH [OF t1(2) n1(2), of "r - k1", folded V2_def k2_def] Cons.prems(3) by auto
  define V where "V = unat t + 2 ^ n * dval (d # ds)"
  have pw: "2 ^ n * BASE = 256 ^ k1 * (2 :: nat) ^ n1"
    unfolding power_256 power_add [symmetric] n1(1) [symmetric] by (simp add: BASE_num power_add)
  have V: "V = V1 + 256 ^ k1 * (2 ^ n1 * dval ds)"
    using pw by (simp add: V_def V1_def distrib_left)
  have V2: "V div 256 ^ k1 = V2" by (simp add: V V2_def t1(1))
  have k: "(n + 30 * length (d # ds)) div 8 = k1 + k2"
    "(n + 30 * length (d # ds)) mod 8 = (n1 + 30 * length ds) mod 8"
  proof -
    have e: "n + 30 * length (d # ds) = (n1 + 30 * length ds) + 8 * k1" using n1(1) by simp
    show "(n + 30 * length (d # ds)) div 8 = k1 + k2"
      "(n + 30 * length (d # ds)) mod 8 = (n1 + 30 * length ds) mod 8"
      unfolding e by (simp_all add: k2_def)
  qed
  have bytes: "le_bytes (k1 + k2) V = le_bytes k1 V1 @ le_bytes k2 V2"
    by (simp add: le_bytes_add V2) (simp add: V)
  have top: "V div 256 ^ (k1 + k2) = V2 div 256 ^ k2" by (simp add: power_add div_mult2_eq V2)
  show ?case
    unfolding k V_def [symmetric] bytes top using fl lp t2
    by (auto simp: DIGIT_BITS_def)
qed


lemma and_push_bit_1: "d AND 2 ^ n = 0 \<longleftrightarrow> \<not> bit (d :: 'a::len word) n"
  using bit_iff_and_push_bit_not_eq_0 [of d n] by (auto simp: push_bit_eq_mult)

lemma digit_bits_spec:
  assumes "unat d < 2 ^ n"
  shows "digit_bits n d = bitlen (unat d)" "bitlen (unat d) \<le> n"
proof -
  have "digit_bits n d = bitlen (unat d) \<and> bitlen (unat d) \<le> n"
    using assms
  proof (induction n)
    case 0
    then show ?case by simp
  next
    case (Suc n)
    show ?case
    proof (cases "2 ^ n \<le> unat d")
      case True
      then have "unat d div 2 ^ n = 1"
        using Suc.prems by (intro div_nat_eqI) simp_all
      then have "bit d n" by (simp add: bit_unat_div)
      then show ?thesis using bitlen_unique [OF True Suc.prems] by (simp add: and_push_bit_1)
    next
      case False
      then have "unat d div 2 ^ n = 0" by simp
      then have "\<not> bit d n" by (simp add: bit_unat_div)
      then show ?thesis using Suc.IH False by (simp add: and_push_bit_1)
    qed
  qed
  then show "digit_bits n d = bitlen (unat d)" "bitlen (unat d) \<le> n" by blast+
qed

text \<open>The number of bits of a digit vector is that of its top digit behind the full ones.\<close>

lemma bitlen_dval:
  assumes "digits_ok ds" "ds \<noteq> []" "last ds \<noteq> 0"
  shows "bitlen (dval ds) = 30 * (length ds - 1) + bitlen (unat (last ds))"
proof -
  define b where "b = bitlen (unat (last ds)) - 1"
  define L where "L = dval (butlast ds)"
  have pos: "0 < unat (last ds)" using assms(3) by (simp add: unat_gt_0)
  then have b: "bitlen (unat (last ds)) = Suc b" by (simp add: b_def bitlen.simps [of "unat (last ds)"])
  have ds: "ds = butlast ds @ [last ds]" using assms(2) by simp
  have "dval ds = L + BASE ^ (length ds - 1) * unat (last ds)"
    by (subst ds, simp only: dval_append length_butlast) (simp add: L_def)
  then have V: "dval ds = L + 2 ^ (30 * (length ds - 1)) * unat (last ds)"
    by (simp add: BASE_num power_mult)
  have "digits_ok (butlast ds)" using assms(1) by (metis ds digits_ok_simps(3))
  then have "L < BASE ^ (length ds - 1)" unfolding L_def using dval_bound [of "butlast ds"] by simp
  then have L: "L < 2 ^ (30 * (length ds - 1))" by (simp add: BASE_num power_mult)
  have lo: "2 ^ b \<le> unat (last ds)" and hi: "unat (last ds) + 1 \<le> 2 ^ Suc b"
    using bitlen_le [OF pos] bitlen_less [of "unat (last ds)"] by (simp_all add: b)
  have "2 ^ (30 * (length ds - 1) + b) \<le> dval ds"
    using mult_le_mono2 [OF lo, of "2 ^ (30 * (length ds - 1))"]
    by (simp add: V power_add trans_le_add2)
  moreover have "dval ds < 2 ^ Suc (30 * (length ds - 1) + b)"
    using mult_le_mono2 [OF hi, of "2 ^ (30 * (length ds - 1))"] L by (simp add: V power_add algebra_simps)
  ultimately show ?thesis using bitlen_unique by (simp add: b)
qed


lemma as_bytes_mag_spec:
  assumes "int_ok x" "ob_size x \<noteq> 0"
  defines "B \<equiv> bitlen (int_mag x)"
  shows "as_bytes_mag x n s = (if 8 * n < B + (if s then 1 else 0) then None
     else Some (le_bytes ((B + 7) div 8) (int_mag x), n - (B + 7) div 8, B mod 8))"
proof -
  define ds d where "ds = butlast (digits x)" and "d = last (digits x)"
  have ne: "digits x \<noteq> []" using assms(1,2) length_digits [of x] by auto
  have ok: "digits_ok (digits x)" "d \<noteq> 0" using assms(1) ne by (auto simp: int_ok_def int_mem_def d_def)
  have x: "digits x = ds @ [d]" using ne by (simp add: ds_def d_def)
  have okd: "digits_ok ds" "unat d < 2 ^ 30" using ok(1) x by (auto simp: BASE_num)
  define w where "w = bitlen (unat d)"
  have w: "digit_bits DIGIT_BITS d = w" "w \<le> 30" "unat d < 2 ^ w"
    using digit_bits_spec [OF okd(2)] bitlen_less [of "unat d"] by (simp_all add: w_def DIGIT_BITS_def)
  have B: "B = 30 * length ds + w"
    using bitlen_dval [OF ok(1) ne] ok(2) by (simp add: B_def int_mag_def x w_def)
  define k1 n1 where "k1 = 30 * length ds div 8" and "n1 = 30 * length ds mod 8"
  have n1: "30 * length ds = 8 * k1 + n1" "n1 < 8" by (simp_all only: k1_def n1_def mult_div_mod_eq)
  obtain t1 where lp: "as_bytes_loop n 0 0 ds
      = (if n < k1 then None else Some (le_bytes k1 (dval ds), n - k1, n1, t1))"
    and t1: "unat t1 = dval ds div 256 ^ k1" "unat t1 < 2 ^ n1"
    using as_bytes_loop_spec [OF _ _ okd(1), of 0 0 n, unfolded add_0 unsigned_0 power_0 mult_1_left,
        OF zero_less_one zero_less_numeral, folded k1_def n1_def] by blast
  define V2 k2 n2 where "V2 = unat t1 + 2 ^ n1 * unat d" and "k2 = (n1 + w) div 8" and "n2 = (n1 + w) mod 8"
  obtain t2 where fl: "flush8 (n - k1) (n1 + w) (t1 OR push_bit n1 (ucast d))
      = (if n - k1 < k2 then None else Some (le_bytes k2 V2, n - k1 - k2, n2, t2))"
    and t2: "unat t2 = V2 div 256 ^ k2" "unat t2 < 2 ^ n2"
    using flush8_digit [OF t1(2) n1(2) w(3,2), of "n - k1", folded V2_def k2_def n2_def] by auto
  have pw: "BASE ^ length ds = 256 ^ k1 * (2 :: nat) ^ n1"
    unfolding power_256 power_add [symmetric] n1(1) [symmetric] by (simp add: BASE_num power_mult)
  have m: "int_mag x = dval ds + 256 ^ k1 * (2 ^ n1 * unat d)"
    by (simp add: int_mag_def x pw mult.assoc)
  have V2: "int_mag x div 256 ^ k1 = V2" by (simp add: m V2_def t1(1))
  have bytes: "le_bytes (k1 + k2) (int_mag x) = le_bytes k1 (dval ds) @ le_bytes k2 V2"
    by (simp add: le_bytes_add V2) (simp add: m)
  have top: "int_mag x div 256 ^ (k1 + k2) = unat t2" by (simp add: power_add div_mult2_eq V2 t2(1))
  have Bk: "B = 8 * (k1 + k2) + n2" using n1 by (simp add: B k2_def n2_def)
  have n2: "n2 < 8" by (simp add: n2_def)
  have "unat (ucast t2 AND (push_bit n2 1 - 1) :: u8) = unat t2"
  proof -
    have "(2 :: nat) ^ n2 \<le> 2 ^ 8" using n2 by (intro power_increasing) simp_all
    then show ?thesis unfolding unat_and_exp_minus_1 using t2(2) by (simp add: unat_ucast_word)
  qed
  then have "ucast t2 AND (push_bit n2 1 - 1) = (of_nat (int_mag x div 256 ^ (k1 + k2) mod 256) :: u8)"
    unfolding top by (simp add: word_unat_eq_iff unat_of_nat) (metis byte_bound mod_less)
  then have last: "le_bytes (k1 + k2 + 1) (int_mag x)
      = le_bytes k1 (dval ds) @ le_bytes k2 V2 @ [ucast t2 AND (push_bit n2 1 - 1)]"
    by (simp only: le_bytes_add [of "k1 + k2" 1] bytes) simp
  have mag: "as_bytes_mag x n s =
      (if n < k1 + k2 then None
       else if n2 \<noteq> 0 then (if n = k1 + k2 then None
                            else Some (le_bytes (k1 + k2 + 1) (int_mag x), n - (k1 + k2) - 1, n2))
       else if n = k1 + k2 \<and> s then None else Some (le_bytes (k1 + k2) (int_mag x), n - (k1 + k2), n2))"
    unfolding last bytes by (auto simp: as_bytes_mag_def x lp fl w(1))
  define K where "K = k1 + k2"
  note mag = mag [folded K_def] and Bk = Bk [folded K_def]
  show ?thesis
  proof (cases "n2 = 0")
    case True
    then have "(B + 7) div 8 = K" "B mod 8 = 0" "B = 8 * K" using Bk by simp_all
    then show ?thesis using mag True by auto
  next
    case False
    then have "(B + 7) div 8 = K + 1" "B mod 8 = n2" using Bk n2 by simp_all
    then show ?thesis using mag False Bk n2 by auto
  qed
qed


text \<open>The two passes over the bytes of a negative integer of magnitude \<open>m\<close>.\<close>

lemma dec_bytes_spec:
  assumes "0 < m" "m < 2 ^ tb"
  shows "dec_bytes tb (le_bytes ((tb + 7) div 8) m @ r) = le_bytes ((tb + 7) div 8) (m - 1) @ r"
  using assms
proof (induction tb arbitrary: m rule: less_induct)
  case (less tb)
  have tb: "0 < tb" using less.prems by (cases tb) auto
  then obtain k where k: "(tb + 7) div 8 = Suc k" by (cases "(tb + 7) div 8") auto
  define q s where "q = m div 256" and "s = m mod 256"
  have m_qs: "m = q * 256 + s" "s < 256" by (simp_all add: q_def s_def)
  show ?case
  proof (cases "8 \<le> tb")
    case True
    then have k8: "(tb - 8 + 7) div 8 = k" using k by linarith
    show ?thesis
    proof (cases "m mod 256 = 0")
      case False
      then have "s \<noteq> 0" by (simp add: s_def)
      then have "m - 1 = q * 256 + (s - 1)" "s - 1 < 256" using m_qs by linarith+
      then have "(m - 1) mod 256 = m mod 256 - 1" "(m - 1) div 256 = m div 256"
        using div_mod_unique_nat [of "m - 1" q 256 "s - 1"] by (simp_all add: s_def q_def)
      moreover have "(of_nat (m mod 256) :: u8) \<noteq> 0"
        using False by (simp add: word_unat_eq_iff unat_of_nat)
      ultimately show ?thesis using True False by (simp add: k of_nat_diff)
    next
      case z: True
      then have "s = 0" by (simp add: s_def)
      then have q: "0 < q" and "m - 1 = (q - 1) * 256 + 255" using m_qs(1) less.prems(1) by linarith+
      then have m: "(m - 1) mod 256 = 255" "(m - 1) div 256 = m div 256 - 1" "0 < m div 256"
        using div_mod_unique_nat [of "m - 1" "q - 1" 256 255] q by (simp_all add: q_def)
      have "(2 :: nat) ^ tb = 2 ^ (tb - 8) * 256" using power_add [of "2 :: nat" "tb - 8" 8] True by simp
      then have "m div 256 < 2 ^ (tb - 8)" using less.prems(2) by (intro less_mult_imp_div_less) simp
      then have "dec_bytes (tb - 8) (le_bytes k (m div 256) @ r) = le_bytes k (m div 256 - 1) @ r"
        using less.IH [of "tb - 8" "m div 256"] m(3) True unfolding k8 by simp
      then show ?thesis using True z m by (simp add: k)
    qed
  next
    case False
    then have k0: "k = 0" using k by linarith
    have "(2 :: nat) ^ tb \<le> 2 ^ 7" using False by (intro power_increasing) simp_all
    then have m: "m < 128" using less.prems(2) by simp
    define b :: u8 where "b = of_nat m"
    have b: "unat b = m" using m by (simp add: b_def unat_of_nat)
    define M :: u8 where "M = 2 ^ tb - 1"
    have uM: "unat (c AND M) = unat c mod 2 ^ tb" for c
      using unat_and_exp_minus_1 [of c tb] by (simp add: M_def push_bit_eq_mult)
    have "unat (b AND M) = unat b" using less.prems(2) unfolding uM b by simp
    then have bM: "b AND M = b" by (simp only: word_unat_eq_iff)
    have "(b AND M) AND NOT M = 0" by (simp add: and.assoc)
    then have "b AND NOT M = 0" unfolding bM .
    moreover have "unat (b - 1) = m - 1"
      using less.prems by (simp add: b unat_sub word_le_nat_alt Suc_le_eq)
    then have "unat ((b - 1) AND M) = m - 1" using less.prems unfolding uM by simp
    then have "(b - 1) AND M = of_nat (m - 1)"
      using m by (simp add: word_unat_eq_iff unat_of_nat)
    ultimately show ?thesis
      using False tb m bM by (simp add: k k0 b_def [symmetric] Let_def M_def [symmetric])
  qed
qed


lemma inv_bytes_spec:
  "length bs = (tb + 7) div 8 \<Longrightarrow> inv_bytes tb (bs @ r) = List.map NOT bs @ r"
proof (induction tb bs rule: inv_bytes.induct)
  case (1 tb)
  then have "tb = 0" by (simp add: div_eq_0_iff)
  then show ?case by (cases r) simp_all
next
  case (2 tb b bs)
  show ?case
  proof (cases "8 \<le> tb")
    case True
    have "tb + 7 = (tb - 8 + 7) + 8" using True by simp
    then have "(tb + 7) div 8 = (tb - 8 + 7) div 8 + 1" by (metis div_add_self2 zero_neq_numeral)
    then have "length bs = (tb - 8 + 7) div 8" using 2(2) by simp
    then show ?thesis using 2(1) True by simp
  next
    case False
    then have "(tb + 7) div 8 \<le> 1" "tb = 0 \<Longrightarrow> (tb + 7) div 8 = 0" by simp_all
    then have "length (b # bs) \<le> 1" "tb \<noteq> 0" using 2(2) by (simp, auto)
    then have "bs = []" "tb \<noteq> 0" by simp_all
    then show ?thesis using False by simp
  qed
qed

lemma map_not_le_bytes: "x < 256 ^ k \<Longrightarrow> List.map NOT (le_bytes k x) = le_bytes k (256 ^ k - 1 - x)"
proof (induction k arbitrary: x)
  case 0
  then show ?case by simp
next
  case (Suc k)
  define q s where "q = x div 256" and "s = x mod 256"
  have x: "x = q * 256 + s" "s < 256" by (simp_all add: q_def s_def)
  have q: "q < 256 ^ k" unfolding q_def by (rule less_mult_imp_div_less) (use Suc.prems in simp)
  have "256 ^ Suc k - 1 - x = (256 ^ k - 1 - q) * 256 + (255 - s)"
  proof -
    have "q * 256 + 256 \<le> 256 ^ k * 256" using q by (metis Suc_leI mult_Suc add.commute mult_le_mono1)
    then show ?thesis using x by (simp add: algebra_simps diff_mult_distrib)
  qed
  from div_mod_unique_nat [OF this]
  have "(256 ^ Suc k - 1 - x) div 256 = 256 ^ k - 1 - q" "(256 ^ Suc k - 1 - x) mod 256 = 255 - s" by simp_all
  moreover have "NOT (of_nat s :: u8) = of_nat (255 - s)"
  proof -
    have "NOT (of_nat s :: u8) = - 1 - of_nat s" by (simp add: not_eq_complement)
    then show ?thesis using x(2) by (simp add: of_nat_diff)
  qed
  ultimately show ?case using Suc.IH [OF q] by (simp only: le_bytes.simps list.map q_def s_def)
qed


text \<open>
  \<open>fits n s v\<close>: the check of the writer.  With \<open>s\<close>, the magnitude must leave the sign bit free,
  which two's complement does not need for the most negative value.
\<close>

definition fits :: "nat \<Rightarrow> bool \<Rightarrow> int \<Rightarrow> bool" where
  "fits n s v \<longleftrightarrow> v = 0 \<or> (s \<or> 0 < v) \<and> \<bar>v\<bar> < 2 ^ (8 * n - (if s then 1 else 0))"

lemma bitlen_le_iff: "bitlen n \<le> b \<longleftrightarrow> n < 2 ^ b"
proof
  assume "bitlen n \<le> b"
  then have "(2 :: nat) ^ bitlen n \<le> 2 ^ b" by (intro power_increasing) simp_all
  with bitlen_less [of n] show "n < 2 ^ b" by (rule less_le_trans)
next
  assume n: "n < 2 ^ b"
  show "bitlen n \<le> b"
  proof (rule ccontr)
    assume "\<not> bitlen n \<le> b"
    then have b: "b \<le> bitlen n - 1" and "0 < n" by (auto intro: gr0I)
    from b have "(2 :: nat) ^ b \<le> 2 ^ (bitlen n - 1)" by (intro power_increasing) simp_all
    also have "\<dots> \<le> n" by (rule bitlen_le) fact
    finally show False using n by simp
  qed
qed

lemma fits_bitlen:
  assumes "int_ok x" "ob_size x \<noteq> 0"
  shows "fits n s (int_val x) \<longleftrightarrow>
    (s \<or> 0 < ob_size x) \<and> \<not> 8 * n < bitlen (int_mag x) + (if s then 1 else 0)"
proof -
  have pos: "0 < bitlen (int_mag x)"
    using int_mag_pos [OF assms] by (simp add: bitlen.simps [of "int_mag x"])
  have "\<bar>int_val x\<bar> < 2 ^ (8 * n - (if s then 1 else 0)) \<longleftrightarrow> bitlen (int_mag x) \<le> 8 * n - (if s then 1 else 0)"
    unfolding abs_int_val bitlen_le_iff by simp
  also have "\<dots> \<longleftrightarrow> \<not> 8 * n < bitlen (int_mag x) + (if s then 1 else 0)" using pos by auto
  finally show ?thesis
    using int_val_eq_0_iff [OF assms(1)] int_val_greater_0_iff [OF assms(1)] assms(2) by (simp add: fits_def)
qed

lemma neg_mod_power:
  assumes "0 < m" "m \<le> (2 :: nat) ^ b"
  shows "nat (- int m mod 2 ^ b) = 2 ^ b - m"
proof -
  have "- int m mod 2 ^ b = (- int m + 2 ^ b) mod 2 ^ b" by simp
  also have "\<dots> = 2 ^ b - int m" using assms by (subst mod_pos_pos_trivial) (auto simp flip: of_nat_le_iff)
  finally show ?thesis using assms(2) by (simp add: nat_diff_distrib nat_power_eq)
qed

lemma AsBytes_spec:
  assumes "int_ok x"
  shows "DeeInt_AsBytes x n le s =
    (if fits n s (int_val x)
     then let bs = le_bytes n (nat (int_val x mod 256 ^ n)) in Inr (if le then bs else rev bs)
     else Inl IntegerOverflow)"
proof (cases "ob_size x = 0")
  case True
  then show ?thesis using int_val_eq_0_iff [OF assms] by (simp add: DeeInt_AsBytes_def fits_def le_bytes_0 Let_def)
next
  case nz: False
  define B m k where "B = bitlen (int_mag x)" and "m = int_mag x" and "k = (B + 7) div 8"
  have m: "0 < m" "m < 2 ^ B" using int_mag_pos [OF assms nz] bitlen_less by (simp_all add: m_def B_def)
  note mag = as_bytes_mag_spec [OF assms nz, of n s, folded B_def, folded k_def m_def]
  note fits = fits_bitlen [OF assms nz, of n s, folded B_def]
  show ?thesis
  proof (cases "fits n s (int_val x)")
    case False
    then show ?thesis using nz mag fits by (auto simp: DeeInt_AsBytes_def)
  next
    case True
    then have s: "s \<or> 0 < ob_size x" and nB: "\<not> 8 * n < B + (if s then 1 else 0)" using fits by blast+
    have k: "k \<le> n" "B \<le> 8 * n" using nB by (auto simp: k_def split: if_splits)
    have "(2 :: nat) ^ B \<le> 256 ^ k" unfolding power_256 by (intro power_increasing) (auto simp: k_def)
    then have mk: "m < 256 ^ k" using m(2) by simp
    have tb: "B mod 8 + k * 8 - (if B mod 8 \<noteq> 0 then 8 else 0) = B"
    proof -
      obtain q r where B: "B = 8 * q + r" "r < 8" by (metis mult_div_mod_eq mod_less_divisor zero_less_numeral)
      then have "(r + 7) div 8 = (if r = 0 then 0 else 1)" by auto
      moreover have "(8 * q + r + 7) div 8 = q + (r + 7) div 8"
        using div_mult_self2 [of 8 "r + 7" q] by (simp add: algebra_simps)
      ultimately show ?thesis unfolding k_def B(1) using B(2) by simp
    qed
    show ?thesis
    proof (cases "ob_size x < 0")
      case False
      have "le_bytes n m = le_bytes k m @ replicate (n - k) 0"
        using le_bytes_add [of k "n - k" m] k mk by (simp add: le_bytes_0)
      moreover have "nat (int_val x mod 256 ^ n) = m mod 256 ^ n"
        using False by (simp add: int_val_nonneg m_def nat_mod_distrib nat_power_eq)
      moreover have "le_bytes n (m mod 256 ^ n) = le_bytes n m" by (rule le_bytes_cong) simp
      ultimately show ?thesis
        using True False nz mag nB by (simp add: DeeInt_AsBytes_def Let_def)
    next
      case neg: True
      define r where "r = replicate (n - k) (0xff :: u8)"
      have "dec_bytes B (le_bytes k m @ r) = le_bytes k (m - 1) @ r"
        unfolding k_def by (rule dec_bytes_spec [OF m])
      moreover have "inv_bytes B (le_bytes k (m - 1) @ r) = le_bytes k (256 ^ k - 1 - (m - 1)) @ r"
        using inv_bytes_spec [of "le_bytes k (m - 1)" B r] map_not_le_bytes [of "m - 1" k] mk m(1)
        by (simp add: k_def)
      moreover have "256 ^ k - 1 - (m - 1) = 256 ^ k - m" using m(1) by simp
      moreover have "le_bytes n (256 ^ n - m) = le_bytes k (256 ^ k - m) @ r"
      proof -
        have n: "n = k + (n - k)" using k by simp
        have e: "256 ^ n - m = (256 ^ (n - k) - 1) * 256 ^ k + (256 ^ k - m)"
          using mk by (subst n, unfold power_add) (simp add: diff_mult_distrib algebra_simps)
        have dm: "(256 ^ n - m) div 256 ^ k = 256 ^ (n - k) - 1" "(256 ^ n - m) mod 256 ^ k = 256 ^ k - m"
          using div_mod_unique_nat [OF e] mk m(1) by simp_all
        have "le_bytes k (256 ^ n - m) = le_bytes k (256 ^ k - m)"
          using mk m(1) by (intro le_bytes_cong) (simp add: dm)
        then show ?thesis
          using le_bytes_add [of k "n - k" "256 ^ n - m"] k
          unfolding dm by (simp add: r_def le_bytes_ff [simplified])
      qed
      moreover have "nat (int_val x mod 256 ^ n) = 256 ^ n - m"
      proof -
        have "(256 :: nat) ^ k \<le> 256 ^ n" using k by (intro power_increasing) simp_all
        with mk have "m \<le> 256 ^ n" by (rule less_imp_le [OF less_le_trans])
        then have "m \<le> 2 ^ (8 * n)" by (simp only: power_256)
        then show ?thesis
          using neg_mod_power [OF m(1), of "8 * n"] neg by (simp add: int_val_neg m_def power_mult)
      qed
      ultimately show ?thesis
        using True neg s mag nB k tb
        by (simp add: DeeInt_AsBytes_def Let_def r_def [symmetric])
    qed
  qed
qed


section \<open>The number of bits required\<close>

lemma POPCOUNT_1_iff: "POPCOUNT d = 1 \<longleftrightarrow> (\<exists>k. unat d = 2 ^ k)"
proof -
  have "{i. i < 32 \<and> bit d i} = {i. bit d i}" using bit_imp_le_length [of d] by auto
  then have "POPCOUNT d = card {i. bit d i}"
    unfolding POPCOUNT_def length_filter_conv_card by (metis (no_types, lifting) Collect_cong add_0 diff_zero length_upt nth_upt)
  also have "\<dots> = 1 \<longleftrightarrow> (\<exists>k. {i. bit d i} = {k})" by (simp add: card_1_singleton_iff)
  also have "\<dots> \<longleftrightarrow> (\<exists>k. unat d = 2 ^ k)"
  proof
    assume "\<exists>k. {i. bit d i} = {k}"
    then obtain k where k: "\<And>i. bit d i \<longleftrightarrow> i = k" by auto
    then have "k < 32" using bit_imp_le_length [of d k] by simp
    then have "(2 :: nat) ^ k < 2 ^ LENGTH(32)" by (intro power_strict_increasing) simp_all
    then have "unat (2 ^ k :: digit) = 2 ^ k"
      using unat_push_bit_no_wrap [of "1 :: digit" k] by (simp add: push_bit_eq_mult)
    moreover have "d = 2 ^ k" by (intro bit_word_eqI) (auto simp: k bit_exp_iff)
    ultimately show "\<exists>k. unat d = 2 ^ k" by auto
  next
    assume "\<exists>k. unat d = 2 ^ k"
    then obtain k where k: "unat d = 2 ^ k" ..
    have "bit d i \<longleftrightarrow> i = k" for i
      using bit_unsigned_iff [of d i, where 'a = nat] by (simp add: k bit_exp_iff eq_commute)
    then show "\<exists>k. {i. bit d i} = {k}" by auto
  qed
  finally show ?thesis .
qed

lemma neg_bits_loop_spec:
  assumes "unat d = BASE - 1 - l" "l < BASE" "bitlen l \<le> fuel" "0 < fuel"
  shows "neg_bits_loop fuel d = Some (max 1 (bitlen l))"
  using assms
proof (induction fuel arbitrary: d l)
  case 0
  then show ?case by simp
next
  case (Suc fuel)
  let ?d = "drop_bit 1 d OR drop_bit 1 DIGIT_BASE"
  have base: "drop_bit 1 DIGIT_BASE = push_bit 29 (1 :: digit)"
    by (simp add: DIGIT_BASE_def DIGIT_BITS_def)
  have half: "unat (drop_bit 1 d) = BASE div 2 - 1 - l div 2"
    using Suc.prems(1,2) by (simp add: unat_drop_bit_word BASE_num)
  have "unat (push_bit 29 1 OR drop_bit 1 d) = unat (1 :: digit) * 2 ^ 29 + unat (drop_bit 1 d)"
    by (rule unat_or_shifted) (simp_all add: half [simplified] BASE_num)
  then have d: "unat ?d = BASE - 1 - l div 2"
    unfolding base or.commute [of "drop_bit 1 d"] half using Suc.prems(2) by (simp add: BASE_num)
  have eq: "?d = DIGIT_MASK \<longleftrightarrow> l div 2 = 0"
    unfolding word_unat_eq_iff d unat_DIGIT_MASK using Suc.prems(2) by (simp add: BASE_num) linarith
  show ?case
  proof (cases "l div 2 = 0")
    case True
    then have "l = 0 \<or> l = 1" by linarith
    then have "max 1 (bitlen l) = 1" by auto
    then show ?thesis using True eq by (simp add: Let_def)
  next
    case False
    then have "l \<noteq> 0" by auto
    then have b: "bitlen l = Suc (bitlen (l div 2))" by (simp add: bitlen.simps [of l])
    have "0 < bitlen (l div 2)" using False by (simp add: bitlen.simps [of "l div 2"])
    then have "neg_bits_loop fuel ?d = Some (bitlen (l div 2))"
      using Suc.IH [OF d] Suc.prems(2,3) b by simp
    then show ?thesis using False eq b by (simp add: Let_def)
  qed
qed

lemma pos_bits_loop_spec: "d \<noteq> 0 \<Longrightarrow> pos_bits_loop d = bitlen (unat d)"
proof (induction d rule: pos_bits_loop.induct)
  case (1 d)
  have u: "unat (drop_bit 1 d) = unat d div 2" by (simp add: unat_drop_bit_word)
  then have "drop_bit 1 d = 0 \<longleftrightarrow> unat d div 2 = 0" by (metis unsigned_0 word_unat_eq_iff)
  moreover have "unat d \<noteq> 0" using 1 by (simp add: unat_eq_zero)
  ultimately show ?case
    using 1 by (subst pos_bits_loop.simps) (auto simp: Let_def bitlen.simps [of "unat d"] u [simplified])
qed

text \<open>A digit vector denotes a power of two iff its top digit does and the others are zero.\<close>

lemma dval_power_iff:
  assumes "digits_ok ds" "d \<noteq> 0"
  shows "(\<exists>k. dval (ds @ [d]) = 2 ^ k) \<longleftrightarrow> list_all (\<lambda>d. d = 0) ds \<and> (\<exists>k. unat d = 2 ^ k)"
proof -
  define A where "A = (2 :: nat) ^ (30 * length ds)"
  have B: "BASE ^ length ds = A" by (simp add: A_def BASE_num power_mult)
  have V: "dval (ds @ [d]) = dval ds + A * unat d" by (simp add: B)
  have lt: "dval ds < A" using dval_bound [OF assms(1)] by (simp add: B)
  have z: "list_all (\<lambda>d. d = 0) ds \<longleftrightarrow> dval ds = 0" by (simp add: dval_eq_0_iff list_all_iff)
  have u: "0 < unat d" using assms(2) by (simp add: unat_gt_0)
  show ?thesis
  proof
    assume "\<exists>k. dval (ds @ [d]) = 2 ^ k"
    then obtain k where k: "dval ds + A * unat d = 2 ^ k" using V by auto
    have "A \<le> A * unat d" using u by simp
    then have "A \<le> 2 ^ k" using k by linarith
    then have le: "30 * length ds \<le> k" unfolding A_def by (rule power_le_imp_le_exp [rotated]) simp
    then have pk: "(2 :: nat) ^ k = 2 ^ (k - 30 * length ds) * A"
      unfolding A_def by (simp flip: power_add)
    have e: "(2 :: nat) ^ k = unat d * A + dval ds" using k by (simp add: mult.commute)
    have "dval ds = 0" "unat d = 2 ^ (k - 30 * length ds)"
      using div_mod_unique_nat [OF e lt] unfolding pk using lt by simp_all
    then show "list_all (\<lambda>d. d = 0) ds \<and> (\<exists>k. unat d = 2 ^ k)" using z by blast
  next
    assume "list_all (\<lambda>d. d = 0) ds \<and> (\<exists>k. unat d = 2 ^ k)"
    then show "\<exists>k. dval (ds @ [d]) = 2 ^ k" unfolding V z A_def by (auto simp flip: power_add)
  qed
qed


text \<open>What \<open>int_reqbits\<close> computes.\<close>

definition req_bits :: "int \<Rightarrow> bool \<Rightarrow> nat" where
  "req_bits v s =
     (if v = 0 then 1
      else if v = -1 then 2
      else if v < 0 then bitlen (nat (- v - 1)) + 1
      else bitlen (nat v) + (if s then 1 else 0))"

lemma bitlen_pred:
  assumes "0 < m"
  shows "bitlen (m - 1) = (if \<exists>k. m = 2 ^ k then bitlen m - 1 else bitlen m)"
proof -
  obtain b where b: "bitlen m = Suc b" using assms by (simp add: bitlen.simps [of m])
  have le: "2 ^ b \<le> m" and lt: "m < 2 ^ Suc b" using bitlen_le [OF assms] bitlen_less [of m] by (simp_all add: b)
  show ?thesis
  proof (cases "\<exists>k. m = 2 ^ k")
    case True
    then obtain k where k: "m = 2 ^ k" ..
    have "bitlen m = Suc k" by (rule bitlen_unique) (simp_all add: k)
    moreover have "bitlen (m - 1) = k"
    proof (cases k)
      case 0
      then show ?thesis using k by simp
    next
      case (Suc j)
      have "1 \<le> (2 :: nat) ^ j" by simp
      then have "2 ^ j \<le> m - 1" "m - 1 < 2 ^ Suc j" unfolding k Suc power_Suc by linarith+
      then show ?thesis using bitlen_unique Suc by simp
    qed
    ultimately show ?thesis using True by simp
  next
    case False
    then have "m \<noteq> 2 ^ b" by blast
    then have "2 ^ b \<le> m - 1" "m - 1 < 2 ^ Suc b" using le lt by linarith+
    then show ?thesis using False bitlen_unique b by simp
  qed
qed

lemma unat_not_digit:
  assumes "unat (d :: digit) < BASE"
  shows "unat (NOT d AND DIGIT_MASK) = BASE - 1 - unat d"
proof -
  have "unat d < 2 ^ LENGTH(32)" by (rule unsigned_less)
  then have "unat (- 1 - d) = unat (- 1 :: digit) - unat d"
    by (intro unat_sub) (simp add: word_le_nat_alt unsigned_minus_1_eq_mask mask_eq_exp_minus_1)
  moreover have "NOT d = - 1 - d" by (simp add: not_eq_complement)
  ultimately have "unat (NOT d) = 3 * BASE + (BASE - 1 - unat d)"
    using assms by (simp add: BASE_num unsigned_minus_1_eq_mask mask_numeral)
  from div_mod_unique_nat(2) [OF this] show ?thesis by (simp add: unat_and_DIGIT_MASK)
qed

lemma int_reqbits_spec:
  assumes "int_ok x"
  shows "int_reqbits x s =
    (if int_val x < 0 \<and> \<not> s then Inl IntegerOverflow else Inr (req_bits (int_val x) s))"
proof (cases "ob_size x = 0")
  case True
  then show ?thesis using int_val_eq_0_iff [OF assms] by (simp add: int_reqbits_def req_bits_def)
next
  case nz: False
  define ds d where "ds = butlast (digits x)" and "d = last (digits x)"
  have len: "nat \<bar>ob_size x\<bar> = length (digits x)" using assms by (simp add: length_digits)
  have ne: "digits x \<noteq> []" using nz len by auto
  have ok: "digits_ok (digits x)" "d \<noteq> 0" using assms ne by (auto simp: int_ok_def int_mem_def d_def)
  have x: "digits x = ds @ [d]" using ne by (simp add: ds_def d_def)
  have okd: "digits_ok ds" "unat d < BASE" using ok(1) x by auto
  have len': "nat \<bar>ob_size x\<bar> = Suc (length ds)" unfolding len x by simp
  have mem: "take (Suc (length ds)) (ob_digit x) = ds @ [d]" using x len' by (simp add: digits_def)
  have tk: "take (length ds) (ob_digit x) = ds"
    using arg_cong [OF mem, of "take (length ds)"] by simp
  have nth: "ob_digit x ! length ds = d"
    using arg_cong [OF mem, of "\<lambda>xs. xs ! length ds"] by simp
  have "normalize_index (ob_digit x) (Suc (length ds)) = Suc (length ds)" using nth ok(2) by simp
  then have cnt: "normalize_index (ob_digit x) (nat \<bar>ob_size x\<bar>) = Suc (length ds)" unfolding len' .
  have B: "bitlen (int_mag x) = 30 * length ds + bitlen (unat d)"
    using bitlen_dval [OF ok(1) ne] ok(2) by (simp add: int_mag_def x)
  have dpos: "0 < bitlen (unat d)" using ok(2) by (simp add: bitlen.simps [of "unat d"] unat_gt_0)
  have "bitlen (unat d) \<le> 30" using digit_bits_spec(2) [of d 30] okd(2) by (simp add: BASE_num)
  moreover note unat_not_digit [OF okd(2)]
  ultimately have nl: "neg_bits_loop DIGIT_BITS (NOT d AND DIGIT_MASK) = Some (bitlen (unat d))"
    using neg_bits_loop_spec [OF _ okd(2), of "NOT d AND DIGIT_MASK" DIGIT_BITS] dpos
    by (simp add: DIGIT_BITS_def)
  have limit: "POPCOUNT d = 1 \<and> list_all (\<lambda>d. d = 0) ds \<longleftrightarrow> (\<exists>k. int_mag x = 2 ^ k)"
    using dval_power_iff [OF okd(1) ok(2)] POPCOUNT_1_iff [of d] by (auto simp: int_mag_def x)
  have one: "length ds = 0 \<and> d = 1 \<longleftrightarrow> int_mag x = 1"
  proof (cases "ds = []")
    case True
    then show ?thesis by (simp add: int_mag_def x word_unat_eq_iff)
  next
    case False
    then have "BASE ^ 1 \<le> BASE ^ length ds" by (intro power_increasing) (simp_all add: Suc_le_eq)
    moreover have "BASE ^ length ds \<le> int_mag x"
      using dval_lower [of "digits x"] ok(2) by (simp add: int_mag_def x)
    ultimately have "int_mag x \<noteq> 1" by (simp add: BASE_num)
    then show ?thesis using False by simp
  qed
  have pos: "0 < int_mag x" by (rule int_mag_pos [OF assms nz])
  show ?thesis
  proof (cases "ob_size x < 0")
    case False
    then show ?thesis
      using nz cnt nth B pos_bits_loop_spec [OF ok(2)] pos
      by (simp add: int_reqbits_def int_val_nonneg req_bits_def Let_def DIGIT_BITS_def)
  next
    case True
    define m lim where "m = int_mag x" and "lim \<longleftrightarrow> (\<exists>k. int_mag x = 2 ^ k) \<and> int_mag x \<noteq> 1"
    have "POPCOUNT d = 1 \<and> list_all (\<lambda>d. d = 0) ds \<and> \<not> (length ds = 0 \<and> d = 1) \<longleftrightarrow> lim"
      using limit one unfolding lim_def by blast
    then have R: "int_reqbits x s = (if \<not> s then Inl IntegerOverflow
        else Inr (30 * length ds + (if lim then 0 else 1) + bitlen (unat d)))"
      using True cnt nth tk nl by (simp add: int_reqbits_def Let_def DIGIT_BITS_def)
    have v: "int_val x = - int m" using True by (simp add: int_val_neg m_def)
    show ?thesis
    proof (cases "m = 1")
      case True
      then have "ds = []" "d = 1" "\<not> lim" using one by (auto simp: lim_def m_def)
      then show ?thesis by (simp add: R v True req_bits_def)
    next
      case False
      then have "nat (- int_val x - 1) = m - 1" "int_val x < -1" using pos v by (simp_all add: m_def)
      moreover have "bitlen (m - 1) + 1 = 30 * length ds + (if lim then 0 else 1) + bitlen (unat d)"
        using bitlen_pred [OF pos] B dpos False unfolding lim_def m_def [symmetric] by auto
      ultimately show ?thesis by (simp add: R req_bits_def)
    qed
  qed
qed


section \<open>The reader\<close>

lemma byte_sign: "b AND 0x80 = 0 \<longleftrightarrow> unat (b :: u8) < 128"
proof -
  have "b AND 0x80 = 0 \<longleftrightarrow> even (unat b div 128)"
    using and_push_bit_1 [of b 7] by (simp add: bit_unat_div)
  also have "\<dots> \<longleftrightarrow> unat b div 128 = 0"
  proof -
    have "unat b div 128 < 2" using byte_bound [of b] by simp
    then show ?thesis by (auto simp: less_2_cases_iff)
  qed
  finally show ?thesis by (simp add: div_eq_0_iff)
qed

lemma bytes_val_snoc: "bytes_val (bs @ [b]) = bytes_val bs + 256 ^ length bs * unat b"
  by (simp add: bytes_val_append)

definition sbytes_val :: "u8 list \<Rightarrow> int" where
  "sbytes_val bs =
     (if bs \<noteq> [] \<and> last bs AND 0x80 \<noteq> 0 then int (bytes_val bs) - 256 ^ length bs
      else int (bytes_val bs))"

lemma sbytes_cases:
  assumes "bs \<noteq> []"
  shows "last bs AND 0x80 = 0 \<longleftrightarrow> bytes_val bs < 2 ^ (8 * length bs - 1)"
proof -
  obtain cs c where bs: "bs = cs @ [c]" using assms by (metis rev_exhaust)
  define A where "A = (256 :: nat) ^ length cs"
  have lt: "bytes_val cs < A" by (simp add: A_def bytes_val_bound)
  have "8 * length bs - 1 = 8 * length cs + 7" by (simp add: bs)
  then have p: "(2 :: nat) ^ (8 * length bs - 1) = 128 * A"
    unfolding A_def power_256 by (simp only: power_add) simp
  have v: "bytes_val bs = bytes_val cs + A * unat c" by (simp add: bs bytes_val_snoc A_def)
  have "unat c < 128 \<longleftrightarrow> bytes_val cs + A * unat c < 128 * A"
  proof
    assume "unat c < 128"
    then have "A * unat c \<le> A * 127" by (intro mult_le_mono2) simp
    with lt show "bytes_val cs + A * unat c < 128 * A" by linarith
  next
    assume *: "bytes_val cs + A * unat c < 128 * A"
    have "A * unat c < A * 128" using * by linarith
    then show "unat c < 128" by simp
  qed
  then show ?thesis unfolding p v by (simp add: bs byte_sign)
qed

lemma unat_unaligned_get:
  assumes "8 * length bs \<le> LENGTH('a)"
  shows "unat (unaligned_get bs :: 'a::len word) = bytes_val bs"
  using assms
proof (induction bs)
  case Nil
  then show ?case by simp
next
  case (Cons b bs)
  let ?w = "unaligned_get bs :: 'a word"
  have w: "unat ?w = bytes_val bs" using Cons by simp
  have b: "unat (ucast b :: 'a word) = unat b" by (rule unat_ucast_up) (use Cons.prems in simp)
  have "bytes_val bs * 2 ^ 8 < 256 ^ length bs * 2 ^ 8" using bytes_val_bound [of bs] by simp
  also have "\<dots> = 2 ^ (8 * length (b # bs))" by (simp add: power_256 power_add)
  also have "\<dots> \<le> (2 :: nat) ^ LENGTH('a)" using Cons.prems by (intro power_increasing) simp_all
  finally have lt: "unat ?w * 2 ^ 8 < 2 ^ LENGTH('a)" by (simp add: w)
  have "unat (push_bit 8 ?w OR ucast b) = unat ?w * 2 ^ 8 + unat (ucast b :: 'a word)"
    by (rule unat_or_shifted [OF _ lt]) (use byte_bound [of b] b in simp)
  then show ?case by (simp add: or.commute [of "ucast b"] w b)
qed

lemma unaligned_get_values:
  assumes "8 * length bs = LENGTH('a)"
  shows "uint (unaligned_get bs :: 'a::len word) = int (bytes_val bs)"
    and "sint (unaligned_get bs :: 'a::len word) = sbytes_val bs"
proof -
  let ?w = "unaligned_get bs :: 'a word"
  have u: "unat ?w = bytes_val bs" using assms by (intro unat_unaligned_get) simp
  then show i: "uint ?w = int (bytes_val bs)" by (metis int_nat_eq uint_nonnegative unat_eq_nat_uint)
  have ne: "bs \<noteq> []" using assms by auto
  have p: "(256 :: int) ^ length bs = 2 ^ LENGTH('a)" unfolding assms [symmetric] by (simp add: power_mult)
  have "uint ?w < 2 ^ (LENGTH('a) - 1) \<longleftrightarrow> bytes_val bs < 2 ^ (8 * length bs - 1)"
    unfolding i assms by (metis of_nat_less_iff of_nat_numeral of_nat_power)
  then show "sint ?w = sbytes_val bs"
    using ne sbytes_cases [OF ne] by (simp add: sint_uint_cases sbytes_val_def i p)
qed


lemma strip_sign_spec: "\<exists>j. rs = replicate j sb @ strip_sign sb rs"
proof (induction rs)
  case Nil
  then show ?case by simp
next
  case (Cons r rs)
  then obtain j where j: "rs = replicate j sb @ strip_sign sb rs" ..
  show ?case
  proof (cases "r = sb")
    case True
    have "r # rs = replicate (Suc j) sb @ strip_sign sb (r # rs)" using j True by simp
    then show ?thesis ..
  next
    case False
    then show ?thesis by (intro exI [of _ 0]) simp
  qed
qed

lemma strip_sign_hd: "strip_sign sb rs = r # rs' \<Longrightarrow> r \<noteq> sb"
  by (induction rs) (auto split: if_splits)

lemma strip_sign_rev: "\<exists>j. bs = rev (strip_sign sb (rev bs)) @ replicate j sb"
  using strip_sign_spec [of "rev bs" sb] by (metis rev_append rev_replicate rev_rev_ident)

lemma bytes_val_zeros: "bytes_val (bs @ replicate j 0) = bytes_val bs"
  by (induction bs) (induction j, simp_all)

lemma bytes_val_ff: "int (bytes_val (bs @ replicate j 0xff)) - 256 ^ (length bs + j)
    = int (bytes_val bs) - 256 ^ length bs"
proof -
  have "bytes_val (replicate j 0xff) + 1 = 256 ^ j" by (induction j) simp_all
  then have i: "int (bytes_val (replicate j 0xff)) = 256 ^ j - 1"
    by (metis add_diff_cancel_right' of_nat_1 of_nat_add of_nat_numeral of_nat_power)
  show ?thesis
    unfolding bytes_val_append power_add of_nat_add of_nat_mult i by (simp add: algebra_simps)
qed

text \<open>The search for the first bit that differs from the sign.\<close>

lemma msb_topbit_0:
  assumes "b \<noteq> 0" "unat b < 2 ^ Suc t"
  shows "msb_topbit 0 b t \<le> t \<and> 2 ^ msb_topbit 0 b t \<le> unat b \<and> unat b < 2 ^ Suc (msb_topbit 0 b t)"
  using assms(2)
proof (induction t)
  case 0
  then show ?case using assms(1) by (simp add: Suc_le_eq unat_gt_0)
next
  case (Suc t)
  have bit: "b AND 2 ^ Suc t = 0 \<longleftrightarrow> unat b < 2 ^ Suc t"
  proof -
    have "unat b div 2 ^ Suc t < 2" using Suc.prems by (simp add: less_mult_imp_div_less)
    then have "odd (unat b div 2 ^ Suc t) \<longleftrightarrow> unat b div 2 ^ Suc t \<noteq> 0"
      by (auto simp: less_2_cases_iff)
    then show ?thesis unfolding and_push_bit_1 bit_unat_div by (auto simp: div_eq_0_iff)
  qed
  show ?case
  proof (cases "unat b < 2 ^ Suc t")
    case True
    then show ?thesis using Suc.IH bit by (simp add: push_bit_eq_mult)
  next
    case False
    then show ?thesis using Suc.prems bit by (simp add: push_bit_eq_mult)
  qed
qed

lemma unat_not_byte: "unat (NOT (b :: u8)) = 255 - unat b"
proof -
  have "unat b \<le> unat (- 1 :: u8)"
    using byte_bound [of b] by (simp add: unsigned_minus_1_eq_mask mask_eq_exp_minus_1)
  then have "unat (- 1 - b) = unat (- 1 :: u8) - unat b"
    by (intro unat_sub) (simp add: word_le_nat_alt)
  moreover have "NOT b = - 1 - b" by (simp add: not_eq_complement)
  ultimately show ?thesis by (simp only: unsigned_minus_1_eq_mask mask_eq_exp_minus_1) simp
qed

lemma and_eq_mask_not: "b AND m = m \<longleftrightarrow> NOT b AND m = (0 :: 'a::len word)"
  by (auto simp: bit_eq_iff bit_simps)

lemma msb_topbit_ff: "msb_topbit 0xff b t = msb_topbit 0 (NOT b) t"
proof (induction t)
  case (Suc t)
  have "(0xff :: u8) = - 1" by simp
  then have "(0xff :: u8) AND push_bit (Suc t) 1 = push_bit (Suc t) 1" by (metis and.left_neutral)
  then show ?case
    using Suc and_eq_mask_not [of b "push_bit (Suc t) 1"] by simp
qed simp

lemma msb_topbit_pos:
  assumes "b \<noteq> 0"
  shows "msb_topbit 0 b 7 \<le> 7" "2 ^ msb_topbit 0 b 7 \<le> unat b" "unat b < 2 ^ Suc (msb_topbit 0 b 7)"
  using msb_topbit_0 [of b 7] byte_bound [of b] assms by simp_all

lemma msb_topbit_neg:
  assumes "b \<noteq> 0xff"
  shows "msb_topbit 0xff b 7 \<le> 7" "2 ^ msb_topbit 0xff b 7 \<le> 255 - unat b"
    "255 - unat b < 2 ^ Suc (msb_topbit 0xff b 7)"
proof -
  have "unat b \<noteq> 255" using assms by (auto simp: word_unat_eq_iff)
  then have "unat (NOT b) \<noteq> 0" using byte_bound [of b] by (simp add: unat_not_byte)
  then have "NOT b \<noteq> 0" by (metis unsigned_0)
  then show "msb_topbit 0xff b 7 \<le> 7" "2 ^ msb_topbit 0xff b 7 \<le> 255 - unat b"
    "255 - unat b < 2 ^ Suc (msb_topbit 0xff b 7)"
    using msb_topbit_pos [of "NOT b"] by (simp_all add: msb_topbit_ff unat_not_byte)
qed


lemma or_shifted_step:
  fixes t :: twodigits and c :: "'a::len word"
  assumes "unat t < 2 ^ n" "unat c < 2 ^ w" "n + w \<le> 64" "LENGTH('a) \<le> 64"
  shows "unat (t OR push_bit n (ucast c)) = unat t + 2 ^ n * unat c"
    and "unat t + 2 ^ n * unat c < 2 ^ (n + w)"
proof -
  have c: "unat (ucast c :: twodigits) = unat c" by (rule unat_ucast_up) (use assms(4) in simp)
  have "unat c * 2 ^ n < 2 ^ w * 2 ^ n" using assms(2) by (rule mult_strict_right_mono) simp
  also have "\<dots> = 2 ^ (n + w)" by (simp add: power_add mult.commute)
  also have "\<dots> \<le> (2 :: nat) ^ 64" using assms(3) by (intro power_increasing) simp_all
  finally have lt: "unat (ucast c :: twodigits) * 2 ^ n < 2 ^ LENGTH(64)" unfolding c by simp
  from unat_or_shifted [OF assms(1) lt]
  show "unat (t OR push_bit n (ucast c)) = unat t + 2 ^ n * unat c"
    by (simp only: c or.commute [of t] add.commute mult.commute)
  have "2 ^ n * unat c + 2 ^ n \<le> 2 ^ n * 2 ^ w"
    using mult_le_mono2 [of "Suc (unat c)" "2 ^ w" "2 ^ n"] assms(2) by (simp add: Suc_leI)
  with assms(1) show "unat t + 2 ^ n * unat c < 2 ^ (n + w)" unfolding power_add by linarith
qed

text \<open>The number of bits taken from the bytes: all of the lower ones and \<open>last_byte_bits\<close> of the last.\<close>

definition last_byte_bits :: "nat \<Rightarrow> nat" where
  "last_byte_bits total_bits = (if total_bits mod 8 = 0 then 8 else total_bits mod 8)"

definition fill_bits :: "nat \<Rightarrow> u8 list \<Rightarrow> nat" where
  "fill_bits total_bits bs = 8 * (length bs - 1) + last_byte_bits total_bits"

lemma last_byte_bits_range: "0 < last_byte_bits tb" "last_byte_bits tb \<le> 8"
proof -
  have "tb mod 8 < 8" by simp
  then show "0 < last_byte_bits tb" "last_byte_bits tb \<le> 8"
    by (auto simp: last_byte_bits_def simp del: mod_less_divisor)
qed

text \<open>The value and the bits of one turn of the loop\<close>

definition fill_take :: "nat \<Rightarrow> u8 \<Rightarrow> u8 list \<Rightarrow> nat \<times> u8" where
  "fill_take tb b bs =
     (if bs = [] then (last_byte_bits tb, b AND ucast (push_bit (last_byte_bits tb) (1 :: u32) - 1))
      else (8, b))"

lemma unat_and_byte_mask:
  assumes "n \<le> 8"
  shows "unat (b AND ucast (push_bit n (1 :: u32) - 1) :: u8) = unat b mod 2 ^ n"
proof -
  have "b AND ucast (mask n :: u32) = b AND mask n"
    by (rule bit_word_eqI) (use assms in \<open>auto simp: bit_simps\<close>)
  then show ?thesis by (simp only: exp_minus_1_mask unat_and_mask_word)
qed

lemma fill_take_spec:
  assumes "fill_take tb b bs = (w, c)"
  shows "unat c < 2 ^ w" "0 < w" "w \<le> 8"
    and "bytes_val (b # bs) mod 2 ^ fill_bits tb (b # bs)
       = unat c + 2 ^ w * (if bs = [] then 0 else bytes_val bs mod 2 ^ fill_bits tb bs)"
    and "fill_bits tb (b # bs) = w + (if bs = [] then 0 else fill_bits tb bs)"
proof -
  note range = last_byte_bits_range [of tb]
  have c: "unat c = (if bs = [] then unat b mod 2 ^ w else unat b)" "0 < w \<and> w \<le> 8" "bs = [] \<or> w = 8"
    "fill_bits tb (b # bs) = w + (if bs = [] then 0 else fill_bits tb bs)"
    using assms range unat_and_byte_mask [OF range(2), of b]
    by (cases bs; auto simp: fill_take_def fill_bits_def split: if_splits)+
  then show "unat c < 2 ^ w" "0 < w" "w \<le> 8" using byte_bound [of b] by auto
  show "fill_bits tb (b # bs) = w + (if bs = [] then 0 else fill_bits tb bs)" by (rule c(4))
  show "bytes_val (b # bs) mod 2 ^ fill_bits tb (b # bs)
       = unat c + 2 ^ w * (if bs = [] then 0 else bytes_val bs mod 2 ^ fill_bits tb bs)"
  proof (cases "bs = []")
    case True
    then show ?thesis using c by simp
  next
    case False
    then have "w = 8" using c(3) by simp
    have "(unat b + 256 * bytes_val bs) div 256 = bytes_val bs" "(unat b + 256 * bytes_val bs) mod 256 = unat b"
      using byte_bound [of b] by simp_all
    then show ?thesis
      using False c(1,4) mod_mult2_eq [of "bytes_val (b # bs)" 256 "2 ^ fill_bits tb bs"]
      by (simp add: \<open>w = 8\<close> power_add)
  qed
qed


lemma from_bytes_fill_spec:
  assumes "bs \<noteq> []" "unat t < 2 ^ n" "n < 30" "from_bytes_fill tb n t bs = (ds, n', t')"
  shows "dval ds + BASE ^ length ds * unat t' = unat t + 2 ^ n * (bytes_val bs mod 2 ^ fill_bits tb bs)
    \<and> unat t' < 2 ^ n' \<and> n' < 30 \<and> n + fill_bits tb bs = 30 * length ds + n' \<and> digits_ok ds"
  using assms
proof (induction bs arbitrary: n t ds)
  case Nil
  then show ?case by simp
next
  case (Cons b bs)
  obtain w c where wc: "fill_take tb b bs = (w, c)" by (metis surj_pair)
  note take = fill_take_spec [OF wc]
  define T where "T = t OR push_bit n (ucast c)"
  have T: "unat T = unat t + 2 ^ n * unat c" "unat T < 2 ^ (n + w)"
    using or_shifted_step [OF Cons.prems(2) take(1)] Cons.prems(3) take(3) by (simp_all add: T_def)
  define R where "R = (if bs = [] then 0 else bytes_val bs mod 2 ^ fill_bits tb bs)"
  define F where "F = (if bs = [] then 0 else fill_bits tb bs)"
  have V: "unat t + 2 ^ n * (bytes_val (b # bs) mod 2 ^ fill_bits tb (b # bs)) = unat T + 2 ^ (n + w) * R"
    unfolding take(4) R_def [symmetric] by (simp add: T(1) power_add algebra_simps)
  have F: "n + fill_bits tb (b # bs) = n + w + F" by (simp add: take(5) F_def)
  have unf: "from_bytes_fill tb n t (b # bs) =
     (if n + w \<ge> 30
      then let (ds, r) = from_bytes_fill tb (n + w - 30) (drop_bit 30 T AND (push_bit (n + w - 30) 1 - 1)) bs
           in (ucast (T AND ucast DIGIT_MASK) # ds, r)
      else from_bytes_fill tb (n + w) T bs)"
  proof (cases "bs = []")
    case True
    have w: "(if tb mod 8 = 0 then 8 else tb mod 8) = w" and c: "b AND ucast (2 ^ w - 1 :: u32) = c"
      using wc True by (auto simp: fill_take_def last_byte_bits_def push_bit_eq_mult)
    show ?thesis using True by (simp add: w c T_def DIGIT_BITS_def Let_def)
  next
    case False
    then show ?thesis using wc by (simp add: fill_take_def T_def DIGIT_BITS_def Let_def)
  qed
  have rest: "dval es + BASE ^ length es * unat t' = unat u + 2 ^ m * R
      \<and> unat t' < 2 ^ n' \<and> n' < 30 \<and> m + F = 30 * length es + n' \<and> digits_ok es"
    if "unat u < 2 ^ m" "m < 30" "from_bytes_fill tb m u bs = (es, n', t')" for u m es
    using Cons.IH [OF _ that] that by (cases "bs = []") (auto simp: R_def F_def)
  show ?case
  proof (cases "30 \<le> n + w")
    case False
    then have "from_bytes_fill tb (n + w) T bs = (ds, n', t')" "n + w < 30"
      using Cons.prems(4) unfolding unf by simp_all
    then show ?thesis unfolding V F using rest [OF T(2)] by blast
  next
    case True
    define u where "u = drop_bit 30 T AND (push_bit (n + w - 30) 1 - 1)"
    have pw: "(2 :: nat) ^ (n + w) = BASE * 2 ^ (n + w - 30)"
    proof -
      have "n + w = DIGIT_BITS + (n + w - 30)" using True by (simp add: DIGIT_BITS_def)
      then show ?thesis by (metis power_add BASE_def)
    qed
    have lt: "unat T div BASE < 2 ^ (n + w - 30)"
      using T(2) by (intro less_mult_imp_div_less) (simp add: pw mult.commute)
    then have u: "unat u = unat T div BASE"
      unfolding u_def unat_and_exp_minus_1 unat_drop_bit_word by (simp add: BASE_num)
    obtain es where es: "from_bytes_fill tb (n + w - 30) u bs = (es, n', t')"
      and ds: "ds = ucast (T AND ucast DIGIT_MASK) # es"
      using Cons.prems(4) True unfolding unf u_def by (auto split: prod.splits)
    have "(ucast DIGIT_MASK :: twodigits) = mask 30" by (simp add: DIGIT_MASK_num mask_numeral)
    then have "unat (T AND ucast DIGIT_MASK) = unat T mod BASE"
      by (simp only: unat_and_mask_word) (simp add: BASE_num)
    then have d: "unat (ucast (T AND ucast DIGIT_MASK) :: digit) = unat T mod BASE"
      by (simp add: unat_ucast_digit)
    have small: "n + w - 30 < 30" using Cons.prems(3) take(3) by simp
    note r = rest [OF _ small es, unfolded u, OF lt]
    have "dval ds + BASE ^ length ds * unat t'
        = unat T mod BASE + BASE * (dval es + BASE ^ length es * unat t')"
      by (simp add: ds d algebra_simps)
    also have "\<dots> = unat T mod BASE + BASE * (unat T div BASE + 2 ^ (n + w - 30) * R)" using r by simp
    also have "\<dots> = unat T + 2 ^ (n + w) * R" by (simp add: pw distrib_left mult.assoc)
    finally have val: "dval ds + BASE ^ length ds * unat t' = unat T + 2 ^ (n + w) * R" .
    from r have "n + w - 30 + F = 30 * length es + n'" by blast
    then have "n + w + F = 30 * length ds + n'" using True by (simp add: ds)
    then show ?thesis unfolding V F using r val by (simp add: ds d)
  qed
qed

lemma from_bytes_digits_spec:
  assumes "bs \<noteq> []"
  shows "\<exists>ds. from_bytes_digits tb bs = (ds, fill_bits tb bs mod 30)
    \<and> dval ds = bytes_val bs mod 2 ^ fill_bits tb bs \<and> digits_ok ds
    \<and> length ds = (fill_bits tb bs + 29) div 30"
proof -
  obtain ds n t where fl: "from_bytes_fill tb 0 0 bs = (ds, n, t)" by (metis prod_cases3)
  have spec: "dval ds + BASE ^ length ds * unat t = bytes_val bs mod 2 ^ fill_bits tb bs"
    "unat t < 2 ^ n" "n < 30" "fill_bits tb bs = 30 * length ds + n" "digits_ok ds"
    using from_bytes_fill_spec [OF assms _ _ fl] by simp_all
  show ?thesis
  proof (cases "n = 0")
    case True
    then show ?thesis using fl spec by (simp add: from_bytes_digits_def)
  next
    case False
    have "(2 :: nat) ^ n \<le> 2 ^ 30" using spec(3) by (intro power_increasing) simp_all
    then have tb: "unat t < BASE" using spec(2) by (simp add: BASE_num)
    have "unat (t AND ucast (mask n :: digit)) = unat t"
    proof -
      have "t AND ucast (mask n :: digit) = t AND mask n"
        by (rule bit_word_eqI) (use spec(3) in \<open>auto simp: bit_simps\<close>)
      then show ?thesis using spec(2) by (simp only: unat_and_mask_word mod_less)
    qed
    then have d: "unat (ucast (t AND ucast (push_bit n 1 - 1 :: digit)) :: digit) = unat t"
      using tb by (simp only: exp_minus_1_mask) (simp add: unat_ucast_digit)
    have "(30 * length ds + n + 29) div 30 = Suc (length ds)" "(30 * length ds + n) mod 30 = n"
      using False spec(3) by simp_all
    then show ?thesis using fl spec False d tb by (auto simp: from_bytes_digits_def simp del: push_bit_eq_mult)
  qed
qed


lemma fill_bits_eq: "8 * (length cs - 1) < n \<Longrightarrow> n \<le> 8 * length cs \<Longrightarrow> cs \<noteq> [] \<Longrightarrow> fill_bits n cs = n"
proof -
  assume a: "8 * (length cs - 1) < n" "n \<le> 8 * length cs" "cs \<noteq> []"
  define k r where "k = length cs - 1" and "r = n - 8 * k"
  have n: "n = 8 * k + r" "0 < r" "r \<le> 8" using a by (cases cs; simp add: k_def r_def)+
  have "n mod 8 = r mod 8" unfolding n(1) by simp
  then have "last_byte_bits n = r" using n(2,3) by (cases "r = 8") (simp_all add: last_byte_bits_def)
  then show "fill_bits n cs = n" unfolding fill_bits_def k_def [symmetric] using n(1) by simp
qed

text \<open>The bits of a number whose top byte is \<open>b\<close>\<close>

lemma top_byte_bits:
  fixes cs :: "u8 list"
  assumes "2 ^ r \<le> unat b" "unat b < 2 ^ Suc r" "r \<le> 7"
  defines "n \<equiv> length (cs @ [b]) * 8 - (7 - r)"
  shows "n = 8 * length cs + r + 1" "fill_bits n (cs @ [b]) = n"
    and "2 ^ (n - 1) \<le> bytes_val (cs @ [b])" "bytes_val (cs @ [b]) < 2 ^ n"
proof -
  show n: "n = 8 * length cs + r + 1" using assms(3) by (simp add: n_def)
  show "fill_bits n (cs @ [b]) = n" using assms(3) n by (intro fill_bits_eq) simp_all
  have v: "bytes_val (cs @ [b]) = bytes_val cs + 2 ^ (8 * length cs) * unat b"
    by (simp add: bytes_val_snoc power_256)
  have lt: "bytes_val cs < 2 ^ (8 * length cs)" using bytes_val_bound [of cs] by (simp only: power_256)
  have "2 ^ (8 * length cs) * 2 ^ r \<le> 2 ^ (8 * length cs) * unat b" using assms(1) by (rule mult_le_mono2)
  then show "2 ^ (n - 1) \<le> bytes_val (cs @ [b])" unfolding v n
    by (simp add: power_add trans_le_add2)
  have "2 ^ (8 * length cs) * (unat b + 1) \<le> 2 ^ (8 * length cs) * 2 ^ Suc r"
    using assms(2) by (intro mult_le_mono2) simp
  then show "bytes_val (cs @ [b]) < 2 ^ n" unfolding v n using lt by (simp add: power_add distrib_left)
qed

text \<open>A vector as long as the number of its bits asks for is normalized.\<close>

lemma digits_normalized:
  assumes "digits_ok ds" "length ds = (n + 29) div 30" "0 < n" "2 ^ (n - 1) \<le> dval ds"
  shows "last ds \<noteq> 0"
proof (rule dval_last [OF assms(1)])
  show "ds \<noteq> []" using assms(2,3) by auto
  have "30 * (length ds - 1) \<le> n - 1" using assms(2,3) by simp
  then have "(2 :: nat) ^ (30 * (length ds - 1)) \<le> 2 ^ (n - 1)" by (intro power_increasing) simp_all
  with assms(4) show "BASE ^ (length ds - 1) \<le> dval ds" by (simp add: BASE_num power_mult)
qed

lemma from_bytes_digits_represents:
  assumes "cs \<noteq> []" "fill_bits n cs = n" "0 < n" "2 ^ (n - 1) \<le> bytes_val cs" "bytes_val cs < 2 ^ n"
  shows "represents (DeeInt_Alloc (fst (from_bytes_digits n cs))) (int (bytes_val cs))"
proof -
  obtain ds where ds: "from_bytes_digits n cs = (ds, n mod 30)" "dval ds = bytes_val cs" "digits_ok ds"
    "length ds = (n + 29) div 30"
    using from_bytes_digits_spec [OF assms(1), of n] assms(2,5) by auto
  then have "last ds \<noteq> 0" using digits_normalized [OF ds(3,4) assms(3)] assms(4) by simp
  then show ?thesis using ds by (simp add: represents_def int_ok_def)
qed

text \<open>The positive case, shared by the signed and the unsigned reader.\<close>

lemma strip_zero_cases:
  assumes "strip_sign 0 (rev bs) = rs"
  shows "rs = [] \<Longrightarrow> bytes_val bs = 0"
    and "rs = b # rs' \<Longrightarrow>
      (let n = length rs * 8 - (7 - msb_topbit 0 b 7)
       in represents (DeeInt_Alloc (fst (from_bytes_digits n (rev rs)))) (int (bytes_val bs)))"
proof -
  obtain j where j: "bs = rev rs @ replicate j 0" using strip_sign_rev [of bs 0] assms by auto
  have v: "bytes_val bs = bytes_val (rev rs)" unfolding j by (rule bytes_val_zeros)
  show "rs = [] \<Longrightarrow> bytes_val bs = 0" using v by simp
  assume rs: "rs = b # rs'"
  have "b \<noteq> 0" using strip_sign_hd assms rs by metis
  note top = msb_topbit_pos [OF this]
  define n where "n = length rs * 8 - (7 - msb_topbit 0 b 7)"
  note bits = top_byte_bits [OF top(2,3,1), of "rev rs'"]
  have n: "n = length (rev rs' @ [b]) * 8 - (7 - msb_topbit 0 b 7)" by (simp add: n_def rs)
  have "represents (DeeInt_Alloc (fst (from_bytes_digits n (rev rs' @ [b])))) (int (bytes_val (rev rs' @ [b])))"
    using bits unfolding n [symmetric] by (intro from_bytes_digits_represents) simp_all
  then show "let n = length rs * 8 - (7 - msb_topbit 0 b 7)
       in represents (DeeInt_Alloc (fst (from_bytes_digits n (rev rs)))) (int (bytes_val bs))"
    unfolding Let_def n_def [symmetric] v by (simp add: rs)
qed

lemma generic_unsigned: "represents (from_bytes_generic bs False) (int (bytes_val bs))"
proof (cases "strip_sign 0 (rev bs)")
  case Nil
  then show ?thesis using strip_zero_cases(1) [OF Nil] represents_Zero
    by (simp add: from_bytes_generic_def from_bytes_unsigned_bits_def)
next
  case (Cons b rs)
  then show ?thesis using strip_zero_cases(2) [OF Cons refl]
    by (simp add: from_bytes_generic_def from_bytes_unsigned_bits_def Let_def)
qed

lemma generic_nonneg:
  assumes "bs \<noteq> []" "last bs AND 0x80 = 0"
  shows "represents (from_bytes_generic bs True) (sbytes_val bs)"
proof (cases "strip_sign 0 (rev bs)")
  case Nil
  then show ?thesis using strip_zero_cases(1) [OF Nil] represents_Zero assms
    by (simp add: from_bytes_generic_def from_bytes_signed_bits_def sbytes_val_def)
next
  case (Cons b rs)
  then show ?thesis using strip_zero_cases(2) [OF Cons refl] assms
    by (simp add: from_bytes_generic_def from_bytes_signed_bits_def sbytes_val_def Let_def case_prod_beta)
qed


text \<open>
  A negative number \<open>- m\<close> in \<open>n\<close> bits of two's complement, \<open>n\<close> minimal: what the reader hands to
  the loop that fills the digits.
\<close>

definition neg_bits_ok :: "u8 list \<Rightarrow> int \<Rightarrow> nat \<Rightarrow> nat \<Rightarrow> bool" where
  "neg_bits_ok cs v n m \<longleftrightarrow> cs \<noteq> [] \<and> fill_bits n cs = n \<and> 2 \<le> n \<and> v = - int m
     \<and> 2 ^ (n - 2) < m \<and> m \<le> 2 ^ (n - 1) \<and> bytes_val cs mod 2 ^ n = 2 ^ n - m"

text \<open>The byte below the sign bytes starts with the other bit: one sign byte is taken back.\<close>

lemma neg_bits_special:
  assumes "cs \<noteq> []" "last cs AND 0x80 = 0"
  shows "neg_bits_ok (cs @ [0xff]) (int (bytes_val cs) - 256 ^ length cs) (length cs * 8 + 1)
    (256 ^ length cs - bytes_val cs)"
proof -
  define l where "l = 8 * length cs"
  have l: "0 < l" "length cs * 8 + 1 = Suc l" using assms(1) by (simp_all add: l_def)
  have p: "(256 :: nat) ^ length cs = 2 ^ l" by (simp add: l_def power_256)
  have half: "(2 :: nat) ^ l = 2 * 2 ^ (l - 1)" using l by (metis One_nat_def Suc_pred power_Suc)
  have lt: "bytes_val cs < 2 ^ (l - 1)" using sbytes_cases [OF assms(1)] assms(2) by (simp add: l_def)
  have "bytes_val (cs @ [0xff]) = bytes_val cs + 2 ^ l + 2 ^ Suc l * 127"
    by (simp add: bytes_val_snoc p)
  moreover have "bytes_val cs + 2 ^ l < 2 ^ Suc l" using lt half by simp
  ultimately have "bytes_val (cs @ [0xff]) mod 2 ^ Suc l = bytes_val cs + 2 ^ l"
    by (simp only: mod_mult_self2 mod_less)
  moreover have "fill_bits (Suc l) (cs @ [0xff]) = Suc l"
    by (intro fill_bits_eq) (simp_all add: l_def)
  moreover have "(256 :: int) ^ length cs = int (2 ^ l)" unfolding p [symmetric] by simp
  ultimately show ?thesis
    using l lt half unfolding neg_bits_ok_def l(2) p by (simp add: of_nat_diff)
qed

lemma neg_bits_plain:
  assumes "b \<noteq> 0xff" "b AND 0x80 \<noteq> 0"
  defines "r \<equiv> msb_topbit 0xff b 7"
  shows "neg_bits_ok (cs @ [b]) (int (bytes_val (cs @ [b])) - 256 ^ length (cs @ [b]))
    (length (cs @ [b]) * 8 - (7 - r) + 1) (256 ^ length (cs @ [b]) - bytes_val (cs @ [b]))"
proof -
  define l n W where "l = 8 * length cs" and "n = length (cs @ [b]) * 8 - (7 - r) + 1"
    and "W = bytes_val (cs @ [b])"
  note r = msb_topbit_neg [OF assms(1), folded r_def]
  have "128 \<le> unat b" using assms(2) by (simp add: byte_sign)
  then have "2 ^ r < (2 :: nat) ^ 7" using r(2) by simp
  then have "r < 7" by (rule power_less_imp_less_exp [rotated]) simp
  then have r6: "r \<le> 6" by simp
  have n: "n = l + r + 2" using r6 by (simp add: n_def l_def)
  have p: "(256 :: nat) ^ length (cs @ [b]) = 2 ^ l * 256"
    by (simp add: l_def power_256 power_add)
  have W: "W = bytes_val cs + 2 ^ l * unat b" by (simp add: W_def bytes_val_snoc power_256 l_def)
  have lo: "bytes_val cs < 2 ^ l" using bytes_val_bound [of cs] by (simp only: power_256 l_def)
  define c where "c = 255 - unat b"
  have c: "256 = unat b + (c + 1)" using byte_bound [of b] by (simp add: c_def)
  have WL: "W < 2 ^ l * 256" using bytes_val_bound [of "cs @ [b]"] by (simp only: W_def p)
  define m where "m = 2 ^ l * 256 - W"
  have m: "m + bytes_val cs = 2 ^ l * (c + 1)"
  proof -
    have "2 ^ l * 256 = 2 ^ l * unat b + 2 ^ l * (c + 1)" by (subst c) (simp add: distrib_left)
    then show ?thesis using WL by (simp add: m_def W)
  qed
  have up: "2 ^ l * (c + 1) \<le> 2 ^ l * 2 ^ Suc r" using r(3) by (intro mult_le_mono2) (simp add: c_def)
  have dn: "2 ^ l * 2 ^ r \<le> 2 ^ l * c" using r(2) by (intro mult_le_mono2) (simp add: c_def)
  have hi: "m \<le> 2 ^ (n - 1)" using m up unfolding n by (simp add: power_add)
  have "2 ^ l * c < m" using m lo by (simp add: distrib_left)
  with dn have "2 ^ l * 2 ^ r < m" by (rule le_less_trans)
  then have low: "2 ^ (n - 2) < m" unfolding n by (simp add: power_add)
  have "2 ^ l * 256 = (2 :: nat) ^ n * 2 ^ (6 - r)"
  proof -
    have "l + 8 = n + (6 - r)" using r6 n by simp
    then have "(2 :: nat) ^ (l + 8) = 2 ^ (n + (6 - r))" by simp
    then show ?thesis by (simp only: power_add) simp
  qed
  then obtain q where q: "2 ^ l * 256 = 2 ^ n * Suc q" by (metis Suc_pred zero_less_power zero_less_numeral)
  have half: "(2 :: nat) ^ n = 2 * 2 ^ (n - 1)" unfolding n by simp
  have "W + m = q * 2 ^ n + 2 ^ n" using WL q by (simp add: m_def)
  then have e: "W = q * 2 ^ n + (2 ^ n - m)" using hi half by linarith
  have "0 < m" using low by simp
  then have "W mod 2 ^ n = 2 ^ n - m" by (intro div_mod_unique_nat(2) [OF e]) simp
  moreover have "fill_bits n (cs @ [b]) = n" using r6 n by (intro fill_bits_eq) (simp_all add: l_def)
  moreover have "int W - 256 ^ length (cs @ [b]) = - int m"
  proof -
    have "(256 :: int) ^ length (cs @ [b]) = int (2 ^ l * 256)" unfolding p [symmetric] by simp
    then show ?thesis using WL by (simp add: m_def of_nat_diff)
  qed
  ultimately show ?thesis
    using low hi n unfolding neg_bits_ok_def n_def [symmetric] p W_def [symmetric] m_def [symmetric] by simp
qed


lemma signed_neg_bits:
  assumes "bs \<noteq> []" "last bs AND 0x80 \<noteq> 0"
  shows "\<exists>r. from_bytes_signed_bits bs = (True, r)
    \<and> (case r of None \<Rightarrow> sbytes_val bs = -1
        | Some (n, cs) \<Rightarrow> \<exists>m. neg_bits_ok cs (sbytes_val bs) n m)"
proof -
  define rs where "rs = strip_sign 0xff (rev bs)"
  obtain j where j: "bs = rev rs @ replicate j 0xff" using strip_sign_rev [of bs "0xff"] by (auto simp: rs_def)
  have len: "length bs = length (rev rs) + j" by (subst j) simp
  have v: "sbytes_val bs = int (bytes_val (rev rs)) - 256 ^ length (rev rs)"
    using assms bytes_val_ff [of "rev rs" j] unfolding j [symmetric] by (simp add: sbytes_val_def len)
  show ?thesis
  proof (cases rs)
    case Nil
    then show ?thesis using assms v by (simp add: from_bytes_signed_bits_def rs_def)
  next
    case (Cons b rs')
    have b: "b \<noteq> 0xff" using strip_sign_hd Cons unfolding rs_def by metis
    have rev: "rev rs = rev rs' @ [b]" by (simp add: Cons)
    have ne: "rev rs \<noteq> []" "last (rev rs) = b" unfolding rev by simp_all
    show ?thesis
    proof (cases "b AND 0x80 = 0")
      case True
      have "from_bytes_signed_bits bs = (True, Some (length rs * 8 + 1, rev rs @ [0xff]))"
        using assms True by (simp add: from_bytes_signed_bits_def rs_def [symmetric] Cons Let_def)
      moreover have "\<exists>m. neg_bits_ok (rev rs @ [0xff]) (sbytes_val bs) (length rs * 8 + 1) m"
        using neg_bits_special [OF ne(1)] True unfolding v ne(2) by auto
      ultimately show ?thesis by auto
    next
      case False
      define n where "n = length rs * 8 - (7 - msb_topbit 0xff b 7) + 1"
      have "from_bytes_signed_bits bs = (True, Some (n, rev rs))"
        using assms False by (simp add: from_bytes_signed_bits_def rs_def [symmetric] Cons Let_def n_def)
      moreover have "\<exists>m. neg_bits_ok (rev rs) (sbytes_val bs) n m"
        using neg_bits_plain [OF b False, of "rev rs'"] unfolding v rev n_def by (auto simp: Cons)
      ultimately show ?thesis by auto
    qed
  qed
qed

text \<open>The decrement and the inversion of the digits.\<close>

lemma dec_digits_spec:
  assumes "digits_ok ds" "0 < dval ds"
  shows "\<exists>es. dec_digits nb ds
      = (es, if list_all (\<lambda>d. d = 0) (butlast ds) then (if nb = 0 then 30 else nb) else nb)
    \<and> dval es + 1 = dval ds \<and> digits_ok es \<and> length es = length ds"
  using assms
proof (induction ds)
  case Nil
  then show ?case by simp
next
  case (Cons d ds)
  have pred: "unat (d - 1) = unat d - 1" "0 < unat d" if "d \<noteq> 0"
    using that by (simp_all add: unat_sub word_le_nat_alt Suc_le_eq unat_gt_0)
  show ?case
  proof (cases "ds = []")
    case True
    then have "d \<noteq> 0" using Cons.prems(2) by auto
    then show ?thesis using True pred Cons.prems by (simp add: Let_def DIGIT_BITS_def) linarith
  next
    case ne: False
    show ?thesis
    proof (cases "d = 0")
      case False
      then show ?thesis using ne pred Cons.prems by (simp add: list_all_iff) linarith
    next
      case True
      then have pos: "0 < dval ds" using Cons.prems(2) by simp
      have "unat ((0 - 1 :: digit) AND DIGIT_MASK) = BASE - 1"
        by (simp add: unat_and_DIGIT_MASK unsigned_minus_1_eq_mask mask_eq_exp_minus_1 BASE_num
            unat_DIGIT_MASK)
      then show ?thesis
        using Cons.IH [OF _ pos] Cons.prems True ne by (auto simp: BASE_num algebra_simps)
    qed
  qed
qed

lemma unat_xor_mask:
  assumes "unat (d :: digit) < BASE"
  shows "unat (d XOR DIGIT_MASK) = BASE - 1 - unat d"
proof -
  have "d = d AND DIGIT_MASK" using assms by (simp add: word_unat_eq_iff unat_and_DIGIT_MASK)
  then have "d XOR DIGIT_MASK = NOT d AND DIGIT_MASK"
    by (auto simp: bit_eq_iff bit_simps)
  then show ?thesis using unat_not_digit [OF assms] by simp
qed

lemma dval_xor_mask:
  "digits_ok ds \<Longrightarrow> dval (List.map (\<lambda>d. d XOR DIGIT_MASK) ds) + dval ds + 1 = BASE ^ length ds
     \<and> digits_ok (List.map (\<lambda>d. d XOR DIGIT_MASK) ds)"
proof (induction ds)
  case (Cons d ds)
  have d: "unat d < BASE" using Cons.prems by simp
  have "BASE * (dval (List.map (\<lambda>d. d XOR DIGIT_MASK) ds) + dval ds + 1) = BASE * BASE ^ length ds"
    using Cons by simp
  then show ?case using Cons d by (simp add: unat_xor_mask algebra_simps)
qed simp

text \<open>Masking the top digit with \<open>k\<close> bits\<close>

lemma dval_mask_last:
  assumes "digits_ok ds" "ds \<noteq> []" "k \<le> 30"
  shows "dval (butlast ds @ [last ds AND (push_bit k 1 - 1)]) = dval ds mod 2 ^ (30 * (length ds - 1) + k)"
    and "digits_ok (butlast ds @ [last ds AND (push_bit k 1 - 1)])"
proof -
  define A where "A = (2 :: nat) ^ (30 * (length ds - 1))"
  have ds: "ds = butlast ds @ [last ds]" using assms(2) by simp
  have A: "BASE ^ (length ds - 1) = A" by (simp add: A_def BASE_num power_mult)
  have v: "dval ds = dval (butlast ds) + A * unat (last ds)"
    by (subst ds, simp only: dval_append length_butlast A) simp
  have ok: "digits_ok (butlast ds)" "unat (last ds) < BASE" using assms(1) by (metis ds digits_ok_simps)+
  have lt: "dval (butlast ds) < A" using dval_bound [OF ok(1)] unfolding length_butlast A .
  have u: "unat (last ds AND (push_bit k 1 - 1)) = unat (last ds) mod 2 ^ k" by (rule unat_and_exp_minus_1)
  have "dval ds mod (A * 2 ^ k) = A * (dval ds div A mod 2 ^ k) + dval ds mod A" by (rule mod_mult2_eq)
  moreover have "dval ds div A = unat (last ds)" "dval ds mod A = dval (butlast ds)" using lt by (simp_all add: v)
  ultimately have "dval ds mod (A * 2 ^ k) = A * (unat (last ds) mod 2 ^ k) + dval (butlast ds)" by simp
  then show "dval (butlast ds @ [last ds AND (push_bit k 1 - 1)]) = dval ds mod 2 ^ (30 * (length ds - 1) + k)"
    by (simp only: dval_append length_butlast A A_def [symmetric] power_add) (simp add: u [simplified])
  have "unat (last ds) mod 2 ^ k < BASE" using ok(2) by (rule le_less_trans [rotated]) simp
  then show "digits_ok (butlast ds @ [last ds AND (push_bit k 1 - 1)])"
    using ok by (simp add: u [simplified])
qed


lemma from_bytes_negative_spec:
  assumes ds: "digits_ok ds" "length ds = (n + 29) div 30" "dval ds = 2 ^ n - m"
    and m: "2 \<le> n" "0 < m" "m \<le> 2 ^ (n - 1)"
  defines "A \<equiv> BASE ^ (length ds - 1)" and "es \<equiv> from_bytes_negative (n mod 30) ds"
  shows "digits_ok es" "length es = length ds"
    and "dval es = (if n mod 30 = 0 \<and> \<not> A dvd m then m mod A else m)"
proof -
  define q where "q = length ds - 1"
  have half: "(2 :: nat) ^ n = 2 * 2 ^ (n - 1)" using m(1) by (cases n) simp_all
  then have V: "0 < dval ds" "m < 2 ^ n" using m(2,3) ds(3) by (simp_all add: less_le_trans)
  have ne: "ds \<noteq> []" using V(1) by auto
  have q: "length ds = Suc q" using ne by (cases ds) (simp_all add: q_def)
  have A: "A = 2 ^ (30 * q)" by (simp add: A_def q BASE_num power_mult)
  obtain e1 k where e1: "dec_digits (n mod 30) ds = (e1, k)" "dval e1 + 1 = dval ds" "digits_ok e1"
    "length e1 = length ds"
    and k: "k = (if list_all (\<lambda>d. d = 0) (butlast ds) then (if n mod 30 = 0 then 30 else n mod 30) else n mod 30)"
    using dec_digits_spec [OF ds(1) V(1), of "n mod 30"] by auto
  define e2 where "e2 = List.map (\<lambda>d. d XOR DIGIT_MASK) e1"
  have e2: "dval e2 = BASE ^ length ds - dval ds" "digits_ok e2" "length e2 = length ds" "e2 \<noteq> []"
    using dval_xor_mask [OF e1(3)] e1(2,4) ne by (auto simp: e2_def)
  have es: "es = butlast e2 @ [last e2 AND (push_bit k 1 - 1)]"
    by (simp add: es_def from_bytes_negative_def e1 e2_def Let_def)
  have "n mod 30 < 30" by simp
  then have k30: "k \<le> 30" by (auto simp: k simp del: mod_less_divisor)
  show "digits_ok es" unfolding es by (rule dval_mask_last(2) [OF e2(2,4) k30])
  show "length es = length ds" using e2(3) q by (simp add: es)
  have val: "dval es = (BASE ^ length ds - dval ds) mod 2 ^ (30 * q + k)"
    using dval_mask_last(1) [OF e2(2,4) k30] unfolding es e2(1,3) q by simp
  have zero: "list_all (\<lambda>d. d = 0) (butlast ds) \<longleftrightarrow> A dvd dval ds"
  proof -
    have split: "ds = butlast ds @ [last ds]" using ne by simp
    have "dval ds = dval (butlast ds) + A * unat (last ds)"
      by (subst split, simp only: dval_append length_butlast A_def) simp
    moreover have "digits_ok (butlast ds)" using ds(1) by (metis split digits_ok_simps(3))
    then have "dval (butlast ds) < A" using dval_bound [of "butlast ds"] unfolding length_butlast A_def by blast
    ultimately have "A dvd dval ds \<longleftrightarrow> dval (butlast ds) = 0"
      by (simp add: dvd_add_left_iff nat_dvd_not_less) (metis gr0I nat_dvd_not_less dvd_0_right)
    then show ?thesis by (simp add: dval_eq_0_iff list_all_iff)
  qed
  show "dval es = (if n mod 30 = 0 \<and> \<not> A dvd m then m mod A else m)"
  proof (cases "n mod 30 = 0")
    case False
    have n: "n = 30 * q + n mod 30"
    proof -
      have "Suc q = (n + 29) div 30" using ds(2) q by simp
      also have "\<dots> = n div 30 + 1"
      proof -
        obtain a b where n: "n = 30 * a + b" "b < 30" "b \<noteq> 0"
          by (metis False mod_less_divisor mult_div_mod_eq zero_less_numeral)
        have "(30 * a + b + 29) div 30 = a + 1" "(30 * a + b) div 30 = a" using n(2,3) by simp_all
        then show ?thesis unfolding n(1) by simp
      qed
      finally show ?thesis by simp
    qed
    have "k = n mod 30" using False k by simp
    then have e: "30 * q + k = n" using n by simp
    define b where "b = n mod 30"
    have "n = 30 * q + b" "b < 30" using n by (simp_all add: b_def)
    then have "30 * Suc q = n + (30 - b)" by simp
    then have "30 * Suc q = n + (30 - n mod 30)" by (simp only: b_def)
    then have B: "BASE ^ length ds = 2 ^ n * 2 ^ (30 - n mod 30)"
      unfolding q by (metis BASE_def DIGIT_BITS_def power_add power_mult)
    obtain p where p: "(2 :: nat) ^ (30 - n mod 30) = Suc p" by (metis Suc_pred zero_less_power zero_less_numeral)
    have "BASE ^ length ds - dval ds = 2 ^ n * p + m" unfolding B p ds(3) using V(2) by simp
    then have "dval es = m" unfolding val e using V(2) by simp
    then show ?thesis using False by simp
  next
    case True
    have n: "n = 30 * Suc q"
    proof -
      obtain a where a: "n = 30 * a" using True by (auto simp: mod_eq_0_iff_dvd dvd_def)
      then have "a = Suc q" using ds(2) q by simp
      then show ?thesis using a by simp
    qed
    have B: "BASE ^ length ds = 2 ^ n" unfolding q n by (metis BASE_def DIGIT_BITS_def power_mult)
    have "A dvd 2 ^ n" unfolding A n by (intro le_imp_power_dvd) simp
    then have "A dvd dval ds \<longleftrightarrow> A dvd m"
      unfolding ds(3) using V(2) by (metis dvd_diffD1 dvd_diff_nat less_imp_le)
    then have k: "k = (if A dvd m then 30 else 0)" using k zero True by simp
    have "dval es = m mod 2 ^ (30 * q + k)" unfolding val B ds(3) using V(2) by simp
    moreover have "m < 2 ^ (30 * q + 30)" using V(2) n by (simp add: add.commute)
    ultimately show ?thesis using True k by (simp add: A)
  qed
qed


text \<open>
  \<open>signed_bits v\<close>: the bits of the two's complement of a negative number.  \<open>read_mag\<close>: the magnitude
  the reader returns for it, with \<open>top\<close> the weight of the last digit.
\<close>

definition signed_bits :: "int \<Rightarrow> nat" where
  "signed_bits v = bitlen (nat (- v - 1)) + 1"

definition read_digits :: "int \<Rightarrow> nat" where
  "read_digits v = (signed_bits v + 29) div 30"

definition read_mag :: "int \<Rightarrow> nat" where
  "read_mag v =
     (let m = nat (- v); top = BASE ^ (read_digits v - 1)
      in if signed_bits v mod 30 = 0 \<and> \<not> top dvd m then m mod top else m)"

lemma neg_bits_signed_bits:
  assumes "neg_bits_ok cs v n m"
  shows "signed_bits v = n" "nat (- v) = m" "v < -1"
proof -
  have *: "2 \<le> n" "v = - int m" "2 ^ (n - 2) < m" "m \<le> 2 ^ (n - 1)" using assms by (simp_all add: neg_bits_ok_def)
  have "(1 :: nat) \<le> 2 ^ (n - 2)" by simp
  then have m: "2 \<le> m" using *(3) by linarith
  obtain k where k: "n = Suc (Suc k)" using *(1) by (metis Suc_le_D numeral_2_eq_2 Suc_le_mono)
  have "bitlen (m - 1) = Suc k"
  proof (rule bitlen_unique)
    show "2 ^ k \<le> m - 1" using *(3) m by (simp add: k)
    have "m \<le> 2 ^ Suc k" using *(4) by (simp add: k)
    then show "m - 1 < 2 ^ Suc k" using m by linarith
  qed
  moreover have "nat (- v - 1) = m - 1" using *(2) m by simp
  ultimately show "signed_bits v = n" by (simp add: signed_bits_def k)
  show "nat (- v) = m" "v < -1" using *(2) m by simp_all
qed

text \<open>
  When the signed reader is right about a buffer of \<open>n\<close> bytes of value \<open>v\<close>: \<open>border_ok\<close> is the condition on
  a negative number of \<open>b\<close> bits and magnitude \<open>m\<close>.
\<close>

definition border_ok :: "nat \<Rightarrow> nat \<Rightarrow> bool" where
  "border_ok b m \<longleftrightarrow>
     (if b mod 30 = 0 then 2 ^ (b - 30) dvd m else if b mod 30 = 1 then m = 2 ^ (b - 1) else True)"

definition reads_back :: "nat \<Rightarrow> int \<Rightarrow> bool" where
  "reads_back n v \<longleftrightarrow> -1 \<le> v \<or> n \<in> {0, 1, 2, 4, 8, 16} \<or> border_ok (signed_bits v) (nat (- v))"

text \<open>The top digit of a magnitude of \<open>n\<close> bits with the sign, and what is left when it is masked away.\<close>

lemma border_top:
  assumes "2 \<le> n" "2 ^ (n - 2) < m" "m \<le> 2 ^ (n - 1)" and q: "q + 1 = (n + 29) div 30"
  defines "A \<equiv> BASE ^ q"
  defines "k \<equiv> if n mod 30 = 0 \<and> \<not> A dvd m then m mod A else m"
  shows "k = m \<and> A \<le> k \<longleftrightarrow> border_ok n m"
proof -
  obtain a c where n: "n = 30 * a + c" "c < 30" "c = n mod 30"
    by (metis mod_less_divisor mult_div_mod_eq zero_less_numeral)
  have A: "A = 2 ^ (30 * q)" unfolding A_def by (metis BASE_def DIGIT_BITS_def power_mult)
  have A_le: "A \<le> m" if "30 * q \<le> n - 2"
  proof -
    have "A \<le> 2 ^ (n - 2)" unfolding A using that by (intro power_increasing) simp_all
    then show ?thesis using assms(2) by simp
  qed
  show ?thesis
  proof (cases "c = 0")
    case True
    then have q': "n = 30 * (q + 1)" using n(1) q by simp
    have le: "A \<le> m" by (rule A_le) (simp add: q')
    moreover have "m mod A \<noteq> m" using le by (metis A mod_less_divisor not_le zero_less_numeral zero_less_power)
    ultimately show ?thesis using q' by (auto simp: k_def border_ok_def A)
  next
    case False
    have "(30 * a + c + 29) div 30 = a + 1" using False n(2) by simp
    then have q': "q = a" using q n(1) by simp
    have k: "k = m" using False n(3) by (simp add: k_def)
    show ?thesis
    proof (cases "c = 1")
      case True
      then have "A = 2 ^ (n - 1)" using n(1) q' by (simp add: A)
      then show ?thesis using assms(3) True n(3) by (auto simp: k border_ok_def)
    next
      case more: False
      have "A \<le> m" using False more n(1) q' by (intro A_le) simp
      then show ?thesis using False more n(3) by (simp add: k border_ok_def)
    qed
  qed
qed

lemma generic_negative:
  assumes "bs \<noteq> []" "last bs AND 0x80 \<noteq> 0"
  defines "v \<equiv> sbytes_val bs" and "r \<equiv> from_bytes_generic bs True"
  shows "v = -1 \<and> represents r v
    \<or> v < -1 \<and> int_mem r \<and> ob_size r = - int (read_digits v) \<and> int_mag r = read_mag v
      \<and> (represents r v \<longleftrightarrow> border_ok (signed_bits v) (nat (- v)))"
proof -
  obtain x where x: "from_bytes_signed_bits bs = (True, x)"
    and cases: "case x of None \<Rightarrow> v = -1 | Some (n, cs) \<Rightarrow> \<exists>m. neg_bits_ok cs v n m"
    using signed_neg_bits [OF assms(1,2)] unfolding v_def by blast
  show ?thesis
  proof (cases x)
    case None
    then show ?thesis using x cases represents_MinusOne by (simp add: r_def from_bytes_generic_def)
  next
    case (Some p)
    then obtain n cs m where p: "x = Some (n, cs)" and ok: "neg_bits_ok cs v n m"
      using cases by (cases p) auto
    have sb: "signed_bits v = n" "nat (- v) = m" "v < -1" by (rule neg_bits_signed_bits [OF ok])+
    have b: "cs \<noteq> []" "fill_bits n cs = n" "2 \<le> n" "v = - int m" "2 ^ (n - 2) < m" "m \<le> 2 ^ (n - 1)"
      "bytes_val cs mod 2 ^ n = 2 ^ n - m" using ok by (simp_all add: neg_bits_ok_def)
    obtain ds where ds: "from_bytes_digits n cs = (ds, n mod 30)" "dval ds = 2 ^ n - m" "digits_ok ds"
      "length ds = (n + 29) div 30"
      using from_bytes_digits_spec [OF b(1), of n] unfolding b(2,7) by auto
    have m: "0 < m" using b(5) by simp
    define es where "es = from_bytes_negative (n mod 30) ds"
    note es = from_bytes_negative_spec [OF ds(3,4,2) b(3) m b(6), folded es_def]
    have r: "r = negate_size (DeeInt_Alloc es)"
      by (simp add: r_def from_bytes_generic_def x p ds es_def)
    have td: "read_digits v = length ds" by (simp add: read_digits_def sb ds(4))
    have mag: "int_mag r = read_mag v" using es(3) by (simp add: r read_mag_def sb td Let_def)
    have size: "ob_size r = - int (read_digits v)" using es(2) by (simp add: r td)
    have mem: "int_mem r" using es(1) by (simp add: r)
    have ne: "es \<noteq> []" using es(2) ds(4) b(3) by auto
    have "represents r v \<longleftrightarrow> last es \<noteq> 0 \<and> dval es = m"
      using ne es(1) by (auto simp: r represents_def int_ok_def b(4))
    also have "\<dots> \<longleftrightarrow> dval es = m \<and> BASE ^ (length es - 1) \<le> dval es"
      using dval_lower [OF ne] dval_last [OF es(1) ne] by blast
    also have "\<dots> \<longleftrightarrow> border_ok n m"
      unfolding es(2,3) using ds(4) b(3) by (intro border_top [OF b(3,5,6)]) simp
    finally have "represents r v \<longleftrightarrow> border_ok n m" .
    then show ?thesis using sb mem size mag by simp
  qed
qed

lemma fast_lengths:
  assumes "length bs \<in> {0, 1, 2, 4, 8, 16}"
  shows "represents (DeeInt_FromBytes (if le then bs else rev bs) le s)
    (if s then sbytes_val bs else int (bytes_val bs))"
proof -
  have bs: "(if le then (if le then bs else rev bs) else rev (if le then bs else rev bs)) = bs" by simp
  consider "bs = []" | "length bs = 1" | "length bs = 2" | "length bs = 4" | "length bs = 8" | "length bs = 16"
    using assms by auto
  then show ?thesis
  proof cases
    case 1
    then show ?thesis using represents_Zero by (simp add: DeeInt_FromBytes_def sbytes_val_def)
  next
    case 2
    then have "8 * length bs = LENGTH(8)" by simp
    from unaligned_get_values [OF this] 2 list.size(3) show ?thesis
      using represents_NewInt8 [of "unaligned_get bs"] represents_NewUInt8 [of "unaligned_get bs"]
      by (auto simp: DeeInt_FromBytes_def)
  next
    case 3
    then have "8 * length bs = LENGTH(16)" by simp
    from unaligned_get_values [OF this] 3 list.size(3) show ?thesis
      using represents_NewInt16 [of "unaligned_get bs"] represents_NewUInt16 [of "unaligned_get bs"]
      by (auto simp: DeeInt_FromBytes_def)
  next
    case 4
    then have "8 * length bs = LENGTH(32)" by simp
    from unaligned_get_values [OF this] 4 list.size(3) show ?thesis
      using represents_NewInt32 [of "unaligned_get bs"] represents_NewUInt32 [of "unaligned_get bs"]
      by (auto simp: DeeInt_FromBytes_def)
  next
    case 5
    then have "8 * length bs = LENGTH(64)" by simp
    from unaligned_get_values [OF this] 5 list.size(3) show ?thesis
      using represents_NewInt64 [of "unaligned_get bs"] represents_NewUInt64 [of "unaligned_get bs"]
      by (auto simp: DeeInt_FromBytes_def)
  next
    case 6
    then have "8 * length bs = LENGTH(128)" by simp
    from unaligned_get_values [OF this] 6 list.size(3) show ?thesis
      using represents_NewInt128 [of "unaligned_get bs"] represents_NewUInt128 [of "unaligned_get bs"]
      by (auto simp: DeeInt_FromBytes_def)
  qed
qed


lemma FromBytes_generic:
  assumes "length bs \<notin> {0, 1, 2, 4, 8, 16}"
  shows "DeeInt_FromBytes (if le then bs else rev bs) le s = from_bytes_generic bs s"
  using assms by (auto simp: DeeInt_FromBytes_def)

lemma sbytes_val_neg: "sbytes_val bs < 0 \<Longrightarrow> bs \<noteq> [] \<and> last bs AND 0x80 \<noteq> 0"
  by (auto simp: sbytes_val_def split: if_splits)

lemma FromBytes_unsigned:
  "represents (DeeInt_FromBytes (if le then bs else rev bs) le False) (int (bytes_val bs))"
  using fast_lengths [of bs le False] FromBytes_generic [of bs le False] generic_unsigned [of bs]
  by (cases "length bs \<in> {0, 1, 2, 4, 8, 16}") simp_all

lemma FromBytes_signed:
  fixes bs :: "u8 list" and le :: bool
  defines "v \<equiv> sbytes_val bs" and "r \<equiv> DeeInt_FromBytes (if le then bs else rev bs) le True"
  shows "if reads_back (length bs) v then represents r v
         else \<not> represents r v \<and> int_mem r \<and> ob_size r = - int (read_digits v) \<and> int_mag r = read_mag v"
proof (cases "length bs \<in> {0, 1, 2, 4, 8, 16}")
  case True
  then show ?thesis using fast_lengths [OF True, of le True] by (simp add: reads_back_def v_def r_def)
next
  case False
  then have r: "r = from_bytes_generic bs True" and ne: "bs \<noteq> []"
    using FromBytes_generic [of bs le True] by (auto simp: r_def)
  show ?thesis
  proof (cases "last bs AND 0x80 = 0")
    case True
    then have "0 \<le> v" by (simp add: v_def sbytes_val_def)
    then show ?thesis using generic_nonneg [OF ne True] r by (simp add: reads_back_def v_def)
  next
    case neg: False
    from generic_negative [OF ne neg, folded v_def r]
    show ?thesis using False unfolding reads_back_def by auto
  qed
qed

text \<open>The bytes of a number that fits are read as that number.\<close>

lemma bytes_of_fitting:
  assumes "fits n s v"
  shows "(if s then sbytes_val (le_bytes n (nat (v mod 256 ^ n)))
          else int (bytes_val (le_bytes n (nat (v mod 256 ^ n))))) = v"
proof -
  have p: "(256 :: int) ^ n = 2 ^ (8 * n)" by (simp add: power_mult)
  have pos: "0 \<le> v mod 256 ^ n" "v mod 256 ^ n < 256 ^ n" by simp_all
  then have lt: "nat (v mod 256 ^ n) < 256 ^ n" by (simp add: nat_less_iff)
  then have b: "int (bytes_val (le_bytes n (nat (v mod 256 ^ n)))) = v mod 256 ^ n"
    using pos by (simp add: bytes_val_le_bytes)
  show ?thesis
  proof (cases s)
    case False
    then have "0 \<le> v" "v < 256 ^ n" using assms unfolding p by (auto simp: fits_def)
    then show ?thesis using False b by simp
  next
    case True
    show ?thesis
    proof (cases "v = 0 \<or> n = 0")
      case z: True
      then have "v = 0" using assms True by (auto simp: fits_def)
      then have "le_bytes n (nat (v mod 256 ^ n)) = replicate n 0" by (simp add: le_bytes_0)
      moreover have "bytes_val (replicate n 0) = 0" using bytes_val_zeros [of "[]" n] by simp
      ultimately show ?thesis using True \<open>v = 0\<close> last_replicate [of n "0 :: u8"]
        by (cases "n = 0") (simp_all add: sbytes_val_def)
    next
      case False
      define bs where "bs = le_bytes n (nat (v mod 256 ^ n))"
      have ne: "bs \<noteq> []" "length bs = n" using False by (auto simp: bs_def dest: arg_cong [of _ _ length])
      have "8 * n = Suc (8 * n - 1)" using False by simp
      then have half: "(256 :: int) ^ n = 2 * 2 ^ (8 * n - 1)" unfolding p by (metis power_Suc)
      have fit: "\<bar>v\<bar> < 2 ^ (8 * n - 1)" using assms True False by (simp add: fits_def)
      have sgn: "last bs AND 0x80 = 0 \<longleftrightarrow> v mod 256 ^ n < 2 ^ (8 * n - 1)"
        unfolding sbytes_cases [OF ne(1)] ne(2) b [folded bs_def, symmetric] by simp
      show ?thesis
      proof (cases "0 \<le> v")
        case nn: True
        then have "v mod 256 ^ n = v" using fit half by simp
        then show ?thesis unfolding bs_def [symmetric]
          using True sgn b [folded bs_def] fit nn ne by (simp add: sbytes_val_def)
      next
        case neg: False
        have "v mod 256 ^ n = (v + 256 ^ n) mod 256 ^ n" by simp
        also have "\<dots> = v + 256 ^ n" using fit half neg by (intro mod_pos_pos_trivial) linarith+
        finally show ?thesis unfolding bs_def [symmetric]
          using True sgn b [folded bs_def] fit half neg ne by (simp add: sbytes_val_def)
      qed
    qed
  qed
qed

lemma AsBytes_FromBytes:
  assumes "int_ok x" "fits n s (int_val x)" "\<not> s \<or> reads_back n (int_val x)"
  shows "\<exists>bs. DeeInt_AsBytes x n le s = Inr bs \<and> represents (DeeInt_FromBytes bs le s) (int_val x)"
proof -
  define bs where "bs = le_bytes n (nat (int_val x mod 256 ^ n))"
  have v: "(if s then sbytes_val bs else int (bytes_val bs)) = int_val x"
    unfolding bs_def by (rule bytes_of_fitting [OF assms(2)])
  have "represents (DeeInt_FromBytes (if le then bs else rev bs) le s) (int_val x)"
    using FromBytes_unsigned [of le bs] FromBytes_signed [of bs le] assms(3) v
    by (cases s) (auto simp: bs_def)
  moreover have "DeeInt_AsBytes x n le s = Inr (if le then bs else rev bs)"
    using AsBytes_spec [OF assms(1), of n le s] assms(2) by (simp add: bs_def Let_def)
  ultimately show ?thesis by blast
qed


section \<open>The length chosen by \<open>int.tobytes\<close>\<close>

lemma tobytes_fits:
  assumes "v = 0 \<or> 0 < v \<or> s" "n = (req_bits v s + 7) div 8"
  shows "fits n s v \<longleftrightarrow> \<not> (s \<and> (\<exists>j>0. v = - (2 ^ (8 * j - 1))))"
proof -
  have n: "req_bits v s \<le> 8 * n" using assms(2) by simp
  have up: "(2 :: int) ^ a \<le> 2 ^ b" if "a \<le> b" for a b using that by (intro power_increasing) simp_all
  show ?thesis
  proof (cases "0 \<le> v")
    case True
    have "\<bar>v\<bar> < 2 ^ bitlen (nat v)"
      using bitlen_less [of "nat v"] True by (metis abs_of_nonneg nat_less_numeral_power_cancel_iff)
    then have "fits n s v" if "v \<noteq> 0"
    proof -
      have "bitlen (nat v) \<le> 8 * n - (if s then 1 else 0)"
        using n True that by (auto simp: req_bits_def split: if_splits)
      from up [OF this] \<open>\<bar>v\<bar> < 2 ^ bitlen (nat v)\<close> show ?thesis
        using True that unfolding fits_def by linarith
    qed
    moreover have "v \<noteq> - (2 ^ (8 * j - 1))" for j
      using True zero_less_power [of "2 :: int" "8 * j - 1"] by linarith
    ultimately show ?thesis by (cases "v = 0") (auto simp: fits_def)
  next
    case neg: False
    then have s: s using assms(1) by auto
    define m where "m = nat (- v)"
    have m: "0 < m" "v = - int m" using neg by (simp_all add: m_def)
    have b1: "bitlen m \<le> 8 * n - 1 \<longleftrightarrow> fits n s v"
      unfolding bitlen_le_iff fits_def using s m by simp
    have pow: "(\<exists>j>0. v = - (2 ^ (8 * j - 1))) \<longleftrightarrow> (\<exists>j>0. m = 2 ^ (8 * j - 1))"
    proof -
      have "- int m = - (2 ^ k) \<longleftrightarrow> m = 2 ^ k" for k
        using of_nat_eq_iff [of m "2 ^ k", where 'a = int] by simp
      then show ?thesis unfolding m(2) by simp
    qed
    show ?thesis
    proof (cases "m = 1")
      case True
      then have "n = 1" using assms(2) m by (simp add: req_bits_def)
      moreover have "m \<noteq> 2 ^ (8 * j - 1)" if "0 < j" for j
      proof -
        have "(2 :: nat) ^ 1 \<le> 2 ^ (8 * j - 1)" using that by (intro power_increasing) simp_all
        then show ?thesis using True by simp
      qed
      ultimately show ?thesis using b1 pow True s by auto
    next
      case False
      have r: "req_bits v s = bitlen (m - 1) + 1"
      proof -
        have "v \<noteq> 0" "v \<noteq> -1" "v < 0" "nat (- v - 1) = m - 1" using m False by simp_all
        then show ?thesis by (simp add: req_bits_def)
      qed
      show ?thesis
      proof (cases "\<exists>k. m = 2 ^ k")
        case False
        then have "bitlen m + 1 = req_bits v s" using r bitlen_pred [OF m(1)] by simp
        then show ?thesis using n b1 pow False by auto
      next
        case True
        then obtain k where k: "m = 2 ^ k" ..
        have bl: "bitlen m = Suc k" by (rule bitlen_unique) (simp_all add: k)
        have rk: "req_bits v s = k + 1" using r bitlen_pred [OF m(1)] True bl by simp
        have "bitlen m \<le> 8 * n - 1 \<longleftrightarrow> 8 * n \<noteq> k + 1" using n rk bl by auto
        also have "\<dots> \<longleftrightarrow> \<not> (\<exists>j>0. k = 8 * j - 1)"
        proof
          assume *: "8 * n \<noteq> k + 1"
          show "\<not> (\<exists>j>0. k = 8 * j - 1)"
          proof
            assume "\<exists>j>0. k = 8 * j - 1"
            then obtain j where "k + 1 = 8 * j" by auto
            then show False using * assms(2) rk by simp
          qed
        next
          assume *: "\<not> (\<exists>j>0. k = 8 * j - 1)"
          show "8 * n \<noteq> k + 1"
          proof
            assume "8 * n = k + 1"
            then have "0 < n" "k = 8 * n - 1" by simp_all
            then show False using * by blast
          qed
        qed
        also have "(\<exists>j>0. k = 8 * j - 1) \<longleftrightarrow> (\<exists>j>0. m = 2 ^ (8 * j - 1))" by (simp add: k)
        finally show ?thesis using b1 pow s by blast
      qed
    qed
  qed
qed

lemma tobytes_overflow:
  assumes "int_ok x" "byteorder_little bo = Inr le"
  shows "int_tobytes x None bo s = Inl IntegerOverflow \<longleftrightarrow>
    int_val x < 0 \<and> (s \<longrightarrow> (\<exists>j>0. int_val x = - (2 ^ (8 * j - 1))))"
proof (cases "int_val x < 0 \<and> \<not> s")
  case True
  then show ?thesis using int_reqbits_spec [OF assms(1), of s] by (simp add: int_tobytes_def)
next
  case False
  define n where "n = (req_bits (int_val x) s + 7) div 8"
  have "int_val x = 0 \<or> 0 < int_val x \<or> s" using False by auto
  from tobytes_fits [OF this n_def]
  have f: "fits n s (int_val x) \<longleftrightarrow> \<not> (s \<and> (\<exists>j>0. int_val x = - (2 ^ (8 * j - 1))))" .
  have "int_tobytes x None bo s = DeeInt_AsBytes x n le s"
    using int_reqbits_spec [OF assms(1), of s] False assms(2) by (auto simp: int_tobytes_def n_def)
  then have "int_tobytes x None bo s = Inl IntegerOverflow \<longleftrightarrow> \<not> fits n s (int_val x)"
    using AsBytes_spec [OF assms(1), of n le s] by (simp add: Let_def)
  moreover have "int_val x < 0" if "int_val x = - (2 ^ (8 * j - 1))" for j
    using that by simp
  ultimately show ?thesis using f False by blast
qed


section \<open>Properties\<close>

text \<open>C21: encoding an integer in bytes.

  The bytes are those of the two's complement of the value at the asked width, in the asked order;
  the operation overflows when the magnitude needs more than the width (one bit less with a sign),
  so the most negative value of a width is refused.  \<open>int.bitcount\<close> counts the bits
  of the shortest two's complement, and \<open>int.tobytes\<close> with the length it derives from that
  count fails exactly for a negative value without a sign and for the most negative value of
  some number of bytes.  Where the encoding succeeds and the reader is exact, reading it back
  gives a well-formed integer of the same value.\<close>

theorem int_to_bytes_characterized:
  assumes "int_ok x"
  shows "DeeInt_AsBytes x n le s =
           (if int_val x = 0 \<or> (s \<or> 0 < int_val x) \<and> \<bar>int_val x\<bar> < 2 ^ (8 * n - (if s then 1 else 0))
            then let bs = le_bytes n (nat (int_val x mod 256 ^ n)) in Inr (if le then bs else rev bs)
            else Inl IntegerOverflow)
         \<and> int_reqbits x s =
             (if int_val x < 0 \<and> \<not> s then Inl IntegerOverflow else Inr (req_bits (int_val x) s))
         \<and> (byteorder_little bo = Inr le \<longrightarrow>
              int_tobytes x None bo s = Inl IntegerOverflow \<longleftrightarrow>
              int_val x < 0 \<and> (s \<longrightarrow> (\<exists>j>0. int_val x = - (2 ^ (8 * j - 1)))))
         \<and> (fits n s (int_val x) \<and> (\<not> s \<or> reads_back n (int_val x)) \<longrightarrow>
              (\<exists>bs. DeeInt_AsBytes x n le s = Inr bs
                    \<and> represents (DeeInt_FromBytes bs le s) (int_val x)))"
proof (intro conjI impI)
  show "DeeInt_AsBytes x n le s =
          (if int_val x = 0 \<or> (s \<or> 0 < int_val x) \<and> \<bar>int_val x\<bar> < 2 ^ (8 * n - (if s then 1 else 0))
           then let bs = le_bytes n (nat (int_val x mod 256 ^ n)) in Inr (if le then bs else rev bs)
           else Inl IntegerOverflow)"
    by (rule AsBytes_spec [OF assms, unfolded fits_def])
  show "int_reqbits x s =
          (if int_val x < 0 \<and> \<not> s then Inl IntegerOverflow else Inr (req_bits (int_val x) s))"
    by (rule int_reqbits_spec [OF assms])
  show "int_tobytes x None bo s = Inl IntegerOverflow \<longleftrightarrow>
          int_val x < 0 \<and> (s \<longrightarrow> (\<exists>j>0. int_val x = - (2 ^ (8 * j - 1))))"
    if "byteorder_little bo = Inr le"
    by (rule tobytes_overflow [OF assms that])
  show "\<exists>bs. DeeInt_AsBytes x n le s = Inr bs \<and> represents (DeeInt_FromBytes bs le s) (int_val x)"
    if "fits n s (int_val x) \<and> (\<not> s \<or> reads_back n (int_val x))"
    using that AsBytes_FromBytes [OF assms] by blast
qed

theorem int_to_bytes_characterized_witness:
  "DeeInt_AsBytes (DeeInt_NewInt64 (-128)) 1 True True = Inl IntegerOverflow
   \<and> int_tobytes (DeeInt_NewInt64 (-128)) None (Some ''little'') True = Inl IntegerOverflow
   \<and> (\<exists>bs. DeeInt_AsBytes (DeeInt_NewInt64 (-128)) 2 False True = Inr bs
           \<and> represents (DeeInt_FromBytes bs False True) (-128))"
proof -
  have r: "int_ok (DeeInt_NewInt64 (-128))" "int_val (DeeInt_NewInt64 (-128)) = -128"
    using represents_NewInt64 [of "-128"] by (simp_all add: represents_def)
  have p: "\<exists>j>0. (-128 :: int) = - (2 ^ (8 * j - 1))" by (rule exI [of _ 1]) simp
  have b: "byteorder_little (Some ''little'') = Inr True" "(-128 :: int) < 0"
    by (simp_all add: byteorder_little_def)
  have f: "fits 2 True (-128)" "reads_back 2 (-128)" by (simp_all add: fits_def reads_back_def)
  show ?thesis
  proof (intro conjI)
    show "DeeInt_AsBytes (DeeInt_NewInt64 (-128)) 1 True True = Inl IntegerOverflow"
      using int_to_bytes_characterized [OF r(1), of 1 True True] unfolding r(2) by simp
    show "int_tobytes (DeeInt_NewInt64 (-128)) None (Some ''little'') True = Inl IntegerOverflow"
      using int_to_bytes_characterized [OF r(1), of 1 True True "Some ''little''"] b p
      unfolding r(2) by blast
    show "\<exists>bs. DeeInt_AsBytes (DeeInt_NewInt64 (-128)) 2 False True = Inr bs
               \<and> represents (DeeInt_FromBytes bs False True) (-128)"
      using int_to_bytes_characterized [OF r(1), of 2 False True] f unfolding r(2) by blast
  qed
qed

lemma FromBytes_unnormalized:
  "DeeInt_FromBytes [1, 0, 0, 0xC0, 0xFF] True True = \<lparr>ob_size = -2, ob_digit = [1073741823, 0]\<rparr>"
  by code_simp

lemma FromBytes_wrong_value:
  "DeeInt_FromBytes [1, 0, 0, 0, 0, 0, 0, 0xF8, 0xFF] True True
     = \<lparr>ob_size = -2, ob_digit = [1073741823, 0]\<rparr>"
  by code_simp

lemma sbytes_val_9: "sbytes_val [1, 0, 0, 0, 0, 0, 0, 0xF8, 0xFF] = - (2 ^ 59 - 1)"
  by (simp add: sbytes_val_def)

text \<open>C22: decoding an integer from bytes.

  Reading bytes without a sign gives the well-formed integer they denote, whatever their number and
  order.  Reading them as two's complement is exact for non-negative values and for -1, and for 0, 1, 2,
  4, 8 and 16 bytes.  For another number of bytes and a negative value it is exact if and only if the bits of the
  shortest encoding leave at least two in the top digit, or leave one and the magnitude is the power of
  two that fills it, or end at a digit border and all digits of the magnitude but the last are zero.
  What is read otherwise are the digits of the magnitude with a zero
  top digit, or with what reached the top digit masked away: five bytes of -(2^30 - 1) give an
  integer that is not normalized, and nine bytes of -(2^59 - 1) read as -(2^30 - 1).\<close>

theorem int_from_bytes_characterized:
  "represents (DeeInt_FromBytes (if le then bs else rev bs) le False) (int (bytes_val bs))
   \<and> (if reads_back (length bs) (sbytes_val bs)
      then represents (DeeInt_FromBytes (if le then bs else rev bs) le True) (sbytes_val bs)
      else \<not> represents (DeeInt_FromBytes (if le then bs else rev bs) le True) (sbytes_val bs)
           \<and> int_mem (DeeInt_FromBytes (if le then bs else rev bs) le True)
           \<and> ob_size (DeeInt_FromBytes (if le then bs else rev bs) le True)
               = - int (read_digits (sbytes_val bs))
           \<and> int_mag (DeeInt_FromBytes (if le then bs else rev bs) le True) = read_mag (sbytes_val bs))
   \<and> DeeInt_FromBytes [1, 0, 0, 0xC0, 0xFF] True True
       = \<lparr>ob_size = -2, ob_digit = [1073741823, 0]\<rparr>
   \<and> DeeInt_FromBytes [1, 0, 0, 0, 0, 0, 0, 0xF8, 0xFF] True True
       = \<lparr>ob_size = -2, ob_digit = [1073741823, 0]\<rparr>
   \<and> sbytes_val [1, 0, 0, 0, 0, 0, 0, 0xF8, 0xFF] = - (2 ^ 59 - 1)"
  using FromBytes_unsigned [of le bs] FromBytes_signed [of bs le] FromBytes_unnormalized FromBytes_wrong_value
    sbytes_val_9
  by (intro conjI) blast+

end
