(* ===== verification/IntPrint.thy ===== *)
theory IntPrint
  imports IntObject
begin

text \<open>
  Printing integers: \<open>DeeInt_Print\<close>, \<open>DeeInt_PrintDecimal\<close> and the methods of src/deemon/objects/int.c
  built on them.  The printer never fails, and the result is the bytes it is given.  A buffer that
  is filled from its end is the list of the bytes written; as its start only moves down, it is enough to
  compare the final length with the size allocated: \<open>None\<close> is a write outside the buffer.
  \<open>radix_digits\<close> and \<open>separated\<close> say what the text of a number is.
\<close>

section \<open>Characters and flags\<close>

text \<open>\<open>DeeAscii_ItoaDigits\<close>: the 36 digits in lower or upper case.\<close>

definition itoa_digit :: "bool \<Rightarrow> nat \<Rightarrow> u8" where
  "itoa_digit upper i = (if i < 10 then 0x30 + of_nat i else (if upper then 0x41 else 0x61) + of_nat (i - 10))"

definition PRINT_FUPPER :: "u32 \<Rightarrow> bool" where "PRINT_FUPPER flags = (flags AND 0x1 \<noteq> 0)"
definition PRINT_FNUMSYS :: "u32 \<Rightarrow> bool" where "PRINT_FNUMSYS flags = (flags AND 0x2 \<noteq> 0)"
definition PRINT_FSIGN :: "u32 \<Rightarrow> bool" where "PRINT_FSIGN flags = (flags AND 0x4 \<noteq> 0)"
definition PRINT_FSEPS :: "u32 \<Rightarrow> bool" where "PRINT_FSEPS flags = (flags AND 0x8 \<noteq> 0)"

definition Dee_INT_PRINT :: "u32 \<Rightarrow> u32 \<Rightarrow> u32" where
  "Dee_INT_PRINT radix flags = (push_bit 16 radix OR flags)"

definition sign_prefix :: "DeeInt \<Rightarrow> u32 \<Rightarrow> u8 list" where
  "sign_prefix self flags = (if ob_size self < 0 then [0x2d] else if PRINT_FSIGN flags then [0x2b] else [])"

section \<open>Decimal\<close>

definition DECIMAL_BASE :: digit where "DECIMAL_BASE = 1000000000"
definition DECIMAL_SHIFT :: nat where "DECIMAL_SHIFT = 9"

text \<open>The loop that multiplies the number in \<open>pout\<close> by the base of the digits and adds \<open>hi\<close>.\<close>

fun pout_row :: "digit list \<Rightarrow> digit \<Rightarrow> digit list \<times> digit" where
  "pout_row [] hi = ([], hi)"
| "pout_row (p # ps) hi =
     (let z = push_bit DIGIT_BITS (ucast p :: twodigits) OR ucast hi;
          hi = ucast (z div ucast DECIMAL_BASE);
          (ps, r) = pout_row ps hi
      in (ucast (z - ucast hi * ucast DECIMAL_BASE) # ps, r))"

text \<open>\<open>while (hi) { pout[size++] = hi % DeeInt_DECIMAL_BASE; hi /= DeeInt_DECIMAL_BASE; }\<close>\<close>

function pout_push :: "digit \<Rightarrow> digit list" where
  "pout_push hi = (if hi = 0 then [] else (hi mod DECIMAL_BASE) # pout_push (hi div DECIMAL_BASE))"
  by pat_completeness auto
termination
  by (relation "measure unat") (auto simp: DECIMAL_BASE_def unat_div unat_gt_0 intro!: div_less_dividend)

declare pout_push.simps [simp del]

fun pout_loop :: "nat \<Rightarrow> digit list \<Rightarrow> digit list \<Rightarrow> digit list option" where
  "pout_loop cap pout [] = (if pout \<noteq> [] then Some pout else if cap = 0 then None else Some [0])"
| "pout_loop cap pout (d # ds) =
     (let (ps, hi) = pout_row pout d; pout = ps @ pout_push hi
      in if length pout > cap then None else pout_loop cap pout ds)"

text \<open>The digits of one element of \<open>pout\<close>: all nine, or those of the last element.\<close>

fun dec_chunk :: "bool \<Rightarrow> nat \<Rightarrow> digit \<Rightarrow> nat \<Rightarrow> u8 list \<Rightarrow> nat \<times> u8 list" where
  "dec_chunk seps 0 rem intlen buf = (intlen, buf)"
| "dec_chunk seps (Suc j) rem intlen buf =
     (let buf = ucast (0x30 + rem mod 10) # buf; intlen = intlen + 1; rem = rem div 10;
          buf = (if seps \<and> intlen mod 3 = 0 then 0x5f # buf else buf)
      in dec_chunk seps j rem intlen buf)"

function dec_top :: "bool \<Rightarrow> digit \<Rightarrow> nat \<Rightarrow> u8 list \<Rightarrow> nat \<times> u8 list" where
  "dec_top seps rem intlen buf =
     (let buf = ucast (0x30 + rem mod 10) # buf; intlen = intlen + 1; rem = rem div 10;
          buf = (if seps \<and> intlen mod 3 = 0 \<and> rem \<noteq> 0 then 0x5f # buf else buf)
      in if rem \<noteq> 0 then dec_top seps rem intlen buf else (intlen, buf))"
  by pat_completeness auto
termination
  by (relation "measure (\<lambda>(seps, rem, intlen, buf). unat rem)")
     (auto simp: unat_div unat_gt_0 intro!: div_less_dividend)

declare dec_top.simps [simp del]

fun dec_text :: "bool \<Rightarrow> digit list \<Rightarrow> nat \<Rightarrow> u8 list \<Rightarrow> nat \<times> u8 list" where
  "dec_text seps [] intlen buf = (intlen, buf)"
| "dec_text seps (p # ps) intlen buf =
     (if ps = [] then dec_top seps p intlen buf
      else let (intlen, buf) = dec_chunk seps DECIMAL_SHIFT p intlen buf in dec_text seps ps intlen buf)"

text \<open>\<open>tenpow = 10; while (rem >= tenpow) { tenpow *= 10; ++bufsize; }\<close>, with fuel\<close>

fun extra_digits :: "nat \<Rightarrow> digit \<Rightarrow> digit \<Rightarrow> nat option" where
  "extra_digits 0 rem tenpow = None"
| "extra_digits (Suc fuel) rem tenpow =
     (if rem \<ge> tenpow then map_option Suc (extra_digits fuel rem (tenpow * 10)) else Some 0)"

definition dec_bufsize :: "bool \<Rightarrow> digit list \<Rightarrow> nat" where
  "dec_bufsize seps pout =
     (let bufsize = 1 + 1 + (length pout - 1) * DECIMAL_SHIFT + the (extra_digits 10 (last pout) 10)
      in if seps then bufsize + bufsize div 3 else bufsize)"

section \<open>Precision\<close>

text \<open>
  The zeroes in front, printed when the precision exceeds the number of digits: \<open>grp\<close> is the
  number of digits between two separators.  The subtraction is one of \<open>size_t\<close>.
\<close>

function pad_groups :: "nat \<Rightarrow> nat \<Rightarrow> u8 list \<times> nat" where
  "pad_groups grp n =
     (if n \<ge> grp \<and> grp \<noteq> 0
      then let (bs, r) = pad_groups grp (n - grp) in (replicate grp 0x30 @ [0x5f] @ bs, r)
      else ([], n))"
  by pat_completeness auto
termination by (relation "measure snd") auto

declare pad_groups.simps [simp del]

definition pad_zeroes :: "nat \<Rightarrow> bool \<Rightarrow> nat \<Rightarrow> u8 list \<Rightarrow> u8 list" where
  "pad_zeroes grp seps num_leading_zeroes buf =
     (if seps
      then let first_sep_in_int = length (takeWhile (\<lambda>c. c \<noteq> 0x5f) buf);
               first_sep_in_pad =
                 unat ((of_nat num_leading_zeroes - (of_nat grp - of_nat first_sep_in_int)) mod of_nat grp :: u64)
           in if num_leading_zeroes < first_sep_in_pad then replicate num_leading_zeroes 0x30
              else let pad = (if first_sep_in_pad \<noteq> 0 then replicate first_sep_in_pad 0x30 @ [0x5f] else []);
                       (bs, r) = pad_groups grp (num_leading_zeroes - first_sep_in_pad)
                   in pad @ bs @ replicate r 0x30
      else replicate num_leading_zeroes 0x30)"

text \<open>The end of both printers: the prefix goes to the buffer unless zeroes have to be printed.\<close>

definition print_text ::
  "nat \<Rightarrow> bool \<Rightarrow> nat \<Rightarrow> u8 list \<Rightarrow> nat \<Rightarrow> nat \<times> u8 list \<Rightarrow> u8 list option" where
  "print_text grp seps precision prefix bufsize text =
     (let (intlen, buf) = text
      in if precision > intlen
         then if length buf > bufsize then None
              else Some (prefix @ pad_zeroes grp seps (precision - intlen) buf @ buf)
         else if length (prefix @ buf) > bufsize then None
         else Some (prefix @ buf))"

definition DeeInt_PrintDecimal :: "DeeInt \<Rightarrow> u32 \<Rightarrow> nat \<Rightarrow> u8 list option result" where
  "DeeInt_PrintDecimal self flags precision =
     (let size_a = nat \<bar>ob_size self\<bar>
      in if size_a > (2 ^ 63 - 1) div DIGIT_BITS then Inl IntegerOverflow
         else Inr (case pout_loop (1 + size_a * DIGIT_BITS div (3 * DECIMAL_SHIFT)) [] (rev (digits self)) of
                None \<Rightarrow> None
              | Some pout \<Rightarrow>
                  print_text 3 (PRINT_FSEPS flags) precision (sign_prefix self flags)
                    (dec_bufsize (PRINT_FSEPS flags) pout) (dec_text (PRINT_FSEPS flags) pout 0 [])))"

section \<open>Powers of two\<close>

text \<open>\<open>while (num_bits && !((number >> (num_bits - 1)) & 1)) --num_bits;\<close>\<close>

fun strip_bits :: "nat \<Rightarrow> twodigits \<Rightarrow> nat" where
  "strip_bits 0 number = 0"
| "strip_bits (Suc n) number = (if drop_bit n number AND 1 = 0 then strip_bits n number else Suc n)"

text \<open>Print the digits of the bits at hand; \<open>num_digits\<close> says that there are more.\<close>

function pow2_digits ::
  "bool \<Rightarrow> bool \<Rightarrow> nat \<Rightarrow> bool \<Rightarrow> nat \<Rightarrow> twodigits \<Rightarrow> nat \<Rightarrow> u8 list \<Rightarrow> nat \<times> twodigits \<times> nat \<times> u8 list" where
  "pow2_digits upper seps dig_bits num_digits num_bits number intlen buf =
     (if num_bits \<ge> dig_bits \<and> dig_bits \<noteq> 0
      then let num_bits = num_bits - dig_bits;
               buf = itoa_digit upper (unat (number AND mask dig_bits)) # buf;
               intlen = intlen + 1;
               buf = (if seps \<and> intlen mod 4 = 0 \<and> (num_digits \<or> num_bits \<noteq> 0) then 0x5f # buf else buf)
           in pow2_digits upper seps dig_bits num_digits num_bits (drop_bit dig_bits number) intlen buf
      else (num_bits, number, intlen, buf))"
  by pat_completeness auto
termination by (relation "measure (\<lambda>(u, s, d, m, num_bits, r). num_bits)") auto

declare pow2_digits.simps [simp del]

fun pow2_loop ::
  "bool \<Rightarrow> bool \<Rightarrow> nat \<Rightarrow> digit list \<Rightarrow> nat \<Rightarrow> twodigits \<Rightarrow> nat \<Rightarrow> u8 list \<Rightarrow> nat \<times> twodigits \<times> nat \<times> u8 list" where
  "pow2_loop upper seps dig_bits [] num_bits number intlen buf = (num_bits, number, intlen, buf)"
| "pow2_loop upper seps dig_bits (d # src) num_bits number intlen buf =
     (let number = (number AND mask num_bits) OR push_bit num_bits (ucast d);
          num_bits = num_bits + DIGIT_BITS;
          num_bits = (if src = [] then strip_bits num_bits number else num_bits);
          (num_bits, number, intlen, buf) =
            pow2_digits upper seps dig_bits (src \<noteq> []) num_bits number intlen buf
      in pow2_loop upper seps dig_bits src num_bits number intlen buf)"

definition pow2_rest :: "bool \<Rightarrow> nat \<Rightarrow> nat \<times> twodigits \<times> nat \<times> u8 list \<Rightarrow> nat \<times> u8 list" where
  "pow2_rest upper dig_bits s =
     (let (num_bits, number, intlen, buf) = s
      in if num_bits \<noteq> 0
         then (intlen + 1, itoa_digit upper (unat (number AND mask dig_bits)) # buf)
         else (intlen, buf))"

definition pow2_text :: "bool \<Rightarrow> bool \<Rightarrow> nat \<Rightarrow> digit list \<Rightarrow> nat \<times> u8 list" where
  "pow2_text upper seps dig_bits ds =
     (if ds = [] then (1, [0x30])
      else pow2_rest upper dig_bits (pow2_loop upper seps dig_bits ds 0 0 0 []))"

definition pow2_bufsize :: "bool \<Rightarrow> nat \<Rightarrow> nat \<Rightarrow> nat" where
  "pow2_bufsize seps dig_bits num_digits =
     (if num_digits = 0 then 4
      else let bufsize = (num_digits * DIGIT_BITS) div dig_bits
           in (if seps then bufsize + bufsize div 4 else bufsize) + 4)"

text \<open>The prefix of the number system: \<open>digit_chars\<close> at 33, 25 and 11\<close>

definition radix_prefix :: "bool \<Rightarrow> nat \<Rightarrow> u32 \<Rightarrow> u8 list" where
  "radix_prefix upper dig_bits flags =
     (if PRINT_FNUMSYS flags
      then 0x30 # (if dig_bits = 4 then [itoa_digit upper 33] else [])
             @ (if dig_bits = 2 then [itoa_digit upper 25] else [])
             @ (if dig_bits = 1 then [itoa_digit upper 11] else [])
      else [])"

definition print_pow2 :: "nat \<Rightarrow> DeeInt \<Rightarrow> u32 \<Rightarrow> nat \<Rightarrow> u8 list option" where
  "print_pow2 dig_bits self flags precision =
     (let upper = PRINT_FUPPER flags; seps = PRINT_FSEPS flags
      in print_text 4 seps precision (sign_prefix self flags @ radix_prefix upper dig_bits flags)
           (pow2_bufsize seps dig_bits (nat \<bar>ob_size self\<bar>)) (pow2_text upper seps dig_bits (digits self)))"

definition DeeInt_Print :: "DeeInt \<Rightarrow> u32 \<Rightarrow> nat \<Rightarrow> u8 list option result" where
  "DeeInt_Print self radix_and_flags precision =
     (let radix = drop_bit 16 radix_and_flags
      in if radix = 10 then DeeInt_PrintDecimal self radix_and_flags precision
         else if radix = 2 then Inr (print_pow2 1 self radix_and_flags precision)
         else if radix = 4 then Inr (print_pow2 2 self radix_and_flags precision)
         else if radix = 8 then Inr (print_pow2 3 self radix_and_flags precision)
         else if radix = 16 then Inr (print_pow2 4 self radix_and_flags precision)
         else Inl NotImplemented)"

section \<open>Methods\<close>

definition int_tostr_impl :: "DeeInt \<Rightarrow> u32 \<Rightarrow> nat \<Rightarrow> u8 list option result" where
  "int_tostr_impl self flags precision = DeeInt_Print self flags precision"

definition int_str :: "DeeInt \<Rightarrow> u8 list option result" where
  "int_str self = int_tostr_impl self (Dee_INT_PRINT 10 0) 0"

text \<open>The mode string of \<open>int.tostr\<close>.\<close>

fun tostr_flags :: "string \<Rightarrow> u32 \<Rightarrow> u32 result" where
  "tostr_flags [] flags = Inr flags"
| "tostr_flags (ch # iter) flags =
     (if ch = CHR ''u'' \<or> ch = CHR ''X'' then tostr_flags iter (flags OR 0x1)
      else if ch = CHR ''n'' \<or> ch = CHR ''#'' then tostr_flags iter (flags OR 0x2)
      else if ch = CHR ''s'' \<or> ch = CHR ''+'' then tostr_flags iter (flags OR 0x4)
      else if ch = CHR ''_'' then tostr_flags iter (flags OR 0x8)
      else Inl ValueError)"

definition int_tostr :: "DeeInt \<Rightarrow> 16 word \<Rightarrow> nat \<Rightarrow> string option \<Rightarrow> u8 list option result" where
  "int_tostr self radix precision flags_str =
     (case (case flags_str of
              None \<Rightarrow> Inr (push_bit 16 (ucast radix))
            | Some s \<Rightarrow> tostr_flags s (push_bit 16 (ucast radix))) of
        Inl e \<Rightarrow> Inl e
      | Inr flags \<Rightarrow> int_tostr_impl self flags precision)"

definition int_hex :: "DeeInt \<Rightarrow> nat \<Rightarrow> u8 list option result" where
  "int_hex self precision = int_tostr_impl self (Dee_INT_PRINT 16 0x2) precision"

definition int_bin :: "DeeInt \<Rightarrow> nat \<Rightarrow> u8 list option result" where
  "int_bin self precision = int_tostr_impl self (Dee_INT_PRINT 2 0x2) precision"

definition int_oct :: "DeeInt \<Rightarrow> nat \<Rightarrow> u8 list option result" where
  "int_oct self precision = int_tostr_impl self (Dee_INT_PRINT 8 0x2) precision"

section \<open>What is printed\<close>

text \<open>
  \<open>fixed_digits b k v\<close> are the \<open>k\<close> low digits of \<open>v\<close>, \<open>radix_digits b v\<close> all of them (0 has one), and
  \<open>separated g cs\<close> puts a separator before every group of \<open>g\<close> digits but the first one.  The most
  significant digit is the first.
\<close>

fun fixed_digits :: "nat \<Rightarrow> nat \<Rightarrow> nat \<Rightarrow> nat list" where
  "fixed_digits b 0 v = []"
| "fixed_digits b (Suc k) v = fixed_digits b k (v div b) @ [v mod b]"

function radix_digits :: "nat \<Rightarrow> nat \<Rightarrow> nat list" where
  "radix_digits b v = (if v < b \<or> b < 2 then [v] else radix_digits b (v div b) @ [v mod b])"
  by pat_completeness auto
termination by (relation "measure snd") (auto intro!: div_less_dividend)

declare radix_digits.simps [simp del]

fun separated :: "bool \<Rightarrow> nat \<Rightarrow> u8 list \<Rightarrow> u8 list" where
  "separated seps g [] = []"
| "separated seps g (c # cs) =
     c # (if seps \<and> cs \<noteq> [] \<and> length cs mod g = 0 then 0x5f # separated seps g cs else separated seps g cs)"

text \<open>The text while more digits are to come.\<close>

definition open_text :: "bool \<Rightarrow> nat \<Rightarrow> u8 list \<Rightarrow> u8 list" where
  "open_text seps g cs =
     (if seps \<and> cs \<noteq> [] \<and> length cs mod g = 0 then 0x5f # separated seps g cs else separated seps g cs)"

lemma separated_Cons: "separated seps g (c # cs) = c # open_text seps g cs"
  by (simp add: open_text_def)

declare separated.simps(2) [simp del]
declare separated_Cons [simp]

lemma open_text_Nil [simp]: "open_text seps g [] = []"
  by (simp add: open_text_def)

lemma length_fixed_digits [simp]: "length (fixed_digits b k v) = k"
  by (induction k arbitrary: v) auto

lemma radix_digits_small: "v < b \<Longrightarrow> radix_digits b v = [v]"
  by (simp add: radix_digits.simps)

lemma radix_digits_step: "b \<le> v \<Longrightarrow> 2 \<le> b \<Longrightarrow> radix_digits b v = radix_digits b (v div b) @ [v mod b]"
  by (subst radix_digits.simps) auto

lemma radix_digits_not_Nil [simp]: "radix_digits b v \<noteq> []"
  by (cases "v < b \<or> b < 2") (auto simp: radix_digits.simps [of b v])

lemma radix_digits_split: "b ^ k \<le> v \<Longrightarrow> 2 \<le> b \<Longrightarrow> radix_digits b v = radix_digits b (v div b ^ k) @ fixed_digits b k v"
proof (induction k arbitrary: v)
  case (Suc k)
  have le: "b ^ k \<le> v div b"
    using Suc.prems by (simp add: less_eq_div_iff_mult_less_eq mult.commute)
  moreover have "b \<le> v"
    using le Suc.prems by (metis One_nat_def Suc_1 Suc_le_lessD div_less leI le_zero_eq power_eq_0_iff not_numeral_le_zero)
  ultimately show ?case
    using Suc.IH [OF le] Suc.prems by (simp add: radix_digits_step div_mult2_eq)
qed simp

lemma fixed_digits_low: "fixed_digits b k (r + b ^ k * v) = fixed_digits b k r"
proof (induction k arbitrary: r)
  case (Suc k)
  show ?case
  proof (cases "b = 0")
    case False
    then have "(r + b ^ Suc k * v) div b = r div b + b ^ k * v"
      by (simp add: mult.assoc)
    then show ?thesis using Suc.IH [of "r div b"] by (simp add: mult.assoc)
  qed simp
qed simp

lemma fixed_digits_bound: "0 < b \<Longrightarrow> d \<in> set (fixed_digits b k v) \<Longrightarrow> d < b"
  by (induction k arbitrary: v) auto

lemma radix_digits_bound: "2 \<le> b \<Longrightarrow> d \<in> set (radix_digits b v) \<Longrightarrow> d < b"
proof (induction b v rule: radix_digits.induct)
  case (1 b v)
  then show ?case by (cases "v < b") (auto simp: radix_digits_small radix_digits_step)
qed

text \<open>The text of the digits is their text: the value is read back from it.\<close>

definition digits_value :: "nat \<Rightarrow> nat list \<Rightarrow> nat" where
  "digits_value b ds = foldl (\<lambda>v d. v * b + d) 0 ds"

lemma digits_value_snoc [simp]: "digits_value b (ds @ [d]) = digits_value b ds * b + d"
  by (simp add: digits_value_def)

lemma digits_value_radix: "2 \<le> b \<Longrightarrow> digits_value b (radix_digits b v) = v"
proof (induction b v rule: radix_digits.induct)
  case (1 b v)
  then show ?case
    by (cases "v < b") (auto simp: radix_digits_small radix_digits_step digits_value_def)
qed

section \<open>Adding digits to a text\<close>

definition chars :: "bool \<Rightarrow> nat list \<Rightarrow> u8 list" where
  "chars upper ds = List.map (itoa_digit upper) ds"

lemma chars_simps [simp]:
  "chars upper (xs @ ys) = chars upper xs @ chars upper ys" "length (chars upper xs) = length xs"
  "chars upper [d] = [itoa_digit upper d]" "chars upper [] = []" "chars upper xs = [] \<longleftrightarrow> xs = []"
  by (simp_all add: chars_def)

text \<open>One digit is printed: it follows an open text, and leaves one when more digits follow.\<close>

lemma open_text_step:
  "open_text seps g (c # cs) = (if seps \<and> Suc (length cs) mod g = 0 then 0x5f # c # open_text seps g cs else c # open_text seps g cs)"
  by (simp add: open_text_def)

lemma itoa_decimal: "ucast (0x30 + rem mod 10 :: digit) = itoa_digit upper (unat rem mod 10)"
proof -
  have "(0x30 :: digit) + rem mod 10 = of_nat (48 + unat rem mod 10)"
    by (simp add: word_arith_nat_defs(7))
  moreover have "ucast (of_nat (48 + unat rem mod 10) :: digit) = (of_nat (48 + unat rem mod 10) :: u8)"
    by (subst unsigned_of_nat) (simp add: take_bit_eq_mod)
  ultimately show ?thesis
    by (simp add: itoa_digit_def)
qed

lemma dec_chunk_spec:
  "dec_chunk seps j rem (length cs) (open_text seps 3 cs) =
     (length cs + j, open_text seps 3 (chars upper (fixed_digits 10 j (unat rem)) @ cs))"
proof (induction j arbitrary: rem cs)
  case (Suc j)
  let ?c = "itoa_digit upper (unat rem mod 10)"
  have "open_text seps 3 (?c # cs) =
          (if seps \<and> (length cs + 1) mod 3 = 0 then 0x5f # ?c # open_text seps 3 cs else ?c # open_text seps 3 cs)"
    by (simp add: open_text_step)
  then show ?case
    using Suc.IH [of "rem div 10" "?c # cs"] by (simp add: Let_def itoa_decimal [of _ upper] unat_div)
qed simp

lemma dec_top_spec:
  "dec_top seps rem (length cs) (open_text seps 3 cs) =
     (length (radix_digits 10 (unat rem)) + length cs, separated seps 3 (chars upper (radix_digits 10 (unat rem)) @ cs))"
proof (induction rem arbitrary: cs rule: measure_induct_rule [of unat])
  case (less rem)
  let ?c = "itoa_digit upper (unat rem mod 10)"
  show ?case
  proof (cases "rem div 10 = 0")
    case True
    then have "unat rem div 10 = 0"
      by (simp add: unat_div flip: unat_eq_0)
    then have small: "unat rem < 10" by linarith
    then show ?thesis
      using True by (simp add: dec_top.simps [of seps rem] Let_def itoa_decimal [of _ upper] radix_digits_small separated_Cons)
  next
    case False
    then have "unat rem div 10 \<noteq> 0"
      by (simp add: unat_div flip: unat_eq_0)
    then have large: "10 \<le> unat rem" by linarith
    then have "unat (rem div 10) < unat rem"
      by (simp add: unat_div)
    from less.IH [OF this, of "?c # cs"] False large show ?thesis
      by (simp add: dec_top.simps [of seps rem] Let_def itoa_decimal [of _ upper] radix_digits_step open_text_step unat_div)
  qed
qed

section \<open>The decimal digits\<close>

abbreviation DBASE :: nat where "DBASE \<equiv> 10 ^ 9"

fun dec_val :: "digit list \<Rightarrow> nat" where
  "dec_val [] = 0"
| "dec_val (p # ps) = unat p + DBASE * dec_val ps"

definition pout_ok :: "digit list \<Rightarrow> bool" where
  "pout_ok ps = list_all (\<lambda>p. unat p < DBASE) ps"

lemma pout_ok_simps [simp]:
  "pout_ok []" "pout_ok (p # ps) \<longleftrightarrow> unat p < DBASE \<and> pout_ok ps" "pout_ok (xs @ ys) \<longleftrightarrow> pout_ok xs \<and> pout_ok ys"
  by (simp_all add: pout_ok_def)

lemma dec_val_append [simp]: "dec_val (xs @ ys) = dec_val xs + DBASE ^ length xs * dec_val ys"
  by (induction xs) (simp_all add: algebra_simps)

lemma dec_val_bound: "pout_ok ps \<Longrightarrow> dec_val ps < DBASE ^ length ps"
proof (induction ps)
  case (Cons p ps)
  then have "dec_val ps + 1 \<le> DBASE ^ length ps" "unat p < DBASE" by simp_all
  then have "DBASE * (dec_val ps + 1) \<le> DBASE * DBASE ^ length ps"
    by (intro mult_le_mono) simp_all
  then show ?case using \<open>unat p < DBASE\<close> by simp
qed simp

text \<open>The top element is not zero exactly when the value has that many digits.\<close>

definition pout_top :: "digit list \<Rightarrow> bool" where
  "pout_top ps = (ps = [] \<or> DBASE ^ (length ps - 1) \<le> dec_val ps)"

lemma pout_top_Cons: "pout_top (p # ps) \<Longrightarrow> pout_ok (p # ps) \<Longrightarrow> ps \<noteq> [] \<Longrightarrow> pout_top ps \<and> 0 < dec_val ps"
proof -
  assume a: "pout_top (p # ps)" "pout_ok (p # ps)" "ps \<noteq> []"
  have e: "DBASE ^ length ps = DBASE * DBASE ^ (length ps - 1)"
    using a(3) by (cases ps) simp_all
  have "DBASE ^ length ps < DBASE + DBASE * dec_val ps"
    using a by (simp add: pout_top_def)
  then have "DBASE * DBASE ^ (length ps - 1) < DBASE * (1 + dec_val ps)"
    unfolding e by (simp only: distrib_left mult_1_right)
  then have "DBASE ^ (length ps - 1) < 1 + dec_val ps"
    by (simp only: mult_less_cancel1)
  moreover have "0 < DBASE ^ (length ps - 1)" by simp
  ultimately show ?thesis
    unfolding pout_top_def by linarith
qed

lemma radix_dec_Cons:
  assumes "pout_top (p # ps)" "pout_ok (p # ps)" "ps \<noteq> []"
  shows "radix_digits 10 (dec_val (p # ps)) = radix_digits 10 (dec_val ps) @ fixed_digits 10 9 (unat p)"
proof -
  have top: "0 < dec_val ps" "unat p < 10 ^ 9"
    using pout_top_Cons [OF assms] assms(2) by auto
  have split: "(unat p + DBASE * dec_val ps) div 10 ^ 9 = dec_val ps"
    using top(2) by (simp add: div_mult_self4)
  have low: "fixed_digits 10 9 (unat p + DBASE * dec_val ps) = fixed_digits 10 9 (unat p)"
    by (rule fixed_digits_low)
  have "10 ^ 9 \<le> unat p + DBASE * dec_val ps"
    using top(1) by (intro trans_le_add2) simp
  from radix_digits_split [OF this, unfolded split low] show ?thesis
    by simp
qed

lemma dec_text_spec:
  assumes "ps \<noteq> []" "pout_ok ps" "pout_top ps \<or> ps = [0]"
  shows "dec_text seps ps (length cs) (open_text seps 3 cs) =
     (length (radix_digits 10 (dec_val ps)) + length cs, separated seps 3 (chars upper (radix_digits 10 (dec_val ps)) @ cs))"
  using assms
proof (induction ps arbitrary: cs)
  case (Cons p ps)
  show ?case
  proof (cases "ps = []")
    case True
    then show ?thesis by (simp add: dec_top_spec [of _ _ _ upper])
  next
    case False
    let ?f = "fixed_digits 10 9 (unat p)"
    have top: "pout_top ps" "pout_top (p # ps)"
      using pout_top_Cons [of p ps] Cons.prems False by auto
    show ?thesis
      using Cons.IH [of "chars upper ?f @ cs"] top Cons.prems False radix_dec_Cons [OF top(2) Cons.prems(2) False]
      by (simp add: dec_chunk_spec [of _ _ _ _ upper] DECIMAL_SHIFT_def add.commute [of _ 9] del: dec_chunk.simps dec_val.simps)
  qed
qed simp

lemma pout_row_spec:
  "pout_ok ps \<Longrightarrow> unat hi < BASE \<Longrightarrow> pout_row ps hi = (ps', r) \<Longrightarrow>
     length ps' = length ps \<and> pout_ok ps' \<and> unat r < BASE \<and>
     dec_val ps' + DBASE ^ length ps * unat r = BASE * dec_val ps + unat hi"
proof (induction ps hi arbitrary: ps' r rule: pout_row.induct)
  case (2 p ps hi)
  define z :: twodigits where "z = push_bit DIGIT_BITS (ucast p) OR ucast hi"
  define q :: digit where "q = ucast (z div ucast DECIMAL_BASE)"
  obtain ps1 r1 where row: "pout_row ps q = (ps1, r1)" by fastforce
  have p: "unat p < 10 ^ 9" "pout_ok ps" and hi: "unat hi < BASE"
    using "2.prems" by simp_all
  have z: "unat z = BASE * unat p + unat hi"
    unfolding z_def using p(1) hi
    by (subst unat_or_shifted) (simp_all add: unat_ucast_up DIGIT_BITS_def BASE_num)
  have D: "unat (ucast DECIMAL_BASE :: twodigits) = DBASE"
    by (simp add: DECIMAL_BASE_def)
  have zb: "unat z < DBASE * BASE"
  proof -
    have "BASE * unat p + unat hi < BASE * unat p + BASE" using hi by simp
    also have "\<dots> = BASE * (unat p + 1)" by simp
    also have "\<dots> \<le> BASE * DBASE" using p(1) by (intro mult_le_mono) simp_all
    finally show ?thesis by (simp only: z mult.commute)
  qed
  have q: "unat q = unat z div DBASE" and qb: "unat q < BASE"
  proof -
    have "unat z div DBASE < BASE"
      using zb by (simp add: less_mult_imp_div_less mult.commute)
    then show "unat q = unat z div DBASE" "unat q < BASE"
      by (simp_all add: q_def unat_ucast_word unat_div DECIMAL_BASE_def BASE_num)
  qed
  define w :: digit where "w = ucast (z - ucast q * ucast DECIMAL_BASE)"
  have low: "unat w = unat z mod DBASE"
  proof -
    have m: "unat (ucast q * ucast DECIMAL_BASE :: twodigits) = unat z div DBASE * DBASE"
      using zb by (subst unat_mult_no_wrap) (simp_all add: unat_ucast_up q D BASE_num less_mult_imp_div_less)
    have "unat (ucast q * ucast DECIMAL_BASE :: twodigits) \<le> unat z"
      unfolding m by (rule div_times_less_eq_dividend)
    then have "unat (z - ucast q * ucast DECIMAL_BASE) = unat z mod DBASE"
      by (simp only: unat_sub_if' m if_True word_le_nat_alt minus_div_mult_eq_mod)
    then show ?thesis by (simp add: w_def unat_ucast_word)
  qed
  from "2.prems"(3) have ps': "ps' = w # ps1" and r: "r = r1"
    by (simp_all add: z_def [symmetric] q_def [symmetric] w_def [symmetric] row Let_def)
  have IH: "length ps1 = length ps \<and> pout_ok ps1 \<and> unat r1 < BASE \<and>
      dec_val ps1 + DBASE ^ length ps * unat r1 = BASE * dec_val ps + unat q"
    using "2.IH" [OF z_def q_def p(2) qb row] .
  have "DBASE * (dec_val ps1 + DBASE ^ length ps * unat r1) = DBASE * (BASE * dec_val ps) + DBASE * (unat z div DBASE)"
    using IH by (simp only: q distrib_left)
  moreover have "DBASE * (unat z div DBASE) + unat z mod DBASE = unat z" by simp
  ultimately have "unat z mod DBASE + DBASE * (dec_val ps1 + DBASE ^ length ps * unat r1)
      = BASE * unat p + unat hi + DBASE * (BASE * dec_val ps)"
    using z by linarith
  then show ?case
    using IH by (simp add: ps' r low algebra_simps)
qed simp

lemma pout_push_spec:
  "pout_ok (pout_push hi) \<and> dec_val (pout_push hi) = unat hi \<and> pout_top (pout_push hi)"
proof (induction hi rule: pout_push.induct)
  case (1 hi)
  have D: "unat DECIMAL_BASE = DBASE" by (simp add: DECIMAL_BASE_def)
  show ?case
  proof (cases "hi = 0")
    case False
    let ?qs = "pout_push (hi div DECIMAL_BASE)"
    have IH: "pout_ok ?qs" "dec_val ?qs = unat hi div DBASE" "pout_top ?qs"
      using "1" [OF False] by (simp_all add: unat_div D)
    have e: "pout_push hi = (hi mod DECIMAL_BASE) # ?qs"
      using False by (simp add: pout_push.simps [of hi])
    have v: "dec_val (pout_push hi) = unat hi"
      by (simp add: e IH(2) unat_mod D)
    have "DBASE ^ length ?qs \<le> unat hi"
    proof (cases "?qs = []")
      case True
      then show ?thesis using False by (simp add: unat_gt_0 Suc_leI)
    next
      case ne: False
      have "DBASE * DBASE ^ (length ?qs - 1) \<le> DBASE * (unat hi div DBASE)"
        using IH(2,3) ne by (simp add: pout_top_def)
      also have "\<dots> \<le> unat hi" by (rule times_div_less_eq_dividend)
      finally show ?thesis using ne by (cases ?qs) simp_all
    qed
    then show ?thesis
      unfolding v using IH(1) by (simp add: e pout_top_def IH(2) unat_mod D)
  qed (simp add: pout_push.simps pout_top_def)
qed

text \<open>The loop over the digits never runs past the array, and computes the value in base \<open>10 ^ 9\<close>.\<close>

lemma pout_capacity: "pout_top ps \<Longrightarrow> dec_val ps < BASE ^ n \<Longrightarrow> length ps \<le> 1 + n * DIGIT_BITS div (3 * DECIMAL_SHIFT)"
proof (cases "ps = []")
  case False
  assume a: "pout_top ps" "dec_val ps < BASE ^ n"
  let ?k = "length ps - 1"
  have "(2 :: nat) ^ (27 * ?k) \<le> DBASE ^ ?k"
    by (simp only: power_mult) (rule power_mono, simp_all)
  also have "\<dots> < BASE ^ n"
    using a False by (auto simp: pout_top_def)
  also have "\<dots> = 2 ^ (30 * n)"
    by (simp only: BASE_def DIGIT_BITS_def power_mult)
  finally have "27 * ?k < 30 * n"
    by (rule power_less_imp_less_exp [rotated]) simp
  then have "?k \<le> n * 30 div 27" by linarith
  then show ?thesis by (simp add: DIGIT_BITS_def DECIMAL_SHIFT_def)
qed simp

lemma pout_row_push:
  assumes "pout_ok ps" "pout_top ps" "unat d < BASE" "pout_row ps d = (ps', r)"
  shows "pout_ok (ps' @ pout_push r)" "pout_top (ps' @ pout_push r)"
    "dec_val (ps' @ pout_push r) = BASE * dec_val ps + unat d"
proof -
  have row: "length ps' = length ps" "pout_ok ps'" "dec_val ps' + DBASE ^ length ps * unat r = BASE * dec_val ps + unat d"
    using pout_row_spec [OF assms(1,3,4)] by auto
  have push: "pout_ok (pout_push r)" "dec_val (pout_push r) = unat r" "pout_top (pout_push r)"
    using pout_push_spec by auto
  show "pout_ok (ps' @ pout_push r)" using row push by simp
  show v: "dec_val (ps' @ pout_push r) = BASE * dec_val ps + unat d"
    using row push by simp
  show "pout_top (ps' @ pout_push r)"
  proof (cases "pout_push r = []")
    case True
    have "dec_val ps \<le> BASE * dec_val ps + unat d" by (simp add: BASE_num)
    then show ?thesis
      using True v row(1) assms(2) by (auto simp: pout_top_def intro: le_trans)
  next
    case False
    have "DBASE ^ (length ps' + (length (pout_push r) - 1)) \<le> DBASE ^ length ps' * dec_val (pout_push r)"
      using push(3) False by (simp add: pout_top_def power_add)
    then show ?thesis
      using False by (simp add: pout_top_def Suc_leI)
  qed
qed

lemma pout_loop_spec:
  assumes "pout_ok ps" "pout_top ps" "dec_val ps < BASE ^ m" "list_all (\<lambda>d. unat d < BASE) ds"
    "cap = 1 + (m + length ds) * DIGIT_BITS div (3 * DECIMAL_SHIFT)"
  shows "\<exists>out. pout_loop cap ps ds = Some out \<and> pout_ok out \<and> (pout_top out \<or> out = [0]) \<and> out \<noteq> [] \<and>
     dec_val out = dec_val ps * BASE ^ length ds + dval (rev ds)"
  using assms
proof (induction cap ps ds arbitrary: m rule: pout_loop.induct)
  case (2 cap ps d ds)
  obtain ps' r where row: "pout_row ps d = (ps', r)" by fastforce
  let ?ps = "ps' @ pout_push r"
  note ok = pout_row_push [OF "2.prems"(1,2) _ row]
  have d: "unat d < BASE" using "2.prems" by simp
  have v: "dec_val ?ps < BASE ^ Suc m"
  proof -
    have "BASE * dec_val ps + unat d < BASE * (dec_val ps + 1)" using d by simp
    also have "\<dots> \<le> BASE * BASE ^ m"
      using "2.prems"(3) by (intro mult_le_mono) simp_all
    finally show ?thesis unfolding ok(3) [OF d] by simp
  qed
  have "length ?ps \<le> 1 + Suc m * DIGIT_BITS div (3 * DECIMAL_SHIFT)"
    by (rule pout_capacity [OF ok(2) [OF d] v])
  also have "\<dots> \<le> cap"
    unfolding "2.prems"(5) by (intro add_le_mono div_le_mono mult_le_mono) simp_all
  finally have len: "\<not> length ?ps > cap" by simp
  have cap: "cap = 1 + (Suc m + length ds) * DIGIT_BITS div (3 * DECIMAL_SHIFT)"
    using "2.prems"(5) by simp
  have "list_all (\<lambda>d. unat d < BASE) ds" using "2.prems"(4) by simp
  from "2.IH" [OF row [symmetric] refl refl len ok(1) [OF d] ok(2) [OF d] v this cap]
  show ?case
    using len unfolding ok(3) [OF d] by (simp add: row Let_def algebra_simps del: dec_val_append)
qed (auto simp: pout_top_def)

section \<open>Padding and buffers\<close>

text \<open>The zeroes in front of \<open>m\<close> digits.\<close>

fun pad_text :: "nat \<Rightarrow> nat \<Rightarrow> nat \<Rightarrow> u8 list" where
  "pad_text g 0 m = []"
| "pad_text g (Suc n) m = 0x30 # (if (n + m) mod g = 0 then 0x5f # pad_text g n m else pad_text g n m)"

lemma separated_pad: "cs \<noteq> [] \<Longrightarrow> separated True g (replicate n 0x30 @ cs) = pad_text g n (length cs) @ separated True g cs"
  by (induction n) (simp_all add: open_text_def)

lemma separated_plain: "separated False g cs = cs"
  by (induction cs) (simp_all add: open_text_def)

lemma length_separated: "length (separated seps g cs) = length cs + (if seps then (length cs - 1) div g else 0)"
proof (induction cs)
  case (Cons c cs)
  have "length cs \<noteq> 0 \<Longrightarrow> length cs div g = (length cs - 1) div g + (if length cs mod g = 0 then 1 else 0)"
    using div_Suc [of "length cs - 1" g] by auto
  then show ?case using Cons by (cases "cs = []") (auto simp: open_text_def)
qed simp

lemma pad_text_add: "pad_text g (a + b) m = pad_text g a (b + m) @ pad_text g b m"
  by (induction a) (simp_all add: add.assoc)

lemma pad_text_block: "k \<le> g \<Longrightarrow> m mod g = 0 \<Longrightarrow> 0 < k \<Longrightarrow> pad_text g k m = replicate k 0x30 @ [0x5f]"
proof (induction k)
  case (Suc k)
  then show ?case
    by (cases k) (auto simp: mod_add_right_eq [of _ m g, symmetric])
qed simp

lemma pad_text_few: "0 < m mod g \<Longrightarrow> k + m mod g \<le> g \<Longrightarrow> pad_text g k m = replicate k 0x30"
proof (induction k)
  case (Suc k)
  then show ?case
    by (auto simp: mod_add_right_eq [of _ m g, symmetric])
qed simp

lemma pad_groups_spec:
  "0 < g \<Longrightarrow> (r + m) mod g = 0 \<Longrightarrow> r < g \<Longrightarrow> pad_groups g (g * q + r) = (pad_text g (g * q) (r + m), r)"
proof (induction q)
  case 0
  then show ?case by (simp add: pad_groups.simps)
next
  case (Suc q)
  have e: "g * Suc q + r - g = g * q + r" by simp
  have "pad_text g (g * Suc q) (r + m) = pad_text g (g + g * q) (r + m)" by simp
  also have "\<dots> = pad_text g g (g * q + (r + m)) @ pad_text g (g * q) (r + m)"
    by (rule pad_text_add)
  also have "pad_text g g (g * q + (r + m)) = replicate g 0x30 @ [0x5f]"
    using Suc.prems by (intro pad_text_block) simp_all
  finally show ?case
    using Suc by (subst pad_groups.simps) (simp add: e)
qed

lemma first_sep: "cs \<noteq> [] \<Longrightarrow> 0x5f \<notin> set cs \<Longrightarrow> 0 < g \<Longrightarrow>
    length (takeWhile (\<lambda>c. c \<noteq> 0x5f) (separated True g cs)) = (length cs - 1) mod g + 1"
proof (induction cs)
  case (Cons c cs)
  show ?case
  proof (cases "length cs mod g = 0")
    case True
    then show ?thesis using Cons.prems by (cases cs) (auto simp: open_text_def)
  next
    case False
    then have ne: "cs \<noteq> []" by auto
    have "length cs mod g = (length cs - 1) mod g + 1"
      using False ne mod_Suc [of "length cs - 1" g] by (auto split: if_splits)
    then show ?thesis using Cons False ne by (simp add: open_text_def)
  qed
qed simp

lemma first_sep_in_pad:
  assumes "g = 3 \<or> g = 4" "0 < f" "f \<le> g" "0 < n" "n < 2 ^ 64"
    and fsp: "fsp = unat ((of_nat n - (of_nat g - of_nat f)) mod of_nat g :: u64)"
  shows "g \<le> n + f \<Longrightarrow> fsp = (n + f - g) mod g" and "n + f < g \<Longrightarrow> n < fsp \<or> fsp = 0"
proof -
  assume a: "g \<le> n + f"
  have w: "of_nat n - (of_nat g - of_nat f) = (of_nat (n + f - g) :: u64)"
    using a by (simp add: of_nat_diff)
  have "unat (of_nat n - (of_nat g - of_nat f) :: u64) = n + f - g"
    unfolding w using assms(3,5) a by (subst unat_of_nat) simp
  then show "fsp = (n + f - g) mod g"
    unfolding fsp unat_mod using assms(1) by auto
next
  assume "n + f < g"
  then have "g = 3 \<and> n = 1 \<and> f = 1 \<or> g = 4 \<and> (n = 1 \<and> f = 1 \<or> n = 1 \<and> f = 2 \<or> n = 2 \<and> f = 1)"
    using assms by linarith
  then show "n < fsp \<or> fsp = 0" unfolding fsp by auto
qed

lemma pad_zeroes_spec:
  assumes g: "g = 3 \<or> g = 4" and cs: "cs \<noteq> []" "0x5f \<notin> set cs" and n: "0 < n" "n < 2 ^ 64"
  shows "pad_zeroes g seps n (separated seps g cs) @ separated seps g cs = separated seps g (replicate n 0x30 @ cs)"
proof (cases seps)
  case True
  define m where "m = length cs"
  define f where "f = (m - 1) mod g + 1"
  define fsp where "fsp = unat ((of_nat n - (of_nat g - of_nat f)) mod of_nat g :: u64)"
  have g0: "0 < g" using g by auto
  have f: "0 < f" "f \<le> g" using g0 by (auto simp: f_def Suc_le_eq)
  have m0: "0 < m" using cs(1) by (simp add: m_def)
  have m: "m mod g = (if f = g then 0 else f)"
    using m0 mod_Suc [of "m - 1" g] by (auto simp: f_def split: if_splits)
  note fsp = first_sep_in_pad [OF g f n fsp_def]
  have pz: "pad_zeroes g True n (separated True g cs) =
      (if n < fsp then replicate n 0x30
       else (if fsp \<noteq> 0 then replicate fsp 0x30 @ [0x5f] else []) @ fst (pad_groups g (n - fsp)) @
            replicate (snd (pad_groups g (n - fsp))) 0x30)"
    using first_sep [OF cs g0] by (simp add: pad_zeroes_def fsp_def f_def m_def split_beta Let_def)
  have "pad_zeroes g True n (separated True g cs) = pad_text g n m"
  proof (cases "g \<le> n + f")
    case le: True
    define q where "q = (n + f - g) div g"
    have e: "n + f - g = g * q + fsp" using fsp(1) [OF le] by (simp add: q_def)
    then have n': "n = fsp + (g * q + (g - f))" using le f by linarith
    then have nf: "n - fsp = g * q + (g - f)" "(n < fsp) = False" by simp_all
    have r: "(g - f + m) mod g = 0"
      by (subst mod_add_right_eq [symmetric]) (use f m in simp)
    have small: "fsp < g" using fsp(1) [OF le] g0 by simp
    have p: "pad_groups g (g * q + (g - f)) = (pad_text g (g * q) (g - f + m), g - f)"
      using r f g0 by (intro pad_groups_spec) simp_all
    have top: "(if fsp \<noteq> 0 then replicate fsp 0x30 @ [0x5f] else []) = pad_text g fsp (g * q + (g - f) + m)"
      using small r by (cases "fsp = 0") (simp_all add: pad_text_block add.assoc)
    have low: "replicate (g - f) 0x30 = pad_text g (g - f) m"
      using m f by (cases "f = g") (simp_all add: pad_text_few)
    have "pad_zeroes g True n (separated True g cs) = pad_text g fsp (g * q + (g - f) + m) @ pad_text g (g * q) (g - f + m) @ pad_text g (g - f) m"
      unfolding pz by (simp only: nf p fst_conv snd_conv if_False top low)
    then show ?thesis by (subst n') (simp only: pad_text_add add.assoc)
  next
    case False
    have "pad_text g n m = replicate n 0x30"
      using False m f by (intro pad_text_few) auto
    moreover have "pad_groups g n = ([], n)"
      using False by (subst pad_groups.simps) simp
    ultimately show ?thesis unfolding pz using fsp(2) False by auto
  qed
  then show ?thesis using True by (simp add: separated_pad [OF cs(1)] m_def)
qed (simp add: pad_zeroes_def separated_plain)

text \<open>What the end of the printers writes for the digits \<open>cs\<close>, if they fit.\<close>

definition padded_text :: "nat \<Rightarrow> bool \<Rightarrow> nat \<Rightarrow> u8 list \<Rightarrow> u8 list \<Rightarrow> u8 list" where
  "padded_text g seps precision prefix cs = prefix @ separated seps g (replicate (precision - length cs) 0x30 @ cs)"

lemma print_text_spec:
  assumes "g = 3 \<or> g = 4" "cs \<noteq> []" "0x5f \<notin> set cs" "precision < 2 ^ 64"
    and "length prefix + length (separated seps g cs) \<le> bufsize"
  shows "print_text g seps precision prefix bufsize (length cs, separated seps g cs) = Some (padded_text g seps precision prefix cs)"
  using assms pad_zeroes_spec [of g cs "precision - length cs" seps]
  by (auto simp: print_text_def padded_text_def)

section \<open>The printers\<close>

lemma length_radix_digits: "b ^ k \<le> v \<Longrightarrow> v < b ^ Suc k \<Longrightarrow> 2 \<le> b \<Longrightarrow> length (radix_digits b v) = Suc k"
  by (simp add: radix_digits_split radix_digits_small less_mult_imp_div_less)

lemma itoa_digit_not_sep: "d < 36 \<Longrightarrow> itoa_digit upper d \<noteq> 0x5f"
proof -
  have "list_all (\<lambda>d. itoa_digit True d \<noteq> 0x5f \<and> itoa_digit False d \<noteq> 0x5f) [0..<36]"
    by code_simp
  moreover assume "d < 36"
  ultimately show ?thesis by (cases upper) (auto simp: list_all_iff)
qed

lemma chars_not_sep: "2 \<le> b \<Longrightarrow> b \<le> 36 \<Longrightarrow> 0x5f \<notin> set (chars upper (radix_digits b v))"
  by (auto simp: chars_def dest!: radix_digits_bound dest: itoa_digit_not_sep [OF less_le_trans] sym)

lemma extra_digits_spec:
  "unat tenpow = 10 ^ Suc k \<Longrightarrow> k < 9 \<Longrightarrow> 9 \<le> fuel + k \<Longrightarrow> unat rem < DBASE \<Longrightarrow> k = 0 \<or> 10 ^ k \<le> unat rem \<Longrightarrow>
     \<exists>e. extra_digits fuel rem tenpow = Some e \<and> length (radix_digits 10 (unat rem)) = k + 1 + e"
proof (induction fuel arbitrary: k tenpow)
  case (Suc fuel)
  show ?case
  proof (cases "unat rem < 10 ^ Suc k")
    case True
    then have "length (radix_digits 10 (unat rem)) = Suc k"
      using Suc.prems(5) by (cases "k = 0") (simp_all add: radix_digits_small length_radix_digits)
    then show ?thesis using True Suc.prems(1) by (simp add: word_le_nat_alt)
  next
    case False
    then have "10 ^ Suc k \<le> unat rem" by simp
    then have "(10 :: nat) ^ Suc k < 10 ^ 9" using Suc.prems(4) by linarith
    then have k: "Suc k < 9" by (rule power_less_imp_less_exp [rotated]) simp
    then have "(10 :: nat) ^ Suc (Suc k) \<le> 10 ^ 9" by (intro power_increasing) simp_all
    then have "unat (tenpow * 10) = 10 ^ Suc (Suc k)"
      using Suc.prems(1) by (subst unat_mult_no_wrap) simp_all
    from Suc.IH [OF this k] Suc.prems(3,4) False show ?thesis
      using Suc.prems(1) by (auto simp: word_le_nat_alt)
  qed
qed simp

lemma dec_bufsize_spec:
  assumes "ps \<noteq> []" "pout_ok ps" "pout_top ps \<or> ps = [0]"
  shows "1 + length (separated seps 3 (chars upper (radix_digits 10 (dec_val ps)))) \<le> dec_bufsize seps ps"
proof -
  have len: "length (radix_digits 10 (dec_val ps)) = (length ps - 1) * 9 + length (radix_digits 10 (unat (last ps)))"
    using assms
  proof (induction ps)
    case (Cons p ps)
    show ?case
    proof (cases "ps = []")
      case False
      then have top: "pout_top (p # ps)" using Cons.prems(3) by simp
      show ?thesis
        using Cons False pout_top_Cons [OF top Cons.prems(2) False] radix_dec_Cons [OF top Cons.prems(2) False]
        by (cases ps) simp_all
    qed simp
  qed simp
  have "unat (last ps) < DBASE"
    using assms(1,2) by (simp add: pout_ok_def list_all_iff)
  then obtain e where e: "extra_digits 10 (last ps) 10 = Some e" "length (radix_digits 10 (unat (last ps))) = 1 + e"
    using extra_digits_spec [of 10 0 10 "last ps"] by auto
  show ?thesis
    by (simp add: dec_bufsize_def length_separated len e DECIMAL_SHIFT_def Let_def div_le_mono)
qed

lemma int_mem_all: "int_mem x \<Longrightarrow> list_all (\<lambda>d. unat d < BASE) (rev (digits x))"
  using int_mem_digits_ok [of x] by (auto simp: digits_ok_alt list_all_iff)

lemma PrintDecimal_spec:
  assumes "int_mem x" "\<bar>ob_size x\<bar> \<le> (2 ^ 63 - 1) div 30" "precision < 2 ^ 64"
  shows "DeeInt_PrintDecimal x flags precision =
     Inr (Some (padded_text 3 (PRINT_FSEPS flags) precision (sign_prefix x flags) (chars upper (radix_digits 10 (int_mag x)))))"
proof -
  let ?cap = "1 + nat \<bar>ob_size x\<bar> * DIGIT_BITS div (3 * DECIMAL_SHIFT)"
  have "?cap = 1 + (0 + length (rev (digits x))) * DIGIT_BITS div (3 * DECIMAL_SHIFT)"
    using length_digits [OF assms(1)] by simp
  from pout_loop_spec [OF _ _ _ int_mem_all [OF assms(1)] this, of "[]"]
  obtain ps where ps: "pout_loop ?cap [] (rev (digits x)) = Some ps"
      "pout_ok ps" "pout_top ps \<or> ps = [0]" "ps \<noteq> []" "dec_val ps = int_mag x"
    by (auto simp: int_mag_def pout_top_def)
  let ?cs = "chars upper (radix_digits 10 (int_mag x))"
  have t: "dec_text (PRINT_FSEPS flags) ps 0 [] = (length ?cs, separated (PRINT_FSEPS flags) 3 ?cs)"
    using dec_text_spec [OF ps(4,2,3), of "PRINT_FSEPS flags" "[]" upper] by (simp add: ps(5))
  have p: "length (sign_prefix x flags) \<le> 1" by (simp add: sign_prefix_def)
  have "length (sign_prefix x flags) + length (separated (PRINT_FSEPS flags) 3 ?cs) \<le> dec_bufsize (PRINT_FSEPS flags) ps"
    using dec_bufsize_spec [OF ps(4,2,3), of "PRINT_FSEPS flags" upper] p unfolding ps(5) by linarith
  then have "print_text 3 (PRINT_FSEPS flags) precision (sign_prefix x flags) (dec_bufsize (PRINT_FSEPS flags) ps)
      (length ?cs, separated (PRINT_FSEPS flags) 3 ?cs) = Some (padded_text 3 (PRINT_FSEPS flags) precision (sign_prefix x flags) ?cs)"
    using assms(3) chars_not_sep [of 10] by (intro print_text_spec) simp_all
  moreover have "\<not> nat \<bar>ob_size x\<bar> > (2 ^ 63 - 1) div DIGIT_BITS"
    using assms(2) by (simp add: DIGIT_BITS_def)
  ultimately show ?thesis
    by (simp only: DeeInt_PrintDecimal_def Let_def ps(1) t if_False option.case)
qed

lemma strip_bits_spec:
  "unat number < 2 ^ n \<Longrightarrow> 0 < unat number \<Longrightarrow>
     0 < strip_bits n number \<and> strip_bits n number \<le> n \<and>
     2 ^ (strip_bits n number - 1) \<le> unat number \<and> unat number < 2 ^ strip_bits n number"
proof (induction n)
  case (Suc n)
  have b: "drop_bit n number AND 1 = 0 \<longleftrightarrow> even (unat number div 2 ^ n)"
    by (simp add: and_one_eq even_drop_bit_iff_not_bit bit_unat_div flip: even_iff_mod_2_eq_zero)
  have "unat number div 2 ^ n < 2"
    using Suc.prems(1) by (simp add: less_mult_imp_div_less)
  then consider "unat number div 2 ^ n = 0" | "unat number div 2 ^ n = 1" by linarith
  then show ?case
  proof cases
    case 1
    then have "unat number < 2 ^ n" by (simp add: div_eq_0_iff)
    then show ?thesis using Suc.IH Suc.prems(2) 1 by (simp add: b le_SucI)
  next
    case 2
    then have "2 ^ n \<le> unat number"
      by (metis div_less not_le zero_neq_one)
    then show ?thesis using Suc.prems 2 by (simp add: b)
  qed
qed simp

lemma pow2_digits_more:
  assumes "0 < k" "unat number < 2 ^ nb" "nb < 64"
  shows "pow2_digits up seps k True nb number (length cs) (open_text seps 4 cs) =
     (nb mod k, drop_bit (k * (nb div k)) number, length cs + nb div k,
      open_text seps 4 (chars up (fixed_digits (2 ^ k) (nb div k) (unat number)) @ cs))"
  using assms(2,3)
proof (induction nb arbitrary: number cs rule: less_induct)
  case (less nb)
  show ?case
  proof (cases "nb < k")
    case True
    then show ?thesis by (simp add: pow2_digits.simps)
  next
    case False
    let ?n' = "drop_bit k number" and ?c = "itoa_digit up (unat number mod 2 ^ k)"
    have c: "unat (number AND mask k) = unat number mod 2 ^ k"
      by (simp add: unat_and_mask_word)
    have n': "unat ?n' = unat number div 2 ^ k" by (simp add: unat_drop_bit_word)
    have "unat ?n' < 2 ^ (nb - k)"
      using less.prems False unfolding n'
      by (simp add: less_mult_imp_div_less flip: power_add)
    moreover have "nb - k < nb" "nb - k < 64" using False assms(1) less.prems(2) by simp_all
    ultimately have IH: "pow2_digits up seps k True (nb - k) ?n' (length (?c # cs)) (open_text seps 4 (?c # cs)) =
      ((nb - k) mod k, drop_bit (k * ((nb - k) div k)) ?n', length (?c # cs) + (nb - k) div k,
       open_text seps 4 (chars up (fixed_digits (2 ^ k) ((nb - k) div k) (unat ?n')) @ (?c # cs)))"
      using less.IH by blast
    have d: "nb div k = Suc ((nb - k) div k)" "nb mod k = (nb - k) mod k"
      using False assms(1) by (simp_all add: le_div_geq le_mod_geq)
    have "pow2_digits up seps k True nb number (length cs) (open_text seps 4 cs) =
        pow2_digits up seps k True (nb - k) ?n' (length (?c # cs)) (open_text seps 4 (?c # cs))"
      using False assms(1) by (subst pow2_digits.simps) (simp add: Let_def c open_text_step)
    then show ?thesis
      unfolding IH d by (simp add: n' add.commute)
  qed
qed

lemma pow2_digits_last:
  assumes "0 < k" "0 < nb" "2 ^ (nb - 1) \<le> unat number" "unat number < 2 ^ nb"
  shows "pow2_rest up k (pow2_digits up seps k False nb number (length cs) (open_text seps 4 cs)) =
     (length (radix_digits (2 ^ k) (unat number)) + length cs,
      separated seps 4 (chars up (radix_digits (2 ^ k) (unat number)) @ cs))"
  using assms(2-)
proof (induction nb arbitrary: number cs rule: less_induct)
  case (less nb)
  let ?n' = "drop_bit k number" and ?c = "itoa_digit up (unat number mod 2 ^ k)"
  have c: "unat (number AND mask k) = unat number mod 2 ^ k"
    by (simp add: unat_and_mask_word)
  show ?case
  proof (cases "nb \<le> k")
    case True
    then have "(2 :: nat) ^ nb \<le> 2 ^ k" by (intro power_increasing) simp_all
    then have small: "unat number < 2 ^ k" using less.prems(3) by linarith
    have "pow2_digits up seps k False nb number (length cs) (open_text seps 4 cs) =
        (if nb < k then (nb, number, length cs, open_text seps 4 cs)
         else (0, ?n', Suc (length cs), ?c # open_text seps 4 cs))"
      using True assms(1) by (subst pow2_digits.simps) (simp add: Let_def c pow2_digits.simps)
    then show ?thesis
      using less.prems(1) small by (simp add: pow2_rest_def radix_digits_small c)
  next
    case False
    have n': "unat ?n' = unat number div 2 ^ k" by (simp add: unat_drop_bit_word)
    have e: "(2 :: nat) ^ (nb - 1) = 2 ^ k * 2 ^ (nb - k - 1)" "(2 :: nat) ^ nb = 2 ^ (nb - k) * 2 ^ k"
      using False by (simp_all flip: power_add)
    have "2 ^ (nb - k - 1) \<le> unat ?n'" "unat ?n' < 2 ^ (nb - k)"
      using less.prems(2,3) unfolding n' e
      by (simp_all add: less_eq_div_iff_mult_less_eq mult.commute less_mult_imp_div_less)
    moreover have "nb - k < nb" "0 < nb - k" using False assms(1) less.prems(1) by simp_all
    ultimately have IH: "pow2_rest up k (pow2_digits up seps k False (nb - k) ?n' (length (?c # cs)) (open_text seps 4 (?c # cs))) =
      (length (radix_digits (2 ^ k) (unat ?n')) + length (?c # cs),
       separated seps 4 (chars up (radix_digits (2 ^ k) (unat ?n')) @ ?c # cs))"
      using less.IH by blast
    have "2 ^ k \<le> unat number" "2 \<le> (2 :: nat) ^ k"
      using less.prems(2) assms(1) e(1) by (auto intro: le_trans [OF le_trans [OF _ eq_refl [OF e(1) [symmetric]]]] self_le_power)
    then have d: "radix_digits (2 ^ k) (unat number) = radix_digits (2 ^ k) (unat ?n') @ [unat number mod 2 ^ k]"
      unfolding n' by (rule radix_digits_step)
    have "pow2_digits up seps k False nb number (length cs) (open_text seps 4 cs) =
        pow2_digits up seps k False (nb - k) ?n' (length (?c # cs)) (open_text seps 4 (?c # cs))"
      using False assms(1) by (subst pow2_digits.simps) (simp add: Let_def c open_text_step)
    then show ?thesis
      unfolding d using IH by simp
  qed
qed

lemma pow2_refill:
  fixes d :: digit
  assumes "unat number < 2 ^ nb" "nb < 4" "unat d < BASE"
  shows "unat ((number AND mask nb) OR push_bit nb (ucast d) :: twodigits) = unat number + 2 ^ nb * unat d"
    "unat number + 2 ^ nb * unat d < 2 ^ (nb + DIGIT_BITS)"
proof -
  have m: "number AND mask nb = number"
    using assms(1) by (simp add: word_unat_eq_iff unat_and_mask_word)
  have "(2 :: nat) ^ nb \<le> 2 ^ 4" using assms(2) by (intro power_increasing) simp_all
  then have "2 ^ nb * unat d \<le> 16 * BASE"
    using assms(3) by (intro mult_le_mono) simp_all
  then have "unat (ucast d :: twodigits) * 2 ^ nb < 2 ^ LENGTH(64)"
    by (simp add: unat_ucast_up BASE_num mult.commute)
  then have "unat (push_bit nb (ucast d :: twodigits) OR number) = unat (ucast d :: twodigits) * 2 ^ nb + unat number"
    using assms(1) by (intro unat_or_shifted)
  then show "unat ((number AND mask nb) OR push_bit nb (ucast d) :: twodigits) = unat number + 2 ^ nb * unat d"
    unfolding m by (simp add: unat_ucast_up or.commute mult.commute)
  have "2 ^ nb * (unat d + 1) \<le> 2 ^ nb * 2 ^ DIGIT_BITS"
    using assms(3) by (intro mult_le_mono) (simp_all add: BASE_def)
  then show "unat number + 2 ^ nb * unat d < 2 ^ (nb + DIGIT_BITS)"
    using assms(1) by (simp add: power_add)
qed

lemma pow2_loop_spec:
  assumes "0 < k" "k \<le> 4" "src \<noteq> []" "last src \<noteq> 0" "digits_ok src" "nb < k" "unat number < 2 ^ nb"
  shows "pow2_rest up k (pow2_loop up seps k src nb number (length cs) (open_text seps 4 cs)) =
     (length (radix_digits (2 ^ k) (unat number + 2 ^ nb * dval src)) + length cs,
      separated seps 4 (chars up (radix_digits (2 ^ k) (unat number + 2 ^ nb * dval src)) @ cs))"
  using assms(3-)
proof (induction src arbitrary: nb number cs)
  case (Cons d src)
  define w where "w = ((number AND mask nb) OR push_bit nb (ucast d) :: twodigits)"
  have d: "unat d < BASE" "nb < 4" using Cons.prems assms(2) by simp_all
  have w: "unat w = unat number + 2 ^ nb * unat d" "unat w < 2 ^ (nb + DIGIT_BITS)"
    using pow2_refill [OF Cons.prems(5) d(2,1)] by (simp_all add: w_def)
  show ?case
  proof (cases "src = []")
    case True
    have "0 < unat w" using w(1) Cons.prems(2) True by (simp add: unat_gt_0)
    note strip = strip_bits_spec [OF w(2) this]
    have "pow2_loop up seps k (d # src) nb number (length cs) (open_text seps 4 cs) =
        pow2_digits up seps k False (strip_bits (nb + DIGIT_BITS) w) w (length cs) (open_text seps 4 cs)"
      by (simp add: True Let_def w_def split_beta)
    then show ?thesis
      using pow2_digits_last [OF assms(1), of "strip_bits (nb + DIGIT_BITS) w" w up seps cs] strip
      by (simp add: w(1) True)
  next
    case False
    define n where "n = nb + DIGIT_BITS"
    define q where "q = n div k"
    let ?v = "drop_bit (k * q) w" and ?N = "unat number + 2 ^ nb * dval (d # src)"
    let ?cs = "chars up (fixed_digits (2 ^ k) q (unat w)) @ cs"
    have n: "n < 64" using d(2) by (simp add: n_def DIGIT_BITS_def)
    have kq: "n = k * q + n mod k" by (simp add: q_def)
    have N: "?N = unat w + 2 ^ n * dval src"
      by (simp add: w(1) n_def power_add BASE_def algebra_simps)
    have N': "?N = unat w + (2 ^ k) ^ q * (2 ^ (n mod k) * dval src)"
      unfolding N by (subst kq) (simp add: power_add power_mult mult.assoc)
    have v: "unat ?v = unat w div (2 ^ k) ^ q" by (simp add: unat_drop_bit_word power_mult)
    have "unat w < 2 ^ (n mod k) * (2 ^ k) ^ q"
      using w(2) kq by (simp add: n_def [symmetric] mult.commute flip: power_mult power_add)
    then have vb: "unat ?v < 2 ^ (n mod k)" unfolding v by (simp add: less_mult_imp_div_less)
    have src: "last src \<noteq> 0" "digits_ok src" using Cons.prems False by simp_all
    then have "0 < dval src" using dval_lower [OF False] BASE_pos(1) by (meson less_le_trans zero_less_power)
    then have "(2 ^ k) ^ q \<le> ?N" unfolding N' by (intro trans_le_add2) simp
    moreover have "2 \<le> (2 :: nat) ^ k" using assms(1) by (simp add: self_le_power)
    ultimately have "radix_digits (2 ^ k) ?N = radix_digits (2 ^ k) (?N div (2 ^ k) ^ q) @ fixed_digits (2 ^ k) q ?N"
      by (rule radix_digits_split)
    moreover have "?N div (2 ^ k) ^ q = unat ?v + 2 ^ (n mod k) * dval src"
      unfolding N' v by simp
    moreover have "fixed_digits (2 ^ k) q ?N = fixed_digits (2 ^ k) q (unat w)"
      unfolding N' by (rule fixed_digits_low)
    ultimately have R: "radix_digits (2 ^ k) ?N =
        radix_digits (2 ^ k) (unat ?v + 2 ^ (n mod k) * dval src) @ fixed_digits (2 ^ k) q (unat w)"
      by simp
    have "pow2_loop up seps k (d # src) nb number (length cs) (open_text seps 4 cs) =
        pow2_loop up seps k src (n mod k) ?v (length ?cs) (open_text seps 4 ?cs)"
      using pow2_digits_more [OF assms(1) w(2) [folded n_def] n, of up seps cs] False
      by (simp add: Let_def w_def [symmetric] n_def [symmetric] q_def [symmetric] add.commute [of q])
    then show ?thesis
      using Cons.IH [OF False src _ vb, of ?cs] assms(1) unfolding R by simp
  qed
qed simp

lemma radix_digits_lower: "2 \<le> b \<Longrightarrow> 0 < v \<Longrightarrow> b ^ (length (radix_digits b v) - 1) \<le> v"
proof (induction b v rule: radix_digits.induct)
  case (1 b v)
  show ?case
  proof (cases "v < b")
    case False
    then have "0 < v div b" using "1.prems" by (simp add: div_greater_zero_iff)
    then have "b * b ^ (length (radix_digits b (v div b)) - 1) \<le> b * (v div b)"
      using 1 False by (intro mult_le_mono2) simp
    also have "\<dots> \<le> v" by (rule times_div_less_eq_dividend)
    also have "b * b ^ (length (radix_digits b (v div b)) - 1) = b ^ length (radix_digits b (v div b))"
      by (simp add: power_eq_if)
    finally show ?thesis using False "1.prems" by (simp add: radix_digits_step)
  qed (use "1.prems" in \<open>simp add: radix_digits_small\<close>)
qed

lemma pow2_bufsize_spec:
  assumes "0 < k" "v < 2 ^ (n * DIGIT_BITS)" "0 < v"
  shows "3 + length (separated seps 4 (chars up (radix_digits (2 ^ k) v))) \<le> pow2_bufsize seps k n"
proof -
  let ?L = "length (radix_digits (2 ^ k) v)"
  have n: "n \<noteq> 0" using assms(2,3) by (cases n) simp_all
  have "2 \<le> (2 :: nat) ^ k" using assms(1) by (simp add: self_le_power)
  then have "(2 :: nat) ^ (k * (?L - 1)) < 2 ^ (n * DIGIT_BITS)"
    using radix_digits_lower [of "2 ^ k" v] assms(2,3) by (simp add: power_mult)
  then have "k * (?L - 1) < n * DIGIT_BITS" by (rule power_less_imp_less_exp [rotated]) simp
  then have "?L - 1 \<le> n * DIGIT_BITS div k"
    using assms(1) by (simp add: less_eq_div_iff_mult_less_eq mult.commute)
  moreover from this have "(?L - 1) div 4 \<le> n * DIGIT_BITS div k div 4" by (rule div_le_mono)
  moreover have "0 < ?L" by simp
  ultimately have "?L \<le> Suc (n * DIGIT_BITS div k)" "?L + (?L - 1) div 4 \<le> Suc (n * DIGIT_BITS div k + n * DIGIT_BITS div k div 4)"
    by linarith+
  then show ?thesis
    using n by (simp add: pow2_bufsize_def length_separated Let_def)
qed

lemma print_pow2_spec:
  assumes "int_ok x" "0 < k" "k \<le> 4" "precision < 2 ^ 64"
  shows "print_pow2 k x flags precision =
     Some (padded_text 4 (PRINT_FSEPS flags) precision (sign_prefix x flags @ radix_prefix (PRINT_FUPPER flags) k flags)
       (chars (PRINT_FUPPER flags) (radix_digits (2 ^ k) (int_mag x))))"
proof -
  let ?up = "PRINT_FUPPER flags" and ?seps = "PRINT_FSEPS flags"
  let ?cs = "chars ?up (radix_digits (2 ^ k) (int_mag x))"
  let ?pre = "sign_prefix x flags @ radix_prefix ?up k flags"
  have pre: "length ?pre \<le> 3" by (simp add: sign_prefix_def radix_prefix_def)
  have two: "2 \<le> (2 :: nat) ^ k" using assms(2) by (simp add: self_le_power)
  have "pow2_text ?up ?seps k (digits x) = (length ?cs, separated ?seps 4 ?cs) \<and>
      3 + length (separated ?seps 4 ?cs) \<le> pow2_bufsize ?seps k (nat \<bar>ob_size x\<bar>)"
  proof (cases "digits x = []")
    case True
    then have "int_mag x = 0" "nat \<bar>ob_size x\<bar> = 0"
      using length_digits [of x] assms(1) by (simp_all add: int_mag_def)
    then show ?thesis
      using True two by (simp add: pow2_text_def radix_digits_small itoa_digit_def pow2_bufsize_def)
  next
    case False
    have "last (digits x) \<noteq> 0" using assms(1) False by (simp add: int_ok_def)
    then have t: "pow2_text ?up ?seps k (digits x) = (length ?cs, separated ?seps 4 ?cs)"
      using pow2_loop_spec [OF assms(2,3) False _ int_mem_digits_ok, of 0 0 ?up ?seps "[]"] False assms(1,2)
      by (simp add: pow2_text_def int_mag_def)
    have pos: "0 < int_mag x"
      using int_mag_pos [OF assms(1)] False length_digits [of x] assms(1) by fastforce
    have "int_mag x < 2 ^ (nat \<bar>ob_size x\<bar> * DIGIT_BITS)"
      using int_mag_bound [of x] assms(1) by (simp add: BASE_def mult.commute flip: power_mult)
    from pow2_bufsize_spec [OF assms(2) this pos] t show ?thesis by simp
  qed
  then have t: "pow2_text ?up ?seps k (digits x) = (length ?cs, separated ?seps 4 ?cs)"
    and b: "length ?pre + length (separated ?seps 4 ?cs) \<le> pow2_bufsize ?seps k (nat \<bar>ob_size x\<bar>)"
    using pre by linarith+
  have "2 ^ k \<le> (36 :: nat)"
    using power_increasing [OF assms(3), of "2 :: nat"] by simp
  then have "0x5f \<notin> set ?cs" by (rule chars_not_sep [OF two])
  then have p: "print_text 4 ?seps precision ?pre (pow2_bufsize ?seps k (nat \<bar>ob_size x\<bar>)) (length ?cs, separated ?seps 4 ?cs)
      = Some (padded_text 4 ?seps precision ?pre ?cs)"
    by (intro print_text_spec) (use assms(4) b in simp_all)
  show ?thesis unfolding print_pow2_def Let_def t p ..
qed

section \<open>Integers as text\<close>

text \<open>The prefix of a number system, and the text of an integer.\<close>

definition system_prefix :: "bool \<Rightarrow> nat \<Rightarrow> u8 list" where
  "system_prefix upper radix =
     (if radix = 16 then [0x30, if upper then 0x58 else 0x78]
      else if radix = 8 then [0x30]
      else if radix = 4 then [0x30, if upper then 0x50 else 0x70]
      else if radix = 2 then [0x30, if upper then 0x42 else 0x62]
      else [])"

definition number_text :: "bool \<Rightarrow> bool \<Rightarrow> bool \<Rightarrow> bool \<Rightarrow> nat \<Rightarrow> nat \<Rightarrow> int \<Rightarrow> u8 list" where
  "number_text upper sys sign seps radix precision v =
     (let cs = chars upper (radix_digits radix (nat \<bar>v\<bar>))
      in (if v < 0 then [0x2d] else if sign then [0x2b] else []) @
         (if sys then system_prefix upper radix else []) @
         separated seps (if radix = 10 then 3 else 4) (replicate (precision - length cs) 0x30 @ cs))"

definition radices :: "nat set" where "radices = {2, 4, 8, 10, 16}"

definition print_spec :: "DeeInt \<Rightarrow> u32 \<Rightarrow> nat \<Rightarrow> nat \<Rightarrow> u8 list option result" where
  "print_spec x flags radix precision =
     (if radix \<in> radices
      then Inr (Some (number_text (PRINT_FUPPER flags) (PRINT_FNUMSYS flags) (PRINT_FSIGN flags) (PRINT_FSEPS flags)
                        radix precision (int_val x)))
      else Inl NotImplemented)"

lemma sign_prefix_val: "int_ok x \<Longrightarrow> sign_prefix x flags = (if int_val x < 0 then [0x2d] else if PRINT_FSIGN flags then [0x2b] else [])"
  by (simp add: sign_prefix_def int_val_less_0_iff)

lemma Print_spec:
  assumes "int_ok x" "\<bar>ob_size x\<bar> \<le> (2 ^ 63 - 1) div 30" "precision < 2 ^ 64"
  shows "DeeInt_Print x raf precision = print_spec x raf (unat (drop_bit 16 raf)) precision"
proof -
  have mag: "nat \<bar>int_val x\<bar> = int_mag x" by (simp add: abs_int_val)
  have u: "drop_bit 16 raf = r \<longleftrightarrow> unat (drop_bit 16 raf) = unat r" for r :: u32
    by (rule word_unat_eq_iff)
  note pow2 = print_pow2_spec [OF assms(1) _ _ assms(3)]
  note dec = PrintDecimal_spec [OF int_ok_mem [OF assms(1)] assms(2,3), of _ "PRINT_FUPPER raf"]
  show ?thesis
    by (simp add: DeeInt_Print_def u Let_def print_spec_def radices_def dec pow2 padded_text_def number_text_def
        mag sign_prefix_val [OF assms(1)] radix_prefix_def system_prefix_def itoa_digit_def)
qed

lemma PRINT_F_bits:
  "PRINT_FUPPER f \<longleftrightarrow> bit f 0" "PRINT_FNUMSYS f \<longleftrightarrow> bit f 1" "PRINT_FSIGN f \<longleftrightarrow> bit f 2" "PRINT_FSEPS f \<longleftrightarrow> bit f 3"
  using bit_iff_and_push_bit_not_eq_0 [of f 0] bit_iff_and_push_bit_not_eq_0 [of f 1]
    bit_iff_and_push_bit_not_eq_0 [of f 2] bit_iff_and_push_bit_not_eq_0 [of f 3]
  by (simp_all add: PRINT_FUPPER_def PRINT_FNUMSYS_def PRINT_FSIGN_def PRINT_FSEPS_def)

lemma flag_bits:
  "bit (1 :: u32) n \<longleftrightarrow> n = 0" "bit (2 :: u32) n \<longleftrightarrow> n = 1" "bit (4 :: u32) n \<longleftrightarrow> n = 2" "bit (8 :: u32) n \<longleftrightarrow> n = 3"
  by (auto simp: bit_numeral_rec bit_1_iff bit_double_iff nat_eq_iff split: nat.splits)

definition mode_letters :: string where "mode_letters = ''uXn#s+_''"

lemma tostr_flags_spec:
  "if set s \<subseteq> set mode_letters
   then \<exists>g. tostr_flags s f = Inr g \<and> drop_bit 16 g = drop_bit 16 f \<and>
     (PRINT_FUPPER g \<longleftrightarrow> PRINT_FUPPER f \<or> CHR ''u'' \<in> set s \<or> CHR ''X'' \<in> set s) \<and>
     (PRINT_FNUMSYS g \<longleftrightarrow> PRINT_FNUMSYS f \<or> CHR ''n'' \<in> set s \<or> CHR ''#'' \<in> set s) \<and>
     (PRINT_FSIGN g \<longleftrightarrow> PRINT_FSIGN f \<or> CHR ''s'' \<in> set s \<or> CHR ''+'' \<in> set s) \<and>
     (PRINT_FSEPS g \<longleftrightarrow> PRINT_FSEPS f \<or> CHR ''_'' \<in> set s)
   else tostr_flags s f = Inl ValueError"
proof (induction s f rule: tostr_flags.induct)
  case (2 ch iter flags)
  consider "ch \<in> {CHR ''u'', CHR ''X''}" | "ch \<in> {CHR ''n'', CHR ''#''}" | "ch \<in> {CHR ''s'', CHR ''+''}" | "ch = CHR ''_''"
    | "ch \<notin> set mode_letters"
    by (auto simp: mode_letters_def)
  then show ?case
  proof cases
    case 1
    then show ?thesis
      using "2.IH"(1) by (auto simp: mode_letters_def PRINT_F_bits flag_bits bit_or_iff drop_bit_or)
  next
    case 2
    then show ?thesis
      using "2.IH"(2) by (auto simp: mode_letters_def PRINT_F_bits flag_bits bit_or_iff drop_bit_or)
  next
    case 3
    then show ?thesis
      using "2.IH"(3) by (auto simp: mode_letters_def PRINT_F_bits flag_bits bit_or_iff drop_bit_or)
  next
    case 4
    then show ?thesis
      using "2.IH"(4) by (auto simp: mode_letters_def PRINT_F_bits flag_bits bit_or_iff drop_bit_or)
  next
    case 5
    then show ?thesis by (auto simp: mode_letters_def)
  qed
qed (simp add: mode_letters_def)

definition tostr_spec :: "DeeInt \<Rightarrow> nat \<Rightarrow> nat \<Rightarrow> string \<Rightarrow> u8 list option result" where
  "tostr_spec x radix precision s =
     (if \<not> set s \<subseteq> set mode_letters then Inl ValueError
      else if radix \<notin> radices then Inl NotImplemented
      else Inr (Some (number_text (CHR ''u'' \<in> set s \<or> CHR ''X'' \<in> set s) (CHR ''n'' \<in> set s \<or> CHR ''#'' \<in> set s)
                        (CHR ''s'' \<in> set s \<or> CHR ''+'' \<in> set s) (CHR ''_'' \<in> set s) radix precision (int_val x))))"

lemma tostr_radix: "drop_bit 16 (push_bit 16 (ucast r) :: u32) = ucast (r :: 16 word)"
  by (auto simp: bit_eq_iff bit_simps dest: bit_imp_le_length)

lemma tostr_no_flags [simp]:
  "\<not> PRINT_FUPPER (push_bit 16 r)" "\<not> PRINT_FNUMSYS (push_bit 16 r)" "\<not> PRINT_FSIGN (push_bit 16 r)" "\<not> PRINT_FSEPS (push_bit 16 r)"
  by (simp_all add: PRINT_F_bits bit_simps)

lemma int_tostr_spec:
  assumes "int_ok x" "\<bar>ob_size x\<bar> \<le> (2 ^ 63 - 1) div 30" "precision < 2 ^ 64"
  shows "int_tostr x radix precision (Some s) = tostr_spec x (unat radix) precision s"
    "int_tostr x radix precision None = tostr_spec x (unat radix) precision []"
proof -
  let ?f = "push_bit 16 (ucast radix) :: u32"
  have r: "unat (drop_bit 16 ?f) = unat radix" by (simp add: tostr_radix unat_ucast_up)
  note print = Print_spec [OF assms]
  show "int_tostr x radix precision None = tostr_spec x (unat radix) precision []"
    by (simp add: int_tostr_def int_tostr_impl_def print r print_spec_def tostr_spec_def)
  show "int_tostr x radix precision (Some s) = tostr_spec x (unat radix) precision s"
  proof (cases "set s \<subseteq> set mode_letters")
    case True
    then show ?thesis
      using tostr_flags_spec [of s ?f] r
      by (auto simp: int_tostr_def int_tostr_impl_def print print_spec_def tostr_spec_def)
  next
    case False
    then show ?thesis
      using tostr_flags_spec [of s ?f] by (simp add: int_tostr_def tostr_spec_def)
  qed
qed

section \<open>Property\<close>

text \<open>
  C24: for every normalized integer, \<open>DeeInt_Print\<close> writes inside its buffers and prints the sign, the prefix
  of the number system and the digits of the value in the radix, zeroes up to the precision and separators
  between the groups counted from the right; a radix other than 2, 4, 8, 10, 16 is \<open>NotImplemented\<close>.
  \<open>int.tostr\<close> reads the flags from its mode string (\<open>ValueError\<close> for another letter), and \<open>str\<close>,
  \<open>hex\<close>, \<open>bin\<close> and \<open>oct\<close> are its instances.  The value is read back from the digits.
\<close>

theorem int_text_characterized:
  assumes "int_ok x" "\<bar>ob_size x\<bar> \<le> (2 ^ 63 - 1) div 30" "precision < 2 ^ 64"
  shows "DeeInt_Print x raf precision = print_spec x raf (unat (drop_bit 16 raf)) precision \<and>
    int_tostr x radix precision (Some s) = tostr_spec x (unat radix) precision s \<and>
    int_tostr x radix precision None = tostr_spec x (unat radix) precision [] \<and>
    int_str x = Inr (Some (number_text False False False False 10 0 (int_val x))) \<and>
    int_hex x precision = Inr (Some (number_text False True False False 16 precision (int_val x))) \<and>
    int_bin x precision = Inr (Some (number_text False True False False 2 precision (int_val x))) \<and>
    int_oct x precision = Inr (Some (number_text False True False False 8 precision (int_val x))) \<and>
    list_all (\<lambda>b. digits_value b (radix_digits b (nat \<bar>int_val x\<bar>)) = nat \<bar>int_val x\<bar>) [2, 4, 8, 10, 16]"
  using Print_spec [OF assms] Print_spec [OF assms(1,2), of 0] int_tostr_spec [OF assms]
  by (simp add: int_str_def int_hex_def int_bin_def int_oct_def int_tostr_impl_def Dee_INT_PRINT_def print_spec_def
      radices_def digits_value_radix PRINT_FUPPER_def PRINT_FNUMSYS_def PRINT_FSIGN_def PRINT_FSEPS_def)

theorem int_text_characterized_witness:
  "int_str \<lparr>ob_size = -2, ob_digit = [5, 1]\<rparr> = Inr (Some [0x2d, 0x31, 0x30, 0x37, 0x33, 0x37, 0x34, 0x31, 0x38, 0x32, 0x39]) \<and>
   int_tostr \<lparr>ob_size = 1, ob_digit = [0x12345]\<rparr> 16 6 (Some ''+_#'') =
     Inr (Some [0x2b, 0x30, 0x78, 0x30, 0x31, 0x5f, 0x32, 0x33, 0x34, 0x35])"
proof -
  have 1: "int_ok \<lparr>ob_size = -2, ob_digit = [5, 1]\<rparr>" "int_val \<lparr>ob_size = -2, ob_digit = [5, 1]\<rparr> = - 1073741829"
    and 2: "int_ok \<lparr>ob_size = 1, ob_digit = [0x12345]\<rparr>" "int_val \<lparr>ob_size = 1, ob_digit = [0x12345]\<rparr> = 0x12345"
    by (simp_all add: int_eval)
  have a: "number_text False False False False 10 0 (- 1073741829) =
      [0x2d, 0x31, 0x30, 0x37, 0x33, 0x37, 0x34, 0x31, 0x38, 0x32, 0x39]"
    by (simp add: number_text_def radix_digits.simps chars_def itoa_digit_def separated_plain)
  have b: "number_text False True True True 16 6 0x12345 = [0x2b, 0x30, 0x78, 0x30, 0x31, 0x5f, 0x32, 0x33, 0x34, 0x35]"
    by (simp add: number_text_def radix_digits.simps chars_def itoa_digit_def system_prefix_def open_text_def)
  show ?thesis
    using int_text_characterized [OF 1(1), of 0] int_text_characterized [OF 2(1), of 6 _ 16 "''+_#''"]
    by (simp add: 1(2) 2(2) a b tostr_spec_def mode_letters_def radices_def)
qed

end
