(* ===== verification/Utf8.thy ===== *)
theory Utf8
  imports Prelude
begin

unbundle bit_operations_syntax

text \<open>
  Characters in UTF-8 (src/deemon/objects/unicode/unicode.c): writing a character, and the functions
  that read one forwards, backwards or with checks.  All 32-bit values are characters here; those
  above \<open>U+10FFFF\<close> take 5 to 7 bytes.

  A pointer into a text is the list of the bytes from there on; the reading functions return the
  list the pointer has moved to.
\<close>

type_synonym u16 = "16 word"

section \<open>Definitions\<close>

definition Dee_unicode_utf8seqlen :: "u8 \<Rightarrow> nat" where
  "Dee_unicode_utf8seqlen b =
     (if b < 0x80 then 1 else if b < 0xc0 then 0
      else if b < 0xe0 then 2 else if b < 0xf0 then 3 else if b < 0xf8 then 4
      else if b < 0xfc then 5 else if b < 0xfe then 6 else if b < 0xff then 7 else 8)"

definition UTF8_1BYTE_MAX :: u32 where "UTF8_1BYTE_MAX = push_bit 7 1 - 1"
definition UTF8_2BYTE_MAX :: u32 where "UTF8_2BYTE_MAX = push_bit 11 1 - 1"
definition UTF8_3BYTE_MAX :: u32 where "UTF8_3BYTE_MAX = push_bit 16 1 - 1"
definition UTF8_4BYTE_MAX :: u32 where "UTF8_4BYTE_MAX = push_bit 21 1 - 1"
definition UTF8_5BYTE_MAX :: u32 where "UTF8_5BYTE_MAX = push_bit 26 1 - 1"
definition UTF8_6BYTE_MAX :: u32 where "UTF8_6BYTE_MAX = push_bit 31 1 - 1"

definition is_utf8_continuation_byte :: "u8 \<Rightarrow> bool" where
  "is_utf8_continuation_byte b \<longleftrightarrow> b AND 0xc0 = 0x80"

text \<open>The byte \<open>0x80 | ((ch >> n) & 0x3f)\<close>, and the six bits of such a byte.\<close>

definition follow_byte :: "nat \<Rightarrow> u32 \<Rightarrow> u8" where
  "follow_byte n ch = 0x80 OR ucast (drop_bit n ch AND 0x3f)"

definition follow_bits :: "u8 \<Rightarrow> u32" where
  "follow_bits b = ucast b AND 0x3f"

definition Dee_unicode_writeutf8 :: "u32 \<Rightarrow> u8 list" where
  "Dee_unicode_writeutf8 ch =
     (if ch \<le> UTF8_1BYTE_MAX then [ucast ch]
      else if ch \<le> UTF8_2BYTE_MAX then [0xc0 OR ucast (drop_bit 6 ch), follow_byte 0 ch]
      else if ch \<le> UTF8_3BYTE_MAX then [0xe0 OR ucast (drop_bit 12 ch), follow_byte 6 ch, follow_byte 0 ch]
      else if ch \<le> UTF8_4BYTE_MAX then
        [0xf0 OR ucast (drop_bit 18 ch), follow_byte 12 ch, follow_byte 6 ch, follow_byte 0 ch]
      else if ch \<le> UTF8_5BYTE_MAX then
        [0xf8 OR ucast (drop_bit 24 ch), follow_byte 18 ch, follow_byte 12 ch, follow_byte 6 ch, follow_byte 0 ch]
      else if ch \<le> UTF8_6BYTE_MAX then
        [0xfc OR ucast (drop_bit 30 ch), follow_byte 24 ch, follow_byte 18 ch, follow_byte 12 ch, follow_byte 6 ch,
         follow_byte 0 ch]
      else
        [0xfe, 0x80 OR ucast (drop_bit 30 ch AND 0x03), follow_byte 24 ch, follow_byte 18 ch, follow_byte 12 ch,
         follow_byte 6 ch, follow_byte 0 ch])"

text \<open>The character of a sequence of \<open>seqlen\<close> bytes; there is no other case than these.\<close>

definition utf8_getchar :: "u8 list \<Rightarrow> nat \<Rightarrow> u32" where
  "utf8_getchar base seqlen =
     (let lead = (\<lambda>mask. ucast (base ! 0) AND mask); c = (\<lambda>i. follow_bits (base ! i))
      in if seqlen = 0 then 0
         else if seqlen = 1 then ucast (base ! 0)
         else if seqlen = 2 then push_bit 6 (lead 0x1f) OR c 1
         else if seqlen = 3 then push_bit 12 (lead 0x0f) OR push_bit 6 (c 1) OR c 2
         else if seqlen = 4 then push_bit 18 (lead 0x07) OR push_bit 12 (c 1) OR push_bit 6 (c 2) OR c 3
         else if seqlen = 5 then
           push_bit 24 (lead 0x03) OR push_bit 18 (c 1) OR push_bit 12 (c 2) OR push_bit 6 (c 3) OR c 4
         else if seqlen = 6 then
           push_bit 30 (lead 0x01) OR push_bit 24 (c 1) OR push_bit 18 (c 2) OR push_bit 12 (c 3) OR push_bit 6 (c 4) OR c 5
         else if seqlen = 7 then
           push_bit 30 (ucast (base ! 1) AND 0x03) OR push_bit 24 (c 2) OR push_bit 18 (c 3) OR push_bit 12 (c 4)
             OR push_bit 6 (c 5) OR c 6
         else
           push_bit 30 (ucast (base ! 2) AND 0x03) OR push_bit 24 (c 3) OR push_bit 18 (c 4) OR push_bit 12 (c 5)
             OR push_bit 6 (c 6) OR c 7)"

text \<open>
  The \<open>switch\<close> of the functions that move a pointer: \<open>result\<close> is the byte read first and \<open>iter\<close> the
  bytes at the pointer.
\<close>

definition utf8_switch :: "nat \<Rightarrow> u32 \<Rightarrow> u8 list \<Rightarrow> u32" where
  "utf8_switch len result iter =
     (let c = (\<lambda>i. follow_bits (iter ! i))
      in if len \<le> 1 then result
         else if len = 2 then push_bit 6 (result AND 0x1f) OR c 0
         else if len = 3 then push_bit 12 (result AND 0x0f) OR push_bit 6 (c 0) OR c 1
         else if len = 4 then push_bit 18 (result AND 0x07) OR push_bit 12 (c 0) OR push_bit 6 (c 1) OR c 2
         else if len = 5 then
           push_bit 24 (result AND 0x03) OR push_bit 18 (c 0) OR push_bit 12 (c 1) OR push_bit 6 (c 2) OR c 3
         else if len = 6 then
           push_bit 30 (result AND 0x01) OR push_bit 24 (c 0) OR push_bit 18 (c 1) OR push_bit 12 (c 2) OR push_bit 6 (c 3)
             OR c 4
         else if len = 7 then
           push_bit 30 (ucast (iter ! 0) AND 0x03) OR push_bit 24 (c 1) OR push_bit 18 (c 2) OR push_bit 12 (c 3)
             OR push_bit 6 (c 4) OR c 5
         else
           push_bit 30 (ucast (iter ! 1) AND 0x03) OR push_bit 24 (c 2) OR push_bit 18 (c 3) OR push_bit 12 (c 4)
             OR push_bit 6 (c 5) OR c 6)"

text \<open>
  Reading up to the end of a text, and reading a text whose end is not known: there \<open>None\<close> is an
  access behind the end of the memory.
\<close>

definition Dee_unicode_readutf8_n :: "u8 list \<Rightarrow> u32 \<times> u8 list" where
  "Dee_unicode_readutf8_n text =
     (case text of
        [] \<Rightarrow> (0, [])
      | c # iter \<Rightarrow>
          if ucast c \<ge> (0xc0 :: u32) then
            let len = Dee_unicode_utf8seqlen c;
                len = (if len - 1 \<ge> length iter then length iter + 1 else len)
            in (utf8_switch len (ucast c) iter, drop (len - 1) iter)
          else (ucast c, iter))"

lemma readutf8_n_shorter: "ptr \<noteq> [] \<Longrightarrow> length (snd (Dee_unicode_readutf8_n ptr)) < length ptr"
  by (cases ptr) (simp_all add: Dee_unicode_readutf8_n_def Let_def less_Suc_eq_le)

definition Dee_unicode_readutf8 :: "u8 list \<Rightarrow> (u32 \<times> u8 list) option" where
  "Dee_unicode_readutf8 text =
     (case text of
        [] \<Rightarrow> None
      | c # iter \<Rightarrow>
          let len = Dee_unicode_utf8seqlen c
          in if len - 1 > length iter then None
             else Some (utf8_switch len (ucast c) iter, drop (len - 1) iter))"

text \<open>
  Reading backwards: the text is the one before the pointer.  The loop moves the pointer, here an
  index, to the first byte that is not a continuation, at most 8 bytes back.
\<close>

fun rev_scan :: "u8 list \<Rightarrow> nat \<Rightarrow> nat \<Rightarrow> nat \<times> nat" where
  "rev_scan text 0 seqlen = (0, seqlen)"
| "rev_scan text (Suc iter) seqlen =
     (if (text ! iter) AND 0xc0 \<noteq> 0x80 then (iter, seqlen)
      else if seqlen \<ge> 8 then (iter, seqlen)
      else if iter = 0 then (iter, seqlen + 1)
      else rev_scan text iter (seqlen + 1))"

definition Dee_unicode_readutf8_rev_n :: "u8 list \<Rightarrow> u32 \<times> u8 list" where
  "Dee_unicode_readutf8_rev_n text =
     (if text = [] then (0, [])
      else
        let (iter, seqlen) = rev_scan text (length text) 1;
            result = ucast (text ! iter)
        in (if result \<ge> 0xc0 then utf8_switch seqlen result (drop iter text) else result, take iter text))"

text \<open>
  Reading with checks.  The bytes are tested one after the other, so the reader stops in front of
  the first that is no continuation; \<open>None\<close> when the memory ends before.
\<close>

fun continued :: "nat \<Rightarrow> u8 list \<Rightarrow> bool option" where
  "continued 0 iter = Some True"
| "continued (Suc n) [] = None"
| "continued (Suc n) (b # iter) = (if \<not> is_utf8_continuation_byte b then Some False else continued n iter)"

definition utf8_seq_min :: "nat \<Rightarrow> u32" where
  "utf8_seq_min len =
     (if len \<le> 1 then 0
      else if len = 2 then UTF8_1BYTE_MAX + 1 else if len = 3 then UTF8_2BYTE_MAX + 1
      else if len = 4 then UTF8_3BYTE_MAX + 1 else if len = 5 then UTF8_4BYTE_MAX + 1
      else if len = 6 then UTF8_5BYTE_MAX + 1 else UTF8_6BYTE_MAX + 1)"

definition Dee_unicode_readutf8_chk :: "u8 list \<Rightarrow> (u32 \<times> u8 list) option" where
  "Dee_unicode_readutf8_chk text =
     (case text of
        [] \<Rightarrow> None
      | c # iter \<Rightarrow>
          let len = Dee_unicode_utf8seqlen c
          in if len = 0 \<or> len = 8 then Some (0, iter)
             else case continued (len - 1) iter of
               None \<Rightarrow> None
             | Some False \<Rightarrow> Some (0, iter)
             | Some True \<Rightarrow>
                 let result = utf8_switch len (ucast c) iter
                 in if result < utf8_seq_min len then Some (0, iter) else Some (result, drop (len - 1) iter))"

section \<open>Slices of bits\<close>

text \<open>The constants of the code as masks and shifts.\<close>

lemma utf8_masks:
  "(0x3f :: u32) = mask 6" "(0x1f :: u32) = mask 5" "(0x0f :: u32) = mask 4" "(0x07 :: u32) = mask 3"
  "(0x03 :: u32) = mask 2" "(0x01 :: u32) = mask 1"
  by (simp_all add: mask_eq_exp_minus_1)

lemma utf8_leads:
  "(0x80 :: u8) = push_bit 7 1" "(0xc0 :: u8) = push_bit 6 3" "(0xe0 :: u8) = push_bit 5 7" "(0xf0 :: u8) = push_bit 4 15"
  "(0xf8 :: u8) = push_bit 3 31" "(0xfc :: u8) = push_bit 2 63"
  by simp_all

lemma lead_bits:
  "k \<le> j \<Longrightarrow> j \<le> 8 \<Longrightarrow> ucast (push_bit j c OR ucast x :: u8) AND mask k = (x AND mask k :: u32)"
  by (rule bit_word_eqI) (auto simp: bit_simps)

lemma follow_bits_follow_byte: "follow_bits (follow_byte n ch) = drop_bit n ch AND mask 6"
  unfolding follow_bits_def follow_byte_def utf8_masks
  using lead_bits [of 6 7 "1 :: u8" "drop_bit n ch AND mask 6"] by (simp add: and.assoc)

lemma slice_join:
  fixes ch :: "'a::len word"
  assumes "i \<le> k"
  shows "push_bit k (drop_bit k ch AND mask j) OR push_bit i (drop_bit i ch AND mask (k - i))
    = push_bit i (drop_bit i ch AND mask (j + k - i))"
proof (rule bit_word_eqI)
  fix n
  assume "n < LENGTH('a)"
  then show "bit (push_bit k (drop_bit k ch AND mask j) OR push_bit i (drop_bit i ch AND mask (k - i))) n
      \<longleftrightarrow> bit (push_bit i (drop_bit i ch AND mask (j + k - i))) n"
    using assms by (cases "k \<le> n") (auto simp: bit_simps)
qed

lemma slice_join_6:
  fixes ch :: "'a::len word"
  shows "push_bit (i + 6) (drop_bit (i + 6) ch AND mask j) OR push_bit i (drop_bit i ch AND mask 6)
    = push_bit i (drop_bit i ch AND mask (j + 6))"
  using slice_join [of i "i + 6" ch j] by simp

lemma slices_join:
  fixes ch :: "'a::len word"
  shows "push_bit 6 (drop_bit 6 ch AND mask j) OR (drop_bit 0 ch AND mask 6) = ch AND mask (j + 6)"
    "push_bit 12 (drop_bit 12 ch AND mask j) OR push_bit 6 (drop_bit 6 ch AND mask 6)
      = push_bit 6 (drop_bit 6 ch AND mask (j + 6))"
    "push_bit 18 (drop_bit 18 ch AND mask j) OR push_bit 12 (drop_bit 12 ch AND mask 6)
      = push_bit 12 (drop_bit 12 ch AND mask (j + 6))"
    "push_bit 24 (drop_bit 24 ch AND mask j) OR push_bit 18 (drop_bit 18 ch AND mask 6)
      = push_bit 18 (drop_bit 18 ch AND mask (j + 6))"
    "push_bit 30 (drop_bit 30 ch AND mask j) OR push_bit 24 (drop_bit 24 ch AND mask 6)
      = push_bit 24 (drop_bit 24 ch AND mask (j + 6))"
  using slice_join_6 [of 0 ch j] slice_join_6 [of 6 ch j] slice_join_6 [of 12 ch j] slice_join_6 [of 18 ch j]
    slice_join_6 [of 24 ch j]
  by simp_all

lemma slices_value:
  fixes ch :: "'a::len word"
  shows "push_bit 6 (drop_bit 6 ch AND mask j) OR (drop_bit 0 ch AND mask 6) = ch AND mask (j + 6)"
    "push_bit 12 (drop_bit 12 ch AND mask j) OR push_bit 6 (drop_bit 6 ch AND mask 6) OR (drop_bit 0 ch AND mask 6) = ch AND mask (j + 12)"
    "push_bit 18 (drop_bit 18 ch AND mask j) OR push_bit 12 (drop_bit 12 ch AND mask 6) OR push_bit 6 (drop_bit 6 ch AND mask 6) OR (drop_bit 0 ch AND mask 6) = ch AND mask (j + 18)"
    "push_bit 24 (drop_bit 24 ch AND mask j) OR push_bit 18 (drop_bit 18 ch AND mask 6) OR push_bit 12 (drop_bit 12 ch AND mask 6) OR push_bit 6 (drop_bit 6 ch AND mask 6) OR (drop_bit 0 ch AND mask 6) = ch AND mask (j + 24)"
    "push_bit 30 (drop_bit 30 ch AND mask j) OR push_bit 24 (drop_bit 24 ch AND mask 6) OR push_bit 18 (drop_bit 18 ch AND mask 6) OR push_bit 12 (drop_bit 12 ch AND mask 6) OR push_bit 6 (drop_bit 6 ch AND mask 6) OR (drop_bit 0 ch AND mask 6) = ch AND mask (j + 30)"
  unfolding or.assoc [symmetric] unfolding slices_join by (simp_all add: add.commute)

lemma and_mask_small: "unat ch < 2 ^ n \<Longrightarrow> ch AND mask n = (ch :: u32)"
  by (simp add: word_unat_eq_iff unat_and_mask_word)

lemma UTF8_MAX_nat:
  "unat UTF8_1BYTE_MAX = 2 ^ 7 - 1" "unat UTF8_2BYTE_MAX = 2 ^ 11 - 1" "unat UTF8_3BYTE_MAX = 2 ^ 16 - 1"
  "unat UTF8_4BYTE_MAX = 2 ^ 21 - 1" "unat UTF8_5BYTE_MAX = 2 ^ 26 - 1" "unat UTF8_6BYTE_MAX = 2 ^ 31 - 1"
  by (simp_all add: UTF8_1BYTE_MAX_def UTF8_2BYTE_MAX_def UTF8_3BYTE_MAX_def UTF8_4BYTE_MAX_def UTF8_5BYTE_MAX_def
      UTF8_6BYTE_MAX_def)

lemma bits_0x80: "bit (0x80 :: u8) n \<longleftrightarrow> n = 7"
proof -
  have "(0x80 :: u8) = 2 ^ 7" by simp
  then show ?thesis by (simp only: bit_exp_iff) auto
qed

lemma bits_0xc0: "bit (0xc0 :: u8) n \<longleftrightarrow> n = 6 \<or> n = 7"
proof -
  have "(0xc0 :: u8) = push_bit 6 (mask 2)" by (simp add: mask_eq_exp_minus_1)
  then show ?thesis by (simp only: bit_push_bit_iff bit_mask_iff) auto
qed

lemma masked_continuation:
  assumes "k \<le> 6"
  shows "is_utf8_continuation_byte (0x80 OR ucast (x AND mask k :: u32))"
proof -
  have "(0x80 OR ucast (x AND mask k)) AND 0xc0 = (0x80 :: u8)"
    by (rule bit_word_eqI) (use assms in \<open>auto simp only: bit_and_iff bit_or_iff bit_unsigned_iff bit_mask_iff bits_0x80 bits_0xc0\<close>)
  then show ?thesis by (simp add: is_utf8_continuation_byte_def)
qed

lemma follow_is_continuation [simp]: "is_utf8_continuation_byte (follow_byte n ch)"
  unfolding follow_byte_def utf8_masks by (rule masked_continuation) simp

text \<open>The length announced by a lead byte.\<close>

lemma seqlen_nat:
  "Dee_unicode_utf8seqlen b =
     (if unat b < 128 then 1 else if unat b < 192 then 0 else if unat b < 224 then 2 else if unat b < 240 then 3
      else if unat b < 248 then 4 else if unat b < 252 then 5 else if unat b < 254 then 6 else if unat b < 255 then 7 else 8)"
  by (simp add: Dee_unicode_utf8seqlen_def word_less_nat_alt)

lemma lead_nat:
  assumes "unat ch < 2 ^ (n + j)" "j < 8" "unat c * 2 ^ j < 256"
  shows "unat (push_bit j c OR ucast (drop_bit n ch :: u32) :: u8) = unat c * 2 ^ j + unat ch div 2 ^ n"
proof -
  have lt: "unat ch div 2 ^ n < 2 ^ j" using assms(1) by (simp add: power_add less_mult_imp_div_less mult.commute)
  have "(2::nat) ^ j < 2 ^ 8" using assms(2) by (intro power_strict_increasing) simp_all
  then have "unat (ucast (drop_bit n ch) :: u8) = unat ch div 2 ^ n"
    using lt by (simp add: unat_ucast_word unat_drop_bit_word)
  then show ?thesis using unat_or_shifted [of "ucast (drop_bit n ch) :: u8" j c] lt assms(3) by simp
qed

section \<open>What is written is read\<close>

text \<open>
  The bytes of a character: the lead byte announces the number of bytes, the others are
  continuations, and the two switches give the character back.
\<close>

definition utf8_sequence :: "u32 \<Rightarrow> u8 \<Rightarrow> u8 list \<Rightarrow> bool" where
  "utf8_sequence ch lead bs \<longleftrightarrow>
     Dee_unicode_utf8seqlen lead = Suc (length bs) \<and> length bs \<le> 6 \<and> (\<forall>b\<in>set bs. is_utf8_continuation_byte b)
     \<and> (\<forall>rest. utf8_switch (Suc (length bs)) (ucast lead) (bs @ rest) = ch
          \<and> utf8_getchar (lead # bs @ rest) (Suc (length bs)) = ch)
     \<and> utf8_seq_min (Suc (length bs)) \<le> ch \<and> (bs = [] \<longrightarrow> unat lead < 128 \<and> ucast lead = ch)
     \<and> (bs \<noteq> [] \<longrightarrow> 192 \<le> unat lead)"

lemmas utf8_reading = utf8_sequence_def utf8_switch_def utf8_getchar_def Let_def follow_bits_follow_byte
  utf8_seq_min_def word_le_nat_alt UTF8_MAX_nat

lemma sequence_1:
  assumes "unat ch < 2 ^ 7"
  shows "utf8_sequence ch (ucast ch) []"
proof -
  have u: "unat (ucast ch :: u8) = unat ch" using assms by (simp add: unat_ucast_word)
  then have "ucast (ucast ch :: u8) = ch" by (simp add: word_unat_eq_iff unat_ucast_word)
  then show ?thesis using assms u by (simp add: utf8_reading seqlen_nat)
qed

lemma utf8_seq_min_nat:
  "unat (UTF8_1BYTE_MAX + 1) = 2 ^ 7" "unat (UTF8_2BYTE_MAX + 1) = 2 ^ 11" "unat (UTF8_3BYTE_MAX + 1) = 2 ^ 16"
  "unat (UTF8_4BYTE_MAX + 1) = 2 ^ 21" "unat (UTF8_5BYTE_MAX + 1) = 2 ^ 26" "unat (UTF8_6BYTE_MAX + 1) = 2 ^ 31"
  by (simp_all add: UTF8_1BYTE_MAX_def UTF8_2BYTE_MAX_def UTF8_3BYTE_MAX_def UTF8_4BYTE_MAX_def UTF8_5BYTE_MAX_def
      UTF8_6BYTE_MAX_def)

lemma lead_byte_bits:
  "ucast (0xc0 OR ucast x :: u8) AND mask 5 = (x AND mask 5 :: u32)"
  "ucast (0xe0 OR ucast x :: u8) AND mask 4 = (x AND mask 4 :: u32)"
  "ucast (0xf0 OR ucast x :: u8) AND mask 3 = (x AND mask 3 :: u32)"
  "ucast (0xf8 OR ucast x :: u8) AND mask 2 = (x AND mask 2 :: u32)"
  "ucast (0xfc OR ucast x :: u8) AND mask 1 = (x AND mask 1 :: u32)"
  "ucast (0x80 OR ucast x :: u8) AND mask 2 = (x AND mask 2 :: u32)"
  using lead_bits [of 5 6 "3 :: u8" x] lead_bits [of 4 5 "7 :: u8" x] lead_bits [of 3 4 "15 :: u8" x]
    lead_bits [of 2 3 "31 :: u8" x] lead_bits [of 1 2 "63 :: u8" x] lead_bits [of 2 7 "1 :: u8" x]
  by simp_all

lemmas utf8_sequence_simps = lead_byte_bits follow_bits_follow_byte seqlen_nat utf8_seq_min_nat

lemma sequence_2:
  assumes "2 ^ 7 \<le> unat ch" "unat ch < 2 ^ 11"
  shows "utf8_sequence ch (0xc0 OR ucast (drop_bit 6 ch)) [follow_byte 0 ch]"
proof -
  have "unat ch div 2 ^ 6 < 2 ^ 5" using assms(2) by (simp add: less_mult_imp_div_less)
  then have n: "192 \<le> unat (0xc0 OR ucast (drop_bit 6 ch) :: u8)" "unat (0xc0 OR ucast (drop_bit 6 ch) :: u8) < 224"
    using lead_nat [of ch 6 6 "3 :: u8"] assms(2) by simp_all
  note val = slices_value(1) [of ch 5] and_mask_small [OF assms(2)]
  show ?thesis
    unfolding utf8_reading utf8_masks using n assms(1) val
    by (simp add: utf8_sequence_simps del: drop_bit_0 push_bit_and)
qed

lemma sequence_3:
  assumes "2 ^ 11 \<le> unat ch" "unat ch < 2 ^ 16"
  shows "utf8_sequence ch (0xe0 OR ucast (drop_bit 12 ch)) [follow_byte 6 ch, follow_byte 0 ch]"
proof -
  have "unat ch div 2 ^ 12 < 2 ^ 4" using assms(2) by (simp add: less_mult_imp_div_less)
  then have n: "224 \<le> unat (0xe0 OR ucast (drop_bit 12 ch) :: u8)" "unat (0xe0 OR ucast (drop_bit 12 ch) :: u8) < 240"
    using lead_nat [of ch 12 5 "7 :: u8"] assms(2) by simp_all
  note val = slices_value(2) [of ch 4] and_mask_small [OF assms(2)]
  show ?thesis
    unfolding utf8_reading utf8_masks using n assms(1) val
    by (simp add: utf8_sequence_simps del: drop_bit_0 push_bit_and)
qed

lemma sequence_4:
  assumes "2 ^ 16 \<le> unat ch" "unat ch < 2 ^ 21"
  shows "utf8_sequence ch (0xf0 OR ucast (drop_bit 18 ch)) [follow_byte 12 ch, follow_byte 6 ch, follow_byte 0 ch]"
proof -
  have "unat ch div 2 ^ 18 < 2 ^ 3" using assms(2) by (simp add: less_mult_imp_div_less)
  then have n: "240 \<le> unat (0xf0 OR ucast (drop_bit 18 ch) :: u8)" "unat (0xf0 OR ucast (drop_bit 18 ch) :: u8) < 248"
    using lead_nat [of ch 18 4 "15 :: u8"] assms(2) by simp_all
  note val = slices_value(3) [of ch 3] and_mask_small [OF assms(2)]
  show ?thesis
    unfolding utf8_reading utf8_masks using n assms(1) val
    by (simp add: utf8_sequence_simps del: drop_bit_0 push_bit_and)
qed

lemma sequence_5:
  assumes "2 ^ 21 \<le> unat ch" "unat ch < 2 ^ 26"
  shows "utf8_sequence ch (0xf8 OR ucast (drop_bit 24 ch)) [follow_byte 18 ch, follow_byte 12 ch, follow_byte 6 ch, follow_byte 0 ch]"
proof -
  have "unat ch div 2 ^ 24 < 2 ^ 2" using assms(2) by (simp add: less_mult_imp_div_less)
  then have n: "248 \<le> unat (0xf8 OR ucast (drop_bit 24 ch) :: u8)" "unat (0xf8 OR ucast (drop_bit 24 ch) :: u8) < 252"
    using lead_nat [of ch 24 3 "31 :: u8"] assms(2) by simp_all
  note val = slices_value(4) [of ch 2] and_mask_small [OF assms(2)]
  show ?thesis
    unfolding utf8_reading utf8_masks using n assms(1) val
    by (simp add: utf8_sequence_simps del: drop_bit_0 push_bit_and)
qed

lemma sequence_6:
  assumes "2 ^ 26 \<le> unat ch" "unat ch < 2 ^ 31"
  shows "utf8_sequence ch (0xfc OR ucast (drop_bit 30 ch)) [follow_byte 24 ch, follow_byte 18 ch, follow_byte 12 ch, follow_byte 6 ch, follow_byte 0 ch]"
proof -
  have "unat ch div 2 ^ 30 < 2 ^ 1" using assms(2) by (simp add: less_mult_imp_div_less)
  then have n: "252 \<le> unat (0xfc OR ucast (drop_bit 30 ch) :: u8)" "unat (0xfc OR ucast (drop_bit 30 ch) :: u8) < 254"
    using lead_nat [of ch 30 2 "63 :: u8"] assms(2) by simp_all
  note val = slices_value(5) [of ch 1] and_mask_small [OF assms(2)]
  show ?thesis
    unfolding utf8_reading utf8_masks using n assms(1) val lead_byte_bits(5) [of "drop_bit 30 ch"]
    by (simp add: utf8_sequence_simps del: drop_bit_0 push_bit_and)
qed

lemma sequence_7:
  assumes "2 ^ 31 \<le> unat ch"
  shows "utf8_sequence ch 0xfe [0x80 OR ucast (drop_bit 30 ch AND 0x03), follow_byte 24 ch, follow_byte 18 ch,
    follow_byte 12 ch, follow_byte 6 ch, follow_byte 0 ch]"
proof -
  have "unat ch < 2 ^ 32" using unsigned_less [of ch] by simp
  note val = slices_value(5) [of ch 2] and_mask_small [OF this]
  have "is_utf8_continuation_byte (0x80 OR ucast (drop_bit 30 ch AND mask 2))" by (rule masked_continuation) simp
  then show ?thesis
    unfolding utf8_reading utf8_masks using assms val
    by (simp add: utf8_sequence_simps del: drop_bit_0 push_bit_and)
qed

lemma writeutf8_sequence:
  obtains lead bs where "Dee_unicode_writeutf8 ch = lead # bs" "utf8_sequence ch lead bs"
proof -
  let ?n = "unat ch"
  consider "?n < 2 ^ 7" | "2 ^ 7 \<le> ?n" "?n < 2 ^ 11" | "2 ^ 11 \<le> ?n" "?n < 2 ^ 16" | "2 ^ 16 \<le> ?n" "?n < 2 ^ 21"
    | "2 ^ 21 \<le> ?n" "?n < 2 ^ 26" | "2 ^ 26 \<le> ?n" "?n < 2 ^ 31" | "2 ^ 31 \<le> ?n" by linarith
  then show ?thesis
  proof cases
    case 1
    show ?thesis by (rule that [OF _ sequence_1 [OF 1]]) (use 1 in \<open>simp add: Dee_unicode_writeutf8_def word_le_nat_alt UTF8_MAX_nat\<close>)
  next
    case 2
    show ?thesis by (rule that [OF _ sequence_2 [OF 2]]) (use 2 in \<open>simp add: Dee_unicode_writeutf8_def word_le_nat_alt UTF8_MAX_nat\<close>)
  next
    case 3
    show ?thesis by (rule that [OF _ sequence_3 [OF 3]]) (use 3 in \<open>simp add: Dee_unicode_writeutf8_def word_le_nat_alt UTF8_MAX_nat\<close>)
  next
    case 4
    show ?thesis by (rule that [OF _ sequence_4 [OF 4]]) (use 4 in \<open>simp add: Dee_unicode_writeutf8_def word_le_nat_alt UTF8_MAX_nat\<close>)
  next
    case 5
    show ?thesis by (rule that [OF _ sequence_5 [OF 5]]) (use 5 in \<open>simp add: Dee_unicode_writeutf8_def word_le_nat_alt UTF8_MAX_nat\<close>)
  next
    case 6
    show ?thesis by (rule that [OF _ sequence_6 [OF 6]]) (use 6 in \<open>simp add: Dee_unicode_writeutf8_def word_le_nat_alt UTF8_MAX_nat\<close>)
  next
    case 7
    show ?thesis by (rule that [OF _ sequence_7 [OF 7]]) (use 7 in \<open>simp add: Dee_unicode_writeutf8_def word_le_nat_alt UTF8_MAX_nat\<close>)
  qed
qed

lemma continued_all: "\<forall>b\<in>set bs. is_utf8_continuation_byte b \<Longrightarrow> continued (length bs) (bs @ rest) = Some True"
  by (induction bs) simp_all

lemma continuation_nat: "is_utf8_continuation_byte b \<longleftrightarrow> 128 \<le> unat b \<and> unat b < 192"
proof -
  have "b AND 0xc0 = push_bit 6 (drop_bit 6 b AND mask 2)"
  proof (rule bit_word_eqI)
    fix n
    assume "n < LENGTH(8)"
    then have "6 + (n - 6) = n \<or> n < 6" by auto
    then show "bit (b AND 0xc0) n \<longleftrightarrow> bit (push_bit 6 (drop_bit 6 b AND mask 2)) n"
      using \<open>n < LENGTH(8)\<close>
      by (auto simp only: bit_and_iff bits_0xc0 bit_push_bit_iff bit_drop_bit_eq o_def bit_mask_iff) auto
  qed
  moreover have "drop_bit 6 b AND mask 2 = (drop_bit 6 b :: u8)"
    by (rule bit_word_eqI) (auto simp: bit_simps dest: bit_imp_le_length)
  moreover have "unat b < 2 ^ LENGTH(8)" by (rule unsigned_less)
  ultimately have "unat (b AND 0xc0) = unat b div 64 * 64"
    using unat_push_bit_no_wrap [of "drop_bit 6 b" 6] by (simp add: unat_drop_bit_word)
  moreover have "unat (0x80 :: u8) = 128" by simp
  ultimately have "is_utf8_continuation_byte b \<longleftrightarrow> unat b div 64 * 64 = 128"
    by (simp only: is_utf8_continuation_byte_def word_unat_eq_iff)
  also have "\<dots> \<longleftrightarrow> 128 \<le> unat b \<and> unat b < 192"
  proof
    assume "unat b div 64 * 64 = 128"
    then show "128 \<le> unat b \<and> unat b < 192"
      using div_mult_mod_eq [of "unat b" 64] mod_less_divisor [of 64 "unat b"] by simp
  next
    assume "128 \<le> unat b \<and> unat b < 192"
    then have "unat b div 64 = 2" by (intro div_nat_eqI) simp_all
    then show "unat b div 64 * 64 = 128" by simp
  qed
  finally show ?thesis .
qed

text \<open>All readers read a written character, and leave the pointer behind it.\<close>

lemma read_sequence:
  assumes "utf8_sequence ch lead bs"
  shows "Dee_unicode_readutf8_n (lead # bs @ rest) = (ch, rest)"
    "Dee_unicode_readutf8 (lead # bs @ rest) = Some (ch, rest)"
    "Dee_unicode_readutf8_chk (lead # bs @ rest) = Some (ch, rest)"
proof -
  have s: "Dee_unicode_utf8seqlen lead = Suc (length bs)" "length bs \<le> 6"
      "utf8_switch (Suc (length bs)) (ucast lead) (bs @ rest) = ch" "utf8_seq_min (Suc (length bs)) \<le> ch"
    using assms by (simp_all add: utf8_sequence_def)
  have c: "continued (length bs) (bs @ rest) = Some True"
    by (rule continued_all) (use assms in \<open>simp add: utf8_sequence_def\<close>)
  show "Dee_unicode_readutf8 (lead # bs @ rest) = Some (ch, rest)"
    using s by (simp add: Dee_unicode_readutf8_def)
  have "\<not> ch < utf8_seq_min (Suc (length bs))" using s(4) by (simp add: not_less)
  then show "Dee_unicode_readutf8_chk (lead # bs @ rest) = Some (ch, rest)"
    using s(1-3) c by (simp add: Dee_unicode_readutf8_chk_def)
  show "Dee_unicode_readutf8_n (lead # bs @ rest) = (ch, rest)"
  proof (cases "bs = []")
    case True
    then have lead: "unat lead < 128" and ch: "ucast lead = ch" using assms by (simp_all add: utf8_sequence_def)
    have "\<not> (0xc0 :: u32) \<le> ucast lead" using lead by (simp add: word_le_nat_alt unat_ucast_up)
    then show ?thesis using True ch by (simp add: Dee_unicode_readutf8_n_def)
  next
    case False
    then have "192 \<le> unat lead" using assms by (simp add: utf8_sequence_def)
    then have "(0xc0 :: u32) \<le> ucast lead" by (simp add: word_le_nat_alt unat_ucast_up)
    moreover have "(if length bs \<ge> length (bs @ rest) then length (bs @ rest) + 1 else Suc (length bs)) = Suc (length bs)" by simp
    ultimately show ?thesis using s by (simp add: Dee_unicode_readutf8_n_def)
  qed
qed

text \<open>Reading backwards finds the lead byte of the last character.\<close>

lemma rev_scan_step:
  "is_utf8_continuation_byte (text ! iter) \<Longrightarrow> 0 < iter \<Longrightarrow> seqlen < 8 \<Longrightarrow>
    rev_scan text (Suc iter) seqlen = rev_scan text iter (seqlen + 1)"
  by (simp add: is_utf8_continuation_byte_def)

lemma rev_scan_sequence:
  assumes "\<forall>b\<in>set bs. is_utf8_continuation_byte b" "\<not> is_utf8_continuation_byte lead"
  shows "k \<le> length bs \<Longrightarrow> s + k < 8 \<Longrightarrow>
    rev_scan (pre @ lead # bs) (length pre + 1 + k) s = (length pre, s + k)"
proof (induction k arbitrary: s)
  case 0
  then show ?case using assms(2) by (simp add: is_utf8_continuation_byte_def)
next
  case (Suc k)
  have "(pre @ lead # bs) ! (length pre + 1 + k) = bs ! k" by (simp add: nth_append)
  then have "is_utf8_continuation_byte ((pre @ lead # bs) ! (length pre + 1 + k))" using assms(1) Suc.prems(1) by simp
  then have "rev_scan (pre @ lead # bs) (Suc (length pre + 1 + k)) s = rev_scan (pre @ lead # bs) (length pre + 1 + k) (s + 1)"
    by (rule rev_scan_step) (use Suc.prems in simp_all)
  then show ?case using Suc.IH [of "s + 1"] Suc.prems by simp
qed

lemma readutf8_rev_n_sequence:
  assumes "utf8_sequence ch lead bs"
  shows "Dee_unicode_readutf8_rev_n (pre @ lead # bs)
    = (if bs = [] then ch else utf8_switch (Suc (length bs)) (ucast lead) (lead # bs), pre)"
proof -
  have s: "length bs \<le> 6" "\<forall>b\<in>set bs. is_utf8_continuation_byte b" using assms by (simp_all add: utf8_sequence_def)
  have "\<not> is_utf8_continuation_byte lead"
    using assms by (cases "bs = []") (auto simp: utf8_sequence_def continuation_nat)
  from rev_scan_sequence [OF s(2) this, of "length bs" 1] s(1)
  have scan: "rev_scan (pre @ lead # bs) (length (pre @ lead # bs)) 1 = (length pre, Suc (length bs))" by simp
  show ?thesis
  proof (cases "bs = []")
    case True
    then have lead: "unat lead < 128" and ch: "ucast lead = ch" using assms by (simp_all add: utf8_sequence_def)
    have "\<not> (0xc0 :: u32) \<le> ucast lead" using lead by (simp add: word_le_nat_alt unat_ucast_up)
    then show ?thesis using True ch scan by (simp add: Dee_unicode_readutf8_rev_n_def Let_def)
  next
    case False
    then have "192 \<le> unat lead" using assms by (simp add: utf8_sequence_def)
    then have "(0xc0 :: u32) \<le> ucast lead" by (simp add: word_le_nat_alt unat_ucast_up)
    then show ?thesis using False scan by (simp add: Dee_unicode_readutf8_rev_n_def Let_def)
  qed
qed

lemma sequence_switch: "utf8_sequence ch lead bs \<Longrightarrow> utf8_switch (Suc (length bs)) (ucast lead) bs = ch"
  unfolding utf8_sequence_def by (metis append_Nil2)

lemma rev_two_bytes:
  assumes "2 ^ 7 \<le> unat ch" "unat ch < 2 ^ 11"
  shows "fst (Dee_unicode_readutf8_rev_n (pre @ Dee_unicode_writeutf8 ch)) = push_bit 6 (drop_bit 6 ch) OR drop_bit 6 ch"
proof -
  have w: "Dee_unicode_writeutf8 ch = [0xc0 OR ucast (drop_bit 6 ch), follow_byte 0 ch]"
    using assms by (simp add: Dee_unicode_writeutf8_def word_le_nat_alt UTF8_MAX_nat)
  have "unat (drop_bit 6 ch) < 2 ^ 5" using assms(2) by (simp add: unat_drop_bit_word less_mult_imp_div_less)
  then have 5: "drop_bit 6 ch AND mask 5 = drop_bit 6 ch" by (rule and_mask_small)
  have "follow_bits (0xc0 OR ucast (drop_bit 6 ch)) = drop_bit 6 ch AND mask 6"
    unfolding follow_bits_def utf8_masks using lead_bits [of 6 6 "3 :: u8" "drop_bit 6 ch"] by simp
  also have "\<dots> = drop_bit 6 ch" by (rule and_mask_small) (use \<open>unat (drop_bit 6 ch) < 2 ^ 5\<close> in simp)
  finally have f: "follow_bits (0xc0 OR ucast (drop_bit 6 ch)) = drop_bit 6 ch" .
  show ?thesis
    unfolding w readutf8_rev_n_sequence [OF sequence_2 [OF assms]]
    using f 5 lead_byte_bits(1) [of "drop_bit 6 ch"]
    by (simp add: utf8_switch_def utf8_masks(2) del: push_bit_and)
qed

text \<open>
  Two values made of fields of six bits are equal if and only if all their fields are.  Read backwards, each field
  comes from the byte in front of its own.
\<close>

lemma field_eq_iff:
  fixes x y :: u32
  assumes "take_bit (n + 6) x = 0" "take_bit (n + 6) y = 0" "n + 6 \<le> 32"
  shows "x OR push_bit n (follow_bits a) = y OR push_bit n (follow_bits b) \<longleftrightarrow> x = y \<and> follow_bits a = follow_bits b"
proof
  assume eq: "x OR push_bit n (follow_bits a) = y OR push_bit n (follow_bits b)"
  have f: "take_bit (n + 6) (push_bit n (follow_bits c)) = push_bit n (follow_bits c)" for c
    by (simp add: follow_bits_def utf8_masks take_bit_push_bit flip: take_bit_eq_mask)
  have d: "drop_bit (n + 6) (push_bit n (follow_bits c)) = 0" for c
    unfolding follow_bits_def utf8_masks by (rule bit_word_eqI) (auto simp: bit_simps)
  have "push_bit n (follow_bits a) = push_bit n (follow_bits b)"
    using arg_cong [OF eq, of "take_bit (n + 6)"] assms(1,2) by (simp add: f)
  moreover have "drop_bit n (push_bit n (follow_bits c)) = follow_bits c" for c
    unfolding follow_bits_def utf8_masks
    by (rule bit_word_eqI) (use assms(3) in \<open>auto simp: bit_simps\<close>)
  ultimately have "follow_bits a = follow_bits b" by metis
  moreover have "drop_bit (n + 6) x = drop_bit (n + 6) y"
    using arg_cong [OF eq, of "drop_bit (n + 6)"] by (simp add: d)
  then have "x = y"
    using assms(1,2) bits_ident [of "n + 6" x] bits_ident [of "n + 6" y] by simp
  ultimately show "x = y \<and> follow_bits a = follow_bits b" by simp
qed simp

lemma take_bit_field: "m \<le> n \<Longrightarrow> take_bit m (push_bit n x :: u32) = 0"
  by (simp add: take_bit_push_bit)

lemmas fields_eq_iff = field_eq_iff [of 0, simplified] field_eq_iff [of 6, simplified] field_eq_iff [of 12, simplified]
  field_eq_iff [of 18, simplified] field_eq_iff [of 24, simplified]

lemma switch_behind:
  assumes "bs \<noteq> []" "length bs \<le> 5"
  shows "utf8_switch (Suc (length bs)) r (lead # bs) = utf8_switch (Suc (length bs)) r bs
    \<longleftrightarrow> map follow_bits bs = map follow_bits (butlast (lead # bs))"
proof -
  from assms consider a where "bs = [a]" | a b where "bs = [a, b]" | a b c where "bs = [a, b, c]"
    | a b c d where "bs = [a, b, c, d]" | a b c d e where "bs = [a, b, c, d, e]"
    by (auto simp: neq_Nil_conv le_Suc_eq numeral_eq_Suc length_Suc_conv)
  then show ?thesis
    by cases (auto simp: utf8_switch_def fields_eq_iff take_bit_field take_bit_or
        simp del: push_bit_and simp flip: or.assoc)
qed

section \<open>Properties\<close>

lemma write_read:
  "Dee_unicode_utf8seqlen (hd (Dee_unicode_writeutf8 ch)) = length (Dee_unicode_writeutf8 ch)
   \<and> utf8_getchar (Dee_unicode_writeutf8 ch @ rest) (length (Dee_unicode_writeutf8 ch)) = ch
   \<and> Dee_unicode_readutf8_n (Dee_unicode_writeutf8 ch @ rest) = (ch, rest)
   \<and> Dee_unicode_readutf8 (Dee_unicode_writeutf8 ch @ rest) = Some (ch, rest)
   \<and> Dee_unicode_readutf8_chk (Dee_unicode_writeutf8 ch @ rest) = Some (ch, rest)"
proof -
  obtain lead bs where w: "Dee_unicode_writeutf8 ch = lead # bs" "utf8_sequence ch lead bs"
    by (rule writeutf8_sequence)
  then have "Dee_unicode_utf8seqlen lead = Suc (length bs)" "utf8_getchar (lead # bs @ rest) (Suc (length bs)) = ch"
    by (simp_all add: utf8_sequence_def)
  then show ?thesis using w read_sequence [OF w(2), of rest] by simp
qed

lemma write_read_reverse:
  "snd (Dee_unicode_readutf8_rev_n (pre @ Dee_unicode_writeutf8 ch)) = pre
   \<and> fst (Dee_unicode_readutf8_rev_n (pre @ Dee_unicode_writeutf8 ch))
      = (if unat ch < 2 ^ 7 then ch
         else utf8_switch (length (Dee_unicode_writeutf8 ch)) (ucast (hd (Dee_unicode_writeutf8 ch))) (Dee_unicode_writeutf8 ch))
   \<and> (if 2 ^ 7 \<le> unat ch \<and> unat ch < 2 ^ 11
      then fst (Dee_unicode_readutf8_rev_n (pre @ Dee_unicode_writeutf8 ch)) = push_bit 6 (drop_bit 6 ch) OR drop_bit 6 ch
      else True)
   \<and> (if unat ch < 2 ^ 31
      then fst (Dee_unicode_readutf8_rev_n (pre @ Dee_unicode_writeutf8 ch)) = ch
        \<longleftrightarrow> map follow_bits (tl (Dee_unicode_writeutf8 ch)) = map follow_bits (butlast (Dee_unicode_writeutf8 ch))
      else True)
   \<and> fst (Dee_unicode_readutf8_rev_n (Dee_unicode_writeutf8 0xe9)) = 0xc3"
proof -
  obtain lead bs where w: "Dee_unicode_writeutf8 ch = lead # bs" "utf8_sequence ch lead bs"
    by (rule writeutf8_sequence)
  have "bs = [] \<longleftrightarrow> unat ch < 2 ^ 7"
    using w(1) by (auto simp: Dee_unicode_writeutf8_def word_le_nat_alt UTF8_MAX_nat split: if_splits)
  moreover have "fst (Dee_unicode_readutf8_rev_n (Dee_unicode_writeutf8 0xe9)) = 0xc3" by code_simp
  moreover have "length bs \<le> 5" if "unat ch < 2 ^ 31"
    using that w(1) by (auto simp: Dee_unicode_writeutf8_def word_le_nat_alt UTF8_MAX_nat split: if_splits)
  then have "utf8_switch (Suc (length bs)) (ucast lead) (lead # bs) = ch
      \<longleftrightarrow> map follow_bits bs = map follow_bits (butlast (lead # bs))" if "unat ch < 2 ^ 31" "bs \<noteq> []"
    using switch_behind [OF that(2), of "ucast lead" lead] that sequence_switch [OF w(2)] by simp
  moreover have "unat ch < 2 ^ 31" if "unat ch < 2 ^ 11" using that by simp
  ultimately show ?thesis using w(1) readutf8_rev_n_sequence [OF w(2), of pre] rev_two_bytes [of ch pre] by auto
qed

text \<open>
  C12: A character written in UTF-8 is read back: for every 32-bit character, the first byte announces
  the number of bytes, and the plain, the bounded and the checking reader all return the character
  and leave the pointer behind its bytes, whatever follows.  Reading backwards moves the pointer in
  front of it, but \<open>Dee_unicode_readutf8_rev_n\<close> takes the lead byte for the first continuation byte and each of
  the others for the next one.  So it returns the character, if it is below 2^31, just if each continuation byte has
  the six low bits of the byte before it: ASCII, and a few others such as U+00C3.  A two-byte character comes back with
  its high bits doubled (an e-acute as U+00C3).
\<close>

theorem utf8_characters_characterized:
  "Dee_unicode_utf8seqlen (hd (Dee_unicode_writeutf8 ch)) = length (Dee_unicode_writeutf8 ch)
   \<and> utf8_getchar (Dee_unicode_writeutf8 ch @ rest) (length (Dee_unicode_writeutf8 ch)) = ch
   \<and> Dee_unicode_readutf8_n (Dee_unicode_writeutf8 ch @ rest) = (ch, rest)
   \<and> Dee_unicode_readutf8 (Dee_unicode_writeutf8 ch @ rest) = Some (ch, rest)
   \<and> Dee_unicode_readutf8_chk (Dee_unicode_writeutf8 ch @ rest) = Some (ch, rest)
   \<and> snd (Dee_unicode_readutf8_rev_n (pre @ Dee_unicode_writeutf8 ch)) = pre
   \<and> fst (Dee_unicode_readutf8_rev_n (pre @ Dee_unicode_writeutf8 ch))
      = (if unat ch < 2 ^ 7 then ch
         else utf8_switch (length (Dee_unicode_writeutf8 ch)) (ucast (hd (Dee_unicode_writeutf8 ch))) (Dee_unicode_writeutf8 ch))
   \<and> (if 2 ^ 7 \<le> unat ch \<and> unat ch < 2 ^ 11
      then fst (Dee_unicode_readutf8_rev_n (pre @ Dee_unicode_writeutf8 ch)) = push_bit 6 (drop_bit 6 ch) OR drop_bit 6 ch
      else True)
   \<and> (if unat ch < 2 ^ 31
      then fst (Dee_unicode_readutf8_rev_n (pre @ Dee_unicode_writeutf8 ch)) = ch
        \<longleftrightarrow> map follow_bits (tl (Dee_unicode_writeutf8 ch)) = map follow_bits (butlast (Dee_unicode_writeutf8 ch))
      else True)
   \<and> fst (Dee_unicode_readutf8_rev_n (Dee_unicode_writeutf8 0xe9)) = 0xc3"
  using write_read [of ch rest] write_read_reverse [of pre ch] by blast

end
