(* ===== verification/IntParse.thy ===== *)
theory IntParse
  imports IntPrint Utf8
begin

text \<open>
  Reading integers: \<open>DeeInt_FromString\<close>, \<open>int_from_nonbinary_string\<close> and \<open>DeeInt_FromAscii\<close> of
  src/deemon/objects/int.c.  A pointer into the text is the list of the bytes from it to the end;
  \<open>Outside\<close> is an access to a byte behind the end, \<open>Endless\<close> a loop that does not move, \<open>Invalid\<close> the label
  that reports the error.
  The unicode database is generated and a parameter; \<open>ascii_db\<close> states what the comments at the flags in
  string.h say of its first 128 characters.
\<close>

section \<open>Characters\<close>

datatype 'a scan = Scanned 'a | Invalid | Outside | Endless

fun sbind :: "'a scan \<Rightarrow> ('a \<Rightarrow> 'b scan) \<Rightarrow> 'b scan" where
  "sbind (Scanned a) f = f a"
| "sbind Invalid f = Invalid"
| "sbind Outside f = Outside"
| "sbind Endless f = Endless"

lemma sbind_cong [fundef_cong]:
  "r = r' \<Longrightarrow> (\<And>a. r' = Scanned a \<Longrightarrow> f a = g a) \<Longrightarrow> sbind r f = sbind r' g"
  by (cases r') simp_all

record unitraits =
  ut_numeric :: bool
  ut_xdigit :: bool
  ut_lf :: bool
  ut_digit_idx :: u8

record unidb =
  Descriptor :: "u32 \<Rightarrow> unitraits"
  GetNumericIdx8 :: "u8 \<Rightarrow> u8"

definition DeeUni_AsDigitVal :: "unidb \<Rightarrow> u32 \<Rightarrow> u8" where
  "DeeUni_AsDigitVal db ch = (let traits = Descriptor db ch in if \<not> ut_xdigit traits then 0xff else ut_digit_idx traits)"

definition DeeUni_IsLF :: "unidb \<Rightarrow> u32 \<Rightarrow> bool" where
  "DeeUni_IsLF db ch = ut_lf (Descriptor db ch)"

text \<open>The digit of a numeric character: its index, or what it stands for.\<close>

definition traits_digit :: "unidb \<Rightarrow> unitraits \<Rightarrow> u8" where
  "traits_digit db traits =
     (let dig = ut_digit_idx traits in if dig \<ge> 51 then GetNumericIdx8 db dig else dig)"

definition STRING_FESCAPED :: "u32 \<Rightarrow> bool" where "STRING_FESCAPED flags = (flags AND 0x1 \<noteq> 0)"
definition STRING_FTRY :: "u32 \<Rightarrow> bool" where "STRING_FTRY flags = (flags AND 0x2 \<noteq> 0)"
definition STRING_FNOSEPS :: "u32 \<Rightarrow> bool" where "STRING_FNOSEPS flags = (flags AND 0x4 \<noteq> 0)"

definition Dee_INT_STRING :: "u32 \<Rightarrow> u32 \<Rightarrow> u32" where
  "Dee_INT_STRING radix flags = (push_bit 16 radix OR flags)"

lemma readutf8_n_rest: "(a, y) = Dee_unicode_readutf8_n (x # xs) \<Longrightarrow> length y \<le> length xs"
  using readutf8_n_shorter [of "x # xs"] by (cases "Dee_unicode_readutf8_n (x # xs)") simp

lemma rev_scan_less: "0 < n \<Longrightarrow> fst (rev_scan text n k) < n"
proof (induction "text" n k rule: rev_scan.induct)
  case (2 t iter seqlen)
  then show ?case by (cases "iter = 0") (auto simp: less_Suc_eq)
qed simp

lemma readutf8_rev_n_shorter: "text \<noteq> [] \<Longrightarrow> length (snd (Dee_unicode_readutf8_rev_n text)) < length text"
  using rev_scan_less [of "length text" "text" 1]
  by (auto simp: Dee_unicode_readutf8_rev_n_def Let_def split_beta)

section \<open>The prefix\<close>

text \<open>
  After a backslash: the text behind the linefeed that follows, \<open>None\<close> when none does.  A linefeed of two
  bytes is looked for without a check.
\<close>

definition skip_linefeed :: "unidb \<Rightarrow> u8 list \<Rightarrow> u8 list option scan" where
  "skip_linefeed db rest =
     (let (begin_plus_one, new_begin) = Dee_unicode_readutf8_n rest
      in if DeeUni_IsLF db begin_plus_one
         then if begin_plus_one = 0x0d
              then case new_begin of
                  [] \<Rightarrow> Outside
                | c # start \<Rightarrow> Scanned (Some (if c = 0x0a then start else new_begin))
              else Scanned (Some new_begin)
         else Scanned None)"

text \<open>The same in \<open>DeeInt_FromAscii\<close>.\<close>

definition skip_linefeed_ascii :: "unidb \<Rightarrow> u8 list \<Rightarrow> u8 list option scan" where
  "skip_linefeed_ascii db rest =
     (case rest of
        [] \<Rightarrow> Outside
      | begin_plus_one # new_begin \<Rightarrow>
          if DeeUni_IsLF db (ucast begin_plus_one)
          then if begin_plus_one = 0x0d
               then case new_begin of
                   [] \<Rightarrow> Outside
                 | c # start \<Rightarrow> Scanned (Some (if c = 0x0a then start else new_begin))
               else Scanned (Some new_begin)
          else Scanned None)"

text \<open>The two functions that parse a text differ in how they skip a linefeed: \<open>ascii\<close> is the second.\<close>

definition skip_lf :: "bool \<Rightarrow> unidb \<Rightarrow> u8 list \<Rightarrow> u8 list option scan" where
  "skip_lf ascii db rest = (if ascii then skip_linefeed_ascii db rest else skip_linefeed db rest)"

lemma skip_lf_shorter: "skip_lf ascii db rest = Scanned (Some s) \<Longrightarrow> length s \<le> length rest"
  using readutf8_n_shorter [of rest]
  by (cases "rest = []")
    (auto simp: skip_lf_def skip_linefeed_def skip_linefeed_ascii_def Dee_unicode_readutf8_n_def split: if_splits list.splits prod.splits)

text \<open>\<open>for (;; ++start)\<close> over the signs: also a \<open>continue\<close> behind a linefeed moves on by one byte.\<close>

function sign_prefix_loop :: "bool \<Rightarrow> unidb \<Rightarrow> u32 \<Rightarrow> u8 list \<Rightarrow> bool \<Rightarrow> (bool \<times> u8 list) scan" where
  "sign_prefix_loop ascii db flags start negative =
     (case start of
        [] \<Rightarrow> Invalid
      | c # rest \<Rightarrow>
          if c = 0x2b then sign_prefix_loop ascii db flags rest negative
          else if c = 0x2d then sign_prefix_loop ascii db flags rest (\<not> negative)
          else if c = 0x5c \<and> STRING_FESCAPED flags
          then (case skip_lf ascii db rest of
                  Scanned (Some new_start) \<Rightarrow> sign_prefix_loop ascii db flags (tl new_start) negative
                | Scanned None \<Rightarrow> Scanned (negative, start)
                | Invalid \<Rightarrow> Invalid
                | Outside \<Rightarrow> Outside
                | Endless \<Rightarrow> Endless)
          else Scanned (negative, start))"
  by pat_completeness auto
termination
  by (relation "measure (\<lambda>(ascii, db, flags, start, negative). length start)") (auto dest: skip_lf_shorter)

declare sign_prefix_loop.simps [simp del]

text \<open>\<open>while (*start == '\\' && ...)\<close> behind a leading zero\<close>

function skip_linefeeds :: "bool \<Rightarrow> unidb \<Rightarrow> u32 \<Rightarrow> u8 list \<Rightarrow> u8 list scan" where
  "skip_linefeeds ascii db flags start =
     (case start of
        [] \<Rightarrow> Outside
      | c # rest \<Rightarrow>
          if c = 0x5c \<and> STRING_FESCAPED flags
          then (case skip_lf ascii db rest of
                  Scanned (Some new_start) \<Rightarrow> skip_linefeeds ascii db flags new_start
                | Scanned None \<Rightarrow> Scanned start
                | Invalid \<Rightarrow> Invalid
                | Outside \<Rightarrow> Outside
                | Endless \<Rightarrow> Endless)
          else Scanned start)"
  by pat_completeness auto
termination
  by (relation "measure (\<lambda>(ascii, db, flags, start). length start)") (auto dest: skip_lf_shorter)

declare skip_linefeeds.simps [simp del]

text \<open>The radix when none is given; \<open>None\<close>: the text is a zero.\<close>

definition radix_letter :: "u8 list \<Rightarrow> (nat \<times> u8 list) option scan" where
  "radix_letter start =
     (case start of
        [] \<Rightarrow> Outside
      | c # rest \<Rightarrow>
          if c = 0x78 \<or> c = 0x58 then Scanned (Some (16, rest))
          else if c = 0x62 \<or> c = 0x42 then Scanned (Some (2, rest))
          else Scanned (Some (8, start)))"

definition auto_radix :: "bool \<Rightarrow> unidb \<Rightarrow> u32 \<Rightarrow> u8 list \<Rightarrow> (nat \<times> u8 list) option scan" where
  "auto_radix ascii db flags start =
     (let (leading_zero, rest) = (if ascii then (scast (hd start), tl start) else Dee_unicode_readutf8_n start)
      in if DeeUni_AsDigitVal db leading_zero = 0
         then if rest = [] then Scanned None
              else sbind (skip_linefeeds ascii db flags rest) radix_letter
         else Scanned (Some (10, start)))"

section \<open>Radices that are no power of two\<close>

definition convwidth_base :: "nat list" where
  "convwidth_base =
     [30, 18, 15, 12, 11, 10, 10, 9, 9, 8, 8, 8, 7, 7, 7, 7, 7, 7, 6, 6, 6, 6, 6, 6, 6, 6,
      6, 6, 6, 6, 6, 5, 5, 5, 5]"

definition convmultmax_base :: "digit list" where
  "convmultmax_base =
     [0x40000000, 0x17179149, 0x40000000, 0x0e8d4a51, 0x159fd800,
      0x10d63af1, 0x40000000, 0x17179149, 0x3b9aca00, 0x0cc6db61,
      0x19a10000, 0x309f1021, 0x06487b80, 0x0a2f1b6f, 0x10000000,
      0x18754571, 0x247dbc80, 0x3547667b, 0x03d09000, 0x051cafe9,
      0x06c20a40, 0x08d2d931, 0x0b640000, 0x0e8d4a51, 0x1269ae40,
      0x17179149, 0x1cb91000, 0x23744899, 0x2b73a840, 0x34e63b41,
      0x40000000, 0x025528a1, 0x02b54a20, 0x03216b93, 0x039aa400]"

text \<open>\<open>handle_backslash_in_text\<close>: where to go on behind an escaped linefeed.\<close>

definition backslash_in_text :: "u32 \<Rightarrow> u8 list \<Rightarrow> u8 list option" where
  "backslash_in_text flags start =
     (if \<not> STRING_FESCAPED flags then None
      else if length start \<le> 2 then None
      else if start ! 1 = 0x0a then Some (drop 2 start)
      else if start ! 1 = 0x0d then
        let start = drop 2 start in Some (if start \<noteq> [] \<and> hd start = 0x0a then tl start else start)
      else None)"

text \<open>
  \<open>parse_ch\<close>: the next digit and the text behind it.  (The test for a separator behind the test for a
  byte above 0x80 is never true.)
\<close>

function parse_ch :: "unidb \<Rightarrow> u32 \<Rightarrow> u8 list \<Rightarrow> (u8 \<times> u8 list) scan" where
  "parse_ch db flags start =
     (case start of
        [] \<Rightarrow> Outside
      | ch # rest \<Rightarrow>
          if DeeUni_AsDigitVal db (scast ch) < 16 then Scanned (DeeUni_AsDigitVal db (scast ch), rest)
          else if ch \<ge> 0x80 then
            (let (uni, start) = Dee_unicode_readutf8_n start; traits = Descriptor db uni
             in if ut_numeric traits then Scanned (traits_digit db traits, start)
                else if uni \<noteq> 0x5c then Invalid
                else (case backslash_in_text flags start of None \<Rightarrow> Invalid | Some start \<Rightarrow> parse_ch db flags start))
          else if ch \<noteq> 0x5c then
            (if ch = 0x5f \<and> \<not> STRING_FNOSEPS flags then parse_ch db flags rest else Invalid)
          else (case backslash_in_text flags start of None \<Rightarrow> Invalid | Some start \<Rightarrow> parse_ch db flags start))"
  by pat_completeness auto
termination
  by (relation "measure (\<lambda>(db, flags, start). length start)")
    (auto simp: backslash_in_text_def Let_def dest!: readutf8_n_rest split: if_splits)

declare parse_ch.simps [simp del]

lemma backslash_in_text_shorter: "backslash_in_text flags t = Some t' \<Longrightarrow> length t' < length t"
  by (auto simp: backslash_in_text_def Let_def split: if_splits)

lemma parse_ch_shorter: "parse_ch db flags start = Scanned (dig, rest) \<Longrightarrow> length rest < length start"
proof (induction start rule: measure_induct_rule [of length])
  case (less start)
  have ih: "parse_ch db flags t = Scanned (dig, rest) \<Longrightarrow> length t < length start \<Longrightarrow> length rest < length start" for t
    using less.IH [of t] by simp
  show ?case
  proof (cases start)
    case (Cons ch s)
    obtain uni y where y: "Dee_unicode_readutf8_n (ch # s) = (uni, y)" by fastforce
    then have "length y \<le> length s" using readutf8_n_rest [of uni y ch s] by simp
    then show ?thesis
      using less.prems unfolding Cons
      by (auto simp: parse_ch.simps [of db flags "ch # s"] y Let_def Cons split: if_splits option.splits
          dest!: ih dest: backslash_in_text_shorter)
  qed (use less.prems in \<open>simp add: parse_ch.simps\<close>)
qed

fun conv_chunk :: "unidb \<Rightarrow> u32 \<Rightarrow> nat \<Rightarrow> nat \<Rightarrow> twodigits \<Rightarrow> nat \<Rightarrow> u8 list \<Rightarrow> (twodigits \<times> nat \<times> u8 list) scan" where
  "conv_chunk db flags radix 0 c i start = Scanned (c, i, start)"
| "conv_chunk db flags radix (Suc n) c i start =
     (if start = [] then Scanned (c, i, start)
      else sbind (parse_ch db flags start) (\<lambda>(dig, start).
        if unat dig \<ge> radix then Invalid
        else conv_chunk db flags radix n (c * of_nat radix + ucast dig) (i + 1) start))"

fun conv_power :: "nat \<Rightarrow> nat \<Rightarrow> twodigits" where
  "conv_power radix (Suc (Suc i)) = conv_power radix (Suc i) * of_nat radix"
| "conv_power radix i = of_nat radix"

fun conv_row :: "twodigits \<Rightarrow> twodigits \<Rightarrow> digit list \<Rightarrow> digit list \<times> twodigits" where
  "conv_row convmult c [] = ([], c)"
| "conv_row convmult c (pz # rest) =
     (let c = c + ucast pz * convmult; (rest', c') = conv_row convmult (drop_bit DIGIT_BITS c) rest
      in (ucast (c AND ucast DIGIT_MASK) # rest', c'))"

lemma conv_chunk_shorter:
  "conv_chunk db flags radix n c i start = Scanned (c', i', rest) \<Longrightarrow>
     length rest \<le> length start \<and> (n \<noteq> 0 \<and> start \<noteq> [] \<longrightarrow> length rest < length start)"
proof (induction n arbitrary: c i start)
  case (Suc n)
  show ?case
  proof (cases "start = []")
    case False
    obtain dig s where p: "parse_ch db flags start = Scanned (dig, s)"
      using Suc.prems False by (cases "parse_ch db flags start") auto
    then have "conv_chunk db flags radix n (c * of_nat radix + ucast dig) (i + 1) s = Scanned (c', i', rest)"
      using Suc.prems False by (simp split: if_splits)
    from Suc.IH [OF this] parse_ch_shorter [OF p] show ?thesis by simp
  qed (use Suc.prems in simp)
qed simp

text \<open>
  The loop over the text.  The array grows by the carry, in place or into a new one, which is
  one operation on the list of its digits.
\<close>

function nonbinary_loop :: "unidb \<Rightarrow> u32 \<Rightarrow> nat \<Rightarrow> u8 list \<Rightarrow> digit list \<Rightarrow> digit list scan" where
  "nonbinary_loop db flags radix start ds =
     (let convwidth = convwidth_base ! (radix - 2); convmultmax = ucast (convmultmax_base ! (radix - 2))
      in if start \<noteq> [] \<and> convwidth \<noteq> 0
         then sbind (conv_chunk db flags radix convwidth 0 0 start) (\<lambda>(c, i, start).
           let convmult = (if i \<noteq> convwidth then conv_power radix i else convmultmax);
               (ds, c) = conv_row convmult c ds
           in nonbinary_loop db flags radix start (if c \<noteq> 0 then ds @ [ucast c] else ds))
         else Scanned ds)"
  by pat_completeness auto
termination
  by (relation "measure (\<lambda>(db, flags, radix, start, ds). length start)") (auto dest: conv_chunk_shorter)

declare nonbinary_loop.simps [simp del]

definition int_from_nonbinary_string :: "unidb \<Rightarrow> u8 list \<Rightarrow> nat \<Rightarrow> u32 \<Rightarrow> DeeInt scan" where
  "int_from_nonbinary_string db start radix flags =
     sbind (nonbinary_loop db flags radix start []) (\<lambda>ds. Scanned (DeeInt_Alloc ds))"

section \<open>Radices that are a power of two\<close>

text \<open>\<open>while ((1 << bits_per_digit) < radix) ++bits_per_digit;\<close>\<close>

function radix_bits :: "nat \<Rightarrow> nat \<Rightarrow> nat" where
  "radix_bits radix bits_per_digit =
     (if 2 ^ bits_per_digit < radix then radix_bits radix (bits_per_digit + 1) else bits_per_digit)"
  by pat_completeness auto
termination
  by (relation "measure (\<lambda>(radix, b). radix - b)") (auto intro!: diff_less_mono2 intro: less_trans [OF less_exp])

declare radix_bits.simps [simp del]

text \<open>The linefeed \<open>ch\<close> in front of which \<open>iter\<close> stands is escaped: the text before the backslash.\<close>

definition linefeed_in_text :: "u8 list \<Rightarrow> u32 \<Rightarrow> u8 list option" where
  "linefeed_in_text iter ch =
     (if iter = [] then None
      else if last iter = 0x5c then Some (butlast iter)
      else if last iter = 0x0d \<and> ch = 0x0a \<and> length iter \<noteq> 1 \<and> last (butlast iter) = 0x5c
      then Some (butlast (butlast iter))
      else None)"

text \<open>One step back from \<open>iter\<close>: a digit, or \<open>None\<close> for a character to be skipped.\<close>

definition digit_before :: "unidb \<Rightarrow> u32 \<Rightarrow> u8 list \<Rightarrow> (u8 option \<times> u8 list) scan" where
  "digit_before db flags iter =
     (let (ch, iter) = Dee_unicode_readutf8_rev_n iter; traits = Descriptor db ch
      in if ut_numeric traits then Scanned (Some (traits_digit db traits), iter)
         else if DeeUni_IsLF db ch \<and> STRING_FESCAPED flags
         then (case linefeed_in_text iter ch of None \<Rightarrow> Invalid | Some iter \<Rightarrow> Scanned (None, iter))
         else if ch = 0x5f \<and> \<not> STRING_FNOSEPS flags then Scanned (None, iter)
         else Invalid)"

text \<open>
  The same in \<open>DeeInt_FromAscii\<close>.  The call that should read the character of a byte above 0x80 passes the
  end of the text as its start: it returns 0 and does not move.
\<close>

definition digit_before_ascii :: "unidb \<Rightarrow> u32 \<Rightarrow> nat \<Rightarrow> u8 list \<Rightarrow> (u8 option \<times> u8 list) scan" where
  "digit_before_ascii db flags radix iter0 =
     (let ch = last iter0; iter = butlast iter0
      in if DeeUni_AsDigitVal db (scast ch) < 16 then Scanned (Some (DeeUni_AsDigitVal db (scast ch)), iter)
         else if ch \<ge> 0x80 then
           (let traits = Descriptor db 0
            in if ut_numeric traits then (if unat (traits_digit db traits) \<ge> radix then Invalid else Endless)
               else if ut_lf traits then
                 (if \<not> STRING_FESCAPED flags then Invalid
                  else case linefeed_in_text iter0 (scast ch) of None \<Rightarrow> Invalid | Some iter \<Rightarrow> Scanned (None, iter))
               else Invalid)
         else if \<not> DeeUni_IsLF db (ucast ch) then Invalid
         else if \<not> STRING_FESCAPED flags then Invalid
         else (case linefeed_in_text iter (scast ch) of None \<Rightarrow> Invalid | Some iter \<Rightarrow> Scanned (None, iter)))"

definition step_before :: "bool \<Rightarrow> unidb \<Rightarrow> u32 \<Rightarrow> nat \<Rightarrow> u8 list \<Rightarrow> (u8 option \<times> u8 list) scan" where
  "step_before ascii db flags radix iter =
     (if ascii then digit_before_ascii db flags radix iter else digit_before db flags iter)"

lemma linefeed_in_text_shorter: "linefeed_in_text iter ch = Some rest \<Longrightarrow> length rest < length iter"
  by (auto simp: linefeed_in_text_def split: if_splits)

lemma step_before_shorter:
  "step_before ascii db flags radix iter = Scanned (d, rest) \<Longrightarrow> iter \<noteq> [] \<Longrightarrow> length rest < length iter"
  using readutf8_rev_n_shorter [of iter]
  by (auto simp: step_before_def digit_before_def digit_before_ascii_def Let_def split_beta
      split: if_splits option.splits dest!: linefeed_in_text_shorter)

text \<open>\<open>while (num_bits >= DIGIT_BITS)\<close>, with the room in the array\<close>

function flush_digits :: "nat \<Rightarrow> digit list \<Rightarrow> twodigits \<Rightarrow> nat \<Rightarrow> (digit list \<times> twodigits \<times> nat) scan" where
  "flush_digits room dst number num_bits =
     (if num_bits \<ge> DIGIT_BITS \<and> DIGIT_BITS \<noteq> 0
      then if length dst \<ge> room then Outside
           else flush_digits room (dst @ [ucast (number AND ucast DIGIT_MASK)]) (drop_bit DIGIT_BITS number)
                  (num_bits - DIGIT_BITS)
      else Scanned (dst, number, num_bits))"
  by pat_completeness auto
termination by (relation "measure (\<lambda>(room, dst, number, num_bits). num_bits)") auto

declare flush_digits.simps [simp del]

function binary_loop ::
  "bool \<Rightarrow> unidb \<Rightarrow> u32 \<Rightarrow> nat \<Rightarrow> nat \<Rightarrow> nat \<Rightarrow> u8 list \<Rightarrow> digit list \<Rightarrow> twodigits \<Rightarrow> nat \<Rightarrow>
     (digit list \<times> twodigits \<times> nat) scan" where
  "binary_loop ascii db flags radix bits_per_digit room iter dst number num_bits =
     (if iter = [] then Scanned (dst, number, num_bits)
      else sbind (step_before ascii db flags radix iter) (\<lambda>(dig, iter).
        case dig of
          None \<Rightarrow> binary_loop ascii db flags radix bits_per_digit room iter dst number num_bits
        | Some dig \<Rightarrow>
            if unat dig \<ge> radix then Invalid
            else sbind (flush_digits room dst (number OR push_bit num_bits (ucast dig)) (num_bits + bits_per_digit))
              (\<lambda>(dst, number, num_bits).
                 binary_loop ascii db flags radix bits_per_digit room iter dst number num_bits)))"
  by pat_completeness auto
termination
  by (relation "measure (\<lambda>(ascii, db, flags, radix, b, room, iter, dst, number, num_bits). length iter)")
    (auto dest: step_before_shorter)

declare binary_loop.simps [simp del]

definition int_from_binary :: "bool \<Rightarrow> unidb \<Rightarrow> u8 list \<Rightarrow> nat \<Rightarrow> u32 \<Rightarrow> nat \<Rightarrow> DeeInt scan" where
  "int_from_binary ascii db start radix flags len =
     (let bits_per_digit = radix_bits radix 0; num_digits = 1 + len * bits_per_digit div DIGIT_BITS
      in sbind (binary_loop ascii db flags radix bits_per_digit num_digits start [] 0 0) (\<lambda>(dst, number, num_bits).
           let dst = (if num_bits \<noteq> 0 then dst @ [ucast number] else dst)
           in if length dst > num_digits then Outside
              else Scanned (int_normalize (DeeInt_Alloc (dst @ replicate (num_digits - length dst) 0)))))"

section \<open>DeeInt\_FromString and DeeInt\_FromAscii\<close>

datatype parse_result = Parsed DeeInt | Iter_done | Thrown dee_error | Undefined

definition parse_end :: "u32 \<Rightarrow> DeeInt scan \<Rightarrow> parse_result" where
  "parse_end flags r =
     (case r of
        Scanned x \<Rightarrow> Parsed x
      | Invalid \<Rightarrow> if STRING_FTRY flags then Iter_done else Thrown ValueError
      | Outside \<Rightarrow> Undefined
      | Endless \<Rightarrow> Undefined)"

definition parse_digits :: "bool \<Rightarrow> unidb \<Rightarrow> u32 \<Rightarrow> nat \<Rightarrow> bool \<Rightarrow> (nat \<times> u8 list) option \<Rightarrow> DeeInt scan" where
  "parse_digits ascii db flags len negative r =
     (case r of
        None \<Rightarrow> Scanned DeeInt_Zero
      | Some (radix, start) \<Rightarrow>
          if start = [] then Invalid
          else sbind (if radix AND (radix - 1) \<noteq> 0 then int_from_nonbinary_string db start radix flags
                      else int_from_binary ascii db start radix flags len)
                 (\<lambda>x. Scanned (if negative then negate_size x else x)))"

definition parse_int :: "bool \<Rightarrow> unidb \<Rightarrow> u8 list \<Rightarrow> u32 \<Rightarrow> DeeInt scan" where
  "parse_int ascii db str flags =
     (let radix = unat (drop_bit 16 flags)
      in sbind (sign_prefix_loop ascii db flags str False) (\<lambda>(negative, start).
           sbind (if radix = 0 then auto_radix ascii db flags start else Scanned (Some (radix, start)))
             (parse_digits ascii db flags (length str) negative)))"

definition DeeInt_FromString :: "unidb \<Rightarrow> u8 list \<Rightarrow> u32 \<Rightarrow> parse_result" where
  "DeeInt_FromString db str radix_and_flags = parse_end radix_and_flags (parse_int False db str radix_and_flags)"

definition DeeInt_FromAscii :: "unidb \<Rightarrow> u8 list \<Rightarrow> u32 \<Rightarrow> parse_result" where
  "DeeInt_FromAscii db str radix_and_flags = parse_end radix_and_flags (parse_int True db str radix_and_flags)"

section \<open>The texts that are accepted\<close>

text \<open>
  The specification: a digit, the characters of a text of digits, and the integer of a text.  The
  texts are ASCII without a backslash.
\<close>

definition hexval :: "u8 \<Rightarrow> nat option" where
  "hexval c =
     (let n = unat c
      in if 48 \<le> n \<and> n \<le> 57 then Some (n - 48)
         else if 97 \<le> n \<and> n \<le> 102 then Some (n - 87)
         else if 65 \<le> n \<and> n \<le> 70 then Some (n - 55)
         else None)"

definition ascii_traits :: "u8 \<Rightarrow> unitraits \<Rightarrow> bool" where
  "ascii_traits c t \<longleftrightarrow>
     (ut_xdigit t \<longleftrightarrow> hexval c \<noteq> None) \<and> (ut_numeric t \<longleftrightarrow> hexval c \<noteq> None) \<and> (ut_lf t \<longleftrightarrow> c = 0x0a \<or> c = 0x0d) \<and>
     (hexval c \<noteq> None \<longrightarrow> hexval c = Some (unat (ut_digit_idx t)))"

definition ascii_db :: "unidb \<Rightarrow> bool" where
  "ascii_db db \<longleftrightarrow> (\<forall>c < 0x80. ascii_traits c (Descriptor db (ucast c)))"

definition plain :: "u8 list \<Rightarrow> bool" where
  "plain s \<longleftrightarrow> list_all (\<lambda>c. c < 0x80 \<and> c \<noteq> 0x5c) s"

definition digit_ok :: "bool \<Rightarrow> nat \<Rightarrow> u8 \<Rightarrow> bool" where
  "digit_ok seps radix c \<longleftrightarrow> (case hexval c of Some d \<Rightarrow> d < radix | None \<Rightarrow> seps \<and> c = 0x5f)"

definition text_digits :: "u8 list \<Rightarrow> nat list" where
  "text_digits s = List.map (\<lambda>c. the (hexval c)) (filter (\<lambda>c. hexval c \<noteq> None) s)"

definition read_digits_spec :: "bool \<Rightarrow> bool \<Rightarrow> nat \<Rightarrow> u8 list \<Rightarrow> nat scan" where
  "read_digits_spec ascii seps radix s =
     (if s = [] then Invalid
      else if radix AND (radix - 1) \<noteq> 0
      then if \<not> list_all (digit_ok seps radix) s then Invalid
           else if last s = 0x5f then Outside
           else Scanned (digits_value radix (text_digits s))
      else if \<not> list_all (digit_ok (seps \<and> \<not> ascii) radix) s then Invalid
           else Scanned (digits_value radix (text_digits s)))"

definition is_sign :: "u8 \<Rightarrow> bool" where "is_sign c \<longleftrightarrow> c = 0x2b \<or> c = 0x2d"

definition text_spec :: "bool \<Rightarrow> bool \<Rightarrow> nat \<Rightarrow> u8 list \<Rightarrow> int scan" where
  "text_spec ascii seps radix str =
     (let sgn = (- 1) ^ length (filter (\<lambda>c. c = 0x2d) (takeWhile is_sign str)); s = dropWhile is_sign str
      in if s = [] then Invalid
         else if radix \<noteq> 0 then sbind (read_digits_spec ascii seps radix s) (\<lambda>v. Scanned (sgn * int v))
         else if hd s \<noteq> 0x30 then sbind (read_digits_spec ascii seps 10 s) (\<lambda>v. Scanned (sgn * int v))
         else if tl s = [] then Scanned 0
         else if hd (tl s) \<in> {0x78, 0x58} then sbind (read_digits_spec ascii seps 16 (tl (tl s))) (\<lambda>v. Scanned (sgn * int v))
         else if hd (tl s) \<in> {0x62, 0x42} then sbind (read_digits_spec ascii seps 2 (tl (tl s))) (\<lambda>v. Scanned (sgn * int v))
         else sbind (read_digits_spec ascii seps 8 (tl s)) (\<lambda>v. Scanned (sgn * int v)))"

lemma ascii_traitsD: "ascii_db db \<Longrightarrow> c < 0x80 \<Longrightarrow> ascii_traits c (Descriptor db (ucast c))"
  by (simp add: ascii_db_def)

lemma scast_ascii: "c < 0x80 \<Longrightarrow> (scast c :: u32) = ucast (c :: u8)"
proof -
  assume a: "c < 0x80"
  then have "unat c < 128" by (simp add: word_less_nat_alt)
  then have s: "sint c = int (unat c)" by (intro sint_small) simp
  have "(scast c :: u32) = of_int (sint c)" by (rule of_int_sint [symmetric])
  also have "\<dots> = of_nat (unat c)" unfolding s by (rule of_int_of_nat_eq)
  also have "\<dots> = ucast c" by (rule of_nat_unat)
  finally show ?thesis .
qed

lemma asdigit_ascii:
  "ascii_db db \<Longrightarrow> c < 0x80 \<Longrightarrow> DeeUni_AsDigitVal db (ucast c) = (case hexval c of Some d \<Rightarrow> of_nat d | None \<Rightarrow> 0xff)"
  using ascii_traitsD [of db c]
  by (auto simp: ascii_traits_def DeeUni_AsDigitVal_def Let_def split: option.splits)

lemma hexval_less: "hexval c = Some d \<Longrightarrow> d < 16"
  by (auto simp: hexval_def Let_def split: if_splits)

lemma asdigit_16: "hexval c = Some d \<Longrightarrow> (of_nat d :: u8) < 16 \<and> unat (of_nat d :: u8) = d"
  using hexval_less [of c d] by (simp add: word_less_nat_alt unat_of_nat)

lemma hexval_not_sep [simp]: "hexval 0x5f = None"
  by (simp add: hexval_def)

section \<open>Reading with a radix that is no power of two\<close>

text \<open>The digits that the chunks of the loop take; \<open>pending\<close>: the last character was a separator.\<close>

fun nb_digits :: "bool \<Rightarrow> nat \<Rightarrow> u8 list \<Rightarrow> bool \<Rightarrow> nat list scan" where
  "nb_digits seps radix [] pending = (if pending then Outside else Scanned [])"
| "nb_digits seps radix (c # s) pending =
     (case hexval c of
        None \<Rightarrow> if seps \<and> c = 0x5f then nb_digits seps radix s True else Invalid
      | Some d \<Rightarrow> if d < radix then sbind (nb_digits seps radix s False) (\<lambda>ds. Scanned (d # ds)) else Invalid)"

lemma nb_digits_spec:
  "nb_digits seps radix s pending =
     (if \<not> list_all (digit_ok seps radix) s then Invalid
      else if (if s = [] then pending else last s = 0x5f) then Outside
      else Scanned (text_digits s))"
proof (induction seps radix s pending rule: nb_digits.induct)
  case (2 seps radix c s pending)
  show ?case
  proof (cases "hexval c")
    case None
    then show ?thesis using "2.IH" by (cases seps) (auto simp: digit_ok_def text_digits_def)
  next
    case (Some d)
    then have "c \<noteq> 0x5f" by auto
    then show ?thesis using "2.IH" Some by (auto simp: digit_ok_def text_digits_def)
  qed
qed (simp add: text_digits_def)

lemma plain_simps [simp]: "plain []" "plain (c # s) \<longleftrightarrow> c < 0x80 \<and> c \<noteq> 0x5c \<and> plain s" "plain (s @ t) \<longleftrightarrow> plain s \<and> plain t"
  by (auto simp: plain_def)

text \<open>One digit of the loop and of the specification.\<close>

lemma parse_ch_plain:
  assumes "ascii_db db" "plain start" "start \<noteq> []" and seps_def: "seps = (\<not> STRING_FNOSEPS flags)"
  shows "case parse_ch db flags start of
      Scanned (dig, rest) \<Rightarrow> plain rest \<and>
        nb_digits seps radix start pending =
          (if unat dig < radix then sbind (nb_digits seps radix rest False) (\<lambda>ds. Scanned (unat dig # ds)) else Invalid)
    | Invalid \<Rightarrow> nb_digits seps radix start pending = Invalid
    | Outside \<Rightarrow> nb_digits seps radix start pending = Outside
    | Endless \<Rightarrow> False"
  using assms(2,3)
proof (induction start arbitrary: pending)
  case (Cons c s)
  have c: "c < 0x80" "\<not> 0x80 \<le> c" "c \<noteq> 0x5c" "plain s" using Cons.prems by (auto simp: not_le)
  have d: "DeeUni_AsDigitVal db (scast c) = (case hexval c of Some d \<Rightarrow> of_nat d | None \<Rightarrow> 0xff)"
    using asdigit_ascii [OF assms(1) c(1)] scast_ascii [OF c(1)] by simp
  show ?case
  proof (cases "hexval c")
    case (Some n)
    then show ?thesis
      using asdigit_16 [OF Some] c by (simp add: parse_ch.simps [of db flags "c # s"] d)
  next
    case None
    show ?thesis
    proof (cases "seps \<and> c = 0x5f")
      case True
      then have p: "parse_ch db flags (c # s) = parse_ch db flags s"
        by (subst parse_ch.simps) (use d None c seps_def in simp)
      have nb: "nb_digits seps radix (c # s) pending = nb_digits seps radix s True"
        using None \<open>seps \<and> c = 0x5f\<close> by simp
      show ?thesis
      proof (cases "s = []")
        case True
        then show ?thesis unfolding p nb by (simp add: parse_ch.simps)
      next
        case False
        show ?thesis unfolding p nb by (rule Cons.IH [OF c(4) False])
      qed
    next
      case False
      then show ?thesis
        using None c by (auto simp: parse_ch.simps [of db flags "c # s"] d seps_def)
    qed
  qed
qed simp

text \<open>A chunk takes up to \<open>n\<close> of the digits.\<close>

lemma digits_value_append: "digits_value b (xs @ ys) = digits_value b xs * b ^ length ys + digits_value b ys"
proof (induction ys rule: rev_induct)
  case (snoc y ys)
  then show ?case by (simp add: digits_value_snoc [of b "xs @ ys", simplified] algebra_simps flip: append_assoc)
qed (simp add: digits_value_def)

lemma digits_value_Cons: "digits_value b (d # ds) = d * b ^ length ds + digits_value b ds"
  using digits_value_append [of b "[d]" ds] by (simp add: digits_value_def)

lemma digits_value_Nil [simp]: "digits_value b [] = 0"
  by (simp add: digits_value_def)

lemma digits_value_less: "list_all (\<lambda>d. d < b) ds \<Longrightarrow> digits_value b ds < b ^ length ds"
proof (induction ds)
  case (Cons d ds)
  then have "(d + 1) * b ^ length ds \<le> b * b ^ length ds" by (intro mult_le_mono) simp_all
  then show ?case using Cons by (simp add: digits_value_Cons)
qed simp

lemma conv_step:
  assumes "unat (c :: twodigits) < radix ^ i" "unat (dig :: u8) < radix" "2 \<le> radix" "radix ^ m \<le> BASE" "i < m"
  shows "unat (c * of_nat radix + ucast dig) = unat c * radix + unat dig" "unat c * radix + unat dig < radix ^ (i + 1)"
proof -
  have "(unat c + 1) * radix \<le> radix ^ i * radix" using assms(1) by (intro mult_le_mono) simp_all
  then show less: "unat c * radix + unat dig < radix ^ (i + 1)" using assms(2) by (simp add: mult.commute)
  have "radix ^ (i + 1) \<le> radix ^ m" using assms(3,5) by (intro power_increasing) simp_all
  then have b: "unat c * radix + unat dig < BASE" using less assms(4) by linarith
  have "radix ^ 1 \<le> radix ^ m" using assms(3,5) by (intro power_increasing) simp_all
  then have r: "unat (of_nat radix :: twodigits) = radix"
    using assms(4) by (simp add: unat_of_nat BASE_num)
  have "unat (c * of_nat radix) = unat c * radix"
    using b by (subst unat_mult_no_wrap) (simp_all add: r BASE_num)
  then show "unat (c * of_nat radix + ucast dig) = unat c * radix + unat dig"
    using b by (subst unat_add_no_wrap) (simp_all add: unat_ucast_up BASE_num)
qed

lemma conv_chunk_plain:
  assumes "ascii_db db" "plain start" "seps = (\<not> STRING_FNOSEPS flags)" "2 \<le> radix" "radix ^ m \<le> BASE" "n + i \<le> m" "unat c < radix ^ i"
  shows "case conv_chunk db flags radix n c i start of
      Scanned (c', i', rest) \<Rightarrow> plain rest \<and> unat c' < radix ^ i' \<and> i \<le> i' \<and> i' \<le> i + n \<and> (n \<noteq> 0 \<and> start \<noteq> [] \<longrightarrow> i < i') \<and>
        (case nb_digits seps radix start False of
           Scanned ds \<Rightarrow> i' = i + min n (length ds) \<and> nb_digits seps radix rest False = Scanned (drop n ds) \<and>
             unat c' = unat c * radix ^ min n (length ds) + digits_value radix (take n ds)
         | r \<Rightarrow> nb_digits seps radix rest False = r)
    | Invalid \<Rightarrow> nb_digits seps radix start False = Invalid
    | Outside \<Rightarrow> nb_digits seps radix start False = Outside
    | Endless \<Rightarrow> False"
  using assms(2,6-)
proof (induction n arbitrary: c i start)
  case 0
  then show ?case by (cases "nb_digits seps radix start False") simp_all
next
  case (Suc n)
  show ?case
  proof (cases "start = []")
    case False
    note p = parse_ch_plain [OF assms(1) Suc.prems(1) False assms(3), where radix = radix and pending = False]
    show ?thesis
    proof (cases "parse_ch db flags start")
      case (Scanned x)
      obtain dig rest where x: "x = (dig, rest)" by fastforce
      have rest: "plain rest"
        and nb: "nb_digits seps radix start False =
          (if unat dig < radix then sbind (nb_digits seps radix rest False) (\<lambda>ds. Scanned (unat dig # ds)) else Invalid)"
        using p Scanned x by simp_all
      show ?thesis
      proof (cases "unat dig < radix")
        case True
        define w where "w = c * of_nat radix + ucast dig"
        have c: "unat w = unat c * radix + unat dig" "unat w < radix ^ (i + 1)"
          using conv_step [OF Suc.prems(3) True assms(4,5)] Suc.prems(2) by (simp_all add: w_def)
        have "n + (i + 1) \<le> m" using Suc.prems(2) by simp
        note IH = Suc.IH [OF rest this c(2)]
        have chunk: "conv_chunk db flags radix (Suc n) c i start = conv_chunk db flags radix n w (i + 1) rest"
          using False True by (simp add: Scanned x w_def)
        show ?thesis
        proof (cases "nb_digits seps radix rest False")
          case ds: (Scanned ds)
          have "nb_digits seps radix start False = Scanned (unat dig # ds)" using True by (simp add: nb ds)
          then show ?thesis
            using IH unfolding chunk ds
            by (auto simp: c(1) digits_value_Cons min_def algebra_simps split: scan.splits)
        qed (use IH True in \<open>auto simp: chunk nb simp del: conv_chunk.simps split: scan.splits\<close>)
      qed (use p Scanned x False nb in simp)
    qed (use p False in simp_all)
  qed (use Suc.prems in simp)
qed

lemma conv_power_spec: "2 \<le> radix \<Longrightarrow> radix ^ i \<le> BASE \<Longrightarrow> 0 < i \<Longrightarrow> unat (conv_power radix i) = radix ^ i"
proof (induction radix i rule: conv_power.induct)
  case (1 radix i)
  have r: "radix ^ Suc i \<le> radix ^ Suc (Suc i)" "radix ^ 1 \<le> radix ^ Suc (Suc i)"
    using "1.prems"(1) by (intro power_increasing; simp)+
  then have "unat (conv_power radix (Suc i)) = radix ^ Suc i"
    using "1.prems" by (intro "1.IH" le_trans [OF r(1)]) simp_all
  moreover have "unat (of_nat radix :: twodigits) = radix"
    using r(2) "1.prems"(2) by (simp add: unat_of_nat BASE_num del: power_Suc)
  ultimately show ?case
    using "1.prems"(2) by (simp add: unat_mult_no_wrap BASE_num mult.commute)
qed (simp_all add: unat_of_nat BASE_num)

lemma unat_low_digit: "unat (ucast (s AND ucast DIGIT_MASK :: twodigits) :: digit) = unat s mod BASE"
proof -
  have m: "(ucast DIGIT_MASK :: twodigits) = mask DIGIT_BITS"
    by (simp add: DIGIT_MASK_num DIGIT_BITS_def mask_numeral)
  have "unat (s AND ucast DIGIT_MASK) = unat s mod BASE"
    unfolding m by (simp only: unat_and_mask_word exp_DIGIT_BITS)
  moreover have "unat s mod BASE < BASE" by simp
  ultimately show ?thesis by (simp add: unat_ucast_word BASE_num)
qed

lemma conv_row_spec:
  "unat m \<le> BASE \<Longrightarrow> unat c < unat m \<Longrightarrow> digits_ok ds \<Longrightarrow> conv_row m c ds = (ds', c') \<Longrightarrow>
     length ds' = length ds \<and> digits_ok ds' \<and> unat c' < unat m \<and> dval ds' + BASE ^ length ds * unat c' = dval ds * unat m + unat c"
proof (induction m c ds arbitrary: ds' c' rule: conv_row.induct)
  case (2 m c p ds)
  define w where "w = c + ucast p * m"
  have p: "unat p < BASE" "digits_ok ds" using "2.prems"(3) by simp_all
  have le: "unat p * unat m \<le> (BASE - 1) * unat m" using p(1) by (intro mult_le_mono) (simp_all add: BASE_num)
  also have "\<dots> \<le> (BASE - 1) * BASE" using "2.prems"(1) by (intro mult_le_mono) simp_all
  finally have pm: "unat p * unat m \<le> (BASE - 1) * BASE" .
  have "unat (ucast p * m) = unat p * unat m"
    using pm by (subst unat_mult_no_wrap) (simp_all add: unat_ucast_up BASE_num)
  then have w: "unat w = unat c + unat p * unat m"
    using pm "2.prems"(1,2) by (simp add: w_def unat_add_no_wrap BASE_num)
  have "unat w < BASE * unat m"
  proof -
    have "unat w < unat m + (BASE - 1) * unat m" using w le "2.prems"(2) by linarith
    then show ?thesis by (simp add: BASE_num)
  qed
  then have c: "unat (drop_bit DIGIT_BITS w) < unat m"
    by (simp add: unat_drop_bit_word exp_DIGIT_BITS less_mult_imp_div_less mult.commute)
  have l: "unat (ucast (w AND ucast DIGIT_MASK) :: digit) = unat w mod BASE"
    by (rule unat_low_digit)
  obtain ds1 c1 where row: "conv_row m (drop_bit DIGIT_BITS w) ds = (ds1, c1)" by fastforce
  have IH: "length ds1 = length ds \<and> digits_ok ds1 \<and> unat c1 < unat m \<and>
      dval ds1 + BASE ^ length ds * unat c1 = dval ds * unat m + unat w div BASE"
    using "2.IH" [OF w_def "2.prems"(1) c p(2) row] by (simp add: unat_drop_bit_word exp_DIGIT_BITS)
  have e: "ds' = ucast (w AND ucast DIGIT_MASK) # ds1" "c' = c1"
    using "2.prems"(4) row by (simp_all add: w_def [symmetric] Let_def)
  have "BASE * (dval ds1 + BASE ^ length ds * unat c1) + unat w mod BASE
      = BASE * (dval ds * unat m) + unat w"
    using IH by (simp add: distrib_left)
  then show ?case
    using IH unfolding e by (simp add: l w algebra_simps)
qed simp

text \<open>The tables: the largest power of the radix that fits into a digit.\<close>

lemma conv_tables:
  assumes "2 \<le> radix" "radix \<le> 36"
  shows "0 < convwidth_base ! (radix - 2)" "unat (convmultmax_base ! (radix - 2)) = radix ^ (convwidth_base ! (radix - 2))"
    "radix ^ (convwidth_base ! (radix - 2)) \<le> BASE"
proof -
  let ?ok = "\<lambda>(r, w, m). 0 < w \<and> unat m = r ^ w \<and> r ^ w \<le> BASE"
  have "list_all ?ok (zip [2..<37] (zip convwidth_base convmultmax_base))"
    by (simp add: convwidth_base_def convmultmax_base_def BASE_num)
  moreover have len: "length convwidth_base = 35" "length convmultmax_base = 35"
    by (simp_all add: convwidth_base_def convmultmax_base_def)
  moreover obtain k where k: "radix = Suc (Suc k)" "k < 35" using assms that [of "radix - 2"] by simp
  ultimately have "?ok (radix, convwidth_base ! (radix - 2), convmultmax_base ! (radix - 2))"
    unfolding list_all_length k(1) by (simp add: nth_upt del: upt_rec_numeral)
  then show "0 < convwidth_base ! (radix - 2)" "unat (convmultmax_base ! (radix - 2)) = radix ^ (convwidth_base ! (radix - 2))"
    "radix ^ (convwidth_base ! (radix - 2)) \<le> BASE"
    by simp_all
qed

text \<open>The whole loop: the value so far, and then the rest of the digits.\<close>

definition top_ok :: "digit list \<Rightarrow> bool" where
  "top_ok ds \<longleftrightarrow> digits_ok ds \<and> (ds = [] \<or> BASE ^ (length ds - 1) \<le> dval ds)"

lemma conv_append:
  assumes "top_ok ds" "unat m \<le> BASE" "unat c < unat m" "conv_row m c ds = (ds', c')"
  shows "top_ok (if c' \<noteq> 0 then ds' @ [ucast c'] else ds')"
    "dval (if c' \<noteq> 0 then ds' @ [ucast c'] else ds') = dval ds * unat m + unat c"
proof -
  have row: "length ds' = length ds" "digits_ok ds'" "unat c' < unat m"
      "dval ds' + BASE ^ length ds * unat c' = dval ds * unat m + unat c"
    using conv_row_spec [OF assms(2,3) _ assms(4)] assms(1) by (auto simp: top_ok_def)
  have u: "unat (ucast c' :: digit) = unat c'"
    using row(3) assms(2) by (simp add: unat_ucast_word BASE_num)
  show "dval (if c' \<noteq> 0 then ds' @ [ucast c'] else ds') = dval ds * unat m + unat c"
    using row(1,4) u by auto
  show "top_ok (if c' \<noteq> 0 then ds' @ [ucast c'] else ds')"
  proof (cases "c' = 0")
    case True
    have "dval ds * 1 \<le> dval ds * unat m" using assms(3) by (intro mult_le_mono) simp_all
    moreover have "dval ds' = dval ds * unat m + unat c" using row(4) True by simp
    ultimately have "dval ds \<le> dval ds'" by (simp only: mult_1_right trans_le_add1)
    then show ?thesis using assms(1) row(1,2) True by (auto simp: top_ok_def)
  next
    case False
    then have "1 \<le> unat c'" by (simp add: Suc_leI unat_gt_0)
    then have "BASE ^ length ds' * 1 \<le> BASE ^ length ds' * unat c'" by (intro mult_le_mono) simp_all
    then have "BASE ^ length ds \<le> dval ds * unat m + unat c"
      using row(4) unfolding row(1) mult_1_right by linarith
    then show ?thesis using False row assms(2) u by (simp add: top_ok_def)
  qed
qed

lemma nonbinary_loop_plain:
  assumes "ascii_db db" "plain start" "seps = (\<not> STRING_FNOSEPS flags)" "2 \<le> radix" "radix \<le> 36" "top_ok ds"
  shows "case nb_digits seps radix start False of
      Scanned es \<Rightarrow> \<exists>ds'. nonbinary_loop db flags radix start ds = Scanned ds' \<and> top_ok ds' \<and>
        dval ds' = dval ds * radix ^ length es + digits_value radix es
    | r \<Rightarrow> (case r of Invalid \<Rightarrow> nonbinary_loop db flags radix start ds = Invalid
           | _ \<Rightarrow> r = Outside \<and> nonbinary_loop db flags radix start ds = Outside)"
  using assms(2,6)
proof (induction start arbitrary: ds rule: measure_induct_rule [of length])
  case (less start)
  let ?w = "convwidth_base ! (radix - 2)"
  note tab = conv_tables [OF assms(4,5)]
  show ?case
  proof (cases "start = []")
    case True
    then show ?thesis using less.prems by (simp add: nonbinary_loop.simps [of db flags radix "[]"])
  next
    case False
    note ch = conv_chunk_plain [OF assms(1) less.prems(1) assms(3,4) tab(3), of ?w 0 0, simplified]
    show ?thesis
    proof (cases "conv_chunk db flags radix ?w 0 0 start")
      case (Scanned x)
      obtain c i rest where x: "x = (c, i, rest)" by (cases x)
      let ?m = "if i \<noteq> ?w then conv_power radix i else ucast (convmultmax_base ! (radix - 2))"
      obtain ds1 c1 where row: "conv_row ?m c ds = (ds1, c1)" by fastforce
      let ?ds = "if c1 \<noteq> 0 then ds1 @ [ucast c1] else ds1"
      have step: "nonbinary_loop db flags radix start ds = nonbinary_loop db flags radix rest ?ds"
        using False tab(1) Scanned x row by (subst nonbinary_loop.simps) (simp add: Let_def)
      have "length rest < length start"
        using conv_chunk_shorter [OF Scanned [unfolded x]] False tab(1) by simp
      note IH = less.IH [OF this]
      have c: "unat c < radix ^ i" "0 < i" "i \<le> ?w" "plain rest"
        using ch Scanned x False tab(1) by auto
      have "radix ^ i \<le> radix ^ ?w" using assms(4) c(3) by (intro power_increasing) simp_all
      then have pw: "radix ^ i \<le> BASE" using tab(3) by linarith
      have m: "unat ?m = radix ^ i"
        using conv_power_spec [OF assms(4) pw c(2)] tab(2) by (simp add: unat_ucast_up)
      have "unat c < unat ?m" "unat ?m \<le> BASE" unfolding m by (rule c(1), rule pw)
      note ds = conv_append [OF less.prems(2) this(2,1) row, unfolded m]
      note IH = IH [OF c(4) ds(1)]
      show ?thesis
      proof (cases "nb_digits seps radix start False")
        case es: (Scanned es)
        have "nb_digits seps radix rest False = Scanned (drop ?w es)" "i = min ?w (length es)" "unat c = digits_value radix (take ?w es)"
          using ch by (simp_all add: Scanned x es)
        then show ?thesis
          using IH ds(2) digits_value_append [of radix "take ?w es" "drop ?w es"]
          unfolding es step by (auto simp: algebra_simps min_def simp flip: power_add)
      qed (use IH ch in \<open>auto simp: Scanned x step\<close>)
    qed (use ch False tab(1) in \<open>auto simp: nonbinary_loop.simps [of db flags radix start]\<close>)
  qed
qed

lemma list_alloc_represents: "top_ok ds \<Longrightarrow> represents (DeeInt_Alloc ds) (int (dval ds))"
  by (auto simp: represents_def int_ok_def int_mem_def top_ok_def DeeInt_Alloc_def digits_def int_val_def int_mag_def dest: dval_last)

lemma nonbinary_plain:
  assumes "ascii_db db" "plain start" "start \<noteq> []" "2 \<le> radix" "radix \<le> 36" "radix AND (radix - 1) \<noteq> 0"
  shows "case read_digits_spec ascii (\<not> STRING_FNOSEPS flags) radix start of
      Scanned v \<Rightarrow> \<exists>x. int_from_nonbinary_string db start radix flags = Scanned x \<and> represents x (int v)
    | Invalid \<Rightarrow> int_from_nonbinary_string db start radix flags = Invalid
    | Outside \<Rightarrow> int_from_nonbinary_string db start radix flags = Outside
    | Endless \<Rightarrow> False"
proof -
  have "top_ok []" by (simp add: top_ok_def)
  from nonbinary_loop_plain [OF assms(1,2) refl assms(4,5) this, of flags] assms(3,6) show ?thesis
    by (auto simp: nb_digits_spec read_digits_spec_def int_from_nonbinary_string_def dest!: list_alloc_represents)
qed

lemma ascii_sequence: "c < 0x80 \<Longrightarrow> utf8_sequence (ucast c) c []"
proof -
  assume "c < 0x80"
  then have "unat c < 128" by (simp add: word_less_nat_alt)
  then have c: "unat (ucast c :: u32) < 2 ^ 7" and "ucast (ucast c :: u32) = c"
    by (simp_all add: word_unat_eq_iff unat_ucast_word)
  then show ?thesis using sequence_1 [OF c] by simp
qed

section \<open>Reading with a power of two\<close>

lemma radix_bits_power: "b \<le> k \<Longrightarrow> radix_bits (2 ^ k) b = k"
proof (induction "k - b" arbitrary: b)
  case 0
  then show ?case by (simp add: radix_bits.simps)
next
  case (Suc n)
  then have "b < k" by simp
  then have "(2 :: nat) ^ b < 2 ^ k" by (intro power_strict_increasing) simp_all
  then show ?case using Suc by (subst radix_bits.simps) simp
qed

lemma step_before_plain:
  assumes "ascii_db db" "plain s" "c < 0x80" "c \<noteq> 0x5c"
  shows "step_before ascii db flags radix (s @ [c]) =
     (case hexval c of
        Some d \<Rightarrow> Scanned (Some (of_nat d), s)
      | None \<Rightarrow> if \<not> STRING_FNOSEPS flags \<and> \<not> ascii \<and> c = 0x5f then Scanned (None, s) else Invalid)"
proof -
  have t: "ascii_traits c (Descriptor db (ucast c))" by (rule ascii_traitsD [OF assms(1,3)])
  have lf: "linefeed_in_text s x = None" for x
    using assms(2) by (cases s rule: rev_cases) (auto simp: linefeed_in_text_def plain_def list_all_iff dest: in_set_butlastD last_in_set)
  from readutf8_rev_n_sequence [OF ascii_sequence [OF assms(3)], of s]
  have rev: "Dee_unicode_readutf8_rev_n (s @ [c]) = (ucast c, s)" by simp
  have d: "DeeUni_AsDigitVal db (scast c) = (case hexval c of Some d \<Rightarrow> of_nat d | None \<Rightarrow> 0xff)"
    using asdigit_ascii [OF assms(1,3)] scast_ascii [OF assms(3)] by simp
  have sep: "(ucast c :: u32) = 0x5f \<longleftrightarrow> c = 0x5f"
    by (simp add: word_unat_eq_iff unat_ucast_up)
  let ?t = "Descriptor db (ucast c)"
  have e1: "digit_before db flags (s @ [c]) =
      (if ut_numeric ?t then Scanned (Some (traits_digit db ?t), s) else if ut_lf ?t \<and> STRING_FESCAPED flags then Invalid
       else if c = 0x5f \<and> \<not> STRING_FNOSEPS flags then Scanned (None, s) else Invalid)"
    by (auto simp: digit_before_def Let_def rev lf sep DeeUni_IsLF_def)
  have e2: "digit_before_ascii db flags radix (s @ [c]) =
      (case hexval c of Some n \<Rightarrow> Scanned (Some (of_nat n), s) | None \<Rightarrow> Invalid)"
    using assms(3) asdigit_16 [of c] by (auto simp: digit_before_ascii_def Let_def d lf DeeUni_IsLF_def not_le split: option.splits)
  show ?thesis
  proof (cases "hexval c")
    case None
    then show ?thesis
      using t e1 e2 by (auto simp: step_before_def ascii_traits_def)
  next
    case (Some n)
    have n: "unat (ut_digit_idx ?t) = n" using t Some by (simp add: ascii_traits_def)
    then have "traits_digit db ?t = of_nat n"
      using hexval_less [OF Some] by (auto simp: traits_digit_def Let_def word_le_nat_alt)
    then show ?thesis
      using t Some by (simp add: step_before_def e1 e2 ascii_traits_def)
  qed
qed

lemma flush_digits_spec:
  assumes "digits_ok dst" "unat w < 2 ^ n" "n < 60" "30 * length dst + n \<le> B" "room = 1 + B div 30"
  shows "\<exists>dst1 w1 n1. flush_digits room dst w n = Scanned (dst1, w1, n1) \<and> digits_ok dst1 \<and> unat w1 < 2 ^ n1 \<and> n1 < 30 \<and>
     30 * length dst1 + n1 = 30 * length dst + n \<and> dval dst1 + BASE ^ length dst1 * unat w1 = dval dst + BASE ^ length dst * unat w"
proof (cases "n < 30")
  case True
  then show ?thesis
    using assms by (subst flush_digits.simps) (simp add: DIGIT_BITS_def)
next
  case False
  let ?d = "ucast (w AND ucast DIGIT_MASK) :: digit" and ?w = "drop_bit DIGIT_BITS w"
  have room: "length dst < room" using assms(4,5) False by linarith
  have d: "unat ?d = unat w mod BASE" by (rule unat_low_digit)
  have w: "unat ?w = unat w div BASE" by (simp add: unat_drop_bit_word exp_DIGIT_BITS)
  have "(2 :: nat) ^ n = 2 ^ (n - 30) * BASE"
    using power_add [of "2 :: nat" "n - 30" 30] False by (simp add: BASE_num)
  then have "unat ?w < 2 ^ (n - 30)" using assms(2) unfolding w by (simp add: less_mult_imp_div_less)
  moreover have "flush_digits room dst w n = Scanned (dst @ [?d], ?w, n - 30)"
  proof -
    have "\<not> 30 \<le> n - 30" using assms(3) by simp
    then show ?thesis
      using False room by (subst flush_digits.simps, subst flush_digits.simps) (simp add: DIGIT_BITS_def)
  qed
  moreover have "unat w mod BASE + BASE * (unat w div BASE) = unat w" by simp
  then have "BASE ^ length dst * (unat w mod BASE) + BASE ^ length dst * (BASE * (unat w div BASE)) = BASE ^ length dst * unat w"
    by (simp only: distrib_left [symmetric])
  ultimately show ?thesis
    using assms(1,3) False by (simp add: d w algebra_simps)
qed

lemma BASE_shift: "BASE ^ k * 2 ^ n = 2 ^ (30 * k + n)"
  by (simp only: BASE_def DIGIT_BITS_def power_add power_mult)

lemma binary_digit:
  assumes "unat (number :: twodigits) < 2 ^ nb" "nb < 30" "d < 2 ^ b" "b \<le> 8" "unat (dig :: u8) = d"
  shows "unat (number OR push_bit nb (ucast dig)) = unat number + 2 ^ nb * d" "unat number + 2 ^ nb * d < 2 ^ (nb + b)"
proof -
  have "2 ^ nb * (d + 1) \<le> 2 ^ nb * 2 ^ b" using assms(3) by (intro mult_le_mono) simp_all
  then show b: "unat number + 2 ^ nb * d < 2 ^ (nb + b)" using assms(1) by (simp add: power_add)
  have "(2 :: nat) ^ (nb + b) \<le> 2 ^ 64" using assms(2,4) by (intro power_increasing) simp_all
  then have "d * 2 ^ nb < 2 ^ 64" using b by (simp add: mult.commute)
  then have "unat (push_bit nb (ucast dig) OR number) = unat (ucast dig :: twodigits) * 2 ^ nb + unat number"
    using assms(1,5) by (intro unat_or_shifted) (simp_all add: unat_ucast_up)
  then show "unat (number OR push_bit nb (ucast dig)) = unat number + 2 ^ nb * d"
    using assms(5) by (simp add: or.commute unat_ucast_up mult.commute)
qed

lemma text_digits_snoc: "text_digits (s @ [c]) = text_digits s @ (case hexval c of None \<Rightarrow> [] | Some d \<Rightarrow> [d])"
  by (simp add: text_digits_def split: option.splits)

lemma binary_loop_plain:
  assumes "ascii_db db" "1 \<le> b" "b \<le> 8" "room = 1 + B div 30"
    "plain iter" "digits_ok dst" "unat number < 2 ^ nb" "nb < 30" "30 * length dst + nb + b * length iter \<le> B"
  shows "if list_all (digit_ok (\<not> STRING_FNOSEPS flags \<and> \<not> ascii) (2 ^ b)) iter
     then \<exists>dst' n' nb'. binary_loop ascii db flags (2 ^ b) b room iter dst number nb = Scanned (dst', n', nb') \<and> digits_ok dst' \<and>
       unat n' < 2 ^ nb' \<and> nb' < 30 \<and> 30 * length dst' + nb' \<le> B \<and>
       dval dst' + BASE ^ length dst' * unat n' =
         dval dst + BASE ^ length dst * (unat number + 2 ^ nb * digits_value (2 ^ b) (text_digits iter))
     else binary_loop ascii db flags (2 ^ b) b room iter dst number nb = Invalid"
  using assms(5-)
proof (induction iter arbitrary: dst number nb rule: rev_induct)
  case Nil
  then show ?case by (simp add: binary_loop.simps [of ascii db flags "2 ^ b" b room "[]"] text_digits_def)
next
  case (snoc c s)
  have c: "c < 0x80" "c \<noteq> 0x5c" "plain s" using snoc.prems(1) by simp_all
  note step = step_before_plain [OF assms(1) c(3,1,2), of ascii flags "2 ^ b"]
  have B: "30 * length dst + nb + b * length s \<le> B" using snoc.prems(5) by simp
  note loop = binary_loop.simps [of ascii db flags "2 ^ b" b room "s @ [c]" dst number nb]
  show ?case
  proof (cases "hexval c")
    case None
    have bin: "binary_loop ascii db flags (2 ^ b) b room (s @ [c]) dst number nb =
        (if \<not> STRING_FNOSEPS flags \<and> \<not> ascii \<and> c = 0x5f then binary_loop ascii db flags (2 ^ b) b room s dst number nb else Invalid)"
      unfolding loop using step None by simp
    show ?thesis
    proof (cases "\<not> STRING_FNOSEPS flags \<and> \<not> ascii \<and> c = 0x5f")
      case True
      then have e: "ascii = False" "c = 0x5f" "STRING_FNOSEPS flags = False" by auto
      show ?thesis
        unfolding bin using snoc.IH [OF c(3) snoc.prems(2-4) B] unfolding e
        by (simp add: text_digits_snoc digit_ok_def [of _ _ "0x5f"])
    next
      case False
      then show ?thesis
        unfolding bin using None by (auto simp: digit_ok_def [of _ _ c])
    qed
  next
    case (Some d)
    have d: "unat (of_nat d :: u8) = d" using asdigit_16 [OF Some] by simp
    show ?thesis
    proof (cases "d < 2 ^ b")
      case False
      then show ?thesis unfolding loop using step Some d by (simp add: digit_ok_def [of _ _ c])
    next
      case True
      define w where "w = number OR push_bit nb (ucast (of_nat d :: u8))"
      have w: "unat w = unat number + 2 ^ nb * d" "unat w < 2 ^ (nb + b)"
        using binary_digit [OF snoc.prems(3,4) True assms(3) d] by (simp_all add: w_def)
      have "30 * length dst + (nb + b) \<le> B" using snoc.prems(5) by simp
      then obtain dst1 w1 n1 where f: "flush_digits room dst w (nb + b) = Scanned (dst1, w1, n1)" "digits_ok dst1"
          "unat w1 < 2 ^ n1" "n1 < 30" "30 * length dst1 + n1 = 30 * length dst + (nb + b)"
          "dval dst1 + BASE ^ length dst1 * unat w1 = dval dst + BASE ^ length dst * unat w"
        using flush_digits_spec [OF snoc.prems(2) w(2) _ _ assms(4)] snoc.prems(4) assms(3) by auto
      have bin: "binary_loop ascii db flags (2 ^ b) b room (s @ [c]) dst number nb = binary_loop ascii db flags (2 ^ b) b room s dst1 w1 n1"
        unfolding loop using step Some d True f(1) by (simp add: w_def)
      have "30 * length dst1 + n1 + b * length s \<le> B" using f(5) snoc.prems(5) by simp
      note IH = snoc.IH [OF c(3) f(2,3,4) this]
      let ?V = "digits_value (2 ^ b) (text_digits s)"
      have "BASE ^ length dst1 * 2 ^ n1 = BASE ^ length dst * 2 ^ (nb + b)"
        unfolding BASE_shift f(5) by (rule refl)
      then have "BASE ^ length dst1 * (2 ^ n1 * ?V) = BASE ^ length dst * 2 ^ (nb + b) * ?V"
        by (simp only: mult.assoc [symmetric])
      moreover have "BASE ^ length dst * (unat number + 2 ^ nb * (?V * 2 ^ b + d)) =
          BASE ^ length dst * unat w + BASE ^ length dst * 2 ^ (nb + b) * ?V"
        unfolding w(1) power_add by (simp add: algebra_simps)
      ultimately have e: "dval dst1 + BASE ^ length dst1 * (unat w1 + 2 ^ n1 * ?V) =
          dval dst + BASE ^ length dst * (unat number + 2 ^ nb * (?V * 2 ^ b + d))"
        using f(6) unfolding distrib_left [of "BASE ^ length dst1"] by linarith
      show ?thesis
        unfolding bin using IH [unfolded e] Some True by (simp add: text_digits_snoc digit_ok_def [of _ _ c])
    qed
  qed
qed

lemma power_of_two_cases: "2 \<le> (radix :: nat) \<Longrightarrow> radix \<le> 36 \<Longrightarrow> radix AND (radix - 1) = 0 \<Longrightarrow> \<exists>b. 1 \<le> b \<and> b \<le> 8 \<and> radix = 2 ^ b"
proof -
  assume a: "2 \<le> radix" "radix \<le> 36" "radix AND (radix - 1) = 0"
  have "\<forall>r\<in>set [2..<37 :: nat]. r AND (r - 1) = 0 \<longrightarrow> r \<in> {2 ^ 1, 2 ^ 2, 2 ^ 3, 2 ^ 4, 2 ^ 5}" by simp
  moreover have "radix \<in> set [2..<37]" using a by (simp add: set_upt del: upt_rec_numeral)
  ultimately have "radix \<in> {2 ^ 1, 2 ^ 2, 2 ^ 3, 2 ^ 4, 2 ^ 5}" using a(3) by blast
  then show ?thesis
    by (elim insertE emptyE) (rule exI [of _ 1], simp, rule exI [of _ 2], simp, rule exI [of _ 3], simp,
        rule exI [of _ 4], simp, rule exI [of _ 5], simp)
qed

lemma binary_plain:
  assumes "ascii_db db" "plain start" "start \<noteq> []" "2 \<le> radix" "radix \<le> 36" "radix AND (radix - 1) = 0" "length start \<le> len"
  shows "case read_digits_spec ascii (\<not> STRING_FNOSEPS flags) radix start of
      Scanned v \<Rightarrow> \<exists>x. int_from_binary ascii db start radix flags len = Scanned x \<and> represents x (int v)
    | Invalid \<Rightarrow> int_from_binary ascii db start radix flags len = Invalid
    | Outside \<Rightarrow> False
    | Endless \<Rightarrow> False"
proof -
  obtain b where b: "1 \<le> b" "b \<le> 8" "radix = 2 ^ b" using power_of_two_cases [OF assms(4-6)] by blast
  let ?ok = "list_all (digit_ok (\<not> STRING_FNOSEPS flags \<and> \<not> ascii) radix) start"
  let ?n = "1 + len * b div DIGIT_BITS"
  have spec: "read_digits_spec ascii (\<not> STRING_FNOSEPS flags) radix start =
      (if ?ok then Scanned (digits_value radix (text_digits start)) else Invalid)"
    using assms(3,6) by (simp add: read_digits_spec_def)
  have rb: "radix_bits radix 0 = b" by (simp add: b(3) radix_bits_power)
  have room: "?n = 1 + b * len div 30" by (simp add: DIGIT_BITS_def mult.commute)
  have "b * length start \<le> b * len" using assms(7) by (intro mult_le_mono) simp_all
  then have len: "30 * length ([] :: digit list) + 0 + b * length start \<le> b * len" by simp
  note loop = binary_loop_plain [OF assms(1) b(1,2) room assms(2), of "[]" 0 0 flags ascii, folded b(3), OF _ _ _ len]
  show ?thesis
  proof (cases ?ok)
    case False
    have "binary_loop ascii db flags radix b ?n start [] 0 0 = Invalid"
      using loop unfolding if_not_P [OF False] by simp
    then show ?thesis using False by (simp add: spec int_from_binary_def rb Let_def)
  next
    case True
    obtain dst n nb where l: "binary_loop ascii db flags radix b ?n start [] 0 0 = Scanned (dst, n, nb)" "digits_ok dst"
        "unat n < 2 ^ nb" "nb < 30" "30 * length dst + nb \<le> b * len"
        "dval dst + BASE ^ length dst * unat n = digits_value radix (text_digits start)"
      using loop unfolding if_P [OF True] by auto
    let ?dst = "if nb \<noteq> 0 then dst @ [ucast n] else dst"
    let ?x = "int_normalize (DeeInt_Alloc (?dst @ replicate (?n - length ?dst) 0))"
    have "(2 :: nat) ^ nb < 2 ^ 30" using l(4) by (intro power_strict_increasing) simp_all
    then have n: "unat n < BASE" using l(3) by (simp add: BASE_num)
    have top: "digits_ok ?dst" "dval ?dst = digits_value radix (text_digits start)"
      using l(2,3,6) n by (auto simp: unat_ucast_word BASE_num)
    have "length ?dst \<le> ?n" using l(5) unfolding room by (cases "nb = 0") (simp_all add: less_eq_div_iff_mult_less_eq)
    then have e: "int_from_binary ascii db start radix flags len = Scanned ?x"
      unfolding int_from_binary_def Let_def rb l(1) sbind.simps prod.case by (simp only: not_less if_False not_le [symmetric] not_True_eq_False)
    have "int_mem (DeeInt_Alloc (?dst @ replicate (?n - length ?dst) 0))"
      using top(1) by (simp add: int_mem_def DeeInt_Alloc_def digits_def)
    then have "represents ?x (int (digits_value radix (text_digits start)))"
      using top(2) by (simp add: represents_def)
    then show ?thesis using True e by (simp add: spec)
  qed
qed

section \<open>The whole text\<close>

lemma sign_prefix_plain:
  assumes "plain str"
  shows "sign_prefix_loop ascii db flags str negative =
     (if dropWhile is_sign str = [] then Invalid
      else Scanned (negative \<noteq> odd (length (filter (\<lambda>c. c = 0x2d) (takeWhile is_sign str))), dropWhile is_sign str))"
  using assms
proof (induction str arbitrary: negative)
  case (Cons c s)
  then have IH: "\<And>n. sign_prefix_loop ascii db flags s n =
      (if dropWhile is_sign s = [] then Invalid
       else Scanned (n \<noteq> odd (length (filter (\<lambda>c. c = 0x2d) (takeWhile is_sign s))), dropWhile is_sign s))"
    and c: "c \<noteq> 0x5c" by simp_all
  have s: "is_sign 0x2b" "is_sign 0x2d" by (simp_all add: is_sign_def)
  consider "c = 0x2b" | "c = 0x2d" | "\<not> is_sign c" "c \<noteq> 0x2b" "c \<noteq> 0x2d" by (auto simp: is_sign_def)
  then show ?case
    unfolding sign_prefix_loop.simps [of ascii db flags "c # s"] by cases (simp_all add: IH s c)
qed (simp add: sign_prefix_loop.simps)

lemma skip_linefeeds_plain: "plain (c # s) \<Longrightarrow> skip_linefeeds ascii db flags (c # s) = Scanned (c # s)"
  by (simp add: skip_linefeeds.simps)

lemma hexval_zero: "hexval c = Some 0 \<longleftrightarrow> c = 0x30"
proof
  assume "hexval c = Some 0"
  then have "unat c = 48" by (auto simp: hexval_def Let_def split: if_splits)
  then show "c = 0x30" by (simp add: word_unat_eq_iff)
qed (simp add: hexval_def)

lemma auto_radix_plain:
  assumes "ascii_db db" "plain (c # s)"
  shows "auto_radix ascii db flags (c # s) =
     (if c \<noteq> 0x30 then Scanned (Some (10, c # s))
      else if s = [] then Scanned None
      else if hd s \<in> {0x78, 0x58} then Scanned (Some (16, tl s))
      else if hd s \<in> {0x62, 0x42} then Scanned (Some (2, tl s))
      else Scanned (Some (8, s)))"
proof -
  have c: "c < 0x80" using assms(2) by simp
  have read: "Dee_unicode_readutf8_n (c # s) = (ucast c, s)"
    using read_sequence(1) [OF ascii_sequence [OF c], of s] by simp
  have z: "DeeUni_AsDigitVal db (ucast c) = 0 \<longleftrightarrow> c = 0x30"
  proof (cases "hexval c")
    case (Some d)
    then have "(of_nat d :: u8) = 0 \<longleftrightarrow> d = 0" using asdigit_16 [OF Some] by (simp add: word_unat_eq_iff)
    then show ?thesis using asdigit_ascii [OF assms(1) c] Some hexval_zero [of c] by simp
  qed (use asdigit_ascii [OF assms(1) c] hexval_zero [of c] in simp)
  have e: "auto_radix ascii db flags (c # s) =
      (if c = 0x30 then if s = [] then Scanned None else sbind (skip_linefeeds ascii db flags s) radix_letter
       else Scanned (Some (10, c # s)))"
  proof -
    have "(if ascii then (scast (hd (c # s)), tl (c # s)) else Dee_unicode_readutf8_n (c # s)) = (ucast c, s)"
      using read scast_ascii [OF c] by simp
    then show ?thesis unfolding auto_radix_def by (simp only: Let_def prod.case z)
  qed
  show ?thesis
    unfolding e using assms(2) by (cases s) (simp_all add: skip_linefeeds_plain radix_letter_def)
qed

lemma plain_dropWhile: "plain s \<Longrightarrow> plain (dropWhile P s)"
  by (induction s) simp_all

lemma plain_tl: "plain s \<Longrightarrow> plain (tl s)"
  by (cases s) simp_all

definition read_matches :: "int scan \<Rightarrow> DeeInt scan \<Rightarrow> bool" where
  "read_matches spec r =
     (case spec of
        Scanned v \<Rightarrow> (case r of Scanned x \<Rightarrow> represents x v | _ \<Rightarrow> False)
      | Invalid \<Rightarrow> r = Invalid
      | Outside \<Rightarrow> r = Outside
      | Endless \<Rightarrow> False)"

lemma parse_digits_plain:
  assumes "ascii_db db" "plain start" "2 \<le> radix" "radix \<le> 36" "length start \<le> len"
  shows "read_matches (sbind (read_digits_spec ascii (\<not> STRING_FNOSEPS flags) radix start) (\<lambda>v. Scanned ((if negative then - 1 else 1) * int v)))
     (parse_digits ascii db flags len negative (Some (radix, start)))"
proof (cases "start = []")
  case True
  then show ?thesis by (simp add: read_matches_def read_digits_spec_def parse_digits_def)
next
  case False
  show ?thesis
  proof (cases "radix AND (radix - 1) = 0")
    case True
    then show ?thesis
      using binary_plain [OF assms(1,2) False assms(3,4) True assms(5), where ascii = ascii and flags = flags] False represents_negate
      by (auto simp: read_matches_def parse_digits_def split: scan.splits)
  next
    case n: False
    then show ?thesis
      using nonbinary_plain [OF assms(1,2) False assms(3,4) n, where ascii = ascii and flags = flags] False represents_negate
      by (auto simp: read_matches_def parse_digits_def split: scan.splits)
  qed
qed

lemma parse_int_plain:
  assumes "ascii_db db" "plain str" "radix = unat (drop_bit 16 flags)" "radix = 0 \<or> 2 \<le> radix \<and> radix \<le> 36"
  shows "read_matches (text_spec ascii (\<not> STRING_FNOSEPS flags) radix str) (parse_int ascii db str flags)"
proof (cases "dropWhile is_sign str")
  case Nil
  then show ?thesis
    using assms(2) by (simp add: text_spec_def read_matches_def parse_int_def sign_prefix_plain)
next
  case (Cons c s)
  let ?k = "length (filter (\<lambda>c. c = 0x2d) (takeWhile is_sign str))"
  have len: "length (c # s) \<le> length str" using length_dropWhile_le [of is_sign str] Cons by simp
  have p: "plain (c # s)" "plain s" "plain (tl s)" using plain_dropWhile [OF assms(2), of is_sign] Cons by (simp_all add: plain_tl)
  have sgn: "(- 1) ^ ?k = (if odd ?k then - 1 else 1 :: int)" by simp
  note digits = parse_digits_plain [OF assms(1) _ _ _ , where flags = flags and negative = "odd ?k" and len = "length str" and ascii = ascii]
  have parse: "parse_int ascii db str flags =
      sbind (if radix = 0 then auto_radix ascii db flags (c # s) else Scanned (Some (radix, c # s)))
        (parse_digits ascii db flags (length str) (odd ?k))"
    using assms(2,3) Cons by (simp add: parse_int_def sign_prefix_plain)
  show ?thesis
  proof (cases "radix = 0")
    case False
    then show ?thesis
      unfolding parse using digits [OF p(1), of radix] assms(4) len by (simp add: text_spec_def Let_def Cons sgn)
  next
    case True
    have l: "length s \<le> length str" "length (tl s) \<le> length str" using len by simp_all
    have zero: "represents DeeInt_Zero 0" by (rule represents_Zero)
    show ?thesis
      unfolding parse auto_radix_plain [OF assms(1) p(1)]
      using digits [OF p(1), of 10] digits [OF p(2), of 8] digits [OF p(3), of 16] digits [OF p(3), of 2] len l zero
      by (simp add: True text_spec_def Let_def Cons sgn parse_digits_def [of _ _ _ _ _ None] read_matches_def [of "Scanned 0"])
  qed
qed

section \<open>What was printed is read back\<close>

lemma hexval_itoa: "d < 16 \<Longrightarrow> hexval (itoa_digit upper d) = Some d \<and> itoa_digit upper d < 0x80 \<and> itoa_digit upper d \<noteq> 0x5c"
proof -
  have "list_all (\<lambda>d. hexval (itoa_digit True d) = Some d \<and> hexval (itoa_digit False d) = Some d \<and>
      itoa_digit True d < 0x80 \<and> itoa_digit False d < 0x80 \<and> itoa_digit True d \<noteq> 0x5c \<and> itoa_digit False d \<noteq> 0x5c) [0..<16]"
    by code_simp
  moreover assume "d < 16"
  ultimately show ?thesis by (cases upper) (auto simp: list_all_iff)
qed

lemma separated_set: "set (separated seps g cs) \<subseteq> set cs \<union> (if seps then {0x5f} else {})"
  by (induction cs) (auto simp: open_text_def)

lemma separated_filter: "filter (\<lambda>c. hexval c \<noteq> None) (separated seps g cs) = filter (\<lambda>c. hexval c \<noteq> None) cs"
  by (induction cs) (auto simp: open_text_def)

lemma separated_not_Nil [simp]: "separated seps g cs = [] \<longleftrightarrow> cs = []"
  by (cases cs) simp_all

lemma separated_hd: "cs \<noteq> [] \<Longrightarrow> hd (separated seps g cs) = hd cs"
  by (cases cs) simp_all

lemma separated_last: "cs \<noteq> [] \<Longrightarrow> last (separated seps g cs) = last cs"
  by (induction cs) (auto simp: open_text_def)

text \<open>The digits of a printed integer, with zeroes in front and separators.\<close>

definition digits_text :: "bool \<Rightarrow> bool \<Rightarrow> nat \<Rightarrow> nat \<Rightarrow> nat \<Rightarrow> u8 list" where
  "digits_text upper seps radix precision v =
     (let cs = chars upper (radix_digits radix v)
      in separated seps (if radix = 10 then 3 else 4) (replicate (precision - length cs) 0x30 @ cs))"

lemma digits_text_read:
  assumes "2 \<le> radix" "radix \<le> 16" "seps \<longrightarrow> seps'"
  shows "digits_text upper seps radix precision v \<noteq> []" "plain (digits_text upper seps radix precision v)"
    "read_digits_spec False seps' radix (digits_text upper seps radix precision v) = Scanned v"
proof -
  let ?g = "if radix = 10 then 3 else 4 :: nat"
  define ds where "ds = replicate (precision - length (radix_digits radix v)) 0 @ radix_digits radix v"
  have z: "itoa_digit upper 0 = 0x30" by (simp add: itoa_digit_def)
  have t: "digits_text upper seps radix precision v = separated seps ?g (chars upper ds)"
    by (simp add: digits_text_def ds_def Let_def chars_def z)
  have ds: "d < radix" if "d \<in> set ds" for d
    using that assms(1) radix_digits_bound [OF assms(1), of d v] by (auto simp: ds_def)
  have ne: "chars upper ds \<noteq> []" by (simp add: ds_def)
  then show "digits_text upper seps radix precision v \<noteq> []" unfolding t by simp
  have ch: "c < 0x80 \<and> c \<noteq> 0x5c \<and> c \<noteq> 0x5f \<and> (\<exists>d. hexval c = Some d \<and> d < radix)" if c: "c \<in> set (chars upper ds)" for c
  proof -
    obtain d where d: "d \<in> set ds" "c = itoa_digit upper d" using c by (auto simp: chars_def)
    have d16: "d < 16" using ds [OF d(1)] assms(2) by simp
    show ?thesis using hexval_itoa [OF d16, of upper] itoa_digit_not_sep [of d upper] ds [OF d(1)] d16 d(2) by auto
  qed
  have all: "c \<in> set (chars upper ds) \<or> seps \<and> c = 0x5f" if "c \<in> set (separated seps ?g (chars upper ds))" for c
    using separated_set [of seps ?g "chars upper ds"] that by (auto split: if_splits)
  show "plain (digits_text upper seps radix precision v)"
    unfolding t plain_def list_all_iff using all ch by fastforce
  have ok: "list_all (digit_ok seps' radix) (digits_text upper seps radix precision v)"
    unfolding t list_all_iff digit_ok_def using all ch assms(3) by fastforce
  have last: "last (digits_text upper seps radix precision v) \<noteq> 0x5f"
    unfolding t using separated_last [OF ne, of seps ?g] ch [OF last_in_set [OF ne]] by simp
  have "text_digits (digits_text upper seps radix precision v) = List.map (\<lambda>c. the (hexval c)) (chars upper ds)"
    unfolding t text_digits_def separated_filter using ch by (subst filter_True) auto
  also have "\<dots> = List.map (\<lambda>d. d) ds"
    unfolding chars_def list.map_comp
    by (rule list.map_cong0) (use ds assms(2) hexval_itoa in \<open>fastforce dest: ds\<close>)
  finally have "text_digits (digits_text upper seps radix precision v) = ds" by simp
  moreover have zero: "digits_value radix (replicate k 0) = 0" for k
    by (induction k) (simp_all add: digits_value_Cons)
  have "digits_value radix ds = v"
    unfolding ds_def digits_value_append zero using digits_value_radix [OF assms(1)] by simp
  ultimately show "read_digits_spec False seps' radix (digits_text upper seps radix precision v) = Scanned v"
    using \<open>digits_text upper seps radix precision v \<noteq> []\<close> ok last unfolding read_digits_spec_def by simp
qed

lemma number_text_digits: "number_text upper sys sign seps radix precision v =
    (if v < 0 then [0x2d] else if sign then [0x2b] else []) @ (if sys then system_prefix upper radix else []) @
    digits_text upper seps radix precision (nat \<bar>v\<bar>)"
  by (simp add: number_text_def digits_text_def Let_def)

text \<open>
  The radix \<open>r\<close> with which a text printed in \<open>radix\<close> is read: the same if there is no prefix, or none if the
  prefix or the first digit tells.
\<close>

definition radix_found :: "bool \<Rightarrow> nat \<Rightarrow> nat \<Rightarrow> nat \<Rightarrow> bool" where
  "radix_found sys radix precision r \<longleftrightarrow>
     (if r = 0 then sys \<and> radix \<in> {2, 8, 16} \<or> radix = 10 \<and> precision \<le> 1 else r = radix \<and> (\<not> sys \<or> radix = 10))"

lemma radix_digits_hd: "2 \<le> b \<Longrightarrow> 0 < v \<Longrightarrow> hd (radix_digits b v) \<noteq> 0"
proof (induction b v rule: radix_digits.induct)
  case (1 b v)
  then show ?case
    by (cases "v < b") (auto simp: radix_digits_small radix_digits_step hd_append div_greater_zero_iff)
qed

lemma digits_text_hd:
  assumes "2 \<le> radix" "radix \<le> 16"
  shows "\<exists>d. hexval (hd (digits_text upper seps radix precision v)) = Some d \<and> d < radix \<and> (precision \<le> 1 \<and> 0 < v \<longrightarrow> 0 < d)"
proof -
  let ?ds = "radix_digits radix v" and ?n = "precision - length (radix_digits radix v)"
  let ?d = "if ?n = 0 then hd ?ds else 0"
  have z: "itoa_digit upper 0 = 0x30" by (simp add: itoa_digit_def)
  have "hd (digits_text upper seps radix precision v) = hd (replicate ?n 0x30 @ chars upper ?ds)"
    unfolding digits_text_def Let_def by (subst separated_hd) simp_all
  also have "\<dots> = itoa_digit upper ?d"
    by (cases ?n) (simp_all add: chars_def hd_map z)
  finally have h: "hd (digits_text upper seps radix precision v) = itoa_digit upper ?d" .
  have "hd ?ds < radix" using radix_digits_bound [OF assms(1) hd_in_set [OF radix_digits_not_Nil]] .
  then have d: "?d < radix" using assms(1) by simp
  have "precision \<le> 1 \<Longrightarrow> ?n = 0"
    using radix_digits_not_Nil [of radix v] by (metis diff_is_0_eq le_trans length_greater_0_conv less_eq_Suc_le One_nat_def)
  then have "precision \<le> 1 \<and> 0 < v \<longrightarrow> 0 < ?d" using radix_digits_hd [OF assms(1), of v] by simp
  moreover have "?d < 16" using d assms(2) by simp
  ultimately show ?thesis unfolding h using hexval_itoa [of ?d upper] d by blast
qed

lemma digits_text_0: "precision \<le> 1 \<Longrightarrow> digits_text upper seps 10 precision 0 = [0x30]"
  by (simp add: digits_text_def radix_digits_small itoa_digit_def)

lemma number_text_read:
  assumes "radix \<in> radices" "radix_found sys radix precision r" "seps \<longrightarrow> seps'"
  shows "plain (number_text upper sys sign seps radix precision v)"
    "text_spec False seps' r (number_text upper sys sign seps radix precision v) = Scanned v"
proof -
  define V where "V = nat \<bar>v\<bar>"
  define D where "D = digits_text upper seps radix precision V"
  let ?s = "if v < 0 then [0x2d] else if sign then [0x2b] else [] :: u8 list"
  let ?p = "if sys then system_prefix upper radix else []"
  have radix: "2 \<le> radix" "radix \<le> 16" using assms(1) by (auto simp: radices_def)
  note d = digits_text_read [OF radix assms(3), of upper precision V, folded D_def]
  obtain n where h: "hexval (hd D) = Some n" "n < radix" "precision \<le> 1 \<and> 0 < V \<longrightarrow> 0 < n"
    unfolding D_def using digits_text_hd [OF radix] by blast
  have hd: "hd D \<notin> {0x2b, 0x2d, 0x58, 0x78}" using h(1) by (auto simp: hexval_def)
  have nt: "number_text upper sys sign seps radix precision v = ?s @ ?p @ D"
    by (simp only: number_text_digits D_def V_def)
  have "plain ?s" "plain ?p" by (simp_all add: system_prefix_def)
  then show "plain (number_text upper sys sign seps radix precision v)"
    unfolding nt using d(2) by simp
  have "\<not> is_sign (hd (?p @ D))" using hd by (simp add: is_sign_def system_prefix_def)
  moreover have ne: "?p @ D \<noteq> []" using d(1) by simp
  ultimately have drop: "dropWhile is_sign (?s @ ?p @ D) = ?p @ D" "takeWhile is_sign (?s @ ?p @ D) = ?s"
    by (cases "?p @ D"; auto simp: is_sign_def)+
  have sgn: "(- 1) ^ length (filter (\<lambda>c. c = 0x2d) ?s) * int V = v" by (simp add: V_def)
  show "text_spec False seps' r (number_text upper sys sign seps radix precision v) = Scanned v"
  proof (cases "r = 0")
    case False
    then have "\<not> sys \<or> radix = 10" "r = radix" using assms(2) by (auto simp: radix_found_def)
    then show ?thesis
      using False d(1,3) sgn unfolding nt text_spec_def drop Let_def
      by (elim disjE) (simp_all add: system_prefix_def)
  next
    case True
    then consider "sys" "radix = 16" | "sys" "radix = 8" | "sys" "radix = 2" | "radix = 10" "precision \<le> 1"
      using assms(2) by (auto simp: radix_found_def)
    then show ?thesis
    proof cases
      case 4
      show ?thesis
      proof (cases "v = 0")
        case True
        then have "D = [0x30]" using 4 by (simp add: D_def V_def digits_text_0)
        then show ?thesis
          using True 4 \<open>r = 0\<close> unfolding nt text_spec_def drop Let_def by (simp add: system_prefix_def)
      next
        case False
        then have "hd D \<noteq> 0x30" using h 4(2) by (auto simp: hexval_def V_def)
        then show ?thesis
          using 4 \<open>r = 0\<close> d(1,3) sgn unfolding nt text_spec_def drop Let_def by (simp add: system_prefix_def)
      qed
    next
      case 2
      then have "hd D \<notin> {0x62, 0x42}" using h(1,2) by (auto simp: hexval_def)
      then show ?thesis
        using 2 \<open>r = 0\<close> hd d(1,3) sgn unfolding nt text_spec_def drop Let_def by (simp add: system_prefix_def)
    next
      case 1
      then show ?thesis
        using \<open>r = 0\<close> d(1,3) sgn unfolding nt text_spec_def drop Let_def by (simp add: system_prefix_def)
    next
      case 3
      then show ?thesis
        using \<open>r = 0\<close> d(1,3) sgn unfolding nt text_spec_def drop Let_def by (simp add: system_prefix_def)
    qed
  qed
qed

section \<open>Properties\<close>

definition result_matches :: "u32 \<Rightarrow> int scan \<Rightarrow> parse_result \<Rightarrow> bool" where
  "result_matches flags spec r =
     (case spec of
        Scanned v \<Rightarrow> (case r of Parsed x \<Rightarrow> represents x v | _ \<Rightarrow> False)
      | Invalid \<Rightarrow> r = (if STRING_FTRY flags then Iter_done else Thrown ValueError)
      | _ \<Rightarrow> r = Undefined)"

lemma result_matches_end: "read_matches spec r \<Longrightarrow> result_matches flags spec (parse_end flags r)"
  by (auto simp: read_matches_def result_matches_def parse_end_def split: scan.splits)

lemma read_digits_spec_no_seps:
  "list_all (\<lambda>c. c \<noteq> 0x5f) s \<Longrightarrow> read_digits_spec True seps radix s = read_digits_spec False seps radix s"
proof -
  assume a: "list_all (\<lambda>c. c \<noteq> 0x5f) s"
  then have "list_all (digit_ok False radix) s = list_all (digit_ok seps radix) s"
    by (auto simp: list_all_iff digit_ok_def split: option.splits)
  then show ?thesis by (simp add: read_digits_spec_def)
qed

lemma text_spec_no_seps: "list_all (\<lambda>c. c \<noteq> 0x5f) str \<Longrightarrow> text_spec True seps radix str = text_spec False seps radix str"
proof -
  assume a: "list_all (\<lambda>c. c \<noteq> 0x5f) str"
  have d: "list_all (\<lambda>c. c \<noteq> 0x5f) (dropWhile is_sign str)"
    using a by (auto simp: list_all_iff dest: set_dropWhileD)
  have t: "list_all (\<lambda>c. c \<noteq> 0x5f) s \<Longrightarrow> list_all (\<lambda>c. c \<noteq> 0x5f) (tl s)" for s by (cases s) simp_all
  show ?thesis
    using read_digits_spec_no_seps [OF d] read_digits_spec_no_seps [OF t [OF d]] read_digits_spec_no_seps [OF t [OF t [OF d]]]
    by (simp add: text_spec_def Let_def)
qed

text \<open>
  C26: on every ASCII text without a backslash, \<open>DeeInt_FromString\<close> and \<open>DeeInt_FromAscii\<close> read what
  \<open>text_spec\<close> says: signs, the prefix 0, 0x or 0b when no radix is given, digits below the radix (none above
  \<open>f\<close>) and separators, with a \<open>ValueError\<close> (or \<open>ITER_DONE\<close>) for every other text; the integer is normalized
  and no write leaves its digits.  The two functions agree on texts without separators; the only read behind the
  end is that of a text whose last character is a separator, in a radix that is no power of two.
\<close>

theorem int_read_characterized:
  assumes "ascii_db db" "plain str" "radix = unat (drop_bit 16 raf)" "radix = 0 \<or> 2 \<le> radix \<and> radix \<le> 36"
  shows "result_matches raf (text_spec False (\<not> STRING_FNOSEPS raf) radix str) (DeeInt_FromString db str raf) \<and>
    result_matches raf (text_spec True (\<not> STRING_FNOSEPS raf) radix str) (DeeInt_FromAscii db str raf) \<and>
    (if list_all (\<lambda>c. c \<noteq> 0x5f) str then text_spec True (\<not> STRING_FNOSEPS raf) radix str = text_spec False (\<not> STRING_FNOSEPS raf) radix str
     else True)"
  unfolding DeeInt_FromString_def DeeInt_FromAscii_def
  using result_matches_end [OF parse_int_plain [OF assms]] text_spec_no_seps by auto

definition ascii_only :: unidb where
  "ascii_only =
     \<lparr>Descriptor = (\<lambda>ch.
        case if ch < 0x80 then hexval (ucast ch) else None of
          Some d \<Rightarrow> \<lparr>ut_numeric = True, ut_xdigit = True, ut_lf = False, ut_digit_idx = of_nat d\<rparr>
        | None \<Rightarrow> \<lparr>ut_numeric = False, ut_xdigit = False, ut_lf = (ch = 0x0a \<or> ch = 0x0d), ut_digit_idx = 0xff\<rparr>),
      GetNumericIdx8 = (\<lambda>i. i)\<rparr>"

lemma ascii_only_db: "ascii_db ascii_only"
  unfolding ascii_db_def
proof (intro allI impI)
  fix c :: u8
  assume c: "c < 0x80"
  then have u: "unat c < 128" by (simp add: word_less_nat_alt)
  have "(ucast c :: u32) < 0x80" "ucast (ucast c :: u32) = c"
      "(ucast c :: u32) = 0x0a \<longleftrightarrow> c = 0x0a" "(ucast c :: u32) = 0x0d \<longleftrightarrow> c = 0x0d"
    using u by (simp_all add: word_less_nat_alt word_unat_eq_iff unat_ucast_word)
  then show "ascii_traits c (Descriptor ascii_only (ucast c))"
    using asdigit_16 [of c] by (auto simp: ascii_traits_def ascii_only_def hexval_def split: option.splits)
qed

theorem int_read_characterized_witness:
  "result_matches 0 (Scanned (- 0x1f)) (DeeInt_FromString ascii_only [0x2d, 0x30, 0x78, 0x31, 0x5f, 0x66] 0) \<and>
   DeeInt_FromAscii ascii_only [0x2d, 0x30, 0x78, 0x31, 0x5f, 0x66] 0 = Thrown ValueError"
proof -
  let ?s = "[0x2d, 0x30, 0x78, 0x31, 0x5f, 0x66] :: u8 list"
  have p: "plain ?s" by simp
  have a: "text_spec False True 0 ?s = Scanned (- 0x1f)" and b: "text_spec True True 0 ?s = Invalid"
    by (simp_all add: text_spec_def is_sign_def read_digits_spec_def digit_ok_def hexval_def text_digits_def digits_value_def)
  show ?thesis
    using int_read_characterized [OF ascii_only_db p, of 0 0]
    by (simp add: a b STRING_FNOSEPS_def STRING_FTRY_def result_matches_def [of _ Invalid])
qed

text \<open>
  C25: reading inverts printing.  The text that \<open>DeeInt_Print\<close> writes for a normalized integer, with any sign,
  precision, case, prefix and separators, is read by \<open>DeeInt_FromString\<close> as the same integer, when the radix
  is the one printed (no prefix) or is found from the prefix of 2, 8 and 16 or the first digit of 10.
\<close>

theorem int_print_read:
  assumes "int_ok x" "\<bar>ob_size x\<bar> \<le> (2 ^ 63 - 1) div 30" "precision < 2 ^ 64" "ascii_db db"
    and "radix = unat (drop_bit 16 pf)" "radix \<in> radices" "r = unat (drop_bit 16 sf)"
    and "radix_found (PRINT_FNUMSYS pf) radix precision r" "\<not> (PRINT_FSEPS pf \<and> STRING_FNOSEPS sf)"
  shows "\<exists>str y. DeeInt_Print x pf precision = Inr (Some str) \<and> DeeInt_FromString db str sf = Parsed y \<and> represents y (int_val x)"
proof -
  let ?str = "number_text (PRINT_FUPPER pf) (PRINT_FNUMSYS pf) (PRINT_FSIGN pf) (PRINT_FSEPS pf) radix precision (int_val x)"
  have print: "DeeInt_Print x pf precision = Inr (Some ?str)"
    using Print_spec [OF assms(1-3), of pf] assms(5,6) by (simp add: print_spec_def)
  have seps: "PRINT_FSEPS pf \<longrightarrow> \<not> STRING_FNOSEPS sf" using assms(9) by simp
  note read = number_text_read [OF assms(6,8) seps, of "PRINT_FUPPER pf" "PRINT_FSIGN pf" "int_val x"]
  have "r = 0 \<or> 2 \<le> r \<and> r \<le> 36" using assms(6,8) by (auto simp: radix_found_def radices_def split: if_splits)
  from result_matches_end [OF parse_int_plain [OF assms(4) read(1) assms(7) this, of False]]
  have "result_matches sf (Scanned (int_val x)) (DeeInt_FromString db ?str sf)"
    by (simp add: read(2) DeeInt_FromString_def)
  then show ?thesis
    using print by (auto simp: result_matches_def split: parse_result.splits)
qed

theorem int_print_read_witness:
  "\<exists>str y. DeeInt_Print \<lparr>ob_size = -2, ob_digit = [5, 1]\<rparr> (Dee_INT_PRINT 16 0xe) 20 = Inr (Some str) \<and>
     DeeInt_FromString ascii_only str 0 = Parsed y \<and> represents y (- 1073741829)"
proof -
  have x: "int_ok \<lparr>ob_size = -2, ob_digit = [5, 1]\<rparr>" "int_val \<lparr>ob_size = -2, ob_digit = [5, 1]\<rparr> = - 1073741829"
    by (simp_all add: int_eval)
  have f: "unat (drop_bit 16 (Dee_INT_PRINT 16 0xe)) = 16" "PRINT_FNUMSYS (Dee_INT_PRINT 16 0xe)"
    by (simp_all add: Dee_INT_PRINT_def PRINT_FNUMSYS_def)
  show ?thesis
    using int_print_read [OF x(1) _ _ ascii_only_db, of 20 16 "Dee_INT_PRINT 16 0xe" 0 0]
    by (simp add: f x(2) radices_def radix_found_def STRING_FNOSEPS_def)
qed

text \<open>A linefeed escaped in front of the digits takes the character behind it along.\<close>

lemma escaped_linefeed:
  assumes "ascii_db db" "plain s" "STRING_FESCAPED flags"
  shows "sign_prefix_loop False db flags (0x5c # 0x0a # c # s) negative = sign_prefix_loop False db flags s negative"
proof -
  have "Dee_unicode_readutf8_n (0x0a # c # s) = (0x0a, c # s)"
    using read_sequence(1) [OF ascii_sequence [of "0x0a"], of "c # s"] by (simp add: word_less_nat_alt)
  moreover have "DeeUni_IsLF db 0x0a"
    using ascii_traitsD [OF assms(1), of "0x0a"] by (simp add: ascii_traits_def DeeUni_IsLF_def word_less_nat_alt)
  ultimately show ?thesis
    using assms(3) by (subst sign_prefix_loop.simps) (simp add: skip_lf_def skip_linefeed_def)
qed



end
