(* ===== verification/IntAtoi.thy ===== *)
theory IntAtoi
  imports IntParse
begin

text \<open>
  Reading machine integers: \<open>Dee_Atoi64_impl\<close> and \<open>Dee_Atoi8\<close> to \<open>Dee_Atoi64\<close> of src/deemon/objects/int.c.
  The value stored is a word, signed or not by the flag \<open>Dee_ATOI_STRING_FSIGNED\<close>.
\<close>

section \<open>Dee\_Atoi64\_impl\<close>

definition ATOI_FSIGNED :: "u32 \<Rightarrow> bool" where "ATOI_FSIGNED flags = (flags AND 0x8 \<noteq> 0)"

definition INT64_MAX :: u64 where "INT64_MAX = 0x7fffffffffffffff"

text \<open>The outcome of a call: 0 and the value, 1, or -1 and the error.\<close>

datatype 'a atoi_result = Atoi_value 'a | Atoi_failed | Atoi_error dee_error | Atoi_undefined

text \<open>
  The loop over the digits, \<open>None\<close> on overflow.  \<open>iter\<close> is the position in the text from \<open>start\<close>.  A linefeed
  may move it back, so the loop has fuel, and \<open>Endless\<close> is the result without any.
\<close>

fun atoi_loop :: "unidb \<Rightarrow> u32 \<Rightarrow> nat \<Rightarrow> u8 list \<Rightarrow> nat \<Rightarrow> nat \<Rightarrow> u64 \<Rightarrow> u64 option scan" where
  "atoi_loop db flags radix start 0 iter res = Endless"
| "atoi_loop db flags radix start (Suc fuel) iter res =
     (if \<not> iter < length start then Scanned (Some res)
      else
        let (ch, rest) = Dee_unicode_readutf8_n (drop iter start);
            iter = length start - length rest;
            traits = Descriptor db ch
        in if ut_numeric traits then
             (let dig = traits_digit db traits
              in if unat dig \<ge> radix then Invalid
                 else if unat res * radix \<ge> 2 ^ 64 then Scanned None
                 else if unat (res * of_nat radix) + unat dig \<ge> 2 ^ 64 then Scanned None
                 else atoi_loop db flags radix start fuel iter (res * of_nat radix + ucast dig))
           else if DeeUni_IsLF db ch \<and> STRING_FESCAPED flags then
             (if iter = 0 then Invalid
              else if start ! (iter - 1) = 0x5c then atoi_loop db flags radix start fuel (iter - 1) res
              else if start ! (iter - 1) = 0x0d \<and> ch = 0x0a \<and> iter \<noteq> 1 \<and> start ! (iter - 2) = 0x5c
              then atoi_loop db flags radix start fuel (iter - 2) res
              else Invalid)
           else Invalid)"

declare atoi_loop.simps [simp del]

definition atoi_digits :: "unidb \<Rightarrow> u32 \<Rightarrow> bool \<Rightarrow> (nat \<times> u8 list) option \<Rightarrow> u64 option scan" where
  "atoi_digits db flags negative r =
     (case r of
        None \<Rightarrow> Scanned (Some 0)
      | Some (radix, start) \<Rightarrow>
          if start = [] then Invalid
          else sbind (atoi_loop db flags radix start (length start + 1) 0 0) (\<lambda>res.
            case res of
              None \<Rightarrow> Scanned None
            | Some res \<Rightarrow>
                if negative then if res > INT64_MAX then Scanned None else Scanned (Some (- res))
                else Scanned (Some res)))"

definition atoi_text :: "unidb \<Rightarrow> u8 list \<Rightarrow> u32 \<Rightarrow> u64 option scan" where
  "atoi_text db str flags =
     (let radix = unat (drop_bit 16 flags)
      in sbind (sign_prefix_loop False db flags str False) (\<lambda>(negative, start).
           if negative \<and> \<not> ATOI_FSIGNED flags then Scanned None
           else sbind (if radix = 0 then auto_radix False db flags start else Scanned (Some (radix, start)))
             (atoi_digits db flags negative)))"

text \<open>\<open>err_overflow\<close>: the error shows the integer, which is read again\<close>

definition err_overflow :: "unidb \<Rightarrow> u8 list \<Rightarrow> u32 \<Rightarrow> 'a atoi_result" where
  "err_overflow db str flags =
     (if STRING_FTRY flags then Atoi_failed
      else case DeeInt_FromString db str flags of
             Parsed x \<Rightarrow> Atoi_error IntegerOverflow
           | Thrown e \<Rightarrow> Atoi_error e
           | Iter_done \<Rightarrow> Atoi_error IntegerOverflow
           | Undefined \<Rightarrow> Atoi_undefined)"

definition Dee_Atoi64_impl :: "unidb \<Rightarrow> u8 list \<Rightarrow> u32 \<Rightarrow> u64 atoi_result" where
  "Dee_Atoi64_impl db str flags =
     (case atoi_text db str flags of
        Scanned (Some v) \<Rightarrow> Atoi_value v
      | Scanned None \<Rightarrow> err_overflow db str flags
      | Invalid \<Rightarrow> if STRING_FTRY flags then Atoi_failed else Atoi_error ValueError
      | Outside \<Rightarrow> Atoi_undefined
      | Endless \<Rightarrow> Atoi_undefined)"

section \<open>The widths\<close>

definition Dee_Atoi64 :: "unidb \<Rightarrow> u8 list \<Rightarrow> u32 \<Rightarrow> u64 atoi_result" where
  "Dee_Atoi64 db str flags = Dee_Atoi64_impl db str flags"

definition Dee_Atoi32 :: "unidb \<Rightarrow> u8 list \<Rightarrow> u32 \<Rightarrow> u32 atoi_result" where
  "Dee_Atoi32 db str flags =
     (case Dee_Atoi64_impl db str flags of
        Atoi_value val64 \<Rightarrow>
          if ATOI_FSIGNED flags then
            if val64 <s - 0x80000000 \<or> 0x7fffffff <s val64 then Atoi_error IntegerOverflow else Atoi_value (ucast val64)
          else if val64 > 0xffffffff then Atoi_error IntegerOverflow else Atoi_value (ucast val64)
      | Atoi_failed \<Rightarrow> Atoi_failed | Atoi_error e \<Rightarrow> Atoi_error e | Atoi_undefined \<Rightarrow> Atoi_undefined)"

definition Dee_Atoi16 :: "unidb \<Rightarrow> u8 list \<Rightarrow> u32 \<Rightarrow> 16 word atoi_result" where
  "Dee_Atoi16 db str flags =
     (case Dee_Atoi64_impl db str flags of
        Atoi_value val64 \<Rightarrow>
          if ATOI_FSIGNED flags then
            if val64 <s - 0x8000 \<or> 0x7fff <s val64 then Atoi_error IntegerOverflow else Atoi_value (ucast val64)
          else if val64 > 0xffff then Atoi_error IntegerOverflow else Atoi_value (ucast val64)
      | Atoi_failed \<Rightarrow> Atoi_failed | Atoi_error e \<Rightarrow> Atoi_error e | Atoi_undefined \<Rightarrow> Atoi_undefined)"

definition Dee_Atoi8 :: "unidb \<Rightarrow> u8 list \<Rightarrow> u32 \<Rightarrow> u8 atoi_result" where
  "Dee_Atoi8 db str flags =
     (case Dee_Atoi64_impl db str flags of
        Atoi_value val64 \<Rightarrow>
          if ATOI_FSIGNED flags then
            if val64 <s - 0x80 \<or> 0x7f <s val64 then Atoi_error IntegerOverflow else Atoi_value (ucast val64)
          else if val64 > 0xff then Atoi_error IntegerOverflow else Atoi_value (ucast val64)
      | Atoi_failed \<Rightarrow> Atoi_failed | Atoi_error e \<Rightarrow> Atoi_error e | Atoi_undefined \<Rightarrow> Atoi_undefined)"

section \<open>What is read\<close>

text \<open>
  The specification of an ASCII text without a backslash: \<open>None\<close> when the digits in front of the first wrong
  character do not fit into 64 bits, \<open>Some v\<close> for the integer \<open>v\<close> stored.
\<close>

definition atoi_digits_spec :: "bool \<Rightarrow> nat \<Rightarrow> u8 list \<Rightarrow> int option scan" where
  "atoi_digits_spec negative radix s =
     (let v = digits_value radix (text_digits (takeWhile (digit_ok False radix) s))
      in if s = [] then Invalid
         else if v \<ge> 2 ^ 64 then Scanned None
         else if \<not> list_all (digit_ok False radix) s then Invalid
         else if negative \<and> v \<ge> 2 ^ 63 then Scanned None
         else Scanned (Some (if negative then - int v else int v)))"

definition atoi_spec :: "bool \<Rightarrow> nat \<Rightarrow> u8 list \<Rightarrow> int option scan" where
  "atoi_spec as_signed radix str =
     (let negative = odd (length (filter (\<lambda>c. c = 0x2d) (takeWhile is_sign str))); s = dropWhile is_sign str
      in if s = [] then Invalid
         else if negative \<and> \<not> as_signed then Scanned None
         else if radix \<noteq> 0 then atoi_digits_spec negative radix s
         else if hd s \<noteq> 0x30 then atoi_digits_spec negative 10 s
         else if tl s = [] then Scanned (Some 0)
         else if hd (tl s) \<in> {0x78, 0x58} then atoi_digits_spec negative 16 (tl (tl s))
         else if hd (tl s) \<in> {0x62, 0x42} then atoi_digits_spec negative 2 (tl (tl s))
         else atoi_digits_spec negative 8 (tl s))"

text \<open>The outcome for that: an overflow is reported with the integer, so the text is read once more.\<close>

definition atoi64_spec :: "u32 \<Rightarrow> nat \<Rightarrow> u8 list \<Rightarrow> u64 atoi_result" where
  "atoi64_spec flags radix str =
     (case atoi_spec (ATOI_FSIGNED flags) radix str of
        Scanned (Some v) \<Rightarrow> Atoi_value (word_of_int v)
      | Scanned None \<Rightarrow>
          if STRING_FTRY flags then Atoi_failed
          else (case text_spec False (\<not> STRING_FNOSEPS flags) radix str of
                  Scanned v \<Rightarrow> Atoi_error IntegerOverflow
                | Invalid \<Rightarrow> Atoi_error ValueError
                | _ \<Rightarrow> Atoi_undefined)
      | _ \<Rightarrow> if STRING_FTRY flags then Atoi_failed else Atoi_error ValueError)"

definition atoi_narrow :: "bool \<Rightarrow> u64 atoi_result \<Rightarrow> 'a::len word atoi_result" where
  "atoi_narrow as_signed r =
     (case r of
        Atoi_value w \<Rightarrow>
          if (if as_signed then - (2 ^ (LENGTH('a) - 1)) \<le> sint w \<and> sint w < 2 ^ (LENGTH('a) - 1) else uint w < 2 ^ LENGTH('a))
          then Atoi_value (ucast w) else Atoi_error IntegerOverflow
      | Atoi_failed \<Rightarrow> Atoi_failed | Atoi_error e \<Rightarrow> Atoi_error e | Atoi_undefined \<Rightarrow> Atoi_undefined)"

section \<open>The loop\<close>

lemma ascii_readutf8_n: "c < 0x80 \<Longrightarrow> Dee_unicode_readutf8_n (c # s) = (ucast c, s)"
  using read_sequence(1) [OF ascii_sequence, of c s] by simp

lemma traits_digit_ascii:
  assumes "ascii_db db" "c < 0x80" "hexval c = Some d"
  shows "unat (traits_digit db (Descriptor db (ucast c))) = d"
  using ascii_traitsD [OF assms(1,2)] hexval_less [OF assms(3)] assms(3)
  by (auto simp: traits_digit_def Let_def ascii_traits_def word_le_nat_alt)

text \<open>The value reached behind the digits \<open>ds\<close>, which only grows.\<close>

definition value_from :: "nat \<Rightarrow> nat \<Rightarrow> nat list \<Rightarrow> nat" where
  "value_from radix v ds = foldl (\<lambda>v d. v * radix + d) v ds"

lemma value_from_simps [simp]:
  "value_from radix v [] = v" "value_from radix v (d # ds) = value_from radix (v * radix + d) ds"
  by (simp_all add: value_from_def)

lemma value_from_ge: "1 \<le> radix \<Longrightarrow> v \<le> value_from radix v ds"
proof (induction ds arbitrary: v)
  case (Cons d ds)
  have "v \<le> v * radix + d" using Cons.prems by (simp add: trans_le_add1)
  also have "\<dots> \<le> value_from radix (v * radix + d) ds" by (rule Cons.IH [OF Cons.prems])
  finally show ?case by simp
qed simp

lemma text_digits_Cons:
  "text_digits (c # s) = (case hexval c of None \<Rightarrow> text_digits s | Some d \<Rightarrow> d # text_digits s)"
  by (simp add: text_digits_def split: option.splits)

lemma unat_u64: "unat (w :: u64) < 2 ^ 64"
proof -
  have "unat w < 2 ^ LENGTH(64)" by (rule unsigned_less)
  then show ?thesis by simp
qed

lemma atoi_step:
  fixes res :: u64
  assumes "unat res * radix < 2 ^ 64" "radix \<le> 36"
  shows "unat (res * of_nat radix) = unat res * radix"
    and "unat (res * of_nat radix) + unat (dig :: u8) < 2 ^ 64 \<Longrightarrow>
      unat (res * of_nat radix + ucast dig) = unat res * radix + unat dig"
proof -
  have r: "unat (of_nat radix :: u64) = radix" using assms(2) by (simp add: unat_of_nat)
  show m: "unat (res * of_nat radix) = unat res * radix"
    using assms(1) by (simp add: unat_word_ariths r)
  have d: "unat (ucast dig :: u64) = unat dig" by (simp add: unat_ucast_up)
  show "unat (res * of_nat radix + ucast dig) = unat res * radix + unat dig"
    if "unat (res * of_nat radix) + unat dig < 2 ^ 64"
    using that m by (simp add: unat_word_ariths(1) d)
qed

lemma atoi_loop_plain:
  assumes "ascii_db db" "2 \<le> radix" "radix \<le> 36"
  shows "plain s \<Longrightarrow> drop iter start = s \<Longrightarrow> length s < fuel \<Longrightarrow>
    atoi_loop db flags radix start fuel iter res =
      (if value_from radix (unat res) (text_digits (takeWhile (digit_ok False radix) s)) \<ge> 2 ^ 64 then Scanned None
       else if \<not> list_all (digit_ok False radix) s then Invalid
       else Scanned (Some (of_nat (value_from radix (unat res) (text_digits s)))))"
proof (induction s arbitrary: iter res fuel)
  case Nil
  then obtain f where "fuel = Suc f" by (cases fuel) simp_all
  moreover have "unat res < 2 ^ 64" by (rule unat_u64)
  ultimately show ?case using Nil by (simp add: atoi_loop.simps text_digits_def not_le [symmetric])
next
  case (Cons c s)
  obtain f where f: "fuel = Suc f" "length s < f" using Cons.prems(3) by (cases fuel) simp_all
  have c: "c < 0x80" "c \<noteq> 0x5c" "plain s" using Cons.prems(1) by simp_all
  have iter: "iter < length start" using Cons.prems(2) by (cases "iter < length start") simp_all
  have rest: "drop (iter + 1) start = s" "length start - length s = iter + 1" "start ! iter = c"
    using Cons.prems(2) iter by (auto simp: Cons_nth_drop_Suc [symmetric])
  have loop: "atoi_loop db flags radix start fuel iter res =
      (let traits = Descriptor db (ucast c)
       in if ut_numeric traits then
            (let dig = traits_digit db traits
             in if unat dig \<ge> radix then Invalid
                else if unat res * radix \<ge> 2 ^ 64 then Scanned None
                else if unat (res * of_nat radix) + unat dig \<ge> 2 ^ 64 then Scanned None
                else atoi_loop db flags radix start f (iter + 1) (res * of_nat radix + ucast dig))
          else Invalid)"
    unfolding f(1) atoi_loop.simps(2) Cons.prems(2) ascii_readutf8_n [OF c(1)] prod.case Let_def rest(2)
    using c(1,2) iter rest by (cases "c = 0x0d") (simp_all add: DeeUni_IsLF_def)
  have lt: "unat res < 2 ^ 64" by (rule unat_u64)
  show ?case
  proof (cases "hexval c")
    case None
    then have "\<not> ut_numeric (Descriptor db (ucast c))"
      using ascii_traitsD [OF assms(1) c(1)] by (simp add: ascii_traits_def)
    then show ?thesis using None lt unfolding loop by (simp add: digit_ok_def text_digits_def)
  next
    case (Some d)
    let ?dig = "traits_digit db (Descriptor db (ucast c))"
    have dig: "unat ?dig = d" by (rule traits_digit_ascii [OF assms(1) c(1) Some])
    have num: "ut_numeric (Descriptor db (ucast c))"
      using ascii_traitsD [OF assms(1) c(1)] Some by (simp add: ascii_traits_def)
    show ?thesis
    proof (cases "d < radix")
      case False
      then show ?thesis using lt num dig Some unfolding loop by (simp add: digit_ok_def text_digits_def)
    next
      case True
      let ?v = "unat res * radix + d"
      let ?ds = "text_digits (takeWhile (digit_ok False radix) s)"
      have ok: "digit_ok False radix c" using Some True by (simp add: digit_ok_def)
      have ge: "?v \<le> value_from radix ?v ?ds" by (rule value_from_ge) (use assms(2) in simp)
      show ?thesis
      proof (cases "?v \<ge> 2 ^ 64")
        case big: True
        have "unat (res * of_nat radix) + unat ?dig \<ge> 2 ^ 64" if "\<not> unat res * radix \<ge> 2 ^ 64"
          using atoi_step(1) [of res radix] that assms(3) big dig by simp
        then have "atoi_loop db flags radix start fuel iter res = Scanned None"
          unfolding loop using num True dig by (simp add: Let_def)
        then show ?thesis using ok ge big Some by (simp add: text_digits_Cons)
      next
        case small: False
        then have m: "unat res * radix < 2 ^ 64" by simp
        have a: "unat (res * of_nat radix) + unat ?dig < 2 ^ 64"
          using small atoi_step(1) [OF m assms(3)] dig by simp
        have v: "unat (res * of_nat radix + ucast ?dig) = ?v"
          using atoi_step(2) [OF m assms(3) a] dig by simp
        have "atoi_loop db flags radix start fuel iter res =
            atoi_loop db flags radix start f (iter + 1) (res * of_nat radix + ucast ?dig)"
          unfolding loop using num True dig m a by (simp add: Let_def not_le)
        also note Cons.IH [OF c(3) rest(1) f(2), of "res * of_nat radix + ucast ?dig", unfolded v]
        finally show ?thesis using ok Some by (simp add: text_digits_Cons)
      qed
    qed
  qed
qed

section \<open>The text\<close>

lemma atoi_digits_plain:
  assumes "ascii_db db" "plain start" "2 \<le> radix" "radix \<le> 36"
  shows "atoi_digits db flags negative (Some (radix, start)) =
    sbind (atoi_digits_spec negative radix start) (\<lambda>v. Scanned (map_option word_of_int v))"
proof -
  let ?ok = "digit_ok False radix"
  let ?v = "digits_value radix (text_digits (takeWhile ?ok start))"
  have v: "value_from radix 0 ds = digits_value radix ds" for ds by (simp add: value_from_def digits_value_def)
  have loop: "atoi_loop db flags radix start (Suc (length start)) 0 0 =
      (if ?v \<ge> 2 ^ 64 then Scanned None else if \<not> list_all ?ok start then Invalid
       else Scanned (Some (of_nat (digits_value radix (text_digits start)))))"
    using atoi_loop_plain [OF assms(1,3,4,2), of 0 start "length start + 1" flags 0] by (simp add: v)
  show ?thesis
  proof (cases "start \<noteq> [] \<and> ?v < 2 ^ 64 \<and> list_all ?ok start")
    case False
    then show ?thesis unfolding atoi_digits_def by (auto simp: loop atoi_digits_spec_def not_le Let_def)
  next
    case True
    then have t: "takeWhile ?ok start = start" by (simp add: list_all_iff)
    let ?n = "digits_value radix (text_digits start)"
    have n: "?n < 2 ^ 64" using True t by simp
    have "(of_nat ?n :: u64) > INT64_MAX \<longleftrightarrow> ?n \<ge> 2 ^ 63"
      using n by (simp add: INT64_MAX_def word_less_nat_alt unat_of_nat) linarith
    then show ?thesis
      unfolding atoi_digits_def atoi_digits_spec_def Let_def option.case prod.case loop [unfolded Suc_eq_plus1] t using True n by simp
  qed
qed

lemma atoi_text_plain:
  assumes "ascii_db db" "plain str" "radix = unat (drop_bit 16 flags)" "radix = 0 \<or> 2 \<le> radix \<and> radix \<le> 36"
  shows "atoi_text db str flags =
    sbind (atoi_spec (ATOI_FSIGNED flags) radix str) (\<lambda>v. Scanned (map_option word_of_int v))"
proof (cases "dropWhile is_sign str")
  case Nil
  then show ?thesis using assms(2) by (simp add: atoi_text_def atoi_spec_def sign_prefix_plain)
next
  case (Cons c s)
  define neg where "neg = odd (length (filter (\<lambda>c. c = 0x2d) (takeWhile is_sign str)))"
  have p: "plain (c # s)" "plain s" "plain (tl s)"
    using plain_dropWhile [OF assms(2), of is_sign] Cons by (simp_all add: plain_tl)
  note digits = atoi_digits_plain [OF assms(1), where flags = flags and negative = neg]
  have l: "atoi_text db str flags =
      (if neg \<and> \<not> ATOI_FSIGNED flags then Scanned None
       else sbind (if radix = 0 then auto_radix False db flags (c # s) else Scanned (Some (radix, c # s)))
         (atoi_digits db flags neg))"
    using assms(2,3) Cons by (simp add: atoi_text_def sign_prefix_plain Let_def neg_def)
  show ?thesis
  proof (cases "radix = 0")
    case False
    then show ?thesis
      unfolding l atoi_spec_def Let_def Cons neg_def [symmetric] using digits [OF p(1), of radix] assms(4)
      by (cases neg) simp_all
  next
    case True
    show ?thesis
      unfolding l auto_radix_plain [OF assms(1) p(1)] atoi_spec_def Let_def Cons neg_def [symmetric]
      using digits [OF p(1), of 10] digits [OF p(2), of 8] digits [OF p(3), of 16] digits [OF p(3), of 2]
      by (cases neg) (simp_all add: True atoi_digits_def [of _ _ _ None])
  qed
qed

lemma atoi_digits_spec_ends:
  "(\<exists>v. atoi_digits_spec negative radix s = Scanned v) \<or> atoi_digits_spec negative radix s = Invalid"
  by (simp add: atoi_digits_spec_def Let_def)

lemma atoi_spec_ends: "(\<exists>v. atoi_spec as_signed radix str = Scanned v) \<or> atoi_spec as_signed radix str = Invalid"
  using atoi_digits_spec_ends by (simp add: atoi_spec_def Let_def)

lemma atoi64_plain:
  assumes "ascii_db db" "plain str" "radix = unat (drop_bit 16 flags)" "radix = 0 \<or> 2 \<le> radix \<and> radix \<le> 36"
  shows "Dee_Atoi64 db str flags = atoi64_spec flags radix str"
proof -
  have read: "result_matches flags (text_spec False (\<not> STRING_FNOSEPS flags) radix str) (DeeInt_FromString db str flags)"
    unfolding DeeInt_FromString_def by (rule result_matches_end [OF parse_int_plain [OF assms]])
  have err: "err_overflow db str flags =
      (if STRING_FTRY flags then Atoi_failed
       else case text_spec False (\<not> STRING_FNOSEPS flags) radix str of
              Scanned v \<Rightarrow> Atoi_error IntegerOverflow | Invalid \<Rightarrow> Atoi_error ValueError | _ \<Rightarrow> Atoi_undefined)"
    using read by (auto simp: err_overflow_def result_matches_def split: scan.splits parse_result.splits)
  from atoi_spec_ends [of "ATOI_FSIGNED flags" radix str] show ?thesis
  proof
    assume "\<exists>v. atoi_spec (ATOI_FSIGNED flags) radix str = Scanned v"
    then obtain v where v: "atoi_spec (ATOI_FSIGNED flags) radix str = Scanned v" by blast
    show ?thesis
      unfolding Dee_Atoi64_def Dee_Atoi64_impl_def atoi_text_plain [OF assms] atoi64_spec_def v err by (cases v) simp_all
  next
    assume v: "atoi_spec (ATOI_FSIGNED flags) radix str = Invalid"
    show ?thesis
      unfolding Dee_Atoi64_def Dee_Atoi64_impl_def atoi_text_plain [OF assms] atoi64_spec_def v by simp
  qed
qed

section \<open>Properties\<close>

lemma atoi_digits_spec_value:
  assumes "atoi_digits_spec negative radix s = Scanned (Some v)"
  shows "read_digits_spec False seps radix s = Scanned (nat \<bar>v\<bar>)" "v = (if negative then - 1 else 1) * int (nat \<bar>v\<bar>)"
    "- (2 ^ 63) < v" "v < 2 ^ 64" "negative \<or> 0 \<le> v"
proof -
  let ?n = "digits_value radix (text_digits s)"
  have s: "s \<noteq> []" "list_all (digit_ok False radix) s"
    using assms by (auto simp: atoi_digits_spec_def Let_def split: if_splits)
  then have t: "takeWhile (digit_ok False radix) s = s" by (simp add: list_all_iff)
  have v: "v = (if negative then - int ?n else int ?n)" "?n < 2 ^ 64" "negative \<longrightarrow> ?n < 2 ^ 63"
    using assms s by (auto simp: atoi_digits_spec_def Let_def t split: if_splits)
  have ok: "list_all (digit_ok q radix) s" for q
    using s(2) by (auto simp: list_all_iff digit_ok_def split: option.splits)
  have "digit_ok False radix (last s)" using s by (simp add: list_all_iff)
  then have "last s \<noteq> 0x5f" by (auto simp: digit_ok_def)
  then show "read_digits_spec False seps radix s = Scanned (nat \<bar>v\<bar>)"
    using s ok v(1) by (simp add: read_digits_spec_def)
  show "v = (if negative then - 1 else 1) * int (nat \<bar>v\<bar>)" "- (2 ^ 63) < v" "v < 2 ^ 64" "negative \<or> 0 \<le> v"
    using v by (auto split: if_splits)
qed

lemma atoi_spec_value:
  assumes "atoi_spec as_signed radix str = Scanned (Some v)"
  shows "text_spec False seps radix str = Scanned v \<and> - (2 ^ 63) < v \<and> v < 2 ^ 64 \<and> (as_signed \<or> 0 \<le> v)"
proof -
  let ?k = "length (filter (\<lambda>c. c = 0x2d) (takeWhile is_sign str))"
  have sgn: "(- 1) ^ ?k = (if odd ?k then - 1 else 1 :: int)" by simp
  have d: "sbind (read_digits_spec False seps r s) (\<lambda>n. Scanned ((if odd ?k then - 1 else 1) * int n)) = Scanned v
      \<and> - (2 ^ 63) < v \<and> v < 2 ^ 64 \<and> (odd ?k \<or> 0 \<le> v)"
    if "atoi_digits_spec (odd ?k) r s = Scanned (Some v)" for r s
    using atoi_digits_spec_value [OF that] by simp
  show ?thesis
    using assms unfolding atoi_spec_def text_spec_def Let_def sgn
    by (auto split: if_splits dest!: d)
qed

text \<open>
  C28: reading machine integers.  On every ASCII text without a backslash \<open>Dee_Atoi64\<close> accepts signs, the
  prefix and digits, no separators, and reports the overflow of the digits in front of the first wrong
  character; the text accepted is one that \<open>DeeInt_FromString\<close> reads as the same integer, which lies strictly
  between \<open>-2\<^sup>6\<^sup>3\<close> and \<open>2\<^sup>6\<^sup>4\<close>.  So a signed reader rejects the most negative value and stores a value from \<open>2\<^sup>6\<^sup>3\<close>
  on as a negative one.  The narrower readers test the stored 64 bits against their range, and report an
  overflow of it as an error also when asked only to try.
\<close>

theorem atoi_characterized:
  assumes "ascii_db db" "plain str" "radix = unat (drop_bit 16 flags)" "radix = 0 \<or> 2 \<le> radix \<and> radix \<le> 36"
  shows "Dee_Atoi64 db str flags = atoi64_spec flags radix str
    \<and> Dee_Atoi32 db str flags = atoi_narrow (ATOI_FSIGNED flags) (atoi64_spec flags radix str)
    \<and> Dee_Atoi16 db str flags = atoi_narrow (ATOI_FSIGNED flags) (atoi64_spec flags radix str)
    \<and> Dee_Atoi8 db str flags = atoi_narrow (ATOI_FSIGNED flags) (atoi64_spec flags radix str)
    \<and> (case atoi_spec (ATOI_FSIGNED flags) radix str of
         Scanned (Some v) \<Rightarrow>
           text_spec False (\<not> STRING_FNOSEPS flags) radix str = Scanned v
           \<and> - (2 ^ 63) < v \<and> v < 2 ^ 64 \<and> (ATOI_FSIGNED flags \<or> 0 \<le> v)
       | _ \<Rightarrow> True)"
proof (intro conjI)
  note a = atoi64_plain [OF assms]
  show "Dee_Atoi64 db str flags = atoi64_spec flags radix str" by (rule a)
  have sless: "w <s w' \<longleftrightarrow> sint w < sint w'" for w w' :: u64 by (rule word_sless_alt)
  have less: "w < w' \<longleftrightarrow> uint w < uint w'" for w w' :: u64 by (rule word_less_def)
  note defs = Dee_Atoi64_def [symmetric] a atoi_narrow_def sless less
  show "Dee_Atoi32 db str flags = atoi_narrow (ATOI_FSIGNED flags) (atoi64_spec flags radix str)"
    unfolding Dee_Atoi32_def defs by (cases "atoi64_spec flags radix str") auto
  show "Dee_Atoi16 db str flags = atoi_narrow (ATOI_FSIGNED flags) (atoi64_spec flags radix str)"
    unfolding Dee_Atoi16_def defs by (cases "atoi64_spec flags radix str") auto
  show "Dee_Atoi8 db str flags = atoi_narrow (ATOI_FSIGNED flags) (atoi64_spec flags radix str)"
    unfolding Dee_Atoi8_def defs by (cases "atoi64_spec flags radix str") auto
  show "case atoi_spec (ATOI_FSIGNED flags) radix str of
         Scanned (Some v) \<Rightarrow>
           text_spec False (\<not> STRING_FNOSEPS flags) radix str = Scanned v
           \<and> - (2 ^ 63) < v \<and> v < 2 ^ 64 \<and> (ATOI_FSIGNED flags \<or> 0 \<le> v)
       | _ \<Rightarrow> True"
    using atoi_spec_value by (auto split: scan.splits option.splits)
qed

text \<open>
  The largest unsigned value read as a signed byte, the most negative value, and 300 to be tried as an
  unsigned byte.
\<close>

theorem atoi_characterized_witness:
  "Dee_Atoi8 ascii_only [0x31, 0x38, 0x34, 0x34, 0x36, 0x37, 0x34, 0x34, 0x30, 0x37,
      0x33, 0x37, 0x30, 0x39, 0x35, 0x35, 0x31, 0x36, 0x31, 0x35] (Dee_INT_STRING 10 8)
     = Atoi_value (- 1)
   \<and> Dee_Atoi64 ascii_only [0x2d, 0x39, 0x32, 0x32, 0x33, 0x33, 0x37, 0x32, 0x30, 0x33,
      0x36, 0x38, 0x35, 0x34, 0x37, 0x37, 0x35, 0x38, 0x30, 0x38] (Dee_INT_STRING 10 8)
     = Atoi_error IntegerOverflow
   \<and> Dee_Atoi8 ascii_only [0x33, 0x30, 0x30] (Dee_INT_STRING 10 2) = Atoi_error IntegerOverflow"
proof -
  have f: "unat (drop_bit 16 (Dee_INT_STRING 10 8)) = 10" "ATOI_FSIGNED (Dee_INT_STRING 10 8)"
    "\<not> STRING_FTRY (Dee_INT_STRING 10 8)"
    "unat (drop_bit 16 (Dee_INT_STRING 10 2)) = 10" "\<not> ATOI_FSIGNED (Dee_INT_STRING 10 2)"
    by (simp_all add: Dee_INT_STRING_def ATOI_FSIGNED_def STRING_FTRY_def)
  note eval = atoi64_spec_def atoi_spec_def atoi_digits_spec_def is_sign_def digit_ok_def hexval_def text_digits_def
    digits_value_def Let_def
  have 1: "atoi64_spec (Dee_INT_STRING 10 8) 10 [0x31, 0x38, 0x34, 0x34, 0x36, 0x37, 0x34, 0x34, 0x30, 0x37,
      0x33, 0x37, 0x30, 0x39, 0x35, 0x35, 0x31, 0x36, 0x31, 0x35] = Atoi_value (- 1)"
    by (simp add: eval f)
  have 2: "atoi64_spec (Dee_INT_STRING 10 8) 10 [0x2d, 0x39, 0x32, 0x32, 0x33, 0x33, 0x37, 0x32, 0x30, 0x33,
      0x36, 0x38, 0x35, 0x34, 0x37, 0x37, 0x35, 0x38, 0x30, 0x38] = Atoi_error IntegerOverflow"
    by (simp add: eval f text_spec_def read_digits_spec_def)
  have 3: "atoi64_spec (Dee_INT_STRING 10 2) 10 [0x33, 0x30, 0x30] = Atoi_value 300"
    by (simp add: eval f)
  have m: "ucast (- 1 :: u64) = (- 1 :: u8)" by code_simp
  show ?thesis
    using atoi_characterized [OF ascii_only_db, of "[0x31, 0x38, 0x34, 0x34, 0x36, 0x37, 0x34, 0x34, 0x30, 0x37,
      0x33, 0x37, 0x30, 0x39, 0x35, 0x35, 0x31, 0x36, 0x31, 0x35]" 10 "Dee_INT_STRING 10 8"]
      atoi_characterized [OF ascii_only_db, of "[0x2d, 0x39, 0x32, 0x32, 0x33, 0x33, 0x37, 0x32, 0x30, 0x33,
      0x36, 0x38, 0x35, 0x34, 0x37, 0x37, 0x35, 0x38, 0x30, 0x38]" 10 "Dee_INT_STRING 10 8"]
      atoi_characterized [OF ascii_only_db, of "[0x33, 0x30, 0x30]" 10 "Dee_INT_STRING 10 2"]
    by (simp add: 1 2 3 f m atoi_narrow_def)
qed

end
