(* ===== verification/Futex.thy ===== *)
theory Futex
  imports Prelude
begin

text \<open>
  Threads that share a lock word and block on it: \<open>DeeFutex_Wait*\<close> and \<open>DeeFutex_Wake*\<close>
  (include/deemon/util/futex.h, system/futex-wait.c.inl).  A thread is at a point of the code, or
  inside a wait on the word.  The steps of a wait are those its documentation allows: it blocks
  only while the word has the expected value and returns 0 when woken, when the value differs, or
  spuriously; it returns 1 when the time is up and -1 for a failure of the system; for an interrupt
  it wakes every thread of the word and returns -1 or tries again.
\<close>

type_synonym tid = nat

text \<open>
  \<open>CALL p w\<close>: about to call the wait for the value \<open>w\<close>; \<open>p\<close> is where the caller goes on.
  \<open>RET p r\<close>: the wait has returned \<open>r\<close>.
\<close>

datatype ('p, 'w) pc = AT 'p | CALL 'p 'w | ASLEEP 'p 'w | RET 'p int

type_synonym ('p, 'w) pcs = "tid \<Rightarrow> ('p, 'w) pc"

fun in_wait :: "('p, 'w) pc \<Rightarrow> bool" where
  "in_wait (AT p) = False"
| "in_wait _ = True"

fun asleep :: "('p, 'w) pc \<Rightarrow> bool" where
  "asleep (ASLEEP p w) = True"
| "asleep _ = False"

fun woken :: "('p, 'w) pc \<Rightarrow> ('p, 'w) pc" where
  "woken (ASLEEP p w) = RET p 0"
| "woken c = c"

text \<open>\<open>DeeFutex_WakeAll\<close> and \<open>DeeFutex_WakeOne\<close>.\<close>

definition wake_all :: "('p, 'w) pcs \<Rightarrow> ('p, 'w) pcs" where
  "wake_all pcs t = woken (pcs t)"

inductive wake_one :: "('p, 'w) pcs \<Rightarrow> ('p, 'w) pcs \<Rightarrow> bool" where
  wake_one_some: "asleep (pcs u) \<Longrightarrow> wake_one pcs (pcs(u := woken (pcs u)))"
| wake_one_none: "\<forall>u. \<not> asleep (pcs u) \<Longrightarrow> wake_one pcs pcs"

inductive futex_wait :: "'w \<Rightarrow> ('p, 'w) pcs \<Rightarrow> ('p, 'w) pcs \<Rightarrow> bool" for "word" where
  futex_sleep: "pcs t = CALL p w \<Longrightarrow> word = w \<Longrightarrow> futex_wait word pcs (pcs(t := ASLEEP p w))"
| futex_differs: "pcs t = CALL p w \<Longrightarrow> word \<noteq> w \<Longrightarrow> futex_wait word pcs (pcs(t := RET p 0))"
| futex_interrupt: "pcs t = CALL p w \<Longrightarrow> futex_wait word pcs ((wake_all pcs)(t := RET p (-1)))"
| futex_interrupt_again: "pcs t = CALL p w \<Longrightarrow> futex_wait word pcs (wake_all pcs)"
| futex_failed: "pcs t = CALL p w \<Longrightarrow> futex_wait word pcs (pcs(t := RET p (-1)))"
| futex_again: "pcs t = ASLEEP p w \<Longrightarrow> futex_wait word pcs (pcs(t := CALL p w))"
| futex_spurious: "pcs t = ASLEEP p w \<Longrightarrow> futex_wait word pcs (pcs(t := RET p 0))"
| futex_timeout: "pcs t = ASLEEP p w \<Longrightarrow> futex_wait word pcs (pcs(t := RET p 1))"

section \<open>What waits and wakes keep\<close>

text \<open>The thread, its point and the value it waits for stay the same.\<close>

fun same_wait :: "('p, 'w) pc \<Rightarrow> ('p, 'w) pc \<Rightarrow> bool" where
  "same_wait (AT p) c \<longleftrightarrow> c = AT p"
| "same_wait (CALL p w) c \<longleftrightarrow> c = CALL p w \<or> c = ASLEEP p w \<or> c = RET p 0 \<or> c = RET p (-1)"
| "same_wait (ASLEEP p w) c \<longleftrightarrow> c = ASLEEP p w \<or> c = CALL p w \<or> c = RET p 0 \<or> c = RET p 1"
| "same_wait (RET p r) c \<longleftrightarrow> c = RET p r"

lemma same_wait_refl [simp]: "same_wait c c"
  by (cases c) auto

lemma same_wait_woken [simp]: "same_wait c (woken c)"
  by (cases c) auto

lemma wake_all_same: "same_wait (pcs t) (wake_all pcs t)"
  by (simp add: wake_all_def)

lemma wake_one_same: "wake_one pcs pcs' \<Longrightarrow> same_wait (pcs t) (pcs' t)"
  by (cases rule: wake_one.cases) auto

lemma futex_wait_same: "futex_wait w pcs pcs' \<Longrightarrow> same_wait (pcs t) (pcs' t)"
  by (cases rule: futex_wait.cases) (auto simp: wake_all_def)

lemma same_wait_in_wait: "same_wait c c' \<Longrightarrow> in_wait c' = in_wait c"
  by (cases c) auto

lemma same_wait_AT: "same_wait c c' \<Longrightarrow> c' = AT p \<longleftrightarrow> c = AT p"
  by (cases c) auto

lemma not_asleep_woken [simp]: "\<not> asleep (woken c)"
  by (cases c) auto

lemma not_asleep_wake_all [simp]: "\<not> asleep (wake_all pcs t)"
  by (simp add: wake_all_def)

lemma wake_one_none_asleep: "wake_one pcs pcs' \<Longrightarrow> \<exists>t. asleep (pcs t) \<Longrightarrow> \<exists>t p. pcs' t = RET p 0"
  by (cases rule: wake_one.cases) (auto, metis asleep.elims(2) woken.simps(1))

lemma wake_one_asleep: "wake_one pcs pcs' \<Longrightarrow> asleep (pcs' t) \<Longrightarrow> asleep (pcs t)"
  by (erule wake_one.cases) (auto split: if_splits)

lemma futex_wait_asleep:
  "futex_wait w pcs pcs' \<Longrightarrow> asleep (pcs' t) \<Longrightarrow> asleep (pcs t) \<or> (\<exists>p. pcs t = CALL p w)"
  by (erule futex_wait.cases) (auto split: if_splits)

section \<open>Sums over the threads\<close>

definition bit_of :: "('c \<Rightarrow> bool) \<Rightarrow> 'c \<Rightarrow> nat" where
  "bit_of P c = (if P c then 1 else 0)"

lemma bit_of_simps [simp]: "P c \<Longrightarrow> bit_of P c = 1" "\<not> P c \<Longrightarrow> bit_of P c = 0" "bit_of P c = 0 \<longleftrightarrow> \<not> P c"
    "0 < bit_of P c \<longleftrightarrow> P c" "bit_of P c \<le> Suc 0"
  by (simp_all add: bit_of_def)

text \<open>The sum of a measure of program points over the threads at which it is not zero.\<close>

definition tally :: "('c \<Rightarrow> nat) \<Rightarrow> (tid \<Rightarrow> 'c) \<Rightarrow> nat" where
  "tally f pcs = (\<Sum>t | f (pcs t) \<noteq> 0. f (pcs t))"

definition tallied :: "('c \<Rightarrow> nat) \<Rightarrow> (tid \<Rightarrow> 'c) \<Rightarrow> bool" where
  "tallied f pcs \<longleftrightarrow> finite {t. f (pcs t) \<noteq> 0}"

lemma tallied_upd [simp]: "tallied f pcs \<Longrightarrow> tallied f (pcs(t := x))"
  unfolding tallied_def by (rule finite_subset [of _ "insert t {t. f (pcs t) \<noteq> 0}"]) auto

lemma tally_superset:
  assumes "finite A" "{t. f (pcs t) \<noteq> 0} \<subseteq> A"
  shows "tally f pcs = (\<Sum>t\<in>A. f (pcs t))"
  unfolding tally_def using assms by (intro sum.mono_neutral_left) auto

lemma tally_upd:
  assumes "tallied f pcs"
  shows "tally f (pcs(t := x)) + f (pcs t) = tally f pcs + f x"
proof -
  let ?A = "insert t {t. f (pcs t) \<noteq> 0}"
  have fin: "finite ?A" using assms by (simp add: tallied_def)
  have "tally f (pcs(t := x)) = (\<Sum>u\<in>?A. f ((pcs(t := x)) u))"
    by (rule tally_superset [OF fin]) auto
  also have "\<dots> = f x + (\<Sum>u\<in>?A - {t}. f ((pcs(t := x)) u))"
    using sum.remove [OF fin, of t "\<lambda>u. f ((pcs(t := x)) u)"] by simp
  also have "(\<Sum>u\<in>?A - {t}. f ((pcs(t := x)) u)) = (\<Sum>u\<in>?A - {t}. f (pcs u))"
    by (rule sum.cong) auto
  finally have 1: "tally f (pcs(t := x)) = f x + (\<Sum>u\<in>?A - {t}. f (pcs u))" .
  have "tally f pcs = (\<Sum>u\<in>?A. f (pcs u))"
    by (rule tally_superset [OF fin]) auto
  also have "\<dots> = f (pcs t) + (\<Sum>u\<in>?A - {t}. f (pcs u))"
    by (rule sum.remove [OF fin]) simp
  finally show ?thesis using 1 by simp
qed

lemma tally_cong: "(\<And>t. f (pcs' t) = f (pcs t)) \<Longrightarrow> tally f pcs' = tally f pcs"
  by (simp add: tally_def)

lemma tallied_cong: "(\<And>t. f (pcs' t) = f (pcs t)) \<Longrightarrow> tallied f pcs' = tallied f pcs"
  by (simp add: tallied_def)

lemma tally_pos: "tallied f pcs \<Longrightarrow> f (pcs t) \<le> tally f pcs"
proof -
  assume "tallied f pcs"
  then have "f (pcs t) = 0 \<or> f (pcs t) \<le> (\<Sum>t | f (pcs t) \<noteq> 0. f (pcs t))"
    by (auto simp: tallied_def intro: member_le_sum)
  then show ?thesis by (auto simp: tally_def)
qed

lemma tally_zero: "tallied f pcs \<Longrightarrow> tally f pcs = 0 \<longleftrightarrow> (\<forall>t. f (pcs t) = 0)"
  unfolding tallied_def tally_def by auto

lemma tally_initial [simp]: "f c = 0 \<Longrightarrow> tally f (\<lambda>_. c) = 0" "f c = 0 \<Longrightarrow> tallied f (\<lambda>_. c)"
  by (simp_all add: tally_def tallied_def)

lemma tally_bound:
  assumes "\<And>t. N \<le> t \<Longrightarrow> f (pcs t) = 0" "\<And>c. f c \<le> 1"
  shows "tally f pcs \<le> N"
proof -
  have "t < N" if "f (pcs t) \<noteq> 0" for t
    using that assms(1) [of t] by (rule contrapos_np) simp
  then have sub: "{t. f (pcs t) \<noteq> 0} \<subseteq> {..<N}" by blast
  have "tally f pcs = (\<Sum>t<N. f (pcs t))" using sub by (intro tally_superset) simp_all
  also have "\<dots> \<le> (\<Sum>t<N. 1)" by (rule sum_mono) (rule assms(2))
  finally show ?thesis by simp
qed

text \<open>The counters of waiting threads are \<open>uint32_t\<close>: fewer than \<open>2\<^sup>3\<^sup>2\<close> threads use a lock.\<close>

definition max_threads :: nat where
  "max_threads = 2 ^ 32 - 1"

lemma waiting_nonzero:
  assumes "tallied (bit_of in_wait) pcs" "asleep (pcs t)" "\<And>t. max_threads \<le> t \<Longrightarrow> \<not> in_wait (pcs t)"
  shows "(of_nat (tally (bit_of in_wait) pcs) :: u32) \<noteq> 0"
proof -
  have "in_wait (pcs t)" using assms(2) by (cases "pcs t") auto
  then have "0 < tally (bit_of in_wait) pcs"
    using tally_pos [OF assms(1), of t] by simp
  then have pos: "tally (bit_of in_wait) pcs \<noteq> 0" by simp
  have "tally (bit_of in_wait) pcs \<le> max_threads"
    by (rule tally_bound) (use assms(3) in simp_all)
  also have "max_threads < 2 ^ 32" unfolding max_threads_def by (rule diff_less) simp_all
  finally have "tally (bit_of in_wait) pcs < 2 ^ LENGTH(32)" by simp
  then have "unat (of_nat (tally (bit_of in_wait) pcs) :: u32) = tally (bit_of in_wait) pcs"
    by (simp only: unat_of_nat mod_less)
  with pos have "unat (of_nat (tally (bit_of in_wait) pcs) :: u32) \<noteq> 0" by simp
  then show ?thesis by (metis unsigned_0)
qed

lemma tally_card: "tally (bit_of P) pcs = card {t. P (pcs t)}"
  by (simp add: tally_def bit_of_def)

lemma tally_mono:
  assumes "tallied f pcs" "tallied f pcs'" "\<And>t. f (pcs t) \<le> f (pcs' t)"
  shows "tally f pcs \<le> tally f pcs'"
proof -
  let ?A = "{t. f (pcs t) \<noteq> 0} \<union> {t. f (pcs' t) \<noteq> 0}"
  have fin: "finite ?A" using assms(1,2) by (simp add: tallied_def)
  have "tally f pcs = (\<Sum>t\<in>?A. f (pcs t))" "tally f pcs' = (\<Sum>t\<in>?A. f (pcs' t))"
    by (rule tally_superset [OF fin]; blast)+
  then show ?thesis using assms(3) by (simp add: sum_mono)
qed

lemma tally_unique:
  assumes "tallied (bit_of P) pcs" "tally (bit_of P) pcs \<le> 1" "P (pcs t)" "P (pcs u)" "\<not> P d"
  shows "t = u"
proof (rule ccontr)
  assume "t \<noteq> u"
  have "tally (bit_of P) (pcs(t := d)) + 1 = tally (bit_of P) pcs"
    using tally_upd [OF assms(1), of t d] assms(3,5) by simp
  moreover have "1 \<le> tally (bit_of P) (pcs(t := d))"
    using tally_pos [of "bit_of P" "pcs(t := d)" u] assms(1,4) \<open>t \<noteq> u\<close> by simp
  ultimately show False using assms(2) by simp
qed

section \<open>Runs of three threads\<close>

definition three_pcs :: "'c \<Rightarrow> 'c \<Rightarrow> 'c \<Rightarrow> 'c \<Rightarrow> tid \<Rightarrow> 'c" where
  "three_pcs d a b c t = (if t = 0 then a else if t = 1 then b else if t = 2 then c else d)"

lemma three_pcs_upd [simp]:
  "three_pcs d a b c 0 = a" "three_pcs d a b c (Suc 0) = b" "three_pcs d a b c 2 = c"
  "(three_pcs d a b c)(0 := x) = three_pcs d x b c"
  "(three_pcs d a b c)(Suc 0 := x) = three_pcs d a x c"
  "(three_pcs d a b c)(2 := x) = three_pcs d a b x"
  by (auto simp: three_pcs_def)

lemma three_pcs_idle: "(\<lambda>_. d) = three_pcs d d d d"
  by (auto simp: three_pcs_def)

lemma three_pcs_all: "P d \<Longrightarrow> (\<forall>t. P (three_pcs d a b c t)) \<longleftrightarrow> P a \<and> P b \<and> P c"
  unfolding three_pcs_def by (metis One_nat_def nat.simps(3) numeral_2_eq_2 old.nat.inject)

end
