(* ===== verification/SharedLock.thy ===== *)
theory SharedLock
  imports Futex
begin

text \<open>
  The blocking lock \<open>Dee_shared_lock_t\<close> (include/deemon/util/lock.h, runtime/lock.c) on top of the
  lock word of hybrid/sched/__atomic-lock.h.  Every atomic operation of the code is a step of one
  thread; the threads interleave.  \<open>acquire\<close>, \<open>acquire_noint\<close> and \<open>acquire_timed\<close> share their
  points (\<open>ACQUIRE\<close>), as do the \<open>waitfor\<close> functions (\<open>WAITFOR\<close>), which wait until the lock is free
  and do not take it.
\<close>

datatype lock_op = ACQUIRE | WAITFOR

datatype lock_point =
    IDLE
  | ENTER lock_op
  | LOCKED lock_op u32
  | HELD
  | RELEASED
  | WAKING

record shared_lock =
  s_lock :: u32
  s_waiting :: u32
  lock_pc :: "(lock_point, u32) pcs"

definition Dee_SHARED_LOCK_INIT :: shared_lock where
  "Dee_SHARED_LOCK_INIT = \<lparr>s_lock = 0, s_waiting = 0, lock_pc = (\<lambda>_. AT IDLE)\<rparr>"

text \<open>
  \<open>ops\<close>: the operations the threads call.  A timed function may give up after a failed
  attempt, and with the timeout \<open>(uint64_t)-1\<close> goes on as the untimed one.
\<close>

inductive lock_step :: "lock_op set \<Rightarrow> shared_lock \<Rightarrow> shared_lock \<Rightarrow> bool" for ops where
  lock_call: "lock_pc s t = AT IDLE \<Longrightarrow> t < max_threads \<Longrightarrow> op \<in> ops \<Longrightarrow>
    lock_step ops s (s\<lparr>lock_pc := (lock_pc s)(t := AT (ENTER op))\<rparr>)"
| lock_xch_free: "lock_pc s t = AT (ENTER ACQUIRE) \<Longrightarrow> s_lock s = 0 \<Longrightarrow>
    lock_step ops s (s\<lparr>s_lock := 1, lock_pc := (lock_pc s)(t := AT HELD)\<rparr>)"
| lock_xch_held: "lock_pc s t = AT (ENTER ACQUIRE) \<Longrightarrow> s_lock s \<noteq> 0 \<Longrightarrow>
    lock_step ops s (s\<lparr>s_lock := 1, lock_pc := (lock_pc s)(t := AT (LOCKED ACQUIRE (s_lock s)))\<rparr>)"
| lock_read_free: "lock_pc s t = AT (ENTER WAITFOR) \<Longrightarrow> s_lock s = 0 \<Longrightarrow>
    lock_step ops s (s\<lparr>lock_pc := (lock_pc s)(t := AT IDLE)\<rparr>)"
| lock_read_held: "lock_pc s t = AT (ENTER WAITFOR) \<Longrightarrow> s_lock s \<noteq> 0 \<Longrightarrow>
    lock_step ops s (s\<lparr>lock_pc := (lock_pc s)(t := AT (LOCKED WAITFOR (s_lock s)))\<rparr>)"
| lock_timeout: "lock_pc s t = AT (LOCKED op w) \<Longrightarrow>
    lock_step ops s (s\<lparr>lock_pc := (lock_pc s)(t := AT IDLE)\<rparr>)"
| lock_forever: "lock_pc s t = AT (LOCKED op w) \<Longrightarrow>
    lock_step ops s (s\<lparr>lock_pc := (lock_pc s)(t := AT (ENTER op))\<rparr>)"
| lock_waiting_start: "lock_pc s t = AT (LOCKED op w) \<Longrightarrow>
    lock_step ops s (s\<lparr>s_waiting := s_waiting s + 1, lock_pc := (lock_pc s)(t := CALL (ENTER op) w)\<rparr>)"
| lock_futex: "futex_wait (s_lock s) (lock_pc s) pcs \<Longrightarrow>
    lock_step ops s (s\<lparr>lock_pc := pcs\<rparr>)"
| lock_waiting_end: "lock_pc s t = RET p error \<Longrightarrow>
    lock_step ops s (s\<lparr>s_waiting := s_waiting s - 1,
      lock_pc := (lock_pc s)(t := AT (if error \<noteq> 0 then IDLE else p))\<rparr>)"
| lock_release: "lock_pc s t = AT HELD \<Longrightarrow>
    lock_step ops s (s\<lparr>s_lock := 0, lock_pc := (lock_pc s)(t := AT RELEASED)\<rparr>)"
| lock_test_none: "lock_pc s t = AT RELEASED \<Longrightarrow> s_waiting s = 0 \<Longrightarrow>
    lock_step ops s (s\<lparr>lock_pc := (lock_pc s)(t := AT IDLE)\<rparr>)"
| lock_test_some: "lock_pc s t = AT RELEASED \<Longrightarrow> s_waiting s \<noteq> 0 \<Longrightarrow>
    lock_step ops s (s\<lparr>lock_pc := (lock_pc s)(t := AT WAKING)\<rparr>)"
| lock_wake: "lock_pc s t = AT WAKING \<Longrightarrow> wake_one (lock_pc s) pcs \<Longrightarrow>
    lock_step ops s (s\<lparr>lock_pc := pcs(t := AT IDLE)\<rparr>)"

definition lock_reachable :: "lock_op set \<Rightarrow> shared_lock \<Rightarrow> bool" where
  "lock_reachable ops s \<longleftrightarrow> (lock_step ops)\<^sup>*\<^sup>* Dee_SHARED_LOCK_INIT s"

section \<open>Invariants\<close>

definition held :: "(lock_point, u32) pc \<Rightarrow> bool" where
  "held c \<longleftrightarrow> c = AT HELD"

text \<open>The lock word a thread has read and waits on is 1; after the wait it goes on at \<open>ENTER\<close>.\<close>

fun is_enter :: "lock_point \<Rightarrow> bool" where
  "is_enter (ENTER op) \<longleftrightarrow> True"
| "is_enter _ \<longleftrightarrow> False"

fun seen_one :: "(lock_point, u32) pc \<Rightarrow> bool" where
  "seen_one (AT (LOCKED op w)) \<longleftrightarrow> w = 1"
| "seen_one (CALL p w) \<longleftrightarrow> w = 1 \<and> is_enter p"
| "seen_one (ASLEEP p w) \<longleftrightarrow> w = 1 \<and> is_enter p"
| "seen_one (RET p r) \<longleftrightarrow> is_enter p"
| "seen_one _ \<longleftrightarrow> True"

definition lock_inv :: "shared_lock \<Rightarrow> bool" where
  "lock_inv s \<longleftrightarrow>
     tallied (bit_of held) (lock_pc s) \<and> tallied (bit_of in_wait) (lock_pc s)
     \<and> s_lock s \<in> {0, 1} \<and> unat (s_lock s) = tally (bit_of held) (lock_pc s)
     \<and> s_waiting s = of_nat (tally (bit_of in_wait) (lock_pc s))
     \<and> (\<forall>t. max_threads \<le> t \<longrightarrow> lock_pc s t = AT IDLE)
     \<and> (\<forall>t. seen_one (lock_pc s t))"

lemma lock_inv_upd:
  assumes "lock_inv s" "lock_pc s t = c" "t < max_threads"
    and "l \<in> {0, 1}" "unat l + bit_of held c = unat (s_lock s) + bit_of held c'"
    and "w + of_nat (bit_of in_wait c) = s_waiting s + of_nat (bit_of in_wait c')"
    and "seen_one c'"
  shows "lock_inv (s\<lparr>s_lock := l, s_waiting := w, lock_pc := (lock_pc s)(t := c')\<rparr>)"
proof -
  have T: "tallied (bit_of held) (lock_pc s)" "tallied (bit_of in_wait) (lock_pc s)"
    using assms(1) by (simp_all add: lock_inv_def)
  have h: "tally (bit_of held) ((lock_pc s)(t := c')) + bit_of held c = tally (bit_of held) (lock_pc s) + bit_of held c'"
    using tally_upd [OF T(1), of t c'] assms(2) by simp
  have w: "tally (bit_of in_wait) ((lock_pc s)(t := c')) + bit_of in_wait c
      = tally (bit_of in_wait) (lock_pc s) + bit_of in_wait c'"
    using tally_upd [OF T(2), of t c'] assms(2) by simp
  have "(of_nat (tally (bit_of in_wait) ((lock_pc s)(t := c'))) :: u32) + of_nat (bit_of in_wait c)
      = of_nat (tally (bit_of in_wait) (lock_pc s)) + of_nat (bit_of in_wait c')"
    using arg_cong [OF w, of "of_nat :: nat \<Rightarrow> u32"] by (simp only: of_nat_add)
  then have w': "w = of_nat (tally (bit_of in_wait) ((lock_pc s)(t := c')))"
    using assms(1,6) unfolding lock_inv_def by (metis add_right_cancel)
  have h': "unat l = tally (bit_of held) ((lock_pc s)(t := c'))"
    using assms(1,5) h unfolding lock_inv_def by linarith
  have "\<forall>u. max_threads \<le> u \<longrightarrow> ((lock_pc s)(t := c')) u = AT IDLE"
    using assms(1,3) by (simp add: lock_inv_def)
  moreover have "\<forall>u. seen_one (((lock_pc s)(t := c')) u)"
    using assms(1,7) by (simp add: lock_inv_def)
  ultimately show ?thesis
    unfolding lock_inv_def using T h' w' assms(4) by simp
qed

lemma lock_inv_same:
  assumes "lock_inv s" "\<And>t. same_wait (lock_pc s t) (pcs t)"
  shows "lock_inv (s\<lparr>lock_pc := pcs\<rparr>)"
proof -
  have h: "bit_of held (pcs t) = bit_of held (lock_pc s t)" for t
    using same_wait_AT [OF assms(2)] by (simp add: bit_of_def held_def)
  have w: "bit_of in_wait (pcs t) = bit_of in_wait (lock_pc s t)" for t
    using same_wait_in_wait [OF assms(2)] by (simp add: bit_of_def)
  have "seen_one (pcs t)" for t
  proof -
    have "seen_one (lock_pc s t)" using assms(1) by (simp add: lock_inv_def)
    with assms(2) [of t] show ?thesis by (cases "lock_pc s t") auto
  qed
  then show ?thesis
    using assms(1) same_wait_AT [OF assms(2)]
    unfolding lock_inv_def by (simp add: tally_cong [of "bit_of held" pcs, OF h]
      tally_cong [of "bit_of in_wait" pcs, OF w] tallied_cong [of "bit_of held" pcs, OF h]
      tallied_cong [of "bit_of in_wait" pcs, OF w])
qed

lemma lock_inv_init: "lock_inv Dee_SHARED_LOCK_INIT"
  by (simp add: lock_inv_def Dee_SHARED_LOCK_INIT_def held_def)

lemma lock_inv_thread: "lock_inv s \<Longrightarrow> lock_pc s t \<noteq> AT IDLE \<Longrightarrow> t < max_threads"
  unfolding lock_inv_def by (meson not_le_imp_less)

lemma lock_inv_word: "lock_inv s \<Longrightarrow> s_lock s \<noteq> 0 \<Longrightarrow> s_lock s = 1"
  by (auto simp: lock_inv_def)

lemma lock_inv_seen: "lock_inv s \<Longrightarrow> seen_one (lock_pc s t)"
  by (simp add: lock_inv_def)

text \<open>A step that moves one thread and touches neither word.\<close>

lemma lock_inv_move:
  assumes "lock_inv s" "lock_pc s t = c" "c \<noteq> AT IDLE" "\<not> held c" "\<not> held c'"
    and "in_wait c' = in_wait c" "seen_one c'"
  shows "lock_inv (s\<lparr>lock_pc := (lock_pc s)(t := c')\<rparr>)"
proof -
  have "t < max_threads" using lock_inv_thread [OF assms(1)] assms(2,3) by blast
  then show ?thesis
    using lock_inv_upd [OF assms(1,2), of "s_lock s" c' "s_waiting s"] assms
    by (simp add: bit_of_def lock_inv_def)
qed

lemma lock_step_inv:
  assumes "lock_step ops s s'" "lock_inv s"
  shows "lock_inv s'"
  using assms(1)
proof cases
  case (lock_call t op)
  show ?thesis unfolding lock_call(1)
    using lock_inv_upd [OF assms(2) lock_call(2,3), of "s_lock s" "AT (ENTER op)" "s_waiting s"] assms(2)
    by (simp add: held_def lock_inv_def)
next
  case (lock_xch_free t)
  have "t < max_threads" by (rule lock_inv_thread [OF assms(2)]) (use lock_xch_free in simp)
  then show ?thesis unfolding lock_xch_free(1)
    using lock_inv_upd [OF assms(2) lock_xch_free(2), of 1 "AT HELD" "s_waiting s"] lock_xch_free(3)
    by (simp add: held_def)
next
  case (lock_xch_held t)
  have "t < max_threads" by (rule lock_inv_thread [OF assms(2)]) (use lock_xch_held in simp)
  then show ?thesis unfolding lock_xch_held(1)
    using lock_inv_upd [OF assms(2) lock_xch_held(2), of 1 "AT (LOCKED ACQUIRE (s_lock s))" "s_waiting s"]
      lock_inv_word [OF assms(2) lock_xch_held(3)]
    by (simp add: held_def)
next
  case (lock_read_free t)
  show ?thesis unfolding lock_read_free(1)
    by (rule lock_inv_move [OF assms(2) lock_read_free(2)]) (simp_all add: held_def)
next
  case (lock_read_held t)
  show ?thesis unfolding lock_read_held(1)
    by (rule lock_inv_move [OF assms(2) lock_read_held(2)])
      (use lock_inv_word [OF assms(2) lock_read_held(3)] in \<open>simp_all add: held_def\<close>)
next
  case (lock_timeout t op w)
  show ?thesis unfolding lock_timeout(1)
    by (rule lock_inv_move [OF assms(2) lock_timeout(2)]) (simp_all add: held_def)
next
  case (lock_forever t op w)
  show ?thesis unfolding lock_forever(1)
    by (rule lock_inv_move [OF assms(2) lock_forever(2)]) (simp_all add: held_def)
next
  case (lock_waiting_start t op w)
  have "t < max_threads" by (rule lock_inv_thread [OF assms(2)]) (use lock_waiting_start in simp)
  moreover have "w = 1" using lock_inv_seen [OF assms(2), of t] lock_waiting_start(2) by simp
  ultimately show ?thesis unfolding lock_waiting_start(1)
    using lock_inv_upd [OF assms(2) lock_waiting_start(2), of "s_lock s" "CALL (ENTER op) w" "s_waiting s + 1"] assms(2)
    by (simp add: held_def lock_inv_def)
next
  case (lock_futex pcs)
  show ?thesis unfolding lock_futex(1) by (rule lock_inv_same [OF assms(2) futex_wait_same [OF lock_futex(2)]])
next
  case (lock_waiting_end t p error)
  have "t < max_threads" by (rule lock_inv_thread [OF assms(2)]) (use lock_waiting_end in simp)
  moreover have "is_enter p" using lock_inv_seen [OF assms(2), of t] lock_waiting_end(2) by simp
  ultimately show ?thesis unfolding lock_waiting_end(1)
    using lock_inv_upd [OF assms(2) lock_waiting_end(2), of "s_lock s" "AT (if error \<noteq> 0 then IDLE else p)" "s_waiting s - 1"] assms(2)
    by (cases p) (simp_all add: held_def lock_inv_def)
next
  case (lock_release t)
  have "t < max_threads" by (rule lock_inv_thread [OF assms(2)]) (use lock_release in simp)
  moreover have "unat (s_lock s) = 1"
  proof -
    have "1 \<le> tally (bit_of held) (lock_pc s)"
      using tally_pos [of "bit_of held" "lock_pc s" t] assms(2) lock_release(2) by (simp add: lock_inv_def held_def)
    then show ?thesis using assms(2) by (auto simp: lock_inv_def)
  qed
  ultimately show ?thesis unfolding lock_release(1)
    using lock_inv_upd [OF assms(2) lock_release(2), of 0 "AT RELEASED" "s_waiting s"]
    by (simp add: held_def)
next
  case (lock_test_none t)
  show ?thesis unfolding lock_test_none(1)
    by (rule lock_inv_move [OF assms(2) lock_test_none(2)]) (simp_all add: held_def)
next
  case (lock_test_some t)
  show ?thesis unfolding lock_test_some(1)
    by (rule lock_inv_move [OF assms(2) lock_test_some(2)]) (simp_all add: held_def)
next
  case (lock_wake t pcs)
  let ?s = "s\<lparr>lock_pc := pcs\<rparr>"
  have i: "lock_inv ?s" by (rule lock_inv_same [OF assms(2) wake_one_same [OF lock_wake(3)]])
  have p: "lock_pc ?s t = AT WAKING" using same_wait_AT [OF wake_one_same [OF lock_wake(3)]] lock_wake(2) by simp
  show ?thesis unfolding lock_wake(1)
    using lock_inv_move [OF i p, of "AT IDLE"] by (simp add: held_def)
qed

section \<open>Waiting threads are not forgotten\<close>

text \<open>A thread that will try the lock or wake a waiting thread.\<close>

fun helper :: "(lock_point, u32) pc \<Rightarrow> bool" where
  "helper (AT (ENTER op)) \<longleftrightarrow> True"
| "helper (AT RELEASED) \<longleftrightarrow> True"
| "helper (AT WAKING) \<longleftrightarrow> True"
| "helper (RET p r) \<longleftrightarrow> r = 0"
| "helper _ \<longleftrightarrow> False"

text \<open>A thread that takes part in acquiring only.\<close>

fun acquires :: "(lock_point, u32) pc \<Rightarrow> bool" where
  "acquires (AT (ENTER op)) \<longleftrightarrow> op = ACQUIRE"
| "acquires (AT (LOCKED op w)) \<longleftrightarrow> op = ACQUIRE"
| "acquires (AT p) \<longleftrightarrow> True"
| "acquires (CALL p w) \<longleftrightarrow> p = ENTER ACQUIRE"
| "acquires (ASLEEP p w) \<longleftrightarrow> p = ENTER ACQUIRE"
| "acquires (RET p r) \<longleftrightarrow> p = ENTER ACQUIRE"

lemma same_wait_acquires: "same_wait c c' \<Longrightarrow> acquires c \<Longrightarrow> acquires c'"
  by (cases c) auto

lemma lock_step_acquires:
  assumes "lock_step {ACQUIRE} s s'" "\<forall>t. acquires (lock_pc s t)"
  shows "\<forall>t. acquires (lock_pc s' t)"
  using assms(1)
proof cases
  case (lock_forever t op w)
  then have "op = ACQUIRE" using assms(2) [rule_format, of t] by simp
  then show ?thesis unfolding lock_forever(1) using assms(2) by simp
next
  case (lock_waiting_start t op w)
  then have "op = ACQUIRE" using assms(2) [rule_format, of t] by simp
  then show ?thesis unfolding lock_waiting_start(1) using assms(2) by simp
next
  case (lock_futex pcs)
  then show ?thesis using same_wait_acquires [OF futex_wait_same [OF lock_futex(2)]] assms(2) by simp
next
  case (lock_wake t pcs)
  then show ?thesis using same_wait_acquires [OF wake_one_same [OF lock_wake(3)]] assms(2) by simp
next
  case (lock_waiting_end t p error)
  then have "p = ENTER ACQUIRE" using assms(2) [rule_format, of t] by simp
  then show ?thesis unfolding lock_waiting_end(1) using assms(2) by simp
next
  case (lock_read_held t)
  then show ?thesis using assms(2) [rule_format, of t] by simp
qed (use assms(2) in simp_all)

text \<open>While the lock is free and a thread is asleep, some other thread attends to it.\<close>

definition attended :: "shared_lock \<Rightarrow> bool" where
  "attended s \<longleftrightarrow> (s_lock s = 0 \<longrightarrow> (\<exists>t. asleep (lock_pc s t)) \<longrightarrow> (\<exists>t. helper (lock_pc s t)))"

lemma attended_move:
  assumes "attended s" "lock_pc s t = c"
    and "l \<noteq> 0 \<or> helper c' \<or> s_lock s = 0 \<and> \<not> helper c \<and> (asleep c' \<longrightarrow> asleep c)"
  shows "attended (s\<lparr>s_lock := l, s_waiting := w, lock_pc := (lock_pc s)(t := c')\<rparr>)"
  using assms unfolding attended_def by (auto split: if_splits)

lemma attended_move':
  assumes "attended s" "lock_pc s t = c" "helper c' \<or> \<not> helper c \<and> (asleep c' \<longrightarrow> asleep c)"
  shows "attended (s\<lparr>lock_pc := (lock_pc s)(t := c')\<rparr>)"
  using attended_move [OF assms(1,2), of "s_lock s" c' "s_waiting s"] assms(3) by auto

lemma futex_wait_attended:
  assumes "futex_wait (s_lock s) (lock_pc s) pcs" "attended s" "lock_inv s"
  shows "attended (s\<lparr>lock_pc := pcs\<rparr>)"
  using assms(1)
proof cases
  case (futex_sleep t p w)
  then have "s_lock s = 1" using lock_inv_seen [OF assms(3), of t] by simp
  then show ?thesis by (simp add: attended_def)
next
  case (futex_interrupt t p w)
  then show ?thesis by (simp add: attended_def)
next
  case (futex_interrupt_again t p w)
  then show ?thesis by (simp add: attended_def)
qed (simp_all add: attended_move' [OF assms(2)])

lemma lock_step_attended:
  assumes "lock_step {ACQUIRE} s s'" "lock_inv s" "\<forall>t. acquires (lock_pc s t)" "attended s"
  shows "attended s'"
  using assms(1)
proof cases
  case (lock_xch_free t)
  show ?thesis unfolding lock_xch_free(1)
    using attended_move [OF assms(4) lock_xch_free(2), of 1 "AT HELD" "s_waiting s"] by simp
next
  case (lock_xch_held t)
  show ?thesis unfolding lock_xch_held(1)
    using attended_move [OF assms(4) lock_xch_held(2), of 1 "AT (LOCKED ACQUIRE (s_lock s))" "s_waiting s"] by simp
next
  case (lock_waiting_start t op w)
  show ?thesis unfolding lock_waiting_start(1)
    using attended_move [OF assms(4) lock_waiting_start(2), of "s_lock s" "CALL (ENTER op) w" "s_waiting s + 1"] by auto
next
  case (lock_futex pcs)
  show ?thesis unfolding lock_futex(1) by (rule futex_wait_attended [OF lock_futex(2) assms(4,2)])
next
  case (lock_waiting_end t p error)
  have "is_enter p" using lock_inv_seen [OF assms(2), of t] lock_waiting_end(2) by simp
  then have "helper (AT p)" by (cases p) simp_all
  then have "s_lock s \<noteq> 0 \<or> helper (AT (if error \<noteq> 0 then IDLE else p))
      \<or> s_lock s = 0 \<and> \<not> helper (RET p error :: (lock_point, u32) pc)" by auto
  then show ?thesis unfolding lock_waiting_end(1)
    using attended_move [OF assms(4) lock_waiting_end(2), of "s_lock s" "AT (if error \<noteq> 0 then IDLE else p)" "s_waiting s - 1"]
    by simp
next
  case (lock_release t)
  show ?thesis unfolding lock_release(1)
    using attended_move [OF assms(4) lock_release(2), of 0 "AT RELEASED" "s_waiting s"] by simp
next
  case (lock_test_none t)
  have "\<not> asleep (lock_pc s u)" for u
  proof
    assume u: "asleep (lock_pc s u)"
    have "(of_nat (tally (bit_of in_wait) (lock_pc s)) :: u32) \<noteq> 0"
      by (rule waiting_nonzero [where pcs = "lock_pc s" and t = u, OF _ u]) (use assms(2) in \<open>simp_all add: lock_inv_def\<close>)
    then show False using lock_test_none(3) assms(2) by (simp add: lock_inv_def)
  qed
  then show ?thesis unfolding lock_test_none(1) by (simp add: attended_def)
next
  case (lock_wake t pcs)
  show ?thesis
  proof (cases "\<exists>u. asleep (lock_pc s u)")
    case True
    then obtain u p where u: "pcs u = RET p 0" using wake_one_none_asleep [OF lock_wake(3)] by blast
    have "pcs t = AT WAKING" using same_wait_AT [OF wake_one_same [OF lock_wake(3)]] lock_wake(2) by simp
    with u have "u \<noteq> t" by auto
    then show ?thesis unfolding lock_wake(1) attended_def using u by (auto intro!: exI [of _ u])
  next
    case False
    then have "\<not> asleep (pcs u)" for u
      using wake_one_asleep [OF lock_wake(3), of u] by blast
    then show ?thesis unfolding lock_wake(1) attended_def by simp
  qed
next
  case (lock_call t op)
  show ?thesis unfolding lock_call(1) by (rule attended_move' [OF assms(4) lock_call(2)]) simp
next
  case (lock_timeout t op w)
  show ?thesis unfolding lock_timeout(1) by (rule attended_move' [OF assms(4) lock_timeout(2)]) simp
next
  case (lock_forever t op w)
  show ?thesis unfolding lock_forever(1) by (rule attended_move' [OF assms(4) lock_forever(2)]) simp
next
  case (lock_test_some t)
  show ?thesis unfolding lock_test_some(1) by (rule attended_move' [OF assms(4) lock_test_some(2)]) simp
next
  case (lock_read_free t)
  then show ?thesis using assms(3) [rule_format, of t] by simp
next
  case (lock_read_held t)
  then show ?thesis using assms(3) [rule_format, of t] by simp
qed

lemma lock_reachable_inv:
  assumes "lock_reachable ops s"
  shows "lock_inv s"
  using assms unfolding lock_reachable_def
  by (induction rule: rtranclp_induct) (auto intro: lock_inv_init lock_step_inv)

lemma lock_reachable_attended:
  assumes "lock_reachable {ACQUIRE} s"
  shows "attended s \<and> (\<forall>t. acquires (lock_pc s t))"
  using assms unfolding lock_reachable_def
proof (induction rule: rtranclp_induct)
  case base
  then show ?case by (simp add: attended_def Dee_SHARED_LOCK_INIT_def)
next
  case (step s s')
  then show ?case
    using lock_reachable_inv [of "{ACQUIRE}" s] lock_step_attended lock_step_acquires
    by (simp add: lock_reachable_def)
qed

lemma lock_word_held:
  assumes "lock_reachable ops s"
  shows "s_lock s \<noteq> 0 \<longleftrightarrow> (\<exists>t. lock_pc s t = AT HELD)"
proof -
  have "lock_inv s" by (rule lock_reachable_inv [OF assms])
  then have "tallied (bit_of held) (lock_pc s)" "unat (s_lock s) = tally (bit_of held) (lock_pc s)"
    by (simp_all add: lock_inv_def)
  moreover have "s_lock s = 0 \<longleftrightarrow> unat (s_lock s) = 0" by (simp add: unat_eq_zero)
  ultimately show ?thesis using tally_zero [of "bit_of held" "lock_pc s"] by (simp add: held_def)
qed

section \<open>A lost wake\<close>

text \<open>
  A run: thread 0 takes the lock; thread 1 blocks in \<open>acquire\<close>, thread 2 in \<open>waitfor\<close>; thread 0
  releases and its wake reaches thread 2, which returns.
\<close>

definition lock_state ::
  "u32 \<Rightarrow> u32 \<Rightarrow> (lock_point, u32) pc \<Rightarrow> (lock_point, u32) pc \<Rightarrow> (lock_point, u32) pc \<Rightarrow> shared_lock" where
  "lock_state l w a b c = \<lparr>s_lock = l, s_waiting = w, lock_pc = three_pcs (AT IDLE) a b c\<rparr>"

lemmas lock_run_simps = lock_state_def max_threads_def three_pcs_upd

lemma lock_reachable_init: "lock_reachable ops (lock_state 0 0 (AT IDLE) (AT IDLE) (AT IDLE))"
  by (simp add: lock_reachable_def lock_state_def Dee_SHARED_LOCK_INIT_def three_pcs_idle)

lemma lock_reachable_step: "lock_reachable ops s \<Longrightarrow> lock_step ops s s' \<Longrightarrow> lock_reachable ops s'"
  unfolding lock_reachable_def by (rule rtranclp.rtrancl_into_rtrancl)

lemma lock_run_blocks:
  "lock_reachable UNIV (lock_state 1 2 (AT HELD) (ASLEEP (ENTER ACQUIRE) 1) (ASLEEP (ENTER WAITFOR) 1))"
proof -
  let ?A = "ENTER ACQUIRE" and ?W = "ENTER WAITFOR"
  have "lock_reachable UNIV (lock_state 0 0 (AT IDLE) (AT IDLE) (AT IDLE))"
    by (rule lock_reachable_init)
  then have "lock_reachable UNIV (lock_state 0 0 (AT ?A) (AT IDLE) (AT IDLE))"
    using lock_call [of "lock_state 0 0 (AT IDLE) (AT IDLE) (AT IDLE)" 0 ACQUIRE UNIV]
    by (elim lock_reachable_step) (simp add: lock_run_simps)
  then have "lock_reachable UNIV (lock_state 1 0 (AT HELD) (AT IDLE) (AT IDLE))"
    using lock_xch_free [of "lock_state 0 0 (AT ?A) (AT IDLE) (AT IDLE)" 0 UNIV]
    by (elim lock_reachable_step) (simp add: lock_run_simps)
  then have "lock_reachable UNIV (lock_state 1 0 (AT HELD) (AT ?A) (AT IDLE))"
    using lock_call [of "lock_state 1 0 (AT HELD) (AT IDLE) (AT IDLE)" 1 ACQUIRE UNIV]
    by (elim lock_reachable_step) (simp add: lock_run_simps)
  then have "lock_reachable UNIV (lock_state 1 0 (AT HELD) (AT (LOCKED ACQUIRE 1)) (AT IDLE))"
    using lock_xch_held [of "lock_state 1 0 (AT HELD) (AT ?A) (AT IDLE)" 1 UNIV]
    by (elim lock_reachable_step) (simp add: lock_run_simps)
  then have "lock_reachable UNIV (lock_state 1 1 (AT HELD) (CALL ?A 1) (AT IDLE))"
    using lock_waiting_start [of "lock_state 1 0 (AT HELD) (AT (LOCKED ACQUIRE 1)) (AT IDLE)" 1 ACQUIRE 1 UNIV]
    by (elim lock_reachable_step) (simp add: lock_run_simps)
  then have "lock_reachable UNIV (lock_state 1 1 (AT HELD) (ASLEEP ?A 1) (AT IDLE))"
    using lock_futex [OF futex_sleep [of "lock_pc (lock_state 1 1 (AT HELD) (CALL ?A 1) (AT IDLE))" 1 "?A" 1 "s_lock (lock_state 1 1 (AT HELD) (CALL ?A 1) (AT IDLE))"], of UNIV]
    by (elim lock_reachable_step) (simp add: lock_run_simps)
  then have "lock_reachable UNIV (lock_state 1 1 (AT HELD) (ASLEEP ?A 1) (AT ?W))"
    using lock_call [of "lock_state 1 1 (AT HELD) (ASLEEP ?A 1) (AT IDLE)" 2 WAITFOR UNIV]
    by (elim lock_reachable_step) (simp add: lock_run_simps)
  then have "lock_reachable UNIV (lock_state 1 1 (AT HELD) (ASLEEP ?A 1) (AT (LOCKED WAITFOR 1)))"
    using lock_read_held [of "lock_state 1 1 (AT HELD) (ASLEEP ?A 1) (AT ?W)" 2 UNIV]
    by (elim lock_reachable_step) (simp add: lock_run_simps)
  then have "lock_reachable UNIV (lock_state 1 2 (AT HELD) (ASLEEP ?A 1) (CALL ?W 1))"
    using lock_waiting_start [of "lock_state 1 1 (AT HELD) (ASLEEP ?A 1) (AT (LOCKED WAITFOR 1))" 2 WAITFOR 1 UNIV]
    by (elim lock_reachable_step) (simp add: lock_run_simps)
  then have "lock_reachable UNIV (lock_state 1 2 (AT HELD) (ASLEEP ?A 1) (ASLEEP ?W 1))"
    using lock_futex [OF futex_sleep [of "lock_pc (lock_state 1 2 (AT HELD) (ASLEEP ?A 1) (CALL ?W 1))" 2 "?W" 1 "s_lock (lock_state 1 2 (AT HELD) (ASLEEP ?A 1) (CALL ?W 1))"], of UNIV]
    by (elim lock_reachable_step) (simp add: lock_run_simps)
  then show ?thesis .
qed

lemma lock_run_forgets:
  "lock_reachable UNIV (lock_state 0 1 (AT IDLE) (ASLEEP (ENTER ACQUIRE) 1) (AT IDLE))"
proof -
  let ?A = "ENTER ACQUIRE" and ?W = "ENTER WAITFOR"
  have "lock_reachable UNIV (lock_state 1 2 (AT HELD) (ASLEEP ?A 1) (ASLEEP ?W 1))"
    by (rule lock_run_blocks)
  then have "lock_reachable UNIV (lock_state 0 2 (AT RELEASED) (ASLEEP ?A 1) (ASLEEP ?W 1))"
    using lock_release [of "lock_state 1 2 (AT HELD) (ASLEEP ?A 1) (ASLEEP ?W 1)" 0 UNIV]
    by (elim lock_reachable_step) (simp add: lock_run_simps)
  then have "lock_reachable UNIV (lock_state 0 2 (AT WAKING) (ASLEEP ?A 1) (ASLEEP ?W 1))"
    using lock_test_some [of "lock_state 0 2 (AT RELEASED) (ASLEEP ?A 1) (ASLEEP ?W 1)" 0 UNIV]
    by (elim lock_reachable_step) (simp add: lock_run_simps)
  then have "lock_reachable UNIV (lock_state 0 2 (AT IDLE) (ASLEEP ?A 1) (RET ?W 0))"
    using lock_wake [OF _ wake_one_some [of "lock_pc (lock_state 0 2 (AT WAKING) (ASLEEP ?A 1) (ASLEEP ?W 1))" 2], of 0 UNIV]
    by (elim lock_reachable_step) (simp add: lock_run_simps)
  then have "lock_reachable UNIV (lock_state 0 1 (AT IDLE) (ASLEEP ?A 1) (AT ?W))"
    using lock_waiting_end [of "lock_state 0 2 (AT IDLE) (ASLEEP ?A 1) (RET ?W 0)" 2 ?W 0 UNIV]
    by (elim lock_reachable_step) (simp add: lock_run_simps)
  then have "lock_reachable UNIV (lock_state 0 1 (AT IDLE) (ASLEEP ?A 1) (AT IDLE))"
    using lock_read_free [of "lock_state 0 1 (AT IDLE) (ASLEEP ?A 1) (AT ?W)" 2 UNIV]
    by (elim lock_reachable_step) (simp add: lock_run_simps)
  then show ?thesis .
qed

section \<open>Properties\<close>

text \<open>
  C32: The lock excludes.  In every interleaving of acquiring, timed acquiring, waiting and
  releasing, with interrupts, timeouts and spurious wakes, at most one thread holds the lock, and
  the lock word is nonzero exactly while one does.
\<close>

theorem shared_lock_exclusive:
  assumes "lock_reachable ops s"
  shows "(lock_pc s t = AT HELD \<and> lock_pc s u = AT HELD \<longrightarrow> t = u)
    \<and> (s_lock s \<noteq> 0 \<longleftrightarrow> (\<exists>t. lock_pc s t = AT HELD))"
proof -
  have inv: "lock_inv s" by (rule lock_reachable_inv [OF assms])
  have "t = u" if "lock_pc s t = AT HELD" "lock_pc s u = AT HELD"
    by (rule tally_unique [of held "lock_pc s" t u "AT IDLE"])
      (use inv that in \<open>auto simp: lock_inv_def held_def\<close>)
  then show ?thesis using lock_word_held [OF assms] by blast
qed

lemma no_lost_wakeup:
  assumes "lock_reachable {ACQUIRE} s" "\<And>t. lock_pc s t = AT IDLE \<or> asleep (lock_pc s t)"
  shows "\<not> asleep (lock_pc s t)"
proof
  assume t: "asleep (lock_pc s t)"
  have "lock_pc s u \<noteq> AT HELD \<and> \<not> helper (lock_pc s u)" for u
    using assms(2) [of u] by (cases "lock_pc s u") auto
  moreover have "s_lock s = 0"
    using lock_word_held [OF assms(1)] calculation by blast
  ultimately show False
    using lock_reachable_attended [OF assms(1)] t unfolding attended_def by blast
qed

theorem shared_lock_exclusive_witness:
  "s_lock (lock_state 1 2 (AT HELD) (ASLEEP (ENTER ACQUIRE) 1) (ASLEEP (ENTER WAITFOR) 1)) \<noteq> 0
     \<longleftrightarrow> (\<exists>t. lock_pc (lock_state 1 2 (AT HELD) (ASLEEP (ENTER ACQUIRE) 1) (ASLEEP (ENTER WAITFOR) 1)) t = AT HELD)"
  by (rule conjunct2 [OF shared_lock_exclusive [OF lock_run_blocks, of 0 0]])

text \<open>
  C33: Waking.  If threads only acquire and release, nobody is forgotten: a state in which every thread
  is idle or asleep in the wait for the lock has no thread asleep.  With \<open>waitfor\<close> a wake is lost:
  there is a run after which the lock is free, one thread sleeps in \<open>Dee_shared_lock_acquire\<close> and every
  other thread is idle, because the release woke only the thread in \<open>Dee_shared_lock_waitfor\<close>, which
  does not take the lock and wakes nobody.
\<close>

theorem shared_lock_wakeups_characterized:
  assumes "lock_reachable {ACQUIRE} s" "\<And>t. lock_pc s t = AT IDLE \<or> asleep (lock_pc s t)"
  shows "\<not> asleep (lock_pc s t)
    \<and> (\<exists>s. lock_reachable UNIV s \<and> s_lock s = 0 \<and> lock_pc s 1 = ASLEEP (ENTER ACQUIRE) 1
         \<and> (\<forall>t. t = 1 \<or> lock_pc s t = AT IDLE))"
proof
  show "\<not> asleep (lock_pc s t)" by (rule no_lost_wakeup [OF assms])
  show "\<exists>s. lock_reachable UNIV s \<and> s_lock s = 0 \<and> lock_pc s 1 = ASLEEP (ENTER ACQUIRE) 1
      \<and> (\<forall>t. t = 1 \<or> lock_pc s t = AT IDLE)"
    by (rule exI, intro conjI, rule lock_run_forgets) (simp_all add: lock_state_def three_pcs_def)
qed

theorem shared_lock_wakeups_characterized_witness:
  "\<not> asleep (lock_pc Dee_SHARED_LOCK_INIT 0)"
proof -
  have "lock_reachable {ACQUIRE} Dee_SHARED_LOCK_INIT" by (simp add: lock_reachable_def)
  moreover have "lock_pc Dee_SHARED_LOCK_INIT t = AT IDLE \<or> asleep (lock_pc Dee_SHARED_LOCK_INIT t)" for t
    by (simp add: Dee_SHARED_LOCK_INIT_def)
  ultimately show ?thesis using shared_lock_wakeups_characterized [of Dee_SHARED_LOCK_INIT 0] by blast
qed

end
