(* ===== verification/Once.thy ===== *)
theory Once
  imports Futex
begin

text \<open>
  Running something exactly once (\<open>Dee_once_t\<close>, include/deemon/util/once.h, runtime/lock.c):
  \<open>Dee_once_begin\<close> and its variant without interrupts, \<open>Dee_once_trybegin\<close>,
  \<open>Dee_once_commit\<close>, \<open>Dee_once_abort\<close>, step by step, for interleaved threads.
\<close>

datatype once_op = BEGIN | TRYBEGIN

datatype once_point =
    ONCE_IDLE
  | ONCE_READ once_op
  | ONCE_INC once_op
  | ONCE_FIX
  | ONCE_CMPXCH once_op u32
  | ONCE_REREAD
  | ONCE_RUN
  | ONCE_WAKE

record once =
  oc_didrun :: u32
  once_pc :: "(once_point, u32) pcs"

definition Dee_ONCE_COMPLETED_THRESHOLD :: u32 where
  "Dee_ONCE_COMPLETED_THRESHOLD = 0x80000000"

definition Dee_ONCE_INIT :: once where
  "Dee_ONCE_INIT = \<lparr>oc_didrun = 0, once_pc = (\<lambda>_. AT ONCE_IDLE)\<rparr>"

definition Dee_once_hasrun :: "once \<Rightarrow> bool" where
  "Dee_once_hasrun self \<longleftrightarrow> oc_didrun self \<ge> Dee_ONCE_COMPLETED_THRESHOLD"

text \<open>Another thread is running: wait for it, or say so.\<close>

fun once_busy :: "once_op \<Rightarrow> u32 \<Rightarrow> (once_point, u32) pc" where
  "once_busy BEGIN state = CALL ONCE_REREAD state"
| "once_busy TRYBEGIN state = AT ONCE_IDLE"

text \<open>After \<open>atomic_fetchinc\<close> returned \<open>state\<close>.\<close>

definition once_after_inc :: "once_op \<Rightarrow> u32 \<Rightarrow> (once_point, u32) pc" where
  "once_after_inc op state =
     (if state \<ge> Dee_ONCE_COMPLETED_THRESHOLD then AT ONCE_FIX
      else if state = 0 then AT ONCE_RUN
      else
        let state = state + 1
        in if state \<ge> 3 then AT (ONCE_CMPXCH op state) else once_busy op state)"

text \<open>After the word was read again behind a wait.\<close>

definition once_after_wait :: "u32 \<Rightarrow> (once_point, u32) pc" where
  "once_after_wait state =
     (if state \<ge> Dee_ONCE_COMPLETED_THRESHOLD then AT ONCE_IDLE
      else if state \<le> 1 then AT (ONCE_INC BEGIN)
      else CALL ONCE_REREAD state)"

text \<open>
  The counter does not run over: the increments of threads that found the block running stay
  below \<open>2\<^sup>3\<^sup>1\<close> (each is followed by an attempt to reset the counter to 2).
\<close>

inductive once_step :: "once \<Rightarrow> once \<Rightarrow> bool" where
  once_call: "once_pc s t = AT ONCE_IDLE \<Longrightarrow>
    once_step s (s\<lparr>once_pc := (once_pc s)(t := AT (ONCE_READ op))\<rparr>)"
| once_read: "once_pc s t = AT (ONCE_READ op) \<Longrightarrow>
    once_step s (s\<lparr>once_pc := (once_pc s)(t := AT (if Dee_once_hasrun s then ONCE_IDLE else ONCE_INC op))\<rparr>)"
| once_inc: "once_pc s t = AT (ONCE_INC op) \<Longrightarrow>
    oc_didrun s \<noteq> Dee_ONCE_COMPLETED_THRESHOLD - 1 \<Longrightarrow> oc_didrun s \<noteq> - 1 \<Longrightarrow>
    once_step s (s\<lparr>oc_didrun := oc_didrun s + 1,
      once_pc := (once_pc s)(t := once_after_inc op (oc_didrun s))\<rparr>)"
| once_fix: "once_pc s t = AT ONCE_FIX \<Longrightarrow>
    once_step s (s\<lparr>oc_didrun := Dee_ONCE_COMPLETED_THRESHOLD, once_pc := (once_pc s)(t := AT ONCE_IDLE)\<rparr>)"
| once_cmpxch: "once_pc s t = AT (ONCE_CMPXCH op state) \<Longrightarrow>
    once_step s (s\<lparr>oc_didrun := (if oc_didrun s = state then 2 else oc_didrun s),
      once_pc := (once_pc s)(t := once_busy op 2)\<rparr>)"
| once_futex: "futex_wait (oc_didrun s) (once_pc s) pcs \<Longrightarrow>
    once_step s (s\<lparr>once_pc := pcs\<rparr>)"
| once_waited: "once_pc s t = RET p status \<Longrightarrow>
    once_step s (s\<lparr>once_pc := (once_pc s)(t := AT (if status \<noteq> 0 then ONCE_IDLE else p))\<rparr>)"
| once_reread: "once_pc s t = AT ONCE_REREAD \<Longrightarrow>
    once_step s (s\<lparr>once_pc := (once_pc s)(t := once_after_wait (oc_didrun s))\<rparr>)"
| once_commit: "once_pc s t = AT ONCE_RUN \<Longrightarrow>
    once_step s (s\<lparr>oc_didrun := Dee_ONCE_COMPLETED_THRESHOLD,
      once_pc := (once_pc s)(t := AT (if oc_didrun s \<ge> 2 then ONCE_WAKE else ONCE_IDLE))\<rparr>)"
| once_abort: "once_pc s t = AT ONCE_RUN \<Longrightarrow>
    once_step s (s\<lparr>oc_didrun := 0,
      once_pc := (once_pc s)(t := AT (if oc_didrun s \<ge> 2 then ONCE_WAKE else ONCE_IDLE))\<rparr>)"
| once_wake: "once_pc s t = AT ONCE_WAKE \<Longrightarrow>
    once_step s (s\<lparr>once_pc := (wake_all (once_pc s))(t := AT ONCE_IDLE)\<rparr>)"

definition once_reachable :: "once \<Rightarrow> bool" where
  "once_reachable s \<longleftrightarrow> once_step\<^sup>*\<^sup>* Dee_ONCE_INIT s"

section \<open>The invariant\<close>

definition runs :: "(once_point, u32) pc \<Rightarrow> bool" where
  "runs c \<longleftrightarrow> c = AT ONCE_RUN"

definition pending :: "u32 \<Rightarrow> bool" where
  "pending w \<longleftrightarrow> 2 \<le> w \<and> w < Dee_ONCE_COMPLETED_THRESHOLD"

fun once_point_ok :: "u32 \<Rightarrow> (once_point, u32) pc \<Rightarrow> bool" where
  "once_point_ok w (AT ONCE_FIX) \<longleftrightarrow> w \<ge> Dee_ONCE_COMPLETED_THRESHOLD"
| "once_point_ok w (AT (ONCE_CMPXCH op state)) \<longleftrightarrow> pending state"
| "once_point_ok w (AT p) \<longleftrightarrow> True"
| "once_point_ok w (CALL p state) \<longleftrightarrow> p = ONCE_REREAD \<and> pending state"
| "once_point_ok w (ASLEEP p state) \<longleftrightarrow> p = ONCE_REREAD \<and> pending state"
| "once_point_ok w (RET p r) \<longleftrightarrow> p = ONCE_REREAD"

definition running :: "u32 \<Rightarrow> bool" where
  "running w \<longleftrightarrow> w \<noteq> 0 \<and> w < Dee_ONCE_COMPLETED_THRESHOLD"

definition once_inv :: "once \<Rightarrow> bool" where
  "once_inv s \<longleftrightarrow>
     tallied (bit_of runs) (once_pc s)
     \<and> tally (bit_of runs) (once_pc s) = bit_of running (oc_didrun s)
     \<and> (\<forall>t. once_point_ok (oc_didrun s) (once_pc s t))
     \<and> ((\<exists>t. asleep (once_pc s t)) \<longrightarrow> pending (oc_didrun s) \<or> (\<exists>t. once_pc s t = AT ONCE_WAKE))"

text \<open>A step of one thread that leaves the word or moves it between pending values.\<close>

lemma once_point_ok_word:
  "once_point_ok w c \<Longrightarrow> (w \<ge> Dee_ONCE_COMPLETED_THRESHOLD \<Longrightarrow> w' \<ge> Dee_ONCE_COMPLETED_THRESHOLD)
    \<Longrightarrow> once_point_ok w' c"
  by (induction w c rule: once_point_ok.induct) auto

lemma once_invI:
  assumes "tallied (bit_of runs) f" "tally (bit_of runs) f = bit_of running w" "\<And>u. once_point_ok w (f u)"
    and "\<And>u. asleep (f u) \<Longrightarrow> pending w \<or> (\<exists>u. f u = AT ONCE_WAKE)"
  shows "once_inv (s\<lparr>oc_didrun := w, once_pc := f\<rparr>)"
  using assms unfolding once_inv_def by auto

lemma once_inv_upd:
  assumes "once_inv s" "once_pc s t = c"
    and "bit_of running w + bit_of runs c = bit_of running (oc_didrun s) + bit_of runs c'"
    and "once_point_ok w c'"
    and "oc_didrun s \<ge> Dee_ONCE_COMPLETED_THRESHOLD \<Longrightarrow> w \<ge> Dee_ONCE_COMPLETED_THRESHOLD"
    and "c' = AT ONCE_WAKE \<or> (pending (oc_didrun s) \<longrightarrow> pending w) \<and> c \<noteq> AT ONCE_WAKE \<and> \<not> asleep c'"
  shows "once_inv (s\<lparr>oc_didrun := w, once_pc := (once_pc s)(t := c')\<rparr>)"
proof -
  have T: "tallied (bit_of runs) (once_pc s)" using assms(1) by (simp add: once_inv_def)
  have 1: "tally (bit_of runs) ((once_pc s)(t := c')) = bit_of running w"
    using tally_upd [OF T, of t c'] assms(1-3) by (simp add: once_inv_def)
  have 2: "once_point_ok w (((once_pc s)(t := c')) u)" for u
    using assms(1,4) once_point_ok_word [where c = "once_pc s u" and w = "oc_didrun s" and w' = w, OF _ assms(5)] by (simp add: once_inv_def)
  have 3: "pending w \<or> (\<exists>u. ((once_pc s)(t := c')) u = AT ONCE_WAKE)"
    if "asleep (((once_pc s)(t := c')) u)" for u
  proof (cases "c' = AT ONCE_WAKE")
    case True
    then show ?thesis by (intro disjI2 exI [of _ t]) simp
  next
    case False
    then have c: "pending (oc_didrun s) \<longrightarrow> pending w" "c \<noteq> AT ONCE_WAKE" "\<not> asleep c'" using assms(6) by auto
    then have "asleep (once_pc s u)" using that by (auto split: if_splits)
    then consider "pending (oc_didrun s)" | v where "once_pc s v = AT ONCE_WAKE"
      using assms(1) unfolding once_inv_def by blast
    then show ?thesis
    proof cases
      case 2
      then have "v \<noteq> t" using c(2) assms(2) by auto
      then show ?thesis using 2 by (intro disjI2 exI [of _ v]) simp
    qed (use c in simp)
  qed
  show ?thesis by (rule once_invI [OF tallied_upd [OF T] 1 2 3])
qed

lemma once_inc_word:
  fixes w :: u32
  assumes "w \<noteq> Dee_ONCE_COMPLETED_THRESHOLD - 1" "w \<noteq> - 1"
  shows "Dee_ONCE_COMPLETED_THRESHOLD \<le> w + 1 \<longleftrightarrow> Dee_ONCE_COMPLETED_THRESHOLD \<le> w"
    and "running (w + 1) \<longleftrightarrow> w < Dee_ONCE_COMPLETED_THRESHOLD"
    and "running w \<Longrightarrow> pending (w + 1)"
    and "w + 1 \<noteq> 0"
proof -
  define n where "n = unat w"
  have w: "w = word_of_nat n" by (simp add: n_def)
  have "n < 2 ^ 32" using unsigned_less [of w, where 'a = nat] by (simp add: n_def)
  moreover have "n \<noteq> 2 ^ 31 - 1" using assms(1) w by (auto simp: Dee_ONCE_COMPLETED_THRESHOLD_def)
  moreover have "n \<noteq> 2 ^ 32 - 1" 
  proof
    assume "n = 2 ^ 32 - 1"
    then have "w + 1 = 0" using w by simp
    with assms(2) show False by (simp add: eq_neg_iff_add_eq_0)
  qed
  ultimately have n: "n < 2 ^ 32" "n \<noteq> 2 ^ 31 - 1" "n \<noteq> 2 ^ 32 - 1" by blast+
  then have s: "unat (w + 1) = n + 1"
    by (simp add: unat_word_ariths n_def)
  have T: "unat Dee_ONCE_COMPLETED_THRESHOLD = 2 ^ 31" by (simp add: Dee_ONCE_COMPLETED_THRESHOLD_def)
  have le: "Dee_ONCE_COMPLETED_THRESHOLD \<le> w + 1 \<longleftrightarrow> 2 ^ 31 \<le> n + 1" "Dee_ONCE_COMPLETED_THRESHOLD \<le> w \<longleftrightarrow> 2 ^ 31 \<le> n"
    by (simp_all add: word_le_nat_alt T s n_def)
  have "2 ^ 31 \<le> n + 1 \<longleftrightarrow> 2 ^ 31 \<le> n" using n(2) by simp linarith
  with le show 1: "Dee_ONCE_COMPLETED_THRESHOLD \<le> w + 1 \<longleftrightarrow> Dee_ONCE_COMPLETED_THRESHOLD \<le> w" by blast
  have z: "w + 1 \<noteq> 0" using s by (metis Suc_eq_plus1 nat.distinct(1) unsigned_0)
  then show "running (w + 1) \<longleftrightarrow> w < Dee_ONCE_COMPLETED_THRESHOLD"
    unfolding running_def using 1 by (simp add: not_le [symmetric])
  show "pending (w + 1)" if "running w"
  proof -
    have "n \<noteq> 0" using that by (simp add: running_def n_def unsigned_eq_0_iff)
    then have "2 \<le> w + 1" using s by (simp add: word_le_nat_alt)
    then show ?thesis using that 1 by (simp add: running_def pending_def not_le [symmetric])
  qed
  show "w + 1 \<noteq> 0" by (rule z)
qed

lemma once_inv_same:
  assumes "once_inv s" "\<And>t. same_wait (once_pc s t) (pcs t)"
    and "\<And>t. asleep (pcs t) \<Longrightarrow> asleep (once_pc s t) \<or> pending (oc_didrun s)"
  shows "once_inv (s\<lparr>once_pc := pcs\<rparr>)"
proof -
  have r: "bit_of runs (pcs t) = bit_of runs (once_pc s t)" for t
    using same_wait_AT [OF assms(2)] by (simp add: bit_of_def runs_def)
  have "once_point_ok (oc_didrun s) (pcs t)" for t
  proof -
    have "once_point_ok (oc_didrun s) (once_pc s t)" using assms(1) by (simp add: once_inv_def)
    with assms(2) [of t] show ?thesis by (cases "once_pc s t") auto
  qed
  moreover have "pending (oc_didrun s) \<or> (\<exists>t. pcs t = AT ONCE_WAKE)" if "asleep (pcs t)" for t
    using assms(1) assms(3) [OF that] same_wait_AT [OF assms(2)] unfolding once_inv_def by metis
  ultimately show ?thesis
    using assms(1) unfolding once_inv_def
    by (auto simp: tally_cong [of "bit_of runs" pcs, OF r] tallied_cong [of "bit_of runs" pcs, OF r])
qed

lemma once_inv_move:
  assumes "once_inv s" "once_pc s t = c" "\<not> runs c" "\<not> runs c'" "once_point_ok (oc_didrun s) c'"
    and "c \<noteq> AT ONCE_WAKE" "\<not> asleep c'"
  shows "once_inv (s\<lparr>once_pc := (once_pc s)(t := c')\<rparr>)"
  using once_inv_upd [OF assms(1,2), of "oc_didrun s" c'] assms(3-) by simp

lemma pending_two [simp]: "pending 2"
  by (simp add: pending_def Dee_ONCE_COMPLETED_THRESHOLD_def)

lemma once_busy_ok [simp]: "once_point_ok w (once_busy op 2)" "\<not> runs (once_busy op st)" "\<not> asleep (once_busy op st)"
  by (cases op; simp add: runs_def)+

lemma once_runs_word: "once_inv s \<Longrightarrow> once_pc s t = AT ONCE_RUN \<Longrightarrow> running (oc_didrun s)"
  using tally_pos [of "bit_of runs" "once_pc s" t] by (auto simp: once_inv_def runs_def bit_of_def split: if_splits)

lemma running_cases: "running w \<Longrightarrow> \<not> 2 \<le> w \<Longrightarrow> \<not> pending w"
  by (simp add: pending_def)

lemma threshold_simps [simp]:
  "0 < Dee_ONCE_COMPLETED_THRESHOLD" "1 < Dee_ONCE_COMPLETED_THRESHOLD" "Dee_ONCE_COMPLETED_THRESHOLD \<noteq> 0"
  by (simp_all add: Dee_ONCE_COMPLETED_THRESHOLD_def)

lemma pending_running: "pending w \<Longrightarrow> running w"
  by (auto simp: pending_def running_def)

lemma word_two_le: "(2 :: u32) \<le> w \<longleftrightarrow> \<not> w \<le> 1"
  by (simp add: word_le_nat_alt) linarith

lemma once_inv_init: "once_inv Dee_ONCE_INIT"
  by (simp add: once_inv_def Dee_ONCE_INIT_def runs_def running_def)

lemma once_step_inv:
  assumes "once_step s s'" "once_inv s"
  shows "once_inv s'"
  using assms(1)
proof cases
  case (once_inc t op)
  let ?w = "oc_didrun s"
  note W = once_inc_word [OF once_inc(3,4)]
  have ok: "once_point_ok (?w + 1) (once_after_inc op ?w)"
  proof (cases "running ?w")
    case True
    then show ?thesis using W(3) [OF True]
      by (cases op) (auto simp: once_after_inc_def Let_def running_def)
  qed (auto simp: once_after_inc_def Let_def running_def W(1) not_less)
  have "bit_of running (?w + 1) = bit_of running ?w + bit_of runs (once_after_inc op ?w)"
    using W(2) by (cases op) (auto simp: once_after_inc_def Let_def running_def runs_def bit_of_def)
  moreover have "pending ?w \<longrightarrow> pending (?w + 1)"
    using W(3) pending_running by blast
  moreover have "\<not> asleep (once_after_inc op ?w)" by (auto simp: once_after_inc_def Let_def)
  ultimately show ?thesis unfolding once_inc(1)
    using once_inv_upd [OF assms(2) once_inc(2), of "?w + 1" "once_after_inc op ?w"] ok W(1)
    by (simp add: runs_def)
next
  case (once_fix t)
  have "\<not> running (oc_didrun s)" "Dee_ONCE_COMPLETED_THRESHOLD \<le> oc_didrun s"
    using assms(2) once_fix(2) by (auto simp: once_inv_def running_def dest: spec [of _ t])
  then show ?thesis unfolding once_fix(1)
    using once_inv_upd [OF assms(2) once_fix(2), of Dee_ONCE_COMPLETED_THRESHOLD "AT ONCE_IDLE"]
    by (simp add: runs_def running_def pending_def leD)
next
  case (once_cmpxch t op state)
  let ?w = "if oc_didrun s = state then 2 else oc_didrun s"
  have p: "pending state" using assms(2) once_cmpxch(2) by (auto simp: once_inv_def dest: spec [of _ t])
  then have "running (oc_didrun s) = running ?w" "pending (oc_didrun s) \<longrightarrow> pending ?w"
    "Dee_ONCE_COMPLETED_THRESHOLD \<le> oc_didrun s \<longrightarrow> Dee_ONCE_COMPLETED_THRESHOLD \<le> ?w"
    by (auto simp: running_def pending_def Dee_ONCE_COMPLETED_THRESHOLD_def)
  moreover have "bit_of runs (AT (ONCE_CMPXCH op state)) = 0" "bit_of runs (once_busy op 2) = 0"
    by (simp_all add: runs_def) (metis once_busy_ok(2) runs_def)
  ultimately show ?thesis unfolding once_cmpxch(1)
    by (intro once_inv_upd [OF assms(2) once_cmpxch(2)]) (simp_all add: bit_of_def [of running])
next
  case (once_futex pcs)
  show ?thesis unfolding once_futex(1)
  proof (rule once_inv_same [OF assms(2) futex_wait_same [OF once_futex(2)]])
    fix t assume "asleep (pcs t)"
    then consider "asleep (once_pc s t)" | p where "once_pc s t = CALL p (oc_didrun s)"
      using futex_wait_asleep [OF once_futex(2)] by blast
    then show "asleep (once_pc s t) \<or> pending (oc_didrun s)"
      using assms(2) unfolding once_inv_def by cases (auto dest: spec [of _ t])
  qed
next
  case (once_commit t)
  have r: "running (oc_didrun s)" by (rule once_runs_word [OF assms(2) once_commit(2)])
  then show ?thesis unfolding once_commit(1)
    using once_inv_upd [OF assms(2) once_commit(2), of Dee_ONCE_COMPLETED_THRESHOLD
        "AT (if oc_didrun s \<ge> 2 then ONCE_WAKE else ONCE_IDLE)"]
    by (auto simp: runs_def running_def pending_def bit_of_def)
next
  case (once_abort t)
  have r: "running (oc_didrun s)" by (rule once_runs_word [OF assms(2) once_abort(2)])
  then show ?thesis unfolding once_abort(1)
    using once_inv_upd [OF assms(2) once_abort(2), of 0 "AT (if oc_didrun s \<ge> 2 then ONCE_WAKE else ONCE_IDLE)"]
    by (auto simp: runs_def running_def pending_def bit_of_def)
next
  case (once_wake t)
  let ?s = "s\<lparr>once_pc := wake_all (once_pc s)\<rparr>"
  have i: "once_inv ?s" by (rule once_inv_same [OF assms(2)]) (simp_all add: wake_all_same)
  have "wake_all (once_pc s) t = AT ONCE_WAKE" using once_wake(2) by (simp add: wake_all_def)
  then have p: "tally (bit_of runs) ((wake_all (once_pc s))(t := AT ONCE_IDLE)) = tally (bit_of runs) (wake_all (once_pc s))"
    using tally_upd [of "bit_of runs" "wake_all (once_pc s)" t "AT ONCE_IDLE"] i by (simp add: once_inv_def runs_def)
  have "once_inv (s\<lparr>oc_didrun := oc_didrun s, once_pc := (wake_all (once_pc s))(t := AT ONCE_IDLE)\<rparr>)"
    by (rule once_invI) (use i p in \<open>auto simp: once_inv_def split: if_splits\<close>)
  then show ?thesis unfolding once_wake(1) by simp
next
  case (once_call t op)
  show ?thesis unfolding once_call(1) by (rule once_inv_move [OF assms(2) once_call(2)]) (simp_all add: runs_def)
next
  case (once_read t op)
  show ?thesis unfolding once_read(1) by (rule once_inv_move [OF assms(2) once_read(2)]) (simp_all add: runs_def)
next
  case (once_waited t p status)
  have "p = ONCE_REREAD" using assms(2) once_waited(2) by (auto simp: once_inv_def dest: spec [of _ t])
  then show ?thesis unfolding once_waited(1)
    by (intro once_inv_move [OF assms(2) once_waited(2)]) (simp_all add: runs_def)
next
  case (once_reread t)
  have "once_point_ok (oc_didrun s) (once_after_wait (oc_didrun s))"
    by (auto simp: once_after_wait_def pending_def word_two_le)
  then show ?thesis unfolding once_reread(1)
    by (intro once_inv_move [OF assms(2) once_reread(2)]) (auto simp: runs_def once_after_wait_def)
qed

lemma once_reachable_inv: "once_reachable s \<Longrightarrow> once_inv s"
  unfolding once_reachable_def
  by (induction rule: rtranclp_induct) (auto intro: once_inv_init once_step_inv)

lemma once_step_final:
  assumes "once_step s s'" "once_inv s" "Dee_once_hasrun s"
  shows "Dee_once_hasrun s'"
  using assms(1)
proof cases
  case (once_inc t op)
  then show ?thesis using once_inc_word(1) assms(3) by (simp add: Dee_once_hasrun_def)
next
  case (once_cmpxch t op state)
  then have "pending state" using assms(2) by (auto simp: once_inv_def dest: spec [of _ t])
  then show ?thesis using once_cmpxch(1) assms(3) by (auto simp: Dee_once_hasrun_def pending_def)
next
  case (once_abort t)
  then show ?thesis using once_runs_word [OF assms(2)] assms(3)
    by (auto simp: Dee_once_hasrun_def running_def leD)
qed (use assms(3) in \<open>simp_all add: Dee_once_hasrun_def\<close>)

section \<open>A thread that sleeps\<close>

definition once_state :: "u32 \<Rightarrow> (once_point, u32) pc \<Rightarrow> (once_point, u32) pc \<Rightarrow> once" where
  "once_state w a b = \<lparr>oc_didrun = w, once_pc = three_pcs (AT ONCE_IDLE) a b (AT ONCE_IDLE)\<rparr>"

lemma once_run_words:
  "\<not> Dee_ONCE_COMPLETED_THRESHOLD \<le> 0" "\<not> Dee_ONCE_COMPLETED_THRESHOLD \<le> 1"
  "Dee_ONCE_COMPLETED_THRESHOLD - 1 \<noteq> 0" "Dee_ONCE_COMPLETED_THRESHOLD - 1 \<noteq> 1"
  "0 \<noteq> Dee_ONCE_COMPLETED_THRESHOLD - 1" "1 \<noteq> Dee_ONCE_COMPLETED_THRESHOLD - 1"
  by (simp_all only: not_le threshold_simps) (simp_all add: Dee_ONCE_COMPLETED_THRESHOLD_def)

lemmas once_run_simps = once_state_def three_pcs_upd Dee_once_hasrun_def once_after_inc_def once_run_words

lemma once_reachable_init: "once_reachable (once_state 0 (AT ONCE_IDLE) (AT ONCE_IDLE))"
  by (simp add: once_reachable_def once_state_def Dee_ONCE_INIT_def three_pcs_idle)

lemma once_reachable_step: "once_reachable s \<Longrightarrow> once_step s s' \<Longrightarrow> once_reachable s'"
  unfolding once_reachable_def by (rule rtranclp.rtrancl_into_rtrancl)

lemma once_run_sleeps: "once_reachable (once_state 2 (AT ONCE_RUN) (ASLEEP ONCE_REREAD 2))"
proof -
  have "once_reachable (once_state 0 (AT ONCE_IDLE) (AT ONCE_IDLE))"
    by (rule once_reachable_init)
  then have "once_reachable (once_state 0 (AT (ONCE_READ BEGIN)) (AT ONCE_IDLE))"
    using once_call [of "once_state 0 (AT ONCE_IDLE) (AT ONCE_IDLE)" 0 BEGIN]
    by (elim once_reachable_step) (simp add: once_run_simps)
  then have "once_reachable (once_state 0 (AT (ONCE_INC BEGIN)) (AT ONCE_IDLE))"
    using once_read [of "once_state 0 (AT (ONCE_READ BEGIN)) (AT ONCE_IDLE)" 0 BEGIN]
    by (elim once_reachable_step) (simp add: once_run_simps)
  then have "once_reachable (once_state 1 (AT ONCE_RUN) (AT ONCE_IDLE))"
    using once_inc [of "once_state 0 (AT (ONCE_INC BEGIN)) (AT ONCE_IDLE)" 0 BEGIN]
    by (elim once_reachable_step) (simp add: once_run_simps)
  then have "once_reachable (once_state 1 (AT ONCE_RUN) (AT (ONCE_READ BEGIN)))"
    using once_call [of "once_state 1 (AT ONCE_RUN) (AT ONCE_IDLE)" 1 BEGIN]
    by (elim once_reachable_step) (simp add: once_run_simps)
  then have "once_reachable (once_state 1 (AT ONCE_RUN) (AT (ONCE_INC BEGIN)))"
    using once_read [of "once_state 1 (AT ONCE_RUN) (AT (ONCE_READ BEGIN))" 1 BEGIN]
    by (elim once_reachable_step) (simp add: once_run_simps)
  then have "once_reachable (once_state 2 (AT ONCE_RUN) (CALL ONCE_REREAD 2))"
    using once_inc [of "once_state 1 (AT ONCE_RUN) (AT (ONCE_INC BEGIN))" 1 BEGIN]
    by (elim once_reachable_step) (simp add: once_run_simps)
  then have "once_reachable (once_state 2 (AT ONCE_RUN) (ASLEEP ONCE_REREAD 2))"
    using once_futex [OF futex_sleep [of "once_pc (once_state 2 (AT ONCE_RUN) (CALL ONCE_REREAD 2))" 1 ONCE_REREAD 2 "oc_didrun (once_state 2 (AT ONCE_RUN) (CALL ONCE_REREAD 2))"]]
    by (elim once_reachable_step) (simp add: once_run_simps)
  then show ?thesis .
qed

section \<open>Properties\<close>

lemma exactly_once:
  assumes "once_reachable s" "once_step\<^sup>*\<^sup>* s s'"
  shows "(once_pc s t = AT ONCE_RUN \<and> once_pc s u = AT ONCE_RUN \<longrightarrow> t = u)
    \<and> ((\<exists>t. once_pc s t = AT ONCE_RUN) \<longleftrightarrow> oc_didrun s \<noteq> 0 \<and> \<not> Dee_once_hasrun s)
    \<and> (Dee_once_hasrun s \<longrightarrow> Dee_once_hasrun s' \<and> once_pc s' t \<noteq> AT ONCE_RUN)"
proof -
  have inv: "once_inv s" by (rule once_reachable_inv [OF assms(1)])
  have "once_inv s' \<and> (Dee_once_hasrun s \<longrightarrow> Dee_once_hasrun s')"
    using assms(2) inv by (induction rule: rtranclp_induct) (auto intro: once_step_inv once_step_final)
  moreover have "once_pc s' t \<noteq> AT ONCE_RUN" if "once_inv s'" "Dee_once_hasrun s'"
    using once_runs_word [OF that(1), of t] that(2) by (auto simp: Dee_once_hasrun_def running_def leD)
  moreover have "t = u" if "once_pc s t = AT ONCE_RUN" "once_pc s u = AT ONCE_RUN"
    by (rule tally_unique [of runs "once_pc s" t u "AT ONCE_IDLE"])
      (use inv that in \<open>auto simp: once_inv_def runs_def bit_of_def\<close>)
  moreover have "(\<exists>t. once_pc s t = AT ONCE_RUN) \<longleftrightarrow> oc_didrun s \<noteq> 0 \<and> \<not> Dee_once_hasrun s"
    using inv tally_zero [of "bit_of runs" "once_pc s"]
    by (auto simp: once_inv_def runs_def running_def Dee_once_hasrun_def not_le bit_of_def split: if_splits)
  ultimately show ?thesis by blast
qed

lemma once_attended:
  assumes "once_reachable s" "asleep (once_pc s t)"
  shows "\<exists>u. once_pc s u = AT ONCE_RUN \<or> once_pc s u = AT ONCE_WAKE"
proof -
  have inv: "once_inv s" by (rule once_reachable_inv [OF assms(1)])
  then consider "pending (oc_didrun s)" | u where "once_pc s u = AT ONCE_WAKE"
    using assms(2) unfolding once_inv_def by blast
  then show ?thesis
  proof cases
    case 1
    then have "tally (bit_of runs) (once_pc s) \<noteq> 0"
      using inv pending_running by (simp add: once_inv_def)
    then show ?thesis using inv tally_zero [of "bit_of runs" "once_pc s"] by (auto simp: once_inv_def runs_def)
  qed blast
qed

text \<open>
  C34: Exactly once, and nobody waits in vain.  In every interleaving of beginning, trying, committing
  and aborting: at most one thread is inside the once-block, the word says so
  (\<open>Dee_once_isrunning\<close>), and from a commit on the block counts as executed for ever and no thread
  enters it again.  Whenever a thread sleeps in \<open>Dee_once_begin\<close>, a thread is inside the once-block or
  about to wake all sleepers; so if every thread is idle or asleep, none is asleep.
\<close>

theorem once_exactly_once:
  assumes "once_reachable s" "once_step\<^sup>*\<^sup>* s s'"
  shows "(once_pc s t = AT ONCE_RUN \<and> once_pc s u = AT ONCE_RUN \<longrightarrow> t = u)
    \<and> ((\<exists>t. once_pc s t = AT ONCE_RUN) \<longleftrightarrow> oc_didrun s \<noteq> 0 \<and> \<not> Dee_once_hasrun s)
    \<and> (Dee_once_hasrun s \<longrightarrow> Dee_once_hasrun s' \<and> once_pc s' t \<noteq> AT ONCE_RUN)
    \<and> (asleep (once_pc s t) \<longrightarrow> (\<exists>u. once_pc s u = AT ONCE_RUN \<or> once_pc s u = AT ONCE_WAKE))"
  using exactly_once [OF assms, of t u] once_attended [OF assms(1), of t] by blast

theorem once_exactly_once_witness:
  "(\<exists>t. once_pc (once_state 2 (AT ONCE_RUN) (ASLEEP ONCE_REREAD 2)) t = AT ONCE_RUN)
     \<longleftrightarrow> oc_didrun (once_state 2 (AT ONCE_RUN) (ASLEEP ONCE_REREAD 2)) \<noteq> 0
       \<and> \<not> Dee_once_hasrun (once_state 2 (AT ONCE_RUN) (ASLEEP ONCE_REREAD 2))"
  using once_exactly_once [OF once_run_sleeps rtranclp.rtrancl_refl, of 0 1] by blast

end
