(* ===== verification/Semaphore.thy ===== *)
theory Semaphore
  imports Futex
begin

text \<open>
  The counting semaphore \<open>Dee_semaphore_t\<close> (include/deemon/util/lock.h, runtime/lock.c), step by
  step for interleaved threads.  \<open>SEM_ACQUIRE\<close> stands for \<open>acquire\<close>, \<open>acquire_noint\<close> and
  \<open>acquire_timed\<close> with a finite timeout, \<open>SEM_TRY\<close> for \<open>tryacquire\<close>, \<open>SEM_WAITFOR\<close> for the \<open>waitfor\<close>
  functions, and \<open>SEM_FOREVER\<close> for \<open>acquire_timed\<close> with the timeout \<open>(uint64_t)-1\<close>, which goes on
  as \<open>Dee_semaphore_waitfor\<close> (\<open>SEM_FOREVER_WAIT\<close>) when no ticket is available at once.

  Two counters of the history: \<open>acquired\<close> counts the calls of an acquire function that returned
  success, \<open>released\<close> the tickets released.
\<close>

datatype sem_op = SEM_ACQUIRE | SEM_TRY | SEM_WAITFOR | SEM_FOREVER | SEM_FOREVER_WAIT

datatype sem_point =
    SEM_IDLE
  | SEM_READ sem_op
  | SEM_TAKE sem_op u64
  | SEM_START sem_op
  | SEM_RELEASED u64
  | SEM_WAKE u64

record semaphore =
  se_tickets :: u64
  se_waiting :: u32
  sem_pc :: "(sem_point, u64) pcs"
  acquired :: nat
  released :: nat

definition Dee_SEMAPHORE_INIT :: "u64 \<Rightarrow> semaphore" where
  "Dee_SEMAPHORE_INIT n_tickets =
     \<lparr>se_tickets = n_tickets, se_waiting = 0, sem_pc = (\<lambda>_. AT SEM_IDLE), acquired = 0, released = 0\<rparr>"

text \<open>The operations a thread can call.\<close>

definition sem_calls :: "sem_op set" where
  "sem_calls = {SEM_ACQUIRE, SEM_TRY, SEM_WAITFOR, SEM_FOREVER}"

text \<open>Where a thread goes that has read the word \<open>temp\<close> (\<open>se_tickets\<close>).\<close>

fun sem_after_read :: "sem_op \<Rightarrow> u64 \<Rightarrow> sem_point" where
  "sem_after_read SEM_ACQUIRE temp = (if temp = 0 then SEM_START SEM_ACQUIRE else SEM_TAKE SEM_ACQUIRE temp)"
| "sem_after_read SEM_TRY temp = (if temp = 0 then SEM_IDLE else SEM_TAKE SEM_TRY temp)"
| "sem_after_read SEM_FOREVER temp = (if temp = 0 then SEM_READ SEM_FOREVER_WAIT else SEM_TAKE SEM_FOREVER temp)"
| "sem_after_read SEM_WAITFOR temp = (if temp = 0 then SEM_START SEM_WAITFOR else SEM_IDLE)"
| "sem_after_read SEM_FOREVER_WAIT temp = (if temp = 0 then SEM_START SEM_FOREVER_WAIT else SEM_IDLE)"

text \<open>Reading the word makes the function return success as an acquire.\<close>

definition sem_returns_acquired :: "sem_op \<Rightarrow> u64 \<Rightarrow> nat" where
  "sem_returns_acquired op temp = (if op = SEM_FOREVER_WAIT \<and> temp \<noteq> 0 then 1 else 0)"

inductive sem_step :: "sem_op set \<Rightarrow> semaphore \<Rightarrow> semaphore \<Rightarrow> bool" for ops where
  sem_call: "sem_pc s t = AT SEM_IDLE \<Longrightarrow> t < max_threads \<Longrightarrow> op \<in> ops \<Longrightarrow>
    sem_step ops s (s\<lparr>sem_pc := (sem_pc s)(t := AT (SEM_READ op))\<rparr>)"
| sem_read: "sem_pc s t = AT (SEM_READ op) \<Longrightarrow>
    sem_step ops s (s\<lparr>sem_pc := (sem_pc s)(t := AT (sem_after_read op (se_tickets s))),
      acquired := acquired s + sem_returns_acquired op (se_tickets s)\<rparr>)"
| sem_take: "sem_pc s t = AT (SEM_TAKE op temp) \<Longrightarrow> se_tickets s = temp \<Longrightarrow>
    sem_step ops s (s\<lparr>se_tickets := temp - 1, sem_pc := (sem_pc s)(t := AT SEM_IDLE),
      acquired := acquired s + 1\<rparr>)"
| sem_take_again: "sem_pc s t = AT (SEM_TAKE op temp) \<Longrightarrow>
    sem_step ops s (s\<lparr>sem_pc := (sem_pc s)(t := AT (SEM_READ op))\<rparr>)"
| sem_timeout: "sem_pc s t = AT (SEM_START op) \<Longrightarrow>
    sem_step ops s (s\<lparr>sem_pc := (sem_pc s)(t := AT SEM_IDLE)\<rparr>)"
| sem_waitfor_forever: "sem_pc s t = AT (SEM_START SEM_WAITFOR) \<Longrightarrow>
    sem_step ops s (s\<lparr>sem_pc := (sem_pc s)(t := AT (SEM_READ SEM_WAITFOR))\<rparr>)"
| sem_waiting_start: "sem_pc s t = AT (SEM_START op) \<Longrightarrow>
    sem_step ops s (s\<lparr>se_waiting := se_waiting s + 1, sem_pc := (sem_pc s)(t := CALL (SEM_READ op) 0)\<rparr>)"
| sem_futex: "futex_wait (se_tickets s) (sem_pc s) pcs \<Longrightarrow>
    sem_step ops s (s\<lparr>sem_pc := pcs\<rparr>)"
| sem_waiting_end: "sem_pc s t = RET p result \<Longrightarrow>
    sem_step ops s (s\<lparr>se_waiting := se_waiting s - 1,
      sem_pc := (sem_pc s)(t := AT (if result \<noteq> 0 then SEM_IDLE else p))\<rparr>)"
| sem_release: "sem_pc s t = AT SEM_IDLE \<Longrightarrow> t < max_threads \<Longrightarrow>
    sem_step ops s (s\<lparr>se_tickets := se_tickets s + n, sem_pc := (sem_pc s)(t := AT (SEM_RELEASED n)),
      released := released s + unat n\<rparr>)"
| sem_test: "sem_pc s t = AT (SEM_RELEASED n) \<Longrightarrow>
    sem_step ops s (s\<lparr>sem_pc := (sem_pc s)(t := AT (if se_waiting s \<noteq> 0 then SEM_WAKE n else SEM_IDLE))\<rparr>)"
| sem_wake_one: "sem_pc s t = AT (SEM_WAKE n) \<Longrightarrow> n \<le> 1 \<Longrightarrow> wake_one (sem_pc s) pcs \<Longrightarrow>
    sem_step ops s (s\<lparr>sem_pc := pcs(t := AT SEM_IDLE)\<rparr>)"
| sem_wake_all: "sem_pc s t = AT (SEM_WAKE n) \<Longrightarrow> \<not> n \<le> 1 \<Longrightarrow>
    sem_step ops s (s\<lparr>sem_pc := (wake_all (sem_pc s))(t := AT SEM_IDLE)\<rparr>)"

definition sem_reachable :: "sem_op set \<Rightarrow> u64 \<Rightarrow> semaphore \<Rightarrow> bool" where
  "sem_reachable ops n s \<longleftrightarrow> (sem_step ops)\<^sup>*\<^sup>* (Dee_SEMAPHORE_INIT n) s"

section \<open>Tickets are conserved\<close>

text \<open>The thread is in no call of \<open>acquire_timed\<close> without timeout.\<close>

fun finite_wait :: "(sem_point, u64) pc \<Rightarrow> bool" where
  "finite_wait (AT (SEM_READ op)) \<longleftrightarrow> op \<notin> {SEM_FOREVER, SEM_FOREVER_WAIT}"
| "finite_wait (AT (SEM_TAKE op temp)) \<longleftrightarrow> op \<notin> {SEM_FOREVER, SEM_FOREVER_WAIT} \<and> temp \<noteq> 0"
| "finite_wait (AT (SEM_START op)) \<longleftrightarrow> op \<notin> {SEM_FOREVER, SEM_FOREVER_WAIT}"
| "finite_wait (AT p) \<longleftrightarrow> True"
| "finite_wait (CALL p w) \<longleftrightarrow> p \<in> {SEM_READ SEM_ACQUIRE, SEM_READ SEM_TRY, SEM_READ SEM_WAITFOR}"
| "finite_wait (ASLEEP p w) \<longleftrightarrow> p \<in> {SEM_READ SEM_ACQUIRE, SEM_READ SEM_TRY, SEM_READ SEM_WAITFOR}"
| "finite_wait (RET p r) \<longleftrightarrow> p \<in> {SEM_READ SEM_ACQUIRE, SEM_READ SEM_TRY, SEM_READ SEM_WAITFOR}"

lemma same_wait_finite: "same_wait c c' \<Longrightarrow> finite_wait c \<Longrightarrow> finite_wait c'"
  by (cases c) auto

definition conserved :: "u64 \<Rightarrow> semaphore \<Rightarrow> bool" where
  "conserved n s \<longleftrightarrow> (\<forall>t. finite_wait (sem_pc s t))
     \<and> (unat n + released s < 2 ^ 64 \<longrightarrow> unat (se_tickets s) + acquired s = unat n + released s)"

lemma sem_step_conserved:
  assumes "sem_step ops s s'" "ops \<inter> {SEM_FOREVER, SEM_FOREVER_WAIT} = {}" "conserved n s"
  shows "conserved n s'"
  using assms(1)
proof cases
  case (sem_call t op)
  then have "op \<notin> {SEM_FOREVER, SEM_FOREVER_WAIT}" using assms(2) by blast
  then show ?thesis using sem_call(1) assms(3) by (simp add: conserved_def)
next
  case (sem_read t op)
  have "op \<notin> {SEM_FOREVER, SEM_FOREVER_WAIT}"
    using assms(3) sem_read(2) by (auto simp: conserved_def dest: spec [of _ t])
  then have "finite_wait (AT (sem_after_read op (se_tickets s)))" "sem_returns_acquired op (se_tickets s) = 0"
    by (cases op; simp add: sem_returns_acquired_def)+
  then show ?thesis using sem_read(1) assms(3) by (simp add: conserved_def)
next
  case (sem_take t op temp)
  have "temp \<noteq> 0" using assms(3) sem_take(2) by (auto simp: conserved_def dest: spec [of _ t])
  then have "unat temp = Suc (unat (temp - 1))"
    using unat_minus_one [of temp] by (simp add: unat_gt_0)
  then show ?thesis using sem_take(1,3) assms(3) by (simp add: conserved_def)
next
  case (sem_take_again t op temp)
  then have "op \<notin> {SEM_FOREVER, SEM_FOREVER_WAIT}"
    using assms(3) by (auto simp: conserved_def dest: spec [of _ t])
  then show ?thesis using sem_take_again(1) assms(3) by (simp add: conserved_def)
next
  case (sem_waiting_start t op)
  then have "op \<notin> {SEM_FOREVER, SEM_FOREVER_WAIT}"
    using assms(3) by (auto simp: conserved_def dest: spec [of _ t])
  then have "finite_wait (CALL (SEM_READ op) 0)" by (cases op) auto
  then show ?thesis using sem_waiting_start(1) assms(3) by (simp add: conserved_def)
next
  case (sem_futex pcs)
  then show ?thesis
    using same_wait_finite [OF futex_wait_same [OF sem_futex(2)]] assms(3) by (simp add: conserved_def)
next
  case (sem_waiting_end t p result)
  then have "p \<in> {SEM_READ SEM_ACQUIRE, SEM_READ SEM_TRY, SEM_READ SEM_WAITFOR}"
    using assms(3) by (auto simp: conserved_def dest: spec [of _ t])
  then have "finite_wait (AT p)" by auto
  then show ?thesis using sem_waiting_end(1) assms(3) by (simp add: conserved_def)
next
  case (sem_release t k)
  have "unat (se_tickets s + k) = unat (se_tickets s) + unat k"
    if "unat n + (released s + unat k) < 2 ^ 64" "unat (se_tickets s) + acquired s = unat n + released s"
    using that by (simp add: unat_word_ariths)
  then show ?thesis using sem_release(1) assms(3) by (auto simp: conserved_def)
next
  case (sem_wake_one t k pcs)
  then show ?thesis
    using same_wait_finite [OF wake_one_same [OF sem_wake_one(4)]] assms(3) by (simp add: conserved_def)
next
  case (sem_wake_all t k)
  have "finite_wait (wake_all (sem_pc s) u)" for u
    using same_wait_finite [OF wake_all_same] assms(3) by (simp add: conserved_def)
  then show ?thesis using sem_wake_all(1) assms(3) by (simp add: conserved_def)
qed (use assms(3) in \<open>simp_all add: conserved_def\<close>)

lemma conserved_init: "conserved n (Dee_SEMAPHORE_INIT n)"
  by (simp add: Dee_SEMAPHORE_INIT_def conserved_def)

lemma sem_reachable_conserved:
  assumes "sem_reachable ops n s" "ops \<inter> {SEM_FOREVER, SEM_FOREVER_WAIT} = {}"
  shows "conserved n s"
  using assms(1) unfolding sem_reachable_def
  by (induction rule: rtranclp_induct) (auto intro: conserved_init sem_step_conserved [OF _ assms(2)])

section \<open>Waiting threads are not forgotten\<close>

text \<open>How many tickets a thread that is not asleep accounts for.\<close>

fun sem_weight :: "(sem_point, u64) pc \<Rightarrow> nat" where
  "sem_weight (AT (SEM_READ op)) = 1"
| "sem_weight (AT (SEM_TAKE op temp)) = 1"
| "sem_weight (AT (SEM_RELEASED n)) = unat n"
| "sem_weight (AT (SEM_WAKE n)) = unat n"
| "sem_weight (RET p r) = (if r = 0 then 1 else 0)"
| "sem_weight _ = 0"

fun sem_point_ok :: "(sem_point, u64) pc \<Rightarrow> bool" where
  "sem_point_ok (AT (SEM_READ op)) \<longleftrightarrow> op \<in> {SEM_ACQUIRE, SEM_TRY}"
| "sem_point_ok (AT (SEM_TAKE op temp)) \<longleftrightarrow> op \<in> {SEM_ACQUIRE, SEM_TRY} \<and> temp \<noteq> 0"
| "sem_point_ok (AT (SEM_START op)) \<longleftrightarrow> op \<in> {SEM_ACQUIRE, SEM_TRY}"
| "sem_point_ok (AT p) \<longleftrightarrow> True"
| "sem_point_ok (CALL p w) \<longleftrightarrow> p \<in> {SEM_READ SEM_ACQUIRE, SEM_READ SEM_TRY} \<and> w = 0"
| "sem_point_ok (ASLEEP p w) \<longleftrightarrow> p \<in> {SEM_READ SEM_ACQUIRE, SEM_READ SEM_TRY} \<and> w = 0"
| "sem_point_ok (RET p r) \<longleftrightarrow> p \<in> {SEM_READ SEM_ACQUIRE, SEM_READ SEM_TRY}"

definition sem_attended :: "semaphore \<Rightarrow> bool" where
  "sem_attended s \<longleftrightarrow>
     tallied sem_weight (sem_pc s) \<and> tallied (bit_of in_wait) (sem_pc s)
     \<and> (\<forall>t. sem_point_ok (sem_pc s t)) \<and> (\<forall>t. max_threads \<le> t \<longrightarrow> sem_pc s t = AT SEM_IDLE)
     \<and> se_waiting s = of_nat (tally (bit_of in_wait) (sem_pc s))
     \<and> ((\<exists>t. asleep (sem_pc s t)) \<longrightarrow> unat (se_tickets s) \<le> tally sem_weight (sem_pc s))"

lemma sem_attended_upd:
  assumes "sem_attended s" "sem_pc s t = c" "t < max_threads" "sem_point_ok c'"
    and "w + of_nat (bit_of in_wait c) = se_waiting s + of_nat (bit_of in_wait c')"
    and "(\<exists>u. asleep (((sem_pc s)(t := c')) u)) \<Longrightarrow> unat k + sem_weight c \<le> unat (se_tickets s) + sem_weight c'
      \<and> (asleep c' \<longrightarrow> asleep c) \<or> k = 0"
  shows "sem_attended (s\<lparr>se_tickets := k, se_waiting := w, sem_pc := (sem_pc s)(t := c'), acquired := a, released := r\<rparr>)"
proof -
  have T: "tallied sem_weight (sem_pc s)" "tallied (bit_of in_wait) (sem_pc s)"
    using assms(1) by (simp_all add: sem_attended_def)
  have W: "tally (bit_of in_wait) ((sem_pc s)(t := c')) + bit_of in_wait c
      = tally (bit_of in_wait) (sem_pc s) + bit_of in_wait c'"
    using tally_upd [OF T(2), of t c'] assms(2) by simp
  have "(of_nat (tally (bit_of in_wait) ((sem_pc s)(t := c'))) :: u32) + of_nat (bit_of in_wait c)
      = of_nat (tally (bit_of in_wait) (sem_pc s)) + of_nat (bit_of in_wait c')"
    using arg_cong [OF W, of "of_nat :: nat \<Rightarrow> u32"] by (simp only: of_nat_add)
  then have w: "w = of_nat (tally (bit_of in_wait) ((sem_pc s)(t := c')))"
    using assms(1,5) unfolding sem_attended_def by (metis add_right_cancel)
  have h: "tally sem_weight ((sem_pc s)(t := c')) + sem_weight c = tally sem_weight (sem_pc s) + sem_weight c'"
    using tally_upd [OF T(1), of t c'] assms(2) by simp
  have "unat k \<le> tally sem_weight ((sem_pc s)(t := c'))" if u: "asleep (((sem_pc s)(t := c')) u)" for u
  proof -
    from assms(6) u consider "k = 0"
      | "unat k + sem_weight c \<le> unat (se_tickets s) + sem_weight c'" "asleep c' \<longrightarrow> asleep c" by blast
    then show ?thesis
    proof cases
      case 2
      then have "\<exists>u. asleep (sem_pc s u)" using u assms(2) by (auto split: if_splits)
      then have "unat (se_tickets s) \<le> tally sem_weight (sem_pc s)" using assms(1) by (simp add: sem_attended_def)
      with 2 h show ?thesis by linarith
    qed simp
  qed
  moreover have "sem_point_ok (((sem_pc s)(t := c')) u)" for u
    using assms(1,4) by (simp add: sem_attended_def)
  moreover have "max_threads \<le> u \<Longrightarrow> ((sem_pc s)(t := c')) u = AT SEM_IDLE" for u
    using assms(1,3) by (simp add: sem_attended_def)
  ultimately show ?thesis
    using T w unfolding sem_attended_def by (simp del: fun_upd_apply) blast
qed

lemma sem_attended_init: "sem_attended (Dee_SEMAPHORE_INIT n)"
  by (simp add: sem_attended_def Dee_SEMAPHORE_INIT_def)

lemma sem_thread: "sem_attended s \<Longrightarrow> sem_pc s t \<noteq> AT SEM_IDLE \<Longrightarrow> t < max_threads"
  unfolding sem_attended_def by (meson not_le_imp_less)

lemma sem_ok: "sem_attended s \<Longrightarrow> sem_point_ok (sem_pc s t)"
  by (simp add: sem_attended_def)

text \<open>A thread moves on; no ticket and no waiting thread comes or goes.\<close>

lemma sem_attended_move:
  assumes "sem_attended s" "sem_pc s t = c" "c \<noteq> AT SEM_IDLE" "sem_point_ok c'" "in_wait c' = in_wait c"
    and "sem_weight c \<le> sem_weight c' \<and> (asleep c' \<longrightarrow> asleep c) \<or> se_tickets s = 0
      \<or> (\<forall>u. \<not> asleep (((sem_pc s)(t := c')) u))"
  shows "sem_attended (s\<lparr>sem_pc := (sem_pc s)(t := c')\<rparr>)"
proof -
  have "t < max_threads" using sem_thread [OF assms(1)] assms(2,3) by blast
  then have "sem_attended (s\<lparr>se_tickets := se_tickets s, se_waiting := se_waiting s,
      sem_pc := (sem_pc s)(t := c'), acquired := acquired s, released := released s\<rparr>)"
    using assms by (intro sem_attended_upd [OF assms(1,2)]) (auto simp: bit_of_def)
  then show ?thesis by simp
qed


text \<open>Waits and wakes: no weight is lost.\<close>

lemma sem_attended_same:
  assumes "sem_attended s" "\<And>t. same_wait (sem_pc s t) (pcs t)"
    and "\<exists>t. asleep (pcs t) \<Longrightarrow> (\<exists>t. asleep (sem_pc s t)) \<or> se_tickets s = 0"
  shows "sem_attended (s\<lparr>sem_pc := pcs\<rparr>)"
proof -
  have T: "tallied sem_weight (sem_pc s)" "tallied (bit_of in_wait) (sem_pc s)"
    using assms(1) by (simp_all add: sem_attended_def)
  have w: "bit_of in_wait (pcs t) = bit_of in_wait (sem_pc s t)" for t
    using same_wait_in_wait [OF assms(2)] by (simp add: bit_of_def)
  have le: "sem_weight (sem_pc s t) \<le> sem_weight (pcs t)" for t
    using assms(2) [of t] by (cases "sem_pc s t") auto
  have "sem_weight (sem_pc s t) \<noteq> 0 \<or> in_wait (sem_pc s t)" if "sem_weight (pcs t) \<noteq> 0" for t
    using that assms(2) [of t] by (cases "sem_pc s t") auto
  then have "{t. sem_weight (pcs t) \<noteq> 0} \<subseteq> {t. sem_weight (sem_pc s t) \<noteq> 0} \<union> {t. bit_of in_wait (sem_pc s t) \<noteq> 0}"
    by auto
  then have T': "tallied sem_weight pcs"
    using T unfolding tallied_def by (meson finite_UnI finite_subset)
  then have mono: "tally sem_weight (sem_pc s) \<le> tally sem_weight pcs"
    using T(1) le by (intro tally_mono)
  have "sem_point_ok (pcs t)" for t
    using sem_ok [OF assms(1), of t] assms(2) [of t] by (cases "sem_pc s t") auto
  moreover have "unat (se_tickets s) \<le> tally sem_weight pcs" if "asleep (pcs t)" for t
    using assms(1,3) that mono unfolding sem_attended_def by fastforce
  ultimately show ?thesis
    using assms(1) T T' same_wait_AT [OF assms(2)] unfolding sem_attended_def
    by (auto simp: tally_cong [of "bit_of in_wait" pcs, OF w] tallied_cong [of "bit_of in_wait" pcs, OF w])
qed

lemma sem_wake_one_attended:
  assumes "sem_attended s" "sem_pc s t = AT (SEM_WAKE n)" "n \<le> 1" "wake_one (sem_pc s) pcs"
  shows "sem_attended (s\<lparr>sem_pc := pcs(t := AT SEM_IDLE)\<rparr>)"
proof -
  let ?s = "s\<lparr>sem_pc := pcs\<rparr>"
  have i: "sem_attended ?s"
    by (rule sem_attended_same [OF assms(1) wake_one_same [OF assms(4)]])
      (use wake_one_asleep [OF assms(4)] in blast)
  have t: "sem_pc ?s t = AT (SEM_WAKE n)" using same_wait_AT [OF wake_one_same [OF assms(4)]] assms(2) by simp
  have n: "unat n \<le> 1" using assms(3) by (simp add: word_le_nat_alt)
  show ?thesis
  proof (cases "\<exists>u. asleep (sem_pc s u)")
    case False
    then have "\<not> asleep ((pcs(t := AT SEM_IDLE)) u)" for u
      using wake_one_asleep [OF assms(4), of u] by auto
    then show ?thesis using sem_attended_move [OF i t, of "AT SEM_IDLE"] by auto
  next
    case True
    then have le: "unat (se_tickets s) \<le> tally sem_weight (sem_pc s)" using assms(1) by (simp add: sem_attended_def)
    obtain u where u: "asleep (sem_pc s u)" "pcs = (sem_pc s)(u := woken (sem_pc s u))"
      using assms(4) True by (cases rule: wake_one.cases) auto
    obtain p w where pw: "sem_pc s u = ASLEEP p w" using u(1) by (cases "sem_pc s u") auto
    have T: "tallied sem_weight (sem_pc s)" "tallied sem_weight pcs" using assms(1) i by (simp_all add: sem_attended_def)
    have "tally sem_weight pcs = tally sem_weight (sem_pc s) + 1"
      using tally_upd [OF T(1), of u "woken (sem_pc s u)"] u(2) pw by simp
    moreover have "tally sem_weight (pcs(t := AT SEM_IDLE)) + unat n = tally sem_weight pcs"
      using tally_upd [OF T(2), of t "AT SEM_IDLE"] t by simp
    ultimately have le': "unat (se_tickets s) \<le> tally sem_weight (pcs(t := AT SEM_IDLE))" using le n by linarith
    have "tally (bit_of in_wait) (pcs(t := AT SEM_IDLE)) = tally (bit_of in_wait) pcs"
      using tally_upd [of "bit_of in_wait" pcs t "AT SEM_IDLE"] i t by (simp add: sem_attended_def)
    then show ?thesis using i le' T(2) unfolding sem_attended_def by auto
  qed
qed

lemma sem_step_attended:
  assumes "sem_step ops s s'" "ops \<subseteq> {SEM_ACQUIRE, SEM_TRY}" "sem_attended s"
  shows "sem_attended s'"
  using assms(1)
proof cases
  case (sem_call t op)
  have "sem_attended (s\<lparr>se_tickets := se_tickets s, se_waiting := se_waiting s,
      sem_pc := (sem_pc s)(t := AT (SEM_READ op)), acquired := acquired s, released := released s\<rparr>)"
    by (rule sem_attended_upd [OF assms(3) sem_call(2,3)]) (use assms(2) sem_call(4) in auto)
  then show ?thesis unfolding sem_call(1) by simp
next
  case (sem_read t op)
  have "op \<in> {SEM_ACQUIRE, SEM_TRY}" using sem_ok [OF assms(3), of t] sem_read(2) by simp
  then have "sem_attended (s\<lparr>sem_pc := (sem_pc s)(t := AT (sem_after_read op (se_tickets s)))\<rparr>)"
    by (intro sem_attended_move [OF assms(3) sem_read(2)]) auto
  then show ?thesis unfolding sem_read(1) by (simp add: sem_attended_def)
next
  case (sem_take t op temp)
  have "temp \<noteq> 0" using sem_ok [OF assms(3), of t] sem_take(2) by simp
  then have u: "unat temp = Suc (unat (temp - 1))"
    using unat_minus_one [of temp] by (simp add: unat_gt_0)
  have "t < max_threads" using sem_thread [OF assms(3)] sem_take(2) by simp
  then have "sem_attended (s\<lparr>se_tickets := temp - 1, se_waiting := se_waiting s,
      sem_pc := (sem_pc s)(t := AT SEM_IDLE), acquired := acquired s + 1, released := released s\<rparr>)"
    by (intro sem_attended_upd [OF assms(3) sem_take(2)]) (use u sem_take(3) in auto)
  then show ?thesis unfolding sem_take(1) by simp
next
  case (sem_take_again t op temp)
  then show ?thesis unfolding sem_take_again(1)
    using sem_ok [OF assms(3), of t] by (intro sem_attended_move [OF assms(3) sem_take_again(2)]) auto
next
  case (sem_timeout t op)
  show ?thesis unfolding sem_timeout(1) by (intro sem_attended_move [OF assms(3) sem_timeout(2)]) auto
next
  case (sem_waitfor_forever t)
  then show ?thesis using sem_ok [OF assms(3), of t] by simp
next
  case (sem_waiting_start t op)
  have "t < max_threads" using sem_thread [OF assms(3)] sem_waiting_start(2) by simp
  moreover have "op \<in> {SEM_ACQUIRE, SEM_TRY}" using sem_ok [OF assms(3), of t] sem_waiting_start(2) by simp
  ultimately have "sem_attended (s\<lparr>se_tickets := se_tickets s, se_waiting := se_waiting s + 1,
      sem_pc := (sem_pc s)(t := CALL (SEM_READ op) 0), acquired := acquired s, released := released s\<rparr>)"
    by (intro sem_attended_upd [OF assms(3) sem_waiting_start(2)]) auto
  then show ?thesis unfolding sem_waiting_start(1) by simp
next
  case (sem_futex pcs)
  show ?thesis unfolding sem_futex(1)
  proof (rule sem_attended_same [OF assms(3) futex_wait_same [OF sem_futex(2)]])
    assume "\<exists>t. asleep (pcs t)"
    then obtain t where "asleep (pcs t)" ..
    then consider "asleep (sem_pc s t)" | p where "sem_pc s t = CALL p (se_tickets s)"
      using futex_wait_asleep [OF sem_futex(2)] by blast
    then show "(\<exists>t. asleep (sem_pc s t)) \<or> se_tickets s = 0"
      using sem_ok [OF assms(3), of t] by cases auto
  qed
next
  case (sem_waiting_end t p result)
  have "t < max_threads" using sem_thread [OF assms(3)] sem_waiting_end(2) by simp
  moreover have "p \<in> {SEM_READ SEM_ACQUIRE, SEM_READ SEM_TRY}" using sem_ok [OF assms(3), of t] sem_waiting_end(2) by simp
  ultimately have "sem_attended (s\<lparr>se_tickets := se_tickets s, se_waiting := se_waiting s - 1,
      sem_pc := (sem_pc s)(t := AT (if result \<noteq> 0 then SEM_IDLE else p)), acquired := acquired s, released := released s\<rparr>)"
    by (intro sem_attended_upd [OF assms(3) sem_waiting_end(2)]) auto
  then show ?thesis unfolding sem_waiting_end(1) by simp
next
  case (sem_release t n)
  have "unat (se_tickets s + n) \<le> unat (se_tickets s) + unat n" by (simp add: unat_word_ariths)
  then have "sem_attended (s\<lparr>se_tickets := se_tickets s + n, se_waiting := se_waiting s,
      sem_pc := (sem_pc s)(t := AT (SEM_RELEASED n)), acquired := acquired s, released := released s + unat n\<rparr>)"
    by (intro sem_attended_upd [OF assms(3) sem_release(2,3)]) auto
  then show ?thesis unfolding sem_release(1) by simp
next
  case (sem_test t n)
  have "\<not> asleep (sem_pc s u)" if "se_waiting s = 0" for u
  proof
    assume u: "asleep (sem_pc s u)"
    have "(of_nat (tally (bit_of in_wait) (sem_pc s)) :: u32) \<noteq> 0"
      by (rule waiting_nonzero [where pcs = "sem_pc s" and t = u, OF _ u])
        (use assms(3) in \<open>simp_all add: sem_attended_def\<close>)
    then show False using that assms(3) by (simp add: sem_attended_def)
  qed
  then show ?thesis unfolding sem_test(1) by (intro sem_attended_move [OF assms(3) sem_test(2)]) auto
next
  case (sem_wake_one t n pcs)
  show ?thesis unfolding sem_wake_one(1) by (rule sem_wake_one_attended [OF assms(3) sem_wake_one(2-4)])
next
  case (sem_wake_all t n)
  have i: "sem_attended (s\<lparr>sem_pc := wake_all (sem_pc s)\<rparr>)"
    by (rule sem_attended_same [OF assms(3)]) (simp_all add: wake_all_same)
  have "wake_all (sem_pc s) t = AT (SEM_WAKE n)" using sem_wake_all(2) by (simp add: wake_all_def)
  then show ?thesis unfolding sem_wake_all(1)
    using sem_attended_move [OF i, of t "AT (SEM_WAKE n)" "AT SEM_IDLE"] by simp
qed

lemma sem_reachable_attended:
  assumes "sem_reachable {SEM_ACQUIRE, SEM_TRY} n s"
  shows "sem_attended s"
  using assms unfolding sem_reachable_def
  by (induction rule: rtranclp_induct) (auto intro: sem_attended_init sem_step_attended)

section \<open>Acquiring without a timeout\<close>

text \<open>
  A run on an empty semaphore: threads 0 and 1 call \<open>acquire_timed\<close> with the timeout
  \<open>(uint64_t)-1\<close>; thread 2 releases one ticket before they read the word again.
\<close>

definition sem_state :: "u64 \<Rightarrow> u32 \<Rightarrow> nat \<Rightarrow> nat \<Rightarrow> (sem_point, u64) pc \<Rightarrow> (sem_point, u64) pc \<Rightarrow> (sem_point, u64) pc
    \<Rightarrow> semaphore" where
  "sem_state k w a r c0 c1 c2 = \<lparr>se_tickets = k, se_waiting = w,
     sem_pc = three_pcs (AT SEM_IDLE) c0 c1 c2, acquired = a, released = r\<rparr>"

lemmas sem_run_simps = sem_state_def three_pcs_upd max_threads_def sem_returns_acquired_def sem_calls_def

lemma sem_reachable_init: "sem_reachable ops k (sem_state k 0 0 0 (AT SEM_IDLE) (AT SEM_IDLE) (AT SEM_IDLE))"
  by (simp add: sem_reachable_def sem_state_def Dee_SEMAPHORE_INIT_def three_pcs_idle)

lemma sem_reachable_step: "sem_reachable ops k s \<Longrightarrow> sem_step ops s s' \<Longrightarrow> sem_reachable ops k s'"
  unfolding sem_reachable_def by (rule rtranclp.rtrancl_into_rtrancl)

lemma sem_run_forever: "sem_reachable sem_calls 0 (sem_state 1 0 (Suc (Suc 0)) 1 (AT SEM_IDLE) (AT SEM_IDLE) (AT SEM_IDLE))"
proof -
  have "sem_reachable sem_calls 0 (sem_state 0 0 0 0 (AT SEM_IDLE) (AT SEM_IDLE) (AT SEM_IDLE))"
    by (rule sem_reachable_init)
  then have "sem_reachable sem_calls 0 (sem_state 0 0 0 0 (AT (SEM_READ SEM_FOREVER)) (AT SEM_IDLE) (AT SEM_IDLE))"
    using sem_call [of "sem_state 0 0 0 0 (AT SEM_IDLE) (AT SEM_IDLE) (AT SEM_IDLE)" 0 SEM_FOREVER "sem_calls"]
    by (elim sem_reachable_step) (simp add: sem_run_simps)
  then have "sem_reachable sem_calls 0 (sem_state 0 0 0 0 (AT (SEM_READ SEM_FOREVER_WAIT)) (AT SEM_IDLE) (AT SEM_IDLE))"
    using sem_read [of "sem_state 0 0 0 0 (AT (SEM_READ SEM_FOREVER)) (AT SEM_IDLE) (AT SEM_IDLE)" 0 SEM_FOREVER "sem_calls"]
    by (elim sem_reachable_step) (simp add: sem_run_simps)
  then have "sem_reachable sem_calls 0 (sem_state 0 0 0 0 (AT (SEM_READ SEM_FOREVER_WAIT)) (AT (SEM_READ SEM_FOREVER)) (AT SEM_IDLE))"
    using sem_call [of "sem_state 0 0 0 0 (AT (SEM_READ SEM_FOREVER_WAIT)) (AT SEM_IDLE) (AT SEM_IDLE)" 1 SEM_FOREVER "sem_calls"]
    by (elim sem_reachable_step) (simp add: sem_run_simps)
  then have "sem_reachable sem_calls 0 (sem_state 0 0 0 0 (AT (SEM_READ SEM_FOREVER_WAIT)) (AT (SEM_READ SEM_FOREVER_WAIT)) (AT SEM_IDLE))"
    using sem_read [of "sem_state 0 0 0 0 (AT (SEM_READ SEM_FOREVER_WAIT)) (AT (SEM_READ SEM_FOREVER)) (AT SEM_IDLE)" 1 SEM_FOREVER "sem_calls"]
    by (elim sem_reachable_step) (simp add: sem_run_simps)
  then have "sem_reachable sem_calls 0 (sem_state 1 0 0 1 (AT (SEM_READ SEM_FOREVER_WAIT)) (AT (SEM_READ SEM_FOREVER_WAIT)) (AT (SEM_RELEASED 1)))"
    using sem_release [of "sem_state 0 0 0 0 (AT (SEM_READ SEM_FOREVER_WAIT)) (AT (SEM_READ SEM_FOREVER_WAIT)) (AT SEM_IDLE)" 2 "sem_calls" 1]
    by (elim sem_reachable_step) (simp add: sem_run_simps)
  then have "sem_reachable sem_calls 0 (sem_state 1 0 0 1 (AT (SEM_READ SEM_FOREVER_WAIT)) (AT (SEM_READ SEM_FOREVER_WAIT)) (AT SEM_IDLE))"
    using sem_test [of "sem_state 1 0 0 1 (AT (SEM_READ SEM_FOREVER_WAIT)) (AT (SEM_READ SEM_FOREVER_WAIT)) (AT (SEM_RELEASED 1))" 2 1 "sem_calls"]
    by (elim sem_reachable_step) (simp add: sem_run_simps)
  then have "sem_reachable sem_calls 0 (sem_state 1 0 1 1 (AT SEM_IDLE) (AT (SEM_READ SEM_FOREVER_WAIT)) (AT SEM_IDLE))"
    using sem_read [of "sem_state 1 0 0 1 (AT (SEM_READ SEM_FOREVER_WAIT)) (AT (SEM_READ SEM_FOREVER_WAIT)) (AT SEM_IDLE)" 0 SEM_FOREVER_WAIT "sem_calls"]
    by (elim sem_reachable_step) (simp add: sem_run_simps)
  then have "sem_reachable sem_calls 0 (sem_state 1 0 (Suc (Suc 0)) 1 (AT SEM_IDLE) (AT SEM_IDLE) (AT SEM_IDLE))"
    using sem_read [of "sem_state 1 0 1 1 (AT SEM_IDLE) (AT (SEM_READ SEM_FOREVER_WAIT)) (AT SEM_IDLE)" 1 SEM_FOREVER_WAIT "sem_calls"]
    by (elim sem_reachable_step) (simp add: sem_run_simps)
  then show ?thesis .
qed

lemma sem_run_sleeps: "sem_reachable {SEM_ACQUIRE, SEM_TRY} 0 (sem_state 0 1 0 0 (ASLEEP (SEM_READ SEM_ACQUIRE) 0) (AT SEM_IDLE) (AT SEM_IDLE))"
proof -
  have "sem_reachable {SEM_ACQUIRE, SEM_TRY} 0 (sem_state 0 0 0 0 (AT SEM_IDLE) (AT SEM_IDLE) (AT SEM_IDLE))"
    by (rule sem_reachable_init)
  then have "sem_reachable {SEM_ACQUIRE, SEM_TRY} 0 (sem_state 0 0 0 0 (AT (SEM_READ SEM_ACQUIRE)) (AT SEM_IDLE) (AT SEM_IDLE))"
    using sem_call [of "sem_state 0 0 0 0 (AT SEM_IDLE) (AT SEM_IDLE) (AT SEM_IDLE)" 0 SEM_ACQUIRE "{SEM_ACQUIRE, SEM_TRY}"]
    by (elim sem_reachable_step) (simp add: sem_run_simps)
  then have "sem_reachable {SEM_ACQUIRE, SEM_TRY} 0 (sem_state 0 0 0 0 (AT (SEM_START SEM_ACQUIRE)) (AT SEM_IDLE) (AT SEM_IDLE))"
    using sem_read [of "sem_state 0 0 0 0 (AT (SEM_READ SEM_ACQUIRE)) (AT SEM_IDLE) (AT SEM_IDLE)" 0 SEM_ACQUIRE "{SEM_ACQUIRE, SEM_TRY}"]
    by (elim sem_reachable_step) (simp add: sem_run_simps)
  then have "sem_reachable {SEM_ACQUIRE, SEM_TRY} 0 (sem_state 0 1 0 0 (CALL (SEM_READ SEM_ACQUIRE) 0) (AT SEM_IDLE) (AT SEM_IDLE))"
    using sem_waiting_start [of "sem_state 0 0 0 0 (AT (SEM_START SEM_ACQUIRE)) (AT SEM_IDLE) (AT SEM_IDLE)" 0 SEM_ACQUIRE "{SEM_ACQUIRE, SEM_TRY}"]
    by (elim sem_reachable_step) (simp add: sem_run_simps)
  then have "sem_reachable {SEM_ACQUIRE, SEM_TRY} 0 (sem_state 0 1 0 0 (ASLEEP (SEM_READ SEM_ACQUIRE) 0) (AT SEM_IDLE) (AT SEM_IDLE))"
    using sem_futex [OF futex_sleep [of "sem_pc (sem_state 0 1 0 0 (CALL (SEM_READ SEM_ACQUIRE) 0) (AT SEM_IDLE) (AT SEM_IDLE))" 0 "SEM_READ SEM_ACQUIRE" 0 "se_tickets (sem_state 0 1 0 0 (CALL (SEM_READ SEM_ACQUIRE) 0) (AT SEM_IDLE) (AT SEM_IDLE))"], of "{SEM_ACQUIRE, SEM_TRY}"]
    by (elim sem_reachable_step) (simp add: sem_run_simps)
  then show ?thesis .
qed

section \<open>Properties\<close>

lemma nobody_forgotten:
  assumes "sem_reachable {SEM_ACQUIRE, SEM_TRY} n s" "asleep (sem_pc s t)"
    and "\<And>t. sem_pc s t = AT SEM_IDLE \<or> asleep (sem_pc s t)"
  shows "se_tickets s = 0"
proof -
  have inv: "sem_attended s" by (rule sem_reachable_attended [OF assms(1)])
  have "sem_weight (sem_pc s u) = 0" for u
    using assms(3) [of u] by (cases "sem_pc s u") auto
  then have "tally sem_weight (sem_pc s) = 0" by (simp add: tally_def)
  then show ?thesis using inv assms(2) unfolding sem_attended_def by (auto simp: unsigned_eq_0_iff)
qed

text \<open>
  C36: Tickets are conserved, and waking.  Unless a thread calls \<open>acquire_timed\<close> without a timeout, in
  every interleaving the tickets available and the successful acquires add up to the initial tickets
  and those released, as long as these fit the word.  If threads acquire, try and release tickets,
  one or many at a time, then in a state in which every thread is idle or asleep a thread is asleep
  only if no ticket is left.  \<open>acquire_timed\<close> with an infinite timeout takes no ticket: on a semaphore
  without tickets there is a run that releases one ticket and lets two threads return from it as
  successful, with the ticket still available.
\<close>

theorem semaphore_characterized:
  assumes "sem_reachable {SEM_ACQUIRE, SEM_TRY, SEM_WAITFOR} n s" "unat n + released s < 2 ^ 64"
    and "sem_reachable {SEM_ACQUIRE, SEM_TRY} m r" "asleep (sem_pc r t)"
    and "\<And>t. sem_pc r t = AT SEM_IDLE \<or> asleep (sem_pc r t)"
  shows "unat (se_tickets s) + acquired s = unat n + released s
    \<and> se_tickets r = 0
    \<and> (\<exists>s. sem_reachable sem_calls 0 s \<and> released s = 1 \<and> acquired s = 2 \<and> se_tickets s = 1
         \<and> (\<forall>t. sem_pc s t = AT SEM_IDLE))"
proof (intro conjI)
  show "unat (se_tickets s) + acquired s = unat n + released s"
    using sem_reachable_conserved [OF assms(1)] assms(2) by (simp add: conserved_def)
  show "se_tickets r = 0" by (rule nobody_forgotten [OF assms(3-5)])
  show "\<exists>s. sem_reachable sem_calls 0 s \<and> released s = 1 \<and> acquired s = 2 \<and> se_tickets s = 1
      \<and> (\<forall>t. sem_pc s t = AT SEM_IDLE)"
    by (rule exI, intro conjI, rule sem_run_forever) (simp_all add: sem_state_def three_pcs_def)
qed

theorem semaphore_characterized_witness:
  "unat (se_tickets (Dee_SEMAPHORE_INIT 3)) + acquired (Dee_SEMAPHORE_INIT 3)
     = unat (3 :: u64) + released (Dee_SEMAPHORE_INIT 3)
   \<and> se_tickets (sem_state 0 1 0 0 (ASLEEP (SEM_READ SEM_ACQUIRE) 0) (AT SEM_IDLE) (AT SEM_IDLE)) = 0"
proof -
  have "sem_reachable {SEM_ACQUIRE, SEM_TRY, SEM_WAITFOR} 3 (Dee_SEMAPHORE_INIT 3)"
    "unat (3 :: u64) + released (Dee_SEMAPHORE_INIT 3) < 2 ^ 64"
    by (simp_all add: sem_reachable_def Dee_SEMAPHORE_INIT_def)
  from semaphore_characterized [OF this sem_run_sleeps, of 0] show ?thesis
    by (simp add: sem_state_def three_pcs_def)
qed

end
