(* ===== verification/SharedRWLock.thy ===== *)
theory SharedRWLock
  imports Futex
begin

text \<open>
  The blocking read/write lock \<open>Dee_shared_rwlock_t\<close> (include/deemon/util/lock.h, runtime/lock.c) on
  the lock word of hybrid/sched/__atomic-rwlock.h: the number of readers, or \<open>(uintptr_t)-1\<close> for a
  writer.  Each atomic operation is a step of one thread.  The operations stand for the plain, the
  timed and the uninterruptible functions of their name (a failed attempt that gives up is also what
  the \<open>try\<close> functions do), with two exceptions: \<open>RW_WAITREAD_FOREVER\<close> is
  \<open>Dee_shared_rwlock_waitread_timed\<close> with the timeout \<open>(uint64_t)-1\<close>, which continues as
  \<open>Dee_shared_rwlock_read\<close>, and \<open>RW_WRITE_TIMED\<close> is \<open>Dee_shared_rwlock_write_timed\<close>, whose second
  loop (\<open>RW_RELOAD\<close>, \<open>RW_RECAS\<close>) differs from the loop of \<open>Dee_shared_rwlock_write\<close>.
\<close>

datatype rw_op =
    RW_READ | RW_WRITE | RW_WRITE_TIMED | RW_WAITREAD | RW_WAITWRITE | RW_WAITREAD_FOREVER

datatype rw_point =
    RW_IDLE
  | RW_LOAD rw_op
  | RW_TRYREAD rw_op
  | RW_CAS_READ rw_op u64
  | RW_CAS_WRITE rw_op
  | RW_RELOAD
  | RW_RECAS
  | RW_RSTART rw_op
  | RW_WSTART rw_op u64
  | RW_READING
  | RW_WRITING
  | RW_WAKE rw_point
  | RW_WAKE_WRITER rw_point
  | RW_WAKE_ONE rw_point
  | RW_WAKE_READ rw_point
  | RW_WAKE_ALL rw_point

record shared_rwlock =
  srw_lock :: u64
  srw_rwaiting :: u32
  srw_wwaiting :: u32
  rw_pc :: "(rw_point, u64) pcs"

definition Dee_SHARED_RWLOCK_INIT :: shared_rwlock where
  "Dee_SHARED_RWLOCK_INIT = \<lparr>srw_lock = 0, srw_rwaiting = 0, srw_wwaiting = 0, rw_pc = (\<lambda>_. AT RW_IDLE)\<rparr>"

text \<open>
  After the first load of the word: readers go on with \<open>tryread\<close> (\<open>Dee_shared_rwlock_canread\<close> in the
  case of waiting), writers with the exchange or the wait.
\<close>

fun rw_after_load :: "rw_op \<Rightarrow> u64 \<Rightarrow> rw_point" where
  "rw_after_load RW_READ w = (if w = - 1 then RW_RSTART RW_READ else RW_CAS_READ RW_READ w)"
| "rw_after_load RW_WAITREAD w = (if w = - 1 then RW_RSTART RW_WAITREAD else RW_IDLE)"
| "rw_after_load RW_WAITREAD_FOREVER w = (if w = - 1 then RW_TRYREAD RW_WAITREAD_FOREVER else RW_IDLE)"
| "rw_after_load RW_WRITE w = (if w = 0 then RW_CAS_WRITE RW_WRITE else RW_WSTART RW_WRITE w)"
| "rw_after_load RW_WRITE_TIMED w = (if w = 0 then RW_CAS_WRITE RW_WRITE_TIMED else RW_WSTART RW_WRITE_TIMED w)"
| "rw_after_load RW_WAITWRITE w = (if w = 0 then RW_IDLE else RW_WSTART RW_WAITWRITE w)"

text \<open>What a thread has when its read lock is taken: the caller of a wait does not know of it.\<close>

definition rw_after_read :: "rw_op \<Rightarrow> rw_point" where
  "rw_after_read op = (if op = RW_WAITREAD_FOREVER then RW_IDLE else RW_READING)"

text \<open>Where the wait of a reader or of a writer resumes.\<close>

definition rw_resume :: "rw_op \<Rightarrow> rw_point" where
  "rw_resume op = (if op = RW_WAITREAD_FOREVER then RW_TRYREAD op else RW_LOAD op)"

definition rw_wresume :: "rw_op \<Rightarrow> rw_point" where
  "rw_wresume op = (if op = RW_WRITE_TIMED then RW_RELOAD else RW_LOAD op)"

text \<open>The function a timed one continues as when its timeout is \<open>(uint64_t)-1\<close>.\<close>

definition rw_untimed :: "rw_op \<Rightarrow> rw_op" where
  "rw_untimed op = (if op = RW_WRITE_TIMED then RW_WRITE else op)"

text \<open>
  The exchange of \<open>tryread\<close> may fail spuriously; \<open>temp \<noteq> - 2\<close> is its assertion on the number of
  readers.
\<close>

inductive rw_step :: "rw_op set \<Rightarrow> shared_rwlock \<Rightarrow> shared_rwlock \<Rightarrow> bool" for ops where
  rw_call: "rw_pc s t = AT RW_IDLE \<Longrightarrow> op \<in> ops \<Longrightarrow>
    rw_step ops s (s\<lparr>rw_pc := (rw_pc s)(t := AT (RW_LOAD op))\<rparr>)"
| rw_load: "rw_pc s t = AT (RW_LOAD op) \<Longrightarrow>
    rw_step ops s (s\<lparr>rw_pc := (rw_pc s)(t := AT (rw_after_load op (srw_lock s)))\<rparr>)"
| rw_tryread: "rw_pc s t = AT (RW_TRYREAD op) \<Longrightarrow>
    rw_step ops s (s\<lparr>rw_pc := (rw_pc s)(t := AT (if srw_lock s = - 1 then RW_RSTART op
      else RW_CAS_READ op (srw_lock s)))\<rparr>)"
| rw_cas_read: "rw_pc s t = AT (RW_CAS_READ op temp) \<Longrightarrow> temp \<noteq> - 2 \<Longrightarrow> srw_lock s = temp \<Longrightarrow>
    rw_step ops s (s\<lparr>srw_lock := temp + 1, rw_pc := (rw_pc s)(t := AT (rw_after_read op))\<rparr>)"
| rw_cas_read_again: "rw_pc s t = AT (RW_CAS_READ op temp) \<Longrightarrow>
    rw_step ops s (s\<lparr>rw_pc := (rw_pc s)(t := AT (RW_TRYREAD op))\<rparr>)"
| rw_cas_write: "rw_pc s t = AT (RW_CAS_WRITE op) \<Longrightarrow> srw_lock s = 0 \<Longrightarrow>
    rw_step ops s (s\<lparr>srw_lock := - 1, rw_pc := (rw_pc s)(t := AT RW_WRITING)\<rparr>)"
| rw_cas_write_again: "rw_pc s t = AT (RW_CAS_WRITE op) \<Longrightarrow> srw_lock s \<noteq> 0 \<Longrightarrow>
    rw_step ops s (s\<lparr>rw_pc := (rw_pc s)(t := AT (RW_LOAD op))\<rparr>)"
| rw_reload: "rw_pc s t = AT RW_RELOAD \<Longrightarrow>
    rw_step ops s (s\<lparr>rw_pc := (rw_pc s)(t := AT (if srw_lock s = 0 then RW_RECAS
      else RW_WSTART RW_WRITE_TIMED (srw_lock s)))\<rparr>)"
| rw_recas: "rw_pc s t = AT RW_RECAS \<Longrightarrow> srw_lock s = 0 \<Longrightarrow>
    rw_step ops s (s\<lparr>srw_lock := - 1, rw_pc := (rw_pc s)(t := AT RW_WRITING)\<rparr>)"
| rw_recas_failed: "rw_pc s t = AT RW_RECAS \<Longrightarrow> srw_lock s \<noteq> 0 \<Longrightarrow>
    rw_step ops s (s\<lparr>rw_pc := (rw_pc s)(t := AT (RW_WSTART RW_WRITE_TIMED 0))\<rparr>)"
| rw_rforever: "rw_pc s t = AT (RW_RSTART op) \<Longrightarrow> op \<noteq> RW_WAITREAD_FOREVER \<Longrightarrow>
    rw_step ops s (s\<lparr>rw_pc := (rw_pc s)(t := AT (RW_LOAD op))\<rparr>)"
| rw_wforever: "rw_pc s t = AT (RW_WSTART op w) \<Longrightarrow>
    rw_step ops s (s\<lparr>rw_pc := (rw_pc s)(t := AT (RW_LOAD (rw_untimed op)))\<rparr>)"
| rw_timeout: "rw_pc s t \<in> {AT (RW_RSTART op), AT (RW_WSTART op w)} \<Longrightarrow>
    rw_step ops s (s\<lparr>rw_pc := (rw_pc s)(t := AT RW_IDLE)\<rparr>)"
| rw_rwaiting_start: "rw_pc s t = AT (RW_RSTART op) \<Longrightarrow>
    rw_step ops s (s\<lparr>srw_rwaiting := srw_rwaiting s + 1, rw_pc := (rw_pc s)(t := CALL (rw_resume op) (- 1))\<rparr>)"
| rw_wwaiting_start: "rw_pc s t = AT (RW_WSTART op w) \<Longrightarrow>
    rw_step ops s (s\<lparr>srw_wwaiting := srw_wwaiting s + 1, rw_pc := (rw_pc s)(t := CALL (rw_wresume op) w)\<rparr>)"
| rw_futex: "futex_wait (srw_lock s) (rw_pc s) pcs \<Longrightarrow>
    rw_step ops s (s\<lparr>rw_pc := pcs\<rparr>)"
| rw_waiting_end: "rw_pc s t = RET p error \<Longrightarrow>
    rw_step ops s (s\<lparr>srw_rwaiting := (if p \<in> {RW_LOAD RW_WRITE, RW_LOAD RW_WAITWRITE, RW_RELOAD} then srw_rwaiting s else srw_rwaiting s - 1),
      srw_wwaiting := (if p \<in> {RW_LOAD RW_WRITE, RW_LOAD RW_WAITWRITE, RW_RELOAD} then srw_wwaiting s - 1 else srw_wwaiting s),
      rw_pc := (rw_pc s)(t := AT (if error \<noteq> 0 then RW_IDLE else p))\<rparr>)"
| rw_endread: "rw_pc s t = AT RW_READING \<Longrightarrow>
    rw_step ops s (s\<lparr>srw_lock := srw_lock s - 1,
      rw_pc := (rw_pc s)(t := AT (if srw_lock s - 1 = 0 then RW_WAKE RW_IDLE else RW_IDLE))\<rparr>)"
| rw_endwrite: "rw_pc s t = AT RW_WRITING \<Longrightarrow>
    rw_step ops s (s\<lparr>srw_lock := 0, rw_pc := (rw_pc s)(t := AT (RW_WAKE RW_IDLE))\<rparr>)"
| rw_downgrade: "rw_pc s t = AT RW_WRITING \<Longrightarrow>
    rw_step ops s (s\<lparr>srw_lock := 1, rw_pc := (rw_pc s)(t := AT (RW_WAKE_READ RW_READING))\<rparr>)"
| rw_tryupgrade: "rw_pc s t = AT RW_READING \<Longrightarrow> srw_lock s = 1 \<Longrightarrow>
    rw_step ops s (s\<lparr>srw_lock := - 1, rw_pc := (rw_pc s)(t := AT RW_WRITING)\<rparr>)"
| rw_wake: "rw_pc s t = AT (RW_WAKE p) \<Longrightarrow>
    rw_step ops s (s\<lparr>rw_pc := (rw_pc s)(t := AT (if srw_rwaiting s \<noteq> 0 then RW_WAKE_ALL p else RW_WAKE_WRITER p))\<rparr>)"
| rw_wake_writer: "rw_pc s t = AT (RW_WAKE_WRITER p) \<Longrightarrow>
    rw_step ops s (s\<lparr>rw_pc := (rw_pc s)(t := AT (if srw_wwaiting s \<noteq> 0 then RW_WAKE_ONE p else p))\<rparr>)"
| rw_wake_one: "rw_pc s t = AT (RW_WAKE_ONE p) \<Longrightarrow> wake_one (rw_pc s) pcs \<Longrightarrow>
    rw_step ops s (s\<lparr>rw_pc := pcs(t := AT (RW_WAKE_READ p))\<rparr>)"
| rw_wake_read: "rw_pc s t = AT (RW_WAKE_READ p) \<Longrightarrow>
    rw_step ops s (s\<lparr>rw_pc := (rw_pc s)(t := AT (if srw_rwaiting s \<noteq> 0 then RW_WAKE_ALL p else p))\<rparr>)"
| rw_wake_all: "rw_pc s t = AT (RW_WAKE_ALL p) \<Longrightarrow>
    rw_step ops s (s\<lparr>rw_pc := (wake_all (rw_pc s))(t := AT p)\<rparr>)"

definition rw_reachable :: "rw_op set \<Rightarrow> shared_rwlock \<Rightarrow> bool" where
  "rw_reachable ops s \<longleftrightarrow> (rw_step ops)\<^sup>*\<^sup>* Dee_SHARED_RWLOCK_INIT s"

section \<open>The invariant\<close>

fun rw_point_reads :: "rw_point \<Rightarrow> bool" where
  "rw_point_reads RW_READING \<longleftrightarrow> True"
| "rw_point_reads (RW_WAKE p) \<longleftrightarrow> rw_point_reads p"
| "rw_point_reads (RW_WAKE_WRITER p) \<longleftrightarrow> rw_point_reads p"
| "rw_point_reads (RW_WAKE_ONE p) \<longleftrightarrow> rw_point_reads p"
| "rw_point_reads (RW_WAKE_READ p) \<longleftrightarrow> rw_point_reads p"
| "rw_point_reads (RW_WAKE_ALL p) \<longleftrightarrow> rw_point_reads p"
| "rw_point_reads _ \<longleftrightarrow> False"

text \<open>The thread holds a read lock (perhaps still waking others), or the write lock.\<close>

fun reads :: "(rw_point, u64) pc \<Rightarrow> bool" where
  "reads (AT p) \<longleftrightarrow> rw_point_reads p"
| "reads _ \<longleftrightarrow> False"

definition writes :: "(rw_point, u64) pc \<Rightarrow> bool" where
  "writes c \<longleftrightarrow> c = AT RW_WRITING"

text \<open>No thread is in \<open>RW_WAITREAD_FOREVER\<close>; \<open>rw_resumes\<close>: a point at which a wait resumes.\<close>

fun rw_resumes :: "rw_point \<Rightarrow> bool" where
  "rw_resumes (RW_LOAD op) \<longleftrightarrow> op \<noteq> RW_WAITREAD_FOREVER"
| "rw_resumes RW_RELOAD \<longleftrightarrow> True"
| "rw_resumes _ \<longleftrightarrow> False"

fun rw_ok :: "(rw_point, u64) pc \<Rightarrow> bool" where
  "rw_ok (AT (RW_LOAD op)) \<longleftrightarrow> op \<noteq> RW_WAITREAD_FOREVER"
| "rw_ok (AT (RW_TRYREAD op)) \<longleftrightarrow> op \<noteq> RW_WAITREAD_FOREVER"
| "rw_ok (AT (RW_CAS_READ op temp)) \<longleftrightarrow> op \<noteq> RW_WAITREAD_FOREVER \<and> temp \<noteq> - 1"
| "rw_ok (AT (RW_CAS_WRITE op)) \<longleftrightarrow> op \<noteq> RW_WAITREAD_FOREVER"
| "rw_ok (AT (RW_RSTART op)) \<longleftrightarrow> op \<noteq> RW_WAITREAD_FOREVER"
| "rw_ok (AT (RW_WSTART op w)) \<longleftrightarrow> op \<noteq> RW_WAITREAD_FOREVER"
| "rw_ok (AT (RW_WAKE p)) \<longleftrightarrow> p \<in> {RW_IDLE, RW_READING}"
| "rw_ok (AT (RW_WAKE_WRITER p)) \<longleftrightarrow> p \<in> {RW_IDLE, RW_READING}"
| "rw_ok (AT (RW_WAKE_ONE p)) \<longleftrightarrow> p \<in> {RW_IDLE, RW_READING}"
| "rw_ok (AT (RW_WAKE_READ p)) \<longleftrightarrow> p \<in> {RW_IDLE, RW_READING}"
| "rw_ok (AT (RW_WAKE_ALL p)) \<longleftrightarrow> p \<in> {RW_IDLE, RW_READING}"
| "rw_ok (AT p) \<longleftrightarrow> True"
| "rw_ok (CALL p w) \<longleftrightarrow> rw_resumes p"
| "rw_ok (ASLEEP p w) \<longleftrightarrow> rw_resumes p"
| "rw_ok (RET p r) \<longleftrightarrow> rw_resumes p"

definition rw_inv :: "shared_rwlock \<Rightarrow> bool" where
  "rw_inv s \<longleftrightarrow>
     tallied (bit_of reads) (rw_pc s) \<and> tallied (bit_of writes) (rw_pc s) \<and> (\<forall>t. rw_ok (rw_pc s t))
     \<and> (if srw_lock s = - 1 then tally (bit_of writes) (rw_pc s) = 1 \<and> tally (bit_of reads) (rw_pc s) = 0
        else tally (bit_of writes) (rw_pc s) = 0 \<and> tally (bit_of reads) (rw_pc s) = unat (srw_lock s))"

lemma rw_inv_upd:
  assumes "rw_inv s" "rw_pc s t = c" "rw_ok c'"
    and "if l = - 1 then tally (bit_of writes) (rw_pc s) + bit_of writes c' = 1 + bit_of writes c
         \<and> tally (bit_of reads) (rw_pc s) + bit_of reads c' = bit_of reads c
       else tally (bit_of writes) (rw_pc s) + bit_of writes c' = bit_of writes c
         \<and> tally (bit_of reads) (rw_pc s) + bit_of reads c' = unat l + bit_of reads c"
  shows "rw_inv (s\<lparr>srw_lock := l, srw_rwaiting := rw, srw_wwaiting := ww, rw_pc := (rw_pc s)(t := c')\<rparr>)"
proof -
  have T: "tallied (bit_of reads) (rw_pc s)" "tallied (bit_of writes) (rw_pc s)"
    using assms(1) by (simp_all add: rw_inv_def)
  have r: "tally (bit_of reads) ((rw_pc s)(t := c')) + bit_of reads c = tally (bit_of reads) (rw_pc s) + bit_of reads c'"
    using tally_upd [OF T(1), of t c'] assms(2) by simp
  have w: "tally (bit_of writes) ((rw_pc s)(t := c')) + bit_of writes c = tally (bit_of writes) (rw_pc s) + bit_of writes c'"
    using tally_upd [OF T(2), of t c'] assms(2) by simp
  have "if l = - 1 then tally (bit_of writes) ((rw_pc s)(t := c')) = 1 \<and> tally (bit_of reads) ((rw_pc s)(t := c')) = 0
      else tally (bit_of writes) ((rw_pc s)(t := c')) = 0 \<and> tally (bit_of reads) ((rw_pc s)(t := c')) = unat l"
  proof (cases "l = - 1")
    case True
    then show ?thesis using assms(4) r w by simp
  next
    case False
    then show ?thesis using assms(4) r w by simp
  qed
  moreover have "rw_ok (((rw_pc s)(t := c')) u)" for u using assms(1,3) by (simp add: rw_inv_def)
  ultimately show ?thesis using T unfolding rw_inv_def by simp
qed

text \<open>A thread moves on with the locks it has.\<close>

lemma rw_inv_move:
  assumes "rw_inv s" "rw_pc s t = c" "rw_ok c'" "reads c' = reads c" "writes c' = writes c"
  shows "rw_inv (s\<lparr>srw_rwaiting := rw, srw_wwaiting := ww, rw_pc := (rw_pc s)(t := c')\<rparr>)"
proof -
  have b: "bit_of reads c' = bit_of reads c" "bit_of writes c' = bit_of writes c"
    using assms(4,5) by (simp_all add: bit_of_def)
  have "rw_inv (s\<lparr>srw_lock := srw_lock s, srw_rwaiting := rw, srw_wwaiting := ww, rw_pc := (rw_pc s)(t := c')\<rparr>)"
    by (rule rw_inv_upd [OF assms(1-3)]) (use assms(1) in \<open>simp add: b rw_inv_def split: if_splits\<close>)
  then show ?thesis by simp
qed

lemma rw_inv_pc:
  assumes "rw_inv s" "rw_pc s t = c" "rw_ok c'" "reads c' = reads c" "writes c' = writes c"
  shows "rw_inv (s\<lparr>rw_pc := (rw_pc s)(t := c')\<rparr>)"
  using rw_inv_move [OF assms, of "srw_wwaiting s" "srw_rwaiting s"] by simp

lemma rw_inv_same:
  assumes "rw_inv s" "\<And>t. same_wait (rw_pc s t) (pcs t)"
  shows "rw_inv (s\<lparr>rw_pc := pcs\<rparr>)"
proof -
  have r: "bit_of reads (pcs t) = bit_of reads (rw_pc s t)" for t
    using assms(2) [of t] by (cases "rw_pc s t") (auto simp: bit_of_def)
  have w: "bit_of writes (pcs t) = bit_of writes (rw_pc s t)" for t
    using same_wait_AT [OF assms(2)] by (simp add: bit_of_def writes_def)
  have "rw_ok (pcs t)" for t
  proof -
    have "rw_ok (rw_pc s t)" using assms(1) by (simp add: rw_inv_def)
    then show ?thesis using assms(2) [of t] by (cases "rw_pc s t") auto
  qed
  then show ?thesis using assms(1) unfolding rw_inv_def
    by (simp add: tally_cong [of "bit_of reads" pcs, OF r] tally_cong [of "bit_of writes" pcs, OF w]
        tallied_cong [of "bit_of reads" pcs, OF r] tallied_cong [of "bit_of writes" pcs, OF w])
qed

lemma rw_ok_of: "rw_inv s \<Longrightarrow> rw_pc s t = c \<Longrightarrow> rw_ok c"
  by (auto simp: rw_inv_def)

lemma rw_reading_word: "rw_inv s \<Longrightarrow> rw_pc s t = AT RW_READING \<Longrightarrow> srw_lock s \<noteq> - 1 \<and> srw_lock s \<noteq> 0"
  using tally_pos [of "bit_of reads" "rw_pc s" t] by (auto simp: rw_inv_def split: if_splits)

lemma rw_writing_word: "rw_inv s \<Longrightarrow> rw_pc s t = AT RW_WRITING \<Longrightarrow> srw_lock s = - 1"
  using tally_pos [of "bit_of writes" "rw_pc s" t] by (auto simp: rw_inv_def writes_def split: if_splits)

lemma rw_after_load_ok:
  "op \<noteq> RW_WAITREAD_FOREVER \<Longrightarrow> rw_ok (AT (rw_after_load op w))"
  "\<not> rw_point_reads (rw_after_load op w)" "rw_after_load op w \<noteq> RW_WRITING"
  by (cases op; simp)+

lemmas rw_move_simps = writes_def rw_after_load_ok rw_untimed_def rw_resume_def rw_wresume_def

lemma succ_not_max:
  fixes temp :: u64
  assumes "temp \<noteq> - 2"
  shows "temp + 1 \<noteq> - 1"
proof
  assume "temp + 1 = - 1"
  then have "temp + 1 - 1 = - 1 - 1" by (simp only:)
  then show False using assms by simp
qed

lemma unat_succ:
  fixes temp :: u64
  assumes "temp \<noteq> - 1"
  shows "unat (temp + 1) = Suc (unat temp)"
proof -
  have "1 + temp \<noteq> 0" using assms by (metis add.commute eq_neg_iff_add_eq_0)
  then have "unat (1 + temp) = Suc (unat temp)" by (rule unatSuc)
  then show ?thesis by (simp only: add.commute)
qed

lemma rw_step_inv:
  assumes "rw_step ops s s'" "RW_WAITREAD_FOREVER \<notin> ops" "rw_inv s"
  shows "rw_inv s'"
  using assms(1)
proof cases
  case (rw_cas_read t op temp)
  have op: "op \<noteq> RW_WAITREAD_FOREVER" "temp \<noteq> - 1" using rw_ok_of [OF assms(3) rw_cas_read(2)] by simp_all
  have u: "temp + 1 \<noteq> - 1" "unat (temp + 1) = Suc (unat temp)"
  proof -
    show "temp + 1 \<noteq> - 1" by (rule succ_not_max [OF rw_cas_read(3)])
    show "unat (temp + 1) = Suc (unat temp)" by (rule unat_succ [OF op(2)])
  qed
  have "rw_inv (s\<lparr>srw_lock := temp + 1, srw_rwaiting := srw_rwaiting s, srw_wwaiting := srw_wwaiting s,
      rw_pc := (rw_pc s)(t := AT RW_READING)\<rparr>)"
  proof (rule rw_inv_upd [OF assms(3) rw_cas_read(2)])
    have "tally (bit_of writes) (rw_pc s) = 0 \<and> tally (bit_of reads) (rw_pc s) = unat temp"
      using assms(3) op(2) rw_cas_read(4) by (simp add: rw_inv_def)
    then show "if temp + 1 = - 1 then tally (bit_of writes) (rw_pc s) + bit_of writes (AT RW_READING) = 1 + bit_of writes (AT (RW_CAS_READ op temp))
         \<and> tally (bit_of reads) (rw_pc s) + bit_of reads (AT RW_READING) = bit_of reads (AT (RW_CAS_READ op temp))
       else tally (bit_of writes) (rw_pc s) + bit_of writes (AT RW_READING) = bit_of writes (AT (RW_CAS_READ op temp))
         \<and> tally (bit_of reads) (rw_pc s) + bit_of reads (AT RW_READING) = unat (temp + 1) + bit_of reads (AT (RW_CAS_READ op temp))"
      by (simp only: u if_False) (simp add: writes_def)
  qed simp
  then show ?thesis unfolding rw_cas_read(1) using op by (simp add: rw_after_read_def)
next
  case (rw_cas_write t)
  have "rw_inv (s\<lparr>srw_lock := - 1, srw_rwaiting := srw_rwaiting s, srw_wwaiting := srw_wwaiting s,
      rw_pc := (rw_pc s)(t := AT RW_WRITING)\<rparr>)"
    by (rule rw_inv_upd [OF assms(3) rw_cas_write(2)])
      (use rw_cas_write(3) assms(3) in \<open>simp_all add: rw_inv_def writes_def\<close>)
  then show ?thesis unfolding rw_cas_write(1) by simp
next
  case (rw_recas t)
  have "rw_inv (s\<lparr>srw_lock := - 1, srw_rwaiting := srw_rwaiting s, srw_wwaiting := srw_wwaiting s,
      rw_pc := (rw_pc s)(t := AT RW_WRITING)\<rparr>)"
    by (rule rw_inv_upd [OF assms(3) rw_recas(2)])
      (use rw_recas(3) assms(3) in \<open>simp_all add: rw_inv_def writes_def\<close>)
  then show ?thesis unfolding rw_recas(1) by simp
next
  case (rw_endread t)
  have w: "srw_lock s \<noteq> - 1" "srw_lock s \<noteq> 0" using rw_reading_word [OF assms(3) rw_endread(2)] by blast+
  then have u: "unat (srw_lock s) = Suc (unat (srw_lock s - 1))" "srw_lock s - 1 \<noteq> - 1"
    using unat_minus_one [of "srw_lock s"] by (simp_all add: unat_gt_0)
  have "rw_inv (s\<lparr>srw_lock := srw_lock s - 1, srw_rwaiting := srw_rwaiting s, srw_wwaiting := srw_wwaiting s,
      rw_pc := (rw_pc s)(t := AT (if srw_lock s - 1 = 0 then RW_WAKE RW_IDLE else RW_IDLE))\<rparr>)"
    by (rule rw_inv_upd [OF assms(3) rw_endread(2)])
      (use u w assms(3) in \<open>auto simp: rw_inv_def writes_def\<close>)
  then show ?thesis unfolding rw_endread(1) by simp
next
  case (rw_endwrite t)
  have w: "srw_lock s = - 1" by (rule rw_writing_word [OF assms(3) rw_endwrite(2)])
  have "rw_inv (s\<lparr>srw_lock := 0, srw_rwaiting := srw_rwaiting s, srw_wwaiting := srw_wwaiting s,
      rw_pc := (rw_pc s)(t := AT (RW_WAKE RW_IDLE))\<rparr>)"
    by (rule rw_inv_upd [OF assms(3) rw_endwrite(2)])
      (use w assms(3) in \<open>simp_all add: rw_inv_def writes_def\<close>)
  then show ?thesis unfolding rw_endwrite(1) by simp
next
  case (rw_downgrade t)
  have w: "srw_lock s = - 1" by (rule rw_writing_word [OF assms(3) rw_downgrade(2)])
  have "rw_inv (s\<lparr>srw_lock := 1, srw_rwaiting := srw_rwaiting s, srw_wwaiting := srw_wwaiting s,
      rw_pc := (rw_pc s)(t := AT (RW_WAKE_READ RW_READING))\<rparr>)"
    by (rule rw_inv_upd [OF assms(3) rw_downgrade(2)])
      (use w assms(3) in \<open>simp_all add: rw_inv_def writes_def\<close>)
  then show ?thesis unfolding rw_downgrade(1) by simp
next
  case (rw_tryupgrade t)
  have "rw_inv (s\<lparr>srw_lock := - 1, srw_rwaiting := srw_rwaiting s, srw_wwaiting := srw_wwaiting s,
      rw_pc := (rw_pc s)(t := AT RW_WRITING)\<rparr>)"
    by (rule rw_inv_upd [OF assms(3) rw_tryupgrade(2)])
      (use rw_tryupgrade(3) assms(3) in \<open>simp_all add: rw_inv_def writes_def\<close>)
  then show ?thesis unfolding rw_tryupgrade(1) by simp
next
  case (rw_futex pcs)
  show ?thesis unfolding rw_futex(1) by (rule rw_inv_same [OF assms(3) futex_wait_same [OF rw_futex(2)]])
next
  case (rw_wake_one t p pcs)
  have i: "rw_inv (s\<lparr>rw_pc := pcs\<rparr>)" by (rule rw_inv_same [OF assms(3) wake_one_same [OF rw_wake_one(3)]])
  have "pcs t = AT (RW_WAKE_ONE p)" using same_wait_AT [OF wake_one_same [OF rw_wake_one(3)]] rw_wake_one(2) by simp
  then show ?thesis unfolding rw_wake_one(1)
    using rw_inv_pc [OF i, of t "AT (RW_WAKE_ONE p)" "AT (RW_WAKE_READ p)"]
      rw_ok_of [OF assms(3) rw_wake_one(2)]
    by (simp add: writes_def)
next
  case (rw_wake_all t p)
  have i: "rw_inv (s\<lparr>rw_pc := wake_all (rw_pc s)\<rparr>)" by (rule rw_inv_same [OF assms(3)]) (simp add: wake_all_same)
  have "wake_all (rw_pc s) t = AT (RW_WAKE_ALL p)" using rw_wake_all(2) by (simp add: wake_all_def)
  then show ?thesis unfolding rw_wake_all(1)
    using rw_inv_pc [OF i, of t "AT (RW_WAKE_ALL p)" "AT p"]
      rw_ok_of [OF assms(3) rw_wake_all(2)]
    by (auto simp: writes_def)
next
  case (rw_call t op)
  show ?thesis unfolding rw_call(1)
    by (rule rw_inv_pc [OF assms(3) rw_call(2)])
      (use rw_ok_of [OF assms(3) rw_call(2)] assms(2) rw_call(3) in \<open>auto simp: rw_move_simps\<close>)
next
  case (rw_load t op)
  show ?thesis unfolding rw_load(1)
    by (rule rw_inv_pc [OF assms(3) rw_load(2)])
      (use rw_ok_of [OF assms(3) rw_load(2)] in \<open>auto simp: rw_move_simps\<close>)
next
  case (rw_tryread t op)
  show ?thesis unfolding rw_tryread(1)
    by (rule rw_inv_pc [OF assms(3) rw_tryread(2)])
      (use rw_ok_of [OF assms(3) rw_tryread(2)] in \<open>auto simp: rw_move_simps\<close>)
next
  case (rw_cas_read_again t op temp)
  show ?thesis unfolding rw_cas_read_again(1)
    by (rule rw_inv_pc [OF assms(3) rw_cas_read_again(2)])
      (use rw_ok_of [OF assms(3) rw_cas_read_again(2)] in \<open>auto simp: rw_move_simps\<close>)
next
  case (rw_cas_write_again t op)
  show ?thesis unfolding rw_cas_write_again(1)
    by (rule rw_inv_pc [OF assms(3) rw_cas_write_again(2)])
      (use rw_ok_of [OF assms(3) rw_cas_write_again(2)] in \<open>auto simp: rw_move_simps\<close>)
next
  case (rw_reload t)
  show ?thesis unfolding rw_reload(1)
    by (rule rw_inv_pc [OF assms(3) rw_reload(2)])
      (use rw_ok_of [OF assms(3) rw_reload(2)] in \<open>auto simp: rw_move_simps\<close>)
next
  case (rw_recas_failed t)
  show ?thesis unfolding rw_recas_failed(1)
    by (rule rw_inv_pc [OF assms(3) rw_recas_failed(2)])
      (use rw_ok_of [OF assms(3) rw_recas_failed(2)] in \<open>auto simp: rw_move_simps\<close>)
next
  case (rw_rforever t op)
  show ?thesis unfolding rw_rforever(1)
    by (rule rw_inv_pc [OF assms(3) rw_rforever(2)])
      (use rw_ok_of [OF assms(3) rw_rforever(2)] in \<open>auto simp: rw_move_simps\<close>)
next
  case (rw_wforever t op w)
  show ?thesis unfolding rw_wforever(1)
    by (rule rw_inv_pc [OF assms(3) rw_wforever(2)])
      (use rw_ok_of [OF assms(3) rw_wforever(2)] in \<open>auto simp: rw_move_simps\<close>)
next
  case (rw_wake t p)
  show ?thesis unfolding rw_wake(1)
    by (rule rw_inv_pc [OF assms(3) rw_wake(2)])
      (use rw_ok_of [OF assms(3) rw_wake(2)] in \<open>auto simp: rw_move_simps\<close>)
next
  case (rw_wake_writer t p)
  show ?thesis unfolding rw_wake_writer(1)
    by (rule rw_inv_pc [OF assms(3) rw_wake_writer(2)])
      (use rw_ok_of [OF assms(3) rw_wake_writer(2)] in \<open>auto simp: rw_move_simps\<close>)
next
  case (rw_wake_read t p)
  show ?thesis unfolding rw_wake_read(1)
    by (rule rw_inv_pc [OF assms(3) rw_wake_read(2)])
      (use rw_ok_of [OF assms(3) rw_wake_read(2)] in \<open>auto simp: rw_move_simps\<close>)
next
  case (rw_rwaiting_start t op)
  have "rw_inv (s\<lparr>srw_rwaiting := srw_rwaiting s + 1, srw_wwaiting := srw_wwaiting s,
      rw_pc := (rw_pc s)(t := CALL (rw_resume op) (- 1))\<rparr>)"
    by (rule rw_inv_move [OF assms(3) rw_rwaiting_start(2)])
      (use rw_ok_of [OF assms(3) rw_rwaiting_start(2)] in \<open>simp_all add: rw_move_simps\<close>)
  then show ?thesis unfolding rw_rwaiting_start(1) by simp
next
  case (rw_wwaiting_start t op w)
  have "rw_inv (s\<lparr>srw_rwaiting := srw_rwaiting s, srw_wwaiting := srw_wwaiting s + 1,
      rw_pc := (rw_pc s)(t := CALL (rw_wresume op) w)\<rparr>)"
    by (rule rw_inv_move [OF assms(3) rw_wwaiting_start(2)])
      (use rw_ok_of [OF assms(3) rw_wwaiting_start(2)] in \<open>simp_all add: rw_move_simps\<close>)
  then show ?thesis unfolding rw_wwaiting_start(1) by simp
next
  case (rw_timeout t op w)
  have "\<not> reads (rw_pc s t)" "\<not> writes (rw_pc s t)" using rw_timeout(2) by (auto simp: writes_def)
  then show ?thesis unfolding rw_timeout(1)
    by (intro rw_inv_pc [OF assms(3) refl]) (simp_all add: writes_def)
next
  case (rw_waiting_end t p error)
  have "\<not> rw_point_reads p" "p \<noteq> RW_WRITING" "rw_ok (AT p)"
    using rw_ok_of [OF assms(3) rw_waiting_end(2)] by (cases p; simp)+
  then show ?thesis unfolding rw_waiting_end(1)
    by (intro rw_inv_move [OF assms(3) rw_waiting_end(2)]) (simp_all add: writes_def)
qed

lemma rw_inv_init: "rw_inv Dee_SHARED_RWLOCK_INIT"
  by (simp add: rw_inv_def Dee_SHARED_RWLOCK_INIT_def writes_def)

lemma rw_reachable_inv:
  assumes "rw_reachable ops s" "RW_WAITREAD_FOREVER \<notin> ops"
  shows "rw_inv s"
  using assms(1) unfolding rw_reachable_def
  by (induction rule: rtranclp_induct) (use assms(2) in \<open>auto intro: rw_inv_init rw_step_inv\<close>)

section \<open>Runs\<close>

definition rw_state ::
  "u64 \<Rightarrow> u32 \<Rightarrow> u32 \<Rightarrow> (rw_point, u64) pc \<Rightarrow> (rw_point, u64) pc \<Rightarrow> shared_rwlock" where
  "rw_state l r w a b =
     \<lparr>srw_lock = l, srw_rwaiting = r, srw_wwaiting = w, rw_pc = three_pcs (AT RW_IDLE) a b (AT RW_IDLE)\<rparr>"

lemmas rw_run_simps = rw_state_def three_pcs_upd rw_after_read_def rw_wresume_def

lemma rw_reachable_init: "rw_reachable ops (rw_state 0 0 0 (AT RW_IDLE) (AT RW_IDLE))"
  by (simp add: rw_reachable_def rw_state_def Dee_SHARED_RWLOCK_INIT_def three_pcs_idle)

lemma rw_reachable_step: "rw_reachable ops s \<Longrightarrow> rw_step ops s s' \<Longrightarrow> rw_reachable ops s'"
  unfolding rw_reachable_def by (rule rtranclp.rtrancl_into_rtrancl)

text \<open>Thread 0 takes the write lock.\<close>

lemma rw_run_writing:
  assumes "RW_WRITE \<in> ops"
  shows "rw_reachable ops (rw_state (- 1) 0 0 (AT RW_WRITING) (AT RW_IDLE))"
proof -
  have "rw_reachable ops (rw_state 0 0 0 (AT (RW_LOAD RW_WRITE)) (AT RW_IDLE))"
    using rw_call [of "rw_state 0 0 0 (AT RW_IDLE) (AT RW_IDLE)" 0 RW_WRITE ops] assms
    by (intro rw_reachable_step [OF rw_reachable_init]) (simp add: rw_run_simps)
  then have "rw_reachable ops (rw_state 0 0 0 (AT (RW_CAS_WRITE RW_WRITE)) (AT RW_IDLE))"
    using rw_load [of "rw_state 0 0 0 (AT (RW_LOAD RW_WRITE)) (AT RW_IDLE)" 0 RW_WRITE ops]
    by (elim rw_reachable_step) (simp add: rw_run_simps)
  then show ?thesis
    using rw_cas_write [of "rw_state 0 0 0 (AT (RW_CAS_WRITE RW_WRITE)) (AT RW_IDLE)" 0 RW_WRITE ops]
    by (elim rw_reachable_step) (simp add: rw_run_simps)
qed

text \<open>Thread 1 waits for readers without timeout; the writer ends before its \<open>tryread\<close>.\<close>

lemma rw_run_leak:
  "rw_reachable {RW_WRITE, RW_WAITREAD_FOREVER} (rw_state 1 0 0 (AT RW_IDLE) (AT RW_IDLE))"
proof -
  have "rw_reachable {RW_WRITE, RW_WAITREAD_FOREVER} (rw_state (- 1) 0 0 (AT RW_WRITING) (AT RW_IDLE))"
    by (rule rw_run_writing) simp
  then have "rw_reachable {RW_WRITE, RW_WAITREAD_FOREVER} (rw_state (- 1) 0 0 (AT RW_WRITING) (AT (RW_LOAD RW_WAITREAD_FOREVER)))"
    using rw_call [of "rw_state (- 1) 0 0 (AT RW_WRITING) (AT RW_IDLE)" 1 RW_WAITREAD_FOREVER "{RW_WRITE, RW_WAITREAD_FOREVER}"]
    by (elim rw_reachable_step) (simp add: rw_run_simps)
  then have "rw_reachable {RW_WRITE, RW_WAITREAD_FOREVER} (rw_state (- 1) 0 0 (AT RW_WRITING) (AT (RW_TRYREAD RW_WAITREAD_FOREVER)))"
    using rw_load [of "rw_state (- 1) 0 0 (AT RW_WRITING) (AT (RW_LOAD RW_WAITREAD_FOREVER))" 1 RW_WAITREAD_FOREVER "{RW_WRITE, RW_WAITREAD_FOREVER}"]
    by (elim rw_reachable_step) (simp add: rw_run_simps)
  then have "rw_reachable {RW_WRITE, RW_WAITREAD_FOREVER} (rw_state 0 0 0 (AT (RW_WAKE RW_IDLE)) (AT (RW_TRYREAD RW_WAITREAD_FOREVER)))"
    using rw_endwrite [of "rw_state (- 1) 0 0 (AT RW_WRITING) (AT (RW_TRYREAD RW_WAITREAD_FOREVER))" 0 "{RW_WRITE, RW_WAITREAD_FOREVER}"]
    by (elim rw_reachable_step) (simp add: rw_run_simps)
  then have "rw_reachable {RW_WRITE, RW_WAITREAD_FOREVER} (rw_state 0 0 0 (AT (RW_WAKE_WRITER RW_IDLE)) (AT (RW_TRYREAD RW_WAITREAD_FOREVER)))"
    using rw_wake [of "rw_state 0 0 0 (AT (RW_WAKE RW_IDLE)) (AT (RW_TRYREAD RW_WAITREAD_FOREVER))" 0 RW_IDLE "{RW_WRITE, RW_WAITREAD_FOREVER}"]
    by (elim rw_reachable_step) (simp add: rw_run_simps)
  then have "rw_reachable {RW_WRITE, RW_WAITREAD_FOREVER} (rw_state 0 0 0 (AT RW_IDLE) (AT (RW_TRYREAD RW_WAITREAD_FOREVER)))"
    using rw_wake_writer [of "rw_state 0 0 0 (AT (RW_WAKE_WRITER RW_IDLE)) (AT (RW_TRYREAD RW_WAITREAD_FOREVER))" 0 RW_IDLE "{RW_WRITE, RW_WAITREAD_FOREVER}"]
    by (elim rw_reachable_step) (simp add: rw_run_simps)
  then have "rw_reachable {RW_WRITE, RW_WAITREAD_FOREVER} (rw_state 0 0 0 (AT RW_IDLE) (AT (RW_CAS_READ RW_WAITREAD_FOREVER 0)))"
    using rw_tryread [of "rw_state 0 0 0 (AT RW_IDLE) (AT (RW_TRYREAD RW_WAITREAD_FOREVER))" 1 RW_WAITREAD_FOREVER "{RW_WRITE, RW_WAITREAD_FOREVER}"]
    by (elim rw_reachable_step) (simp add: rw_run_simps)
  then have "rw_reachable {RW_WRITE, RW_WAITREAD_FOREVER} (rw_state 1 0 0 (AT RW_IDLE) (AT RW_IDLE))"
    using rw_cas_read [of "rw_state 0 0 0 (AT RW_IDLE) (AT (RW_CAS_READ RW_WAITREAD_FOREVER 0))" 1 RW_WAITREAD_FOREVER 0 "{RW_WRITE, RW_WAITREAD_FOREVER}"]
    by (elim rw_reachable_step) (simp add: rw_run_simps)
  then show ?thesis .
qed

text \<open>Thread 1 wakes, sees the word 0 and loses the exchange to thread 0, which is done before thread 1 waits again.\<close>

lemma rw_run_timed:
  "rw_reachable {RW_WRITE, RW_WRITE_TIMED} (rw_state 0 0 1 (AT RW_IDLE) (ASLEEP RW_RELOAD 0))"
proof -
  have "rw_reachable {RW_WRITE, RW_WRITE_TIMED} (rw_state (- 1) 0 0 (AT RW_WRITING) (AT RW_IDLE))"
    by (rule rw_run_writing) simp
  then have "rw_reachable {RW_WRITE, RW_WRITE_TIMED} (rw_state (- 1) 0 0 (AT RW_WRITING) (AT (RW_LOAD RW_WRITE_TIMED)))"
    using rw_call [of "rw_state (- 1) 0 0 (AT RW_WRITING) (AT RW_IDLE)" 1 RW_WRITE_TIMED "{RW_WRITE, RW_WRITE_TIMED}"]
    by (elim rw_reachable_step) (simp add: rw_run_simps)
  then have "rw_reachable {RW_WRITE, RW_WRITE_TIMED} (rw_state (- 1) 0 0 (AT RW_WRITING) (AT (RW_WSTART RW_WRITE_TIMED (- 1))))"
    using rw_load [of "rw_state (- 1) 0 0 (AT RW_WRITING) (AT (RW_LOAD RW_WRITE_TIMED))" 1 RW_WRITE_TIMED "{RW_WRITE, RW_WRITE_TIMED}"]
    by (elim rw_reachable_step) (simp add: rw_run_simps)
  then have "rw_reachable {RW_WRITE, RW_WRITE_TIMED} (rw_state (- 1) 0 1 (AT RW_WRITING) (CALL RW_RELOAD (- 1)))"
    using rw_wwaiting_start [of "rw_state (- 1) 0 0 (AT RW_WRITING) (AT (RW_WSTART RW_WRITE_TIMED (- 1)))" 1 RW_WRITE_TIMED "- 1" "{RW_WRITE, RW_WRITE_TIMED}"]
    by (elim rw_reachable_step) (simp add: rw_run_simps)
  then have "rw_reachable {RW_WRITE, RW_WRITE_TIMED} (rw_state (- 1) 0 1 (AT RW_WRITING) (ASLEEP RW_RELOAD (- 1)))"
    using rw_futex [OF futex_wait.futex_sleep [of "rw_pc (rw_state (- 1) 0 1 (AT RW_WRITING) (CALL RW_RELOAD (- 1)))" 1 RW_RELOAD "- 1" "srw_lock (rw_state (- 1) 0 1 (AT RW_WRITING) (CALL RW_RELOAD (- 1)))"], of "{RW_WRITE, RW_WRITE_TIMED}"]
    by (elim rw_reachable_step) (simp add: rw_run_simps)
  then have "rw_reachable {RW_WRITE, RW_WRITE_TIMED} (rw_state (- 1) 0 1 (AT RW_WRITING) (RET RW_RELOAD 0))"
    using rw_futex [OF futex_wait.futex_spurious [of "rw_pc (rw_state (- 1) 0 1 (AT RW_WRITING) (ASLEEP RW_RELOAD (- 1)))" 1 RW_RELOAD "- 1" "srw_lock (rw_state (- 1) 0 1 (AT RW_WRITING) (ASLEEP RW_RELOAD (- 1)))"], of "{RW_WRITE, RW_WRITE_TIMED}"]
    by (elim rw_reachable_step) (simp add: rw_run_simps)
  then have "rw_reachable {RW_WRITE, RW_WRITE_TIMED} (rw_state (- 1) 0 0 (AT RW_WRITING) (AT RW_RELOAD))"
    using rw_waiting_end [of "rw_state (- 1) 0 1 (AT RW_WRITING) (RET RW_RELOAD 0)" 1 RW_RELOAD 0 "{RW_WRITE, RW_WRITE_TIMED}"]
    by (elim rw_reachable_step) (simp add: rw_run_simps)
  then have "rw_reachable {RW_WRITE, RW_WRITE_TIMED} (rw_state 0 0 0 (AT (RW_WAKE RW_IDLE)) (AT RW_RELOAD))"
    using rw_endwrite [of "rw_state (- 1) 0 0 (AT RW_WRITING) (AT RW_RELOAD)" 0 "{RW_WRITE, RW_WRITE_TIMED}"]
    by (elim rw_reachable_step) (simp add: rw_run_simps)
  then have "rw_reachable {RW_WRITE, RW_WRITE_TIMED} (rw_state 0 0 0 (AT (RW_WAKE_WRITER RW_IDLE)) (AT RW_RELOAD))"
    using rw_wake [of "rw_state 0 0 0 (AT (RW_WAKE RW_IDLE)) (AT RW_RELOAD)" 0 RW_IDLE "{RW_WRITE, RW_WRITE_TIMED}"]
    by (elim rw_reachable_step) (simp add: rw_run_simps)
  then have "rw_reachable {RW_WRITE, RW_WRITE_TIMED} (rw_state 0 0 0 (AT RW_IDLE) (AT RW_RELOAD))"
    using rw_wake_writer [of "rw_state 0 0 0 (AT (RW_WAKE_WRITER RW_IDLE)) (AT RW_RELOAD)" 0 RW_IDLE "{RW_WRITE, RW_WRITE_TIMED}"]
    by (elim rw_reachable_step) (simp add: rw_run_simps)
  then have "rw_reachable {RW_WRITE, RW_WRITE_TIMED} (rw_state 0 0 0 (AT RW_IDLE) (AT RW_RECAS))"
    using rw_reload [of "rw_state 0 0 0 (AT RW_IDLE) (AT RW_RELOAD)" 1 "{RW_WRITE, RW_WRITE_TIMED}"]
    by (elim rw_reachable_step) (simp add: rw_run_simps)
  then have "rw_reachable {RW_WRITE, RW_WRITE_TIMED} (rw_state 0 0 0 (AT (RW_LOAD RW_WRITE)) (AT RW_RECAS))"
    using rw_call [of "rw_state 0 0 0 (AT RW_IDLE) (AT RW_RECAS)" 0 RW_WRITE "{RW_WRITE, RW_WRITE_TIMED}"]
    by (elim rw_reachable_step) (simp add: rw_run_simps)
  then have "rw_reachable {RW_WRITE, RW_WRITE_TIMED} (rw_state 0 0 0 (AT (RW_CAS_WRITE RW_WRITE)) (AT RW_RECAS))"
    using rw_load [of "rw_state 0 0 0 (AT (RW_LOAD RW_WRITE)) (AT RW_RECAS)" 0 RW_WRITE "{RW_WRITE, RW_WRITE_TIMED}"]
    by (elim rw_reachable_step) (simp add: rw_run_simps)
  then have "rw_reachable {RW_WRITE, RW_WRITE_TIMED} (rw_state (- 1) 0 0 (AT RW_WRITING) (AT RW_RECAS))"
    using rw_cas_write [of "rw_state 0 0 0 (AT (RW_CAS_WRITE RW_WRITE)) (AT RW_RECAS)" 0 RW_WRITE "{RW_WRITE, RW_WRITE_TIMED}"]
    by (elim rw_reachable_step) (simp add: rw_run_simps)
  then have "rw_reachable {RW_WRITE, RW_WRITE_TIMED} (rw_state (- 1) 0 0 (AT RW_WRITING) (AT (RW_WSTART RW_WRITE_TIMED 0)))"
    using rw_recas_failed [of "rw_state (- 1) 0 0 (AT RW_WRITING) (AT RW_RECAS)" 1 "{RW_WRITE, RW_WRITE_TIMED}"]
    by (elim rw_reachable_step) (simp add: rw_run_simps)
  then have "rw_reachable {RW_WRITE, RW_WRITE_TIMED} (rw_state 0 0 0 (AT (RW_WAKE RW_IDLE)) (AT (RW_WSTART RW_WRITE_TIMED 0)))"
    using rw_endwrite [of "rw_state (- 1) 0 0 (AT RW_WRITING) (AT (RW_WSTART RW_WRITE_TIMED 0))" 0 "{RW_WRITE, RW_WRITE_TIMED}"]
    by (elim rw_reachable_step) (simp add: rw_run_simps)
  then have "rw_reachable {RW_WRITE, RW_WRITE_TIMED} (rw_state 0 0 0 (AT (RW_WAKE_WRITER RW_IDLE)) (AT (RW_WSTART RW_WRITE_TIMED 0)))"
    using rw_wake [of "rw_state 0 0 0 (AT (RW_WAKE RW_IDLE)) (AT (RW_WSTART RW_WRITE_TIMED 0))" 0 RW_IDLE "{RW_WRITE, RW_WRITE_TIMED}"]
    by (elim rw_reachable_step) (simp add: rw_run_simps)
  then have "rw_reachable {RW_WRITE, RW_WRITE_TIMED} (rw_state 0 0 0 (AT RW_IDLE) (AT (RW_WSTART RW_WRITE_TIMED 0)))"
    using rw_wake_writer [of "rw_state 0 0 0 (AT (RW_WAKE_WRITER RW_IDLE)) (AT (RW_WSTART RW_WRITE_TIMED 0))" 0 RW_IDLE "{RW_WRITE, RW_WRITE_TIMED}"]
    by (elim rw_reachable_step) (simp add: rw_run_simps)
  then have "rw_reachable {RW_WRITE, RW_WRITE_TIMED} (rw_state 0 0 1 (AT RW_IDLE) (CALL RW_RELOAD 0))"
    using rw_wwaiting_start [of "rw_state 0 0 0 (AT RW_IDLE) (AT (RW_WSTART RW_WRITE_TIMED 0))" 1 RW_WRITE_TIMED 0 "{RW_WRITE, RW_WRITE_TIMED}"]
    by (elim rw_reachable_step) (simp add: rw_run_simps)
  then have "rw_reachable {RW_WRITE, RW_WRITE_TIMED} (rw_state 0 0 1 (AT RW_IDLE) (ASLEEP RW_RELOAD 0))"
    using rw_futex [OF futex_wait.futex_sleep [of "rw_pc (rw_state 0 0 1 (AT RW_IDLE) (CALL RW_RELOAD 0))" 1 RW_RELOAD 0 "srw_lock (rw_state 0 0 1 (AT RW_IDLE) (CALL RW_RELOAD 0))"], of "{RW_WRITE, RW_WRITE_TIMED}"]
    by (elim rw_reachable_step) (simp add: rw_run_simps)
  then show ?thesis .
qed

section \<open>Properties\<close>

lemma waitread_leaks:
  "\<exists>s. rw_reachable {RW_WRITE, RW_WAITREAD_FOREVER} s \<and> srw_lock s = 1 \<and> (\<forall>t. rw_pc s t = AT RW_IDLE)"
  by (rule exI, intro conjI, rule rw_run_leak) (simp_all add: rw_state_def three_pcs_def)

lemma write_timed_sleeps:
  "\<exists>s. rw_reachable {RW_WRITE, RW_WRITE_TIMED} s \<and> srw_lock s = 0 \<and> rw_pc s 1 = ASLEEP RW_RELOAD 0
     \<and> (\<forall>t. t = 1 \<or> rw_pc s t = AT RW_IDLE)"
  by (rule exI, intro conjI, rule rw_run_timed) (simp_all add: rw_state_def three_pcs_def)

text \<open>
  C35: The read/write lock excludes.  In every interleaving of the read, write, wait, timed, upgrade
  and downgrade functions (without \<open>waitread_timed\<close> with an infinite timeout), a thread that writes
  is the only one that holds the lock; the word is \<open>(uintptr_t)-1\<close> exactly while a thread writes,
  and otherwise the number of threads that read.  Two timed operations go wrong.  There is a run
  after which every thread is idle and the lock is read-locked for ever:
  \<open>Dee_shared_rwlock_waitread_timed\<close> with the timeout \<open>(uint64_t)-1\<close> returns
  with a read lock its caller does not know of.  There is a run after which the lock is free, every
  other thread is idle, and one thread sleeps in \<open>Dee_shared_rwlock_write_timed\<close> until the word is no
  longer 0: its exchange failed after it had read 0, and it waits for that value.
\<close>

theorem shared_rwlock_characterized:
  assumes "rw_reachable ops s" "RW_WAITREAD_FOREVER \<notin> ops"
  shows "(rw_pc s t = AT RW_WRITING \<longrightarrow> \<not> reads (rw_pc s u) \<and> (rw_pc s u = AT RW_WRITING \<longrightarrow> t = u))
    \<and> (srw_lock s = - 1 \<longleftrightarrow> (\<exists>v. rw_pc s v = AT RW_WRITING))
    \<and> (srw_lock s \<noteq> - 1 \<longrightarrow> unat (srw_lock s) = card {v. reads (rw_pc s v)})
    \<and> (\<exists>s. rw_reachable {RW_WRITE, RW_WAITREAD_FOREVER} s \<and> srw_lock s = 1 \<and> (\<forall>t. rw_pc s t = AT RW_IDLE))
    \<and> (\<exists>s. rw_reachable {RW_WRITE, RW_WRITE_TIMED} s \<and> srw_lock s = 0 \<and> rw_pc s 1 = ASLEEP RW_RELOAD 0
         \<and> (\<forall>t. t = 1 \<or> rw_pc s t = AT RW_IDLE))"
proof -
  have inv: "rw_inv s" by (rule rw_reachable_inv [OF assms])
  then have T: "tallied (bit_of reads) (rw_pc s)" "tallied (bit_of writes) (rw_pc s)"
    by (simp_all add: rw_inv_def)
  have le: "tally (bit_of writes) (rw_pc s) \<le> 1"
    using inv by (simp add: rw_inv_def split: if_splits)
  have w: "srw_lock s = - 1 \<longleftrightarrow> (\<exists>v. rw_pc s v = AT RW_WRITING)"
    using inv tally_zero [OF T(2)] by (auto simp: rw_inv_def writes_def split: if_splits)
  have "\<not> reads (rw_pc s u)" if "srw_lock s = - 1"
    using inv that tally_zero [OF T(1)] by (simp add: rw_inv_def)
  moreover have "t = u" if "rw_pc s t = AT RW_WRITING" "rw_pc s u = AT RW_WRITING"
    by (rule tally_unique [OF T(2) le, of t u "AT RW_IDLE"]) (simp_all add: that writes_def)
  moreover have "unat (srw_lock s) = card {v. reads (rw_pc s v)}" if "srw_lock s \<noteq> - 1"
    using inv that by (simp add: rw_inv_def tally_card)
  ultimately show ?thesis using w waitread_leaks write_timed_sleeps by blast
qed

theorem shared_rwlock_characterized_witness:
  "\<not> reads (rw_pc (rw_state (- 1) 0 0 (AT RW_WRITING) (AT RW_IDLE)) 1)
    \<and> (srw_lock (rw_state (- 1) 0 0 (AT RW_WRITING) (AT RW_IDLE)) = - 1
       \<longleftrightarrow> (\<exists>v. rw_pc (rw_state (- 1) 0 0 (AT RW_WRITING) (AT RW_IDLE)) v = AT RW_WRITING))"
proof -
  let ?s = "rw_state (- 1) 0 0 (AT RW_WRITING) (AT RW_IDLE)"
  have "rw_reachable {RW_WRITE} ?s" by (rule rw_run_writing) simp
  from shared_rwlock_characterized [OF this, of 0 1] show ?thesis by (simp add: rw_state_def)
qed

end
