(* ===== verification/DequeEnds.thy ===== *)
theory DequeEnds
  imports Prelude
begin

text \<open>
  The double-ended queue of the collections module (dex/collections/deque.c, libcollections.h): a
  doubly linked list of buckets of \<open>d_bucket_sz\<close> slots.  \<open>d_buckets\<close> lists the buckets from \<open>d_head\<close>
  to \<open>d_tail\<close> along \<open>db_next\<close>, so \<open>d_head == d_tail\<close> means that there is at most one; a position in
  that list is a bucket pointer.  A slot is \<open>None\<close> until something is stored in it.

  The functions return \<open>None\<close> where the code has no defined behaviour: an \<open>ASSERT\<close> fails or a slot is
  read that was never stored or does not exist.  \<open>mem\<close> says whether \<open>TRY_NEW_BUCKET\<close> gets its memory.  Sizes and
  indices count objects in memory and do not wrap around.
\<close>

type_synonym 'a bucket = "'a option list"

record 'a Deque =
  d_buckets :: "'a bucket list"
  d_size :: nat
  d_head_idx :: nat
  d_head_use :: nat
  d_tail_sz :: nat
  d_bucket_sz :: nat
  d_version :: u64

definition DEQUE_BUCKET_DEFAULT_SIZE :: nat where
  "DEQUE_BUCKET_DEFAULT_SIZE = 62"

definition db_get :: "'a bucket list \<Rightarrow> nat \<Rightarrow> nat \<Rightarrow> 'a option" where
  "db_get bs k i = (if k < length bs \<and> i < length (bs ! k) then bs ! k ! i else None)"

definition db_put :: "'a bucket list \<Rightarrow> nat \<Rightarrow> nat \<Rightarrow> 'a option \<Rightarrow> 'a bucket list" where
  "db_put bs k i x = bs[k := (bs ! k)[i := x]]"

definition TRY_NEW_BUCKET :: "bool \<Rightarrow> nat \<Rightarrow> 'a bucket option" where
  "TRY_NEW_BUCKET mem bucket_size = (if mem then Some (replicate bucket_size None) else None)"

definition deq_bounds :: "'a Deque \<Rightarrow> bool" where
  "deq_bounds self \<longleftrightarrow> d_head_idx self < d_bucket_sz self \<and> d_head_use self \<le> d_bucket_sz self
     \<and> d_tail_sz self \<le> d_bucket_sz self"

section \<open>Pushing and popping at the ends\<close>

text \<open>The flag is the result of the function: false when there was no memory for a bucket.\<close>

definition PushFront_bucket :: "bool \<Rightarrow> 'a Deque \<Rightarrow> 'a \<Rightarrow> (bool \<times> 'a Deque) option" where
  "PushFront_bucket mem self item =
     (case TRY_NEW_BUCKET mem (d_bucket_sz self) of
        None \<Rightarrow> Some (False, self)
      | Some new_bucket \<Rightarrow>
          let buckets = new_bucket # d_buckets self
          in if d_buckets self \<noteq> [] then
            let idx = d_bucket_sz self - 1
            in if length (d_buckets self) = 1 \<and> \<not> d_size self \<le> d_bucket_sz self then None
            else Some (True, self\<lparr>d_head_use := 1, d_head_idx := idx,
                d_tail_sz := (if length (d_buckets self) = 1 then d_size self else d_tail_sz self),
                d_buckets := db_put buckets 0 idx (Some item),
                d_size := d_size self + 1, d_version := d_version self + 1\<rparr>)
          else if \<not> (d_size self = 0 \<and> d_tail_sz self = 0) then None
          else
            let idx = d_bucket_sz self div 2
            in Some (True, self\<lparr>d_head_use := 1, d_head_idx := idx,
                d_buckets := db_put buckets 0 idx (Some item),
                d_size := d_size self + 1, d_version := d_version self + 1\<rparr>))"

definition Deque_PushFront_unlocked :: "bool \<Rightarrow> 'a Deque \<Rightarrow> 'a \<Rightarrow> (bool \<times> 'a Deque) option" where
  "Deque_PushFront_unlocked mem self item =
     (if \<not> deq_bounds self then None
      else if d_head_idx self \<noteq> 0 then
        let idx = d_head_idx self - 1
        in Some (True, self\<lparr>d_head_idx := idx, d_size := d_size self + 1, d_head_use := d_head_use self + 1,
             d_buckets := db_put (d_buckets self) 0 idx (Some item), d_version := d_version self + 1\<rparr>)
      else PushFront_bucket mem self item)"

definition PushBack_bucket :: "bool \<Rightarrow> 'a Deque \<Rightarrow> 'a \<Rightarrow> (bool \<times> 'a Deque) option" where
  "PushBack_bucket mem self item =
     (case TRY_NEW_BUCKET mem (d_bucket_sz self) of
        None \<Rightarrow> Some (False, self)
      | Some new_bucket \<Rightarrow>
          let buckets = d_buckets self @ [new_bucket]
          in if d_buckets self = [] then
            let idx = d_bucket_sz self div 2
            in if d_tail_sz self \<noteq> 0 then None
            else Some (True, self\<lparr>d_head_idx := idx, d_head_use := 1,
                d_buckets := db_put buckets 0 idx (Some item),
                d_size := d_size self + 1, d_version := d_version self + 1\<rparr>)
          else Some (True, self\<lparr>d_tail_sz := 1,
                d_buckets := db_put buckets (length (d_buckets self)) 0 (Some item),
                d_size := d_size self + 1, d_version := d_version self + 1\<rparr>))"

definition Deque_PushBack_unlocked :: "bool \<Rightarrow> 'a Deque \<Rightarrow> 'a \<Rightarrow> (bool \<times> 'a Deque) option" where
  "Deque_PushBack_unlocked mem self item =
     (if \<not> deq_bounds self then None
      else if 1 < length (d_buckets self) then
        if d_tail_sz self < d_bucket_sz self then
          Some (True, self\<lparr>d_buckets := db_put (d_buckets self) (length (d_buckets self) - 1) (d_tail_sz self) (Some item),
              d_tail_sz := d_tail_sz self + 1, d_size := d_size self + 1, d_version := d_version self + 1\<rparr>)
        else PushBack_bucket mem self item
      else if d_buckets self \<noteq> [] then
        let tail_free = d_head_idx self + d_head_use self
        in if \<not> (d_tail_sz self = 0 \<and> d_size self \<noteq> 0 \<and> tail_free \<le> d_bucket_sz self) then None
        else if tail_free < d_bucket_sz self then
          Some (True, self\<lparr>d_head_use := d_head_use self + 1, d_size := d_size self + 1,
              d_buckets := db_put (d_buckets self) 0 tail_free (Some item), d_version := d_version self + 1\<rparr>)
        else PushBack_bucket mem self item
      else PushBack_bucket mem self item)"

text \<open>Popping yields the item; the slot keeps its content.\<close>

definition Deque_PopFront_unlocked :: "'a Deque \<Rightarrow> ('a \<times> 'a Deque) option" where
  "Deque_PopFront_unlocked self =
     (if d_size self = 0 then None
      else case db_get (d_buckets self) 0 (d_head_idx self) of
        None \<Rightarrow> None
      | Some result \<Rightarrow>
          let rest = tl (d_buckets self);
              self = self\<lparr>d_size := d_size self - 1, d_head_use := d_head_use self - 1\<rparr>
          in if d_head_use self = 0 then
            let self = self\<lparr>d_head_idx := 0, d_buckets := rest, d_version := d_version self + 1\<rparr>
            in if (d_size self = 0) \<noteq> (rest = []) then None
            else if rest = [] then Some (result, self)
            else if length rest = 1 then
              if \<not> d_size self \<le> d_bucket_sz self then None
              else Some (result, self\<lparr>d_head_use := d_tail_sz self, d_tail_sz := 0\<rparr>)
            else Some (result, self\<lparr>d_head_use := d_bucket_sz self\<rparr>)
          else Some (result, self\<lparr>d_head_idx := d_head_idx self + 1, d_version := d_version self + 1\<rparr>))"

definition PopBack_single :: "'a Deque \<Rightarrow> ('a \<times> 'a Deque) option" where
  "PopBack_single self =
     (if \<not> (d_size self \<le> d_bucket_sz self \<and> d_size self = d_head_use self \<and> d_tail_sz self = 0) then None
      else
        let self = self\<lparr>d_size := d_size self - 1, d_head_use := d_head_use self - 1, d_version := d_version self + 1\<rparr>
        in case db_get (d_buckets self) 0 (d_head_idx self + d_head_use self) of
          None \<Rightarrow> None
        | Some result \<Rightarrow>
            Some (result, if d_head_use self = 0 then self\<lparr>d_head_idx := 0, d_buckets := []\<rparr> else self))"

definition PopBack_multi :: "'a Deque \<Rightarrow> ('a \<times> 'a Deque) option" where
  "PopBack_multi self =
     (if d_tail_sz self = 0 then None
      else
        let self = self\<lparr>d_size := d_size self - 1, d_tail_sz := d_tail_sz self - 1, d_version := d_version self + 1\<rparr>
        in case db_get (d_buckets self) (length (d_buckets self) - 1) (d_tail_sz self) of
          None \<Rightarrow> None
        | Some result \<Rightarrow>
            if d_tail_sz self = 0 then
              let self = self\<lparr>d_buckets := butlast (d_buckets self)\<rparr>
              in if length (d_buckets self) = 1 then
                if \<not> (d_size self \<le> d_bucket_sz self \<and> d_head_idx self + d_head_use self = d_bucket_sz self
                      \<and> d_size self = d_head_use self) then None
                else Some (result, self)
              else Some (result, self\<lparr>d_tail_sz := d_bucket_sz self\<rparr>)
            else Some (result, self))"

definition Deque_PopBack_unlocked :: "'a Deque \<Rightarrow> ('a \<times> 'a Deque) option" where
  "Deque_PopBack_unlocked self =
     (if d_buckets self = [] then None
      else if length (d_buckets self) = 1 then PopBack_single self
      else PopBack_multi self)"

section \<open>The items of a deque\<close>

text \<open>
  The buckets behind each other are one array of slots, of which the items occupy a contiguous part
  from \<open>d_head_idx\<close> on.
\<close>

definition deq_slots :: "'a Deque \<Rightarrow> 'a option list" where
  "deq_slots self = take (d_size self) (drop (d_head_idx self) (concat (d_buckets self)))"

definition deq_ok :: "'a Deque \<Rightarrow> bool" where
  "deq_ok self \<longleftrightarrow> 0 < d_bucket_sz self \<and> (\<forall>b\<in>set (d_buckets self). length b = d_bucket_sz self)
     \<and> d_head_idx self < d_bucket_sz self
     \<and> (if d_buckets self = [] then d_size self = 0 \<and> d_head_idx self = 0 \<and> d_head_use self = 0 \<and> d_tail_sz self = 0
        else if length (d_buckets self) = 1 then
          0 < d_size self \<and> d_head_use self = d_size self \<and> d_head_idx self + d_size self \<le> d_bucket_sz self
          \<and> d_tail_sz self = 0
        else 0 < d_tail_sz self \<and> d_tail_sz self \<le> d_bucket_sz self \<and> d_head_use self = d_bucket_sz self - d_head_idx self
          \<and> d_head_idx self + d_size self = (length (d_buckets self) - 1) * d_bucket_sz self + d_tail_sz self)"

definition deque_holds :: "'a Deque \<Rightarrow> 'a list \<Rightarrow> bool" where
  "deque_holds self xs \<longleftrightarrow> deq_ok self \<and> deq_slots self = map Some xs"

lemma length_concat_buckets:
  "\<forall>b\<in>set bs. length b = n \<Longrightarrow> length (concat bs) = length bs * n"
  by (induction bs) auto

lemma nth_concat_buckets:
  "\<forall>b\<in>set bs. length b = n \<Longrightarrow> k < length bs \<Longrightarrow> i < n \<Longrightarrow> concat bs ! (k * n + i) = db_get bs k i"
proof (induction bs arbitrary: k)
  case (Cons b bs)
  then show ?case by (cases k) (simp_all add: db_get_def nth_append)
qed simp

lemma concat_db_put:
  "\<forall>b\<in>set bs. length b = n \<Longrightarrow> k < length bs \<Longrightarrow> i < n \<Longrightarrow> concat (db_put bs k i x) = (concat bs)[k * n + i := x]"
proof (induction bs arbitrary: k)
  case (Cons b bs)
  then show ?case by (cases k) (simp_all add: db_put_def list_update_append)
qed simp

lemma db_put_lengths:
  "\<forall>b\<in>set bs. length b = n \<Longrightarrow> k < length bs \<Longrightarrow> \<forall>b\<in>set (db_put bs k i x). length b = n"
  unfolding db_put_def by (auto dest!: set_update_subset_insert [THEN subsetD])

lemma length_db_put [simp]: "length (db_put bs k i x) = length bs"
  by (simp add: db_put_def)

lemma db_put_Nil_iff [simp]: "db_put bs k i x = [] \<longleftrightarrow> bs = []"
  by (simp add: db_put_def)

lemma take_drop_update_first:
  "h < length m \<Longrightarrow> take (Suc n) (drop h (m[h := x])) = x # take n (drop (Suc h) m)"
  by (simp add: drop_update_swap Cons_nth_drop_Suc [symmetric])

lemma take_drop_update_last:
  "h + n < length m \<Longrightarrow> take (Suc n) (drop h (m[h + n := x])) = take n (drop h m) @ [x]"
  by (simp add: take_Suc_conv_app_nth drop_update_swap)

text \<open>The three shapes of a deque: no bucket, one bucket, a head and a tail.\<close>

lemma deq_ok_bounds: "deq_ok self \<Longrightarrow> deq_bounds self"
  by (auto simp: deq_ok_def deq_bounds_def split: if_splits)

lemma deq_ok_single:
  "deq_ok self \<Longrightarrow> length (d_buckets self) = 1 \<Longrightarrow>
    0 < d_size self \<and> d_head_use self = d_size self \<and> d_head_idx self + d_size self \<le> d_bucket_sz self \<and> d_tail_sz self = 0"
  by (auto simp: deq_ok_def split: if_splits)

lemma deq_ok_multi:
  "deq_ok self \<Longrightarrow> 1 < length (d_buckets self) \<Longrightarrow>
    0 < d_tail_sz self \<and> d_tail_sz self \<le> d_bucket_sz self \<and> d_head_use self = d_bucket_sz self - d_head_idx self
    \<and> d_head_idx self + d_size self = (length (d_buckets self) - 1) * d_bucket_sz self + d_tail_sz self"
  by (auto simp: deq_ok_def split: if_splits)

lemma deq_ok_common:
  "deq_ok self \<Longrightarrow> 0 < d_bucket_sz self" "deq_ok self \<Longrightarrow> d_head_idx self < d_bucket_sz self"
  "deq_ok self \<Longrightarrow> \<forall>b\<in>set (d_buckets self). length b = d_bucket_sz self"
  by (simp_all add: deq_ok_def)

lemma deq_ok_empty:
  assumes "deq_ok self"
  shows "d_buckets self = [] \<longleftrightarrow> d_size self = 0"
proof -
  consider "d_buckets self = []" | "length (d_buckets self) = 1" | "1 < length (d_buckets self)"
    by (cases "d_buckets self") auto
  then show ?thesis
  proof cases
    case 1
    then show ?thesis using assms by (simp add: deq_ok_def)
  next
    case 2
    then show ?thesis using deq_ok_single [OF assms] by auto
  next
    case 3
    have "d_bucket_sz self \<le> (length (d_buckets self) - 1) * d_bucket_sz self" using 3 by (cases "length (d_buckets self) - 1") auto
    then have "0 < d_size self" using deq_ok_multi [OF assms 3] deq_ok_common(2) [OF assms] by linarith
    then show ?thesis using 3 by auto
  qed
qed

lemma slots_in_buckets:
  assumes "deq_ok self"
  shows "d_head_idx self + d_size self \<le> length (concat (d_buckets self))
    \<or> d_buckets self = []"
proof -
  have c: "length (concat (d_buckets self)) = length (d_buckets self) * d_bucket_sz self"
    using length_concat_buckets deq_ok_common(3) [OF assms] by blast
  consider "d_buckets self = []" | "length (d_buckets self) = 1" | "1 < length (d_buckets self)"
    by (cases "d_buckets self") auto
  then show ?thesis
  proof cases
    case 3
    then obtain n where "length (d_buckets self) = Suc n" by (cases "length (d_buckets self)") auto
    then show ?thesis using deq_ok_multi [OF assms 3] c by simp
  qed (use deq_ok_single [OF assms] c in auto)
qed

lemma PushFront_bucket_ok:
  assumes "deq_ok self" "d_head_idx self = 0" "PushFront_bucket True self item = Some (b, self')"
  shows "b \<and> deq_ok self' \<and> deq_slots self' = Some item # deq_slots self"
proof -
  consider "d_buckets self = []" | "length (d_buckets self) = 1" | "1 < length (d_buckets self)"
    by (cases "d_buckets self") auto
  then show ?thesis
  proof cases
    case 1
    then show ?thesis
      using assms by (auto simp: PushFront_bucket_def TRY_NEW_BUCKET_def Let_def deq_ok_def deq_slots_def db_put_def
          drop_update_swap take_Suc_conv_app_nth split: if_splits)
  next
    case 2
    note s = deq_ok_single [OF assms(1) 2] deq_ok_common [OF assms(1)]
    have "d_buckets self \<noteq> []" using 2 by auto
    then show ?thesis
      using assms(2,3) 2 s
      by (auto simp: PushFront_bucket_def TRY_NEW_BUCKET_def Let_def deq_ok_def deq_slots_def db_put_def
          drop_update_swap split: if_splits)
  next
    case 3
    note s = deq_ok_multi [OF assms(1) 3] deq_ok_common [OF assms(1)]
    obtain n where "length (d_buckets self) = Suc n" using 3 by (cases "length (d_buckets self)") auto
    moreover have "d_buckets self \<noteq> []" using 3 by auto
    ultimately show ?thesis
      using assms(2,3) 3 s
      by (auto simp: PushFront_bucket_def TRY_NEW_BUCKET_def Let_def deq_ok_def deq_slots_def db_put_def
          drop_update_swap split: if_splits)
  qed
qed

lemma PushFront_unlocked_ok:
  assumes "deq_ok self"
  shows "\<exists>self'. Deque_PushFront_unlocked True self item = Some (True, self')
    \<and> deq_ok self' \<and> deq_slots self' = Some item # deq_slots self"
proof (cases "d_head_idx self = 0")
  case True
  have "\<exists>self'. PushFront_bucket True self item = Some (True, self')"
    using deq_ok_single [OF assms] deq_ok_common [OF assms] deq_ok_empty [OF assms] assms True
    by (auto simp: PushFront_bucket_def TRY_NEW_BUCKET_def Let_def deq_ok_def)
  then obtain self' where s': "PushFront_bucket True self item = Some (True, self')" by blast
  then show ?thesis
    using PushFront_bucket_ok [OF assms True s'] True deq_ok_bounds [OF assms]
    by (simp add: Deque_PushFront_unlocked_def)
next
  case False
  let ?i = "d_head_idx self - 1"
  have ne: "d_buckets self \<noteq> []" using assms False by (auto simp: deq_ok_def)
  then have len: "0 < length (d_buckets self)" by simp
  note c = deq_ok_common [OF assms]
  have i: "?i < d_bucket_sz self" "Suc ?i = d_head_idx self" using c(2) False by auto
  have m: "concat (db_put (d_buckets self) 0 ?i (Some item)) = (concat (d_buckets self))[?i := Some item]"
    using concat_db_put [OF c(3) len i(1)] by simp
  have "?i < length (concat (d_buckets self))"
    using slots_in_buckets [OF assms] ne i(2) by simp
  then have "take (Suc (d_size self)) (drop ?i ((concat (d_buckets self))[?i := Some item]))
      = Some item # take (d_size self) (drop (d_head_idx self) (concat (d_buckets self)))"
    using take_drop_update_first [of ?i] i(2) by metis
  moreover have "\<forall>b\<in>set (db_put (d_buckets self) 0 ?i (Some item)). length b = d_bucket_sz self"
    by (rule db_put_lengths [OF c(3) len])
  ultimately show ?thesis
    using assms False ne m deq_ok_bounds [OF assms]
    by (auto simp: Deque_PushFront_unlocked_def Let_def deq_slots_def deq_ok_def)
qed

lemma PushFront_unlocked_no_memory:
  assumes "deq_ok self"
  shows "Deque_PushFront_unlocked False self item = Some (False, self)
    \<or> (\<exists>self'. Deque_PushFront_unlocked False self item = Some (True, self') \<and> deq_ok self'
        \<and> deq_slots self' = Some item # deq_slots self)"
proof (cases "d_head_idx self = 0")
  case True
  then show ?thesis using deq_ok_bounds [OF assms]
    by (simp add: Deque_PushFront_unlocked_def PushFront_bucket_def TRY_NEW_BUCKET_def)
next
  case False
  then have "Deque_PushFront_unlocked False self item = Deque_PushFront_unlocked True self item"
    by (simp add: Deque_PushFront_unlocked_def)
  then show ?thesis using PushFront_unlocked_ok [OF assms, of item] by simp
qed

text \<open>Pushing at the back stores behind the last item.\<close>

lemma slots_push_back:
  assumes "deq_ok self" "k < length (d_buckets self)" "i < d_bucket_sz self"
    and "k * d_bucket_sz self + i = d_head_idx self + d_size self"
  shows "take (Suc (d_size self)) (drop (d_head_idx self) (concat (db_put (d_buckets self) k i x)))
      = deq_slots self @ [x]"
    and "\<forall>b\<in>set (db_put (d_buckets self) k i x). length b = d_bucket_sz self"
proof -
  note c = deq_ok_common [OF assms(1)]
  have "k * d_bucket_sz self + i < Suc k * d_bucket_sz self" using assms(3) by simp
  also have "\<dots> \<le> length (d_buckets self) * d_bucket_sz self" using assms(2) by (intro mult_le_mono1) simp
  also have "\<dots> = length (concat (d_buckets self))" using length_concat_buckets [OF c(3)] by simp
  finally have lt: "d_head_idx self + d_size self < length (concat (d_buckets self))" using assms(4) by simp
  have "concat (db_put (d_buckets self) k i x) = (concat (d_buckets self))[d_head_idx self + d_size self := x]"
    using concat_db_put [OF c(3) assms(2,3)] assms(4) by simp
  then show "take (Suc (d_size self)) (drop (d_head_idx self) (concat (db_put (d_buckets self) k i x))) = deq_slots self @ [x]"
    unfolding deq_slots_def using take_drop_update_last [OF lt] by metis
  show "\<forall>b\<in>set (db_put (d_buckets self) k i x). length b = d_bucket_sz self"
    by (rule db_put_lengths [OF c(3) assms(2)])
qed

text \<open>Without room in the last bucket, a new one follows.\<close>

lemma PushBack_bucket_ok:
  assumes "deq_ok self"
    and "d_buckets self = [] \<or> d_head_idx self + d_size self = length (d_buckets self) * d_bucket_sz self"
  shows "\<exists>self'. PushBack_bucket True self item = Some (True, self')
    \<and> deq_ok self' \<and> deq_slots self' = deq_slots self @ [Some item]"
proof (cases "d_buckets self = []")
  case True
  then show ?thesis
    using assms by (auto simp: PushBack_bucket_def TRY_NEW_BUCKET_def Let_def deq_ok_def deq_slots_def db_put_def
        drop_update_swap take_Suc_conv_app_nth split: if_splits)
next
  case False
  note c = deq_ok_common [OF assms(1)]
  let ?bs = "d_buckets self" and ?n = "d_bucket_sz self"
  have full: "length (concat ?bs) = d_head_idx self + d_size self"
    using length_concat_buckets [OF c(3)] assms(2) False by simp
  have put: "db_put (?bs @ [replicate ?n None]) (length ?bs) 0 (Some item) = ?bs @ [(replicate ?n None)[0 := Some item]]"
    by (simp add: db_put_def)
  obtain r where r: "(replicate ?n None)[0 := Some item] = Some item # r" using c(1) by (cases ?n) auto
  have slots: "take (Suc (d_size self)) (drop (d_head_idx self) (concat (db_put (?bs @ [replicate ?n None]) (length ?bs) 0 (Some item))))
      = deq_slots self @ [Some item]"
    using full by (simp add: put r deq_slots_def)
  have use: "d_head_use self = ?n - d_head_idx self"
  proof (cases "length ?bs = 1")
    case True
    then show ?thesis using deq_ok_single [OF assms(1) True] assms(2) False by simp
  next
    case False
    then have "1 < length ?bs" using \<open>?bs \<noteq> []\<close> by (cases ?bs) auto
    then show ?thesis using deq_ok_multi [OF assms(1)] by simp
  qed
  let ?s = "self\<lparr>d_tail_sz := 1, d_buckets := db_put (?bs @ [replicate ?n None]) (length ?bs) 0 (Some item),
    d_size := d_size self + 1, d_version := d_version self + 1\<rparr>"
  have "PushBack_bucket True self item = Some (True, ?s)"
    using False by (simp add: PushBack_bucket_def TRY_NEW_BUCKET_def Let_def)
  moreover have "deq_ok ?s"
    using c use full length_concat_buckets [OF c(3)] False by (auto simp: deq_ok_def put)
  moreover have "deq_slots ?s = deq_slots self @ [Some item]"
    using slots by (simp add: deq_slots_def)
  ultimately show ?thesis by blast
qed

lemma PushBack_room_multi:
  assumes "deq_ok self" "1 < length (d_buckets self)" "d_tail_sz self < d_bucket_sz self"
  shows "\<exists>self'. Deque_PushBack_unlocked mem self item = Some (True, self')
    \<and> deq_ok self' \<and> deq_slots self' = deq_slots self @ [Some item]"
proof -
  note m = deq_ok_multi [OF assms(1,2)] and c = deq_ok_common [OF assms(1)]
  have k: "length (d_buckets self) - 1 < length (d_buckets self)" using assms(2) by simp
  note p = slots_push_back [OF assms(1) k assms(3), of "Some item"]
  show ?thesis
    using p m c assms(2,3) deq_ok_bounds [OF assms(1)]
    by (auto simp: Deque_PushBack_unlocked_def deq_slots_def deq_ok_def)
qed

lemma PushBack_room_single:
  assumes "deq_ok self" "length (d_buckets self) = 1" "d_head_idx self + d_head_use self < d_bucket_sz self"
  shows "\<exists>self'. Deque_PushBack_unlocked mem self item = Some (True, self')
    \<and> deq_ok self' \<and> deq_slots self' = deq_slots self @ [Some item]"
proof -
  note m = deq_ok_single [OF assms(1,2)] and c = deq_ok_common [OF assms(1)]
  have k: "0 < length (d_buckets self)" using assms(2) by simp
  note p = slots_push_back [OF assms(1) k assms(3), of "Some item"]
  have ne: "d_buckets self \<noteq> []" using k by simp
  show ?thesis
    using p m c assms(2,3) ne deq_ok_bounds [OF assms(1)]
    by (auto simp: Deque_PushBack_unlocked_def deq_slots_def deq_ok_def Let_def)
qed

text \<open>Where there is no room, the function is \<open>PushBack_bucket\<close>.\<close>

lemma PushBack_cases:
  assumes "deq_ok self"
  obtains (room) "\<And>mem item. \<exists>self'. Deque_PushBack_unlocked mem self item = Some (True, self')
      \<and> deq_ok self' \<and> deq_slots self' = deq_slots self @ [Some item]"
  | (full) "\<And>mem item. Deque_PushBack_unlocked mem self item = PushBack_bucket mem self item"
      "d_buckets self = [] \<or> d_head_idx self + d_size self = length (d_buckets self) * d_bucket_sz self"
proof -
  consider "d_buckets self = []" | "length (d_buckets self) = 1" | "1 < length (d_buckets self)"
    by (cases "d_buckets self") auto
  then show thesis
  proof cases
    case 1
    then show thesis using full deq_ok_bounds [OF assms] by (simp add: Deque_PushBack_unlocked_def)
  next
    case 2
    note m = deq_ok_single [OF assms 2]
    show thesis
    proof (cases "d_head_idx self + d_head_use self < d_bucket_sz self")
      case True
      then show thesis using room PushBack_room_single [OF assms 2] by blast
    next
      case False
      have ne: "d_buckets self \<noteq> []" using 2 by auto
      show thesis
        by (rule full) (use False 2 m ne deq_ok_bounds [OF assms] in \<open>auto simp: Deque_PushBack_unlocked_def Let_def\<close>)
    qed
  next
    case 3
    note m = deq_ok_multi [OF assms 3]
    show thesis
    proof (cases "d_tail_sz self < d_bucket_sz self")
      case True
      then show thesis using room PushBack_room_multi [OF assms 3] by blast
    next
      case False
      obtain n where n: "length (d_buckets self) = Suc n" using 3 by (cases "length (d_buckets self)") auto
      show thesis
        by (rule full) (use False 3 m n deq_ok_bounds [OF assms] in \<open>auto simp: Deque_PushBack_unlocked_def\<close>)
    qed
  qed
qed

lemma PushBack_unlocked_ok:
  assumes "deq_ok self"
  shows "\<exists>self'. Deque_PushBack_unlocked True self item = Some (True, self')
    \<and> deq_ok self' \<and> deq_slots self' = deq_slots self @ [Some item]"
  using assms by (cases rule: PushBack_cases) (use PushBack_bucket_ok [OF assms] in auto)

lemma PushBack_unlocked_no_memory:
  assumes "deq_ok self"
  shows "Deque_PushBack_unlocked False self item = Some (False, self)
    \<or> (\<exists>self'. Deque_PushBack_unlocked False self item = Some (True, self') \<and> deq_ok self'
        \<and> deq_slots self' = deq_slots self @ [Some item])"
  using assms by (cases rule: PushBack_cases) (auto simp: PushBack_bucket_def TRY_NEW_BUCKET_def)

lemma slot_first:
  assumes "deque_holds self (x # xs)"
  shows "db_get (d_buckets self) 0 (d_head_idx self) = Some x" "d_buckets self \<noteq> []" "d_size self = Suc (length xs)"
    and "take (d_size self - 1) (drop (Suc (d_head_idx self)) (concat (d_buckets self))) = map Some xs"
proof -
  have ok: "deq_ok self" and s: "deq_slots self = Some x # map Some xs" using assms by (simp_all add: deque_holds_def)
  then show ne: "d_buckets self \<noteq> []" by (auto simp: deq_slots_def)
  have len: "d_head_idx self + d_size self \<le> length (concat (d_buckets self))" using slots_in_buckets [OF ok] ne by simp
  have "length (deq_slots self) = Suc (length xs)" using s by simp
  then show sz: "d_size self = Suc (length xs)" using len by (simp add: deq_slots_def)
  have h: "d_head_idx self < length (concat (d_buckets self))" using len sz by simp
  have "Some x # map Some xs = take (Suc (length xs)) (concat (d_buckets self) ! d_head_idx self # drop (Suc (d_head_idx self)) (concat (d_buckets self)))"
    using s sz Cons_nth_drop_Suc [OF h] by (simp add: deq_slots_def)
  then have 1: "concat (d_buckets self) ! d_head_idx self = Some x"
    and 2: "take (length xs) (drop (Suc (d_head_idx self)) (concat (d_buckets self))) = map Some xs" by simp_all
  show "db_get (d_buckets self) 0 (d_head_idx self) = Some x"
    using nth_concat_buckets [OF deq_ok_common(3) [OF ok], of 0 "d_head_idx self"] 1 ne deq_ok_common(2) [OF ok] by simp
  show "take (d_size self - 1) (drop (Suc (d_head_idx self)) (concat (d_buckets self))) = map Some xs" using 2 sz by simp
qed

lemma PopFront_unlocked_holds:
  assumes "deque_holds self (x # xs)"
  shows "\<exists>self'. Deque_PopFront_unlocked self = Some (x, self') \<and> deque_holds self' xs"
proof -
  have ok: "deq_ok self" using assms by (simp add: deque_holds_def)
  note f = slot_first [OF assms] and c = deq_ok_common [OF ok]
  consider "length (d_buckets self) = 1" | "1 < length (d_buckets self)" using f(2) by (cases "d_buckets self") auto
  then show ?thesis
  proof cases
    case 1
    note m = deq_ok_single [OF ok 1]
    show ?thesis
    proof (cases xs)
      case Nil
      have "tl (d_buckets self) = []" using 1 by (cases "d_buckets self") auto
      then show ?thesis using m c f Nil
        by (auto simp: Deque_PopFront_unlocked_def Let_def deque_holds_def deq_ok_def deq_slots_def)
    next
      case (Cons y ys)
      then show ?thesis using m c f 1
        by (auto simp: Deque_PopFront_unlocked_def Let_def deque_holds_def deq_ok_def deq_slots_def)
    qed
  next
    case 2
    note m = deq_ok_multi [OF ok 2]
    obtain b rest where b: "d_buckets self = b # rest" "rest \<noteq> []" using 2 by (cases "d_buckets self") auto
    show ?thesis
    proof (cases "d_head_use self = 1")
      case False
      then show ?thesis using m c f 2
        by (auto simp: Deque_PopFront_unlocked_def Let_def deque_holds_def deq_ok_def deq_slots_def)
    next
      case True
      obtain r rest' where r: "rest = r # rest'" using b(2) by (cases rest) auto
      have n: "d_bucket_sz self = Suc (d_head_idx self)" using True m c(2) by linarith
      then have "drop (Suc (d_head_idx self)) (concat (d_buckets self)) = concat rest" using b(1) c(3) by simp
      then have t: "take (length xs) (concat rest) = map Some xs" using f(3,4) by simp
      have e: "d_head_idx self + Suc (length xs) = length rest * Suc (d_head_idx self) + d_tail_sz self"
        using m f(3) n b(1) by simp
      show ?thesis
      proof (cases rest')
        case Nil
        then show ?thesis using m(1) c f(1,3) True b(1) r n t e m
          by (simp add: Deque_PopFront_unlocked_def Let_def deque_holds_def deq_ok_def deq_slots_def)
      next
        case (Cons r2 rest2)
        then show ?thesis using c f(1,3) True b(1) r n t e m
          by (simp add: Deque_PopFront_unlocked_def Let_def deque_holds_def deq_ok_def deq_slots_def)
      qed
    qed
  qed
qed

lemma slot_last:
  assumes "deque_holds self (xs @ [x])" "k < length (d_buckets self)" "i < d_bucket_sz self"
    and "k * d_bucket_sz self + i = d_head_idx self + length xs"
  shows "db_get (d_buckets self) k i = Some x"
proof -
  have ok: "deq_ok self" and s: "deq_slots self = map Some xs @ [Some x]" using assms(1) by (simp_all add: deque_holds_def)
  have "deq_slots self ! length xs = Some x" by (simp add: s nth_append)
  moreover have "length xs < d_size self"
    using arg_cong [OF s, of length] by (simp add: deq_slots_def)
  ultimately have "concat (d_buckets self) ! (d_head_idx self + length xs) = Some x"
    using slots_in_buckets [OF ok] assms(2) by (auto simp: deq_slots_def)
  then show ?thesis using nth_concat_buckets [OF deq_ok_common(3) [OF ok] assms(2,3)] assms(4) by simp
qed

lemma deque_holds_size: "deque_holds self xs \<Longrightarrow> d_size self = length xs"
  using slots_in_buckets [of self] deq_ok_empty [of self]
  by (cases "d_buckets self = []") (auto simp: deque_holds_def deq_slots_def dest!: arg_cong [of _ _ length])

lemma slots_but_last:
  assumes "deque_holds self (xs @ [x])"
  shows "take (length xs) (drop (d_head_idx self) (concat (d_buckets self))) = map Some xs"
proof -
  have "take (length xs) (deq_slots self) = map Some xs" using assms by (simp add: deque_holds_def)
  then show ?thesis using deque_holds_size [OF assms] by (simp add: deq_slots_def)
qed

lemma PopBack_unlocked_holds:
  assumes "deque_holds self (xs @ [x])"
  shows "\<exists>self'. Deque_PopBack_unlocked self = Some (x, self') \<and> deque_holds self' xs"
proof -
  have ok: "deq_ok self" using assms by (simp add: deque_holds_def)
  note sz = deque_holds_size [OF assms] and c = deq_ok_common [OF ok] and l = slots_but_last [OF assms]
  have ne: "d_buckets self \<noteq> []" using deq_ok_empty [OF ok] sz by simp
  then consider "length (d_buckets self) = 1" | "1 < length (d_buckets self)" by (cases "d_buckets self") auto
  then show ?thesis
  proof cases
    case 1
    note m = deq_ok_single [OF ok 1]
    have "db_get (d_buckets self) 0 (d_head_idx self + length xs) = Some x"
      by (rule slot_last [OF assms]) (use ne m sz in simp_all)
    then show ?thesis using m c sz l ne 1
      by (auto simp: Deque_PopBack_unlocked_def PopBack_single_def Let_def deque_holds_def deq_ok_def deq_slots_def)
  next
    case 2
    note m = deq_ok_multi [OF ok 2]
    let ?k = "length (d_buckets self) - 1"
    have g: "db_get (d_buckets self) ?k (d_tail_sz self - 1) = Some x"
      by (rule slot_last [OF assms]) (use ne m sz in \<open>auto simp: algebra_simps\<close>)
    show ?thesis
    proof (cases "d_tail_sz self = 1")
      case False
      then show ?thesis using m c sz l ne 2 g
        by (auto simp: Deque_PopBack_unlocked_def PopBack_multi_def Let_def deque_holds_def deq_ok_def deq_slots_def)
    next
      case True
      obtain bs b where b: "d_buckets self = bs @ [b]" using ne by (cases "d_buckets self" rule: rev_cases) auto
      then have n: "length (concat bs) = length bs * d_bucket_sz self" "bs \<noteq> []"
        using length_concat_buckets [of bs] c(3) 2 by auto
      have e: "d_head_idx self + length xs = length bs * d_bucket_sz self" using m sz True b by simp
      then have t: "take (length xs) (drop (d_head_idx self) (concat bs)) = map Some xs"
        using l n(1) b by simp
      consider "length bs = 1" | q where "length bs = Suc (Suc q)"
        using n(2) by (cases bs rule: list.exhaust [case_names Nil Cons]; cases "tl bs") auto
      then show ?thesis
      proof cases
        case 1
        then show ?thesis using m c sz ne 2 g True b e n t
          by (auto simp: Deque_PopBack_unlocked_def PopBack_multi_def Let_def deque_holds_def deq_ok_def deq_slots_def)
      next
        case 2
        then show ?thesis using m c sz ne g True b e n t
          by (auto simp: Deque_PopBack_unlocked_def PopBack_multi_def Let_def deque_holds_def deq_ok_def deq_slots_def)
      qed
    qed
  qed
qed

section \<open>The public operations at the ends\<close>

datatype deq_error = NoMemory | EmptySequence | IndexOutOfBounds nat nat | InvalidBucketSize

text \<open>
  When there is no memory the lock is dropped and \<open>Dee_CollectMemory\<close> decides whether to try again.
  \<open>mem\<close> tells for each attempt whether a bucket can be had; behind its end nothing can be collected.
\<close>

fun retry :: "(bool \<Rightarrow> (bool \<times> 's) option) \<Rightarrow> bool list \<Rightarrow> (deq_error + 's) option" where
  "retry attempt [] =
     (case attempt False of
        None \<Rightarrow> None
      | Some (done_, self) \<Rightarrow> Some (if done_ then Inr self else Inl NoMemory))"
| "retry attempt (m # mem) =
     (case attempt m of
        None \<Rightarrow> None
      | Some (done_, self) \<Rightarrow> if done_ then Some (Inr self) else retry attempt mem)"

definition Deque_PushFront :: "bool list \<Rightarrow> 'a Deque \<Rightarrow> 'a \<Rightarrow> (deq_error + 'a Deque) option" where
  "Deque_PushFront mem self item = retry (\<lambda>m. Deque_PushFront_unlocked m self item) mem"

definition Deque_PushBack :: "bool list \<Rightarrow> 'a Deque \<Rightarrow> 'a \<Rightarrow> (deq_error + 'a Deque) option" where
  "Deque_PushBack mem self item = retry (\<lambda>m. Deque_PushBack_unlocked m self item) mem"

definition Deque_PopFront :: "'a Deque \<Rightarrow> (deq_error + 'a \<times> 'a Deque) option" where
  "Deque_PopFront self =
     (if d_size self = 0 then Some (Inl EmptySequence) else map_option Inr (Deque_PopFront_unlocked self))"

definition Deque_PopBack :: "'a Deque \<Rightarrow> (deq_error + 'a \<times> 'a Deque) option" where
  "Deque_PopBack self =
     (if d_size self = 0 then Some (Inl EmptySequence) else map_option Inr (Deque_PopBack_unlocked self))"

text \<open>
  An attempt that stores with memory, and without memory either stores or reports that.  \<open>R\<close> says
  what has been stored.
\<close>

lemma retry_ok:
  assumes "\<exists>s. attempt True = Some (True, s) \<and> R s"
    and "(\<exists>s. attempt False = Some (False, s)) \<or> (\<exists>s. attempt False = Some (True, s) \<and> R s)"
  shows "(\<exists>s. retry attempt mem = Some (Inr s) \<and> R s) \<or> (retry attempt mem = Some (Inl NoMemory) \<and> True \<notin> set mem)"
proof (induction mem)
  case Nil
  then show ?case using assms(2) by auto
next
  case (Cons m mem)
  then show ?case using assms by (cases m) auto
qed

text \<open>The result of an operation that stores the items \<open>xs\<close> unless memory is exhausted.\<close>

definition stores_if_memory :: "bool list \<Rightarrow> (deq_error + 'a Deque) option \<Rightarrow> 'a list \<Rightarrow> bool" where
  "stores_if_memory mem result xs \<longleftrightarrow>
     (case result of
        Some (Inr self) \<Rightarrow> deque_holds self xs
      | Some (Inl e) \<Rightarrow> e = NoMemory \<and> True \<notin> set mem
      | None \<Rightarrow> False)"

lemma retry_stores:
  assumes "\<exists>s. attempt True = Some (True, s) \<and> deque_holds s xs"
    and "(\<exists>s. attempt False = Some (False, s)) \<or> (\<exists>s. attempt False = Some (True, s) \<and> deque_holds s xs)"
  shows "stores_if_memory mem (retry attempt mem) xs"
  using retry_ok [OF assms, of mem] by (auto simp: stores_if_memory_def)

lemma PushFront_stores:
  assumes "deque_holds self xs"
  shows "stores_if_memory mem (Deque_PushFront mem self item) (item # xs)"
  unfolding Deque_PushFront_def
  using PushFront_unlocked_ok [of self item] PushFront_unlocked_no_memory [of self item] assms
  by (intro retry_stores) (auto simp: deque_holds_def)

lemma PushBack_stores:
  assumes "deque_holds self xs"
  shows "stores_if_memory mem (Deque_PushBack mem self item) (xs @ [item])"
  unfolding Deque_PushBack_def
  using PushBack_unlocked_ok [of self item] PushBack_unlocked_no_memory [of self item] assms
  by (intro retry_stores) (auto simp: deque_holds_def)

text \<open>Popping takes the item \<open>x\<close> and leaves \<open>xs\<close>.\<close>

definition takes :: "(deq_error + 'a \<times> 'a Deque) option \<Rightarrow> 'a \<Rightarrow> 'a list \<Rightarrow> bool" where
  "takes result x xs \<longleftrightarrow> (\<exists>self. result = Some (Inr (x, self)) \<and> deque_holds self xs)"

lemma PopFront_takes: "deque_holds self (x # xs) \<Longrightarrow> takes (Deque_PopFront self) x xs"
  using PopFront_unlocked_holds [of self x xs] deque_holds_size [of self "x # xs"]
  by (auto simp: Deque_PopFront_def takes_def)

lemma PopBack_takes: "deque_holds self (xs @ [x]) \<Longrightarrow> takes (Deque_PopBack self) x xs"
  using PopBack_unlocked_holds [of self xs x] deque_holds_size [of self "xs @ [x]"]
  by (auto simp: Deque_PopBack_def takes_def)

section \<open>Construction, copying, moving and clearing\<close>

definition deq_empty :: "nat \<Rightarrow> 'a Deque" where
  "deq_empty bucketsize = \<lparr>d_buckets = [], d_size = 0, d_head_idx = 0, d_head_use = 0, d_tail_sz = 0,
     d_bucket_sz = bucketsize, d_version = 0\<rparr>"

definition deq_ctor :: "'a Deque" where
  "deq_ctor = deq_empty DEQUE_BUCKET_DEFAULT_SIZE"

text \<open>Storing the items a sequence yields, one after the other.\<close>

primrec foreach_push :: "('s \<Rightarrow> 'a \<Rightarrow> ('e + 's) option) \<Rightarrow> 's \<Rightarrow> 'a list \<Rightarrow> ('e + 's) option" where
  "foreach_push push self [] = Some (Inr self)"
| "foreach_push push self (x # xs) =
     (case push self x of
        None \<Rightarrow> None
      | Some (Inl e) \<Rightarrow> Some (Inl e)
      | Some (Inr self) \<Rightarrow> foreach_push push self xs)"

text \<open>\<open>mem i\<close>: the attempts at the \<open>i\<close>-th item.\<close>

definition deque_push_back :: "(nat \<Rightarrow> bool list) \<Rightarrow> 'a Deque \<Rightarrow> 'a \<Rightarrow> (deq_error + 'a Deque) option" where
  "deque_push_back mem self ob = Deque_PushBack (mem (d_size self)) self ob"

definition deq_init :: "(nat \<Rightarrow> bool list) \<Rightarrow> 'a list \<Rightarrow> nat \<Rightarrow> (deq_error + 'a Deque) option" where
  "deq_init mem seq bucketsize =
     (if bucketsize = 0 then Some (Inl InvalidBucketSize)
      else foreach_push (deque_push_back mem) (deq_empty bucketsize) seq)"

definition copy_bucket :: "'a bucket \<Rightarrow> nat \<Rightarrow> nat \<Rightarrow> nat \<Rightarrow> 'a bucket" where
  "copy_bucket self bucket_size start used_size =
     map (\<lambda>i. if start \<le> i \<and> i < start + used_size then self ! i else None) [0..<bucket_size]"

definition copy_buckets :: "'a Deque \<Rightarrow> 'a bucket list" where
  "copy_buckets other =
     map (\<lambda>k. if k = 0 then copy_bucket (d_buckets other ! k) (d_bucket_sz other) (d_head_idx other) (d_head_use other)
              else copy_bucket (d_buckets other ! k) (d_bucket_sz other) 0
                (if k = length (d_buckets other) - 1 then d_tail_sz other else d_bucket_sz other))
       [0..<length (d_buckets other)]"

text \<open>An attempt to copy fails when a bucket cannot be had.\<close>

definition deq_copy :: "bool list \<Rightarrow> 'a Deque \<Rightarrow> (deq_error + 'a Deque) option" where
  "deq_copy mem other =
     retry (\<lambda>m. if m \<or> d_buckets other = [] then Some (True, other\<lparr>d_buckets := copy_buckets other, d_version := 0\<rparr>)
                else Some (False, other)) mem"

text \<open>The argument of an assignment is another deque or a sequence that yields some items.\<close>

datatype 'a deq_source = FromDeque "'a Deque" | FromSequence "'a list"

definition deq_assign :: "bool list \<Rightarrow> (nat \<Rightarrow> bool list) \<Rightarrow> 'a Deque \<Rightarrow> 'a deq_source \<Rightarrow> (deq_error + 'a Deque) option" where
  "deq_assign mem mems self seq =
     map_option (map_sum id (\<lambda>temp. temp\<lparr>d_version := d_version self + 1\<rparr>))
       (case seq of
          FromDeque other \<Rightarrow> deq_copy mem other
        | FromSequence xs \<Rightarrow> foreach_push (deque_push_back mems) (deq_empty DEQUE_BUCKET_DEFAULT_SIZE) xs)"

text \<open>\<open>bzero\<close> of the fields from \<open>d_head\<close> to \<open>d_bucket_sz\<close>.\<close>

definition deq_bzero :: "'a Deque \<Rightarrow> 'a Deque" where
  "deq_bzero self = self\<lparr>d_buckets := [], d_size := 0, d_head_idx := 0, d_head_use := 0, d_tail_sz := 0, d_bucket_sz := 0\<rparr>"

definition deq_clear :: "'a Deque \<Rightarrow> 'a Deque" where
  "deq_clear self = (deq_bzero self)\<lparr>d_version := d_version self + 1\<rparr>"

text \<open>The new states of \<open>self\<close> and of \<open>other\<close>, two different deques.\<close>

definition deq_moveassign :: "'a Deque \<Rightarrow> 'a Deque \<Rightarrow> 'a Deque \<times> 'a Deque" where
  "deq_moveassign self other =
     (other\<lparr>d_version := d_version self + 1\<rparr>, (deq_bzero other)\<lparr>d_version := d_version other + 1\<rparr>)"

definition deq_bool :: "'a Deque \<Rightarrow> bool" where
  "deq_bool self \<longleftrightarrow> d_size self \<noteq> 0"

text \<open>
  The contract of appending: a push stores behind the items there are, or fails with its one error
  \<open>err\<close>, which it does only when \<open>may_fail\<close>.
\<close>

locale appender =
  fixes push :: "'s \<Rightarrow> 'a \<Rightarrow> ('e + 's) option"
    and holds :: "'s \<Rightarrow> 'a list \<Rightarrow> bool"
    and err :: 'e
    and may_fail :: bool
  assumes push_stores: "holds self xs \<Longrightarrow>
    (\<exists>self'. push self x = Some (Inr self') \<and> holds self' (xs @ [x])) \<or> (push self x = Some (Inl err) \<and> may_fail)"
begin

lemma foreach_stores:
  "holds self xs \<Longrightarrow>
    (\<exists>self'. foreach_push push self ys = Some (Inr self') \<and> holds self' (xs @ ys))
    \<or> (foreach_push push self ys = Some (Inl err) \<and> may_fail)"
proof (induction ys arbitrary: self xs)
  case (Cons y ys)
  from push_stores [OF Cons.prems, of y] show ?case
  proof
    assume "\<exists>self'. push self y = Some (Inr self') \<and> holds self' (xs @ [y])"
    then obtain self' where "push self y = Some (Inr self')" "holds self' (xs @ [y])" by blast
    then show ?thesis using Cons.IH [of self' "xs @ [y]"] by simp
  qed simp
qed simp

end

interpretation deque_append: appender "deque_push_back mem" deque_holds NoMemory "\<exists>i. True \<notin> set (mem i)"
  for mem :: "nat \<Rightarrow> bool list"
proof
  fix self :: "'a Deque" and xs x
  assume "deque_holds self xs"
  then show "(\<exists>self'. deque_push_back mem self x = Some (Inr self') \<and> deque_holds self' (xs @ [x]))
      \<or> (deque_push_back mem self x = Some (Inl NoMemory) \<and> (\<exists>i. True \<notin> set (mem i)))"
    using PushBack_stores [of self xs "mem (d_size self)" x]
    by (auto simp: deque_push_back_def stores_if_memory_def split: option.splits sum.splits)
qed

lemma deq_empty_holds: "0 < n \<Longrightarrow> deque_holds (deq_empty n) []"
  by (simp add: deque_holds_def deq_ok_def deq_slots_def deq_empty_def)

lemma foreach_init:
  "0 < n \<Longrightarrow> (\<exists>self. foreach_push (deque_push_back mem) (deq_empty n) xs = Some (Inr self) \<and> deque_holds self xs)
    \<or> (foreach_push (deque_push_back mem) (deq_empty n) xs = Some (Inl NoMemory) \<and> (\<exists>i. True \<notin> set (mem i)))"
  using deque_append.foreach_stores [OF deq_empty_holds, of n mem xs] by simp

text \<open>A copy has the same slots where there are items.\<close>

lemma length_copy_buckets [simp]: "length (copy_buckets other) = length (d_buckets other)"
  by (simp add: copy_buckets_def)

lemma copy_buckets_lengths: "\<forall>b\<in>set (copy_buckets other). length b = d_bucket_sz other"
  by (auto simp: copy_buckets_def copy_bucket_def)

lemma copy_bucket_nth:
  "i < n \<Longrightarrow> copy_bucket b n start u ! i = (if start \<le> i \<and> i < start + u then b ! i else None)"
  "length (copy_bucket b n start u) = n"
  by (simp_all add: copy_bucket_def)

lemma copy_buckets_nth:
  "k < length (d_buckets other) \<Longrightarrow> copy_buckets other ! k =
    (if k = 0 then copy_bucket (d_buckets other ! k) (d_bucket_sz other) (d_head_idx other) (d_head_use other)
     else copy_bucket (d_buckets other ! k) (d_bucket_sz other) 0
       (if k = length (d_buckets other) - 1 then d_tail_sz other else d_bucket_sz other))"
  by (cases "k = 0") (simp_all add: copy_buckets_def nth_map nth_upt del: upt_Suc)

lemma copy_buckets_get:
  assumes ok: "deq_ok other" and k: "k < length (d_buckets other)" and i: "i < d_bucket_sz other"
    and range: "d_head_idx other \<le> k * d_bucket_sz other + i" "k * d_bucket_sz other + i < d_head_idx other + d_size other"
  shows "db_get (copy_buckets other) k i = db_get (d_buckets other) k i"
proof -
  note c = deq_ok_common [OF ok]
  have len: "length (d_buckets other ! k) = d_bucket_sz other" using c(3) k by simp
  have ne: "d_buckets other \<noteq> []" using k by auto
  consider "length (d_buckets other) = 1" | n where "length (d_buckets other) = Suc (Suc n)"
    using k by (cases "d_buckets other" rule: list.exhaust [case_names Nil Cons]; cases "tl (d_buckets other)") auto
  then show ?thesis
  proof cases
    case 1
    then show ?thesis using deq_ok_single [OF ok 1] range i k len
      by (auto simp: db_get_def copy_buckets_nth copy_bucket_nth)
  next
    case 2
    note m = deq_ok_multi [OF ok]
    show ?thesis
    proof (cases "k = Suc n")
      case True
      then have "i < d_tail_sz other" using m 2 range by simp
      then show ?thesis using i k len True 2 by (simp add: db_get_def copy_buckets_nth copy_bucket_nth)
    next
      case False
      then show ?thesis using m c range i k len 2 by (auto simp: db_get_def copy_buckets_nth copy_bucket_nth)
    qed
  qed
qed

lemma copy_holds:
  assumes "deque_holds other xs"
  shows "deque_holds (other\<lparr>d_buckets := copy_buckets other, d_version := v\<rparr>) xs"
proof -
  have ok: "deq_ok other" using assms by (simp add: deque_holds_def)
  note c = deq_ok_common [OF ok]
  let ?n = "d_bucket_sz other"
  have len: "length (concat (copy_buckets other)) = length (concat (d_buckets other))"
    using length_concat_buckets [OF copy_buckets_lengths] length_concat_buckets [OF c(3)] by simp
  have slots: "take (d_size other) (drop (d_head_idx other) (concat (copy_buckets other)))
      = take (d_size other) (drop (d_head_idx other) (concat (d_buckets other)))" (is "?l = ?r")
  proof (rule nth_equalityI)
    show "length ?l = length ?r" using len by simp
    fix j
    assume "j < length ?l"
    then have j: "j < d_size other" "d_head_idx other + j < length (concat (d_buckets other))" using len by auto
    let ?k = "(d_head_idx other + j) div ?n" and ?i = "(d_head_idx other + j) mod ?n"
    have p: "?k * ?n + ?i = d_head_idx other + j" by simp
    have i: "?i < ?n" using c(1) by simp
    have k: "?k < length (d_buckets other)"
      using j(2) length_concat_buckets [OF c(3)] by (simp add: less_mult_imp_div_less)
    have "concat (copy_buckets other) ! (?k * ?n + ?i) = concat (d_buckets other) ! (?k * ?n + ?i)"
      using nth_concat_buckets [OF copy_buckets_lengths, of ?k other ?i] nth_concat_buckets [OF c(3) k i]
        copy_buckets_get [OF ok k i] k i p j(1) by simp
    then show "?l ! j = ?r ! j" using j len p by simp
  qed
  have "copy_buckets other = [] \<longleftrightarrow> d_buckets other = []"
    by (metis length_copy_buckets length_0_conv)
  then have "deq_ok (other\<lparr>d_buckets := copy_buckets other, d_version := v\<rparr>)"
    using ok copy_buckets_lengths [of other] by (simp add: deq_ok_def)
  then show ?thesis using assms slots by (simp add: deque_holds_def deq_slots_def)
qed

lemma deq_copy_stores:
  assumes "deque_holds other xs"
  shows "stores_if_memory mem (deq_copy mem other) xs"
  unfolding deq_copy_def
  by (rule retry_stores) (use copy_holds [OF assms] in auto)

lemma deque_holds_version [simp]: "deque_holds (self\<lparr>d_version := v\<rparr>) xs \<longleftrightarrow> deque_holds self xs"
  by (simp add: deque_holds_def deq_ok_def deq_slots_def)

lemma clear_not_bounds: "\<not> deq_bounds (deq_clear self)" "\<not> deq_bounds (snd (deq_moveassign self other))"
  by (simp_all add: deq_bounds_def deq_clear_def deq_moveassign_def deq_bzero_def)

lemma retry_undefined: "(\<And>m. attempt m = None) \<Longrightarrow> retry attempt mem = None"
  by (cases mem) simp_all

section \<open>Properties\<close>

text \<open>
  C4: The four operations at the ends of a deque implement those of a list.  On a well-formed deque
  that holds \<open>xs\<close>, pushing stores the item in front or behind (or reports that memory is exhausted,
  only if no attempt gets any), popping takes the first or last item or reports an empty deque, and
  the result is well-formed: no assertion fails and no slot is read that was not stored.
\<close>

theorem deque_ends_refine_list:
  assumes "deque_holds self xs"
  shows "stores_if_memory mem (Deque_PushFront mem self x) (x # xs)
    \<and> stores_if_memory mem (Deque_PushBack mem self x) (xs @ [x])
    \<and> (if xs = [] then Deque_PopFront self = Some (Inl EmptySequence) \<and> Deque_PopBack self = Some (Inl EmptySequence)
       else takes (Deque_PopFront self) (hd xs) (tl xs) \<and> takes (Deque_PopBack self) (last xs) (butlast xs))"
proof (cases "xs = []")
  case True
  then have "d_size self = 0" using deque_holds_size [OF assms] by simp
  then show ?thesis using True PushFront_stores [OF assms] PushBack_stores [OF assms]
    by (simp add: Deque_PopFront_def Deque_PopBack_def)
next
  case False
  then have "takes (Deque_PopFront self) (hd xs) (tl xs)" "takes (Deque_PopBack self) (last xs) (butlast xs)"
    using assms by (simp_all add: PopFront_takes PopBack_takes)
  then show ?thesis using False PushFront_stores [OF assms] PushBack_stores [OF assms] by simp
qed

lemma clear_unusable:
  "\<not> deque_holds (deq_clear self) []
   \<and> Deque_PushFront mem (deq_clear self) x = None \<and> Deque_PushBack mem (deq_clear self) x = None
   \<and> Deque_PushFront mem (snd (deq_moveassign self other)) x = None
   \<and> Deque_PushBack mem (snd (deq_moveassign self other)) x = None"
proof -
  have "\<not> deq_ok (deq_clear self)" using clear_not_bounds(1) deq_ok_bounds by blast
  then show ?thesis
    by (auto simp: deque_holds_def Deque_PushFront_def Deque_PushBack_def Deque_PushFront_unlocked_def
        Deque_PushBack_unlocked_def clear_not_bounds intro!: retry_undefined)
qed

text \<open>
  C7: Construction and assignment.  Building a deque from a sequence stores its items in order for
  every bucket size but 0, which is an error; a copy, a copy assignment and a move assignment hold
  the items of the other deque; only exhausted memory makes them fail.  But clearing makes a deque
  unusable: \<open>deq_clear\<close>, and a move assignment for the deque that is moved from, also zero the bucket
  size; the next push fails its assertion \<open>d_head_idx < d_bucket_sz\<close> (and without assertions stores
  behind the end of a bucket without slots).
\<close>

theorem deque_construction_characterized:
  assumes "deque_holds other xs"
  shows "(case deq_init mems xs n of
            Some (Inr self) \<Rightarrow> n \<noteq> 0 \<and> deque_holds self xs
          | Some (Inl e) \<Rightarrow> (if n = 0 then e = InvalidBucketSize else e = NoMemory \<and> (\<exists>i. True \<notin> set (mems i)))
          | None \<Rightarrow> False)
    \<and> stores_if_memory mem (deq_copy mem other) xs
    \<and> stores_if_memory mem (deq_assign mem mems self (FromDeque other)) xs
    \<and> (case deq_assign mem mems self (FromSequence ys) of
            Some (Inr self) \<Rightarrow> deque_holds self ys
          | Some (Inl e) \<Rightarrow> e = NoMemory \<and> (\<exists>i. True \<notin> set (mems i))
          | None \<Rightarrow> False)
    \<and> deque_holds (fst (deq_moveassign self other)) xs
    \<and> \<not> deque_holds (deq_clear self) []
    \<and> Deque_PushFront mem (deq_clear self) x = None \<and> Deque_PushBack mem (deq_clear self) x = None
    \<and> Deque_PushFront mem (snd (deq_moveassign self other)) x = None
    \<and> Deque_PushBack mem (snd (deq_moveassign self other)) x = None"
proof -
  note copy = deq_copy_stores [OF assms, of mem]
  have "stores_if_memory mem (deq_assign mem mems self (FromDeque other)) xs"
    using copy by (auto simp: deq_assign_def stores_if_memory_def split: option.splits sum.splits)
  moreover have "DEQUE_BUCKET_DEFAULT_SIZE > 0" by (simp add: DEQUE_BUCKET_DEFAULT_SIZE_def)
  from foreach_init [OF this, of mems ys]
  have "case deq_assign mem mems self (FromSequence ys) of Some (Inr self) \<Rightarrow> deque_holds self ys
      | Some (Inl e) \<Rightarrow> e = NoMemory \<and> (\<exists>i. True \<notin> set (mems i)) | None \<Rightarrow> False"
    by (auto simp: deq_assign_def)
  moreover have "case deq_init mems xs n of Some (Inr self) \<Rightarrow> n \<noteq> 0 \<and> deque_holds self xs
      | Some (Inl e) \<Rightarrow> (if n = 0 then e = InvalidBucketSize else e = NoMemory \<and> (\<exists>i. True \<notin> set (mems i)))
      | None \<Rightarrow> False"
  proof (cases "n = 0")
    case False
    then have "0 < n" by simp
    from foreach_init [OF this, of mems xs] show ?thesis
    proof
      assume "foreach_push (deque_push_back mems) (deq_empty n) xs = Some (Inl NoMemory) \<and> (\<exists>i. True \<notin> set (mems i))"
      then show ?thesis using False by (simp add: deq_init_def)
    qed (use False in \<open>auto simp: deq_init_def\<close>)
  qed (simp add: deq_init_def)
  moreover have "deque_holds (fst (deq_moveassign self other)) xs" using assms by (simp add: deq_moveassign_def)
  ultimately show ?thesis using copy clear_unusable [of self mem x other] by auto
qed

theorem deque_ends_refine_list_witness:
  "takes (Deque_PopBack \<lparr>d_buckets = [[None, Some (1::int)], [Some 2, None]], d_size = 2, d_head_idx = 1, d_head_use = 1,
     d_tail_sz = 1, d_bucket_sz = 2, d_version = 2\<rparr>) 2 [1]"
proof -
  have "deque_holds \<lparr>d_buckets = [[None, Some (1::int)], [Some 2, None]], d_size = 2, d_head_idx = 1, d_head_use = 1,
     d_tail_sz = 1, d_bucket_sz = 2, d_version = 2\<rparr> [1, 2]"
    by (simp add: deque_holds_def deq_ok_def deq_slots_def)
  from deque_ends_refine_list [OF this] show ?thesis by simp
qed

theorem deque_construction_characterized_witness:
  "deque_holds (fst (deq_moveassign (deq_empty 3) \<lparr>d_buckets = [[None, Some (1::int)], [Some 2, None]], d_size = 2,
     d_head_idx = 1, d_head_use = 1, d_tail_sz = 1, d_bucket_sz = 2, d_version = 2\<rparr>)) [1, 2]"
proof -
  have "deque_holds \<lparr>d_buckets = [[None, Some (1::int)], [Some 2, None]], d_size = 2, d_head_idx = 1, d_head_use = 1,
     d_tail_sz = 1, d_bucket_sz = 2, d_version = 2\<rparr> [1, 2]"
    by (simp add: deque_holds_def deq_ok_def deq_slots_def)
  from deque_construction_characterized [OF this, where self = "deq_empty 3"] show ?thesis by blast
qed

end
