(* ===== verification/DequeItems.thy ===== *)
theory DequeItems
  imports DequeEnds
begin

text \<open>
  Access by index and iteration (dex/collections/libcollections.h, deque.c): a position is a bucket,
  as its place in the list of buckets, and an index in it.
\<close>

type_synonym position = "nat \<times> nat"

text \<open>The search along \<open>db_next\<close>, and the one from the tail along \<open>DEQUEBUCKET_PREV\<close>.\<close>

function seek_next :: "nat \<Rightarrow> nat \<Rightarrow> nat \<Rightarrow> nat \<Rightarrow> position option" where
  "seek_next n bucket_sz k index =
     (if n \<le> Suc k then None
      else if index < bucket_sz then Some (Suc k, index)
      else seek_next n bucket_sz (Suc k) (index - bucket_sz))"
  by auto
termination by (relation "measure (\<lambda>(n, bucket_sz, k, index). n - k)") auto

declare seek_next.simps [simp del]

fun seek_prev :: "nat \<Rightarrow> nat \<Rightarrow> nat \<Rightarrow> position option" where
  "seek_prev bucket_sz 0 rindex = None"
| "seek_prev bucket_sz (Suc k) rindex =
     (if rindex \<le> bucket_sz then Some (k, bucket_sz - rindex)
      else seek_prev bucket_sz k (rindex - bucket_sz))"

definition Deque_ItemPointer :: "'a Deque \<Rightarrow> nat \<Rightarrow> position option" where
  "Deque_ItemPointer self index =
     (if \<not> index < d_size self then None
      else if index < d_head_use self then Some (0, d_head_idx self + index)
      else if index \<ge> d_size self div 2 then
        let tail = length (d_buckets self) - 1;
            rindex = d_size self - index
        in if rindex \<le> d_tail_sz self then Some (tail, d_tail_sz self - rindex)
           else seek_prev (d_bucket_sz self) tail (rindex - d_tail_sz self)
      else seek_next (length (d_buckets self)) (d_bucket_sz self) 0 (index - d_head_use self))"

text \<open>\<open>DequeIterator_InitAt\<close> repeats the search.\<close>

definition DequeIterator_InitAt :: "'a Deque \<Rightarrow> nat \<Rightarrow> position option" where
  "DequeIterator_InitAt deq index = Deque_ItemPointer deq index"

definition DequeIterator_InitBegin :: "'a Deque \<Rightarrow> position" where
  "DequeIterator_InitBegin deq = (0, d_head_idx deq)"

definition DequeIterator_InitRBegin :: "'a Deque \<Rightarrow> position" where
  "DequeIterator_InitRBegin deq =
     (length (d_buckets deq) - 1,
      if length (d_buckets deq) \<le> 1 then d_head_idx deq + d_head_use deq - 1 else d_tail_sz deq - 1)"

definition DequeIterator_HasNext :: "position \<Rightarrow> 'a Deque \<Rightarrow> bool" where
  "DequeIterator_HasNext self deq \<longleftrightarrow>
     (if fst self \<noteq> length (d_buckets deq) - 1 then True
      else if 1 < length (d_buckets deq) then snd self + 1 < d_tail_sz deq
      else snd self + 1 < d_head_idx deq + d_head_use deq)"

definition DequeIterator_Next :: "position \<Rightarrow> 'a Deque \<Rightarrow> position" where
  "DequeIterator_Next self deq =
     (if snd self + 1 \<ge> d_bucket_sz deq then (fst self + 1, 0) else (fst self, snd self + 1))"

definition DequeIterator_Prev :: "position \<Rightarrow> 'a Deque \<Rightarrow> position" where
  "DequeIterator_Prev self deq =
     (if snd self = 0 then (fst self - 1, d_bucket_sz deq - 1) else (fst self, snd self - 1))"

text \<open>
  The index of a position: in the tail bucket counted from \<open>DEQUE_TAILSTART\<close>, which is
  \<open>d_size - d_tail_sz\<close>; otherwise bucket by bucket from the head.
\<close>

definition DequeIterator_GetIndex :: "position \<Rightarrow> 'a Deque \<Rightarrow> nat" where
  "DequeIterator_GetIndex self deq =
     (if fst self = length (d_buckets deq) - 1 then (d_size deq - d_tail_sz deq) + snd self
      else snd self + fst self * d_bucket_sz deq - d_head_idx deq)"

definition item_at :: "'a Deque \<Rightarrow> position \<Rightarrow> 'a option" where
  "item_at deq p = db_get (d_buckets deq) (fst p) (snd p)"

definition item_put :: "'a Deque \<Rightarrow> position \<Rightarrow> 'a option \<Rightarrow> 'a Deque" where
  "item_put deq p x = deq\<lparr>d_buckets := db_put (d_buckets deq) (fst p) (snd p) x\<rparr>"

section \<open>Items by index\<close>

definition deq_getitem_index :: "'a Deque \<Rightarrow> nat \<Rightarrow> (deq_error + 'a) option" where
  "deq_getitem_index self index =
     (if index \<ge> d_size self then Some (Inl (IndexOutOfBounds index (d_size self)))
      else Option.bind (Deque_ItemPointer self index) (\<lambda>p. map_option Inr (item_at self p)))"

text \<open>\<open>deq_trygetitem_index\<close> and \<open>deq_getitem_index_fast\<close>: no item is \<open>ITER_DONE\<close> or \<open>NULL\<close>.\<close>

definition deq_trygetitem_index :: "'a Deque \<Rightarrow> nat \<Rightarrow> 'a option option" where
  "deq_trygetitem_index self index =
     (if index \<ge> d_size self then Some None
      else Option.bind (Deque_ItemPointer self index) (\<lambda>p. map_option Some (item_at self p)))"

definition deq_xchitem_index :: "'a Deque \<Rightarrow> nat \<Rightarrow> 'a \<Rightarrow> (deq_error + 'a \<times> 'a Deque) option" where
  "deq_xchitem_index self index val =
     (if index \<ge> d_size self then Some (Inl (IndexOutOfBounds index (d_size self)))
      else Option.bind (Deque_ItemPointer self index)
        (\<lambda>p. map_option (\<lambda>oldval. Inr (oldval, item_put self p (Some val))) (item_at self p)))"

definition deq_setitem_index :: "'a Deque \<Rightarrow> nat \<Rightarrow> 'a \<Rightarrow> (deq_error + 'a Deque) option" where
  "deq_setitem_index self index val = map_option (map_sum id snd) (deq_xchitem_index self index val)"

section \<open>Positions and the array of slots\<close>

text \<open>The place of a position in the array of all slots.\<close>

definition flat :: "'a Deque \<Rightarrow> position \<Rightarrow> nat" where
  "flat deq p = fst p * d_bucket_sz deq + snd p"

definition valid_pos :: "'a Deque \<Rightarrow> position \<Rightarrow> bool" where
  "valid_pos deq p \<longleftrightarrow> fst p < length (d_buckets deq) \<and> snd p < d_bucket_sz deq"

text \<open>The position of the item with an index.\<close>

definition pos_of :: "'a Deque \<Rightarrow> nat \<Rightarrow> position \<Rightarrow> bool" where
  "pos_of deq i p \<longleftrightarrow> valid_pos deq p \<and> flat deq p = d_head_idx deq + i"

lemma seek_next_pos:
  "index < (n - Suc k) * m \<Longrightarrow> 0 < m \<Longrightarrow>
    \<exists>j i. seek_next n m k index = Some (j, i) \<and> j < n \<and> i < m \<and> j * m + i = Suc k * m + index"
proof (induction n m k index rule: seek_next.induct)
  case (1 n m k index)
  have n: "\<not> n \<le> Suc k"
  proof
    assume "n \<le> Suc k"
    then have "n - Suc k = 0" by simp
    with 1(2) show False by simp
  qed
  show ?case
  proof (cases "index < m")
    case False
    have "n - Suc k = Suc (n - Suc (Suc k))" using n by simp
    then have "index - m < (n - Suc (Suc k)) * m" using 1(2) False by simp
    from 1(1) [OF n False this 1(3)] show ?thesis using n False by (subst seek_next.simps) auto
  next
    case True
    then show ?thesis using n by (subst seek_next.simps) simp
  qed
qed

lemma seek_prev_pos:
  "rindex \<le> k * m \<Longrightarrow> 0 < rindex \<Longrightarrow>
    \<exists>j i. seek_prev m k rindex = Some (j, i) \<and> j < k \<and> i < m \<and> j * m + i = k * m - rindex"
proof (induction m k rindex rule: seek_prev.induct)
  case (2 m k rindex)
  show ?case
  proof (cases "rindex \<le> m")
    case False
    then have "\<exists>j i. seek_prev m k (rindex - m) = Some (j, i) \<and> j < k \<and> i < m \<and> j * m + i = k * m - (rindex - m)"
      using 2 by auto
    then obtain j i where "seek_prev m k (rindex - m) = Some (j, i)" "j < k" "i < m" "j * m + i = k * m - (rindex - m)"
      by blast
    then show ?thesis using False 2(2) by auto
  qed (use 2 in auto)
qed simp

lemma deque_shapes:
  assumes "deq_ok self" "0 < d_size self"
  obtains (single) "length (d_buckets self) = 1" "d_head_use self = d_size self"
      "d_head_idx self + d_size self \<le> d_bucket_sz self" "d_tail_sz self = 0"
  | (multi) n where "length (d_buckets self) = Suc (Suc n)" "0 < d_tail_sz self" "d_tail_sz self \<le> d_bucket_sz self"
      "d_head_idx self + d_head_use self = d_bucket_sz self"
      "d_head_idx self + d_size self = Suc n * d_bucket_sz self + d_tail_sz self"
proof -
  have "d_buckets self \<noteq> []" using deq_ok_empty [OF assms(1)] assms(2) by simp
  then consider "length (d_buckets self) = 1" | n where "length (d_buckets self) = Suc (Suc n)"
    by (cases "d_buckets self" rule: list.exhaust [case_names Nil Cons]; cases "tl (d_buckets self)") auto
  then show thesis
  proof cases
    case 1
    show thesis by (rule single) (use 1 deq_ok_single [OF assms(1) 1] in simp_all)
  next
    case 2
    then show thesis using multi deq_ok_multi [OF assms(1)] deq_ok_common(2) [OF assms(1)] by simp
  qed
qed

lemma ItemPointer_pos:
  assumes ok: "deq_ok self" and i: "index < d_size self"
  shows "\<exists>p. Deque_ItemPointer self index = Some p \<and> pos_of self index p"
proof (cases "index < d_head_use self")
  case True
  have "0 < d_size self" using i by simp
  with ok have "0 < length (d_buckets self) \<and> d_head_idx self + index < d_bucket_sz self"
    by (cases rule: deque_shapes) (use True i in auto)
  then show ?thesis using True i by (simp add: Deque_ItemPointer_def pos_of_def valid_pos_def flat_def)
next
  case False
  have "0 < d_size self" using i by simp
  with ok show ?thesis
  proof (cases rule: deque_shapes)
    case single
    then show ?thesis using False i by simp
  next
    case (multi n)
    note c = deq_ok_common [OF ok]
    let ?m = "d_bucket_sz self" and ?r = "d_size self - index"
    show ?thesis
    proof (cases "index \<ge> d_size self div 2")
      case right: True
      show ?thesis
      proof (cases "?r \<le> d_tail_sz self")
        case True
        have "d_tail_sz self - ?r < ?m" "Suc n * ?m + (d_tail_sz self - ?r) = d_head_idx self + index"
          using multi True i by linarith+
        then show ?thesis using multi(1) i False right True
          by (simp add: Deque_ItemPointer_def Let_def pos_of_def valid_pos_def flat_def)
      next
        case tail: False
        have "?r - d_tail_sz self \<le> Suc n * ?m" "0 < ?r - d_tail_sz self" using tail multi False by linarith+
        from seek_prev_pos [OF this] obtain j l where
          "seek_prev ?m (Suc n) (?r - d_tail_sz self) = Some (j, l)" "j < Suc n" "l < ?m"
          "j * ?m + l = Suc n * ?m - (?r - d_tail_sz self)" by blast
        moreover have "Suc n * ?m - (?r - d_tail_sz self) = d_head_idx self + index" using multi tail i by linarith
        moreover have "Deque_ItemPointer self index = seek_prev ?m (Suc n) (?r - d_tail_sz self)"
          using multi(1) i False right tail by (simp add: Deque_ItemPointer_def Let_def del: seek_prev.simps)
        ultimately show ?thesis using multi(1) by (simp add: pos_of_def valid_pos_def flat_def del: seek_prev.simps)
      qed
    next
      case left: False
      have "index - d_head_use self < Suc n * ?m" using multi i False by linarith
      then have "index - d_head_use self < (Suc (Suc n) - Suc 0) * ?m" by simp
      from seek_next_pos [OF this c(1)] obtain j l where
        "seek_next (Suc (Suc n)) ?m 0 (index - d_head_use self) = Some (j, l)" "j < Suc (Suc n)" "l < ?m"
        "j * ?m + l = Suc 0 * ?m + (index - d_head_use self)" by blast
      moreover have "Suc 0 * ?m + (index - d_head_use self) = d_head_idx self + index" using multi False by simp
      moreover have "Deque_ItemPointer self index = seek_next (Suc (Suc n)) ?m 0 (index - d_head_use self)"
        using multi(1) i False left by (simp add: Deque_ItemPointer_def)
      ultimately show ?thesis using multi(1) by (simp add: pos_of_def valid_pos_def flat_def)
    qed
  qed
qed

text \<open>What is at the position of an index, and what storing there does.\<close>

lemma pos_of_lt: "deque_holds self xs \<Longrightarrow> i < length xs \<Longrightarrow> d_head_idx self + i < length (concat (d_buckets self))"
  using slots_in_buckets [of self] deque_holds_size [of self xs] deq_ok_empty [of self]
  by (auto simp: deque_holds_def)

lemma item_at_pos:
  assumes "deque_holds self xs" "pos_of self i p" "i < length xs"
  shows "item_at self p = Some (xs ! i)"
proof -
  have ok: "deq_ok self" and s: "deq_slots self = map Some xs" using assms(1) by (simp_all add: deque_holds_def)
  have "item_at self p = concat (d_buckets self) ! (d_head_idx self + i)"
    using nth_concat_buckets [OF deq_ok_common(3) [OF ok], of "fst p" "snd p"] assms(2)
    by (simp add: item_at_def pos_of_def valid_pos_def flat_def)
  also have "\<dots> = deq_slots self ! i"
    using pos_of_lt [OF assms(1,3)] deque_holds_size [OF assms(1)] assms(3) by (simp add: deq_slots_def)
  finally show ?thesis using s assms(3) by simp
qed

lemma item_put_pos:
  assumes "deque_holds self xs" "pos_of self i p" "i < length xs"
  shows "deque_holds (item_put self p (Some x)) (xs[i := x])"
proof -
  have ok: "deq_ok self" and s: "deq_slots self = map Some xs" using assms(1) by (simp_all add: deque_holds_def)
  note c = deq_ok_common [OF ok]
  have p: "fst p < length (d_buckets self)" "snd p < d_bucket_sz self" "fst p * d_bucket_sz self + snd p = d_head_idx self + i"
    using assms(2) by (simp_all add: pos_of_def valid_pos_def flat_def)
  have "concat (db_put (d_buckets self) (fst p) (snd p) (Some x)) = (concat (d_buckets self))[d_head_idx self + i := Some x]"
    using concat_db_put [OF c(3) p(1,2)] p(3) by simp
  then have "deq_slots (item_put self p (Some x)) = (deq_slots self)[i := Some x]"
    by (simp add: deq_slots_def item_put_def drop_update_swap take_update_swap)
  then have "deq_slots (item_put self p (Some x)) = map Some (xs[i := x])" using s by (simp add: map_update)
  moreover have "deq_ok (item_put self p (Some x))"
    using ok db_put_lengths [OF c(3) p(1)] by (simp add: deq_ok_def item_put_def)
  ultimately show ?thesis by (simp add: deque_holds_def)
qed

lemma pos_of_put [simp]: "pos_of (item_put self q x) i p \<longleftrightarrow> pos_of self i p"
  by (simp add: pos_of_def valid_pos_def flat_def item_put_def)

text \<open>Begin, end and neighbours.\<close>

lemma pos_of_begin:
  assumes "deq_ok self" "0 < d_size self"
  shows "pos_of self 0 (DequeIterator_InitBegin self)"
  using deq_ok_common [OF assms(1)] deq_ok_empty [OF assms(1)] assms(2)
  by (simp add: pos_of_def valid_pos_def flat_def DequeIterator_InitBegin_def)

lemma pos_of_rbegin:
  assumes "deq_ok self" "0 < d_size self"
  shows "pos_of self (d_size self - 1) (DequeIterator_InitRBegin self)"
  using assms
proof (cases rule: deque_shapes)
  case single
  then show ?thesis using assms(2) by (simp add: pos_of_def valid_pos_def flat_def DequeIterator_InitRBegin_def)
next
  case (multi n)
  then show ?thesis by (auto simp: pos_of_def valid_pos_def flat_def DequeIterator_InitRBegin_def)
qed

lemma flat_next: "snd p < d_bucket_sz self \<Longrightarrow> flat self (DequeIterator_Next p self) = Suc (flat self p)"
  by (auto simp: flat_def DequeIterator_Next_def)

lemma flat_prev: "0 < flat self p \<Longrightarrow> 0 < d_bucket_sz self \<Longrightarrow> flat self (DequeIterator_Prev p self) = flat self p - 1"
  by (cases "fst p") (auto simp: flat_def DequeIterator_Prev_def)

lemma valid_pos_flat:
  assumes "snd p < d_bucket_sz self" "flat self p < length (d_buckets self) * d_bucket_sz self"
  shows "valid_pos self p"
proof -
  have "fst p * d_bucket_sz self < length (d_buckets self) * d_bucket_sz self"
    using assms(2) unfolding flat_def by linarith
  then show ?thesis using assms(1) by (simp add: valid_pos_def)
qed

lemma slots_bound: "deq_ok self \<Longrightarrow> 0 < d_size self \<Longrightarrow> d_head_idx self + d_size self \<le> length (d_buckets self) * d_bucket_sz self"
  using slots_in_buckets [of self] deq_ok_empty [of self] length_concat_buckets [OF deq_ok_common(3) [of self]] by auto

lemma pos_of_next:
  assumes "deq_ok self" "pos_of self i p" "Suc i < d_size self"
  shows "pos_of self (Suc i) (DequeIterator_Next p self)"
proof -
  have p: "snd p < d_bucket_sz self" "flat self p = d_head_idx self + i" using assms(2) by (simp_all add: pos_of_def valid_pos_def)
  have "snd (DequeIterator_Next p self) < d_bucket_sz self" using deq_ok_common(1) [OF assms(1)] by (simp add: DequeIterator_Next_def)
  moreover have "flat self (DequeIterator_Next p self) = d_head_idx self + Suc i" using flat_next [OF p(1)] p(2) by simp
  moreover have "d_head_idx self + Suc i < length (d_buckets self) * d_bucket_sz self"
    using slots_bound [OF assms(1)] assms(3) by linarith
  ultimately show ?thesis using valid_pos_flat [of "DequeIterator_Next p self" self] by (simp add: pos_of_def)
qed

lemma pos_of_prev:
  assumes "deq_ok self" "pos_of self (Suc i) p"
  shows "pos_of self i (DequeIterator_Prev p self)"
proof -
  have p: "valid_pos self p" "flat self p = Suc (d_head_idx self + i)" using assms(2) by (simp_all add: pos_of_def)
  have f: "flat self (DequeIterator_Prev p self) = d_head_idx self + i"
    using flat_prev [of self p] p(2) deq_ok_common(1) [OF assms(1)] by simp
  have "fst (DequeIterator_Prev p self) \<le> fst p" by (simp add: DequeIterator_Prev_def)
  moreover have "snd (DequeIterator_Prev p self) < d_bucket_sz self"
    using p(1) deq_ok_common(1) [OF assms(1)] by (auto simp: DequeIterator_Prev_def valid_pos_def)
  ultimately show ?thesis using p(1) f by (simp add: pos_of_def valid_pos_def)
qed

lemma HasNext_pos:
  assumes "deq_ok self" "pos_of self i p" "i < d_size self"
  shows "DequeIterator_HasNext p self \<longleftrightarrow> Suc i < d_size self"
proof -
  have "0 < d_size self" using assms(3) by simp
  with assms(1) show ?thesis
  proof (cases rule: deque_shapes)
    case single
    then show ?thesis using assms(2,3) by (auto simp: DequeIterator_HasNext_def pos_of_def valid_pos_def flat_def)
  next
    case (multi n)
    have f: "fst p * d_bucket_sz self + snd p = d_head_idx self + i" "snd p < d_bucket_sz self" "fst p < Suc (Suc n)"
      using assms(2) multi(1) by (simp_all add: pos_of_def valid_pos_def flat_def)
    show ?thesis
    proof (cases "fst p = Suc n")
      case True
      then show ?thesis using multi f by (auto simp: DequeIterator_HasNext_def)
    next
      case False
      then have "Suc (fst p) * d_bucket_sz self \<le> Suc n * d_bucket_sz self" using f(3) by (intro mult_le_mono1) simp
      then have "fst p * d_bucket_sz self + d_bucket_sz self \<le> Suc n * d_bucket_sz self" by simp
      then have "d_head_idx self + i < Suc n * d_bucket_sz self" using f(1,2) by linarith
      then show ?thesis using multi False by (simp add: DequeIterator_HasNext_def)
    qed
  qed
qed

section \<open>Iterators\<close>

text \<open>
  The iterator object; the deque it belongs to is an argument of its operations.  When the versions
  differ the iterator is exhausted.
\<close>

record deq_iterator =
  di_iter :: position
  di_ver :: u64

definition deq_iter :: "'a Deque \<Rightarrow> deq_iterator" where
  "deq_iter self =
     \<lparr>di_iter = DequeIterator_InitBegin self, di_ver = (if d_size self = 0 then d_version self - 1 else d_version self)\<rparr>"

text \<open>An iterator without arguments, over a new empty deque.\<close>

definition deqiter_ctor :: "deq_iterator \<times> 'a Deque" where
  "deqiter_ctor = (\<lparr>di_iter = DequeIterator_InitBegin (deq_ctor :: 'a Deque), di_ver = 0\<rparr>, deq_ctor)"

definition deqiter_init :: "'a Deque \<Rightarrow> nat \<Rightarrow> deq_iterator \<Rightarrow> deq_iterator option" where
  "deqiter_init deq index self =
     (if index \<ge> d_size deq then Some (self\<lparr>di_ver := d_version deq - 1\<rparr>)
      else map_option (\<lambda>p. self\<lparr>di_iter := p, di_ver := d_version deq\<rparr>) (DequeIterator_InitAt deq index))"

text \<open>\<open>deqiter_setindex\<close> does the same to an existing iterator.\<close>

definition deqiter_setindex :: "deq_iterator \<Rightarrow> 'a Deque \<Rightarrow> nat \<Rightarrow> deq_iterator option" where
  "deqiter_setindex self deq index =
     (let self = self\<lparr>di_ver := d_version deq\<rparr>
      in if index \<ge> d_size deq then Some (self\<lparr>di_ver := di_ver self - 1\<rparr>)
         else map_option (\<lambda>p. self\<lparr>di_iter := p\<rparr>) (DequeIterator_InitAt deq index))"

text \<open>\<open>None\<close> is the result \<open>(size_t)-1\<close>.\<close>

definition deqiter_getindex :: "deq_iterator \<Rightarrow> 'a Deque \<Rightarrow> nat option" where
  "deqiter_getindex self deq =
     (if di_ver self \<noteq> d_version deq then None else Some (DequeIterator_GetIndex (di_iter self) deq))"

definition deqiter_bool :: "deq_iterator \<Rightarrow> 'a Deque \<Rightarrow> bool" where
  "deqiter_bool self deq \<longleftrightarrow> di_ver self = d_version deq"

text \<open>The item, or no item for \<open>ITER_DONE\<close>, and the advanced iterator.\<close>

definition deqiter_next :: "deq_iterator \<Rightarrow> 'a Deque \<Rightarrow> ('a option \<times> deq_iterator) option" where
  "deqiter_next self deq =
     (if di_ver self \<noteq> d_version deq then Some (None, self)
      else case item_at deq (di_iter self) of
        None \<Rightarrow> None
      | Some result \<Rightarrow>
          Some (Some result,
            if DequeIterator_HasNext (di_iter self) deq then self\<lparr>di_iter := DequeIterator_Next (di_iter self) deq\<rparr>
            else self\<lparr>di_ver := di_ver self - 1\<rparr>))"

text \<open>What at most \<open>n\<close> calls yield until the iterator is done.\<close>

fun deqiter_drain :: "nat \<Rightarrow> deq_iterator \<Rightarrow> 'a Deque \<Rightarrow> 'a list option" where
  "deqiter_drain 0 self deq = None"
| "deqiter_drain (Suc n) self deq =
     (case deqiter_next self deq of
        None \<Rightarrow> None
      | Some (None, _) \<Rightarrow> Some []
      | Some (Some x, self) \<Rightarrow> map_option (Cons x) (deqiter_drain n self deq))"

lemma version_minus [simp]: "(v::u64) - 1 \<noteq> v"
proof
  assume "v - 1 = v"
  then have "v - 1 - v = 0" by simp
  then show False by simp
qed

lemma drain_done: "di_ver self \<noteq> d_version deq \<Longrightarrow> deqiter_drain (Suc n) self deq = Some []"
  by (simp add: deqiter_next_def)

lemma drain_from:
  assumes "deque_holds deq xs" "pos_of deq i (di_iter self)" "i < length xs" "di_ver self = d_version deq"
    and "length xs - i < n"
  shows "deqiter_drain n self deq = Some (drop i xs)"
  using assms
proof (induction "length xs - i" arbitrary: i self n)
  case (Suc k)
  have ok: "deq_ok deq" using Suc.prems(1) by (simp add: deque_holds_def)
  note sz = deque_holds_size [OF Suc.prems(1)]
  obtain m where n: "n = Suc m" using Suc.prems(5) by (cases n) auto
  have item: "item_at deq (di_iter self) = Some (xs ! i)" by (rule item_at_pos [OF Suc.prems(1-3)])
  have next_: "DequeIterator_HasNext (di_iter self) deq \<longleftrightarrow> Suc i < length xs"
    using HasNext_pos [OF ok Suc.prems(2)] Suc.prems(3) sz by simp
  show ?case
  proof (cases "Suc i < length xs")
    case True
    have "pos_of deq (Suc i) (DequeIterator_Next (di_iter self) deq)"
      by (rule pos_of_next [OF ok Suc.prems(2)]) (use True sz in simp)
    then have "deqiter_drain m (self\<lparr>di_iter := DequeIterator_Next (di_iter self) deq\<rparr>) deq = Some (drop (Suc i) xs)"
      using Suc.hyps(2) Suc.prems(1,4,5) True n by (intro Suc.hyps(1)) simp_all
    then show ?thesis using item next_ True Suc.prems(3,4) n by (simp add: deqiter_next_def Cons_nth_drop_Suc)
  next
    case False
    then have "drop i xs = [xs ! i]" using Suc.prems(3) by (metis Cons_nth_drop_Suc drop_all not_less)
    moreover obtain q where "m = Suc q" using Suc.prems(3,5) n by (cases m) auto
    ultimately show ?thesis using item next_ False Suc.prems(4) n by (simp add: deqiter_next_def)
  qed
qed simp

lemma GetIndex_pos:
  assumes "deque_holds deq xs" "pos_of deq i p" "i < length xs"
  shows "DequeIterator_GetIndex p deq = (if 1 < length (d_buckets deq) then i else length xs + d_head_idx deq + i)"
proof -
  have ok: "deq_ok deq" using assms by (simp add: deque_holds_def)
  note sz = deque_holds_size [OF assms(1)]
  have p: "fst p < length (d_buckets deq)" "fst p * d_bucket_sz deq + snd p = d_head_idx deq + i"
    using assms(2) by (simp_all add: pos_of_def valid_pos_def flat_def)
  have "0 < d_size deq" using sz assms(3) by linarith
  with ok show ?thesis
  proof (cases rule: deque_shapes)
    case single
    then show ?thesis using p sz by (simp add: DequeIterator_GetIndex_def)
  next
    case (multi n)
    show ?thesis
    proof (cases "fst p = Suc n")
      case True
      have "d_head_idx deq < Suc n * d_bucket_sz deq" using deq_ok_common(2) [OF ok] by simp
      moreover have "Suc n * d_bucket_sz deq + snd p = d_head_idx deq + i" using True p(2) by simp
      ultimately have "d_size deq - d_tail_sz deq + snd p = i" using multi(5) by linarith
      then show ?thesis using multi(1) True by (simp add: DequeIterator_GetIndex_def)
    next
      case False
      then show ?thesis using multi(1) p(2) by (simp add: DequeIterator_GetIndex_def add.commute)
    qed
  qed
qed

section \<open>Properties\<close>

text \<open>
  C5: Access by index.  On a well-formed deque that holds \<open>xs\<close>, the search for a bucket from the
  front or from the back finds the slot of the item: reading yields \<open>xs ! i\<close>, exchanging and setting
  replace it, and an index out of bounds is the documented error or absence.
\<close>

theorem deque_items_correct:
  assumes "deque_holds self xs"
  shows "deq_getitem_index self i = Some (if i < length xs then Inr (xs ! i) else Inl (IndexOutOfBounds i (length xs)))
    \<and> deq_trygetitem_index self i = Some (if i < length xs then Some (xs ! i) else None)
    \<and> (if i < length xs
       then \<exists>self'. deq_xchitem_index self i x = Some (Inr (xs ! i, self')) \<and> deque_holds self' (xs[i := x])
         \<and> deq_setitem_index self i x = Some (Inr self')
       else deq_xchitem_index self i x = Some (Inl (IndexOutOfBounds i (length xs)))
         \<and> deq_setitem_index self i x = Some (Inl (IndexOutOfBounds i (length xs))))"
proof -
  note sz = deque_holds_size [OF assms]
  have ok: "deq_ok self" using assms by (simp add: deque_holds_def)
  show ?thesis
  proof (cases "i < length xs")
    case False
    then show ?thesis using sz
      by (simp add: deq_getitem_index_def deq_trygetitem_index_def deq_setitem_index_def deq_xchitem_index_def)
  next
    case True
    then obtain p where p: "Deque_ItemPointer self i = Some p" "pos_of self i p" using ItemPointer_pos [OF ok, of i] sz by auto
    note at = item_at_pos [OF assms p(2) True] and put = item_put_pos [OF assms p(2) True, of x]
    show ?thesis using True sz p(1) at put
      by (simp add: deq_getitem_index_def deq_trygetitem_index_def deq_setitem_index_def deq_xchitem_index_def)
  qed
qed

text \<open>
  C6: Iteration.  An iterator of a deque that holds \<open>xs\<close> yields \<open>xs\<close> in order and then is done; after
  setting its index to \<open>i\<close> it yields the rest from there; one whose version differs yields nothing.
  But the index it reports is the index of its item only with two or more buckets: in a single
  bucket it is too large by the number of items plus the place of the first item in the bucket.
\<close>

theorem deque_iteration_characterized:
  assumes "deque_holds deq xs"
  shows "deqiter_drain (Suc (length xs)) (deq_iter deq) deq = Some xs
    \<and> (\<exists>self'. deqiter_setindex self deq i = Some self'
        \<and> deqiter_drain (Suc (length xs)) self' deq = Some (drop i xs)
        \<and> deqiter_getindex self' deq = (if i \<ge> length xs then None
            else if 1 < length (d_buckets deq) then Some i else Some (length xs + d_head_idx deq + i)))
    \<and> (if deqiter_bool self deq then True else deqiter_next self deq = Some (None, self))"
proof -
  note sz = deque_holds_size [OF assms]
  have ok: "deq_ok deq" using assms by (simp add: deque_holds_def)
  have 1: "deqiter_drain (Suc (length xs)) (deq_iter deq) deq = Some xs"
  proof (cases "xs = []")
    case True
    then show ?thesis using sz by (simp add: deq_iter_def deqiter_next_def)
  next
    case False
    then have "pos_of deq 0 (di_iter (deq_iter deq))" using pos_of_begin [OF ok] sz by (simp add: deq_iter_def)
    then have "deqiter_drain (Suc (length xs)) (deq_iter deq) deq = Some (drop 0 xs)"
      using False sz by (intro drain_from [OF assms]) (simp_all add: deq_iter_def)
    then show ?thesis by simp
  qed
  have 2: "\<exists>self'. deqiter_setindex self deq i = Some self'
      \<and> deqiter_drain (Suc (length xs)) self' deq = Some (drop i xs)
      \<and> deqiter_getindex self' deq = (if i \<ge> length xs then None
          else if 1 < length (d_buckets deq) then Some i else Some (length xs + d_head_idx deq + i))"
  proof (cases "i < length xs")
    case False
    then show ?thesis using sz by (simp add: deqiter_setindex_def deqiter_next_def deqiter_getindex_def)
  next
    case True
    then obtain p where p: "DequeIterator_InitAt deq i = Some p" "pos_of deq i p"
      using ItemPointer_pos [OF ok, of i] sz by (auto simp: DequeIterator_InitAt_def)
    let ?s = "self\<lparr>di_ver := d_version deq, di_iter := p\<rparr>"
    have "deqiter_setindex self deq i = Some ?s" using True sz p(1) by (simp add: deqiter_setindex_def)
    moreover have "deqiter_drain (Suc (length xs)) ?s deq = Some (drop i xs)"
      by (rule drain_from [OF assms, where i = i]) (use p(2) True in simp_all)
    moreover have "DequeIterator_GetIndex p deq = (if 1 < length (d_buckets deq) then i else length xs + d_head_idx deq + i)"
      by (rule GetIndex_pos [OF assms p(2) True])
    ultimately show ?thesis using True by (simp add: deqiter_getindex_def)
  qed
  show ?thesis using 1 2 by (simp add: deqiter_bool_def deqiter_next_def)
qed

text \<open>
  An iterator built without arguments belongs to a new empty deque but has its version, so the
  first call of next reads an item through a null bucket.
\<close>

lemma deqiter_ctor_reads_nothing:
  "deqiter_next (fst (deqiter_ctor :: deq_iterator \<times> 'a Deque)) (snd (deqiter_ctor :: deq_iterator \<times> 'a Deque)) = None"
  by (simp add: deqiter_ctor_def deqiter_next_def deq_ctor_def deq_empty_def item_at_def db_get_def)

theorem deque_items_correct_witness:
  "deq_getitem_index \<lparr>d_buckets = [[None, Some (1::int)], [Some 2, None]], d_size = 2, d_head_idx = 1, d_head_use = 1,
     d_tail_sz = 1, d_bucket_sz = 2, d_version = 2\<rparr> 1 = Some (Inr 2)"
proof -
  have "deque_holds \<lparr>d_buckets = [[None, Some (1::int)], [Some 2, None]], d_size = 2, d_head_idx = 1, d_head_use = 1,
     d_tail_sz = 1, d_bucket_sz = 2, d_version = 2\<rparr> [1, 2]"
    by (simp add: deque_holds_def deq_ok_def deq_slots_def)
  from deque_items_correct [OF this, of 1] show ?thesis by simp
qed

theorem deque_iteration_characterized_witness:
  "\<exists>self. deqiter_getindex self \<lparr>d_buckets = [[None, Some (1::int), None]], d_size = 1, d_head_idx = 1, d_head_use = 1,
     d_tail_sz = 0, d_bucket_sz = 3, d_version = 1\<rparr> = Some 2"
proof -
  let ?d = "\<lparr>d_buckets = [[None, Some (1::int), None]], d_size = 1, d_head_idx = 1, d_head_use = 1,
     d_tail_sz = 0, d_bucket_sz = 3, d_version = 1\<rparr>"
  have "deque_holds ?d [1]" by (simp add: deque_holds_def deq_ok_def deq_slots_def)
  from deque_iteration_characterized [OF this, of "deq_iter ?d" 0]
  obtain self where "deqiter_getindex self ?d = Some (length [1::int] + d_head_idx ?d + 0)"
    by (auto simp del: deqiter_drain.simps)
  then show ?thesis by (intro exI [of _ self]) simp
qed

end
