(* ===== verification/DequeRotate.thy ===== *)
theory DequeRotate
  imports DequeItems
begin

text \<open>
  Rotation, insertion and removal inside a deque (dex/collections/deque.c), which work item by item
  through an iterator.
\<close>

definition DequeIterator_NextItemPointer :: "position \<Rightarrow> 'a Deque \<Rightarrow> position option" where
  "DequeIterator_NextItemPointer self deq =
     (if \<not> DequeIterator_HasNext self deq then None
      else if snd self + 1 < d_bucket_sz deq then Some (fst self, snd self + 1)
      else Some (fst self + 1, 0))"

text \<open>The loops of the four rotations: the position and, where there is one, the carried item.\<close>

fun llrot_loop :: "nat \<Rightarrow> 'a Deque \<Rightarrow> position \<Rightarrow> ('a Deque \<times> position) option" where
  "llrot_loop 0 self iter = Some (self, iter)"
| "llrot_loop (Suc n) self iter =
     Option.bind (DequeIterator_NextItemPointer iter self) (\<lambda>p.
       Option.bind (item_at self p) (\<lambda>x.
         llrot_loop n (item_put self iter (Some x)) (DequeIterator_Next iter self)))"

definition Deque_llrot_unlocked :: "'a Deque \<Rightarrow> nat \<Rightarrow> 'a Deque option" where
  "Deque_llrot_unlocked self num_objects =
     (if num_objects \<le> 1 then Some self
      else if \<not> num_objects \<le> d_size self then None
      else Option.bind (item_at self (DequeIterator_InitBegin self)) (\<lambda>lobj.
        Option.bind (llrot_loop (num_objects - 2) self (DequeIterator_InitBegin self)) (\<lambda>(self, iter).
          Some ((item_put self iter (Some lobj))\<lparr>d_version := d_version self + 1\<rparr>))))"

fun lrrot_loop :: "nat \<Rightarrow> 'a Deque \<Rightarrow> position \<Rightarrow> 'a \<Rightarrow> ('a Deque \<times> 'a) option" where
  "lrrot_loop 0 self iter temp = Some (self, temp)"
| "lrrot_loop (Suc n) self iter temp =
     (let iter = DequeIterator_Next iter self
      in Option.bind (item_at self iter) (\<lambda>x. lrrot_loop n (item_put self iter (Some temp)) iter x))"

definition Deque_lrrot_unlocked :: "'a Deque \<Rightarrow> nat \<Rightarrow> 'a Deque option" where
  "Deque_lrrot_unlocked self num_objects =
     (if num_objects \<le> 1 then Some self
      else if \<not> num_objects \<le> d_size self then None
      else Option.bind (item_at self (DequeIterator_InitBegin self)) (\<lambda>temp.
        Option.bind (lrrot_loop (num_objects - 2) self (DequeIterator_InitBegin self) temp) (\<lambda>(self, temp).
          Some ((item_put self (DequeIterator_InitBegin self) (Some temp))\<lparr>d_version := d_version self + 1\<rparr>))))"

fun rlrot_loop :: "nat \<Rightarrow> 'a Deque \<Rightarrow> position \<Rightarrow> 'a \<Rightarrow> ('a Deque \<times> 'a) option" where
  "rlrot_loop 0 self iter temp = Some (self, temp)"
| "rlrot_loop (Suc n) self iter temp =
     (let iter = DequeIterator_Prev iter self
      in Option.bind (item_at self iter) (\<lambda>x. rlrot_loop n (item_put self iter (Some temp)) iter x))"

definition Deque_rlrot_unlocked :: "'a Deque \<Rightarrow> nat \<Rightarrow> 'a Deque option" where
  "Deque_rlrot_unlocked self num_objects =
     (if num_objects \<le> 1 then Some self
      else if \<not> num_objects \<le> d_size self then None
      else Option.bind (item_at self (DequeIterator_InitRBegin self)) (\<lambda>temp.
        Option.bind (rlrot_loop (num_objects - 2) self (DequeIterator_InitRBegin self) temp) (\<lambda>(self, temp).
          Some ((item_put self (DequeIterator_InitRBegin self) (Some temp))\<lparr>d_version := d_version self + 1\<rparr>))))"

fun rrrot_loop :: "nat \<Rightarrow> 'a Deque \<Rightarrow> position \<Rightarrow> ('a Deque \<times> position) option" where
  "rrrot_loop 0 self iter = Some (self, iter)"
| "rrrot_loop (Suc n) self iter =
     (let iter = DequeIterator_Prev iter self
      in Option.bind (item_at self iter) (\<lambda>x.
        Option.bind (DequeIterator_NextItemPointer iter self) (\<lambda>p.
          rrrot_loop n (item_put self p (Some x)) iter)))"

definition Deque_rrrot_unlocked :: "'a Deque \<Rightarrow> nat \<Rightarrow> 'a Deque option" where
  "Deque_rrrot_unlocked self num_objects =
     (if num_objects \<le> 1 then Some self
      else if \<not> num_objects \<le> d_size self then None
      else Option.bind (item_at self (DequeIterator_InitRBegin self)) (\<lambda>robj.
        Option.bind (rrrot_loop (num_objects - 2) self (DequeIterator_InitRBegin self)) (\<lambda>(self, iter).
          Some ((item_put self iter (Some robj))\<lparr>d_version := d_version self + 1\<rparr>))))"

text \<open>The locked functions check the number first; \<open>rotate\<close> is one of the four above.\<close>

definition Deque_rot :: "('a Deque \<Rightarrow> nat \<Rightarrow> 'a Deque option) \<Rightarrow> 'a Deque \<Rightarrow> nat \<Rightarrow> (deq_error + 'a Deque) option" where
  "Deque_rot rotate_unlocked self num_objects =
     (if num_objects > d_size self then Some (Inl (IndexOutOfBounds num_objects (d_size self)))
      else map_option Inr (rotate_unlocked self num_objects))"

definition Deque_llrot :: "'a Deque \<Rightarrow> nat \<Rightarrow> (deq_error + 'a Deque) option" where
  "Deque_llrot = Deque_rot Deque_llrot_unlocked"

definition Deque_lrrot :: "'a Deque \<Rightarrow> nat \<Rightarrow> (deq_error + 'a Deque) option" where
  "Deque_lrrot = Deque_rot Deque_lrrot_unlocked"

definition Deque_rlrot :: "'a Deque \<Rightarrow> nat \<Rightarrow> (deq_error + 'a Deque) option" where
  "Deque_rlrot = Deque_rot Deque_rlrot_unlocked"

definition Deque_rrrot :: "'a Deque \<Rightarrow> nat \<Rightarrow> (deq_error + 'a Deque) option" where
  "Deque_rrrot = Deque_rot Deque_rrrot_unlocked"

section \<open>Insertion and removal by index\<close>

definition Deque_Insert_unlocked :: "bool \<Rightarrow> 'a Deque \<Rightarrow> nat \<Rightarrow> 'a \<Rightarrow> (bool \<times> 'a Deque) option" where
  "Deque_Insert_unlocked mem self index item =
     (if \<not> index \<le> d_size self then None
      else if index = 0 then Deque_PushFront_unlocked mem self item
      else if index = d_size self - 1 then Deque_PushBack_unlocked mem self item
      else if index < d_size self div 2 then
        Option.bind (Deque_PushFront_unlocked mem self item) (\<lambda>(ok, self).
          if \<not> ok then Some (False, self)
          else map_option (Pair True) (Deque_llrot_unlocked self (index + 1)))
      else
        Option.bind (Deque_PushBack_unlocked mem self item) (\<lambda>(ok, self).
          if \<not> ok then Some (False, self)
          else map_option (Pair True) (Deque_rrrot_unlocked self (d_size self - index))))"

definition Deque_Insert :: "bool list \<Rightarrow> 'a Deque \<Rightarrow> nat \<Rightarrow> 'a \<Rightarrow> (deq_error + 'a Deque) option" where
  "Deque_Insert mem self index item =
     (let index = (if index > d_size self then d_size self else index)
      in retry (\<lambda>m. Deque_Insert_unlocked m self index item) mem)"

definition Deque_Pop_unlocked :: "'a Deque \<Rightarrow> nat \<Rightarrow> ('a \<times> 'a Deque) option" where
  "Deque_Pop_unlocked self index =
     (if \<not> index < d_size self then None
      else if index = 0 then Deque_PopFront_unlocked self
      else if index = d_size self - 1 then Deque_PopBack_unlocked self
      else if index < d_size self div 2 then
        Option.bind (Deque_llrot_unlocked self (index + 1)) Deque_PopFront_unlocked
      else
        Option.bind (Deque_rrrot_unlocked self (d_size self - index)) Deque_PopBack_unlocked)"

definition Deque_Pop :: "'a Deque \<Rightarrow> nat \<Rightarrow> (deq_error + 'a \<times> 'a Deque) option" where
  "Deque_Pop self index =
     (if index \<ge> d_size self then
        if d_size self = 0 then Some (Inl EmptySequence)
        else map_option Inr (Deque_Pop_unlocked self (d_size self - 1))
      else map_option Inr (Deque_Pop_unlocked self index))"

text \<open>A negative index counts from the end; as a \<open>size_t\<close> one that stays negative is too large.\<close>

definition Deque_Pops :: "'a Deque \<Rightarrow> int \<Rightarrow> (deq_error + 'a \<times> 'a Deque) option" where
  "Deque_Pops self index =
     (let index = (if index < 0 then index + int (d_size self) else index)
      in if index < 0 \<or> index \<ge> int (d_size self) then
        if d_size self = 0 then Some (Inl EmptySequence)
        else map_option Inr (Deque_Pop_unlocked self (d_size self))
      else map_option Inr (Deque_Pop_unlocked self (nat index)))"

definition deq_delitem_index :: "'a Deque \<Rightarrow> nat \<Rightarrow> (deq_error + 'a Deque) option" where
  "deq_delitem_index self index = map_option (map_sum id snd) (Deque_Pop self index)"

text \<open>The loops of \<open>Deque_Erase\<close> from the left and from the right; \<open>n\<close> iterations are left.\<close>

fun erase_left :: "nat \<Rightarrow> 'a Deque \<Rightarrow> nat \<Rightarrow> 'a Deque option" where
  "erase_left 0 self index = Some self"
| "erase_left (Suc n) self index =
     Option.bind (Deque_Pop_unlocked self index) (\<lambda>(_, self). erase_left n self index)"

fun erase_right :: "nat \<Rightarrow> 'a Deque \<Rightarrow> nat \<Rightarrow> nat \<Rightarrow> 'a Deque option" where
  "erase_right 0 self index i = Some self"
| "erase_right (Suc n) self index i =
     Option.bind (Deque_Pop_unlocked self (index + i - 1)) (\<lambda>(_, self). erase_right n self index (i + 1))"

definition Deque_Erase :: "bool list \<Rightarrow> 'a Deque \<Rightarrow> nat \<Rightarrow> nat \<Rightarrow> (deq_error + 'a Deque) option" where
  "Deque_Erase mem self index count =
     (let index = (if index > d_size self then d_size self else index);
          result = (if d_size self - index > count then count else d_size self - index)
      in retry (\<lambda>m.
           if \<not> m then Some (False, self)
           else map_option (Pair True)
             (if index < d_size self - index + result then erase_left result self index
              else erase_right result self index 0)) mem)"

section \<open>The loops as list operations\<close>

primrec shl :: "nat \<Rightarrow> nat \<Rightarrow> 'a list \<Rightarrow> 'a list" where
  "shl 0 i xs = xs"
| "shl (Suc n) i xs = shl n (Suc i) (xs[i := xs ! Suc i])"

primrec shr :: "nat \<Rightarrow> nat \<Rightarrow> 'a list \<Rightarrow> 'a list" where
  "shr 0 i xs = xs"
| "shr (Suc n) i xs = shr n (i - 1) (xs[i := xs ! (i - 1)])"

primrec chain_up :: "nat \<Rightarrow> nat \<Rightarrow> 'a \<Rightarrow> 'a list \<Rightarrow> 'a list \<times> 'a" where
  "chain_up 0 i t xs = (xs, t)"
| "chain_up (Suc n) i t xs = chain_up n (Suc i) (xs ! Suc i) (xs[Suc i := t])"

primrec chain_down :: "nat \<Rightarrow> nat \<Rightarrow> 'a \<Rightarrow> 'a list \<Rightarrow> 'a list \<times> 'a" where
  "chain_down 0 i t xs = (xs, t)"
| "chain_down (Suc n) i t xs = chain_down n (i - 1) (xs ! (i - 1)) (xs[i - 1 := t])"

lemma length_shl [simp]: "length (shl n i xs) = length xs"
  by (induction n arbitrary: i xs) simp_all

lemma length_shr [simp]: "length (shr n i xs) = length xs"
  by (induction n arbitrary: i xs) simp_all

lemma length_chain_up [simp]: "length (fst (chain_up n i t xs)) = length xs"
  by (induction n arbitrary: i t xs) simp_all

lemma length_chain_down [simp]: "length (fst (chain_down n i t xs)) = length xs"
  by (induction n arbitrary: i t xs) simp_all

lemma nth_shl:
  "i + n < length xs \<Longrightarrow> shl n i xs ! j = (if i \<le> j \<and> j < i + n then xs ! Suc j else xs ! j)"
  by (induction n arbitrary: i xs) (auto simp: nth_list_update)

lemma nth_shr:
  "n \<le> i \<Longrightarrow> i < length xs \<Longrightarrow> shr n i xs ! j = (if i - n < j \<and> j \<le> i then xs ! (j - 1) else xs ! j)"
  by (induction n arbitrary: i xs) (auto simp: nth_list_update)

lemma nth_chain_up:
  "i + n < length xs \<Longrightarrow>
    fst (chain_up n i t xs) ! j = (if i < j \<and> j \<le> i + n then xs[i := t] ! (j - 1) else xs ! j)
    \<and> snd (chain_up n i t xs) = xs[i := t] ! (i + n)"
  by (induction n arbitrary: i t xs) (auto simp: nth_list_update)

lemma nth_chain_down:
  "n \<le> i \<Longrightarrow> i < length xs \<Longrightarrow>
    fst (chain_down n i t xs) ! j = (if i - n \<le> j \<and> j < i then xs[i := t] ! Suc j else xs ! j)
    \<and> snd (chain_down n i t xs) = xs[i := t] ! (i - n)"
  by (induction n arbitrary: i t xs) (auto simp: nth_list_update)

text \<open>Rotating the first or the last \<open>n\<close> items of a list.\<close>

definition rotate_right :: "'a list \<Rightarrow> 'a list" where
  "rotate_right xs = (if xs = [] then [] else last xs # butlast xs)"

definition first_left :: "nat \<Rightarrow> 'a list \<Rightarrow> 'a list" where
  "first_left n xs = rotate1 (take n xs) @ drop n xs"

definition first_right :: "nat \<Rightarrow> 'a list \<Rightarrow> 'a list" where
  "first_right n xs = rotate_right (take n xs) @ drop n xs"

definition last_left :: "nat \<Rightarrow> 'a list \<Rightarrow> 'a list" where
  "last_left n xs = take (length xs - n) xs @ rotate1 (drop (length xs - n) xs)"

definition last_right :: "nat \<Rightarrow> 'a list \<Rightarrow> 'a list" where
  "last_right n xs = take (length xs - n) xs @ rotate_right (drop (length xs - n) xs)"

lemma length_rotate_right [simp]: "length (rotate_right xs) = length xs"
  by (cases xs) (simp_all add: rotate_right_def)

lemma length_rotations [simp]:
  "length (first_left n xs) = length xs" "length (first_right n xs) = length xs"
  "length (last_left n xs) = length xs" "length (last_right n xs) = length xs"
  by (simp_all add: first_left_def first_right_def last_left_def last_right_def)

lemma nth_rotate_right: "j < length xs \<Longrightarrow> rotate_right xs ! j = (if j = 0 then xs ! (length xs - 1) else xs ! (j - 1))"
  by (cases j) (auto simp: rotate_right_def last_conv_nth nth_butlast)

lemma nth_rotate1': "j < length xs \<Longrightarrow> rotate1 xs ! j = (if Suc j = length xs then xs ! 0 else xs ! Suc j)"
  by (auto simp: nth_rotate1)

lemma nth_first_left:
  "n \<le> length xs \<Longrightarrow> j < length xs \<Longrightarrow>
    first_left n xs ! j = (if Suc j < n then xs ! Suc j else if Suc j = n then xs ! 0 else xs ! j)"
  by (auto simp: first_left_def nth_append nth_rotate1')

lemma nth_first_right:
  "n \<le> length xs \<Longrightarrow> j < length xs \<Longrightarrow>
    first_right n xs ! j = (if j < n then if j = 0 then xs ! (n - 1) else xs ! (j - 1) else xs ! j)"
  by (auto simp: first_right_def nth_append nth_rotate_right)

lemma nth_last_left:
  "n \<le> length xs \<Longrightarrow> j < length xs \<Longrightarrow>
    last_left n xs ! j = (if j < length xs - n then xs ! j else if Suc j = length xs then xs ! (length xs - n) else xs ! Suc j)"
  by (auto simp: last_left_def nth_append nth_rotate1')

lemma nth_last_right:
  "n \<le> length xs \<Longrightarrow> j < length xs \<Longrightarrow>
    last_right n xs ! j = (if j < length xs - n then xs ! j else if j = length xs - n then xs ! (length xs - 1) else xs ! (j - 1))"
  by (auto simp: last_right_def nth_append nth_rotate_right)

lemma rotations_0 [simp]:
  "first_left 0 xs = xs" "first_right 0 xs = xs" "last_left 0 xs = xs" "last_right 0 xs = xs"
  by (simp_all add: first_left_def first_right_def last_left_def last_right_def rotate_right_def)

text \<open>What the loops do with \<open>n - 2\<close> iterations: they rotate \<open>n - 1\<close> items.\<close>

lemma shl_rotates:
  "2 \<le> n \<Longrightarrow> n \<le> length xs \<Longrightarrow> (shl (n - 2) 0 xs)[n - 2 := xs ! 0] = first_left (n - 1) xs"
  by (rule nth_equalityI) (auto simp: nth_list_update nth_shl nth_first_left)

lemma shr_rotates:
  "2 \<le> n \<Longrightarrow> n \<le> length xs \<Longrightarrow>
    (shr (n - 2) (length xs - 1) xs)[length xs - 1 - (n - 2) := xs ! (length xs - 1)] = last_right (n - 1) xs"
  by (rule nth_equalityI) (auto simp: nth_list_update nth_shr nth_last_right)

lemma chain_up_rotates:
  "2 \<le> n \<Longrightarrow> n \<le> length xs \<Longrightarrow>
    (fst (chain_up (n - 2) 0 (xs ! 0) xs))[0 := snd (chain_up (n - 2) 0 (xs ! 0) xs)] = first_right (n - 1) xs"
  by (rule nth_equalityI) (auto simp: nth_list_update nth_chain_up nth_first_right numeral_2_eq_2)

lemma chain_down_rotates:
  "2 \<le> n \<Longrightarrow> n \<le> length xs \<Longrightarrow>
    (fst (chain_down (n - 2) (length xs - 1) (xs ! (length xs - 1)) xs))
      [length xs - 1 := snd (chain_down (n - 2) (length xs - 1) (xs ! (length xs - 1)) xs)] = last_left (n - 1) xs"
  by (rule nth_equalityI) (auto simp: nth_list_update nth_chain_down nth_last_left)

section \<open>The loops of the code\<close>

lemma NextItemPointer_pos:
  assumes "deq_ok self" "pos_of self i p" "Suc i < d_size self"
  shows "DequeIterator_NextItemPointer p self = Some (DequeIterator_Next p self)"
    "pos_of self (Suc i) (DequeIterator_Next p self)"
proof -
  show "pos_of self (Suc i) (DequeIterator_Next p self)" by (rule pos_of_next [OF assms])
  have "DequeIterator_HasNext p self" using HasNext_pos [OF assms(1,2)] assms(3) by simp
  then show "DequeIterator_NextItemPointer p self = Some (DequeIterator_Next p self)"
    by (simp add: DequeIterator_NextItemPointer_def DequeIterator_Next_def)
qed

lemma deque_holds_ok: "deque_holds self xs \<Longrightarrow> deq_ok self"
  by (simp add: deque_holds_def)

lemma llrot_loop_holds:
  "deque_holds self xs \<Longrightarrow> pos_of self i iter \<Longrightarrow> i + n < length xs \<Longrightarrow>
    \<exists>self' iter'. llrot_loop n self iter = Some (self', iter') \<and> deque_holds self' (shl n i xs) \<and> pos_of self' (i + n) iter'"
proof (induction n arbitrary: self i iter xs)
  case (Suc n)
  note ok = deque_holds_ok [OF Suc.prems(1)] and sz = deque_holds_size [OF Suc.prems(1)]
  have lt: "Suc i < d_size self" "i < length xs" "Suc i < length xs" using Suc.prems(3) sz by simp_all
  note nx = NextItemPointer_pos [OF ok Suc.prems(2) lt(1)]
  have "item_at self (DequeIterator_Next iter self) = Some (xs ! Suc i)" by (rule item_at_pos [OF Suc.prems(1) nx(2) lt(3)])
  moreover have "deque_holds (item_put self iter (Some (xs ! Suc i))) (xs[i := xs ! Suc i])"
    by (rule item_put_pos [OF Suc.prems(1,2) lt(2)])
  from Suc.IH [OF this, of "Suc i" "DequeIterator_Next iter self"]
  have "\<exists>self' iter'. llrot_loop n (item_put self iter (Some (xs ! Suc i))) (DequeIterator_Next iter self) = Some (self', iter')
      \<and> deque_holds self' (shl (Suc n) i xs) \<and> pos_of self' (i + Suc n) iter'"
    using nx(2) Suc.prems(3) by simp
  ultimately show ?case using nx(1) by simp
qed auto

lemma lrrot_loop_holds:
  "deque_holds self xs \<Longrightarrow> pos_of self i iter \<Longrightarrow> i + n < length xs \<Longrightarrow>
    \<exists>self'. lrrot_loop n self iter t = Some (self', snd (chain_up n i t xs)) \<and> deque_holds self' (fst (chain_up n i t xs))
      \<and> (\<forall>j p. pos_of self' j p \<longleftrightarrow> pos_of self j p)"
proof (induction n arbitrary: self i iter xs t)
  case (Suc n)
  note ok = deque_holds_ok [OF Suc.prems(1)] and sz = deque_holds_size [OF Suc.prems(1)]
  have lt: "Suc i < d_size self" "Suc i < length xs" using Suc.prems(3) sz by simp_all
  let ?p = "DequeIterator_Next iter self"
  have p: "pos_of self (Suc i) ?p" by (rule pos_of_next [OF ok Suc.prems(2) lt(1)])
  have "item_at self ?p = Some (xs ! Suc i)" by (rule item_at_pos [OF Suc.prems(1) p lt(2)])
  moreover have "deque_holds (item_put self ?p (Some t)) (xs[Suc i := t])" by (rule item_put_pos [OF Suc.prems(1) p lt(2)])
  from Suc.IH [OF this, of "Suc i" ?p "xs ! Suc i"]
  have "\<exists>self'. lrrot_loop n (item_put self ?p (Some t)) ?p (xs ! Suc i) = Some (self', snd (chain_up (Suc n) i t xs))
      \<and> deque_holds self' (fst (chain_up (Suc n) i t xs)) \<and> (\<forall>j q. pos_of self' j q \<longleftrightarrow> pos_of self j q)"
    using p Suc.prems(3) by simp
  ultimately show ?case by (simp add: Let_def)
qed auto

lemma rlrot_loop_holds:
  "deque_holds self xs \<Longrightarrow> pos_of self i iter \<Longrightarrow> n \<le> i \<Longrightarrow> i < length xs \<Longrightarrow>
    \<exists>self'. rlrot_loop n self iter t = Some (self', snd (chain_down n i t xs)) \<and> deque_holds self' (fst (chain_down n i t xs))
      \<and> (\<forall>j p. pos_of self' j p \<longleftrightarrow> pos_of self j p)"
proof (induction n arbitrary: self i iter xs t)
  case (Suc n)
  note ok = deque_holds_ok [OF Suc.prems(1)]
  obtain k where k: "i = Suc k" using Suc.prems(3) by (cases i) auto
  let ?p = "DequeIterator_Prev iter self"
  have p: "pos_of self k ?p" by (rule pos_of_prev [OF ok]) (use Suc.prems(2) k in simp)
  have lt: "k < length xs" using Suc.prems(4) k by simp
  have "item_at self ?p = Some (xs ! k)" by (rule item_at_pos [OF Suc.prems(1) p lt])
  moreover have "deque_holds (item_put self ?p (Some t)) (xs[k := t])" by (rule item_put_pos [OF Suc.prems(1) p lt])
  from Suc.IH [OF this, of k ?p "xs ! k"]
  have "\<exists>self'. rlrot_loop n (item_put self ?p (Some t)) ?p (xs ! k) = Some (self', snd (chain_down (Suc n) i t xs))
      \<and> deque_holds self' (fst (chain_down (Suc n) i t xs)) \<and> (\<forall>j q. pos_of self' j q \<longleftrightarrow> pos_of self j q)"
    using p Suc.prems(3) k lt by simp
  ultimately show ?case by (simp add: Let_def)
qed auto

lemma rrrot_loop_holds:
  "deque_holds self xs \<Longrightarrow> pos_of self i iter \<Longrightarrow> n \<le> i \<Longrightarrow> i < length xs \<Longrightarrow>
    \<exists>self' iter'. rrrot_loop n self iter = Some (self', iter') \<and> deque_holds self' (shr n i xs) \<and> pos_of self' (i - n) iter'"
proof (induction n arbitrary: self i iter xs)
  case (Suc n)
  note ok = deque_holds_ok [OF Suc.prems(1)] and sz = deque_holds_size [OF Suc.prems(1)]
  obtain k where k: "i = Suc k" using Suc.prems(3) by (cases i) auto
  let ?p = "DequeIterator_Prev iter self"
  have p: "pos_of self k ?p" by (rule pos_of_prev [OF ok]) (use Suc.prems(2) k in simp)
  have lt: "k < length xs" "Suc k < length xs" "Suc k < d_size self" using Suc.prems(4) k sz by simp_all
  have item: "item_at self ?p = Some (xs ! k)" by (rule item_at_pos [OF Suc.prems(1) p lt(1)])
  note nx = NextItemPointer_pos [OF ok p lt(3)]
  have "deque_holds (item_put self (DequeIterator_Next ?p self) (Some (xs ! k))) (xs[Suc k := xs ! k])"
    by (rule item_put_pos [OF Suc.prems(1) nx(2) lt(2)])
  from Suc.IH [OF this, of k ?p]
  have "\<exists>self' iter'. rrrot_loop n (item_put self (DequeIterator_Next ?p self) (Some (xs ! k))) ?p = Some (self', iter')
      \<and> deque_holds self' (shr (Suc n) i xs) \<and> pos_of self' (i - Suc n) iter'"
    using p Suc.prems(3) k lt by simp
  then show ?case using item nx(1) by (simp add: Let_def)
qed auto

text \<open>The four rotations rotate one item less than they are asked to.\<close>

lemma llrot_unlocked_holds:
  assumes "deque_holds self xs" "n \<le> length xs"
  shows "\<exists>self'. Deque_llrot_unlocked self n = Some self' \<and> deque_holds self' (first_left (n - 1) xs)"
proof (cases "2 \<le> n")
  case False
  then have "n - 1 = 0" "n \<le> 1" by simp_all
  then show ?thesis using assms(1) by (simp add: Deque_llrot_unlocked_def)
next
  case True
  then have ne: "xs \<noteq> []" using assms(2) by auto
  note ok = deque_holds_ok [OF assms(1)] and sz = deque_holds_size [OF assms(1)]
  have pos: "pos_of self 0 (DequeIterator_InitBegin self)" by (rule pos_of_begin [OF ok]) (use True assms(2) sz in auto)
  have item: "item_at self (DequeIterator_InitBegin self) = Some (xs ! 0)"
    by (rule item_at_pos [OF assms(1) pos]) (use ne in simp)
  have "0 + (n - 2) < length xs" using True assms(2) by simp
  from llrot_loop_holds [OF assms(1) pos this] obtain self' iter' where
    l: "llrot_loop (n - 2) self (DequeIterator_InitBegin self) = Some (self', iter')"
      "deque_holds self' (shl (n - 2) 0 xs)" "pos_of self' (n - 2) iter'" by auto
  have "deque_holds (item_put self' iter' (Some (xs ! 0))) ((shl (n - 2) 0 xs)[n - 2 := xs ! 0])"
    by (rule item_put_pos [OF l(2,3)]) (use True assms(2) in simp)
  then show ?thesis using l(1) item True assms(2) sz shl_rotates [OF True assms(2)]
    by (simp add: Deque_llrot_unlocked_def ne)
qed

lemma lrrot_unlocked_holds:
  assumes "deque_holds self xs" "n \<le> length xs"
  shows "\<exists>self'. Deque_lrrot_unlocked self n = Some self' \<and> deque_holds self' (first_right (n - 1) xs)"
proof (cases "2 \<le> n")
  case False
  then have "n - 1 = 0" "n \<le> 1" by simp_all
  then show ?thesis using assms(1) by (simp add: Deque_lrrot_unlocked_def)
next
  case True
  then have ne: "xs \<noteq> []" using assms(2) by auto
  note ok = deque_holds_ok [OF assms(1)] and sz = deque_holds_size [OF assms(1)]
  have pos: "pos_of self 0 (DequeIterator_InitBegin self)" by (rule pos_of_begin [OF ok]) (use True assms(2) sz in auto)
  have item: "item_at self (DequeIterator_InitBegin self) = Some (xs ! 0)"
    by (rule item_at_pos [OF assms(1) pos]) (use ne in simp)
  have "0 + (n - 2) < length xs" using True assms(2) by simp
  from lrrot_loop_holds [OF assms(1) pos this, of "xs ! 0"] obtain self' where
    l: "lrrot_loop (n - 2) self (DequeIterator_InitBegin self) (xs ! 0) = Some (self', snd (chain_up (n - 2) 0 (xs ! 0) xs))"
      "deque_holds self' (fst (chain_up (n - 2) 0 (xs ! 0) xs))" by blast
  have "pos_of self' 0 (DequeIterator_InitBegin self')"
    by (rule pos_of_begin [OF deque_holds_ok [OF l(2)]]) (use True assms(2) deque_holds_size [OF l(2)] in auto)
  then have "deque_holds (item_put self' (DequeIterator_InitBegin self') (Some (snd (chain_up (n - 2) 0 (xs ! 0) xs))))
      ((fst (chain_up (n - 2) 0 (xs ! 0) xs))[0 := snd (chain_up (n - 2) 0 (xs ! 0) xs)])"
    by (rule item_put_pos [OF l(2)]) (use ne in simp)
  then show ?thesis using l(1) item True assms(2) sz chain_up_rotates [OF True assms(2)]
    by (simp add: Deque_lrrot_unlocked_def ne)
qed

lemma rlrot_unlocked_holds:
  assumes "deque_holds self xs" "n \<le> length xs"
  shows "\<exists>self'. Deque_rlrot_unlocked self n = Some self' \<and> deque_holds self' (last_left (n - 1) xs)"
proof (cases "2 \<le> n")
  case False
  then have "n - 1 = 0" "n \<le> 1" by simp_all
  then show ?thesis using assms(1) by (simp add: Deque_rlrot_unlocked_def)
next
  case True
  let ?l = "length xs - 1"
  note ok = deque_holds_ok [OF assms(1)] and sz = deque_holds_size [OF assms(1)]
  have "pos_of self (d_size self - 1) (DequeIterator_InitRBegin self)" by (rule pos_of_rbegin [OF ok]) (use True assms(2) sz in auto)
  then have pos: "pos_of self ?l (DequeIterator_InitRBegin self)" using sz by simp
  have lt: "?l < length xs" "n - 2 \<le> ?l" using True assms(2) by simp_all
  have item: "item_at self (DequeIterator_InitRBegin self) = Some (xs ! ?l)" by (rule item_at_pos [OF assms(1) pos lt(1)])
  let ?c = "chain_down (n - 2) ?l (xs ! ?l) xs"
  from rlrot_loop_holds [OF assms(1) pos lt(2,1), of "xs ! ?l"] obtain self' where
    l: "rlrot_loop (n - 2) self (DequeIterator_InitRBegin self) (xs ! ?l) = Some (self', snd ?c)" "deque_holds self' (fst ?c)" by blast
  have "pos_of self' (d_size self' - 1) (DequeIterator_InitRBegin self')"
    by (rule pos_of_rbegin [OF deque_holds_ok [OF l(2)]]) (use True assms(2) deque_holds_size [OF l(2)] in auto)
  then have "pos_of self' ?l (DequeIterator_InitRBegin self')" using deque_holds_size [OF l(2)] by simp
  then have "deque_holds (item_put self' (DequeIterator_InitRBegin self') (Some (snd ?c))) ((fst ?c)[?l := snd ?c])"
    by (rule item_put_pos [OF l(2)]) (use lt in simp)
  then show ?thesis using l(1) item True assms(2) sz chain_down_rotates [OF True assms(2)]
    by (simp add: Deque_rlrot_unlocked_def)
qed

lemma rrrot_unlocked_holds:
  assumes "deque_holds self xs" "n \<le> length xs"
  shows "\<exists>self'. Deque_rrrot_unlocked self n = Some self' \<and> deque_holds self' (last_right (n - 1) xs)"
proof (cases "2 \<le> n")
  case False
  then have "n - 1 = 0" "n \<le> 1" by simp_all
  then show ?thesis using assms(1) by (simp add: Deque_rrrot_unlocked_def)
next
  case True
  let ?l = "length xs - 1"
  note ok = deque_holds_ok [OF assms(1)] and sz = deque_holds_size [OF assms(1)]
  have "pos_of self (d_size self - 1) (DequeIterator_InitRBegin self)" by (rule pos_of_rbegin [OF ok]) (use True assms(2) sz in auto)
  then have pos: "pos_of self ?l (DequeIterator_InitRBegin self)" using sz by simp
  have lt: "?l < length xs" "n - 2 \<le> ?l" using True assms(2) by simp_all
  have item: "item_at self (DequeIterator_InitRBegin self) = Some (xs ! ?l)" by (rule item_at_pos [OF assms(1) pos lt(1)])
  from rrrot_loop_holds [OF assms(1) pos lt(2,1)] obtain self' iter' where
    l: "rrrot_loop (n - 2) self (DequeIterator_InitRBegin self) = Some (self', iter')"
      "deque_holds self' (shr (n - 2) ?l xs)" "pos_of self' (?l - (n - 2)) iter'" by blast
  have "deque_holds (item_put self' iter' (Some (xs ! ?l))) ((shr (n - 2) ?l xs)[?l - (n - 2) := xs ! ?l])"
    by (rule item_put_pos [OF l(2,3)]) (use lt in simp)
  then show ?thesis using l(1) item True assms(2) sz shr_rotates [OF True assms(2)]
    by (simp add: Deque_rrrot_unlocked_def)
qed

text \<open>
  Insertion and removal: the place at which an item really is inserted, and the item that really is
  removed with the items that are left.
\<close>

definition insert_place :: "nat \<Rightarrow> 'a list \<Rightarrow> nat" where
  "insert_place i xs = (if i = 0 then 0 else if i < length xs div 2 then i - 1 else i + 1)"

definition pop_place :: "nat \<Rightarrow> 'a list \<Rightarrow> nat" where
  "pop_place i xs =
     (if i = 0 then 0 else if i < length xs div 2 then (if i = 1 then 0 else 1)
      else if i + 2 < length xs then length xs - 2 else length xs - 1)"

definition pop_rest :: "nat \<Rightarrow> 'a list \<Rightarrow> 'a list" where
  "pop_rest i xs =
     (if i = 0 then tl xs else if i < length xs div 2 then tl (first_left i xs)
      else butlast (last_right (length xs - 1 - i) xs))"

lemma first_left_insert: "0 < i \<Longrightarrow> first_left i (x # xs) = take (i - 1) xs @ x # drop (i - 1) xs"
  by (cases i) (simp_all add: first_left_def)

lemma last_right_insert:
  "i \<le> length xs \<Longrightarrow> last_right (length xs - i) (xs @ [x]) = take (i + 1) xs @ x # drop (i + 1) xs"
  by (cases "i = length xs") (auto simp: last_right_def rotate_right_def Suc_diff_le)

lemma hd_first_left:
  assumes "0 < i" "i < length xs"
  shows "hd (first_left i xs) = xs ! (if i = 1 then 0 else 1)"
proof -
  have ne: "xs \<noteq> []" using assms(2) by auto
  then have "first_left i xs \<noteq> []" using length_rotations(1) [of i xs] by (metis length_0_conv)
  then show ?thesis using nth_first_left [of i xs 0] assms ne by (auto simp: hd_conv_nth)
qed

lemma last_last_right:
  assumes "0 < i" "i < length xs"
  shows "last (last_right (length xs - 1 - i) xs) = xs ! (if i + 2 < length xs then length xs - 2 else length xs - 1)"
proof -
  have "xs \<noteq> []" using assms(2) by auto
  then have ne: "last_right (length xs - 1 - i) xs \<noteq> []"
    using length_rotations(4) [of "length xs - 1 - i" xs] by (metis length_0_conv)
  have "last (last_right (length xs - 1 - i) xs) = last_right (length xs - 1 - i) xs ! (length xs - 1)"
    using last_conv_nth [OF ne] by simp
  also have "\<dots> = xs ! (if i + 2 < length xs then length xs - 2 else length xs - 1)"
    using nth_last_right [of "length xs - 1 - i" xs "length xs - 1"] assms by (auto simp: numeral_2_eq_2)
  finally show ?thesis .
qed

lemma Insert_unlocked_holds:
  assumes "deque_holds self xs" "i \<le> length xs"
  shows "(\<exists>self'. Deque_Insert_unlocked m self i x = Some (True, self')
      \<and> deque_holds self' (take (insert_place i xs) xs @ x # drop (insert_place i xs) xs))
    \<or> (\<not> m \<and> (\<exists>self'. Deque_Insert_unlocked m self i x = Some (False, self')))"
proof -
  note sz = deque_holds_size [OF assms(1)]
  have at_front: "(\<exists>self'. Deque_PushFront_unlocked m self x = Some (True, self') \<and> deque_holds self' (x # xs))
      \<or> (\<not> m \<and> Deque_PushFront_unlocked m self x = Some (False, self))"
    using PushFront_unlocked_ok [of self x] PushFront_unlocked_no_memory [of self x] assms(1)
    by (cases m) (auto simp: deque_holds_def)
  have at_back: "(\<exists>self'. Deque_PushBack_unlocked m self x = Some (True, self') \<and> deque_holds self' (xs @ [x]))
      \<or> (\<not> m \<and> Deque_PushBack_unlocked m self x = Some (False, self))"
    using PushBack_unlocked_ok [of self x] PushBack_unlocked_no_memory [of self x] assms(1)
    by (cases m) (auto simp: deque_holds_def)
  consider "i = 0" | "0 < i" "i = length xs - 1" | "0 < i" "i \<noteq> length xs - 1" "i < length xs div 2"
    | "0 < i" "i \<noteq> length xs - 1" "\<not> i < length xs div 2" by linarith
  then show ?thesis
  proof cases
    case 1
    then show ?thesis using at_front by (auto simp: Deque_Insert_unlocked_def insert_place_def)
  next
    case 2
    moreover from 2 have "\<not> i < length xs div 2" "length xs \<le> i + 1" by linarith+
    ultimately show ?thesis using at_back assms(2) sz by (auto simp: Deque_Insert_unlocked_def insert_place_def)
  next
    case 3
    from at_front show ?thesis
    proof (elim disjE exE conjE)
      fix d assume d: "Deque_PushFront_unlocked m self x = Some (True, d)" "deque_holds d (x # xs)"
      have "i + 1 \<le> length (x # xs)" using assms(2) by simp
      from llrot_unlocked_holds [OF d(2) this] obtain d' where
        "Deque_llrot_unlocked d (i + 1) = Some d'" "deque_holds d' (first_left i (x # xs))" by auto
      then show ?thesis using 3 d(1) assms(2) sz
        by (auto simp: Deque_Insert_unlocked_def insert_place_def first_left_insert)
    qed (use 3 assms(2) sz in \<open>auto simp: Deque_Insert_unlocked_def\<close>)
  next
    case 4
    from at_back show ?thesis
    proof (elim disjE exE conjE)
      fix d assume d: "Deque_PushBack_unlocked m self x = Some (True, d)" "deque_holds d (xs @ [x])"
      have n: "d_size d = Suc (length xs)" using deque_holds_size [OF d(2)] by simp
      have "Suc (length xs) - i \<le> length (xs @ [x])" by simp
      from rrrot_unlocked_holds [OF d(2) this] obtain d' where
        d': "Deque_rrrot_unlocked d (Suc (length xs) - i) = Some d'" "deque_holds d' (last_right (length xs - i) (xs @ [x]))"
        by auto
      then show ?thesis using 4 d(1) assms(2) sz n last_right_insert [OF assms(2)]
        by (auto simp: Deque_Insert_unlocked_def insert_place_def)
    qed (use 4 assms(2) sz in \<open>auto simp: Deque_Insert_unlocked_def\<close>)
  qed
qed

lemma Pop_unlocked_holds:
  assumes "deque_holds self xs" "i < length xs"
  shows "\<exists>self'. Deque_Pop_unlocked self i = Some (xs ! pop_place i xs, self') \<and> deque_holds self' (pop_rest i xs)"
proof -
  note sz = deque_holds_size [OF assms(1)]
  have ne: "xs \<noteq> []" using assms(2) by auto
  have first: "\<exists>d'. Deque_PopFront_unlocked d = Some (hd ys, d') \<and> deque_holds d' (tl ys)"
    if "deque_holds d ys" "ys \<noteq> []" for d and ys :: "'a list"
    using PopFront_unlocked_holds [of d "hd ys" "tl ys"] that by simp
  have last: "\<exists>d'. Deque_PopBack_unlocked d = Some (last ys, d') \<and> deque_holds d' (butlast ys)"
    if "deque_holds d ys" "ys \<noteq> []" for d and ys :: "'a list"
    using PopBack_unlocked_holds [of d "butlast ys" "last ys"] that by simp
  consider "i = 0" | "0 < i" "i = length xs - 1" | "0 < i" "i \<noteq> length xs - 1" "i < length xs div 2"
    | "0 < i" "i \<noteq> length xs - 1" "\<not> i < length xs div 2" by linarith
  then show ?thesis
  proof cases
    case 1
    then show ?thesis using first [OF assms(1) ne] sz assms(2) ne
      by (auto simp: Deque_Pop_unlocked_def pop_place_def pop_rest_def hd_conv_nth)
  next
    case 2
    moreover from 2 have "\<not> i < length xs div 2" by linarith
    ultimately show ?thesis using last [OF assms(1) ne] sz assms(2) ne
      by (auto simp: Deque_Pop_unlocked_def pop_place_def pop_rest_def last_conv_nth)
  next
    case 3
    have "i + 1 \<le> length xs" using assms(2) by simp
    from llrot_unlocked_holds [OF assms(1) this] obtain d where
      d: "Deque_llrot_unlocked self (i + 1) = Some d" "deque_holds d (first_left i xs)" by auto
    have "first_left i xs \<noteq> []" using length_rotations(1) [of i xs] ne by (metis length_0_conv)
    from first [OF d(2) this] show ?thesis using 3 d(1) sz assms(2) hd_first_left [OF 3(1) assms(2)]
      by (auto simp: Deque_Pop_unlocked_def pop_place_def pop_rest_def)
  next
    case 4
    have "length xs - i \<le> length xs" by simp
    from rrrot_unlocked_holds [OF assms(1) this] obtain d where
      d: "Deque_rrrot_unlocked self (length xs - i) = Some d" "deque_holds d (last_right (length xs - 1 - i) xs)" by auto
    have "last_right (length xs - 1 - i) xs \<noteq> []"
      using length_rotations(4) [of "length xs - 1 - i" xs] ne by (metis length_0_conv)
    from last [OF d(2) this] show ?thesis using 4 d(1) sz assms(2) last_last_right [OF 4(1) assms(2)]
      by (auto simp: Deque_Pop_unlocked_def pop_place_def pop_rest_def)
  qed
qed

lemma length_pop_rest: "i < length xs \<Longrightarrow> length (pop_rest i xs) = length xs - 1"
  by (simp add: pop_rest_def)

lemma erase_left_front: "deque_holds self xs \<Longrightarrow> n \<le> length xs \<Longrightarrow>
    \<exists>self'. erase_left n self 0 = Some self' \<and> deque_holds self' (drop n xs)"
proof (induction n arbitrary: self xs)
  case (Suc n)
  have lt: "0 < length xs" using Suc.prems(2) by (cases xs) auto
  from Pop_unlocked_holds [OF Suc.prems(1) lt] obtain d where
    d: "Deque_Pop_unlocked self 0 = Some (xs ! pop_place 0 xs, d)" "deque_holds d (tl xs)" by (auto simp: pop_rest_def)
  have "n \<le> length (tl xs)" using Suc.prems(2) by simp
  from Suc.IH [OF d(2) this] d(1) show ?case by (auto simp: drop_Suc)
qed auto

lemma erase_right_fails:
  "deque_holds self xs \<Longrightarrow> length xs + 3 \<le> index + i + 2 * n \<Longrightarrow> 0 < n \<Longrightarrow> erase_right n self index i = None"
proof (induction n arbitrary: self xs i)
  case (Suc n)
  note sz = deque_holds_size [OF Suc.prems(1)]
  show ?case
  proof (cases "index + i - 1 < length xs")
    case False
    then show ?thesis using sz by (simp add: Deque_Pop_unlocked_def)
  next
    case True
    from Pop_unlocked_holds [OF Suc.prems(1) True] obtain d where
      d: "Deque_Pop_unlocked self (index + i - 1) = Some (xs ! pop_place (index + i - 1) xs, d)"
        "deque_holds d (pop_rest (index + i - 1) xs)" by blast
    have len: "length (pop_rest (index + i - 1) xs) = length xs - 1" by (rule length_pop_rest [OF True])
    have "0 < n" using Suc.prems(2) True by (cases n) auto
    moreover have "length (pop_rest (index + i - 1) xs) + 3 \<le> index + (i + 1) + 2 * n"
    proof -
      have "length xs - 1 + 3 \<le> index + (i + 1) + 2 * n"
        using Suc.prems(2) True by (cases "length xs") simp_all
      then show ?thesis using len by simp
    qed
    ultimately have "erase_right n d index (i + 1) = None" using Suc.IH [OF d(2)] by blast
    then show ?thesis using d(1) by simp
  qed
qed simp

lemma retry_stores_or_none:
  assumes "\<And>m. m \<Longrightarrow> attempt m = None" "\<And>m. \<not> m \<Longrightarrow> attempt m = Some (False, self)"
  shows "retry attempt mem = (if True \<in> set mem then None else Some (Inl NoMemory))"
proof (induction mem)
  case (Cons m mem)
  then show ?case using assms(1) [of m] assms(2) [of m] by (cases m) simp_all
qed (simp add: assms(2))

lemma Pop_takes:
  assumes "deque_holds self xs"
  shows "if xs = [] then Deque_Pop self i = Some (Inl EmptySequence)
     else takes (Deque_Pop self i) (xs ! pop_place (min i (length xs - 1)) xs) (pop_rest (min i (length xs - 1)) xs)"
proof (cases "xs = []")
  case False
  then have "min i (length xs - 1) < length xs" by (cases xs) auto
  from Pop_unlocked_holds [OF assms this] show ?thesis using False deque_holds_size [OF assms]
    by (cases "i < length xs") (auto simp: Deque_Pop_def takes_def)
qed (use deque_holds_size [OF assms] in \<open>simp add: Deque_Pop_def\<close>)

lemma Pops_index:
  assumes "deque_holds self xs"
  shows "Deque_Pops self k = (let k' = (if k < 0 then k + int (length xs) else k)
      in if 0 \<le> k' \<and> k' < int (length xs) then Deque_Pop self (nat k')
         else if xs = [] then Some (Inl EmptySequence) else None)"
proof -
  define k' where "k' = (if k < 0 then k + int (length xs) else k)"
  have pops: "Deque_Pops self k = (if k' < 0 \<or> k' \<ge> int (length xs) then
      if d_size self = 0 then Some (Inl EmptySequence) else map_option Inr (Deque_Pop_unlocked self (d_size self))
    else map_option Inr (Deque_Pop_unlocked self (nat k')))"
    by (simp only: Deque_Pops_def Let_def k'_def deque_holds_size [OF assms])
  have "Deque_Pops self k = (if 0 \<le> k' \<and> k' < int (length xs) then Deque_Pop self (nat k')
         else if xs = [] then Some (Inl EmptySequence) else None)"
  proof (cases "0 \<le> k' \<and> k' < int (length xs)")
    case True
    then have "nat k' < length xs" by linarith
    then show ?thesis using True deque_holds_size [OF assms] by (auto simp: pops Deque_Pop_def)
  next
    case False
    then show ?thesis using deque_holds_size [OF assms] by (auto simp: pops Deque_Pop_unlocked_def)
  qed
  then show ?thesis by (simp add: Let_def k'_def)
qed

lemma Pop_misses:
  "if 0 < i \<and> i + 1 < length xs \<and> distinct xs then xs ! pop_place i xs \<noteq> xs ! i else True"
proof (cases "0 < i \<and> i + 1 < length xs")
  case True
  then have "pop_place i xs < length xs" "pop_place i xs \<noteq> i" by (auto simp: pop_place_def)
  then show ?thesis using True by (auto simp: nth_eq_iff_index_eq)
qed auto

lemma Erase_front:
  assumes "deque_holds self xs"
  shows "stores_if_memory mem (Deque_Erase mem self 0 count) (drop count xs)"
proof -
  have r: "(if d_size self - 0 > count then count else d_size self - 0) = min count (length xs)"
    using deque_holds_size [OF assms] by (simp add: min_def)
  have "(if (0::nat) < d_size self - 0 + min count (length xs) then erase_left (min count (length xs)) self 0
      else erase_right (min count (length xs)) self 0 0) = erase_left (min count (length xs)) self 0"
    using deque_holds_size [OF assms] by (cases "xs = []") auto
  then have e: "Deque_Erase mem self 0 count = retry (\<lambda>m. if \<not> m then Some (False, self)
      else map_option (Pair True) (erase_left (min count (length xs)) self 0)) mem"
    unfolding Deque_Erase_def Let_def by (simp only: not_less_zero if_False r)
  have "stores_if_memory mem (Deque_Erase mem self 0 count) (drop (min count (length xs)) xs)"
    unfolding e by (rule retry_stores) (use erase_left_front [OF assms, of "min count (length xs)"] in auto)
  then show ?thesis by (cases "count \<le> length xs") (simp_all add: min_def)
qed

lemma Erase_right:
  assumes "deque_holds self xs"
  shows "if length xs \<le> i + count \<and> i + 3 \<le> length xs \<and> 2 * (length xs - i) \<le> i
     then Deque_Erase mem self i count = (if True \<in> set mem then None else Some (Inl NoMemory)) else True"
proof (cases "length xs \<le> i + count \<and> i + 3 \<le> length xs \<and> 2 * (length xs - i) \<le> i")
  case True
  then have "length xs + 3 \<le> i + 0 + 2 * (length xs - i)" "0 < length xs - i" by linarith+
  from erase_right_fails [OF assms this] have "erase_right (length xs - i) self i 0 = None" .
  then have "retry (\<lambda>m. if \<not> m then Some (False, self) else map_option (Pair True) (erase_right (length xs - i) self i 0)) mem
      = (if True \<in> set mem then None else Some (Inl NoMemory))"
    by (intro retry_stores_or_none) auto
  moreover have "(if i > d_size self then d_size self else i) = i"
      "(if d_size self - i > count then count else d_size self - i) = length xs - i"
      "(i < d_size self - i + (length xs - i)) = False" using True deque_holds_size [OF assms] by auto
  then have "Deque_Erase mem self i count = retry (\<lambda>m. if \<not> m then Some (False, self)
      else map_option (Pair True) (erase_right (length xs - i) self i 0)) mem"
    unfolding Deque_Erase_def Let_def by (simp only: if_False)
  ultimately show ?thesis by simp
qed auto

section \<open>Properties\<close>

text \<open>
  C8: The four rotations of \<open>n\<close> items at one end, to the left or to the right, rotate only \<open>n - 1\<close>
  items: their loops run \<open>n - 2\<close> times.  The deque stays well-formed, and more items than there are
  is the documented error.
\<close>

theorem deque_rotations_characterized:
  assumes "deque_holds self xs"
  shows "if length xs < n
    then Deque_llrot self n = Some (Inl (IndexOutOfBounds n (length xs)))
      \<and> Deque_lrrot self n = Some (Inl (IndexOutOfBounds n (length xs)))
      \<and> Deque_rlrot self n = Some (Inl (IndexOutOfBounds n (length xs)))
      \<and> Deque_rrrot self n = Some (Inl (IndexOutOfBounds n (length xs)))
    else (\<exists>self'. Deque_llrot self n = Some (Inr self') \<and> deque_holds self' (first_left (n - 1) xs))
      \<and> (\<exists>self'. Deque_lrrot self n = Some (Inr self') \<and> deque_holds self' (first_right (n - 1) xs))
      \<and> (\<exists>self'. Deque_rlrot self n = Some (Inr self') \<and> deque_holds self' (last_left (n - 1) xs))
      \<and> (\<exists>self'. Deque_rrrot self n = Some (Inr self') \<and> deque_holds self' (last_right (n - 1) xs))"
proof (cases "length xs < n")
  case False
  then have "n \<le> length xs" by simp
  note holds = llrot_unlocked_holds [OF assms this] lrrot_unlocked_holds [OF assms this]
    rlrot_unlocked_holds [OF assms this] rrrot_unlocked_holds [OF assms this]
  show ?thesis using False holds deque_holds_size [OF assms]
    by (auto simp: Deque_llrot_def Deque_lrrot_def Deque_rlrot_def Deque_rrrot_def Deque_rot_def)
qed (simp add: Deque_llrot_def Deque_lrrot_def Deque_rlrot_def Deque_rrrot_def Deque_rot_def deque_holds_size [OF assms])

lemma Insert_holds:
  assumes "deque_holds self xs"
  shows "stores_if_memory mem (Deque_Insert mem self i x) (take (insert_place i xs) xs @ x # drop (insert_place i xs) xs)"
proof -
  define j where "j = (if i > length xs then length xs else i)"
  have "insert_place j xs = insert_place i xs \<or> (length xs \<le> insert_place j xs \<and> length xs \<le> insert_place i xs)
      \<or> xs = []"
    by (auto simp: j_def insert_place_def)
  then have place: "take (insert_place j xs) xs @ x # drop (insert_place j xs) xs
      = take (insert_place i xs) xs @ x # drop (insert_place i xs) xs" by auto
  have "j \<le> length xs" by (simp add: j_def)
  note holds = Insert_unlocked_holds [OF assms this, of _ x]
  have "stores_if_memory mem (retry (\<lambda>m. Deque_Insert_unlocked m self j x) mem)
      (take (insert_place j xs) xs @ x # drop (insert_place j xs) xs)"
    by (rule retry_stores) (use holds [of True] holds [of False] in auto)
  then show ?thesis using place deque_holds_size [OF assms]
    unfolding Deque_Insert_def Let_def j_def by metis
qed

text \<open>
  C9: Insertion and removal by index.  Insertion stores the item exactly once and keeps the order of the
  others, unless memory is exhausted, but not where it should: only index 0 and an index at or behind
  the end are right; left of the middle the item ends up one place too far left, and right of it one
  too far right.  \<open>Deque_Pop\<close> removes one item and never fails on a deque with items, but
  strictly inside the deque it takes another item than the one asked for; \<open>Deque_Pops\<close>, which counts
  a negative index from the end, is undefined when its index is out of bounds.  Erasing from the front
  removes the items asked for; erasing three or more items up to the end of the deque from an index
  far enough to the right pops behind the end.
\<close>

theorem deque_insert_pop_characterized:
  assumes "deque_holds self xs"
  shows "stores_if_memory mem (Deque_Insert mem self i x) (take (insert_place i xs) xs @ x # drop (insert_place i xs) xs)
    \<and> (if xs = [] then Deque_Pop self i = Some (Inl EmptySequence)
       else takes (Deque_Pop self i) (xs ! pop_place (min i (length xs - 1)) xs) (pop_rest (min i (length xs - 1)) xs))
    \<and> Deque_Pops self k = (let k' = (if k < 0 then k + int (length xs) else k)
        in if 0 \<le> k' \<and> k' < int (length xs) then Deque_Pop self (nat k')
           else if xs = [] then Some (Inl EmptySequence) else None)
    \<and> (if 0 < i \<and> i + 1 < length xs \<and> distinct xs then xs ! pop_place i xs \<noteq> xs ! i else True)
    \<and> stores_if_memory mem (Deque_Erase mem self 0 count) (drop count xs)
    \<and> (if length xs \<le> i + count \<and> i + 3 \<le> length xs \<and> 2 * (length xs - i) \<le> i
       then Deque_Erase mem self i count = (if True \<in> set mem then None else Some (Inl NoMemory)) else True)"
  by (intro conjI Insert_holds [OF assms] Pop_takes [OF assms] Pops_index [OF assms] Pop_misses Erase_front [OF assms] Erase_right [OF assms])

theorem deque_rotations_characterized_witness:
  "\<exists>self'. Deque_llrot \<lparr>d_buckets = [[None, Some (1::int)], [Some 2, Some 3]], d_size = 3, d_head_idx = 1, d_head_use = 1,
     d_tail_sz = 2, d_bucket_sz = 2, d_version = 3\<rparr> 3 = Some (Inr self') \<and> deque_holds self' [2, 1, 3]"
proof -
  have "deque_holds \<lparr>d_buckets = [[None, Some (1::int)], [Some 2, Some 3]], d_size = 3, d_head_idx = 1, d_head_use = 1,
     d_tail_sz = 2, d_bucket_sz = 2, d_version = 3\<rparr> [1, 2, 3]"
    by (simp add: deque_holds_def deq_ok_def deq_slots_def)
  from deque_rotations_characterized [OF this, of 3] show ?thesis by (simp add: first_left_def)
qed

theorem deque_insert_pop_characterized_witness:
  "takes (Deque_Pop \<lparr>d_buckets = [[None, Some (1::int)], [Some 2, Some 3]], d_size = 3,
     d_head_idx = 1, d_head_use = 1, d_tail_sz = 2, d_bucket_sz = 2, d_version = 3\<rparr> 1) 3 [1, 2]
   \<and> stores_if_memory [True] (Deque_Insert [True] \<lparr>d_buckets = [[None, Some (1::int)], [Some 2, Some 3]], d_size = 3,
     d_head_idx = 1, d_head_use = 1, d_tail_sz = 2, d_bucket_sz = 2, d_version = 3\<rparr> 1 7) [1, 2, 7, 3]"
proof -
  have "deque_holds \<lparr>d_buckets = [[None, Some (1::int)], [Some 2, Some 3]], d_size = 3, d_head_idx = 1, d_head_use = 1,
     d_tail_sz = 2, d_bucket_sz = 2, d_version = 3\<rparr> [1, 2, 3]"
    by (simp add: deque_holds_def deq_ok_def deq_slots_def)
  from deque_insert_pop_characterized [OF this, of "[True]" 1 7] show ?thesis
    by (simp add: pop_place_def pop_rest_def last_right_def rotate_right_def insert_place_def)
qed

end
