(* ===== verification/SeqSort.thy ===== *)
theory SeqSort
  imports IntCompare "HOL-Library.Multiset" "HOL-Library.Option_ord"
begin

text \<open>
  Sorting: the template src/deemon/objects/seq/sort-impl.c.inl that seq/sort.c instantiates, and its
  callers in objects/list.c, objects/tuple.c and method-hints/seq_sorted.h.

  An item is an object or the marker of an unbound item, \<open>None\<close>.  The callbacks are parameters:
  \<open>getitem\<close> reads an item of the source (the vector, the fast and the checking accessor of the
  template), \<open>lo\<close> is \<open>DeeObject_CmpLoAsBool\<close>, \<open>key\<close> the call of the key function; each may
  raise an error of the user.  \<open>dst\<close> and \<open>scratch\<close> are the two buffers; the pointers of a
  recursive call into both are always at the same offset, which is also that into the source.
  \<open>Undefined\<close> is a marker passed to a callback, which dereferences it.
\<close>

section \<open>Results and items\<close>

datatype ('e, 'a) outcome = Done 'a | Failed 'e | Undefined

fun lift :: "'e + 'a \<Rightarrow> ('e, 'a) outcome" where
  "lift (Inl e) = Failed e"
| "lift (Inr x) = Done x"

fun bind :: "('e, 'a) outcome \<Rightarrow> ('a \<Rightarrow> ('e, 'b) outcome) \<Rightarrow> ('e, 'b) outcome" where
  "bind (Done x) f = f x"
| "bind (Failed e) f = Failed e"
| "bind Undefined f = Undefined"

type_synonym 'a item = "'a option"

text \<open>\<open>DeeObject_CmpLoAsBoolWithKey\<close>\<close>

definition CmpLoAsBoolWithKey ::
  "('a \<Rightarrow> 'e + 'k) \<Rightarrow> ('k \<Rightarrow> 'k \<Rightarrow> 'e + bool) \<Rightarrow> 'a \<Rightarrow> 'a \<Rightarrow> 'e + bool" where
  "CmpLoAsBoolWithKey key lo lhs rhs =
     (case key lhs of
        Inl e \<Rightarrow> Inl e
      | Inr lhs \<Rightarrow> (case key rhs of Inl e \<Rightarrow> Inl e | Inr rhs \<Rightarrow> lo lhs rhs))"

text \<open>The comparisons that look for the marker first, and those that do not.\<close>

fun unbound_lo :: "('a \<Rightarrow> 'a \<Rightarrow> 'e + bool) \<Rightarrow> 'a item \<Rightarrow> 'a item \<Rightarrow> 'e + bool" where
  "unbound_lo lo None src1 = Inr (src1 \<noteq> None)"
| "unbound_lo lo (Some a) None = Inr False"
| "unbound_lo lo (Some a) (Some b) = lo a b"

fun direct_lo :: "('a \<Rightarrow> 'a \<Rightarrow> 'e + bool) \<Rightarrow> 'a item \<Rightarrow> 'a item \<Rightarrow> ('e, bool) outcome" where
  "direct_lo lo (Some a) (Some b) = lift (lo a b)"
| "direct_lo lo _ _ = Undefined"

text \<open>\<open>memcpyc(&dst[d], &src[i], n)\<close> and \<open>memmoveupc(&dst[j + 1], &dst[j], n); dst[j] = ob\<close>\<close>

definition memcpyc :: "'s list \<Rightarrow> nat \<Rightarrow> 's list \<Rightarrow> nat \<Rightarrow> nat \<Rightarrow> 's list" where
  "memcpyc dst d src i n = take d dst @ take n (drop i src) @ drop (d + n) dst"

definition insert_at :: "'s list \<Rightarrow> nat \<Rightarrow> nat \<Rightarrow> 's \<Rightarrow> 's list" where
  "insert_at dst j n ob = (memcpyc dst (j + 1) dst j n)[j := ob]"

section \<open>Merge sort\<close>

text \<open>
  The merging loop from \<open>scratch\<close> to \<open>dst\<close> and the copy of the rest.  An item of the first half
  is taken only if it is lower.
\<close>

function merge_loop ::
  "('s \<Rightarrow> 's \<Rightarrow> 'e + bool) \<Rightarrow> 's list \<Rightarrow> 's list \<Rightarrow> nat \<Rightarrow> nat \<Rightarrow> nat \<Rightarrow> nat \<Rightarrow> nat \<Rightarrow> ('e, 's list) outcome" where
  "merge_loop lo scratch dst d iter1 s1 iter2 s2 =
     (if s1 \<noteq> 0 \<and> s2 \<noteq> 0
      then bind (lift (lo (scratch ! iter1) (scratch ! iter2))) (\<lambda>lower.
             if lower
             then merge_loop lo scratch (dst[d := scratch ! iter1]) (d + 1) (iter1 + 1) (s1 - 1) iter2 s2
             else merge_loop lo scratch (dst[d := scratch ! iter2]) (d + 1) iter1 s1 (iter2 + 1) (s2 - 1))
      else if s1 \<noteq> 0 then Done (memcpyc dst d scratch iter1 s1)
      else if s2 \<noteq> 0 then Done (memcpyc dst d scratch iter2 s2)
      else Done dst)"
  by pat_completeness auto
termination by (relation "measure (\<lambda>(lo, scratch, dst, d, i1, s1, i2, s2). s1 + s2)") auto

declare merge_loop.simps [simp del]

text \<open>
  \<open>LOCAL_mergesort_impl\<close>: the buffers \<open>dst\<close> and \<open>scratch\<close> afterwards.  No call has \<open>objc = 0\<close>,
  for which the recursion would not end.
\<close>

function mergesort_impl ::
  "(nat \<Rightarrow> 'e + 'a item) \<Rightarrow> ('a \<Rightarrow> 'a \<Rightarrow> 'e + bool) \<Rightarrow> nat \<Rightarrow> 'a item list \<Rightarrow> 'a item list \<Rightarrow> nat
   \<Rightarrow> ('e, 'a item list \<times> 'a item list) outcome" where
  "mergesort_impl getitem lo objc dst scratch off =
     (if objc = 0 then Undefined
      else if objc = 1
      then bind (lift (getitem off)) (\<lambda>src0. Done (dst[off := src0], scratch))
      else if objc = 2
      then bind (lift (getitem off)) (\<lambda>src0.
           bind (lift (getitem (off + 1))) (\<lambda>src1.
           bind (lift (unbound_lo lo src0 src1)) (\<lambda>src0_lo_src1.
             Done (if src0_lo_src1 then dst[off := src0, off + 1 := src1]
                   else dst[off := src1, off + 1 := src0], scratch))))
      else let s1 = objc div 2; s2 = objc - s1
           in bind (mergesort_impl getitem lo s1 scratch dst off) (\<lambda>(scratch, dst).
              bind (mergesort_impl getitem lo s2 scratch dst (off + s1)) (\<lambda>(scratch, dst).
              bind (merge_loop (unbound_lo lo) scratch dst off off s1 (off + s1) s2) (\<lambda>dst.
                Done (dst, scratch)))))"
  by pat_completeness auto
termination by (relation "measure (\<lambda>(g, lo, objc, dst, scratch, off). objc)") auto

declare mergesort_impl.simps [simp del]

text \<open>
  \<open>LOCAL_mergesort_impl_with_key_cache\<close>: \<open>dst\<close> and \<open>dst_keyed\<close> are always indexed alike, as are
  the scratch buffers, so a slot of the model is the pair of an item and its key.
\<close>

definition keyed_item :: "('a \<Rightarrow> 'e + 'k) \<Rightarrow> 'a item \<Rightarrow> 'e + 'a item \<times> 'k item" where
  "keyed_item key src =
     (case src of
        None \<Rightarrow> Inr (None, None)
      | Some ob \<Rightarrow> map_sum id (\<lambda>k. (Some ob, Some k)) (key ob))"

function mergesort_impl_with_key_cache ::
  "(nat \<Rightarrow> 'e + 'a item) \<Rightarrow> ('a \<Rightarrow> 'e + 'k) \<Rightarrow> ('k \<Rightarrow> 'k \<Rightarrow> 'e + bool) \<Rightarrow> nat
   \<Rightarrow> ('a item \<times> 'k item) list \<Rightarrow> ('a item \<times> 'k item) list \<Rightarrow> nat
   \<Rightarrow> ('e, ('a item \<times> 'k item) list \<times> ('a item \<times> 'k item) list) outcome" where
  "mergesort_impl_with_key_cache getitem key lo objc dst scratch off =
     (if objc = 0 then Undefined
      else if objc = 1
      then bind (lift (getitem off)) (\<lambda>src0.
           bind (lift (keyed_item key src0)) (\<lambda>slot0. Done (dst[off := slot0], scratch)))
      else if objc = 2
      then bind (lift (getitem off)) (\<lambda>src0.
           bind (lift (getitem (off + 1))) (\<lambda>src1.
           bind (lift (keyed_item key src0)) (\<lambda>slot0.
           bind (lift (keyed_item key src1)) (\<lambda>slot1.
           bind (lift (unbound_lo lo (snd slot0) (snd slot1))) (\<lambda>src0_lo_src1.
             Done (if src0_lo_src1 then dst[off := slot0, off + 1 := slot1]
                   else dst[off := slot1, off + 1 := slot0], scratch))))))
      else let s1 = objc div 2; s2 = objc - s1
           in bind (mergesort_impl_with_key_cache getitem key lo s1 scratch dst off) (\<lambda>(scratch, dst).
              bind (mergesort_impl_with_key_cache getitem key lo s2 scratch dst (off + s1)) (\<lambda>(scratch, dst).
              bind (merge_loop (\<lambda>x y. unbound_lo lo (snd x) (snd y)) scratch dst off off s1 (off + s1) s2)
                (\<lambda>dst. Done (dst, scratch)))))"
  by pat_completeness auto
termination by (relation "measure (\<lambda>(g, key, lo, objc, dst, scratch, off). objc)") auto

declare mergesort_impl_with_key_cache.simps [simp del]

section \<open>Insertion sort\<close>

text \<open>
  \<open>LOCAL_insertsort_impl\<close> without and with a key.  With a key, the key of the new item is
  computed and then not used: the item itself is compared with the key of the slot.
\<close>

function insert_index ::
  "('a \<Rightarrow> 'a item \<Rightarrow> ('e, bool) outcome) \<Rightarrow> 'a \<Rightarrow> 'a item list \<Rightarrow> nat \<Rightarrow> nat \<Rightarrow> ('e, nat) outcome" where
  "insert_index below ob dst j i =
     (if j < i
      then bind (below ob (dst ! j)) (\<lambda>temp. if temp then Done j else insert_index below ob dst (j + 1) i)
      else Done j)"
  by pat_completeness auto
termination by (relation "measure (\<lambda>(below, ob, dst, j, i). i - j)") auto

declare insert_index.simps [simp del]

definition insert_position ::
  "('a \<Rightarrow> ('e, 'a \<Rightarrow> 'a item \<Rightarrow> ('e, bool) outcome) outcome) \<Rightarrow> 'a item list \<Rightarrow> nat \<Rightarrow> 'a item
   \<Rightarrow> ('e, nat) outcome" where
  "insert_position start dst i ob =
     (case ob of
        None \<Rightarrow> Done 0
      | Some x \<Rightarrow> bind (start x) (\<lambda>below. insert_index below x dst 0 i))"

function insertsort_impl ::
  "('a \<Rightarrow> ('e, 'a \<Rightarrow> 'a item \<Rightarrow> ('e, bool) outcome) outcome) \<Rightarrow> (nat \<Rightarrow> 'e + 'a item)
   \<Rightarrow> 'a item list \<Rightarrow> nat \<Rightarrow> nat \<Rightarrow> ('e, 'a item list) outcome" where
  "insertsort_impl start getitem dst i objc =
     (if i < objc
      then bind (lift (getitem i)) (\<lambda>ob.
           bind (insert_position start dst i ob) (\<lambda>j.
             insertsort_impl start getitem (insert_at dst j (i - j) ob) (i + 1) objc))
      else Done dst)"
  by pat_completeness auto
termination by (relation "measure (\<lambda>(start, getitem, dst, i, objc). objc - i)") auto

declare insertsort_impl.simps [simp del]

definition below_item :: "('a \<Rightarrow> 'a \<Rightarrow> 'e + bool) \<Rightarrow> 'a \<Rightarrow> ('e, 'a \<Rightarrow> 'a item \<Rightarrow> ('e, bool) outcome) outcome" where
  "below_item lo x = Done (\<lambda>ob. direct_lo lo (Some ob))"

definition below_key ::
  "('a \<Rightarrow> 'e + 'a) \<Rightarrow> ('a \<Rightarrow> 'a \<Rightarrow> 'e + bool) \<Rightarrow> 'a \<Rightarrow> ('e, 'a \<Rightarrow> 'a item \<Rightarrow> ('e, bool) outcome) outcome" where
  "below_key key lo x =
     bind (lift (key x)) (\<lambda>keyed_ob. Done (\<lambda>ob dst_j.
       case dst_j of
         None \<Rightarrow> Undefined
       | Some y \<Rightarrow> bind (lift (key y)) (\<lambda>keyed_dst_j. lift (lo ob keyed_dst_j))))"

section \<open>The entry points\<close>

text \<open>
  \<open>LOCAL_DeeSeq_Sort\<close> without and with a key.  \<open>mem\<close> says which of the scratch buffers could be
  allocated (that for the cached keys, and the plain one); \<open>dst\<close> is the buffer of \<open>objc\<close> slots.
  Two objects are compared without a look at the marker.
\<close>

definition DeeSeq_Sort ::
  "bool \<Rightarrow> ('a \<Rightarrow> 'a \<Rightarrow> 'e + bool) \<Rightarrow> nat \<Rightarrow> 'a item list \<Rightarrow> (nat \<Rightarrow> 'e + 'a item)
   \<Rightarrow> ('e, 'a item list) outcome" where
  "DeeSeq_Sort mem lo objc dst getitem =
     (if objc = 0 then Done dst
      else if objc = 1 then bind (lift (getitem 0)) (\<lambda>src0. Done (dst[0 := src0]))
      else if objc = 2
      then bind (lift (getitem 0)) (\<lambda>src0.
           bind (lift (getitem 1)) (\<lambda>src1.
           bind (direct_lo lo src0 src1) (\<lambda>src0_lo_src1.
             Done (if src0_lo_src1 then dst[0 := src0, 1 := src1] else dst[0 := src1, 1 := src0]))))
      else if mem
      then bind (mergesort_impl getitem lo objc dst (replicate objc None) 0) (\<lambda>(dst, scratch). Done dst)
      else insertsort_impl (below_item lo) getitem dst 0 objc)"

definition DeeSeq_SortWithKey ::
  "bool \<Rightarrow> bool \<Rightarrow> ('a \<Rightarrow> 'e + 'a) \<Rightarrow> ('a \<Rightarrow> 'a \<Rightarrow> 'e + bool) \<Rightarrow> nat \<Rightarrow> 'a item list
   \<Rightarrow> (nat \<Rightarrow> 'e + 'a item) \<Rightarrow> ('e, 'a item list) outcome" where
  "DeeSeq_SortWithKey mem3 mem1 key lo objc dst getitem =
     (if objc = 0 then Done dst
      else if objc = 1 then bind (lift (getitem 0)) (\<lambda>src0. Done (dst[0 := src0]))
      else if objc = 2
      then bind (lift (getitem 0)) (\<lambda>src0.
           bind (lift (getitem 1)) (\<lambda>src1.
           bind (direct_lo (CmpLoAsBoolWithKey key lo) src0 src1) (\<lambda>src0_lo_src1.
             Done (if src0_lo_src1 then dst[0 := src0, 1 := src1] else dst[0 := src1, 1 := src0]))))
      else if mem3
      then bind (mergesort_impl_with_key_cache getitem key lo objc
                   (map (\<lambda>x. (x, None)) dst) (replicate objc (None, None)) 0)
             (\<lambda>(dst, scratch). Done (map fst dst))
      else if mem1
      then bind (mergesort_impl getitem (CmpLoAsBoolWithKey key lo) objc dst (replicate objc None) 0)
             (\<lambda>(dst, scratch). Done dst)
      else insertsort_impl (below_key key lo) getitem dst 0 objc)"

text \<open>\<open>DeeSeq_SortVector\<close> and \<open>DeeSeq_SortVectorWithKey\<close>: the source is a vector of objects.\<close>

definition vector_item :: "'a list \<Rightarrow> nat \<Rightarrow> 'e + 'a item" where
  "vector_item src i = Inr (Some (src ! i))"

definition DeeSeq_SortVector ::
  "bool \<Rightarrow> ('a \<Rightarrow> 'a \<Rightarrow> 'e + bool) \<Rightarrow> 'a list \<Rightarrow> ('e, 'a list) outcome" where
  "DeeSeq_SortVector mem lo src =
     bind (DeeSeq_Sort mem lo (length src) (replicate (length src) None) (vector_item src))
       (\<lambda>dst. Done (map the dst))"

definition DeeSeq_SortVectorWithKey ::
  "bool \<Rightarrow> bool \<Rightarrow> ('a \<Rightarrow> 'e + 'a) \<Rightarrow> ('a \<Rightarrow> 'a \<Rightarrow> 'e + bool) \<Rightarrow> 'a list \<Rightarrow> ('e, 'a list) outcome" where
  "DeeSeq_SortVectorWithKey mem3 mem1 key lo src =
     bind (DeeSeq_SortWithKey mem3 mem1 key lo (length src) (replicate (length src) None) (vector_item src))
       (\<lambda>dst. Done (map the dst))"

section \<open>The callers\<close>

text \<open>
  \<open>DeeList_Sort\<close> by one thread, \<open>list_mh_sorted\<close>, \<open>list_mh_sorted_with_key\<close>, \<open>tuple_mh_sorted\<close> and
  \<open>tuple_mh_sorted_with_key\<close>; \<open>key = None\<close> is no key.
\<close>

definition clip_range :: "nat \<Rightarrow> nat \<Rightarrow> nat \<Rightarrow> nat \<times> nat" where
  "clip_range start stop objc =
     (let used_end = (if stop > objc then objc else stop);
          used_start = (if start > used_end then used_end else start)
      in (used_start, used_end))"

definition sort_range ::
  "bool \<Rightarrow> bool \<Rightarrow> ('a \<Rightarrow> 'e + 'a) option \<Rightarrow> ('a \<Rightarrow> 'a \<Rightarrow> 'e + bool) \<Rightarrow> nat \<Rightarrow> nat \<Rightarrow> 'a list
   \<Rightarrow> ('e, 'a list) outcome" where
  "sort_range mem3 mem1 key lo start stop elemv =
     (let (used_start, used_end) = clip_range start stop (length elemv);
          oldv = take (used_end - used_start) (drop used_start elemv)
      in case key of
           None \<Rightarrow> DeeSeq_SortVector mem1 lo oldv
         | Some key \<Rightarrow> DeeSeq_SortVectorWithKey mem3 mem1 key lo oldv)"

definition DeeList_Sort ::
  "bool \<Rightarrow> bool \<Rightarrow> ('a \<Rightarrow> 'e + 'a) option \<Rightarrow> ('a \<Rightarrow> 'a \<Rightarrow> 'e + bool) \<Rightarrow> nat \<Rightarrow> nat \<Rightarrow> 'a list
   \<Rightarrow> ('e, 'a list) outcome" where
  "DeeList_Sort mem3 mem1 key lo start stop elemv =
     bind (sort_range mem3 mem1 key lo start stop elemv) (\<lambda>newv.
       let (used_start, used_end) = clip_range start stop (length elemv);
           objc = used_end - used_start
       in Done (if objc = length elemv then newv else memcpyc elemv used_start newv 0 objc))"

definition list_mh_sorted ::
  "bool \<Rightarrow> ('a \<Rightarrow> 'a \<Rightarrow> 'e + bool) \<Rightarrow> nat \<Rightarrow> nat \<Rightarrow> 'a list \<Rightarrow> ('e, 'a list) outcome" where
  "list_mh_sorted mem = sort_range False mem None"

definition list_mh_sorted_with_key ::
  "bool \<Rightarrow> bool \<Rightarrow> ('a \<Rightarrow> 'e + 'a) \<Rightarrow> ('a \<Rightarrow> 'a \<Rightarrow> 'e + bool) \<Rightarrow> nat \<Rightarrow> nat \<Rightarrow> 'a list
   \<Rightarrow> ('e, 'a list) outcome" where
  "list_mh_sorted_with_key mem3 mem1 key = sort_range mem3 mem1 (Some key)"

definition tuple_mh_sorted ::
  "bool \<Rightarrow> ('a \<Rightarrow> 'a \<Rightarrow> 'e + bool) \<Rightarrow> nat \<Rightarrow> nat \<Rightarrow> 'a list \<Rightarrow> ('e, 'a list) outcome" where
  "tuple_mh_sorted mem = sort_range False mem None"

definition tuple_mh_sorted_with_key ::
  "bool \<Rightarrow> bool \<Rightarrow> ('a \<Rightarrow> 'e + 'a) \<Rightarrow> ('a \<Rightarrow> 'a \<Rightarrow> 'e + bool) \<Rightarrow> nat \<Rightarrow> nat \<Rightarrow> 'a list
   \<Rightarrow> ('e, 'a list) outcome" where
  "tuple_mh_sorted_with_key mem3 mem1 key = sort_range mem3 mem1 (Some key)"

text \<open>
  \<open>seq_sorted\<close> over the size and an item accessor: the unbound items, sorted to the start of the
  tuple, are trimmed.
\<close>

definition trim_unbound :: "'a item list \<Rightarrow> 'a list" where
  "trim_unbound dst = map the (dropWhile (\<lambda>x. x = None) dst)"

definition seq_sorted ::
  "bool \<Rightarrow> ('a \<Rightarrow> 'a \<Rightarrow> 'e + bool) \<Rightarrow> nat \<Rightarrow> (nat \<Rightarrow> 'e + 'a item) \<Rightarrow> nat \<Rightarrow> nat \<Rightarrow> ('e, 'a list) outcome" where
  "seq_sorted mem lo selfsize getitem start stop =
     (let (start, stop) = clip_range start stop selfsize; n = stop - start
      in if n = 0 then Done []
         else bind (DeeSeq_Sort mem lo n (replicate n None) (\<lambda>i. getitem (start + i)))
                (\<lambda>dst. Done (trim_unbound dst)))"

definition seq_sorted_with_key ::
  "bool \<Rightarrow> bool \<Rightarrow> ('a \<Rightarrow> 'e + 'a) \<Rightarrow> ('a \<Rightarrow> 'a \<Rightarrow> 'e + bool) \<Rightarrow> nat \<Rightarrow> (nat \<Rightarrow> 'e + 'a item)
   \<Rightarrow> nat \<Rightarrow> nat \<Rightarrow> ('e, 'a list) outcome" where
  "seq_sorted_with_key mem3 mem1 key lo selfsize getitem start stop =
     (let (start, stop) = clip_range start stop selfsize; n = stop - start
      in if n = 0 then Done []
         else bind (DeeSeq_SortWithKey mem3 mem1 key lo n (replicate n None) (\<lambda>i. getitem (start + i)))
                (\<lambda>dst. Done (trim_unbound dst)))"


section \<open>Merging\<close>

lemma bind_Done_iff: "bind r f = Done y \<longleftrightarrow> (\<exists>x. r = Done x \<and> f x = Done y)"
  by (cases r) auto

lemma bind_Failed_iff: "bind r f = Failed e \<longleftrightarrow> r = Failed e \<or> (\<exists>x. r = Done x \<and> f x = Failed e)"
  by (cases r) auto

lemma bind_Undefined_iff: "bind r f = Undefined \<longleftrightarrow> r = Undefined \<or> (\<exists>x. r = Done x \<and> f x = Undefined)"
  by (cases r) auto

lemma lift_iff [simp]:
  "lift r = Done x \<longleftrightarrow> r = Inr x" "lift r = Failed e \<longleftrightarrow> r = Inl e" "lift r \<noteq> Undefined"
  by (cases r; simp)+

lemma bind_assoc: "bind (bind r f) g = bind r (\<lambda>x. bind (f x) g)"
  by (cases r) simp_all

lemma bind_cong [cong]: "r = r' \<Longrightarrow> (\<And>x. r' = Done x \<Longrightarrow> f x = g x) \<Longrightarrow> bind r f = bind r' g"
  by (cases r') simp_all

text \<open>The merge as a function of the two halves.\<close>

fun merge_items :: "('s \<Rightarrow> 's \<Rightarrow> 'e + bool) \<Rightarrow> 's list \<Rightarrow> 's list \<Rightarrow> ('e, 's list) outcome" where
  "merge_items lo (x # xs) (y # ys) =
     bind (lift (lo x y)) (\<lambda>lower.
       if lower then bind (merge_items lo xs (y # ys)) (\<lambda>ms. Done (x # ms))
       else bind (merge_items lo (x # xs) ys) (\<lambda>ms. Done (y # ms)))"
| "merge_items lo [] ys = Done ys"
| "merge_items lo xs [] = Done xs"

definition slice :: "nat \<Rightarrow> nat \<Rightarrow> 's list \<Rightarrow> 's list" where
  "slice i n xs = take n (drop i xs)"

definition put :: "nat \<Rightarrow> 's list \<Rightarrow> 's list \<Rightarrow> 's list" where
  "put d ms dst = take d dst @ ms @ drop (d + length ms) dst"

lemma slice_Suc: "i < length xs \<Longrightarrow> slice i (Suc n) xs = xs ! i # slice (Suc i) n xs"
  by (simp add: slice_def Cons_nth_drop_Suc [symmetric])

lemma slice_0 [simp]: "slice i 0 xs = []"
  by (simp add: slice_def)

lemma length_slice [simp]: "i + n \<le> length xs \<Longrightarrow> length (slice i n xs) = n"
  by (simp add: slice_def)

lemma length_put [simp]: "d + length ms \<le> length dst \<Longrightarrow> length (put d ms dst) = length dst"
  by (simp add: put_def)

lemma put_Nil [simp]: "put d [] dst = dst"
  by (simp add: put_def)

lemma put_Cons: "d < length dst \<Longrightarrow> put (Suc d) ms (dst[d := m]) = put d (m # ms) dst"
  by (simp add: put_def take_Suc_conv_app_nth upd_conv_take_nth_drop min_def ac_simps)

lemma memcpyc_put: "i + n \<le> length src \<Longrightarrow> memcpyc dst d src i n = put d (slice i n src) dst"
  by (simp add: memcpyc_def put_def slice_def)

lemma length_merge_items: "merge_items lo xs ys = Done ms \<Longrightarrow> length ms = length xs + length ys"
  by (induction lo xs ys arbitrary: ms rule: merge_items.induct) (auto simp: bind_Done_iff split: if_splits)

lemma merge_loop_items:
  assumes "i1 + s1 \<le> length scratch" "i2 + s2 \<le> length scratch" "d + s1 + s2 \<le> length dst"
  shows "merge_loop lo scratch dst d i1 s1 i2 s2 =
    bind (merge_items lo (slice i1 s1 scratch) (slice i2 s2 scratch)) (\<lambda>ms. Done (put d ms dst))"
  using assms
proof (induction lo scratch dst d i1 s1 i2 s2 rule: merge_loop.induct)
  case (1 lo scratch dst d i1 s1 i2 s2)
  show ?case
  proof (cases "s1 = 0 \<or> s2 = 0")
    case True
    then show ?thesis using "1.prems"
      by (cases "slice i1 s1 scratch") (auto simp: merge_loop.simps memcpyc_put)
  next
    case False
    then obtain t1 t2 where t: "s1 = Suc t1" "s2 = Suc t2" by (metis not0_implies_Suc)
    have sl: "slice i1 s1 scratch = scratch ! i1 # slice (Suc i1) t1 scratch"
      "slice i2 s2 scratch = scratch ! i2 # slice (Suc i2) t2 scratch"
      using "1.prems" t by (simp_all add: slice_Suc)
    have d: "d < length dst" using "1.prems" t by simp
    show ?thesis
    proof (cases "lo (scratch ! i1) (scratch ! i2)")
      case (Inl e)
      then show ?thesis using False by (subst merge_loop.simps) (simp add: sl)
    next
      case (Inr lower)
      show ?thesis
      proof (cases lower)
        case True
        then show ?thesis using "1.IH"(1) [of lower] Inr False "1.prems" t d sl
          by (subst merge_loop.simps) (simp add: bind_assoc put_Cons)
      next
        case False
        then show ?thesis using "1.IH"(2) [of lower] Inr \<open>\<not> (s1 = 0 \<or> s2 = 0)\<close> "1.prems" t d sl
          by (subst merge_loop.simps) (simp add: bind_assoc put_Cons)
      qed
    qed
  qed
qed

section \<open>Merge sort as a function of the items\<close>

text \<open>
  Both sorts with the buffers follow one scheme: \<open>load1\<close> and \<open>load2\<close> read one and two slots, \<open>lo\<close>
  compares slots.  \<open>sort_items\<close> is the scheme without buffers.
\<close>

function sort_items ::
  "(nat \<Rightarrow> ('e, 's) outcome) \<Rightarrow> (nat \<Rightarrow> ('e, 's \<times> 's) outcome) \<Rightarrow> ('s \<Rightarrow> 's \<Rightarrow> 'e + bool) \<Rightarrow> nat \<Rightarrow> nat
   \<Rightarrow> ('e, 's list) outcome" where
  "sort_items load1 load2 lo n off =
     (if n = 0 then Undefined
      else if n = 1 then bind (load1 off) (\<lambda>x. Done [x])
      else if n = 2
      then bind (load2 off) (\<lambda>(x, y). bind (lift (lo x y)) (\<lambda>lower. Done (if lower then [x, y] else [y, x])))
      else bind (sort_items load1 load2 lo (n div 2) off) (\<lambda>xs.
           bind (sort_items load1 load2 lo (n - n div 2) (off + n div 2)) (\<lambda>ys. merge_items lo xs ys)))"
  by pat_completeness auto
termination by (relation "measure (\<lambda>(l1, l2, lo, n, off). n)") auto

declare sort_items.simps [simp del]

definition in_buffers :: "nat \<Rightarrow> nat \<Rightarrow> ('e, 's list) outcome \<Rightarrow> ('e, 's list \<times> 's list) outcome
    \<Rightarrow> 's list \<Rightarrow> 's list \<Rightarrow> bool" where
  "in_buffers n off r r' dst scratch =
     (case r of
        Done ms \<Rightarrow> length ms = n \<and>
          (\<exists>zs. length zs = n \<and> r' = Done (put off ms dst, put off zs scratch))
      | Failed e \<Rightarrow> r' = Failed e
      | Undefined \<Rightarrow> r' = Undefined)"

lemma put_put: "d + length xs + length ys \<le> length dst \<Longrightarrow> put (d + length xs) ys (put d xs dst) = put d (xs @ ys) dst"
  by (simp add: put_def ac_simps)

lemma slice_put: "d + length ms \<le> length dst \<Longrightarrow> slice d (length ms) (put d ms dst) = ms"
  by (simp add: slice_def put_def)

lemma slice_put_append:
  assumes "d + length xs + length ys \<le> length dst"
  shows "slice d (length xs) (put d (xs @ ys) dst) = xs" "slice (d + length xs) (length ys) (put d (xs @ ys) dst) = ys"
  using assms by (simp_all add: slice_def put_def)

text \<open>One round of the recursion: two sorted halves in the scratch buffer, merged into \<open>dst\<close>.\<close>

lemma in_buffers_step:
  assumes n: "n = n1 + n2" "off + n \<le> length dst" "off + n \<le> length scratch"
    and h1: "in_buffers n1 off r1 r1' scratch dst"
    and h2: "\<And>dst scratch. off + n \<le> length dst \<Longrightarrow> off + n \<le> length scratch \<Longrightarrow>
      in_buffers n2 (off + n1) r2 (r2' scratch dst) scratch dst"
  shows "in_buffers n off (bind r1 (\<lambda>xs. bind r2 (\<lambda>ys. merge_items lo xs ys)))
    (bind r1' (\<lambda>(scratch, dst). bind (r2' scratch dst) (\<lambda>(scratch, dst).
       bind (merge_loop lo scratch dst off off n1 (off + n1) n2) (\<lambda>dst. Done (dst, scratch))))) dst scratch"
proof (cases r1)
  case (Done xs)
  then obtain zs where xs: "length xs = n1" "length zs = n1"
    and r1': "r1' = Done (put off xs scratch, put off zs dst)" using h1 by (auto simp: in_buffers_def)
  define scr where "scr = put off xs scratch"
  define dst' where "dst' = put off zs dst"
  have len: "length scr = length scratch" "length dst' = length dst"
    using n xs by (simp_all add: scr_def dst'_def)
  have h: "in_buffers n2 (off + n1) r2 (r2' scr dst') scr dst'" using h2 n len by simp
  show ?thesis
  proof (cases r2)
    case (Done ys)
    then obtain ws where ys: "length ys = n2" "length ws = n2"
      and r2': "r2' scr dst' = Done (put (off + n1) ys scr, put (off + n1) ws dst')"
      using h by (auto simp: in_buffers_def)
    have scr': "put (off + n1) ys scr = put off (xs @ ys) scratch"
      using n xs ys put_put [of off xs ys scratch] by (simp add: scr_def)
    have dst'': "put (off + n1) ws dst' = put off (zs @ ws) dst"
      using n xs ys put_put [of off zs ws dst] by (simp add: dst'_def)
    have m: "merge_loop lo (put off (xs @ ys) scratch) (put off (zs @ ws) dst) off off n1 (off + n1) n2 =
        bind (merge_items lo xs ys) (\<lambda>ms. Done (put off ms (put off (zs @ ws) dst)))"
      using n xs ys slice_put_append [of off xs ys scratch] by (subst merge_loop_items) simp_all
    show ?thesis
    proof (cases "merge_items lo xs ys")
      case ms: (Done ms)
      have lm: "length ms = n" using length_merge_items [OF ms] xs ys n by simp
      have "put off ms (put off (zs @ ws) dst) = put off ms dst"
        using n xs ys lm by (simp add: put_def)
      moreover have "length (xs @ ys) = n" using n xs ys by simp
      ultimately show ?thesis
        using \<open>r1 = Done xs\<close> Done r1' r2' ms m lm scr' dst''
        by (auto simp: in_buffers_def scr_def [symmetric] dst'_def [symmetric] intro!: exI [of _ "xs @ ys"])
    qed (use \<open>r1 = Done xs\<close> Done r1' r2' m scr' dst'' in
        \<open>auto simp: in_buffers_def scr_def [symmetric] dst'_def [symmetric]\<close>)
  qed (use \<open>r1 = Done xs\<close> r1' h in \<open>auto simp: in_buffers_def scr_def [symmetric] dst'_def [symmetric]\<close>)
qed (use h1 in \<open>auto simp: in_buffers_def\<close>)

definition item1 :: "(nat \<Rightarrow> 'e + 'a item) \<Rightarrow> nat \<Rightarrow> ('e, 'a item) outcome" where
  "item1 getitem i = lift (getitem i)"

definition item2 :: "(nat \<Rightarrow> 'e + 'a item) \<Rightarrow> nat \<Rightarrow> ('e, 'a item \<times> 'a item) outcome" where
  "item2 getitem i = bind (lift (getitem i)) (\<lambda>x. bind (lift (getitem (i + 1))) (\<lambda>y. Done (x, y)))"

definition keyed1 ::
  "(nat \<Rightarrow> 'e + 'a item) \<Rightarrow> ('a \<Rightarrow> 'e + 'k) \<Rightarrow> nat \<Rightarrow> ('e, 'a item \<times> 'k item) outcome" where
  "keyed1 getitem key i = bind (lift (getitem i)) (\<lambda>x. lift (keyed_item key x))"

definition keyed2 ::
  "(nat \<Rightarrow> 'e + 'a item) \<Rightarrow> ('a \<Rightarrow> 'e + 'k) \<Rightarrow> nat \<Rightarrow> ('e, ('a item \<times> 'k item) \<times> 'a item \<times> 'k item) outcome" where
  "keyed2 getitem key i =
     bind (item2 getitem i) (\<lambda>(x, y). bind (lift (keyed_item key x)) (\<lambda>x.
       bind (lift (keyed_item key y)) (\<lambda>y. Done (x, y))))"

abbreviation keyed_lo :: "('k \<Rightarrow> 'k \<Rightarrow> 'e + bool) \<Rightarrow> 'a item \<times> 'k item \<Rightarrow> 'a item \<times> 'k item \<Rightarrow> 'e + bool" where
  "keyed_lo lo x y \<equiv> unbound_lo lo (snd x) (snd y)"

lemma put_1: "off < length dst \<Longrightarrow> put off [x] dst = dst[off := x]"
  by (simp add: put_def upd_conv_take_nth_drop)

lemma put_2: "off + 1 < length dst \<Longrightarrow> put off [x, y] dst = dst[off := x, off + 1 := y]"
  using put_Cons [of off dst "[y]" x] put_1 [of "Suc off" "dst[off := x]" y] by simp

lemma put_slice: "off + n \<le> length xs \<Longrightarrow> put off (slice off n xs) xs = xs"
  by (simp add: put_def slice_def drop_drop [symmetric] add.commute del: drop_drop)

lemma in_buffers_load:
  assumes "off + n \<le> length dst" "off + n \<le> length scratch" "0 < n"
    "r' = bind r (\<lambda>ms. Done (put off ms dst, scratch))" "\<And>ms. r = Done ms \<Longrightarrow> length ms = n"
  shows "in_buffers n off r r' dst scratch"
  using assms put_slice [of off n scratch]
  by (cases r) (auto simp: in_buffers_def intro!: exI [of _ "slice off n scratch"])

lemma mergesort_in_buffers:
  assumes "off + n \<le> length dst" "off + n \<le> length scratch"
  shows "in_buffers n off (sort_items (item1 getitem) (item2 getitem) (unbound_lo lo) n off)
    (mergesort_impl getitem lo n dst scratch off) dst scratch"
  using assms
proof (induction n arbitrary: dst scratch off rule: less_induct)
  case (less n)
  consider "n = 0" | "n = 1" | "n = 2" | "2 < n" by linarith
  then show ?case
  proof cases
    case 1
    then show ?thesis by (simp add: mergesort_impl.simps sort_items.simps in_buffers_def)
  next
    case 2
    then show ?thesis using less.prems
      by (intro in_buffers_load)
        (auto simp: mergesort_impl.simps sort_items.simps item1_def bind_assoc put_1 bind_Done_iff)
  next
    case 3
    then show ?thesis using less.prems
      by (intro in_buffers_load)
        (auto simp: mergesort_impl.simps sort_items.simps item2_def bind_assoc put_2 [simplified] bind_Done_iff
          intro!: bind_cong)
  next
    case 4
    define m where "m = n div 2"
    have m: "m < n" "n - m < n" "n = m + (n - m)" using 4 by (simp_all add: m_def)
    have "in_buffers n off
        (bind (sort_items (item1 getitem) (item2 getitem) (unbound_lo lo) m off) (\<lambda>xs.
         bind (sort_items (item1 getitem) (item2 getitem) (unbound_lo lo) (n - m) (off + m)) (merge_items (unbound_lo lo) xs)))
        (bind (mergesort_impl getitem lo m scratch dst off) (\<lambda>(scratch, dst).
         bind (mergesort_impl getitem lo (n - m) scratch dst (off + m)) (\<lambda>(scratch, dst).
         bind (merge_loop (unbound_lo lo) scratch dst off off m (off + m) (n - m)) (\<lambda>dst. Done (dst, scratch)))))
        dst scratch"
      using m less.prems
      by (intro in_buffers_step less.IH) simp_all
    then show ?thesis using 4
      by (simp add: mergesort_impl.simps [of _ _ n] sort_items.simps [of _ _ _ n] m_def [symmetric] Let_def)
  qed
qed

lemma keyed_mergesort_in_buffers:
  assumes "off + n \<le> length dst" "off + n \<le> length scratch"
  shows "in_buffers n off (sort_items (keyed1 getitem key) (keyed2 getitem key) (keyed_lo lo) n off)
    (mergesort_impl_with_key_cache getitem key lo n dst scratch off) dst scratch"
  using assms
proof (induction n arbitrary: dst scratch off rule: less_induct)
  case (less n)
  consider "n = 0" | "n = 1" | "n = 2" | "2 < n" by linarith
  then show ?case
  proof cases
    case 1
    then show ?thesis by (simp add: mergesort_impl_with_key_cache.simps sort_items.simps in_buffers_def)
  next
    case 2
    then show ?thesis using less.prems
      by (intro in_buffers_load)
        (auto simp: mergesort_impl_with_key_cache.simps sort_items.simps keyed1_def bind_assoc put_1 bind_Done_iff)
  next
    case 3
    then show ?thesis using less.prems
      by (intro in_buffers_load)
        (auto simp: mergesort_impl_with_key_cache.simps sort_items.simps keyed2_def item2_def bind_assoc
          put_2 [simplified] bind_Done_iff intro!: bind_cong)
  next
    case 4
    define m where "m = n div 2"
    have m: "m < n" "n - m < n" "n = m + (n - m)" using 4 by (simp_all add: m_def)
    have "in_buffers n off
        (bind (sort_items (keyed1 getitem key) (keyed2 getitem key) (keyed_lo lo) m off) (\<lambda>xs.
         bind (sort_items (keyed1 getitem key) (keyed2 getitem key) (keyed_lo lo) (n - m) (off + m)) (merge_items (keyed_lo lo) xs)))
        (bind (mergesort_impl_with_key_cache getitem key lo m scratch dst off) (\<lambda>(scratch, dst).
         bind (mergesort_impl_with_key_cache getitem key lo (n - m) scratch dst (off + m)) (\<lambda>(scratch, dst).
         bind (merge_loop (keyed_lo lo) scratch dst off off m (off + m) (n - m)) (\<lambda>dst. Done (dst, scratch)))))
        dst scratch"
      using m less.prems
      by (intro in_buffers_step less.IH) simp_all
    then show ?thesis using 4
      by (simp add: mergesort_impl_with_key_cache.simps [of _ _ _ n] sort_items.simps [of _ _ _ n] m_def [symmetric] Let_def)
  qed
qed

section \<open>Sorting by an order\<close>

lemma filter_above: "\<forall>z\<in>set zs. k < r z \<Longrightarrow> filter (\<lambda>z. r z = (k :: 'r::linorder)) zs = []"
  by (auto simp: filter_empty_conv)

text \<open>A comparison by a rank, which never fails.\<close>

definition rank_lo :: "('s \<Rightarrow> 'r::linorder) \<Rightarrow> 's \<Rightarrow> 's \<Rightarrow> 'e + bool" where
  "rank_lo r x y = Inr (r x < r y)"

lemma merge_items_order:
  fixes r :: "'s \<Rightarrow> 'r::linorder"
  assumes "lo = rank_lo r" "sorted (map r xs)" "sorted (map r ys)"
  shows "\<exists>ms. merge_items lo xs ys = Done ms \<and> mset ms = mset xs + mset ys \<and> sorted (map r ms)
    \<and> (\<forall>k. filter (\<lambda>z. r z = k) ms = filter (\<lambda>z. r z = k) ys @ filter (\<lambda>z. r z = k) xs)"
  using assms
proof (induction lo xs ys rule: merge_items.induct)
  case (1 lo x xs y ys)
  show ?case
  proof (cases "r x < r y")
    case True
    then obtain ms where ms: "merge_items lo xs (y # ys) = Done ms"
      "mset ms = mset xs + mset (y # ys)" "sorted (map r ms)"
      "\<forall>k. filter (\<lambda>z. r z = k) ms = filter (\<lambda>z. r z = k) (y # ys) @ filter (\<lambda>z. r z = k) xs"
      using "1.IH"(1) [of True] "1.prems" True by (auto simp: rank_lo_def)
    have "set ms = set xs \<union> set (y # ys)" using ms(2) mset_eq_setD [of ms "xs @ y # ys"] by simp
    then have low: "\<forall>z\<in>set ms. r x \<le> r z" using True "1.prems"(2,3) by (auto intro: less_imp_le dest: order.strict_trans1)
    have "\<forall>z\<in>set (y # ys). r x < r z" using True "1.prems"(3) by auto
    then have "filter (\<lambda>z. r z = r x) (y # ys) = []" by (rule filter_above)
    then have "\<forall>k. filter (\<lambda>z. r z = k) (x # ms) =
        filter (\<lambda>z. r z = k) (y # ys) @ filter (\<lambda>z. r z = k) (x # xs)"
      using ms(4) by simp
    then show ?thesis using True "1.prems"(1) ms low by (auto simp: rank_lo_def simp del: filter.simps(2))
  next
    case False
    then obtain ms where ms: "merge_items lo (x # xs) ys = Done ms"
      "mset ms = mset (x # xs) + mset ys" "sorted (map r ms)"
      "\<forall>k. filter (\<lambda>z. r z = k) ms = filter (\<lambda>z. r z = k) ys @ filter (\<lambda>z. r z = k) (x # xs)"
      using "1.IH"(2) [of False] "1.prems" False by (auto simp: rank_lo_def)
    have "set ms = set (x # xs) \<union> set ys" using ms(2) mset_eq_setD [of ms "(x # xs) @ ys"] by simp
    then have low: "\<forall>z\<in>set ms. r y \<le> r z" using False "1.prems"(2,3) by (auto simp: not_less intro: order_trans)
    then show ?thesis using False "1.prems"(1) ms by (auto simp: rank_lo_def)
  qed
qed auto

lemma merge_items_sort_key:
  fixes r :: "'s \<Rightarrow> 'r::linorder"
  shows "merge_items (rank_lo r :: 's \<Rightarrow> 's \<Rightarrow> 'e + bool) (sort_key r xs) (sort_key r ys) = Done (sort_key r (ys @ xs))"
proof -
  obtain ms where ms: "merge_items (rank_lo r :: 's \<Rightarrow> 's \<Rightarrow> 'e + bool) (sort_key r xs) (sort_key r ys) = Done ms"
    "mset ms = mset xs + mset ys" "sorted (map r ms)"
    "\<forall>k. filter (\<lambda>z. r z = k) ms = filter (\<lambda>z. r z = k) (sort_key r ys) @ filter (\<lambda>z. r z = k) (sort_key r xs)"
    using merge_items_order [OF refl, of r "sort_key r xs" "sort_key r ys"] by auto
  have "filter (\<lambda>z. r k = r z) ms = filter (\<lambda>z. r k = r z) (ys @ xs)" for k
    using ms(4) [rule_format, of "r k"] by (simp add: sort_key_stable eq_commute [of "r k"])
  then have "sort_key r (ys @ xs) = ms" using ms(2,3) by (intro properties_for_sort_key) simp_all
  then show ?thesis using ms(1) by simp
qed

lemma sort_items_order:
  fixes r :: "'s \<Rightarrow> 'r::linorder"
  assumes "\<And>i. i < off + n \<Longrightarrow> off \<le> i \<Longrightarrow> load1 i = Done (f i)"
    "\<And>i. i + 1 < off + n \<Longrightarrow> off \<le> i \<Longrightarrow> load2 i = Done (f i, f (i + 1))" "0 < n"
  shows "sort_items load1 load2 (rank_lo r) n off = Done (sort_key r (rev (map f [off..<off + n])))"
  using assms
proof (induction n arbitrary: off rule: less_induct)
  case (less n)
  consider "n = 1" | "n = 2" | "2 < n" using less.prems(3) by linarith
  then show ?case
  proof cases
    case 1
    then show ?thesis using less.prems by (simp add: sort_items.simps)
  next
    case 2
    then have "sort_items load1 load2 (rank_lo r) n off =
        Done (if r (f off) < r (f (off + 1)) then [f off, f (off + 1)] else [f (off + 1), f off])"
      using less.prems by (simp add: sort_items.simps rank_lo_def)
    moreover have "[off..<off + n] = [off, off + 1]" using 2 by (simp add: upt_rec)
    ultimately show ?thesis by (auto simp: not_less)
  next
    case 3
    define m where "m = n div 2"
    have m: "0 < m" "m < n" "n = m + (n - m)" "0 < n - m" "n - m < n" using 3 by (simp_all add: m_def)
    have a: "sort_items load1 load2 (rank_lo r) m off = Done (sort_key r (rev (map f [off..<off + m])))"
      using m less.prems by (intro less.IH) simp_all
    have b: "sort_items load1 load2 (rank_lo r) (n - m) (off + m) = Done (sort_key r (rev (map f [off + m..<off + n])))"
      using less.IH [of "n - m" "off + m"] m less.prems by simp
    have "[off..<off + n] = [off..<off + m] @ [off + m..<off + n]"
      using m upt_add_eq_append [of off "off + m" "n - m"] by simp
    then show ?thesis
      using 3 merge_items_sort_key
      by (simp add: sort_items.simps [of _ _ _ n] m_def [symmetric] a b)
  qed
qed

section \<open>Sorting by arbitrary callbacks\<close>

lemma merge_items_mset: "merge_items lo xs ys = Done ms \<Longrightarrow> mset ms = mset xs + mset ys"
  by (induction lo xs ys arbitrary: ms rule: merge_items.induct) (auto simp: bind_Done_iff split: if_splits)

lemma merge_items_failed: "merge_items lo xs ys = Failed e \<Longrightarrow> \<exists>x y. lo x y = Inl e"
  by (induction lo xs ys rule: merge_items.induct) (auto simp: bind_Failed_iff split: if_splits)

lemma merge_items_defined: "merge_items lo xs ys \<noteq> Undefined"
  by (induction lo xs ys rule: merge_items.induct) (auto simp: bind_Undefined_iff split: if_splits)

lemma sort_items_mset:
  assumes "\<And>i x y. load2 i = Done (x, y) \<Longrightarrow> load1 i = Done x \<and> load1 (i + 1) = Done y"
  shows "sort_items load1 load2 lo n off = Done ms \<Longrightarrow>
    \<exists>xs. length xs = n \<and> (\<forall>i<n. load1 (off + i) = Done (xs ! i)) \<and> mset ms = mset xs"
proof (induction n arbitrary: off ms rule: less_induct)
  case (less n)
  consider "n = 0" | "n = 1" | "n = 2" | "2 < n" by linarith
  then show ?case
  proof cases
    case 1
    then show ?thesis using less.prems by (simp add: sort_items.simps)
  next
    case 2
    then show ?thesis using less.prems by (auto simp: sort_items.simps bind_Done_iff)
  next
    case 3
    then obtain x y where "load2 off = Done (x, y)" "ms = [x, y] \<or> ms = [y, x]"
      using less.prems by (auto simp: sort_items.simps bind_Done_iff split: if_splits)
    then show ?thesis using 3 assms [of off x y]
      by (intro exI [of _ "[x, y]"]) (auto simp: less_2_cases_iff)
  next
    case 4
    define m where "m = n div 2"
    have m: "m < n" "n - m < n" using 4 by (simp_all add: m_def)
    obtain xs ys where x: "sort_items load1 load2 lo m off = Done xs"
      and y: "sort_items load1 load2 lo (n - m) (off + m) = Done ys" and ms: "merge_items lo xs ys = Done ms"
      using less.prems 4 by (auto simp: sort_items.simps [of _ _ _ n] m_def [symmetric] bind_Done_iff)
    obtain xs' ys' where x': "length xs' = m" "\<forall>i<m. load1 (off + i) = Done (xs' ! i)" "mset xs = mset xs'"
      and y': "length ys' = n - m" "\<forall>i<n - m. load1 (off + m + i) = Done (ys' ! i)" "mset ys = mset ys'"
      using less.IH [OF m(1) x] less.IH [OF m(2) y] by auto
    have "load1 (off + i) = Done ((xs' @ ys') ! i)" if "i < n" for i
      using x'(1,2) y'(1) y'(2) [rule_format, of "i - m"] that by (cases "i < m") (simp_all add: nth_append)
    then show ?thesis using x' y' m(1) merge_items_mset [OF ms] by (intro exI [of _ "xs' @ ys'"]) simp
  qed
qed

lemma sort_items_failed:
  "sort_items load1 load2 lo n off = Failed e \<Longrightarrow>
    (\<exists>i. load1 i = Failed e \<or> load2 i = Failed e) \<or> (\<exists>x y. lo x y = Inl e)"
proof (induction n arbitrary: off rule: less_induct)
  case (less n)
  show ?case
  proof (cases "n \<le> 2")
    case True
    then show ?thesis using less.prems
      by (subst (asm) sort_items.simps) (auto simp: bind_Failed_iff split: if_splits)
  next
    case False
    then have n: "n div 2 < n" "n - n div 2 < n" by simp_all
    consider "sort_items load1 load2 lo (n div 2) off = Failed e"
      | "sort_items load1 load2 lo (n - n div 2) (off + n div 2) = Failed e"
      | xs ys where "merge_items lo xs ys = Failed e"
      using less.prems False by (subst (asm) sort_items.simps) (auto simp: bind_Failed_iff)
    then show ?thesis
    proof cases
      case 1
      then show ?thesis by (rule less.IH [OF n(1)])
    next
      case 2
      then show ?thesis by (rule less.IH [OF n(2)])
    next
      case 3
      then show ?thesis by (intro disjI2 merge_items_failed)
    qed
  qed
qed

lemma sort_items_defined:
  assumes "\<And>i. load1 i \<noteq> Undefined" "\<And>i. load2 i \<noteq> Undefined"
  shows "0 < n \<Longrightarrow> sort_items load1 load2 lo n off \<noteq> Undefined"
proof (induction n arbitrary: off rule: less_induct)
  case (less n)
  show ?case
  proof (cases "n \<le> 2")
    case True
    then show ?thesis using less.prems assms
      by (subst sort_items.simps) (auto simp: bind_Undefined_iff split: if_splits)
  next
    case False
    then have n: "n div 2 < n" "n - n div 2 < n" "0 < n div 2" "0 < n - n div 2" by simp_all
    show ?thesis
    proof
      assume "sort_items load1 load2 lo n off = Undefined"
      then have "sort_items load1 load2 lo (n div 2) off = Undefined
          \<or> sort_items load1 load2 lo (n - n div 2) (off + n div 2) = Undefined
          \<or> (\<exists>xs ys. merge_items lo xs ys = Undefined)"
        using False by (subst (asm) sort_items.simps) (auto simp: bind_Undefined_iff)
      then show False using less.IH [OF n(1,3)] less.IH [OF n(2,4)] merge_items_defined by blast
    qed
  qed
qed

section \<open>Insertion\<close>

lemma insert_index_bounds: "insert_index below x dst j i = Done k \<Longrightarrow> j \<le> i \<Longrightarrow> j \<le> k \<and> k \<le> i"
proof (induction below x dst j i rule: insert_index.induct)
  case (1 below x dst j i)
  show ?case
  proof (cases "j < i")
    case True
    with "1.prems" obtain temp where t: "below x (dst ! j) = Done temp"
      "(if temp then Done j else insert_index below x dst (j + 1) i) = Done k"
      by (subst (asm) insert_index.simps) (auto simp: bind_Done_iff)
    show ?thesis using "1.IH" [OF True, of temp] t True by (cases temp) auto
  next
    case False
    then show ?thesis using "1.prems" by (subst (asm) insert_index.simps) simp
  qed
qed

lemma insert_index_cases:
  "insert_index below x dst j i = Failed e \<Longrightarrow> \<exists>y. below x y = Failed e"
  "insert_index below x dst j i = Undefined \<Longrightarrow> \<exists>k<i. below x (dst ! k) = Undefined"
proof (induction below x dst j i rule: insert_index.induct)
  case (1 below x dst j i)
  {
    case 1
    then show ?case using "1.IH"
      by (subst (asm) insert_index.simps) (auto simp: bind_Failed_iff split: if_splits)
  next
    case 2
    then show ?case using "1.IH"
      by (subst (asm) insert_index.simps) (auto simp: bind_Undefined_iff split: if_splits)
  }
qed

lemma length_insert_at: "j + n < length dst \<Longrightarrow> length (insert_at dst j n ob) = length dst"
  by (simp add: insert_at_def memcpyc_def)

lemma take_insert_at:
  assumes "j \<le> i" "i < length dst"
  shows "take (Suc i) (insert_at dst j (i - j) ob) = take j dst @ ob # drop j (take i dst)"
proof -
  have "j < length dst" using assms by simp
  then have "insert_at dst j (i - j) ob = (take j dst @ dst ! j # slice j (i - j) dst @ drop (Suc i) dst)[j := ob]"
    using assms by (simp add: insert_at_def memcpyc_def slice_def take_Suc_conv_app_nth)
  also have "\<dots> = take j dst @ ob # slice j (i - j) dst @ drop (Suc i) dst"
    using \<open>j < length dst\<close> by (simp add: list_update_append)
  finally show ?thesis using assms by (simp add: slice_def take_drop min_def Suc_diff_le)
qed

lemma insertsort_step:
  assumes "i < objc"
  shows "insertsort_impl start getitem dst i objc =
    bind (lift (getitem i)) (\<lambda>ob.
    bind (insert_position start dst i ob) (\<lambda>j.
      insertsort_impl start getitem (insert_at dst j (i - j) ob) (Suc i) objc))"
  using assms by (subst insertsort_impl.simps) simp

lemma insert_place:
  assumes "insert_position start dst i ob = Done j"
  shows "j \<le> i"
  using assms insert_index_bounds [of _ _ dst 0 i j] by (auto simp: insert_position_def bind_Done_iff split: option.splits)

lemma insertsort_mset:
  assumes "length dst = objc" "i \<le> objc" "insertsort_impl start getitem dst i objc = Done dst'"
  shows "length dst' = objc \<and>
    (\<exists>xs. length xs = objc - i \<and> (\<forall>k<objc - i. getitem (i + k) = Inr (xs ! k)) \<and> mset dst' = mset (take i dst) + mset xs)"
  using assms
proof (induction "objc - i" arbitrary: i dst)
  case 0
  then show ?case by (subst (asm) insertsort_impl.simps) simp
next
  case (Suc d)
  then have i: "i < objc" by simp
  obtain ob j where ob: "getitem i = Inr ob"
    and j: "insert_position start dst i ob = Done j"
    and rest: "insertsort_impl start getitem (insert_at dst j (i - j) ob) (Suc i) objc = Done dst'"
    using Suc.prems(3) by (auto simp: insertsort_step [OF i] bind_Done_iff)
  have le: "j \<le> i" by (rule insert_place [OF j])
  have d: "d = objc - Suc i" using Suc.hyps(2) by simp
  obtain xs where xs: "length dst' = objc" "length xs = objc - Suc i"
    "\<forall>k<objc - Suc i. getitem (Suc i + k) = Inr (xs ! k)"
    "mset dst' = mset (take (Suc i) (insert_at dst j (i - j) ob)) + mset xs"
    using Suc.hyps(1) [of "Suc i" "insert_at dst j (i - j) ob"] d Suc.prems(1) rest i le
      length_insert_at [of j "i - j" dst ob] by auto
  have "mset (take i dst) = mset (take j dst) + mset (drop j (take i dst))"
    using le append_take_drop_id [of j "take i dst"] by (metis mset_append min.absorb1 take_take)
  then have "mset dst' = mset (take i dst) + mset (ob # xs)"
    using xs(4) le i Suc.prems(1) by (simp add: take_insert_at)
  moreover have "\<forall>k<objc - i. getitem (i + k) = Inr ((ob # xs) ! k)"
  proof (intro allI impI)
    fix k
    assume "k < objc - i"
    then show "getitem (i + k) = Inr ((ob # xs) ! k)" using ob xs(3) by (cases k) auto
  qed
  ultimately show ?case using xs(1,2) i by (intro conjI exI [of _ "ob # xs"]) simp_all
qed

lemma insertsort_failed:
  assumes "insertsort_impl start getitem dst i objc = Failed e"
  shows "(\<exists>i. getitem i = Inl e) \<or> (\<exists>x. start x = Failed e) \<or> (\<exists>x below y. start x = Done below \<and> below x y = Failed e)"
  using assms
proof (induction "objc - i" arbitrary: i dst)
  case 0
  then show ?case by (subst (asm) insertsort_impl.simps) simp
next
  case (Suc d)
  then have i: "i < objc" by simp
  consider "getitem i = Inl e"
    | ob where "insert_position start dst i ob = Failed e"
    | j ob where "insertsort_impl start getitem (insert_at dst j (i - j) ob) (Suc i) objc = Failed e"
    using Suc.prems by (auto simp: insertsort_step [OF i] bind_Failed_iff)
  then show ?case
  proof cases
    case 1
    then show ?thesis by blast
  next
    case 2
    then obtain x where "bind (start x) (\<lambda>below. insert_index below x dst 0 i) = Failed e"
      by (auto simp: insert_position_def split: option.splits)
    then consider "start x = Failed e"
      | below where "start x = Done below" "insert_index below x dst 0 i = Failed e"
      by (auto simp: bind_Failed_iff)
    then show ?thesis by cases (blast dest: insert_index_cases(1))+
  next
    case 3
    then show ?thesis using Suc.hyps by (metis Suc_diff_Suc i nat.inject)
  qed
qed

text \<open>A comparison with an unbound item needs one read before.\<close>

lemma insertsort_undefined:
  assumes "length dst = objc" "i \<le> objc" "insertsort_impl start getitem dst i objc = Undefined"
    "\<And>x. start x \<noteq> Undefined" "\<And>x below y. start x = Done below \<Longrightarrow> below x (Some y) \<noteq> Undefined"
  shows "None \<in> set (take i dst) \<or> (\<exists>k<objc. getitem k = Inr None)"
  using assms(1-3)
proof (induction "objc - i" arbitrary: i dst)
  case 0
  then show ?case by (subst (asm) insertsort_impl.simps) simp
next
  case (Suc d)
  then have i: "i < objc" by simp
  obtain ob where ob: "getitem i = Inr ob"
    and cs: "insert_position start dst i ob = Undefined
      \<or> (\<exists>j. insert_position start dst i ob = Done j
          \<and> insertsort_impl start getitem (insert_at dst j (i - j) ob) (Suc i) objc = Undefined)"
    using Suc.prems(3) by (auto simp: insertsort_step [OF i] bind_Undefined_iff)
  from cs show ?case
  proof (elim disjE exE conjE)
    assume "insert_position start dst i ob = Undefined"
    then obtain x below where x: "start x = Done below" "insert_index below x dst 0 i = Undefined"
      using assms(4) by (auto simp: insert_position_def bind_Undefined_iff split: option.splits)
    obtain k where k: "k < i" "below x (dst ! k) = Undefined" using insert_index_cases(2) [OF x(2)] by blast
    then have "dst ! k = None" using assms(5) [OF x(1)] by (cases "dst ! k") auto
    then show ?thesis using k i Suc.prems(1) by (auto simp: in_set_conv_nth intro!: exI [of _ k])
  next
    fix j
    assume j: "insert_position start dst i ob = Done j"
      and rest: "insertsort_impl start getitem (insert_at dst j (i - j) ob) (Suc i) objc = Undefined"
    have le: "j \<le> i" by (rule insert_place [OF j])
    have "None \<in> set (take (Suc i) (insert_at dst j (i - j) ob)) \<or> (\<exists>k<objc. getitem k = Inr None)"
      using Suc.hyps(1) [of "Suc i" "insert_at dst j (i - j) ob"] Suc.hyps(2) Suc.prems(1) rest i le
        length_insert_at [of j "i - j" dst ob] by auto
    then show ?thesis
      using le i Suc.prems(1) ob set_take_subset [of j "take i dst"] set_drop_subset [of j "take i dst"]
      by (auto simp: take_insert_at min_def)
  qed
qed

lemma insert_index_order:
  assumes "\<And>k. k < i \<Longrightarrow> below x (dst ! k) = Done (P (dst ! k))" "i \<le> length dst" "j \<le> i"
  shows "insert_index below x dst j i = Done (j + length (takeWhile (\<lambda>y. \<not> P y) (drop j (take i dst))))"
  using assms
proof (induction "i - j" arbitrary: j)
  case 0
  then show ?case by (simp add: insert_index.simps)
next
  case (Suc d)
  then have j: "j < i" by simp
  then have "drop j (take i dst) = dst ! j # drop (Suc j) (take i dst)"
    using Suc.prems(2) by (simp add: Cons_nth_drop_Suc [symmetric])
  then show ?case using Suc j by (subst insert_index.simps) simp
qed

lemma insert_sort_key:
  fixes r :: "'s \<Rightarrow> 'r::linorder"
  shows "takeWhile (\<lambda>y. \<not> r x < r y) (sort_key r xs) @ x # dropWhile (\<lambda>y. \<not> r x < r y) (sort_key r xs)
    = sort_key r (xs @ [x])"
proof -
  define as where "as = takeWhile (\<lambda>y. \<not> r x < r y) (sort_key r xs)"
  define bs where "bs = dropWhile (\<lambda>y. \<not> r x < r y) (sort_key r xs)"
  have split: "as @ bs = sort_key r xs" by (simp add: as_def bs_def)
  have srt: "sorted (map r as)" "sorted (map r bs)" "\<forall>a\<in>set as. \<forall>b\<in>set bs. r a \<le> r b"
    using sorted_sort_key [of r xs] unfolding split [symmetric] by (auto simp: sorted_append)
  have a: "\<forall>a\<in>set as. r a \<le> r x" by (auto simp: as_def dest!: set_takeWhileD)
  have b: "\<forall>b\<in>set bs. r x < r b"
  proof (cases bs)
    case (Cons b bs')
    then have "\<not> \<not> r x < r b" using hd_dropWhile [of "\<lambda>y. \<not> r x < r y" "sort_key r xs"] by (simp add: bs_def)
    then show ?thesis using Cons srt(2) by auto
  qed simp
  have m: "mset as + mset bs = mset xs" using arg_cong [OF split, of mset] by simp
  have st: "filter (\<lambda>z. r k = r z) as @ filter (\<lambda>z. r k = r z) bs = filter (\<lambda>z. r k = r z) xs" for k
    using sort_key_stable [of r "r k" xs] unfolding split [symmetric] by (simp add: eq_commute)
  have "sort_key r (xs @ [x]) = as @ x # bs"
  proof (rule properties_for_sort_key)
    show "mset (as @ x # bs) = mset (xs @ [x])" using m by simp
    show "sorted (map r (as @ x # bs))" using srt a b by (auto simp: sorted_append less_imp_le)
    show "filter (\<lambda>z. r k = r z) (as @ x # bs) = filter (\<lambda>z. r k = r z) (xs @ [x])" for k
    proof -
      have "filter (\<lambda>z. r k = r z) bs = []" if "r k = r x" using b that by (auto simp: filter_empty_conv)
      then show ?thesis using st [of k] by (cases "r k = r x") simp_all
    qed
  qed
  then show ?thesis by (simp add: as_def bs_def)
qed

lemma sort_key_Some: "sort_key (map_option rank) (map Some xs) = map Some (sort_key rank xs)"
proof -
  have "insort_key (map_option rank) (Some x) (map Some ys) = map Some (insort_key rank x ys)" for x ys
    by (induction ys) simp_all
  then show ?thesis by (induction xs) simp_all
qed

text \<open>
  Insertion behind the items that a new one is not compared to be below, and the insertion sort as a fold of it.
\<close>

definition insert_by :: "('a \<Rightarrow> 'a \<Rightarrow> bool) \<Rightarrow> 'a list \<Rightarrow> 'a \<Rightarrow> 'a list" where
  "insert_by below ys x = takeWhile (\<lambda>y. \<not> below x y) ys @ x # dropWhile (\<lambda>y. \<not> below x y) ys"

lemma insert_by_rank:
  fixes rank :: "'a \<Rightarrow> 'r::linorder"
  shows "foldl (insert_by (\<lambda>x y. rank x < rank y)) [] xs = sort_key rank xs"
  by (induction xs rule: rev_induct) (simp_all add: insert_by_def insert_sort_key)

lemma insert_position_by:
  assumes "start x = Done below" "\<And>y. below x (Some y) = Done (P x y)" "take i dst = map Some ys" "i \<le> length dst"
  defines "j \<equiv> length (takeWhile (\<lambda>y. \<not> P x y) ys)"
  shows "insert_position start dst i (Some x) = Done j"
    and "i < length dst \<Longrightarrow> take (Suc i) (insert_at dst j (i - j) (Some x)) = map Some (insert_by P ys x)"
proof -
  have len: "length ys = i" using arg_cong [OF assms(3), of length] assms(4) by simp
  have nth: "dst ! n = Some (ys ! n)" if "n < i" for n
    using that len arg_cong [OF assms(3), of "\<lambda>zs. zs ! n"] by simp
  have "below x (dst ! n) = Done (P x (the (dst ! n)))" if "n < i" for n using nth [OF that] assms(2) by simp
  from insert_index_order [of i below x dst "P x \<circ> the" 0] this assms(4)
  show "insert_position start dst i (Some x) = Done j"
    by (simp add: insert_position_def assms(1,3) takeWhile_map j_def comp_def)
  assume i: "i < length dst"
  have j: "j \<le> i" using length_takeWhile_le [of "\<lambda>y. \<not> P x y" ys] len by (simp add: j_def)
  have "take j dst = map Some (take j ys)" using arg_cong [OF assms(3), of "take j"] j by (simp add: min_def take_map)
  moreover have "take j ys = takeWhile (\<lambda>y. \<not> P x y) ys" "drop j ys = dropWhile (\<lambda>y. \<not> P x y) ys"
    by (simp_all add: j_def takeWhile_eq_take [symmetric] dropWhile_eq_drop [symmetric])
  ultimately show "take (Suc i) (insert_at dst j (i - j) (Some x)) = map Some (insert_by P ys x)"
    by (simp add: take_insert_at [OF j i] assms(3) drop_map insert_by_def)
qed

lemma insertsort_by:
  assumes "length dst = objc" "i \<le> objc" "length xs = objc" "\<forall>n<objc. getitem n = Inr (Some (xs ! n))"
    "\<And>x. \<exists>below. start x = Done below \<and> (\<forall>y. below x (Some y) = Done (P x y))" "take i dst = map Some ys"
  shows "insertsort_impl start getitem dst i objc = Done (map Some (foldl (insert_by P) ys (drop i xs)))"
  using assms
proof (induction "objc - i" arbitrary: i dst ys)
  case 0
  then show ?case by (subst insertsort_impl.simps) simp
next
  case (Suc d)
  then have i: "i < objc" by simp
  define x where "x = xs ! i"
  define j where "j = length (takeWhile (\<lambda>y. \<not> P x y) ys)"
  obtain below where "start x = Done below" "\<And>y. below x (Some y) = Done (P x y)" using Suc.prems(5) by blast
  note ins = insert_position_by [where P = P and start = start and x = x and below = below, OF this Suc.prems(6), folded j_def]
  have len: "length (insert_at dst j (i - j) (Some x)) = objc"
  proof -
    have "length ys = i" using arg_cong [OF Suc.prems(6), of length] Suc.prems(1) i by simp
    then have "j \<le> i" using length_takeWhile_le [of "\<lambda>y. \<not> P x y" ys] by (simp add: j_def)
    then show ?thesis using length_insert_at [of j "i - j" dst] i Suc.prems(1) by simp
  qed
  have "insertsort_impl start getitem (insert_at dst j (i - j) (Some x)) (Suc i) objc
      = Done (map Some (foldl (insert_by P) (insert_by P ys x) (drop (Suc i) xs)))"
    using Suc.hyps(2) Suc.prems(1-5) i len ins(2) by (intro Suc.hyps(1)) simp_all
  moreover have "drop i xs = x # drop (Suc i) xs" using i Suc.prems(3) by (simp add: Cons_nth_drop_Suc x_def)
  ultimately show ?case using Suc.prems(1,4) i ins(1) by (simp add: insertsort_step [OF i] x_def)
qed

lemma insertsort_order:
  fixes getitem :: "nat \<Rightarrow> 'e + 'a item" and rank :: "'a \<Rightarrow> 'r::linorder"
  assumes "length dst = objc" "length xs = objc" "\<forall>k<objc. getitem k = Inr (xs ! k)" "None \<notin> set xs"
  shows "insertsort_impl (below_item (rank_lo rank)) getitem dst 0 objc = Done (sort_key (map_option rank) xs)"
proof -
  have xs: "xs = map Some (map the xs)" using assms(4) by (induction xs) auto
  have "insertsort_impl (below_item (rank_lo rank)) getitem dst 0 objc
      = Done (map Some (foldl (insert_by (\<lambda>x y. rank x < rank y)) [] (drop 0 (map the xs))))"
  proof (rule insertsort_by)
    have "xs ! n = Some (map the xs ! n)" if "n < objc" for n using that assms(2) by (subst xs) simp
    then show "\<forall>n<objc. getitem n = Inr (Some (map the xs ! n))" using assms(3) by simp
  qed (use assms(1,2) in \<open>simp_all add: below_item_def rank_lo_def\<close>)
  then show ?thesis by (subst xs) (simp add: insert_by_rank sort_key_Some del: map_map)
qed

section \<open>The sorts by a rank\<close>

text \<open>\<open>holds_items getitem n xs\<close>: the source has the items \<open>xs\<close>.\<close>

definition holds_items :: "(nat \<Rightarrow> 'e + 'a item) \<Rightarrow> nat \<Rightarrow> 'a item list \<Rightarrow> bool" where
  "holds_items getitem n xs \<longleftrightarrow> length xs = n \<and> (\<forall>i<n. getitem i = Inr (xs ! i))"

lemma unbound_rank: "unbound_lo (rank_lo rank) = rank_lo (map_option rank)"
proof (intro ext)
  show "unbound_lo (rank_lo rank) x y = rank_lo (map_option rank) x y" for x y
    by (cases x; cases y) (auto simp: rank_lo_def)
qed

lemma keyed_rank: "keyed_lo (rank_lo rank) = rank_lo (map_option rank \<circ> snd)"
  unfolding unbound_rank by (simp add: rank_lo_def fun_eq_iff)

lemma CmpLoAsBoolWithKey_rank: "CmpLoAsBoolWithKey (\<lambda>x. Inr (k x)) (rank_lo rank) = rank_lo (rank \<circ> k)"
  by (simp add: CmpLoAsBoolWithKey_def rank_lo_def fun_eq_iff)

lemma map_insort_pair:
  "insort_key (\<lambda>p. h (snd p)) (x, g x) (map (\<lambda>x. (x, g x)) xs)
    = map (\<lambda>x. (x, g x)) (insort_key (\<lambda>x. h (g x)) x xs)"
  by (induction xs) simp_all

lemma sort_key_pairs:
  "sort_key (\<lambda>p. h (snd p)) (map (\<lambda>x. (x, g x)) xs) = map (\<lambda>x. (x, g x)) (sort_key (\<lambda>x. h (g x)) xs)"
  by (induction xs) (simp_all add: map_insort_pair)

lemma map_nth_items: "length xs = n \<Longrightarrow> map ((!) xs) [0..<n] = xs"
  using map_nth [of xs] by simp

lemma mergesort_order:
  assumes "holds_items getitem n xs" "length dst = n" "0 < n"
  shows "\<exists>scratch. mergesort_impl getitem (rank_lo rank) n dst (replicate n None) 0
    = Done (sort_key (map_option rank) (rev xs), scratch)"
proof -
  have "sort_items (item1 getitem) (item2 getitem) (rank_lo (map_option rank)) n 0
      = Done (sort_key (map_option rank) (rev (map ((!) xs) [0..<0 + n])))"
    using assms(1,3) by (intro sort_items_order) (simp_all add: item1_def item2_def holds_items_def)
  then show ?thesis
    using mergesort_in_buffers [of 0 n dst "replicate n None" getitem "rank_lo rank"] assms
    by (auto simp: unbound_rank in_buffers_def map_nth_items holds_items_def put_def)
qed

lemma keyed_mergesort_order:
  assumes "holds_items getitem n xs" "length dst = n" "0 < n"
  shows "\<exists>scratch. mergesort_impl_with_key_cache getitem (\<lambda>x. Inr (k x)) (rank_lo rank) n
      (map (\<lambda>x. (x, None)) dst) (replicate n (None, None)) 0
    = Done (map (\<lambda>x. (x, map_option k x)) (sort_key (map_option (rank \<circ> k)) (rev xs)), scratch)"
proof -
  define f where "f i = (xs ! i, map_option k (xs ! i))" for i
  have ki: "keyed_item (\<lambda>x. Inr (k x)) x = Inr (x, map_option k x)" for x
    by (cases x) (simp_all add: keyed_item_def)
  have f: "map f [0..<0 + n] = map (\<lambda>x. (x, map_option k x)) xs"
    using assms(1) by (intro nth_equalityI) (simp_all add: f_def holds_items_def)
  have "sort_items (keyed1 getitem (\<lambda>x. Inr (k x))) (keyed2 getitem (\<lambda>x. Inr (k x)))
      (rank_lo (map_option rank \<circ> snd)) n 0
      = Done (sort_key (map_option rank \<circ> snd) (rev (map f [0..<0 + n])))"
    using assms(1,3) by (intro sort_items_order) (simp_all add: keyed1_def keyed2_def item2_def ki f_def holds_items_def)
  also have "sort_key (map_option rank \<circ> snd) (rev (map f [0..<0 + n]))
      = map (\<lambda>x. (x, map_option k x)) (sort_key (map_option (rank \<circ> k)) (rev xs))"
    unfolding f rev_map by (simp add: sort_key_pairs comp_def option.map_comp)
  finally show ?thesis
    using keyed_mergesort_in_buffers [of 0 n "map (\<lambda>x. (x, None)) dst" "replicate n (None, None)"
        getitem "\<lambda>x. Inr (k x)" "rank_lo rank"] assms(2)
    by (auto simp: keyed_rank in_buffers_def put_def comp_def)
qed

lemma DeeSeq_Sort_order:
  assumes "holds_items getitem n xs" "length dst = n" "mem \<and> n \<noteq> 2 \<or> n \<le> 1 \<or> None \<notin> set xs"
  shows "DeeSeq_Sort mem (rank_lo rank) n dst getitem
    = Done (sort_key (map_option rank) (if mem \<or> n \<le> 2 then rev xs else xs))"
proof -
  have xs: "length xs = n" "\<And>i. i < n \<Longrightarrow> getitem i = Inr (xs ! i)" using assms(1) by (simp_all add: holds_items_def)
  consider "n = 0" | "n = 1" | "n = 2" | "2 < n" by linarith
  then show ?thesis
  proof cases
    case 1
    then show ?thesis using assms(2) xs by (simp add: DeeSeq_Sort_def)
  next
    case 2
    then obtain x a where "xs = [x]" "dst = [a]" using assms(2) xs by (metis length_0_conv length_Suc_conv One_nat_def)
    then show ?thesis using 2 xs by (simp add: DeeSeq_Sort_def)
  next
    case 3
    obtain x y where "xs = [x, y]" using 3 xs(1) by (metis length_0_conv length_Suc_conv numeral_2_eq_2)
    moreover obtain a b where "dst = [a, b]" using 3 assms(2) by (metis length_0_conv length_Suc_conv numeral_2_eq_2)
    ultimately show ?thesis using 3 xs(2) [of 0] xs(2) [of 1] assms(3)
      by (cases x; cases y) (auto simp: DeeSeq_Sort_def rank_lo_def)
  next
    case 4
    show ?thesis
    proof (cases mem)
      case True
      obtain scratch where "mergesort_impl getitem (rank_lo rank) n dst (replicate n None) 0
          = Done (sort_key (map_option rank) (rev xs), scratch)"
        using mergesort_order [OF assms(1,2), of rank] 4 by auto
      then show ?thesis using True 4 by (simp add: DeeSeq_Sort_def)
    next
      case False
      then show ?thesis
        using insertsort_order [of dst n xs getitem rank] 4 assms xs by (simp add: DeeSeq_Sort_def)
    qed
  qed
qed

lemma DeeSeq_SortWithKey_order:
  assumes "holds_items getitem n xs" "length dst = n" "mem3 \<or> mem1 \<or> n \<le> 2" "n = 2 \<longrightarrow> None \<notin> set xs"
  shows "DeeSeq_SortWithKey mem3 mem1 (\<lambda>x. Inr (k x)) (rank_lo rank) n dst getitem
    = Done (sort_key (map_option (rank \<circ> k)) (rev xs))"
proof (cases "n \<le> 2 \<or> \<not> mem3")
  case True
  then have "DeeSeq_SortWithKey mem3 mem1 (\<lambda>x. Inr (k x)) (rank_lo rank) n dst getitem
      = DeeSeq_Sort True (rank_lo (rank \<circ> k)) n dst getitem"
    using assms(3) by (auto simp: DeeSeq_SortWithKey_def DeeSeq_Sort_def CmpLoAsBoolWithKey_rank)
  then show ?thesis using DeeSeq_Sort_order [OF assms(1,2), of True "rank \<circ> k"] assms(4) by auto
next
  case False
  obtain scratch where "mergesort_impl_with_key_cache getitem (\<lambda>x. Inr (k x)) (rank_lo rank) n
      (map (\<lambda>x. (x, None)) dst) (replicate n (None, None)) 0
    = Done (map (\<lambda>x. (x, map_option k x)) (sort_key (map_option (rank \<circ> k)) (rev xs)), scratch)"
    using keyed_mergesort_order [OF assms(1,2), of k rank] False by auto
  then show ?thesis using False by (simp add: DeeSeq_SortWithKey_def comp_def)
qed

text \<open>Vectors and ranges.\<close>

lemma holds_vector: "holds_items (vector_item src) (length src) (map Some src)"
  by (simp add: holds_items_def vector_item_def)

lemma map_the_Some [simp]: "map (the \<circ> Some) xs = xs"
  by (simp add: comp_def)

lemma SortVector_order:
  "DeeSeq_SortVector mem (rank_lo rank) src = Done (sort_key rank (if mem \<or> length src \<le> 2 then rev src else src))"
  unfolding DeeSeq_SortVector_def
  by (subst DeeSeq_Sort_order [OF holds_vector]) (auto simp: rev_map sort_key_Some)

lemma SortVectorWithKey_order:
  assumes "mem3 \<or> mem1 \<or> length src \<le> 2"
  shows "DeeSeq_SortVectorWithKey mem3 mem1 (\<lambda>x. Inr (k x)) (rank_lo rank) src = Done (sort_key (rank \<circ> k) (rev src))"
  unfolding DeeSeq_SortVectorWithKey_def using assms
  by (subst DeeSeq_SortWithKey_order [OF holds_vector]) (auto simp: rev_map sort_key_Some)

text \<open>Without memory, the insertion sort with a key compares the new object itself with the keys of the others.\<close>

lemma SortVectorWithKey_unkeyed:
  assumes "\<not> (mem3 \<or> mem1 \<or> length src \<le> 2)"
  shows "DeeSeq_SortVectorWithKey mem3 mem1 (\<lambda>x. Inr (k x)) (rank_lo rank :: 'a \<Rightarrow> 'a \<Rightarrow> 'e + bool) src
    = Done (foldl (insert_by (\<lambda>x y. rank x < rank (k y))) [] src)"
proof -
  have "insertsort_impl (below_key (\<lambda>x. Inr (k x)) (rank_lo rank :: 'a \<Rightarrow> 'a \<Rightarrow> 'e + bool))
      (vector_item src) (replicate (length src) None) 0 (length src) = Done (map Some (foldl (insert_by (\<lambda>x y. rank x < rank (k y))) [] (drop 0 src)))"
    by (rule insertsort_by) (simp_all add: vector_item_def below_key_def rank_lo_def)
  then show ?thesis using assms by (simp add: DeeSeq_SortVectorWithKey_def DeeSeq_SortWithKey_def)
qed

lemma sort_range_order:
  assumes "clip_range start stop (length src) = (s, e)"
  shows "sort_range mem3 True None (rank_lo rank) start stop src = Done (sort_key rank (rev (slice s (e - s) src)))"
    "sort_range mem3 True (Some (\<lambda>x. Inr (k x))) (rank_lo rank) start stop src
      = Done (sort_key (rank \<circ> k) (rev (slice s (e - s) src)))"
  by (simp_all add: sort_range_def assms SortVector_order SortVectorWithKey_order slice_def)

lemma clip_range_bounds: "clip_range start stop n = (s, e) \<Longrightarrow> s \<le> e \<and> e \<le> n"
  by (auto simp: clip_range_def Let_def split: if_splits)

lemma List_Sort_range:
  assumes "clip_range start stop (length src) = (s, e)"
    "sort_range mem3 mem1 key lo start stop src = Done ys" "length ys = e - s"
  shows "DeeList_Sort mem3 mem1 key lo start stop src = Done (take s src @ ys @ drop e src)"
  using assms clip_range_bounds [OF assms(1)] by (auto simp: DeeList_Sort_def memcpyc_def Let_def)

text \<open>Unbound items come first, and are trimmed.\<close>

definition bound_items :: "'a item list \<Rightarrow> 'a list" where
  "bound_items xs = map the (filter (\<lambda>x. x \<noteq> None) xs)"

lemma dropWhile_None:
  "sorted (map (map_option rank) xs) \<Longrightarrow> dropWhile (\<lambda>x. x = None) xs = filter (\<lambda>x. x \<noteq> None) xs"
proof (induction xs)
  case (Cons x xs)
  have "y \<noteq> None" if "Some (rank a) \<le> map_option rank y" for a y
    using that by (cases y) simp_all
  then show ?case using Cons by (cases x) (auto intro!: filter_True [symmetric])
qed simp

lemma map_Some_bound: "map Some (bound_items xs) = filter (\<lambda>x. x \<noteq> None) xs"
  by (induction xs) (auto simp: bound_items_def)

lemma trim_unbound_sort: "trim_unbound (sort_key (map_option rank) xs) = sort_key rank (bound_items xs)"
proof -
  have "dropWhile (\<lambda>x. x = None) (sort_key (map_option rank) xs)
      = sort_key (map_option rank) (map Some (bound_items xs))"
    unfolding map_Some_bound filter_sort [symmetric] by (rule dropWhile_None [of rank]) simp
  then show ?thesis by (simp add: trim_unbound_def sort_key_Some)
qed

lemma seq_sorted_order:
  assumes "clip_range start stop selfsize = (s, e)" "holds_items (\<lambda>i. getitem (s + i)) (e - s) xs"
    "mem \<and> e - s \<noteq> 2 \<or> e - s \<le> 1 \<or> None \<notin> set xs"
  shows "seq_sorted mem (rank_lo rank) selfsize getitem start stop
    = Done (sort_key rank (bound_items (if mem \<or> e - s \<le> 2 then rev xs else xs)))"
proof (cases "e - s = 0")
  case True
  then show ?thesis using assms by (auto simp: seq_sorted_def holds_items_def bound_items_def)
next
  case False
  then show ?thesis
    using DeeSeq_Sort_order [OF assms(2), of "replicate (e - s) None" mem rank] assms
    by (simp add: seq_sorted_def Let_def trim_unbound_sort)
qed

section \<open>Interface of the comparison\<close>

text \<open>
  What the sorts rely on: \<open>a < b\<close> of two objects never fails and compares ranks in some linear order.
\<close>

locale sort_order =
  fixes lo :: "'a \<Rightarrow> 'a \<Rightarrow> 'e + bool" and rank :: "'a \<Rightarrow> 'r::linorder"
  assumes lo_rank: "lo a b = Inr (rank a < rank b)"
begin

lemma lo_eq: "lo = rank_lo rank"
  by (simp add: fun_eq_iff lo_rank rank_lo_def)

lemma sort_vector:
  "DeeSeq_SortVector mem lo src = Done (sort_key rank (if mem \<or> length src \<le> 2 then rev src else src))"
  unfolding lo_eq by (rule SortVector_order)

lemma sort_vector_with_key:
  assumes "mem3 \<or> mem1 \<or> length src \<le> 2" "\<And>a. key a = Inr (k a)"
  shows "DeeSeq_SortVectorWithKey mem3 mem1 key lo src = Done (sort_key (rank \<circ> k) (rev src))"
proof -
  have "key = (\<lambda>a. Inr (k a))" using assms(2) by (simp add: fun_eq_iff)
  then show ?thesis using SortVectorWithKey_order [OF assms(1), of k rank] by (simp add: lo_eq)
qed

lemma sort_vector_unkeyed:
  assumes "\<not> (mem3 \<or> mem1 \<or> length src \<le> 2)" "\<And>a. key a = Inr (k a)"
  shows "DeeSeq_SortVectorWithKey mem3 mem1 key lo src = Done (foldl (insert_by (\<lambda>x y. rank x < rank (k y))) [] src)"
proof -
  have "key = (\<lambda>a. Inr (k a))" using assms(2) by (simp add: fun_eq_iff)
  then show ?thesis using SortVectorWithKey_unkeyed [OF assms(1), of k rank] by (simp add: lo_eq)
qed

lemma list_sort:
  assumes "clip_range start stop (length src) = (s, e)"
  shows "DeeList_Sort mem3 True None lo start stop src
    = Done (take s src @ sort_key rank (rev (slice s (e - s) src)) @ drop e src)"
  using List_Sort_range [OF assms sort_range_order(1) [OF assms]] clip_range_bounds [OF assms]
  unfolding lo_eq by simp

lemma sorted_sequence:
  assumes "clip_range start stop selfsize = (s, e)" "holds_items (\<lambda>i. getitem (s + i)) (e - s) xs"
    "mem \<and> e - s \<noteq> 2 \<or> e - s \<le> 1 \<or> None \<notin> set xs"
  shows "seq_sorted mem lo selfsize getitem start stop
    = Done (sort_key rank (bound_items (if mem \<or> e - s \<le> 2 then rev xs else xs)))"
  unfolding lo_eq by (rule seq_sorted_order [OF assms])

end

text \<open>\<open>DeeObject_CmpLoAsBool\<close> on two integers is their \<open>operator <\<close>, which is an order.\<close>

definition int_CmpLoAsBool :: "bigint \<Rightarrow> bigint \<Rightarrow> bool result" where
  "int_CmpLoAsBool a b = int_cmp_lo (\<lambda>_ :: unit. None) (Rep_bigint a) (IntObject (Rep_bigint b))"

interpretation int_sort: sort_order int_CmpLoAsBool "\<lambda>x. x"
  by unfold_locales
    (simp add: int_CmpLoAsBool_def int_cmp_lo_def DeeObject_Int_def less_bigint_def)

lemma int_vector_sort: "DeeSeq_SortVector mem int_CmpLoAsBool zs = Done (sort zs)"
proof -
  have "sort (rev zs) = sort zs" by (rule properties_for_sort [symmetric]) simp_all
  then show ?thesis using int_sort.sort_vector [of mem zs] by simp
qed

section \<open>The sorts with arbitrary callbacks\<close>

text \<open>
  \<open>sound\<close>: the items returned are those of the source in some order; an error is one of a callback;
  the behaviour is undefined only with an unbound item and where markers are not looked for.
\<close>

definition raised ::
  "(nat \<Rightarrow> 'e + 'a item) \<Rightarrow> ('a \<Rightarrow> 'e + 'a) \<Rightarrow> ('a \<Rightarrow> 'a \<Rightarrow> 'e + bool) \<Rightarrow> 'e \<Rightarrow> bool" where
  "raised getitem key lo e \<longleftrightarrow> (\<exists>i. getitem i = Inl e) \<or> (\<exists>a. key a = Inl e) \<or> (\<exists>a b. lo a b = Inl e)"

definition sound ::
  "(nat \<Rightarrow> 'e + 'a item) \<Rightarrow> ('e \<Rightarrow> bool) \<Rightarrow> bool \<Rightarrow> nat \<Rightarrow> ('e, 'a item list) outcome \<Rightarrow> bool" where
  "sound getitem err careful n r \<longleftrightarrow>
     (case r of
        Done ys \<Rightarrow> \<exists>xs. holds_items getitem n xs \<and> mset ys = mset xs
      | Failed e \<Rightarrow> err e
      | Undefined \<Rightarrow> \<not> careful \<and> (\<exists>i<n. getitem i = Inr None))"

lemma unbound_lo_failed: "unbound_lo lo x y = Inl e \<Longrightarrow> \<exists>a b. lo a b = Inl e"
  by (cases "(lo, x, y)" rule: unbound_lo.cases) auto

lemma CmpLoAsBoolWithKey_failed:
  "CmpLoAsBoolWithKey key lo x y = Inl e \<Longrightarrow> (\<exists>a. key a = Inl e) \<or> (\<exists>a b. lo a b = Inl e)"
  by (auto simp: CmpLoAsBoolWithKey_def split: sum.splits)

lemma mergesort_sound:
  assumes "length dst = n" "0 < n"
  shows "sound getitem (\<lambda>e. (\<exists>i. getitem i = Inl e) \<or> (\<exists>a b. lo a b = Inl e)) careful n
    (bind (mergesort_impl getitem lo n dst (replicate n None) 0) (\<lambda>(dst, scratch). Done dst))"
proof -
  let ?r = "sort_items (item1 getitem) (item2 getitem) (unbound_lo lo) n 0"
  have b: "in_buffers n 0 ?r (mergesort_impl getitem lo n dst (replicate n None) 0) dst (replicate n None)"
    using assms by (intro mergesort_in_buffers) simp_all
  show ?thesis
  proof (cases ?r)
    case (Done ms)
    have "item1 getitem i = Done x \<and> item1 getitem (i + 1) = Done y" if "item2 getitem i = Done (x, y)" for i x y
      using that by (auto simp: item1_def item2_def bind_Done_iff)
    from sort_items_mset [OF this Done] obtain xs where xs: "length xs = n" "\<forall>i<n. item1 getitem i = Done (xs ! i)"
      "mset ms = mset xs" by auto
    then show ?thesis using b Done assms(1) by (auto simp: in_buffers_def sound_def holds_items_def item1_def put_def)
  next
    case (Failed e)
    have "(\<exists>i. item1 getitem i = Failed e \<or> item2 getitem i = Failed e) \<or> (\<exists>x y. unbound_lo lo x y = Inl e)"
      by (rule sort_items_failed [OF Failed])
    then have "(\<exists>i. getitem i = Inl e) \<or> (\<exists>a b. lo a b = Inl e)"
      using unbound_lo_failed [of lo _ _ e] by (auto simp: item1_def item2_def bind_Failed_iff)
    then show ?thesis using b Failed by (auto simp: in_buffers_def sound_def)
  next
    case Undefined
    then show ?thesis
      using sort_items_defined [of "item1 getitem" "item2 getitem" n "unbound_lo lo" 0] assms(2)
      by (simp add: item1_def item2_def bind_Undefined_iff)
  qed
qed

lemma keyed_item_iff:
  "keyed_item key x = Inr p \<Longrightarrow> fst p = x" "keyed_item key x = Inl e \<Longrightarrow> \<exists>a. key a = Inl e"
  by (cases x; cases "key (the x)"; auto simp: keyed_item_def)+

lemma keyed_mergesort_sound:
  assumes "length dst = n" "0 < n"
  shows "sound getitem (raised getitem key lo) careful n
    (bind (mergesort_impl_with_key_cache getitem key lo n (map (\<lambda>x. (x, None)) dst) (replicate n (None, None)) 0)
       (\<lambda>(dst, scratch). Done (map fst dst)))"
proof -
  let ?r = "sort_items (keyed1 getitem key) (keyed2 getitem key) (keyed_lo lo) n 0"
  have b: "in_buffers n 0 ?r
      (mergesort_impl_with_key_cache getitem key lo n (map (\<lambda>x. (x, None)) dst) (replicate n (None, None)) 0)
      (map (\<lambda>x. (x, None)) dst) (replicate n (None, None))"
    using assms by (intro keyed_mergesort_in_buffers) simp_all
  show ?thesis
  proof (cases ?r)
    case (Done ms)
    have "keyed1 getitem key i = Done x \<and> keyed1 getitem key (i + 1) = Done y"
      if "keyed2 getitem key i = Done (x, y)" for i x y
      using that by (auto simp: keyed1_def keyed2_def item2_def bind_Done_iff)
    from sort_items_mset [OF this Done] obtain xs where xs: "length xs = n"
      "\<forall>i<n. keyed1 getitem key i = Done (xs ! i)" "mset ms = mset xs" by auto
    have "\<forall>i<n. getitem i = Inr (map fst xs ! i)"
      using xs(1,2) by (fastforce simp: keyed1_def bind_Done_iff dest: keyed_item_iff(1))
    moreover have "mset (map fst ms) = mset (map fst xs)" using xs(3) by simp
    ultimately show ?thesis using b Done assms(1) xs(1)
      by (auto simp: in_buffers_def sound_def holds_items_def put_def intro!: exI [of _ "map fst xs"])
  next
    case (Failed e)
    from sort_items_failed [OF Failed] have "raised getitem key lo e"
      using unbound_lo_failed [of lo _ _ e] keyed_item_iff(2) [of key _ e]
      by (auto simp: raised_def keyed1_def keyed2_def item2_def bind_Failed_iff)
    then show ?thesis using b Failed by (auto simp: in_buffers_def sound_def)
  next
    case Undefined
    then show ?thesis
      using sort_items_defined [of "keyed1 getitem key" "keyed2 getitem key" n "keyed_lo lo" 0] assms(2)
      by (simp add: keyed1_def keyed2_def item2_def bind_Undefined_iff split: prod.splits)
  qed
qed

lemma insertsort_sound:
  assumes "length dst = n" "\<And>x. start x \<noteq> Undefined"
    "\<And>x below y. start x = Done below \<Longrightarrow> below x (Some y) \<noteq> Undefined"
    "\<And>e. (\<exists>i. getitem i = Inl e) \<or> (\<exists>x. start x = Failed e)
       \<or> (\<exists>x below y. start x = Done below \<and> below x y = Failed e) \<Longrightarrow> err e"
  shows "sound getitem err False n (insertsort_impl start getitem dst 0 n)"
proof (cases "insertsort_impl start getitem dst 0 n")
  case (Done ys)
  then show ?thesis using insertsort_mset [OF assms(1) _ Done] by (auto simp: sound_def holds_items_def)
next
  case (Failed e)
  then show ?thesis using assms(4) [OF insertsort_failed [OF Failed]] by (simp add: sound_def)
next
  case Undefined
  then show ?thesis using insertsort_undefined [of dst n 0 start getitem] assms(1-3) by (auto simp: sound_def)
qed

lemma direct_lo_cases:
  "direct_lo lo x y = Done b \<Longrightarrow> x \<noteq> None \<and> y \<noteq> None"
  "direct_lo lo x y = Failed e \<Longrightarrow> \<exists>a b. lo a b = Inl e"
  "direct_lo lo x y = Undefined \<Longrightarrow> x = None \<or> y = None"
  by (cases x; cases y; auto)+

text \<open>At most two items.\<close>

lemma small_sound:
  assumes "length dst = n" "n \<le> 2"
  shows "sound getitem (\<lambda>e. (\<exists>i. getitem i = Inl e) \<or> (\<exists>a b. lo a b = Inl e)) (n \<noteq> 2) n
    (DeeSeq_Sort mem lo n dst getitem)"
proof -
  consider "n = 0" | "n = 1" | "n = 2" using assms(2) by linarith
  then show ?thesis
  proof cases
    case 1
    then show ?thesis using assms(1) by (simp add: DeeSeq_Sort_def sound_def holds_items_def)
  next
    case 2
    then obtain d where "dst = [d]" using assms(1) by (metis length_0_conv length_Suc_conv One_nat_def)
    then show ?thesis using 2 by (cases "getitem 0") (auto simp: DeeSeq_Sort_def sound_def holds_items_def intro!: exI [of _ "[_]"])
  next
    case 3
    then obtain d e where d: "dst = [d, e]" using assms(1) by (metis length_0_conv length_Suc_conv numeral_2_eq_2)
    show ?thesis
    proof (cases "DeeSeq_Sort mem lo n dst getitem")
      case (Done ys)
      then obtain x y where "getitem 0 = Inr x" "getitem 1 = Inr y" "ys = [x, y] \<or> ys = [y, x]"
        using 3 d by (auto simp: DeeSeq_Sort_def bind_Done_iff split: if_splits)
      then show ?thesis using Done 3
        by (auto simp: sound_def holds_items_def less_2_cases_iff intro!: exI [of _ "[x, y]"])
    next
      case (Failed err)
      then show ?thesis using 3 direct_lo_cases(2) [of lo _ _ err]
        by (auto simp: DeeSeq_Sort_def sound_def bind_Failed_iff)
    next
      case Undefined
      then obtain x y where "getitem 0 = Inr x" "getitem 1 = Inr y" "direct_lo lo x y = Undefined"
        using 3 by (auto simp: DeeSeq_Sort_def bind_Undefined_iff)
      then have "\<exists>i<2. getitem i = Inr None" using direct_lo_cases(3) [of lo x y] by (auto intro: exI [of _ 0] exI [of _ 1])
      then show ?thesis using Undefined 3 by (simp add: sound_def)
    qed
  qed
qed

lemma sound_mono:
  assumes "sound getitem err careful n r" "\<And>e. err e \<Longrightarrow> err' e" "careful' \<Longrightarrow> careful"
  shows "sound getitem err' careful' n r"
  using assms by (auto simp: sound_def split: outcome.splits)

lemma Sort_sound:
  assumes "length dst = n"
  shows "sound getitem (\<lambda>e. (\<exists>i. getitem i = Inl e) \<or> (\<exists>a b. lo a b = Inl e)) (n \<noteq> 2 \<and> (mem \<or> n \<le> 1)) n
    (DeeSeq_Sort mem lo n dst getitem)"
proof (cases "n \<le> 2")
  case True
  show ?thesis using small_sound [OF assms True] by (rule sound_mono) auto
next
  case big: False
  show ?thesis
  proof (cases mem)
    case True
    then have "DeeSeq_Sort mem lo n dst getitem
        = bind (mergesort_impl getitem lo n dst (replicate n None) 0) (\<lambda>(dst, scratch). Done dst)"
      using big by (simp add: DeeSeq_Sort_def)
    then show ?thesis using mergesort_sound [OF assms, of getitem lo "n \<noteq> 2 \<and> (mem \<or> n \<le> 1)"] big by simp
  next
    case False
    have "sound getitem (\<lambda>e. (\<exists>i. getitem i = Inl e) \<or> (\<exists>a b. lo a b = Inl e)) False n
        (insertsort_impl (below_item lo) getitem dst 0 n)"
      by (rule insertsort_sound [OF assms]) (auto simp: below_item_def dest: direct_lo_cases(2))
    then show ?thesis using False big by (auto simp: DeeSeq_Sort_def elim: sound_mono)
  qed
qed

lemma SortWithKey_sound:
  assumes "length dst = n"
  shows "sound getitem (raised getitem key lo) (n \<noteq> 2 \<and> (mem3 \<or> mem1 \<or> n \<le> 1)) n
    (DeeSeq_SortWithKey mem3 mem1 key lo n dst getitem)"
proof (cases "n \<le> 2 \<or> \<not> mem3 \<and> mem1")
  case True
  then have "DeeSeq_SortWithKey mem3 mem1 key lo n dst getitem
      = DeeSeq_Sort True (CmpLoAsBoolWithKey key lo) n dst getitem"
    by (auto simp: DeeSeq_SortWithKey_def DeeSeq_Sort_def)
  then show ?thesis
    using Sort_sound [OF assms, of getitem "CmpLoAsBoolWithKey key lo" True]
    by (auto elim!: sound_mono simp: raised_def dest: CmpLoAsBoolWithKey_failed)
next
  case False
  show ?thesis
  proof (cases mem3)
    case True
    then show ?thesis
      using keyed_mergesort_sound [OF assms, of getitem key lo "n \<noteq> 2 \<and> (mem3 \<or> mem1 \<or> n \<le> 1)"] False
      by (simp add: DeeSeq_SortWithKey_def)
  next
    case no_mem: False
    have "sound getitem (raised getitem key lo) False n (insertsort_impl (below_key key lo) getitem dst 0 n)"
      by (rule insertsort_sound [OF assms])
        (auto simp: below_key_def bind_Undefined_iff bind_Failed_iff bind_Done_iff raised_def split: option.splits)
    then show ?thesis using False no_mem by (auto simp: DeeSeq_SortWithKey_def elim: sound_mono)
  qed
qed

section \<open>Properties\<close>

text \<open>C10: sorting by an order.

  With a comparison that ranks objects in a linear order, a vector becomes sorted: it is the
  stable sort of the vector read backwards, so objects of equal rank end up in reverse.  Only when
  there is no memory for the scratch buffer, and with three objects at least, is it the stable
  sort of the vector itself.  By keys, the vector becomes the stable sort of the vector read backwards as long as one
  of the two buffers can be allocated or there are at most two objects.  Otherwise the objects are inserted one after the
  other before the first one whose key ranks above the new object itself, not above its key, so the result need not be
  sorted.  With memory and without a key, \<open>DeeList_Sort\<close> sorts the range and leaves the rest, and \<open>seq_sorted\<close>
  over a source with unbound items drops these and sorts the others; not when it has just two items and one is unbound.
  A vector of integer objects becomes sorted under their operator.\<close>

theorem sort_by_order:
  fixes rank :: "'a \<Rightarrow> 'r::linorder"
  assumes "\<forall>a b. lo a b = Inr (rank a < rank b)" "\<forall>a. key a = Inr (k a)"
    "clip_range start stop (length src) = (s, e)" "holds_items (\<lambda>i. getitem (s + i)) (e - s) xs"
    "None \<notin> set xs \<or> e - s \<noteq> 2"
  shows "DeeSeq_SortVector mem lo src = Done (sort_key rank (if mem \<or> length src \<le> 2 then rev src else src))
    \<and> (if mem3 \<or> mem1 \<or> length src \<le> 2
       then DeeSeq_SortVectorWithKey mem3 mem1 key lo src = Done (sort_key (rank \<circ> k) (rev src))
       else DeeSeq_SortVectorWithKey mem3 mem1 key lo src
         = Done (foldl (insert_by (\<lambda>x y. rank x < rank (k y))) [] src))
    \<and> DeeList_Sort mem3 True None lo start stop src
        = Done (take s src @ sort_key rank (rev (take (e - s) (drop s src))) @ drop e src)
    \<and> seq_sorted True lo (length src) getitem start stop = Done (sort_key rank (bound_items (rev xs)))
    \<and> DeeSeq_SortVector mem int_CmpLoAsBool zs = Done (sort zs)"
proof -
  have o: "sort_order lo rank" using assms(1) by unfold_locales simp
  show ?thesis
    using sort_order.sort_vector [OF o] sort_order.sort_vector_with_key [OF o] sort_order.sort_vector_unkeyed [OF o] assms(2)
      sort_order.list_sort [OF o assms(3)] sort_order.sorted_sequence [OF o assms(3,4), of True] assms(5)
      int_vector_sort [of mem zs]
    by (auto simp: slice_def)
qed

theorem sort_by_order_witness:
  "DeeSeq_SortVector True (\<lambda>a b. Inr (a < b) :: unit + bool) [3, 1, 4, 2 :: int] = Done [1, 2, 3, 4]
   \<and> DeeList_Sort True True None (\<lambda>a b. Inr (a < b) :: unit + bool) 0 9 [3, 1, 4, 2 :: int] = Done [1, 2, 3, 4]
   \<and> seq_sorted True (\<lambda>a b. Inr (a < b) :: unit + bool) 4 (\<lambda>i. Inr ([None, Some 2, None, Some (1 :: int)] ! i)) 0 9
       = Done [1, 2]"
proof -
  have len: "length [3, 1, 4, 2 :: int] = 4" by simp
  show ?thesis
    using sort_by_order [of "\<lambda>a b. Inr (a < b) :: unit + bool" "\<lambda>x. x" "\<lambda>x. Inr x" "\<lambda>x. x" 0 9
        "[3, 1, 4, 2 :: int]" 0 4 "\<lambda>i. Inr ([None, Some 2, None, Some (1 :: int)] ! i)"
        "[None, Some 2, None, Some 1]" True True True, unfolded len]
    by (simp add: clip_range_def holds_items_def bound_items_def)
qed

lemma sort_flaws:
  "DeeSeq_SortVectorWithKey False False (\<lambda>x. Inr (- x)) (\<lambda>a b. Inr (a < b) :: unit + bool) [1, 2, 3 :: int]
     = Done [1, 2, 3]
   \<and> DeeSeq_SortVectorWithKey True True (\<lambda>x. Inr (- x)) (\<lambda>a b. Inr (a < b) :: unit + bool) [1, 2, 3 :: int]
     = Done [3, 2, 1]
   \<and> (\<forall>mem lo dst x. DeeSeq_Sort mem lo 2 dst (\<lambda>i. Inr (if i = 0 then None else x)) = Undefined)
   \<and> (\<forall>lo dst a n. if 2 < n \<and> length dst = n
        then DeeSeq_Sort False lo n dst (\<lambda>i. Inr (if i = 0 then None else Some a)) = Undefined else True)"
proof (intro conjI allI)
  show "DeeSeq_SortVectorWithKey False False (\<lambda>x. Inr (- x)) (\<lambda>a b. Inr (a < b) :: unit + bool) [1, 2, 3 :: int]
     = Done [1, 2, 3]"
    by code_simp
  show "DeeSeq_SortVectorWithKey True True (\<lambda>x. Inr (- x)) (\<lambda>a b. Inr (a < b) :: unit + bool) [1, 2, 3 :: int]
     = Done [3, 2, 1]"
    by code_simp
  show "DeeSeq_Sort mem lo 2 dst (\<lambda>i. Inr (if i = 0 then None else x)) = Undefined" for mem lo dst x
    by (simp add: DeeSeq_Sort_def)
  show "if 2 < n \<and> length dst = n
      then DeeSeq_Sort False lo n dst (\<lambda>i. Inr (if i = 0 then None else Some a)) = Undefined else True" for lo dst a n
  proof -
    have "insert_at dst 0 0 None ! 0 = None" if "2 < n" "length dst = n"
      using that by (simp add: insert_at_def memcpyc_def)
    then show ?thesis
      by (auto simp: DeeSeq_Sort_def insertsort_step insert_position_def below_item_def insert_index.simps)
  qed
qed

text \<open>C11: sorting with arbitrary callbacks.

  Whatever the comparison, the key function and the item accessor do, and whether or not memory can
  be allocated: a sort that returns has moved the items of the source, none lost and none
  duplicated; an error it returns was raised by a callback; and a marker of an unbound item
  reaches a callback only when two items are sorted or no scratch buffer could be allocated.
  There the sorts go wrong: with two items of which one is unbound, and when an unbound item comes
  before a bound one in the insertion sort, the marker is passed to the comparison.  With a key and no
  memory, the insertion sort compares an item itself, and not its key, with the keys of the items
  placed before: \<open>[1, 2, 3]\<close> by the negated value stays as it is.\<close>

theorem sort_sound:
  assumes "length dst = n"
  shows "sound getitem (\<lambda>e. (\<exists>i. getitem i = Inl e) \<or> (\<exists>a b. lo a b = Inl e)) (n \<noteq> 2 \<and> (mem \<or> n \<le> 1)) n
      (DeeSeq_Sort mem lo n dst getitem)
    \<and> sound getitem (raised getitem key lo) (n \<noteq> 2 \<and> (mem3 \<or> mem1 \<or> n \<le> 1)) n
      (DeeSeq_SortWithKey mem3 mem1 key lo n dst getitem)
    \<and> DeeSeq_SortVectorWithKey False False (\<lambda>x. Inr (- x)) (\<lambda>a b. Inr (a < b) :: unit + bool) [1, 2, 3 :: int]
      = Done [1, 2, 3]
    \<and> DeeSeq_SortVectorWithKey True True (\<lambda>x. Inr (- x)) (\<lambda>a b. Inr (a < b) :: unit + bool) [1, 2, 3 :: int]
      = Done [3, 2, 1]
    \<and> (\<forall>mem lo dst x. DeeSeq_Sort mem lo 2 dst (\<lambda>i. Inr (if i = 0 then None else x)) = Undefined)
    \<and> (\<forall>lo dst a n. if 2 < n \<and> length dst = n
         then DeeSeq_Sort False lo n dst (\<lambda>i. Inr (if i = 0 then None else Some a)) = Undefined else True)"
  using Sort_sound [OF assms] SortWithKey_sound [OF assms] sort_flaws by blast

theorem sort_sound_witness:
  "sound (\<lambda>i. Inr (Some i)) (raised (\<lambda>i. Inr (Some i)) (\<lambda>_. Inl ()) (\<lambda>a b. Inr True)) True 3
     (DeeSeq_SortWithKey True False (\<lambda>_. Inl ()) (\<lambda>a b. Inr True) 3 [None, None, None] (\<lambda>i. Inr (Some (i :: nat))))"
  using sort_sound [of "[None, None, None]" 3 "\<lambda>i. Inr (Some i)" "\<lambda>a b. Inr True" True "\<lambda>_. Inl ()" True False,
      THEN conjunct2, THEN conjunct1] by simp

end
