(* ===== verification/StringPack.thy ===== *)
theory StringPack
  imports Utf8
begin

text \<open>
  Building string objects from text in UTF-8, UTF-16, UTF-32 and from 16-bit characters
  (src/deemon/objects/unicode/unicode.c).  A string keeps its UTF-8 bytes and its characters at a
  width of 1, 2 or 4 bytes.  Allocation always succeeds.  \<open>None\<close> is a failed assertion or an access
  outside an allocated buffer.
\<close>

section \<open>String objects\<close>

text \<open>The characters at the width of the string: \<open>u_data[u_width]\<close>, or \<open>s_str\<close> without a \<open>Dee_string_utf\<close>.\<close>

datatype string_data = Width1 "u8 list" | Width2 "u16 list" | Width4 "u32 list"

record dee_string =
  s_str :: "u8 list"
  u_data :: string_data

fun data_chars :: "string_data \<Rightarrow> u32 list" where
  "data_chars (Width1 cs) = map ucast cs"
| "data_chars (Width2 cs) = map ucast cs"
| "data_chars (Width4 cs) = cs"

definition DeeString_NewEmpty :: dee_string where
  "DeeString_NewEmpty = \<lparr>s_str = [], u_data = Width1 []\<rparr>"

definition STRING_ERROR_FREPLAC :: u32 where "STRING_ERROR_FREPLAC = 0x0001"
definition STRING_ERROR_FIGNORE :: u32 where "STRING_ERROR_FIGNORE = 0x0002"

section \<open>From UTF-8\<close>

text \<open>
  The three loops of \<open>DeeString_NewUtf8\<close>, \<open>DeeString_TryNewUtf8\<close> and \<open>DeeString_SetUtf8\<close>.  The bytes of
  \<open>s_str\<close> are \<open>str\<close> (before \<open>iter\<close>), \<open>text\<close> (from \<open>iter\<close> to \<open>end\<close>) and \<open>stale\<close> (behind \<open>end\<close>, up to
  the length of the string).  When a byte is removed the others move down, and \<open>end\<close> with them; the
  last byte is then stale, unless the length is decremented as well (\<open>shrink\<close>, in the first loop of
  the functions that allocate).
\<close>

definition utf8_invalid :: "u8 list \<Rightarrow> bool" where
  "utf8_invalid text \<longleftrightarrow>
     (let seqlen = Dee_unicode_utf8seqlen (hd text) in seqlen = 0 \<or> seqlen > length text)"

function utf8_loop32 :: "u32 \<Rightarrow> u8 list \<Rightarrow> u32 list \<Rightarrow> u8 list \<Rightarrow> u8 list \<Rightarrow> dee_error + dee_string" where
  "utf8_loop32 error_mode str dst32 [] stale = Inr \<lparr>s_str = str @ stale, u_data = Width4 dst32\<rparr>"
| "utf8_loop32 error_mode str dst32 (ch # iter) stale =
     (if ch \<le> 0x7f then utf8_loop32 error_mode (str @ [ch]) (dst32 @ [ucast ch]) iter stale
      else if utf8_invalid (ch # iter) then
        if error_mode = STRING_ERROR_FREPLAC then utf8_loop32 error_mode (str @ [0x3f]) (dst32 @ [0x3f]) iter stale
        else if error_mode = STRING_ERROR_FIGNORE then utf8_loop32 error_mode str dst32 iter (last (ch # iter) # stale)
        else Inl UnicodeDecodeError
      else
        let seqlen = Dee_unicode_utf8seqlen ch
        in utf8_loop32 error_mode (str @ take seqlen (ch # iter)) (dst32 @ [utf8_getchar (ch # iter) seqlen])
             (drop (seqlen - 1) iter) stale)"
  by pat_completeness auto
termination by (relation "measure (\<lambda>(error_mode, str, dst, text, stale). length text)") auto

function utf8_loop16 :: "u32 \<Rightarrow> u8 list \<Rightarrow> u16 list \<Rightarrow> u8 list \<Rightarrow> u8 list \<Rightarrow> dee_error + dee_string" where
  "utf8_loop16 error_mode str dst16 [] stale = Inr \<lparr>s_str = str @ stale, u_data = Width2 dst16\<rparr>"
| "utf8_loop16 error_mode str dst16 (ch # iter) stale =
     (if ch \<le> 0x7f then utf8_loop16 error_mode (str @ [ch]) (dst16 @ [ucast ch]) iter stale
      else if utf8_invalid (ch # iter) then
        if error_mode = STRING_ERROR_FREPLAC then utf8_loop16 error_mode (str @ [0x3f]) (dst16 @ [0x3f]) iter stale
        else if error_mode = STRING_ERROR_FIGNORE then utf8_loop16 error_mode str dst16 iter (last (ch # iter) # stale)
        else Inl UnicodeDecodeError
      else
        let seqlen = Dee_unicode_utf8seqlen ch; ch32 = utf8_getchar (ch # iter) seqlen;
            str = str @ take seqlen (ch # iter); iter = drop (seqlen - 1) iter
        in if ch32 > 0xffff then utf8_loop32 error_mode str (map ucast dst16 @ [ch32]) iter stale
           else utf8_loop16 error_mode str (dst16 @ [ucast ch32]) iter stale)"
  by pat_completeness auto
termination by (relation "measure (\<lambda>(error_mode, str, dst, text, stale). length text)") auto

function utf8_loop :: "bool \<Rightarrow> u32 \<Rightarrow> u8 list \<Rightarrow> u8 list \<Rightarrow> u8 list \<Rightarrow> dee_error + dee_string" where
  "utf8_loop shrink error_mode str [] stale = Inr \<lparr>s_str = str @ stale, u_data = Width1 (str @ stale)\<rparr>"
| "utf8_loop shrink error_mode str (ch # iter) stale =
     (if ch \<le> 0x7f then utf8_loop shrink error_mode (str @ [ch]) iter stale
      else if utf8_invalid (ch # iter) then
        if error_mode = STRING_ERROR_FREPLAC then utf8_loop shrink error_mode (str @ [0x3f]) iter stale
        else if error_mode = STRING_ERROR_FIGNORE then
          utf8_loop shrink error_mode str iter (if shrink then stale else last (ch # iter) # stale)
        else Inl UnicodeDecodeError
      else
        let seqlen = Dee_unicode_utf8seqlen ch; ch32 = utf8_getchar (ch # iter) seqlen
        in if ch32 \<le> 0x7f then
             utf8_loop shrink error_mode (str @ [ucast ch32])
               (drop (seqlen - 1) iter @ drop (length iter - (seqlen - 1)) iter) stale
           else
             let dst = str; str = str @ take seqlen (ch # iter); iter = drop (seqlen - 1) iter
             in if ch32 > 0xffff then utf8_loop32 error_mode str (map ucast dst @ [ch32]) iter stale
                else utf8_loop16 error_mode str (map ucast dst @ [ucast ch32]) iter stale)"
  by pat_completeness auto
termination by (relation "measure (\<lambda>(shrink, error_mode, str, text, stale). length text)") auto

definition DeeString_NewUtf8 :: "u8 list \<Rightarrow> u32 \<Rightarrow> dee_error + dee_string" where
  "DeeString_NewUtf8 str error_mode = utf8_loop True error_mode [] str []"

definition DeeString_SetUtf8 :: "u8 list \<Rightarrow> u32 \<Rightarrow> dee_error + dee_string" where
  "DeeString_SetUtf8 text error_mode = utf8_loop False error_mode [] text []"

text \<open>\<open>DeeString_TryNewUtf8\<close> ignores what it does not replace; its result is an object or asserted.\<close>

definition DeeString_TryNewUtf8 :: "u8 list \<Rightarrow> u32 \<Rightarrow> (dee_error + dee_string) option" where
  "DeeString_TryNewUtf8 str error_mode =
     (if error_mode = STRING_ERROR_FREPLAC \<or> error_mode = STRING_ERROR_FIGNORE
      then Some (utf8_loop True error_mode [] str []) else None)"

section \<open>From 16-bit and 32-bit characters\<close>

fun utf32_to_utf8 :: "u32 list \<Rightarrow> u8 list" where
  "utf32_to_utf8 [] = []"
| "utf32_to_utf8 (ch # src) = Dee_unicode_writeutf8 ch @ utf32_to_utf8 src"

fun char16_to_utf8 :: "u16 list \<Rightarrow> u8 list" where
  "char16_to_utf8 [] = []"
| "char16_to_utf8 (c # src) =
     (let ch = ucast c
      in (if ch \<le> UTF8_1BYTE_MAX then [ucast ch]
          else if ch \<le> UTF8_2BYTE_MAX then [0xc0 OR ucast (drop_bit 6 ch), follow_byte 0 ch]
          else [0xe0 OR ucast (drop_bit 12 ch), follow_byte 6 ch, follow_byte 0 ch]) @ char16_to_utf8 src)"

text \<open>The number of bytes of a character, as the packing functions count them.\<close>

definition utf8_length :: "u32 \<Rightarrow> nat" where
  "utf8_length ch =
     (if ch \<le> UTF8_1BYTE_MAX then 1 else if ch \<le> UTF8_2BYTE_MAX then 2 else if ch \<le> UTF8_3BYTE_MAX then 3
      else if ch \<le> UTF8_4BYTE_MAX then 4 else if ch \<le> UTF8_5BYTE_MAX then 5 else if ch \<le> UTF8_6BYTE_MAX then 6 else 7)"

text \<open>A buffer of \<open>n\<close> bytes that \<open>bytes\<close> are written to.\<close>

definition written :: "nat \<Rightarrow> 'a list \<Rightarrow> 'a list option" where
  "written n bytes = (if length bytes = n then Some bytes else None)"

fun utf16_length :: "u16 list \<Rightarrow> nat" where
  "utf16_length [] = 0"
| "utf16_length (ch # text) =
     (if ucast ch \<le> UTF8_1BYTE_MAX then 1 else if ucast ch \<le> UTF8_2BYTE_MAX then 2 else 3) + utf16_length text"

definition DeeString_Pack2ByteBuffer :: "u16 list \<Rightarrow> dee_string option" where
  "DeeString_Pack2ByteBuffer text =
     (if text = [] then Some DeeString_NewEmpty
      else if utf16_length text < length text then None
      else map_option (\<lambda>str. \<lparr>s_str = str, u_data = (if utf16_length text = length text then Width1 str else Width2 text)\<rparr>)
        (written (utf16_length text) (char16_to_utf8 text)))"

text \<open>\<open>DeeString_TryPack2ByteBuffer\<close> copies ASCII text with \<open>char16_to_utf8_fast\<close>, which asserts that it is.\<close>

definition char16_to_utf8_fast :: "u16 list \<Rightarrow> u8 list option" where
  "char16_to_utf8_fast src =
     (if list_all (\<lambda>ch. ucast ch \<le> UTF8_1BYTE_MAX) src then Some (map ucast src) else None)"

definition DeeString_TryPack2ByteBuffer :: "u16 list \<Rightarrow> dee_string option" where
  "DeeString_TryPack2ByteBuffer text =
     (if text = [] then Some DeeString_NewEmpty
      else if utf16_length text < length text then None
      else if utf16_length text = length text then
        map_option (\<lambda>str. \<lparr>s_str = str, u_data = Width1 str\<rparr>)
          (Option.bind (char16_to_utf8_fast text) (written (utf16_length text)))
      else map_option (\<lambda>str. \<lparr>s_str = str, u_data = Width2 text\<rparr>)
          (written (utf16_length text) (char16_to_utf8 text)))"

fun utf32_scan :: "u32 \<Rightarrow> u32 list \<Rightarrow> dee_error + u32 list \<times> nat" where
  "utf32_scan error_mode [] = Inr ([], 0)"
| "utf32_scan error_mode (ch # text) =
     (if ch \<le> UTF8_4BYTE_MAX then map_sum id (\<lambda>(text, n). (ch # text, utf8_length ch + n)) (utf32_scan error_mode text)
      else if error_mode AND STRING_ERROR_FREPLAC \<noteq> 0 then
        map_sum id (\<lambda>(text, n). (0x3f # text, 1 + n)) (utf32_scan error_mode text)
      else if error_mode AND STRING_ERROR_FIGNORE \<noteq> 0 then
        map_sum id (\<lambda>(text, n). (ch # text, utf8_length ch + n)) (utf32_scan error_mode text)
      else Inl UnicodeDecodeError)"

definition DeeString_PackUtf32Buffer :: "u32 list \<Rightarrow> u32 \<Rightarrow> (dee_error + dee_string) option" where
  "DeeString_PackUtf32Buffer text error_mode =
     (if text = [] then Some (Inr DeeString_NewEmpty)
      else case utf32_scan error_mode text of
        Inl e \<Rightarrow> Some (Inl e)
      | Inr (text, n) \<Rightarrow>
          if n < length text then None
          else map_option (\<lambda>str. Inr \<lparr>s_str = str, u_data = (if n = length text then Width1 str else Width4 text)\<rparr>)
            (written n (utf32_to_utf8 text)))"

definition DeeString_TryPackUtf32Buffer :: "u32 list \<Rightarrow> dee_string option" where
  "DeeString_TryPackUtf32Buffer text =
     (if text = [] then Some DeeString_NewEmpty
      else
        let n = sum_list (map utf8_length text)
        in if n < length text then None
           else map_option (\<lambda>str. \<lparr>s_str = str, u_data = (if n = length text then Width1 str else Width4 text)\<rparr>)
             (written n (utf32_to_utf8 text)))"

declare utf8_loop32.simps [simp del] utf8_loop16.simps [simp del] utf8_loop.simps [simp del]

section \<open>Steps of the loops\<close>

text \<open>What a loop does with the bytes of a character it reads.\<close>

lemma byte_le_7f: "(b::u8) \<le> 0x7f \<longleftrightarrow> unat b < 128"
  by (auto simp: word_le_nat_alt)

lemma char_le_7f: "(ch::u32) \<le> 0x7f \<longleftrightarrow> unat ch < 128"
  by (auto simp: word_le_nat_alt)

lemma char16_cast:
  assumes "\<not> (ch::u32) > 0xffff"
  shows "ucast (ucast ch :: u16) = ch"
proof -
  have "unat ch < 2 ^ 16" using assms by (simp add: word_less_nat_alt)
  then show ?thesis by (simp add: word_unat_eq_iff unat_ucast_word)
qed

lemma narrow_byte: "(ucast (ucast (b::u8) :: u32) :: u16) = ucast b"
  by (rule bit_word_eqI) (auto simp: bit_simps)

lemma sequence_facts:
  assumes "utf8_sequence ch lead bs"
  shows "\<not> utf8_invalid (lead # bs @ rest)" "Dee_unicode_utf8seqlen lead = Suc (length bs)"
    "utf8_getchar (lead # bs @ rest) (Suc (length bs)) = ch"
    "bs = [] \<Longrightarrow> lead \<le> 0x7f \<and> ucast lead = ch" "bs \<noteq> [] \<Longrightarrow> \<not> lead \<le> 0x7f \<and> \<not> ch \<le> 0x7f"
proof -
  show "\<not> utf8_invalid (lead # bs @ rest)" "Dee_unicode_utf8seqlen lead = Suc (length bs)"
    "utf8_getchar (lead # bs @ rest) (Suc (length bs)) = ch" "bs = [] \<Longrightarrow> lead \<le> 0x7f \<and> ucast lead = ch"
    using assms by (auto simp: utf8_sequence_def utf8_invalid_def byte_le_7f)
  show "\<not> lead \<le> 0x7f \<and> \<not> ch \<le> 0x7f" if "bs \<noteq> []"
  proof
    show "\<not> lead \<le> 0x7f" using assms that by (auto simp: utf8_sequence_def byte_le_7f)
    have len: "length bs \<in> {1, 2, 3, 4, 5, 6}"
      using assms that by (cases "length bs") (auto simp: utf8_sequence_def)
    have "utf8_seq_min (Suc (length bs)) \<le> ch" using assms by (simp add: utf8_sequence_def)
    then have "unat (utf8_seq_min (Suc (length bs))) \<le> unat ch" by (simp add: word_le_nat_alt)
    moreover have "128 \<le> unat (utf8_seq_min (Suc (length bs)))"
      using len by (auto simp: utf8_seq_min_def utf8_seq_min_nat)
    ultimately show "\<not> ch \<le> 0x7f" by (simp add: char_le_7f)
  qed
qed

lemma loop32_sequence:
  assumes "utf8_sequence ch lead bs"
  shows "utf8_loop32 m str dst (lead # bs @ rest) stale = utf8_loop32 m (str @ lead # bs) (dst @ [ch]) rest stale"
  using sequence_facts [OF assms] by (cases "bs = []") (simp_all add: utf8_loop32.simps)

lemma loop16_sequence:
  assumes "utf8_sequence ch lead bs"
  shows "utf8_loop16 m str dst (lead # bs @ rest) stale =
    (if ch > 0xffff then utf8_loop32 m (str @ lead # bs) (map ucast dst @ [ch]) rest stale
     else utf8_loop16 m (str @ lead # bs) (dst @ [ucast ch]) rest stale)"
proof (cases "bs = []")
  case True
  then have "ucast lead = ch" "lead \<le> 0x7f" using sequence_facts(4) [OF assms] by simp_all
  moreover have "\<not> ch > 0xffff" using calculation
    by (auto simp: word_less_nat_alt byte_le_7f unat_ucast_up)
  moreover have "(ucast ch :: u16) = ucast lead" using calculation(1) narrow_byte [of lead] by simp
  ultimately show ?thesis using True by (simp add: utf8_loop16.simps)
next
  case False
  then show ?thesis using sequence_facts [OF assms] by (simp add: utf8_loop16.simps Let_def)
qed

lemma loop_sequence:
  assumes "utf8_sequence ch lead bs"
  shows "utf8_loop shrink m str (lead # bs @ rest) stale =
    (if ch \<le> 0x7f then utf8_loop shrink m (str @ [lead]) rest stale
     else if ch > 0xffff then utf8_loop32 m (str @ lead # bs) (map ucast str @ [ch]) rest stale
     else utf8_loop16 m (str @ lead # bs) (map ucast str @ [ucast ch]) rest stale)"
proof (cases "bs = []")
  case True
  then have "ucast lead = ch" "lead \<le> 0x7f" using sequence_facts(4) [OF assms] by simp_all
  then have "ch \<le> 0x7f" by (auto simp: byte_le_7f char_le_7f unat_ucast_up)
  then show ?thesis using True \<open>lead \<le> 0x7f\<close> by (simp add: utf8_loop.simps)
next
  case False
  then show ?thesis using sequence_facts [OF assms] by (simp add: utf8_loop.simps Let_def)
qed

lemma loop32_chars:
  "utf8_loop32 m str dst (utf32_to_utf8 cs) stale = Inr \<lparr>s_str = str @ utf32_to_utf8 cs @ stale, u_data = Width4 (dst @ cs)\<rparr>"
proof (induction cs arbitrary: str dst)
  case (Cons ch cs)
  obtain lead bs where "Dee_unicode_writeutf8 ch = lead # bs" "utf8_sequence ch lead bs" by (rule writeutf8_sequence)
  then show ?case using Cons.IH by (simp add: loop32_sequence)
qed (simp add: utf8_loop32.simps)

lemma loop16_chars:
  "\<exists>s. utf8_loop16 m str dst (utf32_to_utf8 cs) stale = Inr s \<and> s_str s = str @ utf32_to_utf8 cs @ stale
     \<and> data_chars (u_data s) = map ucast dst @ cs"
proof (induction cs arbitrary: str dst)
  case (Cons ch cs)
  obtain lead bs where "Dee_unicode_writeutf8 ch = lead # bs" "utf8_sequence ch lead bs" by (rule writeutf8_sequence)
  then show ?case using Cons.IH [of "str @ lead # bs" "dst @ [ucast ch]"]
    by (cases "ch > 0xffff") (simp_all add: loop16_sequence loop32_chars char16_cast)
qed (simp add: utf8_loop16.simps)

lemma loop_chars:
  assumes "list_all (\<lambda>b. b \<le> 0x7f) str"
  shows "\<exists>s. utf8_loop shrink m str (utf32_to_utf8 cs) [] = Inr s \<and> s_str s = str @ utf32_to_utf8 cs
     \<and> data_chars (u_data s) = map ucast str @ cs"
  using assms
proof (induction cs arbitrary: str)
  case (Cons ch cs)
  obtain lead bs where w: "Dee_unicode_writeutf8 ch = lead # bs" "utf8_sequence ch lead bs" by (rule writeutf8_sequence)
  have narrow: "map (ucast \<circ> (ucast :: u8 \<Rightarrow> u16)) str = (map ucast str :: u32 list)"
    by (simp add: word_unat_eq_iff unat_ucast_up)
  show ?case
  proof (cases "ch \<le> 0x7f")
    case True
    then have "bs = []" using sequence_facts(5) [OF w(2)] by blast
    then have "lead \<le> 0x7f" "ucast lead = ch" using sequence_facts(4) [OF w(2)] by simp_all
    then show ?thesis using Cons.IH [of "str @ [lead]"] Cons.prems True w \<open>bs = []\<close>
      using loop_sequence [OF w(2)] by simp
  next
    case False
    show ?thesis
    proof (cases "ch > 0xffff")
      case True
      then show ?thesis using False w(1) loop_sequence [OF w(2)] by (simp add: loop32_chars)
    next
      case False
      then show ?thesis using \<open>\<not> ch \<le> 0x7f\<close> w(1) loop_sequence [OF w(2)]
          loop16_chars [of m "str @ lead # bs" "map ucast str @ [ucast ch]" cs "[]"]
        by (simp add: char16_cast narrow)
    qed
  qed
qed (simp add: utf8_loop.simps)

text \<open>ASCII text is the UTF-8 of its characters.\<close>

lemma ascii_utf8: "\<forall>b\<in>set t. (b::u8) \<le> 0x7f \<Longrightarrow> utf32_to_utf8 (map ucast t) = t"
proof (induction t)
  case (Cons b t)
  have "(ucast (ucast b :: u32) :: u8) = b" by (rule bit_word_eqI) (auto simp: bit_simps)
  moreover have "(ucast b :: u32) \<le> UTF8_1BYTE_MAX"
    using Cons.prems by (simp add: word_le_nat_alt UTF8_MAX_nat unat_ucast_up)
  ultimately show ?case using Cons by (simp add: Dee_unicode_writeutf8_def)
qed simp

lemma overlong_loop:
  assumes "ch \<le> 0x7f" "t \<noteq> []" "\<forall>b\<in>set t. b \<le> 0x7f"
  shows "\<exists>s. utf8_loop shrink m [] ((0xc0 OR ucast (drop_bit 6 ch)) # follow_byte 0 ch # t) [] = Inr s
    \<and> s_str s = ucast ch # t @ [last t] \<and> data_chars (u_data s) = ch # map ucast (t @ [last t])"
proof -
  let ?lead = "0xc0 OR ucast (drop_bit 6 ch) :: u8"
  have c: "unat ch < 128" using assms(1) by (simp add: char_le_7f)
  then have n: "192 \<le> unat ?lead" "unat ?lead < 224" using lead_nat [of ch 6 6 "3 :: u8"] by simp_all
  have len: "Dee_unicode_utf8seqlen ?lead = 2" using n by (simp add: seqlen_nat)
  have "utf8_getchar (?lead # follow_byte 0 ch # t) 2 = push_bit 6 (drop_bit 6 ch AND mask 5) OR (drop_bit 0 ch AND mask 6)"
    unfolding utf8_getchar_def Let_def utf8_masks
    by (simp add: lead_byte_bits follow_bits_follow_byte del: drop_bit_0 push_bit_and)
  also have "\<dots> = ch" using slices_value(1) [of ch 5] and_mask_small [of ch 11] c by simp
  finally have val: "utf8_getchar (?lead # follow_byte 0 ch # t) 2 = ch" .
  have inv: "\<not> utf8_invalid (?lead # follow_byte 0 ch # t)" using len by (simp add: utf8_invalid_def)
  have lead: "\<not> ?lead \<le> 0x7f" using n by (simp add: byte_le_7f)
  have "drop (length t) (follow_byte 0 ch # t) = [last t]" using assms(2) by (cases t rule: rev_cases) simp_all
  then have step: "utf8_loop shrink m [] (?lead # follow_byte 0 ch # t) [] = utf8_loop shrink m [ucast ch] (t @ [last t]) []"
    using len val inv lead assms(1) by (simp add: utf8_loop.simps)
  have "\<forall>b\<in>set (t @ [last t]). b \<le> 0x7f" using assms(2,3) by simp
  then have u: "utf32_to_utf8 (map ucast (t @ [last t])) = t @ [last t]" by (rule ascii_utf8)
  have "(ucast ch :: u8) \<le> 0x7f" "ucast (ucast ch :: u8) = ch"
    using c by (simp_all add: byte_le_7f unat_ucast_word word_unat_eq_iff)
  then show ?thesis unfolding step
    using loop_chars [of "[ucast ch]" shrink m "map ucast (t @ [last t])"] u by simp
qed

lemma ignored_byte:
  assumes "ch > 0x7f" "is_utf8_continuation_byte b" "\<forall>b\<in>set t. b \<le> 0x7f"
  shows "\<exists>s. utf8_loop shrink STRING_ERROR_FIGNORE [] (Dee_unicode_writeutf8 ch @ b # t) [] = Inr s
    \<and> s_str s = Dee_unicode_writeutf8 ch @ t @ [last (b # t)] \<and> data_chars (u_data s) = ch # map ucast t"
proof -
  obtain lead bs where w: "Dee_unicode_writeutf8 ch = lead # bs" "utf8_sequence ch lead bs" by (rule writeutf8_sequence)
  have u: "utf32_to_utf8 (map ucast t) = t" by (rule ascii_utf8 [OF assms(3)])
  have b: "\<not> b \<le> 0x7f" "utf8_invalid (b # t)"
    using assms(2) by (simp_all add: byte_le_7f utf8_invalid_def continuation_nat seqlen_nat)
  have e: "STRING_ERROR_FIGNORE \<noteq> STRING_ERROR_FREPLAC" by (simp add: STRING_ERROR_FIGNORE_def STRING_ERROR_FREPLAC_def)
  have "\<not> ch \<le> 0x7f" using assms(1) by simp
  then show ?thesis
  proof (cases "ch > 0xffff")
    case True
    then show ?thesis using \<open>\<not> ch \<le> 0x7f\<close> w(1) loop_sequence [OF w(2), of shrink STRING_ERROR_FIGNORE "[]" "b # t" "[]"]
        loop32_chars [of STRING_ERROR_FIGNORE "lead # bs" "[ch]" "map ucast t" "[last (b # t)]"] u b e
      by (simp add: utf8_loop32.simps)
  next
    case False
    then show ?thesis using \<open>\<not> ch \<le> 0x7f\<close> w(1) loop_sequence [OF w(2), of shrink STRING_ERROR_FIGNORE "[]" "b # t" "[]"]
        loop16_chars [of STRING_ERROR_FIGNORE "lead # bs" "[ucast ch]" "map ucast t" "[last (b # t)]"] u b e
      by (simp add: utf8_loop16.simps char16_cast)
  qed
qed

section \<open>Packing\<close>

lemma length_writeutf8: "length (Dee_unicode_writeutf8 ch) = utf8_length ch"
  by (simp add: Dee_unicode_writeutf8_def utf8_length_def)

lemma utf8_length_pos: "1 \<le> utf8_length ch"
  by (simp add: utf8_length_def)

lemma length_utf32_to_utf8: "length (utf32_to_utf8 cs) = sum_list (map utf8_length cs)"
  by (induction cs) (simp_all add: length_writeutf8)

lemma sum_utf8_length: "length cs \<le> sum_list (map utf8_length cs)"
proof (induction cs)
  case (Cons ch cs)
  then show ?case using utf8_length_pos [of ch] by simp
qed simp

text \<open>If there are as many bytes as characters, all are ASCII.\<close>

lemma all_ascii:
  "sum_list (map utf8_length cs) = length cs \<Longrightarrow> map ucast (utf32_to_utf8 cs) = cs"
proof (induction cs)
  case (Cons ch cs)
  have "utf8_length ch = 1" "sum_list (map utf8_length cs) = length cs"
    using Cons.prems sum_utf8_length [of cs] utf8_length_pos [of ch] by simp_all
  moreover from this(1) have c: "ch \<le> UTF8_1BYTE_MAX" by (simp add: utf8_length_def split: if_splits)
  moreover have "ucast (ucast ch :: u8) = ch"
    using c by (simp add: word_le_nat_alt UTF8_MAX_nat word_unat_eq_iff unat_ucast_word)
  ultimately show ?case using Cons.IH by (simp add: Dee_unicode_writeutf8_def)
qed simp

text \<open>A string whose bytes are the UTF-8 of its characters \<open>cs\<close>.\<close>

definition string_of :: "u32 list \<Rightarrow> dee_string \<Rightarrow> bool" where
  "string_of cs s \<longleftrightarrow> s_str s = utf32_to_utf8 cs \<and> data_chars (u_data s) = cs"

lemma string_of_empty: "string_of [] DeeString_NewEmpty"
  by (simp add: string_of_def DeeString_NewEmpty_def)

lemma narrow_unit: "(ucast (ucast (c::u16) :: u32) :: u8) = ucast c"
  by (rule bit_word_eqI) (auto simp: bit_simps)

lemma char16_to_utf8_chars: "char16_to_utf8 src = utf32_to_utf8 (map ucast src)"
proof (induction src)
  case (Cons c src)
  have "unat (ucast c :: u32) < 65536" using unsigned_less [of c] by (simp add: unat_ucast_up)
  then have "(ucast c :: u32) \<le> UTF8_3BYTE_MAX" by (simp add: word_le_nat_alt UTF8_MAX_nat)
  then show ?case using Cons.IH by (simp add: Dee_unicode_writeutf8_def Let_def narrow_unit)
qed simp

lemma utf16_length_chars: "utf16_length src = sum_list (map utf8_length (map ucast src))"
proof (induction src)
  case (Cons c src)
  have "unat (ucast c :: u32) < 65536" using unsigned_less [of c] by (simp add: unat_ucast_up)
  then have "(ucast c :: u32) \<le> UTF8_3BYTE_MAX" by (simp add: word_le_nat_alt UTF8_MAX_nat)
  then show ?case using Cons.IH by (simp add: utf8_length_def)
qed simp

lemma pack16: "\<exists>s. DeeString_Pack2ByteBuffer src = Some s \<and> string_of (map ucast src) s"
proof -
  let ?cs = "map ucast src :: u32 list"
  have n: "utf16_length src = length (utf32_to_utf8 ?cs)" "length src \<le> utf16_length src"
    unfolding utf16_length_chars length_utf32_to_utf8 using sum_utf8_length [of ?cs] by simp_all
  have "utf16_length src = length src \<Longrightarrow> map ucast (utf32_to_utf8 ?cs) = ?cs"
    using all_ascii [of ?cs] unfolding utf16_length_chars by simp
  then show ?thesis
    using n string_of_empty
    by (auto simp: DeeString_Pack2ByteBuffer_def written_def char16_to_utf8_chars string_of_def)
qed

lemma char16_to_utf8_ascii:
  "utf16_length src = length src \<Longrightarrow> char16_to_utf8_fast src = Some (char16_to_utf8 src)"
proof (induction src)
  case (Cons c src)
  have "length src \<le> utf16_length src"
    unfolding utf16_length_chars using sum_utf8_length [of "map ucast src"] by simp
  then have "(ucast c :: u32) \<le> UTF8_1BYTE_MAX" "utf16_length src = length src"
    using Cons.prems by (auto split: if_splits)
  then show ?case using Cons.IH by (simp add: char16_to_utf8_fast_def Let_def narrow_unit split: if_splits)
qed (simp add: char16_to_utf8_fast_def)

lemma try_pack16: "DeeString_TryPack2ByteBuffer src = DeeString_Pack2ByteBuffer src"
  using char16_to_utf8_ascii [of src]
  by (simp add: DeeString_TryPack2ByteBuffer_def DeeString_Pack2ByteBuffer_def)

text \<open>What is kept of a text of 32-bit characters; without an error flag it must be below the limit.\<close>

definition utf32_kept :: "u32 \<Rightarrow> u32 list \<Rightarrow> u32 list" where
  "utf32_kept error_mode cs =
     (if error_mode AND STRING_ERROR_FREPLAC \<noteq> 0 then map (\<lambda>ch. if ch \<le> UTF8_4BYTE_MAX then ch else 0x3f) cs else cs)"

definition utf32_allowed :: "u32 \<Rightarrow> u32 list \<Rightarrow> bool" where
  "utf32_allowed error_mode cs \<longleftrightarrow>
     error_mode AND STRING_ERROR_FREPLAC \<noteq> 0 \<or> error_mode AND STRING_ERROR_FIGNORE \<noteq> 0
     \<or> list_all (\<lambda>ch. ch \<le> UTF8_4BYTE_MAX) cs"

lemma utf8_length_question: "utf8_length 0x3f = 1"
  by (simp add: utf8_length_def UTF8_1BYTE_MAX_def)

lemma utf32_scan_kept:
  "utf32_scan m cs = (if utf32_allowed m cs
     then Inr (utf32_kept m cs, sum_list (map utf8_length (utf32_kept m cs))) else Inl UnicodeDecodeError)"
  by (induction cs) (auto simp: utf32_allowed_def utf32_kept_def utf8_length_question)

lemma packed:
  assumes "n = sum_list (map utf8_length cs)"
  shows "\<not> n < length cs"
    "\<exists>s. map_option (\<lambda>str. \<lparr>s_str = str, u_data = (if n = length cs then Width1 str else Width4 cs)\<rparr>)
       (written n (utf32_to_utf8 cs)) = Some s \<and> string_of cs s"
  using assms sum_utf8_length [of cs] all_ascii [of cs]
  by (auto simp: written_def length_utf32_to_utf8 string_of_def)

lemma pack32:
  "if utf32_allowed m cs then \<exists>s. DeeString_PackUtf32Buffer cs m = Some (Inr s) \<and> string_of (utf32_kept m cs) s
   else DeeString_PackUtf32Buffer cs m = Some (Inl UnicodeDecodeError)"
proof (cases "cs = []")
  case True
  then show ?thesis using string_of_empty
    by (simp add: DeeString_PackUtf32Buffer_def utf32_allowed_def utf32_kept_def)
next
  case False
  let ?k = "utf32_kept m cs"
  obtain s where "map_option (\<lambda>str. \<lparr>s_str = str, u_data = (if sum_list (map utf8_length ?k) = length ?k
      then Width1 str else Width4 ?k)\<rparr>) (written (sum_list (map utf8_length ?k)) (utf32_to_utf8 ?k)) = Some s"
    "string_of ?k s" "\<not> sum_list (map utf8_length ?k) < length ?k"
    using packed [OF refl, of ?k] by auto
  then show ?thesis using False
    by (auto simp: DeeString_PackUtf32Buffer_def utf32_scan_kept written_def simp del: data_chars.simps)
qed

lemma try_pack32: "\<exists>s. DeeString_TryPackUtf32Buffer cs = Some s \<and> string_of cs s"
  using packed [OF refl, of cs] string_of_empty
  by (auto simp: DeeString_TryPackUtf32Buffer_def Let_def)

section \<open>Properties\<close>

text \<open>The error mode does not matter for the UTF-8 of characters.\<close>

lemma loop16_mode: "utf8_loop16 m str dst (utf32_to_utf8 cs) [] = utf8_loop16 0 str dst (utf32_to_utf8 cs) []"
proof (induction cs arbitrary: str dst)
  case (Cons ch cs)
  obtain lead bs where "Dee_unicode_writeutf8 ch = lead # bs" "utf8_sequence ch lead bs" by (rule writeutf8_sequence)
  then show ?case using Cons.IH by (simp add: loop16_sequence loop32_chars)
qed (simp add: utf8_loop16.simps)

lemma loop_mode: "utf8_loop shrink m str (utf32_to_utf8 cs) [] = utf8_loop True 0 str (utf32_to_utf8 cs) []"
proof (induction cs arbitrary: str)
  case (Cons ch cs)
  obtain lead bs where "Dee_unicode_writeutf8 ch = lead # bs" "utf8_sequence ch lead bs" by (rule writeutf8_sequence)
  then show ?case using Cons.IH loop16_mode [of m _ _ cs] by (simp add: loop_sequence loop32_chars)
qed (simp add: utf8_loop.simps)

lemma utf8_roundtrip:
  "\<exists>s. DeeString_NewUtf8 (utf32_to_utf8 cs) error_mode = Inr s \<and> string_of cs s
     \<and> DeeString_SetUtf8 (utf32_to_utf8 cs) error_mode = Inr s
     \<and> DeeString_TryNewUtf8 (utf32_to_utf8 cs) STRING_ERROR_FREPLAC = Some (Inr s)
     \<and> DeeString_TryNewUtf8 (utf32_to_utf8 cs) STRING_ERROR_FIGNORE = Some (Inr s)"
proof -
  obtain s where "utf8_loop True 0 [] (utf32_to_utf8 cs) [] = Inr s" "string_of cs s"
    using loop_chars [of "[]" True 0 cs] unfolding string_of_def by auto
  then show ?thesis using loop_mode [of _ _ "[]" cs]
    by (auto simp: DeeString_NewUtf8_def DeeString_SetUtf8_def DeeString_TryNewUtf8_def)
qed

text \<open>
  C13: Decoding UTF-8.  From the UTF-8 of any characters every function, in every error mode, makes a
  string of exactly these characters and bytes, whatever the widths of the characters (the buffer
  starts with one byte per character, and is upgraded to 2 and 4 bytes as they come).  Where the
  text is not the shortest encoding or not valid: for an ASCII character
  encoded in two bytes the others move down, but the end of the text and its length stay: the last
  character is repeated.  A byte ignored behind the first character above U+007F is removed from
  the characters and moved out of the bytes, but the length of the bytes is not reduced: behind the
  UTF-8 of the characters, the last byte of the text is left over.
\<close>

theorem utf8_decoding_characterized:
  assumes t: "\<forall>b\<in>set t. b \<le> 0x7f" "t \<noteq> []" and a: "a \<le> 0x7f"
    and ch: "ch > 0x7f" and b: "is_utf8_continuation_byte b"
  shows "(\<exists>s. DeeString_NewUtf8 (utf32_to_utf8 cs) error_mode = Inr s \<and> string_of cs s
      \<and> DeeString_SetUtf8 (utf32_to_utf8 cs) error_mode = Inr s
      \<and> DeeString_TryNewUtf8 (utf32_to_utf8 cs) STRING_ERROR_FREPLAC = Some (Inr s)
      \<and> DeeString_TryNewUtf8 (utf32_to_utf8 cs) STRING_ERROR_FIGNORE = Some (Inr s))
    \<and> (\<exists>s. DeeString_NewUtf8 ((0xc0 OR ucast (drop_bit 6 a)) # follow_byte 0 a # t) error_mode = Inr s
      \<and> string_of (a # map ucast (t @ [last t])) s)
    \<and> (\<exists>s. DeeString_NewUtf8 (Dee_unicode_writeutf8 ch @ b # t) STRING_ERROR_FIGNORE = Inr s
      \<and> data_chars (u_data s) = ch # map ucast t
      \<and> s_str s = utf32_to_utf8 (data_chars (u_data s)) @ [last t])"
proof (intro conjI utf8_roundtrip)
  have "a \<le> UTF8_1BYTE_MAX" using a by (simp add: UTF8_1BYTE_MAX_def)
  then have "utf32_to_utf8 (a # map ucast (t @ [last t])) = ucast a # t @ [last t]"
    using t ascii_utf8 [of "t @ [last t]"] by (simp add: Dee_unicode_writeutf8_def)
  then show "\<exists>s. DeeString_NewUtf8 ((0xc0 OR ucast (drop_bit 6 a)) # follow_byte 0 a # t) error_mode = Inr s
      \<and> string_of (a # map ucast (t @ [last t])) s"
    using overlong_loop [OF a t(2,1), of True error_mode]
    unfolding DeeString_NewUtf8_def string_of_def by metis
  show "\<exists>s. DeeString_NewUtf8 (Dee_unicode_writeutf8 ch @ b # t) STRING_ERROR_FIGNORE = Inr s
      \<and> data_chars (u_data s) = ch # map ucast t
      \<and> s_str s = utf32_to_utf8 (data_chars (u_data s)) @ [last t]"
    using ignored_byte [OF ch b t(1), of True] ascii_utf8 [OF t(1)] t(2) by (auto simp: DeeString_NewUtf8_def)
qed

text \<open>Two bytes for a line feed before "ab", and an e-acute with a byte too many before "ab".\<close>

lemma utf8_decoding_characterized_witness:
  "(\<exists>s. DeeString_NewUtf8 [0xc0, 0x8a, 0x61, 0x62] 0 = Inr s \<and> string_of [0x0a, 0x61, 0x62, 0x62] s)
   \<and> (\<exists>s. DeeString_NewUtf8 [0xc3, 0xa9, 0x80, 0x61, 0x62] STRING_ERROR_FIGNORE = Inr s
        \<and> data_chars (u_data s) = [0xe9, 0x61, 0x62] \<and> s_str s = [0xc3, 0xa9, 0x61, 0x62, 0x62])"
proof -
  have t: "\<forall>b\<in>set [0x61, 0x62]. (b::u8) \<le> 0x7f" by simp
  have w: "Dee_unicode_writeutf8 0xe9 = [0xc3, 0xa9]" by code_simp
  have c: "is_utf8_continuation_byte 0x80" "follow_byte 0 0x0a = 0x8a" by code_simp+
  have f: "Dee_unicode_writeutf8 0x61 = [0x61]" "Dee_unicode_writeutf8 0x62 = [0x62]" by code_simp+
  show ?thesis
    using utf8_decoding_characterized [OF t _ _ _ c(1), of "0x0a" "0xe9" "[]" 0] w c f
    by auto
qed

text \<open>
  C14: A buffer of 16-bit characters always becomes the string of these characters, with and without
  exceptions for a failed allocation.  A buffer of 32-bit characters becomes the string of these
  characters, with a question mark for every character above the limit of UTF-8 in 4 bytes if the mode says
  to replace, as they are if it says to ignore, and the error exactly if there is one and the mode is
  strict.  No assertion fails, and the bytes written are as many as allocated.
\<close>

theorem string_pack_correct:
  "(\<exists>s. DeeString_Pack2ByteBuffer text = Some s \<and> DeeString_TryPack2ByteBuffer text = Some s
      \<and> string_of (map ucast text) s)
   \<and> (\<exists>s. DeeString_TryPackUtf32Buffer cs = Some s \<and> string_of cs s)
   \<and> (if utf32_allowed error_mode cs
      then \<exists>s. DeeString_PackUtf32Buffer cs error_mode = Some (Inr s) \<and> string_of (utf32_kept error_mode cs) s
      else DeeString_PackUtf32Buffer cs error_mode = Some (Inl UnicodeDecodeError))"
  using pack16 [of "text"] try_pack32 [of cs] by (simp_all add: try_pack16 pack32)

end
