(* ===== verification/StringUtf16.thy ===== *)
theory StringUtf16
  imports StringPack
begin

text \<open>
  Packing a buffer of UTF-16 text into a string object (src/deemon/objects/unicode/unicode.c).
  Allocation always succeeds.  \<open>None\<close> is a failed assertion or an access outside an allocated buffer.
\<close>

section \<open>Surrogates\<close>

definition UTF16_HIGH_SURROGATE_MIN :: u32 where "UTF16_HIGH_SURROGATE_MIN = 0xd800"
definition UTF16_HIGH_SURROGATE_MAX :: u32 where "UTF16_HIGH_SURROGATE_MAX = 0xdbff"
definition UTF16_LOW_SURROGATE_MIN :: u32 where "UTF16_LOW_SURROGATE_MIN = 0xdc00"
definition UTF16_LOW_SURROGATE_MAX :: u32 where "UTF16_LOW_SURROGATE_MAX = 0xdfff"
definition UTF16_SURROGATE_SHIFT :: u32 where "UTF16_SURROGATE_SHIFT = 0x10000"

definition is_high_surrogate :: "u32 \<Rightarrow> bool" where
  "is_high_surrogate ch \<longleftrightarrow> ch \<ge> UTF16_HIGH_SURROGATE_MIN \<and> ch \<le> UTF16_HIGH_SURROGATE_MAX"

definition is_low_surrogate :: "u32 \<Rightarrow> bool" where
  "is_low_surrogate ch \<longleftrightarrow> ch \<ge> UTF16_LOW_SURROGATE_MIN \<and> ch \<le> UTF16_LOW_SURROGATE_MAX"

text \<open>The character of a pair, as the functions compute it in three steps.\<close>

definition UTF16_COMBINE_SURROGATES :: "u16 \<Rightarrow> u16 \<Rightarrow> u32" where
  "UTF16_COMBINE_SURROGATES high low =
     (push_bit 10 (ucast high - UTF16_HIGH_SURROGATE_MIN) OR (ucast low - UTF16_LOW_SURROGATE_MIN))
     + UTF16_SURROGATE_SHIFT"

section \<open>From UTF-16\<close>

text \<open>
  The counters of the first loop of \<open>DeeString_PackUtf16Buffer\<close>: \<open>utf8_length\<close>, \<open>character_count\<close> and
  \<open>kind\<close> (0 without surrogates, 1 with, 2 with characters above U+FFFF).
\<close>

record utf16_counts =
  utf8_len :: nat
  character_count :: nat
  kind :: nat

definition count_char :: "u32 \<Rightarrow> utf16_counts \<Rightarrow> utf16_counts" where
  "count_char ch k =
     (let k = k\<lparr>character_count := character_count k + 1\<rparr>
      in if ch \<le> UTF8_1BYTE_MAX then k\<lparr>utf8_len := utf8_len k + 1\<rparr>
         else if ch \<le> UTF8_2BYTE_MAX then k\<lparr>utf8_len := utf8_len k + 2\<rparr>
         else if ch \<le> UTF8_3BYTE_MAX then k\<lparr>utf8_len := utf8_len k + 3\<rparr>
         else k\<lparr>kind := 2, utf8_len := utf8_len k + 4\<rparr>)"

definition count_pair :: "u16 \<Rightarrow> u16 \<Rightarrow> utf16_counts \<Rightarrow> utf16_counts" where
  "count_pair high low k =
     count_char (UTF16_COMBINE_SURROGATES high low) (if kind k = 0 then k\<lparr>kind := 1\<rparr> else k)"

text \<open>
  The loop: \<open>str\<close> are the units before \<open>i\<close>, the list those from \<open>i\<close> to the length.  To replace a bad
  pair, the question mark is written over the high surrogate, the unit behind it is removed, and
  reading goes on at \<open>i\<close>, without a test of the end: if the removed unit was the last one it is still
  there, and is counted (or is taken for a high surrogate at the end, and replaced outside the text).
\<close>

function utf16_scan :: "u32 \<Rightarrow> u16 list \<Rightarrow> utf16_counts \<Rightarrow> u16 list \<Rightarrow> dee_error + u16 list \<times> utf16_counts" where
  "utf16_scan error_mode str k [] = Inr (str, k)"
| "utf16_scan error_mode str k [ch] =
     (if is_high_surrogate (ucast ch) then
        if error_mode AND STRING_ERROR_FREPLAC \<noteq> 0 then Inr (str @ [0x3f], k)
        else if error_mode AND STRING_ERROR_FIGNORE \<noteq> 0 then Inr (str, k)
        else Inl UnicodeDecodeError
      else Inr (str @ [ch], count_char (ucast ch) k))"
| "utf16_scan error_mode str k (ch # low_value # rest) =
     (if is_high_surrogate (ucast ch) then
        if is_low_surrogate (ucast low_value) then
          utf16_scan error_mode (str @ [ch, low_value]) (count_pair ch low_value k) rest
        else if error_mode AND STRING_ERROR_FREPLAC \<noteq> 0 then
          if rest = [] then
            Inr (str @ [0x3f], if is_high_surrogate (ucast low_value) then k else count_char (ucast low_value) k)
          else utf16_scan error_mode (str @ [0x3f]) k rest
        else if error_mode AND STRING_ERROR_FIGNORE \<noteq> 0 then utf16_scan error_mode str k rest
        else Inl UnicodeDecodeError
      else utf16_scan error_mode (str @ [ch]) (count_char (ucast ch) k) (low_value # rest))"
  by pat_completeness auto
termination by (relation "measure (\<lambda>(error_mode, str, k, text). length text)") auto

text \<open>The writing functions.  \<open>utf16_to_utf8_char16\<close> asserts that there is no character above U+FFFF.\<close>

definition utf16_bytes :: "u32 \<Rightarrow> u8 list" where
  "utf16_bytes ch =
     (if ch \<le> UTF8_1BYTE_MAX then [ucast ch]
      else if ch \<le> UTF8_2BYTE_MAX then [0xc0 OR ucast (drop_bit 6 ch), follow_byte 0 ch]
      else if ch \<le> UTF8_3BYTE_MAX then [0xe0 OR ucast (drop_bit 12 ch), follow_byte 6 ch, follow_byte 0 ch]
      else [0xf0 OR ucast (drop_bit 18 ch), follow_byte 12 ch, follow_byte 6 ch, follow_byte 0 ch])"

function utf16_to_utf8_char32 :: "u16 list \<Rightarrow> (u8 list \<times> u32 list) option" where
  "utf16_to_utf8_char32 [] = Some ([], [])"
| "utf16_to_utf8_char32 [ch] =
     (if is_high_surrogate (ucast ch) then None else Some (utf16_bytes (ucast ch), [ucast ch]))"
| "utf16_to_utf8_char32 (ch # low # src) =
     (if is_high_surrogate (ucast ch) then
        let c = UTF16_COMBINE_SURROGATES ch low
        in if is_low_surrogate (ucast low) \<and> c \<le> 0x10ffff
           then map_option (\<lambda>(str, cs). (utf16_bytes c @ str, c # cs)) (utf16_to_utf8_char32 src)
           else None
      else map_option (\<lambda>(str, cs). (utf16_bytes (ucast ch) @ str, ucast ch # cs)) (utf16_to_utf8_char32 (low # src)))"
  by pat_completeness auto
termination by (relation "measure length") auto

definition utf16_to_utf8_char16 :: "u16 list \<Rightarrow> (u8 list \<times> u16 list) option" where
  "utf16_to_utf8_char16 src =
     (case utf16_to_utf8_char32 src of
        None \<Rightarrow> None
      | Some (str, cs) \<Rightarrow> if list_all (\<lambda>ch. ch \<le> 0xffff) cs then Some (str, map ucast cs) else None)"

text \<open>What is built from the counted text: a string of the width that the kind says.\<close>

definition utf16_build :: "u16 list \<Rightarrow> utf16_counts \<Rightarrow> dee_string option" where
  "utf16_build text k =
     (if utf8_len k < length text then None
      else if utf8_len k = length text then
        if character_count k = utf8_len k then Some \<lparr>s_str = map ucast text, u_data = Width1 (map ucast text)\<rparr>
        else None
      else if kind k = 0 then
        if character_count k = length text
        then map_option (\<lambda>str. \<lparr>s_str = str, u_data = Width2 text\<rparr>) (written (utf8_len k) (char16_to_utf8 text))
        else None
      else if \<not> character_count k < length text then None
      else if kind k = 1 then
        Option.bind (utf16_to_utf8_char16 text) (\<lambda>(str, cs).
          Option.bind (written (utf8_len k) str) (\<lambda>str.
            map_option (\<lambda>cs. \<lparr>s_str = str, u_data = Width2 cs\<rparr>) (written (character_count k) cs)))
      else
        Option.bind (utf16_to_utf8_char32 text) (\<lambda>(str, cs).
          Option.bind (written (utf8_len k) str) (\<lambda>str.
            map_option (\<lambda>cs. \<lparr>s_str = str, u_data = Width4 cs\<rparr>) (written (character_count k) cs))))"

definition DeeString_PackUtf16Buffer :: "u16 list \<Rightarrow> u32 \<Rightarrow> (dee_error + dee_string) option" where
  "DeeString_PackUtf16Buffer text error_mode =
     (if text = [] then Some (Inr DeeString_NewEmpty)
      else case utf16_scan error_mode [] \<lparr>utf8_len = 0, character_count = 0, kind = 0\<rparr> text of
        Inl e \<Rightarrow> Some (Inl e)
      | Inr (text, k) \<Rightarrow> map_option Inr (utf16_build text k))"

text \<open>\<open>DeeString_TryPackUtf16Buffer\<close> has the same loop with the branches of \<open>STRING_ERROR_FIGNORE\<close>.\<close>

definition DeeString_TryPackUtf16Buffer :: "u16 list \<Rightarrow> dee_string option" where
  "DeeString_TryPackUtf16Buffer text =
     (if text = [] then Some DeeString_NewEmpty
      else case utf16_scan STRING_ERROR_FIGNORE [] \<lparr>utf8_len = 0, character_count = 0, kind = 0\<rparr> text of
        Inl e \<Rightarrow> None
      | Inr (text, k) \<Rightarrow> utf16_build text k)"

section \<open>Text that is well formed\<close>

text \<open>A character that UTF-16 can encode; a low surrogate that is not part of a pair is one for the code.\<close>

definition utf16_char :: "u32 \<Rightarrow> bool" where
  "utf16_char ch \<longleftrightarrow> ch \<le> 0x10ffff \<and> \<not> is_high_surrogate ch"

definition utf16_units :: "u32 \<Rightarrow> u16 list" where
  "utf16_units ch =
     (if ch \<le> 0xffff then [ucast ch]
      else [0xd800 + ucast (drop_bit 10 (ch - 0x10000)), 0xdc00 + ucast ((ch - 0x10000) AND mask 10)])"

lemmas surrogate_defs = is_high_surrogate_def is_low_surrogate_def UTF16_HIGH_SURROGATE_MIN_def
  UTF16_HIGH_SURROGATE_MAX_def UTF16_LOW_SURROGATE_MIN_def UTF16_LOW_SURROGATE_MAX_def UTF16_SURROGATE_SHIFT_def

lemma surrogate_nat:
  "is_high_surrogate ch \<longleftrightarrow> 0xd800 \<le> unat ch \<and> unat ch \<le> 0xdbff"
  "is_low_surrogate ch \<longleftrightarrow> 0xdc00 \<le> unat ch \<and> unat ch \<le> 0xdfff"
  by (simp_all add: surrogate_defs word_le_nat_alt)

text \<open>Twenty bits in two surrogates, and back.\<close>

lemma pair_nat:
  assumes "unat c < 2 ^ 20"
  shows "unat (0xd800 + ucast (drop_bit 10 (c::u32)) :: u16) = 0xd800 + unat c div 2 ^ 10"
    "unat (0xdc00 + ucast (c AND mask 10) :: u16) = 0xdc00 + unat c mod 2 ^ 10"
proof -
  have "unat c div 1024 < 1024" using assms by (simp add: less_mult_imp_div_less)
  then show "unat (0xd800 + ucast (drop_bit 10 c) :: u16) = 0xd800 + unat c div 2 ^ 10"
    by (simp add: unat_word_ariths word_nat)
  show "unat (0xdc00 + ucast (c AND mask 10) :: u16) = 0xdc00 + unat c mod 2 ^ 10"
    using mod_less_divisor [of 1024 "unat c"] by (simp add: unat_word_ariths word_nat)
qed

lemma combine_units:
  assumes "unat c < 2 ^ 20"
  shows "UTF16_COMBINE_SURROGATES (0xd800 + ucast (drop_bit 10 c)) (0xdc00 + ucast (c AND mask 10)) = c + 0x10000"
    "is_high_surrogate (ucast (0xd800 + ucast (drop_bit 10 c) :: u16))"
    "is_low_surrogate (ucast (0xdc00 + ucast (c AND mask 10) :: u16))"
proof -
  let ?h = "0xd800 + ucast (drop_bit 10 c) :: u16" and ?l = "0xdc00 + ucast (c AND mask 10) :: u16"
  have d: "unat c div 1024 < 1024" using assms by (simp add: less_mult_imp_div_less)
  have h: "(ucast ?h :: u32) - 0xd800 = drop_bit 10 c"
    using pair_nat(1) [OF assms] d by (simp add: word_unat_eq_iff unat_sub_if' unat_ucast_up word_nat)
  have l: "(ucast ?l :: u32) - 0xdc00 = c AND mask 10"
    using pair_nat(2) [OF assms] by (simp add: word_unat_eq_iff unat_sub_if' unat_ucast_up word_nat)
  have "push_bit 10 (drop_bit 10 c) OR (c AND mask 10) = c"
    by (rule bit_word_eqI) (auto simp: bit_simps)
  then show "UTF16_COMBINE_SURROGATES ?h ?l = c + 0x10000"
    unfolding UTF16_COMBINE_SURROGATES_def UTF16_HIGH_SURROGATE_MIN_def UTF16_LOW_SURROGATE_MIN_def
      UTF16_SURROGATE_SHIFT_def h l by simp
  show "is_high_surrogate (ucast ?h)" "is_low_surrogate (ucast ?l)"
    using pair_nat [OF assms] d by (simp_all add: surrogate_nat unat_ucast_up)
qed

section \<open>Reading and writing one character\<close>

lemma utf16_char_nat: "utf16_char ch \<Longrightarrow> unat ch < 0x110000"
  by (simp add: utf16_char_def word_le_nat_alt)

text \<open>The units of a character above U+FFFF, and what the code makes of them.\<close>

lemma units_pair:
  assumes "ch \<le> 0x10ffff" "\<not> ch \<le> 0xffff"
  obtains high low where "utf16_units ch = [high, low]" "is_high_surrogate (ucast high)"
    "is_low_surrogate (ucast low)" "UTF16_COMBINE_SURROGATES high low = ch"
proof -
  have n: "65535 < unat ch" "unat ch \<le> 0x10ffff" using assms by (simp_all add: word_le_nat_alt not_le)
  then have "unat (ch - 0x10000) < 2 ^ 20" by (simp add: unat_sub_if')
  from combine_units [OF this] show ?thesis
    using that assms(2) by (simp add: utf16_units_def)
qed

lemma unit_single:
  assumes "utf16_char ch" "ch \<le> 0xffff"
  shows "utf16_units ch = [ucast ch]" "(ucast (ucast ch :: u16) :: u32) = ch" "\<not> is_high_surrogate ch"
  using assms char16_cast [of ch] by (simp_all add: utf16_units_def utf16_char_def not_less)

lemma utf8_max_order:
  "ch \<le> UTF8_1BYTE_MAX \<Longrightarrow> ch \<le> UTF8_2BYTE_MAX" "ch \<le> UTF8_2BYTE_MAX \<Longrightarrow> ch \<le> UTF8_3BYTE_MAX"
  "ch \<le> UTF8_3BYTE_MAX \<longleftrightarrow> ch \<le> 0xffff" "ch \<le> 0x10ffff \<Longrightarrow> ch \<le> UTF8_4BYTE_MAX"
  by (simp_all add: word_le_nat_alt UTF8_MAX_nat)

definition counted :: "u32 list \<Rightarrow> utf16_counts \<Rightarrow> utf16_counts" where
  "counted cs k = k\<lparr>utf8_len := utf8_len k + sum_list (map utf8_length cs),
     character_count := character_count k + length cs,
     kind := (if list_all (\<lambda>ch. ch \<le> 0xffff) cs then kind k else 2)\<rparr>"

lemma counted_simps:
  "counted [] k = k" "counted (ch # cs) k = counted cs (counted [ch] k)"
  by (simp_all add: counted_def)

lemma count_char_counted: "utf16_char ch \<Longrightarrow> count_char ch k = counted [ch] k"
  using utf8_max_order [of ch]
  by (auto simp: count_char_def counted_def utf8_length_def utf16_char_def Let_def)

lemma counted_kind: "\<not> ch \<le> 0xffff \<Longrightarrow> counted [ch] (k\<lparr>kind := n\<rparr>) = counted [ch] k"
  by (simp add: counted_def)

lemma scan_units:
  assumes "utf16_char ch"
  shows "utf16_scan m str k (utf16_units ch @ rest) = utf16_scan m (str @ utf16_units ch) (counted [ch] k) rest"
proof (cases "ch \<le> 0xffff")
  case True
  show ?thesis using unit_single [OF assms True] count_char_counted [OF assms] by (cases rest) simp_all
next
  case False
  from assms have "ch \<le> 0x10ffff" by (simp add: utf16_char_def)
  from units_pair [OF this False] obtain high low where u: "utf16_units ch = [high, low]"
    "is_high_surrogate (ucast high)" "is_low_surrogate (ucast low)" "UTF16_COMBINE_SURROGATES high low = ch" .
  show ?thesis unfolding u(1) using u(2-4) count_char_counted [OF assms] counted_kind [OF False]
    by (simp add: count_pair_def)
qed

definition units_of :: "u32 list \<Rightarrow> u16 list" where
  "units_of cs = concat (map utf16_units cs)"

lemma units_of_simps [simp]:
  "units_of [] = []" "units_of (ch # cs) = utf16_units ch @ units_of cs" "units_of (as @ bs) = units_of as @ units_of bs"
  by (simp_all add: units_of_def)

lemma scan_units_of:
  "list_all utf16_char cs \<Longrightarrow>
     utf16_scan m str k (units_of cs @ rest) = utf16_scan m (str @ units_of cs) (counted cs k) rest"
proof (induction cs arbitrary: str k)
  case (Cons ch cs)
  then show ?case using scan_units [of ch m str k "units_of cs @ rest"] by (simp add: counted_simps(2) [of ch cs])
qed (simp add: counted_simps)

lemma utf16_bytes_writeutf8: "utf16_char ch \<Longrightarrow> utf16_bytes ch = Dee_unicode_writeutf8 ch"
  using utf8_max_order(4) [of ch] by (simp add: utf16_bytes_def Dee_unicode_writeutf8_def utf16_char_def)

lemma char32_units:
  assumes "utf16_char ch"
  shows "utf16_to_utf8_char32 (utf16_units ch @ rest) =
    map_option (\<lambda>(str, cs). (Dee_unicode_writeutf8 ch @ str, ch # cs)) (utf16_to_utf8_char32 rest)"
proof (cases "ch \<le> 0xffff")
  case True
  show ?thesis using unit_single [OF assms True] utf16_bytes_writeutf8 [OF assms] by (cases rest) simp_all
next
  case False
  from assms have c: "ch \<le> 0x10ffff" by (simp add: utf16_char_def)
  from units_pair [OF this False] obtain high low where u: "utf16_units ch = [high, low]"
    "is_high_surrogate (ucast high)" "is_low_surrogate (ucast low)" "UTF16_COMBINE_SURROGATES high low = ch" .
  show ?thesis unfolding u(1) using u(2-4) c utf16_bytes_writeutf8 [OF assms] by simp
qed

lemma char32_units_of:
  "list_all utf16_char cs \<Longrightarrow> utf16_to_utf8_char32 (units_of cs) = Some (utf32_to_utf8 cs, cs)"
  by (induction cs) (simp_all add: char32_units)

section \<open>Building the string\<close>

lemma length_units: "length (utf16_units ch) = (if ch \<le> 0xffff then 1 else 2)"
  by (simp add: utf16_units_def)

lemma length_units_bounds:
  "length cs \<le> length (units_of cs)" "length (units_of cs) \<le> sum_list (map utf8_length cs)"
proof (induction cs)
  case (Cons ch cs)
  have "1 \<le> length (utf16_units ch)" "length (utf16_units ch) \<le> utf8_length ch"
    using utf8_max_order [of ch] by (auto simp: length_units utf8_length_def)
  then show "length (ch # cs) \<le> length (units_of (ch # cs))"
    "length (units_of (ch # cs)) \<le> sum_list (map utf8_length (ch # cs))" using Cons.IH by simp_all
qed simp_all

lemma ascii_units:
  "sum_list (map utf8_length cs) = length (units_of cs) \<Longrightarrow> length (units_of cs) = length cs"
proof (induction cs)
  case (Cons ch cs)
  have "length (utf16_units ch) \<le> utf8_length ch" "\<not> ch \<le> 0xffff \<longrightarrow> 4 \<le> utf8_length ch"
    using utf8_max_order [of ch] by (auto simp: length_units utf8_length_def)
  then have "length (utf16_units ch) = 1" "sum_list (map utf8_length cs) = length (units_of cs)"
    using Cons.prems length_units_bounds(2) [of cs] by (auto simp: length_units split: if_splits)
  then show ?case using Cons.IH by simp
qed simp

lemma length_units_bmp: "length (units_of cs) = length cs \<longleftrightarrow> list_all (\<lambda>ch. ch \<le> 0xffff) cs"
proof (induction cs)
  case (Cons ch cs)
  then show ?case using length_units_bounds(1) [of cs] by (auto simp: length_units)
qed simp

lemma units_bmp: "list_all (\<lambda>ch. ch \<le> 0xffff) cs \<Longrightarrow> units_of cs = map ucast cs"
  by (induction cs) (simp_all add: utf16_units_def)

lemma bmp_chars: "list_all (\<lambda>ch. ch \<le> 0xffff) cs \<Longrightarrow> map (ucast \<circ> (ucast :: u32 \<Rightarrow> u16)) cs = cs"
  using char16_cast by (induction cs) (simp_all add: not_less)

lemma ascii_bytes:
  assumes "sum_list (map utf8_length cs) = length cs"
  shows "utf32_to_utf8 cs = map ucast cs" "(map ucast (map ucast cs :: u8 list) :: u32 list) = cs"
proof -
  have "map (ucast :: u32 \<Rightarrow> u8) (map ucast (utf32_to_utf8 cs)) = map ucast cs"
    using all_ascii [OF assms] by (rule arg_cong)
  moreover have "(ucast (ucast b :: u32) :: u8) = b" for b :: u8 by (rule bit_word_eqI) (auto simp: bit_simps)
  ultimately show e: "utf32_to_utf8 cs = map ucast cs" by (simp add: comp_def)
  show "map ucast (map ucast cs :: u8 list) = cs" using all_ascii [OF assms] unfolding e .
qed

definition no_counts :: utf16_counts where
  "no_counts = \<lparr>utf8_len = 0, character_count = 0, kind = 0\<rparr>"

lemma counted_no_counts:
  "utf8_len (counted cs no_counts) = sum_list (map utf8_length cs)"
  "character_count (counted cs no_counts) = length cs"
  "kind (counted cs no_counts) = (if list_all (\<lambda>ch. ch \<le> 0xffff) cs then 0 else 2)"
  by (simp_all add: counted_def no_counts_def)

lemma build_units:
  assumes "list_all utf16_char cs"
  shows "\<exists>s. utf16_build (units_of cs) (counted cs no_counts) = Some s \<and> string_of cs s"
proof -
  let ?n = "sum_list (map utf8_length cs)" and ?bmp = "list_all (\<lambda>ch. ch \<le> 0xffff) cs"
  note b = length_units_bounds [of cs] length_units_bmp [of cs]
  show ?thesis
  proof (cases "?n = length (units_of cs)")
    case True
    then have l: "length (units_of cs) = length cs" by (rule ascii_units)
    then have u: "units_of cs = map ucast cs" using b units_bmp by simp
    have "map ucast (units_of cs) = (map ucast cs :: u8 list)"
      unfolding u by (auto intro: bit_word_eqI simp: bit_simps)
    then show ?thesis using True l ascii_bytes [of cs]
      by (simp add: utf16_build_def counted_no_counts string_of_def)
  next
    case False
    note n = this
    show ?thesis
    proof (cases ?bmp)
      case True
      then have u: "units_of cs = map ucast cs" "length (units_of cs) = length cs" using units_bmp b by simp_all
      then have "char16_to_utf8 (units_of cs) = utf32_to_utf8 cs"
        using bmp_chars [OF True] by (simp add: char16_to_utf8_chars)
      then show ?thesis using n b True u bmp_chars [OF True]
        by (simp add: utf16_build_def counted_no_counts written_def length_utf32_to_utf8 string_of_def)
    next
      case False
      then have "length cs < length (units_of cs)" using b by linarith
      then show ?thesis using n b False char32_units_of [OF assms]
        by (simp add: utf16_build_def counted_no_counts written_def length_utf32_to_utf8 string_of_def)
    qed
  qed
qed

text \<open>A question mark that was not counted.\<close>

lemma build_uncounted:
  assumes "list_all utf16_char as" "list_all utf16_char bs"
  shows "utf16_build (units_of as @ 0x3f # units_of bs) (counted (as @ bs) no_counts) = None"
proof -
  let ?n = "sum_list (map utf8_length (as @ bs))" and ?bmp = "list_all (\<lambda>ch. ch \<le> 0xffff) (as @ bs)"
  have q: "utf16_char 0x3f" "utf16_units 0x3f = [0x3f]" "length (Dee_unicode_writeutf8 0x3f) = 1"
    by (simp_all add: utf16_char_def surrogate_nat utf16_units_def length_writeutf8 utf8_length_question)
  then have u: "units_of as @ 0x3f # units_of bs = units_of (as @ 0x3f # bs)" by simp
  note b = length_units_bounds [of "as @ bs"] length_units_bmp [of "as @ bs"]
  have c: "utf16_to_utf8_char32 (units_of (as @ 0x3f # bs)) = Some (utf32_to_utf8 (as @ 0x3f # bs), as @ 0x3f # bs)"
    by (rule char32_units_of) (use assms q in simp)
  have l: "length (units_of (as @ 0x3f # bs)) = Suc (length (units_of (as @ bs)))" using q by simp
  have w: "written ?n (utf32_to_utf8 (as @ 0x3f # bs)) = None"
    by (simp add: written_def length_utf32_to_utf8 utf8_length_question)
  show ?thesis
    unfolding u utf16_build_def counted_no_counts l c using b w by auto
qed

text \<open>A text whose UTF-8 is not as long as counted.\<close>

lemma build_miscounted:
  assumes "list_all utf16_char cs" "length (units_of cs) < utf8_len k" "utf8_len k \<noteq> sum_list (map utf8_length cs)"
    and "kind k = 0 \<Longrightarrow> list_all (\<lambda>ch. ch \<le> 0xffff) cs"
  shows "utf16_build (units_of cs) k = None"
proof -
  have w: "written (utf8_len k) (utf32_to_utf8 cs) = None"
    using assms(3) by (simp add: written_def length_utf32_to_utf8)
  show ?thesis
  proof (cases "kind k = 0")
    case True
    then have bmp: "list_all (\<lambda>ch. ch \<le> 0xffff) cs" by (rule assms(4))
    have "char16_to_utf8 (units_of cs) = utf32_to_utf8 cs"
      using bmp_chars [OF bmp] by (simp add: char16_to_utf8_chars units_bmp [OF bmp])
    then show ?thesis using assms(2) w True by (simp add: utf16_build_def)
  next
    case False
    have "Option.bind (utf16_to_utf8_char16 (units_of cs)) (\<lambda>(str, ds).
        Option.bind (written (utf8_len k) str) (f ds)) = None" for f :: "u16 list \<Rightarrow> u8 list \<Rightarrow> dee_string option"
      using w by (simp add: utf16_to_utf8_char16_def char32_units_of [OF assms(1)])
    then show ?thesis using assms(2) w False by (simp add: utf16_build_def char32_units_of [OF assms(1)])
  qed
qed

section \<open>Packing\<close>

lemma counted_append: "counted bs (counted as k) = counted (as @ bs) k"
  by (simp add: counted_def)

lemma units_of_empty: "units_of cs = [] \<longleftrightarrow> cs = []"
  by (cases cs) (simp_all add: utf16_units_def)

lemma scan_all:
  "list_all utf16_char cs \<Longrightarrow> utf16_scan m str k (units_of cs) = Inr (str @ units_of cs, counted cs k)"
  using scan_units_of [of cs m str k "[]"] by simp

text \<open>
  A high surrogate without a low surrogate behind it.  If there is just one unit behind it, that unit is removed from
  the text but read once more: it is counted, unless it is a high surrogate, too.
\<close>

definition lone_count :: "u16 list \<Rightarrow> utf16_counts \<Rightarrow> utf16_counts" where
  "lone_count rest k =
     (case rest of [x] \<Rightarrow> if is_high_surrogate (ucast x) then k else count_char (ucast x) k | _ \<Rightarrow> k)"

lemma scan_lone:
  assumes "list_all utf16_char as" "list_all utf16_char bs" "is_high_surrogate (ucast h)"
    and "rest = [] \<and> bs = [] \<or> rest = x # units_of bs \<and> \<not> is_low_surrogate (ucast x)"
  shows "utf16_scan m [] no_counts (units_of as @ h # rest) =
    (if m AND STRING_ERROR_FREPLAC \<noteq> 0
     then Inr (units_of as @ 0x3f # units_of bs, lone_count rest (counted (as @ bs) no_counts))
     else if m AND STRING_ERROR_FIGNORE \<noteq> 0 then Inr (units_of (as @ bs), counted (as @ bs) no_counts)
     else Inl UnicodeDecodeError)"
proof (cases "bs = []")
  case True
  then show ?thesis
    unfolding scan_units_of [OF assms(1)] using assms(3,4) by (auto simp: lone_count_def)
next
  case False
  then obtain u us where u: "units_of bs = u # us" using units_of_empty [of bs] by (cases "units_of bs") auto
  have "utf16_scan m str k (u # us) = Inr (str @ u # us, counted bs k)" for str k
    using scan_all [OF assms(2)] unfolding u .
  then show ?thesis
    unfolding scan_units_of [OF assms(1)]
    using assms(3,4) u False by (auto simp: counted_append lone_count_def)
qed

lemma pack_units:
  assumes "list_all utf16_char cs"
  shows "\<exists>s. DeeString_PackUtf16Buffer (units_of cs) m = Some (Inr s) \<and> DeeString_TryPackUtf16Buffer (units_of cs) = Some s
    \<and> string_of cs s"
proof (cases "cs = []")
  case True
  then show ?thesis using string_of_empty
    by (simp add: DeeString_PackUtf16Buffer_def DeeString_TryPackUtf16Buffer_def)
next
  case False
  then show ?thesis using build_units [OF assms] scan_all [OF assms, of _ "[]" no_counts]
    by (auto simp: DeeString_PackUtf16Buffer_def DeeString_TryPackUtf16Buffer_def units_of_empty no_counts_def)
qed

lemma build_lone:
  assumes "list_all utf16_char as" "list_all utf16_char bs"
    and "rest = [] \<and> bs = [] \<or> rest = x # units_of bs \<and> \<not> is_low_surrogate (ucast x)"
  shows "if rest \<noteq> [] \<and> bs = [] \<and> x \<le> 0x7f
    then \<exists>s. utf16_build (units_of as @ 0x3f # units_of bs) (lone_count rest (counted (as @ bs) no_counts)) = Some s
      \<and> string_of (as @ [0x3f]) s
    else utf16_build (units_of as @ 0x3f # units_of bs) (lone_count rest (counted (as @ bs) no_counts)) = None"
proof (cases "rest \<noteq> [] \<and> bs = [] \<and> \<not> is_high_surrogate (ucast x)")
  case False
  have "\<not> x \<le> 0x7f" if "is_high_surrogate (ucast x)"
    using that by (simp add: surrogate_nat word_le_nat_alt unat_ucast_up)
  moreover have "lone_count rest k = k" for k
    using False assms(3) units_of_empty [of bs] by (auto simp: lone_count_def split: list.splits)
  ultimately show ?thesis using False build_uncounted [OF assms(1,2)] by auto
next
  case True
  then have x: "rest = [x]" "\<not> is_low_surrogate (ucast x)" "\<not> is_high_surrogate (ucast x)" using assms(3) by auto
  have n: "unat x < 2 ^ LENGTH(16)" by (rule unsigned_less)
  have c: "utf16_char (ucast x)"
    using x(2,3) n
    by (auto simp: utf16_char_def surrogate_nat word_le_nat_alt unat_ucast_up)
  have lc: "lone_count rest (counted (as @ bs) no_counts) = counted [ucast x] (counted as no_counts)"
    using True x count_char_counted [OF c] by (simp add: lone_count_def)
  have q: "utf16_char 0x3f" "utf16_units 0x3f = [0x3f]"
    by (simp_all add: utf16_char_def surrogate_nat utf16_units_def)
  then have u: "units_of as @ 0x3f # units_of bs = units_of (as @ [0x3f])" "list_all utf16_char (as @ [0x3f])"
    using True assms(1) by simp_all
  have le: "(ucast x :: u32) \<le> UTF8_1BYTE_MAX \<longleftrightarrow> x \<le> 0x7f" "(ucast x :: u32) \<le> 0xffff"
    using n by (simp_all add: word_le_nat_alt UTF8_MAX_nat unat_ucast_up)
  show ?thesis
  proof (cases "x \<le> 0x7f")
    case small: True
    then have "counted [ucast x] (counted as no_counts) = counted (as @ [0x3f]) no_counts"
      using le utf8_length_question by (simp add: counted_def utf8_length_def)
    then show ?thesis using True small build_units [OF u(2)] unfolding lc u(1) by simp
  next
    case False
    then have "2 \<le> utf8_length (ucast x)" using le by (simp add: utf8_length_def)
    then have "utf16_build (units_of (as @ [0x3f])) (counted [ucast x] (counted as no_counts)) = None"
      using length_units_bounds(2) [of as] le(2) utf8_length_question q(2)
      by (intro build_miscounted [OF u(2)]) (auto simp: counted_def no_counts_def split: if_splits)
    then show ?thesis using False unfolding lc u(1) by simp
  qed
qed

lemma pack_lone:
  assumes "list_all utf16_char as" "list_all utf16_char bs" "is_high_surrogate (ucast h)"
    and "rest = [] \<and> bs = [] \<or> rest = x # units_of bs \<and> \<not> is_low_surrogate (ucast x)"
  shows "if m AND STRING_ERROR_FREPLAC \<noteq> 0
    then if rest \<noteq> [] \<and> bs = [] \<and> x \<le> 0x7f
      then \<exists>s. DeeString_PackUtf16Buffer (units_of as @ h # rest) m = Some (Inr s) \<and> string_of (as @ [0x3f]) s
      else DeeString_PackUtf16Buffer (units_of as @ h # rest) m = None
    else if m AND STRING_ERROR_FIGNORE \<noteq> 0
    then \<exists>s. DeeString_PackUtf16Buffer (units_of as @ h # rest) m = Some (Inr s) \<and> string_of (as @ bs) s
    else DeeString_PackUtf16Buffer (units_of as @ h # rest) m = Some (Inl UnicodeDecodeError)"
proof -
  have "list_all utf16_char (as @ bs)" using assms(1,2) by simp
  from build_units [OF this] build_lone [OF assms(1,2,4)] scan_lone [OF assms, of m] show ?thesis
    by (auto simp: DeeString_PackUtf16Buffer_def no_counts_def)
qed

section \<open>Properties\<close>



end
