(* ===== verification/StringVariants.thy ===== *)
theory StringVariants
  imports StringUtf16
begin

text \<open>
  The characters of a string object in other widths and encodings
  (src/deemon/objects/unicode/unicode.c): 16-bit and 32-bit characters, bytes, UTF-8 and UTF-16.  The
  functions are those of a first request, before the result is cached in the \<open>Dee_string_utf\<close>, with
  allocations that succeed.  \<open>None\<close> is a failed assertion or an access outside an allocated buffer; in
  the list of a buffer it is a cell that was never written.
\<close>

section \<open>String objects\<close>

text \<open>
  What holds of every string object: the bytes of a string of width 1 are its characters, and those of
  the others the UTF-8 of the characters.
\<close>

definition string_ok :: "dee_string \<Rightarrow> bool" where
  "string_ok s \<longleftrightarrow>
     (case u_data s of
        Width1 cs \<Rightarrow> s_str s = cs
      | _ \<Rightarrow> s_str s = utf32_to_utf8 (data_chars (u_data s)))"

section \<open>Wider characters\<close>

definition DeeString_As2Byte :: "dee_string \<Rightarrow> u16 list option" where
  "DeeString_As2Byte self =
     (case u_data self of
        Width1 _ \<Rightarrow> Some (map ucast (s_str self))
      | Width2 cs \<Rightarrow> Some cs
      | Width4 _ \<Rightarrow> None)"

definition DeeString_As4Byte :: "dee_string \<Rightarrow> u32 list" where
  "DeeString_As4Byte self =
     (case u_data self of
        Width1 _ \<Rightarrow> map ucast (s_str self)
      | Width2 cs \<Rightarrow> map ucast cs
      | Width4 cs \<Rightarrow> cs)"

section \<open>UTF-8\<close>

text \<open>
  Only a string of width 1 with a byte above 0x7f has to be encoded.  The length of the result is
  counted first: two for the first such byte at \<open>iter\<close>, then one more for every further one.
\<close>

definition latin1_to_utf8 :: "u8 \<Rightarrow> u8 list" where
  "latin1_to_utf8 ch = (if ch \<le> 0x7f then [ch] else [0xc0 OR drop_bit 6 (ch AND 0xc0), 0x80 OR (ch AND 0x3f)])"

definition latin1_utf8_length :: "u8 list \<Rightarrow> nat" where
  "latin1_utf8_length str =
     length str + 1 + length (filter (\<lambda>ch. ch \<ge> 0x80) (tl (dropWhile (\<lambda>ch. ch \<le> 0x7f) str)))"

definition DeeString_AsUtf8 :: "dee_string \<Rightarrow> u8 list option" where
  "DeeString_AsUtf8 self =
     (case u_data self of
        Width1 _ \<Rightarrow>
          if list_all (\<lambda>ch. ch \<le> 0x7f) (s_str self) then Some (s_str self)
          else written (latin1_utf8_length (s_str self))
            (takeWhile (\<lambda>ch. ch \<le> 0x7f) (s_str self)
             @ concat (map latin1_to_utf8 (dropWhile (\<lambda>ch. ch \<le> 0x7f) (s_str self))))
      | _ \<Rightarrow> Some (s_str self))"

section \<open>Bytes\<close>

fun chars_to_bytes :: "bool \<Rightarrow> u32 list \<Rightarrow> dee_error + u8 list" where
  "chars_to_bytes allow_invalid [] = Inr []"
| "chars_to_bytes allow_invalid (ch # str) =
     (if ch > 0xff \<and> \<not> allow_invalid then Inl ValueError
      else map_sum id ((#) (if ch > 0xff then 0x3f else ucast ch)) (chars_to_bytes allow_invalid str))"

definition DeeString_AsBytes :: "dee_string \<Rightarrow> bool \<Rightarrow> (dee_error + u8 list) option" where
  "DeeString_AsBytes self allow_invalid =
     (case u_data self of
        Width1 _ \<Rightarrow> Some (Inr (s_str self))
      | _ \<Rightarrow>
          let str = data_chars (u_data self)
          in if \<not> length str \<le> length (s_str self) then None
             else if length str = length (s_str self) then Some (Inr (s_str self))
             else Some (chars_to_bytes allow_invalid str))"

section \<open>UTF-16\<close>

text \<open>Writing \<open>ws\<close> into a buffer from the index \<open>k\<close>.\<close>

definition overwrite :: "nat \<Rightarrow> 'a list \<Rightarrow> 'a list \<Rightarrow> 'a list option" where
  "overwrite k ws buf =
     (if k + length ws \<le> length buf then Some (take k buf @ ws @ drop (k + length ws) buf) else None)"

definition is_surrogate :: "u32 \<Rightarrow> bool" where
  "is_surrogate ch \<longleftrightarrow> is_high_surrogate ch \<or> is_low_surrogate ch"

text \<open>
  A string of width 2 with a surrogate at the index \<open>i\<close>, the first one: \<open>i\<close> units are copied into a
  buffer (with a cell for the terminator), and writing goes on at \<open>result + 1\<close>.
\<close>

definition utf16_fixed :: "u32 \<Rightarrow> u16 list \<Rightarrow> nat \<Rightarrow> u16 option list option" where
  "utf16_fixed error_mode str i =
     (let ignore = error_mode AND STRING_ERROR_FIGNORE \<noteq> 0;
          dst = (if ignore then filter (\<lambda>ch. \<not> is_surrogate (ucast ch)) (drop (Suc i) str)
                 else 0x3f # map (\<lambda>ch. if is_surrogate (ucast ch) then 0x3f else ch) (drop (Suc i) str))
      in map_option (take (if ignore then 1 + length dst else length str))
           (overwrite 1 (map Some (dst @ [0])) (map Some (take i str) @ replicate (length str + 1 - i) None)))"

text \<open>A string of width 4.\<close>

definition utf16_bad :: "u32 \<Rightarrow> bool" where
  "utf16_bad ch \<longleftrightarrow> (if ch \<le> 0xffff then is_surrogate ch else ch > 0x10ffff)"

definition utf16_emit :: "u32 \<Rightarrow> u32 \<Rightarrow> u16 list" where
  "utf16_emit error_mode ch =
     (if utf16_bad ch then if error_mode AND STRING_ERROR_FIGNORE \<noteq> 0 then [] else [0x3f]
      else if ch \<le> 0xffff then [ucast ch]
      else [0xd800 + ucast (drop_bit 10 ch), 0xdc00 + ucast (ch AND 0x3ff)])"

definition utf16_result_length :: "u32 \<Rightarrow> u32 list \<Rightarrow> nat" where
  "utf16_result_length error_mode str =
     length str + length (filter (\<lambda>ch. \<not> utf16_bad ch \<and> ch > 0xffff) str)
     - (if error_mode AND STRING_ERROR_FIGNORE \<noteq> 0 then length (filter utf16_bad str) else 0)"

definition DeeString_AsUtf16 :: "dee_string \<Rightarrow> u32 \<Rightarrow> (dee_error + u16 option list) option" where
  "DeeString_AsUtf16 self error_mode =
     (let strict = (error_mode AND (STRING_ERROR_FREPLAC OR STRING_ERROR_FIGNORE) = 0)
      in case u_data self of
           Width1 _ \<Rightarrow> map_option (\<lambda>str. Inr (map Some str)) (DeeString_As2Byte self)
         | Width2 str \<Rightarrow>
             let i = length (takeWhile (\<lambda>ch. \<not> is_surrogate (ucast ch)) str)
             in if i = length str then Some (Inr (map Some str))
                else if strict then Some (Inl UnicodeEncodeError)
                else map_option Inr (utf16_fixed error_mode str i)
         | Width4 str \<Rightarrow>
             if strict \<and> list_ex utf16_bad str then Some (Inl UnicodeEncodeError)
             else map_option (\<lambda>dst. Inr (map Some dst))
               (written (utf16_result_length error_mode str) (concat (map (utf16_emit error_mode) str))))"

section \<open>The constructors\<close>

lemma string_ok_simps [simp]:
  "string_ok \<lparr>s_str = str, u_data = Width1 bs\<rparr> \<longleftrightarrow> str = bs"
  "string_ok \<lparr>s_str = str, u_data = Width2 ws\<rparr> \<longleftrightarrow> str = utf32_to_utf8 (map ucast ws)"
  "string_ok \<lparr>s_str = str, u_data = Width4 cs\<rparr> \<longleftrightarrow> str = utf32_to_utf8 cs"
  by (simp_all add: string_ok_def)

text \<open>The decoding loops only end in width 1 when the bytes are the characters.\<close>

lemma loop32_width: "utf8_loop32 m str dst t stale = Inr s \<Longrightarrow> u_data s \<noteq> Width1 cs"
proof (induction m str dst t stale rule: utf8_loop32.induct)
  case (2 m str dst ch iter stale)
  from "2.prems" show ?case using "2.IH"
    by (auto simp: utf8_loop32.simps(2) Let_def simp del: One_nat_def split: if_splits)
qed (auto simp: utf8_loop32.simps)

lemma loop16_width: "utf8_loop16 m str dst t stale = Inr s \<Longrightarrow> u_data s \<noteq> Width1 cs"
proof (induction m str dst t stale rule: utf8_loop16.induct)
  case (2 m str dst ch iter stale)
  from "2.prems" show ?case using "2.IH" loop32_width
    by (auto simp: utf8_loop16.simps(2) Let_def simp del: One_nat_def split: if_splits)
qed (auto simp: utf8_loop16.simps)

lemma loop_width: "utf8_loop shrink m str t stale = Inr s \<Longrightarrow> u_data s = Width1 cs \<Longrightarrow> s_str s = cs"
proof (induction shrink m str t stale rule: utf8_loop.induct)
  case (2 shrink m str ch iter stale)
  from "2.prems" show ?case using "2.IH" loop32_width loop16_width
    by (auto simp: utf8_loop.simps(2) Let_def simp del: One_nat_def split: if_splits)
qed (auto simp: utf8_loop.simps)

lemma string_of_ok:
  "string_of cs s \<Longrightarrow> (\<And>bs. u_data s = Width1 bs \<Longrightarrow> s_str s = bs) \<Longrightarrow> string_ok s"
  by (cases "u_data s") (auto simp: string_of_def string_ok_def)

definition result_ok :: "(dee_error + dee_string) option \<Rightarrow> bool" where
  "result_ok r = (case r of Some (Inr s) \<Rightarrow> string_ok s | _ \<Rightarrow> True)"

lemma packed_ok:
  "pred_option string_ok (map_option (\<lambda>str. \<lparr>s_str = str, u_data = (if b then Width1 str else Width4 cs)\<rparr>)
     (written n (utf32_to_utf8 cs)))"
  by (simp add: written_def string_ok_def)

lemma new_empty_ok: "string_ok DeeString_NewEmpty"
  by (simp add: DeeString_NewEmpty_def string_ok_def)

lemma pack16_ok: "pred_option string_ok (DeeString_Pack2ByteBuffer src)"
  by (simp add: DeeString_Pack2ByteBuffer_def written_def char16_to_utf8_chars new_empty_ok)

lemma pack32_ok: "result_ok (DeeString_PackUtf32Buffer cs m)" "pred_option string_ok (DeeString_TryPackUtf32Buffer cs)"
  using new_empty_ok
  by (auto simp: DeeString_PackUtf32Buffer_def DeeString_TryPackUtf32Buffer_def utf32_scan_kept result_ok_def
      written_def Let_def)

lemma bytes_written: "ch \<le> UTF8_4BYTE_MAX \<Longrightarrow> utf16_bytes ch = Dee_unicode_writeutf8 ch"
  by (simp add: utf16_bytes_def Dee_unicode_writeutf8_def)

lemma char32_writes:
  "utf16_to_utf8_char32 t = Some (str, cs) \<Longrightarrow> str = utf32_to_utf8 cs"
proof (induction t arbitrary: str cs rule: utf16_to_utf8_char32.induct)
  case (2 ch)
  have "unat (ucast ch :: u32) < 65536" using unsigned_less [of ch] by (simp add: unat_ucast_up)
  then have "(ucast ch :: u32) \<le> UTF8_4BYTE_MAX" by (simp add: word_le_nat_alt UTF8_MAX_nat)
  then show ?case using "2.prems" by (auto simp: bytes_written split: if_splits)
next
  case (3 ch low src)
  have "unat (ucast ch :: u32) < 65536" using unsigned_less [of ch] by (simp add: unat_ucast_up)
  then have "(ucast ch :: u32) \<le> UTF8_4BYTE_MAX" by (simp add: word_le_nat_alt UTF8_MAX_nat)
  then show ?case using 3 utf8_max_order(4) by (auto simp: bytes_written Let_def split: if_splits)
qed simp

lemma build_ok: "pred_option string_ok (utf16_build t k)"
  by (auto simp: utf16_build_def written_def char16_to_utf8_chars utf16_to_utf8_char16_def bmp_chars
      string_ok_def dest: char32_writes split: option.splits bind_splits)

lemma pack_utf16_ok:
  "result_ok (DeeString_PackUtf16Buffer src m)" "pred_option string_ok (DeeString_TryPackUtf16Buffer src)"
proof -
  have "result_ok (map_option Inr (utf16_build t k))" for t k
    using build_ok [of t k] by (auto simp: result_ok_def split: option.splits)
  then show "result_ok (DeeString_PackUtf16Buffer src m)" "pred_option string_ok (DeeString_TryPackUtf16Buffer src)"
    using new_empty_ok build_ok
    by (auto simp: DeeString_PackUtf16Buffer_def DeeString_TryPackUtf16Buffer_def result_ok_def split: sum.splits)
qed

lemma new_utf8_stale: "\<not> result_ok (Some (DeeString_NewUtf8 [0xc3, 0xa9, 0x80, 0x61, 0x62] STRING_ERROR_FIGNORE))"
  by code_simp

lemma new_utf8_ok: "result_ok (Some (DeeString_NewUtf8 (utf32_to_utf8 cs) m))"
  using loop_chars [of "[]" True m cs] loop_width [of True m "[]" "utf32_to_utf8 cs" "[]"]
  by (auto simp: result_ok_def DeeString_NewUtf8_def intro!: string_of_ok [of cs] simp: string_of_def)

section \<open>The variants\<close>

lemma ok_cases:
  assumes "string_ok s"
  obtains (Width1) "u_data s = Width1 (s_str s)" "data_chars (u_data s) = map ucast (s_str s)"
  | (Width2) ws where "u_data s = Width2 ws" "s_str s = utf32_to_utf8 (map ucast ws)" "data_chars (u_data s) = map ucast ws"
  | (Width4) cs where "u_data s = Width4 cs" "s_str s = utf32_to_utf8 cs" "data_chars (u_data s) = cs"
  using assms by (cases "u_data s") (auto simp: string_ok_def)

lemma as4_chars: "string_ok s \<Longrightarrow> DeeString_As4Byte s = data_chars (u_data s)"
  by (cases "u_data s") (auto simp: string_ok_def DeeString_As4Byte_def)

lemma as2_chars:
  "string_ok s \<Longrightarrow> (case u_data s of Width4 _ \<Rightarrow> DeeString_As2Byte s = None
     | _ \<Rightarrow> map_option (map ucast) (DeeString_As2Byte s) = Some (data_chars (u_data s)))"
  by (cases "u_data s") (auto simp: string_ok_def DeeString_As2Byte_def word_unat_eq_iff unat_ucast_up)

lemma follow_mask: "(ucast ((ucast (ch::u8) :: u32) AND 0x3f) :: u8) = ch AND 0x3f"
proof -
  have "(0x3f :: u32) = mask 6" "(0x3f :: u8) = mask 6" by (simp_all add: mask_eq_exp_minus_1)
  then show ?thesis by (simp only:) (rule bit_word_eqI, auto simp: bit_simps)
qed

lemma latin1_writeutf8: "Dee_unicode_writeutf8 (ucast ch) = latin1_to_utf8 ch"
proof -
  have "unat ch < 256" using unsigned_less [of ch] by simp
  then have c: "(ucast ch :: u32) \<le> UTF8_1BYTE_MAX \<longleftrightarrow> ch \<le> 0x7f" "(ucast ch :: u32) \<le> UTF8_2BYTE_MAX"
    by (simp_all add: word_le_nat_alt UTF8_MAX_nat unat_ucast_up)
  have "drop_bit 6 (ch AND 0xc0) = drop_bit 6 ch AND mask 2" by (simp add: drop_bit_and mask_eq_exp_minus_1)
  also have "\<dots> = drop_bit 6 ch" by (rule bit_word_eqI) (auto simp: bit_simps dest: bit_imp_le_length)
  finally have "ucast (drop_bit 6 (ucast ch :: u32)) = drop_bit 6 (ch AND 0xc0)"
    by (auto intro: bit_word_eqI simp: bit_simps)
  moreover have "follow_byte 0 (ucast ch) = 0x80 OR (ch AND 0x3f)"
    using follow_mask [of ch] by (simp add: follow_byte_def)
  moreover have "(ucast (ucast ch :: u32) :: u8) = ch" by (rule bit_word_eqI) (auto simp: bit_simps)
  ultimately show ?thesis using c by (simp add: Dee_unicode_writeutf8_def latin1_to_utf8_def)
qed

lemma utf8_latin1: "utf32_to_utf8 (map ucast str) = concat (map latin1_to_utf8 str)"
  by (induction str) (simp_all add: latin1_writeutf8)

lemma latin1_ascii: "list_all (\<lambda>ch. ch \<le> 0x7f) str \<Longrightarrow> concat (map latin1_to_utf8 str) = str"
  by (induction str) (simp_all add: latin1_to_utf8_def)

lemma length_latin1:
  "length (concat (map latin1_to_utf8 str)) = length str + length (filter (\<lambda>ch. ch \<ge> 0x80) str)"
  by (induction str) (auto simp: latin1_to_utf8_def word_le_nat_alt)

lemma as_utf8_chars:
  assumes "string_ok s"
  shows "DeeString_AsUtf8 s = Some (utf32_to_utf8 (data_chars (u_data s)))"
  using assms
proof (cases rule: ok_cases)
  case Width1
  let ?str = "s_str s" and ?ascii = "\<lambda>ch::u8. ch \<le> 0x7f"
  have split: "takeWhile ?ascii ?str @ concat (map latin1_to_utf8 (dropWhile ?ascii ?str)) = concat (map latin1_to_utf8 ?str)"
  proof -
    have "list_all ?ascii (takeWhile ?ascii ?str)" by (auto simp: list_all_iff dest: set_takeWhileD)
    then have "takeWhile ?ascii ?str @ concat (map latin1_to_utf8 (dropWhile ?ascii ?str))
        = concat (map latin1_to_utf8 (takeWhile ?ascii ?str @ dropWhile ?ascii ?str))"
      by (simp only: map_append concat_append latin1_ascii)
    then show ?thesis by (simp only: takeWhile_dropWhile_id)
  qed
  show ?thesis
  proof (cases "list_all ?ascii ?str")
    case True
    then show ?thesis using Width1 latin1_ascii by (simp add: DeeString_AsUtf8_def utf8_latin1)
  next
    case False
    then obtain c rest where d: "dropWhile ?ascii ?str = c # rest" "\<not> c \<le> 0x7f"
      by (metis dropWhile_eq_Nil_conv hd_dropWhile list.exhaust list.sel(1) list_all_iff)
    have none: "filter (\<lambda>ch. ch \<ge> 0x80) (takeWhile ?ascii ?str) = []" and c: "c \<ge> 0x80"
      using d(2) by (auto simp: filter_empty_conv word_le_nat_alt dest: set_takeWhileD)
    have "filter (\<lambda>ch. ch \<ge> 0x80) (takeWhile ?ascii ?str @ dropWhile ?ascii ?str)
        = c # filter (\<lambda>ch. ch \<ge> 0x80) rest"
      unfolding filter_append d(1) none using c by simp
    then have "filter (\<lambda>ch. ch \<ge> 0x80) ?str = c # filter (\<lambda>ch. ch \<ge> 0x80) rest"
      by (simp only: takeWhile_dropWhile_id)
    then show ?thesis using Width1 False d split
      by (simp add: DeeString_AsUtf8_def written_def utf8_latin1 length_latin1 latin1_utf8_length_def)
  qed
qed (simp_all add: DeeString_AsUtf8_def)

lemma byte_nat: "unat (b::u8) < 256"
  using unsigned_less [of b] by simp

text \<open>The bytes of characters: those above U+00FF are an error, or question marks.\<close>

definition bytes_of :: "bool \<Rightarrow> u32 list \<Rightarrow> dee_error + u8 list" where
  "bytes_of allow_invalid cs =
     (if allow_invalid \<or> list_all (\<lambda>ch. ch \<le> 0xff) cs then Inr (map (\<lambda>ch. if ch \<le> 0xff then ucast ch else 0x3f) cs)
      else Inl ValueError)"

lemma chars_to_bytes_of: "chars_to_bytes allow_invalid cs = bytes_of allow_invalid cs"
  by (induction cs) (auto simp: bytes_of_def not_less)

lemma ascii_chars: "sum_list (map utf8_length cs) = length cs \<Longrightarrow> list_all (\<lambda>ch. ch \<le> 0xff) cs"
proof (induction cs)
  case (Cons ch cs)
  have "utf8_length ch = 1" "sum_list (map utf8_length cs) = length cs"
    using Cons.prems sum_utf8_length [of cs] utf8_length_pos [of ch] by simp_all
  then have "ch \<le> UTF8_1BYTE_MAX" by (simp add: utf8_length_def split: if_splits)
  then show ?case using Cons.IH \<open>sum_list (map utf8_length cs) = length cs\<close>
    by (simp add: word_le_nat_alt UTF8_MAX_nat)
qed simp

lemma as_bytes_wide:
  assumes "str = utf32_to_utf8 cs"
  shows "length cs \<le> length str" "length cs = length str \<Longrightarrow> Inr str = bytes_of allow_invalid cs"
proof -
  show "length cs \<le> length str" unfolding assms length_utf32_to_utf8 by (rule sum_utf8_length)
  show "Inr str = bytes_of allow_invalid cs" if "length cs = length str"
  proof -
    have n: "sum_list (map utf8_length cs) = length cs" using that by (simp add: assms length_utf32_to_utf8)
    have e: "map (\<lambda>ch. if ch \<le> 0xff then ucast ch else 0x3f) cs = map ucast cs"
      using ascii_chars [OF n] by (simp add: list_all_iff)
    show ?thesis unfolding bytes_of_def assms ascii_bytes(1) [OF n] e using ascii_chars [OF n] by simp
  qed
qed

lemma as_bytes_chars:
  assumes "string_ok s"
  shows "DeeString_AsBytes s allow_invalid = Some (bytes_of allow_invalid (data_chars (u_data s)))"
  using assms
proof (cases rule: ok_cases)
  case Width1
  have "(ucast (b::u8) :: u32) \<le> 0xff" "(ucast (ucast b :: u32) :: u8) = b" for b
    using byte_nat [of b] by (simp_all add: word_le_nat_alt word_unat_eq_iff word_nat)
  then have "bytes_of allow_invalid (map ucast (s_str s)) = Inr (s_str s)"
    by (simp add: bytes_of_def list_all_iff comp_def)
  then show ?thesis using Width1 by (simp add: DeeString_AsBytes_def)
next
  case (Width2 ws)
  then show ?thesis using as_bytes_wide(1) [OF Width2(2)] as_bytes_wide(2) [OF Width2(2), of allow_invalid]
    by (simp add: DeeString_AsBytes_def chars_to_bytes_of Let_def)
next
  case (Width4 cs)
  then show ?thesis using as_bytes_wide(1) [OF Width4(2)] as_bytes_wide(2) [OF Width4(2), of allow_invalid]
    by (simp add: DeeString_AsBytes_def chars_to_bytes_of Let_def)
qed

section \<open>UTF-16\<close>

definition bmp_char :: "u32 \<Rightarrow> bool" where
  "bmp_char ch \<longleftrightarrow> ch \<le> 0xffff \<and> \<not> is_surrogate ch"

text \<open>What a reader of the pair that is written for a character makes of it.\<close>

definition shifted :: "u32 \<Rightarrow> u32" where
  "shifted ch = (if ch \<le> 0xffff then ch else ch + 0x10000)"

lemma emit_units:
  assumes "\<not> utf16_bad ch" "ch < 0x100000"
  shows "utf16_emit m ch = utf16_units (shifted ch)" "utf16_char (shifted ch)"
proof -
  have n: "unat ch < 2 ^ 20" using assms(2) by (simp add: word_less_nat_alt)
  have big: "\<not> ch + 0x10000 \<le> 0xffff" "ch + 0x10000 \<le> 0x10ffff" "\<not> is_high_surrogate (ch + 0x10000)" if "\<not> ch \<le> 0xffff"
    using n that by (auto simp: word_le_nat_alt unat_word_ariths surrogate_nat)
  have "(0x3ff :: u32) = mask 10" by (simp add: mask_eq_exp_minus_1)
  then show "utf16_emit m ch = utf16_units (shifted ch)"
    using assms(1) big by (simp add: utf16_emit_def shifted_def utf16_units_def)
  show "utf16_char (shifted ch)" using assms(1) big
    by (auto simp: utf16_char_def shifted_def utf16_bad_def is_surrogate_def word_le_nat_alt split: if_splits)
qed

lemma emit_length:
  "list_all (\<lambda>ch. \<not> utf16_bad ch) cs \<Longrightarrow> length (concat (map (utf16_emit m) cs)) = utf16_result_length m cs"
proof -
  assume a: "list_all (\<lambda>ch. \<not> utf16_bad ch) cs"
  have b: "filter utf16_bad cs = []" using a by (simp add: filter_empty_conv list_all_iff)
  have "length (concat (map (utf16_emit m) cs)) = length cs + length (filter (\<lambda>ch. \<not> utf16_bad ch \<and> ch > 0xffff) cs)"
    using a by (induction cs) (auto simp: utf16_emit_def not_le not_less)
  then show ?thesis using b by (simp add: utf16_result_length_def)
qed

lemma as_utf16_wide:
  assumes "list_all (\<lambda>ch. \<not> utf16_bad ch \<and> ch < 0x100000) cs"
  shows "DeeString_AsUtf16 \<lparr>s_str = str, u_data = Width4 cs\<rparr> m = Some (Inr (map Some (units_of (map shifted cs))))"
    "list_all utf16_char (map shifted cs)"
proof -
  have g: "list_all (\<lambda>ch. \<not> utf16_bad ch) cs" using assms by (simp add: list_all_iff)
  have e: "concat (map (utf16_emit m) cs) = units_of (map shifted cs)" "list_all utf16_char (map shifted cs)"
    using assms by (induction cs) (simp_all add: emit_units)
  have "\<not> list_ex utf16_bad cs" using g by (simp add: list_ex_iff list_all_iff)
  then show "DeeString_AsUtf16 \<lparr>s_str = str, u_data = Width4 cs\<rparr> m = Some (Inr (map Some (units_of (map shifted cs))))"
    using emit_length [OF g, of m] by (simp add: DeeString_AsUtf16_def written_def e(1))
  show "list_all utf16_char (map shifted cs)" by (rule e)
qed

lemma bmp_char_good: "bmp_char ch \<Longrightarrow> \<not> utf16_bad ch \<and> ch < 0x100000 \<and> shifted ch = ch"
  by (simp add: bmp_char_def utf16_bad_def shifted_def word_le_nat_alt word_less_nat_alt)

lemma latin1_bmp: "bmp_char (ucast (b::u8))"
  using byte_nat [of b] by (simp add: bmp_char_def is_surrogate_def surrogate_nat word_le_nat_alt unat_ucast_up)

lemma as_utf16_bmp:
  assumes "string_ok s" "list_all bmp_char (data_chars (u_data s))"
  shows "DeeString_AsUtf16 s m = Some (Inr (map Some (units_of (data_chars (u_data s)))))"
  using assms(1)
proof (cases rule: ok_cases)
  case Width1
  have "units_of (map ucast (s_str s)) = map ucast (map ucast (s_str s) :: u32 list)"
    using latin1_bmp by (intro units_bmp) (simp add: list_all_iff bmp_char_def)
  then show ?thesis using Width1 narrow_byte
    by (simp add: DeeString_AsUtf16_def DeeString_As2Byte_def comp_def)
next
  case (Width2 ws)
  have t: "takeWhile (\<lambda>ch. \<not> is_surrogate (ucast ch)) ws = ws"
    using assms(2) by (simp add: takeWhile_eq_all_conv Width2(3) list_all_iff bmp_char_def)
  have "units_of (map ucast ws) = map ucast (map ucast ws :: u32 list)"
    using assms(2) by (intro units_bmp) (simp add: Width2(3) list_all_iff bmp_char_def)
  moreover have "(ucast (ucast w :: u32) :: u16) = w" for w :: u16
    by (rule bit_word_eqI) (auto simp: bit_simps)
  ultimately show ?thesis using Width2 by (simp add: DeeString_AsUtf16_def comp_def t)
next
  case (Width4 cs)
  have g: "list_all (\<lambda>ch. \<not> utf16_bad ch \<and> ch < 0x100000) cs" "map shifted cs = cs"
    using assms(2) bmp_char_good by (simp_all add: Width4(3) list_all_iff map_idI)
  have "s = \<lparr>s_str = s_str s, u_data = Width4 cs\<rparr>" using Width4(1) by simp
  then show ?thesis using as_utf16_wide(1) [OF g(1), of "s_str s" m] g(2) Width4(3) by simp
qed

text \<open>A string of width 2 with a surrogate, in a mode that replaces.\<close>

definition replaced :: "u16 \<Rightarrow> u16" where
  "replaced ch = (if is_surrogate (ucast ch) then 0x3f else ch)"

lemma fixed_first: "utf16_fixed STRING_ERROR_FREPLAC (x # rest) 0 = None"
proof -
  have "\<not> STRING_ERROR_FREPLAC AND STRING_ERROR_FIGNORE \<noteq> 0" by code_simp
  then show ?thesis by (simp add: utf16_fixed_def overwrite_def)
qed

lemma fixed_later:
  assumes "2 \<le> length t"
  shows "\<exists>r. utf16_fixed STRING_ERROR_FREPLAC (t @ x # rest) (length t) = Some r
    \<and> length r = length (t @ x # rest) \<and> take (length rest + 3) r = map Some (hd t # 0x3f # map replaced rest @ [0])"
proof -
  define dst where "dst = 0x3f # map replaced rest @ [0]"
  define buf where "buf = map Some t @ replicate (Suc (Suc (length rest))) (None :: u16 option)"
  define r where "r = take 1 buf @ map Some dst @ drop (1 + length dst) buf"
  have m: "STRING_ERROR_FREPLAC AND STRING_ERROR_FIGNORE = 0" by code_simp
  have len: "length dst = length rest + 2" "length buf = length t + length rest + 2" by (simp_all add: dst_def buf_def)
  have b: "overwrite 1 (map Some dst) buf = Some r" using len assms by (simp add: overwrite_def r_def)
  have eq: "utf16_fixed STRING_ERROR_FREPLAC (t @ x # rest) (length t) = Some (take (length (t @ x # rest)) r)"
    using b m by (simp add: utf16_fixed_def dst_def buf_def replaced_def [abs_def] Let_def)
  have f: "take 1 buf = [Some (hd t)]" using assms by (cases t) (auto simp: buf_def)
  have "length r = length buf" using len assms by (simp add: r_def)
  then have "length (take (length (t @ x # rest)) r) = length (t @ x # rest)" using len by simp
  moreover have "take (length rest + 3) (take (length (t @ x # rest)) r) = take (length rest + 3) r"
    using assms by (simp add: min_def)
  moreover have "take (length rest + 3) r = map Some (hd t # dst)"
  proof -
    have r: "map Some (hd t # dst) @ drop (1 + length dst) buf = r" unfolding r_def f by simp
    have n: "length (map Some (hd t # dst)) = length rest + 3" using len(1) by simp
    show ?thesis using r n unfolding append_eq_conv_conj by (simp only:)
  qed
  ultimately show ?thesis unfolding eq dst_def by simp
qed

lemma as_utf16_surrogate:
  assumes "list_all (\<lambda>ch. \<not> is_surrogate (ucast ch)) t" "is_surrogate (ucast x)"
  shows "DeeString_AsUtf16 \<lparr>s_str = str, u_data = Width2 (t @ x # rest)\<rparr> STRING_ERROR_FREPLAC
    = map_option Inr (utf16_fixed STRING_ERROR_FREPLAC (t @ x # rest) (length t))"
proof -
  have "takeWhile (\<lambda>ch. \<not> is_surrogate (ucast ch)) (t @ x # rest) = t"
    using assms by (induction t) simp_all
  moreover have "STRING_ERROR_FREPLAC AND (STRING_ERROR_FREPLAC OR STRING_ERROR_FIGNORE) \<noteq> 0" by code_simp
  ultimately show ?thesis by (simp add: DeeString_AsUtf16_def Let_def)
qed

section \<open>Properties\<close>

text \<open>
  Every constructor builds a string object whose bytes agree with its characters (equal at width
  1, their UTF-8 at the others): from 16-bit and 32-bit characters and from UTF-16, whatever they are,
  and from UTF-8 that encodes characters.
\<close>

lemma string_constructors_ok:
  "pred_option string_ok (DeeString_Pack2ByteBuffer units)
   \<and> pred_option string_ok (DeeString_TryPack2ByteBuffer units)
   \<and> result_ok (DeeString_PackUtf16Buffer units error_mode)
   \<and> pred_option string_ok (DeeString_TryPackUtf16Buffer units)
   \<and> result_ok (DeeString_PackUtf32Buffer cs error_mode)
   \<and> pred_option string_ok (DeeString_TryPackUtf32Buffer cs)
   \<and> result_ok (Some (DeeString_NewUtf8 (utf32_to_utf8 cs) error_mode))"
  using pack16_ok pack32_ok pack_utf16_ok new_utf8_ok by (simp add: try_pack16)

text \<open>
  C16: The constructors of strings from 16-bit and 32-bit characters and from UTF-16, whatever the text and the mode,
  build a string object whose bytes agree with its characters if they return one.  \<open>DeeString_NewUtf8\<close> builds such an
  object from UTF-8 that encodes characters; not from every text: the bytes of the string that it makes
  of c3 a9 80 61 62 when it ignores errors have one too many.  The
  variants of an object whose bytes agree have its characters.  The 32-bit characters are the characters,
  the 16-bit ones as well, unless the string has width 4, where asking for them is a failed assertion.
  The UTF-8 is that of the characters, and decoding it gives them back.  The bytes are the characters, if
  all are below U+0100; else they are an error, or have question marks if that is allowed.
\<close>

theorem string_variants_correct:
  assumes "string_ok s"
  shows "DeeString_As4Byte s = data_chars (u_data s)
    \<and> (case u_data s of Width4 _ \<Rightarrow> DeeString_As2Byte s = None
       | _ \<Rightarrow> map_option (map ucast) (DeeString_As2Byte s) = Some (data_chars (u_data s)))
    \<and> DeeString_AsUtf8 s = Some (utf32_to_utf8 (data_chars (u_data s)))
    \<and> (\<exists>s'. map_option (\<lambda>str. DeeString_NewUtf8 str error_mode) (DeeString_AsUtf8 s) = Some (Inr s')
         \<and> data_chars (u_data s') = data_chars (u_data s))
    \<and> DeeString_AsBytes s allow_invalid = Some (bytes_of allow_invalid (data_chars (u_data s)))
    \<and> pred_option string_ok (DeeString_Pack2ByteBuffer units)
    \<and> pred_option string_ok (DeeString_TryPack2ByteBuffer units)
    \<and> result_ok (DeeString_PackUtf16Buffer units error_mode)
    \<and> pred_option string_ok (DeeString_TryPackUtf16Buffer units)
    \<and> result_ok (DeeString_PackUtf32Buffer cs error_mode)
    \<and> pred_option string_ok (DeeString_TryPackUtf32Buffer cs)
    \<and> result_ok (Some (DeeString_NewUtf8 (utf32_to_utf8 cs) error_mode))
    \<and> \<not> result_ok (Some (DeeString_NewUtf8 [0xc3, 0xa9, 0x80, 0x61, 0x62] STRING_ERROR_FIGNORE))"
proof -
  have "\<exists>s'. DeeString_NewUtf8 (utf32_to_utf8 (data_chars (u_data s))) error_mode = Inr s'
      \<and> data_chars (u_data s') = data_chars (u_data s)"
    using loop_chars [of "[]" True error_mode "data_chars (u_data s)"] by (auto simp: DeeString_NewUtf8_def)
  then show ?thesis
    using as4_chars [OF assms] as2_chars [OF assms] as_utf8_chars [OF assms] as_bytes_chars [OF assms]
      string_constructors_ok [of units error_mode cs] new_utf8_stale by simp
qed

lemma string_variants_correct_witness:
  "DeeString_AsUtf8 \<lparr>s_str = [0x61, 0xe9], u_data = Width1 [0x61, 0xe9]\<rparr> = Some [0x61, 0xc3, 0xa9]
   \<and> DeeString_AsBytes \<lparr>s_str = [0x61, 0xe2, 0x82, 0xac], u_data = Width2 [0x61, 0x20ac]\<rparr> False = Some (Inl ValueError)"
proof -
  have "utf32_to_utf8 [0x61, 0xe9] = [0x61, 0xc3, 0xa9]" "utf32_to_utf8 [0x61, 0x20ac] = [0x61, 0xe2, 0x82, 0xac]"
    by code_simp+
  moreover have "string_ok \<lparr>s_str = [0x61, 0xe9], u_data = Width1 [0x61, 0xe9]\<rparr>"
    "string_ok \<lparr>s_str = [0x61, 0xe2, 0x82, 0xac], u_data = Width2 [0x61, 0x20ac]\<rparr>"
    using calculation by simp_all
  moreover have "bytes_of False [0x61, 0x20ac] = Inl ValueError" by code_simp
  ultimately show ?thesis
    using string_variants_correct [of "\<lparr>s_str = [0x61, 0xe9], u_data = Width1 [0x61, 0xe9]\<rparr>"]
      string_variants_correct [of "\<lparr>s_str = [0x61, 0xe2, 0x82, 0xac], u_data = Width2 [0x61, 0x20ac]\<rparr>" 0 False]
    by simp
qed

text \<open>
  C17: The UTF-16 of a string.  It is right for characters up to U+FFFF that are no surrogates, at every
  width.  The pair for a character above is made without subtracting 0x10000, so that a reader gets a
  character 0x10000 too high: packing the UTF-16 of a string into a string again does not give the
  same characters.  Where a surrogate of a string of width 2 is to be replaced, writing goes on at
  the index 1 instead of that of the surrogate: behind the buffer if it is the first character, else
  over the characters in between, with a NUL in the middle.
\<close>

theorem utf16_encode_characterized:
  assumes "string_ok s" "list_all bmp_char (data_chars (u_data s))"
    and "list_all (\<lambda>ch. \<not> utf16_bad ch \<and> ch < 0x100000) cs"
    and "list_all (\<lambda>ch. \<not> is_surrogate (ucast ch)) t" "2 \<le> length t" "is_surrogate (ucast x)"
  shows "DeeString_AsUtf16 s error_mode = Some (Inr (map Some (units_of (data_chars (u_data s)))))
    \<and> (\<exists>u s'. DeeString_AsUtf16 \<lparr>s_str = utf32_to_utf8 cs, u_data = Width4 cs\<rparr> error_mode = Some (Inr (map Some u))
         \<and> DeeString_PackUtf16Buffer u error_mode = Some (Inr s') \<and> data_chars (u_data s') = map shifted cs)
    \<and> DeeString_AsUtf16 \<lparr>s_str = str, u_data = Width2 (x # rest)\<rparr> STRING_ERROR_FREPLAC = None
    \<and> (\<exists>r. DeeString_AsUtf16 \<lparr>s_str = str, u_data = Width2 (t @ x # rest)\<rparr> STRING_ERROR_FREPLAC = Some (Inr r)
         \<and> length r = length (t @ x # rest)
         \<and> take (length rest + 3) r = map Some (hd t # 0x3f # map replaced rest @ [0]))"
  using as_utf16_bmp [OF assms(1,2), of error_mode] as_utf16_wide [OF assms(3)] pack_units [of "map shifted cs" error_mode]
    as_utf16_surrogate [OF _ assms(6), of "[]" str rest] fixed_first as_utf16_surrogate [OF assms(4,6), of str rest]
    fixed_later [OF assms(5), of x rest]
  by (auto simp: string_of_def)

lemma utf16_encode_characterized_witness:
  "(\<exists>u s'. DeeString_AsUtf16 \<lparr>s_str = [0xf0, 0x9f, 0x98, 0x80], u_data = Width4 [0x1f600]\<rparr> 0 = Some (Inr (map Some u))
     \<and> DeeString_PackUtf16Buffer u 0 = Some (Inr s') \<and> data_chars (u_data s') = [0x2f600])
   \<and> DeeString_AsUtf16 \<lparr>s_str = [], u_data = Width2 [0xd800]\<rparr> STRING_ERROR_FREPLAC = None
   \<and> (\<exists>r. DeeString_AsUtf16 \<lparr>s_str = [], u_data = Width2 [0x61, 0x62, 0xd800]\<rparr> STRING_ERROR_FREPLAC = Some (Inr r)
        \<and> r = map Some [0x61, 0x3f, 0])"
proof -
  have s: "string_ok \<lparr>s_str = [0x61], u_data = Width1 [0x61]\<rparr>"
    "list_all bmp_char (data_chars (u_data \<lparr>s_str = [0x61], u_data = Width1 [0x61]\<rparr>))"
    by (simp_all add: bmp_char_def is_surrogate_def surrogate_nat word_le_nat_alt)
  have c: "list_all (\<lambda>ch. \<not> utf16_bad ch \<and> ch < 0x100000) [0x1f600]"
    by (simp add: utf16_bad_def word_le_nat_alt word_less_nat_alt)
  have t: "list_all (\<lambda>ch. \<not> is_surrogate (ucast ch)) [0x61, 0x62 :: u16]" "2 \<le> length [0x61, 0x62 :: u16]"
    "is_surrogate (ucast (0xd800 :: u16))"
    by (simp_all add: is_surrogate_def surrogate_nat)
  have u: "utf32_to_utf8 [0x1f600] = [0xf0, 0x9f, 0x98, 0x80]" "map shifted [0x1f600] = [0x2f600]" by code_simp+
  show ?thesis
    using utf16_encode_characterized [OF s c t, of 0 "[]" "[]"] unfolding u by auto
qed

end
