(* ===== verification/StringHash.thy ===== *)
theory StringHash
  imports StringVariants
begin

text \<open>
  The hashes of strings (src/deemon/runtime/hash.c, with hashes of 64 bits on a machine that is little
  endian, and the functions of src/deemon/objects/string.c that call them), and the table of the
  strings of one character with their hashes (src/deemon/objects/unicode/unicode.c).
\<close>

section \<open>The loop\<close>

definition hash_m :: u64 where "hash_m = 0xc6a4a7935bd1e995"
definition hash_r :: nat where "hash_r = 47"

text \<open>The bytes of a 16-bit and of a 32-bit character, folded into one.\<close>

definition packw :: "u16 \<Rightarrow> u16" where
  "packw x = (x AND 0xff) XOR drop_bit 8 (x AND 0xff00)"

definition packl :: "u32 \<Rightarrow> u32" where
  "packl x = (x AND 0xff) XOR drop_bit 8 (x AND 0xff00) XOR drop_bit 16 (x AND 0xff0000) XOR drop_bit 24 (x AND 0xff000000)"

text \<open>Eight bytes in a word of 64 bits, the first one lowest.\<close>

fun pack8 :: "u64 list \<Rightarrow> u64" where
  "pack8 [] = 0"
| "pack8 (b # bs) = b OR push_bit 8 (pack8 bs)"

definition hash_block :: "u64 \<Rightarrow> u64 \<Rightarrow> u64" where
  "hash_block h k =
     (let k = k * hash_m; k = k XOR drop_bit hash_r k; k = k * hash_m; h = h XOR k in h * hash_m)"

text \<open>The fewer than eight bytes at the end, from the last to the first.\<close>

fun xor_bytes :: "nat \<Rightarrow> u64 list \<Rightarrow> u64 \<Rightarrow> u64" where
  "xor_bytes i [] h = h"
| "xor_bytes i (b # bs) h = xor_bytes (i + 1) bs h XOR push_bit (8 * i) b"

definition hash_finish :: "u64 list \<Rightarrow> u64 \<Rightarrow> u64" where
  "hash_finish bs h =
     (let h = (if bs = [] then h else xor_bytes 0 bs h * hash_m);
          h = h XOR drop_bit hash_r h; h = h * hash_m
      in h XOR drop_bit hash_r h)"

text \<open>
  The loop of the functions of an array, with the byte that a character contributes to a block, and
  to what is left behind the blocks.
\<close>

function hash_loop :: "('a \<Rightarrow> u64) \<Rightarrow> ('a \<Rightarrow> u64) \<Rightarrow> 'a list \<Rightarrow> u64 \<Rightarrow> u64" where
  "hash_loop block tail ptr h =
     (if length ptr \<ge> 8 then hash_loop block tail (drop 8 ptr) (hash_block h (pack8 (map block (take 8 ptr))))
      else hash_finish (map tail ptr) h)"
  by pat_completeness auto
termination by (relation "measure (\<lambda>(block, tail, ptr, h). length ptr)") auto

declare hash_loop.simps [simp del]

section \<open>The functions\<close>

definition Dee_HashPtr :: "u8 list \<Rightarrow> u64" where
  "Dee_HashPtr ptr = hash_loop ucast ucast ptr 0"

definition Dee_Hash2Byte :: "u16 list \<Rightarrow> u64" where
  "Dee_Hash2Byte ptr = hash_loop (\<lambda>ch. ucast (packw ch)) (\<lambda>ch. ucast (packw ch)) ptr 0"

definition Dee_Hash4Byte :: "u32 list \<Rightarrow> u64" where
  "Dee_Hash4Byte ptr = hash_loop (\<lambda>ch. ucast (packl ch)) (\<lambda>ch. ucast (packl ch)) ptr 0"

text \<open>
  \<open>DeeUni_ToLower\<close> adds the \<open>ut_lower\<close> of the descriptor of the character; the descriptors are
  generated data, and a parameter, for the characters below \<open>UNICODE_COUNT\<close>.  The others have the
  default descriptor, which adds 0.
\<close>

definition UNICODE_COUNT :: u32 where "UNICODE_COUNT = 0xe01f0"

definition DeeUni_ToLower :: "(u32 \<Rightarrow> u32) \<Rightarrow> u32 \<Rightarrow> u32" where
  "DeeUni_ToLower ut_lower ch = ch + (if ch < UNICODE_COUNT then ut_lower ch else 0)"

text \<open>
  In the blocks of \<open>Dee_HashCasePtr\<close> a byte is a \<open>char\<close>, which is signed on the machines that the
  program is built for; the tail reads bytes that are unsigned.
\<close>

definition Dee_HashCasePtr :: "(u32 \<Rightarrow> u32) \<Rightarrow> u8 list \<Rightarrow> u64" where
  "Dee_HashCasePtr ut_lower ptr =
     hash_loop (\<lambda>ch. ucast (ucast (DeeUni_ToLower ut_lower (scast ch)) :: u8))
       (\<lambda>ch. ucast (DeeUni_ToLower ut_lower (ucast ch))) ptr 0"

definition Dee_HashCase2Byte :: "(u32 \<Rightarrow> u32) \<Rightarrow> u16 list \<Rightarrow> u64" where
  "Dee_HashCase2Byte ut_lower ptr =
     (let lane = (\<lambda>ch. ucast (packl (DeeUni_ToLower ut_lower (ucast ch)))) in hash_loop lane lane ptr 0)"

definition Dee_HashCase4Byte :: "(u32 \<Rightarrow> u32) \<Rightarrow> u32 list \<Rightarrow> u64" where
  "Dee_HashCase4Byte ut_lower ptr =
     (let lane = (\<lambda>ch. ucast (packl (DeeUni_ToLower ut_lower ch))) in hash_loop lane lane ptr 0)"

text \<open>From UTF-8, the characters of a block are read one by one, up to the end of the text.\<close>

fun read_block :: "nat \<Rightarrow> u8 list \<Rightarrow> u32 list \<times> u8 list" where
  "read_block 0 ptr = ([], ptr)"
| "read_block (Suc n) ptr =
     (if ptr = [] then ([], [])
      else
        let (ch, ptr) = Dee_unicode_readutf8_n ptr; (block, ptr) = read_block n ptr
        in (ch # block, ptr))"

lemma read_block_shorter: "length (snd (read_block n ptr)) + length (fst (read_block n ptr)) \<le> length ptr"
proof (induction n arbitrary: ptr)
  case (Suc n)
  show ?case
  proof (cases "ptr = []")
    case False
    obtain ch p where r: "Dee_unicode_readutf8_n ptr = (ch, p)" by fastforce
    then have "length p < length ptr" using readutf8_n_shorter [OF False] by simp
    then show ?thesis using Suc [of p] r by (simp add: case_prod_beta)
  qed simp
qed simp

function hash_utf8_loop :: "(u32 \<Rightarrow> u32) \<Rightarrow> u8 list \<Rightarrow> u64 \<Rightarrow> u64" where
  "hash_utf8_loop convert ptr h =
     (let (block, ptr) = read_block 8 ptr; bytes = map (\<lambda>ch. ucast (packl (convert ch))) block
      in if length block = 8 then hash_utf8_loop convert ptr (hash_block h (pack8 bytes))
         else hash_finish bytes h)"
  by pat_completeness auto
termination
proof (relation "measure (\<lambda>(convert, ptr, h). length ptr)", goal_cases)
  case (2 convert ptr h x block ptr' bytes)
  then show ?case using read_block_shorter [of 8 ptr] by (cases "read_block 8 ptr") simp
qed simp

declare hash_utf8_loop.simps [simp del]

definition Dee_HashUtf8 :: "u8 list \<Rightarrow> u64" where
  "Dee_HashUtf8 ptr = hash_utf8_loop (\<lambda>ch. ch) ptr 0"

definition Dee_HashCaseUtf8 :: "(u32 \<Rightarrow> u32) \<Rightarrow> u8 list \<Rightarrow> u64" where
  "Dee_HashCaseUtf8 ut_lower ptr = hash_utf8_loop (DeeUni_ToLower ut_lower) ptr 0"

text \<open>The bytes of a C string end at the first NUL.\<close>

definition Dee_HashStr :: "u8 list \<Rightarrow> u64" where
  "Dee_HashStr str = Dee_HashPtr (takeWhile (\<lambda>c. c \<noteq> 0) str)"

definition Dee_HashCombine :: "u64 \<Rightarrow> u64 \<Rightarrow> u64" where
  "Dee_HashCombine a b = a XOR (b + 0x517cc1b727220a95 + push_bit 6 a + drop_bit 2 a)"

section \<open>Strings\<close>

definition DeeString_Hash_uncached :: "dee_string \<Rightarrow> u64" where
  "DeeString_Hash_uncached self =
     (case u_data self of
        Width1 _ \<Rightarrow> Dee_HashPtr (s_str self)
      | Width2 str \<Rightarrow> Dee_Hash2Byte str
      | Width4 str \<Rightarrow> Dee_Hash4Byte str)"

definition DeeString_HashCase :: "(u32 \<Rightarrow> u32) \<Rightarrow> dee_string \<Rightarrow> u64" where
  "DeeString_HashCase ut_lower self =
     (case u_data self of
        Width1 _ \<Rightarrow> Dee_HashCasePtr ut_lower (s_str self)
      | Width2 str \<Rightarrow> Dee_HashCase2Byte ut_lower str
      | Width4 str \<Rightarrow> Dee_HashCase4Byte ut_lower str)"

text \<open>The cached hash \<open>s_hash\<close> is -1 until the hash is first asked for.\<close>

definition DeeString_Hash :: "u64 \<Rightarrow> dee_string \<Rightarrow> u64 \<times> u64" where
  "DeeString_Hash s_hash self =
     (let result = s_hash
      in if result = -1 then let result = DeeString_Hash_uncached self in (result, result)
         else (result, s_hash))"

text \<open>The hashes in the table of the strings of the characters up to U+007F, and from U+0080.\<close>

definition DeeString_Latin1_ascii :: "u64 list" where
  "DeeString_Latin1_ascii =
   [0x0, 0x1ab11ea5a7b2c56e, 0x8488f4ef228ee909, 0x77116fc6d1ba1b16, 0x1edd4915741b947f, 0xe6804c9a9bea3393,
    0xb4c78720ff46ba72, 0x388fa52c5d207365, 0x3dba922ae83728ff, 0x510da8cb03a6ba5d, 0xe2cbf86c66d2232c,
    0xbe0d4913f44279cf, 0x7f5a6d792d8b6f3b, 0x1d2b0ea6ca90151e, 0x711f4a58ba40e6ca, 0x95e9424b074a2862,
    0x7b752455d06e51fe, 0xa6a120f3f2fe083, 0xb7e6b0cd364975ec, 0x3e64fb3c012e2e22, 0x14bea87ca0d1e40b,
    0x3162d58d98387ee, 0xcb4149cbbbb19d28, 0xe6025a629709909d, 0xc5598285b6e88600, 0xa775472e47f202e3,
    0x3a561d4d95202a3c, 0xdbcab62bf0ad3169, 0x9317dd0da1572fc7, 0xa7e39b0dd61f3bdb, 0xa3507485973cb655,
    0x197f29829dca1739, 0xbd8ef03efcae4ca0, 0x75614ceedfdeba7c, 0x14d4241e7e5fc106, 0xf0e41d188dc355aa,
    0xe74b5189f539d341, 0x378920ee36c6b0f7, 0xf447e6678b0567e4, 0x9c5e5395e07b87c4, 0xda5699556e782e41,
    0x2cbea844beffb9, 0x62c5ab1b3070fdc, 0x54079be8faed5cac, 0x5d273b2ad332baa7, 0x5b757171935fd125,
    0x1b2b6c69013a8f64, 0x27081fa8b9e13cd6, 0xd9d9bcaf40fdaad5, 0x447dd899fc2bb5ea, 0x158f35efebb8aab9,
    0x2af4a098b85f5930, 0x74ac3a9b2a405478, 0xe593808f92cf9223, 0x6bc23fbb4830080, 0xe12a6762089fc72b,
    0x3bfb195271a78a93, 0xd414ee5858b98bc2, 0x65929552db381ae8, 0x85ab26de0286c0cc, 0x46a0e90b2e7b6cab,
    0xcdfe2e317adc04d2, 0xf9a2fa989767c666, 0x31baa51535bd1fc0, 0x90e93fb5285b78dd, 0x4f38a775a0938899,
    0x39e9518192e6d2ae, 0xdc7a29ac25a4f8e4, 0xf04cefd058905a68, 0x7acfbe7929f79558, 0xa86ce1c477560280,
    0xd96fd6c55e8464cc, 0x7f6feb701746c571, 0x866e259a1cc5b17e, 0x1feb8a389a63801d, 0x4df2c4d23641ec44,
    0xaf34746271da5603, 0xde2ddf38169307fa, 0x38bca72bc0f50f89, 0x3769074a877921e6, 0xb4ad32aadcf25c82,
    0xb993f2f5e215fb44, 0x77d76d40122506fb, 0xeebe717239e1319b, 0x83d6a552eeb4f730, 0x311b654773e189f0,
    0xa80f37d1f5dab958, 0x799c602b8bbb7c2a, 0x80f31de90234ea81, 0x7f64bc1ecef60ccc, 0x2e68d2d2af66e5e2,
    0xe17e9c8cbc769ca5, 0x857d9075d59e789f, 0xd35e77f1b2e1543c, 0x14b4e6e4cf94e648, 0x2f9338337f06ffcd,
    0x7a5820f1ddcae8d1, 0x4292cee227b9150a, 0x88fbb133f8576bd5, 0x32c769ee5c5509b0, 0x7a452383aa9bf7c4,
    0xe1b161496b7ea7eb, 0x6bb4a0689fbad42e, 0x2bcce9ad79bc2688, 0xe95875365480a8f0, 0x8eb22eda95766e98,
    0xcb27011f259d2446, 0x8d6857fddd7f21cf, 0x2343a72e98024302, 0x7a0c10e3609ea04b, 0x117b8667e4662809,
    0x2c5d5bc33920e200, 0x77f632a4e34f1526, 0x5cafc91a9b37763, 0x6ece84440d42ecf6, 0xbc2cde4bbfc9c10,
    0x91c9d2391242aebc, 0xaa98f317e9e2aa49, 0xbc2f961831e4ef6b, 0x809cbdb5d52b2aa9, 0x4bfc205e59fa416,
    0x4f56b733a4dfc78a, 0x62a103f6518de2b3, 0x40afdafb3939fa19, 0xf345f5312ecd8ccd, 0x31c3104b236e0754,
    0x144e92869850d1f7, 0x2b0457437427bf51]"

definition DeeString_Latin1_high :: "u64 list" where
  "DeeString_Latin1_high =
   [0x99506f59d95da913, 0x35754fc06e5e31a3, 0x9e714eeb41271132, 0xd840a7a52fa600ed, 0x73d2a30325cda55d,
    0x4c4228591bf1f96f, 0x30724347d3f20951, 0x5a866d67cc7f445b, 0x917327fcddf85704, 0x607b7b95d145cf08,
    0x44c6349627184802, 0x13ec69d40bf03caa, 0x177e6b1c4a80a0bb, 0x880f902e83b2d8da, 0x7984551e18dd66b3,
    0x85e239b1188aeaac, 0x4e068e8401b6eb51, 0xe5442bf774cec3e8, 0x22a7aa6b68852196, 0x1537adcaa877718c,
    0x67bbc04909965de, 0xa5b4b22d476e9f13, 0x9be589a46c83d889, 0xa732b43c47c4bd0, 0xad8fa068b6e14bc9,
    0x9410355b44d0ff81, 0xd2271da75c20c499, 0x982a0d6272875c2d, 0xc0a005fb55157ca0, 0x435f9aad494ed59b,
    0x6ed20e950ef243cc, 0x4a857f80c1db1eb5, 0x2fff0ce915b80abb, 0xbd938ea2c75056fc, 0x24012e47f0ff58c4,
    0x7b81264a4305b758, 0xa08822dc512093ba, 0x89ec774f1fc3efa5, 0xa4218a77cf928b20, 0x378c5bc7d28932ed,
    0xce51f239393c566c, 0xcefef2ab59255b65, 0x131012eb1499f1ac, 0xba39153fe4798a42, 0xc79c5f93745e3319,
    0xf85783d9b5fd44f8, 0x6ab6b046a01fd2d4, 0x13b3603ab647f158, 0x1e63bd2046bd502, 0x9567645b511655e,
    0xc56e1fd0f9be4743, 0x4ed56f90cecd1cdb, 0xd44f9594e774f364, 0xa07227702453d1f5, 0x73d68175a5c45b1d,
    0xadf4b3038468dd5d, 0xafb20ebab3ef13e, 0x2e8915a9d41f07b1, 0x6d619776c1931456, 0xb2f56a49e31ceb1d,
    0x7890856d72536f63, 0x1741c31c3ab065f5, 0xae4d280ad1361d4c, 0x9933aea2bfb6c76a, 0xbb54e977176754fe,
    0xefed258d67713c3f, 0x4bca4557ab459e67, 0x38aac49d7479d29d, 0x11f76267f0acd7aa, 0xcec0331491a43040,
    0x7b5a3313e7a634a5, 0x5c4d6a862d740fc1, 0xa55a63e8431e49a, 0x5f2dc204f2f25501, 0xc362c292d6ff4fd7,
    0xcfea35c7bed1f6aa, 0x9e0de8649b44cc38, 0x52e1c78825a0e88a, 0xcf17c34a7c215598, 0x23516d05cfc0f54e,
    0x838a32c8d5d9f394, 0x3b7637a357a5142, 0x1d645db52aeedd30, 0x1cd8fefa4646de6e, 0x5cf2a9d1a70bf440,
    0x4440c5bb5349d492, 0x1ad0affbbafc439f, 0xf96840db7a76cf4a, 0xf76096b95cdbe5cb, 0xcb178d94685c2c32,
    0x6b9611b649e44517, 0x8f94247b227ecb7d, 0x22f70ccfc8cc5012, 0x1be9bda75184e7db, 0x58bab7867241c401,
    0xa3435c8ca7b90dd6, 0x676a55394f4711fd, 0x5963ef834b1479f0, 0x8313e912dc0fe5a6, 0xd35da5ed65c4a4cd,
    0xdd9d08881a85d9ec, 0xd4365583e439108e, 0xde2a435cd3cabceb, 0xc8322fb10cb3361d, 0xea384c058058d783,
    0x2e3f009e2330cf8a, 0xa4589dd3a6f0b641, 0x3ab53e5222d07f16, 0xc785e3d436f4a163, 0x4372ed80843c3abe,
    0xc7de22ff0627cf09, 0x2d58d1808f3560f6, 0x97f840bcb3f482d, 0x9493b5ee0bf67899, 0xedd4260b1ce969e6,
    0xcf3134525fa53b8f, 0xdb0d6723d2178f6d, 0x7ec90f3b775f1197, 0x815fb5f67273f433, 0x6c390dc23ad2e0aa,
    0xe68bea625d99199b, 0xbf334e81c5a86046, 0x79517fcd75d8419b, 0x1f60049a32b4a303, 0xa01b14fcb9489c5f,
    0x4abd1e8baa569960, 0x6e1f6e31525df71, 0xef5f27ae10fd1fb8]"

definition DeeString_Latin1 :: "u64 list" where
  "DeeString_Latin1 = DeeString_Latin1_ascii @ DeeString_Latin1_high"

section \<open>The loop over other characters\<close>

lemma hash_loop_map: "hash_loop block tail (map f ptr) h = hash_loop (block \<circ> f) (tail \<circ> f) ptr h"
proof (induction ptr arbitrary: h rule: length_induct)
  case (1 ptr)
  have "8 \<le> length ptr \<Longrightarrow> hash_loop block tail (map f (drop 8 ptr)) h' = hash_loop (block \<circ> f) (tail \<circ> f) (drop 8 ptr) h'" for h'
    using 1 [rule_format, of "drop 8 ptr"] by simp
  then show ?case
    by (subst (1 2) hash_loop.simps) (simp add: drop_map take_map)
qed

text \<open>The blocks take the characters up to a multiple of eight, the tail the others.\<close>

definition blocks_end :: "'a list \<Rightarrow> nat" where
  "blocks_end ptr = 8 * (length ptr div 8)"

definition block_bytes :: "('a \<Rightarrow> u64) \<Rightarrow> ('a \<Rightarrow> u64) \<Rightarrow> 'a list \<Rightarrow> u64 list" where
  "block_bytes block tail ptr = map block (take (blocks_end ptr) ptr) @ map tail (drop (blocks_end ptr) ptr)"

lemma block_bytes_step:
  assumes "8 \<le> length ptr"
  shows "block_bytes block tail ptr = map block (take 8 ptr) @ block_bytes block tail (drop 8 ptr)"
proof -
  have e: "blocks_end ptr = 8 + blocks_end (drop 8 ptr)"
    using assms le_div_geq [of 8 "length ptr"] by (simp add: blocks_end_def)
  have "take (8 + blocks_end (drop 8 ptr)) ptr = take 8 ptr @ take (blocks_end (drop 8 ptr)) (drop 8 ptr)"
    by (rule take_add)
  then show ?thesis unfolding block_bytes_def e by (simp add: add.commute)
qed

lemma hash_loop_bytes: "hash_loop block tail ptr h = hash_loop (\<lambda>b. b) (\<lambda>b. b) (block_bytes block tail ptr) h"
proof (induction ptr arbitrary: h rule: length_induct)
  case (1 ptr)
  show ?case
  proof (cases "8 \<le> length ptr")
    case True
    have "hash_loop block tail ptr h = hash_loop block tail (drop 8 ptr) (hash_block h (pack8 (map block (take 8 ptr))))"
      using True by (subst hash_loop.simps) simp
    also have "\<dots> = hash_loop (\<lambda>b. b) (\<lambda>b. b) (block_bytes block tail (drop 8 ptr)) (hash_block h (pack8 (map block (take 8 ptr))))"
      using True by (intro 1 [rule_format]) simp
    also have "\<dots> = hash_loop (\<lambda>b. b) (\<lambda>b. b) (map block (take 8 ptr) @ block_bytes block tail (drop 8 ptr)) h"
      using True by (subst (2) hash_loop.simps) simp
    finally show ?thesis using block_bytes_step [OF True] by simp
  next
    case False
    then have "blocks_end ptr = 0" by (simp add: blocks_end_def)
    then show ?thesis using False by (subst (1 2) hash_loop.simps) (simp add: block_bytes_def)
  qed
qed

lemma block_bytes_same: "block_bytes f f ptr = map f ptr"
  by (simp add: block_bytes_def map_append [symmetric] del: map_append)

lemma hash_loop_cong:
  "map f as = map g bs \<Longrightarrow> hash_loop f f as h = hash_loop g g bs h"
  by (simp add: hash_loop_bytes [of f] hash_loop_bytes [of g] block_bytes_same)

section \<open>Characters of other widths\<close>

lemma byte_masks:
  "(0xff :: 'a::len word) = mask 8" "(0xff00 :: u16) = push_bit 8 (mask 8)"
  "(0xff00 :: u32) = push_bit 8 (mask 8)" "(0xff0000 :: u32) = push_bit 16 (mask 8)" "(0xff000000 :: u32) = push_bit 24 (mask 8)"
  by (simp_all add: mask_eq_exp_minus_1)

lemma packw_byte: "packw (ucast (b::u8)) = ucast b"
  unfolding packw_def byte_masks by (rule bit_word_eqI) (auto simp: bit_simps dest: bit_imp_le_length)

lemma packl_unit: "packl (ucast (c::u16)) = ucast (packw c)"
  unfolding packw_def packl_def byte_masks by (rule bit_word_eqI) (auto simp: bit_simps dest: bit_imp_le_length)

lemma hash2_bytes: "Dee_Hash2Byte (map ucast bs) = Dee_HashPtr bs"
  unfolding Dee_Hash2Byte_def Dee_HashPtr_def
  by (rule hash_loop_cong) (simp add: packw_byte word_unat_eq_iff unat_ucast_up)

lemma hash4_units: "Dee_Hash4Byte (map ucast cs) = Dee_Hash2Byte cs"
  unfolding Dee_Hash4Byte_def Dee_Hash2Byte_def
  by (rule hash_loop_cong) (simp add: packl_unit word_unat_eq_iff unat_ucast_up)

lemma hash4_bytes: "Dee_Hash4Byte (map ucast bs) = Dee_HashPtr bs"
proof -
  have "map ucast bs = (map ucast (map ucast bs :: u16 list) :: u32 list)"
    by (simp add: word_unat_eq_iff unat_ucast_up)
  then show ?thesis by (simp only: hash4_units hash2_bytes)
qed

section \<open>UTF-8\<close>

lemma read_block_chars: "read_block n (utf32_to_utf8 cs) = (take n cs, utf32_to_utf8 (drop n cs))"
proof (induction n arbitrary: cs)
  case (Suc n)
  show ?case
  proof (cases cs)
    case (Cons ch cs')
    obtain lead bs where w: "Dee_unicode_writeutf8 ch = lead # bs" "utf8_sequence ch lead bs" by (rule writeutf8_sequence)
    then show ?thesis using Suc read_sequence(1) [OF w(2)] by (simp add: Cons)
  qed simp
qed simp

lemma hash_loop_empty: "hash_loop f g [] h = hash_finish [] h" "hash_utf8_loop convert [] h = hash_finish [] h"
  by (simp_all add: hash_loop.simps hash_utf8_loop.simps eval_nat_numeral)

lemma hash_utf8_chars:
  "hash_utf8_loop convert (utf32_to_utf8 cs) h =
     hash_loop (\<lambda>ch. ucast (packl (convert ch))) (\<lambda>ch. ucast (packl (convert ch))) cs h"
proof (induction cs arbitrary: h rule: length_induct)
  case (1 cs)
  have "8 \<le> length cs \<Longrightarrow> hash_utf8_loop convert (utf32_to_utf8 (drop 8 cs)) h'
      = hash_loop (\<lambda>ch. ucast (packl (convert ch))) (\<lambda>ch. ucast (packl (convert ch))) (drop 8 cs) h'" for h'
    using 1 [rule_format, of "drop 8 cs"] by simp
  then show ?case
    by (subst hash_utf8_loop.simps, subst hash_loop.simps) (simp add: read_block_chars min_def hash_loop_empty)
qed

lemma hash_utf8: "Dee_HashUtf8 (utf32_to_utf8 cs) = Dee_Hash4Byte cs"
  by (simp add: Dee_HashUtf8_def Dee_Hash4Byte_def hash_utf8_chars)

lemma hash_case_utf8: "Dee_HashCaseUtf8 l (utf32_to_utf8 cs) = Dee_HashCase4Byte l cs"
  by (simp add: Dee_HashCaseUtf8_def Dee_HashCase4Byte_def hash_utf8_chars Let_def)

section \<open>Lower case\<close>

lemma bit_nat: "bit x n \<longleftrightarrow> odd (unat (x::'a::len word) div 2 ^ n)"
  by (simp add: bit_iff_odd [symmetric] bit_unsigned_iff)

lemma high_byte: "bit (b::u8) 7 \<longleftrightarrow> \<not> b \<le> 0x7f"
proof -
  have "unat b < 256" by (rule byte_nat)
  then have "unat b div 128 = 0 \<or> unat b div 128 = 1" by linarith
  then show ?thesis by (auto simp: bit_nat word_le_nat_alt)
qed

lemma signed_low:
  assumes "(b::u8) \<le> 0x7f"
  shows "(scast b :: u32) = ucast b"
proof (rule bit_word_eqI)
  fix n
  assume "n < LENGTH(32)"
  moreover have "n = 7" if "bit b n" "7 \<le> n" using bit_imp_le_length [OF that(1)] that(2) by simp
  ultimately show "bit (scast b :: u32) n \<longleftrightarrow> bit (ucast b :: u32) n"
    using assms high_byte [of b] by (auto simp: bit_simps min_def)
qed

lemma signed_high:
  assumes "\<not> (b::u8) \<le> 0x7f"
  shows "\<not> (scast b :: u32) < UNICODE_COUNT" "(ucast (scast b :: u32) :: u8) = b"
proof -
  have "bit (scast b :: u32) 31" using assms high_byte [of b] by (simp add: bit_simps)
  then have "0 < unat (scast b :: u32) div 2 ^ 31" unfolding bit_nat by (rule odd_pos)
  then have "2 ^ 31 \<le> unat (scast b :: u32)" by (simp add: div_greater_zero_iff)
  then show "\<not> (scast b :: u32) < UNICODE_COUNT" by (simp add: word_less_nat_alt UNICODE_COUNT_def)
  show "(ucast (scast b :: u32) :: u8) = b" by (rule bit_word_eqI) (auto simp: bit_simps)
qed

definition lower_byte :: "(u32 \<Rightarrow> u32) \<Rightarrow> u8 \<Rightarrow> u8" where
  "lower_byte ut_lower b = ucast (DeeUni_ToLower ut_lower (ucast b))"

text \<open>The lower case of a character up to U+00FF is one of these.\<close>

definition lowers_bytes :: "(u32 \<Rightarrow> u32) \<Rightarrow> bool" where
  "lowers_bytes ut_lower \<longleftrightarrow> (\<forall>b::u8. DeeUni_ToLower ut_lower (ucast b) \<le> 0xff)"

lemma lower_byte_char: "lowers_bytes l \<Longrightarrow> ucast (lower_byte l b) = DeeUni_ToLower l (ucast b)"
proof -
  assume "lowers_bytes l"
  then have "unat (DeeUni_ToLower l (ucast b)) \<le> 255" by (simp add: lowers_bytes_def word_le_nat_alt)
  then show ?thesis by (simp add: lower_byte_def word_unat_eq_iff word_nat)
qed

lemma case_block_byte:
  "(ucast (DeeUni_ToLower l (scast b)) :: u8) = (if b \<le> 0x7f then lower_byte l b else b)"
  using signed_low [of b] signed_high [of b] by (simp add: lower_byte_def DeeUni_ToLower_def)

lemma hash_case_ptr:
  assumes "lowers_bytes l"
  shows "Dee_HashCasePtr l bs = Dee_HashPtr
    (map (\<lambda>b. if b \<le> 0x7f then lower_byte l b else b) (take (blocks_end bs) bs) @ map (lower_byte l) (drop (blocks_end bs) bs))"
proof -
  have t: "ucast (DeeUni_ToLower l (ucast b)) = (ucast (lower_byte l b) :: u64)" for b
    using lower_byte_char [OF assms, of b] by (simp add: word_unat_eq_iff unat_ucast_up flip: lower_byte_char [OF assms])
  show ?thesis
    unfolding Dee_HashCasePtr_def Dee_HashPtr_def
    by (simp add: case_block_byte t hash_loop_bytes [of "ucast :: u8 \<Rightarrow> u64"]
        hash_loop_bytes [of "\<lambda>ch. ucast (if ch \<le> 0x7f then lower_byte l ch else ch)"] block_bytes_same block_bytes_def comp_def)
qed

lemma hash_case4: "Dee_HashCase4Byte l cs = Dee_Hash4Byte (map (DeeUni_ToLower l) cs)"
  by (simp add: Dee_HashCase4Byte_def Dee_Hash4Byte_def hash_loop_map comp_def Let_def)

lemma hash_case2: "Dee_HashCase2Byte l cs = Dee_HashCase4Byte l (map ucast cs)"
  by (simp add: Dee_HashCase4Byte_def Dee_HashCase2Byte_def hash_loop_map comp_def Let_def)

lemma hash_case_latin1: "lowers_bytes l \<Longrightarrow> Dee_HashCase4Byte l (map ucast bs) = Dee_HashPtr (map (lower_byte l) bs)"
  using lower_byte_char [of l] by (simp add: hash_case4 comp_def flip: hash4_bytes)

section \<open>Properties\<close>

text \<open>The hash of a string object is that of its characters.\<close>

lemma hash_chars: "string_ok s \<Longrightarrow> DeeString_Hash_uncached s = Dee_Hash4Byte (data_chars (u_data s))"
  by (erule ok_cases) (simp_all add: DeeString_Hash_uncached_def hash4_bytes hash4_units)

text \<open>A quarter of the table of one-character strings at a time.\<close>

lemma latin1_hashes_1: "map (\<lambda>i. Dee_HashPtr [of_nat i]) [0..<64] = take 64 DeeString_Latin1_ascii"
  by code_simp

lemma latin1_hashes_2: "map (\<lambda>i. Dee_HashPtr [of_nat i]) [64..<128] = drop 64 DeeString_Latin1_ascii"
  by code_simp

lemma latin1_hashes_3: "map (\<lambda>i. Dee_HashPtr [of_nat i]) [128..<192] = take 64 DeeString_Latin1_high"
  by code_simp

lemma latin1_hashes_4: "map (\<lambda>i. Dee_HashPtr [of_nat i]) [192..<256] = drop 64 DeeString_Latin1_high"
  by code_simp

lemma latin1_table: "DeeString_Latin1 = map (\<lambda>i. Dee_HashPtr [of_nat i]) [0..<256]"
proof -
  have "[0..<256::nat] = [0..<64] @ [64..<128] @ [128..<192] @ [192..<256]"
    using upt_add_eq_append [of 0 64 192] upt_add_eq_append [of 64 128 128] upt_add_eq_append [of 128 192 64] by simp
  then show ?thesis
    by (simp only: map_append latin1_hashes_1 latin1_hashes_2 latin1_hashes_3 latin1_hashes_4 DeeString_Latin1_def
        append_assoc [symmetric] append_take_drop_id) (simp only: append_assoc append_take_drop_id)
qed

lemma string_hash_of_chars:
  assumes "string_ok s" "string_ok s'" "data_chars (u_data s) = data_chars (u_data s')"
  shows "DeeString_Hash_uncached s = DeeString_Hash_uncached s'
    \<and> map_option Dee_HashUtf8 (DeeString_AsUtf8 s) = Some (DeeString_Hash_uncached s')
    \<and> (let (h, s_hash) = DeeString_Hash (-1) s
       in h = DeeString_Hash_uncached s' \<and> DeeString_Hash s_hash s = (h, s_hash))
    \<and> DeeString_Latin1 = map (\<lambda>i. Dee_HashPtr [of_nat i]) [0..<256]"
  using hash_chars [OF assms(1)] hash_chars [OF assms(2)] as_utf8_chars [OF assms(1)] assms(3)
  by (intro conjI latin1_table) (simp_all add: hash_utf8 DeeString_Hash_def Let_def)

lemma string_case_hash:
  assumes "lowers_bytes ut_lower"
  shows "Dee_HashCase4Byte ut_lower cs = Dee_Hash4Byte (map (DeeUni_ToLower ut_lower) cs)
    \<and> Dee_HashCase2Byte ut_lower ws = Dee_HashCase4Byte ut_lower (map ucast ws)
    \<and> Dee_HashCaseUtf8 ut_lower (utf32_to_utf8 cs) = Dee_HashCase4Byte ut_lower cs
    \<and> Dee_HashCase4Byte ut_lower (map ucast bs) = Dee_HashPtr (map (lower_byte ut_lower) bs)
    \<and> Dee_HashCasePtr ut_lower bs = Dee_HashPtr
         (map (\<lambda>b. if b \<le> 0x7f then lower_byte ut_lower b else b) (take (blocks_end bs) bs)
          @ map (lower_byte ut_lower) (drop (blocks_end bs) bs))"
  using hash_case4 hash_case2 hash_case_utf8 hash_case_latin1 [OF assms] hash_case_ptr [OF assms] by blast

text \<open>
  C18: The hashes of strings.  Strings with the same characters have the same hash, whatever their widths.
  It is the hash of the UTF-8 of the string, too; asking for the hash of a string again gives the same
  one, whether it is cached or (if it is -1) computed again.  The hashes in the table of the strings of one
  character are those that the function computes.  Of the case-insensitive functions those for 16-bit and
  32-bit characters and for UTF-8 agree: they hash the characters in lower case.  That for bytes does so
  in its tail, but in the blocks of eight bytes only for bytes up to 0x7f: the others are sign-extended
  to characters that do not exist, which have no lower case.  So strings that differ in the case of such a
  character, or only in their width, have different case-insensitive hashes.
\<close>

theorem string_hash_characterized:
  assumes "string_ok s" "string_ok s'" "data_chars (u_data s) = data_chars (u_data s')" "lowers_bytes ut_lower"
  shows "DeeString_Hash_uncached s = DeeString_Hash_uncached s'
    \<and> map_option Dee_HashUtf8 (DeeString_AsUtf8 s) = Some (DeeString_Hash_uncached s')
    \<and> (let (h, s_hash) = DeeString_Hash (-1) s
       in h = DeeString_Hash_uncached s' \<and> DeeString_Hash s_hash s = (h, s_hash))
    \<and> DeeString_Latin1 = map (\<lambda>i. Dee_HashPtr [of_nat i]) [0..<256]
    \<and> Dee_HashCase4Byte ut_lower cs = Dee_Hash4Byte (map (DeeUni_ToLower ut_lower) cs)
    \<and> Dee_HashCase2Byte ut_lower ws = Dee_HashCase4Byte ut_lower (map ucast ws)
    \<and> Dee_HashCaseUtf8 ut_lower (utf32_to_utf8 cs) = Dee_HashCase4Byte ut_lower cs
    \<and> Dee_HashCase4Byte ut_lower (map ucast bs) = Dee_HashPtr (map (lower_byte ut_lower) bs)
    \<and> Dee_HashCasePtr ut_lower bs = Dee_HashPtr
         (map (\<lambda>b. if b \<le> 0x7f then lower_byte ut_lower b else b) (take (blocks_end bs) bs)
          @ map (lower_byte ut_lower) (drop (blocks_end bs) bs))"
  using string_hash_of_chars [OF assms(1-3)] string_case_hash [OF assms(4)] by blast

text \<open>
  The same two characters at the widths 1 and 2, and eight times E-acute at these widths; the descriptors
  are those of Latin-1.
\<close>

definition latin1_lower :: "u32 \<Rightarrow> u32" where
  "latin1_lower ch = (if 0x41 \<le> ch \<and> ch \<le> 0x5a \<or> 0xc0 \<le> ch \<and> ch \<le> 0xde \<and> ch \<noteq> 0xd7 then 0x20 else 0)"

lemma string_hash_characterized_witness:
  "DeeString_Hash_uncached \<lparr>s_str = [0x61, 0xe9], u_data = Width1 [0x61, 0xe9]\<rparr>
     = DeeString_Hash_uncached \<lparr>s_str = [0x61, 0xc3, 0xa9], u_data = Width2 [0x61, 0xe9]\<rparr>
   \<and> DeeString_HashCase latin1_lower \<lparr>s_str = replicate 8 0xc9, u_data = Width1 (replicate 8 0xc9)\<rparr>
     \<noteq> DeeString_HashCase latin1_lower \<lparr>s_str = concat (replicate 8 [0xc3, 0x89]), u_data = Width2 (replicate 8 0xc9)\<rparr>"
proof -
  have "unat (DeeUni_ToLower latin1_lower (ucast b)) \<le> 255" for b :: u8
    using byte_nat [of b]
    by (auto simp: DeeUni_ToLower_def latin1_lower_def word_le_nat_alt unat_ucast_up unat_word_ariths)
  then have "lowers_bytes latin1_lower" by (simp add: lowers_bytes_def word_le_nat_alt)
  moreover have "Dee_HashPtr (replicate 8 0xc9) \<noteq> Dee_HashPtr (replicate 8 0xe9)" by code_simp
  moreover have "lower_byte latin1_lower 0xc9 = 0xe9" "\<not> (0xc9 :: u8) \<le> 0x7f" by code_simp+
  moreover have "utf32_to_utf8 [0x61, 0xe9] = [0x61, 0xc3, 0xa9]" by code_simp
  ultimately show ?thesis
    using string_hash_characterized [of "\<lparr>s_str = [0x61, 0xe9], u_data = Width1 [0x61, 0xe9]\<rparr>"
        "\<lparr>s_str = [0x61, 0xc3, 0xa9], u_data = Width2 [0x61, 0xe9]\<rparr>" latin1_lower "[]" "replicate 8 0xc9" "replicate 8 0xc9"]
    by (simp add: DeeString_HashCase_def blocks_end_def)
qed

end
