(* ===== verification/Spec2Isabelle.thy ===== *)
theory Spec2Isabelle
  imports IntDiv IntMul IntConv IntBits IntCompare DistinctIter
    IntLeb IntBytes IntPrint IntParse IntAtoi SharedLock Once Semaphore SharedRWLock DequeRotate SeqSort StringHash
begin

text \<open>
  A verification library for the arbitrary-precision integers, the set of encountered elements, the
  blocking locks, the deque and the strings of the deemon language.

  What the program is.  deemon (src/) is a scripting language: a compiler to bytecode, an
  interpreter, an object runtime and a set of extension modules, all written in C.  Its
  integers are objects of unbounded size (\<open>DeeIntObject\<close>, include/deemon/int.h); every integer
  literal, index, length and counter of a deemon program is one, and the arithmetic behind them is
  src/deemon/objects/int_logic.c with the conversions of src/deemon/objects/int.c.

  How it is modelled.  The configuration is the 64-bit one: digits of 30 bits in a \<open>uint32_t\<close>,
  double digits in a \<open>uint64_t\<close>, static objects for -128 to 255.  A C integer is a word of its
  width, so every wrap-around of the code is in the model.  An object is a record with the signed
  size and the array of digits; the array keeps what the code leaves behind the size.  A loop over
  an array is a recursion over the list of its digits, with the carry as an argument.  An error is
  the left value of a sum.  Memory allocation always succeeds and no interrupt arrives, so the
  branches that only forward such a failure are not modelled.  Reference counts appear only where
  the code asks whether an object is shared.

  Theories:
  \<^item> Prelude: errors, widths, word and division lemmas.
  \<^item> IntDigits: digit vectors and the in-place vector routines; \<open>dval\<close> is the number of a vector.
  \<^item> IntObject: the object, its invariant \<open>int_ok\<close>, its value \<open>int_val\<close>, normalization, the
    constructors from machine integers.
  \<^item> IntAddSub: sums, differences, negation, machine operands, increment and decrement.
  \<^item> IntMul: schoolbook product, squaring, Karatsuba, powers; the locale \<open>int_multiplier\<close> is the
    contract the power algorithms rest on.
  \<^item> IntDiv: division by one digit, Knuth's algorithm D, truncating and flooring operators.

  \<^item> IntConv: reading an integer as a machine integer of 8 to 128 bits; the locale \<open>int_reader\<close> is
    the contract of the \<open>DeeInt_TryGet\<close> functions.
  \<^item> IntBits: shifts and the bitwise operators over two's complement of unbounded width.
  \<^item> IntCompare: comparison, hashing, comparison with machine sizes; normalized integers form a
    \<open>linorder\<close> under the comparison routine.
  \<^item> IntLeb: reading and writing integers in LEB, seven bits per byte; \<open>uleb_enc\<close> and \<open>sleb_enc\<close> are
    the encodings meant, and the lemmas follow the readers and writers digit by digit.
  \<^item> IntBytes: reading and writing integers as bytes of any length and order, the number of bits
    an integer needs, and the methods \<open>bitcount\<close>, \<open>tobytes\<close> and \<open>frombytes\<close>; \<open>le_bytes\<close> and
    \<open>bytes_val\<close> are the bytes of a number and the number of bytes, \<open>reads_back\<close> says
    when the reader of signed bytes is exact.
  \<^item> IntPrint: \<open>DeeInt_Print\<close> in the radices 2, 4, 8, 10 and 16 with sign, prefix, precision and separators,
    and the methods that return its text; \<open>number_text\<close> is the text meant.  A write in front of the
    buffer is the value \<open>None\<close>.  The conversion to decimal and the grouping of bits are each proved to
    give \<open>radix_digits\<close> of the value, and \<open>separated\<close> is shown to be what the padding completes.
  \<^item> IntParse: \<open>DeeInt_FromString\<close> and \<open>DeeInt_FromAscii\<close>, byte by byte; the results \<open>Invalid\<close>, \<open>Outside\<close> and
    \<open>Endless\<close> are the error, a read behind the text and a loop that does not move.  \<open>text_spec\<close> is the
    integer of an ASCII text, and reading is shown to invert printing.  The unicode database is generated
    and a parameter; \<open>ascii_db\<close> is what is asked of its first 128 characters.
  \<^item> IntAtoi: \<open>Dee_Atoi8\<close> to \<open>Dee_Atoi64\<close>, with the overflow of the digits (\<open>atoi_spec\<close>) and of the width
    (\<open>atoi_narrow\<close>); where they succeed they agree with \<open>text_spec\<close> up to \<open>2\<^sup>6\<^sup>4\<close>.
  \<^item> Probing: the probe sequence of the hash tables, which visits every slot.
  \<^item> SimpleHashset: the open-addressing set of src/deemon/runtime/simple-hashset.c; its invariant
    \<open>hs_inv\<close>; the locale \<open>hash_key\<close> is the contract of user-defined hash and equality.
  \<^item> DistinctIter: the iterators that skip what they have produced (objects/seq/unique-iterator.c),
    on top of the set, with integers as an instance of the element contract.

  \<^item> Futex: threads at program points, the documented behaviour of \<open>DeeFutex_Wait*\<close> and
    \<open>DeeFutex_Wake*\<close> as steps, sums over threads (\<open>tally\<close>).
  \<^item> SharedLock, Once, Semaphore, SharedRWLock: the blocking primitives of
    src/deemon/runtime/lock.c and include/deemon/util/lock.h, once.h.  Every atomic operation of a
    function is a step of one thread; \<open>lock_step\<close>, \<open>once_step\<close>, \<open>sem_step\<close> and \<open>rw_step\<close> interleave
    the threads, and a property holds in every state reachable from the initializer.  The lemmas
    give an invariant that ties the word to the threads that hold the lock, and for three of them
    a second one: while the lock is free and a thread sleeps, some thread is about to act.

  \<^item> DequeEnds, DequeItems, DequeRotate: the deque of src/dex/collections (deque.c and
    libcollections.h), a list of buckets of the same size whose slots hold the items; \<open>deque_holds\<close>
    relates it to the list of its items, and every operation is shown to do what it does to that
    list.  A slot without item and a failed assertion are the value \<open>None\<close>, so a result also says that
    no such access happens.  The locale \<open>appender\<close> is the contract of appending that construction
    rests on.  The four rotations and what is built on them (insertion and removal by index) do not
    do what they are meant to; their properties state what they do instead.

  \<^item> SeqSort: the sorting template of objects/seq/sort-impl.c.inl and its callers.  The merge sort works on
    the two buffers as the code does; \<open>sort_items\<close> is the same without buffers, and \<open>in_buffers\<close> ties
    them.  The comparison, the key and the item accessor are parameters that may fail.
    \<open>insert_by\<close> is one step of the insertion sort on lists, with and without a key.  The locale
    \<open>sort_order\<close> is the contract of a comparison by a linear order, interpreted on the operator of the
    integers.  One group of lemmas holds under that contract, another for arbitrary callbacks.

  \<^item> Utf8: one character in UTF-8 (include/deemon/stringutils.h, objects/unicode/unicode.c); the
    predicate \<open>utf8_sequence\<close> says what the bytes of a character are, and every reader is shown to
    take it back.
  \<^item> StringPack, StringUtf16, StringVariants: the string object of objects/unicode/unicode.c with its
    bytes and its characters at a width of 1, 2 or 4 bytes; building it from UTF-8, UTF-16, UTF-32 and
    16-bit characters, and getting it as bytes, UTF-8, UTF-16 and wider characters.  \<open>string_of cs s\<close>
    relates a string to its characters, and \<open>string_ok\<close> is the invariant of a string object.  An
    assertion that fails, a write behind a buffer and a cell never written are the value \<open>None\<close>.
  \<^item> StringHash: the 64-bit hashes of runtime/hash.c, on a little endian machine whose \<open>char\<close> is
    signed; the case conversion of the characters is generated data and a parameter.

  Bounds: fewer than \<open>2\<^sup>3\<^sup>2\<close> threads use a lock (its counter of waiting threads is a \<open>uint32_t\<close>), the
  counter of a once-block stays below \<open>2\<^sup>3\<^sup>1\<close>, and there are fewer than \<open>2\<^sup>6\<^sup>4 - 2\<close> readers (asserted
  by the code); memory accesses are sequentially consistent.

  Every loop is a structural recursion or has a measure, so all operations are total.  Fuel is used for
  the loop of \<open>int_reqbits\<close> over a negative digit, the 30 bits of a digit, and for counting the digits of
  the last element in \<open>DeeInt_PrintDecimal\<close>, ten of them, and for the loop of \<open>Dee_Atoi64_impl\<close>, whose linefeed branch moves back; the lemmas
  on them show that it is enough (for the last one on texts without a backslash).

  A text to be read is the list of its bytes, without a terminating NUL, and its length and the precision
  are natural numbers; printing is proved for precisions below \<open>2\<^sup>6\<^sup>4\<close>.

  Not modelled: the functions compiled only for 15-bit digits, allocation, the recursive variants
  of the locks, thread objects, and the other components of the runtime (see the manifest for the list).
\<close>

end
